(* ===== verification/Prelude.thy ===== *)
theory Prelude
  imports Main "HOL-Library.Word"
begin

text \<open>
  Shared vocabulary of the development: machine integers, byte strings, Rust's checked
  arithmetic, the iterator operations the code uses (\<open>position\<close>, \<open>min_by\<close>), and the
  generic lemmas about them. A Rust \<open>Result\<close> is a sum with the error on the left, a Rust
  \<open>String\<close> is the list of its UTF-8 bytes (Isabelle's \<open>char\<close> is one byte), and a Rust
  \<open>usize\<close> that only counts or indexes is a \<open>nat\<close>; a \<open>u64\<close> whose overflow matters is a
  64-bit word.
\<close>

unbundle bit_operations_syntax

section \<open>Types\<close>

type_synonym u8 = "8 word"
type_synonym u32 = "32 word"
type_synonym u64 = "64 word"
type_synonym str = "char list"

section \<open>Checked machine arithmetic\<close>

definition checked_add :: "u64 \<Rightarrow> u64 \<Rightarrow> u64 option" where
  "checked_add a b = (if unat a + unat b < 2 ^ 64 then Some (a + b) else None)"

definition checked_mul :: "u64 \<Rightarrow> u64 \<Rightarrow> u64 option" where
  "checked_mul a b = (if unat a * unat b < 2 ^ 64 then Some (a * b) else None)"

lemma checked_add_Some: "checked_add a b = Some c \<longleftrightarrow> unat a + unat b < 2 ^ 64 \<and> c = a + b"
  by (auto simp: checked_add_def)

lemma checked_mul_Some: "checked_mul a b = Some c \<longleftrightarrow> unat a * unat b < 2 ^ 64 \<and> c = a * b"
  by (auto simp: checked_mul_def)

lemma unat_add_no_overflow: "unat (a::u64) + unat b < 2 ^ 64 \<Longrightarrow> unat (a + b) = unat a + unat b"
  by (simp add: unat_word_ariths)

lemma unat_mul_no_overflow: "unat (a::u64) * unat b < 2 ^ 64 \<Longrightarrow> unat (a * b) = unat a * unat b"
  by (simp add: unat_word_ariths)

lemma unat_checked_add: "checked_add a b = Some c \<Longrightarrow> unat c = unat a + unat b"
  by (simp add: checked_add_Some unat_add_no_overflow)

lemma unat_checked_mul: "checked_mul a b = Some c \<Longrightarrow> unat c = unat a * unat b"
  by (simp add: checked_mul_Some unat_mul_no_overflow)

section \<open>Iterator operations\<close>

text \<open>\<open>Iterator::position\<close>: the index of the first element that satisfies the predicate.\<close>

fun position :: "('a \<Rightarrow> bool) \<Rightarrow> 'a list \<Rightarrow> nat option" where
  "position P [] = None"
| "position P (x # xs) = (if P x then Some 0 else map_option Suc (position P xs))"

lemma position_None: "position P xs = None \<longleftrightarrow> (\<forall>x \<in> set xs. \<not> P x)"
  by (induction xs) auto

lemma position_Some: "position P xs = Some i \<Longrightarrow> i < length xs \<and> P (xs ! i) \<and> (\<forall>j < i. \<not> P (xs ! j))"
proof (induction xs arbitrary: i)
  case (Cons x xs)
  show ?case
  proof (cases "P x")
    case False
    with Cons.prems obtain k where k: "position P xs = Some k" "i = Suc k" by auto
    with Cons.IH False show ?thesis by (auto simp: less_Suc_eq_0_disj)
  qed (use Cons.prems in auto)
qed simp

lemma position_Some_iff: "(\<exists>i. position P xs = Some i) \<longleftrightarrow> (\<exists>x \<in> set xs. P x)"
  by (induction xs) auto

text \<open>
  \<open>Iterator::min_by\<close>: the least element, the first of several equal ones;
  \<open>gt a b\<close> says that \<open>a\<close> is strictly greater than \<open>b\<close>.
\<close>

fun min_by_from :: "('a \<Rightarrow> 'a \<Rightarrow> bool) \<Rightarrow> 'a \<Rightarrow> 'a list \<Rightarrow> 'a" where
  "min_by_from gt b [] = b"
| "min_by_from gt b (x # xs) = min_by_from gt (if gt b x then x else b) xs"

fun min_by :: "('a \<Rightarrow> 'a \<Rightarrow> bool) \<Rightarrow> 'a list \<Rightarrow> 'a option" where
  "min_by gt [] = None"
| "min_by gt (x # xs) = Some (min_by_from gt x xs)"

lemma min_by_from_in: "min_by_from gt b xs \<in> insert b (set xs)"
  by (induction xs arbitrary: b) fastforce+

lemma min_by_in: "min_by gt xs = Some x \<Longrightarrow> x \<in> set xs"
  by (cases xs) (use min_by_from_in in fastforce)+

lemma min_by_None [simp]: "min_by gt xs = None \<longleftrightarrow> xs = []"
  by (cases xs) auto

lemma min_by_from_least:
  assumes trans: "\<And>a b c. \<not> gt a b \<Longrightarrow> \<not> gt b c \<Longrightarrow> \<not> gt a c" and asym: "\<And>a b. gt a b \<Longrightarrow> \<not> gt b a"
  shows "x \<in> insert b (set xs) \<Longrightarrow> \<not> gt (min_by_from gt b xs) x"
proof (induction xs arbitrary: b x)
  case Nil
  then show ?case using asym by auto
next
  case (Cons y ys)
  let ?b = "if gt b y then y else b"
  have r: "\<not> gt (min_by_from gt ?b ys) ?b" by (rule Cons.IH) simp
  have b: "\<not> gt ?b b" and y: "\<not> gt ?b y" using asym by auto
  from Cons.prems consider "x = b" | "x = y" | "x \<in> set ys" by auto
  then show ?case
  proof cases
    case 1
    with trans [OF r b] show ?thesis by simp
  next
    case 2
    with trans [OF r y] show ?thesis by simp
  next
    case 3
    then show ?thesis using Cons.IH [of x ?b] by simp
  qed
qed

lemma min_by_least:
  assumes trans: "\<And>a b c. \<not> gt a b \<Longrightarrow> \<not> gt b c \<Longrightarrow> \<not> gt a c" and asym: "\<And>a b. gt a b \<Longrightarrow> \<not> gt b a"
    and m: "min_by gt xs = Some m" and x: "x \<in> set xs"
  shows "\<not> gt m x"
proof -
  from m obtain b ys where xs: "xs = b # ys" and m': "m = min_by_from gt b ys" by (cases xs) auto
  have "x \<in> insert b (set ys)" using x xs by simp
  from min_by_from_least [where gt = gt, OF trans asym this] show ?thesis unfolding m' .
qed

section \<open>Orderings\<close>

datatype ordering = Less | Equal | Greater

definition cmp :: "'a::linorder \<Rightarrow> 'a \<Rightarrow> ordering" where
  "cmp a b = (if a < b then Less else if a = b then Equal else Greater)"

definition ord_then :: "ordering \<Rightarrow> ordering \<Rightarrow> ordering" where
  "ord_then a b = (if a = Equal then b else a)"

lemma cmp_simps [simp]:
  "cmp a b = Greater \<longleftrightarrow> b < a" "cmp a b = Equal \<longleftrightarrow> a = b" "cmp a b = Less \<longleftrightarrow> a < b"
  by (auto simp: cmp_def)

lemma ord_then_Greater: "ord_then a b = Greater \<longleftrightarrow> a = Greater \<or> a = Equal \<and> b = Greater"
  by (auto simp: ord_then_def)

text \<open>\<open>slice::sort_by\<close>: a stable sort by a comparison.\<close>

fun insert_by :: "('a \<Rightarrow> 'a \<Rightarrow> ordering) \<Rightarrow> 'a \<Rightarrow> 'a list \<Rightarrow> 'a list" where
  "insert_by c x [] = [x]"
| "insert_by c x (y # ys) = (if c x y = Greater then y # insert_by c x ys else x # y # ys)"

definition sort_by :: "('a \<Rightarrow> 'a \<Rightarrow> ordering) \<Rightarrow> 'a list \<Rightarrow> 'a list" where
  "sort_by c xs = foldr (insert_by c) xs []"

lemma set_insert_by [simp]: "set (insert_by c x xs) = insert x (set xs)"
  by (induction xs) auto

lemma set_sort_by [simp]: "set (sort_by c xs) = set xs"
proof -
  have "set (foldr (insert_by c) xs []) = set xs" by (induction xs) auto
  then show ?thesis by (simp add: sort_by_def)
qed

lemma length_insert_by [simp]: "length (insert_by c x xs) = Suc (length xs)"
  by (induction xs) auto

lemma length_sort_by [simp]: "length (sort_by c xs) = length xs"
proof -
  have "length (foldr (insert_by c) xs []) = length xs" by (induction xs) auto
  then show ?thesis by (simp add: sort_by_def)
qed

section \<open>Lists\<close>

lemma takeWhile_zip_nth:
  "i < length (takeWhile (\<lambda>(x, y). x = y) (zip xs ys)) \<Longrightarrow> xs ! i = ys ! i"
proof -
  assume i: "i < length (takeWhile (\<lambda>(x, y). x = y) (zip xs ys))"
  then have "takeWhile (\<lambda>(x, y). x = y) (zip xs ys) ! i \<in> set (takeWhile (\<lambda>(x, y). x = y) (zip xs ys))"
    by (rule nth_mem)
  then have "(\<lambda>(x, y). x = y) (takeWhile (\<lambda>(x, y). x = y) (zip xs ys) ! i)"
    by (rule set_takeWhileD [THEN conjunct2])
  moreover have "takeWhile (\<lambda>(x, y). x = y) (zip xs ys) ! i = zip xs ys ! i"
    using i by (rule takeWhile_nth)
  moreover have "i < length (zip xs ys)"
    using i length_takeWhile_le [of "\<lambda>(x, y). x = y" "zip xs ys"] by linarith
  ultimately show ?thesis by simp
qed

lemma length_filter_update:
  "k < length xs \<Longrightarrow>
    length (filter P (xs[k := x])) + (if P (xs ! k) then 1 else 0) = length (filter P xs) + (if P x then 1 else 0)"
proof (induction xs arbitrary: k)
  case (Cons y ys)
  then show ?case by (cases k) auto
qed simp

lemma length_filter_nth: "length (filter (\<lambda>i. P (xs ! i)) [0..<length xs]) = length (filter P xs)"
proof -
  have "filter P xs = filter P (map ((!) xs) [0..<length xs])" by (simp add: map_nth)
  then show ?thesis by (metis (no_types, lifting) filter_map length_map comp_def filter_cong)
qed

lemma map_update_nth_same: "k < length xs \<Longrightarrow> f x = f (xs ! k) \<Longrightarrow> map f (xs[k := x]) = map f xs"
  by (simp add: map_update list_update_same_conv)

lemma filter_upt_update:
  "k < length xs \<Longrightarrow> set (filter (\<lambda>j. xs[k := x] ! j = t) [0..<length xs]) =
    (if x = t then insert k (set (filter (\<lambda>j. xs ! j = t) [0..<length xs]))
     else set (filter (\<lambda>j. xs ! j = t) [0..<length xs]) - {k})"
  by (auto simp: nth_list_update)

section \<open>Text\<close>

text \<open>
  The UTF-8 byte sequences of the code points with the White\_Space property, which
  \<open>str::trim\<close> removes at both ends.
\<close>

definition byte_of :: "nat \<Rightarrow> char" where
  "byte_of n = char_of n"

definition ws_seqs :: "str list" where
  "ws_seqs = map (\<lambda>c. [byte_of c]) [9, 10, 11, 12, 13, 32]
    @ [[byte_of 194, byte_of 133], [byte_of 194, byte_of 160], [byte_of 225, byte_of 154, byte_of 128]]
    @ map (\<lambda>c. [byte_of 226, byte_of 128, byte_of c]) ([128..<139] @ [168, 169, 175])
    @ [[byte_of 226, byte_of 129, byte_of 159], [byte_of 227, byte_of 128, byte_of 128]]"

definition is_prefix :: "str \<Rightarrow> str \<Rightarrow> bool" where
  "is_prefix p s = (take (length p) s = p)"

lemma is_prefix_iff: "is_prefix p s \<longleftrightarrow> (\<exists>r. s = p @ r)"
  by (metis append_eq_conv_conj is_prefix_def)

function trim_with :: "str list \<Rightarrow> str \<Rightarrow> str" where
  "trim_with ws s = (case find (\<lambda>w. w \<noteq> [] \<and> is_prefix w s) ws of
     Some w \<Rightarrow> trim_with ws (drop (length w) s)
   | None \<Rightarrow> s)"
  by pat_completeness auto
termination
  by (relation "measure (\<lambda>(ws, s). length s)") (auto simp: find_Some_iff is_prefix_iff)

declare trim_with.simps [simp del]

definition trim_start :: "str \<Rightarrow> str" where
  "trim_start s = trim_with ws_seqs s"

definition trim_end :: "str \<Rightarrow> str" where
  "trim_end s = rev (trim_with (map rev ws_seqs) (rev s))"

definition trim :: "str \<Rightarrow> str" where
  "trim s = trim_end (trim_start s)"

definition is_digit :: "char \<Rightarrow> bool" where
  "is_digit c = (48 \<le> (of_char c :: nat) \<and> (of_char c :: nat) \<le> 57)"

definition digits_val :: "str \<Rightarrow> nat" where
  "digits_val s = foldl (\<lambda>n c. 10 * n + (of_char c - 48)) 0 s"

text \<open>\<open>str::parse::<usize>()\<close>, 64-bit: an optional plus sign and decimal digits, no overflow.\<close>

definition parse_usize :: "str \<Rightarrow> nat option" where
  "parse_usize s = (let d = (case s of [] \<Rightarrow> [] | c # r \<Rightarrow> if c = CHR ''+'' then r else s) in
     if d \<noteq> [] \<and> list_all is_digit d \<and> digits_val d < 2 ^ 64 then Some (digits_val d) else None)"

text \<open>\<open>str::split_once\<close> at a one-byte separator.\<close>

definition split_once :: "char \<Rightarrow> str \<Rightarrow> (str \<times> str) option" where
  "split_once c s = map_option (\<lambda>i. (take i s, drop (Suc i) s)) (position (\<lambda>x. x = c) s)"

end
