(* ===== verification/Lend.thy ===== *)
theory Lend
  imports Prelude
begin

text \<open>
  VRAM lending (\<open>engine/src/lend.rs\<close>) and the part of the accept loop of
  \<open>engine/src/bin/serve.rs\<close> that drives it: the lend gate, the queue of parked engine
  requests, the request body, the lend and return handlers, and the loop as a step function.
  An \<open>Instant\<close> and a \<open>Duration\<close> are nanosecond counts. JSON parsing is serde's, so a
  parsed value is abstract and its accessors are the fields of a record the definitions take.
\<close>

section \<open>The request body\<close>

type_synonym instant = nat
type_synonym duration = nat

definition from_secs :: "u64 \<Rightarrow> duration" where
  "from_secs s = unat s * 1000000000"

definition TTL_DEFAULT_S :: u64 where "TTL_DEFAULT_S = 120"
definition TTL_MAX_S :: u64 where "TTL_MAX_S = 600"
definition RETRY :: duration where "RETRY = from_secs 1"

datatype refusal = AlreadyLent | BadRequest str

record lend_params =
  lp_bytes :: u64
  lp_ttl :: duration

text \<open>What the code uses of \<open>serde_json::Value\<close>.\<close>

record 'v serde =
  from_slice :: "u8 list \<Rightarrow> str + 'v"
  jget :: "'v \<Rightarrow> str \<Rightarrow> 'v option"
  jas_u64 :: "'v \<Rightarrow> u64 option"
  jis_null :: "'v \<Rightarrow> bool"

definition bad_mib :: refusal where
  \<open>bad_mib = BadRequest ''"mib" must be a whole number of MiB > 0''\<close>

definition bad_ttl :: refusal where
  \<open>bad_ttl = BadRequest ''"ttl_s" must be a whole number of seconds in 1..=600''\<close>

definition parse_ttl :: "'v serde \<Rightarrow> 'v option \<Rightarrow> refusal + u64" where
  "parse_ttl sd t = (case t of
     None \<Rightarrow> Inr TTL_DEFAULT_S
   | Some t \<Rightarrow>
      if jis_null sd t then Inr TTL_DEFAULT_S
      else (case jas_u64 sd t of
         None \<Rightarrow> Inl bad_ttl
       | Some s \<Rightarrow> if 1 \<le> s \<and> s \<le> TTL_MAX_S then Inr s else Inl bad_ttl))"

definition parse_lend :: "'v serde \<Rightarrow> u8 list \<Rightarrow> refusal + lend_params" where
  "parse_lend sd body = (case from_slice sd body of
     Inl e \<Rightarrow> Inl (BadRequest (''body is not JSON: '' @ e))
   | Inr v \<Rightarrow> (case Option.bind (jget sd v ''mib'') (jas_u64 sd) of
       None \<Rightarrow> Inl bad_mib
     | Some mib \<Rightarrow>
        if mib = 0 then Inl bad_mib
        else (case parse_ttl sd (jget sd v ''ttl_s'') of
           Inl r \<Rightarrow> Inl r
         | Inr ttl \<Rightarrow> Inr \<lparr>lp_bytes = push_bit 20 mib, lp_ttl = from_secs ttl\<rparr>)))"

section \<open>The gate\<close>

datatype due = DueTtl | DueRetry

datatype phase = Idle
  | Lent (lent_b: u64) (since: instant) (deadline: instant) (retry_at: "instant option")

definition new_gate :: phase where
  "new_gate = Idle"

fun is_lent :: "phase \<Rightarrow> bool" where
  "is_lent Idle = False"
| "is_lent (Lent _ _ _ _) = True"

fun lent_bytes :: "phase \<Rightarrow> u64" where
  "lent_bytes (Lent b _ _ _) = b"
| "lent_bytes Idle = 0"

definition check_lend :: "phase \<Rightarrow> refusal option" where
  "check_lend g = (if is_lent g then Some AlreadyLent else None)"

text \<open>\<open>lent\<close> asserts that nothing is lent; the failed assertion is None.\<close>

definition lent :: "phase \<Rightarrow> instant \<Rightarrow> u64 \<Rightarrow> duration \<Rightarrow> phase option" where
  "lent g now b ttl = (if is_lent g then None else Some (Lent b now (now + ttl) None))"

definition admits_engine :: "phase \<Rightarrow> bool" where
  "admits_engine g = (\<not> is_lent g)"

fun due_at :: "phase \<Rightarrow> instant \<Rightarrow> due option" where
  "due_at Idle now = None"
| "due_at (Lent _ _ _ (Some r)) now = (if r \<le> now then Some DueRetry else None)"
| "due_at (Lent _ _ d None) now = (if d \<le> now then Some DueTtl else None)"

text \<open>\<open>saturating_duration_since\<close> is the truncating subtraction of \<open>nat\<close>.\<close>

fun wait_at :: "phase \<Rightarrow> instant \<Rightarrow> duration option" where
  "wait_at Idle now = None"
| "wait_at (Lent _ _ _ (Some r)) now = Some (r - now)"
| "wait_at (Lent _ _ d None) now = Some (d - now)"

fun ttl_remaining :: "phase \<Rightarrow> instant \<Rightarrow> duration option" where
  "ttl_remaining (Lent _ _ d _) now = Some (d - now)"
| "ttl_remaining Idle now = None"

fun returned :: "phase \<Rightarrow> instant \<Rightarrow> (u64 \<times> duration) option \<times> phase" where
  "returned (Lent b s _ _) now = (Some (b, now - s), Idle)"
| "returned Idle now = (None, Idle)"

fun return_failed :: "phase \<Rightarrow> instant \<Rightarrow> phase" where
  "return_failed (Lent b s d _) now = Lent b s d (Some (now + RETRY))"
| "return_failed Idle now = Idle"

section \<open>The parked queue\<close>

definition park :: "'r list \<Rightarrow> 'r \<Rightarrow> 'r list" where
  "park q r = q @ [r]"

definition next_admitted :: "'r list \<Rightarrow> phase \<Rightarrow> 'r option \<times> 'r list" where
  "next_admitted q g = (if admits_engine g then (case q of [] \<Rightarrow> (None, []) | r # rs \<Rightarrow> (Some r, rs)) else (None, q))"

section \<open>The accept loop\<close>

datatype route = Health | Props | Chat | Slots | Slot0 | VramLend | VramReturn | VramStatus | NotFound

definition route_of :: "str \<Rightarrow> str \<Rightarrow> route" where
  "route_of m p =
    (if m = ''GET'' \<and> p = ''/health'' then Health
     else if m = ''GET'' \<and> p = ''/props'' then Props
     else if m = ''POST'' \<and> p = ''/v1/chat/completions'' then Chat
     else if m = ''GET'' \<and> p = ''/slots'' then Slots
     else if m = ''POST'' \<and> p = ''/slots/0'' then Slot0
     else if m = ''POST'' \<and> p = ''/v1/crow/vram/lend'' then VramLend
     else if m = ''POST'' \<and> p = ''/v1/crow/vram/return'' then VramReturn
     else if m = ''GET'' \<and> p = ''/v1/crow/vram'' then VramStatus
     else NotFound)"

definition engine_route :: "route \<Rightarrow> bool" where
  "engine_route r = (r = Chat \<or> r = Slot0)"

text \<open>
  A request is its route, an identity and its body. The server state keeps the gate, the
  parked queue, and two ghost logs: the engine requests in arrival order, and the engine
  requests as they were dispatched, each with whether memory was lent at that moment.
\<close>

record req =
  rq_route :: route
  rq_id :: nat
  rq_body :: "u8 list"

record srv =
  gate :: phase
  parked :: "req list"
  arrived :: "req list"
  served :: "(req \<times> bool) list"

definition new_srv :: srv where
  "new_srv = \<lparr>gate = new_gate, parked = [], arrived = [], served = []\<rparr>"

text \<open>
  The driver's side of a step: whether lending is enabled and how many bytes are lendable,
  how many bytes a release really freed, and whether mapping the memory back worked.
\<close>

record env =
  lend_on :: bool
  lendable :: u64
  released :: "u64 \<Rightarrow> u64"
  remap_ok :: bool

definition vram_lend :: "'v serde \<Rightarrow> env \<Rightarrow> instant \<Rightarrow> u8 list \<Rightarrow> phase \<Rightarrow> (nat \<times> phase) option" where
  "vram_lend sd e now body g =
    (if \<not> lend_on e \<or> lendable e = 0 then Some (501, g)
     else (case parse_lend sd body of
        Inl AlreadyLent \<Rightarrow> Some (409, g)
      | Inl (BadRequest _) \<Rightarrow> Some (400, g)
      | Inr p \<Rightarrow> (case check_lend g of
          Some AlreadyLent \<Rightarrow> Some (409, g)
        | Some (BadRequest _) \<Rightarrow> Some (400, g)
        | None \<Rightarrow> map_option (\<lambda>g'. (200, g')) (lent g now (released e (lp_bytes p)) (lp_ttl p)))))"

definition vram_return :: "env \<Rightarrow> instant \<Rightarrow> phase \<Rightarrow> nat \<times> phase" where
  "vram_return e now g =
    (if \<not> is_lent g then (200, g)
     else if remap_ok e then (200, snd (returned g now))
     else (503, return_failed g now))"

definition dispatch_engine :: "req \<Rightarrow> srv \<Rightarrow> srv" where
  "dispatch_engine r s = s\<lparr>served := served s @ [(r, is_lent (gate s))]\<rparr>"

definition dispatch :: "'v serde \<Rightarrow> env \<Rightarrow> instant \<Rightarrow> req \<Rightarrow> srv \<Rightarrow> srv option" where
  "dispatch sd e now r s =
    (if engine_route (rq_route r) then Some (dispatch_engine r s)
     else if rq_route r = VramLend
       then map_option (\<lambda>(_, g). s\<lparr>gate := g\<rparr>) (vram_lend sd e now (rq_body r) (gate s))
     else if rq_route r = VramReturn then Some (s\<lparr>gate := snd (vram_return e now (gate s))\<rparr>)
     else Some s)"

definition arrive :: "req \<Rightarrow> srv \<Rightarrow> srv" where
  "arrive r s = (if engine_route (rq_route r) then s\<lparr>arrived := arrived s @ [r]\<rparr> else s)"

definition accept_one :: "'v serde \<Rightarrow> env \<Rightarrow> instant \<Rightarrow> req \<Rightarrow> srv \<Rightarrow> srv option" where
  "accept_one sd e now r s =
    (if \<not> admits_engine (gate s) \<and> engine_route (rq_route r)
     then Some (s\<lparr>parked := park (parked s) r\<rparr>)
     else dispatch sd e now r s)"

text \<open>\<open>while let Some(..) = parked.next_admitted(..) { dispatch(..) }\<close>: the parked
  requests are engine requests (\<open>accept_one\<close> parks no others), so each is run.\<close>

function drain_parked :: "srv \<Rightarrow> srv" where
  "drain_parked s = (case next_admitted (parked s) (gate s) of
     (None, _) \<Rightarrow> s
   | (Some r, q) \<Rightarrow> drain_parked (dispatch_engine r (s\<lparr>parked := q\<rparr>)))"
  by pat_completeness auto
termination
  by (relation "measure (\<lambda>s. length (parked s))")
    (auto simp: next_admitted_def dispatch_engine_def split: list.splits if_splits)

declare drain_parked.simps [simp del]

text \<open>One turn of the loop: a due return, or one accepted connection.\<close>

datatype event = Tick | Accept req

definition loop_step :: "'v serde \<Rightarrow> env \<Rightarrow> instant \<Rightarrow> event \<Rightarrow> srv \<Rightarrow> srv option" where
  "loop_step sd e now ev s =
    (case due_at (gate s) now of
       Some _ \<Rightarrow> Some (drain_parked (s\<lparr>gate := snd (vram_return e now (gate s))\<rparr>))
     | None \<Rightarrow> (case ev of
         Tick \<Rightarrow> Some s
       | Accept r \<Rightarrow> map_option drain_parked (accept_one sd e now r (arrive r s))))"

section \<open>What a request body may say\<close>

lemma unat_shift20: "unat (push_bit 20 (m :: u64)) = unat m * 2 ^ 20 mod 2 ^ 64"
  by (simp add: push_bit_eq_mult unat_word_ariths)

section \<open>Wake-up times\<close>

lemma due_after_wait: "wait_at g now = Some w \<Longrightarrow> due_at g (now + w) \<noteq> None"
  by (induction g now rule: wait_at.induct) auto

lemma not_due_before_wait:
  "wait_at g now = Some w \<Longrightarrow> t < now + w \<Longrightarrow> now \<le> t \<Longrightarrow> due_at g t = None"
  by (induction g now rule: wait_at.induct) auto

section \<open>The queue behind the gate\<close>

text \<open>
  What the accept loop relies on: a queue in front of a gate hands out its head exactly
  while the gate is open, and keeps everything otherwise. The client's loop then empties
  the queue in order.
\<close>

locale gated_queue =
  fixes open_gate :: "'g \<Rightarrow> bool"
    and enq :: "'r list \<Rightarrow> 'r \<Rightarrow> 'r list"
    and deq :: "'r list \<Rightarrow> 'g \<Rightarrow> 'r option \<times> 'r list"
  assumes enq_last: "enq q r = q @ [r]"
    and deq_open: "open_gate g \<Longrightarrow> deq (r # q) g = (Some r, q)"
    and deq_empty: "open_gate g \<Longrightarrow> deq [] g = (None, [])"
    and deq_closed: "\<not> open_gate g \<Longrightarrow> deq q g = (None, q)"
begin

lemma deq_Some: "deq q g = (Some r, q') \<longleftrightarrow> open_gate g \<and> q = r # q'"
  using deq_open deq_empty deq_closed by (cases "open_gate g"; cases q) auto

lemma deq_None: "fst (deq q g) = None \<longleftrightarrow> \<not> open_gate g \<or> q = []"
  using deq_open deq_empty deq_closed by (cases "open_gate g"; cases q) auto

lemma deq_enq: "open_gate g \<Longrightarrow> q \<noteq> [] \<Longrightarrow> deq (enq q r) g = (Some (hd q), tl q @ [r])"
  using deq_open [of g "hd q" "tl q @ [r]"] by (cases q) (auto simp: enq_last)

end

interpretation pq: gated_queue admits_engine park next_admitted
  by unfold_locales (auto simp: park_def next_admitted_def)

lemma drain_parked_closed: "is_lent (gate s) \<Longrightarrow> drain_parked s = s"
  by (subst drain_parked.simps) (simp add: pq.deq_closed admits_engine_def)

lemma drain_parked_open:
  "\<not> is_lent (gate s) \<Longrightarrow>
    drain_parked s = s\<lparr>parked := [], served := served s @ map (\<lambda>r. (r, False)) (parked s)\<rparr>"
proof (induction "length (parked s)" arbitrary: s)
  case 0
  then show ?case by (subst drain_parked.simps) (simp add: pq.deq_empty admits_engine_def)
next
  case (Suc n)
  then obtain r q where q: "parked s = r # q" by (cases "parked s") auto
  let ?t = "dispatch_engine r (s\<lparr>parked := q\<rparr>)"
  have "drain_parked s = drain_parked ?t"
    using q Suc.prems by (subst drain_parked.simps) (simp add: pq.deq_open admits_engine_def)
  also have "\<dots> = ?t\<lparr>parked := [], served := served ?t @ map (\<lambda>r. (r, False)) (parked ?t)\<rparr>"
    using Suc q by (intro Suc.hyps(1)) (auto simp: dispatch_engine_def)
  finally show ?case using q Suc.prems by (simp add: dispatch_engine_def)
qed

section \<open>The accept loop: invariant and reachable states\<close>

inductive srv_reachable :: "'v serde \<Rightarrow> srv \<Rightarrow> bool" for sd where
  start: "srv_reachable sd new_srv"
| turn: "srv_reachable sd s \<Longrightarrow> loop_step sd e now ev s = Some s' \<Longrightarrow> srv_reachable sd s'"

definition log_ok :: "srv \<Rightarrow> bool" where
  "log_ok s \<longleftrightarrow> map fst (served s) @ parked s = arrived s \<and> (\<forall>x \<in> set (served s). \<not> snd x)
    \<and> (\<forall>r \<in> set (arrived s). engine_route (rq_route r))"

definition srv_inv :: "srv \<Rightarrow> bool" where
  "srv_inv s \<longleftrightarrow> log_ok s \<and> (\<not> is_lent (gate s) \<longrightarrow> parked s = [])"

lemma srv_inv_new: "srv_inv new_srv"
  by (simp add: srv_inv_def log_ok_def new_srv_def new_gate_def)

lemma log_ok_gate: "log_ok s \<Longrightarrow> log_ok (s\<lparr>gate := g\<rparr>)"
  by (simp add: log_ok_def)

lemma drain_parked_inv: "log_ok s \<Longrightarrow> srv_inv (drain_parked s)"
  by (cases "is_lent (gate s)") (auto simp: srv_inv_def log_ok_def drain_parked_closed drain_parked_open o_def)

lemma vram_lend_total: "\<exists>r. vram_lend sd e now body g = Some r"
  by (auto simp: vram_lend_def check_lend_def lent_def split: sum.splits refusal.splits option.splits)

lemma vram_lend_cases:
  "vram_lend sd e now body g = Some (c, g') \<Longrightarrow>
    g' = g \<or> (\<not> is_lent g \<and> (\<exists>p. parse_lend sd body = Inr p \<and> g' = Lent (released e (lp_bytes p)) now (now + lp_ttl p) None))"
  by (auto simp: vram_lend_def check_lend_def lent_def split: sum.splits refusal.splits option.splits if_splits)

lemma dispatch_total: "\<exists>s'. dispatch sd e now r s = Some s'"
  using vram_lend_total [of sd e now "rq_body r" "gate s"] by (auto simp: dispatch_def)

lemma accept_one_total: "\<exists>s'. accept_one sd e now r s = Some s'"
  using dispatch_total [of sd e now r s] by (simp add: accept_one_def)

lemma accept_one_log:
  assumes "srv_inv s" and "accept_one sd e now r (arrive r s) = Some t"
  shows "log_ok t"
proof (cases "engine_route (rq_route r)")
  case True
  with assms show ?thesis
    by (auto simp: srv_inv_def log_ok_def accept_one_def dispatch_def arrive_def admits_engine_def
        park_def dispatch_engine_def split: if_splits)
next
  case False
  with assms show ?thesis
    by (auto simp: srv_inv_def accept_one_def dispatch_def arrive_def intro!: log_ok_gate split: if_splits)
qed

lemma loop_step_cases:
  assumes "loop_step sd e now ev s = Some s'"
  obtains (due) "s' = drain_parked (s\<lparr>gate := snd (vram_return e now (gate s))\<rparr>)" "due_at (gate s) now \<noteq> None"
  | (tick) "s' = s"
  | (acc) r t where "accept_one sd e now r (arrive r s) = Some t" "s' = drain_parked t"
  using assms by (auto simp: loop_step_def split: option.splits event.splits)

lemma loop_step_inv:
  assumes inv: "srv_inv s" and st: "loop_step sd e now ev s = Some s'"
  shows "srv_inv s'"
  using st
proof (cases rule: loop_step_cases)
  case due
  with inv show ?thesis using drain_parked_inv log_ok_gate by (simp only: srv_inv_def) blast
next
  case tick
  with inv show ?thesis by simp
next
  case (acc r t)
  with inv show ?thesis using accept_one_log drain_parked_inv by blast
qed

lemma srv_reachable_inv: "srv_reachable sd s \<Longrightarrow> srv_inv s"
  by (induction rule: srv_reachable.induct) (auto intro: srv_inv_new loop_step_inv)

section \<open>A concrete server for the witnesses\<close>

text \<open>Bodies are numbers here: the body \<open>[n]\<close> asks for \<open>n\<close> MiB with the default ttl.\<close>

definition demo_serde :: "u8 serde" where
  "demo_serde = \<lparr>from_slice = (\<lambda>b. case b of [n] \<Rightarrow> Inr n | _ \<Rightarrow> Inl ''eof''),
    jget = (\<lambda>v k. if k = ''mib'' then Some v else None),
    jas_u64 = (\<lambda>v. Some (ucast v)), jis_null = (\<lambda>v. False)\<rparr>"

definition demo_env :: env where
  "demo_env = \<lparr>lend_on = True, lendable = 1, released = id, remap_ok = True\<rparr>"

definition demo_lend :: req where "demo_lend = \<lparr>rq_route = VramLend, rq_id = 1, rq_body = [8]\<rparr>"
definition demo_chat :: req where "demo_chat = \<lparr>rq_route = Chat, rq_id = 2, rq_body = []\<rparr>"

definition demo_lent :: srv where
  "demo_lent = \<lparr>gate = Lent (push_bit 20 8) 5 (5 + 120000000000) None, parked = [], arrived = [], served = []\<rparr>"

lemmas loop_eval =
  loop_step_def accept_one_def dispatch_def arrive_def vram_lend_def vram_return_def check_lend_def lent_def
  parse_lend_def parse_ttl_def demo_serde_def demo_env_def demo_lend_def demo_chat_def demo_lent_def
  engine_route_def admits_engine_def TTL_DEFAULT_S_def TTL_MAX_S_def from_secs_def park_def new_srv_def
  new_gate_def dispatch_engine_def

lemma demo_lent_step: "loop_step demo_serde demo_env 5 (Accept demo_lend) new_srv = Some demo_lent"
  by (simp add: loop_eval drain_parked_closed)

lemma demo_parked_step:
  "loop_step demo_serde demo_env 9 (Accept demo_chat) demo_lent = Some (demo_lent\<lparr>parked := [demo_chat], arrived := [demo_chat]\<rparr>)"
  by (simp add: loop_eval drain_parked_closed)

lemma demo_parked_reachable:
  "srv_reachable demo_serde (demo_lent\<lparr>parked := [demo_chat], arrived := [demo_chat]\<rparr>)"
  by (rule srv_reachable.turn [OF srv_reachable.turn [OF srv_reachable.start demo_lent_step] demo_parked_step])

section \<open>Properties\<close>

text \<open>C2: engine requests (chat, slot save and restore) run in arrival order, none is lost or
  run twice, and none ever runs while VRAM is lent: in every reachable state of the accept
  loop the dispatched requests followed by the parked ones are exactly the arrived ones, every
  dispatch happened with the gate idle, and nothing stays parked once the gate is idle.\<close>

theorem lend_engine_requests_fifo_and_safe:
  assumes "srv_reachable sd s"
  shows "map fst (served s) @ parked s = arrived s \<and> (\<forall>x \<in> set (served s). \<not> snd x)
    \<and> (is_lent (gate s) \<or> parked s = [])"
  using srv_reachable_inv [OF assms] by (auto simp: srv_inv_def log_ok_def)

theorem lend_engine_requests_fifo_and_safe_witness:
  "[] @ [demo_chat] = [demo_chat] \<and> is_lent (gate demo_lent)"
  using lend_engine_requests_fifo_and_safe [OF demo_parked_reachable] by (simp add: demo_lent_def)

text \<open>C38: a lend always ends: once the ttl (or the retry time of a failed return) is due and
  the driver can map the memory back, one turn of the accept loop makes the gate idle and has
  dispatched every parked request, in order, whatever connection was waiting.\<close>

theorem lend_due_turn_returns_and_drains:
  assumes "wait_at (gate s) t0 = Some w" and "t0 + w \<le> now" and "remap_ok e"
  shows "\<exists>s'. loop_step sd e now ev s = Some s' \<and> gate s' = Idle \<and> parked s' = []
    \<and> served s' = served s @ map (\<lambda>r. (r, False)) (parked s)"
proof -
  obtain b sn d ra where g: "gate s = Lent b sn d ra" using assms(1) by (cases "gate s") auto
  have "due_at (gate s) now \<noteq> None" using assms(1,2) g by (cases ra) auto
  then show ?thesis using assms(3) g by (auto simp: loop_step_def vram_return_def drain_parked_open)
qed

theorem lend_due_turn_returns_and_drains_witness:
  "\<exists>s'. loop_step demo_serde demo_env 120000000005 Tick (demo_lent\<lparr>parked := [demo_chat]\<rparr>) = Some s'
    \<and> gate s' = Idle \<and> parked s' = [] \<and> served s' = [(demo_chat, False)]"
  using lend_due_turn_returns_and_drains [of "demo_lent\<lparr>parked := [demo_chat]\<rparr>" 5 120000000000 120000000005 demo_env demo_serde Tick]
  by (simp add: demo_lent_def demo_env_def)

text \<open>The accept loop sleeps exactly long enough: the time \<open>wait\<close> names is the
  first instant at which a return is due, so the loop neither misses a return nor wakes early
  for one.\<close>

theorem lend_wait_is_time_to_due:
  "wait_at g now = Some w \<Longrightarrow> due_at g (now + w) \<noteq> None \<and> (\<forall>t. now \<le> t \<and> t < now + w \<longrightarrow> due_at g t = None)"
  using due_after_wait not_due_before_wait by blast

theorem lend_wait_is_time_to_due_witness:
  "due_at (Lent 1 0 100 None) 100 \<noteq> None \<and> due_at (Lent 1 0 100 None) 99 = None"
  using lend_wait_is_time_to_due [of "Lent 1 0 100 None" 30 70] by simp

text \<open>C40: the whole contract of the lend body, in both directions. A body is accepted exactly
  when it is JSON with a whole \<open>mib\<close> above 0 and a \<open>ttl_s\<close> that is missing, null or a whole number
  from 1 to 600. The ttl is then the number named, or 120 s when none is, and the byte count is
  \<open>mib\<close> shifted left by 20 in 64 bits: exact below \<open>2^44\<close> MiB, wrapped above (the code has no check
  there: \<open>2^44\<close> MiB become 0 bytes).\<close>

theorem parse_lend_contract:
  "parse_lend sd body = Inr p \<longleftrightarrow> (\<exists>v mib ttl. from_slice sd body = Inr v
    \<and> Option.bind (jget sd v ''mib'') (jas_u64 sd) = Some mib \<and> mib \<noteq> 0
    \<and> (case jget sd v ''ttl_s'' of None \<Rightarrow> ttl = 120
       | Some t \<Rightarrow> if jis_null sd t then ttl = 120 else map_option unat (jas_u64 sd t) = Some ttl \<and> 1 \<le> ttl \<and> ttl \<le> 600)
    \<and> unat (lp_bytes p) = unat mib * 2 ^ 20 mod 2 ^ 64 \<and> lp_ttl p = ttl * 1000000000)"
proof -
  have bytes: "lp_bytes p = push_bit 20 mib \<longleftrightarrow> unat (lp_bytes p) = unat mib * 2 ^ 20 mod 2 ^ 64" for mib
    by (simp only: word_unat_eq_iff unat_shift20)
  have ttl: "parse_ttl sd t = Inr s \<longleftrightarrow> (case t of None \<Rightarrow> unat s = 120
      | Some t \<Rightarrow> if jis_null sd t then unat s = 120 else map_option unat (jas_u64 sd t) = Some (unat s) \<and> 1 \<le> unat s \<and> unat s \<le> 600)" for t s
    by (auto simp: parse_ttl_def TTL_DEFAULT_S_def TTL_MAX_S_def word_le_nat_alt word_unat_eq_iff split: option.splits)
  have parse: "parse_lend sd body = Inr p \<longleftrightarrow> (\<exists>v mib s. from_slice sd body = Inr v
      \<and> Option.bind (jget sd v ''mib'') (jas_u64 sd) = Some mib \<and> mib \<noteq> 0
      \<and> parse_ttl sd (jget sd v ''ttl_s'') = Inr s \<and> lp_bytes p = push_bit 20 mib \<and> lp_ttl p = unat s * 1000000000)"
    by (cases p) (auto simp: parse_lend_def from_secs_def split: sum.splits option.splits)
  let ?named = "\<lambda>v ttl. case jget sd v ''ttl_s'' of None \<Rightarrow> ttl = 120
     | Some t \<Rightarrow> if jis_null sd t then ttl = 120 else map_option unat (jas_u64 sd t) = Some ttl \<and> 1 \<le> ttl \<and> ttl \<le> 600"
  have small: "\<exists>s :: u64. unat s = ttl" if "?named v ttl" for v ttl
  proof -
    have "ttl \<le> 600" using that by (auto split: option.splits if_splits)
    then have "unat (of_nat ttl :: u64) = ttl" by (simp add: unat_of_nat)
    then show ?thesis ..
  qed
  show ?thesis
  proof
    assume "parse_lend sd body = Inr p"
    then obtain v mib and s :: u64 where a: "from_slice sd body = Inr v" "Option.bind (jget sd v ''mib'') (jas_u64 sd) = Some mib" "mib \<noteq> 0"
      "?named v (unat s)" "unat (lp_bytes p) = unat mib * 2 ^ 20 mod 2 ^ 64" "lp_ttl p = unat s * 1000000000"
      unfolding parse ttl bytes by blast
    show "\<exists>v mib ttl. from_slice sd body = Inr v \<and> Option.bind (jget sd v ''mib'') (jas_u64 sd) = Some mib \<and> mib \<noteq> 0
      \<and> ?named v ttl \<and> unat (lp_bytes p) = unat mib * 2 ^ 20 mod 2 ^ 64 \<and> lp_ttl p = ttl * 1000000000"
      by (intro exI conjI) (fact a)+
  next
    assume "\<exists>v mib ttl. from_slice sd body = Inr v \<and> Option.bind (jget sd v ''mib'') (jas_u64 sd) = Some mib \<and> mib \<noteq> 0
      \<and> ?named v ttl \<and> unat (lp_bytes p) = unat mib * 2 ^ 20 mod 2 ^ 64 \<and> lp_ttl p = ttl * 1000000000"
    then obtain v mib ttl where a: "from_slice sd body = Inr v" "Option.bind (jget sd v ''mib'') (jas_u64 sd) = Some mib" "mib \<noteq> 0"
      "?named v ttl" "unat (lp_bytes p) = unat mib * 2 ^ 20 mod 2 ^ 64" "lp_ttl p = ttl * 1000000000" by blast
    obtain s :: u64 where s: "ttl = unat s" using small [OF a(4)] by blast
    show "parse_lend sd body = Inr p"
      unfolding parse ttl bytes by (intro exI conjI) (fact a [unfolded s])+
  qed
qed

text \<open>the \<open>assert\<close> in \<open>LendGate::lent\<close> is never hit: from every state the
  accept loop takes every turn without a panic, because the handler asks \<open>check_lend\<close> first.\<close>

theorem lend_loop_never_panics: "\<exists>s'. loop_step sd e now ev s = Some s'"
  using accept_one_total [of sd e now _ "arrive _ s"]
  by (fastforce simp: loop_step_def split: option.splits event.splits)

end
