(* ===== verification/Float64.thy ===== *)
theory Float64
  imports Complex_Main Prelude
begin

text \<open>
  IEEE 754 binary64 as far as the LFU policy of \<open>engine/src/expert_cache.rs\<close> uses it:
  addition, multiplication, conversion from an integer, comparison, and parsing of a decimal
  literal, each exact and then rounded to nearest, ties to even. \<open>Fin m e\<close> is the number
  \<open>m * 2 ^ e\<close>. The sign of a zero and NaN payloads are not represented: no operation used
  here tells them apart.
\<close>

section \<open>Numbers and rounding\<close>

datatype f64 = NaN | Infty bool | Fin int int

fun bits :: "nat \<Rightarrow> nat" where
  "bits n = (if n = 0 then 0 else Suc (bits (n div 2)))"

declare bits.simps [simp del]

text \<open>How many low bits of an \<open>a * 2 ^ e\<close> do not fit 53 bits above exponent -1074.\<close>

definition excess :: "nat \<Rightarrow> int \<Rightarrow> nat" where
  "excess a e = max (bits a - 53) (nat (- 1074 - e))"

definition round_half_even :: "nat \<Rightarrow> nat \<Rightarrow> nat" where
  "round_half_even a s =
    (if s = 0 then a
     else let q = a div 2 ^ s; r = a mod 2 ^ s; h = 2 ^ (s - 1)
       in if h < r \<or> (r = h \<and> odd q) then Suc q else q)"

definition f_round :: "int \<Rightarrow> int \<Rightarrow> f64" where
  "f_round m e =
    (let a = nat \<bar>m\<bar>; s = excess a e; q = round_half_even a s; e' = e + int s
     in if q \<noteq> 0 \<and> 1024 < int (bits q) + e' then Infty (m < 0)
        else Fin (sgn m * int q) e')"

section \<open>Operations\<close>

definition f_of_nat :: "nat \<Rightarrow> f64" where
  "f_of_nat n = f_round (int n) 0"

definition f_zero :: f64 where "f_zero = Fin 0 0"
definition f_one :: f64 where "f_one = Fin 1 0"

definition align :: "int \<Rightarrow> int \<Rightarrow> int \<Rightarrow> int" where
  "align m e e0 = m * 2 ^ nat (e - e0)"

fun f_add :: "f64 \<Rightarrow> f64 \<Rightarrow> f64" where
  "f_add NaN _ = NaN"
| "f_add _ NaN = NaN"
| "f_add (Infty a) (Infty b) = (if a = b then Infty a else NaN)"
| "f_add (Infty a) (Fin _ _) = Infty a"
| "f_add (Fin _ _) (Infty b) = Infty b"
| "f_add (Fin m e) (Fin n f) = (let e0 = min e f in f_round (align m e e0 + align n f e0) e0)"

fun f_mul :: "f64 \<Rightarrow> f64 \<Rightarrow> f64" where
  "f_mul NaN _ = NaN"
| "f_mul _ NaN = NaN"
| "f_mul (Infty a) (Infty b) = Infty (a \<noteq> b)"
| "f_mul (Infty a) (Fin n _) = (if n = 0 then NaN else Infty (a \<noteq> (n < 0)))"
| "f_mul (Fin m _) (Infty b) = (if m = 0 then NaN else Infty ((m < 0) \<noteq> b))"
| "f_mul (Fin m e) (Fin n f) = f_round (m * n) (e + f)"

fun f_cmp :: "f64 \<Rightarrow> f64 \<Rightarrow> ordering option" where
  "f_cmp NaN _ = None"
| "f_cmp _ NaN = None"
| "f_cmp (Infty a) (Infty b) = Some (if a = b then Equal else if a then Less else Greater)"
| "f_cmp (Infty a) (Fin _ _) = Some (if a then Less else Greater)"
| "f_cmp (Fin _ _) (Infty b) = Some (if b then Greater else Less)"
| "f_cmp (Fin m e) (Fin n f) = (let e0 = min e f in Some (cmp (align m e e0) (align n f e0)))"

definition f_gt :: "f64 \<Rightarrow> f64 \<Rightarrow> bool" where
  "f_gt a b = (f_cmp a b = Some Greater)"

definition f_le :: "f64 \<Rightarrow> f64 \<Rightarrow> bool" where
  "f_le a b = (f_cmp a b = Some Less \<or> f_cmp a b = Some Equal)"

section \<open>Decimal literals\<close>

text \<open>\<open>n * 10 ^ x\<close>, correctly rounded: 64 quotient bits and a sticky bit are enough.\<close>

definition f_decimal :: "nat \<Rightarrow> int \<Rightarrow> f64" where
  "f_decimal n x =
    (if 0 \<le> x then f_round (int n * 10 ^ nat x) 0
     else let d = 10 ^ nat (- x); s = (bits d + 64) - bits n; a = n * 2 ^ s
       in f_round (int (2 * (a div d) + (if a mod d = 0 then 0 else 1))) (- int s - 1))"

definition lower :: "char \<Rightarrow> char" where
  "lower c = (let n = (of_char c :: nat) in if 65 \<le> n \<and> n \<le> 90 then char_of (n + 32) else c)"

definition neg_f :: "bool \<Rightarrow> f64 \<Rightarrow> f64" where
  "neg_f s x = (if \<not> s then x else case x of NaN \<Rightarrow> NaN | Infty b \<Rightarrow> Infty (\<not> b) | Fin m e \<Rightarrow> Fin (- m) e)"

definition split_sign :: "str \<Rightarrow> bool \<times> str" where
  "split_sign s = (case s of [] \<Rightarrow> (False, [])
     | c # r \<Rightarrow> if c = CHR ''-'' then (True, r) else if c = CHR ''+'' then (False, r) else (False, s))"

definition parse_exp :: "str \<Rightarrow> int option" where
  "parse_exp s = (case s of [] \<Rightarrow> Some 0
     | c # r \<Rightarrow> if lower c = CHR ''e''
         then (let (neg, d) = split_sign r in
           if d \<noteq> [] \<and> list_all is_digit d then Some (if neg then - int (digits_val d) else int (digits_val d)) else None)
         else None)"

definition parse_number :: "str \<Rightarrow> f64 option" where
  "parse_number s =
    (let ip = takeWhile is_digit s; r = dropWhile is_digit s;
         (fp, r') = (case r of [] \<Rightarrow> ([], [])
           | c # t \<Rightarrow> if c = CHR ''.'' then (takeWhile is_digit t, dropWhile is_digit t) else ([], r))
     in if ip = [] \<and> fp = [] then None
        else map_option (\<lambda>x. f_decimal (digits_val (ip @ fp)) (x - int (length fp))) (parse_exp r'))"

text \<open>\<open>str::parse::<f64>()\<close>\<close>

definition parse_f64 :: "str \<Rightarrow> f64 option" where
  "parse_f64 s = (let (neg, r) = split_sign s; l = map lower r in
     if l = ''inf'' \<or> l = ''infinity'' then Some (Infty neg)
     else if l = ''nan'' then Some NaN
     else map_option (neg_f neg) (parse_number r))"

section \<open>Non-negative numbers\<close>

text \<open>The scores: never NaN, never negative. They are closed under the operations used.\<close>

fun f_nonneg :: "f64 \<Rightarrow> bool" where
  "f_nonneg NaN = False"
| "f_nonneg (Infty b) = (\<not> b)"
| "f_nonneg (Fin m e) = (0 \<le> m)"

fun f_pos :: "f64 \<Rightarrow> bool" where
  "f_pos NaN = False"
| "f_pos (Infty b) = (\<not> b)"
| "f_pos (Fin m e) = (0 < m)"

lemma f_round_nonneg: "0 \<le> m \<Longrightarrow> f_nonneg (f_round m e)"
  by (auto simp: f_round_def Let_def sgn_if)

lemma f_of_nat_nonneg [simp]: "f_nonneg (f_of_nat n)"
  by (simp add: f_of_nat_def f_round_nonneg)

lemma f_zero_nonneg [simp]: "f_nonneg f_zero"
  by (simp add: f_zero_def)

lemma align_nonneg: "0 \<le> m \<Longrightarrow> 0 \<le> align m e e0"
  by (simp add: align_def)

lemma f_add_nonneg: "f_nonneg a \<Longrightarrow> f_nonneg b \<Longrightarrow> f_nonneg (f_add a b)"
  by (induction a b rule: f_add.induct) (auto simp: Let_def f_round_nonneg align_nonneg)

lemma f_mul_nonneg: "f_nonneg a \<Longrightarrow> f_pos b \<Longrightarrow> f_nonneg (f_mul a b) \<or> (\<exists>c. b = Infty c)"
  by (induction a b rule: f_mul.induct) (auto simp: f_round_nonneg)

section \<open>The order\<close>

text \<open>On numbers other than NaN the comparison is a total preorder: the rank of a number is
  its value, with the infinities outside.\<close>

definition fval :: "int \<Rightarrow> int \<Rightarrow> rat" where
  "fval m e = of_int m * 2 powi e"

lemma fval_align: "e0 \<le> e \<Longrightarrow> of_int (align m e e0) * 2 powi e0 = fval m e"
proof -
  assume "e0 \<le> e"
  then have "(2::rat) powi e = 2 ^ nat (e - e0) * 2 powi e0"
    using power_int_add [of "2::rat" "e - e0" e0] by (simp add: power_int_def)
  then show ?thesis by (simp add: align_def fval_def)
qed

lemma align_less: "e0 \<le> e \<Longrightarrow> e0 \<le> f \<Longrightarrow> align m e e0 < align n f e0 \<longleftrightarrow> fval m e < fval n f"
  by (simp add: fval_align [symmetric])

lemma align_eq: "e0 \<le> e \<Longrightarrow> e0 \<le> f \<Longrightarrow> align m e e0 = align n f e0 \<longleftrightarrow> fval m e = fval n f"
  by (simp add: fval_align [symmetric])

lemma f_cmp_Fin: "f_cmp (Fin m e) (Fin n f) = Some (cmp (fval m e) (fval n f))"
  by (simp add: Let_def cmp_def align_less align_eq)

lemma f_cmp_Infty:
  "f_cmp (Infty a) (Infty b) = Some (if a = b then Equal else if a then Less else Greater)"
  "f_cmp (Infty a) (Fin n f) = Some (if a then Less else Greater)"
  "f_cmp (Fin m e) (Infty b) = Some (if b then Greater else Less)"
  by simp_all

declare f_cmp.simps [simp del]

fun f_rank :: "f64 \<Rightarrow> int \<times> rat" where
  "f_rank NaN = (2, 0)"
| "f_rank (Infty b) = (if b then -1 else 1, 0)"
| "f_rank (Fin m e) = (0, fval m e)"

definition rank_less :: "int \<times> rat \<Rightarrow> int \<times> rat \<Rightarrow> bool" where
  "rank_less a b \<longleftrightarrow> fst a < fst b \<or> fst a = fst b \<and> snd a < snd b"

lemma f_cmp_rank:
  assumes "a \<noteq> NaN" and "b \<noteq> NaN"
  shows "f_cmp a b = Some (if rank_less (f_rank a) (f_rank b) then Less else if f_rank a = f_rank b then Equal else Greater)"
  using assms
  by (cases a; cases b) (auto simp: f_cmp_Fin f_cmp_Infty rank_less_def cmp_def)

lemma rank_less_trans: "rank_less a b \<Longrightarrow> rank_less b c \<Longrightarrow> rank_less a c"
  by (auto simp: rank_less_def)

lemma rank_less_total: "a \<noteq> b \<Longrightarrow> rank_less a b \<or> rank_less b a"
  by (cases a; cases b) (auto simp: rank_less_def)

lemma rank_less_irrefl [simp]: "\<not> rank_less a a"
  by (simp add: rank_less_def)

lemma f_nonneg_not_NaN: "f_nonneg a \<Longrightarrow> a \<noteq> NaN"
  by auto

end
