(* ===== verification/ExpertCache.thy ===== *)
theory ExpertCache
  imports Float64
begin

text \<open>
  The dynamic expert cache of \<open>engine/src/expert_cache.rs\<close>: an exclusive two-tier cache
  (VRAM, pinned host memory) over an NVMe miss tier, with the policies LRU, CLOCK and LFU,
  one pool per layer or one global pool. Definitions here, in the code's order; the
  invariants and the refinements are in the theories that import this one.

  A panic (a failed \<open>assert\<close>, an \<open>expect\<close> on None, an index out of range) is the
  result None; the occupancy counts that \<open>set_tier\<close> lowers are never zero then (they are
  the exact tier sizes, \<open>len_ok\<close>), so the subtraction on \<open>nat\<close> is the code's. \<open>now\<close>, the stamps and the counters are \<open>u64\<close> that
  grow by one per access, modelled as \<open>nat\<close>; the code's pairs indexed by the tier number
  are functions on 0 and 1, and \<open>EMPTY\<close> in a ring is None.
\<close>

section \<open>Types\<close>

definition ADMIT_MAX :: nat where "ADMIT_MAX = 64"
definition LFU_DECAY_DEFAULT :: f64 where "LFU_DECAY_DEFAULT = Fin 1 (-1)"
definition GLM5_NEXT_FAMILY :: str where "GLM5_NEXT_FAMILY = ''Glm5Next''"

datatype policy = Lru | Clock "nat option" | Lfu f64

datatype scope = PerLayer | Global

datatype tier = Vram | Pinned | Nvme

fun tix :: "tier \<Rightarrow> nat" where
  "tix Vram = 0" | "tix Pinned = 1" | "tix Nvme = 2"

record pool =
  ptier :: "tier list"
  stamp :: "nat list"
  score :: "f64 list"
  refb :: "bool list"
  ring :: "nat \<Rightarrow> nat option list"
  hand :: "nat \<Rightarrow> nat"
  slot :: "nat list"
  cap :: "nat \<Rightarrow> nat"
  len :: "nat \<Rightarrow> nat"
  pin_stay :: bool

section \<open>One pool\<close>

definition USIZE_MAX :: nat where "USIZE_MAX = 2 ^ 64 - 1"

definition pool_new :: "nat \<Rightarrow> nat \<Rightarrow> nat \<Rightarrow> pool" where
  "pool_new keys v p = \<lparr>ptier = replicate keys Nvme, stamp = replicate keys 0, score = replicate keys f_zero,
     refb = replicate keys False, ring = (\<lambda>i. if i = 0 then replicate v None else replicate p None),
     hand = (\<lambda>_. 0), slot = replicate keys USIZE_MAX, cap = (\<lambda>i. if i = 0 then v else p), len = (\<lambda>_. 0),
     pin_stay = False\<rparr>"

definition set_tier :: "pool \<Rightarrow> nat \<Rightarrow> tier \<Rightarrow> pool" where
  "set_tier p k t =
    (let old = ptier p ! k;
         p1 = (if old \<noteq> Nvme then p\<lparr>len := (len p)(tix old := len p (tix old) - 1)\<rparr> else p);
         p2 = (if t \<noteq> Nvme then p1\<lparr>len := (len p1)(tix t := len p1 (tix t) + 1)\<rparr> else p1)
     in p2\<lparr>ptier := (ptier p2)[k := t]\<rparr>)"

definition prio :: "pool \<Rightarrow> policy \<Rightarrow> nat \<Rightarrow> f64 \<times> nat" where
  "prio p pol k = (case pol of
     Lru \<Rightarrow> (f_zero, stamp p ! k)
   | Lfu _ \<Rightarrow> (score p ! k, stamp p ! k)
   | Clock _ \<Rightarrow>
      (let t = ptier p ! k in
       if t = Nvme then (f_zero, 0)
       else (let c = cap p (tix t); dist = (slot p ! k + c - hand p (tix t)) mod c
         in (if refb p ! k then f_one else f_zero, dist))))"

definition keep :: "pool \<Rightarrow> policy \<Rightarrow> nat \<Rightarrow> nat \<Rightarrow> ordering" where
  "keep p pol a b =
    (let pa = prio p pol a; pb = prio p pol b;
         c = (case f_cmp (fst pa) (fst pb) of None \<Rightarrow> Equal | Some c \<Rightarrow> c)
     in ord_then (ord_then c (cmp (snd pa) (snd pb))) (cmp b a))"

definition in_tier :: "pool \<Rightarrow> tier \<Rightarrow> nat list" where
  "in_tier p t = filter (\<lambda>k. ptier p ! k = t) [0..<length (ptier p)]"

definition min_in :: "pool \<Rightarrow> policy \<Rightarrow> tier \<Rightarrow> nat option" where
  "min_in p pol t = min_by (\<lambda>a b. keep p pol a b = Greater) (in_tier p t)"

text \<open>\<open>k\<close> competes for a pinned slot; the loser is on NVMe. None: the \<open>expect\<close> failed.\<close>

definition offer_pinned :: "pool \<Rightarrow> policy \<Rightarrow> nat \<Rightarrow> pool option" where
  "offer_pinned p pol k =
    (if cap p 1 = 0 then Some (set_tier p k Nvme)
     else if len p 1 < cap p 1 then Some (set_tier p k Pinned)
     else (case min_in p pol Pinned of
        None \<Rightarrow> None
      | Some u \<Rightarrow>
         if keep p pol k u = Greater then Some (set_tier (set_tier p u Nvme) k Pinned)
         else Some (set_tier p k Nvme)))"

text \<open>LRU and LFU placement of the just-accessed key.\<close>

definition ranked :: "pool \<Rightarrow> policy \<Rightarrow> nat \<Rightarrow> pool option" where
  "ranked p pol k =
    (let t = ptier p ! k; rest = (if t = Nvme then offer_pinned p pol k else Some p) in
     if t = Vram \<or> (t = Pinned \<and> pin_stay p) then Some p
     else if 0 < cap p 0 then
       (if len p 0 < cap p 0 then Some (set_tier p k Vram)
        else (case min_in p pol Vram of
           None \<Rightarrow> None
         | Some v \<Rightarrow>
            if keep p pol k v = Greater then offer_pinned (set_tier p k Vram) pol v
            else rest))
     else rest)"

text \<open>CLOCK: the slot of ring \<open>i\<close> the hand stops at. Every turn of the loop clears one
  reference bit, so it ends; a hand outside the ring is the panic of the index.\<close>

function sweep :: "nat \<Rightarrow> pool \<Rightarrow> (nat \<times> pool) option" where
  "sweep i p =
    (let h = hand p i in
     if h < length (ring p i) then
       (case ring p i ! h of
          None \<Rightarrow> Some (h, p)
        | Some k \<Rightarrow>
           if k < length (refb p) then
             (if \<not> refb p ! k then Some (h, p)
              else sweep i (p\<lparr>refb := (refb p)[k := False], hand := (hand p)(i := (h + 1) mod cap p i)\<rparr>))
           else None)
     else None)"
  by pat_completeness auto
termination
proof (relation "measure (\<lambda>(i, p). length (filter id (refb p)))", goal_cases)
  case (2 i p h k)
  then show ?case using length_filter_update [of k "refb p" id False] by simp
qed simp

declare sweep.simps [simp del]

text \<open>CLOCK: \<open>k\<close> into slot \<open>s\<close> of ring \<open>i\<close>; the hand moves past it; the occupant is returned.\<close>

definition put :: "pool \<Rightarrow> nat \<Rightarrow> nat \<Rightarrow> nat \<Rightarrow> bool \<Rightarrow> nat option \<times> pool" where
  "put p i s k rb =
    (ring p i ! s,
     p\<lparr>ring := (ring p)(i := (ring p i)[s := Some k]), slot := (slot p)[k := s], refb := (refb p)[k := rb],
       hand := (hand p)(i := (s + 1) mod cap p i)\<rparr>)"

definition clock_demote :: "pool \<Rightarrow> nat \<Rightarrow> pool option" where
  "clock_demote p v =
    (if cap p 1 = 0 then Some (set_tier p v Nvme)
     else (case sweep 1 p of
        None \<Rightarrow> None
      | Some (q, p1) \<Rightarrow>
         (let (u, p2) = put p1 1 q v False; p3 = set_tier p2 v Pinned
          in Some (case u of None \<Rightarrow> p3 | Some u \<Rightarrow> set_tier p3 u Nvme))))"

definition clock :: "pool \<Rightarrow> nat \<Rightarrow> bool \<Rightarrow> pool option" where
  "clock p k admit = (case ptier p ! k of
     Vram \<Rightarrow> Some (p\<lparr>refb := (refb p)[k := True]\<rparr>)
   | Pinned \<Rightarrow>
      if cap p 0 = 0 \<or> pin_stay p then Some (p\<lparr>refb := (refb p)[k := True]\<rparr>)
      else (let ps = slot p ! k in case sweep 0 p of
         None \<Rightarrow> None
       | Some (s, p1) \<Rightarrow>
          (let (v, p2) = put p1 0 s k True; p3 = set_tier p2 k Vram
           in Some (case v of
              Some v \<Rightarrow>
                set_tier (p3\<lparr>ring := (ring p3)(1 := (ring p3 1)[ps := Some v]), slot := (slot p3)[v := ps],
                  refb := (refb p3)[v := False]\<rparr>) v Pinned
            | None \<Rightarrow> p3\<lparr>ring := (ring p3)(1 := (ring p3 1)[ps := None])\<rparr>)))
   | Nvme \<Rightarrow>
      if \<not> admit then Some p
      else if 0 < cap p 0 then
        (case sweep 0 p of
           None \<Rightarrow> None
         | Some (s, p1) \<Rightarrow>
            (let (v, p2) = put p1 0 s k True; p3 = set_tier p2 k Vram
             in case v of Some v \<Rightarrow> clock_demote p3 v | None \<Rightarrow> Some p3))
      else if 0 < cap p 1 then
        (case sweep 1 p of
           None \<Rightarrow> None
         | Some (q, p1) \<Rightarrow>
            (let (u, p2) = put p1 1 q k True; p3 = set_tier p2 k Pinned
             in Some (case u of Some u \<Rightarrow> set_tier p3 u Nvme | None \<Rightarrow> p3)))
      else Some p)"

section \<open>The cache\<close>

record cache =
  pol :: policy
  scope :: scope
  layers :: nat
  experts :: nat
  vram :: nat
  pinned :: nat
  pools :: "pool list"
  now :: nat
  counters :: "nat list list"
  admitted :: "nat list"
  last_counts :: "nat list list"

datatype cache_error = NoMoeShape | BadAdmit nat | BadDecay | PlacedTwice nat | TooManyIds tier

definition decay_ok :: "f64 \<Rightarrow> bool" where
  "decay_ok d = (f_gt d f_zero \<and> f_le d f_one)"

definition cache_new :: "policy \<Rightarrow> scope \<Rightarrow> nat \<Rightarrow> nat \<Rightarrow> nat \<Rightarrow> nat \<Rightarrow> cache_error + cache" where
  "cache_new po sc ls es v p =
    (if ls = 0 \<or> es = 0 then Inl NoMoeShape
     else (case (case po of
         Clock (Some a) \<Rightarrow> if a = 0 \<or> ADMIT_MAX < a then Some (BadAdmit a) else None
       | Lfu d \<Rightarrow> if \<not> decay_ok d then Some BadDecay else None
       | _ \<Rightarrow> None) of
       Some e \<Rightarrow> Inl e
     | None \<Rightarrow> Inr \<lparr>pol = po, scope = sc, layers = ls, experts = es, vram = v, pinned = p,
         pools = (case sc of PerLayer \<Rightarrow> replicate ls (pool_new es v p)
                  | Global \<Rightarrow> [pool_new (ls * es) (ls * v) (ls * p)]),
         now = 0, counters = replicate ls [0, 0, 0], admitted = replicate ls 0, last_counts = replicate ls []\<rparr>))"

definition loc :: "cache \<Rightarrow> nat \<Rightarrow> nat \<Rightarrow> (nat \<times> nat) option" where
  "loc c l e =
    (if l < layers c \<and> e < experts c
     then Some (case scope c of PerLayer \<Rightarrow> (l, e) | Global \<Rightarrow> (0, l * experts c + e))
     else None)"

definition set_pinned_stays :: "bool \<Rightarrow> cache \<Rightarrow> cache" where
  "set_pinned_stays on c = c\<lparr>pools := map (\<lambda>p. p\<lparr>pin_stay := on\<rparr>) (pools c)\<rparr>"

definition pinned_stays :: "cache \<Rightarrow> bool" where
  "pinned_stays c = pin_stay (pools c ! 0)"

definition tier_of :: "cache \<Rightarrow> nat \<Rightarrow> nat \<Rightarrow> tier option" where
  "tier_of c l e = map_option (\<lambda>(p, k). ptier (pools c ! p) ! k) (loc c l e)"

definition vram_set :: "cache \<Rightarrow> nat \<Rightarrow> nat list" where
  "vram_set c l = filter (\<lambda>e. tier_of c l e = Some Vram) [0..<experts c]"

definition keep_order :: "cache \<Rightarrow> nat \<Rightarrow> nat \<Rightarrow> nat \<Rightarrow> ordering option" where
  "keep_order c l a b = (case (loc c l a, loc c l b) of
     (Some (p, ka), Some (_, kb)) \<Rightarrow> Some (keep (pools c ! p) (pol c) ka kb)
   | _ \<Rightarrow> None)"

text \<open>\<open>seed\<close>: the state left behind, with the error of an early return; None is a panic.\<close>

definition seed_one :: "cache \<Rightarrow> nat \<Rightarrow> tier \<Rightarrow> nat \<Rightarrow> nat \<Rightarrow> (cache \<times> cache_error option) option" where
  "seed_one c l t st e = (case loc c l e of
     None \<Rightarrow> None
   | Some (p, k) \<Rightarrow>
      (let po = pools c ! p in
       if ptier po ! k \<noteq> Nvme then Some (c, Some (PlacedTwice e))
       else if cap po (tix t) \<le> len po (tix t) then Some (c, Some (TooManyIds t))
       else (let po1 = po\<lparr>stamp := (stamp po)[k := st]\<rparr> in
         case (case pol c of
             Clock _ \<Rightarrow>
              (case position (\<lambda>x. x = None) (ring po1 (tix t)) of
                 None \<Rightarrow> None
               | Some s \<Rightarrow> Some (po1\<lparr>ring := (ring po1)(tix t := (ring po1 (tix t))[s := Some k]),
                   slot := (slot po1)[k := s], refb := (refb po1)[k := False]\<rparr>))
           | _ \<Rightarrow> Some po1) of
           None \<Rightarrow> None
         | Some po2 \<Rightarrow> Some (c\<lparr>pools := (pools c)[p := set_tier po2 k t]\<rparr>, None))))"

fun seed_ids :: "cache \<Rightarrow> nat \<Rightarrow> (tier \<times> nat \<times> nat) list \<Rightarrow> (cache \<times> cache_error option) option" where
  "seed_ids c l [] = Some (c, None)"
| "seed_ids c l ((t, st, e) # r) = (case seed_one c l t st e of
     None \<Rightarrow> None
   | Some (c', Some er) \<Rightarrow> Some (c', Some er)
   | Some (c', None) \<Rightarrow> seed_ids c' l r)"

definition seed_plan :: "nat \<Rightarrow> nat list \<Rightarrow> nat list \<Rightarrow> (tier \<times> nat \<times> nat) list" where
  "seed_plan base vs ps =
    (let total = length vs + length ps in
     map (\<lambda>(i, e). (Vram, base + total - i, e)) (enumerate 0 vs)
     @ map (\<lambda>(i, e). (Pinned, base + total - (length vs + i), e)) (enumerate 0 ps))"

definition seed :: "cache \<Rightarrow> nat \<Rightarrow> nat list \<Rightarrow> nat list \<Rightarrow> (cache \<times> cache_error option) option" where
  "seed c l vs ps = (case seed_ids c l (seed_plan (now c) vs ps) of
     Some (c', None) \<Rightarrow> Some (c'\<lparr>now := now c + (length vs + length ps)\<rparr>, None)
   | r \<Rightarrow> r)"

definition decay_pool :: "f64 \<Rightarrow> nat \<Rightarrow> nat \<Rightarrow> pool \<Rightarrow> pool" where
  "decay_pool d a b p = p\<lparr>score := map (\<lambda>(i, x). if a \<le> i \<and> i < b then f_mul x d else x) (enumerate 0 (score p))\<rparr>"

definition tick :: "cache \<Rightarrow> nat \<Rightarrow> cache option" where
  "tick c l =
    (if l < length (admitted c) then
      (let c1 = c\<lparr>admitted := (admitted c)[l := 0]\<rparr> in
       Some (case pol c of
         Lfu d \<Rightarrow>
          (let (p, a, b) = (case scope c of PerLayer \<Rightarrow> (l, 0, experts c)
             | Global \<Rightarrow> (0, l * experts c, (l + 1) * experts c))
           in c1\<lparr>pools := (pools c)[p := decay_pool d a b (pools c ! p)]\<rparr>)
       | _ \<Rightarrow> c1))
     else None)"

definition bump_counter :: "nat list list \<Rightarrow> nat \<Rightarrow> tier \<Rightarrow> nat list list" where
  "bump_counter cs l t = cs[l := (cs ! l)[tix t := cs ! l ! tix t + 1]]"

text \<open>The policy's part of an access to key \<open>k\<close> of a pool whose stamp is already set.\<close>

definition place :: "policy \<Rightarrow> nat \<Rightarrow> bool \<Rightarrow> pool \<Rightarrow> nat \<Rightarrow> pool option" where
  "place po w ok p k = (case po of
     Lru \<Rightarrow> ranked p po k
   | Lfu _ \<Rightarrow> ranked (p\<lparr>score := (score p)[k := f_add (score p ! k) (f_of_nat w)]\<rparr>) po k
   | Clock _ \<Rightarrow> clock p k ok)"

definition access :: "cache \<Rightarrow> nat \<Rightarrow> nat \<Rightarrow> nat \<Rightarrow> (tier \<times> cache) option" where
  "access c l e w = (case loc c l e of
     None \<Rightarrow> None
   | Some (p, k) \<Rightarrow>
      (let n = now c + 1; t = ptier (pools c ! p) ! k;
           pool = (pools c ! p)\<lparr>stamp := (stamp (pools c ! p))[k := n]\<rparr>;
           ok = (case pol c of
               Clock admit \<Rightarrow> t \<noteq> Nvme \<or> (case admit of None \<Rightarrow> True | Some a \<Rightarrow> admitted c ! l < a)
             | _ \<Rightarrow> True);
           adm = (case pol c of
               Clock admit \<Rightarrow> if t = Nvme \<and> ok \<and> 0 < cap pool 0 + cap pool 1
                 then (admitted c)[l := admitted c ! l + 1] else admitted c
             | _ \<Rightarrow> admitted c)
       in map_option (\<lambda>pool'. (t, c\<lparr>pools := (pools c)[p := pool'], now := n,
            counters := bump_counter (counters c) l t, admitted := adm\<rparr>)) (place (pol c) w ok pool k)))"

fun access_all :: "cache \<Rightarrow> nat \<Rightarrow> (nat \<times> nat) list \<Rightarrow> cache option" where
  "access_all c l [] = Some c"
| "access_all c l ((e, w) # r) = (case access c l e w of None \<Rightarrow> None | Some (_, c') \<Rightarrow> access_all c' l r)"

definition observe_token :: "cache \<Rightarrow> nat \<Rightarrow> nat list \<Rightarrow> cache option" where
  "observe_token c l ids = Option.bind (tick c l) (\<lambda>c1. access_all c1 l (map (\<lambda>e. (e, 1)) ids))"

text \<open>The dry run: under \<open>PerLayer\<close> on a copy that holds only the pool of layer \<open>l\<close>.\<close>

definition layer_copy :: "cache \<Rightarrow> nat \<Rightarrow> cache" where
  "layer_copy c l = c\<lparr>layers := 1, pools := [pools c ! l], counters := [[0, 0, 0]],
     admitted := [admitted c ! l], last_counts := [[]]\<rparr>"

definition tiers_after :: "cache \<Rightarrow> nat \<Rightarrow> nat list \<Rightarrow> tier list option" where
  "tiers_after c l ids =
    (if scope c = PerLayer \<and> \<not> l < length (pools c) then None
     else (let (c1, la) = (case scope c of PerLayer \<Rightarrow> (layer_copy c l, 0) | Global \<Rightarrow> (c, l)) in
       Option.bind (observe_token c1 la ids) (\<lambda>c2. those (map (\<lambda>e. tier_of c2 la e) [0..<experts c]))))"

definition risen :: "nat list \<Rightarrow> nat list \<Rightarrow> (nat \<times> nat) list" where
  "risen cs was = filter (\<lambda>(e, d). 0 < d)
     (map (\<lambda>(e, n, w). (e, if w \<le> n then n - w else n)) (enumerate 0 (zip cs was)))"

definition observe_counts :: "cache \<Rightarrow> nat \<Rightarrow> nat list \<Rightarrow> cache option" where
  "observe_counts c l cs =
    (if length cs = experts c \<and> l < length (last_counts c) then
      (let was = (if length (last_counts c ! l) \<noteq> length cs then replicate (length cs) 0 else last_counts c ! l);
           touched = sort_by (\<lambda>(e, d) (f, g). ord_then (cmp d g) (cmp e f)) (risen cs was)
       in Option.bind (tick (c\<lparr>last_counts := (last_counts c)[l := cs]\<rparr>) l) (\<lambda>c1. access_all c1 l touched))
     else None)"

section \<open>The code's own invariant check\<close>

definition tier_count :: "pool \<Rightarrow> tier \<Rightarrow> nat" where
  "tier_count p t = length (filter (\<lambda>x. x = t) (ptier p))"

definition check_ring :: "pool \<Rightarrow> tier \<Rightarrow> bool" where
  "check_ring p t = (let r = ring p (tix t) in
     length (filter (\<lambda>x. x \<noteq> None) r) = tier_count p t
     \<and> list_all (\<lambda>(s, x). case x of None \<Rightarrow> True | Some k \<Rightarrow> ptier p ! k = t \<and> slot p ! k = s) (enumerate 0 r))"

definition check_pool :: "policy \<Rightarrow> pool \<Rightarrow> bool" where
  "check_pool po p = (
     tier_count p Vram = len p 0 \<and> tier_count p Vram \<le> cap p 0
     \<and> tier_count p Pinned = len p 1 \<and> tier_count p Pinned \<le> cap p 1
     \<and> (case po of Clock _ \<Rightarrow> check_ring p Vram \<and> check_ring p Pinned | _ \<Rightarrow> True))"

text \<open>\<open>check_exclusive\<close> returns \<open>Ok\<close>.\<close>

definition check_exclusive :: "cache \<Rightarrow> bool" where
  "check_exclusive c = list_all (check_pool (pol c)) (pools c)"

section \<open>Which policy a boot takes\<close>

datatype policy_error = NotAPolicy str | WindowRefused str

definition parse_policy :: "str \<Rightarrow> policy_error + policy" where
  "parse_policy s =
    (let (name, arg) = (case split_once (CHR '':'') s of Some (n, a) \<Rightarrow> (n, Some a) | None \<Rightarrow> (s, None)) in
     if name = ''lru'' \<and> arg = None then Inr Lru
     else if name = ''clock'' then
       (case arg of
          None \<Rightarrow> Inr (Clock None)
        | Some a \<Rightarrow> (case parse_usize a of
            Some n \<Rightarrow> if 1 \<le> n \<and> n \<le> ADMIT_MAX then Inr (Clock (Some n)) else Inl (NotAPolicy s)
          | None \<Rightarrow> Inl (NotAPolicy s)))
     else if name = ''lfu'' then
       (case arg of
          None \<Rightarrow> Inr (Lfu LFU_DECAY_DEFAULT)
        | Some a \<Rightarrow> (case parse_f64 a of
            Some d \<Rightarrow> if f_gt d f_zero \<and> f_le d f_one then Inr (Lfu d) else Inl (NotAPolicy s)
          | None \<Rightarrow> Inl (NotAPolicy s)))
     else Inl (NotAPolicy s))"

definition policy_for :: "str \<Rightarrow> str option \<Rightarrow> bool \<Rightarrow> policy_error + policy option" where
  "policy_for family var window =
    (case (case map_option trim var of
        None \<Rightarrow> Inr (if family = GLM5_NEXT_FAMILY then Some Lru else None)
      | Some s \<Rightarrow>
         if s = [] then Inr (if family = GLM5_NEXT_FAMILY then Some Lru else None)
         else if s = ''off'' \<or> s = ''0'' then Inr None
         else (case parse_policy s of Inl e \<Rightarrow> Inl e | Inr p \<Rightarrow> Inr (Some p))) of
       Inl e \<Rightarrow> Inl e
     | Inr p \<Rightarrow> if p \<noteq> None \<and> window then Inl (WindowRefused family) else Inr p)"

end
