(* ===== verification/ExpertCacheInv.thy ===== *)
theory ExpertCacheInv
  imports ExpertCache
begin

text \<open>
  The exclusivity invariant of the expert cache: occupancy counts agree with the tier
  fields, no tier is over its capacity, and under CLOCK the two rings hold exactly the keys
  of their tiers. Every operation keeps it, and none of the code's \<open>expect\<close>s,
  \<open>assert\<close>s, index reads or count decrements can fail while it holds.
\<close>

section \<open>Tier updates\<close>

definition keys :: "pool \<Rightarrow> nat" where
  "keys p = length (ptier p)"

definition shape_ok :: "pool \<Rightarrow> bool" where
  "shape_ok p \<longleftrightarrow> length (stamp p) = keys p \<and> length (score p) = keys p
     \<and> length (refb p) = keys p \<and> length (slot p) = keys p"

definition len_ok :: "pool \<Rightarrow> bool" where
  "len_ok p \<longleftrightarrow> len p 0 = tier_count p Vram \<and> len p 1 = tier_count p Pinned"

definition cap_ok :: "pool \<Rightarrow> bool" where
  "cap_ok p \<longleftrightarrow> tier_count p Vram \<le> cap p 0 \<and> tier_count p Pinned \<le> cap p 1"

text \<open>What a placement never changes.\<close>

definition same :: "pool \<Rightarrow> pool \<Rightarrow> bool" where
  "same p q \<longleftrightarrow> keys q = keys p \<and> cap q = cap p \<and> pin_stay q = pin_stay p \<and> stamp q = stamp p \<and> score q = score p"

lemma same_refl [simp]: "same p p"
  by (simp add: same_def)

lemma same_trans: "same p q \<Longrightarrow> same q r \<Longrightarrow> same p r"
  by (simp add: same_def)

lemma set_tier_frame [simp]:
  "ptier (set_tier p k t) = (ptier p)[k := t]" "stamp (set_tier p k t) = stamp p"
  "score (set_tier p k t) = score p" "refb (set_tier p k t) = refb p" "ring (set_tier p k t) = ring p"
  "hand (set_tier p k t) = hand p" "slot (set_tier p k t) = slot p" "cap (set_tier p k t) = cap p"
  "pin_stay (set_tier p k t) = pin_stay p" "keys (set_tier p k t) = keys p"
  by (auto simp: set_tier_def Let_def keys_def)

lemma same_set_tier [simp]: "same p (set_tier p k t)" "same q p \<Longrightarrow> same q (set_tier p k t)"
  by (auto simp: same_def)

lemma shape_set_tier [simp]: "shape_ok (set_tier p k t) = shape_ok p"
  by (simp add: shape_ok_def)

lemma tier_count_set_tier:
  "k < keys p \<Longrightarrow> tier_count (set_tier p k t) u + (if ptier p ! k = u then 1 else 0) = tier_count p u + (if t = u then 1 else 0)"
  using length_filter_update [of k "ptier p" "\<lambda>x. x = u" t] by (simp add: tier_count_def keys_def)

lemma tier_count_pos: "k < keys p \<Longrightarrow> ptier p ! k = t \<Longrightarrow> 0 < tier_count p t"
  by (auto simp: tier_count_def keys_def filter_empty_conv)

lemma len_ok_set_tier:
  assumes k: "k < keys p" and l: "len_ok p"
  shows "len_ok (set_tier p k t)"
proof -
  have c: "tier_count (set_tier p k t) u + (if ptier p ! k = u then 1 else 0) = tier_count p u + (if t = u then 1 else 0)" for u
    using tier_count_set_tier [OF k] .
  from c [of Vram] c [of Pinned] tier_count_pos [OF k, of Vram] tier_count_pos [OF k, of Pinned] l
  show ?thesis
    by (cases "ptier p ! k"; cases t) (auto simp: len_ok_def set_tier_def Let_def)
qed

lemma min_in_Some:
  assumes "0 < tier_count p t"
  obtains m where "min_in p po t = Some m" "m < keys p" "ptier p ! m = t"
proof -
  from assms obtain x where "x \<in> set (ptier p)" "x = t"
    by (auto simp: tier_count_def filter_empty_conv)
  then have "in_tier p t \<noteq> []"
    by (auto simp: in_tier_def filter_empty_conv in_set_conv_nth)
  then obtain m where m: "min_in p po t = Some m"
    unfolding min_in_def by (cases "min_by (\<lambda>a b. keep p po a b = Greater) (in_tier p t)") auto
  then have "m \<in> set (in_tier p t)" unfolding min_in_def by (rule min_by_in)
  with m that show thesis by (auto simp: in_tier_def keys_def)
qed

section \<open>LRU and LFU placement\<close>

lemma offer_pinned_ok:
  assumes k: "k < keys p" and kt: "ptier p ! k \<noteq> Pinned" and l: "len_ok p" and c: "tier_count p Pinned \<le> cap p 1"
  shows "\<exists>p'. offer_pinned p po k = Some p' \<and> same p p' \<and> (shape_ok p \<longrightarrow> shape_ok p') \<and> len_ok p'
    \<and> tier_count p' Pinned \<le> cap p 1
    \<and> tier_count p' Vram + (if ptier p ! k = Vram then 1 else 0) = tier_count p Vram"
proof -
  note tc = tier_count_set_tier [OF k, of Nvme Vram] tier_count_set_tier [OF k, of Nvme Pinned]
    tier_count_set_tier [OF k, of Pinned Vram] tier_count_set_tier [OF k, of Pinned Pinned]
  consider (no) "cap p 1 = 0" | (free) "cap p 1 \<noteq> 0" "len p 1 < cap p 1" | (full) "cap p 1 \<noteq> 0" "\<not> len p 1 < cap p 1" by blast
  then show ?thesis
  proof cases
    case no
    with tc kt c l k show ?thesis by (auto simp: offer_pinned_def len_ok_set_tier)
  next
    case free
    with tc kt c l k show ?thesis by (auto simp: offer_pinned_def len_ok_set_tier) (auto simp: len_ok_def)
  next
    case full
    with l c have "0 < tier_count p Pinned" by (auto simp: len_ok_def)
    then obtain u where u: "min_in p po Pinned = Some u" "u < keys p" "ptier p ! u = Pinned" by (rule min_in_Some)
    let ?q = "set_tier p u Nvme"
    have kq: "k < keys ?q" "ptier ?q ! k = ptier p ! k" using k kt u by (auto simp: nth_list_update keys_def)
    note tq = tier_count_set_tier [OF u(2), of Nvme Vram] tier_count_set_tier [OF u(2), of Nvme Pinned]
      tier_count_set_tier [OF kq(1), of Pinned Vram] tier_count_set_tier [OF kq(1), of Pinned Pinned]
    show ?thesis
    proof (cases "keep p po k u = Greater")
      case True
      with full u kq tq kt c l show ?thesis by (auto simp: offer_pinned_def len_ok_set_tier split: if_splits)
    next
      case False
      with full u tc kt c l k show ?thesis by (auto simp: offer_pinned_def len_ok_set_tier)
    qed
  qed
qed

lemma ranked_ok:
  assumes k: "k < keys p" and l: "len_ok p" and c: "cap_ok p"
  shows "\<exists>p'. ranked p po k = Some p' \<and> same p p' \<and> (shape_ok p \<longrightarrow> shape_ok p') \<and> len_ok p' \<and> cap_ok p'"
proof -
  have c1: "tier_count p Pinned \<le> cap p 1" and c0: "tier_count p Vram \<le> cap p 0" using c by (auto simp: cap_ok_def)
  have offer: "ptier p ! k = Nvme \<Longrightarrow>
      \<exists>p'. offer_pinned p po k = Some p' \<and> same p p' \<and> (shape_ok p \<longrightarrow> shape_ok p') \<and> len_ok p' \<and> cap_ok p'"
    using offer_pinned_ok [OF k _ l c1, of po] c0 by (fastforce simp: cap_ok_def same_def)
  consider (stay) "ptier p ! k = Vram \<or> (ptier p ! k = Pinned \<and> pin_stay p)"
    | (zero) "ptier p ! k \<noteq> Vram" "\<not> (ptier p ! k = Pinned \<and> pin_stay p)" "cap p 0 = 0"
    | (free) "ptier p ! k \<noteq> Vram" "\<not> (ptier p ! k = Pinned \<and> pin_stay p)" "0 < cap p 0" "len p 0 < cap p 0"
    | (full) "ptier p ! k \<noteq> Vram" "\<not> (ptier p ! k = Pinned \<and> pin_stay p)" "0 < cap p 0" "\<not> len p 0 < cap p 0"
    by blast
  then show ?thesis
  proof cases
    case stay
    with l c show ?thesis by (auto simp: ranked_def)
  next
    case zero
    with offer l c show ?thesis by (cases "ptier p ! k") (auto simp: ranked_def)
  next
    case free
    with tier_count_set_tier [OF k, of Vram Vram] tier_count_set_tier [OF k, of Vram Pinned] l c0 c1 k
    show ?thesis by (auto simp: ranked_def len_ok_set_tier cap_ok_def split: if_splits) (auto simp: len_ok_def)
  next
    case full
    with l c0 have "0 < tier_count p Vram" by (auto simp: len_ok_def)
    then obtain v where v: "min_in p po Vram = Some v" "v < keys p" "ptier p ! v = Vram" by (rule min_in_Some)
    show ?thesis
    proof (cases "keep p po k v = Greater")
      case False
      with full v offer l c show ?thesis by (cases "ptier p ! k") (auto simp: ranked_def)
    next
      case True
      let ?q = "set_tier p k Vram"
      have vq: "v < keys ?q" "ptier ?q ! v = Vram" using v full k by (auto simp: nth_list_update keys_def)
      have cq: "tier_count ?q Pinned \<le> cap ?q 1"
        using tier_count_set_tier [OF k, of Vram Pinned] c1 by (auto split: if_splits)
      have v0: "tier_count ?q Vram = Suc (tier_count p Vram)"
        using tier_count_set_tier [OF k, of Vram Vram] full by auto
      obtain p' where p': "offer_pinned ?q po v = Some p'" "same ?q p'" "shape_ok ?q \<longrightarrow> shape_ok p'" "len_ok p'"
        "tier_count p' Pinned \<le> cap ?q 1" "tier_count p' Vram + 1 = tier_count ?q Vram"
        using offer_pinned_ok [OF vq(1) _ len_ok_set_tier [OF k l] cq, of po] vq(2) by auto
      have "same p p'" using p'(2) by (simp add: same_def)
      moreover have "cap_ok p'" using p' v0 c0 by (simp add: cap_ok_def same_def)
      ultimately show ?thesis using full True v p' by (auto simp: ranked_def)
    qed
  qed
qed

section \<open>CLOCK rings\<close>

text \<open>
  A ring \<open>r\<close> with the slot table \<open>sl\<close> holds exactly the keys below \<open>n\<close> that the
  tier assignment \<open>T\<close> puts into tier \<open>t\<close>. The assignment is a parameter because the code
  moves a key into a ring before the tier field of the displaced key is written.
\<close>

definition ring_ok :: "nat \<Rightarrow> (nat \<Rightarrow> tier) \<Rightarrow> nat list \<Rightarrow> nat option list \<Rightarrow> tier \<Rightarrow> bool" where
  "ring_ok n T sl r t \<longleftrightarrow>
     (\<forall>s < length r. \<forall>k. r ! s = Some k \<longrightarrow> k < n \<and> T k = t \<and> sl ! k = s) \<and>
     (\<forall>k < n. T k = t \<longrightarrow> sl ! k < length r \<and> r ! (sl ! k) = Some k)"

definition displaced :: "(nat \<Rightarrow> tier) \<Rightarrow> nat option \<Rightarrow> nat \<Rightarrow> tier" where
  "displaced T u = (case u of None \<Rightarrow> T | Some u \<Rightarrow> T(u := Nvme))"

lemma ring_okD1: "ring_ok n T sl r t \<Longrightarrow> s < length r \<Longrightarrow> r ! s = Some k \<Longrightarrow> k < n \<and> T k = t \<and> sl ! k = s"
  by (auto simp: ring_ok_def)

lemma ring_okD2: "ring_ok n T sl r t \<Longrightarrow> k < n \<Longrightarrow> T k = t \<Longrightarrow> sl ! k < length r \<and> r ! (sl ! k) = Some k"
  by (auto simp: ring_ok_def)

lemma ring_okI:
  assumes "\<And>s k. s < length r \<Longrightarrow> r ! s = Some k \<Longrightarrow> k < n \<and> T k = t \<and> sl ! k = s"
    and "\<And>k. k < n \<Longrightarrow> T k = t \<Longrightarrow> sl ! k < length r \<and> r ! (sl ! k) = Some k"
  shows "ring_ok n T sl r t"
  using assms by (simp add: ring_ok_def)

lemma ring_ok_insert:
  assumes r: "ring_ok n T sl r t" and k: "k < n" "T k \<noteq> t" and s: "s < length r" and n: "length sl = n" and t: "t \<noteq> Nvme"
  shows "ring_ok n ((displaced T (r ! s))(k := t)) (sl[k := s]) (r[s := Some k]) t"
proof (rule ring_okI)
  fix s' k' assume s': "s' < length (r[s := Some k])" and e: "r[s := Some k] ! s' = Some k'"
  show "k' < n \<and> ((displaced T (r ! s))(k := t)) k' = t \<and> sl[k := s] ! k' = s'"
  proof (cases "s' = s")
    case True
    with e s k n show ?thesis by simp
  next
    case False
    with e s' have old: "k' < n" "T k' = t" "sl ! k' = s'" using ring_okD1 [OF r, of s' k'] by auto
    moreover from old k have "k' \<noteq> k" by auto
    moreover have "r ! s \<noteq> Some k'" using ring_okD1 [OF r s] old False by auto
    ultimately show ?thesis by (auto simp: displaced_def split: option.splits)
  qed
next
  fix k' assume k': "k' < n" and T': "((displaced T (r ! s))(k := t)) k' = t"
  show "sl[k := s] ! k' < length (r[s := Some k]) \<and> r[s := Some k] ! (sl[k := s] ! k') = Some k'"
  proof (cases "k' = k")
    case True
    with s n k show ?thesis by simp
  next
    case False
    with T' t have "T k' = t" and u: "r ! s \<noteq> Some k'" by (auto simp: displaced_def split: option.splits if_splits)
    with k' have "sl ! k' < length r" "r ! (sl ! k') = Some k'" using ring_okD2 [OF r] by auto
    with False u s show ?thesis by (auto simp: nth_list_update)
  qed
qed

lemma ring_ok_remove:
  assumes r: "ring_ok n T sl r t" and s: "s < length r" "r ! s = Some k" and t: "t \<noteq> Nvme"
  shows "ring_ok n (T(k := Nvme)) sl (r[s := None]) t"
proof (rule ring_okI)
  fix s' k' assume "s' < length (r[s := None])" "r[s := None] ! s' = Some k'"
  then have "s' \<noteq> s" "s' < length r" "r ! s' = Some k'" using s by (auto simp: nth_list_update split: if_splits)
  then show "k' < n \<and> (T(k := Nvme)) k' = t \<and> sl ! k' = s'"
    using ring_okD1 [OF r, of s' k'] ring_okD1 [OF r s] by auto
next
  fix k' assume "k' < n" "(T(k := Nvme)) k' = t"
  with t have "k' \<noteq> k" "T k' = t" "k' < n" by (auto split: if_splits)
  then show "sl ! k' < length (r[s := None]) \<and> r[s := None] ! (sl ! k') = Some k'"
    using ring_okD2 [OF r, of k'] s by (auto simp: nth_list_update)
qed

lemma ring_ok_other:
  assumes "ring_ok n T sl r t" and "length sl = n" and "T k \<noteq> t" and "t' \<noteq> t"
    and "\<And>j. j \<noteq> k \<Longrightarrow> T' j = t \<longleftrightarrow> T j = t" and "T' k \<noteq> t"
  shows "ring_ok n T' (sl[k := s]) r t"
  using assms unfolding ring_ok_def by (metis nth_list_update_neq)

definition clock_inv :: "pool \<Rightarrow> (nat \<Rightarrow> tier) \<Rightarrow> bool" where
  "clock_inv p T \<longleftrightarrow> shape_ok p \<and>
     (\<forall>t \<in> {Vram, Pinned}. ring_ok (keys p) T (slot p) (ring p (tix t)) t \<and> length (ring p (tix t)) = cap p (tix t)
        \<and> (0 < cap p (tix t) \<longrightarrow> hand p (tix t) < cap p (tix t)))"

lemma clock_inv_set_tier [simp]: "clock_inv (set_tier p k t) T = clock_inv p T"
  by (simp add: clock_inv_def)

lemma clock_inv_refb: "clock_inv p T \<Longrightarrow> length rb = keys p \<Longrightarrow> clock_inv (p\<lparr>refb := rb\<rparr>) T"
  by (auto simp: clock_inv_def shape_ok_def keys_def)

lemma sweep_ok:
  assumes "clock_inv p T" and "t \<in> {Vram, Pinned}" and "0 < cap p (tix t)"
  shows "\<exists>rb h. sweep (tix t) p = Some (h, p\<lparr>refb := rb, hand := (hand p)(tix t := h)\<rparr>)
    \<and> length rb = keys p \<and> h < cap p (tix t)"
  using assms
proof (induction "tix t" p rule: sweep.induct)
  case (1 p)
  let ?i = "tix t" let ?h = "hand p ?i"
  have h: "?h < length (ring p ?i)" and hc: "?h < cap p ?i" and sh: "length (refb p) = keys p"
    using 1(2-4) by (auto simp: clock_inv_def shape_ok_def)
  show ?case
  proof (cases "ring p ?i ! ?h")
    case None
    with h hc sh show ?thesis
      by (subst sweep.simps) (auto intro!: exI [of _ "refb p"] exI [of _ ?h])
  next
    case (Some k)
    have k: "k < length (refb p)"
      using 1(2,3) Some h by (auto simp: clock_inv_def shape_ok_def ring_ok_def)
    show ?thesis
    proof (cases "refb p ! k")
      case False
      with Some h hc k sh show ?thesis
        by (subst sweep.simps) (auto intro!: exI [of _ "refb p"] exI [of _ ?h])
    next
      case True
      let ?p = "p\<lparr>refb := (refb p)[k := False], hand := (hand p)(?i := (?h + 1) mod cap p ?i)\<rparr>"
      have inv: "clock_inv ?p T"
        using 1(2,4) by (auto simp: clock_inv_def shape_ok_def keys_def)
      obtain rb h' where r: "sweep ?i ?p = Some (h', ?p\<lparr>refb := rb, hand := (hand ?p)(?i := h')\<rparr>)"
          "length rb = keys ?p" "h' < cap ?p ?i"
        using 1(1) [OF refl h Some k _ inv 1(3)] True 1(4) by auto
      have "sweep ?i p = sweep ?i ?p"
        using Some h k True by (subst sweep.simps) simp
      with r show ?thesis by (auto simp: keys_def)
    qed
  qed
qed

definition insert_at :: "pool \<Rightarrow> tier \<Rightarrow> nat \<Rightarrow> nat \<Rightarrow> bool \<Rightarrow> (nat \<Rightarrow> nat) \<Rightarrow> pool" where
  "insert_at p t s k rb hnd = p\<lparr>ring := (ring p)(tix t := (ring p (tix t))[s := Some k]), slot := (slot p)[k := s],
     refb := (refb p)[k := rb], hand := hnd\<rparr>"

lemma insert_at_frame [simp]:
  "ptier (insert_at p t s k rb hnd) = ptier p" "len (insert_at p t s k rb hnd) = len p"
  "keys (insert_at p t s k rb hnd) = keys p" "same p (insert_at p t s k rb hnd)" "cap (insert_at p t s k rb hnd) = cap p"
  by (simp_all add: insert_at_def keys_def same_def)

lemma occupant_ok:
  assumes "clock_inv p T" and "T k = Nvme" and "t \<in> {Vram, Pinned}" and "s < cap p (tix t)"
    and "ring p (tix t) ! s = Some u"
  shows "u < keys p \<and> T u = t \<and> u \<noteq> k"
  using assms by (auto simp: clock_inv_def ring_ok_def)

lemma insert_at_ok:
  assumes inv: "clock_inv p T" and k: "k < keys p" "T k = Nvme" and t: "t \<in> {Vram, Pinned}" and s: "s < cap p (tix t)"
    and hnd: "\<forall>t \<in> {Vram, Pinned}. 0 < cap p (tix t) \<longrightarrow> hnd (tix t) < cap p (tix t)"
  shows "clock_inv (insert_at p t s k rb hnd) ((displaced T (ring p (tix t) ! s))(k := t))"
proof -
  let ?u = "ring p (tix t) ! s" let ?T = "(displaced T ?u)(k := t)"
  have own: "ring_ok (keys p) T (slot p) (ring p (tix t)) t" and ln: "length (ring p (tix t)) = cap p (tix t)"
    and sl: "length (slot p) = keys p" using inv t by (auto simp: clock_inv_def shape_ok_def)
  note occ = occupant_ok [OF inv k(2) t s]
  have own': "ring_ok (keys p) ?T ((slot p)[k := s]) ((ring p (tix t))[s := Some k]) t"
    using own k t s ln sl by (intro ring_ok_insert) auto
  have other: "ring_ok (keys p) ?T ((slot p)[k := s]) (ring p (tix t')) t'"
    if t': "t' \<in> {Vram, Pinned}" "t' \<noteq> t" for t'
  proof (rule ring_ok_other [where T = T and t' = t])
    show "ring_ok (keys p) T (slot p) (ring p (tix t')) t'" using inv t' by (auto simp: clock_inv_def)
    show "?T j = t' \<longleftrightarrow> T j = t'" if "j \<noteq> k" for j
      using that occ t' by (auto simp: displaced_def split: option.splits)
  qed (use sl k t t' in auto)
  show ?thesis
    unfolding clock_inv_def
  proof (intro conjI ballI)
    show "shape_ok (insert_at p t s k rb hnd)" using inv by (simp add: insert_at_def clock_inv_def shape_ok_def keys_def)
  next
    fix t' assume t': "t' \<in> {Vram, Pinned}"
    show "ring_ok (keys (insert_at p t s k rb hnd)) ?T (slot (insert_at p t s k rb hnd)) (ring (insert_at p t s k rb hnd) (tix t')) t'"
      using own' other [OF t'] t t' by (cases "t' = t") (auto simp: insert_at_def keys_def)
    show "length (ring (insert_at p t s k rb hnd) (tix t')) = cap (insert_at p t s k rb hnd) (tix t')"
      using inv t' by (auto simp: insert_at_def clock_inv_def)
    show "0 < cap (insert_at p t s k rb hnd) (tix t') \<longrightarrow> hand (insert_at p t s k rb hnd) (tix t') < cap (insert_at p t s k rb hnd) (tix t')"
      using hnd t' by (auto simp: insert_at_def)
  qed
qed

lemma put_insert_at:
  "put p (tix t) s k rb = (ring p (tix t) ! s, insert_at p t s k rb ((hand p)(tix t := (s + 1) mod cap p (tix t))))"
  by (simp add: put_def insert_at_def)

lemma put_ok:
  assumes inv: "clock_inv p T" and k: "k < keys p" "T k = Nvme" and t: "t \<in> {Vram, Pinned}" and s: "s < cap p (tix t)"
  shows "\<exists>u p'. put p (tix t) s k rb = (u, p') \<and> clock_inv p' ((displaced T u)(k := t))
    \<and> (\<forall>v. u = Some v \<longrightarrow> v < keys p \<and> T v = t \<and> v \<noteq> k)
    \<and> same p p' \<and> ptier p' = ptier p \<and> len p' = len p"
proof -
  let ?h = "(hand p)(tix t := (s + 1) mod cap p (tix t))"
  have h: "\<forall>t' \<in> {Vram, Pinned}. 0 < cap p (tix t') \<longrightarrow> ?h (tix t') < cap p (tix t')"
    using inv by (auto simp: clock_inv_def)
  show ?thesis
  proof (intro exI conjI)
    show "put p (tix t) s k rb = (ring p (tix t) ! s, insert_at p t s k rb ?h)" by (rule put_insert_at)
    show "clock_inv (insert_at p t s k rb ?h) ((displaced T (ring p (tix t) ! s))(k := t))"
      by (rule insert_at_ok [OF inv k t s h])
  qed (use occupant_ok [OF inv k(2) t s] in simp_all)
qed

text \<open>A key leaves the pinned ring; its slot is empty.\<close>

definition unpin :: "pool \<Rightarrow> nat \<Rightarrow> pool" where
  "unpin p s = p\<lparr>ring := (ring p)(1 := (ring p 1)[s := None])\<rparr>"

lemma unpin_ok:
  assumes inv: "clock_inv p T" and k: "k < keys p" "T k = Pinned"
  shows "clock_inv (unpin p (slot p ! k)) (T(k := Nvme))" and "slot p ! k < cap p 1"
proof -
  have r: "ring_ok (keys p) T (slot p) (ring p 1) Pinned" and v: "ring_ok (keys p) T (slot p) (ring p 0) Vram"
    and ln: "length (ring p 1) = cap p 1" using inv by (auto simp: clock_inv_def)
  from ring_okD2 [OF r k] have s: "slot p ! k < length (ring p 1)" "ring p 1 ! (slot p ! k) = Some k" by auto
  with ln show "slot p ! k < cap p 1" by simp
  have "ring_ok (keys p) (T(k := Nvme)) (slot p) ((ring p 1)[slot p ! k := None]) Pinned"
    by (rule ring_ok_remove [OF r s]) simp
  moreover have "ring_ok (keys p) (T(k := Nvme)) (slot p) (ring p 0) Vram"
    using v k by (auto simp: ring_ok_def)
  ultimately show "clock_inv (unpin p (slot p ! k)) (T(k := Nvme))"
    using inv by (auto simp: clock_inv_def unpin_def keys_def shape_ok_def)
qed

lemma nth_fun_upd: "k < length xs \<Longrightarrow> (!) (xs[k := x]) = ((!) xs)(k := x)"
  by (auto simp: fun_eq_iff nth_list_update)

lemma clock_demote_ok:
  assumes inv: "clock_inv p (((!) (ptier p))(v := Nvme))" and v: "v < keys p" and l: "len_ok p"
  shows "\<exists>p'. clock_demote p v = Some p' \<and> same p p' \<and> clock_inv p' ((!) (ptier p')) \<and> len_ok p'"
proof (cases "cap p 1 = 0")
  case True
  with inv v l show ?thesis
    by (auto simp: clock_demote_def len_ok_set_tier nth_fun_upd keys_def)
next
  case False
  let ?T = "((!) (ptier p))(v := Nvme)"
  obtain rb q where sw: "sweep 1 p = Some (q, p\<lparr>refb := rb, hand := (hand p)(1 := q)\<rparr>)" "length rb = keys p" "q < cap p 1"
    using sweep_ok [OF inv, of Pinned] False by auto
  let ?p1 = "p\<lparr>refb := rb, hand := (hand p)(1 := q)\<rparr>"
  have i1: "clock_inv ?p1 ?T" using inv sw by (auto simp: clock_inv_def shape_ok_def keys_def)
  obtain u p2 where pt: "put ?p1 1 q v False = (u, p2)" and i2: "clock_inv p2 ((displaced ?T u)(v := Pinned))"
    and u: "\<forall>w. u = Some w \<longrightarrow> w < keys p \<and> ?T w = Pinned \<and> w \<noteq> v"
    and s2: "same ?p1 p2" "ptier p2 = ptier p" "len p2 = len p"
    using put_ok [OF i1, of v Pinned q False] v sw(3) by (auto simp: keys_def)
  have l2: "len_ok p2" "v < keys p2" using l v s2 by (auto simp: len_ok_def tier_count_def keys_def)
  have sp: "same p p2" using s2(1) by (simp add: same_def keys_def)
  let ?p3 = "set_tier p2 v Pinned"
  have l3: "len_ok ?p3" using l2 by (simp add: len_ok_set_tier)
  show ?thesis
  proof (cases u)
    case None
    with i2 sw pt sp l3 v s2 False show ?thesis
      by (auto simp: clock_demote_def displaced_def nth_fun_upd keys_def)
  next
    case (Some w)
    with u have w: "w < keys p" "w \<noteq> v" by auto
    have "len_ok (set_tier ?p3 w Nvme)" using w s2 by (intro len_ok_set_tier [OF _ l3]) (simp add: keys_def)
    moreover have "(!) (ptier (set_tier ?p3 w Nvme)) = (displaced ?T u)(v := Pinned)"
      using w v s2 Some by (auto simp: fun_eq_iff displaced_def nth_list_update keys_def)
    ultimately show ?thesis using Some i2 sw pt sp False
      by (auto simp: clock_demote_def)
  qed
qed

lemma clock_place_nvme:
  assumes inv: "clock_inv p ((!) (ptier p))" and l: "len_ok p" and k: "k < keys p" "ptier p ! k = Nvme"
    and t: "t \<in> {Vram, Pinned}" and c: "0 < cap p (tix t)"
  obtains s p1 u p2 where "sweep (tix t) p = Some (s, p1)" "put p1 (tix t) s k True = (u, p2)"
    "len_ok (set_tier p2 k t)" "same p (set_tier p2 k t)" "ptier p2 = ptier p"
    "\<forall>v. u = Some v \<longrightarrow> v < keys p \<and> ptier p ! v = t \<and> v \<noteq> k"
    "clock_inv (set_tier p2 k t) ((displaced ((!) (ptier p)) u)(k := t))"
proof -
  obtain rb s where sw: "sweep (tix t) p = Some (s, p\<lparr>refb := rb, hand := (hand p)(tix t := s)\<rparr>)" "length rb = keys p" "s < cap p (tix t)"
    using sweep_ok [OF inv t c] by auto
  let ?p1 = "p\<lparr>refb := rb, hand := (hand p)(tix t := s)\<rparr>"
  have i1: "clock_inv ?p1 ((!) (ptier p))" using inv sw by (auto simp: clock_inv_def shape_ok_def keys_def)
  obtain u p2 where pt: "put ?p1 (tix t) s k True = (u, p2)" and i2: "clock_inv p2 ((displaced ((!) (ptier p)) u)(k := t))"
    and u: "\<forall>v. u = Some v \<longrightarrow> v < keys p \<and> ptier p ! v = t \<and> v \<noteq> k"
    and s2: "same ?p1 p2" "ptier p2 = ptier p" "len p2 = len p"
    using put_ok [OF i1, of k t s True] k sw(3) t by (auto simp: keys_def)
  have "len_ok (set_tier p2 k t)"
    using l k s2 by (intro len_ok_set_tier) (auto simp: len_ok_def tier_count_def keys_def)
  moreover have "same p (set_tier p2 k t)" using s2(1) by (simp add: same_def keys_def)
  ultimately show thesis using that [OF sw(1) pt] s2 u i2 by simp
qed

lemma clock_nvme_ok:
  assumes inv: "clock_inv p ((!) (ptier p))" and l: "len_ok p" and k: "k < keys p" "ptier p ! k = Nvme"
  shows "\<exists>p'. clock p k admit = Some p' \<and> same p p' \<and> clock_inv p' ((!) (ptier p')) \<and> len_ok p'"
proof -
  consider (bypass) "\<not> admit \<or> cap p 0 = 0 \<and> cap p 1 = 0" | (vram) "admit" "0 < cap p 0" | (pin) "admit" "cap p 0 = 0" "0 < cap p 1"
    by auto
  then show ?thesis
  proof cases
    case bypass
    with inv l k show ?thesis by (auto simp: clock_def)
  next
    case vram
    obtain s p1 u p2 where *: "sweep (tix Vram) p = Some (s, p1)" "put p1 (tix Vram) s k True = (u, p2)"
      "len_ok (set_tier p2 k Vram)" "same p (set_tier p2 k Vram)" "ptier p2 = ptier p"
      "\<forall>v. u = Some v \<longrightarrow> v < keys p \<and> ptier p ! v = Vram \<and> v \<noteq> k"
      "clock_inv (set_tier p2 k Vram) ((displaced ((!) (ptier p)) u)(k := Vram))"
      by (rule clock_place_nvme [OF inv l k, of Vram]) (use vram in auto)
    show ?thesis
    proof (cases u)
      case None
      with * vram k show ?thesis by (auto simp: clock_def displaced_def nth_fun_upd keys_def)
    next
      case (Some v)
      let ?p3 = "set_tier p2 k Vram"
      have v: "v < keys p" "v \<noteq> k" using * Some by auto
      have "clock_inv ?p3 (((!) (ptier ?p3))(v := Nvme))"
      proof -
        have "(displaced ((!) (ptier p)) u)(k := Vram) = ((!) (ptier ?p3))(v := Nvme)"
          using v k Some * by (auto simp: fun_eq_iff displaced_def nth_list_update keys_def)
        with *(7) show ?thesis by simp
      qed
      moreover have "v < keys ?p3" using v * by (simp add: same_def)
      ultimately obtain p' where "clock_demote ?p3 v = Some p'" "same ?p3 p'" "clock_inv p' ((!) (ptier p'))" "len_ok p'"
        using clock_demote_ok *(3) by blast
      with * Some vram k show ?thesis by (auto simp: clock_def intro: same_trans)
    qed
  next
    case pin
    obtain s p1 u p2 where *: "sweep (tix Pinned) p = Some (s, p1)" "put p1 (tix Pinned) s k True = (u, p2)"
      "len_ok (set_tier p2 k Pinned)" "same p (set_tier p2 k Pinned)" "ptier p2 = ptier p"
      "\<forall>v. u = Some v \<longrightarrow> v < keys p \<and> ptier p ! v = Pinned \<and> v \<noteq> k"
      "clock_inv (set_tier p2 k Pinned) ((displaced ((!) (ptier p)) u)(k := Pinned))"
      by (rule clock_place_nvme [OF inv l k, of Pinned]) (use pin in auto)
    show ?thesis
    proof (cases u)
      case None
      with * pin k show ?thesis by (auto simp: clock_def displaced_def nth_fun_upd keys_def)
    next
      case (Some v)
      let ?p3 = "set_tier p2 k Pinned"
      have v: "v < keys p" "v \<noteq> k" "v < keys ?p3" using * Some by (auto simp: same_def)
      have "(!) (ptier (set_tier ?p3 v Nvme)) = (displaced ((!) (ptier p)) u)(k := Pinned)"
        using v k Some * by (auto simp: fun_eq_iff displaced_def nth_list_update keys_def)
      then show ?thesis using * Some pin k v by (auto simp: clock_def len_ok_set_tier)
    qed
  qed
qed

text \<open>Promotion of a pinned key: the VRAM victim takes the pinned slot the key left.\<close>

lemma clock_pinned_ok:
  assumes inv: "clock_inv p ((!) (ptier p))" and l: "len_ok p" and k: "k < keys p" "ptier p ! k = Pinned"
  shows "\<exists>p'. clock p k admit = Some p' \<and> same p p' \<and> clock_inv p' ((!) (ptier p')) \<and> len_ok p'"
proof (cases "cap p 0 = 0 \<or> pin_stay p")
  case True
  have "clock_inv (p\<lparr>refb := (refb p)[k := True]\<rparr>) ((!) (ptier p))"
    using inv by (intro clock_inv_refb) (auto simp: clock_inv_def shape_ok_def)
  with True l k show ?thesis
    by (auto simp: clock_def same_def keys_def len_ok_def tier_count_def)
next
  case False
  let ?ps = "slot p ! k"
  let ?q = "unpin p ?ps"
  let ?T = "((!) (ptier p))(k := Nvme)"
  have iq: "clock_inv ?q ?T" and ps: "?ps < cap p 1" using unpin_ok [OF inv k] by auto
  obtain rb s where sw: "sweep 0 p = Some (s, p\<lparr>refb := rb, hand := (hand p)(0 := s)\<rparr>)" "length rb = keys p" "s < cap p 0"
    using sweep_ok [OF inv, of Vram] False by auto
  let ?q1 = "?q\<lparr>refb := rb, hand := (hand p)(0 := s)\<rparr>"
  let ?h = "((hand p)(0 := s))(0 := (s + 1) mod cap p 0)"
  have i1: "clock_inv ?q1 ?T" using iq sw by (auto simp: clock_inv_def shape_ok_def keys_def unpin_def)
  let ?u = "ring p 0 ! s"
  let ?q2 = "insert_at ?q1 Vram s k True ?h"
  have i2: "clock_inv ?q2 ((displaced ?T ?u)(k := Vram))"
    using insert_at_ok [OF i1, of k Vram s ?h True] k sw(3) i1
    by (auto simp: unpin_def keys_def clock_inv_def)
  have l2: "len_ok ?q2" "keys ?q2 = keys p" "ptier ?q2 = ptier p"
    using l by (auto simp: len_ok_def tier_count_def keys_def unpin_def)
  have sm: "same p ?q2" by (simp add: same_def insert_at_def unpin_def keys_def)
  let ?q3 = "set_tier ?q2 k Vram"
  have l3: "len_ok ?q3" using l2 k by (intro len_ok_set_tier) auto
  have i3: "clock_inv ?q3 ((displaced ?T ?u)(k := Vram))" using i2 by simp
  show ?thesis
  proof (cases ?u)
    case None
    have "clock p k admit = Some ?q3"
      using False sw k None
      by (auto simp: clock_def put_def insert_at_def unpin_def set_tier_def Let_def fun_eq_iff)
    moreover have "(!) (ptier ?q3) = (displaced ?T ?u)(k := Vram)"
      using None k l2 by (auto simp: fun_eq_iff displaced_def nth_list_update keys_def)
    ultimately show ?thesis using i3 l3 sm by auto
  next
    case (Some v)
    have v: "v < keys p" "v \<noteq> k" using occupant_ok [OF i1, of k Vram s v] k sw(3) Some
      by (auto simp: unpin_def keys_def)
    let ?q4 = "insert_at ?q3 Pinned ?ps v False (hand ?q3)"
    have e: "ring ?q3 1 ! ?ps = None"
      using ps inv by (auto simp: insert_at_def unpin_def clock_inv_def)
    have i4: "clock_inv ?q4 ((displaced ((displaced ?T ?u)(k := Vram)) None)(v := Pinned))"
      using insert_at_ok [OF i3, of v Pinned ?ps "hand ?q3" False] e v ps i3 Some l2(2)
      by (auto simp: displaced_def clock_inv_def unpin_def)
    have l4: "len_ok ?q4" using l3 by (simp add: len_ok_def tier_count_def)
    have "clock p k admit = Some (set_tier ?q4 v Pinned)"
      using False sw k Some
      by (auto simp: clock_def put_def insert_at_def unpin_def set_tier_def Let_def fun_eq_iff)
    moreover have "(!) (ptier (set_tier ?q4 v Pinned)) = (displaced ((displaced ?T ?u)(k := Vram)) None)(v := Pinned)"
      using Some v k l2 by (auto simp: fun_eq_iff displaced_def nth_list_update keys_def)
    moreover have "len_ok (set_tier ?q4 v Pinned)" using l4 v l2 by (intro len_ok_set_tier) auto
    moreover have "same p (set_tier ?q4 v Pinned)"
      by (rule same_set_tier(2), rule same_trans [OF same_set_tier(2) [OF sm] insert_at_frame(4)])
    ultimately show ?thesis using i4 by auto
  qed
qed

lemma clock_ok:
  assumes inv: "clock_inv p ((!) (ptier p))" and l: "len_ok p" and k: "k < keys p"
  shows "\<exists>p'. clock p k admit = Some p' \<and> same p p' \<and> clock_inv p' ((!) (ptier p')) \<and> len_ok p'"
proof (cases "ptier p ! k")
  case Vram
  have "clock_inv (p\<lparr>refb := (refb p)[k := True]\<rparr>) ((!) (ptier p))"
    using inv by (intro clock_inv_refb) (auto simp: clock_inv_def shape_ok_def)
  with Vram l k show ?thesis
    by (auto simp: clock_def same_def keys_def len_ok_def tier_count_def)
qed (use clock_pinned_ok [OF inv l k] clock_nvme_ok [OF inv l k] in blast)+

section \<open>The pool invariant\<close>

definition pool_inv :: "policy \<Rightarrow> pool \<Rightarrow> bool" where
  "pool_inv po p \<longleftrightarrow> shape_ok p \<and> len_ok p \<and> cap_ok p
     \<and> (case po of Clock _ \<Rightarrow> clock_inv p ((!) (ptier p)) | _ \<Rightarrow> True)"

lemma tier_count_card: "tier_count p t = card {k. k < keys p \<and> ptier p ! k = t}"
  by (simp add: tier_count_def keys_def length_filter_conv_card)

lemma clock_inv_slot_bij:
  assumes "clock_inv p ((!) (ptier p))" and t: "t \<in> {Vram, Pinned}"
  shows "bij_betw ((!) (slot p)) {k. k < keys p \<and> ptier p ! k = t} {s. s < cap p (tix t) \<and> ring p (tix t) ! s \<noteq> None}"
proof -
  have r: "ring_ok (keys p) ((!) (ptier p)) (slot p) (ring p (tix t)) t" and l: "length (ring p (tix t)) = cap p (tix t)"
    using assms by (auto simp: clock_inv_def)
  show ?thesis
  proof (rule bij_betw_byWitness [where f' = "\<lambda>s. the (ring p (tix t) ! s)"])
    show "\<forall>k \<in> {k. k < keys p \<and> ptier p ! k = t}. the (ring p (tix t) ! (slot p ! k)) = k"
      using ring_okD2 [OF r] by auto
    show "\<forall>s \<in> {s. s < cap p (tix t) \<and> ring p (tix t) ! s \<noteq> None}. slot p ! the (ring p (tix t) ! s) = s"
      using ring_okD1 [OF r] l by auto
  qed (use ring_okD1 [OF r] ring_okD2 [OF r] l in auto)
qed

lemma clock_inv_occupied:
  assumes "clock_inv p ((!) (ptier p))" and t: "t \<in> {Vram, Pinned}"
  shows "length (filter (\<lambda>x. x \<noteq> None) (ring p (tix t))) = tier_count p t"
proof -
  have l: "length (ring p (tix t)) = cap p (tix t)" using assms by (auto simp: clock_inv_def)
  show ?thesis using bij_betw_same_card [OF clock_inv_slot_bij [OF assms]]
    by (simp add: tier_count_card length_filter_conv_card l)
qed

lemma clock_inv_cap_ok: "clock_inv p ((!) (ptier p)) \<Longrightarrow> cap_ok p"
  using clock_inv_occupied [of p Vram] clock_inv_occupied [of p Pinned]
    length_filter_le [of "\<lambda>x. x \<noteq> None" "ring p 0"] length_filter_le [of "\<lambda>x. x \<noteq> None" "ring p 1"]
  by (auto simp: cap_ok_def clock_inv_def)

lemma pool_inv_check: "pool_inv po p \<Longrightarrow> check_pool po p"
  using clock_inv_occupied [of p Vram] clock_inv_occupied [of p Pinned]
  by (auto simp: check_pool_def pool_inv_def len_ok_def cap_ok_def check_ring_def Let_def list_all_iff
      in_set_enumerate_eq clock_inv_def ring_ok_def split: policy.splits option.splits)

lemma pool_inv_place:
  assumes inv: "pool_inv po p" and k: "k < keys p"
  shows "\<exists>p'. place po w ok p k = Some p' \<and> pool_inv po p' \<and> keys p' = keys p \<and> cap p' = cap p \<and> pin_stay p' = pin_stay p"
proof (cases po)
  case Lru
  with inv k ranked_ok [of k p Lru] show ?thesis by (auto simp: place_def pool_inv_def same_def)
next
  case (Lfu d)
  let ?p = "p\<lparr>score := (score p)[k := f_add (score p ! k) (f_of_nat w)]\<rparr>"
  have "k < keys ?p" "len_ok ?p" "cap_ok ?p" "shape_ok ?p"
    using inv k Lfu by (auto simp: pool_inv_def keys_def len_ok_def cap_ok_def tier_count_def shape_ok_def)
  with ranked_ok [of k ?p "Lfu d"] Lfu show ?thesis by (auto simp: place_def pool_inv_def same_def keys_def)
next
  case (Clock a)
  with inv k clock_ok [of p k ok] show ?thesis
    by (auto simp: place_def pool_inv_def same_def clock_inv_cap_ok) (auto simp: clock_inv_def)
qed

lemma pool_inv_irrelevant:
  assumes "pool_inv po p" and "length st = keys p" and "length sc = keys p"
  shows "pool_inv po (p\<lparr>stamp := st\<rparr>)" and "pool_inv po (p\<lparr>score := sc\<rparr>)" and "pool_inv po (p\<lparr>pin_stay := b\<rparr>)"
  using assms
  by (auto simp: pool_inv_def shape_ok_def len_ok_def cap_ok_def tier_count_def keys_def clock_inv_def split: policy.splits)

lemma pool_inv_new: "pool_inv po (pool_new n v p)"
  by (auto simp: pool_inv_def pool_new_def shape_ok_def len_ok_def cap_ok_def tier_count_def keys_def
      clock_inv_def ring_ok_def split: policy.splits)

section \<open>The interface between the cache and its pools\<close>

text \<open>
  What the cache relies on when it hands an access to a pool: the placement of a key of the
  pool succeeds, keeps the pool's invariant and changes neither its keys nor its capacities;
  stamping a key keeps the invariant. The cache's own lemmas about a vector of pools follow.
\<close>

locale placement =
  fixes inv :: "pool \<Rightarrow> bool" and place1 :: "nat \<Rightarrow> bool \<Rightarrow> pool \<Rightarrow> nat \<Rightarrow> pool option"
  assumes place_keeps: "inv p \<Longrightarrow> k < keys p \<Longrightarrow>
      \<exists>p'. place1 w ok p k = Some p' \<and> inv p' \<and> keys p' = keys p \<and> cap p' = cap p \<and> pin_stay p' = pin_stay p"
    and stamp_keeps: "inv p \<Longrightarrow> inv (p\<lparr>stamp := (stamp p)[k := n]\<rparr>)"
begin

lemma place_stamped:
  assumes "inv p" and "k < keys p"
  shows "\<exists>p'. place1 w ok (p\<lparr>stamp := (stamp p)[k := n]\<rparr>) k = Some p' \<and> inv p' \<and> keys p' = keys p \<and> cap p' = cap p
    \<and> pin_stay p' = pin_stay p"
  using place_keeps [OF stamp_keeps [OF assms(1)], of k k n w ok] assms(2) by (auto simp: keys_def)

lemma place_in_pools:
  assumes "list_all inv ps" and "i < length ps" and "k < keys (ps ! i)"
  shows "\<exists>p'. place1 w ok ((ps ! i)\<lparr>stamp := (stamp (ps ! i))[k := n]\<rparr>) k = Some p' \<and> list_all inv (ps[i := p'])
    \<and> map keys (ps[i := p']) = map keys ps \<and> map cap (ps[i := p']) = map cap ps \<and> map pin_stay (ps[i := p']) = map pin_stay ps"
proof -
  have "inv (ps ! i)" using assms by (simp add: list_all_length)
  from place_stamped [OF this assms(3), of w ok n] obtain p' where p': "place1 w ok ((ps ! i)\<lparr>stamp := (stamp (ps ! i))[k := n]\<rparr>) k = Some p'"
    "inv p'" "keys p' = keys (ps ! i)" "cap p' = cap (ps ! i)" "pin_stay p' = pin_stay (ps ! i)" by blast
  moreover have "list_all inv (ps[i := p'])"
    using assms(1,2) p'(2) by (auto simp: list_all_length nth_list_update)
  ultimately show ?thesis using assms(2) by (auto simp: map_update_nth_same)
qed

end

lemma pool_inv_stamp: "pool_inv po p \<Longrightarrow> pool_inv po (p\<lparr>stamp := (stamp p)[k := n]\<rparr>)"
  by (rule pool_inv_irrelevant(1) [where sc = "score p"]) (auto simp: pool_inv_def shape_ok_def)

interpretation pl: placement "pool_inv po" "place po" for po
proof unfold_locales
  fix p k w ok assume "pool_inv po p" "k < keys p"
  then show "\<exists>p'. place po w ok p k = Some p' \<and> pool_inv po p' \<and> keys p' = keys p \<and> cap p' = cap p \<and> pin_stay p' = pin_stay p"
    by (rule pool_inv_place)
next
  fix p k n assume "pool_inv po p"
  then show "pool_inv po (p\<lparr>stamp := (stamp p)[k := n]\<rparr>)" by (rule pool_inv_stamp)
qed

end
