(* ===== verification/ExpertCacheState.thy ===== *)
theory ExpertCacheState
  imports ExpertCacheInv
begin

text \<open>
  The expert cache as a state machine: its public operations as steps, the states they reach
  from \<open>ExpertCache::new\<close>, and the invariant of those states. No call with ids inside the
  shape panics, the exclusivity check succeeds after every call, and the served-from counters
  account for every access.
\<close>

section \<open>The invariant of the whole cache\<close>

definition pool_keys :: "cache \<Rightarrow> nat" where
  "pool_keys c = (case scope c of PerLayer \<Rightarrow> experts c | Global \<Rightarrow> layers c * experts c)"

definition pool_count :: "cache \<Rightarrow> nat" where
  "pool_count c = (case scope c of PerLayer \<Rightarrow> layers c | Global \<Rightarrow> 1)"

definition pool_caps :: "cache \<Rightarrow> nat \<Rightarrow> nat" where
  "pool_caps c i = (case scope c of PerLayer \<Rightarrow> 1 | Global \<Rightarrow> layers c) * (if i = 0 then vram c else pinned c)"

definition cache_inv :: "cache \<Rightarrow> bool" where
  "cache_inv c \<longleftrightarrow> 0 < layers c \<and> 0 < experts c \<and> list_all (pool_inv (pol c)) (pools c)
     \<and> map keys (pools c) = replicate (pool_count c) (pool_keys c)
     \<and> map cap (pools c) = replicate (pool_count c) (pool_caps c)
     \<and> length (admitted c) = layers c \<and> length (last_counts c) = layers c
     \<and> length (counters c) = layers c \<and> list_all (\<lambda>r. length r = 3) (counters c)"

text \<open>What no operation changes.\<close>

definition cfg :: "cache \<Rightarrow> policy \<times> scope \<times> nat \<times> nat \<times> nat \<times> nat" where
  "cfg c = (pol c, scope c, layers c, experts c, vram c, pinned c)"

lemma cfg_eq: "cfg c = cfg c' \<longleftrightarrow> pol c = pol c' \<and> scope c = scope c' \<and> layers c = layers c'
    \<and> experts c = experts c' \<and> vram c = vram c' \<and> pinned c = pinned c'"
  by (auto simp: cfg_def)

lemma cfg_simps [simp]:
  "cfg (c\<lparr>pools := a\<rparr>) = cfg c" "cfg (c\<lparr>now := b\<rparr>) = cfg c" "cfg (c\<lparr>counters := d\<rparr>) = cfg c"
  "cfg (c\<lparr>admitted := e\<rparr>) = cfg c" "cfg (c\<lparr>last_counts := f\<rparr>) = cfg c"
  by (auto simp: cfg_def)

lemma cfg_derived:
  assumes "cfg c = cfg c'"
  shows "pool_keys c = pool_keys c'" and "pool_count c = pool_count c'" and "pool_caps c = pool_caps c'"
    and "loc c = loc c'"
  using assms by (auto simp: cfg_eq pool_keys_def pool_count_def pool_caps_def loc_def fun_eq_iff split: scope.splits)

lemma derived_simps [simp]:
  "pool_keys (c\<lparr>pools := a\<rparr>) = pool_keys c" "pool_count (c\<lparr>pools := a\<rparr>) = pool_count c" "pool_caps (c\<lparr>pools := a\<rparr>) = pool_caps c"
  "pool_keys (c\<lparr>now := b\<rparr>) = pool_keys c" "pool_count (c\<lparr>now := b\<rparr>) = pool_count c" "pool_caps (c\<lparr>now := b\<rparr>) = pool_caps c"
  "pool_keys (c\<lparr>counters := d\<rparr>) = pool_keys c" "pool_count (c\<lparr>counters := d\<rparr>) = pool_count c" "pool_caps (c\<lparr>counters := d\<rparr>) = pool_caps c"
  "pool_keys (c\<lparr>admitted := e\<rparr>) = pool_keys c" "pool_count (c\<lparr>admitted := e\<rparr>) = pool_count c" "pool_caps (c\<lparr>admitted := e\<rparr>) = pool_caps c"
  "pool_keys (c\<lparr>last_counts := f\<rparr>) = pool_keys c" "pool_count (c\<lparr>last_counts := f\<rparr>) = pool_count c" "pool_caps (c\<lparr>last_counts := f\<rparr>) = pool_caps c"
  by (auto intro!: cfg_derived)

lemma cache_inv_new: "cache_new po sc ls es v p = Inr c \<Longrightarrow> cache_inv c \<and> now c = 0"
  by (auto simp: cache_new_def cache_inv_def pool_inv_new pool_count_def pool_keys_def pool_caps_def
      keys_def pool_new_def list_all_iff fun_eq_iff split: if_splits option.splits policy.splits scope.splits)
    (auto simp: pool_inv_new [unfolded pool_new_def])

lemma loc_Some_iff: "(\<exists>x. loc c l e = Some x) \<longleftrightarrow> l < layers c \<and> e < experts c"
  by (auto simp: loc_def)

lemma global_key: "l < (ls :: nat) \<Longrightarrow> e < es \<Longrightarrow> l * es + e < ls * es"
proof -
  assume "l < ls" "e < es"
  then have "l * es + e < l * es + es" "(l + 1) * es \<le> ls * es" by (simp, intro mult_le_mono1, simp)
  then show ?thesis by simp
qed

lemma loc_bounds:
  assumes "cache_inv c" and "loc c l e = Some (p, k)"
  shows "p < length (pools c)" and "k < keys (pools c ! p)" and "l < layers c" and "p < pool_count c" and "k < pool_keys c"
proof -
  have n: "length (pools c) = pool_count c" and k: "\<And>i. i < pool_count c \<Longrightarrow> keys (pools c ! i) = pool_keys c"
    using assms(1) by (auto simp: cache_inv_def dest: arg_cong [where f = length])
      (metis length_map length_replicate nth_map nth_replicate)
  have b: "l < layers c" "p < pool_count c" "k < pool_keys c"
    using assms(2) global_key [of l "layers c" e "experts c"]
    by (auto simp: loc_def pool_count_def pool_keys_def split: if_splits scope.splits)
  then show "p < length (pools c)" "k < keys (pools c ! p)" "l < layers c" "p < pool_count c" "k < pool_keys c"
    using n k by auto
qed

section \<open>Each operation keeps it\<close>

lemma pool_inv_pin_stay [simp]: "pool_inv po (p\<lparr>pin_stay := b\<rparr>) = pool_inv po p"
  by (auto simp: pool_inv_def shape_ok_def len_ok_def cap_ok_def tier_count_def keys_def clock_inv_def split: policy.splits)

lemma cache_inv_pools:
  assumes "cache_inv c" and "list_all (pool_inv (pol c)) ps" and "map keys ps = map keys (pools c)" and "map cap ps = map cap (pools c)"
  shows "cache_inv (c\<lparr>pools := ps\<rparr>)"
  using assms by (simp add: cache_inv_def)

lemma keys_pin_stay [simp]: "keys (p\<lparr>pin_stay := b\<rparr>) = keys p"
  by (simp add: keys_def)

lemma set_pinned_stays_inv: "cache_inv c \<Longrightarrow> cache_inv (set_pinned_stays on c)"
  unfolding set_pinned_stays_def
  by (rule cache_inv_pools) (auto simp: cache_inv_def list_all_iff comp_def)

lemma decay_pool_frame [simp]:
  "ptier (decay_pool d a b p) = ptier p" "keys (decay_pool d a b p) = keys p" "cap (decay_pool d a b p) = cap p"
  by (simp_all add: decay_pool_def keys_def)

lemma decay_pool_inv: "pool_inv po p \<Longrightarrow> pool_inv po (decay_pool d a b p)"
  unfolding decay_pool_def
  by (rule pool_inv_irrelevant(2) [where st = "stamp p"]) (auto simp: pool_inv_def shape_ok_def)

lemma cache_inv_update_pool:
  assumes "cache_inv c" and "i < length (pools c)" and "pool_inv (pol c) q"
    and "keys q = keys (pools c ! i)" and "cap q = cap (pools c ! i)"
  shows "cache_inv (c\<lparr>pools := (pools c)[i := q]\<rparr>)"
  using assms by (intro cache_inv_pools) (auto simp: cache_inv_def list_all_length nth_list_update map_update_nth_same)

lemma cache_inv_admitted: "cache_inv c \<Longrightarrow> length ad = layers c \<Longrightarrow> cache_inv (c\<lparr>admitted := ad\<rparr>)"
  by (auto simp: cache_inv_def)

lemma cache_inv_last: "cache_inv c \<Longrightarrow> length lc = layers c \<Longrightarrow> cache_inv (c\<lparr>last_counts := lc\<rparr>)"
  by (auto simp: cache_inv_def)

lemma cache_inv_now: "cache_inv (c\<lparr>now := n\<rparr>) = cache_inv c"
  by (auto simp: cache_inv_def)

lemma cache_inv_counters: "cache_inv c \<Longrightarrow> l < layers c \<Longrightarrow> cache_inv (c\<lparr>counters := bump_counter (counters c) l t\<rparr>)"
  by (auto simp: cache_inv_def bump_counter_def list_all_length nth_list_update)

lemma tick_ok:
  assumes inv: "cache_inv c" and l: "l < layers c"
  shows "\<exists>c'. tick c l = Some c' \<and> cache_inv c' \<and> cfg c' = cfg c \<and> now c' = now c \<and> counters c' = counters c
    \<and> last_counts c' = last_counts c"
proof -
  have n: "length (pools c) = pool_count c" using inv by (auto simp: cache_inv_def dest: arg_cong [where f = length])
  define i where "i = (case scope c of PerLayer \<Rightarrow> l | Global \<Rightarrow> 0)"
  have i: "i < length (pools c)" using n l by (auto simp: i_def pool_count_def split: scope.splits)
  have "cache_inv (c\<lparr>admitted := (admitted c)[l := 0]\<rparr>)" using inv by (intro cache_inv_admitted) (auto simp: cache_inv_def)
  moreover have "cache_inv (c\<lparr>admitted := (admitted c)[l := 0], pools := (pools c)[i := decay_pool d a b (pools c ! i)]\<rparr>)" for d a b
    using cache_inv_update_pool [OF calculation, of i "decay_pool d a b (pools c ! i)"] i inv
    by (auto simp: decay_pool_inv cache_inv_def list_all_length)
  moreover have "l < length (admitted c)" using inv l by (simp add: cache_inv_def)
  ultimately show ?thesis by (auto simp: tick_def i_def Let_def cfg_def split: policy.splits scope.splits)
qed

lemma cap_stamp: "cap (p\<lparr>stamp := st\<rparr>) = cap p"
  by simp

lemma access_ok:
  assumes inv: "cache_inv c" and l: "l < layers c" and e: "e < experts c"
  shows "\<exists>t c'. access c l e w = Some (t, c') \<and> cache_inv c' \<and> cfg c' = cfg c \<and> now c' = now c + 1
    \<and> counters c' = bump_counter (counters c) l t \<and> tier_of c l e = Some t \<and> last_counts c' = last_counts c"
proof -
  obtain p k where lk: "loc c l e = Some (p, k)" using loc_Some_iff [of c l e] l e by auto
  note b = loc_bounds [OF inv lk]
  define t where "t = ptier (pools c ! p) ! k"
  define ok where "ok = (case pol c of Clock admit \<Rightarrow> t \<noteq> Nvme \<or> (case admit of None \<Rightarrow> True | Some a \<Rightarrow> admitted c ! l < a) | _ \<Rightarrow> True)"
  define adm where "adm = (case pol c of Clock admit \<Rightarrow> if t = Nvme \<and> ok \<and> 0 < cap (pools c ! p) 0 + cap (pools c ! p) 1
     then (admitted c)[l := admitted c ! l + 1] else admitted c | _ \<Rightarrow> admitted c)"
  have "pool_inv (pol c) (pools c ! p)" using inv b(1) by (simp add: cache_inv_def list_all_length)
  from pl.place_stamped [OF this b(2), of w ok "now c + 1"] obtain q where
    q: "place (pol c) w ok ((pools c ! p)\<lparr>stamp := (stamp (pools c ! p))[k := now c + 1]\<rparr>) k = Some q"
      "pool_inv (pol c) q" "keys q = keys (pools c ! p)" "cap q = cap (pools c ! p)" by blast
  let ?c1 = "c\<lparr>pools := (pools c)[p := q], now := now c + 1\<rparr>" let ?c2 = "?c1\<lparr>counters := bump_counter (counters ?c1) l t\<rparr>"
  have 1: "cache_inv ?c1" unfolding cache_inv_now by (rule cache_inv_update_pool [OF inv b(1) q(2-4)])
  then have 2: "cache_inv ?c2" using l by (intro cache_inv_counters) auto
  have 3: "length adm = layers ?c2" using inv by (auto simp: adm_def cache_inv_def split: policy.splits)
  have "cache_inv (?c2\<lparr>admitted := adm\<rparr>)" by (rule cache_inv_admitted [OF 2 3])
  moreover have "access c l e w = Some (t, ?c2\<lparr>admitted := adm\<rparr>)"
    unfolding access_def lk option.case prod.case Let_def t_def [symmetric] pool.select_convs cap_stamp
      ok_def [symmetric] adm_def [symmetric] q(1) by simp
  ultimately show ?thesis using lk by (auto simp: tier_of_def t_def)
qed

text \<open>The accesses of one layer that a run of the counters has seen.\<close>

definition served :: "cache \<Rightarrow> nat \<Rightarrow> nat" where
  "served c l = sum_list (counters c ! l)"

lemma sum_list_update_Suc: "i < length xs \<Longrightarrow> sum_list (xs[i := xs ! i + 1]) = sum_list xs + (1 :: nat)"
proof (induction xs arbitrary: i)
  case (Cons x xs)
  then show ?case by (cases i) auto
qed simp

lemma tix_less [simp]: "tix t < 3"
  by (cases t) auto

lemma served_bump:
  "l < length cs \<Longrightarrow> length (cs ! l) = 3 \<Longrightarrow>
    sum_list (bump_counter cs l t ! m) = sum_list (cs ! m) + (if m = l then 1 else 0)"
  using sum_list_update_Suc [of "tix t" "cs ! l"] by (auto simp: bump_counter_def nth_list_update)

lemma access_all_ok:
  assumes "cache_inv c" and "l < layers c" and "list_all (\<lambda>(e, w). e < experts c) xs"
  shows "\<exists>c'. access_all c l xs = Some c' \<and> cache_inv c' \<and> cfg c' = cfg c \<and> now c' = now c + length xs
    \<and> (\<forall>m. served c' m = served c m + (if m = l then length xs else 0)) \<and> last_counts c' = last_counts c"
  using assms
proof (induction xs arbitrary: c)
  case Nil
  then show ?case by simp
next
  case (Cons x xs)
  obtain e w where x: "x = (e, w)" by force
  from Cons.prems x have e: "e < experts c" by simp
  obtain t c1 where c1: "access c l e w = Some (t, c1)" "cache_inv c1" "cfg c1 = cfg c" "now c1 = now c + 1"
    "counters c1 = bump_counter (counters c) l t" "last_counts c1 = last_counts c"
    using access_ok [OF Cons.prems(1,2) e] by blast
  have "l < layers c1" "list_all (\<lambda>(e, w). e < experts c1) xs" using Cons.prems c1(3) by (auto simp: cfg_eq)
  from Cons.IH [OF c1(2) this] obtain c' where
    c': "access_all c1 l xs = Some c'" "cache_inv c'" "cfg c' = cfg c1" "now c' = now c1 + length xs"
      "\<And>m. served c' m = served c1 m + (if m = l then length xs else 0)" "last_counts c' = last_counts c1" by blast
  have "served c1 m = served c m + (if m = l then 1 else 0)" for m
    using Cons.prems(1,2) served_bump [of l "counters c" t m]
    by (simp add: served_def c1(5) cache_inv_def list_all_length)
  with c1 c' show ?case by (auto simp: x)
qed

lemma observe_token_ok:
  assumes inv: "cache_inv c" and l: "l < layers c" and ids: "list_all (\<lambda>e. e < experts c) ids"
  shows "\<exists>c'. observe_token c l ids = Some c' \<and> cache_inv c' \<and> cfg c' = cfg c \<and> now c' = now c + length ids
    \<and> (\<forall>m. served c' m = served c m + (if m = l then length ids else 0))"
proof -
  obtain c1 where c1: "tick c l = Some c1" "cache_inv c1" "cfg c1 = cfg c" "now c1 = now c" "counters c1 = counters c"
    using tick_ok [OF inv l] by blast
  have "l < layers c1" "list_all (\<lambda>(e, w). e < experts c1) (map (\<lambda>e. (e, 1)) ids)"
    using l ids c1(3) by (auto simp: cfg_eq list_all_iff)
  from access_all_ok [OF c1(2) this] obtain c' where "access_all c1 l (map (\<lambda>e. (e, 1)) ids) = Some c'" "cache_inv c'"
    "cfg c' = cfg c1" "now c' = now c1 + length ids" "\<And>m. served c' m = served c1 m + (if m = l then length ids else 0)"
    by auto
  with c1 show ?thesis by (auto simp: observe_token_def served_def)
qed

text \<open>A drain of cumulative counts: every rise is one access.\<close>

lemma risen_bound: "(e, d) \<in> set (risen cs was) \<Longrightarrow> e < length cs \<and> 0 < d"
  by (auto simp: risen_def in_set_enumerate_eq split: if_splits)

definition last_of :: "cache \<Rightarrow> nat \<Rightarrow> nat list" where
  "last_of c l = (if length (last_counts c ! l) \<noteq> experts c then replicate (experts c) 0 else last_counts c ! l)"

lemma observe_counts_ok:
  assumes inv: "cache_inv c" and l: "l < layers c" and cs: "length cs = experts c"
  shows "\<exists>c'. observe_counts c l cs = Some c' \<and> cache_inv c' \<and> cfg c' = cfg c
    \<and> now c' = now c + length (risen cs (last_of c l)) \<and> last_counts c' = (last_counts c)[l := cs]
    \<and> (\<forall>m. served c' m = served c m + (if m = l then length (risen cs (last_of c l)) else 0))"
proof -
  let ?c = "c\<lparr>last_counts := (last_counts c)[l := cs]\<rparr>"
  let ?xs = "sort_by (\<lambda>(e, d) (f, g). ord_then (cmp d g) (cmp e f)) (risen cs (last_of c l))"
  have "cache_inv ?c" using inv by (intro cache_inv_last) (auto simp: cache_inv_def)
  moreover have "l < layers ?c" using l by simp
  ultimately obtain c1 where c1: "tick ?c l = Some c1" "cache_inv c1" "cfg c1 = cfg ?c" "now c1 = now ?c"
    "counters c1 = counters ?c" "last_counts c1 = last_counts ?c" using tick_ok by blast
  have "l < layers c1" "list_all (\<lambda>(e, w). e < experts c1) ?xs"
    using l c1(3) cs risen_bound by (fastforce simp: cfg_eq list_all_iff)+
  from access_all_ok [OF c1(2) this] obtain c' where "access_all c1 l ?xs = Some c'" "cache_inv c'" "cfg c' = cfg c1"
    "now c' = now c1 + length ?xs" "\<And>m. served c' m = served c1 m + (if m = l then length ?xs else 0)"
    "last_counts c' = last_counts c1" by blast
  moreover have "l < length (last_counts c)" using inv l by (simp add: cache_inv_def)
  ultimately show ?thesis using c1 cs by (auto simp: observe_counts_def last_of_def served_def Let_def)
qed

lemma free_slot:
  assumes inv: "clock_inv p ((!) (ptier p))" and l: "len_ok p" and t: "t \<in> {Vram, Pinned}" and free: "len p (tix t) < cap p (tix t)"
  shows "\<exists>s. position (\<lambda>x. x = None) (ring p (tix t)) = Some s \<and> s < cap p (tix t) \<and> ring p (tix t) ! s = None"
proof -
  have "length (filter (\<lambda>x. x \<noteq> None) (ring p (tix t))) < length (ring p (tix t))"
    using clock_inv_occupied [OF inv t] free l t inv by (auto simp: len_ok_def clock_inv_def)
  then have "filter (\<lambda>x. x \<noteq> None) (ring p (tix t)) \<noteq> ring p (tix t)" by auto
  then have "\<exists>x \<in> set (ring p (tix t)). x = None" by (auto simp: filter_id_conv)
  then obtain s where s: "position (\<lambda>x. x = None) (ring p (tix t)) = Some s"
    using position_Some_iff [of "\<lambda>x. x = None" "ring p (tix t)"] by auto
  from position_Some [OF this] inv t show ?thesis by (auto simp: s clock_inv_def)
qed

lemma cap_ok_set_tier:
  assumes "k < keys p" and "ptier p ! k = Nvme" and "cap_ok p" and "t \<noteq> Nvme \<Longrightarrow> tier_count p t < cap p (tix t)"
  shows "cap_ok (set_tier p k t)"
  using tier_count_set_tier [OF assms(1), of t Vram] tier_count_set_tier [OF assms(1), of t Pinned] assms
  by (cases t) (auto simp: cap_ok_def)

lemma seed_pool_ok:
  assumes inv: "pool_inv po p" and k: "k < keys p" "ptier p ! k = Nvme" and t: "t \<in> {Vram, Pinned}" and free: "len p (tix t) < cap p (tix t)"
  shows "\<exists>q. (case po of Clock _ \<Rightarrow> (case position (\<lambda>x. x = None) (ring p (tix t)) of None \<Rightarrow> None
      | Some s \<Rightarrow> Some (p\<lparr>ring := (ring p)(tix t := (ring p (tix t))[s := Some k]), slot := (slot p)[k := s], refb := (refb p)[k := False]\<rparr>))
      | _ \<Rightarrow> Some p) = Some q \<and> pool_inv po (set_tier q k t) \<and> keys q = keys p \<and> cap q = cap p"
proof -
  have lk: "len_ok p" "cap_ok p" using inv by (auto simp: pool_inv_def)
  have ranked: "pool_inv po (set_tier p k t)" if "\<forall>a. po \<noteq> Clock a"
  proof -
    have "cap_ok (set_tier p k t)" using lk t free by (intro cap_ok_set_tier k) (auto simp: len_ok_def)
    with that inv len_ok_set_tier [OF k(1) lk(1)] show ?thesis by (auto simp: pool_inv_def split: policy.splits)
  qed
  show ?thesis
  proof (cases po)
  case (Clock a)
  then have ci: "clock_inv p ((!) (ptier p))" and l: "len_ok p" using inv by (auto simp: pool_inv_def)
  obtain s where s: "position (\<lambda>x. x = None) (ring p (tix t)) = Some s" "s < cap p (tix t)" "ring p (tix t) ! s = None"
    using free_slot [OF ci l t free] by blast
  let ?q = "insert_at p t s k False (hand p)"
  have "clock_inv ?q ((displaced ((!) (ptier p)) (ring p (tix t) ! s))(k := t))"
    using ci by (intro insert_at_ok [OF ci k t s(2)]) (auto simp: clock_inv_def)
  moreover have T: "(!) (ptier (set_tier ?q k t)) = ((!) (ptier p))(k := t)" using k by (simp add: nth_fun_upd keys_def)
  ultimately have "clock_inv (set_tier ?q k t) ((!) (ptier (set_tier ?q k t)))"
    unfolding T by (simp add: displaced_def s(3))
  moreover have "len_ok (set_tier ?q k t)" using k l by (intro len_ok_set_tier) (auto simp: len_ok_def tier_count_def)
  ultimately have "pool_inv po (set_tier ?q k t)"
    using Clock by (auto simp: pool_inv_def clock_inv_cap_ok) (auto simp: clock_inv_def)
  with Clock s show ?thesis by (intro exI [of _ ?q]) (simp add: insert_at_def keys_def)
  qed (use ranked in auto)
qed

lemma seed_one_ok:
  assumes inv: "cache_inv c" and l: "l < layers c" and e: "e < experts c" and t: "t \<in> {Vram, Pinned}"
  shows "\<exists>c' er. seed_one c l t st e = Some (c', er) \<and> cache_inv c' \<and> cfg c' = cfg c \<and> now c' = now c \<and> counters c' = counters c"
proof -
  obtain p k where lk: "loc c l e = Some (p, k)" using loc_Some_iff [of c l e] l e by auto
  note b = loc_bounds [OF inv lk]
  let ?p = "(pools c ! p)\<lparr>stamp := (stamp (pools c ! p))[k := st]\<rparr>"
  have pi: "pool_inv (pol c) ?p" using inv b(1) by (intro pool_inv_stamp) (simp add: cache_inv_def list_all_length)
  show ?thesis
  proof (cases "ptier (pools c ! p) ! k = Nvme \<and> len (pools c ! p) (tix t) < cap (pools c ! p) (tix t)")
    case True
    have "k < keys ?p" using b(2) by (simp add: keys_def)
    then obtain q where q: "(case pol c of Clock _ \<Rightarrow> (case position (\<lambda>x. x = None) (ring ?p (tix t)) of None \<Rightarrow> None
      | Some s \<Rightarrow> Some (?p\<lparr>ring := (ring ?p)(tix t := (ring ?p (tix t))[s := Some k]), slot := (slot ?p)[k := s], refb := (refb ?p)[k := False]\<rparr>))
      | _ \<Rightarrow> Some ?p) = Some q" "pool_inv (pol c) (set_tier q k t)" "keys q = keys ?p" "cap q = cap ?p"
      using seed_pool_ok [OF pi, of k t] True t by auto
    have "cache_inv (c\<lparr>pools := (pools c)[p := set_tier q k t]\<rparr>)"
      using q(2-4) by (intro cache_inv_update_pool [OF inv b(1)]) (auto simp: keys_def)
    moreover have "seed_one c l t st e = Some (c\<lparr>pools := (pools c)[p := set_tier q k t]\<rparr>, None)"
      using lk True q(1) unfolding seed_one_def Let_def by (simp del: insert_at_frame)
    ultimately show ?thesis by auto
  next
    case False
    with lk inv show ?thesis by (auto simp: seed_one_def Let_def)
  qed
qed

lemma seed_ids_ok:
  assumes "cache_inv c" and "l < layers c" and "list_all (\<lambda>(t, st, e). t \<in> {Vram, Pinned} \<and> e < experts c) xs"
  shows "\<exists>c' er. seed_ids c l xs = Some (c', er) \<and> cache_inv c' \<and> cfg c' = cfg c \<and> now c' = now c \<and> counters c' = counters c"
  using assms
proof (induction xs arbitrary: c)
  case (Cons x xs)
  obtain t st e where x: "x = (t, st, e)" by (cases x)
  from Cons.prems x have p: "t \<in> {Vram, Pinned}" "e < experts c" by auto
  obtain c1 er where c1: "seed_one c l t st e = Some (c1, er)" "cache_inv c1" "cfg c1 = cfg c" "now c1 = now c" "counters c1 = counters c"
    using seed_one_ok [OF Cons.prems(1,2) p(2,1), of st] by blast
  have "l < layers c1" "list_all (\<lambda>(t, st, e). t \<in> {Vram, Pinned} \<and> e < experts c1) xs"
    using Cons.prems c1(3) by (auto simp: cfg_eq)
  from Cons.IH [OF c1(2) this] obtain c' er' where "seed_ids c1 l xs = Some (c', er')" "cache_inv c'" "cfg c' = cfg c1"
    "now c' = now c1" "counters c' = counters c1" by blast
  with c1 show ?case by (cases er) (auto simp: x)
qed simp

lemma seed_ok:
  assumes inv: "cache_inv c" and l: "l < layers c" and ids: "list_all (\<lambda>e. e < experts c) (vs @ ps)"
  shows "\<exists>c' er. seed c l vs ps = Some (c', er) \<and> cache_inv c' \<and> cfg c' = cfg c \<and> counters c' = counters c"
proof -
  have "list_all (\<lambda>(t, st, e). t \<in> {Vram, Pinned} \<and> e < experts c) (seed_plan (now c) vs ps)"
    using ids by (auto simp: seed_plan_def list_all_iff Let_def in_set_enumerate_eq)
  from seed_ids_ok [OF inv l this] obtain c' er where
    "seed_ids c l (seed_plan (now c) vs ps) = Some (c', er)" "cache_inv c'" "cfg c' = cfg c" "counters c' = counters c" by blast
  then show ?thesis by (cases er) (auto simp: seed_def cache_inv_now)
qed

section \<open>The cache as a state machine\<close>

datatype cache_op =
    Seed nat "nat list" "nat list"
  | ObserveToken nat "nat list"
  | ObserveCounts nat "nat list"
  | PinnedStays bool

text \<open>A call whose layer and ids lie inside the shape the cache was built for.\<close>

fun op_ok :: "cache \<Rightarrow> cache_op \<Rightarrow> bool" where
  "op_ok c (Seed l vs ps) = (l < layers c \<and> list_all (\<lambda>e. e < experts c) (vs @ ps))"
| "op_ok c (ObserveToken l ids) = (l < layers c \<and> list_all (\<lambda>e. e < experts c) ids)"
| "op_ok c (ObserveCounts l cs) = (l < layers c \<and> length cs = experts c)"
| "op_ok c (PinnedStays on) = True"

fun cache_step :: "cache \<Rightarrow> cache_op \<Rightarrow> cache option" where
  "cache_step c (Seed l vs ps) = map_option fst (seed c l vs ps)"
| "cache_step c (ObserveToken l ids) = observe_token c l ids"
| "cache_step c (ObserveCounts l cs) = observe_counts c l cs"
| "cache_step c (PinnedStays on) = Some (set_pinned_stays on c)"

fun accesses :: "cache \<Rightarrow> cache_op \<Rightarrow> nat" where
  "accesses c (ObserveToken l ids) = length ids"
| "accesses c (ObserveCounts l cs) = length (risen cs (last_of c l))"
| "accesses c _ = 0"

inductive cache_run :: "cache \<Rightarrow> cache \<Rightarrow> nat \<Rightarrow> bool" where
  cache_start: "cache_run c c 0"
| cache_more: "cache_run c0 c n \<Longrightarrow> op_ok c o1 \<Longrightarrow> cache_step c o1 = Some c' \<Longrightarrow> cache_run c0 c' (n + accesses c o1)"

inductive_cases cache_runE: "cache_run c0 c n"

definition total_served :: "cache \<Rightarrow> nat" where
  "total_served c = sum_list (map (served c) [0..<layers c])"

lemma sum_list_upt_bump:
  "l < n \<Longrightarrow> (\<And>m. g m = f m + (if m = l then d else (0 :: nat))) \<Longrightarrow>
    sum_list (map g [0..<n]) = sum_list (map f [0..<n]) + d"
  by (simp add: sum_list_addf sum.distrib interv_sum_list_conv_sum_set_nat)

lemma cache_step_ok:
  assumes inv: "cache_inv c" and "op_ok c o1"
  shows "\<exists>c'. cache_step c o1 = Some c' \<and> cache_inv c' \<and> cfg c' = cfg c \<and> total_served c' = total_served c + accesses c o1"
proof (cases o1)
  case (Seed l vs ps)
  with assms seed_ok [OF inv, of l vs ps] obtain c' er where "seed c l vs ps = Some (c', er)" "cache_inv c'" "cfg c' = cfg c"
    "counters c' = counters c" by auto
  then show ?thesis by (auto simp: Seed total_served_def served_def [abs_def] cfg_eq)
next
  case (ObserveToken l ids)
  then have l: "l < layers c" and ids: "list_all (\<lambda>e. e < experts c) ids" using assms by auto
  from observe_token_ok [OF inv this] obtain c' where "observe_token c l ids = Some c'" "cache_inv c'" "cfg c' = cfg c"
    and s: "\<And>m. served c' m = served c m + (if m = l then length ids else 0)" by blast
  with sum_list_upt_bump [where g = "served c'" and f = "served c", OF l s] show ?thesis by (simp add: ObserveToken total_served_def cfg_eq)
next
  case (ObserveCounts l cs)
  then have l: "l < layers c" and cs: "length cs = experts c" using assms by auto
  from observe_counts_ok [OF inv this] obtain c' where "observe_counts c l cs = Some c'" "cache_inv c'" "cfg c' = cfg c"
    and s: "\<And>m. served c' m = served c m + (if m = l then length (risen cs (last_of c l)) else 0)" by blast
  with sum_list_upt_bump [where g = "served c'" and f = "served c", OF l s] show ?thesis by (simp add: ObserveCounts total_served_def cfg_eq)
next
  case (PinnedStays on)
  then show ?thesis
    by (auto simp: set_pinned_stays_inv inv) (auto simp: set_pinned_stays_def total_served_def served_def [abs_def])
qed

lemma cache_run_inv: "cache_run c0 c n \<Longrightarrow> cache_inv c0 \<Longrightarrow> cache_inv c \<and> cfg c = cfg c0 \<and> total_served c = total_served c0 + n"
proof (induction rule: cache_run.induct)
  case (cache_more c0 c n o1 c')
  then show ?case using cache_step_ok [of c o1] by auto
qed simp

section \<open>The dry run\<close>

text \<open>\<open>d\<close> is the one-layer copy of \<open>c\<close> at layer \<open>l\<close>.\<close>

definition copy_of :: "nat \<Rightarrow> cache \<Rightarrow> cache \<Rightarrow> bool" where
  "copy_of l c d \<longleftrightarrow> scope c = PerLayer \<and> scope d = PerLayer \<and> pol d = pol c \<and> experts d = experts c \<and> layers d = 1
     \<and> l < layers c \<and> pools d = [pools c ! l] \<and> now d = now c \<and> admitted d = [admitted c ! l]
     \<and> l < length (pools c) \<and> l < length (admitted c)"

lemma copy_of_tick: "copy_of l c d \<Longrightarrow> tick c l = Some c' \<Longrightarrow> \<exists>d'. tick d 0 = Some d' \<and> copy_of l c' d'"
  by (auto simp: copy_of_def tick_def Let_def split: policy.splits)

lemma copy_of_access:
  assumes "copy_of l c d" and "access c l e w = Some (t, c')"
  shows "\<exists>d'. access d 0 e w = Some (t, d') \<and> copy_of l c' d'"
  using assms
  by (cases "ptier (pools c ! l) ! e = Nvme")
    (auto simp: copy_of_def access_def loc_def Let_def split: option.splits if_splits policy.splits)

lemma copy_of_access_all:
  "copy_of l c d \<Longrightarrow> access_all c l xs = Some c' \<Longrightarrow> \<exists>d'. access_all d 0 xs = Some d' \<and> copy_of l c' d'"
proof (induction xs arbitrary: c d)
  case (Cons x xs)
  obtain e w where x: "x = (e, w)" by force
  with Cons.prems(2) obtain t c1 where c1: "access c l e w = Some (t, c1)" "access_all c1 l xs = Some c'"
    by (auto split: option.splits)
  from copy_of_access [OF Cons.prems(1) c1(1)] obtain d1 where "access d 0 e w = Some (t, d1)" "copy_of l c1 d1" by blast
  with Cons.IH [OF _ c1(2)] show ?case by (auto simp: x)
qed simp

lemma copy_of_tier: "copy_of l c d \<Longrightarrow> tier_of d 0 e = tier_of c l e"
  by (auto simp: copy_of_def tier_of_def loc_def)

lemma those_Some: "(\<And>x. x \<in> set xs \<Longrightarrow> f x = Some (g x)) \<Longrightarrow> those (map f xs) = Some (map g xs)"
  by (induction xs) auto

lemma dry_run:
  assumes inv: "cache_inv c" and l: "l < layers c" and ids: "list_all (\<lambda>e. e < experts c) ids"
  shows "\<exists>c'. observe_token c l ids = Some c' \<and> tiers_after c l ids = Some (map (\<lambda>e. the (tier_of c' l e)) [0..<experts c])"
proof -
  obtain c' where c': "observe_token c l ids = Some c'" "cache_inv c'" "cfg c' = cfg c" using observe_token_ok [OF assms] by blast
  have tiers: "those (map (\<lambda>e. tier_of c' l e) [0..<experts c]) = Some (map (\<lambda>e. the (tier_of c' l e)) [0..<experts c])"
    using l c'(3) by (intro those_Some) (auto simp: tier_of_def loc_def cfg_eq split: scope.splits)
  show ?thesis
  proof (cases "scope c")
    case Global
    with c' tiers show ?thesis by (auto simp: tiers_after_def)
  next
    case PerLayer
    have n: "length (pools c) = layers c"
      using inv PerLayer by (auto simp: cache_inv_def pool_count_def dest: arg_cong [where f = length])
    have "copy_of l c (layer_copy c l)" using inv l n PerLayer by (simp add: copy_of_def layer_copy_def cache_inv_def)
    moreover obtain c1 where c1: "tick c l = Some c1" "access_all c1 l (map (\<lambda>e. (e, 1)) ids) = Some c'"
      using c'(1) by (auto simp: observe_token_def split: bind_splits)
    ultimately obtain d1 d' where "tick (layer_copy c l) 0 = Some d1" "access_all d1 0 (map (\<lambda>e. (e, 1)) ids) = Some d'" "copy_of l c' d'"
      using copy_of_tick copy_of_access_all by blast
    then have "observe_token (layer_copy c l) 0 ids = Some d'" "tier_of d' 0 = tier_of c' l"
      by (auto simp: observe_token_def copy_of_tier fun_eq_iff)
    with PerLayer n l tiers show ?thesis by (auto simp: tiers_after_def c'(1))
  qed
qed

section \<open>Properties\<close>

lemma vram_set_bound:
  assumes inv: "cache_inv c" and sc: "scope c = PerLayer" and l: "l < layers c"
  shows "length (vram_set c l) \<le> vram c"
proof -
  have lk: "loc c l 0 = Some (l, 0)" using inv sc l by (simp add: loc_def cache_inv_def)
  note b = loc_bounds [OF inv lk]
  have k: "keys (pools c ! l) = experts c" and cp: "cap (pools c ! l) = pool_caps c"
    using inv sc l b(1) nth_map [OF b(1), of keys] nth_map [OF b(1), of cap]
    by (simp_all add: cache_inv_def pool_keys_def pool_count_def)
  have "vram_set c l = filter (\<lambda>e. ptier (pools c ! l) ! e = Vram) [0..<experts c]"
    using sc l by (auto simp: vram_set_def tier_of_def loc_def intro!: filter_cong)
  also have "length \<dots> = tier_count (pools c ! l) Vram"
    using k length_filter_nth [of "\<lambda>x. x = Vram" "ptier (pools c ! l)"] by (simp add: tier_count_def keys_def)
  also have "\<dots> \<le> cap (pools c ! l) 0"
    using inv b(1) by (auto simp: cache_inv_def list_all_length pool_inv_def cap_ok_def)
  finally show ?thesis by (simp add: cp pool_caps_def sc)
qed

definition demo_cache :: cache where
  "demo_cache = (case cache_new (Clock (Some 2)) PerLayer 2 4 1 1 of Inr c \<Rightarrow> c | Inl e \<Rightarrow> undefined)"

lemma demo_cache_new: "cache_new (Clock (Some 2)) PerLayer 2 4 1 1 = Inr demo_cache"
  by (simp add: demo_cache_def cache_new_def ADMIT_MAX_def)

lemma demo_cache_shape: "layers demo_cache = 2" "experts demo_cache = 4"
  by (simp_all add: demo_cache_def cache_new_def ADMIT_MAX_def)

definition demo_cache_run :: cache where
  "demo_cache_run = the (observe_token demo_cache 1 [0, 3, 0])"

lemma demo_cache_step: "cache_step demo_cache (ObserveToken 1 [0, 3, 0]) = Some demo_cache_run"
  using observe_token_ok [of demo_cache 1 "[0, 3, 0]"] cache_inv_new [OF demo_cache_new]
  by (auto simp: demo_cache_run_def demo_cache_shape)

lemma demo_cache_runs: "cache_run demo_cache demo_cache_run 3"
  using cache_more [OF cache_start _ demo_cache_step] by (simp add: demo_cache_shape numeral_3_eq_3)

lemma demo_cache_run_shape: "layers demo_cache_run = 2" "experts demo_cache_run = 4"
  using cache_run_inv [OF demo_cache_runs] cache_inv_new [OF demo_cache_new] demo_cache_shape by (auto simp: cfg_eq)

text \<open>C3: In every state the cache reaches from \<open>ExpertCache::new\<close> through seeds, token
  observations, count drains and the pinned-stays switch, under any of the three policies and
  either scope, the code's own exclusivity check succeeds (no expert over a capacity, the
  occupancy counts and the CLOCK rings agree with the tiers); every call with ids inside the
  shape returns (no failed assertion, no missing victim, no endless sweep); the served-from
  counters sum to the accesses made; and with per-layer pools a layer never holds more
  experts in VRAM than its slots.\<close>

theorem expert_cache_exclusive_and_total:
  assumes new: "cache_new po sc ls es v p = Inr c0" and run: "cache_run c0 c n"
  shows "check_exclusive c \<and> total_served c = n \<and> (\<forall>o1. op_ok c o1 \<longrightarrow> (\<exists>c'. cache_step c o1 = Some c'))
    \<and> (sc = PerLayer \<longrightarrow> (\<forall>l < ls. length (vram_set c l) \<le> v))"
proof -
  have i0: "cache_inv c0" using cache_inv_new [OF new] by blast
  note i = cache_run_inv [OF run i0]
  have z: "served c0 l = 0" if "l < ls" for l
    using new that by (auto simp: cache_new_def served_def split: if_splits option.splits)
  have c0: "layers c0 = ls" "scope c0 = sc" "vram c0 = v"
    using new by (auto simp: cache_new_def split: if_splits option.splits)
  have "total_served c0 = 0" using z c0 by (simp add: total_served_def)
  moreover have "check_exclusive c"
    using i by (auto simp: check_exclusive_def cache_inv_def list_all_iff pool_inv_check)
  ultimately show ?thesis
    using i cache_step_ok [of c] vram_set_bound [of c] c0 by (auto simp: cfg_eq)
qed

theorem expert_cache_exclusive_and_total_witness:
  "check_exclusive demo_cache_run \<and> total_served demo_cache_run = 3 \<and> length (vram_set demo_cache_run 1) \<le> 1"
  using expert_cache_exclusive_and_total [OF demo_cache_new demo_cache_runs] by simp

text \<open>The dry run is exact about the tiers the step leaves (not those its accesses are
  served from and counted under): in every reachable state, \<open>tiers_after\<close> returns the tiers that
  the experts of the layer really have after \<open>observe_token\<close> on the same ids, although under
  per-layer scope it runs on a copy that holds one pool only.\<close>

theorem tiers_after_predicts_observe_token:
  assumes new: "cache_new po sc ls es v p = Inr c0" and run: "cache_run c0 c n" and ok: "op_ok c (ObserveToken l ids)"
  shows "\<exists>c'. observe_token c l ids = Some c' \<and> tiers_after c l ids = Some (map (\<lambda>e. the (tier_of c' l e)) [0..<experts c])"
  using dry_run [of c l ids] cache_run_inv [OF run] cache_inv_new [OF new] ok by simp

theorem tiers_after_predicts_observe_token_witness:
  "\<exists>c'. observe_token demo_cache_run 1 [2, 1] = Some c'
    \<and> tiers_after demo_cache_run 1 [2, 1] = Some (map (\<lambda>e. the (tier_of c' 1 e)) [0..<4])"
  using tiers_after_predicts_observe_token [OF demo_cache_new demo_cache_runs, of 1 "[2, 1]"]
  by (simp add: demo_cache_run_shape)

end
