(* ===== verification/ExpertCacheLru.thy ===== *)
theory ExpertCacheLru
  imports ExpertCacheState
begin

text \<open>
  LRU as an abstract specification: one recency stack, most recent first, cut at the VRAM
  and the pinned capacity. The detailed pool (stamps, tier fields, minimum search, exchange
  of victims) refines it: the tier of a key is its depth in the stack.
\<close>

section \<open>The recency stack\<close>

definition touch :: "'a \<Rightarrow> 'a list \<Rightarrow> 'a list" where
  "touch k s = k # removeAll k s"

definition recency :: "'a list \<Rightarrow> 'a list" where
  "recency xs = foldl (\<lambda>s k. touch k s) [] xs"

definition depth_tier :: "nat \<Rightarrow> nat \<Rightarrow> 'a list \<Rightarrow> 'a \<Rightarrow> tier" where
  "depth_tier v p s k = (if k \<in> set (take v s) then Vram else if k \<in> set (take p (drop v s)) then Pinned else Nvme)"

lemma touch_set [simp]: "set (touch k s) = insert k (set s)"
  by (auto simp: touch_def)

lemma touch_distinct [simp]: "distinct s \<Longrightarrow> distinct (touch k s)"
  by (simp add: touch_def distinct_removeAll)

lemma touch_split: "k \<notin> set a \<Longrightarrow> k \<notin> set b \<Longrightarrow> touch k (a @ k # b) = k # a @ b"
  by (simp add: touch_def)

lemma touch_new: "k \<notin> set s \<Longrightarrow> touch k s = k # s"
  by (simp add: touch_def)

section \<open>The pool against the stack\<close>

definition desc :: "nat list \<Rightarrow> nat list \<Rightarrow> bool" where
  "desc st s \<longleftrightarrow> sorted_wrt (\<lambda>a b. st ! b < st ! a) s"

definition lru_ok :: "pool \<Rightarrow> nat list \<Rightarrow> nat \<Rightarrow> bool" where
  "lru_ok p s n \<longleftrightarrow> pool_inv Lru p \<and> \<not> pin_stay p \<and> set s \<subseteq> {..<keys p} \<and> distinct s \<and> desc (stamp p) s
     \<and> (\<forall>k \<in> set s. stamp p ! k \<le> n) \<and> (\<forall>k < keys p. ptier p ! k = depth_tier (cap p 0) (cap p 1) s k)"

lemma keep_lru: "keep p Lru a b = Greater \<longleftrightarrow> stamp p ! b < stamp p ! a \<or> stamp p ! a = stamp p ! b \<and> a < b"
  by (auto simp: keep_def prio_def ord_then_def f_zero_def Let_def f_cmp_Fin cmp_def)

lemma min_in_lru:
  assumes m: "min_in p Lru t = Some m" and x: "x < keys p" "ptier p ! x = t"
  shows "stamp p ! m \<le> stamp p ! x"
proof -
  have "\<not> keep p Lru m x = Greater"
  proof (rule min_by_least [where gt = "\<lambda>a b. keep p Lru a b = Greater" and xs = "in_tier p t"])
    show "\<And>a b c. \<not> keep p Lru a b = Greater \<Longrightarrow> \<not> keep p Lru b c = Greater \<Longrightarrow> \<not> keep p Lru a c = Greater"
      by (auto simp: keep_lru)
    show "\<And>a b. keep p Lru a b = Greater \<Longrightarrow> \<not> keep p Lru b a = Greater" by (auto simp: keep_lru)
    show "min_by (\<lambda>a b. keep p Lru a b = Greater) (in_tier p t) = Some m" using m by (simp add: min_in_def)
    show "x \<in> set (in_tier p t)" using x by (simp add: in_tier_def keys_def)
  qed
  then show ?thesis by (auto simp: keep_lru)
qed

text \<open>The victim of a tier whose keys are the members of a stamp-descending list is its last.\<close>

lemma min_in_last:
  assumes ks: "\<And>k. k < keys p \<Longrightarrow> ptier p ! k = t \<longleftrightarrow> k \<in> set (a @ [v])" and d: "desc (stamp p) (a @ [v])"
    and b: "set (a @ [v]) \<subseteq> {..<keys p}"
  shows "min_in p Lru t = Some v"
proof -
  have "v \<in> set (in_tier p t)" using ks [of v] b by (auto simp: in_tier_def keys_def)
  then obtain m where m: "min_in p Lru t = Some m" unfolding min_in_def by (metis empty_iff empty_set min_by_None not_None_eq)
  then have "m \<in> set (in_tier p t)" by (simp add: min_in_def min_by_in)
  then have ma: "m \<in> set (a @ [v])" using ks [of m] by (simp add: in_tier_def keys_def)
  have "stamp p ! m \<le> stamp p ! v" using min_in_lru [OF m, of v] ks [of v] b by auto
  moreover have "stamp p ! v < stamp p ! x" if "x \<in> set a" for x using d that by (auto simp: desc_def sorted_wrt_append)
  ultimately have "m = v" using ma by (metis Un_iff leD list.set(1,2) set_append singletonD)
  with m show ?thesis by simp
qed

lemma card_tier_list:
  assumes "\<And>k. k < keys p \<Longrightarrow> ptier p ! k = t \<longleftrightarrow> k \<in> set a" and "set a \<subseteq> {..<keys p}" and "distinct a"
  shows "tier_count p t = length a"
proof -
  have "{k. k < keys p \<and> ptier p ! k = t} = set a" using assms(1,2) by auto
  with assms(3) show ?thesis by (simp add: tier_count_card distinct_card)
qed

lemma desc_Nil [simp]: "desc st []"
  by (simp add: desc_def)

lemma desc_Cons: "desc st (w # b) \<longleftrightarrow> (\<forall>x \<in> set b. st ! x < st ! w) \<and> desc st b"
  by (auto simp: desc_def)

lemma desc_append: "desc st (a @ b) \<longleftrightarrow> desc st a \<and> desc st b \<and> (\<forall>x \<in> set a. \<forall>y \<in> set b. st ! y < st ! x)"
  by (auto simp: desc_def sorted_wrt_append)

lemma cut_zero_Cons: "depth_tier 0 c (w # b) j = (if c \<noteq> 0 \<and> (j = w \<or> j \<in> set (take (c - 1) b)) then Pinned else Nvme)"
  by (cases c) (auto simp: depth_tier_def)

lemma offer_pinned_lru:
  assumes l: "len_ok p" and w: "w < keys p" "ptier p ! w \<noteq> Pinned"
    and ks: "\<And>k. k < keys p \<Longrightarrow> ptier p ! k = Pinned \<longleftrightarrow> k \<in> set b" and b: "set b \<subseteq> {..<keys p}" "distinct b"
    and d: "desc (stamp p) (w # b)" and c: "length b \<le> cap p 1"
  shows "\<exists>q. offer_pinned p Lru w = Some q \<and> (\<forall>j < keys p. ptier q ! j =
    (if j = w \<or> j \<in> set b then depth_tier 0 (cap p 1) (w # b) j else ptier p ! j))"
proof -
  have n: "len p 1 = length b" using card_tier_list [OF ks b] l by (simp add: len_ok_def)
  have wb: "w \<notin> set b" using d by (auto simp: desc_Cons)
  have lw: "w < length (ptier p)" using w by (simp add: keys_def)
  consider "cap p 1 = 0" | "length b < cap p 1" | u b' where "cap p 1 \<noteq> 0" "length b = cap p 1" "b = b' @ [u]"
    using c by (cases b rule: rev_cases) force+
  then show ?thesis
  proof cases
    case 1
    with c lw show ?thesis by (auto simp: offer_pinned_def nth_list_update cut_zero_Cons)
  next
    case 2
    then show ?thesis using n lw ks b by (auto simp: offer_pinned_def nth_list_update cut_zero_Cons)
  next
    case 3
    have "min_in p Lru Pinned = Some u" using ks b(1) d 3(3) by (intro min_in_last [where a = b']) (auto simp: desc_Cons)
    moreover have "keep p Lru w u = Greater" using d 3(3) by (auto simp: keep_lru desc_Cons)
    ultimately have "offer_pinned p Lru w = Some (set_tier (set_tier p u Nvme) w Pinned)" using 3 n by (simp add: offer_pinned_def)
    moreover have "u < length (ptier p)" "u \<noteq> w" using b 3(3) wb by (auto simp: keys_def)
    moreover have "take (cap p 1 - 1) b = b'" using 3 by simp
    moreover have "u \<notin> set b'" using b(2) 3(3) by simp
    ultimately show ?thesis using lw ks 3 by (auto simp: nth_list_update cut_zero_Cons)
  qed
qed

lemma cut_touch_vram:
  assumes "depth_tier v c s k = Vram" and "distinct s"
  shows "depth_tier v c (touch k s) j = depth_tier v c s j"
proof -
  from assms(1) obtain a b where a: "take v s = a @ k # b" by (auto simp: depth_tier_def split: if_splits dest!: split_list)
  then have s: "s = a @ k # (b @ drop v s)" by (metis append_Cons append_assoc append_take_drop_id)
  have "distinct (a @ k # (b @ drop v s))" using assms(2) s by metis
  then have "k \<notin> set a" "k \<notin> set (b @ drop v s)" by auto
  from touch_split [OF this] have t: "touch k s = k # a @ b @ drop v s" using s by metis
  have l: "length (a @ k # b) \<le> v" by (simp only: a [symmetric] length_take)
  have "take v (touch k s) = k # a @ b \<and> drop v (touch k s) = drop v s"
  proof (cases "length s \<le> v")
    case True
    with l show ?thesis by (simp add: t take_Cons' drop_Cons')
  next
    case False
    then have "length (a @ k # b) = v" using a by (metis length_take min.absorb2 nat_le_linear)
    then have "v = Suc (length (a @ b))" by simp
    then show ?thesis by (simp add: t)
  qed
  then show ?thesis by (auto simp: depth_tier_def a)
qed

text \<open>One access of the stamped pool: the tiers are read off the touched stack.\<close>

lemma ranked_hit_vram:
  assumes "ptier p ! k = Vram" and "depth_tier v c s k = Vram" and "distinct s"
    and T: "\<forall>j < keys p. ptier p ! j = depth_tier v c s j"
  shows "\<exists>q. ranked p Lru k = Some q \<and> (\<forall>j < keys p. ptier q ! j = depth_tier v c (touch k s) j)"
  using assms by (simp add: ranked_def cut_touch_vram [OF assms(2,3)])

lemma ranked_vram_free:
  assumes "ptier p ! k = Nvme" and k: "k < keys p" "k \<notin> set s" and f: "length s < v" and v: "cap p 0 = v" "len p 0 = length s"
    and T: "\<forall>j < keys p. ptier p ! j = depth_tier v c s j"
  shows "\<exists>q. ranked p Lru k = Some q \<and> (\<forall>j < keys p. ptier q ! j = depth_tier v c (touch k s) j)"
  using assms by (cases v) (auto simp: ranked_def Let_def touch_new depth_tier_def keys_def nth_list_update)

text \<open>The tier fields of a pool whose stack is \<open>s\<close>, \<open>k\<close> taken out of the pinned part.\<close>

lemma ranked_exchange:
  assumes l: "len_ok p" and cp: "cap p 0 = length a + 1" and k: "k < keys p" "k \<notin> set (a @ [w])" "ptier p ! k \<noteq> Vram"
    and t: "ptier p ! k = Pinned \<longrightarrow> \<not> pin_stay p"
    and s: "set (a @ w # b) \<subseteq> {..<keys p}" "distinct (a @ w # b)" and d: "desc (stamp p) (k # a @ w # b)" and c: "length b \<le> cap p 1"
    and V: "\<And>j. j < keys p \<Longrightarrow> ptier p ! j = Vram \<longleftrightarrow> j \<in> set (a @ [w])"
    and P: "\<And>j. j < keys p \<Longrightarrow> j \<noteq> k \<Longrightarrow> ptier p ! j = Pinned \<longleftrightarrow> j \<in> set b"
  shows "\<exists>q. ranked p Lru k = Some q \<and> (\<forall>j < keys p. ptier q ! j =
    (if j \<in> set (k # a) then Vram else depth_tier 0 (cap p 1) (w # b) j))"
proof -
  let ?p = "set_tier p k Vram"
  have n: "len p 0 = cap p 0" using card_tier_list [of p Vram "a @ [w]"] V s l cp by (simp add: len_ok_def)
  have m: "min_in p Lru Vram = Some w"
    using V s d by (intro min_in_last [where a = a]) (auto simp: desc_append desc_Cons)
  have g: "keep p Lru k w = Greater" using d by (auto simp: keep_lru desc_Cons)
  have kb: "k \<notin> set b" using d by (auto simp: desc_Cons)
  have kl: "k < length (ptier p)" using k by (simp add: keys_def)
  have "\<exists>q. offer_pinned ?p Lru w = Some q \<and> (\<forall>j < keys ?p. ptier q ! j =
      (if j = w \<or> j \<in> set b then depth_tier 0 (cap ?p 1) (w # b) j else ptier ?p ! j))"
  proof (rule offer_pinned_lru)
    show "len_ok ?p" by (rule len_ok_set_tier [OF k(1) l])
    show "ptier ?p ! w \<noteq> Pinned" using V [of w] s k kl by (auto simp: nth_list_update)
    show "ptier ?p ! j = Pinned \<longleftrightarrow> j \<in> set b" if "j < keys ?p" for j
      using P [of j] that kb kl by (auto simp: nth_list_update)
  qed (use s d c in \<open>auto simp: desc_append desc_Cons\<close>)
  then obtain q where q: "offer_pinned ?p Lru w = Some q"
    and T: "\<And>j. j < keys p \<Longrightarrow> ptier q ! j =
      (if j = w \<or> j \<in> set b then depth_tier 0 (cap p 1) (w # b) j else ptier ?p ! j)" by auto
  have "ranked p Lru k = Some q" using k t n m g cp q by (auto simp: ranked_def Let_def)
  moreover have "ptier q ! j = (if j \<in> set (k # a) then Vram else depth_tier 0 (cap p 1) (w # b) j)" if j: "j < keys p" for j
  proof (cases "j = w \<or> j \<in> set b")
    case True
    with T [OF j] s kb k show ?thesis by auto
  next
    case False
    then have "ptier ?p ! j = (if j \<in> set (k # a) then Vram else depth_tier 0 (cap p 1) (w # b) j)"
      using j V [of j] P [of j] kl by (cases "ptier p ! j") (auto simp: nth_list_update cut_zero_Cons dest: in_set_takeD)
    with False show ?thesis by (simp only: T [OF j] if_False)
  qed
  ultimately show ?thesis by blast
qed

lemma take_removeAll_take:
  assumes "distinct xs"
  shows "take (c - 1) (removeAll k (take c xs)) = take (c - 1) (removeAll k xs)"
proof (cases "length xs \<le> c")
  case False
  have e: "removeAll k xs = removeAll k (take c xs) @ removeAll k (drop c xs)"
    by (metis append_take_drop_id removeAll_append)
  have "distinct (take c xs)" using assms by simp
  then have "removeAll k (take c xs) = remove1 k (take c xs)" by (simp add: distinct_remove1_removeAll)
  then have "c - 1 \<le> length (removeAll k (take c xs))" using False by (auto simp: length_remove1)
  then show ?thesis unfolding e by simp
qed simp

lemma cut_zero: "depth_tier 0 c s j = (if depth_tier c 0 s j = Vram then Pinned else Nvme)"
  by (auto simp: depth_tier_def)

lemma cut_split: "length a = v \<Longrightarrow> depth_tier v c (a @ b) j = (if j \<in> set a then Vram else depth_tier 0 c b j)"
  by (auto simp: depth_tier_def)

lemma ranked_lru:
  assumes inv: "pool_inv Lru p" and np: "\<not> pin_stay p" and s: "set s \<subseteq> {..<keys p}" "distinct s"
    and d: "desc (stamp p) (touch k s)" and k: "k < keys p" and v: "cap p 0 = v" and c: "cap p 1 = c"
    and T: "\<forall>j < keys p. ptier p ! j = depth_tier v c s j"
  shows "\<exists>q. ranked p Lru k = Some q \<and> (\<forall>j < keys p. ptier q ! j = depth_tier v c (touch k s) j)"
proof -
  have l: "len_ok p" using inv by (simp add: pool_inv_def)
  have dk: "\<forall>x \<in> set s. x \<noteq> k \<longrightarrow> stamp p ! x < stamp p ! k" and ds: "desc (stamp p) (removeAll k s)"
    using d by (auto simp: touch_def desc_Cons)
  consider "depth_tier v c s k = Vram" | "v = 0" "depth_tier v c s k = Pinned" | "v = 0" "depth_tier v c s k = Nvme"
    | "0 < v" "length s < v" "depth_tier v c s k \<noteq> Vram" | "0 < v" "v \<le> length s" "depth_tier v c s k \<noteq> Vram"
    by (cases "depth_tier v c s k") force+
  then show ?thesis
  proof cases
    case 1
    then show ?thesis using T k s(2) by (intro ranked_hit_vram) auto
  next
    case 2
    then have "depth_tier c 0 s k = Vram" by (auto simp: cut_zero split: if_splits)
    from cut_touch_vram [OF this s(2)] have "depth_tier v c (touch k s) j = depth_tier v c s j" for j by (simp add: 2 cut_zero)
    with 2 T k v show ?thesis by (simp add: ranked_def Let_def)
  next
    case 3
    let ?b = "take c s"
    have kb: "k \<notin> set ?b" using 3 by (auto simp: depth_tier_def split: if_splits)
    have e: "removeAll k (take c s) = take c s" using kb by simp
    have "\<exists>q. offer_pinned p Lru k = Some q \<and> (\<forall>j < keys p. ptier q ! j =
        (if j = k \<or> j \<in> set ?b then depth_tier 0 (cap p 1) (k # ?b) j else ptier p ! j))"
    proof (rule offer_pinned_lru [OF l k])
      show "desc (stamp p) (k # ?b)" using dk ds kb
        by (auto simp: desc_Cons dest: in_set_takeD) (metis append_take_drop_id desc_append e removeAll_append)
    qed (use T k 3 s c in \<open>auto simp: depth_tier_def dest: in_set_takeD\<close>)
    then obtain q where q: "offer_pinned p Lru k = Some q"
      and Q: "\<And>j. j < keys p \<Longrightarrow> ptier q ! j = (if j = k \<or> j \<in> set ?b then depth_tier 0 c (k # ?b) j else ptier p ! j)"
      unfolding c by blast
    have r: "take (c - 1) (removeAll k s) = take (c - 1) ?b" using take_removeAll_take [OF s(2), of c k] unfolding e by simp
    have "ptier q ! j = depth_tier v c (touch k s) j" if j: "j < keys p" for j
      using Q [OF j] T j 3(1) r in_set_takeD [of j "c - 1" ?b]
      by (auto simp: touch_def cut_zero_Cons depth_tier_def [of 0 c s])
    moreover have "ranked p Lru k = Some q" using 3 T k v q by (simp add: ranked_def Let_def)
    ultimately show ?thesis by blast
  next
    case 4
    then have "k \<notin> set s" "ptier p ! k = Nvme" using T k by (auto simp: depth_tier_def split: if_splits)
    moreover have "len p 0 = length s"
      using card_tier_list [of p Vram s] T s 4 l by (auto simp: len_ok_def depth_tier_def)
    ultimately show ?thesis using 4 T k v by (intro ranked_vram_free) auto
  next
    case 5
    obtain a w where a: "take v s = a @ [w]" using 5 by (cases "take v s" rule: rev_cases) auto
    let ?r = "drop v s" let ?b = "removeAll k (take c ?r)"
    have la: "length a + 1 = v" using a 5(2) by (metis Suc_eq_plus1 length_append_singleton length_take min.absorb2)
    have e: "s = a @ w # ?r" by (metis a append_Cons append_Nil append_assoc append_take_drop_id)
    have ka: "k \<notin> set (a @ [w])" using 5 a by (auto simp: depth_tier_def)
    have t: "touch k s = (k # a) @ w # removeAll k ?r" using ka by (subst e) (auto simp: touch_def)
    have sub: "set ?b \<subseteq> set ?r" by (auto dest: in_set_takeD)
    have dist: "distinct (a @ w # ?r)" using s(2) e by metis
    have subs: "set (a @ w # ?r) \<subseteq> {..<keys p}" using s(1) e by metis
    have nv: "ptier p ! k \<noteq> Vram" using T k 5 by auto
    have "\<exists>q. ranked p Lru k = Some q \<and> (\<forall>j < keys p. ptier q ! j =
      (if j \<in> set (k # a) then Vram else depth_tier 0 (cap p 1) (w # ?b) j))"
    proof (rule ranked_exchange [OF l _ k ka nv])
      show "set (a @ w # ?b) \<subseteq> {..<keys p}" using subs sub by auto
      show "distinct (a @ w # ?b)" using dist sub by (auto simp: distinct_removeAll)
      have sub': "set ?b \<subseteq> set (removeAll k ?r)" by (auto dest: in_set_takeD)
      have "desc (stamp p) ?b"
        using d unfolding t by (metis append_take_drop_id desc_append desc_Cons removeAll_append)
      then show "desc (stamp p) (k # a @ w # ?b)"
        using d sub' unfolding t desc_append desc_Cons append_Cons by (auto simp del: set_removeAll simp: subset_eq)
      show "length ?b \<le> cap p 1" using c by (metis length_removeAll_less_eq length_take le_trans min.cobounded2)
      show "ptier p ! j = Vram \<longleftrightarrow> j \<in> set (a @ [w])" if "j < keys p" for j
        using that T by (auto simp: depth_tier_def a [symmetric])
      show "ptier p ! j = Pinned \<longleftrightarrow> j \<in> set ?b" if "j < keys p" "j \<noteq> k" for j
        using that T dist by (auto simp: depth_tier_def a dest: in_set_takeD)
    qed (use np v la in auto)
    moreover have "depth_tier v c (touch k s) j = (if j \<in> set (k # a) then Vram else depth_tier 0 c (w # ?b) j)" for j
      unfolding t by (subst cut_split) (use la take_removeAll_take [of ?r c k] s(2) in \<open>auto simp: cut_zero_Cons\<close>)
    ultimately show ?thesis unfolding c by (simp only:)
  qed
qed

lemma desc_cong: "(\<And>x. x \<in> set s \<Longrightarrow> st ! x = st' ! x) \<Longrightarrow> desc st s = desc st' s"
  unfolding desc_def by (induction s) auto

lemma lru_access:
  assumes ok: "lru_ok p s n" and k: "k < keys p"
  shows "\<exists>q. place Lru w adm (p\<lparr>stamp := (stamp p)[k := n + 1]\<rparr>) k = Some q \<and> lru_ok q (touch k s) (n + 1)
    \<and> keys q = keys p \<and> cap q = cap p"
proof -
  let ?p = "p\<lparr>stamp := (stamp p)[k := n + 1]\<rparr>"
  have inv: "pool_inv Lru ?p" using ok by (intro pool_inv_stamp) (simp add: lru_ok_def)
  have kl: "k < length (stamp p)" using ok k by (simp add: lru_ok_def pool_inv_def shape_ok_def)
  have st: "\<And>x. x \<noteq> k \<Longrightarrow> (stamp p)[k := n + 1] ! x = stamp p ! x" by simp
  have "desc (stamp p) (removeAll k s)"
    using ok by (simp add: lru_ok_def desc_def sorted_wrt_filter removeAll_filter_not_eq)
  then have "desc (stamp ?p) (removeAll k s)" using desc_cong [of "removeAll k s" "stamp p" "stamp ?p"] by simp
  then have d: "desc (stamp ?p) (touch k s)" using ok kl by (fastforce simp: touch_def desc_Cons lru_ok_def)
  have "\<exists>q. ranked ?p Lru k = Some q \<and> (\<forall>j < keys ?p. ptier q ! j = depth_tier (cap p 0) (cap p 1) (touch k s) j)"
    by (rule ranked_lru [OF inv _ _ _ d]) (use ok k in \<open>auto simp: lru_ok_def keys_def\<close>)
  then obtain q where q: "ranked ?p Lru k = Some q"
    and T: "\<forall>j < keys p. ptier q ! j = depth_tier (cap p 0) (cap p 1) (touch k s) j" by (auto simp: keys_def)
  have "same ?p q \<and> pool_inv Lru q"
    using ranked_ok [of k ?p Lru] inv k q by (auto simp: pool_inv_def keys_def)
  moreover have "\<forall>x \<in> set (touch k s). stamp ?p ! x \<le> n + 1"
    using ok kl by (auto simp: nth_list_update lru_ok_def)
  ultimately have "lru_ok q (touch k s) (n + 1) \<and> keys q = keys p \<and> cap q = cap p"
    using ok T d k by (auto simp: lru_ok_def same_def keys_def)
  with q show ?thesis by (auto simp: place_def)
qed

section \<open>The cache against one stack per layer\<close>

definition lru_layers :: "cache \<Rightarrow> (nat \<Rightarrow> nat list) \<Rightarrow> bool" where
  "lru_layers c f \<longleftrightarrow> cache_inv c \<and> scope c = PerLayer \<and> pol c = Lru
     \<and> (\<forall>l < layers c. lru_ok (pools c ! l) (f l) (now c))"

lemma lru_ok_mono: "lru_ok p s n \<Longrightarrow> n \<le> m \<Longrightarrow> lru_ok p s m"
  by (auto simp: lru_ok_def)

lemma lru_layers_access:
  assumes L: "lru_layers c f" and l: "l < layers c" and e: "e < experts c"
  shows "\<exists>t c'. access c l e w = Some (t, c') \<and> lru_layers c' (f(l := touch e (f l))) \<and> cfg c' = cfg c"
proof -
  have inv: "cache_inv c" using L by (simp add: lru_layers_def)
  obtain t c' where a: "access c l e w = Some (t, c')" and c': "cache_inv c'" "cfg c' = cfg c" "now c' = now c + 1"
    using access_ok [OF inv l e] by blast
  have lk: "loc c l e = Some (l, e)" using L l e by (simp add: loc_def lru_layers_def)
  note b = loc_bounds [OF inv lk]
  have "lru_ok (pools c ! l) (f l) (now c)" using L l by (simp add: lru_layers_def)
  from lru_access [OF this b(2)] obtain q where
    q: "place Lru w True ((pools c ! l)\<lparr>stamp := (stamp (pools c ! l))[e := now c + 1]\<rparr>) e = Some q" "lru_ok q (touch e (f l)) (now c + 1)" by blast
  have "pools c' = (pools c)[l := q]" using a lk q(1) L by (auto simp: access_def Let_def lru_layers_def)
  then have "lru_layers c' (f(l := touch e (f l)))"
    using L c' q(2) b(1) lru_ok_mono [of _ _ "now c" "now c + 1"] by (auto simp: lru_layers_def cfg_eq nth_list_update)
  with a c' show ?thesis by blast
qed

lemma lru_layers_access_all:
  "lru_layers c f \<Longrightarrow> l < layers c \<Longrightarrow> list_all (\<lambda>(e, w). e < experts c) xs \<Longrightarrow>
    \<exists>c'. access_all c l xs = Some c' \<and> lru_layers c' (f(l := foldl (\<lambda>s k. touch k s) (f l) (map fst xs))) \<and> cfg c' = cfg c"
proof (induction xs arbitrary: c f)
  case (Cons x xs)
  obtain e w where x: "x = (e, w)" by force
  with Cons.prems obtain t c1 where c1: "access c l e w = Some (t, c1)" "lru_layers c1 (f(l := touch e (f l)))" "cfg c1 = cfg c"
    using lru_layers_access [of c f l e w] by auto
  have "l < layers c1" "list_all (\<lambda>(e, w). e < experts c1) xs" using Cons.prems c1(3) by (auto simp: cfg_eq)
  from Cons.IH [OF c1(2) this] obtain c' where "access_all c1 l xs = Some c'" "cfg c' = cfg c1"
    "lru_layers c' ((f(l := touch e (f l)))(l := foldl (\<lambda>s k. touch k s) ((f(l := touch e (f l))) l) (map fst xs)))" by blast
  moreover have "(f(l := touch e (f l)))(l := foldl (\<lambda>s k. touch k s) ((f(l := touch e (f l))) l) (map fst xs))
      = f(l := foldl (\<lambda>s k. touch k s) (f l) (map fst (x # xs)))" by (simp add: x)
  ultimately show ?case using c1 by (simp add: x del: fun_upd_apply)
qed simp

lemma lru_layers_observe:
  assumes L: "lru_layers c f" and l: "l < layers c" and ids: "list_all (\<lambda>e. e < experts c) ids"
  shows "\<exists>c'. observe_token c l ids = Some c' \<and> lru_layers c' (f(l := foldl (\<lambda>s k. touch k s) (f l) ids)) \<and> cfg c' = cfg c"
proof -
  have "l < length (admitted c)" using L l by (simp add: lru_layers_def cache_inv_def)
  then obtain c1 where t: "tick c l = Some c1" and e: "c1 = c\<lparr>admitted := (admitted c)[l := 0]\<rparr>"
    using L by (auto simp: tick_def lru_layers_def Let_def)
  have "lru_layers c1 f" using L unfolding e by (auto simp: lru_layers_def cache_inv_def)
  then show ?thesis using lru_layers_access_all [of c1 f l "map (\<lambda>e. (e, 1)) ids"] t l ids
    by (auto simp: observe_token_def e list_all_iff comp_def)
qed

fun observe_trace :: "cache \<Rightarrow> (nat \<times> nat list) list \<Rightarrow> cache option" where
  "observe_trace c [] = Some c"
| "observe_trace c ((l, ids) # r) = Option.bind (observe_token c l ids) (\<lambda>c'. observe_trace c' r)"

definition layer_ids :: "nat \<Rightarrow> (nat \<times> nat list) list \<Rightarrow> nat list" where
  "layer_ids l tr = concat (map snd (filter (\<lambda>(m, _). m = l) tr))"

lemma lru_layers_trace:
  "lru_layers c f \<Longrightarrow> list_all (\<lambda>(l, ids). l < layers c \<and> list_all (\<lambda>e. e < experts c) ids) tr \<Longrightarrow>
    \<exists>c'. observe_trace c tr = Some c' \<and> lru_layers c' (\<lambda>l. foldl (\<lambda>s k. touch k s) (f l) (layer_ids l tr)) \<and> cfg c' = cfg c"
proof (induction tr arbitrary: c f)
  case Nil
  then show ?case by (simp add: layer_ids_def)
next
  case (Cons x tr)
  obtain l ids where x: "x = (l, ids)" by force
  with Cons.prems obtain c1 where c1: "observe_token c l ids = Some c1" "lru_layers c1 (f(l := foldl (\<lambda>s k. touch k s) (f l) ids))"
    "cfg c1 = cfg c" using lru_layers_observe [of c f l ids] by auto
  have "list_all (\<lambda>(l, ids). l < layers c1 \<and> list_all (\<lambda>e. e < experts c1) ids) tr"
    using Cons.prems c1(3) by (simp add: cfg_eq)
  from Cons.IH [OF c1(2) this] obtain c' where c': "observe_trace c1 tr = Some c'" "cfg c' = cfg c1"
    "lru_layers c' (\<lambda>m. foldl (\<lambda>s k. touch k s) ((f(l := foldl (\<lambda>s k. touch k s) (f l) ids)) m) (layer_ids m tr))" by blast
  have "(\<lambda>m. foldl (\<lambda>s k. touch k s) ((f(l := foldl (\<lambda>s k. touch k s) (f l) ids)) m) (layer_ids m tr))
      = (\<lambda>m. foldl (\<lambda>s k. touch k s) (f m) (layer_ids m (x # tr)))"
    by (auto simp: x layer_ids_def fun_eq_iff)
  with c' c1 show ?case by (simp add: x)
qed

lemma lru_layers_new:
  assumes "cache_new Lru PerLayer ls es v p = Inr c"
  shows "lru_layers c (\<lambda>_. [])" and "layers c = ls" and "experts c = es" and "vram c = v" and "pinned c = p"
proof -
  have "pool_inv Lru (pool_new es v p)" by (rule pool_inv_new)
  with cache_inv_new [OF assms] assms show "lru_layers c (\<lambda>_. [])"
    by (auto simp: cache_new_def lru_layers_def lru_ok_def depth_tier_def pool_new_def keys_def split: if_splits)
qed (use assms in \<open>auto simp: cache_new_def split: if_splits\<close>)

text \<open>C6: LRU is exact: from an empty cache with per-layer pools, after any trace of token
  observations, the tier of every expert is its depth in its layer's recency stack: the
  \<open>v\<close> most recently routed experts are in VRAM, the next \<open>p\<close> in pinned memory, the rest on
  NVMe. The trace always runs to its end. Stamps, victim search, promotion and demotion of
  the code implement exactly that cut, layers not disturbing each other.\<close>

theorem lru_cache_refines_recency_stack:
  assumes new: "cache_new Lru PerLayer ls es v p = Inr c0"
    and tr: "list_all (\<lambda>(l, ids). l < ls \<and> list_all (\<lambda>e. e < es) ids) tr"
  shows "\<exists>c. observe_trace c0 tr = Some c
    \<and> (\<forall>l < ls. \<forall>e < es. tier_of c l e = Some (depth_tier v p (recency (layer_ids l tr)) e))"
proof -
  note n = lru_layers_new [OF new]
  obtain c where c: "observe_trace c0 tr = Some c" "lru_layers c (\<lambda>l. recency (layer_ids l tr))" "cfg c = cfg c0"
    using lru_layers_trace [OF n(1)] tr n(2,3) by (auto simp: recency_def)
  have "tier_of c l e = Some (depth_tier v p (recency (layer_ids l tr)) e)" if "l < ls" "e < es" for l e
  proof -
    have inv: "cache_inv c" and lk: "loc c l e = Some (l, e)"
      using c(2,3) that n by (auto simp: lru_layers_def loc_def cfg_eq)
    note b = loc_bounds [OF inv lk]
    have "cap (pools c ! l) = pool_caps c" using inv b(1,4) nth_map [OF b(1), of cap] by (simp add: cache_inv_def)
    with c(2,3) that n lk b(2) show ?thesis
      by (auto simp: tier_of_def lru_layers_def lru_ok_def pool_caps_def cfg_eq)
  qed
  with c(1) show ?thesis by blast
qed

definition demo_lru :: cache where
  "demo_lru = (case cache_new Lru PerLayer 2 5 1 2 of Inr c \<Rightarrow> c | Inl e \<Rightarrow> undefined)"

theorem lru_cache_refines_recency_stack_witness:
  "\<exists>c. observe_trace demo_lru [(0, [1, 2]), (1, [3]), (0, [4, 1])] = Some c
    \<and> tier_of c 0 1 = Some Vram \<and> tier_of c 0 4 = Some Pinned \<and> tier_of c 0 2 = Some Pinned
    \<and> tier_of c 0 3 = Some Nvme \<and> tier_of c 1 3 = Some Vram"
proof -
  have new: "cache_new Lru PerLayer 2 5 1 2 = Inr demo_lru" by (simp add: demo_lru_def cache_new_def)
  show ?thesis
    using lru_cache_refines_recency_stack [OF new, of "[(0, [1, 2]), (1, [3]), (0, [4, 1])]"]
    by (auto simp: recency_def layer_ids_def touch_def depth_tier_def)
qed

end
