(* ===== verification/Markers.thy ===== *)
theory Markers
  imports Prelude
begin

text \<open>
  \<open>find_marker\<close> of \<open>engine/src/toolcall.rs\<close>: the scan that the tool-call parser and the stop
  strings share. It reports the earliest complete marker of a buffer, or how much of the
  buffer can never be part of one. The locale states that contract; what a streaming client
  gets from it (a marker cut over any number of pieces is still found) is proved there once.
  Text is UTF-8 bytes; positions are byte offsets, as in the code.
\<close>

section \<open>The scan\<close>

definition cont_byte :: "char \<Rightarrow> bool" where
  "cont_byte c \<longleftrightarrow> digit7 c \<and> \<not> digit6 c"

definition is_char_boundary :: "str \<Rightarrow> nat \<Rightarrow> bool" where
  "is_char_boundary s i = (i = 0 \<or> i = length s \<or> (i < length s \<and> \<not> cont_byte (s ! i)))"

text \<open>\<open>str::find\<close>: the offset of the first occurrence.\<close>

fun find_sub :: "str \<Rightarrow> str \<Rightarrow> nat option" where
  "find_sub m [] = (if m = [] then Some 0 else None)"
| "find_sub m (c # s) = (if is_prefix m (c # s) then Some 0 else map_option Suc (find_sub m s))"

fun best_marker :: "str \<Rightarrow> nat \<Rightarrow> str list \<Rightarrow> (nat \<times> nat) option \<Rightarrow> (nat \<times> nat) option" where
  "best_marker buf i [] best = best"
| "best_marker buf i (m # ms) best = best_marker buf (Suc i) ms
     (case find_sub m buf of None \<Rightarrow> best
      | Some at \<Rightarrow> (case best of None \<Rightarrow> Some (at, i) | Some (b, _) \<Rightarrow> if at < b then Some (at, i) else best))"

fun hold_down :: "str \<Rightarrow> str \<Rightarrow> nat \<Rightarrow> nat \<Rightarrow> nat" where
  "hold_down buf m hold 0 = hold"
| "hold_down buf m hold (Suc k) =
    (if Suc k \<le> hold then hold
     else if is_char_boundary buf (length buf - Suc k) \<and> drop (length buf - Suc k) buf = take (Suc k) m then Suc k
     else hold_down buf m hold k)"

definition hold_step :: "str \<Rightarrow> nat \<Rightarrow> str \<Rightarrow> nat" where
  "hold_step buf hold m = hold_down buf m hold (min (length m - 1) (length buf))"

definition find_marker :: "str \<Rightarrow> str list \<Rightarrow> (nat \<times> nat) option \<times> nat" where
  "find_marker buf markers = (case best_marker buf 0 markers None of
     Some hit \<Rightarrow> (Some hit, fst hit)
   | None \<Rightarrow> (None, length buf - foldl (hold_step buf) 0 markers))"

section \<open>Occurrences\<close>

definition occurs :: "str \<Rightarrow> nat \<Rightarrow> str \<Rightarrow> bool" where
  "occurs m i s \<longleftrightarrow> take (length m) (drop i s) = m"

lemma occurs_length: "occurs m i s \<Longrightarrow> m \<noteq> [] \<Longrightarrow> i + length m \<le> length s"
  unfolding occurs_def by (metis length_drop length_greater_0_conv length_take less_imp_le_nat min.cobounded1 min_def
      le_diff_conv2 zero_less_diff add.commute not_le)

lemma occurs_append: "occurs m i (a @ b) \<Longrightarrow> length a \<le> i \<Longrightarrow> occurs m (i - length a) b"
  by (simp add: occurs_def)

lemma occurs_appendI: "occurs m i b \<Longrightarrow> occurs m (length a + i) (a @ b)"
  by (simp add: occurs_def)

lemma occurs_iff: "occurs m i s \<longleftrightarrow> (\<exists>r. drop i s = m @ r)"
  unfolding occurs_def by (metis append_eq_conv_conj append_take_drop_id)

lemma occurs_left: "occurs m i a \<Longrightarrow> occurs m i (a @ b)"
  by (cases "i \<le> length a") (auto simp: occurs_iff)

lemma occurs_crossing:
  "occurs m i (s @ x) \<Longrightarrow> length s - i \<le> length m \<Longrightarrow> i \<le> length s \<Longrightarrow> drop i s = take (length s - i) m"
proof -
  assume o: "occurs m i (s @ x)" and l: "length s - i \<le> length m" "i \<le> length s"
  obtain r where r: "drop i s @ x = m @ r" using o l by (auto simp: occurs_iff)
  have "drop i s = take (length s - i) (drop i s @ x)" by simp
  also have "\<dots> = take (length s - i) m" using l by (simp add: r)
  finally show ?thesis .
qed

lemma find_sub_None: "find_sub m s = None \<longleftrightarrow> (\<forall>i \<le> length s. \<not> occurs m i s)"
proof (induction s)
  case (Cons c s)
  have "(\<forall>i \<le> length (c # s). \<not> occurs m i (c # s)) \<longleftrightarrow> \<not> occurs m 0 (c # s) \<and> (\<forall>i \<le> length s. \<not> occurs m (Suc i) (c # s))"
    by (metis Suc_le_mono le0 length_Cons not0_implies_Suc)
  with Cons show ?case by (auto simp: occurs_def is_prefix_def)
qed (auto simp: occurs_def)

lemma find_sub_Some: "find_sub m s = Some i \<Longrightarrow> occurs m i s \<and> i \<le> length s \<and> (\<forall>j < i. \<not> occurs m j s)"
proof (induction s arbitrary: i)
  case Nil
  then show ?case by (auto simp: occurs_def split: if_splits)
next
  case (Cons c s)
  show ?case
  proof (cases "is_prefix m (c # s)")
    case True
    with Cons.prems show ?thesis by (auto simp: occurs_def is_prefix_def)
  next
    case False
    with Cons.prems obtain k where k: "i = Suc k" "find_sub m s = Some k" by auto
    with Cons.IH [OF k(2)] False show ?thesis
      by (auto simp: occurs_def is_prefix_def less_Suc_eq_0_disj)
  qed
qed

definition first_hit :: "str \<Rightarrow> str list \<Rightarrow> nat \<Rightarrow> nat \<Rightarrow> bool" where
  "first_hit buf ms at i \<longleftrightarrow> i < length ms \<and> at \<le> length buf \<and> occurs (ms ! i) at buf
     \<and> (\<forall>m \<in> set ms. \<forall>j < at. \<not> occurs m j buf) \<and> (\<forall>j < i. \<not> occurs (ms ! j) at buf)"

definition no_hit :: "str \<Rightarrow> str list \<Rightarrow> bool" where
  "no_hit buf ms \<longleftrightarrow> (\<forall>m \<in> set ms. \<forall>j \<le> length buf. \<not> occurs m j buf)"

definition hit_spec :: "str \<Rightarrow> str list \<Rightarrow> (nat \<times> nat) option \<Rightarrow> bool" where
  "hit_spec buf ms b = (case b of None \<Rightarrow> no_hit buf ms | Some (at, i) \<Rightarrow> first_hit buf ms at i)"

lemma best_marker_spec:
  "hit_spec buf pre b \<Longrightarrow> hit_spec buf (pre @ ms) (best_marker buf (length pre) ms b)"
proof (induction ms arbitrary: pre b)
  case Nil
  then show ?case by simp
next
  case (Cons m ms)
  let ?b = "case find_sub m buf of None \<Rightarrow> b
      | Some at \<Rightarrow> (case b of None \<Rightarrow> Some (at, length pre) | Some (b0, _) \<Rightarrow> if at < b0 then Some (at, length pre) else b)"
  have "hit_spec buf (pre @ [m]) ?b"
  proof (cases "find_sub m buf")
    case None
    then have "\<forall>i \<le> length buf. \<not> occurs m i buf" by (simp only: find_sub_None)
    with Cons.prems None show ?thesis
      by (cases b) (auto simp del: find_sub_None simp: hit_spec_def no_hit_def first_hit_def nth_append)
  next
    case (Some at)
    note f = find_sub_Some [OF Some]
    show ?thesis
    proof (cases b)
      case None
      with Cons.prems Some f show ?thesis by (auto simp: hit_spec_def no_hit_def first_hit_def nth_append)
    next
      case b: (Some p)
      obtain b0 i where p: "p = (b0, i)" by force
      with Cons.prems b have h: "first_hit buf pre b0 i" by (simp add: hit_spec_def)
      show ?thesis
      proof (cases "at < b0")
        case True
        have "\<not> occurs (pre ! j) at buf" if "j < length pre" for j
          using h True that by (auto simp: first_hit_def)
        with h True f show ?thesis by (auto simp: hit_spec_def b p Some first_hit_def nth_append)
      next
        case False
        with h f show ?thesis by (auto simp: hit_spec_def b p Some first_hit_def nth_append)
      qed
    qed
  qed
  from Cons.IH [OF this] show ?case by simp
qed

lemma hold_down_spec:
  "hold \<le> hold_down buf m hold k \<and> hold_down buf m hold k \<le> max hold k
    \<and> (hold_down buf m hold k \<noteq> hold \<longrightarrow> is_char_boundary buf (length buf - hold_down buf m hold k))
    \<and> (\<forall>j. 0 < j \<and> j \<le> k \<and> is_char_boundary buf (length buf - j) \<and> drop (length buf - j) buf = take j m
        \<longrightarrow> j \<le> hold_down buf m hold k)"
proof (induction k)
  case (Suc k)
  then show ?case by (auto simp: le_Suc_eq)
qed simp

lemma hold_fold_spec:
  assumes "h0 \<le> length buf" and "is_char_boundary buf (length buf - h0)"
  shows "h0 \<le> foldl (hold_step buf) h0 ms \<and> foldl (hold_step buf) h0 ms \<le> length buf
    \<and> is_char_boundary buf (length buf - foldl (hold_step buf) h0 ms)
    \<and> (\<forall>m \<in> set ms. \<forall>j. 0 < j \<and> j < length m \<and> j \<le> length buf \<and> is_char_boundary buf (length buf - j)
        \<and> drop (length buf - j) buf = take j m \<longrightarrow> j \<le> foldl (hold_step buf) h0 ms)"
  using assms
proof (induction ms arbitrary: h0)
  case (Cons m ms)
  let ?h = "hold_step buf h0 m"
  note s = hold_down_spec [of h0 buf m "min (length m - 1) (length buf)", folded hold_step_def]
  have h: "h0 \<le> ?h" "?h \<le> length buf" "is_char_boundary buf (length buf - ?h)" using s Cons.prems by (auto simp: max_def split: if_splits)
  from Cons.IH [OF h(2,3)] s h(1) show ?case by auto
qed auto

section \<open>The contract of the scan\<close>

text \<open>A marker the scan is used with: not empty, and starting at a character.\<close>

definition marker_ok :: "str \<Rightarrow> bool" where
  "marker_ok m = (case m of [] \<Rightarrow> False | c # _ \<Rightarrow> \<not> cont_byte c)"

lemma marker_ok_not_empty: "marker_ok m \<Longrightarrow> m \<noteq> []"
  by (auto simp: marker_ok_def)

text \<open>A hold of \<open>h\<close> bytes is enough when no longer proper prefix of a marker ends the text.\<close>

definition held_enough :: "str list \<Rightarrow> str \<Rightarrow> nat \<Rightarrow> bool" where
  "held_enough ms s h \<longleftrightarrow> (\<forall>m \<in> set ms. \<forall>j. j < length m \<and> j \<le> length s \<and> drop (length s - j) s = take j m \<longrightarrow> j \<le> h)"

locale marker_scan =
  fixes scan :: "str \<Rightarrow> str list \<Rightarrow> (nat \<times> nat) option \<times> nat" and ok :: "str \<Rightarrow> bool"
  assumes scan_hit: "list_all ok ms \<Longrightarrow> scan buf ms = (Some (at, i), safe) \<Longrightarrow>
      first_hit buf ms at i \<and> safe = at \<and> is_char_boundary buf at"
    and scan_miss: "list_all ok ms \<Longrightarrow> scan buf ms = (None, safe) \<Longrightarrow>
      no_hit buf ms \<and> safe \<le> length buf \<and> is_char_boundary buf safe \<and> held_enough ms buf (length buf - safe)"
    and ok_not_empty: "ok m \<Longrightarrow> m \<noteq> []"
begin

text \<open>The text seen so far is \<open>e @ h\<close>, \<open>h\<close> held back; a piece \<open>x\<close> arrives.\<close>

lemma no_early_occurrence:
  assumes ms: "list_all ok ms" and n: "no_hit (e @ h) ms" and he: "held_enough ms (e @ h) (length h)"
    and m: "m \<in> set ms" and i: "i < length e"
  shows "\<not> occurs m i (e @ h @ x)"
proof
  assume o: "occurs m i (e @ h @ x)"
  have ne: "m \<noteq> []" using ms m ok_not_empty by (auto simp: list_all_iff)
  show False
  proof (cases "i + length m \<le> length (e @ h)")
    case True
    then have "occurs m i (e @ h)" using o i by (simp add: occurs_def)
    moreover have "i \<le> length (e @ h)" using i by simp
    ultimately show False using n m by (simp add: no_hit_def)
  next
    case False
    let ?j = "length (e @ h) - i"
    have "drop (length (e @ h) - ?j) (e @ h) = take ?j m"
      using occurs_crossing [of m i "e @ h" x] o False i by simp
    moreover have "?j < length m \<and> ?j \<le> length (e @ h)" using False i by auto
    ultimately have "?j \<le> length h" using he m unfolding held_enough_def by blast
    with i show False by simp
  qed
qed

lemma feed_hit:
  assumes ms: "list_all ok ms" and n: "no_hit (e @ h) ms" and he: "held_enough ms (e @ h) (length h)"
    and s: "scan (h @ x) ms = (Some (at, i), safe)"
  shows "first_hit (e @ h @ x) ms (length e + at) i"
proof -
  note f = scan_hit [OF ms s, THEN conjunct1]
  have "\<not> occurs m j (e @ h @ x)" if "m \<in> set ms" "j < length e + at" for m j
  proof (cases "j < length e")
    case True
    with no_early_occurrence [OF ms n he that(1)] show ?thesis by blast
  next
    case False
    with that f occurs_append [of m j e "h @ x"] show ?thesis by (auto simp: first_hit_def)
  qed
  moreover have "\<not> occurs (ms ! j) (length e + at) (e @ h @ x)" if "j < i" for j
    using f that occurs_append [of "ms ! j" "length e + at" e "h @ x"] by (auto simp: first_hit_def)
  ultimately show ?thesis using f occurs_appendI [of "ms ! i" at "h @ x" e] by (auto simp: first_hit_def)
qed

lemma feed_miss:
  assumes ms: "list_all ok ms" and n: "no_hit (e @ h) ms" and he: "held_enough ms (e @ h) (length h)"
    and s: "scan (h @ x) ms = (None, safe)"
  shows "no_hit (e @ h @ x) ms \<and> held_enough ms (e @ h @ x) (length (h @ x) - safe)"
proof
  note f = scan_miss [OF ms s]
  show "no_hit (e @ h @ x) ms"
    unfolding no_hit_def
  proof (intro ballI allI impI)
    fix m j assume m: "m \<in> set ms" "j \<le> length (e @ h @ x)"
    show "\<not> occurs m j (e @ h @ x)"
    proof (cases "j < length e")
      case True
      with no_early_occurrence [OF ms n he m(1)] show ?thesis by blast
    next
      case False
      with m f occurs_append [of m j e "h @ x"] show ?thesis by (auto simp: no_hit_def)
    qed
  qed
  show "held_enough ms (e @ h @ x) (length (h @ x) - safe)"
    unfolding held_enough_def
  proof (intro ballI allI impI, elim conjE)
    fix m j assume m: "m \<in> set ms" and j: "j < length m" "j \<le> length (e @ h @ x)"
      and d: "drop (length (e @ h @ x) - j) (e @ h @ x) = take j m"
    show "j \<le> length (h @ x) - safe"
    proof (cases "j \<le> length (h @ x)")
      case True
      then have "drop (length (h @ x) - j) (h @ x) = take j m" using d by simp
      with f m j True show ?thesis by (auto simp: held_enough_def)
    next
      case False
      let ?j = "j - length x"
      have "drop (length (e @ h) - ?j) (e @ h) = take ?j m"
      proof -
        have "drop (length (e @ h @ x) - j) ((e @ h) @ x) = drop (length (e @ h) - ?j) (e @ h) @ x"
          using False j by (simp add: add.assoc)
        then have "drop (length (e @ h) - ?j) (e @ h) @ x = take j m" using d by simp
        moreover have "take ?j (drop (length (e @ h) - ?j) (e @ h) @ x) = drop (length (e @ h) - ?j) (e @ h)"
          using False j by simp
        ultimately have "drop (length (e @ h) - ?j) (e @ h) = take ?j (take j m)" by simp
        then show ?thesis by (simp add: min_def)
      qed
      moreover have "?j < length m" "?j \<le> length (e @ h)" using False j by auto
      ultimately have "?j \<le> length h" using he m unfolding held_enough_def by blast
      with False show ?thesis by simp
    qed
  qed
qed

end

text \<open>The code's scan keeps the contract.\<close>

lemma no_hit_empty: "no_hit buf []"
  by (simp add: no_hit_def)

lemma occurs_boundary: "marker_ok m \<Longrightarrow> occurs m i s \<Longrightarrow> is_char_boundary s i"
  by (cases "i < length s") (auto simp: marker_ok_def occurs_iff is_char_boundary_def Cons_nth_drop_Suc [symmetric] split: list.splits)

lemma prefix_boundary:
  assumes "marker_ok m" and "drop (length s - j) s = take j m" and "0 < j" and "j \<le> length s"
  shows "is_char_boundary s (length s - j)"
proof -
  have "length s - j < length s" using assms by simp
  with assms have "s ! (length s - j) = m ! 0"
    by (metis Cons_nth_drop_Suc marker_ok_not_empty neq_Nil_conv nth_Cons_0 take_Cons' less_numeral_extra(3) list.inject)
  with assms \<open>length s - j < length s\<close> show ?thesis
    by (auto simp: is_char_boundary_def marker_ok_def split: list.splits)
qed

interpretation fm: marker_scan find_marker marker_ok
proof unfold_locales
  fix ms buf at i safe assume ms: "list_all marker_ok ms" and f: "find_marker buf ms = (Some (at, i), safe)"
  have "hit_spec buf ms (Some (at, i))"
    using f best_marker_spec [of buf "[]" None ms] by (auto simp: find_marker_def hit_spec_def no_hit_empty split: option.splits)
  then have "first_hit buf ms at i" by (simp add: hit_spec_def)
  moreover have "safe = at" using f by (auto simp: find_marker_def split: option.splits)
  ultimately show "first_hit buf ms at i \<and> safe = at \<and> is_char_boundary buf at"
    using ms by (auto simp: first_hit_def list_all_length intro: occurs_boundary)
next
  fix ms buf safe assume ms: "list_all marker_ok ms" and f: "find_marker buf ms = (None, safe)"
  have s: "safe = length buf - foldl (hold_step buf) 0 ms" and n: "hit_spec buf ms None"
    using f best_marker_spec [of buf "[]" None ms] by (auto simp: find_marker_def hit_spec_def no_hit_empty split: option.splits)
  note h = hold_fold_spec [of 0 buf ms]
  have "held_enough ms buf (length buf - safe)"
    unfolding held_enough_def
  proof (intro ballI allI impI, elim conjE)
    fix m j assume "m \<in> set ms" "j < length m" "j \<le> length buf" "drop (length buf - j) buf = take j m"
    then show "j \<le> length buf - safe"
      using ms h prefix_boundary [of m buf j] by (cases j) (auto simp: s list_all_iff is_char_boundary_def)
  qed
  then show "no_hit buf ms \<and> safe \<le> length buf \<and> is_char_boundary buf safe \<and> held_enough ms buf (length buf - safe)"
    using n h by (auto simp: s hit_spec_def is_char_boundary_def)
qed (rule marker_ok_not_empty)

end
