(* ===== verification/StopStrings.thy ===== *)
theory StopStrings
  imports Markers "HOL-Library.Char_ord" "HOL-Library.List_Lexorder"
begin

text \<open>
  The stop-string filter of one request, \<open>engine/src/stopstr.rs\<close>: decoded pieces go in,
  the bytes that can no longer be part of a stop string come out, a tail that still may
  become one is held back, and the first completed stop ends the answer.
\<close>

section \<open>The filter\<close>

record stop_filter =
  stops :: "str list"
  held :: str
  matched :: "str option"
  matched_at :: nat
  emitted :: nat
  dropped :: nat

definition stop_order :: "str \<Rightarrow> str \<Rightarrow> ordering" where
  "stop_order a b = ord_then (cmp (length b) (length a)) (cmp a b)"

definition stop_new :: "str list \<Rightarrow> stop_filter" where
  "stop_new ss = \<lparr>stops = sort_by stop_order (filter (\<lambda>s. s \<noteq> []) ss), held = [], matched = None,
     matched_at = 0, emitted = 0, dropped = 0\<rparr>"

definition active :: "stop_filter \<Rightarrow> bool" where
  "active f = (stops f \<noteq> [])"

definition hit :: "stop_filter \<Rightarrow> bool" where
  "hit f = (matched f \<noteq> None)"

definition push :: "stop_filter \<Rightarrow> str \<Rightarrow> str \<times> stop_filter" where
  "push f piece =
    (if matched f \<noteq> None then ([], f\<lparr>dropped := dropped f + length piece\<rparr>)
     else if stops f = [] then (piece, f)
     else (let buf = held f @ piece; f1 = f\<lparr>held := []\<rparr> in
       case find_marker buf (stops f) of
         (Some (at, i), _) \<Rightarrow>
           (take at buf, f1\<lparr>matched := Some (stops f ! i), matched_at := emitted f + at,
              dropped := dropped f + (length buf - at), emitted := emitted f + at\<rparr>)
       | (None, safe) \<Rightarrow>
           (take safe buf, f1\<lparr>held := drop safe buf, emitted := emitted f + length (take safe buf)\<rparr>)))"

definition flush :: "stop_filter \<Rightarrow> str \<times> stop_filter" where
  "flush f = (if matched f \<noteq> None then ([], f)
     else (held f, f\<lparr>held := [], emitted := emitted f + length (held f)\<rparr>))"

text \<open>The pieces of a generation in order, and the answer: every emission, then the flush.\<close>

fun push_all :: "stop_filter \<Rightarrow> str list \<Rightarrow> str \<times> stop_filter" where
  "push_all f [] = ([], f)"
| "push_all f (p # ps) = (let (o1, f1) = push f p; (o2, f2) = push_all f1 ps in (o1 @ o2, f2))"

definition answer :: "str list \<Rightarrow> str list \<Rightarrow> str" where
  "answer ss ps = (let (out, f) = push_all (stop_new ss) ps in out @ fst (flush f))"

section \<open>The order of the stop list\<close>

lemma sorted_insert_by:
  "sorted_wrt (\<lambda>a b. length b \<le> length a) xs \<Longrightarrow> sorted_wrt (\<lambda>a b. length b \<le> length a) (insert_by stop_order x xs)"
proof (induction xs)
  case (Cons y ys)
  have "length x \<le> length y" if "stop_order x y = Greater" using that by (auto simp: stop_order_def ord_then_Greater)
  moreover have "length y \<le> length x" if "stop_order x y \<noteq> Greater"
    using that by (auto simp: stop_order_def ord_then_Greater)
  ultimately show ?case using Cons by fastforce
qed simp

lemma sorted_stops: "sorted_wrt (\<lambda>a b. length b \<le> length a) (sort_by stop_order xs)"
proof -
  have "sorted_wrt (\<lambda>a b. length b \<le> length a) (foldr (insert_by stop_order) xs [])"
    by (induction xs) (auto intro: sorted_insert_by)
  then show ?thesis by (simp add: sort_by_def)
qed

lemma stop_new_simps [simp]:
  "set (stops (stop_new ss)) = {s \<in> set ss. s \<noteq> []}" "held (stop_new ss) = []" "matched (stop_new ss) = None"
  "emitted (stop_new ss) = 0" "dropped (stop_new ss) = 0"
  by (auto simp: stop_new_def)

section \<open>The invariant of a run\<close>

text \<open>\<open>t\<close> is the text fed, \<open>out\<close> what left: before a match, and at the match.\<close>

definition streaming :: "stop_filter \<Rightarrow> str \<Rightarrow> str \<Rightarrow> bool" where
  "streaming f t out \<longleftrightarrow> matched f = None \<and> t = out @ held f \<and> no_hit t (stops f)
     \<and> held_enough (stops f) t (length (held f)) \<and> dropped f = 0 \<and> (stops f \<noteq> [] \<longrightarrow> emitted f = length out)
     \<and> (stops f = [] \<longrightarrow> held f = [])"

definition ended :: "stop_filter \<Rightarrow> str \<Rightarrow> str \<Rightarrow> str \<Rightarrow> bool" where
  "ended f s t out \<longleftrightarrow> (\<exists>at i. first_hit s (stops f) at i \<and> matched f = Some (stops f ! i) \<and> out = take at s
     \<and> matched_at f = at \<and> emitted f = at \<and> held f = [] \<and> (\<exists>r. t = s @ r) \<and> dropped f = length t - at)"

lemma push_stops [simp]: "stops (snd (push f x)) = stops f"
  by (auto simp: push_def Let_def split: prod.splits option.splits)

lemma push_streaming:
  assumes ok: "list_all marker_ok (stops f)" and s: "streaming f t out"
  shows "streaming (snd (push f x)) (t @ x) (out @ fst (push f x))
    \<or> ended (snd (push f x)) (t @ x) (t @ x) (out @ fst (push f x))"
proof (cases "stops f = []")
  case True
  with s show ?thesis by (auto simp: push_def streaming_def no_hit_empty held_enough_def)
next
  case ne: False
  have n: "no_hit (out @ held f) (stops f)" and he: "held_enough (stops f) (out @ held f) (length (held f))"
    and t: "t = out @ held f" and m: "matched f = None" and e: "emitted f = length out" "dropped f = 0"
    using s ne by (auto simp: streaming_def)
  obtain r safe where r: "find_marker (held f @ x) (stops f) = (r, safe)" by force
  show ?thesis
  proof (cases r)
    case None
    note f = fm.feed_miss [OF ok n he r [unfolded None]]
    define b where "b = held f @ x"
    have "no_hit (out @ b) (stops f)" "held_enough (stops f) (out @ b) (length b - safe)" "safe \<le> length b"
      using f fm.scan_miss [OF ok r [unfolded None]] by (simp_all add: b_def)
    then show ?thesis using ne m e r None by (simp add: push_def Let_def streaming_def t b_def [symmetric])
  next
    case (Some p)
    obtain a i where p: "p = (a, i)" by force
    note f = fm.feed_hit [OF ok n he r [unfolded Some p]]
    from fm.scan_hit [OF ok r [unfolded Some p]] have "a \<le> length (held f @ x)" by (auto simp: first_hit_def)
    with f ne m e r Some p show ?thesis
      by (auto simp: push_def Let_def ended_def t intro!: exI [of _ "length out + a"] exI [of _ i])
  qed
qed

lemma push_ended: "ended f s t out \<Longrightarrow> ended (snd (push f x)) s (t @ x) (out @ fst (push f x))"
  by (auto simp: ended_def push_def first_hit_def)

text \<open>The first prefix of the pieces whose text holds a stop decides.\<close>

lemma push_all_spec:
  assumes "list_all marker_ok (stops f)" and "streaming f t out"
  shows "(let (o1, g) = push_all f ps in stops g = stops f \<and>
    (streaming g (t @ concat ps) (out @ o1) \<or>
     (\<exists>n < length ps. no_hit (t @ concat (take n ps)) (stops f) \<and>
        ended g (t @ concat (take (Suc n) ps)) (t @ concat ps) (out @ o1))))"
  using assms
proof (induction ps arbitrary: f t out)
  case Nil
  then show ?case by simp
next
  case (Cons p ps)
  let ?f = "snd (push f p)" let ?o = "out @ fst (push f p)"
  have ended_on: "ended g s (t' @ concat ps') (o' @ fst (push_all g' ps')) \<and> stops g = stops g'"
    if "ended g' s t' o'" "g = snd (push_all g' ps')" for g' s t' o' g ps'
    using that
  proof (induction ps' arbitrary: g' t' o')
    case (Cons q qs)
    from Cons.IH [OF push_ended [OF Cons.prems(1)], of q] Cons.prems(2) show ?case
      by (auto simp: Let_def split: prod.splits)
  qed simp
  obtain o1 g where g: "push_all ?f ps = (o1, g)" by force
  from push_streaming [OF Cons.prems] show ?case
  proof
    assume s: "streaming ?f (t @ p) ?o"
    from Cons.IH [OF _ this] Cons.prems(1) g have
      "stops g = stops f \<and> (streaming g ((t @ p) @ concat ps) (?o @ o1) \<or>
       (\<exists>n < length ps. no_hit ((t @ p) @ concat (take n ps)) (stops f) \<and>
          ended g ((t @ p) @ concat (take (Suc n) ps)) ((t @ p) @ concat ps) (?o @ o1)))" by simp
    with g show ?case by (auto simp: Let_def split: prod.splits)
  next
    assume e: "ended ?f (t @ p) (t @ p) ?o"
    from ended_on [OF this, of g ps] g have "ended g (t @ p) ((t @ p) @ concat ps) (?o @ o1)" "stops g = stops f" by auto
    moreover have "no_hit t (stops f)" using Cons.prems(2) unfolding streaming_def by blast
    ultimately show ?case using g by (auto simp: Let_def split: prod.splits intro!: exI [of _ 0])
  qed
qed

lemma streaming_new: "streaming (stop_new ss) [] []"
proof -
  have "\<not> occurs m 0 []" if "m \<noteq> []" for m using that by (simp add: occurs_def)
  then show ?thesis by (auto simp: streaming_def no_hit_def held_enough_def stop_new_def)
qed

lemma stops_ok: "list_all (\<lambda>s. s = [] \<or> marker_ok s) ss \<Longrightarrow> list_all marker_ok (stops (stop_new ss))"
  by (auto simp: list_all_iff)

lemma run_spec:
  assumes ok: "list_all (\<lambda>s. s = [] \<or> marker_ok s) ss" and r: "push_all (stop_new ss) ps = (out, f)"
  shows "stops f = stops (stop_new ss)" and "streaming f (concat ps) out \<or> (\<exists>n < length ps.
      no_hit (concat (take n ps)) (stops (stop_new ss)) \<and> ended f (concat (take (Suc n) ps)) (concat ps) out)"
  using push_all_spec [OF stops_ok [OF ok] streaming_new, of ps] r by auto

text \<open>A stop string of the request is at position \<open>at\<close> of a text, and it is the longest of the
  earliest.\<close>

definition earliest_stop :: "str list \<Rightarrow> str \<Rightarrow> nat \<Rightarrow> str \<Rightarrow> bool" where
  "earliest_stop ss t at m \<longleftrightarrow> m \<in> set ss \<and> m \<noteq> [] \<and> occurs m at t
     \<and> (\<forall>m' \<in> set ss. m' \<noteq> [] \<longrightarrow> (\<forall>j < at. \<not> occurs m' j t) \<and> (occurs m' at t \<longrightarrow> length m' \<le> length m))"

definition stop_free :: "str list \<Rightarrow> str \<Rightarrow> bool" where
  "stop_free ss t \<longleftrightarrow> (\<forall>m \<in> set ss. m \<noteq> [] \<longrightarrow> (\<forall>j. \<not> occurs m j t))"

lemma stop_free_no_hit: "no_hit t (stops (stop_new ss)) \<longleftrightarrow> stop_free ss t"
  using occurs_length by (fastforce simp: no_hit_def stop_free_def)

lemma first_hit_earliest:
  assumes "first_hit t (stops (stop_new ss)) at i"
  shows "earliest_stop ss t at (stops (stop_new ss) ! i)"
proof -
  let ?ms = "stops (stop_new ss)"
  have i: "i < length ?ms" and o: "occurs (?ms ! i) at t" using assms by (simp_all add: first_hit_def)
  have mem: "?ms ! i \<in> set ?ms" using i by (rule nth_mem)
  have "length m \<le> length (?ms ! i)" if m: "m \<in> set ?ms" "occurs m at t" for m
  proof -
    obtain j where j: "j < length ?ms" "m = ?ms ! j" using m(1) unfolding in_set_conv_nth by blast
    with m(2) assms have "\<not> j < i" by (auto simp: first_hit_def)
    with j sorted_stops [of "filter (\<lambda>s. s \<noteq> []) ss"] show ?thesis
      by (cases "i = j") (auto simp: stop_new_def sorted_wrt_iff_nth_less)
  qed
  moreover have "?ms ! i \<in> set ss" "?ms ! i \<noteq> []" using mem by auto
  ultimately show ?thesis using o assms by (auto simp: earliest_stop_def first_hit_def)
qed

lemma stop_filter_run:
  assumes ok: "list_all (\<lambda>s. s = [] \<or> marker_ok s) ss" and r: "push_all (stop_new ss) ps = (out, f)"
  shows "(stop_free ss (concat ps) \<longrightarrow> answer ss ps = concat ps \<and> \<not> hit f \<and> dropped f = 0)
    \<and> (\<not> stop_free ss (concat ps) \<longrightarrow> (\<exists>n < length ps. \<exists>at m. stop_free ss (concat (take n ps))
        \<and> earliest_stop ss (concat (take (Suc n) ps)) at m
        \<and> answer ss ps = take at (concat (take (Suc n) ps)) \<and> matched f = Some m \<and> matched_at f = at
        \<and> length (answer ss ps) + dropped f = length (concat ps)))"
proof (cases "streaming f (concat ps) out")
  case True
  with run_spec(1) [OF ok r] have "stop_free ss (concat ps)" using stop_free_no_hit by (auto simp: streaming_def)
  with True r show ?thesis by (auto simp: answer_def streaming_def hit_def flush_def)
next
  case False
  with run_spec [OF ok r] obtain n where n: "n < length ps" "stop_free ss (concat (take n ps))"
    and e: "ended f (concat (take (Suc n) ps)) (concat ps) out" and st: "stops f = stops (stop_new ss)"
    using stop_free_no_hit by auto
  then obtain at i where h: "first_hit (concat (take (Suc n) ps)) (stops (stop_new ss)) at i" "matched f = Some (stops (stop_new ss) ! i)"
    "out = take at (concat (take (Suc n) ps))" "matched_at f = at" "held f = []" "dropped f = length (concat ps) - at"
    and x: "\<exists>x. concat ps = concat (take (Suc n) ps) @ x" by (auto simp: ended_def)
  note m = first_hit_earliest [OF h(1)]
  have le: "at \<le> length (concat (take (Suc n) ps))" using h(1) by (simp add: first_hit_def)
  have a: "answer ss ps = out" using r h by (simp add: answer_def flush_def)
  have "\<not> stop_free ss (concat ps)"
  proof -
    obtain r where "concat ps = concat (take (Suc n) ps) @ r" using x by blast
    moreover have "occurs (stops (stop_new ss) ! i) at (concat (take (Suc n) ps))" using m unfolding earliest_stop_def by blast
    ultimately have "occurs (stops (stop_new ss) ! i) at (concat ps)" by (simp only: occurs_left)
    moreover have "stops (stop_new ss) ! i \<in> set ss \<and> stops (stop_new ss) ! i \<noteq> []" using m by (simp add: earliest_stop_def)
    ultimately show ?thesis unfolding stop_free_def by (metis (no_types))
  qed
  moreover have "length (answer ss ps) + dropped f = length (concat ps)" unfolding a using h x le by auto
  moreover have "answer ss ps = take at (concat (take (Suc n) ps))" unfolding a by (rule h)
  moreover from calculation have "\<exists>n < length ps. \<exists>at m. stop_free ss (concat (take n ps))
        \<and> earliest_stop ss (concat (take (Suc n) ps)) at m
        \<and> answer ss ps = take at (concat (take (Suc n) ps)) \<and> matched f = Some m \<and> matched_at f = at
        \<and> length (answer ss ps) + dropped f = length (concat ps)"
    by (intro exI [of _ n] exI [of _ at] exI [of _ "stops (stop_new ss) ! i"] conjI n m h)
  ultimately show ?thesis by (simp only: simp_thms)
qed

section \<open>Properties\<close>

text \<open>C10: The answer is cut at the first stop string that the text completes, however the
  text is split into pieces. If the text holds no stop, every byte comes out (the flush
  releases what was held). Otherwise some piece completes the first stop: then exactly the
  bytes before the earliest stop of the text so far come out and nothing after it; the
  reported stop is the longest at that position, \<open>matched_at\<close> is its byte offset and
  \<open>dropped\<close> counts every byte of the text that was not sent.\<close>

theorem stop_filter_cuts_at_first_completed_stop:
  assumes ok: "list_all (\<lambda>s. s = [] \<or> marker_ok s) ss" and r: "push_all (stop_new ss) ps = (out, f)"
  shows "(stop_free ss (concat ps) \<longrightarrow> answer ss ps = concat ps \<and> \<not> hit f \<and> dropped f = 0)
    \<and> (\<not> stop_free ss (concat ps) \<longrightarrow> (\<exists>n < length ps. \<exists>at m. stop_free ss (concat (take n ps))
        \<and> earliest_stop ss (concat (take (Suc n) ps)) at m
        \<and> answer ss ps = take at (concat (take (Suc n) ps)) \<and> matched f = Some m \<and> matched_at f = at
        \<and> length (answer ss ps) + dropped f = length (concat ps)))"
  by (rule stop_filter_run [OF ok r])

definition demo_stops :: "str list" where "demo_stops = [''END'', '''', ''ENDE'']"
definition demo_pieces :: "str list" where "demo_pieces = [''abE'', ''N'', ''DEf'', ''g'']"

lemma demo_stop_ok: "list_all (\<lambda>s. s = [] \<or> marker_ok s) demo_stops"
  by (simp add: demo_stops_def marker_ok_def cont_byte_def)

lemma demo_stop_run:
  "push_all (stop_new demo_stops) demo_pieces = (''ab'',
    \<lparr>stops = [''ENDE'', ''END''], held = [], matched = Some ''ENDE'', matched_at = 2, emitted = 2, dropped = 6\<rparr>)"
  by code_simp

lemma demo_stop_half:
  "push_all (stop_new demo_stops) [''abE'', ''N''] = (''ab'',
    \<lparr>stops = [''ENDE'', ''END''], held = ''EN'', matched = None, matched_at = 0, emitted = 2, dropped = 0\<rparr>)"
  by code_simp

lemma demo_not_free: "\<not> stop_free demo_stops (concat demo_pieces)"
  by (auto simp: stop_free_def occurs_def demo_stops_def demo_pieces_def intro!: exI [of _ 2])

theorem stop_filter_cuts_at_first_completed_stop_witness:
  "\<exists>n < length demo_pieces. \<exists>at. earliest_stop demo_stops (concat (take (Suc n) demo_pieces)) at ''ENDE''
     \<and> answer demo_stops demo_pieces = take at (concat (take (Suc n) demo_pieces))"
  using stop_filter_cuts_at_first_completed_stop [OF demo_stop_ok demo_stop_run] demo_not_free by auto

text \<open>No half of a stop string is ever sent: as long as no stop matched, no byte that
  already left belongs to an occurrence of any stop in any continuation of the text, and
  the bytes sent and held are exactly the bytes fed.\<close>

theorem stop_filter_sends_no_part_of_a_stop:
  assumes ok: "list_all (\<lambda>s. s = [] \<or> marker_ok s) ss" and r: "push_all (stop_new ss) ps = (out, f)" and h: "\<not> hit f"
    and m: "m \<in> set ss" "m \<noteq> []" and o: "occurs m at (concat ps @ later)"
  shows "length out \<le> at \<and> out @ held f = concat ps"
proof -
  have "\<not> ended f s t out" for s t using h by (auto simp: ended_def hit_def)
  with run_spec [OF ok r] have s: "streaming f (concat ps) out" and st: "stops f = stops (stop_new ss)" by auto
  then have n: "no_hit (out @ held f) (stops (stop_new ss))" "held_enough (stops (stop_new ss)) (out @ held f) (length (held f))"
    and t: "concat ps = out @ held f" by (auto simp: streaming_def)
  have "\<not> at < length out"
    using fm.no_early_occurrence [OF stops_ok [OF ok] n, of m at later] m o by (auto simp: t)
  then show ?thesis by (simp add: t)
qed

theorem stop_filter_sends_no_part_of_a_stop_witness:
  "length ''ab'' \<le> (2 :: nat) \<and> ''ab'' @ ''EN'' = concat [''abE'', ''N'']"
  using stop_filter_sends_no_part_of_a_stop [OF demo_stop_ok demo_stop_half, of "''ENDE''" 2 "''DEf''"]
  by (simp add: hit_def occurs_def demo_stops_def)

text \<open>Stops that do not begin inside one another.\<close>

definition unnested :: "str list \<Rightarrow> bool" where
  "unnested ss \<longleftrightarrow> (\<forall>m \<in> set ss. \<forall>m' \<in> set ss. m' \<noteq> [] \<longrightarrow> (\<forall>i. 0 < i \<longrightarrow> \<not> occurs m' i m))"

lemma unnested_iff: "unnested ss \<longleftrightarrow>
    list_all (\<lambda>m. list_all (\<lambda>m'. m' = [] \<or> list_all (\<lambda>i. \<not> occurs m' i m) [1..<Suc (length m)]) ss) ss"
proof
  show "unnested ss" if "list_all (\<lambda>m. list_all (\<lambda>m'. m' = [] \<or> list_all (\<lambda>i. \<not> occurs m' i m) [1..<Suc (length m)]) ss) ss"
    unfolding unnested_def
  proof (intro ballI impI allI notI)
    fix m m' i assume m: "m \<in> set ss" "m' \<in> set ss" "m' \<noteq> []" "0 < i" and o: "occurs m' i m"
    from o m(3) have "i + length m' \<le> length m" by (rule occurs_length)
    then have "i \<in> set [1..<Suc (length m)]" using m by auto
    with that m o show False unfolding list_all_iff by blast
  qed
qed (auto simp: unnested_def list_all_iff Suc_le_eq)

lemma earliest_stop_extends:
  assumes u: "unnested ss" and e: "earliest_stop ss t at m"
  shows "\<exists>m'. earliest_stop ss (t @ x) at m'"
proof -
  have no: "\<not> occurs m1 j (t @ x)" if m1: "m1 \<in> set ss" "m1 \<noteq> []" and j: "j < at" for m1 j
  proof
    assume o: "occurs m1 j (t @ x)"
    have m: "m \<in> set ss" "m \<noteq> []" and om: "occurs m at t" and none: "\<not> occurs m1 j t" using e m1 j by (auto simp: earliest_stop_def)
    have atm: "at + length m \<le> length t" using occurs_length om m(2) by blast
    have "length t < j + length m1"
    proof (rule ccontr)
      assume "\<not> length t < j + length m1"
      with none o show False by (simp add: occurs_def)
    qed
    then have d: "drop j t = take (length t - j) m1" using o atm j by (intro occurs_crossing) auto
    have "drop at t = drop (at - j) (take (length t - j) m1)" using j by (simp add: d [symmetric])
    with om have "occurs m (at - j) (take (length t - j) m1)" by (simp add: occurs_def)
    then have "occurs m (at - j) m1" using occurs_left by (metis append_take_drop_id)
    with u m1(1) m j show False by (auto simp: unnested_def)
  qed
  let ?C = "filter (\<lambda>m. m \<noteq> [] \<and> occurs m at (t @ x)) ss"
  have "m \<in> set ?C" using e by (simp add: earliest_stop_def occurs_left)
  then have "Max (length ` set ?C) \<in> length ` set ?C" by (intro Max_in) (auto simp del: set_filter)
  then obtain b where b: "b \<in> set ?C" "Max (length ` set ?C) = length b" by (rule imageE)
  have "length a \<le> length b" if "a \<in> set ?C" for a
  proof -
    have "finite (length ` set ?C)" by simp
    moreover have "length a \<in> length ` set ?C" using that by (rule imageI)
    ultimately show ?thesis unfolding b(2) [symmetric] by (rule Max_ge)
  qed
  with b(1) no have "earliest_stop ss (t @ x) at b" unfolding earliest_stop_def by simp
  then show ?thesis ..
qed

lemma earliest_stop_unique: "earliest_stop ss t a m \<Longrightarrow> earliest_stop ss t b m' \<Longrightarrow> a = b"
  by (auto simp: earliest_stop_def) (metis linorder_neqE_nat)

text \<open>The answer does not depend on how the model's text is cut into pieces, provided no
  stop string begins inside another one: two ways to split the same text give the same
  bytes on the wire.\<close>

theorem stop_filter_split_invariant:
  assumes ok: "list_all (\<lambda>s. s = [] \<or> marker_ok s) ss" and u: "unnested ss" and c: "concat ps = concat qs"
  shows "answer ss ps = answer ss qs"
proof (cases "stop_free ss (concat ps)")
  case True
  obtain o1 f1 o2 f2 where "push_all (stop_new ss) ps = (o1, f1)" "push_all (stop_new ss) qs = (o2, f2)" by force
  with stop_filter_run [OF ok] True c show ?thesis by metis
next
  case False
  have cut: "\<exists>at m. earliest_stop ss (concat xs) at m \<and> answer ss xs = take at (concat xs)" if "concat xs = concat ps" for xs
  proof -
    obtain o1 f1 where r: "push_all (stop_new ss) xs = (o1, f1)" by force
    have "\<not> stop_free ss (concat xs)" using False that by simp
    with stop_filter_run [OF ok r] obtain n at m where
      n: "earliest_stop ss (concat (take (Suc n) xs)) at m" "answer ss xs = take at (concat (take (Suc n) xs))"
      by blast
    obtain x where x: "concat xs = concat (take (Suc n) xs) @ x" by (metis append_take_drop_id concat_append)
    have "at \<le> length (concat (take (Suc n) xs))" using n(1) occurs_length by (fastforce simp: earliest_stop_def)
    then have "answer ss xs = take at (concat xs)" unfolding n(2) by (subst x) simp
    with earliest_stop_extends [OF u n(1), of x] show ?thesis unfolding x by blast
  qed
  from cut [OF refl] cut [OF c [symmetric]] c earliest_stop_unique show ?thesis by metis
qed

theorem stop_filter_split_invariant_witness:
  "answer [''END'', ''ENDE''] [''abE'', ''N'', ''DEf''] = answer [''END'', ''ENDE''] [''abENDEf'']"
proof -
  have "unnested [''END'', ''ENDE'']"
    unfolding unnested_iff by code_simp
  then show ?thesis by (intro stop_filter_split_invariant) (simp_all add: marker_ok_def cont_byte_def)
qed

text \<open>Without that proviso the split shows: a stop completed by one piece ends the answer
  before a longer one that began earlier can complete.\<close>

lemma stop_filter_split_visible:
  "answer [''bc'', ''abcX''] [''abcX''] = [] \<and> answer [''bc'', ''abcX''] [''abc'', ''X''] = ''a''"
  by code_simp

end
