(* ===== verification/SlotHeader.thy ===== *)
theory SlotHeader
  imports Prelude
begin

text \<open>
  The pure half of \<open>engine/src/slot.rs\<close>: the 136-byte head of a slot file and its checks,
  the file names a client may use, and the identity of a load. Every operator message is a
  constructor of \<open>slot_error\<close>; the values it prints are its arguments.
\<close>

section \<open>Little-endian words\<close>

definition le_bytes :: "nat \<Rightarrow> 'a::len word \<Rightarrow> u8 list" where
  "le_bytes n w = map (\<lambda>i. ucast (drop_bit (8 * i) w)) [0..<n]"

definition le_word :: "u8 list \<Rightarrow> 'a::len word" where
  "le_word bs = foldr (\<lambda>b acc. ucast b OR push_bit 8 acc) bs 0"

lemma length_le_bytes [simp]: "length (le_bytes n w) = n"
  by (simp add: le_bytes_def)

lemma bit_le_word:
  "bit (le_word bs :: 'a::len word) k \<longleftrightarrow> k < LENGTH('a) \<and> k div 8 < length bs \<and> bit (bs ! (k div 8)) (k mod 8)"
proof (induction bs arbitrary: k)
  case (Cons b bs)
  have st: "le_word (b # bs) = (ucast b OR push_bit 8 (le_word bs) :: 'a word)" by (simp add: le_word_def)
  show ?case
  proof (cases "k < 8")
    case True
    then show ?thesis by (auto simp: st bit_simps)
  next
    case False
    then obtain j where k: "k = j + 8" by (metis add.commute le_Suc_ex not_less)
    have "\<not> bit b k" using False by (auto dest: bit_imp_le_length)
    moreover have "(j + 8) div 8 = Suc (j div 8)" by simp
    ultimately show ?thesis using Cons [of j] by (auto simp: st bit_simps k dest: bit_imp_le_length)
  qed
qed (simp add: le_word_def)

lemma le_word_bytes: "LENGTH('a) \<le> 8 * n \<Longrightarrow> le_word (le_bytes n w) = (w :: 'a::len word)"
proof (rule bit_word_eqI)
  fix k assume n: "LENGTH('a) \<le> 8 * n" and k: "k < LENGTH('a)"
  then have "k div 8 < n" by simp
  moreover have "8 * (k div 8) + k mod 8 = k" by simp
  ultimately show "bit (le_word (le_bytes n w) :: 'a word) k = bit w k"
    using k by (simp add: bit_le_word le_bytes_def bit_simps)
qed

lemma le_bytes_word: "8 * length bs \<le> LENGTH('a) \<Longrightarrow> le_bytes (length bs) (le_word bs :: 'a::len word) = bs"
proof (rule nth_equalityI)
  fix i assume n: "8 * length bs \<le> LENGTH('a)" and i: "i < length (le_bytes (length bs) (le_word bs :: 'a word))"
  have "bit (le_bytes (length bs) (le_word bs :: 'a word) ! i) j = bit (bs ! i) j" if "j < 8" for j
    using i n that by (simp add: le_bytes_def bit_simps bit_le_word)
  then show "le_bytes (length bs) (le_word bs :: 'a word) ! i = bs ! i"
    by (intro bit_word_eqI) simp
qed simp

section \<open>The header\<close>

record header =
  format_version :: u64
  model_family :: u64
  geo_hash :: u64
  h_load_id :: u64
  n_ctx :: u64
  prompt_chunk :: u64
  qsa_ring_rows :: u64
  gdn_layers :: u64
  attn_layers :: u64
  kv_groups :: u64
  kv_row_bytes :: u64
  h_pooled_row_bytes :: u64
  state_bytes :: u64
  h_pos :: u64
  done_blocks :: u64
  history_len :: u64

datatype slot_error =
    ShortHead nat | BadMagic | NoFingerprint | BadVersion u64
  | WrongFamily u64 u64 | WrongGeometry u64 u64 | WrongShape str u64 u64
  | PositionZero | PositionOver u64 u64 | WrongBlocks u64 u64 | WrongHistory u64 u64 | PayloadOverflow
  | EmptyName | LongName nat | DirectoryName | BadByte char | DeviceName
  | CacheOff | NoPromptState | EmptyState | ShortHistory nat nat | StateBytes nat u64 | Io str | WroteOther u64 u64
  | PayloadSize u64 u64

definition MAGIC :: "u8 list" where
  "MAGIC = map of_char ''CROWSLT'' @ [1]"

definition FORMAT_VERSION :: u64 where "FORMAT_VERSION = 2"
definition FORMAT_VERSION_NO_FINGERPRINT :: u64 where "FORMAT_VERSION_NO_FINGERPRINT = 1"
definition HEADER_BYTES :: nat where "HEADER_BYTES = 8 + 16 * 8"

definition words :: "header \<Rightarrow> u64 list" where
  "words h = [format_version h, model_family h, geo_hash h, h_load_id h, n_ctx h, prompt_chunk h, qsa_ring_rows h, gdn_layers h,
     attn_layers h, kv_groups h, kv_row_bytes h, h_pooled_row_bytes h, state_bytes h, h_pos h, done_blocks h, history_len h]"

definition encode :: "header \<Rightarrow> u8 list" where
  "encode h = MAGIC @ concat (map (le_bytes 8) (words h))"

definition word_at :: "u8 list \<Rightarrow> nat \<Rightarrow> u64" where
  "word_at bytes i = le_word (take 8 (drop (8 + i * 8) bytes))"

definition decode :: "u8 list \<Rightarrow> slot_error + header" where
  "decode bytes =
    (if length bytes < HEADER_BYTES then Inl (ShortHead (length bytes))
     else if take 8 bytes \<noteq> MAGIC then Inl BadMagic
     else (let w = word_at bytes; version = w 0 in
       if version = FORMAT_VERSION_NO_FINGERPRINT then Inl NoFingerprint
       else (let h = \<lparr>format_version = version, model_family = w 1, geo_hash = w 2, h_load_id = w 3, n_ctx = w 4, prompt_chunk = w 5,
                 qsa_ring_rows = w 6, gdn_layers = w 7, attn_layers = w 8, kv_groups = w 9, kv_row_bytes = w 10,
                 h_pooled_row_bytes = w 11, state_bytes = w 12, h_pos = w 13, done_blocks = w 14, history_len = w 15\<rparr>
             in if format_version h \<noteq> FORMAT_VERSION then Inl (BadVersion (format_version h)) else Inr h)))"

definition payload_bytes_checked :: "header \<Rightarrow> u64 option" where
  "payload_bytes_checked h =
    Option.bind (Option.bind (checked_mul (kv_groups h) (h_pos h)) (\<lambda>x. checked_mul x (kv_row_bytes h))) (\<lambda>kv.
    Option.bind (Option.bind (checked_mul (attn_layers h) (done_blocks h)) (\<lambda>x. checked_mul x (h_pooled_row_bytes h))) (\<lambda>pooled.
    Option.bind (checked_mul (history_len h) 8) (\<lambda>ids.
    Option.bind (checked_add (state_bytes h) kv) (\<lambda>x. Option.bind (checked_add x pooled) (\<lambda>y. checked_add y ids)))))"

definition payload_bytes :: "header \<Rightarrow> u64" where
  "payload_bytes h = (case payload_bytes_checked h of Some n \<Rightarrow> n | None \<Rightarrow> - 1)"

definition file_bytes_checked :: "header \<Rightarrow> u64 option" where
  "file_bytes_checked h = Option.bind (payload_bytes_checked h) (\<lambda>p. checked_add p (of_nat HEADER_BYTES))"

definition file_bytes :: "header \<Rightarrow> u64" where
  "file_bytes h = (case file_bytes_checked h of Some n \<Rightarrow> n | None \<Rightarrow> - 1)"

definition shape_rows :: "header \<Rightarrow> header \<Rightarrow> (str \<times> u64 \<times> u64) list" where
  "shape_rows h live = [(''load id'', h_load_id h, h_load_id live), (''n_ctx'', n_ctx h, n_ctx live),
     (''prompt chunk'', prompt_chunk h, prompt_chunk live), (''QSA ring rows'', qsa_ring_rows h, qsa_ring_rows live),
     (''GDN layers'', gdn_layers h, gdn_layers live), (''attention layers'', attn_layers h, attn_layers live),
     (''KV groups'', kv_groups h, kv_groups live), (''KV row bytes'', kv_row_bytes h, kv_row_bytes live),
     (''pooled row bytes'', h_pooled_row_bytes h, h_pooled_row_bytes live), (''state bytes'', state_bytes h, state_bytes live)]"

definition shape_matches :: "header \<Rightarrow> header \<Rightarrow> slot_error option" where
  "shape_matches h live =
    (if model_family h \<noteq> model_family live then Some (WrongFamily (model_family h) (model_family live))
     else if geo_hash h \<noteq> geo_hash live then Some (WrongGeometry (geo_hash h) (geo_hash live))
     else map_option (\<lambda>(name, f, l). WrongShape name f l) (find (\<lambda>(name, f, l). f \<noteq> l) (shape_rows h live)))"

definition check_content :: "header \<Rightarrow> header \<Rightarrow> slot_error option" where
  "check_content h live =
    (if h_pos h = 0 then Some PositionZero
     else if n_ctx live < h_pos h then Some (PositionOver (h_pos h) (n_ctx live))
     else (let want = (if h_pooled_row_bytes live = 0 then 0 else h_pos h div 4) in
       if done_blocks h \<noteq> want then Some (WrongBlocks (done_blocks h) want)
       else if history_len h \<noteq> h_pos h then Some (WrongHistory (history_len h) (h_pos h))
       else if file_bytes_checked h = None then Some PayloadOverflow
       else None))"

section \<open>File names\<close>

definition is_upper :: "char \<Rightarrow> bool" where
  "is_upper c = (65 \<le> (of_char c :: nat) \<and> (of_char c :: nat) \<le> 90)"

definition is_lower :: "char \<Rightarrow> bool" where
  "is_lower c = (97 \<le> (of_char c :: nat) \<and> (of_char c :: nat) \<le> 122)"

definition to_upper :: "char \<Rightarrow> char" where
  "to_upper c = (if is_lower c then char_of ((of_char c :: nat) - 32) else c)"

definition plain_byte :: "char \<Rightarrow> bool" where
  "plain_byte b = (is_upper b \<or> is_lower b \<or> is_digit b \<or> b = CHR ''.'' \<or> b = CHR ''_'' \<or> b = CHR ''-'')"

definition reserved_device_name :: "str \<Rightarrow> bool" where
  "reserved_device_name name =
    (let base = map to_upper (takeWhile (\<lambda>c. c \<noteq> CHR ''.'') name) in
     if base \<in> {''CON'', ''PRN'', ''AUX'', ''NUL''} then True
     else length base = 4 \<and> (is_prefix ''COM'' base \<or> is_prefix ''LPT'' base) \<and> is_digit (base ! 3))"

definition sanitize_filename :: "str \<Rightarrow> slot_error + str" where
  "sanitize_filename name =
    (if name = [] then Inl EmptyName
     else if 255 < length name then Inl (LongName (length name))
     else if name = ''.'' \<or> name = ''..'' then Inl DirectoryName
     else (case find (\<lambda>b. \<not> plain_byte b) name of
        Some b \<Rightarrow> Inl (BadByte b)
      | None \<Rightarrow> if reserved_device_name name then Inl DeviceName else Inr name))"

section \<open>The identity of a load\<close>

definition load_id :: "str \<Rightarrow> nat \<Rightarrow> u64" where
  "load_id model_path n_hot = foldl (\<lambda>h b. (h XOR ucast b) * 0x100000001b3) 0xcbf29ce484222325
     (map of_char model_path @ le_bytes 8 (of_nat n_hot :: u64))"

section \<open>What the checks promise\<close>

lemma length_words [simp]: "length (words h) = 16"
  by (simp add: words_def)

lemma length_concat_same: "\<forall>x \<in> set xs. length x = n \<Longrightarrow> length (concat xs) = length xs * n"
  by (induction xs) auto

lemma take_drop_concat:
  assumes "\<forall>x \<in> set xs. length x = n" and "i < length xs"
  shows "take n (drop (i * n) (concat xs)) = xs ! i"
  using assms
proof (induction xs arbitrary: i)
  case (Cons x xs)
  show ?case
  proof (cases i)
    case 0
    then show ?thesis using Cons.prems by simp
  next
    case (Suc j)
    then have "drop (i * n) (concat (x # xs)) = drop (j * n) (concat xs)" using Cons.prems by simp
    with Suc Cons show ?thesis by simp
  qed
qed simp

lemma length_MAGIC [simp]: "length MAGIC = 8"
  by (simp add: MAGIC_def)

lemma length_encode [simp]: "length (encode h) = HEADER_BYTES"
  by (simp add: encode_def HEADER_BYTES_def length_concat_same [of _ 8])

lemma word_at_encode: "i < 16 \<Longrightarrow> word_at (encode h @ rest) i = words h ! i"
proof -
  assume i: "i < 16"
  have "drop (8 + i * 8) (encode h @ rest) = drop (i * 8) (concat (map (le_bytes 8) (words h))) @ rest"
    using i by (simp add: encode_def length_concat_same [of _ 8])
  moreover have "take 8 (drop (i * 8) (concat (map (le_bytes 8) (words h)))) = le_bytes 8 (words h ! i)"
    using i take_drop_concat [of "map (le_bytes 8) (words h)" 8 i] by simp
  moreover have "length (drop (i * 8) (concat (map (le_bytes 8) (words h)))) \<ge> 8"
    using i by (simp add: length_concat_same [of _ 8])
  ultimately show ?thesis by (simp add: word_at_def le_word_bytes)
qed

lemma bytes_from_words:
  assumes "HEADER_BYTES \<le> length bs" and "take 8 bs = MAGIC"
  shows "take HEADER_BYTES bs = MAGIC @ concat (map (\<lambda>i. le_bytes 8 (word_at bs i)) [0..<16])"
proof -
  have w: "le_bytes 8 (word_at bs i) = take 8 (drop (8 + i * 8) bs)" if "i < 16" for i
  proof -
    have "length (take 8 (drop (8 + i * 8) bs)) = 8" using assms(1) that by (simp add: HEADER_BYTES_def)
    then show ?thesis using le_bytes_word [where 'a = 64, of "take 8 (drop (8 + i * 8) bs)"] by (simp add: word_at_def)
  qed
  have c: "concat (map (\<lambda>i. take 8 (drop (8 + i * 8) bs)) [0..<n]) = take (8 * n) (drop 8 bs)" for n
  proof (induction n)
    case (Suc n)
    have e: "8 * Suc n = 8 * n + 8" by simp
    show ?case unfolding e take_add using Suc by (simp add: add.commute mult.commute)
  qed simp
  have "concat (map (\<lambda>i. le_bytes 8 (word_at bs i)) [0..<16]) = take (8 * 16) (drop 8 bs)"
    unfolding c [symmetric] by (intro arg_cong [where f = concat] map_cong refl w) simp
  then show ?thesis using assms(2) by (simp add: HEADER_BYTES_def take_add [of 8 128, simplified])
qed

lemma slot_header_roundtrip_fact:
  "decode (encode h @ rest) = (if format_version h = 1 then Inl NoFingerprint
       else if format_version h \<noteq> 2 then Inl (BadVersion (format_version h)) else Inr h)"
proof -
  have "take 8 (encode h @ rest) = MAGIC" by (simp add: encode_def)
  then show ?thesis
    by (simp add: decode_def Let_def word_at_encode words_def FORMAT_VERSION_def FORMAT_VERSION_NO_FINGERPRINT_def)
qed

text \<open>
  C23: The slot file head round-trips both ways. Encoding is 136 bytes and decodes to the same
  header when its version is this build's; a version-1 head is refused by name and any other
  version by number, whatever follows; and a head that decodes is, byte for byte, the
  encoding of what it decodes to.
\<close>

theorem slot_header_roundtrip:
  "length (encode h) = 136
   \<and> decode (encode h @ rest) = (if format_version h = 1 then Inl NoFingerprint
       else if format_version h \<noteq> 2 then Inl (BadVersion (format_version h)) else Inr h)
   \<and> (decode bs = Inr h \<longrightarrow> take 136 bs = encode h)"
proof (intro conjI impI)
  show "length (encode h) = 136" by (simp add: HEADER_BYTES_def)
  show "decode (encode h @ rest) = (if format_version h = 1 then Inl NoFingerprint
       else if format_version h \<noteq> 2 then Inl (BadVersion (format_version h)) else Inr h)" by (rule slot_header_roundtrip_fact)
next
  assume d: "decode bs = Inr h"
  then have l: "HEADER_BYTES \<le> length bs" "take 8 bs = MAGIC" by (auto simp: decode_def split: if_splits)
  have u: "[0..<16] = [0, 1, 2, 3, 4, 5, 6, 7, 8, 9, 10, 11, 12, 13, 14, 15 :: nat]" by code_simp
  have "words h = map (word_at bs) [0..<16]"
    unfolding u using d by (auto simp: decode_def Let_def words_def split: if_splits)
  then have "encode h = MAGIC @ concat (map (\<lambda>i. le_bytes 8 (word_at bs i)) [0..<16])" by (simp add: encode_def comp_def)
  with bytes_from_words [OF l] show "take 136 bs = encode h" by (simp add: HEADER_BYTES_def)
qed

definition demo_header :: header where
  "demo_header = \<lparr>format_version = 2, model_family = 1, geo_hash = 7, h_load_id = 9, n_ctx = 64, prompt_chunk = 8, qsa_ring_rows = 12,
     gdn_layers = 1, attn_layers = 1, kv_groups = 2, kv_row_bytes = 4, h_pooled_row_bytes = 16, state_bytes = 100, h_pos = 9,
     done_blocks = 2, history_len = 9\<rparr>"

lemma slot_header_roundtrip_witness: "decode (encode demo_header @ [1, 2, 3]) = Inr demo_header \<and> take 136 (encode demo_header @ [1, 2, 3]) = encode demo_header"
  using slot_header_roundtrip [of demo_header "[1, 2, 3]" "encode demo_header @ [1, 2, 3]"] by (simp add: demo_header_def)

text \<open>The exact sizes, as natural numbers.\<close>

definition payload_size :: "header \<Rightarrow> nat" where
  "payload_size h = unat (state_bytes h) + unat (kv_groups h) * unat (h_pos h) * unat (kv_row_bytes h)
     + unat (attn_layers h) * unat (done_blocks h) * unat (h_pooled_row_bytes h) + unat (history_len h) * 8"

lemma payload_bytes_exact:
  "payload_bytes_checked h = Some n \<Longrightarrow> unat n = payload_size h"
  by (auto simp: payload_bytes_checked_def bind_eq_Some_conv payload_size_def dest!: unat_checked_mul unat_checked_add)

lemma file_bytes_exact:
  "file_bytes_checked h = Some n \<Longrightarrow> unat n = HEADER_BYTES + payload_size h \<and> payload_bytes_checked h \<noteq> None"
  by (auto simp: file_bytes_checked_def bind_eq_Some_conv HEADER_BYTES_def dest: payload_bytes_exact dest!: unat_checked_add)

lemma payload_fits:
  assumes "unat (kv_groups h) * unat (h_pos h) < 2 ^ 64" and "unat (attn_layers h) * unat (done_blocks h) < 2 ^ 64"
    and "HEADER_BYTES + payload_size h < 2 ^ 64"
  shows "file_bytes_checked h = Some (of_nat (HEADER_BYTES + payload_size h))"
proof -
  let ?kv = "unat (kv_groups h) * unat (h_pos h) * unat (kv_row_bytes h)"
  let ?pl = "unat (attn_layers h) * unat (done_blocks h) * unat (h_pooled_row_bytes h)"
  have b: "?kv < 2 ^ 64" "?pl < 2 ^ 64" "unat (history_len h) * 8 < 2 ^ 64" "unat (state_bytes h) + ?kv < 2 ^ 64"
    "unat (state_bytes h) + ?kv + ?pl < 2 ^ 64" "unat (state_bytes h) + ?kv + ?pl + unat (history_len h) * 8 < 2 ^ 64"
    using assms(3) by (auto simp: payload_size_def)
  have "\<exists>n. payload_bytes_checked h = Some n"
    using assms b by (simp add: payload_bytes_checked_def checked_mul_def checked_add_def unat_word_ariths)
  then obtain n where n: "payload_bytes_checked h = Some n" by blast
  have "\<exists>m. file_bytes_checked h = Some m"
    using assms(3) n payload_bytes_exact [OF n] by (simp add: file_bytes_checked_def checked_add_def HEADER_BYTES_def)
  then obtain m where "file_bytes_checked h = Some m" by blast
  moreover have "of_nat (unat m) = m" by simp
  ultimately show ?thesis using file_bytes_exact by metis
qed

text \<open>
  C24: No header can name an upload past a buffer. A head that decodes and passes the shape and
  the content check against this load restores a position of 1 to the context length, at most
  a quarter of it in pooled blocks (none without pooled rows), exactly that many ids, and its
  payload size is the exact sum of its parts, nothing of it wrapped.
\<close>

theorem slot_checks_bound_uploads:
  assumes "decode bs = Inr h" and "shape_matches h live = None" and "check_content h live = None"
  shows "0 < unat (h_pos h) \<and> unat (h_pos h) \<le> unat (n_ctx live)
    \<and> unat (done_blocks h) \<le> unat (n_ctx live) div 4 \<and> history_len h = h_pos h
    \<and> unat (payload_bytes h) = unat (state_bytes live) + unat (kv_groups live) * unat (h_pos h) * unat (kv_row_bytes live)
        + unat (attn_layers live) * unat (done_blocks h) * unat (h_pooled_row_bytes live) + unat (h_pos h) * 8
    \<and> model_family h = model_family live \<and> geo_hash h = geo_hash live \<and> h_load_id h = h_load_id live"
proof -
  have c: "h_pos h \<noteq> 0" "\<not> n_ctx live < h_pos h" "done_blocks h = (if h_pooled_row_bytes live = 0 then 0 else h_pos h div 4)"
    "history_len h = h_pos h" "file_bytes_checked h \<noteq> None"
    using assms(3) by (auto simp: check_content_def Let_def split: if_splits)
  have s: "model_family h = model_family live" "geo_hash h = geo_hash live" "h_load_id h = h_load_id live"
    "kv_groups h = kv_groups live" "kv_row_bytes h = kv_row_bytes live" "attn_layers h = attn_layers live"
    "h_pooled_row_bytes h = h_pooled_row_bytes live" "state_bytes h = state_bytes live"
    using assms(2) by (auto simp: shape_matches_def shape_rows_def split: if_splits)
  have p: "0 < unat (h_pos h)" "unat (h_pos h) \<le> unat (n_ctx live)"
    using c(1,2) by (auto simp: unat_gt_0 word_less_nat_alt)
  have d: "unat (done_blocks h) \<le> unat (n_ctx live) div 4"
    using p(2) by (auto simp: c(3) unat_div div_le_mono)
  obtain n where "payload_bytes_checked h = Some n" using c(5) file_bytes_exact by blast
  then have "unat (payload_bytes h) = payload_size h" by (simp add: payload_bytes_def payload_bytes_exact)
  with c(4) s p d show ?thesis by (simp add: payload_size_def)
qed

lemma slot_checks_bound_uploads_witness:
  "decode (encode demo_header) = Inr demo_header \<and> unat (payload_bytes demo_header) = 100 + 2 * 9 * 4 + 1 * 2 * 16 + 9 * 8"
proof -
  have d: "decode (encode demo_header) = Inr demo_header"
    using slot_header_roundtrip [of demo_header "[]" "[]"] by (simp add: demo_header_def)
  have s: "shape_matches demo_header demo_header = None" by (simp add: shape_matches_def shape_rows_def)
  have c: "check_content demo_header demo_header = None"
    by (simp add: check_content_def Let_def demo_header_def file_bytes_checked_def payload_bytes_checked_def checked_mul_def
        checked_add_def HEADER_BYTES_def)
  from slot_checks_bound_uploads [OF d s c] d show ?thesis by (simp add: demo_header_def)
qed

text \<open>
  A file name a client sends stays in the slot directory. Exactly the names of 1 to 255
  plain bytes that are no directory name and no Windows device name are accepted, unchanged:
  so no accepted name has a separator or a NUL byte.
\<close>

theorem sanitize_filename_spec:
  "sanitize_filename name = Inr m \<longleftrightarrow> m = name \<and> name \<noteq> [] \<and> length name \<le> 255 \<and> name \<noteq> ''.'' \<and> name \<noteq> ''..''
     \<and> (\<forall>b \<in> set name. plain_byte b) \<and> \<not> reserved_device_name name"
  by (auto simp: sanitize_filename_def find_None_iff find_Some_iff split: option.splits if_splits)

lemma plain_byte_no_separator: "plain_byte b \<Longrightarrow> b \<noteq> CHR ''/'' \<and> b \<noteq> CHR 0x5C \<and> b \<noteq> CHR 0x00"
  by (auto simp: plain_byte_def is_upper_def is_lower_def is_digit_def)

lemma sanitize_filename_spec_witness:
  "sanitize_filename ''chat-1.slot'' = Inr ''chat-1.slot'' \<and> sanitize_filename ''nul.bin'' \<noteq> Inr ''nul.bin''
   \<and> sanitize_filename ''a/b'' \<noteq> Inr ''a/b''"
proof -
  have "list_all plain_byte ''chat-1.slot''" "\<not> reserved_device_name ''chat-1.slot''" "reserved_device_name ''nul.bin''"
    "\<not> plain_byte (CHR ''/'')" by code_simp+
  then show ?thesis unfolding sanitize_filename_spec by (simp add: list_all_iff)
qed

end
