(* ===== verification/PrefixCache.thy ===== *)
theory PrefixCache
  imports Prelude
begin

text \<open>
  The prefix cache of \<open>engine/src/cache.rs\<close>, the engine state it snapshots and restores
  (\<open>gen.rs\<close>, \<open>reset.rs\<close>), and the prompt part of one chat request
  (\<open>chat_generate\<close> of \<open>bin/serve.rs\<close>): detection, rollback, cold start, parking, snapshots.

  An f32 is its 32 bits and a device buffer is a value of the engine record. KV rows are
  indexed by group (layer, K or V, head) and position, pooled QSA blocks by layer and block.
  The park stash holds one list of rows per group where the code has one flat byte vector.
  The forward pass itself is GPU code: \<open>kernels\<close> is its interface, a parameter. Copies,
  stream synchronisation and timing have no other effect here. \<open>usize\<close> values are positions
  and counts below the context length, so they are \<open>nat\<close>. None is a panic.
\<close>

section \<open>Geometry\<close>

type_synonym f32 = "32 word"
type_synonym i64 = "64 word"
type_synonym group = "nat \<times> bool \<times> nat"

datatype kv_dtype = Fp8E4m3 | Bf16 | Q8Block

fun row_bytes :: "kv_dtype \<Rightarrow> nat \<Rightarrow> nat" where
  "row_bytes Fp8E4m3 head_dim = head_dim"
| "row_bytes Bf16 head_dim = head_dim * 2"
| "row_bytes Q8Block head_dim = head_dim + head_dim div 32 * 2"

datatype attn = Qsa nat nat nat | Full

record geo =
  g_attn :: attn
  g_attn_layers :: nat
  g_gdn_layers :: nat
  g_kv_heads :: nat
  g_head_dim :: nat
  g_gdn_value_heads :: nat
  g_gdn_key_dim :: nat
  g_gdn_value_dim :: nat
  g_gdn_conv :: nat
  g_conv_kernel :: nat
  g_ple :: bool
  g_residual_width :: nat
  g_vocab :: nat

text \<open>\<open>Qsa kv_heads head_dim compress\<close>: the raw indexer key width and the compress ratio.\<close>

fun hidd :: "attn \<Rightarrow> nat" where
  "hidd (Qsa heads dim c) = heads * dim"
| "hidd Full = 0"

fun compress :: "attn \<Rightarrow> nat" where
  "compress (Qsa heads dim c) = c"
| "compress Full = 0"

definition gdn_s_state_len :: "geo \<Rightarrow> nat" where
  "gdn_s_state_len g = g_gdn_value_heads g * g_gdn_key_dim g * g_gdn_value_dim g"

definition gdn_conv_state_len :: "geo \<Rightarrow> nat" where
  "gdn_conv_state_len g = g_gdn_conv g * (g_conv_kernel g - 1)"

definition ple_state_len :: "geo \<Rightarrow> nat" where
  "ple_state_len g = (if g_ple g then g_residual_width g * 9 else 0)"

definition kv_row_order :: "nat \<Rightarrow> nat \<Rightarrow> group list" where
  "kv_row_order attn_layers kv_heads =
    concat (map (\<lambda>l. concat (map (\<lambda>is_k. map (\<lambda>h. (l, is_k, h)) [0..<kv_heads]) [True, False])) [0..<attn_layers])"

definition groups :: "geo \<Rightarrow> group list" where
  "groups g = kv_row_order (g_attn_layers g) (g_kv_heads g)"

text \<open>Layers that have a QSA ring and pooled blocks: none under full attention.\<close>

definition qsa_layers :: "geo \<Rightarrow> nat" where
  "qsa_layers g = (case g_attn g of Qsa _ _ _ \<Rightarrow> g_attn_layers g | Full \<Rightarrow> 0)"

section \<open>Park sizes\<close>

definition PARK_ROWS_DEFAULT :: nat where "PARK_ROWS_DEFAULT = 8192"
definition SLOTS :: nat where "SLOTS = 3"
definition ANCHOR_MIN :: nat where "ANCHOR_MIN = 1024"

definition park_rows_cap :: "str option \<Rightarrow> nat" where
  "park_rows_cap var = (case Option.bind var (\<lambda>v. parse_usize (trim v)) of Some n \<Rightarrow> n | None \<Rightarrow> PARK_ROWS_DEFAULT)"

definition park_rows :: "nat \<Rightarrow> nat \<Rightarrow> nat" where
  "park_rows newest c = min newest c"

definition div_ceil :: "nat \<Rightarrow> nat \<Rightarrow> nat" where
  "div_ceil a b = a div b + (if a mod b = 0 then 0 else 1)"

definition park_blocks :: "nat \<Rightarrow> nat \<Rightarrow> nat \<Rightarrow> nat" where
  "park_blocks rows n_ctx c = min (rows div c + 1) (div_ceil n_ctx c)"

definition pooled_row_bytes :: "geo \<Rightarrow> nat" where
  "pooled_row_bytes g = (case g_attn g of Qsa _ _ _ \<Rightarrow> hidd (g_attn g) * 4 | Full \<Rightarrow> 0)"

definition park_host_bytes_rows :: "geo \<Rightarrow> nat \<Rightarrow> nat \<Rightarrow> nat \<Rightarrow> nat \<Rightarrow> nat" where
  "park_host_bytes_rows g rows n_ctx attn_layers kv_row_bytes =
    (let pooled = (case g_attn g of
        Qsa _ _ c \<Rightarrow> attn_layers * park_blocks rows n_ctx c * hidd (g_attn g) * 4
      | Full \<Rightarrow> 0)
     in rows * attn_layers * 2 * g_kv_heads g * kv_row_bytes + pooled)"

definition park_host_bytes :: "geo \<Rightarrow> nat \<Rightarrow> nat \<Rightarrow> nat \<Rightarrow> nat \<Rightarrow> nat" where
  "park_host_bytes g rows n_ctx attn_layers kv_value_bytes =
    park_host_bytes_rows g rows n_ctx attn_layers (g_head_dim g * kv_value_bytes)"

definition parked_usable :: "nat \<Rightarrow> nat \<Rightarrow> nat \<Rightarrow> bool" where
  "parked_usable p dirty rows = (min p dirty \<le> rows)"

datatype cold_plan = Park nat | Keep | Drop

section \<open>The detection rule\<close>

record image_span =
  sp_start :: nat
  sp_len :: nat
  sp_hash :: "u8 list"

definition common_prefix_len :: "i64 list \<Rightarrow> i64 list \<Rightarrow> nat" where
  "common_prefix_len a b = length (takeWhile (\<lambda>(x, y). x = y) (zip a b))"

definition common_prefix_len_mm :: "i64 list \<Rightarrow> image_span list \<Rightarrow> i64 list \<Rightarrow> image_span list \<Rightarrow> nat" where
  "common_prefix_len_mm a a_imgs b b_imgs =
    (let l = common_prefix_len a b;
         odd = concat (map (\<lambda>(mine, theirs). filter (\<lambda>sp. sp \<notin> set theirs) mine) [(a_imgs, b_imgs), (b_imgs, a_imgs)])
     in foldl min l (filter (\<lambda>s. s < l) (map sp_start odd)))"

fun reuse_from :: "nat \<Rightarrow> nat option list \<Rightarrow> bool list \<Rightarrow> nat \<Rightarrow> nat \<Rightarrow> (nat \<times> nat) option \<Rightarrow> (nat \<times> nat) option" where
  "reuse_from i [] logits l new_len best = best"
| "reuse_from i (None # ps) logits l new_len best = reuse_from (Suc i) ps logits l new_len best"
| "reuse_from i (Some p # ps) logits l new_len best =
    (let exact = (if i < length logits then logits ! i else False) in
     reuse_from (Suc i) ps logits l new_len
      (if l < p \<or> new_len < p \<or> (p = new_len \<and> \<not> exact) then best
       else (case best of
          Some (j, b) \<Rightarrow> if p \<le> b then best else Some (i, p)
        | None \<Rightarrow> Some (i, p))))"

definition reuse_slot_with_logits :: "nat option list \<Rightarrow> bool list \<Rightarrow> nat \<Rightarrow> nat \<Rightarrow> (nat \<times> nat) option" where
  "reuse_slot_with_logits positions logits l new_len = reuse_from 0 positions logits l new_len None"

definition reuse_slot :: "nat option list \<Rightarrow> nat \<Rightarrow> nat \<Rightarrow> (nat \<times> nat) option" where
  "reuse_slot positions l new_len = reuse_slot_with_logits positions [] l new_len"

record decision =
  d_l :: nat
  d_reuse :: "(nat \<times> nat) option"
  d_parked :: bool

definition cached_n :: "decision \<Rightarrow> nat" where
  "cached_n d = (case d_reuse d of Some (_, p) \<Rightarrow> p | None \<Rightarrow> 0)"

section \<open>The snapshots\<close>

record shape =
  sh_gdn_layers :: nat
  sh_attn_layers :: nat
  sh_ring_len :: nat
  sh_gdn_s_len :: nat
  sh_gdn_conv_len :: nat
  sh_ple_len :: nat

definition with_geo :: "geo \<Rightarrow> nat \<Rightarrow> nat \<Rightarrow> nat \<Rightarrow> shape" where
  "with_geo g gdn_layers attn_layers ring_rows = \<lparr>sh_gdn_layers = gdn_layers, sh_attn_layers = attn_layers,
     sh_ring_len = (case g_attn g of Qsa _ _ _ \<Rightarrow> ring_rows * hidd (g_attn g) | Full \<Rightarrow> 0),
     sh_gdn_s_len = gdn_s_state_len g, sh_gdn_conv_len = gdn_conv_state_len g, sh_ple_len = ple_state_len g\<rparr>"

definition snapshot_bytes :: "shape \<Rightarrow> nat" where
  "snapshot_bytes sh = 4 * (sh_gdn_layers sh * (sh_gdn_s_len sh + sh_gdn_conv_len sh) + sh_ple_len sh
     + sh_attn_layers sh * sh_ring_len sh)"

text \<open>The four recurrent buffers; the raw key ring as one list of rows per layer.\<close>

record recurrent =
  gdn_s :: "f32 list list"
  gdn_conv :: "f32 list list"
  ple_state :: "f32 list"
  qsa_ring :: "f32 list list list"

record snapshot =
  s_pos :: "nat option"
  s_clean :: bool
  s_done :: nat
  s_bufs :: recurrent
  s_logits :: "f32 list"
  s_greedy :: "nat option"
  s_parked :: bool
  s_head :: bool

definition zeros :: "nat \<Rightarrow> f32 list" where "zeros n = replicate n 0"

definition snapshot_new :: "geo \<Rightarrow> nat \<Rightarrow> shape \<Rightarrow> nat \<Rightarrow> snapshot" where
  "snapshot_new g ring_rows sh vocab = \<lparr>s_pos = None, s_clean = False, s_done = 0,
     s_bufs = \<lparr>gdn_s = replicate (sh_gdn_layers sh) (zeros (sh_gdn_s_len sh)),
       gdn_conv = replicate (sh_gdn_layers sh) (zeros (sh_gdn_conv_len sh)), ple_state = zeros (sh_ple_len sh),
       qsa_ring = replicate (if 0 < sh_ring_len sh then sh_attn_layers sh else 0) (replicate ring_rows (zeros (hidd (g_attn g))))\<rparr>,
     s_logits = zeros vocab, s_greedy = None, s_parked = False, s_head = False\<rparr>"

record parked =
  pk_history :: "i64 list"
  pk_images :: "image_span list"
  pk_rows :: nat
  pk_blocks :: nat
  pk_dirty :: nat

record prefix_cache =
  enabled :: bool
  cshape :: shape
  slots :: "snapshot list"
  park_cap :: nat
  cpark :: "parked option"
  park_kv :: "u8 list list list"
  park_pooled :: "u8 list list list"
  anchor :: bool

section \<open>The engine state\<close>

record engine =
  e_geo :: geo
  e_context :: nat
  e_ring_rows :: nat
  e_pos :: nat
  e_done :: nat
  e_history :: "i64 list"
  e_images :: "image_span list"
  e_route :: "nat list list list"
  e_bufs :: recurrent
  e_kv :: "group \<Rightarrow> nat \<Rightarrow> u8 list"
  e_pooled :: "nat \<Rightarrow> nat \<Rightarrow> u8 list"
  e_logits :: "f32 list"
  e_argmax :: nat
  e_graph :: bool

definition drop_decode_graph :: "engine \<Rightarrow> engine" where
  "drop_decode_graph e = e\<lparr>e_graph := False\<rparr>"

definition reset_to_zero :: "engine \<Rightarrow> engine" where
  "reset_to_zero e =
    (let e1 = drop_decode_graph e; b = e_bufs e;
         z_conv = zeros (gdn_conv_state_len (e_geo e)); z_ple = zeros (ple_state_len (e_geo e))
     in e1\<lparr>e_pos := 0, e_history := [], e_images := [], e_done := 0, e_route := [],
       e_bufs := b\<lparr>gdn_conv := map (\<lambda>_. z_conv) (gdn_conv b),
         ple_state := (if g_ple (e_geo e) then z_ple else ple_state b)\<rparr>\<rparr>)"

definition truncate_history_images :: "nat \<Rightarrow> engine \<Rightarrow> engine" where
  "truncate_history_images p e = e\<lparr>e_images := filter (\<lambda>sp. sp_start sp < p) (e_images e)\<rparr>"

text \<open>What one token of the forward pass leaves behind, prefill or decode.\<close>

record step_out =
  o_s :: "nat \<Rightarrow> f32 list"
  o_conv :: "nat \<Rightarrow> f32 list"
  o_ple :: "f32 list"
  o_ring :: "nat \<Rightarrow> f32 list"
  o_kv :: "group \<Rightarrow> u8 list"
  o_pooled :: "nat \<Rightarrow> u8 list"
  o_logits :: "f32 list"
  o_argmax :: nat

type_synonym input = "i64 \<times> image_span set"

text \<open>
  What a prefill token may depend on: the recurrent buffers, the raw key rows of the block
  not yet pooled, the KV rows and the pooled blocks below the position, and the ids with
  the images that cover them, up to this one.
\<close>

record view =
  v_s :: "f32 list list"
  v_conv :: "f32 list list"
  v_ple :: "f32 list"
  v_ring :: "f32 list list list"
  v_kv :: "u8 list list list"
  v_pooled :: "u8 list list list"
  v_in :: "input list"

record kernels =
  k_prefill :: "view \<Rightarrow> step_out"
  k_decode :: "engine \<Rightarrow> i64 \<Rightarrow> step_out"

definition input_at :: "i64 list \<Rightarrow> image_span list \<Rightarrow> nat \<Rightarrow> input" where
  "input_at ids spans i = (ids ! i, set (filter (\<lambda>sp. sp_start sp \<le> i \<and> i < sp_start sp + sp_len sp) spans))"

definition inputs :: "i64 list \<Rightarrow> image_span list \<Rightarrow> input list" where
  "inputs ids spans = map (input_at ids spans) [0..<length ids]"

definition blocks_at :: "geo \<Rightarrow> nat \<Rightarrow> nat" where
  "blocks_at g n = (case g_attn g of Qsa _ _ c \<Rightarrow> n div c | Full \<Rightarrow> 0)"

definition kv_view :: "engine \<Rightarrow> nat \<Rightarrow> u8 list list list" where
  "kv_view e n = map (\<lambda>g. map (e_kv e g) [0..<n]) (groups (e_geo e))"

definition pooled_view :: "engine \<Rightarrow> nat \<Rightarrow> u8 list list list" where
  "pooled_view e b = map (\<lambda>l. map (e_pooled e l) [0..<b]) [0..<qsa_layers (e_geo e)]"

definition ring_view :: "geo \<Rightarrow> nat \<Rightarrow> f32 list list list \<Rightarrow> nat \<Rightarrow> f32 list list list" where
  "ring_view g ring_rows r n =
    map (\<lambda>l. map (\<lambda>j. r ! l ! (j mod ring_rows)) [n - n mod compress (g_attn g)..<n]) [0..<qsa_layers g]"

text \<open>The view of the engine at position \<open>n\<close>, \<open>xs\<close> the inputs below it.\<close>

definition view_of :: "engine \<Rightarrow> input list \<Rightarrow> view" where
  "view_of e xs = \<lparr>v_s = gdn_s (e_bufs e), v_conv = gdn_conv (e_bufs e), v_ple = (if g_ple (e_geo e) then ple_state (e_bufs e) else []),
     v_ring = ring_view (e_geo e) (e_ring_rows e) (qsa_ring (e_bufs e)) (length xs),
     v_kv = kv_view e (length xs), v_pooled = pooled_view e (blocks_at (e_geo e) (length xs)), v_in = xs\<rparr>"

text \<open>The state writes of one token at position \<open>e_pos\<close>: the recurrent buffers, the ring row,
  the KV row of every group, the logits row, and the pooled block that holds the position:
  when the position completes it, or (decode) always, garbage until it is complete.\<close>

definition write_step :: "bool \<Rightarrow> engine \<Rightarrow> step_out \<Rightarrow> engine" where
  "write_step always e out =
    (let n = e_pos e; rr = e_ring_rows e; b = e_bufs e in
     e\<lparr>e_bufs := \<lparr>gdn_s = map (o_s out) [0..<length (gdn_s b)], gdn_conv = map (o_conv out) [0..<length (gdn_conv b)],
         ple_state = (if g_ple (e_geo e) then o_ple out else ple_state b),
         qsa_ring = map (\<lambda>(l, rows). rows[n mod rr := o_ring out l]) (enumerate 0 (qsa_ring b))\<rparr>,
       e_kv := (\<lambda>g. (e_kv e g)(n := o_kv out g)),
       e_pooled := (if always \<or> (n + 1) mod compress (g_attn (e_geo e)) = 0
         then (\<lambda>l. (e_pooled e l)(blocks_at (e_geo e) n := o_pooled out l)) else e_pooled e),
       e_logits := o_logits out, e_argmax := o_argmax out\<rparr>)"

definition advance :: "engine \<Rightarrow> i64 \<Rightarrow> engine" where
  "advance e x = e\<lparr>e_pos := e_pos e + 1,
     e_done := (case g_attn (e_geo e) of Qsa _ _ _ \<Rightarrow> blocks_at (e_geo e) (e_pos e + 1) | Full \<Rightarrow> e_done e),
     e_history := e_history e @ [x]\<rparr>"

text \<open>One prefill token; at position 0 the recurrent state S is zeroed first.\<close>

definition prefill_token :: "kernels \<Rightarrow> image_span list \<Rightarrow> engine \<Rightarrow> i64 \<Rightarrow> engine" where
  "prefill_token K spans e x =
    (let e0 = (if e_pos e = 0 then e\<lparr>e_bufs := (e_bufs e)\<lparr>gdn_s := map (\<lambda>_. zeros (gdn_s_state_len (e_geo e))) (gdn_s (e_bufs e))\<rparr>\<rparr> else e);
         xs = inputs (e_history e0 @ [x]) spans;
         out = k_prefill K ((view_of e0 (take (e_pos e0) xs))\<lparr>v_in := xs\<rparr>)
     in advance (write_step False e0 out) x)"

definition prefill_chunk :: "kernels \<Rightarrow> image_span list \<Rightarrow> engine \<Rightarrow> i64 list \<Rightarrow> engine" where
  "prefill_chunk K spans e ids = foldl (prefill_token K spans) e ids"

text \<open>\<open>prefill_until\<close>: \<open>stop d\<close> is asked after every chunk but the last, \<open>d\<close> tokens done.
  The chunk size is positive. The result is the greedy id of the last row and the count.\<close>

function prefill_until :: "kernels \<Rightarrow> image_span list \<Rightarrow> nat \<Rightarrow> (nat \<Rightarrow> bool) \<Rightarrow> engine \<Rightarrow> i64 list \<Rightarrow> nat \<Rightarrow> nat \<times> nat \<times> engine" where
  "prefill_until K spans chunk stop e ids d =
    (if ids = [] \<or> chunk = 0 then (e_argmax e, d, e)
     else (let t = min (length ids) chunk; e1 = prefill_chunk K spans e (take t ids); rest = drop t ids in
       if rest \<noteq> [] \<and> stop (d + t) then (e_argmax e1, d + t, e1)
       else prefill_until K spans chunk stop e1 rest (d + t)))"
  by pat_completeness auto
termination
  by (relation "measure (\<lambda>(K, spans, chunk, stop, e, ids, d). length ids)") auto

declare prefill_until.simps [simp del]

text \<open>One plain decode step: the row, the block and the buffers are the decode path's.\<close>

definition decode_step :: "kernels \<Rightarrow> engine \<Rightarrow> i64 \<Rightarrow> engine" where
  "decode_step K e x = (let e1 = write_step True e (k_decode K e x) in
     e1\<lparr>e_pos := e_pos e + 1, e_history := e_history e @ [x], e_graph := True,
       e_done := (if compress (g_attn (e_geo e)) \<noteq> 0 \<and> (e_pos e + 1) mod compress (g_attn (e_geo e)) = 0
         then blocks_at (e_geo e) (e_pos e + 1) else e_done e)\<rparr>)"

section \<open>The cache operations\<close>

definition anchor_point :: "i64 list \<Rightarrow> i64 list \<Rightarrow> nat \<Rightarrow> nat option" where
  "anchor_point prompt turn cached =
    (if turn = [] then None
     else Option.bind (position (\<lambda>i. take (length turn) (drop i prompt) = turn) [0..<Suc (length prompt) - length turn])
       (\<lambda>b. if ANCHOR_MIN \<le> b \<and> cached < b \<and> b < length prompt then Some b else None))"

definition cache_new :: "engine \<Rightarrow> bool \<Rightarrow> bool \<Rightarrow> str option \<Rightarrow> prefix_cache" where
  "cache_new e on anchor_var park_var =
    (let an = (on \<and> anchor_var); g = e_geo e;
         sh = with_geo g (length (gdn_s (e_bufs e))) (g_attn_layers g) (e_ring_rows e)
     in \<lparr>enabled = on, cshape = sh,
       slots = (if on then replicate (SLOTS + (if an then 1 else 0)) (snapshot_new g (e_ring_rows e) sh (g_vocab g)) else []),
       park_cap = park_rows_cap park_var, cpark = None, park_kv = [], park_pooled = [], anchor = an\<rparr>)"

definition head_position :: "prefix_cache \<Rightarrow> nat option" where
  "head_position c = Option.bind (find (\<lambda>s. s_head s \<and> \<not> s_parked s \<and> s_pos s \<noteq> None) (slots c)) s_pos"

definition positions :: "prefix_cache \<Rightarrow> nat option list" where
  "positions c = map s_pos (slots c)"

definition reuse_candidates :: "prefix_cache \<Rightarrow> nat option list" where
  "reuse_candidates c = map (\<lambda>s. if s_clean s \<and> \<not> s_parked s then s_pos s else None) (slots c)"

definition parked_positions :: "prefix_cache \<Rightarrow> nat option list" where
  "parked_positions c = map (\<lambda>s. if s_parked s then s_pos s else None) (slots c)"

text \<open>The maximum of the positions held.\<close>

definition max_pos :: "nat option list \<Rightarrow> nat option" where
  "max_pos ps = (case List.map_filter id ps of [] \<Rightarrow> None | x # xs \<Rightarrow> Some (foldl max x xs))"

definition live_top :: "prefix_cache \<Rightarrow> nat option" where
  "live_top c = max_pos (reuse_candidates c)"

definition parked_candidates :: "prefix_cache \<Rightarrow> nat \<Rightarrow> nat option list" where
  "parked_candidates c dirty = (case cpark c of
     None \<Rightarrow> replicate (length (slots c)) None
   | Some pk \<Rightarrow> map (\<lambda>s. case s_pos s of
       Some p \<Rightarrow> if s_parked s \<and> s_clean s \<and> parked_usable p dirty (pk_rows pk) then Some p else None
     | None \<Rightarrow> None) (slots c))"

definition logits_held :: "prefix_cache \<Rightarrow> bool list" where
  "logits_held c = map (\<lambda>s. s_clean s \<and> s_greedy s \<noteq> None) (slots c)"

definition decide_mm :: "prefix_cache \<Rightarrow> i64 list \<Rightarrow> image_span list \<Rightarrow> i64 list \<Rightarrow> image_span list \<Rightarrow> bool \<Rightarrow> decision" where
  "decide_mm c history held_imgs ids imgs allow_exact =
    (if \<not> enabled c then \<lparr>d_l = 0, d_reuse = None, d_parked = False\<rparr>
     else (let l = common_prefix_len_mm history held_imgs ids imgs;
               logits = (if allow_exact then logits_held c else []);
               live = \<lparr>d_l = l, d_reuse = reuse_slot_with_logits (reuse_candidates c) logits l (length ids), d_parked = False\<rparr>
       in case cpark c of
         None \<Rightarrow> live
       | Some pk \<Rightarrow>
          (let lp = common_prefix_len_mm (pk_history pk) (pk_images pk) ids imgs;
               cands = parked_candidates c (max (pk_dirty pk) (length history))
           in case reuse_slot_with_logits cands logits lp (length ids) of
             Some (slot, p) \<Rightarrow> if cached_n live < p then \<lparr>d_l = lp, d_reuse = Some (slot, p), d_parked = True\<rparr> else live
           | None \<Rightarrow> live)))"

definition decide_for :: "prefix_cache \<Rightarrow> i64 list \<Rightarrow> i64 list \<Rightarrow> bool \<Rightarrow> decision" where
  "decide_for c history ids allow_exact = decide_mm c history [] ids [] allow_exact"

definition decide :: "prefix_cache \<Rightarrow> i64 list \<Rightarrow> i64 list \<Rightarrow> decision" where
  "decide c history ids = decide_for c history ids True"

definition prompt_slot :: "prefix_cache \<Rightarrow> (nat \<times> nat) option" where
  "prompt_slot c = (case slots c of
     [] \<Rightarrow> None
   | s # _ \<Rightarrow> if \<not> s_clean s \<or> s_parked s then None else map_option (\<lambda>p. (p, s_done s)) (s_pos s))"

text \<open>The blocks of the prompt slot in file order, each a flat list.\<close>

definition state_blocks :: "recurrent \<Rightarrow> f32 list list" where
  "state_blocks b = gdn_s b @ gdn_conv b @ [ple_state b] @ map concat (qsa_ring b)"

definition prompt_state_blocks :: "prefix_cache \<Rightarrow> f32 list list" where
  "prompt_state_blocks c = (case slots c of [] \<Rightarrow> [] | s # _ \<Rightarrow> state_blocks (s_bufs s))"

definition set_prompt_slot :: "prefix_cache \<Rightarrow> nat \<Rightarrow> nat \<Rightarrow> prefix_cache" where
  "set_prompt_slot c p done_blocks = (case slots c of
     [] \<Rightarrow> c
   | s # ss \<Rightarrow> c\<lparr>slots := s\<lparr>s_pos := Some p, s_clean := True, s_done := done_blocks, s_greedy := None, s_head := False\<rparr> # ss\<rparr>)"

definition forget :: "snapshot \<Rightarrow> snapshot" where
  "forget s = s\<lparr>s_pos := None, s_clean := False, s_greedy := None\<rparr>"

definition invalidate :: "prefix_cache \<Rightarrow> prefix_cache" where
  "invalidate c = c\<lparr>slots := map (\<lambda>s. (forget s)\<lparr>s_parked := False, s_head := False\<rparr>) (slots c), cpark := None\<rparr>"

definition note_written :: "prefix_cache \<Rightarrow> nat \<Rightarrow> prefix_cache" where
  "note_written c written = c\<lparr>cpark := map_option (\<lambda>pk. pk\<lparr>pk_dirty := max (pk_dirty pk) written\<rparr>) (cpark c)\<rparr>"

definition drop_live :: "prefix_cache \<Rightarrow> prefix_cache" where
  "drop_live c = c\<lparr>slots := map (\<lambda>s. if s_parked s then s else forget s) (slots c)\<rparr>"

definition plan_cold :: "prefix_cache \<Rightarrow> nat \<Rightarrow> nat \<Rightarrow> cold_plan" where
  "plan_cold c live_len new_len =
    (if \<not> enabled c \<or> park_cap c = 0 then Drop
     else (let live = Option.bind (live_top c) (\<lambda>t. if parked_usable t new_len (park_rows t (park_cap c)) then Some t else None);
               kept = Option.bind (cpark c) (\<lambda>pk. max_pos (parked_candidates c (max (max (pk_dirty pk) live_len) new_len)))
       in case (live, kept) of
         (Some t, None) \<Rightarrow> Park (park_rows t (park_cap c))
       | (Some t, Some k) \<Rightarrow> if k \<le> t then Park (park_rows t (park_cap c)) else Keep
       | (None, Some k) \<Rightarrow> Keep
       | (None, None) \<Rightarrow> Drop))"

definition apply_cold :: "prefix_cache \<Rightarrow> cold_plan \<Rightarrow> i64 list \<Rightarrow> image_span list \<Rightarrow> nat \<Rightarrow> prefix_cache" where
  "apply_cold c plan history images blocks = (case plan of
     Drop \<Rightarrow> invalidate c
   | Keep \<Rightarrow> note_written (drop_live c) (length history)
   | Park rows \<Rightarrow> c\<lparr>slots := map (\<lambda>s.
         if s_parked s \<or> \<not> s_clean s then (forget s)\<lparr>s_parked := False\<rparr>
         else if s_pos s \<noteq> None then s\<lparr>s_parked := True\<rparr> else s) (slots c),
       cpark := Some \<lparr>pk_history = history, pk_images = images, pk_rows = rows, pk_blocks = blocks, pk_dirty = 0\<rparr>\<rparr>)"

definition cold_start :: "prefix_cache \<Rightarrow> engine \<Rightarrow> nat \<Rightarrow> prefix_cache \<times> engine" where
  "cold_start c e new_len =
    (let plan = plan_cold c (length (e_history e)) new_len in
     case plan of
       Park rows \<Rightarrow>
        (let blocks = (case g_attn (e_geo e) of Qsa _ _ k \<Rightarrow> park_blocks rows (e_context e) k | Full \<Rightarrow> 0);
             c1 = c\<lparr>park_kv := kv_view e rows, park_pooled := pooled_view e blocks\<rparr>
         in (apply_cold c1 plan (e_history e) (e_images e) blocks, reset_to_zero (e\<lparr>e_history := [], e_images := []\<rparr>)))
     | _ \<Rightarrow> (apply_cold c plan (e_history e) (e_images e) 0, reset_to_zero (e\<lparr>e_history := [], e_images := []\<rparr>)))"

definition adopt_parked :: "prefix_cache \<Rightarrow> (parked \<times> prefix_cache) option" where
  "adopt_parked c = map_option (\<lambda>pk. (pk,
     (let c1 = drop_live (c\<lparr>cpark := None\<rparr>) in c1\<lparr>slots := map (\<lambda>s. s\<lparr>s_parked := False\<rparr>) (slots c1)\<rparr>))) (cpark c)"

text \<open>An upload of consecutive rows over the head of a device buffer.\<close>

definition upload :: "u8 list list \<Rightarrow> (nat \<Rightarrow> u8 list) \<Rightarrow> nat \<Rightarrow> u8 list" where
  "upload rows old = (\<lambda>i. if i < length rows then rows ! i else old i)"

definition upload_kv :: "(group \<times> u8 list list) list \<Rightarrow> (group \<Rightarrow> nat \<Rightarrow> u8 list) \<Rightarrow> group \<Rightarrow> nat \<Rightarrow> u8 list" where
  "upload_kv gs kv = foldl (\<lambda>k (g, rows). k(g := upload rows (k g))) kv gs"

definition upload_pooled :: "(nat \<times> u8 list list) list \<Rightarrow> (nat \<Rightarrow> nat \<Rightarrow> u8 list) \<Rightarrow> nat \<Rightarrow> nat \<Rightarrow> u8 list" where
  "upload_pooled ls pd = foldl (\<lambda>p (l, rows). p(l := upload rows (p l))) pd ls"

definition unpark :: "prefix_cache \<Rightarrow> engine \<Rightarrow> prefix_cache \<times> engine" where
  "unpark c e = (case adopt_parked c of
     None \<Rightarrow> (c, e)
   | Some (pk, c1) \<Rightarrow>
      (let e1 = drop_decode_graph e in
       (c1, e1\<lparr>e_kv := upload_kv (zip (groups (e_geo e)) (park_kv c)) (e_kv e1),
          e_pooled := upload_pooled (zip [0..<qsa_layers (e_geo e)] (park_pooled c)) (e_pooled e1),
          e_history := pk_history pk, e_images := pk_images pk\<rparr>)))"

text \<open>The slot a snapshot at position \<open>p\<close> goes into; it is moved to slot 0.\<close>

definition smallest_of :: "snapshot list \<Rightarrow> bool \<Rightarrow> bool \<Rightarrow> nat option" where
  "smallest_of ss parked_side head_first =
    (let side = filter (\<lambda>i. s_parked (ss ! i) = parked_side \<and> s_pos (ss ! i) \<noteq> None) [0..<length ss];
         by_pos = (\<lambda>i. case s_pos (ss ! i) of Some p \<Rightarrow> p | None \<Rightarrow> 0);
         least = (\<lambda>is. min_by (\<lambda>a b. by_pos b < by_pos a) is);
         anchors = least (filter (\<lambda>i. s_head (ss ! i)) side);
         others = least (filter (\<lambda>i. \<not> s_head (ss ! i)) side)
     in if head_first then (case anchors of Some i \<Rightarrow> Some i | None \<Rightarrow> others)
        else (case others of Some i \<Rightarrow> Some i | None \<Rightarrow> anchors))"

definition or_else :: "'a option \<Rightarrow> 'a option \<Rightarrow> 'a option" where
  "or_else a b = (case a of Some x \<Rightarrow> Some x | None \<Rightarrow> b)"

definition claim_index :: "prefix_cache \<Rightarrow> nat \<Rightarrow> bool \<Rightarrow> nat" where
  "claim_index c p head_slot =
    (let ss = slots c;
         same = position (\<lambda>s. \<not> s_parked s \<and> s_pos s = Some p) ss;
         free = position (\<lambda>s. s_pos s = None) ss;
         parked_n = length (filter s_parked ss);
         spare = (if 1 < parked_n then smallest_of ss True head_slot else None)
     in case or_else same (or_else free (or_else (smallest_of ss False head_slot)
         (or_else spare (smallest_of ss True head_slot)))) of Some i \<Rightarrow> i | None \<Rightarrow> 0)"

definition claim :: "prefix_cache \<Rightarrow> nat \<Rightarrow> bool \<Rightarrow> prefix_cache" where
  "claim c p head_slot =
    (let i = claim_index c p head_slot;
         ss = (slots c)[i := (slots c ! i)\<lparr>s_parked := False, s_head := head_slot\<rparr>];
         pk = (if list_ex s_parked ss then cpark c else None)
     in c\<lparr>slots := ss ! i # take i ss @ drop (Suc i) ss, cpark := pk\<rparr>)"

definition name_slot :: "snapshot \<Rightarrow> nat \<Rightarrow> bool \<Rightarrow> nat \<Rightarrow> nat option \<Rightarrow> snapshot" where
  "name_slot s p clean done_blocks greedy = s\<lparr>s_pos := Some p, s_clean := clean, s_done := done_blocks, s_greedy := greedy\<rparr>"

definition copy_bufs :: "engine \<Rightarrow> snapshot \<Rightarrow> snapshot" where
  "copy_bufs e s = s\<lparr>s_bufs := (e_bufs e)\<lparr>ple_state := (if g_ple (e_geo e) then ple_state (e_bufs e) else ple_state (s_bufs s))\<rparr>,
     s_logits := e_logits e\<rparr>"

definition snapshot_as :: "prefix_cache \<Rightarrow> engine \<Rightarrow> bool \<Rightarrow> nat \<Rightarrow> bool \<Rightarrow> prefix_cache" where
  "snapshot_as c e clean greedy head_slot =
    (if \<not> enabled c \<or> slots c = [] then c
     else (let c1 = claim c (e_pos e) head_slot in
       c1\<lparr>slots := name_slot (copy_bufs e (hd (slots c1))) (e_pos e) clean (e_done e) (Some greedy) # tl (slots c1)\<rparr>))"

definition take_snapshot :: "prefix_cache \<Rightarrow> engine \<Rightarrow> bool \<Rightarrow> nat \<Rightarrow> prefix_cache" where
  "take_snapshot c e clean greedy = snapshot_as c e clean greedy False"

definition snapshot_head :: "prefix_cache \<Rightarrow> engine \<Rightarrow> nat \<Rightarrow> prefix_cache" where
  "snapshot_head c e greedy = snapshot_as c e True greedy True"

definition rolled_back :: "prefix_cache \<Rightarrow> nat \<Rightarrow> nat \<Rightarrow> prefix_cache" where
  "rolled_back c slot written =
    (let c1 = note_written c written in
     case s_pos (slots c1 ! slot) of
       None \<Rightarrow> c1
     | Some p \<Rightarrow> c1\<lparr>slots := map (\<lambda>s. if \<not> s_parked s \<and> (case s_pos s of Some q \<Rightarrow> p < q | None \<Rightarrow> False) then forget s else s) (slots c1)\<rparr>)"

definition restore_logits :: "prefix_cache \<Rightarrow> engine \<Rightarrow> nat \<Rightarrow> (nat \<times> engine) option" where
  "restore_logits c e slot = map_option (\<lambda>g. (g, e\<lparr>e_logits := s_logits (slots c ! slot)\<rparr>)) (s_greedy (slots c ! slot))"

definition rollback :: "prefix_cache \<Rightarrow> engine \<Rightarrow> nat \<Rightarrow> (prefix_cache \<times> engine) option" where
  "rollback c e slot =
    (if slot < length (slots c) \<and> s_clean (slots c ! slot) then
       (case s_pos (slots c ! slot) of
          None \<Rightarrow> None
        | Some p \<Rightarrow>
           (let s = slots c ! slot; e1 = drop_decode_graph e;
                e2 = e1\<lparr>e_bufs := (s_bufs s)\<lparr>ple_state := (if g_ple (e_geo e) then ple_state (s_bufs s) else ple_state (e_bufs e))\<rparr>,
                  e_pos := p, e_done := s_done s, e_history := take p (e_history e)\<rparr>;
                e3 = (truncate_history_images p e2)\<lparr>e_route := []\<rparr>
            in Some (rolled_back c slot (length (e_history e)), e3)))
     else None)"

section \<open>The prompt part of a chat request\<close>

record prompt_cfg =
  pc_chunk :: nat
  pc_turn :: "i64 list option"
  pc_dump :: bool

text \<open>The prefill of the ids not cached, in one piece or stopped once at the head anchor.\<close>

definition prefill_with :: "kernels \<Rightarrow> prompt_cfg \<Rightarrow> (nat \<Rightarrow> bool) \<Rightarrow> prefix_cache \<Rightarrow> engine \<Rightarrow> i64 list \<Rightarrow> image_span list
    \<Rightarrow> nat \<Rightarrow> nat option \<Rightarrow> nat \<times> nat \<times> prefix_cache \<times> engine" where
  "prefill_with K cfg stop c e prompt imgs cached head = (case head of
     Some b \<Rightarrow>
      (let (g, d, e1) = prefill_until K imgs (pc_chunk cfg) stop e (drop cached (take b prompt)) 0 in
       if cached + d < b then (g, d, c, e1)
       else (let c1 = snapshot_head c e1 g;
                 (g2, d2, e2) = prefill_until K imgs (pc_chunk cfg) (\<lambda>n. stop (d + n)) e1 (drop b prompt) 0
             in (g2, d + d2, c1, e2)))
   | None \<Rightarrow> (let (g, d, e1) = prefill_until K imgs (pc_chunk cfg) stop e (drop cached prompt) 0 in (g, d, c, e1)))"

text \<open>
  \<open>chat_generate\<close> up to the snapshot after the prompt: the greedy id, the tokens prefilled,
  the cache and the engine. \<open>stop\<close> is the gone-client and shutdown probe of the prefill.
\<close>

definition chat_prompt :: "kernels \<Rightarrow> prompt_cfg \<Rightarrow> (nat \<Rightarrow> bool) \<Rightarrow> prefix_cache \<Rightarrow> engine \<Rightarrow> i64 list \<Rightarrow> image_span list
    \<Rightarrow> (nat \<times> nat \<times> prefix_cache \<times> engine) option" where
  "chat_prompt K cfg stop c e prompt imgs =
    (let plan = decide_mm c (e_history e) (e_images e) prompt imgs (\<not> pc_dump cfg) in
     case (case d_reuse plan of
         Some (slot, p) \<Rightarrow>
          (let (c1, e1) = (if d_parked plan then unpark c e else (c, e))
           in map_option (\<lambda>(c2, e2). (p, c2, e2)) (rollback c1 e1 slot))
       | None \<Rightarrow> (let (c1, e1) = cold_start c e (length prompt) in Some (0, c1, e1))) of
       None \<Rightarrow> None
     | Some (cached, c1, e1) \<Rightarrow>
        (let head = (if anchor c1 \<and> imgs = [] \<and> \<not> pc_dump cfg
               then Option.bind (pc_turn cfg) (\<lambda>turn. anchor_point prompt turn cached) else None)
         in case (case (d_reuse plan, pc_dump cfg) of
             (Some (slot, p), False) \<Rightarrow> if p = length prompt then map_option (\<lambda>(g, e2). (g, 0, c1, e2)) (restore_logits c1 e1 slot)
               else Some (prefill_with K cfg stop c1 e1 prompt imgs cached head)
           | _ \<Rightarrow> Some (prefill_with K cfg stop c1 e1 prompt imgs cached head)) of
           None \<Rightarrow> None
         | Some (next, n, c2, e2) \<Rightarrow>
            (let e3 = e2\<lparr>e_images := imgs\<rparr> in Some (next, n, take_snapshot c2 e3 True next, e3))))"

end
