(* ===== verification/PrefixCacheSafe.thy ===== *)
theory PrefixCacheSafe
  imports PrefixCache
begin

text \<open>
  The invariant of the prefix cache (spec 7.5 of the repository: the cache never changes the
  output). What a cold prefill of a list of inputs leaves is defined from the forward pass
  alone; every held snapshot, live or parked, then stands for such a state, and a request
  that reuses one ends in the state a cold prefill of its prompt ends in.
\<close>

section \<open>The cold state\<close>

text \<open>The forward pass output of the last of the inputs, over the outputs of all before it.\<close>

lemma blocks_at_0 [simp]: "blocks_at g 0 = 0"
  by (simp add: blocks_at_def split: attn.splits)

lemma blocks_less: "b < blocks_at g (length xs - Suc 0) \<Longrightarrow> min m (length xs - Suc 0) < length xs"
  by (cases xs) auto

function cold_out :: "kernels \<Rightarrow> geo \<Rightarrow> input list \<Rightarrow> step_out" where
  "cold_out K g xs = (let n = length xs - 1 in k_prefill K \<lparr>
     v_s = (if n = 0 then replicate (g_gdn_layers g) (zeros (gdn_s_state_len g))
       else map (o_s (cold_out K g (take n xs))) [0..<g_gdn_layers g]),
     v_conv = (if n = 0 then replicate (g_gdn_layers g) (zeros (gdn_conv_state_len g))
       else map (o_conv (cold_out K g (take n xs))) [0..<g_gdn_layers g]),
     v_ple = (if \<not> g_ple g then [] else if n = 0 then zeros (ple_state_len g) else o_ple (cold_out K g (take n xs))),
     v_ring = map (\<lambda>l. map (\<lambda>j. o_ring (cold_out K g (take (Suc j) xs)) l) [n - n mod compress (g_attn g)..<n]) [0..<qsa_layers g],
     v_kv = map (\<lambda>gr. map (\<lambda>i. o_kv (cold_out K g (take (Suc i) xs)) gr) [0..<n]) (groups g),
     v_pooled = map (\<lambda>l. map (\<lambda>b. o_pooled (cold_out K g (take (min (Suc b * compress (g_attn g)) n) xs)) l) [0..<blocks_at g n]) [0..<qsa_layers g],
     v_in = xs\<rparr>)"
  by pat_completeness auto
termination
  by (relation "measure (\<lambda>(K, g, xs). length xs)") (auto intro: blocks_less)

declare cold_out.simps [simp del]

text \<open>The buffers \<open>b\<close> are those a cold prefill of the first \<open>p\<close> inputs leaves.\<close>

definition bufs_cold :: "kernels \<Rightarrow> geo \<Rightarrow> nat \<Rightarrow> recurrent \<Rightarrow> input list \<Rightarrow> nat \<Rightarrow> bool" where
  "bufs_cold K g rr b xs p \<longleftrightarrow>
     length (gdn_s b) = g_gdn_layers g \<and> length (gdn_conv b) = g_gdn_layers g
     \<and> length (qsa_ring b) = qsa_layers g \<and> (\<forall>r \<in> set (qsa_ring b). length r = rr)
     \<and> (p > 0 \<longrightarrow> gdn_s b = map (o_s (cold_out K g (take p xs))) [0..<g_gdn_layers g])
     \<and> gdn_conv b = (if p = 0 then replicate (g_gdn_layers g) (zeros (gdn_conv_state_len g))
         else map (o_conv (cold_out K g (take p xs))) [0..<g_gdn_layers g])
     \<and> (g_ple g \<longrightarrow> ple_state b = (if p = 0 then zeros (ple_state_len g) else o_ple (cold_out K g (take p xs))))
     \<and> (\<forall>l < qsa_layers g. \<forall>j. p - p mod compress (g_attn g) \<le> j \<and> j < p \<longrightarrow>
          qsa_ring b ! l ! (j mod rr) = o_ring (cold_out K g (take (Suc j) xs)) l)"

definition kv_cold :: "kernels \<Rightarrow> geo \<Rightarrow> input list \<Rightarrow> nat \<Rightarrow> group \<Rightarrow> u8 list" where
  "kv_cold K g xs i gr = o_kv (cold_out K g (take (Suc i) xs)) gr"

definition pooled_cold :: "kernels \<Rightarrow> geo \<Rightarrow> input list \<Rightarrow> nat \<Rightarrow> nat \<Rightarrow> u8 list" where
  "pooled_cold K g xs b l = o_pooled (cold_out K g (take (Suc b * compress (g_attn g)) xs)) l"

definition rows_cold :: "kernels \<Rightarrow> engine \<Rightarrow> input list \<Rightarrow> nat \<Rightarrow> bool" where
  "rows_cold K e xs p \<longleftrightarrow>
     (\<forall>gr \<in> set (groups (e_geo e)). \<forall>i < p. e_kv e gr i = kv_cold K (e_geo e) xs i gr)
     \<and> (\<forall>l < qsa_layers (e_geo e). \<forall>b < blocks_at (e_geo e) p. e_pooled e l b = pooled_cold K (e_geo e) xs b l)"

definition logits_cold :: "kernels \<Rightarrow> geo \<Rightarrow> f32 list \<Rightarrow> nat \<Rightarrow> input list \<Rightarrow> nat \<Rightarrow> bool" where
  "logits_cold K g row greedy xs p \<longleftrightarrow>
     (p > 0 \<longrightarrow> row = o_logits (cold_out K g (take p xs)) \<and> greedy = o_argmax (cold_out K g (take p xs)))"

section \<open>The invariant\<close>

definition geo_ok :: "geo \<Rightarrow> nat \<Rightarrow> bool" where
  "geo_ok g rr \<longleftrightarrow> (case g_attn g of Qsa _ _ c \<Rightarrow> 0 < c \<and> c \<le> rr | Full \<Rightarrow> True)"

definition slot_cold :: "kernels \<Rightarrow> engine \<Rightarrow> input list \<Rightarrow> snapshot \<Rightarrow> nat \<Rightarrow> bool" where
  "slot_cold K e xs s p \<longleftrightarrow> p \<le> length xs \<and> s_clean s \<and> s_done s = blocks_at (e_geo e) p
     \<and> bufs_cold K (e_geo e) (e_ring_rows e) (s_bufs s) xs p
     \<and> (\<forall>gr. s_greedy s = Some gr \<longrightarrow> logits_cold K (e_geo e) (s_logits s) gr xs p)"

definition live_ok :: "kernels \<Rightarrow> engine \<Rightarrow> input list \<Rightarrow> snapshot \<Rightarrow> bool" where
  "live_ok K e xs s \<longleftrightarrow> (\<forall>p. \<not> s_parked s \<and> s_pos s = Some p \<longrightarrow> slot_cold K e xs s p \<and> rows_cold K e xs p)"

text \<open>Rows of a parked conversation: stashed below the cut, intact in the engine above what
  the requests since have written.\<close>

definition stash_ok :: "kernels \<Rightarrow> prefix_cache \<Rightarrow> engine \<Rightarrow> parked \<Rightarrow> nat \<Rightarrow> nat \<Rightarrow> bool" where
  "stash_ok K c e pk dirty p \<longleftrightarrow> (let g = e_geo e; xs = inputs (pk_history pk) (pk_images pk); k = compress (g_attn g) in
     (\<forall>j < length (groups g). \<forall>i < p.
        (i < pk_rows pk \<longrightarrow> park_kv c ! j ! i = kv_cold K g xs i (groups g ! j))
        \<and> (pk_rows pk \<le> i \<and> dirty \<le> i \<longrightarrow> e_kv e (groups g ! j) i = kv_cold K g xs i (groups g ! j)))
     \<and> (\<forall>l < qsa_layers g. \<forall>b < blocks_at g p.
        (b < pk_blocks pk \<longrightarrow> park_pooled c ! l ! b = pooled_cold K g xs b l)
        \<and> (pk_blocks pk \<le> b \<and> dirty div k < b \<longrightarrow> e_pooled e l b = pooled_cold K g xs b l)))"

definition stash_shape :: "prefix_cache \<Rightarrow> engine \<Rightarrow> parked \<Rightarrow> bool" where
  "stash_shape c e pk \<longleftrightarrow> length (park_kv c) = length (groups (e_geo e)) \<and> (\<forall>r \<in> set (park_kv c). length r = pk_rows pk)
     \<and> length (park_pooled c) = qsa_layers (e_geo e) \<and> (\<forall>r \<in> set (park_pooled c). length r = pk_blocks pk)
     \<and> (case g_attn (e_geo e) of Qsa _ _ k \<Rightarrow> pk_blocks pk = park_blocks (pk_rows pk) (e_context e) k | Full \<Rightarrow> pk_blocks pk = 0)
     \<and> length (pk_history pk) \<le> e_context e"

definition park_ok :: "kernels \<Rightarrow> prefix_cache \<Rightarrow> engine \<Rightarrow> bool" where
  "park_ok K c e \<longleftrightarrow> (case cpark c of
     None \<Rightarrow> (\<forall>s \<in> set (slots c). s_pos s \<noteq> None \<longrightarrow> \<not> s_parked s)
   | Some pk \<Rightarrow> stash_shape c e pk
       \<and> (\<forall>s \<in> set (slots c). \<forall>p. s_parked s \<and> s_pos s = Some p \<longrightarrow>
            slot_cold K e (inputs (pk_history pk) (pk_images pk)) s p
            \<and> stash_ok K c e pk (max (pk_dirty pk) (length (e_history e))) p))"

definition eng_ok :: "engine \<Rightarrow> bool" where
  "eng_ok e \<longleftrightarrow> geo_ok (e_geo e) (e_ring_rows e) \<and> e_pos e = length (e_history e) \<and> e_pos e \<le> e_context e
     \<and> e_done e = blocks_at (e_geo e) (e_pos e)
     \<and> length (gdn_s (e_bufs e)) = g_gdn_layers (e_geo e) \<and> length (gdn_conv (e_bufs e)) = g_gdn_layers (e_geo e)
     \<and> length (qsa_ring (e_bufs e)) = qsa_layers (e_geo e) \<and> (\<forall>r \<in> set (qsa_ring (e_bufs e)). length r = e_ring_rows e)"

definition cache_safe :: "kernels \<Rightarrow> prefix_cache \<Rightarrow> engine \<Rightarrow> input list \<Rightarrow> bool" where
  "cache_safe K c e xs \<longleftrightarrow> eng_ok e \<and> map fst xs = e_history e
     \<and> (\<forall>s \<in> set (slots c). live_ok K e xs s) \<and> park_ok K c e"

text \<open>The engine itself is in the cold state of the inputs \<open>xs\<close>.\<close>

definition engine_cold :: "kernels \<Rightarrow> engine \<Rightarrow> input list \<Rightarrow> bool" where
  "engine_cold K e xs \<longleftrightarrow> bufs_cold K (e_geo e) (e_ring_rows e) (e_bufs e) xs (length xs) \<and> rows_cold K e xs (length xs)
     \<and> e_pos e = length xs"

section \<open>Inputs\<close>

lemma length_inputs [simp]: "length (inputs ids spans) = length ids"
  by (simp add: inputs_def)

lemma fst_inputs [simp]: "map fst (inputs ids spans) = ids"
  by (simp add: inputs_def input_at_def comp_def map_nth)

lemma nth_inputs [simp]: "i < length ids \<Longrightarrow> inputs ids spans ! i = input_at ids spans i"
  by (simp add: inputs_def)

lemma take_inputs: "take n (inputs ids spans) = inputs (take n ids) spans"
  by (rule nth_equalityI) (auto simp: input_at_def)

lemma inputs_snoc: "inputs (ids @ [x]) spans = inputs ids spans @ [input_at (ids @ [x]) spans (length ids)]"
  by (rule nth_equalityI) (auto simp: nth_append input_at_def less_Suc_eq)

lemma inputs_truncate: "n \<le> length ids \<Longrightarrow> inputs (take n ids) (filter (\<lambda>sp. sp_start sp < n) spans) = inputs (take n ids) spans"
  by (rule nth_equalityI) (auto simp: input_at_def)

lemma common_prefix_take: "n \<le> common_prefix_len a b \<Longrightarrow> take n a = take n b"
proof (rule nth_equalityI)
  assume n: "n \<le> common_prefix_len a b"
  have l: "common_prefix_len a b \<le> length (zip a b)" unfolding common_prefix_len_def by (rule length_takeWhile_le)
  with n show "length (take n a) = length (take n b)" by simp
  fix i assume "i < length (take n a)"
  with n have "i < length (takeWhile (\<lambda>(x, y). x = y) (zip a b))" by (simp add: common_prefix_len_def)
  from takeWhile_zip_nth [OF this] \<open>i < length (take n a)\<close> show "take n a ! i = take n b ! i" by simp
qed

lemma foldl_min_le: "foldl min l xs \<le> l \<and> (\<forall>x \<in> set xs. foldl min l xs \<le> (x :: nat))"
proof (induction xs arbitrary: l)
  case (Cons y ys)
  from Cons [of "min l y"] show ?case by auto
qed simp

lemma common_prefix_mm_le: "common_prefix_len_mm a ai b bi \<le> common_prefix_len a b"
  unfolding common_prefix_len_mm_def Let_def using foldl_min_le by blast

lemma common_prefix_mm_spans:
  assumes "sp_start sp < common_prefix_len_mm a ai b bi"
  shows "sp \<in> set ai \<longleftrightarrow> sp \<in> set bi"
proof (rule ccontr)
  let ?l = "common_prefix_len a b"
  let ?odd = "concat (map (\<lambda>(mine, theirs). filter (\<lambda>sp. sp \<notin> set theirs) mine) [(ai, bi), (bi, ai)])"
  assume "\<not> ?thesis"
  then have "sp \<in> set ?odd" by auto
  moreover have "sp_start sp < ?l" using assms common_prefix_mm_le [of a ai b bi] by simp
  ultimately have "sp_start sp \<in> set (filter (\<lambda>s. s < ?l) (map sp_start ?odd))" by (simp del: concat.simps list.map)
  then have "common_prefix_len_mm a ai b bi \<le> sp_start sp"
    unfolding common_prefix_len_mm_def Let_def using foldl_min_le by blast
  with assms show False by simp
qed

text \<open>The detection rule is sound: equal inputs below the prefix length, images included.\<close>

lemma common_prefix_inputs:
  assumes "n \<le> common_prefix_len_mm a ai b bi"
  shows "take n (inputs a ai) = take n (inputs b bi)"
proof -
  have t: "take n a = take n b" using assms common_prefix_mm_le [of a ai b bi] by (intro common_prefix_take) simp
  then have l: "length (take n a) = length (take n b)" by simp
  show ?thesis
    unfolding take_inputs
  proof (rule nth_equalityI)
    fix i assume "i < length (inputs (take n a) ai)"
    then have i: "i < n" "i < length (take n a)" "i < length (take n b)" using l by auto
    have "sp \<in> set ai \<longleftrightarrow> sp \<in> set bi" if "sp_start sp \<le> i" for sp
      using that i(1) assms by (intro common_prefix_mm_spans [of sp a ai b bi]) simp
    then show "inputs (take n a) ai ! i = inputs (take n b) bi ! i" using i t by (auto simp: input_at_def)
  qed (use l in simp)
qed

section \<open>The forward pass from a cold state\<close>

lemma blocks_at_mono: "m \<le> n \<Longrightarrow> blocks_at g m \<le> blocks_at g n"
  by (auto simp: blocks_at_def div_le_mono split: attn.splits)

lemma block_below: "b < blocks_at g n \<Longrightarrow> Suc b * compress (g_attn g) \<le> n"
  by (auto simp: blocks_at_def split: attn.splits) (metis Suc_leI div_times_less_eq_dividend le_trans mult.commute mult_Suc mult_le_mono1 times_div_less_eq_dividend)

lemma kv_cold_prefix: "i < length xs \<Longrightarrow> kv_cold K g (xs @ ys) i gr = kv_cold K g xs i gr"
  by (simp add: kv_cold_def)

lemma pooled_cold_prefix: "b < blocks_at g (length xs) \<Longrightarrow> pooled_cold K g (xs @ ys) b l = pooled_cold K g xs b l"
  using block_below [of b g "length xs"] by (simp add: pooled_cold_def)

lemma kv_cold_take: "i < p \<Longrightarrow> kv_cold K g (take p xs) i gr = kv_cold K g xs i gr"
  by (simp add: kv_cold_def min_def)

lemma pooled_cold_take: "b < blocks_at g p \<Longrightarrow> pooled_cold K g (take p xs) b l = pooled_cold K g xs b l"
  using block_below [of b g p] by (simp add: pooled_cold_def min_def)

lemma rows_cold_mono: "rows_cold K e xs p \<Longrightarrow> q \<le> p \<Longrightarrow> rows_cold K e xs q"
  using blocks_at_mono [of q p "e_geo e"] by (auto simp: rows_cold_def)

lemma rows_cold_take: "p \<le> n \<Longrightarrow> rows_cold K e (take n xs) p = rows_cold K e xs p"
proof -
  assume p: "p \<le> n"
  have "kv_cold K g (take n xs) i gr = kv_cold K g xs i gr" if "i < p" for g i gr
    using that p by (simp add: kv_cold_def min_def)
  moreover have "pooled_cold K g (take n xs) b l = pooled_cold K g xs b l" if "b < blocks_at g p" for g b l
    using block_below [OF that] p by (simp add: pooled_cold_def min_def)
  ultimately show ?thesis by (auto simp: rows_cold_def)
qed

lemma bufs_cold_take: "p \<le> n \<Longrightarrow> bufs_cold K g rr b (take n xs) p = bufs_cold K g rr b xs p"
  by (auto simp: bufs_cold_def min_def)

lemma logits_cold_take: "p \<le> n \<Longrightarrow> logits_cold K g row gr (take n xs) p = logits_cold K g row gr xs p"
  by (auto simp: logits_cold_def min_def)

definition same_cfg :: "engine \<Rightarrow> engine \<Rightarrow> bool" where
  "same_cfg e e' \<longleftrightarrow> e_geo e' = e_geo e \<and> e_context e' = e_context e \<and> e_ring_rows e' = e_ring_rows e"

lemma same_cfg_trans: "same_cfg a b \<Longrightarrow> same_cfg b c \<Longrightarrow> same_cfg a c"
  by (simp add: same_cfg_def)

lemma slot_cold_take:
  "p \<le> n \<Longrightarrow> n \<le> length xs \<Longrightarrow> slot_cold K e (take n xs) s p = slot_cold K e xs s p"
  by (auto simp: slot_cold_def bufs_cold_take logits_cold_take)

lemma slot_cold_cfg: "same_cfg e e' \<Longrightarrow> slot_cold K e' xs s p = slot_cold K e xs s p"
  by (simp add: slot_cold_def same_cfg_def)

lemma slot_cold_append: "slot_cold K e xs s p \<Longrightarrow> slot_cold K e (xs @ ys) s p"
  using slot_cold_take [of p "length xs" "xs @ ys" K e s] by (auto simp: slot_cold_def)

lemma rows_cold_append: "p \<le> length xs \<Longrightarrow> rows_cold K e (xs @ ys) p = rows_cold K e xs p"
  using rows_cold_take [of p "length xs" K e "xs @ ys"] by simp

text \<open>What one token leaves alone: every row and every block but those of its position.\<close>

definition touched :: "engine \<Rightarrow> engine \<Rightarrow> bool" where
  "touched e e' \<longleftrightarrow> same_cfg e e' \<and> length (e_history e') = Suc (e_pos e)
     \<and> (\<forall>g i. i \<noteq> e_pos e \<longrightarrow> e_kv e' g i = e_kv e g i)
     \<and> (\<forall>l b. b \<noteq> blocks_at (e_geo e) (e_pos e) \<longrightarrow> e_pooled e' l b = e_pooled e l b)"

lemma rows_cold_touched: "touched e e' \<Longrightarrow> p \<le> e_pos e \<Longrightarrow> rows_cold K e' xs p = rows_cold K e xs p"
  using blocks_at_mono [of p "e_pos e" "e_geo e"] by (auto simp: rows_cold_def touched_def same_cfg_def)

lemma live_ok_touched:
  assumes "live_ok K e xs s" and "touched e e'" and "length xs = e_pos e"
  shows "live_ok K e' (xs @ ys) s"
  unfolding live_ok_def
proof (intro allI impI)
  fix p assume "\<not> s_parked s \<and> s_pos s = Some p"
  with assms(1) have s: "slot_cold K e xs s p" and r: "rows_cold K e xs p" by (auto simp: live_ok_def)
  have p: "p \<le> length xs" "p \<le> e_pos e" using s assms(3) by (auto simp: slot_cold_def)
  have "slot_cold K e' (xs @ ys) s p"
    using slot_cold_append [OF s] slot_cold_cfg [of e e'] assms(2) by (auto simp: touched_def)
  moreover have "rows_cold K e' (xs @ ys) p"
    using r p by (simp add: rows_cold_append rows_cold_touched [OF assms(2)])
  ultimately show "slot_cold K e' (xs @ ys) s p \<and> rows_cold K e' (xs @ ys) p" ..
qed

lemma stash_ok_dirtier:
  assumes s: "stash_ok K c e pk d p" and d: "d \<le> d'" and cfg: "same_cfg e e'"
    and kv: "\<And>g i. d' \<le> i \<Longrightarrow> e_kv e' g i = e_kv e g i"
    and pd: "\<And>l b. d' div compress (g_attn (e_geo e)) < b \<Longrightarrow> l < qsa_layers (e_geo e) \<Longrightarrow> e_pooled e' l b = e_pooled e l b"
  shows "stash_ok K c e' pk d' p"
proof -
  have "d div compress (g_attn (e_geo e)) \<le> d' div compress (g_attn (e_geo e))" using d by (rule div_le_mono)
  with s d cfg kv pd show ?thesis by (auto simp: stash_ok_def Let_def same_cfg_def)
qed

lemma park_ok_dirtier:
  assumes p: "park_ok K c e" and cfg: "same_cfg e e'" and h: "length (e_history e) \<le> n" and n: "n \<le> length (e_history e')"
    and kv: "\<And>g i. n \<le> i \<Longrightarrow> e_kv e' g i = e_kv e g i"
    and pd: "\<And>l b. n div compress (g_attn (e_geo e)) < b \<Longrightarrow> l < qsa_layers (e_geo e) \<Longrightarrow> e_pooled e' l b = e_pooled e l b"
  shows "park_ok K c e'"
proof (cases "cpark c")
  case None
  with p show ?thesis by (simp add: park_ok_def)
next
  case (Some pk)
  let ?d = "max (pk_dirty pk) (length (e_history e))" let ?d' = "max (pk_dirty pk) (length (e_history e'))"
  have sh: "stash_shape c e' pk" using p Some cfg by (simp add: park_ok_def stash_shape_def same_cfg_def cong: attn.case_cong)
  have dd: "?d \<le> ?d'" "n \<le> ?d'" using h n by auto
  then have k: "n div compress (g_attn (e_geo e)) \<le> ?d' div compress (g_attn (e_geo e))"
    "?d div compress (g_attn (e_geo e)) \<le> ?d' div compress (g_attn (e_geo e))" by (simp_all add: div_le_mono)
  have "stash_ok K c e' pk ?d' q" if "stash_ok K c e pk ?d q" for q
  proof (rule stash_ok_dirtier [OF that dd(1) cfg])
    show "e_kv e' g i = e_kv e g i" if "?d' \<le> i" for g i by (rule kv, rule le_trans [OF dd(2) that])
    show "e_pooled e' l b = e_pooled e l b" if "?d' div compress (g_attn (e_geo e)) < b" "l < qsa_layers (e_geo e)" for l b
      using that k(1) by (intro pd) simp_all
  qed
  with p Some sh cfg show ?thesis by (auto simp: park_ok_def slot_cold_cfg [of e e'])
qed

lemma park_ok_touched:
  assumes "park_ok K c e" and t: "touched e e'" and e: "eng_ok e"
  shows "park_ok K c e'"
proof (rule park_ok_dirtier [OF assms(1), where n = "Suc (e_pos e)"])
  show "e_pooled e' l b = e_pooled e l b"
    if "Suc (e_pos e) div compress (g_attn (e_geo e)) < b" "l < qsa_layers (e_geo e)" for l b
  proof -
    have "\<not> Suc (e_pos e) div k < e_pos e div k" for k by (rule leD, rule div_le_mono) simp
    with that have "b \<noteq> blocks_at (e_geo e) (e_pos e)" by (auto simp: blocks_at_def qsa_layers_def split: attn.splits)
    with t show ?thesis by (auto simp: touched_def)
  qed
qed (use t e in \<open>auto simp: touched_def eng_ok_def\<close>)

lemma blocks_at_Suc:
  assumes "geo_ok g rr" and "g_attn g = Qsa a b k"
  shows "blocks_at g (Suc n) = (if Suc n mod compress (g_attn g) = 0 then Suc (blocks_at g n) else blocks_at g n)"
  using assms by (auto simp: blocks_at_def geo_ok_def div_Suc)

lemma complete_block: "Suc n mod k = 0 \<Longrightarrow> 0 < k \<Longrightarrow> Suc (n div k) * k = Suc (n :: nat)"
  by (metis div_Suc mod_0_imp_dvd dvd_div_mult_self)

text \<open>The buffers and rows a prefill token writes extend the cold state by one input.\<close>

lemma ring_window_Suc:
  assumes k: "0 < k" and j: "Suc n - Suc n mod k \<le> j" "j < Suc n" "j \<noteq> n"
  shows "n - n mod k \<le> j \<and> j < n"
proof (cases "Suc n mod k = 0")
  case True
  with j show ?thesis by simp
next
  case False
  then have "Suc n mod k = Suc (n mod k)" by (simp add: mod_Suc split: if_splits)
  with j show ?thesis by simp
qed

lemma ring_row_kept:
  assumes k: "0 < k" "k \<le> rr" and j: "n - n mod k \<le> j" "j < n"
  shows "j mod rr \<noteq> n mod (rr :: nat)"
proof
  assume e: "j mod rr = n mod rr"
  have "n mod k < k" using k by simp
  with j k have "n - j < rr" "0 < n - j" by auto
  moreover have "(n - j) mod rr = 0" using mod_eq_dvd_iff_nat [of j n rr] e j by auto
  ultimately show False by simp
qed

lemma bufs_cold_step:
  assumes ok: "geo_ok g rr" and b: "bufs_cold K g rr b xs (length xs)"
  shows "bufs_cold K g rr \<lparr>gdn_s = map (o_s (cold_out K g (xs @ [x]))) [0..<length (gdn_s b)],
      gdn_conv = map (o_conv (cold_out K g (xs @ [x]))) [0..<length (gdn_conv b)],
      ple_state = (if g_ple g then o_ple (cold_out K g (xs @ [x])) else ple_state b),
      qsa_ring = map (\<lambda>(l, rows). rows[length xs mod rr := o_ring (cold_out K g (xs @ [x])) l]) (enumerate 0 (qsa_ring b))\<rparr>
     (xs @ [x]) (length (xs @ [x]))"
proof -
  let ?n = "length xs" let ?o = "cold_out K g (xs @ [x])" let ?k = "compress (g_attn g)"
  have lr: "length (qsa_ring b) = qsa_layers g" "\<forall>r \<in> set (qsa_ring b). length r = rr" using b by (auto simp: bufs_cold_def)
  have ring: "map (\<lambda>(l, rows). rows[?n mod rr := o_ring ?o l]) (enumerate 0 (qsa_ring b)) ! l ! (j mod rr)
      = o_ring (cold_out K g (take (Suc j) (xs @ [x]))) l"
    if l: "l < qsa_layers g" and j: "Suc ?n - Suc ?n mod ?k \<le> j" "j < Suc ?n" for l j
  proof -
    have kk: "0 < ?k" "?k \<le> rr" using ok l by (auto simp: geo_ok_def qsa_layers_def split: attn.splits)
    have len: "length (qsa_ring b ! l) = rr" using lr l by simp
    show ?thesis
    proof (cases "j = ?n")
      case True
      have "?n mod rr < rr" using kk by simp
      with True l lr len show ?thesis by (simp add: nth_enumerate_eq)
    next
      case False
      from ring_window_Suc [OF kk(1) j False] have w: "?n - ?n mod ?k \<le> j" "j < ?n" by auto
      have "qsa_ring b ! l ! (j mod rr) = o_ring (cold_out K g (take (Suc j) xs)) l"
        using b l w by (auto simp: bufs_cold_def)
      moreover have "j mod rr \<noteq> ?n mod rr" by (rule ring_row_kept [OF kk w])
      ultimately show ?thesis using l lr w by (simp add: nth_enumerate_eq)
    qed
  qed
  have "\<forall>r \<in> set (map (\<lambda>(l, rows). rows[?n mod rr := o_ring ?o l]) (enumerate 0 (qsa_ring b))). length r = rr"
    using lr(2) by (auto simp: in_set_enumerate_eq)
  with b lr ring show ?thesis unfolding bufs_cold_def by simp
qed

lemma rows_cold_step:
  assumes ok: "geo_ok (e_geo e) rr" and r: "rows_cold K e xs (length xs)" and g: "e_geo e' = e_geo e"
    and kv: "e_kv e' = (\<lambda>gr. (e_kv e gr)(length xs := o_kv (cold_out K (e_geo e) (xs @ [x])) gr))"
    and pd: "e_pooled e' = (if Suc (length xs) mod compress (g_attn (e_geo e)) = 0
      then (\<lambda>l. (e_pooled e l)(blocks_at (e_geo e) (length xs) := o_pooled (cold_out K (e_geo e) (xs @ [x])) l)) else e_pooled e)"
  shows "rows_cold K e' (xs @ [x]) (length (xs @ [x]))"
  unfolding rows_cold_def
proof (intro conjI ballI allI impI)
  let ?g = "e_geo e" let ?n = "length xs"
  fix gr i assume gr: "gr \<in> set (groups (e_geo e'))" and i: "i < length (xs @ [x])"
  show "e_kv e' gr i = kv_cold K (e_geo e') (xs @ [x]) i gr"
  proof (cases "i = ?n")
    case False
    then have "e_kv e gr i = kv_cold K ?g xs i gr" using r gr i g by (simp add: rows_cold_def)
    with False i show ?thesis by (simp add: kv g kv_cold_prefix)
  qed (simp add: kv g kv_cold_def)
next
  let ?g = "e_geo e" let ?n = "length xs"
  fix l b assume l: "l < qsa_layers (e_geo e')" and b: "b < blocks_at (e_geo e') (length (xs @ [x]))"
  obtain h d k where a: "g_attn ?g = Qsa h d k" using l g by (auto simp: qsa_layers_def split: attn.splits)
  have k: "0 < k" using ok a by (simp add: geo_ok_def)
  note s = blocks_at_Suc [OF ok a, of ?n]
  show "e_pooled e' l b = pooled_cold K (e_geo e') (xs @ [x]) b l"
  proof (cases "b < blocks_at ?g ?n")
    case True
    then have "e_pooled e l b = pooled_cold K ?g xs b l" using r l g by (simp add: rows_cold_def)
    with True show ?thesis by (simp add: pd g pooled_cold_prefix)
  next
    case False
    with b s g have c: "Suc ?n mod k = 0" and e: "b = ?n div k" by (auto simp: a blocks_at_def split: if_splits)
    have "Suc b * k = Suc ?n" unfolding e by (rule complete_block [OF c k])
    then show ?thesis using c e by (simp add: pd g a blocks_at_def pooled_cold_def)
  qed
qed

lemma view_is_cold:
  assumes ok: "eng_ok e" and c: "engine_cold K e xs"
    and e0: "e0 = (if e_pos e = 0 then e\<lparr>e_bufs := (e_bufs e)\<lparr>gdn_s := map (\<lambda>_. zeros (gdn_s_state_len (e_geo e))) (gdn_s (e_bufs e))\<rparr>\<rparr> else e)"
  shows "k_prefill K ((view_of e0 xs)\<lparr>v_in := xs @ [x]\<rparr>) = cold_out K (e_geo e) (xs @ [x])"
proof -
  let ?g = "e_geo e" let ?n = "length xs"
  have n: "e_pos e = ?n" and b: "bufs_cold K ?g (e_ring_rows e) (e_bufs e) xs ?n" and r: "rows_cold K e xs ?n"
    using c by (auto simp: engine_cold_def)
  have cfg: "e_geo e0 = ?g" "e_ring_rows e0 = e_ring_rows e" "e_kv e0 = e_kv e" "e_pooled e0 = e_pooled e"
    "qsa_ring (e_bufs e0) = qsa_ring (e_bufs e)" "gdn_conv (e_bufs e0) = gdn_conv (e_bufs e)" "ple_state (e_bufs e0) = ple_state (e_bufs e)"
    by (simp_all add: e0)
  have s: "gdn_s (e_bufs e0) = (if ?n = 0 then replicate (g_gdn_layers ?g) (zeros (gdn_s_state_len ?g))
      else map (o_s (cold_out K ?g xs)) [0..<g_gdn_layers ?g])"
    using b n by (auto simp: e0 bufs_cold_def map_replicate_const)
  have ring: "ring_view ?g (e_ring_rows e) (qsa_ring (e_bufs e)) ?n
      = map (\<lambda>l. map (\<lambda>j. o_ring (cold_out K ?g (take (Suc j) (xs @ [x]))) l) [?n - ?n mod compress (g_attn ?g)..<?n]) [0..<qsa_layers ?g]"
    using b by (auto simp: ring_view_def bufs_cold_def)
  have kv: "kv_view e ?n = map (\<lambda>gr. map (\<lambda>i. o_kv (cold_out K ?g (take (Suc i) (xs @ [x]))) gr) [0..<?n]) (groups ?g)"
    using r by (auto simp: kv_view_def rows_cold_def kv_cold_def)
  have pd: "pooled_view e (blocks_at ?g ?n) = map (\<lambda>l. map (\<lambda>b. o_pooled (cold_out K ?g (take (min (Suc b * compress (g_attn ?g)) ?n) (xs @ [x]))) l)
      [0..<blocks_at ?g ?n]) [0..<qsa_layers ?g]"
    using r block_below [of _ ?g ?n] by (auto simp: pooled_view_def rows_cold_def pooled_cold_def min_def)
  show ?thesis
    using b by (subst cold_out.simps) (simp add: view_of_def cfg s ring kv [unfolded kv_view_def] kv_view_def pd [unfolded pooled_view_def]
        pooled_view_def Let_def bufs_cold_def)
qed

lemma prefill_token_safe:
  assumes safe: "cache_safe K c e xs" and cold: "engine_cold K e xs" and xs: "xs = inputs (e_history e) spans"
    and room: "e_pos e < e_context e"
  shows "let e' = prefill_token K spans e t; xs' = inputs (e_history e @ [t]) spans in
    cache_safe K c e' xs' \<and> engine_cold K e' xs' \<and> same_cfg e e' \<and> e_history e' = e_history e @ [t]
    \<and> logits_cold K (e_geo e) (e_logits e') (e_argmax e') xs' (length xs')"
proof -
  let ?g = "e_geo e" let ?n = "e_pos e" let ?x = "input_at (e_history e @ [t]) spans (length (e_history e))"
  define e0 where "e0 = (if e_pos e = 0 then e\<lparr>e_bufs := (e_bufs e)\<lparr>gdn_s := map (\<lambda>_. zeros (gdn_s_state_len (e_geo e))) (gdn_s (e_bufs e))\<rparr>\<rparr> else e)"
  define o' where "o' = cold_out K ?g (xs @ [?x])"
  define e' where "e' = prefill_token K spans e t"
  have ok: "eng_ok e" using safe by (simp add: cache_safe_def)
  have n: "?n = length xs" "length (e_history e) = length xs" using cold xs by (simp_all add: engine_cold_def)
  have xs': "inputs (e_history e @ [t]) spans = xs @ [?x]" by (simp add: inputs_snoc xs)
  have e0h: "e_history e0 = e_history e" "e_pos e0 = e_pos e" by (simp_all add: e0_def)
  have "take (e_pos e0) (inputs (e_history e0 @ [t]) spans) = xs" using n by (simp add: e0h xs')
  then have step: "e' = advance (write_step False e0 o') t"
    using view_is_cold [OF ok cold e0_def, of ?x] by (simp add: e'_def prefill_token_def e0_def [symmetric] Let_def e0h xs' o'_def)
  have g0: "e_geo e0 = ?g" "e_ring_rows e0 = e_ring_rows e" "e_context e0 = e_context e" "e_kv e0 = e_kv e" "e_pooled e0 = e_pooled e"
    "e_done e0 = e_done e" by (simp_all add: e0_def)
  have fr: "e_geo e' = ?g" "e_ring_rows e' = e_ring_rows e" "e_context e' = e_context e" "e_history e' = e_history e @ [t]"
    "e_pos e' = Suc ?n" "e_logits e' = o_logits o'" "e_argmax e' = o_argmax o'"
    by (simp_all add: step advance_def write_step_def Let_def e0h g0)
  have kv: "e_kv e' = (\<lambda>gr. (e_kv e gr)(length xs := o_kv o' gr))"
    and pd: "e_pooled e' = (if Suc (length xs) mod compress (g_attn ?g) = 0
      then (\<lambda>l. (e_pooled e l)(blocks_at ?g (length xs) := o_pooled o' l)) else e_pooled e)"
    by (simp_all add: step advance_def write_step_def Let_def e0h g0 n)
  have geo: "geo_ok ?g (e_ring_rows e)" using ok by (simp add: eng_ok_def)
  have t': "touched e e'" using kv pd by (auto simp: touched_def same_cfg_def fr n)
  have lens: "length (gdn_s (e_bufs e0)) = length (gdn_s (e_bufs e))" "gdn_conv (e_bufs e0) = gdn_conv (e_bufs e)"
    "ple_state (e_bufs e0) = ple_state (e_bufs e)" "qsa_ring (e_bufs e0) = qsa_ring (e_bufs e)" by (simp_all add: e0_def)
  have eb: "e_bufs e' = \<lparr>gdn_s = map (o_s o') [0..<length (gdn_s (e_bufs e))],
      gdn_conv = map (o_conv o') [0..<length (gdn_conv (e_bufs e))],
      ple_state = (if g_ple ?g then o_ple o' else ple_state (e_bufs e)),
      qsa_ring = map (\<lambda>(l, rows). rows[length xs mod e_ring_rows e := o_ring o' l]) (enumerate 0 (qsa_ring (e_bufs e)))\<rparr>"
    by (simp add: step advance_def write_step_def Let_def e0h g0 lens n)
  have bufs: "bufs_cold K ?g (e_ring_rows e) (e_bufs e') (xs @ [?x]) (length (xs @ [?x]))"
    unfolding eb o'_def using cold by (intro bufs_cold_step [OF geo]) (simp add: engine_cold_def)
  have rows: "rows_cold K e' (xs @ [?x]) (length (xs @ [?x]))"
    using cold by (intro rows_cold_step [OF geo _ fr(1)] kv [unfolded o'_def] pd [unfolded o'_def]) (simp add: engine_cold_def)
  have "eng_ok e'"
    using ok geo bufs room n
    by (auto simp: eng_ok_def fr bufs_cold_def step advance_def write_step_def Let_def e0h g0 blocks_at_def split: attn.splits)
  moreover have "\<forall>s \<in> set (slots c). live_ok K e' (xs @ [?x]) s"
    using safe live_ok_touched [OF _ t'] n by (auto simp: cache_safe_def)
  moreover have "park_ok K c e'" using safe park_ok_touched [OF _ t' ok] by (simp add: cache_safe_def)
  moreover have "map fst (xs @ [?x]) = e_history e'" by (simp add: fr xs input_at_def)
  ultimately have "cache_safe K c e' (xs @ [?x])" by (simp add: cache_safe_def)
  then show ?thesis
    using bufs rows fr n
    by (simp add: e'_def [symmetric] xs' engine_cold_def same_cfg_def logits_cold_def o'_def)
qed

lemma same_cfg_refl [simp]: "same_cfg e e"
  by (simp add: same_cfg_def)

lemma prefill_chunk_safe:
  assumes "cache_safe K c e (inputs (e_history e) spans)" and "engine_cold K e (inputs (e_history e) spans)"
    and "e_pos e + length ids \<le> e_context e"
  shows "let e' = prefill_chunk K spans e ids; xs' = inputs (e_history e @ ids) spans in
    cache_safe K c e' xs' \<and> engine_cold K e' xs' \<and> same_cfg e e' \<and> e_history e' = e_history e @ ids
    \<and> (ids \<noteq> [] \<longrightarrow> logits_cold K (e_geo e) (e_logits e') (e_argmax e') xs' (length xs'))"
  using assms
proof (induction ids arbitrary: e)
  case Nil
  then show ?case by (simp add: prefill_chunk_def)
next
  case (Cons t ids)
  let ?e = "prefill_token K spans e t"
  have room: "e_pos e < e_context e" using Cons.prems(3) by simp
  have s: "cache_safe K c ?e (inputs (e_history e @ [t]) spans)" "engine_cold K ?e (inputs (e_history e @ [t]) spans)" "same_cfg e ?e"
    "e_history ?e = e_history e @ [t]" "logits_cold K (e_geo e) (e_logits ?e) (e_argmax ?e) (inputs (e_history e @ [t]) spans)
      (length (inputs (e_history e @ [t]) spans))"
    using prefill_token_safe [OF Cons.prems(1,2) refl room, of t] by (simp_all add: Let_def)
  have p: "e_pos ?e = Suc (e_pos e)" using s(2) Cons.prems(2) by (simp add: engine_cold_def)
  have "e_pos ?e + length ids \<le> e_context ?e" using Cons.prems(3) s(3) p by (simp add: same_cfg_def)
  from Cons.IH [OF _ _ this] s show ?case
    by (cases ids) (auto simp: Let_def prefill_chunk_def same_cfg_def)
qed

lemma prefill_chunk_append: "prefill_chunk K spans e (a @ b) = prefill_chunk K spans (prefill_chunk K spans e a) b"
  by (simp add: prefill_chunk_def)

lemma prefill_until_spec:
  assumes "0 < chunk"
  shows "\<exists>d \<le> length ids. prefill_until K spans chunk stop e ids d0
      = (e_argmax (prefill_chunk K spans e (take d ids)), d0 + d, prefill_chunk K spans e (take d ids))
    \<and> (ids \<noteq> [] \<longrightarrow> 0 < d) \<and> ((\<forall>n. \<not> stop n) \<longrightarrow> d = length ids)"
  using assms
proof (induction K spans chunk stop e ids d0 rule: prefill_until.induct)
  case (1 K spans chunk stop e ids d0)
  show ?case
  proof (cases "ids = []")
    case True
    then show ?thesis by (subst prefill_until.simps) (simp add: prefill_chunk_def)
  next
    case False
    let ?t = "min (length ids) chunk" let ?e = "prefill_chunk K spans e (take ?t ids)" let ?r = "drop ?t ids"
    have u: "prefill_until K spans chunk stop e ids d0 = (if ?r \<noteq> [] \<and> stop (d0 + ?t) then (e_argmax ?e, d0 + ?t, ?e)
        else prefill_until K spans chunk stop ?e ?r (d0 + ?t))"
      using False 1(2) by (subst prefill_until.simps) (simp add: Let_def)
    have t: "0 < ?t" "?t \<le> length ids" using False 1(2) by auto
    show ?thesis
    proof (cases "?r \<noteq> [] \<and> stop (d0 + ?t)")
      case True
      then show ?thesis using u t by (intro exI [of _ ?t]) auto
    next
      case no: False
      have "\<not> (ids = [] \<or> chunk = 0)" using False 1(2) by simp
      from 1(1) [OF this refl refl refl no 1(2)] obtain d where d: "d \<le> length ?r"
        "prefill_until K spans chunk stop ?e ?r (d0 + ?t) = (e_argmax (prefill_chunk K spans ?e (take d ?r)), d0 + ?t + d,
          prefill_chunk K spans ?e (take d ?r))" "(\<forall>n. \<not> stop n) \<longrightarrow> d = length ?r" by blast
      have e: "prefill_chunk K spans ?e (take d ?r) = prefill_chunk K spans e (take (?t + d) ids)"
        by (simp only: prefill_chunk_append [symmetric] take_add)
      show ?thesis
        using u no d t by (intro exI [of _ "?t + d"]) (auto simp: e)
    qed
  qed
qed

section \<open>Snapshots\<close>

lemma position_less: "position P xs = Some i \<Longrightarrow> i < length xs"
  using position_Some by blast

lemma smallest_of_less: "smallest_of ss a b = Some i \<Longrightarrow> i < length ss"
  by (auto simp: smallest_of_def Let_def dest!: min_by_in split: if_splits option.splits)

lemma claim_index_less: "slots c \<noteq> [] \<Longrightarrow> claim_index c p h < length (slots c)"
  unfolding claim_index_def Let_def or_else_def
  by (auto dest: position_less smallest_of_less split: option.splits if_splits)

lemma claim_slots:
  assumes "slots c \<noteq> []"
  shows "\<exists>s rest. slots (claim c p h) = s\<lparr>s_parked := False, s_head := h\<rparr> # rest \<and> s \<in> set (slots c) \<and> set rest \<subseteq> set (slots c)
    \<and> enabled (claim c p h) = enabled c \<and> park_kv (claim c p h) = park_kv c \<and> park_pooled (claim c p h) = park_pooled c
    \<and> anchor (claim c p h) = anchor c
    \<and> (cpark (claim c p h) = cpark c \<or> cpark (claim c p h) = None \<and> (\<forall>s \<in> set (slots (claim c p h)). \<not> s_parked s))"
proof -
  define i where "i = claim_index c p h"
  define ss where "ss = (slots c)[i := (slots c ! i)\<lparr>s_parked := False, s_head := h\<rparr>]"
  have i: "i < length (slots c)" unfolding i_def by (rule claim_index_less [OF assms])
  have sl: "slots (claim c p h) = ss ! i # take i ss @ drop (Suc i) ss" by (simp add: claim_def Let_def ss_def i_def)
  have "take i ss = take i (slots c)" "drop (Suc i) ss = drop (Suc i) (slots c)" by (simp_all add: ss_def)
  then have sub: "set (take i ss @ drop (Suc i) ss) \<subseteq> set (slots c)" by (auto dest: in_set_takeD in_set_dropD)
  have "ss = take i ss @ ss ! i # drop (Suc i) ss" using i by (intro id_take_nth_drop) (simp add: ss_def)
  then have "set (slots (claim c p h)) = set ss" unfolding sl by (metis Un_commute list.simps(15) set_append insert_is_Un Un_assoc)
  moreover have "cpark (claim c p h) = (if list_ex s_parked ss then cpark c else None)" by (simp add: claim_def Let_def ss_def i_def)
  ultimately show ?thesis
    using i sub nth_mem [OF i]
    by (intro exI [of _ "slots c ! i"] exI [of _ "take i ss @ drop (Suc i) ss"])
      (auto simp: sl ss_def list_ex_iff claim_def Let_def i_def)
qed

lemma bufs_cold_no_ple: "\<not> g_ple g \<Longrightarrow> bufs_cold K g rr b xs p \<Longrightarrow> bufs_cold K g rr (b\<lparr>ple_state := x\<rparr>) xs p"
  by (simp add: bufs_cold_def)

lemma bufs_cold_copy:
  "bufs_cold K g rr b xs p \<Longrightarrow> bufs_cold K g rr (b\<lparr>ple_state := (if g_ple g then ple_state b else x)\<rparr>) xs p"
  by (simp add: bufs_cold_def)

lemma snapshot_safe:
  assumes safe: "cache_safe K c e xs" and cold: "engine_cold K e xs"
    and lg: "logits_cold K (e_geo e) (e_logits e) greedy xs (length xs)"
  shows "cache_safe K (snapshot_as c e True greedy h) e xs \<and> anchor (snapshot_as c e True greedy h) = anchor c"
proof (cases "\<not> enabled c \<or> slots c = []")
  case True
  with safe show ?thesis by (simp add: snapshot_as_def)
next
  case False
  obtain s rest where cl: "slots (claim c (e_pos e) h) = s\<lparr>s_parked := False, s_head := h\<rparr> # rest" "s \<in> set (slots c)"
    "set rest \<subseteq> set (slots c)" "park_kv (claim c (e_pos e) h) = park_kv c" "park_pooled (claim c (e_pos e) h) = park_pooled c"
    "anchor (claim c (e_pos e) h) = anchor c"
    and pk: "cpark (claim c (e_pos e) h) = cpark c
      \<or> cpark (claim c (e_pos e) h) = None \<and> (\<forall>s \<in> set (slots (claim c (e_pos e) h)). \<not> s_parked s)"
    using claim_slots [of c "e_pos e" h] False by blast
  let ?s = "name_slot (copy_bufs e (s\<lparr>s_parked := False, s_head := h\<rparr>)) (e_pos e) True (e_done e) (Some greedy)"
  let ?c = "snapshot_as c e True greedy h"
  have c': "slots ?c = ?s # rest" "cpark ?c = cpark (claim c (e_pos e) h)" "park_kv ?c = park_kv c" "park_pooled ?c = park_pooled c"
    "anchor ?c = anchor c"
    using False cl by (simp_all add: snapshot_as_def Let_def)
  have p: "e_pos e = length xs" and b: "bufs_cold K (e_geo e) (e_ring_rows e) (e_bufs e) xs (length xs)" and r: "rows_cold K e xs (length xs)"
    using cold by (simp_all add: engine_cold_def)
  have "slot_cold K e xs ?s (length xs)"
    using safe b lg p by (auto simp: slot_cold_def name_slot_def copy_bufs_def cache_safe_def eng_ok_def intro: bufs_cold_no_ple)
  then have new: "live_ok K e xs ?s" using r p by (simp add: live_ok_def name_slot_def)
  have np: "\<not> s_parked ?s" by (simp add: name_slot_def copy_bufs_def)
  have live: "\<forall>s \<in> set (slots ?c). live_ok K e xs s"
    using safe cl(3) new by (auto simp: c' cache_safe_def)
  have "park_ok K ?c e"
  proof (cases "cpark ?c")
    case None
    then have "\<not> s_parked s'" if "s' \<in> set rest" "s_pos s' \<noteq> None" for s'
      using pk that safe cl(1,3) by (auto simp: c' cache_safe_def park_ok_def)
    with None np show ?thesis by (auto simp: park_ok_def c')
  next
    case (Some k)
    then have k: "cpark c = Some k" using pk by (auto simp: c')
    with safe have po: "stash_shape c e k" "\<forall>s \<in> set (slots c). \<forall>p. s_parked s \<and> s_pos s = Some p \<longrightarrow>
        slot_cold K e (inputs (pk_history k) (pk_images k)) s p \<and> stash_ok K c e k (max (pk_dirty k) (length (e_history e))) p"
      by (auto simp: cache_safe_def park_ok_def)
    have "stash_shape ?c e k" using po(1) by (simp add: stash_shape_def c')
    moreover have "stash_ok K ?c e k d q = stash_ok K c e k d q" for d q by (simp add: stash_ok_def c')
    ultimately show ?thesis using po(2) np cl(3) by (auto simp: park_ok_def Some c'(1))
  qed
  with safe live show ?thesis by (simp add: cache_safe_def c')
qed

section \<open>Rollback, cold start and parking\<close>

lemma forget_simps [simp]: "s_pos (forget s) = None" "s_clean (forget s) = False" "s_parked (forget s) = s_parked s"
  by (simp_all add: forget_def)

lemma note_written_simps [simp]:
  "slots (note_written c w) = slots c" "park_kv (note_written c w) = park_kv c" "park_pooled (note_written c w) = park_pooled c"
  "anchor (note_written c w) = anchor c" "enabled (note_written c w) = enabled c"
  "cpark (note_written c w) = map_option (\<lambda>pk. pk\<lparr>pk_dirty := max (pk_dirty pk) w\<rparr>) (cpark c)"
  by (simp_all add: note_written_def)

text \<open>A cache whose parked conversation counts the rows already written: the history may shrink.\<close>

lemma park_ok_shrink:
  assumes p: "park_ok K c e" and c: "cpark c' = map_option (\<lambda>pk. pk\<lparr>pk_dirty := max (pk_dirty pk) (length (e_history e))\<rparr>) (cpark c)"
    and st: "park_kv c' = park_kv c" "park_pooled c' = park_pooled c"
    and sl: "\<forall>s' \<in> set (slots c'). s_pos s' \<noteq> None \<and> s_parked s' \<longrightarrow> s' \<in> set (slots c)"
    and cfg: "same_cfg e e'" and h: "length (e_history e') \<le> length (e_history e)"
    and kv: "e_kv e' = e_kv e" and pd: "e_pooled e' = e_pooled e"
  shows "park_ok K c' e'"
proof (cases "cpark c")
  case None
  with p c sl show ?thesis by (auto simp: park_ok_def)
next
  case (Some pk)
  let ?pk = "pk\<lparr>pk_dirty := max (pk_dirty pk) (length (e_history e))\<rparr>"
  have d: "max (pk_dirty ?pk) (length (e_history e')) = max (pk_dirty pk) (length (e_history e))" using h by simp
  have "stash_ok K c' e' ?pk x q = stash_ok K c e pk x q" for x q
    using cfg kv pd st by (simp add: stash_ok_def same_cfg_def)
  moreover have "stash_shape c' e' ?pk = stash_shape c e pk"
    using cfg st by (simp add: stash_shape_def same_cfg_def cong: attn.case_cong)
  ultimately show ?thesis
    using p Some c sl d cfg by (auto simp: park_ok_def slot_cold_cfg [of e e'])
qed

lemma rollback_safe:
  assumes xs: "xs = inputs (e_history e) (e_images e)" and geo: "geo_ok (e_geo e) (e_ring_rows e)"
    and ctx: "length (e_history e) \<le> e_context e"
    and s: "slot < length (slots c)" "\<not> s_parked (slots c ! slot)" "s_pos (slots c ! slot) = Some p"
    and live: "\<forall>s \<in> set (slots c). \<forall>q. \<not> s_parked s \<and> s_pos s = Some q \<and> q \<le> p \<longrightarrow> slot_cold K e xs s q"
    and rows: "rows_cold K e xs p" and park: "park_ok K c e"
  shows "\<exists>c' e'. rollback c e slot = Some (c', e') \<and> cache_safe K c' e' (take p xs) \<and> engine_cold K e' (take p xs)
    \<and> same_cfg e e' \<and> e_history e' = take p (e_history e) \<and> slots c' ! slot = slots c ! slot \<and> p \<le> length xs
    \<and> slot_cold K e' (take p xs) (slots c ! slot) p \<and> anchor c' = anchor c"
proof -
  let ?s = "slots c ! slot"
  have cold: "slot_cold K e xs ?s p" using live s nth_mem [OF s(1)] by auto
  then have pl: "p \<le> length xs" and clean: "s_clean ?s" and dn: "s_done ?s = blocks_at (e_geo e) p"
    and b: "bufs_cold K (e_geo e) (e_ring_rows e) (s_bufs ?s) xs p" by (auto simp: slot_cold_def)
  define e' where "e' = (truncate_history_images p ((drop_decode_graph e)\<lparr>
      e_bufs := (s_bufs ?s)\<lparr>ple_state := (if g_ple (e_geo e) then ple_state (s_bufs ?s) else ple_state (e_bufs e))\<rparr>,
      e_pos := p, e_done := s_done ?s, e_history := take p (e_history e)\<rparr>))\<lparr>e_route := []\<rparr>"
  define c' where "c' = rolled_back c slot (length (e_history e))"
  have rb: "rollback c e slot = Some (c', e')" using s clean by (simp add: rollback_def Let_def c'_def e'_def)
  have fr: "e_geo e' = e_geo e" "e_ring_rows e' = e_ring_rows e" "e_context e' = e_context e" "e_kv e' = e_kv e" "e_pooled e' = e_pooled e"
    "e_history e' = take p (e_history e)" "e_pos e' = p" "e_done e' = s_done ?s"
    "e_bufs e' = (s_bufs ?s)\<lparr>ple_state := (if g_ple (e_geo e) then ple_state (s_bufs ?s) else ple_state (e_bufs e))\<rparr>"
    by (simp_all add: e'_def truncate_history_images_def drop_decode_graph_def)
  have cfg: "same_cfg e e'" by (simp add: same_cfg_def fr)
  have b': "bufs_cold K (e_geo e) (e_ring_rows e) (e_bufs e') (take p xs) p"
    unfolding fr using b by (simp add: bufs_cold_take) (intro impI bufs_cold_no_ple, auto)
  have rows': "rows_cold K e' (take p xs) q" if "q \<le> p" for q
    using rows_cold_mono [OF rows that] that by (simp add: rows_cold_take) (simp add: rows_cold_def fr)
  have lt: "length (take p xs) = p" using pl by simp
  have eng: "engine_cold K e' (take p xs)" unfolding engine_cold_def lt fr(1,2,7) using b' rows' [of p] by blast
  have ok: "eng_ok e'" using geo ctx pl b' dn xs by (auto simp: eng_ok_def fr bufs_cold_def)
  have sl: "slots c' = map (\<lambda>s. if \<not> s_parked s \<and> (case s_pos s of Some q \<Rightarrow> p < q | None \<Rightarrow> False) then forget s else s) (slots c)"
    using s by (simp add: c'_def rolled_back_def Let_def)
  have live': "\<forall>s \<in> set (slots c'). live_ok K e' (take p xs) s"
  proof
    fix s' assume "s' \<in> set (slots c')"
    then obtain s0 where s0: "s0 \<in> set (slots c)" "s' = (if \<not> s_parked s0 \<and> (case s_pos s0 of Some q \<Rightarrow> p < q | None \<Rightarrow> False) then forget s0 else s0)"
      by (auto simp: sl)
    show "live_ok K e' (take p xs) s'"
      unfolding live_ok_def
    proof (intro allI impI)
      fix q assume q: "\<not> s_parked s' \<and> s_pos s' = Some q"
      then have e: "s' = s0" and qp: "q \<le> p" using s0(2) by (auto split: if_splits option.splits)
      from live s0(1) q e qp have "slot_cold K e xs s0 q" by auto
      then have "slot_cold K e (take p xs) s0 q" using slot_cold_take [OF qp pl, of K e s0] by simp
      with rows' [OF qp] e show "slot_cold K e' (take p xs) s' q \<and> rows_cold K e' (take p xs) q"
        by (simp add: slot_cold_cfg [OF cfg])
    qed
  qed
  have cp: "cpark c' = map_option (\<lambda>pk. pk\<lparr>pk_dirty := max (pk_dirty pk) (length (e_history e))\<rparr>) (cpark c)"
    and st: "park_kv c' = park_kv c" "park_pooled c' = park_pooled c" "anchor c' = anchor c"
    using s by (simp_all add: c'_def rolled_back_def Let_def)
  have "park_ok K c' e'"
    by (rule park_ok_shrink [OF park cp st(1,2) _ cfg]) (auto simp: sl fr)
  moreover have "map fst (take p xs) = e_history e'" by (simp add: xs fr take_inputs)
  ultimately have safe: "cache_safe K c' e' (take p xs)" using ok live' by (simp add: cache_safe_def)
  have "slots c' ! slot = ?s" using s by (simp add: sl)
  moreover have "slot_cold K e' (take p xs) ?s p"
    using slot_cold_take [of p p xs K e ?s] cold pl by (simp add: slot_cold_cfg [OF cfg])
  ultimately show ?thesis using rb safe eng cfg fr(6) pl st(3) by blast
qed

lemma reset_cold:
  assumes "eng_ok e"
  shows "engine_cold K (reset_to_zero (e\<lparr>e_history := [], e_images := []\<rparr>)) []"
    and "eng_ok (reset_to_zero (e\<lparr>e_history := [], e_images := []\<rparr>))"
    and "same_cfg e (reset_to_zero (e\<lparr>e_history := [], e_images := []\<rparr>))"
    and "e_kv (reset_to_zero (e\<lparr>e_history := [], e_images := []\<rparr>)) = e_kv e"
    and "e_pooled (reset_to_zero (e\<lparr>e_history := [], e_images := []\<rparr>)) = e_pooled e"
    and "e_history (reset_to_zero (e\<lparr>e_history := [], e_images := []\<rparr>)) = []"
  using assms
  by (auto simp: reset_to_zero_def Let_def drop_decode_graph_def engine_cold_def bufs_cold_def rows_cold_def eng_ok_def
      same_cfg_def map_replicate_const)

lemma cold_start_safe:
  assumes safe: "cache_safe K c e (inputs (e_history e) (e_images e))"
  shows "\<exists>c' e'. cold_start c e new_len = (c', e') \<and> cache_safe K c' e' [] \<and> engine_cold K e' [] \<and> same_cfg e e' \<and> e_history e' = []
    \<and> anchor c' = anchor c"
proof -
  let ?xs = "inputs (e_history e) (e_images e)" let ?e = "reset_to_zero (e\<lparr>e_history := [], e_images := []\<rparr>)"
  have ok: "eng_ok e" using safe by (simp add: cache_safe_def)
  note r = reset_cold [OF ok]
  have fin: ?thesis if "cold_start c e new_len = (c', ?e)" "\<forall>s \<in> set (slots c'). s_pos s \<noteq> None \<longrightarrow> s_parked s" "park_ok K c' ?e"
    "anchor c' = anchor c" for c'
    using that r by (auto simp: cache_safe_def live_ok_def)
  show ?thesis
  proof (cases "plan_cold c (length (e_history e)) new_len")
    case Drop
    show ?thesis
      by (rule fin [of "invalidate c"]) (auto simp: cold_start_def Let_def Drop apply_cold_def invalidate_def park_ok_def)
  next
    case Keep
    let ?c = "note_written (drop_live c) (length (e_history e))"
    have p: "park_ok K c e" using safe by (simp add: cache_safe_def)
    have s: "s \<in> set (slots ?c) \<Longrightarrow> s_pos s \<noteq> None \<Longrightarrow> s_parked s \<and> s \<in> set (slots c)" for s
      by (auto simp: drop_live_def split: if_splits)
    have dl: "cpark (drop_live c) = cpark c" "park_kv (drop_live c) = park_kv c" "park_pooled (drop_live c) = park_pooled c"
      "anchor (drop_live c) = anchor c" by (simp_all add: drop_live_def)
    have "park_ok K ?c ?e"
      by (rule park_ok_shrink [OF p _ _ _ _ r(3)]) (use s in \<open>auto simp: dl r(4-6)\<close>)
    moreover have "cold_start c e new_len = (?c, ?e)" by (simp add: cold_start_def Let_def Keep apply_cold_def)
    ultimately show ?thesis using s by (intro fin [of ?c]) (auto simp: dl)
  next
    case (Park rows)
    define blocks where "blocks = (case g_attn (e_geo e) of Qsa _ _ k \<Rightarrow> park_blocks rows (e_context e) k | Full \<Rightarrow> 0)"
    define c' where "c' = apply_cold (c\<lparr>park_kv := kv_view e rows, park_pooled := pooled_view e blocks\<rparr>) (Park rows) (e_history e) (e_images e) blocks"
    define pk where "pk = \<lparr>pk_history = e_history e, pk_images = e_images e, pk_rows = rows, pk_blocks = blocks, pk_dirty = 0\<rparr>"
    have c': "cpark c' = Some pk" "park_kv c' = kv_view e rows" "park_pooled c' = pooled_view e blocks" "anchor c' = anchor c"
      by (simp_all add: c'_def apply_cold_def pk_def)
    have sl: "s \<in> set (slots c') \<Longrightarrow> s_pos s \<noteq> None \<Longrightarrow> s_parked s \<and> (\<exists>s0 \<in> set (slots c). s = s0\<lparr>s_parked := True\<rparr> \<and> \<not> s_parked s0)" for s
      by (auto simp: c'_def apply_cold_def split: if_splits)
    have "stash_shape c' ?e pk"
      using ok r(3) by (auto simp: stash_shape_def c' pk_def kv_view_def pooled_view_def same_cfg_def eng_ok_def blocks_def split: attn.splits)
    moreover have "slot_cold K ?e ?xs s p \<and> stash_ok K c' ?e pk 0 p" if s: "s \<in> set (slots c')" "s_pos s = Some p" for s p
    proof -
      obtain s0 where s0: "s0 \<in> set (slots c)" "s = s0\<lparr>s_parked := True\<rparr>" "\<not> s_parked s0" using sl s by blast
      then have l: "slot_cold K e ?xs s0 p" "rows_cold K e ?xs p" using safe s(2) by (auto simp: cache_safe_def live_ok_def)
      have "slot_cold K ?e ?xs s p" using l(1) s0(2) by (simp add: slot_cold_cfg [OF r(3)]) (simp add: slot_cold_def)
      moreover have "stash_ok K c' ?e pk 0 p"
        using l(2) r(3) by (auto simp: stash_ok_def Let_def pk_def c' kv_view_def pooled_view_def rows_cold_def same_cfg_def r)
      ultimately show ?thesis ..
    qed
    ultimately have "park_ok K c' ?e"
      using sl by (auto simp: park_ok_def c' r(6)) (auto simp: pk_def)
    moreover have "cold_start c e new_len = (c', ?e)"
      by (simp add: cold_start_def Let_def Park c'_def blocks_def)
    ultimately show ?thesis using sl c'(4) by (intro fin [of c']) auto
  qed
qed

text \<open>What a load fixes, whatever an aborted request left in the buffers.\<close>

definition loaded :: "engine \<Rightarrow> bool" where
  "loaded e \<longleftrightarrow> geo_ok (e_geo e) (e_ring_rows e)
     \<and> length (gdn_s (e_bufs e)) = g_gdn_layers (e_geo e) \<and> length (gdn_conv (e_bufs e)) = g_gdn_layers (e_geo e)
     \<and> length (qsa_ring (e_bufs e)) = qsa_layers (e_geo e) \<and> (\<forall>r \<in> set (qsa_ring (e_bufs e)). length r = e_ring_rows e)"

lemma eng_ok_loaded: "eng_ok e \<Longrightarrow> loaded e"
  by (simp add: eng_ok_def loaded_def)

lemma drop_request_safe:
  assumes "loaded e"
  shows "cache_safe K (invalidate c) (reset_to_zero e) []"
  using assms
  by (auto simp: cache_safe_def invalidate_def live_ok_def park_ok_def reset_to_zero_def Let_def drop_decode_graph_def eng_ok_def
      loaded_def)

section \<open>Unparking\<close>

lemma distinct_kv_row_order: "distinct (kv_row_order layers heads)"
proof (induction layers)
  case (Suc n)
  have "set (kv_row_order n heads) \<subseteq> {(l, k, h). l < n}" by (auto simp: kv_row_order_def)
  moreover have "kv_row_order (Suc n) heads = kv_row_order n heads @ map (\<lambda>h. (n, True, h)) [0..<heads] @ map (\<lambda>h. (n, False, h)) [0..<heads]"
    by (simp add: kv_row_order_def)
  ultimately show ?case using Suc by (auto simp: distinct_map inj_on_def)
qed (simp add: kv_row_order_def)

lemma length_kv_row_order: "length (kv_row_order layers heads) = layers * 2 * heads"
  by (induction layers) (simp_all add: kv_row_order_def algebra_simps)

lemma distinct_groups: "distinct (groups g)"
  by (simp add: groups_def distinct_kv_row_order)

text \<open>A sequence of uploads, each to a key of its own: what a key holds afterwards.\<close>

lemma foldl_upload_other:
  "k \<notin> set ks \<Longrightarrow> foldl (\<lambda>m (g, rows). m(g := upload rows (m g))) m (zip ks rs) k = m k"
proof (induction ks arbitrary: m rs)
  case (Cons a ks)
  then show ?case by (cases rs) auto
qed simp

lemma foldl_upload_nth:
  assumes "distinct ks" and "j < length ks" and "length rs = length ks"
  shows "foldl (\<lambda>m (g, rows). m(g := upload rows (m g))) m (zip ks rs) (ks ! j) = upload (rs ! j) (m (ks ! j))"
  using assms
proof (induction ks arbitrary: m rs j)
  case (Cons a ks)
  from Cons.prems(3) obtain r rs' where rs: "rs = r # rs'" "length rs' = length ks" by (cases rs) auto
  show ?case
  proof (cases j)
    case 0
    with Cons.prems(1) rs show ?thesis by (simp add: foldl_upload_other fun_upd_same del: fun_upd_apply)
  next
    case (Suc i)
    with Cons.prems have "ks ! i \<noteq> a" by auto
    with Suc Cons.prems Cons.IH [of i rs' "m(a := upload r (m a))"] rs show ?thesis by (simp add: fun_upd_other del: fun_upd_apply)
  qed
qed simp

lemma park_blocks_cover:
  assumes "b < p div c" and "park_blocks R n c \<le> b" and "p \<le> n" and "0 < c"
  shows "R div c < b"
proof -
  have "p div c \<le> n div c" using assms(3) by (rule div_le_mono)
  then have "b < div_ceil n c" using assms(1) by (auto simp: div_ceil_def)
  with assms(2) show ?thesis by (simp add: park_blocks_def min_def split: if_splits)
qed

text \<open>After the upload, the rows of the parked conversation are its own below every usable slot.\<close>

lemma unpark_rows:
  assumes sh: "stash_shape c e pk" and st: "stash_ok K c e pk d q" and ql: "q \<le> length (pk_history pk)"
    and u: "parked_usable P d (pk_rows pk)" and qP: "q \<le> P" and geo: "geo_ok (e_geo e) (e_ring_rows e)"
    and g: "e_geo e' = e_geo e"
    and kv: "e_kv e' = upload_kv (zip (groups (e_geo e)) (park_kv c)) (e_kv e)"
    and pd: "e_pooled e' = upload_pooled (zip [0..<qsa_layers (e_geo e)] (park_pooled c)) (e_pooled e)"
  shows "rows_cold K e' (inputs (pk_history pk) (pk_images pk)) q"
  unfolding rows_cold_def g
proof (intro conjI ballI allI impI)
  let ?g = "e_geo e" let ?xs = "inputs (pk_history pk) (pk_images pk)" let ?R = "pk_rows pk"
  have md: "min P d \<le> ?R" using u by (simp add: parked_usable_def)
  {
    fix gr i assume gr: "gr \<in> set (groups ?g)" and i: "i < q"
    then obtain j where j: "j < length (groups ?g)" "gr = groups ?g ! j" by (metis in_set_conv_nth)
    have len: "length (park_kv c) = length (groups ?g)" "length (park_kv c ! j) = ?R" using sh j by (auto simp: stash_shape_def)
    have "e_kv e' gr i = upload (park_kv c ! j) (e_kv e gr) i"
      unfolding kv upload_kv_def j(2) by (subst foldl_upload_nth [OF distinct_groups j(1) len(1)]) simp
    also have "\<dots> = kv_cold K ?g ?xs i gr"
    proof (cases "i < ?R")
      case True
      with st j i len show ?thesis by (auto simp: stash_ok_def Let_def upload_def)
    next
      case False
      then have "d \<le> i" using md qP i by (auto simp: min_def split: if_splits)
      with False st j i len show ?thesis by (auto simp: stash_ok_def Let_def upload_def)
    qed
    finally show "e_kv e' gr i = kv_cold K ?g ?xs i gr" .
  next
    fix l b assume l: "l < qsa_layers ?g" and b: "b < blocks_at ?g q"
    obtain h w k where a: "g_attn ?g = Qsa h w k" using l by (auto simp: qsa_layers_def split: attn.splits)
    have k: "0 < k" using geo a by (simp add: geo_ok_def)
    have len: "length (park_pooled c) = qsa_layers ?g" "length (park_pooled c ! l) = pk_blocks pk"
      "pk_blocks pk = park_blocks ?R (e_context e) k" using sh l a by (auto simp: stash_shape_def)
    have dl: "l < length [0..<qsa_layers ?g]" "length (park_pooled c) = length [0..<qsa_layers ?g]" using l len by simp_all
    have "e_pooled e' l b = upload (park_pooled c ! l) (e_pooled e l) b"
      unfolding pd upload_pooled_def using foldl_upload_nth [OF distinct_upt dl, of "e_pooled e"] l by simp
    also have "\<dots> = pooled_cold K ?g ?xs b l"
    proof (cases "b < pk_blocks pk")
      case True
      with st l b len show ?thesis by (auto simp: stash_ok_def Let_def upload_def)
    next
      case False
      have qc: "q \<le> e_context e" using ql sh by (simp add: stash_shape_def)
      have bq: "b < q div k" using b a by (simp add: blocks_at_def)
      have rb: "?R div k < b" using park_blocks_cover [OF bq _ qc k] False len(3) by simp
      have "b \<le> q div k" using bq by simp
      then have "\<not> P \<le> ?R" using rb qP by (metis div_le_mono le_trans not_le)
      then have "d \<le> ?R" using md by (auto simp: min_def split: if_splits)
      then have "d div k < b" using rb by (meson div_le_mono le_less_trans)
      with False st l b len a show ?thesis by (auto simp: stash_ok_def Let_def upload_def)
    qed
    finally show "e_pooled e' l b = pooled_cold K ?g ?xs b l" .
  }
qed

end
