(* ===== verification/SlotFile.thy ===== *)
theory SlotFile
  imports SlotHeader PrefixCacheSafe
begin

text \<open>
  Saving and restoring the held conversation (\<open>save\<close>, \<open>restore\<close> of \<open>engine/src/slot.rs\<close>).
  The disk is a map from paths to contents. What can fail on it is a record of faults the
  operations take: which system call fails, and how much of a write got through. A device
  row is the list of its bytes.
\<close>

section \<open>Cutting byte strings\<close>

fun split_lens :: "nat list \<Rightarrow> 'a list \<Rightarrow> 'a list list" where
  "split_lens [] xs = []"
| "split_lens (n # ns) xs = take n xs # split_lens ns (drop n xs)"

lemma split_lens_concat: "split_lens (map length xs) (concat xs @ rest) = xs"
  by (induction xs) auto

lemma split_lens_concat0: "split_lens (map length xs) (concat xs) = xs"
  using split_lens_concat [of xs "[]"] by simp

lemma split_lens_same:
  assumes "\<forall>x \<in> set xs. length x = n"
  shows "split_lens (replicate (length xs) n) (concat xs) = xs"
proof -
  have "map length xs = replicate (length xs) n" using assms by (simp add: map_replicate_const [symmetric] map_eq_conv)
  with split_lens_concat0 [of xs] show ?thesis by simp
qed

lemma length_split_lens [simp]: "length (split_lens ns xs) = length ns"
  by (induction ns arbitrary: xs) auto

section \<open>The load and its header\<close>

record slot_load =
  ld_family :: u64
  ld_fingerprint :: u64
  ld_path :: str
  ld_n_hot :: nat
  ld_chunk :: nat
  ld_kv :: kv_dtype

definition live_header :: "slot_load \<Rightarrow> engine \<Rightarrow> prefix_cache \<Rightarrow> header" where
  "live_header ld e c = (let g = e_geo e; sh = cshape c in
    \<lparr>format_version = FORMAT_VERSION, model_family = ld_family ld, geo_hash = ld_fingerprint ld,
     h_load_id = load_id (ld_path ld) (ld_n_hot ld), n_ctx = of_nat (e_context e), prompt_chunk = of_nat (ld_chunk ld),
     qsa_ring_rows = of_nat (e_ring_rows e), gdn_layers = of_nat (sh_gdn_layers sh), attn_layers = of_nat (sh_attn_layers sh),
     kv_groups = of_nat (sh_attn_layers sh * 2 * g_kv_heads g), kv_row_bytes = of_nat (row_bytes (ld_kv ld) (g_head_dim g)),
     h_pooled_row_bytes = of_nat (pooled_row_bytes g), state_bytes = of_nat (snapshot_bytes sh),
     h_pos = 0, done_blocks = 0, history_len = 0\<rparr>)"

section \<open>Saving\<close>

type_synonym disk = "str \<Rightarrow> u8 list option"

record save_faults =
  sf_create :: bool
  sf_put :: "nat option"
  sf_left :: "u8 list"
  sf_flush :: bool
  sf_rename :: bool
  sf_remove :: bool
  sf_stat :: bool

record saved =
  n_saved :: nat
  n_written :: u64

definition temp_path :: "str \<Rightarrow> str \<Rightarrow> str" where
  "temp_path pid path = path @ ''.part-'' @ pid"

definition f32_bytes :: "f32 list \<Rightarrow> u8 list" where
  "f32_bytes v = concat (map (le_bytes 4) v)"

definition bytes_f32 :: "u8 list \<Rightarrow> f32 list" where
  "bytes_f32 bs = map le_word (split_lens (replicate (length bs div 4) 4) bs)"

text \<open>The sequence of \<open>put\<close> calls of one save.\<close>

definition save_puts :: "header \<Rightarrow> engine \<Rightarrow> prefix_cache \<Rightarrow> nat \<Rightarrow> nat \<Rightarrow> u8 list list" where
  "save_puts h e c p done_b = encode h # map f32_bytes (prompt_state_blocks c)
     @ map (\<lambda>gr. concat (map (e_kv e gr) [0..<p])) (kv_row_order (unat (attn_layers h)) (g_kv_heads (e_geo e)))
     @ map (\<lambda>l. concat (map (e_pooled e l) [0..<done_b])) [0..<if h_pooled_row_bytes h = 0 then 0 else unat (attn_layers h)]
     @ map (le_bytes 8) (take p (e_history e))"

text \<open>\<open>put\<close> in a loop: the bytes written, or the fault at the given call.\<close>

definition put_all :: "nat option \<Rightarrow> u8 list list \<Rightarrow> u8 list option" where
  "put_all fault puts = (case fault of
     Some i \<Rightarrow> if i < length puts then None else Some (concat puts)
   | None \<Rightarrow> Some (concat puts))"

text \<open>Leaving early drops the guard, which removes the temporary file (unless that fails).\<close>

definition drop_temp :: "save_faults \<Rightarrow> str \<Rightarrow> disk \<Rightarrow> disk" where
  "drop_temp f tmp d = (if sf_remove f then d else d(tmp := None))"

text \<open>From the temporary file to the rename.\<close>

definition write_out :: "save_faults \<Rightarrow> str \<Rightarrow> str \<Rightarrow> header \<Rightarrow> nat \<Rightarrow> u8 list list \<Rightarrow> disk \<Rightarrow> (slot_error + saved) \<times> disk" where
  "write_out f tmp path h p puts d =
    (if sf_create f then (Inl (Io ''cannot write''), drop_temp f tmp d)
     else (case put_all (sf_put f) puts of
       None \<Rightarrow> (Inl (Io ''write''), drop_temp f tmp (d(tmp \<mapsto> sf_left f)))
     | Some bytes \<Rightarrow>
        if sf_flush f then (Inl (Io ''flush''), drop_temp f tmp (d(tmp \<mapsto> sf_left f)))
        else (let n = of_nat (length bytes); d1 = d(tmp \<mapsto> bytes) in
          if n \<noteq> file_bytes h then (Inl (WroteOther n (file_bytes h)), drop_temp f tmp d1)
          else if sf_rename f then (Inl (Io ''cannot move''), drop_temp f tmp d1)
          else (let d2 = d1(path \<mapsto> bytes, tmp := None) in
            if sf_stat f then (Inl (Io ''cannot stat''), d2)
            else if of_nat (length bytes) \<noteq> n then (Inl (WroteOther (of_nat (length bytes)) n), d2)
            else (Inr \<lparr>n_saved = p, n_written = n\<rparr>, d2)))))"

definition save_header :: "slot_load \<Rightarrow> engine \<Rightarrow> prefix_cache \<Rightarrow> nat \<Rightarrow> nat \<Rightarrow> header" where
  "save_header ld e c p done_b = (live_header ld e c)\<lparr>h_pos := of_nat p, done_blocks := of_nat done_b, history_len := of_nat p\<rparr>"

definition save :: "str \<Rightarrow> slot_load \<Rightarrow> engine \<Rightarrow> prefix_cache \<Rightarrow> str \<Rightarrow> save_faults \<Rightarrow> disk \<Rightarrow> (slot_error + saved) \<times> disk" where
  "save pid ld e c path f d =
    (if \<not> enabled c then (Inl CacheOff, d)
     else (case prompt_slot c of
       None \<Rightarrow> (Inl NoPromptState, d)
     | Some (p, done_b) \<Rightarrow>
        if p = 0 then (Inl EmptyState, d)
        else if length (e_history e) < p then (Inl (ShortHistory (length (e_history e)) p), d)
        else (let h = save_header ld e c p done_b; state = sum_list (map (\<lambda>b. length b * 4) (prompt_state_blocks c)) in
          if of_nat state \<noteq> state_bytes h then (Inl (StateBytes state (state_bytes h)), d)
          else write_out f (temp_path pid path) path h p (save_puts h e c p done_b) d)))"

section \<open>Restoring\<close>

text \<open>The open file after the head: what is left, how many reads still work, the bytes read.\<close>

record reader =
  rd_rest :: "u8 list"
  rd_works :: "nat option"
  rd_n :: nat

definition fill :: "nat \<Rightarrow> reader \<Rightarrow> (u8 list \<times> reader) option" where
  "fill n r = (if rd_works r = Some 0 \<or> length (rd_rest r) < n then None
     else Some (take n (rd_rest r), r\<lparr>rd_rest := drop n (rd_rest r), rd_works := map_option (\<lambda>k. k - 1) (rd_works r),
       rd_n := rd_n r + n\<rparr>))"

text \<open>A loop of reads: the buffers read, whether all were, and the reader.\<close>

fun fills :: "nat list \<Rightarrow> reader \<Rightarrow> u8 list list \<times> bool \<times> reader" where
  "fills [] r = ([], True, r)"
| "fills (n # ns) r = (case fill n r of
     None \<Rightarrow> ([], False, r)
   | Some (b, r1) \<Rightarrow> (let (bs, ok, r2) = fills ns r1 in (b # bs, ok, r2)))"

definition set_blocks :: "recurrent \<Rightarrow> f32 list list \<Rightarrow> recurrent" where
  "set_blocks b bl = (let n1 = length (gdn_s b); n2 = length (gdn_conv b) in
    \<lparr>gdn_s = take n1 bl, gdn_conv = take n2 (drop n1 bl), ple_state = bl ! (n1 + n2),
     qsa_ring = map2 (\<lambda>rows flat. split_lens (map length rows) flat) (qsa_ring b) (drop (n1 + n2 + 1) bl)\<rparr>)"

text \<open>The blocks read so far go into the prompt slot, the others keep their content.\<close>

definition fill_prompt_blocks :: "prefix_cache \<Rightarrow> u8 list list \<Rightarrow> prefix_cache" where
  "fill_prompt_blocks c read = (case slots c of
     [] \<Rightarrow> c
   | s # ss \<Rightarrow> c\<lparr>slots := s\<lparr>s_bufs := set_blocks (s_bufs s)
        (map bytes_f32 read @ drop (length read) (state_blocks (s_bufs s)))\<rparr> # ss\<rparr>)"

record restored =
  n_restored :: nat
  n_read :: nat

record restore_faults =
  rf_open :: bool
  rf_head :: bool
  rf_stat :: bool
  rf_works :: "nat option"

text \<open>Everything before the first upload: the header and the payload, or the refusal.\<close>

definition restore_check :: "slot_load \<Rightarrow> engine \<Rightarrow> prefix_cache \<Rightarrow> str \<Rightarrow> restore_faults \<Rightarrow> disk \<Rightarrow> slot_error + (header \<times> u8 list)" where
  "restore_check ld e c path f d =
    (if \<not> enabled c then Inl CacheOff
     else (let live = live_header ld e c in case d path of
       None \<Rightarrow> Inl (Io ''cannot read'')
     | Some bytes \<Rightarrow>
        if rf_open f then Inl (Io ''cannot read'')
        else if rf_head f \<or> length bytes < HEADER_BYTES then Inl (Io ''shorter than the header'')
        else (case decode (take HEADER_BYTES bytes) of
          Inl er \<Rightarrow> Inl er
        | Inr h \<Rightarrow>
          (case shape_matches h live of Some er \<Rightarrow> Inl er | None \<Rightarrow>
          (case check_content h live of Some er \<Rightarrow> Inl er | None \<Rightarrow>
            if rf_stat f then Inl (Io ''cannot stat'')
            else if of_nat (length bytes - HEADER_BYTES) \<noteq> payload_bytes h
            then Inl (PayloadSize (of_nat (length bytes - HEADER_BYTES)) (payload_bytes h))
            else (let state = sum_list (map (\<lambda>b. length b * 4) (prompt_state_blocks c)) in
              if of_nat state \<noteq> state_bytes h then Inl (StateBytes state (state_bytes h))
              else Inr (h, drop HEADER_BYTES bytes)))))))"

text \<open>From here the engine is written.\<close>

definition restore_write :: "header \<Rightarrow> reader \<Rightarrow> engine \<Rightarrow> prefix_cache \<Rightarrow> (slot_error + restored) \<times> prefix_cache \<times> engine" where
  "restore_write h r0 e c =
    (let c1 = invalidate c; e1 = drop_decode_graph e; p = unat (h_pos h); db = unat (done_blocks h);
         (bl, ok1, r1) = fills (map (\<lambda>b. length b * 4) (prompt_state_blocks c1)) r0;
         c2 = fill_prompt_blocks c1 bl in
     if \<not> ok1 then (Inl (Io ''read failed''), c2, e1)
     else (let order = kv_row_order (unat (attn_layers h)) (g_kv_heads (e_geo e));
         rb = unat (kv_row_bytes h); (kv, ok2, r2) = fills (replicate (length order) (p * rb)) r1;
         e2 = e1\<lparr>e_kv := upload_kv (zip order (map (split_lens (replicate p rb)) kv)) (e_kv e1)\<rparr> in
       if \<not> ok2 then (Inl (Io ''read failed''), c2, e2)
       else (let layers = [0..<if h_pooled_row_bytes h = 0 then 0 else unat (attn_layers h)];
           pb = unat (h_pooled_row_bytes h); (pl, ok3, r3) = fills (replicate (length layers) (db * pb)) r2;
           e3 = e2\<lparr>e_pooled := upload_pooled (zip layers (map (split_lens (replicate db pb)) pl)) (e_pooled e2)\<rparr> in
         if \<not> ok3 then (Inl (Io ''read failed''), c2, e3)
         else (case fill (unat (history_len h) * 8) r3 of
           None \<Rightarrow> (Inl (Io ''read failed''), c2, e3)
         | Some (ids, r4) \<Rightarrow>
            (Inr \<lparr>n_restored = p, n_read = HEADER_BYTES + rd_n r4\<rparr>, set_prompt_slot c2 p db,
             e3\<lparr>e_pos := p, e_done := db, e_history := map le_word (split_lens (replicate (length ids div 8) 8) ids),
               e_images := [], e_route := []\<rparr>)))))"

definition restore :: "slot_load \<Rightarrow> engine \<Rightarrow> prefix_cache \<Rightarrow> str \<Rightarrow> restore_faults \<Rightarrow> disk
    \<Rightarrow> (slot_error + restored) \<times> prefix_cache \<times> engine" where
  "restore ld e c path f d = (case restore_check ld e c path f d of
     Inl er \<Rightarrow> (Inl er, c, e)
   | Inr (h, payload) \<Rightarrow> restore_write h \<lparr>rd_rest = payload, rd_works = rf_works f, rd_n = 0\<rparr> e c)"

section \<open>The order of effects\<close>

lemma temp_path_other [simp]: "temp_path pid path \<noteq> path"
  by (simp add: temp_path_def)

lemma drop_temp_other: "q \<noteq> tmp \<Longrightarrow> drop_temp f tmp d q = d q"
  by (simp add: drop_temp_def)

lemma drop_temp_tmp: "sf_remove f \<or> drop_temp f tmp d tmp = None"
  by (simp add: drop_temp_def)

lemma write_out_cases:
  assumes w: "write_out f tmp path h p puts d = (r, d')" and ne: "tmp \<noteq> path"
  shows "((\<exists>er. r = Inl er \<and> er \<noteq> Io ''cannot stat'') \<and> d' path = d path \<or>
      of_nat (length (concat puts)) = file_bytes h \<and> d' path = Some (concat puts) \<and> d' tmp = None
        \<and> (r = Inl (Io ''cannot stat'') \<or> r = Inr \<lparr>n_saved = p, n_written = of_nat (length (concat puts))\<rparr>))
    \<and> (\<forall>q. q \<noteq> path \<longrightarrow> q \<noteq> tmp \<longrightarrow> d' q = d q) \<and> (sf_remove f \<or> d' tmp = None)"
proof (cases "\<exists>er d0. r = Inl er \<and> er \<noteq> Io ''cannot stat'' \<and> d' = drop_temp f tmp d0 \<and> (\<forall>q. q \<noteq> tmp \<longrightarrow> d0 q = d q)")
  case True
  then obtain er d0 where e: "r = Inl er" "er \<noteq> Io ''cannot stat''" "d' = drop_temp f tmp d0" "\<And>q. q \<noteq> tmp \<Longrightarrow> d0 q = d q" by blast
  then have "d' q = d q" if "q \<noteq> tmp" for q using that by (simp add: drop_temp_other)
  with e(1,2) ne drop_temp_tmp [of f tmp d0] show ?thesis by (auto simp: e(3))
next
  case False
  let ?b = "concat puts"
  have pa: "\<not> sf_create f" "put_all (sf_put f) puts = Some ?b" "\<not> sf_flush f" "of_nat (length ?b) = file_bytes h" "\<not> sf_rename f"
  proof -
    show 1: "\<not> sf_create f" using w False by (fastforce simp: write_out_def)
    show 2: "put_all (sf_put f) puts = Some ?b"
    proof (cases "put_all (sf_put f) puts")
      case None
      with w 1 False show ?thesis by (fastforce simp: write_out_def)
    qed (auto simp: put_all_def split: option.splits if_splits)
    show 3: "\<not> sf_flush f" using w 1 2 False by (fastforce simp: write_out_def)
    show 4: "of_nat (length ?b) = file_bytes h" using w 1 2 3 False by (fastforce simp: write_out_def Let_def)
    show "\<not> sf_rename f" using w 1 2 3 4 False by (fastforce simp: write_out_def Let_def)
  qed
  have "d' = d(tmp \<mapsto> ?b, path \<mapsto> ?b, tmp := None)"
    "r = (if sf_stat f then Inl (Io ''cannot stat'') else Inr \<lparr>n_saved = p, n_written = of_nat (length ?b)\<rparr>)"
    using w pa by (auto simp: write_out_def Let_def split: if_splits)
  with pa(4) ne show ?thesis by auto
qed

lemma save_cases:
  assumes s: "save pid ld e c path f d = (r, d')"
  shows "(\<exists>er. r = Inl er \<and> er \<noteq> Io ''cannot stat'') \<and> d' = d \<or>
    (\<exists>p db h. enabled c \<and> prompt_slot c = Some (p, db) \<and> 0 < p \<and> p \<le> length (e_history e) \<and> h = save_header ld e c p db
      \<and> of_nat (sum_list (map (\<lambda>b. length b * 4) (prompt_state_blocks c))) = state_bytes h
      \<and> write_out f (temp_path pid path) path h p (save_puts h e c p db) d = (r, d'))"
  using s unfolding save_def Let_def by (auto split: if_splits option.splits prod.splits)

lemma decode_save_puts: "decode (concat (save_puts (save_header ld e c p db) e' c' p' db')) = Inr (save_header ld e c p db)"
  by (simp add: save_puts_def slot_header_roundtrip_fact) (simp add: save_header_def live_header_def Let_def FORMAT_VERSION_def)

text \<open>
  C21: Saving is atomic. Whatever fails (the temporary file, a write part way, the flush, the
  rename), the target path holds either the previous content or the complete new file, whose
  size is the one its head names; no other path changes, and the temporary file is gone
  unless it could not be removed. The byte count of the answer is that of the file.
\<close>

theorem save_is_atomic:
  assumes "save pid ld e c path f d = (r, d')"
  shows "(d' path = d path \<or> (\<exists>bytes h. d' path = Some bytes \<and> decode bytes = Inr h \<and> of_nat (length bytes) = file_bytes h))
    \<and> (\<forall>q. q \<noteq> path \<and> q \<noteq> temp_path pid path \<longrightarrow> d' q = d q)
    \<and> (d' = d \<or> sf_remove f \<or> d' (temp_path pid path) = None)
    \<and> (\<forall>s. r = Inr s \<longrightarrow> (\<exists>bytes. d' path = Some bytes \<and> n_written s = of_nat (length bytes)))
    \<and> (\<forall>er. r = Inl er \<and> er \<noteq> Io ''cannot stat'' \<longrightarrow> d' path = d path)"
  using save_cases [OF assms]
proof (elim disjE exE conjE)
  fix p db h
  assume h: "h = save_header ld e c p db" and w: "write_out f (temp_path pid path) path h p (save_puts h e c p db) d = (r, d')"
  have dec: "decode (concat (save_puts h e c p db)) = Inr h" unfolding h by (rule decode_save_puts)
  from write_out_cases [OF w] dec show ?thesis by auto
qed auto

section \<open>A restore that fails\<close>

lemma invalidate_slots [simp]:
  "slots (invalidate c) = map (\<lambda>s. (forget s)\<lparr>s_parked := False, s_head := False\<rparr>) (slots c)" "cpark (invalidate c) = None"
  "enabled (invalidate c) = enabled c" "anchor (invalidate c) = anchor c" "cshape (invalidate c) = cshape c"
  by (simp_all add: invalidate_def)

definition claims_nothing :: "prefix_cache \<Rightarrow> bool" where
  "claims_nothing c \<longleftrightarrow> cpark c = None \<and> (\<forall>s \<in> set (slots c). s_pos s = None)"

lemma claims_nothing_invalidate: "claims_nothing (invalidate c)"
  by (auto simp: claims_nothing_def)

lemma claims_nothing_fill: "claims_nothing c \<Longrightarrow> claims_nothing (fill_prompt_blocks c bl)"
  by (auto simp: claims_nothing_def fill_prompt_blocks_def split: list.splits)

text \<open>Fields of the engine a restore that fails in the middle does not touch.\<close>

definition host_same :: "engine \<Rightarrow> engine \<Rightarrow> bool" where
  "host_same e e' \<longleftrightarrow> same_cfg e e' \<and> e_pos e' = e_pos e \<and> e_done e' = e_done e \<and> e_history e' = e_history e
     \<and> e_images e' = e_images e \<and> e_bufs e' = e_bufs e \<and> e_logits e' = e_logits e"

lemma host_same_upload:
  "host_same e (e1\<lparr>e_kv := k\<rparr>) = host_same e e1" "host_same e (e1\<lparr>e_pooled := q\<rparr>) = host_same e e1"
  "host_same e (drop_decode_graph e)"
  by (simp_all add: host_same_def same_cfg_def drop_decode_graph_def)

lemma no_io:
  "decode bs = Inl er \<Longrightarrow> er \<noteq> Io m" "shape_matches h live = Some er \<Longrightarrow> er \<noteq> Io m" "check_content h live = Some er \<Longrightarrow> er \<noteq> Io m"
  by (auto simp: decode_def Let_def shape_matches_def check_content_def split: if_splits)

lemma restore_check_no_read: "restore_check ld e c path f d = Inl er \<Longrightarrow> er \<noteq> Io ''read failed''"
  by (auto simp: restore_check_def Let_def dest: no_io split: if_splits option.splits sum.splits)

lemma restore_write_fails:
  assumes "restore_write h r0 e c = (Inl er, c', e')"
  shows "er = Io ''read failed'' \<and> claims_nothing c' \<and> host_same e e'"
proof -
  obtain bl ok1 r1 where 1: "fills (map (\<lambda>b. length b * 4) (prompt_state_blocks (invalidate c))) r0 = (bl, ok1, r1)" by (metis prod_cases3)
  let ?c2 = "fill_prompt_blocks (invalidate c) bl"
  obtain kv ok2 r2 where 2: "fills (replicate (length (kv_row_order (unat (attn_layers h)) (g_kv_heads (e_geo e))))
      (unat (h_pos h) * unat (kv_row_bytes h))) r1 = (kv, ok2, r2)" by (metis prod_cases3)
  obtain pl ok3 r3 where 3: "fills (replicate (length [0..<if h_pooled_row_bytes h = 0 then 0 else unat (attn_layers h)])
      (unat (done_blocks h) * unat (h_pooled_row_bytes h))) r2 = (pl, ok3, r3)" by (metis prod_cases3)
  have g: "e_geo (drop_decode_graph e) = e_geo e" by (simp add: drop_decode_graph_def)
  have "er = Io ''read failed'' \<and> c' = ?c2 \<and> host_same e e'"
    using assms unfolding restore_write_def Let_def 1 2 3 prod.case
    by (auto simp: host_same_upload split: if_splits option.splits)
  then show ?thesis by (simp add: claims_nothing_fill claims_nothing_invalidate)
qed

lemma restore_fails:
  assumes "restore ld e c path f d = (Inl er, c', e')"
  shows "c' = c \<and> e' = e \<or> claims_nothing c' \<and> host_same e e'"
proof (cases "restore_check ld e c path f d")
  case (Inl er')
  with assms show ?thesis by (simp add: restore_def)
next
  case (Inr a)
  obtain h payload where a: "a = (h, payload)" by (cases a)
  from assms have "restore_write h \<lparr>rd_rest = payload, rd_works = rf_works f, rd_n = 0\<rparr> e c = (Inl er, c', e')"
    by (simp add: restore_def Inr a)
  from restore_write_fails [OF this] show ?thesis by blast
qed

text \<open>
  C22: A restore refuses before it writes. Unless a read of the payload itself fails, an error
  leaves the cache and the engine exactly as they were; and when a read does fail half way,
  no snapshot and no parked conversation is held any more and the engine keeps its position,
  history and recurrent state, so the next request starts cold.
\<close>

theorem restore_refuses_before_it_writes:
  assumes "restore ld e c path f d = (Inl er, c', e')"
  shows "er \<noteq> Io ''read failed'' \<and> c' = c \<and> e' = e
    \<or> er = Io ''read failed'' \<and> claims_nothing c' \<and> host_same e e'"
proof (cases "restore_check ld e c path f d")
  case (Inl er')
  with assms restore_check_no_read [OF Inl] show ?thesis by (simp add: restore_def)
next
  case (Inr a)
  obtain h payload where a: "a = (h, payload)" by (cases a)
  from assms have "restore_write h \<lparr>rd_rest = payload, rd_works = rf_works f, rd_n = 0\<rparr> e c = (Inl er, c', e')"
    by (simp add: restore_def Inr a)
  from restore_write_fails [OF this] show ?thesis by blast
qed

section \<open>Reading back what was written\<close>

lemma fills_concat:
  assumes "rd_rest r = concat bs @ rest" and "fills (map length bs) r = (out, ok, r')"
  shows "(ok \<longrightarrow> out = bs \<and> rd_rest r' = rest \<and> rd_n r' = rd_n r + length (concat bs)) \<and> (rd_works r = None \<longrightarrow> ok \<and> rd_works r' = None)"
  using assms
proof (induction bs arbitrary: r out ok r')
  case (Cons b bs)
  show ?case
  proof (cases "fill (length b) r")
    case None
    with Cons.prems show ?thesis by (auto simp: fill_def split: if_splits)
  next
    case (Some a)
    then have a: "a = (b, r\<lparr>rd_rest := concat bs @ rest, rd_works := map_option (\<lambda>k. k - 1) (rd_works r), rd_n := rd_n r + length b\<rparr>)"
      using Cons.prems(1) by (auto simp: fill_def split: if_splits)
    let ?r = "snd a"
    obtain out2 ok2 r2 where f: "fills (map length bs) ?r = (out2, ok2, r2)" by (metis prod_cases3)
    have "rd_rest ?r = concat bs @ rest" by (simp add: a)
    from Cons.IH [OF this f] show ?thesis using Cons.prems(2) Some f by (auto simp: a)
  qed
qed simp

lemma fill_exact:
  "rd_rest r = b @ rest \<Longrightarrow> length b = n \<Longrightarrow>
   (case fill n r of None \<Rightarrow> rd_works r \<noteq> None | Some (x, r') \<Rightarrow> x = b \<and> rd_n r' = rd_n r + n)"
  by (auto simp: fill_def)

lemma length_f32_bytes [simp]: "length (f32_bytes v) = 4 * length v"
  by (simp add: f32_bytes_def length_concat_same [of _ 4])

lemma bytes_f32_bytes [simp]: "bytes_f32 (f32_bytes v) = v"
proof -
  have "split_lens (replicate (length v) 4) (f32_bytes v) = map (le_bytes 4) v"
    using split_lens_same [of "map (le_bytes 4) v" 4] by (simp add: f32_bytes_def)
  then show ?thesis by (simp add: bytes_f32_def comp_def le_word_bytes)
qed

text \<open>Two sets of buffers of the same allocation: the same lengths everywhere.\<close>

definition same_dims :: "recurrent \<Rightarrow> recurrent \<Rightarrow> bool" where
  "same_dims b b' \<longleftrightarrow> map length (gdn_s b) = map length (gdn_s b') \<and> map length (gdn_conv b) = map length (gdn_conv b')
     \<and> length (ple_state b) = length (ple_state b') \<and> map (map length) (qsa_ring b) = map (map length) (qsa_ring b')"

lemma same_dims_blocks: "same_dims b b' \<Longrightarrow> map length (state_blocks b) = map length (state_blocks b')"
proof -
  assume d: "same_dims b b'"
  have "map (length \<circ> concat) (qsa_ring b) = map sum_list (map (map length) (qsa_ring b))" by (simp add: length_concat)
  also have "\<dots> = map (length \<circ> concat) (qsa_ring b')" using d by (simp add: same_dims_def length_concat)
  finally show ?thesis using d by (simp add: state_blocks_def same_dims_def)
qed

lemma set_blocks_state: "same_dims b b' \<Longrightarrow> set_blocks b (state_blocks b') = b'"
proof -
  assume d: "same_dims b b'"
  have l: "length (gdn_s b) = length (gdn_s b')" "length (gdn_conv b) = length (gdn_conv b')"
    using d by (metis same_dims_def length_map)+
  have r: "map2 (\<lambda>rows flat. split_lens (map length rows) flat) (qsa_ring b) (map concat (qsa_ring b')) = qsa_ring b'"
  proof -
    have "map (map length) xs = map (map length) ys \<Longrightarrow> map2 (\<lambda>rows flat. split_lens (map length rows) flat) xs (map concat ys) = ys"
      for xs ys :: "f32 list list list"
    proof (induction ys arbitrary: xs)
      case (Cons y ys)
      then obtain x xs' where "xs = x # xs'" by (cases xs) auto
      with Cons show ?case by (simp add: split_lens_concat0)
    qed simp
    then show ?thesis using d by (simp add: same_dims_def)
  qed
  show ?thesis
    by (rule recurrent.equality) (simp_all add: set_blocks_def state_blocks_def Let_def l r nth_append)
qed

definition with_bufs :: "prefix_cache \<Rightarrow> recurrent \<Rightarrow> prefix_cache" where
  "with_bufs c b = (case slots c of [] \<Rightarrow> c | s # ss \<Rightarrow> c\<lparr>slots := s\<lparr>s_bufs := b\<rparr> # ss\<rparr>)"

lemma fill_prompt_all:
  assumes "slots c = s # ss" and "same_dims (s_bufs s) b"
  shows "fill_prompt_blocks c (map f32_bytes (state_blocks b)) = with_bufs c b"
proof -
  have "length (state_blocks b) = length (state_blocks (s_bufs s))" using same_dims_blocks [OF assms(2)] by (metis length_map)
  then show ?thesis
    using assms(1) by (simp add: fill_prompt_blocks_def with_bufs_def comp_def set_blocks_state [OF assms(2)])
qed

text \<open>The rows of one upload, cut at the row width.\<close>

lemma cut_rows:
  "\<forall>i. length (row i) = w \<Longrightarrow> split_lens (replicate n w) (concat (map row [0..<n])) = map row [0..<n]"
  using split_lens_same [of "map row [0..<n]" w] by simp

lemma restore_write_ok:
  assumes w: "restore_write h \<lparr>rd_rest = concat (map f32_bytes (state_blocks b)) @ concat (map (\<lambda>gr. concat (map (kv gr) [0..<unat (h_pos h)])) order)
        @ concat (map (\<lambda>l. concat (map (pd l) [0..<unat (done_blocks h)])) layers) @ concat (map (le_bytes 8) ids), rd_works = wk, rd_n = 0\<rparr> e c
      = (res, c', e')"
    and order: "order = kv_row_order (unat (attn_layers h)) (g_kv_heads (e_geo e))"
    and layers: "layers = [0..<if h_pooled_row_bytes h = 0 then 0 else unat (attn_layers h)]"
    and kv: "\<And>gr i. length (kv gr i) = unat (kv_row_bytes h)" and pd: "\<And>l i. length (pd l i) = unat (h_pooled_row_bytes h)"
    and ids: "length ids = unat (history_len h)" and s: "slots c = s # ss" and dims: "same_dims (s_bufs s) b"
  shows "(wk = None \<longrightarrow> (\<exists>rs. res = Inr rs))
    \<and> (\<forall>rs. res = Inr rs \<longrightarrow> n_restored rs = unat (h_pos h)
      \<and> n_read rs = HEADER_BYTES + length (concat (map f32_bytes (state_blocks b)) @ concat (map (\<lambda>gr. concat (map (kv gr) [0..<unat (h_pos h)])) order)
        @ concat (map (\<lambda>l. concat (map (pd l) [0..<unat (done_blocks h)])) layers) @ concat (map (le_bytes 8) ids))
      \<and> c' = set_prompt_slot (with_bufs (invalidate c) b) (unat (h_pos h)) (unat (done_blocks h))
      \<and> e' = (drop_decode_graph e)\<lparr>e_kv := upload_kv (zip order (map (\<lambda>gr. map (kv gr) [0..<unat (h_pos h)]) order)) (e_kv e),
          e_pooled := upload_pooled (zip layers (map (\<lambda>l. map (pd l) [0..<unat (done_blocks h)]) layers)) (e_pooled e),
          e_pos := unat (h_pos h), e_done := unat (done_blocks h), e_history := ids, e_images := [], e_route := []\<rparr>)"
proof -
  let ?p = "unat (h_pos h)" let ?db = "unat (done_blocks h)"
  let ?B = "map f32_bytes (state_blocks b)" let ?K = "map (\<lambda>gr. concat (map (kv gr) [0..<?p])) order"
  let ?P = "map (\<lambda>l. concat (map (pd l) [0..<?db])) layers" let ?I = "concat (map (le_bytes 8) ids)"
  define r0 where "r0 = \<lparr>rd_rest = concat ?B @ concat ?K @ concat ?P @ ?I, rd_works = wk, rd_n = 0\<rparr>"
  have s1: "slots (invalidate c) = (forget s)\<lparr>s_parked := False, s_head := False\<rparr> # tl (slots (invalidate c))"
    and sb: "prompt_state_blocks (invalidate c) = state_blocks (s_bufs s)"
    using s by (simp_all add: prompt_state_blocks_def forget_def)
  have d1: "same_dims (s_bufs ((forget s)\<lparr>s_parked := False, s_head := False\<rparr>)) b" using dims by (simp add: forget_def)
  have lB: "map (\<lambda>b. length b * 4) (prompt_state_blocks (invalidate c)) = map length ?B"
  proof -
    have "map (\<lambda>b. length b * 4) (state_blocks (s_bufs s)) = map (\<lambda>n. n * 4) (map length (state_blocks (s_bufs s)))" by simp
    then show ?thesis unfolding sb same_dims_blocks [OF dims] by (simp add: mult.commute)
  qed
  have lK: "replicate (length order) (?p * unat (kv_row_bytes h)) = map length ?K"
  proof -
    have "length (concat (map (kv gr) [0..<?p])) = ?p * unat (kv_row_bytes h)" for gr
      by (subst length_concat_same [of _ "unat (kv_row_bytes h)"]) (auto simp: kv)
    then show ?thesis by (simp add: comp_def map_replicate_const)
  qed
  have lP: "replicate (length layers) (?db * unat (h_pooled_row_bytes h)) = map length ?P"
    by (simp add: comp_def length_concat_same [of _ "unat (h_pooled_row_bytes h)"] map_replicate_const pd)
  have lI: "length ?I = unat (history_len h) * 8" using ids by (simp add: length_concat_same [of _ 8])
  obtain bl ok1 r1 where 1: "fills (map length ?B) r0 = (bl, ok1, r1)" by (metis prod_cases3)
  obtain kl ok2 r2 where 2: "fills (map length ?K) r1 = (kl, ok2, r2)" by (metis prod_cases3)
  obtain pl ok3 r3 where 3: "fills (map length ?P) r2 = (pl, ok3, r3)" by (metis prod_cases3)
  have a1: "ok1 \<Longrightarrow> bl = ?B \<and> rd_rest r1 = concat ?K @ concat ?P @ ?I \<and> rd_n r1 = length (concat ?B)" "wk = None \<Longrightarrow> ok1 \<and> rd_works r1 = None"
    using fills_concat [OF _ 1] by (auto simp: r0_def)
  have a2: "ok1 \<Longrightarrow> ok2 \<Longrightarrow> kl = ?K \<and> rd_rest r2 = concat ?P @ ?I \<and> rd_n r2 = length (concat ?B) + length (concat ?K)"
    "wk = None \<Longrightarrow> ok2 \<and> rd_works r2 = None"
    using fills_concat [OF _ 2] a1 by auto
  have a3: "ok1 \<Longrightarrow> ok2 \<Longrightarrow> ok3 \<Longrightarrow> pl = ?P \<and> rd_rest r3 = ?I \<and> rd_n r3 = length (concat ?B) + length (concat ?K) + length (concat ?P)"
    "wk = None \<Longrightarrow> ok3 \<and> rd_works r3 = None"
    using fills_concat [OF _ 3] a1 a2 by auto
  have rw: "restore_write h r0 e c = (res, c', e')" using w by (simp add: r0_def)
  have un: "restore_write h r0 e c =
    (let c2 = fill_prompt_blocks (invalidate c) bl; e1 = drop_decode_graph e in
     if \<not> ok1 then (Inl (Io ''read failed''), c2, e1)
     else (let e2 = e1\<lparr>e_kv := upload_kv (zip order (map (split_lens (replicate ?p (unat (kv_row_bytes h)))) kl)) (e_kv e1)\<rparr> in
       if \<not> ok2 then (Inl (Io ''read failed''), c2, e2)
       else (let e3 = e2\<lparr>e_pooled := upload_pooled (zip layers (map (split_lens (replicate ?db (unat (h_pooled_row_bytes h)))) pl)) (e_pooled e2)\<rparr> in
         if \<not> ok3 then (Inl (Io ''read failed''), c2, e3)
         else (case fill (unat (history_len h) * 8) r3 of
           None \<Rightarrow> (Inl (Io ''read failed''), c2, e3)
         | Some (ids, r4) \<Rightarrow>
            (Inr \<lparr>n_restored = ?p, n_read = HEADER_BYTES + rd_n r4\<rparr>, set_prompt_slot c2 ?p ?db,
             e3\<lparr>e_pos := ?p, e_done := ?db, e_history := map le_word (split_lens (replicate (length ids div 8) 8) ids),
               e_images := [], e_route := []\<rparr>)))))"
    unfolding restore_write_def Let_def order [symmetric] layers [symmetric] lB lK lP 1 2 3 prod.case by (rule refl)
  show ?thesis
  proof (cases "ok1 \<and> ok2 \<and> ok3")
    case False
    then have "\<exists>er. res = Inl er" using rw unfolding un Let_def by (auto split: if_splits)
    with False a1(2) a2(2) a3(2) show ?thesis by auto
  next
    case True
    then have bl: "bl = ?B" "kl = ?K" "pl = ?P" and r3: "rd_rest r3 = ?I"
      "rd_n r3 = length (concat ?B) + length (concat ?K) + length (concat ?P)" using a1 a2 a3 by auto
    have cK: "map (split_lens (replicate ?p (unat (kv_row_bytes h)))) ?K = map (\<lambda>gr. map (kv gr) [0..<?p]) order"
      by (simp add: cut_rows kv)
    have cP: "map (split_lens (replicate ?db (unat (h_pooled_row_bytes h)))) ?P = map (\<lambda>l. map (pd l) [0..<?db]) layers"
      by (simp add: cut_rows pd)
    have cI: "map le_word (split_lens (replicate (length ?I div 8) 8) ?I) = ids"
      using split_lens_same [of "map (le_bytes 8) ids" 8] by (simp add: lI ids comp_def le_word_bytes)
    have c2: "fill_prompt_blocks (invalidate c) bl = with_bufs (invalidate c) b"
      unfolding bl by (rule fill_prompt_all [OF s1 d1])
    have fe: "case fill (unat (history_len h) * 8) r3 of None \<Rightarrow> rd_works r3 \<noteq> None
        | Some (x, r') \<Rightarrow> x = ?I \<and> rd_n r' = rd_n r3 + unat (history_len h) * 8"
      using fill_exact [of r3 ?I "[]" "unat (history_len h) * 8"] r3(1) lI by simp
    show ?thesis
    proof (cases "fill (unat (history_len h) * 8) r3")
      case None
      with fe a3(2) rw True show ?thesis unfolding un Let_def by auto
    next
      case (Some a)
      obtain x r4 where a: "a = (x, r4)" by (cases a)
      have x: "x = ?I" "rd_n r4 = rd_n r3 + length ?I" using fe Some a lI by auto
      have g: "e_kv (drop_decode_graph e) = e_kv e" "e_pooled (drop_decode_graph e) = e_pooled e" by (simp_all add: drop_decode_graph_def)
      have "res = Inr \<lparr>n_restored = ?p, n_read = HEADER_BYTES + rd_n r4\<rparr>"
        "c' = set_prompt_slot (with_bufs (invalidate c) b) ?p ?db"
        "e' = (drop_decode_graph e)\<lparr>e_kv := upload_kv (zip order (map (\<lambda>gr. map (kv gr) [0..<?p]) order)) (e_kv e),
          e_pooled := upload_pooled (zip layers (map (\<lambda>l. map (pd l) [0..<?db]) layers)) (e_pooled e),
          e_pos := ?p, e_done := ?db, e_history := ids, e_images := [], e_route := []\<rparr>"
        using rw True unfolding un Let_def Some a c2 bl(2,3) cK cP x(1) prod.case option.case cI by (auto simp: g)
      with x(2) r3(2) show ?thesis by simp
    qed
  qed
qed

section \<open>The file of a held conversation\<close>

text \<open>What the allocator guarantees of a load: the sizes of its buffers fit 64 bits.\<close>

definition load_fits :: "slot_load \<Rightarrow> engine \<Rightarrow> prefix_cache \<Rightarrow> bool" where
  "load_fits ld e c \<longleftrightarrow> (let g = e_geo e; ly = sh_attn_layers (cshape c); gr = ly * 2 * g_kv_heads g;
      rb = row_bytes (ld_kv ld) (g_head_dim g); pb = pooled_row_bytes g; n = e_context e in
    n < 2 ^ 64 \<and> ly < 2 ^ 64 \<and> gr < 2 ^ 64 \<and> rb < 2 ^ 64 \<and> pb < 2 ^ 64 \<and> gr * n < 2 ^ 64 \<and> ly * n < 2 ^ 64
    \<and> HEADER_BYTES + (snapshot_bytes (cshape c) + gr * n * rb + ly * n * pb + n * 8) < 2 ^ 64)"

definition device_rows :: "slot_load \<Rightarrow> engine \<Rightarrow> bool" where
  "device_rows ld e \<longleftrightarrow> (\<forall>gr i. length (e_kv e gr i) = row_bytes (ld_kv ld) (g_head_dim (e_geo e)))
     \<and> (\<forall>l i. length (e_pooled e l i) = pooled_row_bytes (e_geo e))"

lemma device_row: "device_rows ld e \<Longrightarrow> length (e_kv e gr i) = row_bytes (ld_kv ld) (g_head_dim (e_geo e))"
  by (cases gr) (simp add: device_rows_def)

definition slot_dims :: "prefix_cache \<Rightarrow> bool" where
  "slot_dims c \<longleftrightarrow> sum_list (map (\<lambda>b. length b * 4) (prompt_state_blocks c)) = snapshot_bytes (cshape c)"

text \<open>The QSA compress ratio of every model the file format knows is 4.\<close>

definition four :: "geo \<Rightarrow> bool" where
  "four g \<longleftrightarrow> (case g_attn g of Qsa h d k \<Rightarrow> k = 4 \<and> 0 < h * d | Full \<Rightarrow> True)"

definition file_layers :: "engine \<Rightarrow> prefix_cache \<Rightarrow> nat list" where
  "file_layers e c = [0..<if pooled_row_bytes (e_geo e) = 0 then 0 else sh_attn_layers (cshape c)]"

definition file_groups :: "engine \<Rightarrow> prefix_cache \<Rightarrow> group list" where
  "file_groups e c = kv_row_order (sh_attn_layers (cshape c)) (g_kv_heads (e_geo e))"

definition saved_payload :: "engine \<Rightarrow> prefix_cache \<Rightarrow> recurrent \<Rightarrow> nat \<Rightarrow> u8 list" where
  "saved_payload e c b p = concat (map f32_bytes (state_blocks b)) @ concat (map (\<lambda>gr. concat (map (e_kv e gr) [0..<p])) (file_groups e c))
     @ concat (map (\<lambda>l. concat (map (e_pooled e l) [0..<blocks_at (e_geo e) p])) (file_layers e c))
     @ concat (map (le_bytes 8) (take p (e_history e)))"

lemma unat_of_nat64: "n < 2 ^ 64 \<Longrightarrow> unat (of_nat n :: u64) = n"
  by (simp add: unat_of_nat take_bit_nat_eq_self)

lemma fits_fields:
  assumes "load_fits ld e c" and "p \<le> e_context e" and "db \<le> e_context e"
  defines "h \<equiv> save_header ld e c p db"
  shows "unat (attn_layers h) = sh_attn_layers (cshape c)" "unat (kv_row_bytes h) = row_bytes (ld_kv ld) (g_head_dim (e_geo e))"
    "unat (h_pooled_row_bytes h) = pooled_row_bytes (e_geo e)" "unat (h_pos h) = p" "unat (done_blocks h) = db" "unat (history_len h) = p"
    "unat (kv_groups h) = sh_attn_layers (cshape c) * 2 * g_kv_heads (e_geo e)" "unat (n_ctx h) = e_context e"
    "unat (state_bytes h) = snapshot_bytes (cshape c)" "h_pooled_row_bytes h = 0 \<longleftrightarrow> pooled_row_bytes (e_geo e) = 0"
proof -
  have n: "e_context e < 2 ^ 64" "sh_attn_layers (cshape c) < 2 ^ 64" "row_bytes (ld_kv ld) (g_head_dim (e_geo e)) < 2 ^ 64"
    "pooled_row_bytes (e_geo e) < 2 ^ 64" "sh_attn_layers (cshape c) * 2 * g_kv_heads (e_geo e) < 2 ^ 64"
    "HEADER_BYTES + (snapshot_bytes (cshape c)
      + sh_attn_layers (cshape c) * 2 * g_kv_heads (e_geo e) * e_context e * row_bytes (ld_kv ld) (g_head_dim (e_geo e))
      + sh_attn_layers (cshape c) * e_context e * pooled_row_bytes (e_geo e) + e_context e * 8) < 2 ^ 64"
    using assms(1) unfolding load_fits_def Let_def by blast+
  then have "snapshot_bytes (cshape c) < 2 ^ 64" by linarith
  moreover have "p < 2 ^ 64" "db < 2 ^ 64" using n(1) assms(2,3) by simp_all
  ultimately show "unat (attn_layers h) = sh_attn_layers (cshape c)" "unat (kv_row_bytes h) = row_bytes (ld_kv ld) (g_head_dim (e_geo e))"
    "unat (h_pooled_row_bytes h) = pooled_row_bytes (e_geo e)" "unat (h_pos h) = p" "unat (done_blocks h) = db" "unat (history_len h) = p"
    "unat (kv_groups h) = sh_attn_layers (cshape c) * 2 * g_kv_heads (e_geo e)" "unat (n_ctx h) = e_context e"
    "unat (state_bytes h) = snapshot_bytes (cshape c)"
    using n(1-5) by (simp_all only: h_def save_header_def live_header_def Let_def header.simps unat_of_nat64)
  then show "h_pooled_row_bytes h = 0 \<longleftrightarrow> pooled_row_bytes (e_geo e) = 0" by (metis unat_0 unat_eq_zero)
qed

lemma fits_size:
  assumes fit: "load_fits ld e c" and p: "p \<le> e_context e" "db \<le> e_context e"
  shows "file_bytes_checked (save_header ld e c p db) = Some (of_nat (HEADER_BYTES + payload_size (save_header ld e c p db)))
    \<and> HEADER_BYTES + payload_size (save_header ld e c p db) < 2 ^ 64"
proof -
  let ?g = "sh_attn_layers (cshape c) * 2 * g_kv_heads (e_geo e)" let ?rb = "row_bytes (ld_kv ld) (g_head_dim (e_geo e))"
  let ?pb = "pooled_row_bytes (e_geo e)" let ?ly = "sh_attn_layers (cshape c)" let ?n = "e_context e"
  note f = fits_fields [OF fit p]
  have a: "?g * p * ?rb \<le> ?g * ?n * ?rb" "?ly * db * ?pb \<le> ?ly * ?n * ?pb" "?g * p \<le> ?g * ?n" "?ly * db \<le> ?ly * ?n"
    using p by (simp_all add: mult_le_mono)
  have sz: "HEADER_BYTES + payload_size (save_header ld e c p db) < 2 ^ 64"
  proof -
    have "HEADER_BYTES + (snapshot_bytes (cshape c) + ?g * ?n * ?rb + ?ly * ?n * ?pb + ?n * 8) < 2 ^ 64"
      using fit unfolding load_fits_def Let_def by blast
    then show ?thesis unfolding payload_size_def f using a(1,2) p(1) by linarith
  qed
  moreover have "unat (kv_groups (save_header ld e c p db)) * unat (h_pos (save_header ld e c p db)) < 2 ^ 64"
    "unat (attn_layers (save_header ld e c p db)) * unat (done_blocks (save_header ld e c p db)) < 2 ^ 64"
  proof -
    have "?g * ?n < 2 ^ 64" "?ly * ?n < 2 ^ 64" using fit unfolding load_fits_def Let_def by blast+
    then show "unat (kv_groups (save_header ld e c p db)) * unat (h_pos (save_header ld e c p db)) < 2 ^ 64"
      "unat (attn_layers (save_header ld e c p db)) * unat (done_blocks (save_header ld e c p db)) < 2 ^ 64"
      unfolding f using a(3,4) by (auto simp only: le_less_trans)
  qed
  ultimately show ?thesis using payload_fits by blast
qed

lemma blocks_at_le: "blocks_at g n \<le> n"
  by (simp add: blocks_at_def split: attn.splits)

lemma four_blocks: "four g \<Longrightarrow> blocks_at g p = (if pooled_row_bytes g = 0 then 0 else p div 4)"
  by (auto simp: four_def blocks_at_def pooled_row_bytes_def split: attn.splits)

lemma saved_size:
  assumes rows: "device_rows ld e" and dims: "slot_dims c" and b: "prompt_state_blocks c = state_blocks b" and h: "p \<le> length (e_history e)"
    and fit: "load_fits ld e c" and p: "p \<le> e_context e"
  shows "length (saved_payload e c b p) = payload_size (save_header ld e c p (blocks_at (e_geo e) p))"
proof -
  let ?db = "blocks_at (e_geo e) p"
  have db: "?db \<le> e_context e" using blocks_at_le [of "e_geo e" p] p by simp
  note f = fits_fields [OF fit p db]
  have "length (concat (map f32_bytes (state_blocks b))) = snapshot_bytes (cshape c)"
    using dims by (simp add: slot_dims_def b length_concat comp_def mult.commute)
  moreover have "length (concat (map (\<lambda>gr. concat (map (e_kv e gr) [0..<p])) (file_groups e c)))
      = sh_attn_layers (cshape c) * 2 * g_kv_heads (e_geo e) * p * row_bytes (ld_kv ld) (g_head_dim (e_geo e))"
  proof -
    have "length (concat (map (e_kv e gr) [0..<p])) = p * row_bytes (ld_kv ld) (g_head_dim (e_geo e))" for gr
      by (subst length_concat_same [of _ "row_bytes (ld_kv ld) (g_head_dim (e_geo e))"]) (auto simp: device_row [OF rows])
    then show ?thesis
      by (subst length_concat_same [of _ "p * row_bytes (ld_kv ld) (g_head_dim (e_geo e))"]) (auto simp: file_groups_def length_kv_row_order)
  qed
  moreover have "length (concat (map (\<lambda>l. concat (map (e_pooled e l) [0..<?db])) (file_layers e c)))
      = sh_attn_layers (cshape c) * ?db * pooled_row_bytes (e_geo e)"
  proof -
    have "length (concat (map (e_pooled e l) [0..<?db])) = ?db * pooled_row_bytes (e_geo e)" for l
      using rows by (subst length_concat_same [of _ "pooled_row_bytes (e_geo e)"]) (auto simp: device_rows_def)
    then show ?thesis
      by (subst length_concat_same [of _ "?db * pooled_row_bytes (e_geo e)"]) (auto simp: file_layers_def)
  qed
  moreover have "length (concat (map (le_bytes 8) (take p (e_history e)))) = p * 8"
    using h by (subst length_concat_same [of _ 8]) auto
  ultimately show ?thesis by (simp add: saved_payload_def payload_size_def f)
qed

lemma save_puts_payload:
  assumes fit: "load_fits ld e c" and p: "p \<le> e_context e" and b: "prompt_state_blocks c = state_blocks b"
  shows "concat (save_puts (save_header ld e c p (blocks_at (e_geo e) p)) e c p (blocks_at (e_geo e) p))
    = encode (save_header ld e c p (blocks_at (e_geo e) p)) @ saved_payload e c b p"
proof -
  have db: "blocks_at (e_geo e) p \<le> e_context e" using blocks_at_le [of "e_geo e" p] p by simp
  note f = fits_fields [OF fit p db]
  show ?thesis
    unfolding save_puts_def saved_payload_def file_groups_def file_layers_def f b by simp
qed

text \<open>The checks of a restore on the file of a save of the same load.\<close>

lemma live_header_same: "same_cfg e e2 \<Longrightarrow> cshape c2 = cshape c \<Longrightarrow> live_header ld e2 c2 = live_header ld e c"
  by (simp add: live_header_def same_cfg_def Let_def)

lemma div4_word: "n < 2 ^ 64 \<Longrightarrow> (of_nat n :: u64) div 4 = of_nat (n div 4)"
  by (rule word_unat_eq_iff [THEN iffD2]) (simp add: unat_div unat_of_nat64 le_less_trans [OF div_le_dividend])

lemma restore_check_saved:
  assumes fit: "load_fits ld e c" and rows: "device_rows ld e" and dims: "slot_dims c" and b: "prompt_state_blocks c = state_blocks b"
    and four: "four (e_geo e)" and p: "0 < p" "p \<le> e_context e" "p \<le> length (e_history e)"
    and other: "same_cfg e e2" "cshape c2 = cshape c" "enabled c2" "slot_dims c2"
    and fl: "d path = Some (encode (save_header ld e c p (blocks_at (e_geo e) p)) @ saved_payload e c b p)"
  shows "restore_check ld e2 c2 path f d = Inr (save_header ld e c p (blocks_at (e_geo e) p), saved_payload e c b p)
    \<or> (\<exists>er. restore_check ld e2 c2 path f d = Inl er \<and> (rf_open f \<or> rf_head f \<or> rf_stat f))"
proof -
  let ?db = "blocks_at (e_geo e) p" let ?h = "save_header ld e c p (blocks_at (e_geo e) p)"
  have db: "?db \<le> e_context e" using blocks_at_le [of "e_geo e" p] p(2) by simp
  note f = fits_fields [OF fit p(2) db] and sz = fits_size [OF fit p(2) db]
  have dec: "decode (encode ?h) = Inr ?h"
    using slot_header_roundtrip_fact [of ?h "[]"] by (simp add: save_header_def live_header_def Let_def FORMAT_VERSION_def)
  have live: "live_header ld e2 c2 = live_header ld e c" by (rule live_header_same [OF other(1,2)])
  have sm: "shape_matches ?h (live_header ld e c) = None" by (simp add: shape_matches_def shape_rows_def save_header_def)
  have n64: "e_context e < 2 ^ 64" using fit unfolding load_fits_def Let_def by blast
  have p64: "p < 2 ^ 64" using n64 p(2) by simp
  have "check_content ?h (live_header ld e c) = None"
  proof -
    have "n_ctx (live_header ld e c) = n_ctx ?h" "h_pooled_row_bytes (live_header ld e c) = h_pooled_row_bytes ?h" by (simp_all add: save_header_def)
    moreover have "h_pos ?h \<noteq> 0" using f(4) p(1) by (metis less_irrefl unat_0)
    moreover have "\<not> n_ctx ?h < h_pos ?h" using f(4,8) p(2) by (simp add: word_less_nat_alt)
    moreover have "done_blocks ?h = (if h_pooled_row_bytes ?h = 0 then 0 else h_pos ?h div 4)"
      using four_blocks [OF four, of p] f(10) div4_word [OF p64] by (simp add: save_header_def)
    moreover have "history_len ?h = h_pos ?h" by (simp add: save_header_def)
    moreover have "file_bytes_checked ?h \<noteq> None" using sz by simp
    ultimately show ?thesis by (simp add: check_content_def Let_def)
  qed
  note cc = this
  have ps: "length (saved_payload e c b p) = payload_size ?h" by (rule saved_size [OF rows dims b p(3) fit p(2)])
  have pb: "of_nat (length (saved_payload e c b p)) = payload_bytes ?h"
  proof -
    obtain n where n: "payload_bytes_checked ?h = Some n" using sz file_bytes_exact by blast
    then have "unat n = payload_size ?h" by (rule payload_bytes_exact)
    moreover have "of_nat (unat n) = n" by simp
    ultimately have "of_nat (payload_size ?h) = n" by simp
    with n ps show ?thesis by (simp add: payload_bytes_def)
  qed
  have st: "of_nat (sum_list (map (\<lambda>b. length b * 4) (prompt_state_blocks c2))) = state_bytes ?h"
    using other(2,4) by (simp add: slot_dims_def save_header_def live_header_def Let_def)
  show ?thesis
    unfolding restore_check_def Let_def live fl option.case using other(3) dec sm cc pb st by simp
qed

lemma save_file:
  assumes s: "save pid ld e c path f d = (Inr sv, d')" and slot: "prompt_slot c = Some (p, db)"
  shows "enabled c \<and> 0 < p \<and> p \<le> length (e_history e) \<and> n_saved sv = p
    \<and> d' path = Some (concat (save_puts (save_header ld e c p db) e c p db))
    \<and> n_written sv = of_nat (length (concat (save_puts (save_header ld e c p db) e c p db)))"
  using save_cases [OF s]
proof (elim disjE exE conjE)
  fix p' db' h
  assume *: "enabled c" "prompt_slot c = Some (p', db')" "0 < p'" "p' \<le> length (e_history e)" "h = save_header ld e c p' db'"
    "write_out f (temp_path pid path) path h p' (save_puts h e c p' db') d = (Inr sv, d')"
  have "p' = p" "db' = db" using *(2) slot by auto
  with * write_out_cases [OF *(6)] show ?thesis by auto
qed auto

lemma same_dims_slot_dims:
  assumes "slot_dims c" and "slots c = s # ss" and "slots c2 = s2 # ss2" and "same_dims (s_bufs s2) (s_bufs s)" and "cshape c2 = cshape c"
  shows "slot_dims c2"
proof -
  have "map (\<lambda>b. length b * 4) (state_blocks b) = map (\<lambda>n. n * 4) (map length (state_blocks b))" for b by simp
  then show ?thesis
    using assms same_dims_blocks [OF assms(4)] by (simp add: slot_dims_def prompt_state_blocks_def del: map_map)
qed

lemma restore_of_save:
  assumes s: "save pid ld e c path f d = (Inr sv, d')" and slot: "slots c = s0 # ss" "prompt_slot c = Some (p, blocks_at (e_geo e) p)"
    and p: "p \<le> e_context e" and fit: "load_fits ld e c" and rows: "device_rows ld e" and dims: "slot_dims c" and four: "four (e_geo e)"
    and other: "same_cfg e e2" "cshape c2 = cshape c" "enabled c2" "slots c2 = s2 # ss2" "same_dims (s_bufs s2) (s_bufs s0)"
    and r: "restore ld e2 c2 path rf d' = (res, c3, e3)"
  shows "(rf = \<lparr>rf_open = False, rf_head = False, rf_stat = False, rf_works = None\<rparr> \<longrightarrow> (\<exists>rs. res = Inr rs))
    \<and> (\<forall>rs. res = Inr rs \<longrightarrow> n_restored rs = p \<and> n_saved sv = p \<and> of_nat (n_read rs) = n_written sv \<and> p \<le> length (e_history e)
      \<and> c3 = set_prompt_slot (with_bufs (invalidate c2) (s_bufs s0)) p (blocks_at (e_geo e) p)
      \<and> e3 = (drop_decode_graph e2)\<lparr>e_kv := upload_kv (zip (file_groups e c) (map (\<lambda>gr. map (e_kv e gr) [0..<p]) (file_groups e c))) (e_kv e2),
          e_pooled := upload_pooled (zip (file_layers e c) (map (\<lambda>l. map (e_pooled e l) [0..<blocks_at (e_geo e) p]) (file_layers e c))) (e_pooled e2),
          e_pos := p, e_done := blocks_at (e_geo e) p, e_history := take p (e_history e), e_images := [], e_route := []\<rparr>)"
proof -
  let ?db = "blocks_at (e_geo e) p" let ?h = "save_header ld e c p (blocks_at (e_geo e) p)"
  have b: "prompt_state_blocks c = state_blocks (s_bufs s0)" by (simp add: prompt_state_blocks_def slot(1))
  note sf = save_file [OF s slot(2)]
  have db: "?db \<le> e_context e" using blocks_at_le [of "e_geo e" p] p by simp
  note f = fits_fields [OF fit p db]
  have h: "0 < p" "p \<le> length (e_history e)" using sf by auto
  have fl: "d' path = Some (encode ?h @ saved_payload e c (s_bufs s0) p)"
    using sf by (simp add: save_puts_payload [OF fit p b])
  have nw: "n_written sv = of_nat (HEADER_BYTES + length (saved_payload e c (s_bufs s0) p))"
    using sf by (simp add: save_puts_payload [OF fit p b])
  have sd: "slot_dims c2" by (rule same_dims_slot_dims [OF dims slot(1) other(4,5,2)])
  consider (ok) "restore_check ld e2 c2 path rf d' = Inr (?h, saved_payload e c (s_bufs s0) p)"
    | (bad) er where "restore_check ld e2 c2 path rf d' = Inl er" "rf_open rf \<or> rf_head rf \<or> rf_stat rf"
    using restore_check_saved [where d = d' and path = path and f = rf, OF fit rows dims b four h(1) p h(2) other(1-3) sd fl] by blast
  then show ?thesis
  proof cases
    case bad
    with r show ?thesis by (auto simp: restore_def)
  next
    case ok
    define order where "order = kv_row_order (unat (attn_layers ?h)) (g_kv_heads (e_geo e2))"
    define layers where "layers = [0..<if h_pooled_row_bytes ?h = 0 then 0 else unat (attn_layers ?h)]"
    have o: "order = file_groups e c" using other(1) by (simp add: order_def file_groups_def f same_cfg_def)
    have l: "layers = file_layers e c" unfolding layers_def file_layers_def f ..
    have pay: "saved_payload e c (s_bufs s0) p = concat (map f32_bytes (state_blocks (s_bufs s0)))
        @ concat (map (\<lambda>gr. concat (map (e_kv e gr) [0..<unat (h_pos ?h)])) order)
        @ concat (map (\<lambda>l. concat (map (e_pooled e l) [0..<unat (done_blocks ?h)])) layers) @ concat (map (le_bytes 8) (take p (e_history e)))"
      by (simp add: saved_payload_def o l f)
    have rw: "restore_write ?h \<lparr>rd_rest = concat (map f32_bytes (state_blocks (s_bufs s0)))
        @ concat (map (\<lambda>gr. concat (map (e_kv e gr) [0..<unat (h_pos ?h)])) order)
        @ concat (map (\<lambda>l. concat (map (e_pooled e l) [0..<unat (done_blocks ?h)])) layers) @ concat (map (le_bytes 8) (take p (e_history e))),
        rd_works = rf_works rf, rd_n = 0\<rparr> e2 c2 = (res, c3, e3)"
      using r ok unfolding restore_def by (simp add: pay)
    have kv: "length (e_kv e gr i) = unat (kv_row_bytes ?h)" for gr i by (simp only: device_row [OF rows] f)
    have pd: "length (e_pooled e l i) = unat (h_pooled_row_bytes ?h)" for l i using rows by (simp only: device_rows_def f)
    have ids: "length (take p (e_history e)) = unat (history_len ?h)" using h by (simp add: f)
    from restore_write_ok [OF rw order_def layers_def kv pd ids other(4,5)]
    have w: "rf_works rf = None \<longrightarrow> (\<exists>rs. res = Inr rs)" "\<And>rs. res = Inr rs \<Longrightarrow> n_restored rs = unat (h_pos ?h)
      \<and> n_read rs = HEADER_BYTES + length (saved_payload e c (s_bufs s0) p)
      \<and> c3 = set_prompt_slot (with_bufs (invalidate c2) (s_bufs s0)) (unat (h_pos ?h)) (unat (done_blocks ?h))
      \<and> e3 = (drop_decode_graph e2)\<lparr>e_kv := upload_kv (zip order (map (\<lambda>gr. map (e_kv e gr) [0..<unat (h_pos ?h)]) order)) (e_kv e2),
          e_pooled := upload_pooled (zip layers (map (\<lambda>l. map (e_pooled e l) [0..<unat (done_blocks ?h)]) layers)) (e_pooled e2),
          e_pos := unat (h_pos ?h), e_done := unat (done_blocks ?h), e_history := take p (e_history e), e_images := [], e_route := []\<rparr>"
      unfolding pay by blast+
    show ?thesis
    proof (intro conjI allI impI)
      assume "rf = \<lparr>rf_open = False, rf_head = False, rf_stat = False, rf_works = None\<rparr>"
      then have "rf_works rf = None" by simp
      then show "\<exists>rs. res = Inr rs" using w(1) by blast
    qed (use w(2) sf nw h(2) in \<open>simp_all add: f o l\<close>)
  qed
qed

lemma upload_kv_map:
  assumes "distinct gs"
  shows "upload_kv (zip gs (map f gs)) kv gr = (if gr \<in> set gs then upload (f gr) (kv gr) else kv gr)"
proof (cases "gr \<in> set gs")
  case True
  then obtain j where "j < length gs" "gs ! j = gr" by (auto simp: in_set_conv_nth)
  with foldl_upload_nth [OF assms, of j "map f gs" kv] True show ?thesis by (simp add: upload_kv_def)
qed (simp add: upload_kv_def foldl_upload_other)

lemma upload_pooled_map:
  assumes "distinct ls"
  shows "upload_pooled (zip ls (map f ls)) pd l = (if l \<in> set ls then upload (f l) (pd l) else pd l)"
proof (cases "l \<in> set ls")
  case True
  then obtain j where "j < length ls" "ls ! j = l" by (auto simp: in_set_conv_nth)
  with foldl_upload_nth [OF assms, of j "map f ls" pd] True show ?thesis by (simp add: upload_pooled_def)
qed (simp add: upload_pooled_def foldl_upload_other)

lemma distinct_file: "distinct (file_groups e c)" "distinct (file_layers e c)"
  by (simp_all add: file_groups_def file_layers_def distinct_kv_row_order)

definition no_save_faults :: save_faults where
  "no_save_faults = \<lparr>sf_create = False, sf_put = None, sf_left = [], sf_flush = False, sf_rename = False, sf_remove = False, sf_stat = False\<rparr>"

definition no_restore_faults :: restore_faults where
  "no_restore_faults = \<lparr>rf_open = False, rf_head = False, rf_stat = False, rf_works = None\<rparr>"

lemma save_succeeds:
  assumes en: "enabled c" and slot: "slots c = s0 # ss" "prompt_slot c = Some (p, blocks_at (e_geo e) p)"
    and p: "0 < p" "p \<le> e_context e" "p \<le> length (e_history e)"
    and fit: "load_fits ld e c" and rows: "device_rows ld e" and dims: "slot_dims c"
  shows "\<exists>sv d'. save pid ld e c path no_save_faults d = (Inr sv, d')"
proof -
  let ?db = "blocks_at (e_geo e) p" let ?h = "save_header ld e c p (blocks_at (e_geo e) p)"
  have b: "prompt_state_blocks c = state_blocks (s_bufs s0)" by (simp add: prompt_state_blocks_def slot(1))
  have db: "?db \<le> e_context e" using blocks_at_le [of "e_geo e" p] p by simp
  have "of_nat (length (concat (save_puts ?h e c p ?db))) = file_bytes ?h"
    unfolding save_puts_payload [OF fit p(2) b] using fits_size [OF fit p(2) db] saved_size [OF rows dims b p(3) fit p(2)]
    by (simp add: file_bytes_def)
  then have "\<exists>sv d'. write_out no_save_faults (temp_path pid path) path ?h p (save_puts ?h e c p ?db) d = (Inr sv, d')"
    by (simp add: write_out_def no_save_faults_def put_all_def Let_def)
  moreover have "of_nat (sum_list (map (\<lambda>b. length b * 4) (prompt_state_blocks c))) = state_bytes ?h"
    using dims by (simp add: slot_dims_def save_header_def live_header_def Let_def)
  ultimately show ?thesis using en slot(2) p(1,3) by (simp add: save_def Let_def)
qed

text \<open>
  C20: A slot file gives the conversation back. A save on a held prompt state of a load whose
  sizes fit 64 bits succeeds when the disk does, and a restore of that file into any engine
  of the same load succeeds and holds the same position, the same recurrent buffers, the same
  KV rows and pooled blocks below it and the same ids; both report the same byte count.
\<close>

theorem slot_save_restore_roundtrip:
  assumes "enabled c" and "slots c = s0 # ss" and "prompt_slot c = Some (p, blocks_at (e_geo e) p)"
    and "0 < p" and "p \<le> e_context e" and "p \<le> length (e_history e)"
    and "load_fits ld e c" and "device_rows ld e" and "slot_dims c" and "four (e_geo e)"
    and "same_cfg e e2" and "cshape c2 = cshape c" and "enabled c2" and "slots c2 = s2 # ss2" and "same_dims (s_bufs s2) (s_bufs s0)"
  shows "\<exists>sv d' rs c3 e3. save pid ld e c path no_save_faults d = (Inr sv, d')
    \<and> restore ld e2 c2 path no_restore_faults d' = (Inr rs, c3, e3)
    \<and> n_saved sv = p \<and> n_restored rs = p \<and> of_nat (n_read rs) = n_written sv
    \<and> prompt_slot c3 = prompt_slot c \<and> prompt_state_blocks c3 = prompt_state_blocks c
    \<and> e_pos e3 = p \<and> e_done e3 = blocks_at (e_geo e) p \<and> e_history e3 = take p (e_history e)
    \<and> (\<forall>gr \<in> set (file_groups e c). map (e_kv e3 gr) [0..<p] = map (e_kv e gr) [0..<p])
    \<and> (\<forall>l \<in> set (file_layers e c). map (e_pooled e3 l) [0..<blocks_at (e_geo e) p] = map (e_pooled e l) [0..<blocks_at (e_geo e) p])"
proof -
  obtain sv d' where s: "save pid ld e c path no_save_faults d = (Inr sv, d')"
    using save_succeeds [OF assms(1-9)] by blast
  obtain res c3 e3 where r: "restore ld e2 c2 path no_restore_faults d' = (res, c3, e3)" by (metis prod_cases3)
  have *: "(no_restore_faults = \<lparr>rf_open = False, rf_head = False, rf_stat = False, rf_works = None\<rparr> \<longrightarrow> (\<exists>rs. res = Inr rs))
    \<and> (\<forall>rs. res = Inr rs \<longrightarrow> n_restored rs = p \<and> n_saved sv = p \<and> of_nat (n_read rs) = n_written sv \<and> p \<le> length (e_history e)
      \<and> c3 = set_prompt_slot (with_bufs (invalidate c2) (s_bufs s0)) p (blocks_at (e_geo e) p)
      \<and> e3 = (drop_decode_graph e2)\<lparr>e_kv := upload_kv (zip (file_groups e c) (map (\<lambda>gr. map (e_kv e gr) [0..<p]) (file_groups e c))) (e_kv e2),
          e_pooled := upload_pooled (zip (file_layers e c) (map (\<lambda>l. map (e_pooled e l) [0..<blocks_at (e_geo e) p]) (file_layers e c))) (e_pooled e2),
          e_pos := p, e_done := blocks_at (e_geo e) p, e_history := take p (e_history e), e_images := [], e_route := []\<rparr>)"
    by (rule restore_of_save [OF s assms(2,3,5,7-15) r])
  then obtain rs where rs: "res = Inr rs" by (auto simp: no_restore_faults_def)
  with * have q: "n_restored rs = p" "n_saved sv = p" "of_nat (n_read rs) = n_written sv"
    "c3 = set_prompt_slot (with_bufs (invalidate c2) (s_bufs s0)) p (blocks_at (e_geo e) p)"
    and e3: "e3 = (drop_decode_graph e2)\<lparr>e_kv := upload_kv (zip (file_groups e c) (map (\<lambda>gr. map (e_kv e gr) [0..<p]) (file_groups e c))) (e_kv e2),
          e_pooled := upload_pooled (zip (file_layers e c) (map (\<lambda>l. map (e_pooled e l) [0..<blocks_at (e_geo e) p]) (file_layers e c))) (e_pooled e2),
          e_pos := p, e_done := blocks_at (e_geo e) p, e_history := take p (e_history e), e_images := [], e_route := []\<rparr>" by blast+
  have c3: "prompt_slot c3 = prompt_slot c" "prompt_state_blocks c3 = prompt_state_blocks c"
    using assms(2,3,14) by (simp_all add: q(4) set_prompt_slot_def with_bufs_def prompt_slot_def prompt_state_blocks_def)
  have kv: "e_kv e3 gr i = e_kv e gr i" if "gr \<in> set (file_groups e c)" "i < p" for gr i
    using that by (simp add: e3 upload_kv_map distinct_file upload_def)
  have pd: "e_pooled e3 l i = e_pooled e l i" if "l \<in> set (file_layers e c)" "i < blocks_at (e_geo e) p" for l i
    using that by (simp add: e3 upload_pooled_map distinct_file upload_def)
  have "e_pos e3 = p" "e_done e3 = blocks_at (e_geo e) p" "e_history e3 = take p (e_history e)" by (simp_all add: e3)
  with s r rs q c3 kv pd show ?thesis by (intro exI [of _ sv] exI [of _ d'] exI [of _ rs] exI [of _ c3] exI [of _ e3]) auto
qed

definition demo_geo :: geo where
  "demo_geo = \<lparr>g_attn = Full, g_attn_layers = 1, g_gdn_layers = 0, g_kv_heads = 1, g_head_dim = 1, g_gdn_value_heads = 0,
     g_gdn_key_dim = 0, g_gdn_value_dim = 0, g_gdn_conv = 0, g_conv_kernel = 1, g_ple = False, g_residual_width = 0, g_vocab = 1\<rparr>"

definition demo_load :: slot_load where
  "demo_load = \<lparr>ld_family = 2, ld_fingerprint = 5, ld_path = ''m.cnq'', ld_n_hot = 0, ld_chunk = 4, ld_kv = Fp8E4m3\<rparr>"

definition demo_eng :: "i64 list \<Rightarrow> engine" where
  "demo_eng ids = \<lparr>e_geo = demo_geo, e_context = 64, e_ring_rows = 0, e_pos = length ids, e_done = 0, e_history = ids, e_images = [], e_route = [],
     e_bufs = \<lparr>gdn_s = [], gdn_conv = [], ple_state = [], qsa_ring = []\<rparr>, e_kv = (\<lambda>_ i. [of_nat i]), e_pooled = (\<lambda>_ _. []),
     e_logits = [], e_argmax = 0, e_graph = False\<rparr>"

definition demo_held :: "nat option \<Rightarrow> prefix_cache" where
  "demo_held p = \<lparr>enabled = True, cshape = with_geo demo_geo 0 1 0,
     slots = [\<lparr>s_pos = p, s_clean = True, s_done = 0, s_bufs = e_bufs (demo_eng []), s_logits = [], s_greedy = None,
       s_parked = False, s_head = False\<rparr>],
     park_cap = 2, cpark = None, park_kv = [], park_pooled = [], anchor = False\<rparr>"

lemma slot_save_restore_roundtrip_witness:
  "\<exists>sv d' rs c3 e3. save ''1'' demo_load (demo_eng [7, 8, 9]) (demo_held (Some 2)) ''s/a'' no_save_faults (\<lambda>_. None) = (Inr sv, d')
    \<and> restore demo_load (demo_eng []) (demo_held None) ''s/a'' no_restore_faults d' = (Inr rs, c3, e3)
    \<and> n_restored rs = 2 \<and> e_history e3 = [7, 8] \<and> prompt_slot c3 = Some (2, 0)"
proof -
  have b0: "blocks_at (e_geo (demo_eng ids)) p = 0" for ids p by (simp add: demo_eng_def demo_geo_def blocks_at_def)
  have h: "enabled (demo_held (Some 2))" "slots (demo_held (Some 2)) = hd (slots (demo_held (Some 2))) # []"
    "prompt_slot (demo_held (Some 2)) = Some (2, blocks_at (e_geo (demo_eng [7, 8, 9])) 2)" "0 < (2 :: nat)"
    "2 \<le> e_context (demo_eng [7, 8, 9])" "2 \<le> length (e_history (demo_eng [7, 8, 9]))"
    "load_fits demo_load (demo_eng [7, 8, 9]) (demo_held (Some 2))" "device_rows demo_load (demo_eng [7, 8, 9])"
    "slot_dims (demo_held (Some 2))" "four (e_geo (demo_eng [7, 8, 9]))" "same_cfg (demo_eng [7, 8, 9]) (demo_eng [])"
    "cshape (demo_held None) = cshape (demo_held (Some 2))" "enabled (demo_held None)"
    "slots (demo_held None) = hd (slots (demo_held None)) # []"
    "same_dims (s_bufs (hd (slots (demo_held None)))) (s_bufs (hd (slots (demo_held (Some 2)))))"
    unfolding b0
    by (simp_all add: demo_held_def demo_eng_def demo_geo_def demo_load_def prompt_slot_def load_fits_def device_rows_def slot_dims_def
        four_def same_cfg_def same_dims_def Let_def pooled_row_bytes_def with_geo_def snapshot_bytes_def HEADER_BYTES_def
        prompt_state_blocks_def state_blocks_def gdn_s_state_len_def gdn_conv_state_len_def ple_state_len_def)
  from slot_save_restore_roundtrip [OF h, of "''1''" "''s/a''" "\<lambda>_. None"] show ?thesis
    unfolding h(3) b0 by (elim exE conjE) (intro exI conjI, assumption+, simp_all add: demo_eng_def)
qed

definition demo_disk :: disk where
  "demo_disk q = (if q = ''s/a'' then Some [1, 2] else None)"

lemma demo_write_fails:
  "\<exists>d'. save ''1'' demo_load (demo_eng [7, 8, 9]) (demo_held (Some 2)) ''s/a'' (no_save_faults\<lparr>sf_put := Some 1\<rparr>) demo_disk
     = (Inl (Io ''write''), d')"
proof -
  let ?e = "demo_eng [7, 8, 9]" and ?c = "demo_held (Some 2)"
  have b: "prompt_state_blocks ?c = [[]]" by (simp add: demo_held_def demo_eng_def prompt_state_blocks_def state_blocks_def)
  have sb: "state_bytes (save_header demo_load ?e ?c 2 0) = 0"
    by (simp add: save_header_def live_header_def Let_def demo_held_def demo_geo_def with_geo_def snapshot_bytes_def
        gdn_s_state_len_def gdn_conv_state_len_def ple_state_len_def)
  have len: "1 < length (save_puts h ?e ?c p db)" for h p db by (simp add: save_puts_def b)
  have w: "\<exists>d'. write_out (no_save_faults\<lparr>sf_put := Some 1\<rparr>) t path h p (save_puts h' ?e ?c q db) d = (Inl (Io ''write''), d')"
    for t path h p h' q db d using len by (simp add: write_out_def put_all_def no_save_faults_def)
  have c: "enabled ?c" "prompt_slot ?c = Some (2, 0)" "length (e_history ?e) = 3"
    by (simp_all add: demo_held_def prompt_slot_def demo_eng_def)
  have "save ''1'' demo_load ?e ?c ''s/a'' f d = write_out f (temp_path ''1'' ''s/a'') ''s/a'' (save_header demo_load ?e ?c 2 0) 2
      (save_puts (save_header demo_load ?e ?c 2 0) ?e ?c 2 0) d" for f d
    unfolding save_def c(2) b Let_def by (simp add: c sb)
  then show ?thesis using w by metis
qed

lemma save_is_atomic_witness:
  "\<exists>d'. save ''1'' demo_load (demo_eng [7, 8, 9]) (demo_held (Some 2)) ''s/a'' (no_save_faults\<lparr>sf_put := Some 1\<rparr>) demo_disk
     = (Inl (Io ''write''), d') \<and> d' ''s/a'' = Some [1, 2] \<and> d' (temp_path ''1'' ''s/a'') = None"
proof -
  obtain d' where s: "save ''1'' demo_load (demo_eng [7, 8, 9]) (demo_held (Some 2)) ''s/a'' (no_save_faults\<lparr>sf_put := Some 1\<rparr>) demo_disk
     = (Inl (Io ''write''), d')" using demo_write_fails by blast
  note a = save_is_atomic [OF s]
  have "d' ''s/a'' = demo_disk ''s/a''" using a [THEN conjunct2, THEN conjunct2, THEN conjunct2, THEN conjunct2] by simp
  then have 1: "d' ''s/a'' = Some [1, 2]" by (simp add: demo_disk_def)
  have nf: "\<not> sf_remove (no_save_faults\<lparr>sf_put := Some 1\<rparr>)" by (simp add: no_save_faults_def)
  have "demo_disk (temp_path ''1'' ''s/a'') = None" by (simp add: demo_disk_def)
  with a [THEN conjunct2, THEN conjunct2, THEN conjunct1] nf have "d' (temp_path ''1'' ''s/a'') = None" by metis
  with s 1 show ?thesis by blast
qed

lemma restore_refuses_before_it_writes_witness:
  "\<exists>er. restore demo_load (demo_eng [5]) (demo_held (Some 1)) ''s/a'' no_restore_faults demo_disk
     = (Inl er, demo_held (Some 1), demo_eng [5])"
proof -
  have "\<exists>c' e'. restore demo_load (demo_eng [5]) (demo_held (Some 1)) ''s/a'' no_restore_faults demo_disk
     = (Inl (Io ''shorter than the header''), c', e')"
    by (simp add: restore_def restore_check_def no_restore_faults_def demo_disk_def demo_held_def HEADER_BYTES_def Let_def)
  then obtain c' e' where r: "restore demo_load (demo_eng [5]) (demo_held (Some 1)) ''s/a'' no_restore_faults demo_disk
     = (Inl (Io ''shorter than the header''), c', e')" by blast
  from restore_refuses_before_it_writes [OF r] have "c' = demo_held (Some 1)" "e' = demo_eng [5]" by simp_all
  with r show ?thesis by blast
qed

end
