(* ===== verification/PrefixCacheServe.thy ===== *)
theory PrefixCacheServe
  imports SlotFile
begin

text \<open>
  The serving states: boot, chat prompts, decode steps, dropped requests and slot file restores
  in any order. In every one of them a chat prompt never panics, and leaves the engine in the state a cold
  prefill of the same prompt leaves, whatever the cache reused.
\<close>

section \<open>The choice of a slot\<close>

definition slot_usable :: "bool list \<Rightarrow> nat \<Rightarrow> nat \<Rightarrow> nat \<Rightarrow> nat \<Rightarrow> bool" where
  "slot_usable logits l new_len i p \<longleftrightarrow> p \<le> l \<and> p \<le> new_len \<and> (p = new_len \<longrightarrow> i < length logits \<and> logits ! i)"

definition held :: "nat option list \<Rightarrow> nat \<Rightarrow> nat \<Rightarrow> bool" where
  "held ps i p \<longleftrightarrow> i < length ps \<and> ps ! i = Some p"

text \<open>The first longest usable slot.\<close>

definition best_slot :: "nat option list \<Rightarrow> bool list \<Rightarrow> nat \<Rightarrow> nat \<Rightarrow> nat \<times> nat \<Rightarrow> bool" where
  "best_slot ps logits l n = (\<lambda>(i, p). held ps i p \<and> slot_usable logits l n i p
     \<and> (\<forall>j q. held ps j q \<and> slot_usable logits l n j q \<longrightarrow> q \<le> p \<and> (q = p \<longrightarrow> i \<le> j)))"

definition best_so_far :: "nat option list \<Rightarrow> bool list \<Rightarrow> nat \<Rightarrow> nat \<Rightarrow> (nat \<times> nat) option \<Rightarrow> bool" where
  "best_so_far ps logits l n best = (case best of
     None \<Rightarrow> (\<forall>j q. held ps j q \<longrightarrow> \<not> slot_usable logits l n j q)
   | Some b \<Rightarrow> best_slot ps logits l n b)"

lemma held_snoc: "held (ps @ [x]) j q \<longleftrightarrow> held ps j q \<or> j = length ps \<and> x = Some q"
  by (auto simp: held_def nth_append less_Suc_eq)

lemma best_so_far_None: "best_so_far ps lg l n b \<Longrightarrow> best_so_far (ps @ [None]) lg l n b"
  by (auto simp: best_so_far_def best_slot_def held_snoc split: option.splits)

lemma best_so_far_unusable:
  "best_so_far ps lg l n b \<Longrightarrow> \<not> slot_usable lg l n (length ps) p \<Longrightarrow> best_so_far (ps @ [Some p]) lg l n b"
  by (auto simp: best_so_far_def best_slot_def held_snoc split: option.splits)

lemma best_so_far_usable:
  assumes b: "best_so_far ps lg l n b" and u: "slot_usable lg l n (length ps) p"
  shows "best_so_far (ps @ [Some p]) lg l n (case b of Some (j, q) \<Rightarrow> if p \<le> q then b else Some (length ps, p) | None \<Rightarrow> Some (length ps, p))"
proof -
  have lt: "held ps j q \<Longrightarrow> j \<le> length ps" for j q by (simp add: held_def)
  show ?thesis
  proof (cases b)
    case None
    with b u show ?thesis by (auto simp: best_so_far_def best_slot_def held_snoc)
  next
    case (Some a)
    obtain i q where a: "a = (i, q)" by (cases a)
    have q: "held ps i q" "slot_usable lg l n i q" and m: "\<And>j r. held ps j r \<Longrightarrow> slot_usable lg l n j r \<Longrightarrow> r \<le> q \<and> (r = q \<longrightarrow> i \<le> j)"
      using b by (auto simp: best_so_far_def best_slot_def Some a)
    show ?thesis
    proof (cases "p \<le> q")
      case True
      with q m lt [OF q(1)] show ?thesis by (auto simp: best_so_far_def best_slot_def held_snoc Some a)
    next
      case False
      with u m show ?thesis by (fastforce simp: best_so_far_def best_slot_def held_snoc Some a)
    qed
  qed
qed

lemma reuse_from_best:
  "best_so_far ps lg l n b \<Longrightarrow> best_so_far (ps @ qs) lg l n (reuse_from (length ps) qs lg l n b)"
proof (induction qs arbitrary: ps b)
  case (Cons x qs)
  show ?case
  proof (cases x)
    case None
    then show ?thesis using Cons.IH [OF best_so_far_None [OF Cons.prems]] by simp
  next
    case (Some p)
    let ?b = "case b of Some (j, q) \<Rightarrow> if p \<le> q then b else Some (length ps, p) | None \<Rightarrow> Some (length ps, p)"
    have "reuse_from (length ps) (x # qs) lg l n b
        = reuse_from (length (ps @ [x])) qs lg l n (if slot_usable lg l n (length ps) p then ?b else b)"
      unfolding Some by (auto simp: slot_usable_def)
    then show ?thesis
      using Cons.IH [OF best_so_far_usable [OF Cons.prems]] Cons.IH [OF best_so_far_unusable [OF Cons.prems]]
      by (cases "slot_usable lg l n (length ps) p") (auto simp: Some)
  qed
qed simp

lemma reuse_slot_best: "best_so_far ps lg l n (reuse_slot_with_logits ps lg l n)"
  using reuse_from_best [of "[]" lg l n None ps] by (simp add: reuse_slot_with_logits_def best_so_far_def held_def)

lemma reuse_slot_some:
  "reuse_slot_with_logits ps lg l n = Some (i, p) \<Longrightarrow> held ps i p \<and> slot_usable lg l n i p"
  using reuse_slot_best [of ps lg l n] by (auto simp: best_so_far_def best_slot_def)

section \<open>Decode steps\<close>

lemma decode_step_fields:
  "e_geo (decode_step K e x) = e_geo e" "e_ring_rows (decode_step K e x) = e_ring_rows e" "e_context (decode_step K e x) = e_context e"
  "e_history (decode_step K e x) = e_history e @ [x]" "e_pos (decode_step K e x) = Suc (e_pos e)" "e_images (decode_step K e x) = e_images e"
  by (simp_all add: decode_step_def write_step_def Let_def)

lemma decode_done:
  assumes "geo_ok (e_geo e) rr" and "e_done e = blocks_at (e_geo e) (e_pos e)"
  shows "e_done (decode_step K e x) = blocks_at (e_geo e) (Suc (e_pos e))"
proof (cases "g_attn (e_geo e)")
  case (Qsa h d k)
  with assms blocks_at_Suc [OF assms(1) Qsa, of "e_pos e"] show ?thesis
    by (auto simp: decode_step_def write_step_def Let_def geo_ok_def)
next
  case Full
  with assms show ?thesis by (simp add: decode_step_def write_step_def Let_def blocks_at_def)
qed

lemma decode_step_safe:
  assumes safe: "cache_safe K c e (inputs (e_history e) (e_images e))" and room: "e_pos e < e_context e"
  shows "cache_safe K c (decode_step K e x) (inputs (e_history e @ [x]) (e_images e))"
proof -
  let ?e = "decode_step K e x" let ?xs = "inputs (e_history e) (e_images e)"
  have ok: "eng_ok e" using safe by (simp add: cache_safe_def)
  have n: "length (e_history e) = e_pos e" using ok by (simp add: eng_ok_def)
  have t: "touched e ?e"
    by (auto simp: touched_def same_cfg_def decode_step_fields n) (auto simp: decode_step_def write_step_def Let_def)
  have "gdn_s (e_bufs ?e) = map (o_s (k_decode K e x)) [0..<length (gdn_s (e_bufs e))]"
    "gdn_conv (e_bufs ?e) = map (o_conv (k_decode K e x)) [0..<length (gdn_conv (e_bufs e))]"
    "qsa_ring (e_bufs ?e) = map (\<lambda>(l, rows). rows[e_pos e mod e_ring_rows e := o_ring (k_decode K e x) l]) (enumerate 0 (qsa_ring (e_bufs e)))"
    by (simp_all add: decode_step_def write_step_def Let_def)
  moreover have "e_done ?e = blocks_at (e_geo e) (Suc (e_pos e))"
    using ok by (intro decode_done [of e "e_ring_rows e"]) (simp_all add: eng_ok_def)
  ultimately have "eng_ok ?e"
    using ok room by (auto simp: eng_ok_def decode_step_fields in_set_enumerate_eq)
  moreover have "\<forall>s \<in> set (slots c). live_ok K ?e (?xs @ [input_at (e_history e @ [x]) (e_images e) (length (e_history e))]) s"
    using safe live_ok_touched [OF _ t] n by (auto simp: cache_safe_def)
  moreover have "park_ok K c ?e" using safe park_ok_touched [OF _ t ok] by (simp add: cache_safe_def)
  ultimately show ?thesis by (simp add: cache_safe_def inputs_snoc decode_step_fields input_at_def)
qed

section \<open>The slot a request rolls back to\<close>

lemma held_map: "held (map f ss) i p \<longleftrightarrow> i < length ss \<and> f (ss ! i) = Some p"
  by (auto simp: held_def)

lemma decide_live:
  assumes d: "decide_mm c hist hi ids imgs ex = D" and r: "d_reuse D = Some (slot, p)" and np: "\<not> d_parked D"
  shows "slot < length (slots c) \<and> \<not> s_parked (slots c ! slot) \<and> s_pos (slots c ! slot) = Some p
    \<and> p \<le> common_prefix_len_mm hist hi ids imgs \<and> p \<le> length ids
    \<and> (p = length ids \<longrightarrow> ex \<and> s_greedy (slots c ! slot) \<noteq> None)"
proof -
  let ?lg = "if ex then logits_held c else []"
  have "reuse_slot_with_logits (reuse_candidates c) ?lg (common_prefix_len_mm hist hi ids imgs) (length ids) = Some (slot, p)"
    using r np unfolding d [symmetric] decide_mm_def Let_def by (auto split: if_splits option.splits prod.splits)
  from reuse_slot_some [OF this] show ?thesis
    by (auto simp: reuse_candidates_def held_map slot_usable_def logits_held_def split: if_splits)
qed

lemma decide_parked:
  assumes d: "decide_mm c hist hi ids imgs ex = D" and r: "d_reuse D = Some (slot, p)" and pk: "d_parked D"
  shows "\<exists>k. cpark c = Some k \<and> slot < length (slots c) \<and> s_parked (slots c ! slot) \<and> s_pos (slots c ! slot) = Some p
    \<and> parked_usable p (max (pk_dirty k) (length hist)) (pk_rows k)
    \<and> p \<le> common_prefix_len_mm (pk_history k) (pk_images k) ids imgs \<and> p \<le> length ids
    \<and> (p = length ids \<longrightarrow> ex \<and> s_greedy (slots c ! slot) \<noteq> None)"
proof -
  let ?lg = "if ex then logits_held c else []"
  obtain k where k: "cpark c = Some k" and
    "reuse_slot_with_logits (parked_candidates c (max (pk_dirty k) (length hist))) ?lg
      (common_prefix_len_mm (pk_history k) (pk_images k) ids imgs) (length ids) = Some (slot, p)"
    using r pk unfolding d [symmetric] decide_mm_def Let_def by (auto split: if_splits option.splits prod.splits)
  from reuse_slot_some [OF this(2)] k show ?thesis
    by (auto simp: parked_candidates_def held_map slot_usable_def logits_held_def split: if_splits option.splits)
qed

lemma unpark_safe:
  assumes safe: "cache_safe K c e (inputs (e_history e) (e_images e))" and k: "cpark c = Some k"
    and s: "slot < length (slots c)" "s_parked (slots c ! slot)" "s_pos (slots c ! slot) = Some p"
    and u: "parked_usable p (max (pk_dirty k) (length (e_history e))) (pk_rows k)"
  shows "\<exists>c1 e1 c' e'. unpark c e = (c1, e1) \<and> e_history e1 = pk_history k \<and> e_images e1 = pk_images k
    \<and> rollback c1 e1 slot = Some (c', e') \<and> cache_safe K c' e' (take p (inputs (pk_history k) (pk_images k)))
    \<and> engine_cold K e' (take p (inputs (pk_history k) (pk_images k))) \<and> same_cfg e e'
    \<and> e_history e' = take p (pk_history k) \<and> s_greedy (slots c' ! slot) = s_greedy (slots c ! slot)
    \<and> slot_cold K e' (take p (inputs (pk_history k) (pk_images k))) (slots c' ! slot) p \<and> p \<le> length (pk_history k) \<and> anchor c' = anchor c"
proof -
  let ?d = "max (pk_dirty k) (length (e_history e))" let ?xs = "inputs (pk_history k) (pk_images k)"
  define c1 where "c1 = (let c1 = drop_live (c\<lparr>cpark := None\<rparr>) in c1\<lparr>slots := map (\<lambda>s. s\<lparr>s_parked := False\<rparr>) (slots c1)\<rparr>)"
  define e1 where "e1 = (let e1 = drop_decode_graph e in e1\<lparr>e_kv := upload_kv (zip (groups (e_geo e)) (park_kv c)) (e_kv e1),
          e_pooled := upload_pooled (zip [0..<qsa_layers (e_geo e)] (park_pooled c)) (e_pooled e1),
          e_history := pk_history k, e_images := pk_images k\<rparr>)"
  have un: "unpark c e = (c1, e1)" by (simp add: unpark_def adopt_parked_def k c1_def e1_def Let_def)
  have fr: "e_geo e1 = e_geo e" "e_ring_rows e1 = e_ring_rows e" "e_context e1 = e_context e" "e_history e1 = pk_history k"
    "e_images e1 = pk_images k" "e_kv e1 = upload_kv (zip (groups (e_geo e)) (park_kv c)) (e_kv e)"
    "e_pooled e1 = upload_pooled (zip [0..<qsa_layers (e_geo e)] (park_pooled c)) (e_pooled e)"
    by (simp_all add: e1_def Let_def drop_decode_graph_def)
  have cfg: "same_cfg e e1" by (simp add: same_cfg_def fr)
  have sl: "slots c1 = map (\<lambda>s. (if s_parked s then s else forget s)\<lparr>s_parked := False\<rparr>) (slots c)" "cpark c1 = None" "anchor c1 = anchor c"
    by (simp_all add: c1_def drop_live_def Let_def)
  have sh: "stash_shape c e k" and po: "\<And>s q. s \<in> set (slots c) \<Longrightarrow> s_parked s \<Longrightarrow> s_pos s = Some q \<Longrightarrow>
      slot_cold K e ?xs s q \<and> stash_ok K c e k ?d q"
    using safe by (auto simp: cache_safe_def park_ok_def k)
  have geo: "geo_ok (e_geo e) (e_ring_rows e)" using safe by (simp add: cache_safe_def eng_ok_def)
  have live: "\<forall>s \<in> set (slots c1). \<forall>q. \<not> s_parked s \<and> s_pos s = Some q \<and> q \<le> p \<longrightarrow> slot_cold K e1 ?xs s q"
  proof (intro ballI allI impI)
    fix s q assume s: "s \<in> set (slots c1)" and q: "\<not> s_parked s \<and> s_pos s = Some q \<and> q \<le> p"
    then obtain s0 where s0: "s0 \<in> set (slots c)" "s_parked s0" "s = s0\<lparr>s_parked := False\<rparr>"
      by (auto simp: sl(1) split: if_splits)
    with po [OF s0(1,2)] q have "slot_cold K e ?xs s0 q" by simp
    then show "slot_cold K e1 ?xs s q" by (simp add: slot_cold_cfg [OF cfg]) (simp add: slot_cold_def s0)
  qed
  have c: "slot_cold K e ?xs (slots c ! slot) p" "stash_ok K c e k ?d p" using po s nth_mem by blast+
  then have pl: "p \<le> length (pk_history k)" by (simp add: slot_cold_def)
  have rows: "rows_cold K e1 ?xs p"
    by (rule unpark_rows [OF sh c(2) pl u order_refl geo fr(1,6,7)])
  have s1: "slot < length (slots c1)" "\<not> s_parked (slots c1 ! slot)" "s_pos (slots c1 ! slot) = Some p"
    "s_greedy (slots c1 ! slot) = s_greedy (slots c ! slot)" using s by (simp_all add: sl)
  have pk1: "park_ok K c1 e1" by (auto simp: park_ok_def sl)
  have ctx: "length (e_history e1) \<le> e_context e1" using sh by (simp add: stash_shape_def fr)
  have geo1: "geo_ok (e_geo e1) (e_ring_rows e1)" using geo by (simp add: fr)
  have xs1: "?xs = inputs (e_history e1) (e_images e1)" by (simp add: fr)
  from rollback_safe [OF xs1 geo1 ctx s1(1-3) live rows pk1] obtain c' e' where
    "rollback c1 e1 slot = Some (c', e')" "cache_safe K c' e' (take p ?xs)" "engine_cold K e' (take p ?xs)"
    "same_cfg e1 e'" "e_history e' = take p (e_history e1)" "slots c' ! slot = slots c1 ! slot"
    "slot_cold K e' (take p ?xs) (slots c1 ! slot) p" "anchor c' = anchor c1" by blast
  then show ?thesis
    using un fr(4,5) s1(4) pl sl(3) same_cfg_trans [OF cfg] by (intro exI [of _ c1] exI [of _ e1] exI [of _ c'] exI [of _ e']) simp
qed



section \<open>The prompt of a request\<close>

text \<open>What no clause of the invariant reads: the images, the logits row, the greedy id.\<close>

lemma invariant_ignores:
  "cache_safe K c (e\<lparr>e_images := i\<rparr>) xs = cache_safe K c e xs" "engine_cold K (e\<lparr>e_images := i\<rparr>) xs = engine_cold K e xs"
  "cache_safe K c (e\<lparr>e_logits := r\<rparr>) xs = cache_safe K c e xs" "engine_cold K (e\<lparr>e_logits := r\<rparr>) xs = engine_cold K e xs"
  by (simp_all add: cache_safe_def engine_cold_def eng_ok_def live_ok_def park_ok_def slot_cold_def rows_cold_def stash_ok_def
      stash_shape_def cong: option.case_cong attn.case_cong)

text \<open>The engine after \<open>m\<close> prompt ids, its logits row that of the last one.\<close>

definition prompt_done :: "kernels \<Rightarrow> i64 list \<Rightarrow> image_span list \<Rightarrow> nat \<Rightarrow> nat \<Rightarrow> prefix_cache \<Rightarrow> engine \<Rightarrow> bool" where
  "prompt_done K prompt imgs m g c e \<longleftrightarrow>
     cache_safe K c e (inputs (take m prompt) imgs) \<and> engine_cold K e (inputs (take m prompt) imgs) \<and> e_history e = take m prompt
     \<and> logits_cold K (e_geo e) (e_logits e) g (inputs (take m prompt) imgs) (length (take m prompt))"

lemma prefill_until_safe:
  assumes safe: "cache_safe K c e (inputs (take p prompt) imgs)" "engine_cold K e (inputs (take p prompt) imgs)" "e_history e = take p prompt"
    and b: "p < b" "b \<le> length prompt" "length prompt \<le> e_context e" and chunk: "0 < chunk"
  shows "\<exists>d e'. prefill_until K imgs chunk stop e (drop p (take b prompt)) 0 = (e_argmax e', d, e') \<and> 0 < d \<and> p + d \<le> b
    \<and> ((\<forall>k. \<not> stop k) \<longrightarrow> p + d = b) \<and> prompt_done K prompt imgs (p + d) (e_argmax e') c e' \<and> same_cfg e e'"
proof -
  let ?ids = "drop p (take b prompt)"
  obtain d where d: "d \<le> length ?ids" "prefill_until K imgs chunk stop e ?ids 0
      = (e_argmax (prefill_chunk K imgs e (take d ?ids)), d, prefill_chunk K imgs e (take d ?ids))"
    "0 < d" "(\<forall>k. \<not> stop k) \<longrightarrow> d = length ?ids"
    using prefill_until_spec [OF chunk, of ?ids K imgs stop e 0] b by auto
  let ?e = "prefill_chunk K imgs e (take d ?ids)"
  have len: "length ?ids = b - p" using b by simp
  have "d \<le> b - p" using d(1) len by simp
  then have h: "e_history e @ take d ?ids = take (p + d) prompt"
    by (simp add: safe(3) drop_take take_add min_def)
  have ne: "take d ?ids \<noteq> []" using d(1,3) by auto
  have pos: "e_pos e = p" using safe(2) b by (simp add: engine_cold_def)
  have room: "e_pos e + length (take d ?ids) \<le> e_context e" using d(1) b pos by simp
  have "cache_safe K c ?e (inputs (take (p + d) prompt) imgs) \<and> engine_cold K ?e (inputs (take (p + d) prompt) imgs) \<and> same_cfg e ?e
      \<and> e_history ?e = take (p + d) prompt
      \<and> logits_cold K (e_geo e) (e_logits ?e) (e_argmax ?e) (inputs (take (p + d) prompt) imgs) (length (inputs (take (p + d) prompt) imgs))"
    using prefill_chunk_safe [OF safe(1,2) [folded safe(3)] room] ne by (simp add: Let_def h)
  then show ?thesis
    using d len b by (intro exI [of _ d] exI [of _ ?e]) (auto simp: prompt_done_def same_cfg_def)
qed

lemma prefill_with_safe:
  assumes safe: "cache_safe K c e (inputs (take p prompt) imgs)" "engine_cold K e (inputs (take p prompt) imgs)" "e_history e = take p prompt"
    and p: "p < length prompt" "length prompt \<le> e_context e" and chunk: "0 < pc_chunk cfg"
    and head: "\<forall>b. head = Some b \<longrightarrow> p < b \<and> b < length prompt"
  shows "\<exists>g n c' e'. prefill_with K cfg stop c e prompt imgs p head = (g, n, c', e') \<and> 0 < n \<and> p + n \<le> length prompt
    \<and> ((\<forall>k. \<not> stop k) \<longrightarrow> p + n = length prompt) \<and> prompt_done K prompt imgs (p + n) g c' e' \<and> same_cfg e e'"
proof (cases head)
  case None
  from prefill_until_safe [OF safe p(1) order_refl p(2) chunk, of stop] show ?thesis
    unfolding prefill_with_def None by auto
next
  case (Some b)
  have b: "p < b" "b < length prompt" using head Some by auto
  obtain d e1 where s1: "prefill_until K imgs (pc_chunk cfg) stop e (drop p (take b prompt)) 0 = (e_argmax e1, d, e1)" "0 < d" "p + d \<le> b"
    "(\<forall>k. \<not> stop k) \<longrightarrow> p + d = b" "prompt_done K prompt imgs (p + d) (e_argmax e1) c e1" "same_cfg e e1"
    using prefill_until_safe [OF safe b(1) less_imp_le [OF b(2)] p(2) chunk, of stop] by blast
  show ?thesis
  proof (cases "p + d < b")
    case True
    have "prefill_with K cfg stop c e prompt imgs p head = (e_argmax e1, d, c, e1)"
      using True by (simp add: prefill_with_def Some s1(1))
    then show ?thesis using s1 True b by (intro exI [of _ "e_argmax e1"] exI [of _ d] exI [of _ c] exI [of _ e1]) auto
  next
    case False
    then have db: "p + d = b" using s1(3) by simp
    let ?xs = "inputs (take b prompt) imgs" let ?c = "snapshot_head c e1 (e_argmax e1)"
    have "cache_safe K c e1 ?xs" "engine_cold K e1 ?xs" "e_history e1 = take b prompt"
      "logits_cold K (e_geo e1) (e_logits e1) (e_argmax e1) ?xs (length ?xs)"
      using s1(5) by (simp_all add: prompt_done_def db)
    then have s2: "cache_safe K ?c e1 ?xs" "engine_cold K e1 ?xs" "e_history e1 = take b prompt"
      using snapshot_safe [of K c e1 ?xs "e_argmax e1" True] by (simp_all add: snapshot_head_def)
    have ctx: "length prompt \<le> e_context e1" using p(2) s1(6) by (simp add: same_cfg_def)
    obtain d2 e2 where s3: "prefill_until K imgs (pc_chunk cfg) (\<lambda>n. stop (d + n)) e1 (drop b prompt) 0 = (e_argmax e2, d2, e2)"
      "b + d2 \<le> length prompt" "(\<forall>k. \<not> stop (d + k)) \<longrightarrow> b + d2 = length prompt"
      "prompt_done K prompt imgs (b + d2) (e_argmax e2) ?c e2" "same_cfg e1 e2"
      using prefill_until_safe [OF s2 b(2) order_refl ctx chunk, of "\<lambda>n. stop (d + n)"] by auto
    have eq: "p + (d + d2) = b + d2" using db by simp
    show ?thesis
    proof (intro exI conjI)
      show "prefill_with K cfg stop c e prompt imgs p head = (e_argmax e2, d + d2, ?c, e2)"
        using False by (simp add: prefill_with_def Some s1(1) s3(1) Let_def)
      show "prompt_done K prompt imgs (p + (d + d2)) (e_argmax e2) ?c e2" unfolding eq by (rule s3(4))
      show "same_cfg e e2" by (rule same_cfg_trans [OF s1(6) s3(5)])
      show "(\<forall>k. \<not> stop k) \<longrightarrow> p + (d + d2) = length prompt" unfolding eq using s3(3) by blast
    qed (use s1(2) s3(2) eq in simp_all)
  qed
qed

text \<open>The engine after the warm, the parked or the cold way to the first id to prefill.\<close>

lemma reuse_or_cold_safe:
  assumes safe: "cache_safe K c e (inputs (e_history e) (e_images e))"
    and D: "decide_mm c (e_history e) (e_images e) prompt imgs (\<not> pc_dump cfg) = D"
  shows "\<exists>p c1 e1. (case d_reuse D of
         Some (slot, p) \<Rightarrow>
          (let (c1, e1) = (if d_parked D then unpark c e else (c, e))
           in map_option (\<lambda>(c2, e2). (p, c2, e2)) (rollback c1 e1 slot))
       | None \<Rightarrow> (let (c1, e1) = cold_start c e (length prompt) in Some (0, c1, e1))) = Some (p, c1, e1)
    \<and> p = cached_n D \<and> cache_safe K c1 e1 (inputs (take p prompt) imgs) \<and> engine_cold K e1 (inputs (take p prompt) imgs)
    \<and> e_history e1 = take p prompt \<and> same_cfg e e1 \<and> p \<le> length prompt
    \<and> (\<forall>slot q. d_reuse D = Some (slot, q) \<and> q = length prompt \<longrightarrow> \<not> pc_dump cfg
        \<and> (\<exists>g. restore_logits c1 e1 slot = Some (g, e1\<lparr>e_logits := s_logits (slots c1 ! slot)\<rparr>)
              \<and> logits_cold K (e_geo e) (s_logits (slots c1 ! slot)) g (inputs (take p prompt) imgs) p))"
proof (cases "d_reuse D")
  case None
  from cold_start_safe [OF safe, of "length prompt"] show ?thesis
    unfolding None by (auto simp: cached_n_def None inputs_def)
next
  case (Some a)
  obtain slot p where a: "a = (slot, p)" by (cases a)
  have r: "d_reuse D = Some (slot, p)" using Some a by simp
  have cn: "cached_n D = p" by (simp add: cached_n_def r)
  have fin: ?thesis
    if un: "(if d_parked D then unpark c e else (c, e)) = (c1, e1)" and rb: "rollback c1 e1 slot = Some (c2, e2)"
      and p: "p \<le> common_prefix_len_mm h hi prompt imgs" "p \<le> length prompt"
      and ex: "p = length prompt \<longrightarrow> \<not> pc_dump cfg \<and> s_greedy (slots c2 ! slot) \<noteq> None"
      and st: "cache_safe K c2 e2 (take p (inputs h hi))" "engine_cold K e2 (take p (inputs h hi))" "e_history e2 = take p h"
        "slot_cold K e2 (take p (inputs h hi)) (slots c2 ! slot) p" "same_cfg e e2" for c1 e1 c2 e2 h hi
  proof -
    have i: "take p (inputs h hi) = inputs (take p prompt) imgs"
      using common_prefix_inputs [OF p(1)] by (simp add: take_inputs)
    have "take p h = take p prompt" using arg_cong [OF i, of "map fst"] by (simp add: take_inputs)
    moreover have "\<exists>g. restore_logits c2 e2 slot = Some (g, e2\<lparr>e_logits := s_logits (slots c2 ! slot)\<rparr>)
        \<and> logits_cold K (e_geo e) (s_logits (slots c2 ! slot)) g (inputs (take p prompt) imgs) p" if "p = length prompt"
    proof -
      from ex that obtain g where g: "s_greedy (slots c2 ! slot) = Some g" by blast
      have "logits_cold K (e_geo e) (s_logits (slots c2 ! slot)) g (take p (inputs h hi)) p"
        using st(4,5) g by (simp add: slot_cold_def same_cfg_def)
      then show ?thesis using g by (simp add: restore_logits_def i)
    qed
    ultimately show ?thesis using un rb p(2) ex st r cn
      by (intro exI [of _ p] exI [of _ c2] exI [of _ e2]) (auto simp: i)
  qed
  show ?thesis
  proof (cases "d_parked D")
    case False
    note dl = decide_live [OF D r False]
    let ?xs = "inputs (e_history e) (e_images e)"
    have ok: "eng_ok e" and pk: "park_ok K c e" using safe by (simp_all add: cache_safe_def)
    have live: "\<forall>s \<in> set (slots c). \<forall>q. \<not> s_parked s \<and> s_pos s = Some q \<and> q \<le> p \<longrightarrow> slot_cold K e ?xs s q"
      and rows: "rows_cold K e ?xs p"
      using safe dl nth_mem [of slot "slots c"] by (auto simp: cache_safe_def live_ok_def)
    have geo: "geo_ok (e_geo e) (e_ring_rows e)" "length (e_history e) \<le> e_context e" using ok by (simp_all add: eng_ok_def)
    from rollback_safe [OF refl geo _ _ _ live rows pk, of slot] dl obtain c' e' where
      "rollback c e slot = Some (c', e')" "cache_safe K c' e' (take p ?xs)" "engine_cold K e' (take p ?xs)" "same_cfg e e'"
      "e_history e' = take p (e_history e)" "slots c' ! slot = slots c ! slot" "slot_cold K e' (take p ?xs) (slots c ! slot) p" by blast
    then show ?thesis using dl False by (intro fin [of c e c' e' "e_history e" "e_images e"]) auto
  next
    case True
    from decide_parked [OF D r True] obtain k where k: "cpark c = Some k" "slot < length (slots c)" "s_parked (slots c ! slot)"
      "s_pos (slots c ! slot) = Some p" "parked_usable p (max (pk_dirty k) (length (e_history e))) (pk_rows k)"
      and dp: "p \<le> common_prefix_len_mm (pk_history k) (pk_images k) prompt imgs" "p \<le> length prompt"
        "p = length prompt \<longrightarrow> \<not> pc_dump cfg \<and> s_greedy (slots c ! slot) \<noteq> None" by auto
    from unpark_safe [OF safe k] obtain c1 e1 c' e' where
      "unpark c e = (c1, e1)" "rollback c1 e1 slot = Some (c', e')" "cache_safe K c' e' (take p (inputs (pk_history k) (pk_images k)))"
      "engine_cold K e' (take p (inputs (pk_history k) (pk_images k)))" "same_cfg e e'" "e_history e' = take p (pk_history k)"
      "s_greedy (slots c' ! slot) = s_greedy (slots c ! slot)"
      "slot_cold K e' (take p (inputs (pk_history k) (pk_images k))) (slots c' ! slot) p" by blast
    then show ?thesis using dp True by (intro fin [of c1 e1 c' e' "pk_history k" "pk_images k"]) auto
  qed
qed

lemma chat_prompt_safe:
  assumes safe: "cache_safe K c e (inputs (e_history e) (e_images e))"
    and p: "prompt \<noteq> []" "length prompt \<le> e_context e" and chunk: "0 < pc_chunk cfg"
  shows "\<exists>g n c' e' m. chat_prompt K cfg stop c e prompt imgs = Some (g, n, c', e')
    \<and> 0 < m \<and> m \<le> length prompt \<and> m = cached_n (decide_mm c (e_history e) (e_images e) prompt imgs (\<not> pc_dump cfg)) + n
    \<and> ((\<forall>k. \<not> stop k) \<longrightarrow> m = length prompt)
    \<and> prompt_done K prompt imgs m g c' e' \<and> e_images e' = imgs \<and> same_cfg e e'"
proof -
  define D where "D = decide_mm c (e_history e) (e_images e) prompt imgs (\<not> pc_dump cfg)"
  from reuse_or_cold_safe [OF safe D_def [symmetric]] obtain q c1 e1 where
    r: "(case d_reuse D of
         Some (slot, p) \<Rightarrow>
          (let (c1, e1) = (if d_parked D then unpark c e else (c, e))
           in map_option (\<lambda>(c2, e2). (p, c2, e2)) (rollback c1 e1 slot))
       | None \<Rightarrow> (let (c1, e1) = cold_start c e (length prompt) in Some (0, c1, e1))) = Some (q, c1, e1)"
    and q: "q = cached_n D" "q \<le> length prompt" and s1: "cache_safe K c1 e1 (inputs (take q prompt) imgs)"
      "engine_cold K e1 (inputs (take q prompt) imgs)" "e_history e1 = take q prompt" and cfg: "same_cfg e e1"
    and ex: "\<And>slot b. d_reuse D = Some (slot, b) \<Longrightarrow> b = length prompt \<Longrightarrow> \<not> pc_dump cfg
        \<and> (\<exists>g. restore_logits c1 e1 slot = Some (g, e1\<lparr>e_logits := s_logits (slots c1 ! slot)\<rparr>)
              \<and> logits_cold K (e_geo e) (s_logits (slots c1 ! slot)) g (inputs (take q prompt) imgs) q)" by blast
  define head where "head = (if anchor c1 \<and> imgs = [] \<and> \<not> pc_dump cfg
               then Option.bind (pc_turn cfg) (\<lambda>turn. anchor_point prompt turn q) else None)"
  have hd: "\<forall>b. head = Some b \<longrightarrow> q < b \<and> b < length prompt"
    by (auto simp: head_def anchor_point_def bind_eq_Some_conv split: if_splits)
  define X where "X = (case (d_reuse D, pc_dump cfg) of
             (Some (slot, p), False) \<Rightarrow> if p = length prompt then map_option (\<lambda>(g, e2). (g, 0, c1, e2)) (restore_logits c1 e1 slot)
               else Some (prefill_with K cfg stop c1 e1 prompt imgs q head)
           | _ \<Rightarrow> Some (prefill_with K cfg stop c1 e1 prompt imgs q head))"
  have cp: "chat_prompt K cfg stop c e prompt imgs = (case X of None \<Rightarrow> None
      | Some (next, n, c2, e2) \<Rightarrow> (let e3 = e2\<lparr>e_images := imgs\<rparr> in Some (next, n, take_snapshot c2 e3 True next, e3)))"
    unfolding chat_prompt_def D_def [symmetric] Let_def r [unfolded Let_def] X_def head_def by simp
  have "\<exists>g n c2 e2. X = Some (g, n, c2, e2) \<and> q + n \<le> length prompt \<and> 0 < q + n \<and> ((\<forall>k. \<not> stop k) \<longrightarrow> q + n = length prompt)
      \<and> prompt_done K prompt imgs (q + n) g c2 e2 \<and> same_cfg e e2"
  proof (cases "q = length prompt")
    case True
    then obtain slot where d: "d_reuse D = Some (slot, length prompt)"
      using q(1) p(1) by (auto simp: cached_n_def split: option.splits)
    from ex [OF d refl] obtain g where g: "\<not> pc_dump cfg"
      "restore_logits c1 e1 slot = Some (g, e1\<lparr>e_logits := s_logits (slots c1 ! slot)\<rparr>)"
      "logits_cold K (e_geo e) (s_logits (slots c1 ! slot)) g (inputs (take q prompt) imgs) q" by blast
    have "X = Some (g, 0, c1, e1\<lparr>e_logits := s_logits (slots c1 ! slot)\<rparr>)" using g d by (simp add: X_def)
    moreover have "prompt_done K prompt imgs (q + 0) g c1 (e1\<lparr>e_logits := s_logits (slots c1 ! slot)\<rparr>)"
      using s1 g(3) cfg True by (simp add: prompt_done_def invariant_ignores same_cfg_def)
    ultimately show ?thesis using True p(1) cfg
      by (intro exI [of _ g] exI [of _ 0] exI [of _ c1] exI [of _ "e1\<lparr>e_logits := s_logits (slots c1 ! slot)\<rparr>"])
        (auto simp: same_cfg_def)
  next
    case False
    with q have lt: "q < length prompt" by simp
    have ctx: "length prompt \<le> e_context e1" using p(2) cfg by (simp add: same_cfg_def)
    have xp: "X = Some (prefill_with K cfg stop c1 e1 prompt imgs q head)"
    proof (cases "d_reuse D")
      case (Some a)
      with False q(1) show ?thesis by (cases a; cases "pc_dump cfg") (simp_all add: X_def cached_n_def)
    qed (simp add: X_def)
    obtain g n c2 e2 where w: "prefill_with K cfg stop c1 e1 prompt imgs q head = (g, n, c2, e2)" "0 < n"
      "q + n \<le> length prompt" "(\<forall>k. \<not> stop k) \<longrightarrow> q + n = length prompt" "prompt_done K prompt imgs (q + n) g c2 e2" "same_cfg e1 e2"
      using prefill_with_safe [OF s1 lt ctx chunk hd, where stop = stop] by blast
    show ?thesis
    proof (intro exI conjI)
      show "X = Some (g, n, c2, e2)" unfolding xp w(1) ..
      show "0 < q + n" using w(2) by simp
      show "same_cfg e e2" by (rule same_cfg_trans [OF cfg w(6)])
    qed (rule w)+
  qed
  then obtain g n c2 e2 where x: "X = Some (g, n, c2, e2)" "q + n \<le> length prompt" "0 < q + n"
    "(\<forall>k. \<not> stop k) \<longrightarrow> q + n = length prompt" "prompt_done K prompt imgs (q + n) g c2 e2" "same_cfg e e2" by blast
  let ?e = "e2\<lparr>e_images := imgs\<rparr>" let ?c = "take_snapshot c2 ?e True g"
  have "prompt_done K prompt imgs (q + n) g ?c ?e"
    using x(5) snapshot_safe [of K c2 ?e "inputs (take (q + n) prompt) imgs" g False]
    by (simp add: prompt_done_def invariant_ignores take_snapshot_def)
  moreover have "chat_prompt K cfg stop c e prompt imgs = Some (g, n, ?c, ?e)" by (simp add: cp x(1) Let_def)
  moreover have "same_cfg e ?e" using x(6) by (simp add: same_cfg_def)
  moreover have "e_images ?e = imgs" by simp
  moreover have "q + n = cached_n D + n" using q(1) by simp
  ultimately show ?thesis using x(2-4) unfolding D_def [symmetric] by blast
qed

section \<open>The serving states\<close>

text \<open>Two servers of the same load, the first one with a state to save that holds no image.\<close>

definition same_load :: "slot_load \<Rightarrow> prefix_cache \<Rightarrow> engine \<Rightarrow> nat \<Rightarrow> prefix_cache \<Rightarrow> engine \<Rightarrow> bool" where
  "same_load ld c0 e0 p c e \<longleftrightarrow> load_fits ld e0 c0 \<and> device_rows ld e0 \<and> slot_dims c0 \<and> four (e_geo e0) \<and> same_cfg e0 e
     \<and> cshape c = cshape c0 \<and> sh_attn_layers (cshape c0) = g_attn_layers (e_geo e0) \<and> slots c \<noteq> []
     \<and> same_dims (s_bufs (hd (slots c))) (s_bufs (hd (slots c0))) \<and> (\<forall>sp \<in> set (e_images e0). p \<le> sp_start sp)"

text \<open>A dropped request may leave any state behind: \<open>guarded\<close> invalidates and resets it.\<close>

inductive serve_state :: "kernels \<Rightarrow> prefix_cache \<Rightarrow> engine \<Rightarrow> bool" for K :: kernels where
  boot: "eng_ok e \<Longrightarrow> e_history e = [] \<Longrightarrow> e_images e = [] \<Longrightarrow> serve_state K (cache_new e on anchor_var park_var) e"
| prompt: "serve_state K c e \<Longrightarrow> prompt \<noteq> [] \<Longrightarrow> length prompt \<le> e_context e \<Longrightarrow> 0 < pc_chunk cfg
    \<Longrightarrow> chat_prompt K cfg stop c e prompt imgs = Some (g, n, c', e') \<Longrightarrow> serve_state K c' e'"
| decode: "serve_state K c e \<Longrightarrow> e_pos e < e_context e \<Longrightarrow> serve_state K c (decode_step K e x)"
| restored: "serve_state K c e \<Longrightarrow> serve_state K c0 e0 \<Longrightarrow> save pid ld e0 c0 path f d0 = (Inr sv, d)
    \<Longrightarrow> same_load ld c0 e0 (n_saved sv) c e \<Longrightarrow> restore ld e c path rf d = (Inr rs, c', e') \<Longrightarrow> serve_state K c' e'"
| restore_failed: "serve_state K c e \<Longrightarrow> restore ld e c path rf d = (Inl er, c', e') \<Longrightarrow> serve_state K c' e'"
| dropped: "loaded e \<Longrightarrow> serve_state K (invalidate c) (reset_to_zero e)"

lemma cache_new_safe:
  assumes "eng_ok e" and "e_history e = []"
  shows "cache_safe K (cache_new e on an pv) e (inputs (e_history e) (e_images e))"
  using assms by (auto simp: cache_safe_def cache_new_def Let_def live_ok_def park_ok_def snapshot_new_def)

lemma inputs_no_image: "\<forall>sp \<in> set imgs. p \<le> sp_start sp \<Longrightarrow> take p (inputs ids imgs) = inputs (take p ids) []"
  unfolding take_inputs by (rule nth_equalityI) (fastforce simp: input_at_def)+

lemma prompt_slot_hd:
  "prompt_slot c = Some (p, db) \<Longrightarrow> \<exists>s ss. slots c = s # ss \<and> s_clean s \<and> \<not> s_parked s \<and> s_pos s = Some p \<and> s_done s = db"
  by (auto simp: prompt_slot_def split: list.splits if_splits)

text \<open>A restored state is safe: the slot and the rows are those of the state saved.\<close>

lemma restored_safe:
  assumes safe0: "cache_safe K c0 e0 (inputs (e_history e0) (e_images e0))" and ok: "eng_ok e"
    and s: "save pid ld e0 c0 path f d0 = (Inr sv, d)" and ld: "same_load ld c0 e0 (n_saved sv) c e" and en: "enabled c"
    and r: "restore ld e c path rf d = (Inr rs, c', e')"
  shows "cache_safe K c' e' (inputs (e_history e') (e_images e'))"
proof -
  let ?xs = "inputs (e_history e0) (e_images e0)"
  obtain p db where slot: "prompt_slot c0 = Some (p, db)" using save_cases [OF s] by auto
  then obtain s0 ss where s0: "slots c0 = s0 # ss" "s_clean s0" "\<not> s_parked s0" "s_pos s0 = Some p" "s_done s0 = db"
    using prompt_slot_hd by blast
  have cold: "slot_cold K e0 ?xs s0 p" and rows: "rows_cold K e0 ?xs p" using safe0 s0 by (auto simp: cache_safe_def live_ok_def)
  have p: "p \<le> length (e_history e0)" "p \<le> e_context e0" using cold safe0 by (auto simp: slot_cold_def cache_safe_def eng_ok_def)
  have db: "db = blocks_at (e_geo e0) p" using cold s0(5) by (simp add: slot_cold_def)
  have ns: "n_saved sv = p" using save_file [OF s slot] by simp
  have l: "load_fits ld e0 c0" "device_rows ld e0" "slot_dims c0" "four (e_geo e0)" "same_cfg e0 e" "cshape c = cshape c0"
    "sh_attn_layers (cshape c0) = g_attn_layers (e_geo e0)" "slots c = hd (slots c) # tl (slots c)"
    "same_dims (s_bufs (hd (slots c))) (s_bufs s0)" "\<forall>sp \<in> set (e_images e0). p \<le> sp_start sp"
    using ld s0(1) by (simp_all add: same_load_def ns)
  from restore_of_save [OF s s0(1) slot [unfolded db] p(2) l(1-6) en l(8,9) r]
  have c': "c' = set_prompt_slot (with_bufs (invalidate c) (s_bufs s0)) p db"
    and e': "e' = (drop_decode_graph e)\<lparr>e_kv := upload_kv (zip (file_groups e0 c0) (map (\<lambda>gr. map (e_kv e0 gr) [0..<p]) (file_groups e0 c0))) (e_kv e),
          e_pooled := upload_pooled (zip (file_layers e0 c0) (map (\<lambda>l. map (e_pooled e0 l) [0..<db]) (file_layers e0 c0))) (e_pooled e),
          e_pos := p, e_done := db, e_history := take p (e_history e0), e_images := [], e_route := []\<rparr>"
    by (simp_all add: db)
  have fr: "e_geo e' = e_geo e0" "e_ring_rows e' = e_ring_rows e0" "e_context e' = e_context e0" "e_history e' = take p (e_history e0)"
    "e_images e' = []" "e_pos e' = p" "e_done e' = db" "e_bufs e' = e_bufs e"
    using l(5) by (simp_all add: e' drop_decode_graph_def same_cfg_def)
  have cfg: "same_cfg e0 e'" by (simp add: same_cfg_def fr)
  have xs: "inputs (e_history e') (e_images e') = take p ?xs" unfolding fr using inputs_no_image [OF l(10)] by simp
  have "eng_ok e'" using ok l(5) p by (auto simp: eng_ok_def fr db same_cfg_def)
  have rows': "rows_cold K e' (take p ?xs) p"
    unfolding rows_cold_def fr
  proof (intro conjI ballI allI impI)
    fix gr i assume gr: "gr \<in> set (groups (e_geo e0))" and i: "i < p"
    have "gr \<in> set (file_groups e0 c0)" using gr l(7) by (simp add: file_groups_def groups_def)
    then have "e_kv e' gr i = e_kv e0 gr i" using i by (simp add: e' upload_kv_map distinct_file upload_def)
    with rows gr i show "e_kv e' gr i = kv_cold K (e_geo e0) (take p ?xs) i gr" by (simp add: rows_cold_def kv_cold_take)
  next
    fix ly b assume ly: "ly < qsa_layers (e_geo e0)" and b: "b < blocks_at (e_geo e0) p"
    have "ly \<in> set (file_layers e0 c0)"
      using ly l(4,7) by (auto simp: file_layers_def qsa_layers_def four_def pooled_row_bytes_def split: attn.splits)
    then have "e_pooled e' ly b = e_pooled e0 ly b" using b by (simp add: e' upload_pooled_map distinct_file upload_def db)
    with rows ly b show "e_pooled e' ly b = pooled_cold K (e_geo e0) (take p ?xs) b ly" by (simp add: rows_cold_def pooled_cold_take)
  qed
  define s' where "s' = (forget (hd (slots c)))\<lparr>s_parked := False, s_head := False, s_bufs := s_bufs s0, s_pos := Some p, s_clean := True,
      s_done := db, s_greedy := None, s_head := False\<rparr>"
  have sl: "slots c' = s' # map (\<lambda>s. (forget s)\<lparr>s_parked := False, s_head := False\<rparr>) (tl (slots c))" and pk: "cpark c' = None"
  proof -
    obtain s1 rest where s1: "slots c = s1 # rest" using l(8) by blast
    show "slots c' = s' # map (\<lambda>s. (forget s)\<lparr>s_parked := False, s_head := False\<rparr>) (tl (slots c))" "cpark c' = None"
      by (simp_all add: c' set_prompt_slot_def with_bufs_def s1 s'_def forget_def)
  qed
  have "slot_cold K e0 (take p ?xs) s' p"
    using slot_cold_take [of p p ?xs K e0 s0] cold p by (simp add: slot_cold_def s'_def db)
  then have "live_ok K e' (take p ?xs) s'" using rows' by (simp add: live_ok_def slot_cold_cfg [OF cfg]) (simp add: s'_def)
  then have live: "\<forall>s \<in> set (slots c'). live_ok K e' (take p ?xs) s" by (auto simp: sl live_ok_def)
  have "park_ok K c' e'" using pk by (auto simp: park_ok_def sl s'_def)
  moreover have "map fst (take p ?xs) = e_history e'" by (simp add: take_inputs fr)
  ultimately show ?thesis unfolding xs cache_safe_def using live \<open>eng_ok e'\<close> by blast
qed

lemma restore_failed_safe:
  assumes safe: "cache_safe K c e (inputs (e_history e) (e_images e))" and r: "restore ld e c path rf d = (Inl er, c', e')"
  shows "cache_safe K c' e' (inputs (e_history e') (e_images e'))"
  using restore_fails [OF r]
proof
  assume "c' = c \<and> e' = e"
  with safe show ?thesis by simp
next
  assume c: "claims_nothing c' \<and> host_same e e'"
  have "eng_ok e'" using safe c by (simp add: cache_safe_def eng_ok_def host_same_def same_cfg_def)
  with c safe show ?thesis
    by (auto simp: cache_safe_def live_ok_def park_ok_def claims_nothing_def host_same_def)
qed

lemma restore_enabled: "restore ld e c path rf d = (Inr rs, c', e') \<Longrightarrow> enabled c"
  by (auto simp: restore_def restore_check_def split: sum.splits if_splits)

lemma serve_state_safe: "serve_state K c e \<Longrightarrow> cache_safe K c e (inputs (e_history e) (e_images e))"
proof (induction rule: serve_state.induct)
  case (boot e on anchor_var park_var)
  then show ?case by (intro cache_new_safe)
next
  case (prompt c e prompt cfg stop imgs g n c' e')
  obtain g2 n2 c2 e2 m where "chat_prompt K cfg stop c e prompt imgs = Some (g2, n2, c2, e2)"
    "prompt_done K prompt imgs m g2 c2 e2" "e_images e2 = imgs"
    using chat_prompt_safe [OF prompt.IH prompt.hyps(2-4), where stop = stop and imgs = imgs] by (elim exE conjE)
  with prompt.hyps(5) show ?case by (simp add: prompt_done_def)
next
  case (decode c e x)
  then show ?case using decode_step_safe by (simp add: decode_step_fields)
next
  case (restored c e c0 e0 pid ld path f d0 sv d rf rs c' e')
  have "eng_ok e" using restored.IH(1) by (simp add: cache_safe_def)
  from restored_safe [OF restored.IH(2) this restored.hyps(3,4) restore_enabled [OF restored.hyps(5)] restored.hyps(5)] show ?case .
next
  case (restore_failed c e ld path rf d er c' e')
  then show ?case using restore_failed_safe by blast
next
  case (dropped e c)
  from drop_request_safe [OF this, of K c] show ?case
    by (simp add: reset_to_zero_def Let_def drop_decode_graph_def inputs_def)
qed

text \<open>Two engines in the cold state of the same inputs agree on everything a token may read.\<close>

lemma engine_cold_view:
  assumes a: "engine_cold K e xs" and b: "engine_cold K e' xs" and cfg: "same_cfg e e'" and ne: "xs \<noteq> []"
  shows "view_of e xs = view_of e' xs"
proof -
  have g: "e_geo e' = e_geo e" "e_ring_rows e' = e_ring_rows e" using cfg by (simp_all add: same_cfg_def)
  have ring: "ring_view (e_geo e) (e_ring_rows e) (qsa_ring (e_bufs e)) (length xs)
      = ring_view (e_geo e) (e_ring_rows e) (qsa_ring (e_bufs e')) (length xs)"
    using a b unfolding ring_view_def by (intro map_cong refl) (auto simp: engine_cold_def bufs_cold_def g)
  have kv: "kv_view e (length xs) = kv_view e' (length xs)"
    using a b unfolding kv_view_def g by (intro map_cong refl) (auto simp: engine_cold_def rows_cold_def g)
  have pd: "pooled_view e (blocks_at (e_geo e) (length xs)) = pooled_view e' (blocks_at (e_geo e) (length xs))"
    using a b unfolding pooled_view_def g by (intro map_cong refl) (auto simp: engine_cold_def rows_cold_def g)
  show ?thesis
    using a b ne by (simp add: view_of_def ring kv pd g) (simp add: engine_cold_def bufs_cold_def g)
qed

text \<open>
  C1: The prefix cache never changes the output. In every serving state a chat prompt of a
  length the context holds is served without a panic, and whatever the decision was (warm,
  parked or cold, with or without a head anchor, stopped early or not), the greedy id, the
  logits row, the position and everything the next token may read equal those of a cold
  prefill of the same prompt ids. The ids prefilled are exactly those not reused.
\<close>

theorem prefix_cache_never_changes_output:
  assumes "serve_state K c e" and "prompt \<noteq> []" and "length prompt \<le> e_context e" and "0 < pc_chunk cfg"
  shows "\<exists>g n c' e' m. chat_prompt K cfg stop c e prompt imgs = Some (g, n, c', e')
    \<and> 0 < m \<and> m \<le> length prompt \<and> ((\<forall>k. \<not> stop k) \<longrightarrow> m = length prompt)
    \<and> m = cached_n (decide_mm c (e_history e) (e_images e) prompt imgs (\<not> pc_dump cfg)) + n
    \<and> (let cold = prefill_chunk K imgs (reset_to_zero e) (take m prompt); xs = inputs (take m prompt) imgs in
        g = e_argmax cold \<and> e_logits e' = e_logits cold \<and> e_pos e' = e_pos cold \<and> e_done e' = e_done cold
        \<and> e_history e' = e_history cold \<and> e_images e' = imgs \<and> view_of e' xs = view_of cold xs)"
proof -
  obtain g n c' e' m where r: "chat_prompt K cfg stop c e prompt imgs = Some (g, n, c', e')" "0 < m" "m \<le> length prompt"
    "m = cached_n (decide_mm c (e_history e) (e_images e) prompt imgs (\<not> pc_dump cfg)) + n"
    "(\<forall>k. \<not> stop k) \<longrightarrow> m = length prompt" "prompt_done K prompt imgs m g c' e'" "e_images e' = imgs" "same_cfg e e'"
    using chat_prompt_safe [OF serve_state_safe [OF assms(1)] assms(2-4), where stop = stop and imgs = imgs] by (elim exE conjE)
  let ?z = "reset_to_zero e" let ?cold = "prefill_chunk K imgs ?z (take m prompt)" let ?xs = "inputs (take m prompt) imgs"
  have ok: "eng_ok e" using serve_state_safe [OF assms(1)] by (simp add: cache_safe_def)
  have z: "e_history ?z = []" "e_pos ?z = 0" "same_cfg e ?z" "e_context ?z = e_context e"
    by (simp_all add: reset_to_zero_def Let_def drop_decode_graph_def same_cfg_def)
  have "engine_cold K ?z []"
    using ok by (auto simp: reset_to_zero_def Let_def drop_decode_graph_def engine_cold_def bufs_cold_def rows_cold_def eng_ok_def
      map_replicate_const)
  then have zc: "cache_safe K (invalidate c) ?z (inputs (e_history ?z) imgs)" "engine_cold K ?z (inputs (e_history ?z) imgs)"
    using drop_request_safe [OF eng_ok_loaded [OF ok], of K c] by (simp_all add: z inputs_def)
  have room: "e_pos ?z + length (take m prompt) \<le> e_context ?z" using r(3) assms(3) by (simp add: z)
  have ne: "take m prompt \<noteq> []" using r(2) assms(2) by simp
  have cold: "cache_safe K (invalidate c) ?cold ?xs" "engine_cold K ?cold ?xs" "same_cfg ?z ?cold" "e_history ?cold = take m prompt"
    "logits_cold K (e_geo ?z) (e_logits ?cold) (e_argmax ?cold) ?xs (length ?xs)"
    using prefill_chunk_safe [OF zc room] ne by (simp_all add: Let_def z)
  have warm: "cache_safe K c' e' ?xs" "engine_cold K e' ?xs" "e_history e' = take m prompt"
    "logits_cold K (e_geo e') (e_logits e') g ?xs (length ?xs)" using r(6) by (simp_all add: prompt_done_def)
  have cfg: "same_cfg e' ?cold" using r(8) z(3) cold(3) by (simp add: same_cfg_def)
  have pos: "0 < length ?xs" using ne by simp
  have xne: "?xs \<noteq> []" by (rule iffD1 [OF length_greater_0_conv pos])
  have lg: "g = e_argmax ?cold \<and> e_logits e' = e_logits ?cold"
    using warm(4) cold(5) cfg cold(3) pos by (simp add: logits_cold_def same_cfg_def)
  have "e_pos e' = e_pos ?cold \<and> e_done e' = e_done ?cold"
    using warm(1,2) cold(1,2) cfg by (simp add: cache_safe_def eng_ok_def engine_cold_def same_cfg_def)
  moreover have "view_of e' ?xs = view_of ?cold ?xs" by (rule engine_cold_view [OF warm(2) cold(2) cfg xne])
  ultimately show ?thesis using r(1-5,7) lg warm(3) cold(4)
    by (intro exI [of _ g] exI [of _ n] exI [of _ c'] exI [of _ e'] exI [of _ m]) (simp add: Let_def)
qed

text \<open>A small engine for the examples: one full-attention layer, a context of 64.\<close>

definition toy_geo :: geo where
  "toy_geo = \<lparr>g_attn = Full, g_attn_layers = 1, g_gdn_layers = 0, g_kv_heads = 1, g_head_dim = 1, g_gdn_value_heads = 0,
     g_gdn_key_dim = 0, g_gdn_value_dim = 0, g_gdn_conv = 0, g_conv_kernel = 1, g_ple = False, g_residual_width = 0, g_vocab = 1\<rparr>"

definition toy_engine :: engine where
  "toy_engine = \<lparr>e_geo = toy_geo, e_context = 64, e_ring_rows = 0, e_pos = 0, e_done = 0, e_history = [], e_images = [], e_route = [],
     e_bufs = \<lparr>gdn_s = [], gdn_conv = [], ple_state = [], qsa_ring = []\<rparr>, e_kv = (\<lambda>_ _. []), e_pooled = (\<lambda>_ _. []),
     e_logits = [], e_argmax = 0, e_graph = False\<rparr>"

definition toy_out :: "nat \<Rightarrow> step_out" where
  "toy_out n = \<lparr>o_s = (\<lambda>_. []), o_conv = (\<lambda>_. []), o_ple = [], o_ring = (\<lambda>_. []), o_kv = (\<lambda>_. [of_nat n]),
     o_pooled = (\<lambda>_. []), o_logits = [of_nat n], o_argmax = n\<rparr>"

definition toy_kernels :: kernels where
  "toy_kernels = \<lparr>k_prefill = (\<lambda>v. toy_out (length (v_in v))), k_decode = (\<lambda>e x. toy_out (e_pos e))\<rparr>"

definition toy_cfg :: prompt_cfg where
  "toy_cfg = \<lparr>pc_chunk = 2, pc_turn = None, pc_dump = False\<rparr>"

lemma toy_boot: "serve_state toy_kernels (cache_new toy_engine True False None) toy_engine"
  by (rule serve_state.boot) (simp_all add: toy_engine_def toy_geo_def eng_ok_def geo_ok_def blocks_at_def qsa_layers_def)

lemma prefix_cache_never_changes_output_witness:
  "\<exists>g n c' e' m. chat_prompt toy_kernels toy_cfg (\<lambda>_. False) (cache_new toy_engine True False None) toy_engine [7, 8, 9] []
      = Some (g, n, c', e')
    \<and> m = 3 \<and> (let cold = prefill_chunk toy_kernels [] (reset_to_zero toy_engine) (take m [7, 8, 9]) in
        g = e_argmax cold \<and> e_history e' = [7, 8, 9])"
proof -
  have h: "[7, 8, 9] \<noteq> ([] :: i64 list)" "length ([7, 8, 9] :: i64 list) \<le> e_context toy_engine" "0 < pc_chunk toy_cfg"
    by (simp_all add: toy_engine_def toy_cfg_def)
  obtain g n c' e' m where r: "chat_prompt toy_kernels toy_cfg (\<lambda>_. False) (cache_new toy_engine True False None) toy_engine [7, 8, 9] []
      = Some (g, n, c', e')" "(\<forall>k :: nat. \<not> False) \<longrightarrow> m = length ([7, 8, 9] :: i64 list)"
    and c: "let cold = prefill_chunk toy_kernels [] (reset_to_zero toy_engine) (take m [7, 8, 9]); xs = inputs (take m [7, 8, 9]) [] in
        g = e_argmax cold \<and> e_logits e' = e_logits cold \<and> e_pos e' = e_pos cold \<and> e_done e' = e_done cold
        \<and> e_history e' = e_history cold \<and> e_images e' = [] \<and> view_of e' xs = view_of cold xs"
    using prefix_cache_never_changes_output [OF toy_boot h, where stop = "\<lambda>_. False" and imgs = "[]"] by (elim exE conjE)
  have m: "m = 3" using r(2) by simp
  have hist: "e_history (prefill_chunk K imgs e ids) = e_history e @ ids" for K imgs e ids
    by (induction ids arbitrary: e) (simp_all add: prefill_chunk_def prefill_token_def Let_def advance_def write_step_def)
  from c have "g = e_argmax (prefill_chunk toy_kernels [] (reset_to_zero toy_engine) (take m [7, 8, 9]))" "e_history e' = [7, 8, 9]"
    by (simp_all add: Let_def hist m reset_to_zero_def drop_decode_graph_def)
  with r(1) m show ?thesis by (intro exI [of _ g] exI [of _ n] exI [of _ c'] exI [of _ e'] exI [of _ m]) (simp add: Let_def)
qed

end
