(* ===== verification/PrefixCacheRules.thy ===== *)
theory PrefixCacheRules
  imports PrefixCacheServe
begin

text \<open>
  What the decision rules of the prefix cache promise on their own: the prefix length, the
  slot chosen, the host memory of a parked conversation, and the reuse of a whole prompt
  asked for again.
\<close>

section \<open>The prefix length\<close>

lemma foldl_min_in: "foldl min l xs = l \<or> foldl min l xs \<in> set (xs :: nat list)"
proof (induction xs arbitrary: l)
  case (Cons y ys)
  from Cons [of "min l y"] show ?case by (auto simp: min_def split: if_splits)
qed simp

lemma common_prefix_len_le: "common_prefix_len a b \<le> min (length a) (length b)"
  using length_takeWhile_le [of "\<lambda>(x, y). x = y" "zip a b"] by (simp add: common_prefix_len_def)

lemma common_prefix_len_stops:
  "common_prefix_len a b < min (length a) (length b) \<Longrightarrow> a ! common_prefix_len a b \<noteq> b ! common_prefix_len a b"
  using nth_length_takeWhile [of "\<lambda>(x, y). x = y" "zip a b"] by (auto simp: common_prefix_len_def)

text \<open>
  The detection rule of the prefix cache is exact. Below the length it returns the held
  and the requested conversation have the same ids covered by the same images, and it stops
  only where the ids differ, where an image of one side alone starts, or where a side ends.
\<close>

theorem common_prefix_is_longest:
  assumes "common_prefix_len_mm a ai b bi = l"
  shows "take l (inputs a ai) = take l (inputs b bi) \<and> l \<le> length a \<and> l \<le> length b
    \<and> (l = length a \<or> l = length b \<or> a ! l \<noteq> b ! l \<or> (\<exists>sp. sp_start sp = l \<and> (sp \<in> set ai) \<noteq> (sp \<in> set bi)))"
proof -
  let ?L = "common_prefix_len a b"
  let ?odd = "concat (map (\<lambda>(mine, theirs). filter (\<lambda>sp. sp \<notin> set theirs) mine) [(ai, bi), (bi, ai)])"
  have le: "l \<le> ?L" using common_prefix_mm_le [of a ai b bi] assms by simp
  have t: "take l (inputs a ai) = take l (inputs b bi)" by (rule common_prefix_inputs) (simp add: assms)
  consider "l = ?L" | "l \<in> set (filter (\<lambda>s. s < ?L) (map sp_start ?odd))"
    using foldl_min_in [of ?L "filter (\<lambda>s. s < ?L) (map sp_start ?odd)"] assms
    unfolding common_prefix_len_mm_def Let_def by blast
  then have "l = length a \<or> l = length b \<or> a ! l \<noteq> b ! l \<or> (\<exists>sp. sp_start sp = l \<and> (sp \<in> set ai) \<noteq> (sp \<in> set bi))"
  proof cases
    case 1
    with common_prefix_len_stops [of a b] common_prefix_len_le [of a b] show ?thesis by (auto simp: min_def split: if_splits)
  next
    case 2
    then obtain sp where "sp \<in> set ?odd" "sp_start sp = l" by auto
    then show ?thesis by auto
  qed
  with t le common_prefix_len_le [of a b] show ?thesis by simp
qed

lemma common_prefix_is_longest_witness:
  "take 1 (inputs [1, 9, 9] [\<lparr>sp_start = 1, sp_len = 2, sp_hash = [3]\<rparr>]) = take 1 (inputs [1, 9, 9] [\<lparr>sp_start = 1, sp_len = 2, sp_hash = [4]\<rparr>])"
  using common_prefix_is_longest [of "[1, 9, 9]" "[\<lparr>sp_start = 1, sp_len = 2, sp_hash = [3]\<rparr>]" "[1, 9, 9]"
      "[\<lparr>sp_start = 1, sp_len = 2, sp_hash = [4]\<rparr>]" 1]
  by (simp add: common_prefix_len_mm_def common_prefix_len_def)

text \<open>
  A request rolls back to the first of the longest usable snapshots: one at or below the
  common prefix and below the prompt end (at the end only with its logits row held). A cold
  start is decided only when no held snapshot is usable.
\<close>

theorem reuse_slot_is_first_longest:
  "case reuse_slot_with_logits ps logits l new_len of
     Some (i, p) \<Rightarrow> held ps i p \<and> slot_usable logits l new_len i p
       \<and> (\<forall>j q. held ps j q \<and> slot_usable logits l new_len j q \<longrightarrow> q \<le> p \<and> (q = p \<longrightarrow> i \<le> j))
   | None \<Rightarrow> (\<forall>j q. held ps j q \<longrightarrow> \<not> slot_usable logits l new_len j q)"
  using reuse_slot_best [of ps logits l new_len] by (simp add: best_so_far_def best_slot_def split: option.splits prod.splits)

lemma reuse_slot_is_first_longest_witness:
  "\<not> slot_usable [] 5 8 0 7 \<and> reuse_slot_with_logits [Some 3, Some 5, Some 7] [] 5 8 = Some (1, 5)"
  using reuse_slot_is_first_longest [of "[Some 7]" "[]" 5 8]
  by (simp add: reuse_slot_with_logits_def Let_def held_def)

section \<open>A prompt asked for again\<close>

text \<open>The shape of the cache: which operations keep the number of slots.\<close>

definition same_shape :: "prefix_cache \<Rightarrow> prefix_cache \<Rightarrow> bool" where
  "same_shape c c' \<longleftrightarrow> enabled c' = enabled c \<and> length (slots c') = length (slots c)"

lemma same_shape_trans: "same_shape a b \<Longrightarrow> same_shape b c \<Longrightarrow> same_shape a c"
  by (simp add: same_shape_def)

lemma claim_shape: "slots c \<noteq> [] \<Longrightarrow> same_shape c (claim c p h)"
  using claim_index_less [of c p h] by (simp add: claim_def Let_def same_shape_def)

lemma snapshot_shape: "same_shape c (snapshot_as c e b g h)"
proof (cases "\<not> enabled c \<or> slots c = []")
  case False
  then have "same_shape c (claim c (e_pos e) h)" by (simp add: claim_shape)
  moreover have "slots (claim c (e_pos e) h) \<noteq> []" using False claim_slots [of c "e_pos e" h] by auto
  ultimately show ?thesis using False by (simp add: snapshot_as_def Let_def same_shape_def)
qed (simp add: snapshot_as_def same_shape_def)

lemma cold_start_shape: "cold_start c e n = (c', e') \<Longrightarrow> same_shape c c'"
  by (auto simp: cold_start_def Let_def apply_cold_def invalidate_def drop_live_def note_written_def same_shape_def split: cold_plan.splits)

lemma unpark_shape: "unpark c e = (c', e') \<Longrightarrow> same_shape c c'"
  by (auto simp: unpark_def adopt_parked_def drop_live_def Let_def same_shape_def split: option.splits)

lemma rollback_shape: "rollback c e slot = Some (c', e') \<Longrightarrow> same_shape c c'"
  by (auto simp: rollback_def Let_def rolled_back_def note_written_def same_shape_def split: if_splits option.splits)

lemma prefill_with_shape: "prefill_with K cfg stop c e prompt imgs p head = (g, n, c', e') \<Longrightarrow> same_shape c c'"
  using snapshot_shape by (auto simp: prefill_with_def Let_def snapshot_head_def same_shape_def split: option.splits prod.splits if_splits)

lemma chat_prompt_top:
  assumes r: "chat_prompt K cfg stop c e prompt imgs = Some (g, n, c', e')" and en: "enabled c" and ne: "slots c \<noteq> []"
  shows "enabled c' \<and> (\<exists>s rest. slots c' = s # rest \<and> s_pos s = Some (e_pos e') \<and> s_clean s \<and> \<not> s_parked s \<and> s_greedy s = Some g)"
proof -
  define D where "D = decide_mm c (e_history e) (e_images e) prompt imgs (\<not> pc_dump cfg)"
  define A where "A = (case d_reuse D of
         Some (slot, p) \<Rightarrow>
          (let (c1, e1) = (if d_parked D then unpark c e else (c, e))
           in map_option (\<lambda>(c2, e2). (p, c2, e2)) (rollback c1 e1 slot))
       | None \<Rightarrow> (let (c1, e1) = cold_start c e (length prompt) in Some (0, c1, e1)))"
  define H where "H q c1 = (if anchor c1 \<and> imgs = [] \<and> \<not> pc_dump cfg
               then Option.bind (pc_turn cfg) (\<lambda>turn. anchor_point prompt turn q) else None)" for q and c1 :: prefix_cache
  define B where "B q c1 e1 = (case (d_reuse D, pc_dump cfg) of
             (Some (slot, p), False) \<Rightarrow> if p = length prompt then map_option (\<lambda>(g, e2). (g, 0 :: nat, c1, e2)) (restore_logits c1 e1 slot)
               else Some (prefill_with K cfg stop c1 e1 prompt imgs q (H q c1))
           | _ \<Rightarrow> Some (prefill_with K cfg stop c1 e1 prompt imgs q (H q c1)))" for q c1 e1
  have "chat_prompt K cfg stop c e prompt imgs = (case A of None \<Rightarrow> None | Some (q, c1, e1) \<Rightarrow>
      (case B q c1 e1 of None \<Rightarrow> None | Some (nx, n, c2, e2) \<Rightarrow>
        (let e3 = e2\<lparr>e_images := imgs\<rparr> in Some (nx, n, take_snapshot c2 e3 True nx, e3))))"
    unfolding chat_prompt_def A_def B_def H_def D_def Let_def by (rule refl)
  with r obtain q c1 e1 n2 c2 e2 where a: "A = Some (q, c1, e1)" and b: "B q c1 e1 = Some (g, n2, c2, e2)" and 3: "c' = take_snapshot c2 e' True g"
    by (auto simp: Let_def split: option.splits)
  have 1: "same_shape c c1"
  proof (cases "d_reuse D")
    case None
    with a show ?thesis by (auto simp: A_def dest: cold_start_shape split: prod.splits)
  next
    case (Some sp)
    obtain slot p where sp: "sp = (slot, p)" by (cases sp)
    obtain cu eu where u: "(if d_parked D then unpark c e else (c, e)) = (cu, eu)" by (metis surj_pair)
    have "same_shape c cu" using u unpark_shape by (auto simp: same_shape_def split: if_splits)
    moreover have "rollback cu eu slot = Some (c1, e1)" using a by (auto simp: A_def Some sp u)
    ultimately show ?thesis using rollback_shape same_shape_trans by blast
  qed
  have 2: "same_shape c1 c2"
    using b prefill_with_shape by (fastforce simp: B_def restore_logits_def same_shape_def split: option.splits bool.splits if_splits)
  from 1 2 en ne have "enabled c2" "slots c2 \<noteq> []" by (auto simp: same_shape_def)
  then show ?thesis
    using claim_slots [of c2 "e_pos e'" False]
    by (auto simp: 3 take_snapshot_def snapshot_as_def Let_def name_slot_def copy_bufs_def)
qed

lemma cached_of_top:
  assumes s: "slots c = s # rest" "s_pos s = Some (length prompt)" "s_clean s" "\<not> s_parked s" "s_greedy s \<noteq> None"
    and en: "enabled c" and h: "common_prefix_len_mm hist hi prompt imgs = length prompt"
  shows "length prompt \<le> cached_n (decide_mm c hist hi prompt imgs True)"
proof -
  let ?r = "reuse_slot_with_logits (reuse_candidates c) (logits_held c) (length prompt) (length prompt)"
  have u: "held (reuse_candidates c) 0 (length prompt)" "slot_usable (logits_held c) (length prompt) (length prompt) 0 (length prompt)"
    using s by (simp_all add: held_def reuse_candidates_def slot_usable_def logits_held_def)
  then obtain i p where "?r = Some (i, p)" and p: "length prompt \<le> p"
    using reuse_slot_best [of "reuse_candidates c" "logits_held c" "length prompt" "length prompt"]
    by (auto simp: best_so_far_def best_slot_def split: option.splits)
  then show ?thesis
    using en by (auto simp: decide_mm_def Let_def h cached_n_def split: option.splits)
qed

lemma decode_steps_state:
  "serve_state K c e \<Longrightarrow> e_pos e + length ys \<le> e_context e \<Longrightarrow>
   serve_state K c (foldl (decode_step K) e ys) \<and> e_history (foldl (decode_step K) e ys) = e_history e @ ys
   \<and> e_images (foldl (decode_step K) e ys) = e_images e \<and> same_cfg e (foldl (decode_step K) e ys)"
proof (induction ys arbitrary: e)
  case (Cons y ys)
  have "serve_state K c (decode_step K e y)" using Cons.prems by (intro serve_state.decode) simp_all
  from Cons.IH [OF this] Cons.prems show ?case
    by (simp add: decode_step_fields same_cfg_def)
qed simp

lemma same_cfg_prompt: "chat_prompt K cfg stop c e prompt imgs = Some (g, n, c', e') \<Longrightarrow> serve_state K c e \<Longrightarrow> prompt \<noteq> []
    \<Longrightarrow> length prompt \<le> e_context e \<Longrightarrow> 0 < pc_chunk cfg \<Longrightarrow>
  same_cfg e e' \<and> e_images e' = imgs \<and> (\<exists>m \<le> length prompt. prompt_done K prompt imgs m g c' e' \<and> 0 < m \<and> n \<le> m
    \<and> m = cached_n (decide_mm c (e_history e) (e_images e) prompt imgs (\<not> pc_dump cfg)) + n \<and> ((\<forall>k. \<not> stop k) \<longrightarrow> m = length prompt))"
proof -
  assume a: "chat_prompt K cfg stop c e prompt imgs = Some (g, n, c', e')" "serve_state K c e" "prompt \<noteq> []"
    "length prompt \<le> e_context e" "0 < pc_chunk cfg"
  obtain g2 n2 c2 e2 m where r: "chat_prompt K cfg stop c e prompt imgs = Some (g2, n2, c2, e2)" "0 < m" "m \<le> length prompt"
    "m = cached_n (decide_mm c (e_history e) (e_images e) prompt imgs (\<not> pc_dump cfg)) + n2"
    "(\<forall>k. \<not> stop k) \<longrightarrow> m = length prompt" "prompt_done K prompt imgs m g2 c2 e2" "e_images e2 = imgs" "same_cfg e e2"
    using chat_prompt_safe [OF serve_state_safe [OF a(2)] a(3-5), where stop = stop and imgs = imgs] by (elim exE conjE)
  with a(1) show ?thesis by (intro conjI exI [of _ m]) simp_all
qed

text \<open>
  A prompt asked for again is answered from its snapshot: after a prompt ran to its end
  and any number of answer tokens were decoded, the same prompt with the same images
  prefills no token at all and yields the same greedy id.
\<close>

theorem repeated_prompt_prefills_nothing:
  assumes st: "serve_state K c e" and p: "prompt \<noteq> []" "length prompt + length ys \<le> e_context e" and chunk: "0 < pc_chunk cfg"
    and on: "enabled c" "slots c \<noteq> []" "\<not> pc_dump cfg"
    and first: "chat_prompt K cfg (\<lambda>_. False) c e prompt imgs = Some (g, n, c', e')"
  shows "\<exists>c2 e2. chat_prompt K cfg stop c' (foldl (decode_step K) e' ys) prompt imgs = Some (g, 0, c2, e2)
    \<and> e_history e2 = prompt \<and> e_logits e2 = e_logits e'"
proof -
  have len: "length prompt \<le> e_context e" using p(2) by simp
  have d1: "same_cfg e e'" "e_images e' = imgs" "prompt_done K prompt imgs (length prompt) g c' e'"
    using same_cfg_prompt [OF first st p(1) len chunk] by auto
  have h1: "e_history e' = prompt" "e_pos e' = length prompt" using d1(3) by (auto simp: prompt_done_def engine_cold_def)
  let ?e = "foldl (decode_step K) e' ys"
  have st1: "serve_state K c' e'" by (rule serve_state.prompt [OF st p(1) len chunk first])
  have "e_pos e' + length ys \<le> e_context e'" using p(2) d1(1) by (simp add: h1 same_cfg_def)
  from decode_steps_state [OF st1 this] have st2: "serve_state K c' ?e" "e_history ?e = prompt @ ys" "e_images ?e = imgs" "same_cfg e' ?e"
    by (simp_all add: h1 d1)
  have l: "common_prefix_len_mm (prompt @ ys) imgs prompt imgs = length prompt"
  proof -
    have "takeWhile (\<lambda>(x, y). x = y) (zip (prompt @ ys) prompt) = zip (prompt @ ys) prompt"
      by (auto simp: takeWhile_eq_all_conv zip_append1 set_zip)
    then have "length (takeWhile (\<lambda>(x, y). x = y) (zip (prompt @ ys) prompt)) = length prompt" by (simp only:) simp
    then show ?thesis by (simp add: common_prefix_len_mm_def common_prefix_len_def)
  qed
  obtain s rest where s: "slots c' = s # rest" "s_pos s = Some (e_pos e')" "s_clean s" "\<not> s_parked s" "s_greedy s = Some g" "enabled c'"
    using chat_prompt_top [OF first on(1,2)] by blast
  have cn: "length prompt \<le> cached_n (decide_mm c' (e_history ?e) (e_images ?e) prompt imgs (\<not> pc_dump cfg))"
    unfolding st2 using s h1(2) on(3) l cached_of_top [of c' s rest prompt "prompt @ ys" imgs imgs] by simp
  have len2: "length prompt \<le> e_context ?e" using len d1(1) st2(4) by (simp add: same_cfg_def)
  obtain g2 n2 c2 e2 m where r: "chat_prompt K cfg stop c' ?e prompt imgs = Some (g2, n2, c2, e2)" "0 < m" "m \<le> length prompt"
    "m = cached_n (decide_mm c' (e_history ?e) (e_images ?e) prompt imgs (\<not> pc_dump cfg)) + n2"
    "prompt_done K prompt imgs m g2 c2 e2" "e_images e2 = imgs" "same_cfg ?e e2"
    using chat_prompt_safe [OF serve_state_safe [OF st2(1)] p(1) len2 chunk, where stop = stop and imgs = imgs] by (elim exE conjE)
  have m: "m = length prompt" "n2 = 0" using r(3,4) cn by auto
  have "g2 = g \<and> e_logits e2 = e_logits e' \<and> e_history e2 = prompt"
    using d1(3) r(5,7) st2(4) p(1) by (simp add: prompt_done_def logits_cold_def m same_cfg_def)
  with r(1) m show ?thesis by (intro exI [of _ c2] exI [of _ e2]) simp
qed

lemma repeated_prompt_prefills_nothing_witness:
  "\<exists>g n c' e' c2 e2. chat_prompt toy_kernels toy_cfg (\<lambda>_. False) (cache_new toy_engine True False None) toy_engine [7, 8] [] = Some (g, n, c', e')
    \<and> chat_prompt toy_kernels toy_cfg (\<lambda>_. True) c' (foldl (decode_step toy_kernels) e' [5, 6]) [7, 8] [] = Some (g, 0, c2, e2)
    \<and> e_history e2 = [7, 8]"
proof -
  have h: "[7, 8] \<noteq> ([] :: i64 list)" "length ([7, 8] :: i64 list) + length ([5, 6] :: i64 list) \<le> e_context toy_engine" "0 < pc_chunk toy_cfg"
    "enabled (cache_new toy_engine True False None)" "slots (cache_new toy_engine True False None) \<noteq> []" "\<not> pc_dump toy_cfg"
    by (simp_all add: toy_engine_def toy_cfg_def cache_new_def Let_def SLOTS_def)
  have len: "length ([7, 8] :: i64 list) \<le> e_context toy_engine" using h(2) by simp
  obtain g n c' e' m where r: "chat_prompt toy_kernels toy_cfg (\<lambda>_. False) (cache_new toy_engine True False None) toy_engine [7, 8] []
      = Some (g, n, c', e')"
    using chat_prompt_safe [OF serve_state_safe [OF toy_boot] h(1) len h(3), where stop = "\<lambda>_. False" and imgs = "[]"] by (elim exE conjE)
  from repeated_prompt_prefills_nothing [OF toy_boot h r, where stop = "\<lambda>_. True"] r show ?thesis by blast
qed

section \<open>The host memory of a parked conversation\<close>

definition bytes_of :: "u8 list list list \<Rightarrow> nat" where
  "bytes_of rows = sum_list (map (\<lambda>rs. sum_list (map length rs)) rows)"

lemma sum_list_same: "(\<And>x. x \<in> set xs \<Longrightarrow> f x = n) \<Longrightarrow> sum_list (map f xs) = length xs * (n :: nat)"
  by (induction xs) simp_all

lemma bytes_kv_view:
  "(\<And>gr i. length (e_kv e gr i) = rb) \<Longrightarrow> bytes_of (kv_view e n) = n * g_attn_layers (e_geo e) * 2 * g_kv_heads (e_geo e) * rb"
  by (simp add: bytes_of_def kv_view_def comp_def groups_def sum_list_same [of _ _ rb] sum_list_same [of _ _ "n * rb"] length_kv_row_order)

lemma bytes_pooled_view:
  "(\<And>l b. length (e_pooled e l b) = pb) \<Longrightarrow> bytes_of (pooled_view e n) = qsa_layers (e_geo e) * n * pb"
  by (simp add: bytes_of_def pooled_view_def comp_def sum_list_same [of _ _ pb] sum_list_same [of _ _ "n * pb"])

lemma park_blocks_mono: "r \<le> r' \<Longrightarrow> park_blocks r n c \<le> park_blocks r' n c"
  using div_le_mono [of r r' c] by (simp add: park_blocks_def)

lemma park_host_bytes_rows_mono:
  assumes "r \<le> r'"
  shows "park_host_bytes_rows g r n l b \<le> park_host_bytes_rows g r' n l b"
proof (cases "g_attn g")
  case (Qsa h d c)
  show ?thesis
    unfolding park_host_bytes_rows_def Let_def Qsa attn.case
    by (intro add_mono mult_le_mono order_refl park_blocks_mono assms)
qed (use assms in \<open>auto simp: park_host_bytes_rows_def\<close>)

text \<open>
  C39: Parking a conversation copies exactly the bytes the boot note counts for its rows, and
  never more than those of the configured row cap, for every KV dtype and for both kinds of
  attention.
\<close>

theorem park_stays_in_budget:
  assumes plan: "plan_cold c (length (e_history e)) new_len = Park rows"
    and kv: "\<And>gr i. length (e_kv e gr i) = row_bytes dtype (g_head_dim (e_geo e))"
    and pooled: "\<And>l b. length (e_pooled e l b) = pooled_row_bytes (e_geo e)"
    and cold: "cold_start c e new_len = (c', e')"
  shows "bytes_of (park_kv c') + bytes_of (park_pooled c')
      = park_host_bytes_rows (e_geo e) rows (e_context e) (g_attn_layers (e_geo e)) (row_bytes dtype (g_head_dim (e_geo e)))
    \<and> park_host_bytes_rows (e_geo e) rows (e_context e) (g_attn_layers (e_geo e)) (row_bytes dtype (g_head_dim (e_geo e)))
      \<le> park_host_bytes_rows (e_geo e) (park_cap c) (e_context e) (g_attn_layers (e_geo e)) (row_bytes dtype (g_head_dim (e_geo e)))
    \<and> rows \<le> park_cap c \<and> cpark c' \<noteq> None"
proof -
  have r: "rows \<le> park_cap c"
    using plan by (auto simp: plan_cold_def Let_def park_rows_def split: if_splits option.splits)
  define blocks where "blocks = (case g_attn (e_geo e) of Qsa _ _ k \<Rightarrow> park_blocks rows (e_context e) k | Full \<Rightarrow> 0)"
  have c': "park_kv c' = kv_view e rows" "park_pooled c' = pooled_view e blocks" "cpark c' \<noteq> None"
    using cold by (auto simp: cold_start_def Let_def plan apply_cold_def blocks_def)
  have "qsa_layers (e_geo e) * blocks * pooled_row_bytes (e_geo e)
      = (case g_attn (e_geo e) of Qsa _ _ k \<Rightarrow> g_attn_layers (e_geo e) * park_blocks rows (e_context e) k * hidd (g_attn (e_geo e)) * 4 | Full \<Rightarrow> 0)"
    by (simp add: qsa_layers_def blocks_def pooled_row_bytes_def split: attn.splits)
  then show ?thesis
    using r by (auto simp: c' bytes_kv_view [OF kv] bytes_pooled_view [OF pooled] park_host_bytes_rows_def Let_def
        intro: park_host_bytes_rows_mono [unfolded park_host_bytes_rows_def Let_def])
qed

definition toy_cache :: prefix_cache where
  "toy_cache = \<lparr>enabled = True, cshape = with_geo toy_geo 0 1 0,
     slots = [\<lparr>s_pos = Some 3, s_clean = True, s_done = 0, s_bufs = e_bufs toy_engine, s_logits = [], s_greedy = None,
       s_parked = False, s_head = False\<rparr>],
     park_cap = 2, cpark = None, park_kv = [], park_pooled = [], anchor = False\<rparr>"

lemma park_stays_in_budget_witness:
  "\<exists>c' e'. cold_start toy_cache (toy_engine\<lparr>e_kv := (\<lambda>_ _. [0, 0])\<rparr>) 2 = (c', e') \<and> bytes_of (park_kv c') + bytes_of (park_pooled c') = 8"
proof -
  let ?e = "toy_engine\<lparr>e_kv := (\<lambda>_ _. [0, 0])\<rparr>"
  obtain c' e' where c: "cold_start toy_cache ?e 2 = (c', e')" by (metis surj_pair)
  have plan: "plan_cold toy_cache (length (e_history ?e)) 2 = Park 2"
    by (simp add: plan_cold_def toy_cache_def live_top_def max_pos_def reuse_candidates_def List.map_filter_def parked_usable_def
        park_rows_def toy_engine_def Let_def)
  have kv: "length (e_kv ?e gr i) = row_bytes Bf16 (g_head_dim (e_geo ?e))" for gr i by (simp add: toy_engine_def toy_geo_def)
  have pd: "length (e_pooled ?e l b) = pooled_row_bytes (e_geo ?e)" for l b
    by (simp add: toy_engine_def toy_geo_def pooled_row_bytes_def)
  have "park_host_bytes_rows (e_geo ?e) 2 (e_context ?e) (g_attn_layers (e_geo ?e)) (row_bytes Bf16 (g_head_dim (e_geo ?e))) = 8"
    by (simp add: park_host_bytes_rows_def toy_engine_def toy_geo_def)
  with park_stays_in_budget [OF plan kv pd c] c show ?thesis by (intro exI [of _ c'] exI [of _ e']) simp
qed

end
