(* ===== verification/Json.thy ===== *)
theory Json
  imports Prelude
begin

text \<open>
  JSON as the tool-call parser of \<open>engine/src/toolcall.rs\<close> meets it: the values of
  \<open>serde_json\<close>, the declared parameter types read out of a request, and the repair pass over
  an argument the model got slightly wrong. The \<open>serde_json\<close> crate is a parameter (its
  string printer and its parser); what the parser relies on is stated against the JSON
  grammar, which is defined here.
\<close>

section \<open>Values\<close>

datatype json = JNull | JBool bool | JNumber str | JString str | JArray "json list" | JObject "(str \<times> json) list"

fun obj_get :: "str \<Rightarrow> json \<Rightarrow> json option" where
  "obj_get k (JObject kvs) = map_of kvs k"
| "obj_get k _ = None"

fun as_str :: "json \<Rightarrow> str option" where
  "as_str (JString s) = Some s"
| "as_str _ = None"

fun as_array :: "json \<Rightarrow> json list option" where
  "as_array (JArray xs) = Some xs"
| "as_array _ = None"

fun as_object :: "json \<Rightarrow> (str \<times> json) list option" where
  "as_object (JObject kvs) = Some kvs"
| "as_object _ = None"

text \<open>The crate: \<open>Value::String(s).to_string()\<close> and \<open>from_str\<close>.\<close>

record serde_json =
  json_str :: "str \<Rightarrow> str"
  from_str :: "str \<Rightarrow> json option"

definition json_escape :: "serde_json \<Rightarrow> str \<Rightarrow> str" where
  "json_escape S s = (let q = json_str S s in take (length q - 1 - 1) (drop 1 q))"

section \<open>The grammar\<close>

text \<open>
  JSON texts as RFC 8259 defines them, over UTF-8 bytes (a byte from 128 up is part of an
  unescaped character).
\<close>

definition dq :: char where "dq = CHR 0x22"
definition sq :: char where "sq = CHR 0x27"
definition bsl :: char where "bsl = CHR 0x5C"

definition json_ws :: "str \<Rightarrow> bool" where
  "json_ws w \<longleftrightarrow> (\<forall>c \<in> set w. c \<in> {CHR '' '', CHR 0x09, CHR 0x0A, CHR 0x0D})"

definition hex_digit :: "char \<Rightarrow> bool" where
  "hex_digit c \<longleftrightarrow> is_digit c \<or> (65 \<le> (of_char c :: nat) \<and> (of_char c :: nat) \<le> 70) \<or> (97 \<le> (of_char c :: nat) \<and> (of_char c :: nat) \<le> 102)"

text \<open>One character of a string: a byte that needs no escape, or an escape sequence.\<close>

definition json_char :: "str \<Rightarrow> bool" where
  "json_char s \<longleftrightarrow> (\<exists>c. s = [c] \<and> 32 \<le> (of_char c :: nat) \<and> c \<noteq> dq \<and> c \<noteq> bsl)
     \<or> (\<exists>c. s = [bsl, c] \<and> c \<in> {dq, bsl, CHR ''/'', CHR ''b'', CHR ''f'', CHR ''n'', CHR ''r'', CHR ''t''})
     \<or> (\<exists>a b c d. s = [bsl, CHR ''u'', a, b, c, d] \<and> hex_digit a \<and> hex_digit b \<and> hex_digit c \<and> hex_digit d)"

definition json_chars :: "str \<Rightarrow> bool" where
  "json_chars s \<longleftrightarrow> (\<exists>cs. list_all json_char cs \<and> s = concat cs)"

definition json_string :: "str \<Rightarrow> bool" where
  "json_string s \<longleftrightarrow> (\<exists>x. json_chars x \<and> s = dq # x @ [dq])"

definition digits :: "str \<Rightarrow> bool" where
  "digits d \<longleftrightarrow> d \<noteq> [] \<and> list_all is_digit d"

definition json_number :: "str \<Rightarrow> bool" where
  "json_number s \<longleftrightarrow> (\<exists>sg ip fp ep. s = sg @ ip @ fp @ ep \<and> sg \<in> {[], ''-''} \<and> (ip = ''0'' \<or> digits ip \<and> hd ip \<noteq> CHR ''0'')
     \<and> (fp = [] \<or> (\<exists>d. digits d \<and> fp = CHR ''.'' # d))
     \<and> (ep = [] \<or> (\<exists>e es d. e \<in> {CHR ''e'', CHR ''E''} \<and> es \<in> {[], ''+'', ''-''} \<and> digits d \<and> ep = e # es @ d)))"

inductive json_value :: "str \<Rightarrow> bool" and json_text :: "str \<Rightarrow> bool" and json_elements :: "str \<Rightarrow> bool" and json_members :: "str \<Rightarrow> bool" where
  literal: "s \<in> {''null'', ''true'', ''false''} \<Longrightarrow> json_value s"
| number: "json_number s \<Longrightarrow> json_value s"
| string: "json_string s \<Longrightarrow> json_value s"
| empty_array: "json_ws w \<Longrightarrow> json_value (''['' @ w @ '']'')"
| array: "json_elements s \<Longrightarrow> json_value (''['' @ s @ '']'')"
| empty_object: "json_ws w \<Longrightarrow> json_value (''{'' @ w @ ''}'')"
| object: "json_members s \<Longrightarrow> json_value (''{'' @ s @ ''}'')"
| padded: "json_ws a \<Longrightarrow> json_value v \<Longrightarrow> json_ws b \<Longrightarrow> json_text (a @ v @ b)"
| element: "json_text v \<Longrightarrow> json_elements v"
| elements: "json_elements s \<Longrightarrow> json_text v \<Longrightarrow> json_elements (s @ '','' @ v)"
| member: "json_ws a \<Longrightarrow> json_string k \<Longrightarrow> json_ws b \<Longrightarrow> json_text v \<Longrightarrow> json_members (a @ k @ b @ '':'' @ v)"
| members: "json_members s \<Longrightarrow> json_members m \<Longrightarrow> json_members (s @ '','' @ m)"

definition json_object :: "str \<Rightarrow> bool" where
  "json_object s \<longleftrightarrow> (\<exists>x. s = ''{'' @ x @ ''}'' \<and> (json_ws x \<or> json_members x))"

lemma json_ws_Nil [simp]: "json_ws []"
  by (simp add: json_ws_def)

lemma json_object_value: "json_object s \<Longrightarrow> json_value s"
  by (auto simp: json_object_def intro: empty_object [simplified] object [simplified])

lemma json_text_value: "json_value v \<Longrightarrow> json_text v"
  using padded [of "[]" v "[]"] by simp

lemma json_member: "json_string k \<Longrightarrow> json_text v \<Longrightarrow> json_members (k @ '':'' @ v)"
  using member [of "[]" k "[]" v] by simp

lemma json_chars_Nil [simp]: "json_chars []"
  by (auto simp: json_chars_def intro: exI [of _ "[]"])

lemma json_chars_append: "json_chars a \<Longrightarrow> json_chars b \<Longrightarrow> json_chars (a @ b)"
  unfolding json_chars_def by (metis concat_append list_all_append)

text \<open>
  What the parser relies on in \<open>serde_json\<close>: strings are printed byte by byte between
  quotes, each byte as itself or as an escape, and only JSON texts parse.
\<close>

definition serde_laws :: "serde_json \<Rightarrow> bool" where
  "serde_laws S \<longleftrightarrow> (\<exists>esc. (\<forall>c. json_char (esc c)) \<and> (\<forall>s. json_str S s = dq # concat (map esc s) @ [dq]))
     \<and> (\<forall>t v. from_str S t = Some v \<longrightarrow> json_text t)"

lemma json_str_shape: "serde_laws S \<Longrightarrow> json_str S s = dq # json_escape S s @ [dq] \<and> json_chars (json_escape S s)"
proof -
  assume "serde_laws S"
  then obtain esc where e: "\<And>c. json_char (esc c)" "\<And>s. json_str S s = dq # concat (map esc s) @ [dq]"
    by (auto simp: serde_laws_def)
  have "json_escape S s = concat (map esc s)" by (simp add: json_escape_def e(2))
  moreover have "json_chars (concat (map esc s))"
    unfolding json_chars_def by (rule exI [of _ "map esc s"]) (simp add: list_all_iff e(1))
  ultimately show ?thesis by (simp add: e(2))
qed

lemma json_str_string: "serde_laws S \<Longrightarrow> json_string (json_str S s)"
  using json_str_shape [of S s] by (auto simp: json_string_def)

lemma json_str_text: "serde_laws S \<Longrightarrow> json_text (json_str S s)"
  by (intro json_text_value string json_str_string)

lemma from_str_text: "serde_laws S \<Longrightarrow> from_str S t = Some v \<Longrightarrow> json_text t"
  by (auto simp: serde_laws_def)

text \<open>
  The printer the crate documents, with a parser that knows unsigned numbers and \<open>true\<close>
  only: an instance of the laws.
\<close>

definition hex :: "nat \<Rightarrow> char" where
  "hex n = (if n < 10 then char_of (48 + n) else char_of (87 + n))"

definition escape_byte :: "char \<Rightarrow> str" where
  "escape_byte c = (if c = dq \<or> c = bsl then [bsl, c]
     else if c = CHR 0x08 then [bsl, CHR ''b''] else if c = CHR 0x0C then [bsl, CHR ''f'']
     else if c = CHR 0x0A then [bsl, CHR ''n''] else if c = CHR 0x0D then [bsl, CHR ''r'']
     else if c = CHR 0x09 then [bsl, CHR ''t'']
     else if (of_char c :: nat) < 32 then [bsl, CHR ''u'', CHR ''0'', CHR ''0'', hex (of_char c div 16), hex (of_char c mod 16)]
     else [c])"

definition small_serde :: serde_json where
  "small_serde = \<lparr>json_str = (\<lambda>s. dq # concat (map escape_byte s) @ [dq]),
     from_str = (\<lambda>t. if t = ''true'' then Some (JBool True)
       else if digits t \<and> (t = ''0'' \<or> hd t \<noteq> CHR ''0'') then Some (JNumber t) else None)\<rparr>"

lemma hex_digit_hex: "n < 16 \<Longrightarrow> hex_digit (hex n)"
  by (auto simp: hex_digit_def hex_def is_digit_def)

lemma small_serde_laws: "serde_laws small_serde"
proof -
  have z: "hex_digit (CHR ''0'')" by (simp add: hex_digit_def is_digit_def)
  have "json_char (escape_byte c)" for c
  proof (cases "c = dq \<or> c = bsl \<or> c \<in> {CHR 0x08, CHR 0x0C, CHR 0x0A, CHR 0x0D, CHR 0x09}")
    case True
    then show ?thesis unfolding json_char_def escape_byte_def by (elim disjE insertE) (simp_all add: dq_def bsl_def)
  next
    case plain: False
    show ?thesis
    proof (cases "(of_char c :: nat) < 32")
      case True
      with plain z hex_digit_hex [of "of_char c div 16"] hex_digit_hex [of "of_char c mod 16"] show ?thesis
        by (simp add: json_char_def escape_byte_def)
    next
      case False
      with plain show ?thesis by (simp add: json_char_def escape_byte_def)
    qed
  qed
  moreover have "json_text t" if "digits t" "t = ''0'' \<or> hd t \<noteq> CHR ''0''" for t
  proof -
    have "json_number t" unfolding json_number_def
      by (rule exI [of _ "[]"], rule exI [of _ t], rule exI [of _ "[]"], rule exI [of _ "[]"]) (use that in simp)
    then show ?thesis by (intro json_text_value number)
  qed
  moreover have "json_text ''true''" by (intro json_text_value literal) simp
  ultimately show ?thesis unfolding serde_laws_def
    by (intro conjI exI [of _ escape_byte] allI impI) (auto simp: small_serde_def split: if_splits)
qed

section \<open>Declared parameter types\<close>

type_synonym ptypes = "str \<Rightarrow> (str \<Rightarrow> str option) option"

definition param_types :: "json \<Rightarrow> str \<Rightarrow> str option" where
  "param_types f = (case Option.bind (Option.bind (obj_get ''parameters'' f) (obj_get ''properties'')) as_object of
     None \<Rightarrow> Map.empty
   | Some props \<Rightarrow> foldl (\<lambda>m (k, v). case Option.bind (obj_get ''type'' v) as_str of
       Some ty \<Rightarrow> m(k \<mapsto> ty) | None \<Rightarrow> m) Map.empty props)"

definition tool_param_types :: "json option \<Rightarrow> ptypes" where
  "tool_param_types tools = (case Option.bind tools as_array of
     None \<Rightarrow> Map.empty
   | Some arr \<Rightarrow> foldl (\<lambda>out t. case obj_get ''function'' t of
       None \<Rightarrow> out
     | Some f \<Rightarrow> (case Option.bind (obj_get ''name'' f) as_str of
         None \<Rightarrow> out
       | Some name \<Rightarrow> out(name \<mapsto> param_types f))) Map.empty arr)"

section \<open>The repair pass\<close>

definition is_ascii_whitespace :: "char \<Rightarrow> bool" where
  "is_ascii_whitespace c \<longleftrightarrow> c \<in> {CHR '' '', CHR 0x09, CHR 0x0A, CHR 0x0C, CHR 0x0D}"

definition is_ascii_alphanumeric :: "char \<Rightarrow> bool" where
  "is_ascii_alphanumeric c \<longleftrightarrow> is_digit c \<or> (65 \<le> (of_char c :: nat) \<and> (of_char c :: nat) \<le> 90)
     \<or> (97 \<le> (of_char c :: nat) \<and> (of_char c :: nat) \<le> 122)"

definition word_byte :: "char \<Rightarrow> bool" where
  "word_byte c \<longleftrightarrow> is_ascii_alphanumeric c \<or> c = CHR ''_''"

text \<open>The code walks a byte array with an index; here the index is the suffix still to read.\<close>

definition skip_ws :: "str \<Rightarrow> str" where
  "skip_ws b = dropWhile is_ascii_whitespace b"

fun expect :: "char \<Rightarrow> str \<Rightarrow> str option" where
  "expect c [] = None"
| "expect c (x # xs) = (if x = c then Some xs else None)"

definition stray_key_at :: "str \<Rightarrow> (str \<times> str) option" where
  "stray_key_at b =
    Option.bind (expect dq (skip_ws b)) (\<lambda>b1.
    Option.bind (expect dq (skip_ws b1)) (\<lambda>b2.
    let key = takeWhile word_byte b2; b3 = dropWhile word_byte b2 in
    if key = [] then None
    else Option.bind (expect dq b3) (\<lambda>b4.
      Option.bind (expect (CHR '':'') (skip_ws b4)) (\<lambda>b5. Some (key, b5)))))"

lemma expect_Some: "expect c xs = Some r \<longleftrightarrow> xs = c # r"
  by (cases xs) auto

lemma skip_ws_split: "\<exists>w. b = w @ skip_ws b \<and> list_all is_ascii_whitespace w"
  unfolding skip_ws_def by (metis takeWhile_dropWhile_id list_all_iff set_takeWhileD)

lemma stray_key_split:
  assumes "stray_key_at b = Some (key, rest)"
  shows "\<exists>w1 w2 w3. b = w1 @ [dq] @ w2 @ [dq] @ key @ [dq] @ w3 @ CHR '':'' # rest \<and> key \<noteq> [] \<and> list_all word_byte key
    \<and> list_all is_ascii_whitespace w1 \<and> list_all is_ascii_whitespace w2 \<and> list_all is_ascii_whitespace w3"
proof -
  obtain b1 b2 b4 where s: "skip_ws b = dq # b1" "skip_ws b1 = dq # b2" "key = takeWhile word_byte b2" "key \<noteq> []"
    "dropWhile word_byte b2 = dq # b4" "skip_ws b4 = CHR '':'' # rest"
    using assms by (auto simp: stray_key_at_def Let_def bind_eq_Some_conv expect_Some split: if_splits)
  obtain w1 w2 w3 where w: "b = w1 @ skip_ws b" "b1 = w2 @ skip_ws b1" "b4 = w3 @ skip_ws b4"
    "list_all is_ascii_whitespace w1" "list_all is_ascii_whitespace w2" "list_all is_ascii_whitespace w3"
    using skip_ws_split by metis
  have b2: "b2 = key @ dq # b4" using s(3,5) takeWhile_dropWhile_id [of word_byte b2] by simp
  have "list_all word_byte key" unfolding s(3) by (auto simp: list_all_iff dest: set_takeWhileD)
  with w s(4) show ?thesis by (intro exI [of _ w1] exI [of _ w2] exI [of _ w3]) (auto simp: s(1,2,6) b2 cong: conj_cong)
qed

function repair_stray_key_quote :: "str \<Rightarrow> str" where
  "repair_stray_key_quote [] = []"
| "repair_stray_key_quote (c # b) = (case (if c = CHR '','' \<or> c = CHR ''{'' then stray_key_at b else None) of
     Some (key, rest) \<Rightarrow> (if c = CHR '','' then [CHR '','', CHR '' '', dq] else [CHR ''{'', dq]) @ key @ [dq, CHR '':''] @ repair_stray_key_quote rest
   | None \<Rightarrow> c # repair_stray_key_quote b)"
  by pat_completeness auto
termination
  by (relation "measure length") (auto dest!: stray_key_split split: if_splits)

lemma stray_step:
  "(if c = CHR '','' \<or> c = CHR ''{'' then stray_key_at b else None) = Some (key, rest) \<Longrightarrow>
   repair_stray_key_quote (c # b) = (if c = CHR '','' then [CHR '','', CHR '' '', dq] else [CHR ''{'', dq]) @ key @ [dq, CHR '':'']
     @ repair_stray_key_quote rest"
  by simp

fun repair_trailing_comma :: "str \<Rightarrow> str" where
  "repair_trailing_comma [] = []"
| "repair_trailing_comma (c # b) =
    (if c = CHR '','' \<and> skip_ws b \<noteq> [] \<and> (hd (skip_ws b) = CHR '']'' \<or> hd (skip_ws b) = CHR ''}'')
     then repair_trailing_comma b else c # repair_trailing_comma b)"

definition repair_single_quotes :: "str \<Rightarrow> str" where
  "repair_single_quotes t = (if dq \<in> set t \<or> sq \<notin> set t then t else map (\<lambda>c. if c = sq then dq else c) t)"

definition repair_json :: "str \<Rightarrow> str option" where
  "repair_json t = (let r = repair_single_quotes (repair_trailing_comma (repair_stray_key_quote t)) in
     if r = t then None else Some r)"

text \<open>What a repair may touch: quotes, commas and ASCII whitespace.\<close>

definition essential :: "char \<Rightarrow> bool" where
  "essential c \<longleftrightarrow> c \<notin> {dq, sq, CHR '',''} \<and> \<not> is_ascii_whitespace c"

lemma essential_ws: "list_all is_ascii_whitespace w \<Longrightarrow> filter essential w = []"
  by (auto simp: filter_empty_conv list_all_iff essential_def)

lemma essential_simps [simp]: "\<not> essential dq" "\<not> essential sq" "\<not> essential (CHR '','')" "\<not> essential (CHR '' '')" "essential (CHR '':'')"
  by (auto simp: essential_def is_ascii_whitespace_def dq_def sq_def)

lemma stray_key_essential: "filter essential (repair_stray_key_quote t) = filter essential t"
proof (induction t rule: repair_stray_key_quote.induct)
  case (2 c b)
  show ?case
  proof (cases "if c = CHR '','' \<or> c = CHR ''{'' then stray_key_at b else None")
    case (Some a)
    obtain key rest where a: "a = (key, rest)" by (cases a)
    from Some a have s: "stray_key_at b = Some (key, rest)" by (simp split: if_splits)
    obtain w1 w2 w3 where "b = w1 @ [dq] @ w2 @ [dq] @ key @ [dq] @ w3 @ CHR '':'' # rest"
      "list_all is_ascii_whitespace w1" "list_all is_ascii_whitespace w2" "list_all is_ascii_whitespace w3"
      using stray_key_split [OF s] by blast
    with "2.IH"(2) [OF Some a [symmetric]] s Some show ?thesis
      unfolding stray_step [OF Some [unfolded a]] by (auto simp: essential_ws split: if_splits)
  next
    case None
    with "2.IH"(1) [OF None] show ?thesis by simp
  qed
qed simp

lemma trailing_comma_essential: "filter essential (repair_trailing_comma t) = filter essential t"
  by (induction t) auto

lemma single_quotes_essential: "filter essential (repair_single_quotes t) = filter essential t"
proof -
  have "filter essential (map (\<lambda>c. if c = sq then dq else c) t) = filter essential t" by (induction t) auto
  then show ?thesis by (simp add: repair_single_quotes_def)
qed

lemma repair_length:
  "length (repair_stray_key_quote t) \<le> length t" "length (repair_trailing_comma t) \<le> length t"
  "length (repair_single_quotes t) = length t"
proof -
  show "length (repair_stray_key_quote t) \<le> length t"
  proof (induction t rule: repair_stray_key_quote.induct)
    case (2 c b)
    show ?case
    proof (cases "if c = CHR '','' \<or> c = CHR ''{'' then stray_key_at b else None")
      case (Some a)
      obtain key rest where a: "a = (key, rest)" by (cases a)
      from Some a have s: "stray_key_at b = Some (key, rest)" by (simp split: if_splits)
      obtain w1 w2 w3 where "b = w1 @ [dq] @ w2 @ [dq] @ key @ [dq] @ w3 @ CHR '':'' # rest"
        using stray_key_split [OF s] by blast
      with "2.IH"(2) [OF Some a [symmetric]] show ?thesis unfolding stray_step [OF Some [unfolded a]] by simp
    next
      case None
      with "2.IH"(1) [OF None] show ?thesis by simp
    qed
  qed simp
  show "length (repair_trailing_comma t) \<le> length t" by (induction t) auto
  show "length (repair_single_quotes t) = length t" by (simp add: repair_single_quotes_def)
qed

text \<open>
  A repair never rewrites what the model said. Whatever text goes in, the repaired text
  is no longer, and dropping quotes, commas and ASCII whitespace from both leaves the same
  bytes in the same order: no key, number, bracket or word is added, lost or moved. A text
  that already holds a double quote keeps its single quotes.
\<close>

theorem repair_touches_only_punctuation:
  assumes "repair_json t = Some r"
  shows "r \<noteq> t \<and> length r \<le> length t \<and> filter essential r = filter essential t
    \<and> (dq \<in> set (repair_trailing_comma (repair_stray_key_quote t)) \<longrightarrow> r = repair_trailing_comma (repair_stray_key_quote t))"
proof -
  let ?u = "repair_trailing_comma (repair_stray_key_quote t)"
  have r: "r \<noteq> t" "r = repair_single_quotes ?u" using assms by (auto simp: repair_json_def Let_def split: if_splits)
  have "length r \<le> length t" unfolding r(2) using repair_length(1) [of t] repair_length(2) [of "repair_stray_key_quote t"]
    repair_length(3) [of ?u] by linarith
  moreover have "filter essential r = filter essential t"
    unfolding r(2) single_quotes_essential trailing_comma_essential stray_key_essential ..
  ultimately show ?thesis using r by (simp add: repair_single_quotes_def)
qed

lemma repair_touches_only_punctuation_witness:
  "filter essential ''[{'k':1,},]'' = filter essential (the (repair_json ''[{'k':1,},]''))"
proof -
  have "repair_json ''[{'k':1,},]'' \<noteq> None" by code_simp
  then obtain r where "repair_json ''[{'k':1,},]'' = Some r" by blast
  with repair_touches_only_punctuation [OF this] show ?thesis by simp
qed

end
