(* ===== verification/ToolCall.thy ===== *)
theory ToolCall
  imports Json Markers
begin

text \<open>
  The tool-call parser \<open>ToolStream\<close> of \<open>engine/src/toolcall.rs\<close>: the model's markup, cut into
  pieces by the decoder, turned into OpenAI fragments. Both markups are modelled (Qwen's
  \<open><function=...>\<close> blocks and GLM's \<open><arg_key>\<close> pairs). A \<open>sink\<close> is the stream together with
  the vector \<open>out\<close> the code passes along as \<open>&mut Vec<Emit>\<close>; each operation is a function on
  sinks, each arm of the loop in \<open>run\<close> one \<open>turn\<close>. Log lines are not modelled.
\<close>

section \<open>State\<close>

definition TOOL_OPEN :: str where "TOOL_OPEN = ''<tool_call>''"
definition TOOL_CLOSE :: str where "TOOL_CLOSE = ''</tool_call>''"
definition FUNCTION_OPEN :: str where "FUNCTION_OPEN = ''<function=''"
definition FUNCTION_CLOSE :: str where "FUNCTION_CLOSE = ''</function>''"
definition PARAM_OPEN :: str where "PARAM_OPEN = ''<parameter=''"
definition PARAM_CLOSE :: str where "PARAM_CLOSE = ''</parameter>''"
definition MAX_TOOL_NAME :: nat where "MAX_TOOL_NAME = 128"
definition ARG_KEY_OPEN :: str where "ARG_KEY_OPEN = ''<arg_key>''"
definition ARG_KEY_CLOSE :: str where "ARG_KEY_CLOSE = ''</arg_key>''"
definition ARG_VALUE_OPEN :: str where "ARG_VALUE_OPEN = ''<arg_value>''"
definition ARG_VALUE_CLOSE :: str where "ARG_VALUE_CLOSE = ''</arg_value>''"
definition TRUNCATED_KEY :: str where "TRUNCATED_KEY = ''_truncated''"

datatype markup = Qwen | Glm

datatype malformed_kind = CloseBeforeFunction | BadName | BadParamName | EndInCall

record malformed =
  m_kind :: malformed_kind
  m_index :: "nat option"
  m_raw_as_content :: bool

datatype emit = Content str | Call nat str str | Args nat str

datatype tstate = Text | Func | FuncName | Body | ParamName | ParamValue | Tail | GName | GKey | GAwaitVal | GVal | GAfter

record tool_stream =
  t_markup :: markup
  t_types :: ptypes
  t_state :: tstate
  t_buf :: str
  t_armed :: nat
  t_index :: nat
  t_closed :: nat
  t_named :: bool
  t_name :: str
  t_pname :: str
  t_open_brace :: bool
  t_vstring :: bool
  t_vtype :: "str option"
  t_vbuf :: str
  t_skip_nl :: bool
  t_held_nl :: bool
  t_raw :: str
  t_tail_from :: nat
  t_dropped :: nat
  t_malformed :: "malformed list"

record sink = tool_stream +
  out :: "emit list"

definition with_markup :: "json option \<Rightarrow> markup \<Rightarrow> tool_stream" where
  "with_markup tools m = \<lparr>t_markup = m, t_types = tool_param_types tools, t_state = Text, t_buf = [], t_armed = 0,
     t_index = 0, t_closed = 0, t_named = False, t_name = [], t_pname = [], t_open_brace = False, t_vstring = False,
     t_vtype = None, t_vbuf = [], t_skip_nl = False, t_held_nl = False, t_raw = [], t_tail_from = 0, t_dropped = 0,
     t_malformed = []\<rparr>"

definition tool_stream_new :: "json option \<Rightarrow> tool_stream" where
  "tool_stream_new tools = with_markup tools Qwen"

definition arm :: "tool_stream \<Rightarrow> tool_stream" where
  "arm t = t\<lparr>t_armed := t_armed t + 1\<rparr>"

section \<open>Emitting\<close>

definition send :: "emit \<Rightarrow> sink \<Rightarrow> sink" where
  "send e s = s\<lparr>out := out s @ [e]\<rparr>"

definition emit_args :: "str \<Rightarrow> sink \<Rightarrow> sink" where
  "emit_args text s = send (Args (t_index s) text) s"

definition content :: "str \<Rightarrow> sink \<Rightarrow> sink" where
  "content x s = (if x = [] then s
     else if 0 < t_index s \<or> t_named s then s\<lparr>t_dropped := t_dropped s + length x\<rparr>
     else send (Content x) s)"

text \<open>\<open>buf.drain(..n)\<close>, and \<open>eat\<close>, which keeps what it takes in \<open>raw\<close>; the text taken is \<open>take n (t_buf s)\<close>.\<close>

definition drain :: "nat \<Rightarrow> sink \<Rightarrow> sink" where
  "drain n s = s\<lparr>t_buf := drop n (t_buf s)\<rparr>"

definition eat :: "nat \<Rightarrow> sink \<Rightarrow> sink" where
  "eat n s = drain n (s\<lparr>t_raw := t_raw s @ take n (t_buf s)\<rparr>)"

definition flush_raw :: "sink \<Rightarrow> bool \<times> sink" where
  "flush_raw s = (let raw = t_raw s; s1 = s\<lparr>t_raw := []\<rparr> in
     if 0 < t_index s1 \<or> t_named s1 then (False, s1\<lparr>t_dropped := t_dropped s1 + length raw\<rparr>)
     else if raw = [] then (False, s1)
     else (True, send (Content raw) s1))"

section \<open>Parameters\<close>

definition open_param :: "serde_json \<Rightarrow> sink \<Rightarrow> sink" where
  "open_param S s = (let ty = Option.bind (t_types s (t_name s)) (\<lambda>m. m (t_pname s));
       vstring = (ty = Some ''string'');
       frag = (if t_open_brace s then '','' else ''{'') @ json_str S (t_pname s) @ '':'' @ (if vstring then [dq] else []) in
     emit_args frag (s\<lparr>t_vstring := vstring, t_vtype := ty, t_vbuf := [], t_skip_nl := True, t_held_nl := False, t_open_brace := True\<rparr>))"

definition ends_nl :: "str \<Rightarrow> bool" where
  "ends_nl t \<longleftrightarrow> t \<noteq> [] \<and> last t = CHR 0x0A"

definition value_text :: "serde_json \<Rightarrow> str \<Rightarrow> sink \<Rightarrow> sink" where
  "value_text S t s = (if t_vstring s then (if t = [] then s else emit_args (json_escape S t) s)
     else s\<lparr>t_vbuf := t_vbuf s @ t\<rparr>)"

definition put_value :: "serde_json \<Rightarrow> str \<Rightarrow> bool \<Rightarrow> sink \<Rightarrow> sink" where
  "put_value S text terminal s =
     (let t = (if t_held_nl s then [CHR 0x0A] else []) @ text; s1 = s\<lparr>t_held_nl := False\<rparr> in
      if ends_nl t then value_text S (butlast t) (s1\<lparr>t_held_nl := \<not> terminal\<rparr>)
      else value_text S t s1)"

text \<open>\<open>t\<close> is the trimmed text of a value that did not parse, \<open>v\<close> the raw one.\<close>

definition recover :: "serde_json \<Rightarrow> str option \<Rightarrow> str \<Rightarrow> str \<Rightarrow> str" where
  "recover S declared t v = (if declared = Some ''array'' \<or> declared = Some ''object'' then
       (case repair_json t of
          Some r \<Rightarrow> (case from_str S r of
             Some p \<Rightarrow> if (if declared = Some ''array'' then as_array p \<noteq> None else as_object p \<noteq> None) then r else json_str S v
           | None \<Rightarrow> json_str S v)
        | None \<Rightarrow> json_str S v)
     else json_str S v)"

definition raw_json :: "serde_json \<Rightarrow> str option \<Rightarrow> str \<Rightarrow> str" where
  "raw_json S vtype v = (let t = trim v in
     if t = [] then json_str S v
     else case from_str S t of Some _ \<Rightarrow> t | None \<Rightarrow> recover S vtype t v)"

definition close_param :: "serde_json \<Rightarrow> sink \<Rightarrow> sink" where
  "close_param S s =
     (if t_vstring s then emit_args [dq] s
      else emit_args (raw_json S (t_vtype s) (t_vbuf s)) (s\<lparr>t_vbuf := []\<rparr>))
     \<lparr>t_skip_nl := False, t_held_nl := False\<rparr>"

definition open_glm_value :: "serde_json \<Rightarrow> sink \<Rightarrow> sink" where
  "open_glm_value S s = (open_param S s)\<lparr>t_skip_nl := False, t_held_nl := False\<rparr>"

definition glm_value :: "serde_json \<Rightarrow> str \<Rightarrow> sink \<Rightarrow> sink" where
  "glm_value S text s = value_text S text s"

section \<open>Closing and abandoning a call\<close>

definition close_args :: "sink \<Rightarrow> sink" where
  "close_args s = (if \<not> t_named s then s
     else (emit_args (if t_open_brace s then ''}'' else ''{}'') s)\<lparr>t_open_brace := False\<rparr>)"

definition close_args_truncated :: "serde_json \<Rightarrow> sink \<Rightarrow> sink" where
  "close_args_truncated S s = (if \<not> t_named s then s
     else (let s1 = (if t_state s = ParamValue \<or> t_state s = GVal then close_param S s else s);
         frag = (if t_open_brace s1 then '','' @ json_str S TRUNCATED_KEY @ '':true}'' else ''{'' @ json_str S TRUNCATED_KEY @ '':true}'') in
       (emit_args frag s1)\<lparr>t_open_brace := False\<rparr>))"

definition close_call :: "sink \<Rightarrow> sink" where
  "close_call s = (let s1 = (if t_named s then s\<lparr>t_closed := t_closed s + 1, t_index := t_index s + 1\<rparr> else s) in
     s1\<lparr>t_named := False, t_name := [], t_open_brace := False, t_raw := [], t_tail_from := 0, t_state := Text\<rparr>)"

definition abandon :: "serde_json \<Rightarrow> malformed_kind \<Rightarrow> sink \<Rightarrow> sink" where
  "abandon S kind s = (let index = (if t_named s then Some (t_index s) else None);
       (raw_as_content, s1) = flush_raw (close_args_truncated S s) in
     s1\<lparr>t_malformed := t_malformed s1 @ [\<lparr>m_kind = kind, m_index = index, m_raw_as_content = raw_as_content\<rparr>]\<rparr>)"

definition give_up :: "serde_json \<Rightarrow> malformed_kind \<Rightarrow> sink \<Rightarrow> sink" where
  "give_up S kind s = (let s1 = abandon S kind s; s2 = (if t_named s1 then s1\<lparr>t_index := t_index s1 + 1\<rparr> else s1) in
     s2\<lparr>t_named := False, t_open_brace := False, t_state := Text\<rparr>)"

section \<open>Names\<close>

text \<open>\<open>Ok (Some name)\<close> and \<open>Err ()\<close>; \<open>Ok None\<close>, which needs more input, is \<open>More\<close>.\<close>

datatype name_read = Name str | More | Bad

definition read_name_to_gt :: "sink \<Rightarrow> name_read \<times> sink" where
  "read_name_to_gt s = (case position (\<lambda>c. c = CHR ''>'') (t_buf s) of
     Some at \<Rightarrow> (let name = trim (take at (t_buf s)); s1 = eat (at + 1) s in
       if name = [] \<or> MAX_TOOL_NAME < length name then (Bad, s1) else (Name name, s1))
   | None \<Rightarrow> if MAX_TOOL_NAME < length (t_buf s) then (Bad, s) else (More, s))"

definition glm_name :: "str \<Rightarrow> str option" where
  "glm_name s = (let t = trim s in
     if t = [] \<or> MAX_TOOL_NAME < length t \<or> (\<exists>c \<in> set t. c \<in> {CHR ''<'', CHR ''>'', CHR 0x0A, CHR 0x0D}) then None else Some t)"

definition glm_name_broken :: "str \<Rightarrow> bool" where
  "glm_name_broken buf = (let lead = trim_start buf in
     CHR ''>'' \<in> set lead \<or>
     (\<exists>c \<in> set (rev (dropWhile (\<lambda>c. c \<in> {CHR 0x0A, CHR 0x0D, CHR '' '', CHR 0x09}) (rev lead))). c = CHR 0x0A \<or> c = CHR 0x0D))"

text \<open>\<open>format!("call_{}", index)\<close>.\<close>

fun decimal :: "nat \<Rightarrow> str" where
  "decimal n = (if n < 10 then [char_of (48 + n)] else decimal (n div 10) @ [char_of (48 + n mod 10)])"

declare decimal.simps [simp del]

definition call_id :: "nat \<Rightarrow> str" where
  "call_id i = ''call_'' @ decimal i"

definition name_call :: "str \<Rightarrow> sink \<Rightarrow> sink" where
  "name_call name s = send (Call (t_index s) (call_id (t_index s)) name) (s\<lparr>t_name := name, t_named := True\<rparr>)"

section \<open>One turn of the loop\<close>

text \<open>The second component says whether the loop goes on (\<open>True\<close>) or the code returns.\<close>

definition turn_text :: "sink \<Rightarrow> sink \<times> bool" where
  "turn_text s = (case find_marker (t_buf s) [TOOL_OPEN] of
     (Some (at, _), _) \<Rightarrow>
       if 0 < t_armed s then
         (let s1 = drain (at + length TOOL_OPEN) (content (take at (t_buf s)) s) in
          (s1\<lparr>t_armed := t_armed s1 - 1, t_raw := TOOL_OPEN, t_named := False, t_name := [], t_open_brace := False,
             t_state := (case t_markup s1 of Qwen \<Rightarrow> Func | Glm \<Rightarrow> GName)\<rparr>, True))
       else (let n = at + length TOOL_OPEN in (drain n (content (take n (t_buf s)) s), True))
   | (None, safe) \<Rightarrow> if safe = 0 then (s, False) else (drain safe (content (take safe (t_buf s)) s), False))"

definition turn_func :: "serde_json \<Rightarrow> sink \<Rightarrow> sink \<times> bool" where
  "turn_func S s = (case find_marker (t_buf s) [FUNCTION_OPEN, TOOL_CLOSE] of
     (Some (at, i), _) \<Rightarrow>
       if i = 0 then ((eat (at + length FUNCTION_OPEN) s)\<lparr>t_state := FuncName\<rparr>, True)
       else (give_up S CloseBeforeFunction (eat (at + length TOOL_CLOSE) s), True)
   | (None, safe) \<Rightarrow> (eat safe s, False))"

definition turn_func_name :: "serde_json \<Rightarrow> sink \<Rightarrow> sink \<times> bool" where
  "turn_func_name S s = (case read_name_to_gt s of
     (Name name, s1) \<Rightarrow> ((name_call name s1)\<lparr>t_state := Body\<rparr>, True)
   | (More, s1) \<Rightarrow> (s1, False)
   | (Bad, s1) \<Rightarrow> (give_up S BadName s1, True))"

definition turn_body :: "sink \<Rightarrow> sink \<times> bool" where
  "turn_body s = (case find_marker (t_buf s) [PARAM_OPEN, FUNCTION_CLOSE, TOOL_CLOSE] of
     (Some (at, i), _) \<Rightarrow>
       if i = 0 then ((eat (at + length PARAM_OPEN) s)\<lparr>t_pname := [], t_state := ParamName\<rparr>, True)
       else if i = 1 then
         (let s1 = close_args (eat (at + length FUNCTION_CLOSE) s) in (s1\<lparr>t_tail_from := length (t_raw s1), t_state := Tail\<rparr>, True))
       else (close_call (close_args (eat (at + length TOOL_CLOSE) s)), True)
   | (None, safe) \<Rightarrow> (eat safe s, False))"

definition turn_param_name :: "serde_json \<Rightarrow> sink \<Rightarrow> sink \<times> bool" where
  "turn_param_name S s = (case read_name_to_gt s of
     (Name p, s1) \<Rightarrow> ((open_param S (s1\<lparr>t_pname := p\<rparr>))\<lparr>t_state := ParamValue\<rparr>, True)
   | (More, s1) \<Rightarrow> (s1, False)
   | (Bad, s1) \<Rightarrow> (give_up S BadParamName s1, True))"

text \<open>The separator after \<open><parameter=P>\<close>: \<open>None\<close> when it is still to come.\<close>

definition skip_sep :: "sink \<Rightarrow> sink option" where
  "skip_sep s = (if \<not> t_skip_nl s then Some s
     else if is_prefix [CHR 0x0A] (t_buf s) then Some ((eat 1 s)\<lparr>t_skip_nl := False\<rparr>)
     else if is_prefix [CHR 0x0D, CHR 0x0A] (t_buf s) then Some ((eat 2 s)\<lparr>t_skip_nl := False\<rparr>)
     else if t_buf s = [] then None
     else Some (s\<lparr>t_skip_nl := False\<rparr>))"

definition scan_value :: "serde_json \<Rightarrow> sink \<Rightarrow> sink \<times> bool" where
  "scan_value S s = (case find_marker (t_buf s) [PARAM_CLOSE, TOOL_CLOSE] of
     (Some (at, i), _) \<Rightarrow>
       if i = 0 then ((close_param S (put_value S (take at (t_buf s)) True (eat (at + length PARAM_CLOSE) s)))\<lparr>t_state := Body\<rparr>, True)
       else (close_call (close_args (close_param S (put_value S (take at (t_buf s)) True (eat (at + length TOOL_CLOSE) s)))), True)
   | (None, safe) \<Rightarrow> if safe = 0 then (s, False) else (put_value S (take safe (t_buf s)) False (eat safe s), False))"

definition turn_param_value :: "serde_json \<Rightarrow> sink \<Rightarrow> sink \<times> bool" where
  "turn_param_value S s = (case skip_sep s of None \<Rightarrow> (s, False) | Some s1 \<Rightarrow> scan_value S s1)"

definition turn_tail :: "sink \<Rightarrow> sink \<times> bool" where
  "turn_tail s = (case find_marker (t_buf s) [TOOL_CLOSE] of
     (Some (at, _), _) \<Rightarrow> (close_call (eat (at + length TOOL_CLOSE) s), True)
   | (None, safe) \<Rightarrow> (eat safe s, False))"

definition turn_gname :: "serde_json \<Rightarrow> sink \<Rightarrow> sink \<times> bool" where
  "turn_gname S s = (case find_marker (t_buf s) [ARG_KEY_OPEN, TOOL_CLOSE] of
     (Some (at, i), _) \<Rightarrow>
       (let s1 = eat (at + (if i = 0 then length ARG_KEY_OPEN else length TOOL_CLOSE)) s in
        case glm_name (take at (t_buf s)) of
          None \<Rightarrow> (give_up S BadName s1, True)
        | Some name \<Rightarrow>
            (let s2 = name_call name s1 in
             if i = 0 then (s2\<lparr>t_pname := [], t_state := GKey\<rparr>, True) else (close_call (close_args s2), True)))
   | (None, _) \<Rightarrow> if MAX_TOOL_NAME + length TOOL_CLOSE < length (t_buf s) \<or> glm_name_broken (t_buf s)
       then (give_up S BadName s, True) else (s, False))"

definition turn_gkey :: "serde_json \<Rightarrow> sink \<Rightarrow> sink \<times> bool" where
  "turn_gkey S s = (case find_marker (t_buf s) [ARG_KEY_CLOSE] of
     (Some (at, _), _) \<Rightarrow>
       (let s1 = eat (at + length ARG_KEY_CLOSE) s in
        case glm_name (take at (t_buf s)) of
          None \<Rightarrow> (give_up S BadParamName s1, True)
        | Some k \<Rightarrow> (s1\<lparr>t_pname := k, t_state := GAwaitVal\<rparr>, True))
   | (None, _) \<Rightarrow> if MAX_TOOL_NAME + length ARG_KEY_CLOSE < length (t_buf s) \<or> glm_name_broken (t_buf s)
       then (give_up S BadParamName s, True) else (s, False))"

definition turn_gawait_val :: "serde_json \<Rightarrow> sink \<Rightarrow> sink \<times> bool" where
  "turn_gawait_val S s = (case find_marker (t_buf s) [ARG_VALUE_OPEN, TOOL_CLOSE] of
     (Some (at, i), _) \<Rightarrow>
       if i = 0 then ((open_glm_value S (eat (at + length ARG_VALUE_OPEN) s))\<lparr>t_state := GVal\<rparr>, True)
       else (give_up S BadParamName (eat (at + length TOOL_CLOSE) s), True)
   | (None, safe) \<Rightarrow> (eat safe s, False))"

definition turn_gval :: "serde_json \<Rightarrow> sink \<Rightarrow> sink \<times> bool" where
  "turn_gval S s = (case find_marker (t_buf s) [ARG_VALUE_CLOSE, TOOL_CLOSE] of
     (Some (at, i), _) \<Rightarrow>
       (let s1 = eat (at + (if i = 0 then length ARG_VALUE_CLOSE else length TOOL_CLOSE)) s;
            s2 = close_param S (glm_value S (take at (t_buf s)) s1) in
        if i = 0 then (s2\<lparr>t_state := GAfter\<rparr>, True) else (close_call (close_args s2), True))
   | (None, safe) \<Rightarrow> if safe = 0 then (s, False) else (glm_value S (take safe (t_buf s)) (eat safe s), False))"

definition turn_gafter :: "sink \<Rightarrow> sink \<times> bool" where
  "turn_gafter s = (case find_marker (t_buf s) [ARG_KEY_OPEN, TOOL_CLOSE] of
     (Some (at, i), _) \<Rightarrow>
       if i = 0 then ((eat (at + length ARG_KEY_OPEN) s)\<lparr>t_pname := [], t_state := GKey\<rparr>, True)
       else (close_call (close_args (eat (at + length TOOL_CLOSE) s)), True)
   | (None, safe) \<Rightarrow> (eat safe s, False))"

definition turn :: "serde_json \<Rightarrow> sink \<Rightarrow> sink \<times> bool" where
  "turn S s = (case t_state s of
     Text \<Rightarrow> turn_text s | Func \<Rightarrow> turn_func S s | FuncName \<Rightarrow> turn_func_name S s | Body \<Rightarrow> turn_body s
   | ParamName \<Rightarrow> turn_param_name S s | ParamValue \<Rightarrow> turn_param_value S s | Tail \<Rightarrow> turn_tail s
   | GName \<Rightarrow> turn_gname S s | GKey \<Rightarrow> turn_gkey S s | GAwaitVal \<Rightarrow> turn_gawait_val S s | GVal \<Rightarrow> turn_gval S s
   | GAfter \<Rightarrow> turn_gafter s)"

section \<open>The loop\<close>

lemma marker_len [simp]:
  "length TOOL_OPEN = 11" "length TOOL_CLOSE = 12" "length FUNCTION_OPEN = 10" "length FUNCTION_CLOSE = 11" "length PARAM_OPEN = 11"
  "length PARAM_CLOSE = 12" "length ARG_KEY_OPEN = 9" "length ARG_KEY_CLOSE = 10" "length ARG_VALUE_OPEN = 11" "length ARG_VALUE_CLOSE = 12"
  by (simp_all add: TOOL_OPEN_def TOOL_CLOSE_def FUNCTION_OPEN_def FUNCTION_CLOSE_def PARAM_OPEN_def PARAM_CLOSE_def
      ARG_KEY_OPEN_def ARG_KEY_CLOSE_def ARG_VALUE_OPEN_def ARG_VALUE_CLOSE_def)

lemma tag_ok [simp]:
  "marker_ok TOOL_OPEN" "marker_ok TOOL_CLOSE" "marker_ok FUNCTION_OPEN" "marker_ok FUNCTION_CLOSE" "marker_ok PARAM_OPEN"
  "marker_ok PARAM_CLOSE" "marker_ok ARG_KEY_OPEN" "marker_ok ARG_KEY_CLOSE" "marker_ok ARG_VALUE_OPEN" "marker_ok ARG_VALUE_CLOSE"
  by (simp_all add: marker_ok_def cont_byte_def TOOL_OPEN_def TOOL_CLOSE_def FUNCTION_OPEN_def FUNCTION_CLOSE_def PARAM_OPEN_def
      PARAM_CLOSE_def ARG_KEY_OPEN_def ARG_KEY_CLOSE_def ARG_VALUE_OPEN_def ARG_VALUE_CLOSE_def)

lemma scan_found:
  assumes "find_marker buf ms = (Some (at, i), safe)" and "list_all marker_ok ms"
  shows "i < length ms \<and> take (length (ms ! i)) (drop at buf) = ms ! i \<and> at + length (ms ! i) \<le> length buf"
proof -
  have f: "first_hit buf ms at i" using fm.scan_hit assms by blast
  then have "marker_ok (ms ! i)" using assms(2) by (simp add: first_hit_def list_all_length)
  then have "ms ! i \<noteq> []" by (rule marker_ok_not_empty)
  with f occurs_length [of "ms ! i" at buf] show ?thesis by (auto simp: first_hit_def occurs_def)
qed

lemma scan_safe: "find_marker buf ms = (None, safe) \<Longrightarrow> safe \<le> length buf"
  by (auto simp: find_marker_def split: option.splits)

lemmas sink_defs = send_def emit_args_def content_def drain_def eat_def flush_raw_def open_param_def value_text_def put_value_def
  close_param_def open_glm_value_def glm_value_def close_args_def close_args_truncated_def close_call_def abandon_def give_up_def name_call_def

lemma buf_simps [simp]:
  "t_buf (send e s) = t_buf s" "t_buf (emit_args x s) = t_buf s" "t_buf (content x s) = t_buf s" "t_buf (drain n s) = drop n (t_buf s)"
  "t_buf (eat n s) = drop n (t_buf s)" "t_buf (snd (flush_raw s)) = t_buf s" "t_buf (open_param S s) = t_buf s"
  "t_buf (value_text S x s) = t_buf s" "t_buf (put_value S x b s) = t_buf s" "t_buf (close_param S s) = t_buf s"
  "t_buf (open_glm_value S s) = t_buf s" "t_buf (glm_value S x s) = t_buf s" "t_buf (close_args s) = t_buf s"
  "t_buf (close_args_truncated S s) = t_buf s" "t_buf (close_call s) = t_buf s" "t_buf (name_call x s) = t_buf s"
  by (simp_all add: sink_defs Let_def)

lemma buf_abandon [simp]: "t_buf (abandon S k s) = t_buf s" "t_buf (give_up S k s) = t_buf s"
proof -
  show 1: "t_buf (abandon S k s) = t_buf s"
    unfolding abandon_def Let_def using buf_simps(6) [of "close_args_truncated S s"] by (simp add: split_beta del: buf_simps(6))
  show "t_buf (give_up S k s) = t_buf s" by (simp add: give_up_def Let_def 1)
qed

lemma state_simps [simp]:
  "t_state (close_call s) = Text" "t_state (give_up S k s) = Text" "t_state (eat n s) = t_state s" "t_state (drain n s) = t_state s"
  "t_state (content x s) = t_state s"
  by (simp_all add: close_call_def give_up_def eat_def drain_def content_def send_def Let_def)

text \<open>A turn that goes on takes bytes off the buffer or falls back to \<open>Text\<close>.\<close>

definition rank :: "sink \<Rightarrow> nat" where
  "rank s = (if t_state s = Text then 0 else 1)"

definition shrinks :: "sink \<Rightarrow> sink \<Rightarrow> bool" where
  "shrinks s' s \<longleftrightarrow> length (t_buf s') < length (t_buf s) \<or> t_buf s' = t_buf s \<and> rank s' < rank s"

lemma read_name_buf:
  "read_name_to_gt s = (r, s1) \<Longrightarrow> t_state s1 = t_state s \<and> (length (t_buf s1) < length (t_buf s) \<or> s1 = s \<and> (r = More \<or> r = Bad))"
  by (auto simp: read_name_to_gt_def Let_def split: option.splits if_splits dest: position_Some)

lemma skip_sep_buf: "skip_sep s = Some s1 \<Longrightarrow> length (t_buf s1) \<le> length (t_buf s)"
  by (auto simp: skip_sep_def split: if_splits)

lemma scan_short: "find_marker buf ms = (Some (at, i), safe) \<Longrightarrow> list_all marker_ok ms \<Longrightarrow> 0 < length buf \<and> i < length ms"
  using scan_found [of buf ms at i safe] marker_ok_not_empty [of "ms ! i"] by (cases buf) (auto simp: list_all_length)

lemma turn_shrinks: "turn S s = (s', True) \<Longrightarrow> shrinks s' s"
proof (cases "t_state s")
  case Text
  assume "turn S s = (s', True)"
  with Text show ?thesis using scan_short [of "t_buf s" "[TOOL_OPEN]"]
    by (auto simp: turn_def turn_text_def shrinks_def Let_def split: option.splits prod.splits if_splits)
next
  case Func
  assume "turn S s = (s', True)"
  with Func show ?thesis using scan_short [of "t_buf s" "[FUNCTION_OPEN, TOOL_CLOSE]"]
    by (auto simp: turn_def turn_func_def shrinks_def split: option.splits prod.splits if_splits)
next
  case FuncName
  assume "turn S s = (s', True)"
  with FuncName show ?thesis using read_name_buf [of s]
    by (fastforce simp: turn_def turn_func_name_def shrinks_def rank_def split: name_read.splits prod.splits)
next
  case Body
  assume "turn S s = (s', True)"
  with Body show ?thesis using scan_short [of "t_buf s" "[PARAM_OPEN, FUNCTION_CLOSE, TOOL_CLOSE]"]
    by (auto simp: turn_def turn_body_def shrinks_def Let_def split: option.splits prod.splits if_splits)
next
  case ParamName
  assume "turn S s = (s', True)"
  with ParamName show ?thesis using read_name_buf [of s]
    by (fastforce simp: turn_def turn_param_name_def shrinks_def rank_def split: name_read.splits prod.splits)
next
  case ParamValue
  assume t: "turn S s = (s', True)"
  then obtain s1 where s1: "skip_sep s = Some s1" "scan_value S s1 = (s', True)"
    using ParamValue by (auto simp: turn_def turn_param_value_def split: option.splits)
  have "length (t_buf s') < length (t_buf s1)" using s1(2) scan_short [of "t_buf s1" "[PARAM_CLOSE, TOOL_CLOSE]"]
    by (auto simp: scan_value_def split: option.splits prod.splits if_splits)
  with skip_sep_buf [OF s1(1)] show ?thesis by (simp add: shrinks_def)
next
  case Tail
  assume "turn S s = (s', True)"
  with Tail show ?thesis using scan_short [of "t_buf s" "[TOOL_CLOSE]"]
    by (auto simp: turn_def turn_tail_def shrinks_def split: option.splits prod.splits)
next
  case GName
  assume "turn S s = (s', True)"
  with GName show ?thesis using scan_short [of "t_buf s" "[ARG_KEY_OPEN, TOOL_CLOSE]"]
    by (auto simp: turn_def turn_gname_def shrinks_def rank_def Let_def split: option.splits prod.splits if_splits)
next
  case GKey
  assume "turn S s = (s', True)"
  with GKey show ?thesis using scan_short [of "t_buf s" "[ARG_KEY_CLOSE]"]
    by (auto simp: turn_def turn_gkey_def shrinks_def rank_def Let_def split: option.splits prod.splits if_splits)
next
  case GAwaitVal
  assume "turn S s = (s', True)"
  with GAwaitVal show ?thesis using scan_short [of "t_buf s" "[ARG_VALUE_OPEN, TOOL_CLOSE]"]
    by (auto simp: turn_def turn_gawait_val_def shrinks_def split: option.splits prod.splits if_splits)
next
  case GVal
  assume "turn S s = (s', True)"
  with GVal show ?thesis using scan_short [of "t_buf s" "[ARG_VALUE_CLOSE, TOOL_CLOSE]"]
    by (auto simp: turn_def turn_gval_def shrinks_def Let_def split: option.splits prod.splits if_splits)
next
  case GAfter
  assume "turn S s = (s', True)"
  with GAfter show ?thesis using scan_short [of "t_buf s" "[ARG_KEY_OPEN, TOOL_CLOSE]"]
    by (auto simp: turn_def turn_gafter_def shrinks_def split: option.splits prod.splits if_splits)
qed

function run :: "serde_json \<Rightarrow> sink \<Rightarrow> sink" where
  "run S s = (case turn S s of (s1, go) \<Rightarrow> if go then run S s1 else s1)"
  by pat_completeness auto
termination
  by (relation "measures [\<lambda>(S, s). length (t_buf s), \<lambda>(S, s). rank s]") (auto simp: shrinks_def dest!: turn_shrinks [OF sym])

declare run.simps [simp del]

text \<open>One piece in, the fragments it completes out; and the end of the generation.\<close>

definition feed :: "serde_json \<Rightarrow> str \<Rightarrow> tool_stream \<Rightarrow> tool_stream \<times> emit list" where
  "feed S piece t = (let s = run S (tool_stream.extend (t\<lparr>t_buf := t_buf t @ piece\<rparr>) (sink.fields [])) in
     (tool_stream.truncate s, out s))"

definition finish :: "serde_json \<Rightarrow> sink \<Rightarrow> sink \<times> bool" where
  "finish S s =
     (if t_state s = Text then (content (t_buf s) (s\<lparr>t_buf := []\<rparr>), False)
      else if t_state s = Tail then
        (close_call (s\<lparr>t_dropped := t_dropped s + (length (t_raw s) - t_tail_from s) + length (t_buf s), t_buf := []\<rparr>), False)
      else ((abandon S EndInCall (s\<lparr>t_buf := [], t_raw := t_raw s @ t_buf s\<rparr>))\<lparr>t_state := Text\<rparr>, True))"

end
