(* ===== verification/ToolCallInv.thy ===== *)
theory ToolCallInv
  imports ToolCall
begin

text \<open>
  What a whole answer looks like on the wire. A script of \<open>arm\<close> and \<open>feed\<close> calls, as the
  decode loop makes them, is run from a new stream and then finished; invariants of the
  parser state say what has left so far. The theorems: every call the parser names carries
  exactly one parseable JSON object, every byte of the answer leaves in exactly one way, and
  nothing but an armed token id opens a call.
\<close>

section \<open>Scripts\<close>

datatype wire = Arm | Piece str

definition with_out :: "tool_stream \<Rightarrow> emit list \<Rightarrow> sink" where
  "with_out t es = tool_stream.extend t (sink.fields es)"

definition wire_step :: "serde_json \<Rightarrow> tool_stream \<times> emit list \<Rightarrow> wire \<Rightarrow> tool_stream \<times> emit list" where
  "wire_step S x w = (case w of
     Arm \<Rightarrow> (arm (fst x), snd x)
   | Piece p \<Rightarrow> (let (t, es) = feed S p (fst x) in (t, snd x @ es)))"

definition wire_run :: "serde_json \<Rightarrow> json option \<Rightarrow> markup \<Rightarrow> wire list \<Rightarrow> tool_stream \<times> emit list" where
  "wire_run S tools m ws = foldl (wire_step S) (with_markup tools m, []) ws"

definition answer_of :: "serde_json \<Rightarrow> json option \<Rightarrow> markup \<Rightarrow> wire list \<Rightarrow> sink \<times> bool" where
  "answer_of S tools m ws = (let (t, es) = wire_run S tools m ws in finish S (with_out t es))"

fun text_of :: "wire list \<Rightarrow> str" where
  "text_of [] = []"
| "text_of (Arm # ws) = text_of ws"
| "text_of (Piece p # ws) = p @ text_of ws"

lemma text_of_append [simp]: "text_of (ws @ ws') = text_of ws @ text_of ws'"
  by (induction ws rule: text_of.induct) auto

section \<open>What was sent before does not matter\<close>

definition after :: "emit list \<Rightarrow> sink \<Rightarrow> sink" where
  "after es s = s\<lparr>out := es @ out s\<rparr>"

named_theorems after_simps

lemma after_fields [simp]:
  "t_markup (after es s) = t_markup s" "t_types (after es s) = t_types s" "t_state (after es s) = t_state s" "t_buf (after es s) = t_buf s"
  "t_armed (after es s) = t_armed s" "t_index (after es s) = t_index s" "t_closed (after es s) = t_closed s" "t_named (after es s) = t_named s"
  "t_name (after es s) = t_name s" "t_pname (after es s) = t_pname s" "t_open_brace (after es s) = t_open_brace s"
  "t_vstring (after es s) = t_vstring s" "t_vtype (after es s) = t_vtype s" "t_vbuf (after es s) = t_vbuf s"
  "t_skip_nl (after es s) = t_skip_nl s" "t_held_nl (after es s) = t_held_nl s" "t_raw (after es s) = t_raw s"
  "t_tail_from (after es s) = t_tail_from s" "t_dropped (after es s) = t_dropped s" "t_malformed (after es s) = t_malformed s"
  "out (after es s) = es @ out s"
  by (simp_all add: after_def)

lemma after_updates [after_simps]:
  "(after es s)\<lparr>t_state := a\<rparr> = after es (s\<lparr>t_state := a\<rparr>)" "(after es s)\<lparr>t_buf := b\<rparr> = after es (s\<lparr>t_buf := b\<rparr>)"
  "(after es s)\<lparr>t_armed := c\<rparr> = after es (s\<lparr>t_armed := c\<rparr>)" "(after es s)\<lparr>t_index := c\<rparr> = after es (s\<lparr>t_index := c\<rparr>)"
  "(after es s)\<lparr>t_closed := c\<rparr> = after es (s\<lparr>t_closed := c\<rparr>)" "(after es s)\<lparr>t_named := d\<rparr> = after es (s\<lparr>t_named := d\<rparr>)"
  "(after es s)\<lparr>t_name := b\<rparr> = after es (s\<lparr>t_name := b\<rparr>)" "(after es s)\<lparr>t_pname := b\<rparr> = after es (s\<lparr>t_pname := b\<rparr>)"
  "(after es s)\<lparr>t_open_brace := d\<rparr> = after es (s\<lparr>t_open_brace := d\<rparr>)" "(after es s)\<lparr>t_vstring := d\<rparr> = after es (s\<lparr>t_vstring := d\<rparr>)"
  "(after es s)\<lparr>t_vtype := ty\<rparr> = after es (s\<lparr>t_vtype := ty\<rparr>)" "(after es s)\<lparr>t_vbuf := b\<rparr> = after es (s\<lparr>t_vbuf := b\<rparr>)"
  "(after es s)\<lparr>t_skip_nl := d\<rparr> = after es (s\<lparr>t_skip_nl := d\<rparr>)" "(after es s)\<lparr>t_held_nl := d\<rparr> = after es (s\<lparr>t_held_nl := d\<rparr>)"
  "(after es s)\<lparr>t_raw := b\<rparr> = after es (s\<lparr>t_raw := b\<rparr>)" "(after es s)\<lparr>t_tail_from := c\<rparr> = after es (s\<lparr>t_tail_from := c\<rparr>)"
  "(after es s)\<lparr>t_dropped := c\<rparr> = after es (s\<lparr>t_dropped := c\<rparr>)" "(after es s)\<lparr>t_malformed := ml\<rparr> = after es (s\<lparr>t_malformed := ml\<rparr>)"
  by (simp_all add: after_def)

lemma after_emit [after_simps]:
  "send e (after es s) = after es (send e s)" "emit_args x (after es s) = after es (emit_args x s)"
  "content x (after es s) = after es (content x s)" "drain n (after es s) = after es (drain n s)" "eat n (after es s) = after es (eat n s)"
  "flush_raw (after es s) = (fst (flush_raw s), after es (snd (flush_raw s)))"
  by (simp_all add: emit_args_def send_def content_def drain_def eat_def flush_raw_def Let_def after_def)

lemma after_param [after_simps]:
  "open_param S (after es s) = after es (open_param S s)" "value_text S x (after es s) = after es (value_text S x s)"
  "close_param S (after es s) = after es (close_param S s)" "name_call x (after es s) = after es (name_call x s)"
  "close_args (after es s) = after es (close_args s)" "close_call (after es s) = after es (close_call s)"
  by (simp_all add: open_param_def value_text_def close_param_def name_call_def close_args_def close_call_def Let_def after_simps)

lemma after_value [after_simps]:
  "put_value S x b (after es s) = after es (put_value S x b s)" "glm_value S x (after es s) = after es (glm_value S x s)"
  "open_glm_value S (after es s) = after es (open_glm_value S s)"
  "close_args_truncated S (after es s) = after es (close_args_truncated S s)"
  by (simp_all add: put_value_def glm_value_def open_glm_value_def close_args_truncated_def Let_def after_simps)

lemma after_abandon [after_simps]:
  "abandon S k (after es s) = after es (abandon S k s)" "give_up S k (after es s) = after es (give_up S k s)"
proof -
  show 1: "abandon S k (after es s) = after es (abandon S k s)"
    by (simp add: abandon_def Let_def split_beta after_simps)
  show "give_up S k (after es s) = after es (give_up S k s)" by (simp add: give_up_def Let_def 1 after_simps)
qed

lemma after_read_name [after_simps]: "read_name_to_gt (after es s) = (fst (read_name_to_gt s), after es (snd (read_name_to_gt s)))"
  by (simp add: read_name_to_gt_def Let_def after_simps split: option.splits)

lemma after_skip_sep [after_simps]: "skip_sep (after es s) = map_option (after es) (skip_sep s)"
  by (simp add: skip_sep_def after_simps)

lemma after_turn: "turn S (after es s) = (after es (fst (turn S s)), snd (turn S s))"
proof -
  have "turn_text (after es s) = (after es (fst (turn_text s)), snd (turn_text s))"
    by (simp add: turn_text_def Let_def after_simps split: option.splits prod.splits)
  moreover have "turn_func S (after es s) = (after es (fst (turn_func S s)), snd (turn_func S s))"
    by (simp add: turn_func_def after_simps split: option.splits prod.splits)
  moreover have "turn_func_name S (after es s) = (after es (fst (turn_func_name S s)), snd (turn_func_name S s))"
    by (simp add: turn_func_name_def after_simps split: name_read.splits prod.splits)
  moreover have "turn_body (after es s) = (after es (fst (turn_body s)), snd (turn_body s))"
    by (simp add: turn_body_def Let_def after_simps split: option.splits prod.splits)
  moreover have "turn_param_name S (after es s) = (after es (fst (turn_param_name S s)), snd (turn_param_name S s))"
    by (simp add: turn_param_name_def after_simps split: name_read.splits prod.splits)
  moreover have "scan_value S (after es u) = (after es (fst (scan_value S u)), snd (scan_value S u))" for u
    by (simp add: scan_value_def after_simps split: option.splits prod.splits)
  then have "turn_param_value S (after es s) = (after es (fst (turn_param_value S s)), snd (turn_param_value S s))"
    by (simp add: turn_param_value_def after_simps split: option.splits)
  moreover have "turn_tail (after es s) = (after es (fst (turn_tail s)), snd (turn_tail s))"
    by (simp add: turn_tail_def after_simps split: option.splits prod.splits)
  moreover have "turn_gname S (after es s) = (after es (fst (turn_gname S s)), snd (turn_gname S s))"
    by (simp add: turn_gname_def Let_def after_simps split: option.splits prod.splits)
  moreover have "turn_gkey S (after es s) = (after es (fst (turn_gkey S s)), snd (turn_gkey S s))"
    by (simp add: turn_gkey_def Let_def after_simps split: option.splits prod.splits)
  moreover have "turn_gawait_val S (after es s) = (after es (fst (turn_gawait_val S s)), snd (turn_gawait_val S s))"
    by (simp add: turn_gawait_val_def after_simps split: option.splits prod.splits)
  moreover have "turn_gval S (after es s) = (after es (fst (turn_gval S s)), snd (turn_gval S s))"
    by (simp add: turn_gval_def Let_def after_simps split: option.splits prod.splits)
  moreover have "turn_gafter (after es s) = (after es (fst (turn_gafter s)), snd (turn_gafter s))"
    by (simp add: turn_gafter_def after_simps split: option.splits prod.splits)
  ultimately show ?thesis by (simp add: turn_def split: tstate.splits)
qed

lemma after_run: "run S (after es s) = after es (run S s)"
proof (induction S s rule: run.induct)
  case (1 S s)
  obtain s1 go where t: "turn S s = (s1, go)" by (cases "turn S s")
  show ?case
  proof (cases go)
    case True
    then have "run S (after es s1) = after es (run S s1)" using 1 [OF t [symmetric]] by simp
    with True show ?thesis by (simp add: run.simps [of S "after es s"] run.simps [of S s] after_turn t)
  next
    case False
    then show ?thesis by (simp add: run.simps [of S "after es s"] run.simps [of S s] after_turn t)
  qed
qed

text \<open>Hence one sink can stand for the stream and everything sent so far.\<close>

lemma wire_step_sink:
  "wire_step S (t, es) (Piece p) = (let s = run S ((with_out t es)\<lparr>t_buf := t_buf t @ p\<rparr>) in (tool_stream.truncate s, out s))"
proof -
  have "(with_out t es)\<lparr>t_buf := t_buf t @ p\<rparr> = after es (with_out (t\<lparr>t_buf := t_buf t @ p\<rparr>) [])"
    by (simp add: with_out_def after_def tool_stream.defs sink.defs)
  then show ?thesis
    by (simp add: wire_step_def feed_def with_out_def [symmetric] after_run Let_def) (simp add: after_def tool_stream.defs)
qed

lemma with_out_truncate: "with_out (tool_stream.truncate s) (out s) = s"
  by (simp add: with_out_def tool_stream.defs sink.defs)

lemma wire_induct [consumes 1, case_names new arm piece]:
  assumes "wire_run S tools m ws = (t, es)"
    and new: "P [] (with_out (with_markup tools m) [])"
    and arm: "\<And>ws s. P ws s \<Longrightarrow> P (ws @ [Arm]) (s\<lparr>t_armed := t_armed s + 1\<rparr>)"
    and piece: "\<And>ws s p. P ws s \<Longrightarrow> P (ws @ [Piece p]) (run S (s\<lparr>t_buf := t_buf s @ p\<rparr>))"
  shows "P ws (with_out t es)"
  using assms(1)
proof (induction ws arbitrary: t es rule: rev_induct)
  case Nil
  with new show ?case by (simp add: wire_run_def)
next
  case (snoc w ws)
  obtain t0 es0 where r: "wire_run S tools m ws = (t0, es0)" by (cases "wire_run S tools m ws")
  have IH: "P ws (with_out t0 es0)" by (rule snoc.IH [OF r])
  have st: "wire_step S (t0, es0) w = (t, es)" using snoc.prems r by (simp add: wire_run_def)
  show ?case
  proof (cases w)
    case Arm
    with st have "with_out t es = (with_out t0 es0)\<lparr>t_armed := t_armed (with_out t0 es0) + 1\<rparr>"
      by (auto simp: wire_step_def arm_def with_out_def tool_stream.defs sink.defs)
    with arm [OF IH] Arm show ?thesis by simp
  next
    case (Piece p)
    have "t_buf (with_out t0 es0) = t_buf t0" by (simp add: with_out_def tool_stream.defs)
    with st Piece have "with_out t es = run S ((with_out t0 es0)\<lparr>t_buf := t_buf (with_out t0 es0) @ p\<rparr>)"
      by (auto simp: wire_step_sink Let_def with_out_truncate)
    with piece [OF IH] Piece show ?thesis by simp
  qed
qed

section \<open>Invariants of a script\<close>

text \<open>
  The interface between the parser and what is said about whole answers: a relation between
  a sink and the script so far that the start, an \<open>arm\<close>, the arrival of text and every turn
  of the loop respect holds whenever the parser waits for input.
\<close>

locale wire_invariant =
  fixes S :: serde_json and tools :: "json option" and m :: markup and I :: "sink \<Rightarrow> wire list \<Rightarrow> bool"
  assumes init: "I (with_out (with_markup tools m) []) []"
    and armed: "I s ws \<Longrightarrow> I (s\<lparr>t_armed := t_armed s + 1\<rparr>) (ws @ [Arm])"
    and fed: "I s ws \<Longrightarrow> I (s\<lparr>t_buf := t_buf s @ p\<rparr>) (ws @ [Piece p])"
    and turned: "I s ws \<Longrightarrow> turn S s = (s', go) \<Longrightarrow> I s' ws"
begin

lemma run_keeps: "I s ws \<Longrightarrow> I (run S s) ws"
proof -
  have "S' = S \<Longrightarrow> I s ws \<Longrightarrow> I (run S' s) ws" for S'
  proof (induction S' s rule: run.induct)
    case (1 S' s)
    obtain s1 go where t: "turn S s = (s1, go)" by (cases "turn S s")
    have k: "I s1 ws" by (rule turned [OF "1.prems"(2) t])
    with "1.IH" [of s1 go] "1.prems"(1) t show ?case by (cases go) (simp_all add: run.simps [of S s])
  qed
  then show "I s ws \<Longrightarrow> I (run S s) ws" by simp
qed

lemma wire_keeps: "wire_run S tools m ws = (t, es) \<Longrightarrow> I (with_out t es) ws"
proof (induction rule: wire_induct [where P = "\<lambda>ws s. I s ws"])
  case (piece ws s p)
  then show ?case by (simp add: run_keeps fed)
qed (simp_all add: init armed [simplified])

end

section \<open>Every byte leaves once\<close>

text \<open>
  The fed text is cut into segments: bytes sent as content, bytes dropped, and the markup of
  calls that were closed.
\<close>

datatype fate = Sent | Dropped | Parsed

fun content_of :: "emit list \<Rightarrow> str" where
  "content_of [] = []"
| "content_of (Content x # es) = x @ content_of es"
| "content_of (_ # es) = content_of es"

definition of_fate :: "fate \<Rightarrow> (fate \<times> str) list \<Rightarrow> str list" where
  "of_fate f segs = map snd (filter (\<lambda>x. fst x = f) segs)"

text \<open>What the operations leave alone.\<close>

lemma content_of_append [simp]: "content_of (es @ fs) = content_of es @ content_of fs"
  by (induction es rule: content_of.induct) auto

lemma raw_same [simp]:
  "t_raw (emit_args x s) = t_raw s" "t_raw (open_param S s) = t_raw s" "t_raw (value_text S x s) = t_raw s"
  "t_raw (put_value S x b s) = t_raw s" "t_raw (close_param S s) = t_raw s" "t_raw (open_glm_value S s) = t_raw s"
  "t_raw (glm_value S x s) = t_raw s" "t_raw (close_args s) = t_raw s" "t_raw (close_args_truncated S s) = t_raw s"
  "t_raw (send e s) = t_raw s" "t_raw (content x s) = t_raw s" "t_raw (drain n s) = t_raw s" "t_raw (name_call x s) = t_raw s"
  "t_raw (eat n s) = t_raw s @ take n (t_buf s)"
  by (simp_all add: sink_defs Let_def)

lemma named_same [simp]:
  "t_named (emit_args x s) = t_named s" "t_named (open_param S s) = t_named s" "t_named (value_text S x s) = t_named s"
  "t_named (put_value S x b s) = t_named s" "t_named (close_param S s) = t_named s" "t_named (open_glm_value S s) = t_named s"
  "t_named (glm_value S x s) = t_named s" "t_named (close_args s) = t_named s" "t_named (close_args_truncated S s) = t_named s"
  "t_named (send e s) = t_named s" "t_named (content x s) = t_named s" "t_named (drain n s) = t_named s"
  "t_named (eat n s) = t_named s" "t_named (name_call x s)"
  by (simp_all add: sink_defs Let_def)

lemma index_same [simp]:
  "t_index (emit_args x s) = t_index s" "t_index (open_param S s) = t_index s" "t_index (value_text S x s) = t_index s"
  "t_index (put_value S x b s) = t_index s" "t_index (close_param S s) = t_index s" "t_index (open_glm_value S s) = t_index s"
  "t_index (glm_value S x s) = t_index s" "t_index (close_args s) = t_index s" "t_index (close_args_truncated S s) = t_index s"
  "t_index (send e s) = t_index s" "t_index (content x s) = t_index s" "t_index (drain n s) = t_index s"
  "t_index (eat n s) = t_index s" "t_index (name_call x s) = t_index s"
  by (simp_all add: sink_defs Let_def)

lemma closed_same [simp]:
  "t_closed (emit_args x s) = t_closed s" "t_closed (open_param S s) = t_closed s" "t_closed (value_text S x s) = t_closed s"
  "t_closed (put_value S x b s) = t_closed s" "t_closed (close_param S s) = t_closed s"
  "t_closed (open_glm_value S s) = t_closed s" "t_closed (glm_value S x s) = t_closed s" "t_closed (close_args s) = t_closed s"
  "t_closed (close_args_truncated S s) = t_closed s" "t_closed (send e s) = t_closed s" "t_closed (content x s) = t_closed s"
  "t_closed (drain n s) = t_closed s" "t_closed (eat n s) = t_closed s" "t_closed (name_call x s) = t_closed s"
  by (simp_all add: sink_defs Let_def)

lemma dropped_same [simp]:
  "t_dropped (emit_args x s) = t_dropped s" "t_dropped (open_param S s) = t_dropped s"
  "t_dropped (value_text S x s) = t_dropped s" "t_dropped (put_value S x b s) = t_dropped s"
  "t_dropped (close_param S s) = t_dropped s" "t_dropped (open_glm_value S s) = t_dropped s"
  "t_dropped (glm_value S x s) = t_dropped s" "t_dropped (close_args s) = t_dropped s"
  "t_dropped (close_args_truncated S s) = t_dropped s" "t_dropped (send e s) = t_dropped s" "t_dropped (drain n s) = t_dropped s"
  "t_dropped (eat n s) = t_dropped s" "t_dropped (name_call x s) = t_dropped s"
  by (simp_all add: sink_defs Let_def)

lemma malformed_same [simp]:
  "t_malformed (emit_args x s) = t_malformed s" "t_malformed (open_param S s) = t_malformed s"
  "t_malformed (value_text S x s) = t_malformed s" "t_malformed (put_value S x b s) = t_malformed s"
  "t_malformed (close_param S s) = t_malformed s" "t_malformed (open_glm_value S s) = t_malformed s"
  "t_malformed (glm_value S x s) = t_malformed s" "t_malformed (close_args s) = t_malformed s"
  "t_malformed (close_args_truncated S s) = t_malformed s" "t_malformed (send e s) = t_malformed s"
  "t_malformed (content x s) = t_malformed s" "t_malformed (drain n s) = t_malformed s" "t_malformed (eat n s) = t_malformed s"
  "t_malformed (name_call x s) = t_malformed s"
  by (simp_all add: sink_defs Let_def)

lemma content_same [simp]:
  "content_of (out (emit_args x s)) = content_of (out s)" "content_of (out (open_param S s)) = content_of (out s)"
  "content_of (out (value_text S x s)) = content_of (out s)" "content_of (out (put_value S x b s)) = content_of (out s)"
  "content_of (out (close_param S s)) = content_of (out s)" "content_of (out (open_glm_value S s)) = content_of (out s)"
  "content_of (out (glm_value S x s)) = content_of (out s)" "content_of (out (close_args s)) = content_of (out s)"
  "content_of (out (close_args_truncated S s)) = content_of (out s)" "content_of (out (drain n s)) = content_of (out s)"
  "content_of (out (eat n s)) = content_of (out s)" "content_of (out (name_call x s)) = content_of (out s)"
  by (simp_all add: sink_defs Let_def)

text \<open>The bytes that have left the parser.\<close>

definition spent :: "sink \<Rightarrow> str \<Rightarrow> bool" where
  "spent s p \<longleftrightarrow> (\<exists>segs. concat (map snd segs) = p \<and> content_of (out s) = concat (of_fate Sent segs)
     \<and> t_dropped s = length (concat (of_fate Dropped segs)) \<and> t_closed s = length (of_fate Parsed segs)
     \<and> list_all (is_prefix TOOL_OPEN) (of_fate Parsed segs))"

lemma of_fate_snoc: "of_fate f (segs @ [(g, x)]) = of_fate f segs @ (if g = f then [x] else [])"
  by (simp add: of_fate_def)

lemma spent_cong: "content_of (out s') = content_of (out s) \<Longrightarrow> t_dropped s' = t_dropped s \<Longrightarrow> t_closed s' = t_closed s \<Longrightarrow> spent s' p = spent s p"
  by (simp add: spent_def)

lemma spent_more:
  assumes "spent s p" and "content_of (out s') = content_of (out s) @ (if f = Sent then x else [])"
    and "t_dropped s' = t_dropped s + (if f = Dropped then length x else 0)" and "t_closed s' = t_closed s + (if f = Parsed then 1 else 0)"
    and "f = Parsed \<Longrightarrow> is_prefix TOOL_OPEN x"
  shows "spent s' (p @ x)"
proof -
  obtain segs where "concat (map snd segs) = p" "content_of (out s) = concat (of_fate Sent segs)"
    "t_dropped s = length (concat (of_fate Dropped segs))" "t_closed s = length (of_fate Parsed segs)"
    "list_all (is_prefix TOOL_OPEN) (of_fate Parsed segs)"
    using assms(1) by (auto simp: spent_def)
  with assms(2-5) show ?thesis unfolding spent_def
    by (intro exI [of _ "segs @ [(f, x)]"]) (cases f; simp add: of_fate_snoc)
qed

lemma spent_content: "spent s p \<Longrightarrow> spent (content x s) (p @ x)"
proof -
  assume s: "spent s p"
  show ?thesis
  proof (cases "x = [] \<or> \<not> (0 < t_index s \<or> t_named s)")
    case True
    then show ?thesis by (intro spent_more [OF s, where f = Sent]) (auto simp: content_def send_def)
  next
    case False
    then show ?thesis by (intro spent_more [OF s, where f = Dropped]) (auto simp: content_def)
  qed
qed

lemma spent_flush: "spent s p \<Longrightarrow> spent (snd (flush_raw s)) (p @ t_raw s)"
proof -
  assume s: "spent s p"
  show ?thesis
  proof (cases "0 < t_index s \<or> t_named s")
    case True
    then show ?thesis by (intro spent_more [OF s, where f = Dropped]) (auto simp: flush_raw_def Let_def)
  next
    case False
    then show ?thesis by (intro spent_more [OF s, where f = Sent]) (auto simp: flush_raw_def Let_def send_def)
  qed
qed

lemma spent_close: "spent s p \<Longrightarrow> t_named s \<Longrightarrow> is_prefix TOOL_OPEN x \<Longrightarrow> spent (close_call s) (p @ x)"
  by (rule spent_more [where f = Parsed]) (auto simp: close_call_def Let_def)

lemma spent_same [simp]:
  "spent (emit_args x s) p = spent s p" "spent (drain n s) p = spent s p" "spent (eat n s) p = spent s p"
  "spent (open_param S s) p = spent s p" "spent (value_text S x s) p = spent s p" "spent (put_value S x b s) p = spent s p"
  "spent (close_param S s) p = spent s p" "spent (open_glm_value S s) p = spent s p" "spent (glm_value S x s) p = spent s p"
  "spent (close_args s) p = spent s p" "spent (close_args_truncated S s) p = spent s p" "spent (name_call x s) p = spent s p"
  by (rule spent_cong; simp)+

lemma spent_update [simp]:
  "spent (s\<lparr>t_state := a\<rparr>) p = spent s p" "spent (s\<lparr>t_buf := b\<rparr>) p = spent s p" "spent (s\<lparr>t_armed := c\<rparr>) p = spent s p"
  "spent (s\<lparr>t_index := c\<rparr>) p = spent s p" "spent (s\<lparr>t_named := d\<rparr>) p = spent s p" "spent (s\<lparr>t_name := b\<rparr>) p = spent s p"
  "spent (s\<lparr>t_pname := b\<rparr>) p = spent s p" "spent (s\<lparr>t_open_brace := d\<rparr>) p = spent s p" "spent (s\<lparr>t_raw := b\<rparr>) p = spent s p"
  "spent (s\<lparr>t_tail_from := c\<rparr>) p = spent s p" "spent (s\<lparr>t_skip_nl := d\<rparr>) p = spent s p" "spent (s\<lparr>t_malformed := ml\<rparr>) p = spent s p"
  by (rule spent_cong; simp)+

lemma spent_abandon: "spent s p \<Longrightarrow> spent (abandon S k s) (p @ t_raw s)"
  using spent_flush [of "close_args_truncated S s" p] by (simp add: abandon_def Let_def split_beta)

lemma spent_give_up: "spent s p \<Longrightarrow> spent (give_up S k s) (p @ t_raw s)"
  using spent_abandon [of s p S k] by (simp add: give_up_def Let_def)

lemma raw_cleared [simp]: "t_raw (close_call s) = []" "t_raw (give_up S k s) = []"
proof -
  have "t_raw (abandon S k s) = []" by (simp add: abandon_def flush_raw_def send_def Let_def)
  then show "t_raw (give_up S k s) = []" by (simp add: give_up_def Let_def)
qed (simp add: close_call_def)

lemma named_cleared [simp]: "\<not> t_named (close_call s)" "\<not> t_named (give_up S k s)"
  by (simp_all add: close_call_def give_up_def Let_def)

text \<open>Which states belong to a call that already has its name.\<close>

definition in_call :: "tstate \<Rightarrow> bool" where
  "in_call st \<longleftrightarrow> st \<in> {Body, ParamName, ParamValue, Tail, GKey, GAwaitVal, GVal, GAfter}"

definition phase_ok :: "sink \<Rightarrow> bool" where
  "phase_ok s \<longleftrightarrow> (t_state s = Text \<longrightarrow> t_raw s = []) \<and> (t_state s \<noteq> Text \<longrightarrow> is_prefix TOOL_OPEN (t_raw s)) \<and> (t_named s = in_call (t_state s))
     \<and> (t_state s = Tail \<longrightarrow> 11 \<le> t_tail_from s)"

lemma is_prefix_append [simp]: "is_prefix m r \<Longrightarrow> is_prefix m (r @ x)" "is_prefix m m"
  by (auto simp: is_prefix_iff)

lemma is_prefix_length: "is_prefix m r \<Longrightarrow> length m \<le> length r"
  by (auto simp: is_prefix_iff)

lemma tail_from_eat [simp]: "t_tail_from (eat n s) = t_tail_from s"
  by (simp add: eat_def drain_def)

lemma tail_room [simp]: "is_prefix TOOL_OPEN r \<Longrightarrow> 11 \<le> length r"
  using is_prefix_length [of TOOL_OPEN r] by simp

definition acct0 :: "sink \<Rightarrow> str \<Rightarrow> bool" where
  "acct0 s fed \<longleftrightarrow> (\<exists>p. spent s p \<and> p @ t_raw s @ t_buf s = fed)"

definition acct :: "sink \<Rightarrow> str \<Rightarrow> bool" where
  "acct s fed \<longleftrightarrow> phase_ok s \<and> acct0 s fed"

lemma acct0_same [simp]:
  "acct0 (emit_args x s) fed = acct0 s fed" "acct0 (eat n s) fed = acct0 s fed"
  "acct0 (open_param S s) fed = acct0 s fed" "acct0 (value_text S x s) fed = acct0 s fed" "acct0 (put_value S x b s) fed = acct0 s fed"
  "acct0 (close_param S s) fed = acct0 s fed" "acct0 (open_glm_value S s) fed = acct0 s fed" "acct0 (glm_value S x s) fed = acct0 s fed"
  "acct0 (close_args s) fed = acct0 s fed" "acct0 (name_call x s) fed = acct0 s fed"
  by (simp_all add: acct0_def)

lemma acct0_update [simp]:
  "acct0 (s\<lparr>t_state := a\<rparr>) fed = acct0 s fed" "acct0 (s\<lparr>t_armed := c\<rparr>) fed = acct0 s fed" "acct0 (s\<lparr>t_name := b\<rparr>) fed = acct0 s fed"
  "acct0 (s\<lparr>t_pname := b\<rparr>) fed = acct0 s fed" "acct0 (s\<lparr>t_tail_from := c\<rparr>) fed = acct0 s fed"
  "acct0 (s\<lparr>t_skip_nl := d\<rparr>) fed = acct0 s fed" "acct0 (s\<lparr>t_named := d\<rparr>) fed = acct0 s fed"
  "acct0 (s\<lparr>t_open_brace := d\<rparr>) fed = acct0 s fed"
  by (simp_all add: acct0_def)

lemma acct0_give_up [simp]: "acct0 s fed \<Longrightarrow> acct0 (give_up S k s) fed"
  unfolding acct0_def by (metis append.left_neutral append_assoc buf_abandon(2) raw_cleared(2) spent_give_up)

lemma acct0_close_call [simp]: "acct0 s fed \<Longrightarrow> t_named s \<Longrightarrow> is_prefix TOOL_OPEN (t_raw s) \<Longrightarrow> acct0 (close_call s) fed"
  unfolding acct0_def by (metis append.left_neutral append_assoc buf_simps(15) raw_cleared(1) spent_close)

lemma acct0_content: "acct0 s fed \<Longrightarrow> t_raw s = [] \<Longrightarrow> acct0 (drain n (content (take n (t_buf s)) s)) fed"
  unfolding acct0_def using spent_content [of s _ "take n (t_buf s)"] by fastforce

lemma acct0_open:
  assumes "acct0 s fed" and "t_raw s = []" and "drop at (t_buf s) = tag @ rest"
  shows "acct0 (drain (at + length tag) (content (take at (t_buf s)) s)\<lparr>t_raw := tag\<rparr>) fed"
proof -
  obtain p where p: "spent s p" "p @ t_buf s = fed" using assms by (auto simp: acct0_def)
  have "take at (t_buf s) @ tag @ drop (at + length tag) (t_buf s) = t_buf s"
    using assms(3) by (metis add.commute append_eq_conv_conj append_take_drop_id drop_drop)
  with p spent_content [OF p(1), of "take at (t_buf s)"] show ?thesis
    unfolding acct0_def by (intro exI [of _ "p @ take at (t_buf s)"]) simp
qed

lemma phase_update [simp]:
  "phase_ok (s\<lparr>t_pname := b\<rparr>) = phase_ok s" "phase_ok (s\<lparr>t_skip_nl := d\<rparr>) = phase_ok s"
  "phase_ok (s\<lparr>t_armed := c\<rparr>) = phase_ok s"
  by (simp_all add: phase_ok_def)

lemma phase_reset [simp]: "phase_ok (close_call s)" "phase_ok (give_up S k s)"
  by (simp_all add: phase_ok_def in_call_def)

lemma state_same [simp]:
  "t_state (emit_args x s) = t_state s" "t_state (open_param S s) = t_state s" "t_state (value_text S x s) = t_state s"
  "t_state (put_value S x b s) = t_state s" "t_state (close_param S s) = t_state s" "t_state (open_glm_value S s) = t_state s"
  "t_state (glm_value S x s) = t_state s" "t_state (close_args s) = t_state s" "t_state (name_call x s) = t_state s"
  by (simp_all add: sink_defs Let_def)

lemma read_name_acct: "acct0 s fed \<Longrightarrow> read_name_to_gt s = (r, s1) \<Longrightarrow> acct0 s1 fed \<and> t_state s1 = t_state s \<and> t_named s1 = t_named s
    \<and> (is_prefix TOOL_OPEN (t_raw s) \<longrightarrow> is_prefix TOOL_OPEN (t_raw s1))"
  by (auto simp: read_name_to_gt_def Let_def split: option.splits if_splits)

lemma skip_sep_acct: "acct0 s fed \<Longrightarrow> skip_sep s = Some s1 \<Longrightarrow> acct0 s1 fed \<and> t_state s1 = t_state s \<and> t_named s1 = t_named s
    \<and> (is_prefix TOOL_OPEN (t_raw s) \<longrightarrow> is_prefix TOOL_OPEN (t_raw s1))"
  by (auto simp: skip_sep_def split: if_splits)

lemma acct_turn_text: "t_state s = Text \<Longrightarrow> acct s fed \<Longrightarrow> turn_text s = (s', go) \<Longrightarrow> acct s' fed"
proof -
  assume st: "t_state s = Text" and a: "acct s fed" and t: "turn_text s = (s', go)"
  have r: "t_raw s = []" "\<not> t_named s" "acct0 s fed" "phase_ok s" using a st by (auto simp: acct_def phase_ok_def in_call_def)
  have ph: "phase_ok (drain n (content x s))" for n x using r(1,2) st by (simp add: phase_ok_def in_call_def)
  show ?thesis
  proof (cases "find_marker (t_buf s) [TOOL_OPEN]")
    case (Pair hit safe)
    show ?thesis
    proof (cases hit)
      case None
      with t Pair a r(1,3) ph show ?thesis by (auto simp: turn_text_def acct_def acct0_content split: if_splits)
    next
      case (Some h)
      obtain "at" i where h: "h = (at, i)" by (cases h)
      from scan_found [OF Pair [unfolded Some h]] have "take 11 (drop at (t_buf s)) = TOOL_OPEN" by auto
      then obtain rest where rest: "drop at (t_buf s) = TOOL_OPEN @ rest" by (metis append_take_drop_id)
      have "acct0 (drain (at + 11) (content (take at (t_buf s)) s)\<lparr>t_raw := TOOL_OPEN\<rparr>) fed"
        using acct0_open [OF r(3,1) rest] by simp
      then have "acct0 (drain (at + 11) (content (take at (t_buf s)) s)\<lparr>t_armed := c, t_raw := TOOL_OPEN\<rparr>) fed" for c
        by (simp add: acct0_def)
      moreover have "(case m of Qwen \<Rightarrow> Func | Glm \<Rightarrow> GName) \<noteq> Tail" "(case m of Qwen \<Rightarrow> Func | Glm \<Rightarrow> GName) \<noteq> Text" "\<not> in_call (case m of Qwen \<Rightarrow> Func | Glm \<Rightarrow> GName)" for m
        by (cases m; simp add: in_call_def)+
      ultimately show ?thesis using t Pair Some h r(1,3) ph
        by (auto simp: turn_text_def acct_def acct0_content Let_def phase_ok_def split: if_splits)
    qed
  qed
qed

lemma acct_turn: "acct s fed \<Longrightarrow> turn S s = (s', go) \<Longrightarrow> acct s' fed"
proof -
  assume a: "acct s fed" and t: "turn S s = (s', go)"
  have r: "acct0 s fed" "t_named s = in_call (t_state s)" "t_state s = Text \<or> is_prefix TOOL_OPEN (t_raw s)"
    "t_state s = Tail \<longrightarrow> 11 \<le> t_tail_from s" using a by (auto simp: acct_def phase_ok_def split: if_splits)
  note [simp] = acct_def phase_ok_def in_call_def Let_def
  note [split] = option.splits prod.splits if_splits name_read.splits
  show ?thesis
  proof (cases "t_state s")
    case Text
    with t show ?thesis using acct_turn_text [OF Text a] by (simp add: turn_def)
  next
    case FuncName
    with t r show ?thesis by (auto simp: turn_def turn_func_name_def dest: read_name_acct [OF r(1)])
  next
    case ParamName
    with t r show ?thesis by (auto simp: turn_def turn_param_name_def dest: read_name_acct [OF r(1)])
  next
    case ParamValue
    with t r show ?thesis
      by (auto simp: turn_def turn_param_value_def scan_value_def dest: skip_sep_acct [OF r(1)])
  next
    case Func
    with t r show ?thesis by (auto simp: turn_def turn_func_def)
  next
    case Body
    with t r show ?thesis by (auto simp: turn_def turn_body_def intro!: trans_le_add1)
  next
    case Tail
    with t r show ?thesis by (auto simp: turn_def turn_tail_def)
  next
    case GName
    with t r show ?thesis by (auto simp: turn_def turn_gname_def)
  next
    case GKey
    with t r show ?thesis by (auto simp: turn_def turn_gkey_def)
  next
    case GAwaitVal
    with t r show ?thesis by (auto simp: turn_def turn_gawait_val_def)
  next
    case GVal
    with t r show ?thesis by (auto simp: turn_def turn_gval_def)
  next
    case GAfter
    with t r show ?thesis by (auto simp: turn_def turn_gafter_def)
  qed
qed

lemma acct_finish:
  assumes a: "acct s fed" and f: "finish S s = (s', bad)"
  shows "spent s' fed"
proof -
  obtain p where p: "spent s p" "p @ t_raw s @ t_buf s = fed" using a by (auto simp: acct_def acct0_def)
  consider "t_state s = Text" | "t_state s = Tail" | "t_state s \<noteq> Text" "t_state s \<noteq> Tail" by blast
  then show ?thesis
  proof cases
    case 1
    with a p f spent_content [of "s\<lparr>t_buf := []\<rparr>" p "t_buf s"] show ?thesis
      by (auto simp: finish_def acct_def phase_ok_def)
  next
    case 2
    let ?n = "t_tail_from s" let ?d = "drop ?n (t_raw s) @ t_buf s"
    have k: "t_named s" "is_prefix TOOL_OPEN (t_raw s)" "11 \<le> ?n" using a 2 by (auto simp: acct_def phase_ok_def in_call_def)
    then obtain x where "t_raw s = TOOL_OPEN @ x" by (auto simp: is_prefix_iff)
    with k(3) have pre: "is_prefix TOOL_OPEN (take ?n (t_raw s))" by (simp add: is_prefix_iff)
    let ?u = "s\<lparr>t_dropped := t_dropped s + (length (t_raw s) - ?n) + length (t_buf s), t_buf := []\<rparr>"
    have "spent (close_call s) (p @ take ?n (t_raw s))" by (rule spent_close [OF p(1) k(1) pre])
    then have "spent (close_call ?u) ((p @ take ?n (t_raw s)) @ ?d)"
      by (rule spent_more [where f = Dropped]) (auto simp: close_call_def Let_def)
    moreover have "(p @ take ?n (t_raw s)) @ ?d = fed" unfolding p(2) [symmetric] by (metis append.assoc append_take_drop_id)
    ultimately show ?thesis using f 2 by (simp add: finish_def)
  next
    case 3
    with f p(2) spent_abandon [of "s\<lparr>t_buf := [], t_raw := t_raw s @ t_buf s\<rparr>" p] p(1) show ?thesis
      by (auto simp: finish_def)
  qed
qed

interpretation bytes: wire_invariant S tools m "\<lambda>s ws. acct s (text_of ws)" for S tools m
proof unfold_locales
  show "acct (with_out (with_markup tools m) []) (text_of [])"
    by (simp add: acct_def acct0_def phase_ok_def with_out_def with_markup_def tool_stream.defs sink.defs in_call_def)
      (auto simp: spent_def of_fate_def intro: exI [of _ "[]"])
next
  fix s ws p assume "acct s (text_of ws)"
  then show "acct (s\<lparr>t_buf := t_buf s @ p\<rparr>) (text_of (ws @ [Piece p]))"
    by (auto simp: acct_def acct0_def phase_ok_def)
next
  fix s ws assume "acct s (text_of ws)"
  then show "acct (s\<lparr>t_armed := t_armed s + 1\<rparr>) (text_of (ws @ [Arm]))" by (simp add: acct_def)
qed (rule acct_turn)

text \<open>
  C19: Every byte of an answer leaves exactly once. However the model's text is cut into
  pieces and whenever token ids arm the parser, the text is a sequence of segments such that
  the content sent is the sent segments in order, \<open>dropped\<close> is the exact size of the dropped
  ones, and the rest are the calls the parser closed, one each, starting at their
  \<open><tool_call>\<close>.
\<close>

theorem tool_stream_accounts_for_every_byte:
  "\<exists>segs. concat (map snd segs) = text_of ws
    \<and> content_of (out (fst (answer_of S tools m ws))) = concat (of_fate Sent segs)
    \<and> t_dropped (fst (answer_of S tools m ws)) = length (concat (of_fate Dropped segs))
    \<and> t_closed (fst (answer_of S tools m ws)) = length (of_fate Parsed segs)
    \<and> list_all (is_prefix TOOL_OPEN) (of_fate Parsed segs)"
proof -
  obtain t es where w: "wire_run S tools m ws = (t, es)" by (cases "wire_run S tools m ws")
  obtain s bad where f: "finish S (with_out t es) = (s, bad)" by (cases "finish S (with_out t es)")
  have "answer_of S tools m ws = (s, bad)" by (simp add: answer_of_def w f)
  with acct_finish [OF bytes.wire_keeps [OF w] f] show ?thesis by (simp add: spent_def)
qed

section \<open>Only armed ids open calls\<close>

definition arms :: "wire list \<Rightarrow> nat" where
  "arms ws = length (filter (\<lambda>w. w = Arm) ws)"

definition arm_inv :: "sink \<Rightarrow> wire list \<Rightarrow> bool" where
  "arm_inv s ws \<longleftrightarrow> t_armed s + t_closed s + length (t_malformed s) + (if t_state s = Text then 0 else 1) = arms ws
     \<and> (t_named s = in_call (t_state s))"

lemma armed_same [simp]:
  "t_armed (emit_args x s) = t_armed s" "t_armed (drain n s) = t_armed s" "t_armed (eat n s) = t_armed s" "t_armed (content x s) = t_armed s"
  "t_armed (open_param S s) = t_armed s" "t_armed (value_text S x s) = t_armed s" "t_armed (put_value S x b s) = t_armed s"
  "t_armed (close_param S s) = t_armed s" "t_armed (open_glm_value S s) = t_armed s" "t_armed (glm_value S x s) = t_armed s"
  "t_armed (close_args s) = t_armed s" "t_armed (close_args_truncated S s) = t_armed s" "t_armed (name_call x s) = t_armed s"
  "t_armed (close_call s) = t_armed s"
  by (simp_all add: sink_defs Let_def)

lemma armed_abandon [simp]:
  "t_armed (abandon S k s) = t_armed s" "t_closed (abandon S k s) = t_closed s" "length (t_malformed (abandon S k s)) = Suc (length (t_malformed s))"
  by (simp_all add: abandon_def flush_raw_def send_def Let_def)

lemma armed_give_up [simp]:
  "t_armed (give_up S k s) = t_armed s" "t_closed (give_up S k s) = t_closed s" "length (t_malformed (give_up S k s)) = Suc (length (t_malformed s))"
  by (simp_all add: give_up_def Let_def)

lemma closed_close_call [simp]: "t_closed (close_call s) = t_closed s + (if t_named s then 1 else 0)" "t_malformed (close_call s) = t_malformed s"
  by (simp_all add: close_call_def Let_def)

lemma read_name_count:
  "read_name_to_gt s = (r, s1) \<Longrightarrow> t_armed s1 = t_armed s \<and> t_closed s1 = t_closed s \<and> t_malformed s1 = t_malformed s \<and> t_state s1 = t_state s
     \<and> t_named s1 = t_named s"
  by (auto simp: read_name_to_gt_def Let_def split: option.splits if_splits)

lemma skip_sep_count:
  "skip_sep s = Some s1 \<Longrightarrow> t_armed s1 = t_armed s \<and> t_closed s1 = t_closed s \<and> t_malformed s1 = t_malformed s \<and> t_state s1 = t_state s
     \<and> t_named s1 = t_named s"
  by (auto simp: skip_sep_def split: if_splits)

lemma arm_turn: "arm_inv s ws \<Longrightarrow> turn S s = (s', go) \<Longrightarrow> arm_inv s' ws"
proof -
  assume a: "arm_inv s ws" and t: "turn S s = (s', go)"
  note [split] = option.splits prod.splits if_splits name_read.splits
  note [simp] = Let_def arm_inv_def in_call_def turn_def
  show ?thesis
  proof (cases "t_state s")
    case Text
    with t a show ?thesis by (auto simp: turn_text_def split: markup.splits)
  next
    case Func
    with t a show ?thesis by (auto simp: turn_func_def)
  next
    case FuncName
    with t a show ?thesis by (auto simp: turn_func_name_def dest!: read_name_count)
  next
    case Body
    with t a show ?thesis by (auto simp: turn_body_def)
  next
    case ParamName
    with t a show ?thesis by (auto simp: turn_param_name_def dest!: read_name_count)
  next
    case ParamValue
    with t a show ?thesis by (auto simp: turn_param_value_def scan_value_def dest!: skip_sep_count)
  next
    case Tail
    with t a show ?thesis by (auto simp: turn_tail_def)
  next
    case GName
    with t a show ?thesis by (auto simp: turn_gname_def)
  next
    case GKey
    with t a show ?thesis by (auto simp: turn_gkey_def)
  next
    case GAwaitVal
    with t a show ?thesis by (auto simp: turn_gawait_val_def)
  next
    case GVal
    with t a show ?thesis by (auto simp: turn_gval_def)
  next
    case GAfter
    with t a show ?thesis by (auto simp: turn_gafter_def)
  qed
qed

interpretation arming: wire_invariant S tools m arm_inv for S tools m
  by unfold_locales (((rule arm_turn, assumption+) |
    (auto simp: arm_inv_def arms_def with_out_def with_markup_def tool_stream.defs in_call_def)[1])+)

text \<open>
  Each armed token id opens at most one call, and nothing else does. When the generation
  has ended, the ids seen are exactly the calls that were closed, the calls recorded as
  malformed, and the ids whose text never came.
\<close>

theorem calls_match_armed_ids:
  "t_closed (fst (answer_of S tools m ws)) + length (t_malformed (fst (answer_of S tools m ws)))
     + t_armed (fst (answer_of S tools m ws)) = arms ws"
proof -
  obtain t es where w: "wire_run S tools m ws = (t, es)" by (cases "wire_run S tools m ws")
  have "arm_inv (with_out t es) ws" by (rule arming.wire_keeps [OF w])
  then show ?thesis by (auto simp: answer_of_def w finish_def arm_inv_def in_call_def)
qed

text \<open>A text without armed ids passes through.\<close>

definition plain_inv :: "sink \<Rightarrow> wire list \<Rightarrow> bool" where
  "plain_inv s ws \<longleftrightarrow> (Arm \<notin> set ws \<longrightarrow> t_state s = Text \<and> t_armed s = 0 \<and> t_index s = 0 \<and> \<not> t_named s \<and> t_dropped s = 0
     \<and> t_malformed s = [] \<and> (\<exists>xs. out s = map Content xs \<and> concat xs @ t_buf s = text_of ws))"

lemma plain_content:
  "t_index s = 0 \<Longrightarrow> \<not> t_named s \<Longrightarrow> out s = map Content xs \<Longrightarrow> concat xs @ t_buf s = txt \<Longrightarrow>
   \<exists>ys. out (drain n (content (take n (t_buf s)) s)) = map Content ys \<and> concat ys @ drop n (t_buf s) = txt"
  by (cases "take n (t_buf s) = []")
    (auto simp: content_def drain_def send_def intro: exI [of _ xs] exI [of _ "xs @ [take n (t_buf s)]"])

lemma content_plain [simp]: "t_index s = 0 \<Longrightarrow> \<not> t_named s \<Longrightarrow> t_dropped (content x s) = t_dropped s"
  by (simp add: content_def send_def)

lemma plain_turn: "plain_inv s ws \<Longrightarrow> turn S s = (s', go) \<Longrightarrow> plain_inv s' ws"
proof -
  assume a: "plain_inv s ws" and t: "turn S s = (s', go)"
  show ?thesis unfolding plain_inv_def
  proof (rule impI)
    assume "Arm \<notin> set ws"
    with a obtain xs where k: "t_state s = Text" "t_armed s = 0" "t_index s = 0" "\<not> t_named s" "t_dropped s = 0" "t_malformed s = []"
      "out s = map Content xs" "concat xs @ t_buf s = text_of ws" by (auto simp: plain_inv_def)
    have "s' = s \<or> (\<exists>n. s' = drain n (content (take n (t_buf s)) s))"
      using t k(1,2) by (auto simp: turn_def turn_text_def Let_def split: option.splits prod.splits if_splits)
    then show "t_state s' = Text \<and> t_armed s' = 0 \<and> t_index s' = 0 \<and> \<not> t_named s' \<and> t_dropped s' = 0 \<and> t_malformed s' = []
      \<and> (\<exists>xs. out s' = map Content xs \<and> concat xs @ t_buf s' = text_of ws)"
      using k plain_content [OF k(3,4,7,8)] by auto
  qed
qed

interpretation plain: wire_invariant S tools m plain_inv for S tools m
  by unfold_locales (((rule plain_turn, assumption+) |
    (auto simp: plain_inv_def with_out_def with_markup_def tool_stream.defs sink.defs)[1])+)

text \<open>
  C37: Markup the model only writes about stays content. When no token id arms the parser,
  the answer is the text, unchanged and in order, whatever tool-call markup it spells out;
  nothing is dropped and no call is reported.
\<close>

theorem literal_markup_stays_content:
  assumes "Arm \<notin> set ws"
  shows "\<exists>xs. out (fst (answer_of S tools m ws)) = map Content xs \<and> concat xs = text_of ws
    \<and> t_dropped (fst (answer_of S tools m ws)) = 0 \<and> t_malformed (fst (answer_of S tools m ws)) = []
    \<and> snd (answer_of S tools m ws) = False"
proof -
  obtain t es where w: "wire_run S tools m ws = (t, es)" by (cases "wire_run S tools m ws")
  let ?s = "with_out t es"
  obtain xs where k: "t_state ?s = Text" "t_index ?s = 0" "\<not> t_named ?s" "t_dropped ?s = 0" "t_malformed ?s = []"
    "out ?s = map Content xs" "concat xs @ t_buf ?s = text_of ws"
    using plain.wire_keeps [OF w] assms by (auto simp: plain_inv_def)
  have "answer_of S tools m ws = (content (t_buf ?s) (?s\<lparr>t_buf := []\<rparr>), False)" using k(1) by (simp add: answer_of_def w finish_def)
  with k show ?thesis
    by (cases "t_buf ?s = []") (auto simp: content_def send_def intro: exI [of _ xs] exI [of _ "xs @ [t_buf ?s]"])
qed

lemma literal_markup_stays_content_witness:
  "\<exists>xs. out (fst (answer_of small_serde None Qwen [Piece ''<tool_'', Piece ''call><function=f>''])) = map Content xs
    \<and> concat xs = ''<tool_call><function=f>''"
  using literal_markup_stays_content [of "[Piece ''<tool_'', Piece ''call><function=f>'']" small_serde None Qwen] by auto

end
