(* ===== verification/ToolCallArgs.thy ===== *)
theory ToolCallArgs
  imports ToolCallInv
begin

text \<open>
  The arguments of a tool call. \<open>serve\<close> streams them in fragments and the client stores their
  concatenation: for every index the parser names this is one JSON object, whether the call
  was closed, given up or cut off by the end of the generation.
\<close>

section \<open>What was sent for an index\<close>

fun args_of :: "nat \<Rightarrow> emit list \<Rightarrow> str" where
  "args_of i [] = []"
| "args_of i (Args j x # es) = (if j = i then x else []) @ args_of i es"
| "args_of i (_ # es) = args_of i es"

fun calls_of :: "emit list \<Rightarrow> (nat \<times> str) list" where
  "calls_of [] = []"
| "calls_of (Call i d n # es) = (i, d) # calls_of es"
| "calls_of (_ # es) = calls_of es"

fun content_first :: "emit list \<Rightarrow> bool" where
  "content_first [] = True"
| "content_first (Call i d n # es) = (\<forall>x. Content x \<notin> set es)"
| "content_first (_ # es) = content_first es"

lemma args_of_append [simp]: "args_of i (es @ fs) = args_of i es @ args_of i fs"
  by (induction i es rule: args_of.induct) auto

lemma calls_of_append [simp]: "calls_of (es @ fs) = calls_of es @ calls_of fs"
  by (induction es rule: calls_of.induct) auto

lemma content_first_snoc: "content_first (es @ [e]) \<longleftrightarrow> content_first es \<and> (calls_of es \<noteq> [] \<longrightarrow> (\<forall>x. e \<noteq> Content x))"
  by (induction es rule: content_first.induct) (auto split: emit.splits simp: neq_Nil_conv; cases e; auto)+

section \<open>Prefixes of an object\<close>

definition obj_prefix :: "bool \<Rightarrow> str \<Rightarrow> bool" where
  "obj_prefix open_brace t = (if open_brace then \<exists>ms. json_members ms \<and> t = ''{'' @ ms else t = [])"

definition val_prefix :: "bool \<Rightarrow> str \<Rightarrow> bool" where
  "val_prefix vstring t \<longleftrightarrow> (\<exists>p k x. (p = ''{'' \<or> (\<exists>ms. json_members ms \<and> p = ''{'' @ ms @ '',''))
     \<and> json_string k \<and> json_chars x \<and> t = p @ k @ '':'' @ (if vstring then dq # x else []))"

definition marked :: "serde_json \<Rightarrow> str \<Rightarrow> bool" where
  "marked S t \<longleftrightarrow> (\<exists>p. t = p @ json_str S TRUNCATED_KEY @ '':true}'')"

lemma obj_to_val:
  assumes "serde_laws S" and "obj_prefix ob t"
  shows "val_prefix vs (t @ (if ob then '','' else ''{'') @ json_str S k @ '':'' @ (if vs then [dq] else []))"
proof (cases ob)
  case True
  with assms(2) obtain ms where "json_members ms" "t = ''{'' @ ms" by (auto simp: obj_prefix_def)
  with True json_str_string [OF assms(1)] show ?thesis unfolding val_prefix_def
    by (intro exI [of _ "''{'' @ ms @ '',''"] exI [of _ "json_str S k"] exI [of _ "[]"]) simp
next
  case False
  with assms(2) have "t = []" by (simp add: obj_prefix_def)
  with False json_str_string [OF assms(1)] show ?thesis unfolding val_prefix_def
    by (intro exI [of _ "''{''"] exI [of _ "json_str S k"] exI [of _ "[]"]) simp
qed

lemma val_more:
  assumes "serde_laws S" and "val_prefix True t"
  shows "val_prefix True (t @ json_escape S x)"
proof -
  obtain p k y where p: "p = ''{'' \<or> (\<exists>ms. json_members ms \<and> p = ''{'' @ ms @ '','')" "json_string k" "json_chars y"
    "t = p @ k @ '':'' @ dq # y" using assms(2) by (auto simp: val_prefix_def)
  have "json_chars (y @ json_escape S x)" using p(3) json_str_shape [OF assms(1)] by (simp add: json_chars_append)
  with p(1,2,4) show ?thesis unfolding val_prefix_def
    by (intro exI [of _ p] exI [of _ k] exI [of _ "y @ json_escape S x"]) simp
qed

lemma val_to_obj:
  assumes "val_prefix vs t" and "if vs then v = [dq] else json_text v"
  shows "obj_prefix True (t @ v)"
proof -
  obtain p k x where p: "p = ''{'' \<or> (\<exists>ms. json_members ms \<and> p = ''{'' @ ms @ '','')" "json_string k" "json_chars x"
    "t = p @ k @ '':'' @ (if vs then dq # x else [])" using assms(1) by (auto simp: val_prefix_def)
  have "json_text ((if vs then dq # x else []) @ v)"
  proof (cases vs)
    case True
    with assms(2) p(3) show ?thesis by (auto simp: json_string_def intro!: json_text_value string)
  qed (use assms(2) in simp)
  note m = json_member [OF p(2) this]
  from p(1) show ?thesis
  proof (elim disjE exE conjE)
    assume "p = ''{''"
    with m show ?thesis by (simp add: obj_prefix_def p(4))
  next
    fix ms assume "json_members ms" "p = ''{'' @ ms @ '',''"
    with members [OF _ m] show ?thesis by (simp add: obj_prefix_def p(4))
  qed
qed

lemma obj_closed: "obj_prefix ob t \<Longrightarrow> json_object (t @ (if ob then ''}'' else ''{}''))"
  unfolding obj_prefix_def json_object_def by (cases ob) (auto intro: exI [of _ "[]"])

lemma obj_marked:
  assumes "serde_laws S" and "obj_prefix ob t"
  shows "json_object (t @ (if ob then '','' else ''{'') @ json_str S TRUNCATED_KEY @ '':true}'')"
proof -
  have m: "json_members (json_str S TRUNCATED_KEY @ '':'' @ ''true'')"
    by (rule json_member [OF json_str_string [OF assms(1)] json_text_value [OF literal]]) simp
  show ?thesis
  proof (cases ob)
    case True
    with assms(2) obtain ms where ms: "json_members ms" "t = ''{'' @ ms" by (auto simp: obj_prefix_def)
    from members [OF ms(1) m] True ms(2) show ?thesis by (auto simp: json_object_def)
  next
    case False
    with assms(2) m show ?thesis by (auto simp: json_object_def obj_prefix_def)
  qed
qed

lemma raw_json_text: "serde_laws S \<Longrightarrow> json_text (raw_json S ty v)"
  unfolding raw_json_def recover_def Let_def
  by (auto intro: json_str_text from_str_text split: option.splits)

section \<open>The invariant\<close>

datatype arg_phase = P_out | P_obj | P_val | P_done

fun phase_of :: "tstate \<Rightarrow> arg_phase" where
  "phase_of Text = P_out" | "phase_of Func = P_out" | "phase_of FuncName = P_out" | "phase_of GName = P_out"
| "phase_of Body = P_obj" | "phase_of ParamName = P_obj" | "phase_of GKey = P_obj" | "phase_of GAwaitVal = P_obj" | "phase_of GAfter = P_obj"
| "phase_of ParamValue = P_val" | "phase_of GVal = P_val" | "phase_of Tail = P_done"

definition total :: "sink \<Rightarrow> nat" where
  "total s = t_index s + (if t_named s then 1 else 0)"

definition record_ok :: "serde_json \<Rightarrow> nat \<Rightarrow> emit list \<Rightarrow> malformed \<Rightarrow> bool" where
  "record_ok S n es r = (case m_index r of
     None \<Rightarrow> m_kind r \<in> {CloseBeforeFunction, BadName, EndInCall}
   | Some i \<Rightarrow> i < n \<and> marked S (args_of i es) \<and> \<not> m_raw_as_content r \<and> m_kind r \<in> {BadParamName, EndInCall})"

text \<open>Every index is a closed call or has its record.\<close>

definition counted :: "nat \<Rightarrow> nat \<Rightarrow> malformed list \<Rightarrow> bool" where
  "counted n c ms \<longleftrightarrow> n = c + length (filter (\<lambda>r. m_index r \<noteq> None) ms)"

definition history_ok :: "serde_json \<Rightarrow> sink \<Rightarrow> bool" where
  "history_ok S s \<longleftrightarrow> calls_of (out s) = map (\<lambda>i. (i, call_id i)) [0..<total s]
     \<and> (\<forall>i < t_index s. json_object (args_of i (out s))) \<and> (\<forall>i \<ge> total s. args_of i (out s) = [])
     \<and> counted (t_index s) (t_closed s) (t_malformed s)
     \<and> (\<forall>r \<in> set (t_malformed s). record_ok S (t_index s) (out s) r) \<and> content_first (out s)"

definition args_ok :: "serde_json \<Rightarrow> arg_phase \<Rightarrow> sink \<Rightarrow> bool" where
  "args_ok S ph s \<longleftrightarrow> history_ok S s \<and> (case ph of
     P_out \<Rightarrow> \<not> t_named s \<and> \<not> t_open_brace s
   | P_obj \<Rightarrow> t_named s \<and> obj_prefix (t_open_brace s) (args_of (t_index s) (out s))
   | P_val \<Rightarrow> t_named s \<and> t_open_brace s \<and> val_prefix (t_vstring s) (args_of (t_index s) (out s))
   | P_done \<Rightarrow> t_named s \<and> \<not> t_open_brace s \<and> json_object (args_of (t_index s) (out s)))"

lemma args_ok_cong:
  "out s' = out s \<Longrightarrow> t_index s' = t_index s \<Longrightarrow> t_named s' = t_named s \<Longrightarrow> t_closed s' = t_closed s \<Longrightarrow> t_malformed s' = t_malformed s
   \<Longrightarrow> t_open_brace s' = t_open_brace s \<Longrightarrow> t_vstring s' = t_vstring s \<Longrightarrow> args_ok S ph s' = args_ok S ph s"
  by (cases ph) (simp_all add: args_ok_def history_ok_def total_def)

lemma args_ok_update [simp]:
  "args_ok S ph (s\<lparr>t_state := a\<rparr>) = args_ok S ph s" "args_ok S ph (s\<lparr>t_buf := b\<rparr>) = args_ok S ph s"
  "args_ok S ph (s\<lparr>t_armed := c\<rparr>) = args_ok S ph s" "args_ok S ph (s\<lparr>t_name := b\<rparr>) = args_ok S ph s"
  "args_ok S ph (s\<lparr>t_pname := b\<rparr>) = args_ok S ph s" "args_ok S ph (s\<lparr>t_raw := b\<rparr>) = args_ok S ph s"
  "args_ok S ph (s\<lparr>t_tail_from := c\<rparr>) = args_ok S ph s" "args_ok S ph (s\<lparr>t_skip_nl := d\<rparr>) = args_ok S ph s"
  "args_ok S ph (s\<lparr>t_held_nl := d\<rparr>) = args_ok S ph s" "args_ok S ph (s\<lparr>t_vbuf := b\<rparr>) = args_ok S ph s"
  "args_ok S ph (s\<lparr>t_vtype := ty\<rparr>) = args_ok S ph s" "args_ok S ph (s\<lparr>t_dropped := c\<rparr>) = args_ok S ph s"
  by (rule args_ok_cong; simp)+

lemma args_ok_buf [simp]: "args_ok S ph (drain n s) = args_ok S ph s" "args_ok S ph (eat n s) = args_ok S ph s"
  by (simp_all add: eat_def drain_def)

lemma args_ok_out_reset: "args_ok S P_out s \<Longrightarrow> args_ok S P_out (s\<lparr>t_named := False, t_name := b, t_open_brace := False\<rparr>)"
  by (simp add: args_ok_def history_ok_def total_def)

text \<open>An arguments fragment for the call in flight.\<close>

lemma history_emit: "history_ok S s \<Longrightarrow> t_named s \<Longrightarrow> history_ok S (emit_args x s)"
  by (auto simp: history_ok_def total_def emit_args_def send_def content_first_snoc record_ok_def split: option.splits)

lemma args_emit [simp]: "args_of (t_index s) (out (emit_args x s)) = args_of (t_index s) (out s) @ x"
  by (simp add: emit_args_def send_def)

lemma flags_emit [simp]:
  "t_open_brace (emit_args x s) = t_open_brace s" "t_vstring (emit_args x s) = t_vstring s" "t_vtype (emit_args x s) = t_vtype s"
  by (simp_all add: emit_args_def send_def)

lemma history_flags [simp]:
  "history_ok S (s\<lparr>t_open_brace := d\<rparr>) = history_ok S s" "history_ok S (s\<lparr>t_vstring := d\<rparr>) = history_ok S s"
  "history_ok S (s\<lparr>t_vtype := ty\<rparr>) = history_ok S s" "history_ok S (s\<lparr>t_vbuf := b\<rparr>) = history_ok S s"
  "history_ok S (s\<lparr>t_skip_nl := d\<rparr>) = history_ok S s" "history_ok S (s\<lparr>t_held_nl := d\<rparr>) = history_ok S s"
  by (simp_all add: history_ok_def total_def)

lemma args_open_param: "serde_laws S \<Longrightarrow> args_ok S P_obj s \<Longrightarrow> args_ok S P_val (open_param S s)"
proof -
  assume l: "serde_laws S" and a: "args_ok S P_obj s"
  let ?vs = "Option.bind (t_types s (t_name s)) (\<lambda>m. m (t_pname s)) = Some ''string''"
  let ?u = "s\<lparr>t_vstring := ?vs, t_vtype := Option.bind (t_types s (t_name s)) (\<lambda>m. m (t_pname s)), t_vbuf := [], t_skip_nl := True,
    t_held_nl := False, t_open_brace := True\<rparr>"
  have "history_ok S (emit_args x ?u)" for x using a by (intro history_emit) (simp_all add: args_ok_def)
  moreover have "args_of (t_index s) (out (emit_args x ?u)) = args_of (t_index s) (out s) @ x" for x
    using args_emit [of ?u x] by simp
  ultimately show ?thesis using a obj_to_val [OF l, of "t_open_brace s" "args_of (t_index s) (out s)" ?vs "t_pname s"]
    by (simp add: args_ok_def open_param_def Let_def)
qed

lemma args_value_text: "serde_laws S \<Longrightarrow> args_ok S P_val s \<Longrightarrow> args_ok S P_val (value_text S x s)"
  by (auto simp: args_ok_def value_text_def history_emit val_more)

lemma args_put_value: "serde_laws S \<Longrightarrow> args_ok S P_val s \<Longrightarrow> args_ok S P_val (put_value S x b s)"
  by (simp add: put_value_def Let_def args_value_text)

lemma args_close_param: "serde_laws S \<Longrightarrow> args_ok S P_val s \<Longrightarrow> args_ok S P_obj (close_param S s)"
proof -
  assume l: "serde_laws S" and a: "args_ok S P_val s"
  show ?thesis
  proof (cases "t_vstring s")
    case True
    with a val_to_obj [of True _ "[dq]"] show ?thesis by (simp add: close_param_def args_ok_def history_emit)
  next
    case False
    let ?u = "s\<lparr>t_vbuf := []\<rparr>" let ?x = "raw_json S (t_vtype s) (t_vbuf s)"
    have "history_ok S (emit_args ?x ?u)" using a by (intro history_emit) (simp_all add: args_ok_def)
    moreover have "args_of (t_index s) (out (emit_args ?x ?u)) = args_of (t_index s) (out s) @ ?x" using args_emit [of ?u ?x] by simp
    ultimately show ?thesis using False a val_to_obj [of False "args_of (t_index s) (out s)" ?x] raw_json_text [OF l]
      by (simp add: close_param_def args_ok_def)
  qed
qed

lemma args_close_args: "args_ok S P_obj s \<Longrightarrow> args_ok S P_done (close_args s)"
  using obj_closed [of "t_open_brace s" "args_of (t_index s) (out s)"] by (simp add: close_args_def args_ok_def history_emit)

text \<open>A call leaves: its index counts as used.\<close>

definition settle :: "sink \<Rightarrow> sink" where
  "settle s = s\<lparr>t_index := total s, t_named := False, t_open_brace := False\<rparr>"

lemma record_mono: "record_ok S n es r \<Longrightarrow> n \<le> n' \<Longrightarrow> record_ok S n' es r"
  by (auto simp: record_ok_def split: option.splits)

lemma history_settle:
  assumes "history_ok S s" and "t_named s" and "json_object (args_of (t_index s) (out s))"
  shows "history_ok S ((settle s)\<lparr>t_closed := t_closed s + 1\<rparr>)"
  using assms by (auto simp: history_ok_def settle_def total_def counted_def less_Suc_eq intro: record_mono)

lemma args_close_call: "args_ok S P_done s \<Longrightarrow> args_ok S P_out (close_call s)"
proof -
  assume a: "args_ok S P_done s"
  then have "history_ok S ((settle s)\<lparr>t_closed := t_closed s + 1\<rparr>)" by (intro history_settle) (simp_all add: args_ok_def)
  with a show ?thesis by (simp add: args_ok_def close_call_def settle_def total_def history_ok_def)
qed

lemma args_name_call: "args_ok S P_out s \<Longrightarrow> args_ok S P_obj (name_call x s)"
  by (auto simp: args_ok_def history_ok_def total_def name_call_def send_def content_first_snoc obj_prefix_def record_ok_def
      split: option.splits)

lemma history_content: "history_ok S s \<Longrightarrow> t_index s = 0 \<Longrightarrow> \<not> t_named s \<Longrightarrow> history_ok S (send (Content x) s)"
  by (auto simp: history_ok_def total_def send_def content_first_snoc record_ok_def split: option.splits)

lemma args_content: "args_ok S P_out s \<Longrightarrow> args_ok S P_out (content x s)"
  by (auto simp: content_def args_ok_def history_content) (simp_all add: history_ok_def total_def send_def)

lemma args_truncated:
  assumes l: "serde_laws S" and a: "args_ok S (phase_of (t_state s)) s" and n: "t_named s" and t: "t_state s \<noteq> Tail"
  defines "s1 \<equiv> close_args_truncated S s"
  shows "history_ok S s1 \<and> json_object (args_of (t_index s) (out s1)) \<and> marked S (args_of (t_index s) (out s1))"
proof -
  let ?frag = "\<lambda>ob. if ob then '','' @ json_str S TRUNCATED_KEY @ '':true}'' else ''{'' @ json_str S TRUNCATED_KEY @ '':true}''"
  define u where "u = (if t_state s = ParamValue \<or> t_state s = GVal then close_param S s else s)"
  have u: "args_ok S P_obj u"
    using a n t args_close_param [OF l, of s] by (cases "t_state s") (auto simp: u_def args_ok_def)
  have i: "t_index u = t_index s" "t_named u" using n by (simp_all add: u_def)
  have s1: "s1 = (emit_args (?frag (t_open_brace u)) u)\<lparr>t_open_brace := False\<rparr>"
    using n by (simp add: s1_def close_args_truncated_def u_def Let_def)
  have o: "args_of (t_index s) (out s1) = args_of (t_index u) (out u) @ ?frag (t_open_brace u)"
    using args_emit [of u "?frag (t_open_brace u)"] by (simp add: s1 i(1))
  have "marked S (args_of (t_index s) (out s1))"
    unfolding marked_def o by (intro exI [of _ "args_of (t_index u) (out u) @ (if t_open_brace u then '','' else ''{'')"]) simp
  moreover have "json_object (args_of (t_index s) (out s1))"
    using obj_marked [OF l, of "t_open_brace u" "args_of (t_index u) (out u)"] u unfolding o by (cases "t_open_brace u") (simp_all add: args_ok_def)
  moreover have "history_ok S s1" using u i(2) by (simp add: s1 args_ok_def history_emit)
  ultimately show ?thesis by blast
qed

definition kind_fits :: "malformed_kind \<Rightarrow> bool \<Rightarrow> bool" where
  "kind_fits k named \<longleftrightarrow> k \<in> (if named then {BadParamName, EndInCall} else {CloseBeforeFunction, BadName, EndInCall})"

lemma history_record:
  assumes h: "history_ok S s" and n: "t_named s \<Longrightarrow> json_object (args_of (t_index s) (out s)) \<and> marked S (args_of (t_index s) (out s))"
    and k: "kind_fits k (t_named s)" and c: "t_named s \<Longrightarrow> \<not> c"
  shows "history_ok S (settle (s\<lparr>t_malformed := t_malformed s
    @ [\<lparr>m_kind = k, m_index = if t_named s then Some (t_index s) else None, m_raw_as_content = c\<rparr>]\<rparr>))"
  using assms by (auto simp: history_ok_def settle_def total_def counted_def less_Suc_eq record_ok_def kind_fits_def intro: record_mono
      split: if_splits option.splits)

lemma history_raw [simp]: "history_ok S (s\<lparr>t_raw := b\<rparr>) = history_ok S s" "history_ok S (s\<lparr>t_dropped := c\<rparr>) = history_ok S s"
  by (simp_all add: history_ok_def total_def)

lemma history_abandon:
  assumes l: "serde_laws S" and a: "args_ok S (phase_of (t_state s)) s" and t: "t_state s \<noteq> Tail" and k: "kind_fits k (t_named s)"
  shows "history_ok S (settle (abandon S k s))"
proof (cases "t_named s")
  case True
  note tr = args_truncated [OF l a True t]
  let ?s1 = "close_args_truncated S s"
  have ab: "abandon S k s = ?s1\<lparr>t_raw := [], t_dropped := t_dropped ?s1 + length (t_raw ?s1),
      t_malformed := t_malformed ?s1 @ [\<lparr>m_kind = k, m_index = Some (t_index s), m_raw_as_content = False\<rparr>]\<rparr>"
    using True by (simp add: abandon_def flush_raw_def Let_def)
  show ?thesis
    using history_record [of S "?s1\<lparr>t_raw := [], t_dropped := t_dropped ?s1 + length (t_raw ?s1)\<rparr>" k False] tr True k by (simp add: ab)
next
  case False
  then have s1: "close_args_truncated S s = s" by (simp add: close_args_truncated_def)
  have h: "history_ok S s" using a by (simp add: args_ok_def)
  show ?thesis
  proof (cases "0 < t_index s \<or> t_raw s = []")
    case True
    let ?u = "if 0 < t_index s then s\<lparr>t_raw := [], t_dropped := t_dropped s + length (t_raw s)\<rparr> else s\<lparr>t_raw := []\<rparr>"
    have "abandon S k s = ?u\<lparr>t_malformed := t_malformed ?u @ [\<lparr>m_kind = k, m_index = None, m_raw_as_content = False\<rparr>]\<rparr>"
      using False True by (auto simp: abandon_def flush_raw_def s1 Let_def)
    with history_record [of S ?u k False] h False k show ?thesis by (simp split: if_splits)
  next
    case False2: False
    let ?u = "send (Content (t_raw s)) (s\<lparr>t_raw := []\<rparr>)"
    have "abandon S k s = ?u\<lparr>t_malformed := t_malformed ?u @ [\<lparr>m_kind = k, m_index = None, m_raw_as_content = True\<rparr>]\<rparr>"
      using False False2 by (simp add: abandon_def flush_raw_def s1 Let_def)
    moreover have "history_ok S ?u" using False False2 h by (intro history_content) simp_all
    ultimately show ?thesis using history_record [of S ?u k True] False k by simp
  qed
qed

lemma args_give_up:
  assumes "serde_laws S" and "args_ok S (phase_of (t_state s)) s" and "t_state s \<noteq> Tail" and "kind_fits k (t_named s)"
  shows "args_ok S P_out (give_up S k s)"
  using history_abandon [OF assms] by (simp add: args_ok_def give_up_def settle_def total_def Let_def history_ok_def split: if_splits)

section \<open>Every turn keeps it\<close>

definition args_inv :: "serde_json \<Rightarrow> sink \<Rightarrow> str \<Rightarrow> bool" where
  "args_inv S s fed \<longleftrightarrow> (serde_laws S \<longrightarrow> args_ok S (phase_of (t_state s)) s)"

lemma args_named: "args_ok S ph s \<Longrightarrow> t_named s \<longleftrightarrow> ph \<noteq> P_out"
  by (cases ph) (auto simp: args_ok_def)

lemma read_name_args:
  "read_name_to_gt s = (r, s1) \<Longrightarrow> args_ok S ph s1 = args_ok S ph s \<and> t_state s1 = t_state s \<and> t_named s1 = t_named s"
  by (auto simp: read_name_to_gt_def Let_def split: option.splits if_splits)

lemma skip_sep_args:
  "skip_sep s = Some s1 \<Longrightarrow> args_ok S ph s1 = args_ok S ph s \<and> t_state s1 = t_state s \<and> t_named s1 = t_named s"
  by (auto simp: skip_sep_def split: if_splits)

lemma args_turn_text: "t_state s = Text \<Longrightarrow> args_ok S P_out s \<Longrightarrow> turn_text s = (s', go) \<Longrightarrow> args_ok S (phase_of (t_state s')) s'"
proof -
  assume st: "t_state s = Text" and a: "args_ok S P_out s" and t: "turn_text s = (s', go)"
  note [split] = option.splits prod.splits if_splits
  show ?thesis
  proof (cases "0 < t_armed s \<and> fst (find_marker (t_buf s) [TOOL_OPEN]) \<noteq> None")
    case True
    then obtain n x where "args_ok S P_out s' = args_ok S P_out (content x s\<lparr>t_named := False, t_name := [], t_open_brace := False\<rparr>)"
      "phase_of (t_state s') = P_out" using t
      by (fastforce simp: turn_text_def Let_def drain_def args_ok_def history_ok_def total_def split: markup.splits)
    with args_ok_out_reset [OF args_content [OF a]] show ?thesis by simp
  next
    case False
    with t a st show ?thesis by (auto simp: turn_text_def Let_def args_content)
  qed
qed

lemma args_turn:
  assumes l: "serde_laws S" and a: "args_ok S (phase_of (t_state s)) s" and t: "turn S s = (s', go)"
  shows "args_ok S (phase_of (t_state s')) s'"
proof -
  note n = args_named [OF a]
  note [split] = option.splits prod.splits if_splits name_read.splits
  note [simp] = Let_def kind_fits_def glm_value_def open_glm_value_def
  have gu: "args_ok S P_out (give_up S k u)" if "args_ok S (phase_of (t_state u)) u" "phase_of (t_state u) \<noteq> P_done" "kind_fits k (t_named u)" for k u
    using args_give_up [OF l that(1) _ that(3)] that(2) by (cases "t_state u") auto
  note [simp] = gu args_close_call args_close_args args_close_param [OF l] args_put_value [OF l] args_open_param [OF l]
    args_name_call args_value_text [OF l]
  show ?thesis
  proof (cases "t_state s")
    case Text
    with t a show ?thesis by (auto simp: turn_def dest: args_turn_text [OF Text])
  next
    case Func
    with t a n show ?thesis by (auto simp: turn_def turn_func_def)
  next
    case FuncName
    with t a n show ?thesis by (auto simp: turn_def turn_func_name_def dest!: read_name_args)
  next
    case Body
    with t a n show ?thesis by (auto simp: turn_def turn_body_def)
  next
    case ParamName
    with t a n show ?thesis by (auto simp: turn_def turn_param_name_def dest!: read_name_args)
  next
    case ParamValue
    with t a n show ?thesis by (auto simp: turn_def turn_param_value_def scan_value_def dest!: skip_sep_args)
  next
    case Tail
    with t a n show ?thesis by (auto simp: turn_def turn_tail_def)
  next
    case GName
    with t a n show ?thesis by (auto simp: turn_def turn_gname_def)
  next
    case GKey
    with t a n show ?thesis by (auto simp: turn_def turn_gkey_def)
  next
    case GAwaitVal
    with t a n show ?thesis by (auto simp: turn_def turn_gawait_val_def)
  next
    case GVal
    with t a n show ?thesis by (auto simp: turn_def turn_gval_def)
  next
    case GAfter
    with t a n show ?thesis by (auto simp: turn_def turn_gafter_def)
  qed
qed

interpretation objects: wire_invariant S tools m "\<lambda>s ws. args_inv S s (text_of ws)" for S tools m
proof unfold_locales
  show "args_inv S (with_out (with_markup tools m) []) (text_of [])" for S tools m
    by (simp add: args_inv_def args_ok_def history_ok_def total_def counted_def with_out_def with_markup_def tool_stream.defs sink.defs)
next
  fix S tools m s ws s' go assume "args_inv S s (text_of ws)" "turn S s = (s', go)"
  then show "args_inv S s' (text_of ws)" by (auto simp: args_inv_def intro: args_turn)
qed (simp_all add: args_inv_def)

lemma answer_history:
  assumes l: "serde_laws S" and f: "answer_of S tools m ws = (s, bad)"
  shows "\<exists>s'. history_ok S s' \<and> \<not> t_named s' \<and> out s' = out s \<and> t_closed s' = t_closed s \<and> t_malformed s' = t_malformed s
    \<and> (bad \<longrightarrow> t_malformed s \<noteq> [] \<and> m_kind (last (t_malformed s)) = EndInCall)"
proof -
  obtain t es where w: "wire_run S tools m ws = (t, es)" by (cases "wire_run S tools m ws")
  let ?s = "with_out t es"
  have a: "args_ok S (phase_of (t_state ?s)) ?s" using objects.wire_keeps [OF w] l by (simp add: args_inv_def)
  have fi: "finish S ?s = (s, bad)" using f w by (simp add: answer_of_def)
  consider "t_state ?s = Text" | "t_state ?s = Tail" | "t_state ?s \<noteq> Text" "t_state ?s \<noteq> Tail" by blast
  then show ?thesis
  proof cases
    case 1
    then have "args_ok S P_out (content (t_buf ?s) (?s\<lparr>t_buf := []\<rparr>))" using a by (intro args_content) simp
    with 1 fi show ?thesis by (intro exI [of _ s]) (auto simp: finish_def args_ok_def)
  next
    case 2
    then have "args_ok S P_out s" using a fi by (auto simp: finish_def intro!: args_close_call)
    with 2 fi show ?thesis by (intro exI [of _ s]) (auto simp: finish_def args_ok_def)
  next
    case 3
    let ?u = "?s\<lparr>t_buf := [], t_raw := t_raw ?s @ t_buf ?s\<rparr>"
    have s: "s = (abandon S EndInCall ?u)\<lparr>t_state := Text\<rparr>" "bad" using 3 fi by (auto simp: finish_def)
    have "history_ok S (settle (abandon S EndInCall ?u))"
      by (rule history_abandon [OF l]) (use a 3 in \<open>auto simp: kind_fits_def\<close>)
    moreover have "t_malformed s \<noteq> [] \<and> m_kind (last (t_malformed s)) = EndInCall"
      by (simp add: s abandon_def split_beta Let_def)
    ultimately show ?thesis by (intro exI [of _ "settle (abandon S EndInCall ?u)"]) (simp add: s(1) settle_def)
  qed
qed

text \<open>
  C17: Every call the parser names is one JSON object on the wire. For any text, any cut into
  pieces and any armed ids, the calls have the indices 0, 1, 2, ... and the ids of those
  indices, each once; the argument fragments of each index concatenate to a JSON object, also
  when the call was given up or the generation ended inside it; no fragment carries another
  index; and no content is sent after the first call was named.
\<close>

theorem tool_call_arguments_are_objects:
  assumes "serde_laws S" and "answer_of S tools m ws = (s, bad)"
  shows "\<exists>n. calls_of (out s) = map (\<lambda>i. (i, call_id i)) [0..<n] \<and> (\<forall>i < n. json_object (args_of i (out s)))
    \<and> (\<forall>i \<ge> n. args_of i (out s) = []) \<and> content_first (out s)"
proof -
  obtain s' where "history_ok S s'" "\<not> t_named s'" "out s' = out s" using answer_history [OF assms] by blast
  then show ?thesis by (intro exI [of _ "t_index s'"]) (simp add: history_ok_def total_def)
qed

text \<open>
  C35: Every abandoned call leaves exactly one record. The number of calls named is the number
  closed plus the number of records with an index; the arguments of a recorded index carry
  the truncation mark, so no client runs half a command, and its markup was not sent as
  content as well; and when the generation ended inside a call the last record says so.
\<close>

theorem abandoned_calls_are_recorded:
  assumes "serde_laws S" and "answer_of S tools m ws = (s, bad)"
  shows "length (calls_of (out s)) = t_closed s + length (filter (\<lambda>r. m_index r \<noteq> None) (t_malformed s))
    \<and> (\<forall>r \<in> set (t_malformed s). \<forall>i. m_index r = Some i \<longrightarrow> i < length (calls_of (out s)) \<and> marked S (args_of i (out s)) \<and> \<not> m_raw_as_content r)
    \<and> (bad \<longrightarrow> t_malformed s \<noteq> [] \<and> m_kind (last (t_malformed s)) = EndInCall)"
proof -
  obtain s' where h: "history_ok S s'" "\<not> t_named s'" "out s' = out s" "t_closed s' = t_closed s" "t_malformed s' = t_malformed s"
    and b: "bad \<longrightarrow> t_malformed s \<noteq> [] \<and> m_kind (last (t_malformed s)) = EndInCall" using answer_history [OF assms] by blast
  have "length (calls_of (out s)) = t_index s'" using h by (simp add: history_ok_def total_def)
  with h b show ?thesis by (auto simp: history_ok_def counted_def record_ok_def split: option.splits)
qed

definition demo_answer :: "sink \<times> bool" where
  "demo_answer = answer_of small_serde None Glm [Arm, Piece ''<tool_call>f<arg_key>x</arg_key><arg_value>4''] "

lemma tool_call_arguments_are_objects_witness:
  "\<exists>n. calls_of (out (fst demo_answer)) = map (\<lambda>i. (i, call_id i)) [0..<n]"
  using tool_call_arguments_are_objects [OF small_serde_laws, of None Glm "[Arm, Piece ''<tool_call>f<arg_key>x</arg_key><arg_value>4'']"
      "fst demo_answer" "snd demo_answer"] by (auto simp: demo_answer_def)

lemma abandoned_calls_are_recorded_witness:
  "length (calls_of (out (fst demo_answer)))
     = t_closed (fst demo_answer) + length (filter (\<lambda>r. m_index r \<noteq> None) (t_malformed (fst demo_answer)))"
  using abandoned_calls_are_recorded [OF small_serde_laws, of None Glm "[Arm, Piece ''<tool_call>f<arg_key>x</arg_key><arg_value>4'']"
      "fst demo_answer" "snd demo_answer"] by (auto simp: demo_answer_def)

end
