(* ===== verification/ToolCallTemplate.thy ===== *)
theory ToolCallTemplate
  imports ToolCallArgs
begin

text \<open>
  A call written as GLM's chat template renders it is read back: the name, and an arguments
  object with one member per pair, in order, whose values are the template's values. This is
  the reverse of \<open>chat_template.jinja\<close>, described at the head of \<open>engine/src/toolcall.rs\<close>.
\<close>

section \<open>Where a tag starts\<close>

text \<open>A tag opens with the only \<open><\<close> it holds.\<close>

definition tag :: "str \<Rightarrow> bool" where
  "tag m \<longleftrightarrow> (\<exists>r. m = CHR ''<'' # r \<and> CHR ''<'' \<notin> set r)"

definition free_of :: "str \<Rightarrow> str \<Rightarrow> bool" where
  "free_of v m \<longleftrightarrow> (\<forall>i \<le> length v. \<not> occurs m i v)"

lemma tags [simp]:
  "tag TOOL_OPEN" "tag TOOL_CLOSE" "tag ARG_KEY_OPEN" "tag ARG_KEY_CLOSE" "tag ARG_VALUE_OPEN" "tag ARG_VALUE_CLOSE"
  by (simp_all add: tag_def TOOL_OPEN_def TOOL_CLOSE_def ARG_KEY_OPEN_def ARG_KEY_CLOSE_def ARG_VALUE_OPEN_def ARG_VALUE_CLOSE_def)

lemma no_crossing:
  assumes m: "tag m" and t: "tag t" and f: "free_of v m" and i: "i < length v"
  shows "\<not> occurs m i (v @ t @ rest)"
proof
  assume o: "occurs m i (v @ t @ rest)"
  show False
  proof (cases "i + length m \<le> length v")
    case True
    with o have "occurs m i v" by (simp add: occurs_def)
    with f i show False by (simp add: free_of_def)
  next
    case False
    let ?k = "length v - i"
    have k: "0 < ?k" "?k < length m" using False i by auto
    obtain r where r: "drop i (v @ t @ rest) = m @ r" using o by (auto simp: occurs_iff)
    have "m ! ?k = (m @ r) ! ?k" using k by (simp add: nth_append)
    also have "\<dots> = (v @ t @ rest) ! length v" unfolding r [symmetric] using i by (subst nth_drop) auto
    also have "\<dots> = CHR ''<''" using t by (auto simp: tag_def nth_append)
    finally have "m ! ?k = CHR ''<''" .
    moreover obtain q where q: "m = CHR ''<'' # q" "CHR ''<'' \<notin> set q" using m by (auto simp: tag_def)
    ultimately have "q ! (?k - 1) = CHR ''<''" "?k - 1 < length q" using k by (auto simp: nth_Cons')
    with q(2) show False by (metis nth_mem)
  qed
qed

lemma scan_tag:
  assumes ok: "list_all marker_ok ms" and tags: "\<forall>m \<in> set ms. tag m \<and> free_of v m"
    and i: "i < length ms" and other: "\<forall>j < length ms. j \<noteq> i \<longrightarrow> \<not> is_prefix (ms ! j) (ms ! i @ rest)"
  shows "\<exists>safe. find_marker (v @ ms ! i @ rest) ms = (Some (length v, i), safe)"
proof -
  let ?b = "v @ ms ! i @ rest"
  obtain hit safe where f: "find_marker ?b ms = (hit, safe)" by (cases "find_marker ?b ms")
  have here: "occurs (ms ! i) (length v) ?b" by (simp add: occurs_def)
  show ?thesis
  proof (cases hit)
    case None
    with f have "no_hit ?b ms" using fm.scan_miss [OF ok] by blast
    with here i show ?thesis by (auto simp: no_hit_def)
  next
    case (Some h)
    obtain "at" j where h: "h = (at, j)" by (cases h)
    have fh: "first_hit ?b ms at j" using fm.scan_hit [OF ok] f Some h by blast
    have "\<not> at < length v"
    proof
      assume lt: "at < length v"
      have j: "ms ! j \<in> set ms" "occurs (ms ! j) at ?b" using fh by (auto simp: first_hit_def)
      with no_crossing [OF _ _ _ lt, of "ms ! j" "ms ! i" rest] tags i show False by (meson nth_mem)
    qed
    moreover have "\<not> length v < at" using fh here i by (auto simp: first_hit_def)
    ultimately have "at": "at = length v" by simp
    have "is_prefix (ms ! j) (ms ! i @ rest)" "j < length ms"
      using fh by (auto simp: first_hit_def "at" occurs_def is_prefix_def)
    with other have "j = i" by blast
    with f Some h "at" show ?thesis by simp
  qed
qed

section \<open>The template\<close>

definition render_pair :: "str \<times> str \<Rightarrow> str" where
  "render_pair kv = ARG_KEY_OPEN @ fst kv @ ARG_KEY_CLOSE @ ARG_VALUE_OPEN @ snd kv @ ARG_VALUE_CLOSE"

definition render_call :: "str \<Rightarrow> (str \<times> str) list \<Rightarrow> str" where
  "render_call name kvs = TOOL_OPEN @ name @ concat (map render_pair kvs) @ TOOL_CLOSE"

text \<open>The member that should arrive for a pair: a declared string is quoted, any other value is its JSON.\<close>

definition declared :: "ptypes \<Rightarrow> str \<Rightarrow> str \<Rightarrow> str option" where
  "declared types name k = Option.bind (types name) (\<lambda>m. m k)"

definition member_text :: "serde_json \<Rightarrow> (str \<Rightarrow> str option) \<Rightarrow> str \<times> str \<Rightarrow> str" where
  "member_text S d kv = json_str S (fst kv) @ '':'' @
     (if d (fst kv) = Some ''string'' then json_str S (snd kv) else raw_json S (d (fst kv)) (snd kv))"

fun object_text :: "serde_json \<Rightarrow> (str \<Rightarrow> str option) \<Rightarrow> bool \<Rightarrow> (str \<times> str) list \<Rightarrow> str" where
  "object_text S d later [] = (if later then ''}'' else ''{}'')"
| "object_text S d later (kv # kvs) = (if later then '','' else ''{'') @ member_text S d kv @ object_text S d True kvs"

definition plain_name :: "str \<Rightarrow> bool" where
  "plain_name s \<longleftrightarrow> glm_name s = Some s"

definition plain_value :: "str \<Rightarrow> bool" where
  "plain_value v \<longleftrightarrow> free_of v ARG_VALUE_CLOSE \<and> free_of v TOOL_CLOSE"

lemma no_lt_free: "CHR ''<'' \<notin> set v \<Longrightarrow> tag m \<Longrightarrow> free_of v m"
proof (unfold free_of_def, intro allI impI notI)
  fix i assume "CHR ''<'' \<notin> set v" "tag m" "occurs m i v"
  then obtain q r where "drop i v = CHR ''<'' # q @ r" by (auto simp: occurs_iff tag_def)
  then have "CHR ''<'' \<in> set (drop i v)" by simp
  with \<open>CHR ''<'' \<notin> set v\<close> show False by (meson in_set_dropD)
qed

lemma plain_name_free: "plain_name s \<Longrightarrow> tag m \<Longrightarrow> free_of s m"
  by (rule no_lt_free) (auto simp: plain_name_def glm_name_def Let_def split: if_splits)

lemma empty_free [simp]: "tag m \<Longrightarrow> free_of [] m"
  by (simp add: no_lt_free)

lemma apart [simp]:
  "\<not> is_prefix TOOL_CLOSE (ARG_KEY_OPEN @ r)" "\<not> is_prefix ARG_KEY_OPEN (TOOL_CLOSE @ r)" "\<not> is_prefix TOOL_CLOSE (ARG_VALUE_OPEN @ r)"
  "\<not> is_prefix TOOL_CLOSE (ARG_VALUE_CLOSE @ r)"
  by (simp_all add: is_prefix_def TOOL_CLOSE_def ARG_KEY_OPEN_def ARG_VALUE_OPEN_def ARG_VALUE_CLOSE_def)

lemma json_escape_empty: "serde_laws S \<Longrightarrow> json_escape S [] = []"
  by (auto simp: serde_laws_def json_escape_def)

section \<open>Reading it back\<close>

definition reading :: "ptypes \<Rightarrow> str \<Rightarrow> str \<Rightarrow> sink \<Rightarrow> bool" where
  "reading types name pre s \<longleftrightarrow> t_types s = types \<and> t_name s = name \<and> t_named s \<and> t_index s = 0 \<and> t_closed s = 0 \<and> t_malformed s = []
     \<and> t_dropped s = 0 \<and> Call 0 (call_id 0) name \<in> set (out s) \<and> content_of (out s) = pre"

lemma run_turn: "turn S s = (s1, True) \<Longrightarrow> run S s = run S s1"
  by (simp add: run.simps [of S s])

lemma types_same [simp]:
  "t_types (emit_args x s) = t_types s" "t_types (eat n s) = t_types s" "t_types (drain n s) = t_types s" "t_types (open_param S s) = t_types s"
  "t_types (value_text S x s) = t_types s" "t_types (close_param S s) = t_types s" "t_types (close_args s) = t_types s"
  "t_types (name_call x s) = t_types s"
  "t_name (emit_args x s) = t_name s" "t_name (eat n s) = t_name s" "t_name (drain n s) = t_name s" "t_name (open_param S s) = t_name s"
  "t_name (value_text S x s) = t_name s" "t_name (close_param S s) = t_name s" "t_name (close_args s) = t_name s" "t_name (name_call x s) = x"
  by (simp_all add: sink_defs Let_def)

lemma sent_grows:
  "e \<in> set (out s) \<Longrightarrow> e \<in> set (out (emit_args x s))" "set (out (eat n s)) = set (out s)" "e \<in> set (out s) \<Longrightarrow> e \<in> set (out (open_param S s))"
  "e \<in> set (out s) \<Longrightarrow> e \<in> set (out (value_text S x s))" "e \<in> set (out s) \<Longrightarrow> e \<in> set (out (close_param S s))"
  "e \<in> set (out s) \<Longrightarrow> e \<in> set (out (close_args s))"
  by (simp_all add: sink_defs Let_def)

lemma reading_ops [simp]:
  "reading types name pre s \<Longrightarrow> reading types name pre (emit_args x s)" "reading types name pre s \<Longrightarrow> reading types name pre (eat n s)"
  "reading types name pre s \<Longrightarrow> reading types name pre (open_param S s)" "reading types name pre s \<Longrightarrow> reading types name pre (value_text S x s)"
  "reading types name pre s \<Longrightarrow> reading types name pre (close_param S s)" "reading types name pre s \<Longrightarrow> reading types name pre (close_args s)"
  "reading types name pre (s\<lparr>t_state := st\<rparr>) = reading types name pre s" "reading types name pre (s\<lparr>t_pname := k\<rparr>) = reading types name pre s"
  "reading types name pre (s\<lparr>t_skip_nl := b\<rparr>) = reading types name pre s" "reading types name pre (s\<lparr>t_held_nl := b\<rparr>) = reading types name pre s"
  by (simp_all add: reading_def sent_grows)

lemma args_eat [simp]: "out (eat n s) = out s" "t_open_brace (eat n s) = t_open_brace s" "t_pname (eat n s) = t_pname s"
  by (simp_all add: eat_def drain_def)

text \<open>One value: what the fragments of a parameter add to the arguments.\<close>

lemma value_args:
  assumes l: "serde_laws S" and r: "reading types name pre s"
  shows "args_of 0 (out (close_param S (value_text S v (eat n ((open_param S s)\<lparr>t_skip_nl := False, t_held_nl := False, t_state := st\<rparr>)))))
      = args_of 0 (out s) @ (if t_open_brace s then '','' else ''{'') @ member_text S (declared types name) (t_pname s, v)"
    and "t_open_brace (close_param S (value_text S v (eat n ((open_param S s)\<lparr>t_skip_nl := False, t_held_nl := False, t_state := st\<rparr>))))"
proof -
  have f: "t_types s = types" "t_name s = name" "t_index s = 0" using r by (simp_all add: reading_def)
  have e: "json_str S x = dq # json_escape S x @ [dq]" for x using json_str_shape [OF l] by blast
  note d = open_param_def value_text_def close_param_def emit_args_def send_def eat_def drain_def Let_def declared_def [symmetric] f
  show "args_of 0 (out (close_param S (value_text S v (eat n ((open_param S s)\<lparr>t_skip_nl := False, t_held_nl := False, t_state := st\<rparr>)))))
      = args_of 0 (out s) @ (if t_open_brace s then '','' else ''{'') @ member_text S (declared types name) (t_pname s, v)"
    by (cases "declared types name (t_pname s) = Some ''string''")
      (auto simp: d member_text_def e [of v] json_escape_empty [OF l])
  show "t_open_brace (close_param S (value_text S v (eat n ((open_param S s)\<lparr>t_skip_nl := False, t_held_nl := False, t_state := st\<rparr>))))"
    by (simp add: d)
qed

lemma eat_drop [simp]: "t_buf s = x @ y \<Longrightarrow> length x = n \<Longrightarrow> t_buf (eat n s) = y"
  by simp

lemma read_pair:
  assumes l: "serde_laws S" and r: "reading types name pre s" and st: "t_state s = GKey"
    and b: "t_buf s = k @ ARG_KEY_CLOSE @ ARG_VALUE_OPEN @ v @ ARG_VALUE_CLOSE @ rest"
    and k: "plain_name k" and v: "plain_value v"
  shows "\<exists>s'. run S s = run S s' \<and> reading types name pre s' \<and> t_state s' = GAfter \<and> t_buf s' = rest \<and> t_open_brace s'
    \<and> args_of 0 (out s') = args_of 0 (out s) @ (if t_open_brace s then '','' else ''{'') @ member_text S (declared types name) (k, v)"
proof -
  define s1 where "s1 = (eat (length k + 10) s)\<lparr>t_pname := k, t_state := GAwaitVal\<rparr>"
  define s2 where "s2 = (open_glm_value S (eat 11 s1))\<lparr>t_state := GVal\<rparr>"
  define s3 where "s3 = close_param S (value_text S v (eat (length v + 12) s2))\<lparr>t_state := GAfter\<rparr>"
  have b1: "t_buf s1 = ARG_VALUE_OPEN @ v @ ARG_VALUE_CLOSE @ rest" by (simp add: s1_def b)
  have b2: "t_buf s2 = v @ ARG_VALUE_CLOSE @ rest" by (simp add: s2_def b1)
  have b3: "t_buf s3 = rest" by (simp add: s3_def b2)
  have st12: "t_state s1 = GAwaitVal" "t_state s2 = GVal" by (simp_all add: s1_def s2_def)
  have "turn S s = (s1, True)"
    using scan_tag [of "[ARG_KEY_CLOSE]" k 0 "ARG_VALUE_OPEN @ v @ ARG_VALUE_CLOSE @ rest"] k
    by (auto simp: turn_def st turn_gkey_def b s1_def plain_name_free plain_name_def [THEN iffD1] Let_def)
  moreover have "turn S s1 = (s2, True)"
    using scan_tag [of "[ARG_VALUE_OPEN, TOOL_CLOSE]" "[]" 0 "v @ ARG_VALUE_CLOSE @ rest"]
    by (auto simp: turn_def st12 turn_gawait_val_def b1 s2_def less_Suc_eq)
  moreover have "turn S s2 = (s3, True)"
    using scan_tag [of "[ARG_VALUE_CLOSE, TOOL_CLOSE]" v 0 rest] v
    by (auto simp: turn_def st12 turn_gval_def b2 s3_def plain_value_def less_Suc_eq glm_value_def Let_def)
  ultimately have "run S s = run S s3" by (simp add: run_turn)
  moreover have "reading types name pre s3" using r by (simp add: s3_def s2_def s1_def open_glm_value_def)
  moreover have s3: "s3 = (close_param S (value_text S v (eat (length v + 12)
      ((open_param S (eat 11 s1))\<lparr>t_skip_nl := False, t_held_nl := False, t_state := GVal\<rparr>))))\<lparr>t_state := GAfter\<rparr>"
    by (simp add: s3_def s2_def open_glm_value_def)
  have r1: "reading types name pre (eat 11 s1)" using r by (simp add: s1_def)
  have f: "out (eat 11 s1) = out s" "t_open_brace (eat 11 s1) = t_open_brace s" "t_pname (eat 11 s1) = k" by (simp_all add: s1_def)
  have "args_of 0 (out s3) = args_of 0 (out s) @ (if t_open_brace s then '','' else ''{'') @ member_text S (declared types name) (k, v)"
    "t_open_brace s3" unfolding s3 using value_args [OF l r1, unfolded f] by simp_all
  ultimately show ?thesis using b3 by (intro exI [of _ s3]) (simp add: s3_def)
qed

lemma read_close:
  assumes r: "reading types name pre s" and st: "t_state s = GAfter" and b: "t_buf s = TOOL_CLOSE" and ob: "t_open_brace s"
  shows "\<exists>s'. run S s = run S s' \<and> t_state s' = Text \<and> t_buf s' = [] \<and> Call 0 (call_id 0) name \<in> set (out s') \<and> content_of (out s') = pre
    \<and> t_closed s' = 1 \<and> t_malformed s' = [] \<and> t_dropped s' = 0 \<and> args_of 0 (out s') = args_of 0 (out s) @ ''}''"
proof -
  let ?s = "close_call (close_args (eat 12 s))"
  have "turn S s = (?s, True)"
    using scan_tag [of "[ARG_KEY_OPEN, TOOL_CLOSE]" "[]" 1 "[]"]
    by (auto simp: turn_def st turn_gafter_def b less_Suc_eq apart(2) [of "[]", simplified])
  moreover have "out ?s = out s @ [Args 0 ''}'']" using r ob
    by (simp add: reading_def close_call_def close_args_def emit_args_def send_def Let_def)
  moreover have "t_dropped ?s = t_dropped s" by (simp add: close_call_def Let_def)
  ultimately show ?thesis using r b by (intro exI [of _ ?s]) (auto simp: run_turn reading_def)
qed

lemma read_pairs:
  assumes l: "serde_laws S" and "reading types name pre s" and "t_state s = GAfter"
    and "t_buf s = concat (map render_pair kvs) @ TOOL_CLOSE" and "t_open_brace s"
    and "\<forall>kv \<in> set kvs. plain_name (fst kv) \<and> plain_value (snd kv)"
  shows "\<exists>s'. run S s = run S s' \<and> t_state s' = Text \<and> t_buf s' = [] \<and> Call 0 (call_id 0) name \<in> set (out s') \<and> content_of (out s') = pre
    \<and> t_closed s' = 1 \<and> t_malformed s' = [] \<and> t_dropped s' = 0
    \<and> args_of 0 (out s') = args_of 0 (out s) @ object_text S (declared types name) True kvs"
  using assms(2-)
proof (induction kvs arbitrary: s)
  case Nil
  then show ?case using read_close [of types name pre s S] by simp
next
  case (Cons kv kvs)
  let ?rest = "concat (map render_pair kvs) @ TOOL_CLOSE"
  let ?s = "(eat 9 s)\<lparr>t_pname := [], t_state := GKey\<rparr>"
  have b: "t_buf s = ARG_KEY_OPEN @ fst kv @ ARG_KEY_CLOSE @ ARG_VALUE_OPEN @ snd kv @ ARG_VALUE_CLOSE @ ?rest"
    using Cons.prems(3) by (simp add: render_pair_def [of kv])
  have "turn S s = (?s, True)"
    using scan_tag [of "[ARG_KEY_OPEN, TOOL_CLOSE]" "[]" 0 "fst kv @ ARG_KEY_CLOSE @ ARG_VALUE_OPEN @ snd kv @ ARG_VALUE_CLOSE @ ?rest"]
    by (auto simp: turn_def Cons.prems(2) turn_gafter_def b less_Suc_eq)
  moreover have "\<exists>s'. run S ?s = run S s' \<and> reading types name pre s' \<and> t_state s' = GAfter \<and> t_buf s' = ?rest \<and> t_open_brace s'
    \<and> args_of 0 (out s') = args_of 0 (out ?s) @ (if t_open_brace ?s then '','' else ''{'') @ member_text S (declared types name) (fst kv, snd kv)"
    by (rule read_pair [OF l]) (use Cons.prems b in simp_all)
  ultimately obtain s' where s': "run S s = run S s'" "reading types name pre s'" "t_state s' = GAfter" "t_buf s' = ?rest" "t_open_brace s'"
    "args_of 0 (out s') = args_of 0 (out s) @ '','' @ member_text S (declared types name) kv"
    using Cons.prems(4) by (auto simp: run_turn)
  from Cons.IH [OF s'(2-5)] Cons.prems(5) show ?case unfolding s'(1) by (simp add: s'(6))
qed

lemma read_head:
  assumes "t_state s = Text" and "t_armed s = 1" and "t_markup s = Glm" and "t_index s = 0" and "\<not> t_named s" and "t_raw s = []"
    and "t_dropped s = 0" and "t_closed s = 0" and "t_malformed s = []" and "out s = []" and b: "t_buf s = pre @ TOOL_OPEN @ rest"
    and pre: "free_of pre TOOL_OPEN"
  shows "\<exists>s'. run S s = run S s' \<and> t_state s' = GName \<and> t_buf s' = rest \<and> t_index s' = 0 \<and> t_dropped s' = 0 \<and> t_closed s' = 0
    \<and> t_malformed s' = [] \<and> content_of (out s') = pre \<and> args_of 0 (out s') = [] \<and> t_types s' = t_types s \<and> \<not> t_open_brace s'"
proof -
  let ?c = "drain (length pre + 11) (content pre s)"
  let ?s = "?c\<lparr>t_armed := t_armed ?c - 1, t_raw := TOOL_OPEN, t_named := False, t_name := [], t_open_brace := False, t_state := GName\<rparr>"
  have "t_markup ?c = Glm" using assms(3) by (simp add: drain_def content_def send_def)
  then have "turn S s = (?s, True)"
    using scan_tag [of "[TOOL_OPEN]" pre 0 rest] pre by (auto simp: turn_def assms turn_text_def Let_def)
  moreover have "out ?s = (if pre = [] then [] else [Content pre])" "t_dropped ?s = 0" "t_types ?s = t_types s"
    using assms by (simp_all add: drain_def content_def send_def)
  ultimately show ?thesis using assms by (intro exI [of _ ?s]) (auto simp: run_turn)
qed

lemma read_name:
  assumes st: "t_state s = GName" and b: "t_buf s = name @ ARG_KEY_OPEN @ rest" and k: "plain_name name"
    and f: "t_index s = 0" "t_dropped s = 0" "t_closed s = 0" "t_malformed s = []" "content_of (out s) = pre" "args_of 0 (out s) = []"
      "\<not> t_open_brace s"
  shows "\<exists>s'. run S s = run S s' \<and> reading (t_types s) name pre s' \<and> t_state s' = GKey \<and> t_buf s' = rest \<and> args_of 0 (out s') = []
    \<and> \<not> t_open_brace s'"
proof -
  let ?s = "(name_call name (eat (length name + 9) s))\<lparr>t_pname := [], t_state := GKey\<rparr>"
  have "turn S s = (?s, True)"
    using scan_tag [of "[ARG_KEY_OPEN, TOOL_CLOSE]" name 0 rest] k
    by (auto simp: turn_def st turn_gname_def b less_Suc_eq plain_name_free plain_name_def [THEN iffD1] Let_def)
  moreover have "out ?s = out s @ [Call 0 (call_id 0) name]" "t_open_brace ?s = t_open_brace s"
    using f by (simp_all add: name_call_def send_def)
  ultimately show ?thesis using f b by (intro exI [of _ ?s]) (auto simp: run_turn reading_def)
qed

lemma read_bare_name:
  assumes st: "t_state s = GName" and b: "t_buf s = name @ TOOL_CLOSE" and k: "plain_name name"
    and f: "t_index s = 0" "t_dropped s = 0" "t_closed s = 0" "t_malformed s = []" "content_of (out s) = pre" "args_of 0 (out s) = []"
      "\<not> t_open_brace s"
  shows "\<exists>s'. run S s = run S s' \<and> t_state s' = Text \<and> t_buf s' = [] \<and> Call 0 (call_id 0) name \<in> set (out s') \<and> content_of (out s') = pre
    \<and> t_closed s' = 1 \<and> t_malformed s' = [] \<and> t_dropped s' = 0 \<and> args_of 0 (out s') = ''{}''"
proof -
  let ?s = "close_call (close_args (name_call name (eat (length name + 12) s)))"
  have "turn S s = (?s, True)"
    using scan_tag [of "[ARG_KEY_OPEN, TOOL_CLOSE]" name 1 "[]"] k
    by (auto simp: turn_def st turn_gname_def b less_Suc_eq plain_name_free plain_name_def [THEN iffD1] Let_def apart(2) [of "[]", simplified])
  moreover have "out ?s = out s @ [Call 0 (call_id 0) name, Args 0 ''{}'']"
    using f by (simp add: name_call_def send_def close_call_def close_args_def emit_args_def eat_def drain_def Let_def)
  moreover have "t_dropped ?s = 0" using f by (simp add: close_call_def Let_def)
  ultimately show ?thesis using f b by (intro exI [of _ ?s]) (auto simp: run_turn)
qed

lemma read_call:
  assumes l: "serde_laws S" and st: "t_state s = GName" and b: "t_buf s = name @ concat (map render_pair kvs) @ TOOL_CLOSE" and k: "plain_name name"
    and kv: "\<forall>kv \<in> set kvs. plain_name (fst kv) \<and> plain_value (snd kv)"
    and f: "t_index s = 0" "t_dropped s = 0" "t_closed s = 0" "t_malformed s = []" "content_of (out s) = pre" "args_of 0 (out s) = []"
      "\<not> t_open_brace s"
  shows "\<exists>s'. run S s = run S s' \<and> t_state s' = Text \<and> t_buf s' = [] \<and> Call 0 (call_id 0) name \<in> set (out s') \<and> content_of (out s') = pre
    \<and> t_closed s' = 1 \<and> t_malformed s' = [] \<and> t_dropped s' = 0
    \<and> args_of 0 (out s') = object_text S (declared (t_types s) name) False kvs"
proof (cases kvs)
  case Nil
  with read_bare_name [OF st _ k f, of S] b show ?thesis by simp
next
  case (Cons kv kvs')
  let ?more = "concat (map render_pair kvs') @ TOOL_CLOSE"
  have b1: "t_buf s = name @ ARG_KEY_OPEN @ (fst kv @ ARG_KEY_CLOSE @ ARG_VALUE_OPEN @ snd kv @ ARG_VALUE_CLOSE @ ?more)"
    using b by (simp add: Cons render_pair_def [of kv])
  obtain s1 where s1: "run S s = run S s1" "reading (t_types s) name pre s1" "t_state s1 = GKey"
    "t_buf s1 = fst kv @ ARG_KEY_CLOSE @ ARG_VALUE_OPEN @ snd kv @ ARG_VALUE_CLOSE @ ?more" "args_of 0 (out s1) = []" "\<not> t_open_brace s1"
    using read_name [OF st b1 k f] by blast
  have p: "plain_name (fst kv)" "plain_value (snd kv)" using kv Cons by auto
  obtain s2 where s2: "run S s1 = run S s2" "reading (t_types s) name pre s2" "t_state s2 = GAfter" "t_buf s2 = ?more" "t_open_brace s2"
    "args_of 0 (out s2) = ''{'' @ member_text S (declared (t_types s) name) kv"
    using read_pair [OF l s1(2-4) p] s1(5,6) by auto
  have "\<forall>kv \<in> set kvs'. plain_name (fst kv) \<and> plain_value (snd kv)" using kv Cons by simp
  from read_pairs [OF l s2(2-5) this] show ?thesis unfolding s1(1) s2(1) by (simp add: s2(6) Cons)
qed

text \<open>
  C18: A call in GLM's template is read back whole. When the id of \<open><tool_call>\<close> armed the
  parser, a text that ends in a rendered call sends the text before it as content, the call
  under its name and the arguments object with one member per pair in order: a declared
  string quoted, any other value as its JSON. The call counts as closed, and nothing is
  dropped or reported as malformed.
\<close>

theorem glm_template_round_trip:
  assumes "serde_laws S" and "plain_name name" and "\<forall>kv \<in> set kvs. plain_name (fst kv) \<and> plain_value (snd kv)" and "free_of pre TOOL_OPEN"
    and "answer_of S tools Glm [Arm, Piece (pre @ render_call name kvs)] = (s, bad)"
  shows "\<not> bad \<and> Call 0 (call_id 0) name \<in> set (out s) \<and> content_of (out s) = pre
    \<and> args_of 0 (out s) = object_text S (declared (tool_param_types tools) name) False kvs
    \<and> t_closed s = 1 \<and> t_malformed s = [] \<and> t_dropped s = 0"
proof -
  let ?rest = "name @ concat (map render_pair kvs) @ TOOL_CLOSE"
  let ?s = "with_out ((with_markup tools Glm)\<lparr>t_armed := 1, t_buf := pre @ TOOL_OPEN @ ?rest\<rparr>) []"
  have i: "t_state ?s = Text" "t_armed ?s = 1" "t_markup ?s = Glm" "t_index ?s = 0" "\<not> t_named ?s" "t_raw ?s = []" "t_dropped ?s = 0"
    "t_closed ?s = 0" "t_malformed ?s = []" "out ?s = []" "t_buf ?s = pre @ TOOL_OPEN @ ?rest" "t_types ?s = tool_param_types tools"
    by (simp_all add: with_out_def with_markup_def tool_stream.defs sink.defs)
  obtain s1 where s1: "run S ?s = run S s1" "t_state s1 = GName" "t_buf s1 = ?rest" "t_index s1 = 0" "t_dropped s1 = 0" "t_closed s1 = 0"
    "t_malformed s1 = []" "content_of (out s1) = pre" "args_of 0 (out s1) = []" "t_types s1 = tool_param_types tools" "\<not> t_open_brace s1"
    using read_head [OF i(1-11) assms(4), of S] unfolding i(12) by blast
  obtain s2 where s2: "run S s1 = run S s2" "t_state s2 = Text" "t_buf s2 = []" "Call 0 (call_id 0) name \<in> set (out s2)"
    "content_of (out s2) = pre" "t_closed s2 = 1" "t_malformed s2 = []" "t_dropped s2 = 0"
    "args_of 0 (out s2) = object_text S (declared (tool_param_types tools) name) False kvs"
    using read_call [OF assms(1) s1(2,3) assms(2,3) s1(4-9,11)] unfolding s1(10) by blast
  have "find_marker [] [TOOL_OPEN] = (None, 0)" by (simp add: find_marker_def TOOL_OPEN_def hold_step_def)
  then have "run S s2 = s2" by (simp add: run.simps [of S s2] turn_def turn_text_def s2(2,3))
  then have run: "run S ?s = s2" unfolding s1(1) s2(1) .
  have "wire_run S tools Glm [Arm, Piece (pre @ render_call name kvs)]
    = wire_step S ((with_markup tools Glm)\<lparr>t_armed := 1\<rparr>, []) (Piece (pre @ render_call name kvs))"
    by (simp add: wire_run_def) (simp add: wire_step_def arm_def with_markup_def)
  also have "\<dots> = (tool_stream.truncate (run S ?s), out (run S ?s))"
    by (simp add: wire_step_sink Let_def render_call_def) (simp add: with_out_def with_markup_def tool_stream.defs sink.defs)
  finally have "answer_of S tools Glm [Arm, Piece (pre @ render_call name kvs)] = finish S s2"
    unfolding run by (simp add: answer_of_def with_out_truncate)
  with assms(5) s2 show ?thesis by (auto simp: finish_def content_def)
qed

definition visible :: "char \<Rightarrow> bool" where
  "visible c \<longleftrightarrow> 33 \<le> (of_char c :: nat) \<and> (of_char c :: nat) < 127"

lemma ws_seqs_ends: "list_all (\<lambda>w. w \<noteq> [] \<and> \<not> visible (hd w) \<and> \<not> visible (last w)) ws_seqs"
  by (simp add: ws_seqs_def byte_of_def visible_def upt_rec)

lemma trim_with_visible:
  "list_all (\<lambda>w. w \<noteq> [] \<longrightarrow> \<not> visible (hd w)) ws \<Longrightarrow> visible c \<Longrightarrow> trim_with ws (c # s) = c # s"
proof -
  assume "list_all (\<lambda>w. w \<noteq> [] \<longrightarrow> \<not> visible (hd w)) ws" "visible c"
  then have "find (\<lambda>w. w \<noteq> [] \<and> is_prefix w (c # s)) ws = None"
    by (auto simp: find_None_iff list_all_iff is_prefix_iff neq_Nil_conv)
  then show ?thesis by (simp add: trim_with.simps)
qed

lemma trim_visible: "visible c \<Longrightarrow> trim [c] = [c]"
proof -
  assume v: "visible c"
  have "trim_with ws_seqs [c] = [c]" "trim_with (map rev ws_seqs) [c] = [c]"
    using ws_seqs_ends v by (auto intro!: trim_with_visible simp: list_all_iff hd_rev)
  then show ?thesis by (simp add: trim_def trim_start_def trim_end_def)
qed

lemma demo_names: "plain_name ''f'' \<and> plain_name ''x'' \<and> plain_value ''4'' \<and> free_of ''hi'' TOOL_OPEN"
proof -
  have "plain_name ''f''" "plain_name ''x''"
    using trim_visible [of "CHR ''f''"] trim_visible [of "CHR ''x''"]
    by (simp_all add: plain_name_def glm_name_def Let_def visible_def MAX_TOOL_NAME_def)
  moreover have "plain_value ''4''" by (simp add: plain_value_def no_lt_free)
  ultimately show ?thesis by (simp add: no_lt_free)
qed

lemma glm_template_round_trip_witness:
  "args_of 0 (out (fst (answer_of small_serde None Glm [Arm, Piece (''hi'' @ render_call ''f'' [(''x'', ''4'')])])))
     = object_text small_serde (declared (tool_param_types None) ''f'') False [(''x'', ''4'')]
   \<and> t_closed (fst (answer_of small_serde None Glm [Arm, Piece (''hi'' @ render_call ''f'' [(''x'', ''4'')])])) = 1"
proof -
  let ?a = "answer_of small_serde None Glm [Arm, Piece (''hi'' @ render_call ''f'' [(''x'', ''4'')])]"
  have p: "plain_name ''f''" "\<forall>kv \<in> set [(''x'', ''4'')]. plain_name (fst kv) \<and> plain_value (snd kv)" "free_of ''hi'' TOOL_OPEN"
    using demo_names by simp_all
  have "?a = (fst ?a, snd ?a)" by (rule prod.collapse [symmetric])
  from glm_template_round_trip [OF small_serde_laws p this] show ?thesis by (intro conjI) (elim conjE, assumption)+
qed

end
