(* ===== verification/Residency.thy ===== *)
theory Residency
  imports ExpertCacheState Json
begin

text \<open>
  The expert residency of \<open>engine/src/residency.rs\<close>: which experts of a layer sit in VRAM
  slots and which in the pinned host tier, the plan that swaps them, the swaps, and the
  pointer table with its hot bitmap. The vectors the code indexes by layer are functions of
  the layer. Memory is a function from spots (a hot slot or a pinned slot of a layer) to the
  expert whose bytes they hold; the gate-up and the down slab of an expert always move
  together, so one spot stands for both. A panic is None.
\<close>

section \<open>State\<close>

definition EMPTY :: nat where "EMPTY = 2 ^ 32 - 1"

datatype spot = Hot nat nat | Cold nat nat

type_synonym memory = "spot \<Rightarrow> nat"

record pending_swap =
  p_layer :: nat
  p_evict_slot :: nat
  p_evict :: nat
  p_new :: nat
  p_cs :: nat
  p_spare :: nat

record residency =
  r_layers :: nat
  r_experts :: nat
  r_n :: nat
  r_stride :: nat
  r_sets :: "nat \<Rightarrow> nat list"
  r_spare_free :: "nat \<Rightarrow> nat list"
  r_cold_index :: "nat \<Rightarrow> nat \<Rightarrow> nat option"
  r_low_bit :: bool
  r_full :: bool
  r_cache :: "cache option"

section \<open>The hot-set sidecar\<close>

fun as_u64 :: "json \<Rightarrow> nat option" where
  "as_u64 (JNumber s) = (if digits s \<and> digits_val s < 2 ^ 64 then Some (digits_val s) else None)"
| "as_u64 _ = None"

datatype sidecar_error = BadN nat | NotJson | NoSets | RowCount nat | RowNotArray nat | NotId nat nat | OutsideRange nat nat nat
  | NamedTwice nat nat nat

fun parse_row :: "nat \<Rightarrow> nat \<Rightarrow> nat \<Rightarrow> nat list \<Rightarrow> json list \<Rightarrow> sidecar_error + nat list" where
  "parse_row es l i row [] = Inr row"
| "parse_row es l i row (x # xs) = (case as_u64 x of
     None \<Rightarrow> Inl (NotId l i)
   | Some ix \<Rightarrow>
      if es \<le> ix then Inl (OutsideRange l i ix)
      else if ix \<in> set row then Inl (NamedTwice l i ix)
      else parse_row es l (i + 1) (row @ [ix]) xs)"

fun parse_rows :: "nat \<Rightarrow> nat \<Rightarrow> json list \<Rightarrow> sidecar_error + nat list list" where
  "parse_rows es l [] = Inr []"
| "parse_rows es l (r # rs) = (case as_array r of
     None \<Rightarrow> Inl (RowNotArray l)
   | Some a \<Rightarrow> (case parse_row es l 0 [] a of
       Inl er \<Rightarrow> Inl er
     | Inr row \<Rightarrow> (case parse_rows es (l + 1) rs of Inl er \<Rightarrow> Inl er | Inr rows \<Rightarrow> Inr (row # rows))))"

text \<open>The length rule (#49): truncate, or pad with the lowest unused ids. The log lines are left out.\<close>

definition adapt_row :: "nat \<Rightarrow> nat \<Rightarrow> nat list \<Rightarrow> nat list" where
  "adapt_row es n s = (if length s = n then s
     else (let s1 = take n s in
       if length s1 < n then s1 @ take (n - length s1) (filter (\<lambda>ix. ix \<notin> set s1) [0..<es]) else s1))"

text \<open>No layer at all is a panic: the least row length of an empty file is unwrapped.\<close>

definition sidecar_sets :: "serde_json \<Rightarrow> str \<Rightarrow> nat \<Rightarrow> nat \<Rightarrow> nat \<Rightarrow> (sidecar_error + nat list list) option" where
  "sidecar_sets S txt n ls es =
    (if n = 0 \<or> es < n then Some (Inl (BadN n))
     else (case from_str S txt of
       None \<Rightarrow> Some (Inl NotJson)
     | Some v \<Rightarrow> (case Option.bind (obj_get ''sets'' v) as_array of
         None \<Rightarrow> Some (Inl NoSets)
       | Some rows \<Rightarrow>
          if length rows \<noteq> ls then Some (Inl (RowCount (length rows)))
          else (case parse_rows es 0 rows of
            Inl er \<Rightarrow> Some (Inl er)
          | Inr sets \<Rightarrow> if sets = [] then None else Some (Inr (map (adapt_row es n) sets))))))"

section \<open>Building\<close>

text \<open>The warm-up order: most selected first, ties by id.\<close>

definition warmup_set :: "nat \<Rightarrow> nat list \<Rightarrow> nat \<Rightarrow> nat list" where
  "warmup_set es counts n = take n (sort_by (\<lambda>a b. ord_then (cmp (counts ! b) (counts ! a)) (cmp a b)) [0..<es])"

text \<open>Pinned slots in id order for every expert that is not hot (every expert on the full tier).\<close>

definition cold_slots :: "nat \<Rightarrow> bool \<Rightarrow> nat list \<Rightarrow> nat \<Rightarrow> nat option" where
  "cold_slots es full hs = map_of (map (\<lambda>(i, e). (e, i)) (enumerate 0 (filter (\<lambda>e. full \<or> e \<notin> set hs) [0..<es])))"

definition build :: "nat \<Rightarrow> nat \<Rightarrow> nat \<Rightarrow> nat \<Rightarrow> (nat \<Rightarrow> nat list) \<Rightarrow> bool \<Rightarrow> bool \<Rightarrow> residency option" where
  "build ls es n_slots spare sets low_bit full_req =
    (let n = n_slots - spare; full = (low_bit \<and> full_req) in
     if \<not> spare < n_slots \<or> \<not> list_all (\<lambda>l. length (sets l) = n) [0..<ls] then None
     else Some \<lparr>r_layers = ls, r_experts = es, r_n = n, r_stride = n_slots,
       r_sets = (\<lambda>l. sets l @ replicate (n_slots - n) EMPTY), r_spare_free = (\<lambda>_. [n..<n_slots]),
       r_cold_index = (\<lambda>l. cold_slots es full (sets l)), r_low_bit = low_bit, r_full = full, r_cache = None\<rparr>)"

text \<open>The load: each resident's slabs into its hot slot, each pinned expert's into its pinned slot.
  The tables the boot uploads are those of \<open>fill_layer_table\<close>.\<close>

definition load_slabs :: "residency \<Rightarrow> memory \<Rightarrow> memory" where
  "load_slabs r m = (\<lambda>x. case x of
     Hot l s \<Rightarrow> if l < r_layers r \<and> s < length (r_sets r l) \<and> r_sets r l ! s \<noteq> EMPTY then r_sets r l ! s else m x
   | Cold l cs \<Rightarrow> (case find (\<lambda>e. r_cold_index r l e = Some cs) [0..<r_experts r] of
       Some e \<Rightarrow> if l < r_layers r then e else m x | None \<Rightarrow> m x))"

fun seed_layers :: "(nat \<Rightarrow> nat list) \<Rightarrow> nat \<Rightarrow> nat list \<Rightarrow> cache \<Rightarrow> (cache_error + cache) option" where
  "seed_layers sets es [] c = Some (Inr c)"
| "seed_layers sets es (l # rest) c =
    (let hot = filter (\<lambda>e. e \<noteq> EMPTY) (sets l) in
     case seed c l hot (filter (\<lambda>e. e \<notin> set hot) [0..<es]) of
       None \<Rightarrow> None
     | Some (_, Some er) \<Rightarrow> Some (Inl er)
     | Some (c1, None) \<Rightarrow> seed_layers sets es rest c1)"

definition attach_cache :: "policy \<Rightarrow> residency \<Rightarrow> (cache_error + residency) option" where
  "attach_cache p r = (case cache_new p PerLayer (r_layers r) (r_experts r) (r_n r) (r_experts r - r_n r) of
     Inl er \<Rightarrow> Some (Inl er)
   | Inr c \<Rightarrow> map_option (map_sum id (\<lambda>c. r\<lparr>r_cache := Some c\<rparr>)) (seed_layers (r_sets r) (r_experts r) [0..<r_layers r] c))"

section \<open>Planning\<close>

definition want_order :: "nat list \<Rightarrow> (nat \<Rightarrow> bool) \<Rightarrow> nat \<Rightarrow> nat \<Rightarrow> ordering" where
  "want_order c hot a b = ord_then (ord_then (cmp (c ! b) (c ! a)) (cmp (hot b) (hot a))) (cmp a b)"

text \<open>The residents that may leave, as (slot, expert).\<close>

definition leavers :: "nat list \<Rightarrow> nat list \<Rightarrow> nat set \<Rightarrow> (nat \<times> nat) list" where
  "leavers sets want excl = filter (\<lambda>(s, e). e \<noteq> EMPTY \<and> e \<notin> set want \<and> s \<notin> excl) (enumerate 0 sets)"

definition pair_up :: "nat \<Rightarrow> (nat \<times> nat) list \<Rightarrow> nat list \<Rightarrow> (nat \<times> nat \<times> nat) list" where
  "pair_up k out_slots incoming =
    (let k1 = (if k = 0 then length incoming else min (length incoming) k); k2 = min k1 (length out_slots) in
     map (\<lambda>i. (fst (out_slots ! i), snd (out_slots ! i), incoming ! i)) [0..<k2])"

definition plan_swaps_cached :: "residency \<Rightarrow> cache \<Rightarrow> nat \<Rightarrow> nat list \<Rightarrow> nat \<Rightarrow> nat set \<Rightarrow> ((nat \<times> nat \<times> nat) list \<times> residency) option" where
  "plan_swaps_cached r c0 l c k excl = (case observe_counts c0 l c of
     None \<Rightarrow> None
   | Some ca \<Rightarrow>
      (let want = vram_set ca l;
           ko = (\<lambda>a b. case keep_order ca l a b of Some x \<Rightarrow> x | None \<Rightarrow> Equal);
           incoming = sort_by (\<lambda>a b. ko b a) (filter (\<lambda>e. e \<notin> set (r_sets r l) \<and> r_cold_index r l e \<noteq> None) want);
           out_slots = sort_by (\<lambda>a b. ko (snd a) (snd b)) (leavers (r_sets r l) want excl)
       in Some (pair_up k out_slots incoming, r\<lparr>r_cache := Some ca\<rparr>)))"

definition plan_swaps :: "residency \<Rightarrow> nat \<Rightarrow> nat list \<Rightarrow> nat \<Rightarrow> nat set \<Rightarrow> ((nat \<times> nat \<times> nat) list \<times> residency) option" where
  "plan_swaps r l c k excl = (case r_cache r of
     Some c0 \<Rightarrow> plan_swaps_cached r c0 l c k excl
   | None \<Rightarrow>
      (let hot = (\<lambda>e. e \<in> set (r_sets r l));
           want = take (r_n r) (sort_by (want_order c hot) [0..<r_experts r]);
           incoming = filter (\<lambda>e. \<not> hot e) want;
           out_slots = sort_by (\<lambda>a b. ord_then (cmp (c ! snd a) (c ! snd b)) (cmp (snd a) (snd b))) (leavers (r_sets r l) want excl)
       in if length c < r_experts r \<and> 1 < r_experts r then None else Some (pair_up k out_slots incoming, r)))"

section \<open>Swapping\<close>

definition exchange :: "spot \<Rightarrow> spot \<Rightarrow> memory \<Rightarrow> memory" where
  "exchange a b m = m(a := m b, b := m a)"

definition swap_sets :: "residency \<Rightarrow> nat \<Rightarrow> nat \<Rightarrow> nat \<Rightarrow> residency" where
  "swap_sets r l hs new_id = r\<lparr>r_sets := (r_sets r)(l := (r_sets r l)[hs := new_id])\<rparr>"

text \<open>The exact tier: the incoming expert's pinned slot takes the evicted expert's bytes.\<close>

definition move_cold :: "residency \<Rightarrow> nat \<Rightarrow> nat \<Rightarrow> nat \<Rightarrow> nat \<Rightarrow> residency" where
  "move_cold r l new_id evict cs = r\<lparr>r_cold_index := (r_cold_index r)(l := (r_cold_index r l)(new_id := None, evict := Some cs))\<rparr>"

definition swap_in :: "nat \<Rightarrow> nat \<times> nat \<times> nat \<Rightarrow> residency \<times> memory \<Rightarrow> (residency \<times> memory) option" where
  "swap_in l t rm = (case (t, rm) of ((hs, evict, new_id), (r, m)) \<Rightarrow>
     (case r_cold_index r l new_id of
        None \<Rightarrow> None
      | Some cs \<Rightarrow> if \<not> r_low_bit r
          then Some (swap_sets (move_cold r l new_id evict cs) l hs new_id, exchange (Hot l hs) (Cold l cs) m)
          else Some (swap_sets r l hs new_id, m(Hot l hs := m (Cold l cs)))))"

definition swap_in_bundled :: "nat \<Rightarrow> nat \<times> nat \<times> nat \<Rightarrow> residency \<times> (spot \<times> spot) list \<Rightarrow> (residency \<times> (spot \<times> spot) list) option" where
  "swap_in_bundled l t rp = (case (t, rp) of ((hs, evict, new_id), (r, pairs)) \<Rightarrow>
     if r_low_bit r then None
     else (case r_cold_index r l new_id of
        None \<Rightarrow> None
      | Some cs \<Rightarrow> Some (swap_sets (move_cold r l new_id evict cs) l hs new_id, pairs @ [(Hot l hs, Cold l cs)])))"

text \<open>One launch exchanges all pairs at the same time; every thread reads its two spots before it writes them.\<close>

definition swap_pairs_launch :: "(spot \<times> spot) list \<Rightarrow> memory \<Rightarrow> memory" where
  "swap_pairs_launch pairs m = (\<lambda>x. case map_of (pairs @ map prod.swap pairs) x of Some y \<Rightarrow> m y | None \<Rightarrow> m x)"

fun fold_opt :: "('a \<Rightarrow> 'b \<Rightarrow> 'b option) \<Rightarrow> 'a list \<Rightarrow> 'b \<Rightarrow> 'b option" where
  "fold_opt f [] s = Some s"
| "fold_opt f (x # xs) s = (case f x s of None \<Rightarrow> None | Some s1 \<Rightarrow> fold_opt f xs s1)"

section \<open>Pointer table and bitmap\<close>

definition bitmap_words :: "nat \<Rightarrow> nat" where
  "bitmap_words es = (es + 31) div 32"

definition set_bit32 :: "nat \<Rightarrow> u32 list \<Rightarrow> u32 list" where
  "set_bit32 ix words = words[ix div 32 := (words ! (ix div 32)) OR push_bit (ix mod 32) 1]"

text \<open>Cold records first, then the hot residents over the top. A pointer that is not written stays zero (None).\<close>

definition fill_layer_table :: "residency \<Rightarrow> nat \<Rightarrow> (nat \<Rightarrow> spot option) \<times> u32 list" where
  "fill_layer_table r l = foldl (\<lambda>(tbl, words) (hs, ix). if ix = EMPTY then (tbl, words) else (tbl(ix \<mapsto> Hot l hs), set_bit32 ix words))
     (\<lambda>ix. map_option (Cold l) (r_cold_index r l ix), replicate (bitmap_words (r_experts r)) 0) (enumerate 0 (r_sets r l))"

section \<open>The two-phase swap of the stream trickle\<close>

text \<open>A copy is (destination, source).\<close>

definition swap_stream_a :: "residency \<Rightarrow> nat \<Rightarrow> nat \<Rightarrow> nat \<Rightarrow> (pending_swap \<times> (spot \<times> spot) \<times> residency) option" where
  "swap_stream_a r l evict_slot new_id =
    (if r_low_bit r \<or> r_spare_free r l = [] then None
     else (let spare = last (r_spare_free r l); r1 = r\<lparr>r_spare_free := (r_spare_free r)(l := butlast (r_spare_free r l))\<rparr> in
       case r_cold_index r1 l new_id of
         None \<Rightarrow> None
       | Some cs \<Rightarrow>
          if \<not> evict_slot < length (r_sets r1 l) \<or> r_sets r1 l ! evict_slot = EMPTY then None
          else Some (\<lparr>p_layer = l, p_evict_slot = evict_slot, p_evict = r_sets r1 l ! evict_slot, p_new = new_id, p_cs = cs, p_spare = spare\<rparr>,
            (Hot l spare, Cold l cs), r1)))"

definition swap_commit_a :: "pending_swap \<Rightarrow> residency \<Rightarrow> residency" where
  "swap_commit_a p r = (let l = p_layer p in
     r\<lparr>r_cold_index := (r_cold_index r)(l := (r_cold_index r l)(p_new p := None)),
       r_sets := (r_sets r)(l := (r_sets r l)[p_spare p := p_new p])\<rparr>)"

definition swap_stream_b :: "pending_swap \<Rightarrow> spot \<times> spot" where
  "swap_stream_b p = (Cold (p_layer p) (p_cs p), Hot (p_layer p) (p_evict_slot p))"

definition swap_commit_b :: "pending_swap \<Rightarrow> residency \<Rightarrow> residency" where
  "swap_commit_b p r = (let l = p_layer p in
     r\<lparr>r_cold_index := (r_cold_index r)(l := (r_cold_index r l)(p_evict p \<mapsto> p_cs p)),
       r_sets := (r_sets r)(l := (r_sets r l)[p_evict_slot p := EMPTY]),
       r_spare_free := (r_spare_free r)(l := r_spare_free r l @ [p_evict_slot p])\<rparr>)"

end
