(* ===== verification/ResidencyPlan.thy ===== *)
theory ResidencyPlan
  imports Residency
begin

text \<open>
  What the residency keeps and what its plans promise: the layer invariant (every expert is
  resident or pinned, never both; spare slots are empty), the safety of the triples both
  planners hand out, and the exchange that executes them, one at a time or in one launch.
\<close>

section \<open>Sorting\<close>

lemma distinct_insert_by [simp]: "distinct (insert_by c x xs) \<longleftrightarrow> x \<notin> set xs \<and> distinct xs"
  by (induction xs) auto

lemma distinct_sort_by [simp]: "distinct (sort_by c xs) = distinct xs"
proof -
  have "set (foldr (insert_by c) xs []) = set xs \<and> (distinct (foldr (insert_by c) xs []) = distinct xs)"
    by (induction xs) auto
  then show ?thesis by (simp add: sort_by_def)
qed

lemma sort_by_cong:
  assumes "\<And>a b. a \<in> set xs \<Longrightarrow> b \<in> set xs \<Longrightarrow> c a b = d a b"
  shows "sort_by c xs = sort_by d xs"
proof -
  have ins: "insert_by c x ys = insert_by d x ys" if "x \<in> set xs" "set ys \<subseteq> set xs" for x ys
    using that assms by (induction ys) auto
  have "foldr (insert_by c) ys [] = foldr (insert_by d) ys [] \<and> set (foldr (insert_by d) ys []) = set ys" if "set ys \<subseteq> set xs" for ys
    using that by (induction ys) (auto simp: ins)
  then show ?thesis by (simp add: sort_by_def)
qed

lemma sorted_insert_cmp:
  assumes trans: "\<And>a b d. c a b \<noteq> Greater \<Longrightarrow> c b d \<noteq> Greater \<Longrightarrow> c a d \<noteq> Greater"
    and asym: "\<And>a b. c a b = Greater \<Longrightarrow> c b a \<noteq> Greater"
  shows "sorted_wrt (\<lambda>a b. c a b \<noteq> Greater) xs \<Longrightarrow> sorted_wrt (\<lambda>a b. c a b \<noteq> Greater) (insert_by c x xs)"
proof (induction xs)
  case (Cons y ys)
  then show ?case using asym [of x y] trans [of x y] by auto
qed simp

lemma sorted_sort_by:
  assumes "\<And>a b d. c a b \<noteq> Greater \<Longrightarrow> c b d \<noteq> Greater \<Longrightarrow> c a d \<noteq> Greater"
    and "\<And>a b. c a b = Greater \<Longrightarrow> c b a \<noteq> Greater"
  shows "sorted_wrt (\<lambda>a b. c a b \<noteq> Greater) (sort_by c xs)"
proof -
  have "sorted_wrt (\<lambda>a b. c a b \<noteq> Greater) (foldr (insert_by c) xs [])"
  proof (induction xs)
    case (Cons x xs)
    then show ?case using sorted_insert_cmp [of c, OF assms] by simp
  qed simp
  then show ?thesis by (simp add: sort_by_def)
qed

text \<open>A sorted list cut after \<open>n\<close> elements: nothing left out comes before anything kept.\<close>

lemma sorted_take_drop:
  assumes "sorted_wrt R xs" and "a \<in> set (take n xs)" and "b \<in> set xs" and "b \<notin> set (take n xs)"
  shows "R a b"
proof -
  have "sorted_wrt R (take n xs @ drop n xs)" using assms(1) by simp
  moreover have "b \<in> set (drop n xs)"
    using assms(3,4) by (metis Un_iff append_take_drop_id set_append)
  ultimately show ?thesis using assms(2) by (auto simp only: sorted_wrt_append)
qed

section \<open>The layer invariant\<close>

definition residents :: "residency \<Rightarrow> nat \<Rightarrow> nat set" where
  "residents r l = set (r_sets r l) - {EMPTY}"

definition slots_ok :: "residency \<Rightarrow> nat \<Rightarrow> bool" where
  "slots_ok r l \<longleftrightarrow> length (r_sets r l) = r_stride r
     \<and> (\<forall>s < r_stride r. r_sets r l ! s \<noteq> EMPTY \<longrightarrow> r_sets r l ! s < r_experts r)
     \<and> (\<forall>s < r_stride r. \<forall>t < r_stride r. r_sets r l ! s = r_sets r l ! t \<longrightarrow> r_sets r l ! s \<noteq> EMPTY \<longrightarrow> s = t)"

text \<open>On the exact tier an expert has a pinned slot exactly when it is not resident; the full
  low-bit tier pins every expert. No two experts share a slot.\<close>

definition cold_ok :: "residency \<Rightarrow> nat \<Rightarrow> bool" where
  "cold_ok r l \<longleftrightarrow> dom (r_cold_index r l) = {..<r_experts r} - (if r_low_bit r then {} else residents r l) \<and> inj_on (r_cold_index r l) (dom (r_cold_index r l))"

definition layer_ok :: "residency \<Rightarrow> nat \<Rightarrow> bool" where
  "layer_ok r l \<longleftrightarrow> r_experts r \<le> EMPTY \<and> slots_ok r l \<and> cold_ok r l"

text \<open>The cache attached to a residency: its shape is the residency's, its own invariant holds.\<close>

definition cache_fits :: "residency \<Rightarrow> bool" where
  "cache_fits r \<longleftrightarrow> (\<forall>c. r_cache r = Some c \<longrightarrow> cache_inv c \<and> layers c = r_layers r \<and> experts c = r_experts r)"

lemma slot_resident: "slots_ok r l \<Longrightarrow> s < r_stride r \<Longrightarrow> r_sets r l ! s \<noteq> EMPTY \<Longrightarrow> r_sets r l ! s \<in> residents r l"
  by (auto simp: slots_ok_def residents_def)

lemma slots_unique:
  assumes "slots_ok r l" and "s < length (r_sets r l)" and "t < length (r_sets r l)" and "r_sets r l ! s = r_sets r l ! t"
    and "r_sets r l ! s \<noteq> EMPTY"
  shows "s = t"
proof -
  have "s < r_stride r" "t < r_stride r" using assms(1-3) by (auto simp: slots_ok_def)
  then show ?thesis using assms(1,4,5) unfolding slots_ok_def by blast
qed

lemma residents_bound: "slots_ok r l \<Longrightarrow> residents r l \<subseteq> {..<r_experts r}"
  by (auto simp: slots_ok_def residents_def in_set_conv_nth)

lemma resident_not_cold: "cold_ok r l \<Longrightarrow> \<not> r_low_bit r \<Longrightarrow> e \<in> residents r l \<Longrightarrow> r_cold_index r l e = None"
  by (auto simp: cold_ok_def domIff)

lemma cold_bound: "cold_ok r l \<Longrightarrow> r_cold_index r l e = Some cs \<Longrightarrow> e < r_experts r"
proof -
  assume c: "cold_ok r l" and "r_cold_index r l e = Some cs"
  then have "e \<in> dom (r_cold_index r l)" by blast
  then show "e < r_experts r" using c by (simp only: cold_ok_def) blast
qed

lemma in_sets_resident: "e < r_experts r \<Longrightarrow> r_experts r \<le> EMPTY \<Longrightarrow> e \<in> set (r_sets r l) \<longleftrightarrow> e \<in> residents r l"
  by (auto simp: residents_def)

section \<open>What a plan promises\<close>

text \<open>At most \<open>k\<close> triples (0: no bound): distinct slots outside \<open>excl\<close>, each with its resident;
  distinct absent experts, each with a pinned slot.\<close>

definition plan_ok :: "residency \<Rightarrow> nat \<Rightarrow> nat \<Rightarrow> nat set \<Rightarrow> (nat \<times> nat \<times> nat) list \<Rightarrow> bool" where
  "plan_ok r l k excl p \<longleftrightarrow> (k = 0 \<or> length p \<le> k) \<and> distinct (map fst p) \<and> distinct (map (snd \<circ> snd) p)
     \<and> (\<forall>(s, v, e) \<in> set p. s < length (r_sets r l) \<and> r_sets r l ! s = v \<and> v \<noteq> EMPTY \<and> s \<notin> excl
          \<and> e \<in> dom (r_cold_index r l) \<and> e \<notin> residents r l)"

lemma plan_ok_item:
  assumes "plan_ok r l k excl p" and "(s, v, e) \<in> set p"
  shows "s < length (r_sets r l)" and "r_sets r l ! s = v" and "v \<noteq> EMPTY" and "s \<notin> excl" and "e \<in> dom (r_cold_index r l)"
    and "e \<notin> residents r l"
  using assms unfolding plan_ok_def by blast+

lemma plan_ok_distinct:
  assumes "plan_ok r l k excl p"
  shows "distinct (map fst p)" and "distinct (map (snd \<circ> snd) p)" and "k = 0 \<or> length p \<le> k"
  using assms unfolding plan_ok_def by blast+

lemma leavers_slots:
  "(s, v) \<in> set (leavers sets want excl) \<Longrightarrow> s < length sets \<and> sets ! s = v \<and> v \<noteq> EMPTY \<and> s \<notin> excl \<and> v \<notin> set want"
  by (auto simp: leavers_def in_set_enumerate_eq)

lemma distinct_leavers: "distinct (leavers sets want excl)" "distinct (map fst (leavers sets want excl))"
proof -
  show "distinct (map fst (leavers sets want excl))"
    unfolding leavers_def by (rule distinct_map_filter) simp
  then show "distinct (leavers sets want excl)" by (simp add: distinct_map)
qed

lemma pair_up_slots: "map fst (pair_up k outs inc) = take (length (pair_up k outs inc)) (map fst outs)"
  by (rule nth_equalityI) (auto simp: pair_up_def Let_def)

lemma pair_up_incoming: "map (snd \<circ> snd) (pair_up k outs inc) = take (length (pair_up k outs inc)) inc"
  by (rule nth_equalityI) (auto simp: pair_up_def Let_def)

lemma length_pair_up: "length (pair_up k outs inc) = min (if k = 0 then length inc else min (length inc) k) (length outs)"
  by (simp add: pair_up_def Let_def)

lemma pair_up_in: "(s, v, e) \<in> set (pair_up k outs inc) \<Longrightarrow> (s, v) \<in> set outs \<and> e \<in> set inc"
  by (auto simp: pair_up_def Let_def split: if_splits)

lemma plan_ok_pair_up:
  assumes outs: "set outs \<subseteq> set (leavers (r_sets r l) want excl)" "distinct outs"
    and inc: "distinct inc" "set inc \<subseteq> dom (r_cold_index r l) - residents r l"
  shows "plan_ok r l k excl (pair_up k outs inc)"
proof -
  have "inj_on fst (set outs)"
    using inj_on_subset [OF _ outs(1)] distinct_leavers(2) by (auto simp: distinct_map)
  then have "distinct (map fst outs)" using outs(2) by (simp add: distinct_map)
  then have "distinct (map fst (pair_up k outs inc))" "distinct (map (snd \<circ> snd) (pair_up k outs inc))"
    unfolding pair_up_slots pair_up_incoming using inc(1) by (auto intro: distinct_take)
  moreover have "k = 0 \<or> length (pair_up k outs inc) \<le> k" by (auto simp: length_pair_up)
  moreover have "s < length (r_sets r l) \<and> r_sets r l ! s = v \<and> v \<noteq> EMPTY \<and> s \<notin> excl \<and> e \<in> dom (r_cold_index r l)
      \<and> e \<notin> residents r l"
    if "(s, v, e) \<in> set (pair_up k outs inc)" for s v e
    using pair_up_in [OF that] outs(1) inc(2) leavers_slots by blast
  ultimately show ?thesis unfolding plan_ok_def by blast
qed

lemma plan_swaps_cached_ok:
  assumes c0: "cache_inv c0" "layers c0 = r_layers r" "experts c0 = r_experts r" and l: "l < r_layers r" and c: "length c = r_experts r"
  shows "\<exists>p ca. plan_swaps_cached r c0 l c k excl = Some (p, r\<lparr>r_cache := Some ca\<rparr>) \<and> plan_ok r l k excl p
    \<and> cache_inv ca \<and> cfg ca = cfg c0"
proof -
  obtain ca where ca: "observe_counts c0 l c = Some ca" "cache_inv ca" "cfg ca = cfg c0"
    using observe_counts_ok [of c0 l c] assms by auto
  have "plan_ok r l k excl (pair_up k (sort_by f (leavers (r_sets r l) (vram_set ca l) excl))
      (sort_by g (filter (\<lambda>e. e \<notin> set (r_sets r l) \<and> r_cold_index r l e \<noteq> None) (vram_set ca l))))" for f g
    by (intro plan_ok_pair_up [where want = "vram_set ca l"]) (auto simp: distinct_leavers vram_set_def residents_def)
  with ca show ?thesis unfolding plan_swaps_cached_def Let_def by auto
qed

lemma plan_swaps_ok:
  assumes r: "layer_ok r l" "cache_fits r" and l: "l < r_layers r" and c: "length c = r_experts r"
  shows "\<exists>p ca. plan_swaps r l c k excl = Some (p, r\<lparr>r_cache := ca\<rparr>) \<and> plan_ok r l k excl p \<and> cache_fits (r\<lparr>r_cache := ca\<rparr>)"
proof (cases "r_cache r")
  case None
  then have r0: "r\<lparr>r_cache := None\<rparr> = r" by simp
  let ?w = "take (r_n r) (sort_by (want_order c (\<lambda>e. e \<in> set (r_sets r l))) [0..<r_experts r])"
  have w: "set ?w \<subseteq> {..<r_experts r}" by (auto dest!: in_set_takeD)
  have "distinct ?w" by simp
  moreover have "set (filter (\<lambda>e. e \<notin> set (r_sets r l)) ?w) \<subseteq> dom (r_cold_index r l) - residents r l"
  proof
    fix e assume "e \<in> set (filter (\<lambda>e. e \<notin> set (r_sets r l)) ?w)"
    then have "e < r_experts r" "e \<notin> residents r l" using w by (auto simp: residents_def)
    then show "e \<in> dom (r_cold_index r l) - residents r l" using r(1) by (auto simp: layer_ok_def cold_ok_def)
  qed
  ultimately have "plan_ok r l k excl (pair_up k (sort_by f (leavers (r_sets r l) ?w excl)) (filter (\<lambda>e. e \<notin> set (r_sets r l)) ?w))" for f
    by (intro plan_ok_pair_up [where want = ?w]) (simp_all only: set_sort_by distinct_sort_by distinct_leavers distinct_filter order_refl)
  then obtain p where "plan_swaps r l c k excl = Some (p, r)" "plan_ok r l k excl p"
    using None c unfolding plan_swaps_def Let_def by auto
  then have "plan_swaps r l c k excl = Some (p, r\<lparr>r_cache := None\<rparr>) \<and> plan_ok r l k excl p \<and> cache_fits (r\<lparr>r_cache := None\<rparr>)"
    using r(2) unfolding r0 by blast
  then show ?thesis by blast
next
  case (Some c0)
  then have "cache_inv c0" "layers c0 = r_layers r" "experts c0 = r_experts r" using r(2) by (auto simp: cache_fits_def)
  from plan_swaps_cached_ok [OF this l c] Some this show ?thesis
    by (force simp: plan_swaps_def cache_fits_def cfg_eq)
qed

section \<open>The hottest experts\<close>

lemma want_order_iff: "want_order c hot a b \<noteq> Greater \<longleftrightarrow>
    c ! b < c ! a \<or> c ! a = c ! b \<and> (hot a \<and> \<not> hot b \<or> hot a = hot b \<and> a \<le> b)"
  by (cases "hot a"; cases "hot b") (auto simp: want_order_def ord_then_Greater ord_then_def)

lemma want_sorted: "sorted_wrt (\<lambda>a b. want_order c hot a b \<noteq> Greater) (sort_by (want_order c hot) xs)"
proof (rule sorted_sort_by)
  fix a b d assume "want_order c hot a b \<noteq> Greater" "want_order c hot b d \<noteq> Greater"
  then show "want_order c hot a d \<noteq> Greater" unfolding want_order_iff by auto
next
  fix a b assume "want_order c hot a b = Greater"
  then have "\<not> want_order c hot a b \<noteq> Greater" by simp
  then show "want_order c hot b a \<noteq> Greater" unfolding want_order_iff by auto
qed

lemma pair_up_outs: "map (fst \<circ> snd) (pair_up k outs inc) = take (length (pair_up k outs inc)) (map snd outs)"
  by (rule nth_equalityI) (auto simp: pair_up_def Let_def)

lemma leavers_out:
  assumes "slots_ok r l"
  shows "set (map snd (leavers (r_sets r l) want {})) = residents r l - set want" and "distinct (map snd (leavers (r_sets r l) want {}))"
proof -
  show "set (map snd (leavers (r_sets r l) want {})) = residents r l - set want"
  proof (rule set_eqI)
    fix v
    have "v \<in> set (map snd (leavers (r_sets r l) want {})) \<longleftrightarrow> (\<exists>s. (s, v) \<in> set (leavers (r_sets r l) want {}))" by force
    also have "\<dots> \<longleftrightarrow> (\<exists>s < length (r_sets r l). r_sets r l ! s = v) \<and> v \<noteq> EMPTY \<and> v \<notin> set want"
      by (auto simp: leavers_def in_set_enumerate_eq)
    also have "\<dots> \<longleftrightarrow> v \<in> residents r l - set want" by (auto simp: residents_def in_set_conv_nth)
    finally show "v \<in> set (map snd (leavers (r_sets r l) want {})) \<longleftrightarrow> v \<in> residents r l - set want" .
  qed
  have "inj_on snd (set (leavers (r_sets r l) want {}))"
  proof (rule inj_onI)
    fix x y assume "x \<in> set (leavers (r_sets r l) want {})" "y \<in> set (leavers (r_sets r l) want {})" "snd x = snd y"
    moreover obtain s v t where "x = (s, v)" "y = (t, v)" using \<open>snd x = snd y\<close> by (cases x, cases y) auto
    ultimately show "x = y" using leavers_slots slots_unique [OF assms] by metis
  qed
  then show "distinct (map snd (leavers (r_sets r l) want {}))" by (simp add: distinct_map distinct_leavers)
qed

lemma plan_hottest:
  assumes r: "layer_ok r l" and c: "r_cache r = None" and n: "card (residents r l) = r_n r" and ne: "r_n r \<le> r_experts r"
    and p: "plan_swaps r l cnt 0 {} = Some (p, r)"
  shows "residents r l - fst ` snd ` set p \<union> snd ` snd ` set p
    = set (take (r_n r) (sort_by (want_order cnt (\<lambda>e. e \<in> residents r l)) [0..<r_experts r]))"
proof -
  have so: "slots_ok r l" and ex: "r_experts r \<le> EMPTY" using r by (auto simp: layer_ok_def)
  let ?hot = "\<lambda>e. e \<in> set (r_sets r l)"
  let ?w = "take (r_n r) (sort_by (want_order cnt ?hot) [0..<r_experts r])"
  let ?inc = "filter (\<lambda>e. \<not> ?hot e) ?w"
  have small: "set ?w \<subseteq> {..<r_experts r}" by (auto dest!: in_set_takeD)
  then have inc: "set ?inc = set ?w - residents r l" using ex by (auto simp: residents_def)
  obtain f where pp: "p = pair_up 0 (sort_by f (leavers (r_sets r l) ?w {})) ?inc"
    using p c unfolding plan_swaps_def Let_def by (auto split: if_splits)
  let ?outs = "sort_by f (leavers (r_sets r l) ?w {})"
  have cw: "card (set ?w) = r_n r" using ne by (simp add: distinct_card del: set_take_subset)
  have fin: "finite (residents r l)" by (simp add: residents_def)
  have "length ?inc = card (set ?w - residents r l)" unfolding inc [symmetric] by (rule distinct_card [symmetric]) simp
  moreover have "length ?outs = card (residents r l - set ?w)"
    using distinct_card [OF leavers_out(2) [OF so, of ?w]] leavers_out(1) [OF so, of ?w] by simp
  moreover have "card (set ?w - residents r l) = card (residents r l - set ?w)"
    using cw n fin by (metis Int_commute List.finite_set card_Diff_subset_Int finite_Int)
  ultimately have len: "length ?inc = length ?outs" "length p = length ?inc" by (simp_all add: pp length_pair_up)
  have "snd ` snd ` set p = set (map (snd \<circ> snd) p)" by (simp add: image_comp)
  also have "\<dots> = set ?inc" using pair_up_incoming [of 0 ?outs ?inc] len unfolding pp [symmetric] by simp
  finally have ins: "snd ` snd ` set p = set ?w - residents r l" using inc by simp
  have "fst ` snd ` set p = set (map (fst \<circ> snd) p)" by (simp add: image_comp)
  also have "\<dots> = set (map snd ?outs)" using pair_up_outs [of 0 ?outs ?inc] len unfolding pp [symmetric] by simp
  also have "\<dots> = residents r l - set ?w" using leavers_out(1) [OF so, of ?w] by simp
  finally have "residents r l - fst ` snd ` set p \<union> snd ` snd ` set p = set ?w" using ins by auto
  moreover have "sort_by (want_order cnt ?hot) [0..<r_experts r] = sort_by (want_order cnt (\<lambda>e. e \<in> residents r l)) [0..<r_experts r]"
    by (rule sort_by_cong) (use ex in \<open>auto simp: want_order_def residents_def\<close>)
  ultimately show ?thesis by simp
qed

text \<open>Of the experts in and out of the new set: none left out was selected more often, and a
  resident was given up only for an expert selected strictly more often.\<close>

lemma hottest_ranked:
  assumes "a \<in> set (take n (sort_by (want_order c hot) [0..<es]))" and "b < es" and "b \<notin> set (take n (sort_by (want_order c hot) [0..<es]))"
  shows "c ! b \<le> c ! a" and "hot b \<Longrightarrow> \<not> hot a \<Longrightarrow> c ! b < c ! a"
proof -
  have "want_order c hot a b \<noteq> Greater"
    using sorted_take_drop [OF want_sorted assms(1)] assms(2,3) by auto
  then show "c ! b \<le> c ! a" "hot b \<Longrightarrow> \<not> hot a \<Longrightarrow> c ! b < c ! a" by (auto simp: want_order_iff)
qed

end
