(* ===== verification/ResidencySwap.thy ===== *)
theory ResidencySwap
  imports ResidencyPlan
begin

text \<open>
  Executing a plan: one exchange keeps the layer invariant and the bytes where the tables say,
  a whole plan of either planner never panics, and the bundled launch leaves the state and the
  memory of the exchanges done one after the other.
\<close>

section \<open>Where the bytes are\<close>

definition bytes_ok :: "residency \<Rightarrow> nat \<Rightarrow> memory \<Rightarrow> bool" where
  "bytes_ok r l m \<longleftrightarrow> (\<forall>s < length (r_sets r l). r_sets r l ! s \<noteq> EMPTY \<longrightarrow> m (Hot l s) = r_sets r l ! s)
     \<and> (\<forall>e cs. r_cold_index r l e = Some cs \<longrightarrow> m (Cold l cs) = e)"

text \<open>What a swap of layer \<open>l\<close> leaves alone.\<close>

definition same_but :: "nat \<Rightarrow> residency \<Rightarrow> residency \<Rightarrow> bool" where
  "same_but l r r' \<longleftrightarrow> r_layers r' = r_layers r \<and> r_experts r' = r_experts r \<and> r_n r' = r_n r \<and> r_stride r' = r_stride r
     \<and> r_spare_free r' = r_spare_free r \<and> r_low_bit r' = r_low_bit r \<and> r_full r' = r_full r \<and> r_cache r' = r_cache r
     \<and> (\<forall>x. x \<noteq> l \<longrightarrow> r_sets r' x = r_sets r x \<and> r_cold_index r' x = r_cold_index r x)"

lemma same_but_refl [simp]: "same_but l r r"
  by (simp add: same_but_def)

lemma same_but_trans: "same_but l r r' \<Longrightarrow> same_but l r' r'' \<Longrightarrow> same_but l r r''"
  by (simp add: same_but_def)

lemma same_but_layer: "same_but l r r' \<Longrightarrow> x \<noteq> l \<Longrightarrow> layer_ok r' x = layer_ok r x"
  by (simp add: same_but_def layer_ok_def slots_ok_def cold_ok_def residents_def)

lemma same_but_plan: "same_but l r r' \<Longrightarrow> x \<noteq> l \<Longrightarrow> plan_ok r' x k excl p = plan_ok r x k excl p"
  by (simp add: same_but_def plan_ok_def residents_def)

section \<open>One swap\<close>

lemma set_update_unique:
  assumes "s < length xs" and "\<And>t. t < length xs \<Longrightarrow> xs ! t = xs ! s \<Longrightarrow> t = s"
  shows "set (xs[s := e]) = insert e (set xs - {xs ! s})"
proof (rule set_eqI)
  fix x
  show "x \<in> set (xs[s := e]) \<longleftrightarrow> x \<in> insert e (set xs - {xs ! s})"
  proof (cases "x = e")
    case False
    then have "x \<in> set (xs[s := e]) \<longleftrightarrow> (\<exists>i < length xs. i \<noteq> s \<and> xs ! i = x)"
      unfolding in_set_conv_nth by (metis assms(1) length_list_update nth_list_update)
    also have "\<dots> \<longleftrightarrow> x \<in> set xs - {xs ! s}" using assms by (auto simp: in_set_conv_nth)
    finally show ?thesis using False by simp
  qed (use assms set_update_memI in fastforce)
qed

lemma residents_update:
  assumes "slots_ok r l" and "s < r_stride r" and "r_sets r l ! s = v" and "v \<noteq> EMPTY" and "e \<noteq> EMPTY"
  shows "set ((r_sets r l)[s := e]) - {EMPTY} = insert e (residents r l - {v})"
proof -
  have "set ((r_sets r l)[s := e]) = insert e (set (r_sets r l) - {r_sets r l ! s})"
    using assms by (intro set_update_unique) (auto simp: slots_ok_def)
  with assms show ?thesis by (auto simp: residents_def)
qed

lemma slots_ok_update:
  assumes r: "slots_ok r l" and s: "s < r_stride r" and e: "e < r_experts r" "e \<notin> residents r l" "r_experts r \<le> EMPTY"
  shows "slots_ok (swap_sets r l s e) l"
proof -
  have "r_sets r l ! t \<noteq> e" if "t < r_stride r" for t
    using e r that slot_resident [OF r that] by (cases "r_sets r l ! t = EMPTY") auto
  then show ?thesis using r s e unfolding slots_ok_def swap_sets_def by (auto simp: nth_list_update)
qed

lemma inj_on_move:
  assumes "inj_on c (dom c)" and "c e = Some cs" and "c v = None"
  shows "inj_on (c(e := None, v \<mapsto> cs)) (dom (c(e := None, v \<mapsto> cs)))"
  using assms unfolding inj_on_def by (auto simp: domIff)

lemma dom_move:
  assumes "c e = Some cs" and "c v = None"
  shows "dom (c(e := None, v \<mapsto> cs)) = insert v (dom c - {e})"
  using assms by auto

definition swap_result :: "residency \<Rightarrow> nat \<Rightarrow> nat \<Rightarrow> nat \<Rightarrow> nat \<Rightarrow> nat \<Rightarrow> residency" where
  "swap_result r l s v e cs = swap_sets (if r_low_bit r then r else move_cold r l e v cs) l s e"

lemma swap_result_sets:
  "r_sets (swap_result r l s v e cs) l = (r_sets r l)[s := e]" "same_but l r (swap_result r l s v e cs)"
  "r_cold_index (swap_result r l s v e cs) l =
     (if r_low_bit r then r_cold_index r l else (r_cold_index r l)(e := None, v \<mapsto> cs))"
  by (auto simp: swap_result_def swap_sets_def move_cold_def same_but_def)

lemma swap_result_ok:
  assumes r: "layer_ok r l" and s: "s < length (r_sets r l)" and v: "r_sets r l ! s = v" "v \<noteq> EMPTY"
    and e: "r_cold_index r l e = Some cs" "e \<notin> residents r l"
  shows "layer_ok (swap_result r l s v e cs) l" "residents (swap_result r l s v e cs) l = insert e (residents r l - {v})"
proof -
  let ?r = "swap_result r l s v e cs"
  have so: "slots_ok r l" and co: "cold_ok r l" and ex: "r_experts r \<le> EMPTY" using r by (auto simp: layer_ok_def)
  have st: "s < r_stride r" using so s by (simp add: slots_ok_def)
  have vr: "v \<in> residents r l" using slot_resident [OF so st] v by simp
  have ee: "e < r_experts r" using co e(1) by (auto simp: cold_ok_def dom_def)
  then have en: "e \<noteq> EMPTY" using ex by auto
  show res: "residents ?r l = insert e (residents r l - {v})"
    using residents_update [OF so st v en] by (simp add: residents_def swap_result_sets)
  have "slots_ok ?r l"
  proof -
    have "slots_ok ?r l = slots_ok (swap_sets r l s e) l"
      by (simp add: swap_result_def slots_ok_def swap_sets_def move_cold_def)
    then show ?thesis using slots_ok_update [OF so st ee e(2) ex] by simp
  qed
  moreover have "cold_ok ?r l"
  proof (cases "r_low_bit r")
    case True
    then have "r_cold_index ?r l = r_cold_index r l" "r_experts ?r = r_experts r" "r_low_bit ?r"
      using swap_result_sets(2) [of l r s v e cs] by (auto simp: swap_result_sets(3) same_but_def)
    then have "cold_ok ?r l = cold_ok r l" using True by (simp only: cold_ok_def if_True)
    then show ?thesis using co by simp
  next
    case False
    have vn: "r_cold_index r l v = None" by (rule resident_not_cold [OF co False vr])
    have "v < r_experts r" using residents_bound [OF so] vr by auto
    then have "insert v (({..<r_experts r} - residents r l) - {e}) = {..<r_experts r} - insert e (residents r l - {v})"
      using e(2) vr by auto
    then have "dom (r_cold_index ?r l) = {..<r_experts r} - residents ?r l"
      using co False unfolding swap_result_sets(3) res by (simp add: dom_move [of "r_cold_index r l", OF e(1) vn] cold_ok_def)
    moreover have "inj_on (r_cold_index ?r l) (dom (r_cold_index ?r l))"
      unfolding swap_result_sets(3) if_not_P [OF False] using co inj_on_move [of "r_cold_index r l", OF _ e(1) vn]
      unfolding cold_ok_def by blast
    moreover have "r_experts ?r = r_experts r" "\<not> r_low_bit ?r"
      using False swap_result_sets(2) [of l r s v e cs] by (auto simp: same_but_def)
    ultimately show ?thesis by (simp only: cold_ok_def if_False simp_thms)
  qed
  ultimately show "layer_ok ?r l" using ex swap_result_sets(2) [of l r s v e cs] by (simp add: layer_ok_def same_but_def)
qed

lemma swap_in_result:
  "r_cold_index r l e = Some cs \<Longrightarrow> swap_in l (s, v, e) (r, m) =
    Some (swap_result r l s v e cs, if r_low_bit r then m(Hot l s := m (Cold l cs)) else exchange (Hot l s) (Cold l cs) m)"
  by (simp add: swap_in_def swap_result_def)

lemma plan_ok_tail:
  assumes p: "plan_ok r l k excl ((s, v, e) # p)" and r: "layer_ok r l" and e: "r_cold_index r l e = Some cs"
  shows "plan_ok (swap_result r l s v e cs) l k excl p"
proof -
  let ?r = "swap_result r l s v e cs"
  have "(s, v, e) \<in> set ((s, v, e) # p)" by simp
  note hd = plan_ok_item [OF p this]
  note res = swap_result_ok(2) [OF r hd(1,2,3) e hd(6)]
  have "t < length (r_sets ?r l) \<and> r_sets ?r l ! t = w \<and> w \<noteq> EMPTY \<and> t \<notin> excl \<and> f \<in> dom (r_cold_index ?r l) \<and> f \<notin> residents ?r l"
    if "(t, w, f) \<in> set p" for t w f
  proof -
    have "t \<noteq> s" "f \<noteq> e" using plan_ok_distinct(1,2) [OF p] that by (force simp: comp_def)+
    moreover have "(t, w, f) \<in> set ((s, v, e) # p)" using that by simp
    note plan_ok_item [OF p this]
    ultimately show ?thesis unfolding res swap_result_sets(1,3) by auto
  qed
  moreover have "k = 0 \<or> length p \<le> k" "distinct (map fst p)" "distinct (map (snd \<circ> snd) p)"
    using plan_ok_distinct [OF p] by auto
  ultimately show ?thesis unfolding plan_ok_def by blast
qed

lemma bytes_ok_swap:
  assumes m: "bytes_ok r l m" and r: "layer_ok r l" and s: "s < length (r_sets r l)" and v: "r_sets r l ! s = v" "v \<noteq> EMPTY"
    and e: "r_cold_index r l e = Some cs"
  shows "bytes_ok (swap_result r l s v e cs) l (if r_low_bit r then m(Hot l s := m (Cold l cs)) else exchange (Hot l s) (Cold l cs) m)"
proof -
  have "inj_on (r_cold_index r l) (dom (r_cold_index r l))" using r by (auto simp: layer_ok_def cold_ok_def)
  then have "f = e" if "r_cold_index r l f = Some cs" for f
    using that e by (auto simp: inj_on_def domIff)
  then have other: "f \<noteq> e \<Longrightarrow> r_cold_index r l f \<noteq> Some cs" for f by blast
  have here: "m (Hot l s) = v" "m (Cold l cs) = e" using m s v e by (simp_all add: bytes_ok_def)
  have hot: "m (Hot l t) = r_sets r l ! t" if "t < length (r_sets r l)" "r_sets r l ! t \<noteq> EMPTY" for t
    using m that by (simp add: bytes_ok_def)
  have cold: "m (Cold l d) = f" if "r_cold_index r l f = Some d" for f d
    using m that by (simp add: bytes_ok_def)
  show ?thesis
  proof (cases "r_low_bit r")
    case True
    then show ?thesis using here hot cold by (simp add: bytes_ok_def swap_result_sets(1,3) nth_list_update)
  next
    case False
    have "exchange (Hot l s) (Cold l cs) m (Cold l d) = f" if "((r_cold_index r l)(e := None, v \<mapsto> cs)) f = Some d" for f d
      using that here cold other by (auto simp: exchange_def split: if_splits)
    then show ?thesis using False here hot
      by (simp add: bytes_ok_def swap_result_sets(1,3) nth_list_update exchange_def)
  qed
qed

text \<open>What running a whole plan gives.\<close>

definition ran :: "nat \<Rightarrow> (nat \<times> nat \<times> nat) list \<Rightarrow> residency \<Rightarrow> memory \<Rightarrow> residency \<Rightarrow> memory \<Rightarrow> bool" where
  "ran l p r m r' m' \<longleftrightarrow> same_but l r r' \<and> layer_ok r' l \<and> (bytes_ok r l m \<longrightarrow> bytes_ok r' l m')
     \<and> residents r' l = residents r l - fst ` snd ` set p \<union> snd ` snd ` set p
     \<and> (\<forall>x. (\<forall>s. x \<noteq> Hot l s) \<longrightarrow> (\<forall>s. x \<noteq> Cold l s) \<longrightarrow> m' x = m x)
     \<and> (\<forall>s < r_stride r. r_sets r' l ! s = EMPTY \<longleftrightarrow> r_sets r l ! s = EMPTY)"

lemma run_plan:
  "layer_ok r l \<Longrightarrow> plan_ok r l k excl p \<Longrightarrow> \<exists>r' m'. fold_opt (swap_in l) p (r, m) = Some (r', m') \<and> ran l p r m r' m'"
proof (induction p arbitrary: r m)
  case Nil
  then show ?case by (simp add: ran_def)
next
  case (Cons t p)
  obtain s v e where t: "t = (s, v, e)" by (cases t) auto
  have "(s, v, e) \<in> set (t # p)" by (simp add: t)
  note hd = plan_ok_item [OF Cons.prems(2) this]
  from hd(5) obtain cs where e: "r_cold_index r l e = Some cs" by auto
  let ?r = "swap_result r l s v e cs"
  let ?m = "if r_low_bit r then m(Hot l s := m (Cold l cs)) else exchange (Hot l s) (Cold l cs) m"
  note one = swap_result_ok [OF Cons.prems(1) hd(1,2,3) e hd(6)] swap_result_sets(2) [of l r s v e cs]
  obtain r' m' where run: "fold_opt (swap_in l) p (?r, ?m) = Some (r', m')" and ran: "ran l p ?r ?m r' m'"
    using Cons.IH [OF one(1) plan_ok_tail [OF Cons.prems(2) [unfolded t] Cons.prems(1) e]] by blast
  have in_p: "e \<notin> fst ` snd ` set p"
  proof
    assume "e \<in> fst ` snd ` set p"
    then obtain s' e' where i: "(s', e, e') \<in> set (t # p)" by force
    have "slots_ok r l" "length (r_sets r l) = r_stride r" using Cons.prems(1) by (auto simp: layer_ok_def slots_ok_def)
    then have "e \<in> residents r l" using slot_resident [of r l s'] plan_ok_item [OF Cons.prems(2) i] by auto
    then show False using hd(6) by simp
  qed
  have "residents r' l = residents r l - fst ` snd ` set (t # p) \<union> snd ` snd ` set (t # p)"
    using ran in_p by (auto simp: ran_def one(2) t)
  moreover have "bytes_ok r l m \<longrightarrow> bytes_ok r' l m'"
    using ran bytes_ok_swap [OF _ Cons.prems(1) hd(1,2,3) e] by (simp add: ran_def)
  moreover have "m' x = m x" if "\<forall>s. x \<noteq> Hot l s" "\<forall>s. x \<noteq> Cold l s" for x
    using ran that by (simp add: ran_def exchange_def)
  moreover have "r_sets r' l ! x = EMPTY \<longleftrightarrow> r_sets r l ! x = EMPTY" if "x < r_stride r" for x
  proof -
    have "e \<noteq> EMPTY" using Cons.prems(1) cold_bound [OF _ e] by (auto simp: layer_ok_def)
    moreover have "r_stride ?r = r_stride r" using one(3) by (simp add: same_but_def)
    ultimately show ?thesis
      using ran that hd(1,2,3) by (auto simp: ran_def swap_result_sets(1) nth_list_update)
  qed
  ultimately show ?case
    using run ran same_but_trans [OF one(3)] by (auto simp: t swap_in_result [OF e] ran_def)
qed

section \<open>The bundled launch\<close>

definition spots :: "(spot \<times> spot) list \<Rightarrow> spot set" where
  "spots ps = fst ` set ps \<union> snd ` set ps"

definition apart :: "(spot \<times> spot) list \<Rightarrow> bool" where
  "apart ps \<longleftrightarrow> distinct (map fst ps @ map snd ps)"

lemma spots_iff: "x \<in> spots ps \<longleftrightarrow> (\<exists>y. (x, y) \<in> set ps \<or> (y, x) \<in> set ps)"
  by (force simp: spots_def)

lemma launch_untouched: "x \<notin> spots ps \<Longrightarrow> swap_pairs_launch ps m x = m x"
proof -
  assume "x \<notin> spots ps"
  then have "map_of (ps @ map prod.swap ps) x = None" by (force simp: map_of_eq_None_iff spots_iff)
  then show ?thesis by (simp only: swap_pairs_launch_def option.case)
qed

lemma launch_pair:
  assumes "apart ps" and "(a, b) \<in> set ps"
  shows "swap_pairs_launch ps m a = m b" and "swap_pairs_launch ps m b = m a"
proof -
  have d: "distinct (map fst (ps @ map prod.swap ps))" using assms(1) by (simp add: apart_def comp_def)
  have "map_of (ps @ map prod.swap ps) a = Some b" "map_of (ps @ map prod.swap ps) b = Some a"
    using assms(2) by (auto intro!: map_of_is_SomeI [OF d] simp del: map_of_append)
  then show "swap_pairs_launch ps m a = m b" "swap_pairs_launch ps m b = m a"
    by (simp_all only: swap_pairs_launch_def option.case)
qed

lemma launch_snoc:
  assumes ps: "apart (ps @ [(a, b)])"
  shows "swap_pairs_launch (ps @ [(a, b)]) m = exchange a b (swap_pairs_launch ps m)"
proof
  fix x
  have ab: "a \<notin> spots ps" "b \<notin> spots ps" and ap: "apart ps" using ps by (auto simp: apart_def spots_def)
  consider "x = a" | "x = b" | y where "(x, y) \<in> set ps \<or> (y, x) \<in> set ps" | "x \<noteq> a" "x \<noteq> b" "x \<notin> spots ps"
    by (auto simp: spots_iff)
  then show "swap_pairs_launch (ps @ [(a, b)]) m x = exchange a b (swap_pairs_launch ps m) x"
  proof cases
    case 3
    then have "x \<noteq> a" "x \<noteq> b" using ab by (force simp: spots_def)+
    moreover have "swap_pairs_launch (ps @ [(a, b)]) m x = swap_pairs_launch ps m x"
      using 3 launch_pair [OF ps, of _ _ m] launch_pair [OF ap, of _ _ m] by auto
    ultimately show ?thesis by (simp add: exchange_def)
  next
    case 4
    then have "x \<notin> spots (ps @ [(a, b)])" by (auto simp: spots_def)
    then show ?thesis using 4 by (simp add: exchange_def launch_untouched)
  qed (use launch_pair [OF ps, of a b m] launch_untouched [of _ ps m] ab in \<open>auto simp: exchange_def\<close>)
qed

text \<open>The pairs collected so far do not meet the spots of the triples still to run.\<close>

definition clear_of :: "residency \<Rightarrow> nat \<Rightarrow> (spot \<times> spot) list \<Rightarrow> (nat \<times> nat \<times> nat) list \<Rightarrow> bool" where
  "clear_of r l ps p \<longleftrightarrow> (\<forall>(s, v, e) \<in> set p. Hot l s \<notin> spots ps \<and> (\<forall>cs. r_cold_index r l e = Some cs \<longrightarrow> Cold l cs \<notin> spots ps))"

lemma clear_of_step:
  assumes cl: "clear_of r l ps ((s, v, e) # p)" and p: "plan_ok r l k excl ((s, v, e) # p)" and r: "layer_ok r l" "\<not> r_low_bit r"
    and e: "r_cold_index r l e = Some cs"
  shows "clear_of (swap_result r l s v e cs) l (ps @ [(Hot l s, Cold l cs)]) p"
proof -
  have "Hot l t \<notin> spots (ps @ [(Hot l s, Cold l cs)]) \<and>
      (\<forall>d. ((r_cold_index r l)(e := None, v \<mapsto> cs)) f = Some d \<longrightarrow> Cold l d \<notin> spots (ps @ [(Hot l s, Cold l cs)]))"
    if i: "(t, w, f) \<in> set p" for t w f
  proof -
    have "(t, w, f) \<in> set ((s, v, e) # p)" "(s, v, e) \<in> set ((s, v, e) # p)" using i by auto
    note it = plan_ok_item [OF p this(1)] and h = plan_ok_item [OF p this(2)]
    have "t \<noteq> s" "f \<noteq> e" using plan_ok_distinct(1,2) [OF p] i by (force simp: comp_def)+
    moreover have "f \<noteq> v" using it(6) h slot_resident [of r l s] r(1) by (auto simp: layer_ok_def slots_ok_def)
    moreover have "r_cold_index r l f \<noteq> Some cs"
    proof
      assume "r_cold_index r l f = Some cs"
      then have "f = e" using r(1) e unfolding layer_ok_def cold_ok_def by (metis domI inj_onD)
      then show False using \<open>f \<noteq> e\<close> by simp
    qed
    moreover have "Hot l t \<notin> spots ps" "\<forall>d. r_cold_index r l f = Some d \<longrightarrow> Cold l d \<notin> spots ps"
      using cl i unfolding clear_of_def by auto
    ultimately show ?thesis by (auto simp: spots_def)
  qed
  then show ?thesis using r(2) unfolding clear_of_def swap_result_sets(3) by auto
qed

lemma run_bundled:
  "layer_ok r l \<Longrightarrow> \<not> r_low_bit r \<Longrightarrow> plan_ok r l k excl p \<Longrightarrow> apart ps \<Longrightarrow> clear_of r l ps p \<Longrightarrow>
    \<exists>r' qs. fold_opt (swap_in_bundled l) p (r, ps) = Some (r', ps @ qs) \<and> apart (ps @ qs)
      \<and> (\<forall>x \<in> spots qs. (\<exists>s. x = Hot l s) \<or> (\<exists>s. x = Cold l s))
      \<and> fold_opt (swap_in l) p (r, swap_pairs_launch ps m) = Some (r', swap_pairs_launch (ps @ qs) m)"
proof (induction p arbitrary: r ps)
  case Nil
  then show ?case by (auto simp: spots_def intro!: exI [of _ "[]"])
next
  case (Cons t p)
  obtain s v e where t: "t = (s, v, e)" by (cases t) auto
  have "(s, v, e) \<in> set (t # p)" by (simp add: t)
  note hd = plan_ok_item [OF Cons.prems(3) this]
  from hd(5) obtain cs where e: "r_cold_index r l e = Some cs" by auto
  let ?r = "swap_result r l s v e cs" and ?ps = "ps @ [(Hot l s, Cold l cs)]"
  have ap: "apart ?ps" using Cons.prems(4,5) e by (auto simp: apart_def clear_of_def t spots_def)
  have lb: "\<not> r_low_bit ?r" using Cons.prems(2) swap_result_sets(2) [of l r s v e cs] by (simp add: same_but_def)
  obtain r' qs where ih: "fold_opt (swap_in_bundled l) p (?r, ?ps) = Some (r', ?ps @ qs)" "apart (?ps @ qs)"
      "\<forall>x \<in> spots qs. (\<exists>s. x = Hot l s) \<or> (\<exists>s. x = Cold l s)"
      "fold_opt (swap_in l) p (?r, swap_pairs_launch ?ps m) = Some (r', swap_pairs_launch (?ps @ qs) m)"
    using Cons.IH [OF swap_result_ok(1) [OF Cons.prems(1) hd(1,2,3) e hd(6)] lb
        plan_ok_tail [OF Cons.prems(3) [unfolded t] Cons.prems(1) e] ap
        clear_of_step [OF Cons.prems(5) [unfolded t] Cons.prems(3) [unfolded t] Cons.prems(1,2) e]] by blast
  have "swap_in_bundled l t (r, ps) = Some (?r, ?ps)"
    using Cons.prems(2) e by (simp add: t swap_in_bundled_def swap_result_def)
  moreover have "swap_in l t (r, swap_pairs_launch ps m) = Some (?r, swap_pairs_launch ?ps m)"
    using Cons.prems(2) by (simp add: t swap_in_result [OF e] launch_snoc [OF ap])
  moreover have "\<forall>x \<in> spots ((Hot l s, Cold l cs) # qs). (\<exists>s. x = Hot l s) \<or> (\<exists>s. x = Cold l s)"
    using ih(3) by (auto simp: spots_def)
  ultimately show ?case using ih by (intro exI [of _ r'] exI [of _ "(Hot l s, Cold l cs) # qs"]) simp
qed

end
