(* ===== verification/Trickle.thy ===== *)
theory Trickle
  imports ResidencySwap
begin

text \<open>
  The engine's side of the expert residency (\<open>engine/src/gen.rs\<close>): the re-cut between two
  requests (\<open>adapt_hot_set\<close>), the decode-time tick with its bundled form (\<open>adapt_tick\<close>) and
  the stream trickle (\<open>trickle_tick\<close>, \<open>trickle_drain_after_launch\<close>, \<open>trickle_drain\<close>).

  \<open>h_mem\<close> is the memory as far as the copies have landed; \<open>h_flight\<close> are the copies issued on
  the side stream that nobody has waited for, (destination, source) in stream order. Waiting
  for the side stream's event lands them. Until then a destination holds nothing a reader may
  use. The selection counts of a tick, cumulative or decayed, are an argument.
\<close>

section \<open>State\<close>

record trickle =
  in_a :: "pending_swap list"
  in_b :: "pending_swap list"
  swaps :: nat

record trickle_batch =
  to_b :: "pending_swap list"
  new_a :: "(nat \<times> nat \<times> nat) list"

type_synonym table = "(nat \<Rightarrow> spot option) \<times> u32 list"

record hot_engine =
  h_res :: residency
  h_mem :: memory
  h_tables :: "nat \<Rightarrow> table"
  h_flight :: "(spot \<times> spot) list"
  h_trickle :: "trickle option"
  h_pend :: "trickle_batch option"
  h_defer :: bool

definition land :: "(spot \<times> spot) list \<Rightarrow> memory \<Rightarrow> memory" where
  "land fl m = foldl (\<lambda>m (d, s). m(d := m s)) m fl"

definition wait_side :: "hot_engine \<Rightarrow> hot_engine" where
  "wait_side s = s\<lparr>h_mem := land (h_flight s) (h_mem s), h_flight := []\<rparr>"

definition flush_layer_tables :: "nat \<Rightarrow> hot_engine \<Rightarrow> hot_engine" where
  "flush_layer_tables l s = s\<lparr>h_tables := (h_tables s)(l := fill_layer_table (h_res s) l)\<rparr>"

definition flush_all_tables :: "hot_engine \<Rightarrow> hot_engine" where
  "flush_all_tables s = s\<lparr>h_tables := (\<lambda>l. if l < r_layers (h_res s) then fill_layer_table (h_res s) l else h_tables s l)\<rparr>"

text \<open>What the boot leaves: the cache attached when a policy is set, the slabs loaded, the tables uploaded.\<close>

definition boot_hot :: "policy option \<Rightarrow> bool \<Rightarrow> memory \<Rightarrow> residency \<Rightarrow> hot_engine option" where
  "boot_hot po defer m r = map_option (\<lambda>r. \<lparr>h_res = r, h_mem = load_slabs r m, h_tables = fill_layer_table r, h_flight = [],
       h_trickle = None, h_pend = None, h_defer = defer\<rparr>)
     (case po of None \<Rightarrow> Some r | Some p \<Rightarrow> (case attach_cache p r of Some (Inr r') \<Rightarrow> Some r' | _ \<Rightarrow> None))"

section \<open>The re-cut\<close>

fun adapt_layers :: "(nat \<Rightarrow> nat list) \<Rightarrow> nat \<Rightarrow> nat list \<Rightarrow> nat \<times> hot_engine \<Rightarrow> (nat \<times> hot_engine) option" where
  "adapt_layers cnt k [] st = Some st"
| "adapt_layers cnt k (l # ls) (t, s) = (case plan_swaps (h_res s) l (cnt l) k {} of
     None \<Rightarrow> None
   | Some (p, r1) \<Rightarrow> (case fold_opt (swap_in l) p (r1, h_mem s) of
       None \<Rightarrow> None
     | Some (r2, m2) \<Rightarrow>
        (let s1 = s\<lparr>h_res := r2, h_mem := m2\<rparr> in
         adapt_layers cnt k ls (t + length p, if p = [] then s1 else flush_layer_tables l s1))))"

definition adapt_hot_set :: "(nat \<Rightarrow> nat list) \<Rightarrow> nat \<Rightarrow> hot_engine \<Rightarrow> (nat \<times> hot_engine) option" where
  "adapt_hot_set cnt k s =
    (if r_experts (h_res s) = 0 then Some (0, s)
     else if r_low_bit (h_res s) \<and> \<not> r_full (h_res s) then Some (0, s)
     else if (case h_trickle s of None \<Rightarrow> False | Some tr \<Rightarrow> in_a tr \<noteq> [] \<or> in_b tr \<noteq> []) then None
     else adapt_layers cnt k [0..<r_layers (h_res s)] (0, s))"

text \<open>The bundled form collects the pairs of all layers and the layers to flush.\<close>

fun bundle_layers :: "(nat \<Rightarrow> nat list) \<Rightarrow> nat \<Rightarrow> nat list \<Rightarrow> nat \<times> residency \<times> (spot \<times> spot) list \<times> nat list
    \<Rightarrow> (nat \<times> residency \<times> (spot \<times> spot) list \<times> nat list) option" where
  "bundle_layers cnt k [] st = Some st"
| "bundle_layers cnt k (l # ls) (t, r, pairs, touched) = (case plan_swaps r l (cnt l) k {} of
     None \<Rightarrow> None
   | Some (p, r1) \<Rightarrow> (case fold_opt (swap_in_bundled l) p (r1, pairs) of
       None \<Rightarrow> None
     | Some (r2, pairs2) \<Rightarrow> bundle_layers cnt k ls (t + length p, r2, pairs2, if p = [] then touched else touched @ [l])))"

definition adapt_tick :: "bool \<Rightarrow> bool \<Rightarrow> (nat \<Rightarrow> nat list) \<Rightarrow> nat \<Rightarrow> hot_engine \<Rightarrow> (nat \<times> hot_engine) option" where
  "adapt_tick window bundle_on cnt k s =
    (if r_experts (h_res s) = 0 then Some (0, s)
     else if \<not> window then adapt_hot_set cnt k s
     else if r_low_bit (h_res s) \<and> \<not> r_full (h_res s) then Some (0, s)
     else if bundle_on \<and> \<not> r_low_bit (h_res s) then
       (case bundle_layers cnt k [0..<r_layers (h_res s)] (0, h_res s, [], []) of
          None \<Rightarrow> None
        | Some (t, r, pairs, touched) \<Rightarrow>
           Some (t, foldl (\<lambda>s l. flush_layer_tables l s) (s\<lparr>h_res := r, h_mem := swap_pairs_launch pairs (h_mem s)\<rparr>) touched))
     else adapt_layers cnt k [0..<r_layers (h_res s)] (0, s))"

section \<open>The stream trickle\<close>

text \<open>Phase B of the batch, then phase A, on the side stream.\<close>

definition start_a :: "nat \<times> nat \<times> nat \<Rightarrow> residency \<times> pending_swap list \<times> (spot \<times> spot) list
    \<Rightarrow> (residency \<times> pending_swap list \<times> (spot \<times> spot) list) option" where
  "start_a t st = (case (t, st) of ((l, evict_slot, new_id), (r, ps, fl)) \<Rightarrow>
     (case swap_stream_a r l evict_slot new_id of
        None \<Rightarrow> None
      | Some (p, cp, r1) \<Rightarrow> Some (r1, ps @ [p], fl @ [cp])))"

definition issue :: "trickle_batch \<Rightarrow> trickle \<Rightarrow> hot_engine \<Rightarrow> hot_engine option" where
  "issue b tr s = (case fold_opt start_a (new_a b) (h_res s, in_a tr, h_flight s @ map swap_stream_b (to_b b)) of
     None \<Rightarrow> None
   | Some (r, ps, fl) \<Rightarrow> Some (s\<lparr>h_res := r, h_flight := fl, h_trickle := Some (tr\<lparr>in_a := ps, in_b := to_b b\<rparr>)\<rparr>))"

definition trickle_drain_after_launch :: "hot_engine \<Rightarrow> hot_engine option" where
  "trickle_drain_after_launch s = (case h_pend s of
     None \<Rightarrow> Some s
   | Some b \<Rightarrow> (case h_trickle s of None \<Rightarrow> None | Some tr \<Rightarrow> issue b tr (s\<lparr>h_pend := None\<rparr>)))"

fun plan_new :: "nat \<Rightarrow> (nat \<Rightarrow> nat list) \<Rightarrow> pending_swap list \<Rightarrow> nat list \<Rightarrow> residency \<Rightarrow> ((nat \<times> nat \<times> nat) list \<times> residency) option" where
  "plan_new m cnt tb [] r = Some ([], r)"
| "plan_new m cnt tb (l # ls) r =
    (let free = length (r_spare_free r l); k = (if m = 0 then free else min m free);
         excl = (\<Union>p \<in> set (filter (\<lambda>p. p_layer p = l) tb). {p_evict_slot p, p_spare p}) in
     if free = 0 then plan_new m cnt tb ls r
     else (case plan_swaps r l (cnt l) k excl of
         None \<Rightarrow> None
       | Some (p, r1) \<Rightarrow> (case plan_new m cnt tb ls r1 of
           None \<Rightarrow> None
         | Some (rest, r2) \<Rightarrow> Some (map (\<lambda>(s, _, e). (l, s, e)) p @ rest, r2))))"

text \<open>The commits of a tick: every phase B that landed, then every phase A.\<close>

definition commit_all :: "trickle \<Rightarrow> residency \<Rightarrow> residency" where
  "commit_all tr r = foldl (\<lambda>r p. swap_commit_a p r) (foldl (\<lambda>r p. swap_commit_b p r) r (in_b tr)) (in_a tr)"

definition flush_touched :: "nat list \<Rightarrow> hot_engine \<Rightarrow> hot_engine" where
  "flush_touched ls s = (if 8 \<le> length (remdups ls) then flush_all_tables s
     else foldl (\<lambda>s l. flush_layer_tables l s) s (remdups ls))"

definition trickle_tick :: "bool \<Rightarrow> nat \<Rightarrow> (nat \<Rightarrow> nat list) \<Rightarrow> hot_engine \<Rightarrow> (nat \<times> hot_engine) option" where
  "trickle_tick plan m cnt s0 =
    (if r_experts (h_res s0) = 0 then Some (0, s0)
     else if r_low_bit (h_res s0) \<or> r_stride (h_res s0) \<le> r_n (h_res s0) then None
     else (case trickle_drain_after_launch s0 of
        None \<Rightarrow> None
      | Some s \<Rightarrow>
         (let tr = (case h_trickle s of Some tr \<Rightarrow> tr | None \<Rightarrow> \<lparr>in_a = [], in_b = [], swaps = 0\<rparr>);
              s1 = (if in_a tr \<noteq> [] \<or> in_b tr \<noteq> [] then wait_side s else s);
              r1 = commit_all tr (h_res s1);
              tr1 = tr\<lparr>in_a := [], in_b := []\<rparr> in
          case (if plan then plan_new m cnt (in_a tr) [0..<r_layers r1] r1 else Some ([], r1)) of
            None \<Rightarrow> None
          | Some (na, r2) \<Rightarrow>
             (let s2 = flush_touched (map p_layer (in_b tr @ in_a tr)) (s1\<lparr>h_res := r2\<rparr>);
                  b = \<lparr>to_b = in_a tr, new_a = na\<rparr>; tr2 = tr1\<lparr>swaps := swaps tr1 + length na\<rparr> in
              if in_a tr = [] \<and> na = [] then Some (0, s2\<lparr>h_trickle := Some tr1\<rparr>)
              else if h_defer s2 then Some (length na, s2\<lparr>h_trickle := Some tr2, h_pend := Some b\<rparr>)
              else map_option (\<lambda>s3. (length na, s3)) (issue b tr2 s2)))))"

definition trickle_drain :: "(nat \<Rightarrow> nat list) \<Rightarrow> hot_engine \<Rightarrow> (nat \<times> hot_engine) option" where
  "trickle_drain cnt s0 = (case trickle_drain_after_launch s0 of
     None \<Rightarrow> None
   | Some s \<Rightarrow> (case h_trickle s of
       None \<Rightarrow> Some (0, s)
     | Some tr \<Rightarrow>
        if in_a tr = [] \<and> in_b tr = [] then Some (swaps tr, s)
        else Option.bind (trickle_tick False 0 cnt s) (\<lambda>(_, s1).
             Option.bind (trickle_drain_after_launch s1) (\<lambda>s2.
             Option.bind (trickle_tick False 0 cnt s2) (\<lambda>(_, s3).
             Option.bind (trickle_drain_after_launch s3) (\<lambda>s4.
               case h_trickle s4 of
                 None \<Rightarrow> Some (swaps tr, wait_side s4)
               | Some tr4 \<Rightarrow> if in_a tr4 = [] \<and> in_b tr4 = [] then Some (swaps tr, wait_side s4) else None))))))"

end
