(* ===== verification/TrickleInv.thy ===== *)
theory TrickleInv
  imports Trickle
begin

text \<open>
  The invariant of the swaps in flight. A swap whose phase A is out holds an empty slot nobody
  else uses; a swap between its two commits keeps both experts resident and owns the pinned
  slot its copy goes to, which no expert's index names. Each commit and each start of a phase
  keeps it.
\<close>

section \<open>The invariant\<close>

definition evict_at :: "pending_swap \<Rightarrow> nat \<times> nat" where "evict_at p = (p_layer p, p_evict_slot p)"
definition spare_at :: "pending_swap \<Rightarrow> nat \<times> nat" where "spare_at p = (p_layer p, p_spare p)"
definition new_at :: "pending_swap \<Rightarrow> nat \<times> nat" where "new_at p = (p_layer p, p_new p)"
definition cs_at :: "pending_swap \<Rightarrow> nat \<times> nat" where "cs_at p = (p_layer p, p_cs p)"

lemmas at_defs = evict_at_def spare_at_def new_at_def cs_at_def

text \<open>The slot a swap evicts from holds its expert.\<close>

definition evict_ok :: "residency \<Rightarrow> pending_swap \<Rightarrow> bool" where
  "evict_ok r p \<longleftrightarrow> p_layer p < r_layers r \<and> p_evict_slot p < r_stride r
     \<and> r_sets r (p_layer p) ! p_evict_slot p = p_evict p \<and> p_evict p \<noteq> EMPTY"

definition pend_a :: "residency \<Rightarrow> pending_swap \<Rightarrow> bool" where
  "pend_a r p \<longleftrightarrow> evict_ok r p \<and> r_cold_index r (p_layer p) (p_new p) = Some (p_cs p)
     \<and> p_spare p < r_stride r \<and> r_sets r (p_layer p) ! p_spare p = EMPTY \<and> p_spare p \<notin> set (r_spare_free r (p_layer p))"

definition pend_b :: "residency \<Rightarrow> pending_swap \<Rightarrow> bool" where
  "pend_b r p \<longleftrightarrow> evict_ok r p \<and> p_spare p < r_stride r \<and> r_sets r (p_layer p) ! p_spare p \<noteq> EMPTY
     \<and> (\<forall>e. r_cold_index r (p_layer p) e \<noteq> Some (p_cs p))"

definition in_layer :: "nat \<Rightarrow> pending_swap list \<Rightarrow> pending_swap list" where
  "in_layer l ps = filter (\<lambda>p. p_layer p = l) ps"

text \<open>The empty slots are the free spares and the slots phase A is filling; the spares add up.\<close>

definition spares_ok :: "residency \<Rightarrow> pending_swap list \<Rightarrow> pending_swap list \<Rightarrow> nat \<Rightarrow> bool" where
  "spares_ok r A B l \<longleftrightarrow> distinct (r_spare_free r l)
     \<and> {s. s < r_stride r \<and> r_sets r l ! s = EMPTY} = set (r_spare_free r l) \<union> p_spare ` set (in_layer l A)
     \<and> r_n r + length (r_spare_free r l) + length (in_layer l A) + length (in_layer l B) = r_stride r"

definition flow_inv :: "residency \<Rightarrow> pending_swap list \<Rightarrow> pending_swap list \<Rightarrow> bool" where
  "flow_inv r A B \<longleftrightarrow> \<not> r_low_bit r \<and> (\<forall>l < r_layers r. layer_ok r l) \<and> (\<forall>l < r_layers r. spares_ok r A B l)
     \<and> (\<forall>p \<in> set A. pend_a r p) \<and> (\<forall>p \<in> set B. pend_b r p)
     \<and> distinct (map evict_at (A @ B)) \<and> distinct (map new_at A) \<and> distinct (map spare_at A) \<and> distinct (map cs_at B)
     \<and> spare_at ` set B \<inter> evict_at ` set (A @ B) = {}"

lemma in_layer_simps [simp]:
  "in_layer l [] = []" "in_layer l (p # ps) = (if p_layer p = l then p # in_layer l ps else in_layer l ps)"
  "in_layer l (ps @ qs) = in_layer l ps @ in_layer l qs" "set (in_layer l ps) = {p \<in> set ps. p_layer p = l}"
  by (auto simp: in_layer_def)

section \<open>Commit B\<close>

lemma swap_commit_b_fields [simp]:
  "r_layers (swap_commit_b p r) = r_layers r" "r_experts (swap_commit_b p r) = r_experts r" "r_n (swap_commit_b p r) = r_n r"
  "r_stride (swap_commit_b p r) = r_stride r" "r_low_bit (swap_commit_b p r) = r_low_bit r" "r_full (swap_commit_b p r) = r_full r"
  "r_cache (swap_commit_b p r) = r_cache r"
  "r_sets (swap_commit_b p r) = (r_sets r)(p_layer p := (r_sets r (p_layer p))[p_evict_slot p := EMPTY])"
  "r_cold_index (swap_commit_b p r) = (r_cold_index r)(p_layer p := (r_cold_index r (p_layer p))(p_evict p \<mapsto> p_cs p))"
  "r_spare_free (swap_commit_b p r) = (r_spare_free r)(p_layer p := r_spare_free r (p_layer p) @ [p_evict_slot p])"
  by (simp_all add: swap_commit_b_def Let_def)

lemma swap_commit_a_fields [simp]:
  "r_layers (swap_commit_a p r) = r_layers r" "r_experts (swap_commit_a p r) = r_experts r" "r_n (swap_commit_a p r) = r_n r"
  "r_stride (swap_commit_a p r) = r_stride r" "r_low_bit (swap_commit_a p r) = r_low_bit r" "r_full (swap_commit_a p r) = r_full r"
  "r_cache (swap_commit_a p r) = r_cache r" "r_spare_free (swap_commit_a p r) = r_spare_free r"
  "r_sets (swap_commit_a p r) = (r_sets r)(p_layer p := (r_sets r (p_layer p))[p_spare p := p_new p])"
  "r_cold_index (swap_commit_a p r) = (r_cold_index r)(p_layer p := (r_cold_index r (p_layer p))(p_new p := None))"
  by (simp_all add: swap_commit_a_def Let_def)

text \<open>A layer only depends on its own entries.\<close>

lemma layer_ok_cong:
  "r_sets r' l = r_sets r l \<Longrightarrow> r_cold_index r' l = r_cold_index r l \<Longrightarrow> r_experts r' = r_experts r \<Longrightarrow> r_stride r' = r_stride r \<Longrightarrow>
    r_low_bit r' = r_low_bit r \<Longrightarrow> layer_ok r' l = layer_ok r l"
  by (simp add: layer_ok_def slots_ok_def cold_ok_def residents_def)

lemma residents_empty:
  assumes "slots_ok r l" and "s < r_stride r" and "r_sets r l ! s = v" and "v \<noteq> EMPTY"
  shows "set ((r_sets r l)[s := EMPTY]) - {EMPTY} = residents r l - {v}"
proof -
  have "set ((r_sets r l)[s := EMPTY]) = insert EMPTY (set (r_sets r l) - {r_sets r l ! s})"
    using assms by (intro set_update_unique) (auto simp: slots_ok_def)
  with assms show ?thesis by (auto simp: residents_def)
qed

lemma residents_fill:
  assumes "slots_ok r l" and "s < r_stride r" and "r_sets r l ! s = EMPTY" and "e \<noteq> EMPTY"
  shows "set ((r_sets r l)[s := e]) - {EMPTY} = insert e (residents r l)"
proof -
  have "set ((r_sets r l)[s := e]) = insert e {r_sets r l ! t |t. t < length (r_sets r l) \<and> t \<noteq> s}"
    using assms by (auto simp: slots_ok_def set_conv_nth nth_list_update)
  moreover have "{r_sets r l ! t |t. t < length (r_sets r l) \<and> t \<noteq> s} - {EMPTY} = residents r l"
    using assms by (auto simp: residents_def slots_ok_def set_conv_nth)
  ultimately show ?thesis using assms(4) by auto
qed

lemma inj_on_insert_fresh:
  assumes "inj_on c (dom c)" and "\<And>e. c e \<noteq> Some cs"
  shows "inj_on (c(v \<mapsto> cs)) (dom (c(v \<mapsto> cs)))"
  using assms by (auto simp: inj_on_def)

lemma inj_on_remove: "inj_on c (dom c) \<Longrightarrow> inj_on (c(v := None)) (dom (c(v := None)))"
  by (auto simp: inj_on_def)

lemma commit_b_layer:
  assumes r: "layer_ok r (p_layer p)" and lb: "\<not> r_low_bit r" and p: "pend_b r p"
  shows "layer_ok (swap_commit_b p r) (p_layer p)"
proof -
  let ?l = "p_layer p" and ?r = "swap_commit_b p r"
  have so: "slots_ok r ?l" and co: "cold_ok r ?l" and ex: "r_experts r \<le> EMPTY" using r by (auto simp: layer_ok_def)
  have ev: "p_evict_slot p < r_stride r" "r_sets r ?l ! p_evict_slot p = p_evict p" "p_evict p \<noteq> EMPTY"
    using p by (auto simp: pend_b_def evict_ok_def)
  have res: "residents ?r ?l = residents r ?l - {p_evict p}"
    using residents_empty [OF so ev] by (simp add: residents_def)
  have e: "p_evict p \<in> residents r ?l" using slot_resident [OF so ev(1)] ev by simp
  then have "p_evict p < r_experts r" using residents_bound [OF so] by auto
  have "slots_ok ?r ?l"
    using so ev(1) unfolding slots_ok_def by (auto simp: nth_list_update)
  moreover have "dom (r_cold_index ?r ?l) = {..<r_experts r} - residents ?r ?l"
    using co lb e \<open>p_evict p < r_experts r\<close> unfolding res by (auto simp: cold_ok_def)
  moreover have "inj_on (r_cold_index ?r ?l) (dom (r_cold_index ?r ?l))"
    unfolding swap_commit_b_fields fun_upd_same
    by (rule inj_on_insert_fresh) (use co p in \<open>unfold cold_ok_def pend_b_def, blast+\<close>)
  ultimately show ?thesis using ex lb by (simp add: layer_ok_def cold_ok_def)
qed

lemma commit_a_layer:
  assumes r: "layer_ok r (p_layer p)" and lb: "\<not> r_low_bit r" and p: "pend_a r p"
  shows "layer_ok (swap_commit_a p r) (p_layer p)" and "p_new p \<noteq> EMPTY" and "p_new p \<notin> residents r (p_layer p)"
proof -
  let ?l = "p_layer p" and ?r = "swap_commit_a p r"
  have so: "slots_ok r ?l" and co: "cold_ok r ?l" and ex: "r_experts r \<le> EMPTY" using r by (auto simp: layer_ok_def)
  have sp: "p_spare p < r_stride r" "r_sets r ?l ! p_spare p = EMPTY" using p by (auto simp: pend_a_def)
  have "p_new p \<in> dom (r_cold_index r ?l)" using p by (auto simp: pend_a_def)
  then have ne: "p_new p < r_experts r" and nr: "p_new p \<notin> residents r ?l" using co lb by (auto simp: cold_ok_def)
  show en: "p_new p \<noteq> EMPTY" and "p_new p \<notin> residents r ?l" using ne ex nr by auto
  have res: "residents ?r ?l = insert (p_new p) (residents r ?l)"
    using residents_fill [OF so sp en] by (simp add: residents_def)
  have "slots_ok ?r ?l = slots_ok (swap_sets r ?l (p_spare p) (p_new p)) ?l" by (simp add: slots_ok_def swap_sets_def)
  then have "slots_ok ?r ?l" using slots_ok_update [OF so sp(1) ne nr ex] by simp
  moreover have "dom (r_cold_index ?r ?l) = {..<r_experts r} - residents ?r ?l"
    using co lb unfolding res by (auto simp: cold_ok_def)
  moreover have "inj_on (r_cold_index ?r ?l) (dom (r_cold_index ?r ?l))"
    unfolding swap_commit_a_fields fun_upd_same by (rule inj_on_remove) (use co in \<open>unfold cold_ok_def, blast\<close>)
  ultimately show "layer_ok ?r ?l" using ex lb by (simp add: layer_ok_def cold_ok_def)
qed

lemma sets_length: "layer_ok r l \<Longrightarrow> length (r_sets r l) = r_stride r"
  by (simp add: layer_ok_def slots_ok_def)

lemma evict_resident: "layer_ok r (p_layer p) \<Longrightarrow> evict_ok r p \<Longrightarrow> p_evict p \<in> residents r (p_layer p)"
  using slot_resident [of r "p_layer p" "p_evict_slot p"] by (auto simp: layer_ok_def evict_ok_def)

lemma evict_not_cold: "layer_ok r (p_layer p) \<Longrightarrow> \<not> r_low_bit r \<Longrightarrow> evict_ok r p \<Longrightarrow> r_cold_index r (p_layer p) (p_evict p) = None"
  by (intro resident_not_cold evict_resident) (auto simp: layer_ok_def)

lemma spares_commit_b:
  assumes s: "spares_ok r A (p # B) l" and p: "pend_b r p" and r: "layer_ok r (p_layer p)"
  shows "spares_ok (swap_commit_b p r) A B l"
proof (cases "p_layer p = l")
  case True
  have ev: "p_evict_slot p < r_stride r" "r_sets r l ! p_evict_slot p \<noteq> EMPTY" using p True by (auto simp: pend_b_def evict_ok_def)
  have "{s. s < r_stride r \<and> (r_sets r l)[p_evict_slot p := EMPTY] ! s = EMPTY} = insert (p_evict_slot p) {s. s < r_stride r \<and> r_sets r l ! s = EMPTY}"
    using ev(1) sets_length [OF r] True by (auto simp: nth_list_update)
  moreover have "p_evict_slot p \<notin> set (r_spare_free r l)" using s ev unfolding spares_ok_def by blast
  ultimately show ?thesis using s True by (simp add: spares_ok_def)
qed (use s in \<open>auto simp: spares_ok_def\<close>)

lemma evict_ok_commit_b:
  assumes q: "evict_ok r q" and ne: "evict_at q \<noteq> evict_at p" and r: "layer_ok r (p_layer p)"
  shows "evict_ok (swap_commit_b p r) q"
  using q ne sets_length [OF r] by (auto simp: evict_ok_def at_defs nth_list_update)

lemma pend_a_commit_b:
  assumes q: "pend_a r q" and p: "pend_b r p" and ne: "evict_at q \<noteq> evict_at p" and r: "layer_ok r (p_layer p)" "\<not> r_low_bit r"
  shows "pend_a (swap_commit_b p r) q"
proof -
  have "evict_ok (swap_commit_b p r) q" using q by (intro evict_ok_commit_b [OF _ ne r(1)]) (simp add: pend_a_def)
  moreover have "r_cold_index r (p_layer p) (p_evict p) = None" using p by (intro evict_not_cold r) (simp add: pend_b_def)
  moreover have "p_spare q \<noteq> p_evict_slot p" if "p_layer q = p_layer p" using p q that by (auto simp: pend_a_def pend_b_def evict_ok_def)
  ultimately show ?thesis using q sets_length [OF r(1)] by (auto simp: pend_a_def nth_list_update)
qed

lemma pend_b_commit_b:
  assumes q: "pend_b r q" and p: "pend_b r p" and ne: "evict_at q \<noteq> evict_at p" "spare_at q \<noteq> evict_at p" "cs_at q \<noteq> cs_at p"
    and r: "layer_ok r (p_layer p)"
  shows "pend_b (swap_commit_b p r) q"
proof -
  have "evict_ok (swap_commit_b p r) q" using q by (intro evict_ok_commit_b [OF _ ne(1) r]) (simp add: pend_b_def)
  then show ?thesis using q ne sets_length [OF r] by (auto simp: pend_b_def at_defs nth_list_update)
qed

lemma flow_commit_b:
  assumes f: "flow_inv r A (p # B)"
  shows "flow_inv (swap_commit_b p r) A B"
proof -
  have lb: "\<not> r_low_bit r" and lay: "\<And>l. l < r_layers r \<Longrightarrow> layer_ok r l" and p: "pend_b r p"
    and A: "\<And>q. q \<in> set A \<Longrightarrow> pend_a r q" and B: "\<And>q. q \<in> set B \<Longrightarrow> pend_b r q"
    and sp: "\<And>l. l < r_layers r \<Longrightarrow> spares_ok r A (p # B) l"
    using f by (auto simp: flow_inv_def)
  have ne: "evict_at p \<notin> evict_at ` (set A \<union> set B)" "evict_at p \<notin> spare_at ` set B" "cs_at p \<notin> cs_at ` set B"
    using f by (auto simp: flow_inv_def)
  have pl: "p_layer p < r_layers r" using p by (simp add: pend_b_def evict_ok_def)
  have "layer_ok (swap_commit_b p r) l" if "l < r_layers r" for l
  proof (cases "l = p_layer p")
    case True
    then show ?thesis using commit_b_layer [OF lay [OF pl] lb p] by simp
  next
    case False
    then show ?thesis using lay [OF that] layer_ok_cong [of "swap_commit_b p r" l r] by simp
  qed
  moreover have "pend_a (swap_commit_b p r) q" if "q \<in> set A" for q
    using ne(1) that by (intro pend_a_commit_b [OF A [OF that] p _ lay [OF pl] lb]) (metis UnI1 imageI)
  moreover have "pend_b (swap_commit_b p r) q" if "q \<in> set B" for q
    using ne that by (intro pend_b_commit_b [OF B [OF that] p _ _ _ lay [OF pl]]) (metis UnI2 imageI)+
  moreover have "spares_ok (swap_commit_b p r) A B l" if "l < r_layers r" for l
    by (rule spares_commit_b [OF sp [OF that] p lay [OF pl]])
  ultimately show ?thesis using f by (auto simp: flow_inv_def)
qed

section \<open>Commit A\<close>

lemma spares_commit_a:
  assumes s: "spares_ok r (p # A) B l" and p: "pend_a r p" and r: "layer_ok r (p_layer p)" "\<not> r_low_bit r"
    and d: "spare_at p \<notin> spare_at ` set A"
  shows "spares_ok (swap_commit_a p r) A (B @ [p]) l"
proof (cases "p_layer p = l")
  case True
  have "{s. s < r_stride r \<and> (r_sets r l)[p_spare p := p_new p] ! s = EMPTY} = {s. s < r_stride r \<and> r_sets r l ! s = EMPTY} - {p_spare p}"
    using p commit_a_layer(2) [OF r p] sets_length [OF r(1)] True by (auto simp: nth_list_update pend_a_def)
  moreover have "p_spare p \<notin> p_spare ` {q \<in> set A. p_layer q = l}" using d True by (auto simp: spare_at_def image_iff)
  moreover have "p_spare p \<notin> set (r_spare_free r l)" using p True by (simp add: pend_a_def)
  ultimately show ?thesis using s True by (auto simp: spares_ok_def)
qed (use s in \<open>auto simp: spares_ok_def\<close>)

lemma evict_ok_commit_a:
  assumes q: "evict_ok r q" and p: "pend_a r p" and r: "layer_ok r (p_layer p)"
  shows "evict_ok (swap_commit_a p r) q"
  using q p sets_length [OF r] by (auto simp: evict_ok_def pend_a_def nth_list_update)

lemma pend_a_commit_a:
  assumes q: "pend_a r q" and p: "pend_a r p" and ne: "new_at q \<noteq> new_at p" "spare_at q \<noteq> spare_at p" and r: "layer_ok r (p_layer p)"
  shows "pend_a (swap_commit_a p r) q"
proof -
  have "evict_ok (swap_commit_a p r) q" using q by (intro evict_ok_commit_a [OF _ p r]) (simp add: pend_a_def)
  then show ?thesis using q ne sets_length [OF r] by (auto simp: pend_a_def at_defs nth_list_update)
qed

lemma pend_b_commit_a:
  assumes q: "pend_b r q" and p: "pend_a r p" and r: "layer_ok r (p_layer p)"
  shows "pend_b (swap_commit_a p r) q"
proof -
  have "evict_ok (swap_commit_a p r) q" using q by (intro evict_ok_commit_a [OF _ p r]) (simp add: pend_b_def)
  then show ?thesis using q p sets_length [OF r] by (auto simp: pend_b_def pend_a_def nth_list_update)
qed

lemma pend_b_committed:
  assumes p: "pend_a r p" and r: "layer_ok r (p_layer p)" "\<not> r_low_bit r"
  shows "pend_b (swap_commit_a p r) p"
proof -
  have "evict_ok (swap_commit_a p r) p" using p by (intro evict_ok_commit_a [OF _ p r(1)]) (simp add: pend_a_def)
  moreover have "r_cold_index r (p_layer p) e \<noteq> Some (p_cs p)" if "e \<noteq> p_new p" for e
  proof
    assume "r_cold_index r (p_layer p) e = Some (p_cs p)"
    moreover have "r_cold_index r (p_layer p) (p_new p) = Some (p_cs p)" using p by (simp add: pend_a_def)
    ultimately have "e = p_new p" using r(1) unfolding layer_ok_def cold_ok_def by (metis domI inj_onD)
    with that show False by simp
  qed
  ultimately show ?thesis using p commit_a_layer(2) [OF r p] sets_length [OF r(1)] by (auto simp: pend_b_def pend_a_def)
qed

lemma flow_commit_a:
  assumes f: "flow_inv r (p # A) B"
  shows "flow_inv (swap_commit_a p r) A (B @ [p])"
proof -
  have lb: "\<not> r_low_bit r" and lay: "\<And>l. l < r_layers r \<Longrightarrow> layer_ok r l" and p: "pend_a r p"
    and A: "\<And>q. q \<in> set A \<Longrightarrow> pend_a r q" and B: "\<And>q. q \<in> set B \<Longrightarrow> pend_b r q"
    and sp: "\<And>l. l < r_layers r \<Longrightarrow> spares_ok r (p # A) B l"
    using f by (auto simp: flow_inv_def)
  have ne: "new_at p \<notin> new_at ` set A" "spare_at p \<notin> spare_at ` set A" using f by (auto simp: flow_inv_def)
  have pl: "p_layer p < r_layers r" using p by (simp add: pend_a_def evict_ok_def)
  have "layer_ok (swap_commit_a p r) l" if "l < r_layers r" for l
  proof (cases "l = p_layer p")
    case True
    then show ?thesis using commit_a_layer(1) [OF lay [OF pl] lb p] by simp
  next
    case False
    then show ?thesis using lay [OF that] layer_ok_cong [of "swap_commit_a p r" l r] by simp
  qed
  moreover have "pend_a (swap_commit_a p r) q" if "q \<in> set A" for q
    using ne that by (intro pend_a_commit_a [OF A [OF that] p _ _ lay [OF pl]]) (metis imageI)+
  moreover have "pend_b (swap_commit_a p r) q" if "q \<in> set (B @ [p])" for q
    using that pend_b_commit_a [OF B p lay [OF pl]] pend_b_committed [OF p lay [OF pl] lb] by auto
  moreover have "spares_ok (swap_commit_a p r) A (B @ [p]) l" if "l < r_layers r" for l
    by (rule spares_commit_a [OF sp [OF that] p lay [OF pl] lb ne(2)])
  moreover have "cs_at p \<notin> cs_at ` set B" using B p by (auto simp: pend_a_def pend_b_def cs_at_def)
  moreover have "spare_at p \<notin> evict_at ` set (p # A @ B)" using A B p by (force simp: pend_a_def pend_b_def evict_ok_def at_defs)
  ultimately show ?thesis using f by (auto simp: flow_inv_def)
qed

section \<open>Starting phase A\<close>

definition start_ok :: "residency \<Rightarrow> pending_swap list \<Rightarrow> pending_swap list \<Rightarrow> nat \<Rightarrow> nat \<Rightarrow> nat \<Rightarrow> bool" where
  "start_ok r A B l s e \<longleftrightarrow> l < r_layers r \<and> s < r_stride r \<and> r_sets r l ! s \<noteq> EMPTY \<and> r_spare_free r l \<noteq> []
     \<and> (l, s) \<notin> evict_at ` set (A @ B) \<union> spare_at ` set B \<and> e \<in> dom (r_cold_index r l) \<and> (l, e) \<notin> new_at ` set A"

definition started :: "residency \<Rightarrow> nat \<Rightarrow> residency" where
  "started r l = r\<lparr>r_spare_free := (r_spare_free r)(l := butlast (r_spare_free r l))\<rparr>"

lemma started_fields [simp]:
  "r_layers (started r l) = r_layers r" "r_experts (started r l) = r_experts r" "r_n (started r l) = r_n r"
  "r_stride (started r l) = r_stride r" "r_low_bit (started r l) = r_low_bit r" "r_full (started r l) = r_full r"
  "r_cache (started r l) = r_cache r" "r_sets (started r l) = r_sets r" "r_cold_index (started r l) = r_cold_index r"
  "r_spare_free (started r l) = (r_spare_free r)(l := butlast (r_spare_free r l))"
  by (simp_all add: started_def)

lemma swap_stream_a_Some:
  assumes f: "flow_inv r A B" and s: "start_ok r A B l s e"
  shows "\<exists>p. swap_stream_a r l s e = Some (p, (Hot l (p_spare p), Cold l (p_cs p)), started r l) \<and> p_layer p = l \<and> p_evict_slot p = s
    \<and> p_evict p = r_sets r l ! s \<and> p_new p = e \<and> r_cold_index r l e = Some (p_cs p) \<and> p_spare p = last (r_spare_free r l)"
proof -
  obtain cs where "r_cold_index r l e = Some cs" using s by (auto simp: start_ok_def)
  moreover have "s < length (r_sets r l)" using f s sets_length [of r l] by (auto simp: flow_inv_def start_ok_def)
  ultimately show ?thesis
    using f s by (auto simp: swap_stream_a_def started_def flow_inv_def start_ok_def Let_def)
qed

lemma flow_start_a:
  assumes f: "flow_inv r A B" and s: "start_ok r A B l s e"
    and p: "p_layer p = l" "p_evict_slot p = s" "p_evict p = r_sets r l ! s" "p_new p = e" "r_cold_index r l e = Some (p_cs p)"
      "p_spare p = last (r_spare_free r l)"
  shows "flow_inv (started r l) (A @ [p]) B"
proof -
  have lb: "\<not> r_low_bit r" and lay: "\<And>m. m < r_layers r \<Longrightarrow> layer_ok r m"
    and A: "\<And>q. q \<in> set A \<Longrightarrow> pend_a r q" and B: "\<And>q. q \<in> set B \<Longrightarrow> pend_b r q"
    and sp: "\<And>m. m < r_layers r \<Longrightarrow> spares_ok r A B m"
    using f by (auto simp: flow_inv_def)
  have l: "l < r_layers r" "r_spare_free r l \<noteq> []" "s < r_stride r" "r_sets r l ! s \<noteq> EMPTY" using s by (auto simp: start_ok_def)
  obtain free where fr: "r_spare_free r l = free @ [p_spare p]" using l(2) p(6) by (metis append_butlast_last_id)
  have dfr: "p_spare p \<notin> set free" "distinct free" using sp [OF l(1)] by (auto simp: spares_ok_def fr)
  have e: "p_spare p \<in> {t. t < r_stride r \<and> r_sets r l ! t = EMPTY}"
  proof -
    have "{t. t < r_stride r \<and> r_sets r l ! t = EMPTY} = set (r_spare_free r l) \<union> p_spare ` set (in_layer l A)"
      using sp [OF l(1)] unfolding spares_ok_def by blast
    then show ?thesis unfolding fr by simp
  qed
  have "layer_ok (started r l) m" if "m < r_layers r" for m
    using lay [OF that] layer_ok_cong [of "started r l" m r] by simp
  moreover have "spares_ok (started r l) (A @ [p]) B m" if "m < r_layers r" for m
    using sp [OF that] p(1) dfr by (cases "m = l") (auto simp: spares_ok_def fr)
  moreover have "pend_a (started r l) q" if "q \<in> set (A @ [p])" for q
  proof (cases "q = p")
    case True
    then show ?thesis using p l e dfr by (auto simp: pend_a_def evict_ok_def fr)
  next
    case False
    then have "q \<in> set A" using that by simp
    then show ?thesis using A [of q] by (auto simp: pend_a_def evict_ok_def dest: in_set_butlastD)
  qed
  moreover have "pend_b (started r l) q" if "q \<in> set B" for q
    using B [OF that] by (simp add: pend_b_def evict_ok_def)
  moreover have "spare_at p \<notin> spare_at ` set A"
  proof
    assume "spare_at p \<in> spare_at ` set A"
    then obtain q where "q \<in> set A" "p_layer q = l" "p_spare q = p_spare p" using p(1) by (auto simp: spare_at_def)
    then show False using A [of q] by (simp add: pend_a_def fr)
  qed
  ultimately show ?thesis using f s p lb by (auto simp: flow_inv_def start_ok_def at_defs)
qed

section \<open>A batch waiting to be issued\<close>

definition starts_of :: "nat \<Rightarrow> (nat \<times> nat \<times> nat) list \<Rightarrow> (nat \<times> nat \<times> nat) list" where
  "starts_of l N = filter (\<lambda>t. fst t = l) N"

definition batch_ok :: "residency \<Rightarrow> pending_swap list \<Rightarrow> pending_swap list \<Rightarrow> (nat \<times> nat \<times> nat) list \<Rightarrow> bool" where
  "batch_ok r A B N \<longleftrightarrow> (\<forall>(l, s, e) \<in> set N. start_ok r A B l s e) \<and> distinct (map (\<lambda>(l, s, e). (l, s)) N)
     \<and> distinct (map (\<lambda>(l, s, e). (l, e)) N) \<and> (\<forall>l. length (starts_of l N) \<le> length (r_spare_free r l))"

lemma batch_ok_Cons:
  assumes b: "batch_ok r A B ((l, s, e) # N)"
    and p: "p_layer p = l" "p_evict_slot p = s" "p_new p = e"
  shows "batch_ok (started r l) (A @ [p]) B N"
proof -
  have n: "length (starts_of m N) \<le> length (r_spare_free (started r l) m)" for m
  proof -
    have "length (starts_of m ((l, s, e) # N)) \<le> length (r_spare_free r m)" using b by (simp add: batch_ok_def)
    then show ?thesis by (auto simp: starts_of_def)
  qed
  have "start_ok (started r l) (A @ [p]) B m t f" if i: "(m, t, f) \<in> set N" for m t f
  proof -
    have "start_ok r A B m t f" "(m, t) \<noteq> (l, s)" "(m, f) \<noteq> (l, e)" using b i by (force simp: batch_ok_def)+
    moreover have "(m, t, f) \<in> set (starts_of m N)" using i by (simp add: starts_of_def)
    then have "r_spare_free (started r l) m \<noteq> []" using n [of m] by (cases "starts_of m N") auto
    ultimately show ?thesis using p by (auto simp: start_ok_def at_defs)
  qed
  then show ?thesis using b n by (auto simp: batch_ok_def)
qed

section \<open>Whole lists\<close>

lemma flow_commit_bs: "flow_inv r A B \<Longrightarrow> flow_inv (foldl (\<lambda>r p. swap_commit_b p r) r B) A []"
  by (induction B arbitrary: r) (auto dest: flow_commit_b)

lemma flow_commit_as: "flow_inv r A B \<Longrightarrow> flow_inv (foldl (\<lambda>r p. swap_commit_a p r) r A) [] (B @ A)"
proof (induction A arbitrary: r B)
  case (Cons p A)
  from Cons.IH [OF flow_commit_a [OF Cons.prems]] show ?case by simp
qed simp

lemma flow_commit_all: "flow_inv r (in_a tr) (in_b tr) \<Longrightarrow> flow_inv (commit_all tr r) [] (in_a tr)"
  using flow_commit_as [OF flow_commit_bs, of r "in_a tr" "in_b tr"] by (simp add: commit_all_def)

definition a_copy :: "pending_swap \<Rightarrow> spot \<times> spot" where
  "a_copy p = (Hot (p_layer p) (p_spare p), Cold (p_layer p) (p_cs p))"

text \<open>What issuing changes in the residency: only the free spares.\<close>

definition same_maps :: "residency \<Rightarrow> residency \<Rightarrow> bool" where
  "same_maps r r' \<longleftrightarrow> r_layers r' = r_layers r \<and> r_experts r' = r_experts r \<and> r_n r' = r_n r \<and> r_stride r' = r_stride r
     \<and> r_low_bit r' = r_low_bit r \<and> r_sets r' = r_sets r \<and> r_cold_index r' = r_cold_index r"

lemma start_batch:
  "flow_inv r A B \<Longrightarrow> batch_ok r A B N \<Longrightarrow> \<exists>r' A'. fold_opt start_a N (r, A, fl) = Some (r', A @ A', fl @ map a_copy A')
    \<and> flow_inv r' (A @ A') B \<and> same_maps r r' \<and> r_cache r' = r_cache r \<and> length A' = length N"
proof (induction N arbitrary: r A fl)
  case Nil
  then show ?case by (simp add: same_maps_def)
next
  case (Cons t N)
  obtain l s e where t: "t = (l, s, e)" by (cases t) auto
  have s: "start_ok r A B l s e" using Cons.prems(2) by (auto simp: batch_ok_def t)
  obtain p where p: "swap_stream_a r l s e = Some (p, (Hot l (p_spare p), Cold l (p_cs p)), started r l)" "p_layer p = l" "p_evict_slot p = s"
      "p_evict p = r_sets r l ! s" "p_new p = e" "r_cold_index r l e = Some (p_cs p)" "p_spare p = last (r_spare_free r l)"
    using swap_stream_a_Some [OF Cons.prems(1) s] by blast
  obtain r' A' where ih: "fold_opt start_a N (started r l, A @ [p], fl @ [a_copy p]) = Some (r', (A @ [p]) @ A', (fl @ [a_copy p]) @ map a_copy A')"
      "flow_inv r' ((A @ [p]) @ A') B" "same_maps (started r l) r'" "r_cache r' = r_cache (started r l)" "length A' = length N"
    using Cons.IH [OF flow_start_a [OF Cons.prems(1) s p(2-7)] batch_ok_Cons [OF Cons.prems(2) [unfolded t] p(2,3,5)]] by blast
  have "start_a t (r, A, fl) = Some (started r l, A @ [p], fl @ [a_copy p])"
    using p(1,2) by (simp add: start_a_def t a_copy_def)
  then show ?case using ih by (intro exI [of _ r'] exI [of _ "p # A'"]) (simp add: same_maps_def)
qed

section \<open>Copies in flight\<close>

lemma land_other: "x \<notin> fst ` set fl \<Longrightarrow> land fl m x = m x"
  by (induction fl arbitrary: m) (auto simp: land_def)

lemma land_dst:
  "distinct (map fst fl) \<Longrightarrow> snd ` set fl \<inter> fst ` set fl = {} \<Longrightarrow> (d, s) \<in> set fl \<Longrightarrow> land fl m d = m s"
proof (induction fl arbitrary: m)
  case (Cons c fl)
  obtain d' s' where c: "c = (d', s')" by (cases c) auto
  have l: "land (c # fl) m = land fl (m(d' := m s'))" by (simp add: land_def c)
  show ?case
  proof (cases "(d, s) = c")
    case True
    then have "land fl (m(d' := m s')) d = (m(d' := m s')) d" using Cons.prems(1) c by (intro land_other) auto
    then show ?thesis using True c l by simp
  next
    case False
    then have i: "(d, s) \<in> set fl" using Cons.prems(3) by simp
    have "land fl (m(d' := m s')) d = (m(d' := m s')) s" using Cons.prems i by (intro Cons.IH) auto
    moreover have "s \<noteq> d'" using Cons.prems(2) i c by force
    ultimately show ?thesis using l by simp
  qed
qed simp

definition copies :: "pending_swap list \<Rightarrow> pending_swap list \<Rightarrow> (spot \<times> spot) list" where
  "copies A B = map swap_stream_b B @ map a_copy A"

text \<open>The bytes the commits rely on.\<close>

definition landed :: "pending_swap list \<Rightarrow> pending_swap list \<Rightarrow> memory \<Rightarrow> bool" where
  "landed A B m \<longleftrightarrow> (\<forall>p \<in> set A. m (Hot (p_layer p) (p_spare p)) = p_new p) \<and> (\<forall>p \<in> set B. m (Cold (p_layer p) (p_cs p)) = p_evict p)"

definition all_bytes :: "residency \<Rightarrow> memory \<Rightarrow> bool" where
  "all_bytes r m \<longleftrightarrow> (\<forall>l < r_layers r. bytes_ok r l m)"

text \<open>What the tables may name: the spots of a resident slot or of a pinned expert.\<close>

definition live :: "residency \<Rightarrow> spot set" where
  "live r = {Hot l s |l s. l < r_layers r \<and> s < r_stride r \<and> r_sets r l ! s \<noteq> EMPTY} \<union> {Cold l cs |l cs. l < r_layers r \<and> (\<exists>e. r_cold_index r l e = Some cs)}"

lemma copies_sources:
  assumes "flow_inv r A B"
  shows "snd ` set (copies A B) \<subseteq> live r"
proof -
  have "snd (a_copy p) \<in> live r" if "p \<in> set A" for p
    using assms that by (fastforce simp: flow_inv_def pend_a_def evict_ok_def a_copy_def live_def)
  moreover have "snd (swap_stream_b p) \<in> live r" if "p \<in> set B" for p
    using assms that by (fastforce simp: flow_inv_def pend_b_def evict_ok_def swap_stream_b_def live_def)
  ultimately show ?thesis by (auto simp: copies_def)
qed

lemma copies_targets:
  assumes "flow_inv r A B"
  shows "fst ` set (copies A B) \<inter> live r = {}"
proof -
  have "fst (a_copy p) \<notin> live r" if "p \<in> set A" for p
    using assms that by (fastforce simp: flow_inv_def pend_a_def a_copy_def live_def)
  moreover have "fst (swap_stream_b p) \<notin> live r" if "p \<in> set B" for p
    using assms that by (fastforce simp: flow_inv_def pend_b_def swap_stream_b_def live_def)
  ultimately show ?thesis by (auto simp: copies_def)
qed

lemma copies_distinct:
  assumes "flow_inv r A B"
  shows "distinct (map fst (copies A B))"
proof -
  have "distinct (map spare_at A)" "distinct (map cs_at B)" using assms by (auto simp: flow_inv_def)
  then have "distinct (map (fst \<circ> a_copy) A)" "distinct (map (fst \<circ> swap_stream_b) B)"
    by (auto simp: distinct_map inj_on_def a_copy_def swap_stream_b_def at_defs)
  then show ?thesis unfolding copies_def by (auto simp: a_copy_def swap_stream_b_def)
qed

lemma land_copies:
  assumes f: "flow_inv r A B" and m: "all_bytes r m"
  shows "all_bytes r (land (copies A B) m)" and "landed A B (land (copies A B) m)"
proof -
  have keep: "land (copies A B) m x = m x" if "x \<in> live r" for x
    using copies_targets [OF f] that by (intro land_other) blast
  have len: "length (r_sets r l) = r_stride r" if "l < r_layers r" for l using f that sets_length by (auto simp: flow_inv_def)
  show "all_bytes r (land (copies A B) m)"
    unfolding all_bytes_def bytes_ok_def
  proof (intro allI impI conjI)
    fix l s assume "l < r_layers r" "s < length (r_sets r l)" "r_sets r l ! s \<noteq> EMPTY"
    then show "land (copies A B) m (Hot l s) = r_sets r l ! s"
      using m len by (subst keep) (auto simp: live_def all_bytes_def bytes_ok_def)
  next
    fix l e cs assume "l < r_layers r" "r_cold_index r l e = Some cs"
    then show "land (copies A B) m (Cold l cs) = e"
      using m by (subst keep) (auto simp: live_def all_bytes_def bytes_ok_def)
  qed
  have dst: "land (copies A B) m d = m s" if "(d, s) \<in> set (copies A B)" for d s
    using copies_sources [OF f] copies_targets [OF f] by (intro land_dst [OF copies_distinct [OF f] _ that]) blast
  show "landed A B (land (copies A B) m)"
    unfolding landed_def
  proof (intro conjI ballI)
    fix p assume p: "p \<in> set A"
    then have "land (copies A B) m (Hot (p_layer p) (p_spare p)) = m (Cold (p_layer p) (p_cs p))"
      by (intro dst) (auto simp: copies_def a_copy_def)
    moreover have "p_layer p < r_layers r" "r_cold_index r (p_layer p) (p_new p) = Some (p_cs p)"
      using f p by (auto simp: flow_inv_def pend_a_def evict_ok_def)
    ultimately show "land (copies A B) m (Hot (p_layer p) (p_spare p)) = p_new p" using m by (simp add: all_bytes_def bytes_ok_def)
  next
    fix p assume p: "p \<in> set B"
    then have "land (copies A B) m (Cold (p_layer p) (p_cs p)) = m (Hot (p_layer p) (p_evict_slot p))"
      by (intro dst) (auto simp: copies_def swap_stream_b_def)
    moreover have "p_layer p < r_layers r" "p_evict_slot p < r_stride r" "r_sets r (p_layer p) ! p_evict_slot p = p_evict p" "p_evict p \<noteq> EMPTY"
      using f p by (auto simp: flow_inv_def pend_b_def evict_ok_def)
    ultimately show "land (copies A B) m (Cold (p_layer p) (p_cs p)) = p_evict p" using m len by (simp add: all_bytes_def bytes_ok_def)
  qed
qed

end
