(* ===== verification/TrickleSafe.thy ===== *)
theory TrickleSafe
  imports TrickleInv
begin

text \<open>
  The trickle over whole runs: what every state of the engine keeps, that no call on such a
  state panics, and what the tables name at every moment.
\<close>

section \<open>The invariant of the engine\<close>

definition swaps_a :: "hot_engine \<Rightarrow> pending_swap list" where
  "swaps_a s = (case h_trickle s of None \<Rightarrow> [] | Some tr \<Rightarrow> in_a tr)"

definition swaps_b :: "hot_engine \<Rightarrow> pending_swap list" where
  "swaps_b s = (case h_pend s of Some b \<Rightarrow> to_b b | None \<Rightarrow> (case h_trickle s of None \<Rightarrow> [] | Some tr \<Rightarrow> in_b tr))"

definition new_starts :: "hot_engine \<Rightarrow> (nat \<times> nat \<times> nat) list" where
  "new_starts s = (case h_pend s of None \<Rightarrow> [] | Some b \<Rightarrow> new_a b)"

definition tables_ok :: "hot_engine \<Rightarrow> bool" where
  "tables_ok s \<longleftrightarrow> (\<forall>l < r_layers (h_res s). h_tables s l = fill_layer_table (h_res s) l)"

definition hot_inv :: "hot_engine \<Rightarrow> bool" where
  "hot_inv s \<longleftrightarrow> cache_fits (h_res s) \<and> flow_inv (h_res s) (swaps_a s) (swaps_b s)
     \<and> batch_ok (h_res s) (swaps_a s) (swaps_b s) (new_starts s)
     \<and> all_bytes (h_res s) (h_mem s) \<and> tables_ok s
     \<and> h_flight s = (if h_pend s = None then copies (swaps_a s) (swaps_b s) else [])
     \<and> (h_pend s = None \<or> (\<exists>tr. h_trickle s = Some tr \<and> in_a tr = [] \<and> in_b tr = []))"

text \<open>What no step changes.\<close>

definition hot_shape :: "hot_engine \<Rightarrow> nat \<times> nat \<times> nat \<times> nat \<times> bool" where
  "hot_shape s = (r_layers (h_res s), r_experts (h_res s), r_n (h_res s), r_stride (h_res s), h_defer s)"

lemma fill_cong:
  "r_sets r' l = r_sets r l \<Longrightarrow> r_cold_index r' l = r_cold_index r l \<Longrightarrow> r_experts r' = r_experts r \<Longrightarrow>
    fill_layer_table r' l = fill_layer_table r l"
  by (simp add: fill_layer_table_def)

section \<open>Issuing a batch\<close>

lemma batch_ok_Nil [simp]: "batch_ok r A B []"
  by (simp add: batch_ok_def starts_of_def)

lemma issue_ok:
  assumes f: "flow_inv (h_res s) [] (to_b b)" and b: "batch_ok (h_res s) [] (to_b b) (new_a b)" and tr: "in_a tr = []"
    and s: "h_flight s = []" "h_pend s = None" "tables_ok s" "all_bytes (h_res s) (h_mem s)" "cache_fits (h_res s)"
  shows "\<exists>s'. issue b tr s = Some s' \<and> hot_inv s' \<and> hot_shape s' = hot_shape s \<and> h_pend s' = None \<and> swaps_b s' = to_b b
    \<and> length (swaps_a s') = length (new_a b)
    \<and> (\<exists>tr'. h_trickle s' = Some tr' \<and> swaps tr' = swaps tr)"
proof -
  obtain r' A' where st: "fold_opt start_a (new_a b) (h_res s, [], map swap_stream_b (to_b b)) =
      Some (r', A', map swap_stream_b (to_b b) @ map a_copy A')"
    and f': "flow_inv r' A' (to_b b)" and sm: "same_maps (h_res s) r'" "r_cache r' = r_cache (h_res s)" and n: "length A' = length (new_a b)"
    using start_batch [OF f b, of "map swap_stream_b (to_b b)"] by auto
  let ?s = "s\<lparr>h_res := r', h_flight := copies A' (to_b b), h_trickle := Some (tr\<lparr>in_a := A', in_b := to_b b\<rparr>)\<rparr>"
  have i: "issue b tr s = Some ?s" using st tr s(1) by (simp add: issue_def copies_def)
  have "tables_ok ?s" using s(3) sm fill_cong [of r' _ "h_res s"] by (simp add: tables_ok_def same_maps_def)
  moreover have "all_bytes r' (h_mem s)" using s(4) sm by (simp add: all_bytes_def bytes_ok_def same_maps_def)
  moreover have "cache_fits r'" using s(5) sm by (simp add: cache_fits_def same_maps_def)
  ultimately have "hot_inv ?s" using f' s(2) by (simp add: hot_inv_def swaps_a_def swaps_b_def new_starts_def)
  then show ?thesis using i sm s(2) n by (auto simp: hot_shape_def same_maps_def swaps_a_def swaps_b_def)
qed

lemma drain_after_ok:
  assumes "hot_inv s"
  shows "\<exists>s'. trickle_drain_after_launch s = Some s' \<and> hot_inv s' \<and> hot_shape s' = hot_shape s \<and> h_pend s' = None
    \<and> swaps_b s' = swaps_b s \<and> length (swaps_a s') = length (swaps_a s) + length (new_starts s)
    \<and> (h_trickle s = None \<longrightarrow> s' = s)"
proof (cases "h_pend s")
  case None
  then show ?thesis using assms by (simp add: trickle_drain_after_launch_def new_starts_def)
next
  case (Some b)
  then obtain tr where tr: "h_trickle s = Some tr" "in_a tr = []" "in_b tr = []" using assms by (auto simp: hot_inv_def)
  have "swaps_a s = []" "swaps_b s = to_b b" "new_starts s = new_a b" "h_flight s = []"
    using Some tr assms by (auto simp: hot_inv_def swaps_a_def swaps_b_def new_starts_def)
  then show ?thesis
    using issue_ok [of "s\<lparr>h_pend := None\<rparr>" b tr] assms Some tr
    by (auto simp: hot_inv_def tables_ok_def trickle_drain_after_launch_def hot_shape_def)
qed

section \<open>The commits of a tick\<close>

lemma commit_b_bytes:
  assumes m: "all_bytes r m" and b: "m (Cold (p_layer p) (p_cs p)) = p_evict p"
  shows "all_bytes (swap_commit_b p r) m"
  using assms unfolding all_bytes_def bytes_ok_def
  by (auto simp: nth_list_update split: if_splits) (metis nth_list_update_eq nth_list_update_neq)

lemma commit_a_bytes:
  assumes m: "all_bytes r m" and b: "m (Hot (p_layer p) (p_spare p)) = p_new p"
  shows "all_bytes (swap_commit_a p r) m"
  using assms unfolding all_bytes_def bytes_ok_def
  by (auto split: if_splits) (metis nth_list_update_eq nth_list_update_neq)

lemma commit_all_bytes:
  assumes "all_bytes r m" and "landed (in_a tr) (in_b tr) m"
  shows "all_bytes (commit_all tr r) m"
proof -
  have "all_bytes (foldl (\<lambda>r p. swap_commit_b p r) r B) m" if "all_bytes r m" "\<forall>p \<in> set B. m (Cold (p_layer p) (p_cs p)) = p_evict p" for B r
    using that by (induction B arbitrary: r) (auto intro!: commit_b_bytes)
  moreover have "all_bytes (foldl (\<lambda>r p. swap_commit_a p r) r A) m" if "all_bytes r m" "\<forall>p \<in> set A. m (Hot (p_layer p) (p_spare p)) = p_new p" for A r
    using that by (induction A arbitrary: r) (auto intro!: commit_a_bytes)
  ultimately show ?thesis using assms by (auto simp: commit_all_def landed_def)
qed

lemma commit_all_frame:
  "r_layers (commit_all tr r) = r_layers r" "r_experts (commit_all tr r) = r_experts r" "r_n (commit_all tr r) = r_n r"
  "r_stride (commit_all tr r) = r_stride r" "r_cache (commit_all tr r) = r_cache r" "r_low_bit (commit_all tr r) = r_low_bit r"
  "l \<notin> p_layer ` set (in_b tr @ in_a tr) \<Longrightarrow> r_sets (commit_all tr r) l = r_sets r l \<and> r_cold_index (commit_all tr r) l = r_cold_index r l"
proof -
  have a: "r_layers (foldl (\<lambda>r p. swap_commit_a p r) r A) = r_layers r \<and> r_experts (foldl (\<lambda>r p. swap_commit_a p r) r A) = r_experts r
      \<and> r_n (foldl (\<lambda>r p. swap_commit_a p r) r A) = r_n r \<and> r_stride (foldl (\<lambda>r p. swap_commit_a p r) r A) = r_stride r
      \<and> r_cache (foldl (\<lambda>r p. swap_commit_a p r) r A) = r_cache r \<and> r_low_bit (foldl (\<lambda>r p. swap_commit_a p r) r A) = r_low_bit r
      \<and> (l \<notin> p_layer ` set A \<longrightarrow> r_sets (foldl (\<lambda>r p. swap_commit_a p r) r A) l = r_sets r l
          \<and> r_cold_index (foldl (\<lambda>r p. swap_commit_a p r) r A) l = r_cold_index r l)" for A r
    by (induction A arbitrary: r) auto
  have b: "r_layers (foldl (\<lambda>r p. swap_commit_b p r) r A) = r_layers r \<and> r_experts (foldl (\<lambda>r p. swap_commit_b p r) r A) = r_experts r
      \<and> r_n (foldl (\<lambda>r p. swap_commit_b p r) r A) = r_n r \<and> r_stride (foldl (\<lambda>r p. swap_commit_b p r) r A) = r_stride r
      \<and> r_cache (foldl (\<lambda>r p. swap_commit_b p r) r A) = r_cache r \<and> r_low_bit (foldl (\<lambda>r p. swap_commit_b p r) r A) = r_low_bit r
      \<and> (l \<notin> p_layer ` set A \<longrightarrow> r_sets (foldl (\<lambda>r p. swap_commit_b p r) r A) l = r_sets r l
          \<and> r_cold_index (foldl (\<lambda>r p. swap_commit_b p r) r A) l = r_cold_index r l)" for A r
    by (induction A arbitrary: r) auto
  show "r_layers (commit_all tr r) = r_layers r" "r_experts (commit_all tr r) = r_experts r" "r_n (commit_all tr r) = r_n r"
    "r_stride (commit_all tr r) = r_stride r" "r_cache (commit_all tr r) = r_cache r" "r_low_bit (commit_all tr r) = r_low_bit r"
    "l \<notin> p_layer ` set (in_b tr @ in_a tr) \<Longrightarrow> r_sets (commit_all tr r) l = r_sets r l \<and> r_cold_index (commit_all tr r) l = r_cold_index r l"
    using a [of "foldl (\<lambda>r p. swap_commit_b p r) r (in_b tr)" "in_a tr"] b [of r "in_b tr"] by (auto simp: commit_all_def)
qed

lemma flush_fields [simp]:
  "h_res (flush_layer_tables l s) = h_res s" "h_mem (flush_layer_tables l s) = h_mem s" "h_flight (flush_layer_tables l s) = h_flight s"
  "h_trickle (flush_layer_tables l s) = h_trickle s" "h_pend (flush_layer_tables l s) = h_pend s" "h_defer (flush_layer_tables l s) = h_defer s"
  "h_tables (flush_layer_tables l s) = (h_tables s)(l := fill_layer_table (h_res s) l)"
  by (simp_all add: flush_layer_tables_def)

definition flushed :: "nat list \<Rightarrow> hot_engine \<Rightarrow> hot_engine" where
  "flushed ls s = foldl (\<lambda>s l. flush_layer_tables l s) s ls"

lemma flushed_fields:
  "h_res (flushed ls s) = h_res s" "h_mem (flushed ls s) = h_mem s" "h_flight (flushed ls s) = h_flight s"
  "h_trickle (flushed ls s) = h_trickle s" "h_pend (flushed ls s) = h_pend s" "h_defer (flushed ls s) = h_defer s"
  "h_tables (flushed ls s) l = (if l \<in> set ls then fill_layer_table (h_res s) l else h_tables s l)"
proof -
  have "h_res (flushed ls s) = h_res s \<and> h_mem (flushed ls s) = h_mem s \<and> h_flight (flushed ls s) = h_flight s
    \<and> h_trickle (flushed ls s) = h_trickle s \<and> h_pend (flushed ls s) = h_pend s \<and> h_defer (flushed ls s) = h_defer s
    \<and> h_tables (flushed ls s) l = (if l \<in> set ls then fill_layer_table (h_res s) l else h_tables s l)"
    unfolding flushed_def by (induction ls arbitrary: s) auto
  then show "h_res (flushed ls s) = h_res s" "h_mem (flushed ls s) = h_mem s" "h_flight (flushed ls s) = h_flight s"
    "h_trickle (flushed ls s) = h_trickle s" "h_pend (flushed ls s) = h_pend s" "h_defer (flushed ls s) = h_defer s"
    "h_tables (flushed ls s) l = (if l \<in> set ls then fill_layer_table (h_res s) l else h_tables s l)" by auto
qed

lemma flush_touched_fields:
  "h_res (flush_touched ls s) = h_res s" "h_mem (flush_touched ls s) = h_mem s" "h_flight (flush_touched ls s) = h_flight s"
  "h_trickle (flush_touched ls s) = h_trickle s" "h_pend (flush_touched ls s) = h_pend s" "h_defer (flush_touched ls s) = h_defer s"
  by (auto simp: flush_touched_def flush_all_tables_def flushed_def [symmetric] flushed_fields)

lemma flush_touched_tables:
  assumes "\<And>l. l < r_layers (h_res s) \<Longrightarrow> l \<notin> set ls \<Longrightarrow> h_tables s l = fill_layer_table (h_res s) l"
  shows "tables_ok (flush_touched ls s)"
  using assms by (auto simp: tables_ok_def flush_touched_fields flush_touched_def flush_all_tables_def flushed_def [symmetric] flushed_fields)

section \<open>Planning the new swaps\<close>

lemma start_ok_cache [simp]: "start_ok (r\<lparr>r_cache := c\<rparr>) A B l s e = start_ok r A B l s e"
  by (simp add: start_ok_def)

lemma batch_ok_cache [simp]: "batch_ok (r\<lparr>r_cache := c\<rparr>) A B N = batch_ok r A B N"
  by (simp add: batch_ok_def)

lemma flow_inv_cache [simp]: "flow_inv (r\<lparr>r_cache := c\<rparr>) A B = flow_inv r A B"
  by (simp add: flow_inv_def layer_ok_def slots_ok_def cold_ok_def residents_def spares_ok_def pend_a_def pend_b_def evict_ok_def)

lemma batch_ok_append:
  assumes p: "\<forall>(s, v, e) \<in> set p. start_ok r A B l s e" "distinct (map fst p)" "distinct (map (snd \<circ> snd) p)"
      "length p \<le> length (r_spare_free r l)"
    and N: "batch_ok r A B N" and l: "l \<notin> fst ` set N"
  shows "batch_ok r A B (map (\<lambda>(s, _, e). (l, s, e)) p @ N)"
proof -
  have "starts_of m (map (\<lambda>(s, _, e). (l, s, e)) p) = (if m = l then map (\<lambda>(s, _, e). (l, s, e)) p else [])" for m
    by (induction p) (auto simp: starts_of_def)
  moreover have "starts_of l N = []" using l by (auto simp: starts_of_def filter_empty_conv)
  ultimately have "starts_of m (map (\<lambda>(s, _, e). (l, s, e)) p @ N) = (if m = l then map (\<lambda>(s, _, e). (l, s, e)) p else starts_of m N)" for m
    by (auto simp: starts_of_def)
  moreover have "map (\<lambda>(l, s, e). (l, s)) (map (\<lambda>(s, _, e). (l, s, e)) p) = map (Pair l) (map fst p)"
      "map (\<lambda>(l, s, e). (l, e)) (map (\<lambda>(s, _, e). (l, s, e)) p) = map (Pair l) (map (snd \<circ> snd) p)" by auto
  moreover have "distinct (map (Pair l) (map fst p))" "distinct (map (Pair l) (map (snd \<circ> snd) p))"
    using p(2,3) by (simp_all only: distinct_map [of "Pair l"] inj_on_def prod.inject) blast+
  moreover have "set (map (Pair l) xs) \<inter> set (map f N) = {}" if "\<And>t. fst (f t) = fst t" for xs :: "nat list" and f :: "nat \<times> nat \<times> nat \<Rightarrow> nat \<times> nat"
  proof (rule ccontr)
    assume "set (map (Pair l) xs) \<inter> set (map f N) \<noteq> {}"
    then obtain t x where "t \<in> set N" "(l, x) = f t" by auto
    then show False using l that [of t] by (metis fst_conv imageI)
  qed
  then have "set (map (Pair l) (map fst p)) \<inter> set (map (\<lambda>(l, s, e). (l, s)) N) = {}"
      "set (map (Pair l) (map (snd \<circ> snd) p)) \<inter> set (map (\<lambda>(l, s, e). (l, e)) N) = {}" by (simp_all only: split_beta fst_conv)
  moreover have "distinct (map (\<lambda>(l, s, e). (l, s)) N)" "distinct (map (\<lambda>(l, s, e). (l, e)) N)" using N by (auto simp: batch_ok_def)
  ultimately have "distinct (map (\<lambda>(l, s, e). (l, s)) (map (\<lambda>(s, _, e). (l, s, e)) p @ N))"
      "distinct (map (\<lambda>(l, s, e). (l, e)) (map (\<lambda>(s, _, e). (l, s, e)) p @ N))"
      "starts_of m (map (\<lambda>(s, _, e). (l, s, e)) p @ N) = (if m = l then map (\<lambda>(s, _, e). (l, s, e)) p else starts_of m N)" for m
    by (simp_all only: map_append distinct_append simp_thms)
  then show ?thesis using p(1,4) N by (auto simp: batch_ok_def)
qed

lemma plan_new_ok:
  assumes "flow_inv r [] B" and "cache_fits r" and "\<forall>l < r_layers r. length (cnt l) = r_experts r"
    and "distinct ls" and "\<forall>l \<in> set ls. l < r_layers r"
  shows "\<exists>N c. plan_new m cnt B ls r = Some (N, r\<lparr>r_cache := c\<rparr>) \<and> cache_fits (r\<lparr>r_cache := c\<rparr>)
    \<and> batch_ok r [] B N \<and> fst ` set N \<subseteq> set ls"
  using assms
proof (induction ls arbitrary: r)
  case Nil
  then show ?case by (intro exI [of _ "[]"] exI [of _ "r_cache r"]) simp
next
  case (Cons l ls)
  show ?case
  proof (cases "r_spare_free r l = []")
    case True
    obtain N c where "plan_new m cnt B ls r = Some (N, r\<lparr>r_cache := c\<rparr>)" "cache_fits (r\<lparr>r_cache := c\<rparr>)" "batch_ok r [] B N"
        "fst ` set N \<subseteq> set ls"
      using Cons.IH [of r] Cons.prems by auto
    then show ?thesis using True by (intro exI [of _ N] exI [of _ c]) auto
  next
    case False
    let ?free = "length (r_spare_free r l)"
    let ?k = "if m = 0 then ?free else min m ?free"
    let ?excl = "\<Union>p \<in> set (filter (\<lambda>p. p_layer p = l) B). {p_evict_slot p, p_spare p}"
    have l: "l < r_layers r" using Cons.prems(5) by simp
    have lay: "layer_ok r l" using Cons.prems(1) l by (simp add: flow_inv_def)
    obtain p c where p: "plan_swaps r l (cnt l) ?k ?excl = Some (p, r\<lparr>r_cache := c\<rparr>)" "plan_ok r l ?k ?excl p" "cache_fits (r\<lparr>r_cache := c\<rparr>)"
      using plan_swaps_ok [OF lay Cons.prems(2) l] Cons.prems(3) l by blast
    obtain N c' where N: "plan_new m cnt B ls (r\<lparr>r_cache := c\<rparr>) = Some (N, r\<lparr>r_cache := c'\<rparr>)" "cache_fits (r\<lparr>r_cache := c'\<rparr>)"
        "batch_ok r [] B N" "fst ` set N \<subseteq> set ls"
      using Cons.IH [of "r\<lparr>r_cache := c\<rparr>"] Cons.prems p(3) by auto
    have st: "start_ok r [] B l s e" if "(s, v, e) \<in> set p" for s v e
    proof -
      note it = plan_ok_item [OF p(2) that]
      have "(l, s) \<notin> evict_at ` set B \<union> spare_at ` set B" using it(4) by (auto simp: at_defs)
      then show ?thesis using it sets_length [OF lay] l False by (auto simp: start_ok_def)
    qed
    have "0 < ?k" "?k \<le> ?free" using False by auto
    then have "length p \<le> ?free" using plan_ok_distinct(3) [OF p(2)] by linarith
    moreover have "l \<notin> fst ` set N" using N(4) Cons.prems(4) by auto
    ultimately have "batch_ok r [] B (map (\<lambda>(s, _, e). (l, s, e)) p @ N)"
      using st plan_ok_distinct(1,2) [OF p(2)] N(3) by (intro batch_ok_append) auto
    moreover have "plan_new m cnt B (l # ls) r = Some (map (\<lambda>(s, _, e). (l, s, e)) p @ N, r\<lparr>r_cache := c'\<rparr>)"
      using False p(1) N(1) by (simp add: Let_def)
    moreover have "fst ` set (map (\<lambda>(s, _, e). (l, s, e)) p @ N) \<subseteq> set (l # ls)" using N(4) by (auto simp: image_subset_iff)
    ultimately show ?thesis using N(2) by blast
  qed
qed

section \<open>One tick\<close>

lemma land_Nil [simp]: "land [] m = m"
  by (simp add: land_def)

lemma flow_inv_maps:
  "r_layers r' = r_layers r \<Longrightarrow> r_experts r' = r_experts r \<Longrightarrow> all_bytes r m \<Longrightarrow> r_sets r' = r_sets r \<Longrightarrow> r_cold_index r' = r_cold_index r \<Longrightarrow> all_bytes r' m"
  by (simp add: all_bytes_def bytes_ok_def)

text \<open>The state right before a tick issues or parks its batch.\<close>

lemma tick_commits:
  assumes s: "hot_inv s" "h_pend s = None" and tr: "tr = (case h_trickle s of Some tr \<Rightarrow> tr | None \<Rightarrow> \<lparr>in_a = [], in_b = [], swaps = 0\<rparr>)"
  defines "s1 \<equiv> wait_side s" and "r1 \<equiv> commit_all tr (h_res s)"
  shows "(if in_a tr \<noteq> [] \<or> in_b tr \<noteq> [] then wait_side s else s) = s1"
    and "flow_inv r1 [] (in_a tr)" and "all_bytes r1 (h_mem s1)" and "cache_fits r1" and "h_flight s1 = []" and "h_pend s1 = None"
    and "h_res s1 = h_res s" and "in_a tr = swaps_a s" and "in_b tr = swaps_b s"
    and "tables_ok (flush_touched (map p_layer (in_b tr @ in_a tr)) (s1\<lparr>h_res := r1\<lparr>r_cache := c\<rparr>\<rparr>))"
proof -
  have ab: "in_a tr = swaps_a s" "in_b tr = swaps_b s"
    using tr s(2) by (auto simp: swaps_a_def swaps_b_def split: option.splits)
  then show "in_a tr = swaps_a s" "in_b tr = swaps_b s" by auto
  have f: "flow_inv (h_res s) (in_a tr) (in_b tr)" and fl: "h_flight s = copies (in_a tr) (in_b tr)"
    and ot: "all_bytes (h_res s) (h_mem s)" "tables_ok s" "cache_fits (h_res s)"
    using s by (auto simp: hot_inv_def ab)
  show "(if in_a tr \<noteq> [] \<or> in_b tr \<noteq> [] then wait_side s else s) = s1"
    using fl by (auto simp: s1_def wait_side_def copies_def)
  show "flow_inv r1 [] (in_a tr)" unfolding r1_def by (rule flow_commit_all [OF f])
  show "all_bytes r1 (h_mem s1)"
    using land_copies [OF f ot(1)] by (auto simp: r1_def s1_def wait_side_def fl intro: commit_all_bytes)
  show "cache_fits r1" using ot(3) by (simp add: cache_fits_def r1_def commit_all_frame)
  show "h_flight s1 = []" "h_pend s1 = None" "h_res s1 = h_res s" using s(2) by (simp_all add: s1_def wait_side_def)
  show "tables_ok (flush_touched (map p_layer (in_b tr @ in_a tr)) (s1\<lparr>h_res := r1\<lparr>r_cache := c\<rparr>\<rparr>))"
  proof (rule flush_touched_tables)
    fix l assume "l < r_layers (h_res (s1\<lparr>h_res := r1\<lparr>r_cache := c\<rparr>\<rparr>))" "l \<notin> set (map p_layer (in_b tr @ in_a tr))"
    then show "h_tables (s1\<lparr>h_res := r1\<lparr>r_cache := c\<rparr>\<rparr>) l = fill_layer_table (h_res (s1\<lparr>h_res := r1\<lparr>r_cache := c\<rparr>\<rparr>)) l"
    proof -
      assume l: "l < r_layers (h_res (s1\<lparr>h_res := r1\<lparr>r_cache := c\<rparr>\<rparr>))" "l \<notin> set (map p_layer (in_b tr @ in_a tr))"
      have "fill_layer_table (r1\<lparr>r_cache := c\<rparr>) l = fill_layer_table (h_res s) l"
        using commit_all_frame(7) [of l tr "h_res s", OF l(2) [unfolded set_map]] by (intro fill_cong) (simp_all add: r1_def commit_all_frame)
      moreover have "l < r_layers (h_res s)" using l(1) by (simp add: r1_def commit_all_frame)
      ultimately show ?thesis using ot(2) by (simp add: tables_ok_def s1_def wait_side_def)
    qed
  qed
qed

definition counts_ok :: "(nat \<Rightarrow> nat list) \<Rightarrow> hot_engine \<Rightarrow> bool" where
  "counts_ok cnt s \<longleftrightarrow> (\<forall>l < r_layers (h_res s). length (cnt l) = r_experts (h_res s))"

lemma hot_inv_trickle_idle:
  assumes "flow_inv (h_res s) [] []" "cache_fits (h_res s)" "all_bytes (h_res s) (h_mem s)" "tables_ok s" "h_flight s = []" "h_pend s = None"
    and "in_a tr = []" "in_b tr = []"
  shows "hot_inv (s\<lparr>h_trickle := Some tr\<rparr>)"
  using assms by (simp add: hot_inv_def swaps_a_def swaps_b_def new_starts_def copies_def tables_ok_def)

lemma tick_settle:
  assumes s: "hot_inv s" "h_pend s = None" "counts_ok cnt s" and tr: "tr = (case h_trickle s of Some tr \<Rightarrow> tr | None \<Rightarrow> \<lparr>in_a = [], in_b = [], swaps = 0\<rparr>)"
  shows "\<exists>N c. (if plan then plan_new m cnt (in_a tr) [0..<r_layers (commit_all tr (h_res s))] (commit_all tr (h_res s)) else Some ([], commit_all tr (h_res s)))
      = Some (N, (commit_all tr (h_res s))\<lparr>r_cache := c\<rparr>)
    \<and> cache_fits ((commit_all tr (h_res s))\<lparr>r_cache := c\<rparr>) \<and> batch_ok (commit_all tr (h_res s)) [] (in_a tr) N \<and> (\<not> plan \<longrightarrow> N = [])"
proof (cases plan)
  case True
  note t = tick_commits [OF s(1,2) tr]
  have "\<forall>l < r_layers (commit_all tr (h_res s)). length (cnt l) = r_experts (commit_all tr (h_res s))"
    using s(3) by (simp add: counts_ok_def commit_all_frame)
  from plan_new_ok [OF t(2,4) this, of "[0..<r_layers (commit_all tr (h_res s))]" m] True show ?thesis by auto
next
  case False
  then show ?thesis using tick_commits(4) [OF s(1,2) tr]
    by (intro exI [of _ "[]"] exI [of _ "r_cache (commit_all tr (h_res s))"]) simp
qed

lemma tick_after_drain:
  assumes s: "hot_inv s" "h_pend s = None" "counts_ok cnt s" and d: "trickle_drain_after_launch s0 = Some s"
    and sh: "hot_shape s0 = hot_shape s" and e: "0 < r_experts (h_res s)" and st: "r_n (h_res s) < r_stride (h_res s)"
    and lb: "r_low_bit (h_res s0) = r_low_bit (h_res s)"
  shows "\<exists>k s'. trickle_tick plan m cnt s0 = Some (k, s') \<and> hot_inv s' \<and> hot_shape s' = hot_shape s \<and> swaps_b s' = swaps_a s
    \<and> length (swaps_a s') + length (new_starts s') = k \<and> (\<not> plan \<longrightarrow> k = 0)"
proof -
  define tr where tr: "tr = (case h_trickle s of Some tr \<Rightarrow> tr | None \<Rightarrow> \<lparr>in_a = [], in_b = [], swaps = 0\<rparr>)"
  obtain N c where pl: "(if plan then plan_new m cnt (in_a tr) [0..<r_layers (commit_all tr (h_res s))] (commit_all tr (h_res s))
        else Some ([], commit_all tr (h_res s))) = Some (N, (commit_all tr (h_res s))\<lparr>r_cache := c\<rparr>)"
      and cf: "cache_fits ((commit_all tr (h_res s))\<lparr>r_cache := c\<rparr>)" and bo: "batch_ok (commit_all tr (h_res s)) [] (in_a tr) N" and np: "\<not> plan \<longrightarrow> N = []"
    using tick_settle [OF s tr] by blast
  note t = tick_commits [OF s(1,2) tr]
  let ?r = "(commit_all tr (h_res s))\<lparr>r_cache := c\<rparr>"
  let ?s2 = "flush_touched (map p_layer (in_b tr @ in_a tr)) ((wait_side s)\<lparr>h_res := ?r\<rparr>)"
  let ?tr1 = "tr\<lparr>in_a := [], in_b := []\<rparr>" and ?b = "\<lparr>to_b = in_a tr, new_a = N\<rparr>"
  let ?tr2 = "?tr1\<lparr>swaps := swaps ?tr1 + length N\<rparr>"
  have s2: "h_res ?s2 = ?r" "h_flight ?s2 = []" "h_pend ?s2 = None" "h_mem ?s2 = h_mem (wait_side s)" "h_defer ?s2 = h_defer s"
    using s(2) by (simp_all add: flush_touched_fields wait_side_def)
  have tab: "tables_ok ?s2" using t(10) by simp
  have fl: "flow_inv ?r [] (in_a tr)" using t(2) by simp
  have bts: "all_bytes ?r (h_mem ?s2)" using t(3) s2(4) flow_inv_maps [of ?r "commit_all tr (h_res s)"] by simp
  have sh2: "hot_shape ?s2 = hot_shape s" using s2 by (simp add: hot_shape_def commit_all_frame)
  have nl: "\<not> r_low_bit (h_res s0)" using s(1) lb by (simp add: hot_inv_def flow_inv_def)
  have sh0: "r_experts (h_res s0) = r_experts (h_res s)" "r_n (h_res s0) = r_n (h_res s)" "r_stride (h_res s0) = r_stride (h_res s)"
    using sh by (simp_all add: hot_shape_def)
  have wd: "(if in_a tr \<noteq> [] \<or> in_b tr \<noteq> [] then wait_side s else s) = wait_side s" by (rule t(1))
  have hr: "h_res (wait_side s) = h_res s" by (simp add: wait_side_def)
  have run: "trickle_tick plan m cnt s0 = (if in_a tr = [] \<and> N = [] then Some (0, ?s2\<lparr>h_trickle := Some ?tr1\<rparr>)
      else if h_defer ?s2 then Some (length N, ?s2\<lparr>h_trickle := Some ?tr2, h_pend := Some ?b\<rparr>)
      else map_option (\<lambda>s3. (length N, s3)) (issue ?b ?tr2 ?s2))"
    unfolding trickle_tick_def Let_def d option.case tr [symmetric] wd hr pl prod.case
    using e st nl sh0 by simp
  have ab: "in_a tr = swaps_a s" by (rule t(8))
  consider "in_a tr = []" "N = []" | "in_a tr \<noteq> [] \<or> N \<noteq> []" "h_defer s" | "in_a tr \<noteq> [] \<or> N \<noteq> []" "\<not> h_defer s" by blast
  then show ?thesis
  proof cases
    case 1
    then have "hot_inv (?s2\<lparr>h_trickle := Some ?tr1\<rparr>)"
      using fl cf bts s2 tab by (intro hot_inv_trickle_idle) simp_all
    then show ?thesis unfolding run using 1 ab s2(3) sh2 by (auto simp: hot_shape_def swaps_a_def swaps_b_def new_starts_def)
  next
    case 2
    let ?s3 = "?s2\<lparr>h_trickle := Some ?tr2, h_pend := Some ?b\<rparr>"
    have "hot_inv ?s3" using fl cf bts s2 tab bo by (simp add: hot_inv_def swaps_a_def swaps_b_def new_starts_def tables_ok_def)
    moreover have "trickle_tick plan m cnt s0 = Some (length N, ?s3)" unfolding run using 2 s2(5) by auto
    ultimately show ?thesis using ab sh2 np by (auto simp: hot_shape_def swaps_a_def swaps_b_def new_starts_def)
  next
    case 3
    obtain s3 where s3: "issue ?b ?tr2 ?s2 = Some s3" "hot_inv s3" "hot_shape s3 = hot_shape ?s2" "h_pend s3 = None" "swaps_b s3 = in_a tr" "length (swaps_a s3) = length N"
      using issue_ok [of ?s2 ?b ?tr2] fl cf bts s2 tab bo by auto
    moreover have "trickle_tick plan m cnt s0 = Some (length N, s3)" unfolding run using 3 s2(5) s3(1) by auto
    ultimately show ?thesis using ab sh2 np by (auto simp: new_starts_def)
  qed
qed

end
