(* ===== verification/TrickleRun.thy ===== *)
theory TrickleRun
  imports TrickleSafe
begin

text \<open>
  Whole runs of the adaptive residency: the re-cut between two swaps, the drain, and the states
  a boot reaches. Every call returns, the tables name the bytes of every expert at every moment
  and never the target of a copy in flight, and a drain gives the layers their hot sets back.
\<close>

section \<open>The re-cut on an idle engine\<close>

definition idle :: "hot_engine \<Rightarrow> bool" where
  "idle s \<longleftrightarrow> hot_inv s \<and> h_pend s = None \<and> swaps_a s = [] \<and> swaps_b s = []"

lemma idle_iff: "idle s \<longleftrightarrow> cache_fits (h_res s) \<and> flow_inv (h_res s) [] [] \<and> all_bytes (h_res s) (h_mem s) \<and> tables_ok s
    \<and> h_flight s = [] \<and> h_pend s = None \<and> swaps_a s = [] \<and> swaps_b s = []"
  by (auto simp: idle_def hot_inv_def copies_def new_starts_def)

lemma flow_idle: "flow_inv r [] [] \<longleftrightarrow> \<not> r_low_bit r \<and> (\<forall>l < r_layers r. layer_ok r l) \<and> (\<forall>l < r_layers r. spares_ok r [] [] l)"
  by (simp add: flow_inv_def)

lemma flow_run:
  assumes f: "flow_inv r [] []" and m: "all_bytes r m" and l: "l < r_layers r" and run: "ran l p r m r' m'"
  shows "flow_inv r' [] []" and "all_bytes r' m'"
proof -
  have sb: "same_but l r r'" and lay: "layer_ok r' l" using run by (auto simp: ran_def)
  have "layer_ok r' x" if "x < r_layers r" for x
    using same_but_layer [OF sb] lay f that by (cases "x = l") (auto simp: flow_idle)
  moreover have "spares_ok r' [] [] x" if "x < r_layers r" for x
  proof -
    have "{s. s < r_stride r \<and> r_sets r' x ! s = EMPTY} = {s. s < r_stride r \<and> r_sets r x ! s = EMPTY}"
      using run sb by (cases "x = l") (auto simp: ran_def same_but_def)
    then show ?thesis using f that sb by (simp add: flow_idle spares_ok_def same_but_def)
  qed
  ultimately show "flow_inv r' [] []" using f sb by (simp add: flow_idle same_but_def)
  have "bytes_ok r' x m'" if "x < r_layers r" "x \<noteq> l" for x
    using m run sb that by (simp add: all_bytes_def bytes_ok_def ran_def same_but_def)
  moreover have "bytes_ok r' l m'" using m run l by (simp add: all_bytes_def ran_def)
  ultimately show "all_bytes r' m'" using sb unfolding all_bytes_def same_but_def by metis
qed

lemma flow_run_cache: "all_bytes (r\<lparr>r_cache := c\<rparr>) m = all_bytes r m" "ran l p (r\<lparr>r_cache := c\<rparr>) m r' m' \<Longrightarrow> same_but l (r\<lparr>r_cache := c\<rparr>) r'"
  by (auto simp: all_bytes_def bytes_ok_def ran_def)

text \<open>One layer of the re-cut.\<close>

lemma adapt_one:
  assumes s: "idle s" "counts_ok cnt s" and l: "l < r_layers (h_res s)"
  shows "\<exists>p r1 r2 m2. plan_swaps (h_res s) l (cnt l) k {} = Some (p, r1) \<and> (\<exists>c. r1 = (h_res s)\<lparr>r_cache := c\<rparr>) \<and> plan_ok (h_res s) l k {} p
    \<and> fold_opt (swap_in l) p (r1, h_mem s) = Some (r2, m2) \<and> ran l p r1 (h_mem s) r2 m2
    \<and> idle (if p = [] then s\<lparr>h_res := r2, h_mem := m2\<rparr> else flush_layer_tables l (s\<lparr>h_res := r2, h_mem := m2\<rparr>))"
proof -
  have i: "cache_fits (h_res s)" "flow_inv (h_res s) [] []" "all_bytes (h_res s) (h_mem s)" "tables_ok s"
    using s(1) by (auto simp: idle_iff)
  have lay: "layer_ok (h_res s) l" using i(2) l by (simp add: flow_idle)
  obtain p c where p: "plan_swaps (h_res s) l (cnt l) k {} = Some (p, (h_res s)\<lparr>r_cache := c\<rparr>)" "plan_ok (h_res s) l k {} p"
      "cache_fits ((h_res s)\<lparr>r_cache := c\<rparr>)"
    using plan_swaps_ok [OF lay i(1) l] s(2) l unfolding counts_ok_def by blast
  let ?r1 = "(h_res s)\<lparr>r_cache := c\<rparr>"
  have f1: "flow_inv ?r1 [] []" and l1: "layer_ok ?r1 l" and p1: "plan_ok ?r1 l k {} p"
    using i(2) lay p(2) layer_ok_cong [of ?r1 l "h_res s"] by (simp_all add: plan_ok_def residents_def)
  obtain r2 m2 where run: "fold_opt (swap_in l) p (?r1, h_mem s) = Some (r2, m2)" "ran l p ?r1 (h_mem s) r2 m2"
    using run_plan [OF l1 p1] by blast
  have sb: "same_but l ?r1 r2" using run(2) by (simp add: ran_def)
  have lr: "l < r_layers ?r1" using l by simp
  have m1: "all_bytes ?r1 (h_mem s)" using i(3) by (simp add: flow_run_cache)
  note keep = flow_run [OF f1 m1 lr run(2)]
  have cf: "cache_fits r2" using p(3) sb by (simp add: cache_fits_def same_but_def)
  have "tables_ok (if p = [] then s\<lparr>h_res := r2, h_mem := m2\<rparr> else flush_layer_tables l (s\<lparr>h_res := r2, h_mem := m2\<rparr>))"
  proof (cases "p = []")
    case True
    then have "r2 = ?r1" using run(1) by simp
    then show ?thesis using True i(4) fill_cong [of ?r1 _ "h_res s"] by (simp add: tables_ok_def)
  next
    case False
    have "fill_layer_table r2 x = fill_layer_table (h_res s) x" if "x \<noteq> l" for x
      using sb that by (intro fill_cong) (simp_all add: same_but_def)
    then show ?thesis using False i(4) sb by (simp add: tables_ok_def same_but_def)
  qed
  then have "idle (if p = [] then s\<lparr>h_res := r2, h_mem := m2\<rparr> else flush_layer_tables l (s\<lparr>h_res := r2, h_mem := m2\<rparr>))"
    using s(1) cf keep by (auto simp: idle_iff swaps_a_def swaps_b_def)
  then show ?thesis using p run by blast
qed

lemma adapt_layers_ok:
  assumes "idle s" and "counts_ok cnt s" and "\<forall>l \<in> set ls. l < r_layers (h_res s)"
  shows "\<exists>t' s'. adapt_layers cnt k ls (t, s) = Some (t', s') \<and> idle s' \<and> hot_shape s' = hot_shape s \<and> h_trickle s' = h_trickle s"
  using assms
proof (induction ls arbitrary: t s)
  case (Cons l ls)
  then obtain p r1 c r2 m2 where one: "plan_swaps (h_res s) l (cnt l) k {} = Some (p, r1)" "r1 = (h_res s)\<lparr>r_cache := c\<rparr>"
      "fold_opt (swap_in l) p (r1, h_mem s) = Some (r2, m2)" "ran l p r1 (h_mem s) r2 m2"
      "idle (if p = [] then s\<lparr>h_res := r2, h_mem := m2\<rparr> else flush_layer_tables l (s\<lparr>h_res := r2, h_mem := m2\<rparr>))"
    using adapt_one [OF Cons.prems(1,2), of l k] by auto
  let ?s = "if p = [] then s\<lparr>h_res := r2, h_mem := m2\<rparr> else flush_layer_tables l (s\<lparr>h_res := r2, h_mem := m2\<rparr>)"
  have sh: "hot_shape ?s = hot_shape s" "h_trickle ?s = h_trickle s" using one(2,4) by (auto simp: hot_shape_def ran_def same_but_def)
  then have "counts_ok cnt ?s" "\<forall>l \<in> set ls. l < r_layers (h_res ?s)" using Cons.prems by (auto simp: counts_ok_def hot_shape_def)
  from Cons.IH [OF one(5) this, of "t + length p"] sh one(1,3) show ?case by auto
qed auto

lemma adapt_hot_set_ok:
  assumes "idle s" and "counts_ok cnt s"
  shows "\<exists>t s'. adapt_hot_set cnt k s = Some (t, s') \<and> idle s' \<and> hot_shape s' = hot_shape s \<and> h_trickle s' = h_trickle s"
proof -
  have "\<not> (case h_trickle s of None \<Rightarrow> False | Some tr \<Rightarrow> in_a tr \<noteq> [] \<or> in_b tr \<noteq> [])"
    using assms(1) by (auto simp: idle_def swaps_a_def swaps_b_def split: option.splits)
  then show ?thesis using adapt_layers_ok [OF assms, of "[0..<r_layers (h_res s)]" k 0] assms(1) by (auto simp: adapt_hot_set_def)
qed

section \<open>The bundled tick\<close>

fun spot_layer :: "spot \<Rightarrow> nat" where
  "spot_layer (Hot l s) = l" | "spot_layer (Cold l s) = l"

text \<open>How far the two forms of the tick agree after a list of layers.\<close>

definition in_step :: "hot_engine \<Rightarrow> hot_engine \<Rightarrow> memory \<Rightarrow> (spot \<times> spot) list \<Rightarrow> nat list \<Rightarrow> bool" where
  "in_step s s' m0 ps tch \<longleftrightarrow> s' = s\<lparr>h_res := h_res s', h_mem := swap_pairs_launch ps m0, h_tables := h_tables s'\<rparr> \<and> apart ps
     \<and> r_experts (h_res s') = r_experts (h_res s)
     \<and> (\<forall>x. h_tables s' x = (if x \<in> set tch then fill_layer_table (h_res s') x else h_tables s x))"

lemma bundle_same:
  assumes "idle s" and "counts_ok cnt s" and "\<forall>l \<in> set ls. l < r_layers (h_res s)" and "distinct ls"
    and "h_mem s = swap_pairs_launch ps m0" and "apart ps" and "spot_layer ` spots ps \<inter> set ls = {}"
  shows "\<exists>t' s' qs tch. adapt_layers cnt k ls (t, s) = Some (t', s')
    \<and> bundle_layers cnt k ls (t, h_res s, ps, touched) = Some (t', h_res s', ps @ qs, touched @ tch)
    \<and> in_step s s' m0 (ps @ qs) tch
    \<and> (\<forall>x. x \<notin> set ls \<longrightarrow> r_sets (h_res s') x = r_sets (h_res s) x \<and> r_cold_index (h_res s') x = r_cold_index (h_res s) x) \<and> set tch \<subseteq> set ls"
  using assms
proof (induction ls arbitrary: t s ps touched)
  case Nil
  have "s = s\<lparr>h_res := h_res s, h_mem := h_mem s, h_tables := h_tables s\<rparr>" by simp
  then show ?case using Nil.prems(5,6) by (intro exI [of _ t] exI [of _ s] exI [of _ "[]"]) (simp add: in_step_def)
next
  case (Cons l ls)
  then have l: "l < r_layers (h_res s)" by simp
  obtain p r1 c r2 m2 where one: "plan_swaps (h_res s) l (cnt l) k {} = Some (p, r1)" "r1 = (h_res s)\<lparr>r_cache := c\<rparr>" "plan_ok (h_res s) l k {} p"
      "fold_opt (swap_in l) p (r1, h_mem s) = Some (r2, m2)" "ran l p r1 (h_mem s) r2 m2"
      "idle (if p = [] then s\<lparr>h_res := r2, h_mem := m2\<rparr> else flush_layer_tables l (s\<lparr>h_res := r2, h_mem := m2\<rparr>))"
    using adapt_one [OF Cons.prems(1,2) l, of k] by auto
  let ?s = "if p = [] then s\<lparr>h_res := r2, h_mem := m2\<rparr> else flush_layer_tables l (s\<lparr>h_res := r2, h_mem := m2\<rparr>)"
  have i: "layer_ok (h_res s) l" "\<not> r_low_bit (h_res s)" using Cons.prems(1) l by (auto simp: idle_iff flow_idle)
  have r1: "layer_ok r1 l" "\<not> r_low_bit r1" "plan_ok r1 l k {} p"
    using i one(2,3) layer_ok_cong [of r1 l "h_res s"] by (simp_all add: plan_ok_def residents_def)
  have cl: "clear_of r1 l ps p"
    using Cons.prems(7) unfolding clear_of_def by (force simp: image_iff)
  obtain qs where qs: "fold_opt (swap_in_bundled l) p (r1, ps) = Some (r2, ps @ qs)" "apart (ps @ qs)"
      "\<forall>x \<in> spots qs. (\<exists>s. x = Hot l s) \<or> (\<exists>s. x = Cold l s)" "m2 = swap_pairs_launch (ps @ qs) m0"
    using run_bundled [OF r1 Cons.prems(6) cl, of m0] one(4) Cons.prems(5) by auto
  have sb: "same_but l r1 r2" using one(5) by (simp add: ran_def)
  have "spot_layer ` spots qs \<subseteq> {l}" using qs(3) by auto
  then have sp: "spot_layer ` spots (ps @ qs) \<inter> set ls = {}"
  proof -
    have "spots (ps @ qs) = spots ps \<union> spots qs" by (simp add: spots_def image_Un Un_ac)
    moreover have "spot_layer ` spots ps \<inter> set ls = {}" using Cons.prems(7) by auto
    moreover have "spot_layer ` spots qs \<inter> set ls = {}" using \<open>spot_layer ` spots qs \<subseteq> {l}\<close> Cons.prems(4) by auto
    ultimately show ?thesis by (simp only: image_Un Int_Un_distrib2 Un_empty simp_thms)
  qed
  have sh: "r_layers (h_res ?s) = r_layers (h_res s)" "r_experts (h_res ?s) = r_experts (h_res s)"
    using one(2) sb by (auto simp: same_but_def)
  have pre: "counts_ok cnt ?s" "\<forall>l \<in> set ls. l < r_layers (h_res ?s)" "distinct ls" "h_mem ?s = swap_pairs_launch (ps @ qs) m0"
    using Cons.prems(2-4) sh qs(4) by (auto simp: counts_ok_def)
  obtain t' s' qs' tch where ih: "adapt_layers cnt k ls (t + length p, ?s) = Some (t', s')"
      "bundle_layers cnt k ls (t + length p, h_res ?s, ps @ qs, if p = [] then touched else touched @ [l])
        = Some (t', h_res s', (ps @ qs) @ qs', (if p = [] then touched else touched @ [l]) @ tch)"
      "in_step ?s s' m0 ((ps @ qs) @ qs') tch"
      "\<forall>x. x \<notin> set ls \<longrightarrow> r_sets (h_res s') x = r_sets (h_res ?s) x \<and> r_cold_index (h_res s') x = r_cold_index (h_res ?s) x" "set tch \<subseteq> set ls"
    using Cons.IH [OF one(6) pre qs(2) sp] by blast
  let ?tch = "if p = [] then tch else l # tch"
  have ll: "l \<notin> set ls" using Cons.prems(4) by simp
  have "fill_layer_table (h_res s') l = fill_layer_table r2 l"
    using ih(3,4) ll by (intro fill_cong) (auto simp: in_step_def split: if_splits)
  then have "in_step s s' m0 (ps @ (qs @ qs')) ?tch"
    using ih(3,5) ll sh by (auto simp: in_step_def flush_layer_tables_def split: if_splits)
  moreover have "\<forall>x. x \<notin> set (l # ls) \<longrightarrow> r_sets (h_res s') x = r_sets (h_res s) x \<and> r_cold_index (h_res s') x = r_cold_index (h_res s) x"
    using ih(4) sb one(2) by (auto simp: same_but_def)
  moreover have "adapt_layers cnt k (l # ls) (t, s) = Some (t', s')" using one(1,4) ih(1) by auto
  moreover have "h_res ?s = r2" by simp
  then have "bundle_layers cnt k (l # ls) (t, h_res s, ps, touched) = Some (t', h_res s', ps @ (qs @ qs'), touched @ ?tch)"
    using one(1) qs(1) ih(2) by auto
  moreover have "set ?tch \<subseteq> set (l # ls)" using ih(5) by auto
  ultimately show ?case by blast
qed

lemma adapt_tick_bundled:
  assumes s: "idle s" "counts_ok cnt s"
  shows "adapt_tick window True cnt k s = adapt_tick window False cnt k s"
proof -
  have m: "h_mem s = swap_pairs_launch [] (h_mem s)" by (simp add: swap_pairs_launch_def)
  have lb: "\<not> r_low_bit (h_res s)" using s(1) by (simp add: idle_iff flow_idle)
  obtain t' s' qs tch where b: "adapt_layers cnt k [0..<r_layers (h_res s)] (0, s) = Some (t', s')"
      "bundle_layers cnt k [0..<r_layers (h_res s)] (0, h_res s, [], []) = Some (t', h_res s', qs, tch)" "in_step s s' (h_mem s) qs tch"
    using bundle_same [OF s _ _ m, of "[0..<r_layers (h_res s)]" k 0 "[]"] by (auto simp: apart_def spots_def)
  have "foldl (\<lambda>s l. flush_layer_tables l s) (s\<lparr>h_res := h_res s', h_mem := swap_pairs_launch qs (h_mem s)\<rparr>) tch = s'"
  proof -
    let ?s = "flushed tch (s\<lparr>h_res := h_res s', h_mem := swap_pairs_launch qs (h_mem s)\<rparr>)"
    have "?s = s\<lparr>h_res := h_res s', h_mem := swap_pairs_launch qs (h_mem s), h_tables := h_tables ?s\<rparr>"
      by (rule hot_engine.equality) (simp_all add: flushed_fields)
    moreover have "h_tables ?s = h_tables s'" using b(3) by (auto simp: flushed_fields in_step_def fun_eq_iff)
    ultimately show ?thesis using b(3) unfolding in_step_def flushed_def by simp
  qed
  then show ?thesis using b lb by (simp add: adapt_tick_def)
qed

section \<open>The tables\<close>

definition table_step :: "nat \<Rightarrow> table \<Rightarrow> nat \<times> nat \<Rightarrow> table" where
  "table_step l = (\<lambda>(tbl, words) (hs, ix). if ix = EMPTY then (tbl, words) else (tbl(ix \<mapsto> Hot l hs), set_bit32 ix words))"

definition hot_bit :: "u32 list \<Rightarrow> nat \<Rightarrow> bool" where
  "hot_bit words e = bit (words ! (e div 32)) (e mod 32)"

lemma hot_bit_set:
  assumes "i div 32 < length words"
  shows "hot_bit (set_bit32 i words) e \<longleftrightarrow> hot_bit words e \<or> e = i"
proof (cases "e div 32 = i div 32")
  case True
  have "bit (push_bit (i mod 32) (1 :: u32)) (e mod 32) \<longleftrightarrow> e mod 32 = i mod 32" by (auto simp: bit_exp_iff)
  also have "\<dots> \<longleftrightarrow> e = i" using True by (metis div_mult_mod_eq)
  finally show ?thesis using True assms by (simp add: hot_bit_def set_bit32_def bit_or_iff)
next
  case False
  then show ?thesis by (auto simp: hot_bit_def set_bit32_def)
qed

lemma table_fold:
  assumes "\<forall>e \<in> set xs. e \<noteq> EMPTY \<longrightarrow> e div 32 < length words"
  shows "length (snd (foldl (table_step l) (tbl, words) (enumerate k xs))) = length words
    \<and> (hot_bit (snd (foldl (table_step l) (tbl, words) (enumerate k xs))) e \<longleftrightarrow> hot_bit words e \<or> e \<noteq> EMPTY \<and> e \<in> set xs)
    \<and> (e = EMPTY \<or> e \<notin> set xs \<longrightarrow> fst (foldl (table_step l) (tbl, words) (enumerate k xs)) e = tbl e)
    \<and> (\<forall>s < length xs. xs ! s = e \<longrightarrow> e \<noteq> EMPTY \<longrightarrow> (\<forall>t < length xs. xs ! t = e \<longrightarrow> t = s) \<longrightarrow>
        fst (foldl (table_step l) (tbl, words) (enumerate k xs)) e = Some (Hot l (k + s)))"
  using assms
proof (induction xs rule: rev_induct)
  case (snoc x xs)
  have pre: "\<forall>e \<in> set xs. e \<noteq> EMPTY \<longrightarrow> e div 32 < length words" using snoc.prems by simp
  note ih0 = snoc.IH [OF pre]
  have ih: "length (snd (foldl (table_step l) (tbl, words) (enumerate k xs))) = length words"
    "hot_bit (snd (foldl (table_step l) (tbl, words) (enumerate k xs))) e \<longleftrightarrow> hot_bit words e \<or> e \<noteq> EMPTY \<and> e \<in> set xs"
    "e = EMPTY \<or> e \<notin> set xs \<Longrightarrow> fst (foldl (table_step l) (tbl, words) (enumerate k xs)) e = tbl e"
    "\<And>s. s < length xs \<Longrightarrow> xs ! s = e \<Longrightarrow> e \<noteq> EMPTY \<Longrightarrow> \<forall>t < length xs. xs ! t = e \<longrightarrow> t = s \<Longrightarrow>
        fst (foldl (table_step l) (tbl, words) (enumerate k xs)) e = Some (Hot l (k + s))"
    using ih0 by blast+
  obtain tb wd where f: "foldl (table_step l) (tbl, words) (enumerate k xs) = (tb, wd)" by (cases "foldl (table_step l) (tbl, words) (enumerate k xs)") auto
  have step: "foldl (table_step l) (tbl, words) (enumerate k (xs @ [x])) =
      (if x = EMPTY then (tb, wd) else (tb(x \<mapsto> Hot l (k + length xs)), set_bit32 x wd))"
    by (simp add: enumerate_append_eq f) (simp add: table_step_def)
  have "x \<noteq> EMPTY \<Longrightarrow> hot_bit (set_bit32 x wd) e \<longleftrightarrow> hot_bit wd e \<or> e = x"
    using snoc.prems ih(1) by (intro hot_bit_set) (simp add: f)
  moreover have "fst (foldl (table_step l) (tbl, words) (enumerate k (xs @ [x]))) e = Some (Hot l (k + s))"
    if s: "s < length (xs @ [x])" "(xs @ [x]) ! s = e" "e \<noteq> EMPTY" "\<forall>t < length (xs @ [x]). (xs @ [x]) ! t = e \<longrightarrow> t = s" for s
  proof (cases "s = length xs")
    case True
    then show ?thesis using s unfolding step by auto
  next
    case False
    then have s': "s < length xs" "xs ! s = e" using s(1,2) by (auto simp: nth_append)
    have "x \<noteq> e" using s(4) s' by (metis length_append_singleton lessI less_irrefl nth_append_length)
    moreover have "\<forall>t < length xs. xs ! t = e \<longrightarrow> t = s" using s(4) by (auto simp: nth_append)
    ultimately show ?thesis using ih(4) [OF s' s(3)] unfolding step by (auto simp: f)
  qed
  moreover have "length (snd (foldl (table_step l) (tbl, words) (enumerate k (xs @ [x])))) = length words"
    using ih(1) unfolding step by (simp add: f set_bit32_def)
  moreover have "fst (foldl (table_step l) (tbl, words) (enumerate k (xs @ [x]))) e = tbl e" if "e = EMPTY \<or> e \<notin> set (xs @ [x])"
    using ih(3) that unfolding step by (auto simp: f)
  moreover have "hot_bit (snd (if x = EMPTY then (tb, wd) else (tb(x \<mapsto> Hot l (k + length xs)), set_bit32 x wd))) e \<longleftrightarrow> hot_bit words e \<or> e \<noteq> EMPTY \<and> e \<in> set (xs @ [x])"
    using ih(2) calculation(1) by (auto simp: f)
  ultimately show ?case unfolding step by blast
qed simp

lemma fill_is_fold: "fill_layer_table r l = foldl (table_step l)
    (\<lambda>ix. map_option (Cold l) (r_cold_index r l ix), replicate (bitmap_words (r_experts r)) 0) (enumerate 0 (r_sets r l))"
  by (simp add: fill_layer_table_def table_step_def)

lemma table_names:
  assumes r: "layer_ok r l" "\<not> r_low_bit r" and e: "e < r_experts r"
  shows "(\<exists>s < r_stride r. r_sets r l ! s = e \<and> fst (fill_layer_table r l) e = Some (Hot l s) \<and> hot_bit (snd (fill_layer_table r l)) e)
    \<or> (\<exists>cs. r_cold_index r l e = Some cs \<and> fst (fill_layer_table r l) e = Some (Cold l cs) \<and> \<not> hot_bit (snd (fill_layer_table r l)) e)"
proof -
  have so: "slots_ok r l" and ne: "e \<noteq> EMPTY" using r e by (auto simp: layer_ok_def)
  have w: "x < r_experts r \<Longrightarrow> x div 32 < bitmap_words (r_experts r)" for x by (auto simp: bitmap_words_def)
  have b0: "\<not> hot_bit (replicate (bitmap_words (r_experts r)) 0) e" using w [OF e] by (simp add: hot_bit_def)
  have ws: "\<forall>x \<in> set (r_sets r l). x \<noteq> EMPTY \<longrightarrow> x div 32 < length (replicate (bitmap_words (r_experts r)) (0 :: u32))"
    using so w by (auto simp: slots_ok_def in_set_conv_nth)
  note table_fold [OF ws, of l "\<lambda>ix. map_option (Cold l) (r_cold_index r l ix)" 0 e, folded fill_is_fold]
  then have bits: "hot_bit (snd (fill_layer_table r l)) e \<longleftrightarrow> e \<in> set (r_sets r l)"
    and cold: "e \<notin> set (r_sets r l) \<Longrightarrow> fst (fill_layer_table r l) e = map_option (Cold l) (r_cold_index r l e)"
    and hot: "\<And>s. s < length (r_sets r l) \<Longrightarrow> r_sets r l ! s = e \<Longrightarrow> \<forall>t < length (r_sets r l). r_sets r l ! t = e \<longrightarrow> t = s \<Longrightarrow>
      fst (fill_layer_table r l) e = Some (Hot l (0 + s))"
    using b0 ne by blast+
  show ?thesis
  proof (cases "e \<in> residents r l")
    case True
    then obtain s where s: "s < length (r_sets r l)" "r_sets r l ! s = e" by (auto simp: residents_def in_set_conv_nth)
    then have "\<forall>t < length (r_sets r l). r_sets r l ! t = e \<longrightarrow> t = s" using slots_unique [OF so] ne by metis
    with hot [OF s] have "fst (fill_layer_table r l) e = Some (Hot l s)" by simp
    moreover have "hot_bit (snd (fill_layer_table r l)) e" using bits True by (simp add: residents_def)
    moreover have "s < r_stride r" using s(1) so by (simp add: slots_ok_def)
    ultimately show ?thesis using s(2) by blast
  next
    case False
    then have n: "e \<notin> set (r_sets r l)" using ne by (auto simp: residents_def)
    have "e \<in> dom (r_cold_index r l)" using r e False by (simp only: layer_ok_def cold_ok_def) auto
    then show ?thesis using bits cold [OF n] n by auto
  qed
qed

section \<open>The drain\<close>

definition swappable :: "hot_engine \<Rightarrow> bool" where
  "swappable s \<longleftrightarrow> 0 < r_experts (h_res s) \<and> r_n (h_res s) < r_stride (h_res s)"

lemma shape_keeps: "hot_shape s' = hot_shape s \<Longrightarrow> counts_ok cnt s' = counts_ok cnt s" "hot_shape s' = hot_shape s \<Longrightarrow> swappable s' = swappable s"
  by (auto simp: hot_shape_def counts_ok_def swappable_def)

lemma trickle_tick_ok:
  assumes s: "hot_inv s" "counts_ok cnt s" "swappable s"
  shows "\<exists>k s'. trickle_tick plan m cnt s = Some (k, s') \<and> hot_inv s' \<and> hot_shape s' = hot_shape s
    \<and> length (swaps_b s') = length (swaps_a s) + length (new_starts s) \<and> length (swaps_a s') + length (new_starts s') = k \<and> (\<not> plan \<longrightarrow> k = 0)"
proof -
  obtain s1 where d: "trickle_drain_after_launch s = Some s1" "hot_inv s1" "hot_shape s1 = hot_shape s" "h_pend s1 = None"
      "length (swaps_a s1) = length (swaps_a s) + length (new_starts s)"
    using drain_after_ok [OF s(1)] by blast
  have "r_low_bit (h_res s) = r_low_bit (h_res s1)" using s(1) d(2) by (simp add: hot_inv_def flow_inv_def)
  then show ?thesis
    using tick_after_drain [OF d(2,4) _ d(1) d(3) [symmetric], of cnt plan m] s(2,3) shape_keeps [OF d(3)] d(3,5)
    by (fastforce simp: swappable_def)
qed

lemma idle_wait: "idle s \<Longrightarrow> wait_side s = s"
  by (simp add: idle_iff wait_side_def)

lemma drain_ok:
  assumes s: "hot_inv s" "counts_ok cnt s" "swappable s"
  shows "\<exists>k s'. trickle_drain cnt s = Some (k, s') \<and> idle s' \<and> hot_shape s' = hot_shape s"
proof -
  obtain s1 where d: "trickle_drain_after_launch s = Some s1" "hot_inv s1" "hot_shape s1 = hot_shape s" "h_pend s1 = None"
    using drain_after_ok [OF s(1)] by blast
  have ab: "swaps_a s1 = (case h_trickle s1 of None \<Rightarrow> [] | Some tr \<Rightarrow> in_a tr)" "swaps_b s1 = (case h_trickle s1 of None \<Rightarrow> [] | Some tr \<Rightarrow> in_b tr)"
    using d(4) by (simp_all add: swaps_a_def swaps_b_def)
  show ?thesis
  proof (cases "\<exists>tr. h_trickle s1 = Some tr \<and> \<not> (in_a tr = [] \<and> in_b tr = [])")
    case False
    then have "idle s1" using d(2,4) ab by (auto simp: idle_def split: option.splits)
    then show ?thesis using d(1,3) False by (auto simp: trickle_drain_def split: option.splits)
  next
    case True
    then obtain tr where tr: "h_trickle s1 = Some tr" "\<not> (in_a tr = [] \<and> in_b tr = [])" by blast
    note ok = s(2,3) [folded shape_keeps [OF d(3)]]
    obtain k2 s2 where t2: "trickle_tick False 0 cnt s1 = Some (k2, s2)" "hot_inv s2" "hot_shape s2 = hot_shape s1"
        "length (swaps_a s2) + length (new_starts s2) = 0"
      using trickle_tick_ok [OF d(2) ok, of False 0] by auto
    obtain s3 where d3: "trickle_drain_after_launch s2 = Some s3" "hot_inv s3" "hot_shape s3 = hot_shape s2" "h_pend s3 = None" "swaps_a s3 = []"
      using drain_after_ok [OF t2(2)] t2(4) by auto
    have sh3: "hot_shape s3 = hot_shape s1" using t2(3) d3(3) by simp
    obtain k4 s4 where t4: "trickle_tick False 0 cnt s3 = Some (k4, s4)" "hot_inv s4" "hot_shape s4 = hot_shape s3" "swaps_b s4 = []"
        "length (swaps_a s4) + length (new_starts s4) = 0"
      using trickle_tick_ok [OF d3(2) ok [folded shape_keeps [OF sh3]], of False 0] d3(4,5) by (auto simp: new_starts_def)
    obtain s5 where d5: "trickle_drain_after_launch s4 = Some s5" "hot_inv s5" "hot_shape s5 = hot_shape s4" "h_pend s5 = None" "swaps_a s5 = []" "swaps_b s5 = []"
      using drain_after_ok [OF t4(2)] t4(4,5) by auto
    have i5: "idle s5" using d5 by (simp add: idle_def)
    have e5: "(case h_trickle s5 of None \<Rightarrow> True | Some tr \<Rightarrow> in_a tr = [] \<and> in_b tr = [])"
      using d5(4-6) by (auto simp: swaps_a_def swaps_b_def split: option.splits)
    have "trickle_drain cnt s = Some (swaps tr, wait_side s5)"
      using d(1) tr t2(1) d3(1) t4(1) d5(1) e5 by (auto simp: trickle_drain_def split: option.splits)
    then show ?thesis using i5 idle_wait [OF i5] d(3) t2(3) d3(3) t4(3) d5(3) by auto
  qed
qed

lemma idle_hot_count:
  assumes s: "idle s" and l: "l < r_layers (h_res s)"
  shows "card (residents (h_res s) l) = r_n (h_res s)"
proof -
  let ?r = "h_res s" let ?xs = "r_sets (h_res s) l"
  have so: "slots_ok ?r l" and sp: "spares_ok ?r [] [] l" using s l by (auto simp: idle_iff flow_idle layer_ok_def)
  have len: "length ?xs = r_stride ?r" using so by (simp add: slots_ok_def)
  let ?E = "{t. t < r_stride ?r \<and> ?xs ! t = EMPTY}" and ?F = "{t. t < r_stride ?r \<and> ?xs ! t \<noteq> EMPTY}"
  have "card ?E = length (r_spare_free ?r l)" using sp by (simp add: spares_ok_def distinct_card)
  moreover have "card ?E + card ?F = r_stride ?r"
  proof -
    have "card ?E + card ?F = card (?E \<union> ?F)" by (rule card_Un_disjoint [symmetric]) auto
    moreover have "?E \<union> ?F = {..<r_stride ?r}" by auto
    ultimately show ?thesis by simp
  qed
  moreover have "residents ?r l = (!) ?xs ` ?F" using len by (auto simp: residents_def in_set_conv_nth image_iff)
  moreover have "inj_on ((!) ?xs) ?F" using slots_unique [OF so] len by (auto simp: inj_on_def)
  ultimately show ?thesis using sp by (simp add: spares_ok_def card_image)
qed

section \<open>Boot\<close>

lemma cold_slots_iff:
  "cold_slots es full hs e = Some i \<longleftrightarrow> i < length (filter (\<lambda>e. full \<or> e \<notin> set hs) [0..<es]) \<and> filter (\<lambda>e. full \<or> e \<notin> set hs) [0..<es] ! i = e"
proof -
  let ?xs = "filter (\<lambda>e. full \<or> e \<notin> set hs) [0..<es]"
  have "distinct (map fst (map (\<lambda>(i, e). (e, i)) (enumerate 0 ?xs)))" by (simp add: split_beta comp_def)
  moreover have "(e, i) \<in> set (map (\<lambda>(i, e). (e, i)) (enumerate 0 ?xs)) \<longleftrightarrow> (i, e) \<in> set (enumerate 0 ?xs)" by auto
  ultimately show ?thesis by (simp add: cold_slots_def map_of_eq_Some_iff in_set_enumerate_eq)
qed

definition rows_ok :: "nat \<Rightarrow> nat \<Rightarrow> nat \<Rightarrow> (nat \<Rightarrow> nat list) \<Rightarrow> bool" where
  "rows_ok ls es n sets \<longleftrightarrow> (\<forall>l < ls. length (sets l) = n \<and> distinct (sets l) \<and> set (sets l) \<subseteq> {..<es})"

lemma build_layer:
  assumes b: "build ls es n_slots spare sets False full = Some r" and rows: "rows_ok ls es (n_slots - spare) sets" and es: "es \<le> EMPTY" and l: "l < ls"
  shows "layer_ok r l" and "spares_ok r [] [] l"
proof -
  let ?n = "n_slots - spare"
  have r: "r_layers r = ls" "r_experts r = es" "r_n r = ?n" "r_stride r = n_slots" "r_sets r l = sets l @ replicate (n_slots - ?n) EMPTY"
      "r_spare_free r l = [?n..<n_slots]" "r_cold_index r l = cold_slots es False (sets l)" "\<not> r_low_bit r" "spare < n_slots"
    using b by (auto simp: build_def Let_def split: if_splits)
  have row: "length (sets l) = ?n" "distinct (sets l)" "set (sets l) \<subseteq> {..<es}" using rows l by (auto simp: rows_ok_def)
  have ne: "e \<noteq> EMPTY" if "e \<in> set (sets l)" for e using row(3) es that by auto
  have small: "sets l ! s < es" if "s < ?n" for s using row(1,3) that by (metis lessThan_iff nth_mem subsetD)
  have nth: "r_sets r l ! s = (if s < ?n then sets l ! s else EMPTY)" if "s < n_slots" for s
    using that row(1) by (simp add: r(5) nth_append)
  have len: "length (r_sets r l) = n_slots" using row(1) r(9) by (simp add: r(5))
  have res: "residents r l = set (sets l)" using ne by (auto simp: residents_def r(5))
  have "slots_ok r l"
    unfolding slots_ok_def
  proof (intro conjI allI impI)
    show "length (r_sets r l) = r_stride r" using len r(4) by simp
    fix s assume s: "s < r_stride r"
    show "r_sets r l ! s \<noteq> EMPTY \<Longrightarrow> r_sets r l ! s < r_experts r" using s small [of s] nth [of s] r(2,4) by (auto split: if_splits)
    fix t assume "t < r_stride r" "r_sets r l ! s = r_sets r l ! t" "r_sets r l ! s \<noteq> EMPTY"
    then show "s = t" using s row nth [of s] nth [of t] r(4) by (auto simp: nth_eq_iff_index_eq split: if_splits)
  qed
  moreover have "cold_ok r l"
  proof -
    have "dom (r_cold_index r l) = {..<es} - set (sets l)"
      by (auto simp: r(7) dom_def cold_slots_iff in_set_conv_nth [symmetric] simp flip: set_filter) (auto simp: in_set_conv_nth)
    moreover have "inj_on (r_cold_index r l) (dom (r_cold_index r l))"
      unfolding r(7) by (rule inj_onI) (metis cold_slots_iff domD)
    ultimately show ?thesis using r(2,8) res by (simp add: cold_ok_def)
  qed
  ultimately show "layer_ok r l" using es r(2) by (simp add: layer_ok_def)
  have "{s. s < n_slots \<and> r_sets r l ! s = EMPTY} = {?n..<n_slots}" using nth ne row(1) by (auto split: if_splits dest: nth_mem)
  then show "spares_ok r [] [] l" using r by (simp add: spares_ok_def)
qed

lemma seed_layers_ok:
  assumes "cache_inv c" and "\<forall>l \<in> set ls. l < layers c \<and> (\<forall>e \<in> set (sets l). e \<noteq> EMPTY \<longrightarrow> e < experts c)"
    and "seed_layers sets (experts c) ls c = Some (Inr c')"
  shows "cache_inv c' \<and> cfg c' = cfg c"
  using assms
proof (induction ls arbitrary: c)
  case (Cons l ls)
  let ?hot = "filter (\<lambda>e. e \<noteq> EMPTY) (sets l)"
  have "list_all (\<lambda>e. e < experts c) (?hot @ filter (\<lambda>e. e \<notin> set ?hot) [0..<experts c])"
    using Cons.prems(2) by (auto simp: list_all_iff)
  then obtain c1 er where c1: "seed c l ?hot (filter (\<lambda>e. e \<notin> set ?hot) [0..<experts c]) = Some (c1, er)" "cache_inv c1" "cfg c1 = cfg c"
    using seed_ok [OF Cons.prems(1)] Cons.prems(2) by (metis list.set_intros(1))
  then show ?case using Cons.prems(2,3) Cons.IH [of c1] by (cases er) (auto simp: cfg_eq Let_def)
qed simp

lemma attach_cache_ok:
  assumes r: "\<forall>l < r_layers r. slots_ok r l" and a: "attach_cache p r = Some (Inr r')"
  shows "(\<exists>c. r' = r\<lparr>r_cache := Some c\<rparr>) \<and> cache_fits r'"
proof -
  obtain c0 where c0: "cache_new p PerLayer (r_layers r) (r_experts r) (r_n r) (r_experts r - r_n r) = Inr c0"
    using a by (auto simp: attach_cache_def split: sum.splits)
  then have i: "cache_inv c0" and sh: "layers c0 = r_layers r" "experts c0 = r_experts r"
    using cache_inv_new [OF c0] by (auto simp: cache_new_def split: if_splits option.splits policy.splits)
  obtain c where c: "seed_layers (r_sets r) (r_experts r) [0..<r_layers r] c0 = Some (Inr c)" "r' = r\<lparr>r_cache := Some c\<rparr>"
  proof (cases "seed_layers (r_sets r) (r_experts r) [0..<r_layers r] c0")
    case None
    then show ?thesis using a by (simp add: attach_cache_def c0)
  next
    case (Some v)
    then show ?thesis using a that by (cases v) (auto simp: attach_cache_def c0)
  qed
  have "e < r_experts r" if "l < r_layers r" "e \<in> set (r_sets r l)" "e \<noteq> EMPTY" for l e
    using residents_bound [of r l] r that by (auto simp: residents_def)
  then have "cache_inv c \<and> cfg c = cfg c0"
    using seed_layers_ok [OF i, of "[0..<r_layers r]" "r_sets r" c] c(1) sh by simp
  then show ?thesis using c(2) sh by (auto simp: cache_fits_def cfg_eq)
qed

lemma find_unique:
  assumes "P e" and "\<And>f. P f \<Longrightarrow> f = e"
  shows "e \<in> set xs \<Longrightarrow> find P xs = Some e"
proof (induction xs)
  case (Cons x xs)
  show ?case
  proof (cases "P x")
    case True
    with assms(2) [OF this] show ?thesis by simp
  next
    case False
    then have "x \<noteq> e" using assms(1) by blast
    then show ?thesis using False Cons by simp
  qed
qed simp

lemma load_slabs_bytes:
  assumes "\<forall>l < r_layers r. layer_ok r l"
  shows "all_bytes r (load_slabs r m)"
  unfolding all_bytes_def bytes_ok_def
proof (intro allI impI conjI)
  fix l e cs assume l: "l < r_layers r" and e: "r_cold_index r l e = Some cs"
  have co: "cold_ok r l" using assms l by (simp add: layer_ok_def)
  have uniq: "f = e" if "r_cold_index r l f = Some cs" for f
    using co e that unfolding cold_ok_def by (metis domI inj_onD)
  have "e \<in> set [0..<r_experts r]" using cold_bound [OF co e] by simp
  from find_unique [of "\<lambda>f. r_cold_index r l f = Some cs" e, OF e uniq this]
  have "find (\<lambda>f. r_cold_index r l f = Some cs) [0..<r_experts r] = Some e" .
  then show "load_slabs r m (Cold l cs) = e" using l by (simp add: load_slabs_def)
next
  fix l s assume "l < r_layers r" "s < length (r_sets r l)" "r_sets r l ! s \<noteq> EMPTY"
  then show "load_slabs r m (Hot l s) = r_sets r l ! s" by (simp add: load_slabs_def)
qed

text \<open>A boot on the exact tier: rows of distinct experts, at least one spare slot per layer.\<close>

definition booted :: "nat \<Rightarrow> nat \<Rightarrow> nat \<Rightarrow> hot_engine \<Rightarrow> bool" where
  "booted ls es n s \<longleftrightarrow> (\<exists>n_slots spare sets full r po df m. build ls es n_slots spare sets False full = Some r
     \<and> rows_ok ls es n sets \<and> n = n_slots - spare \<and> 0 < spare \<and> 0 < es \<and> es \<le> EMPTY \<and> boot_hot po df m r = Some s)"

lemma booted_inv:
  assumes "booted ls es n s"
  shows "idle s" and "swappable s" and "r_layers (h_res s) = ls \<and> r_experts (h_res s) = es \<and> r_n (h_res s) = n"
proof -
  obtain n_slots spare sets full r po df m where b: "build ls es n_slots spare sets False full = Some r" "rows_ok ls es n sets"
      "n = n_slots - spare" "0 < spare" "0 < es" "es \<le> EMPTY" "boot_hot po df m r = Some s"
    using assms unfolding booted_def by blast
  have r: "r_layers r = ls" "r_experts r = es" "r_n r = n" "r_stride r = n_slots" "\<not> r_low_bit r" "spare < n_slots" "r_cache r = None"
    using b(1,3) by (auto simp: build_def Let_def split: if_splits)
  have lay: "layer_ok r l" "spares_ok r [] [] l" if "l < ls" for l
    using build_layer [OF b(1) _ b(6) that] b(2,3) by auto
  have "\<forall>l < r_layers r. slots_ok r l" using lay(1) r(1) by (simp add: layer_ok_def)
  then obtain c where c: "s = \<lparr>h_res = r\<lparr>r_cache := c\<rparr>, h_mem = load_slabs (r\<lparr>r_cache := c\<rparr>) m, h_tables = fill_layer_table (r\<lparr>r_cache := c\<rparr>),
      h_flight = [], h_trickle = None, h_pend = None, h_defer = df\<rparr>" "cache_fits (r\<lparr>r_cache := c\<rparr>)"
  proof (cases po)
    case None
    have "r\<lparr>r_cache := None\<rparr> = r" using r(7) by simp
    show ?thesis
    proof (rule that [of None])
      show "cache_fits (r\<lparr>r_cache := None\<rparr>)" by (simp add: cache_fits_def)
    qed (use b(7) None \<open>r\<lparr>r_cache := None\<rparr> = r\<close> in \<open>simp add: boot_hot_def\<close>)
  next
    case (Some p)
    then obtain r' where a: "attach_cache p r = Some (Inr r')" "s = \<lparr>h_res = r', h_mem = load_slabs r' m, h_tables = fill_layer_table r',
      h_flight = [], h_trickle = None, h_pend = None, h_defer = df\<rparr>"
      using b(7) by (auto simp: boot_hot_def split: option.splits sum.splits)
    then show ?thesis using that attach_cache_ok [OF \<open>\<forall>l < r_layers r. slots_ok r l\<close> a(1)] by auto
  qed
  have "flow_inv r [] []" using lay r by (simp add: flow_idle)
  then have f: "flow_inv (r\<lparr>r_cache := c\<rparr>) [] []" by (simp only: flow_inv_cache)
  then have "all_bytes (r\<lparr>r_cache := c\<rparr>) (load_slabs (r\<lparr>r_cache := c\<rparr>) m)" by (intro load_slabs_bytes) (simp add: flow_idle)
  then show "idle s" using f c by (simp add: idle_iff swaps_a_def swaps_b_def tables_ok_def)
  show "swappable s" using c(1) r b by (simp add: swappable_def)
  show "r_layers (h_res s) = ls \<and> r_experts (h_res s) = es \<and> r_n (h_res s) = n" using c(1) r by simp
qed

section \<open>The engine's steps\<close>

datatype hot_op =
    TrickleTick bool nat "nat \<Rightarrow> nat list"
  | AfterLaunch
  | TrickleDrain "nat \<Rightarrow> nat list"
  | Recut nat "nat \<Rightarrow> nat list"
  | AdaptTick bool bool nat "nat \<Rightarrow> nat list"

fun hot_step :: "hot_op \<Rightarrow> hot_engine \<Rightarrow> hot_engine option" where
  "hot_step (TrickleTick plan m cnt) s = map_option snd (trickle_tick plan m cnt s)"
| "hot_step AfterLaunch s = trickle_drain_after_launch s"
| "hot_step (TrickleDrain cnt) s = map_option snd (trickle_drain cnt s)"
| "hot_step (Recut k cnt) s = map_option snd (adapt_hot_set cnt k s)"
| "hot_step (AdaptTick window b k cnt) s = map_option snd (adapt_tick window b cnt k s)"

text \<open>
  One count per expert. The re-cut and the tick without the trickle are called on an engine with
  nothing parked and nothing in flight (\<open>gen.rs\<close> asserts the latter; a server re-cuts after a prefill, when the drain
  of the last answer has returned, and takes the other tick only in place of the trickle).
\<close>

fun op_fits :: "hot_op \<Rightarrow> hot_engine \<Rightarrow> bool" where
  "op_fits (TrickleTick plan m cnt) s = counts_ok cnt s"
| "op_fits AfterLaunch s = True"
| "op_fits (TrickleDrain cnt) s = counts_ok cnt s"
| "op_fits (Recut k cnt) s = (counts_ok cnt s \<and> h_pend s = None \<and> swaps_a s = [] \<and> swaps_b s = [])"
| "op_fits (AdaptTick window b k cnt) s = (counts_ok cnt s \<and> h_pend s = None \<and> swaps_a s = [] \<and> swaps_b s = [])"

inductive hot_reach :: "hot_engine \<Rightarrow> hot_engine \<Rightarrow> bool" for s0 where
  hot_start: "hot_reach s0 s0"
| hot_more: "hot_reach s0 s \<Longrightarrow> op_fits op s \<Longrightarrow> hot_step op s = Some s' \<Longrightarrow> hot_reach s0 s'"

lemma adapt_tick_ok:
  assumes "idle s" and "counts_ok cnt s"
  shows "\<exists>t s'. adapt_tick window b cnt k s = Some (t, s') \<and> idle s' \<and> hot_shape s' = hot_shape s"
proof -
  have "adapt_tick window b cnt k s = adapt_tick window False cnt k s"
    using adapt_tick_bundled [OF assms] by (cases b) auto
  then show ?thesis
    using adapt_hot_set_ok [OF assms, of k] adapt_layers_ok [OF assms, of "[0..<r_layers (h_res s)]" k 0] assms(1)
    by (auto simp: adapt_tick_def)
qed

lemma hot_step_ok:
  assumes s: "hot_inv s" "swappable s" and f: "op_fits op s"
  shows "\<exists>s'. hot_step op s = Some s' \<and> hot_inv s' \<and> hot_shape s' = hot_shape s"
proof (cases op)
  case (TrickleTick plan m cnt)
  then show ?thesis using trickle_tick_ok [OF s(1) _ s(2), of cnt plan m] f by auto
next
  case AfterLaunch
  then show ?thesis using drain_after_ok [OF s(1)] by auto
next
  case (TrickleDrain cnt)
  then show ?thesis using drain_ok [OF s(1) _ s(2), of cnt] f by (auto simp: idle_def)
next
  case (Recut k cnt)
  then show ?thesis using adapt_hot_set_ok [of s cnt k] s(1) f by (auto simp: idle_def)
next
  case (AdaptTick window b k cnt)
  then show ?thesis using adapt_tick_ok [of s cnt window b k] s(1) f by (auto simp: idle_def)
qed

lemma hot_reach_inv:
  assumes b: "booted ls es n s0" and r: "hot_reach s0 s"
  shows "hot_inv s \<and> hot_shape s = hot_shape s0 \<and> swappable s \<and> r_layers (h_res s) = ls \<and> r_experts (h_res s) = es \<and> r_n (h_res s) = n"
  using r
proof (induction rule: hot_reach.induct)
  case hot_start
  then show ?case using booted_inv [OF b] by (simp add: idle_def)
next
  case (hot_more s op s')
  then have "hot_inv s' \<and> hot_shape s' = hot_shape s" using hot_step_ok [of s op] by auto
  then show ?case using hot_more.IH shape_keeps(2) [of s' s] by (auto simp: hot_shape_def)
qed

section \<open>Properties\<close>

text \<open>C11: Safety of the adaptive residency on the exact tier, in every state a boot reaches
  through trickle ticks (eager or deferred), launches, drains, re-cuts and decode-time ticks,
  with or without the expert cache: the pointer table of a layer names, for every expert, a spot
  that holds that expert's slabs and is not the target of a copy in flight, and the bitmap bit
  of an expert is set exactly when its pointer goes to a VRAM slot.\<close>

theorem tables_always_name_the_expert:
  assumes "booted ls es n s0" and "hot_reach s0 s" and "l < ls" and "e < es"
  shows "\<exists>x. fst (h_tables s l) e = Some x \<and> x \<notin> fst ` set (h_flight s) \<and> h_mem s x = e
    \<and> (hot_bit (snd (h_tables s l)) e \<longleftrightarrow> (\<exists>hs. x = Hot l hs))"
proof -
  let ?r = "h_res s"
  have i: "hot_inv s" "r_layers ?r = ls" "r_experts ?r = es" using hot_reach_inv [OF assms(1,2)] by auto
  have f: "flow_inv ?r (swaps_a s) (swaps_b s)" and t: "h_tables s l = fill_layer_table ?r l" and m: "bytes_ok ?r l (h_mem s)"
    and fl: "fst ` set (h_flight s) \<subseteq> fst ` set (copies (swaps_a s) (swaps_b s))"
    using i assms(3) by (auto simp: hot_inv_def tables_ok_def all_bytes_def)
  have lay: "layer_ok ?r l" "\<not> r_low_bit ?r" using f i(2) assms(3) by (auto simp: flow_inv_def)
  have en: "e \<noteq> EMPTY" using lay(1) i(3) assms(4) by (auto simp: layer_ok_def)
  have away: "x \<notin> fst ` set (h_flight s)" if "x \<in> live ?r" for x using copies_targets [OF f] fl that by blast
  consider (hot) hs where "hs < r_stride ?r" "r_sets ?r l ! hs = e" "fst (fill_layer_table ?r l) e = Some (Hot l hs)" "hot_bit (snd (fill_layer_table ?r l)) e"
    | (cold) cs where "r_cold_index ?r l e = Some cs" "fst (fill_layer_table ?r l) e = Some (Cold l cs)" "\<not> hot_bit (snd (fill_layer_table ?r l)) e"
    using table_names [OF lay, of e] i(3) assms(4) by blast
  then show ?thesis
  proof cases
    case hot
    have "Hot l hs \<in> live ?r" using hot(1,2) en i(2) assms(3) by (auto simp: live_def)
    moreover have "h_mem s (Hot l hs) = e" using m hot(1,2) en sets_length [OF lay(1)] by (simp add: bytes_ok_def)
    ultimately show ?thesis using hot(3,4) away t by auto
  next
    case cold
    have "Cold l cs \<in> live ?r" using cold(1) i(2) assms(3) by (auto simp: live_def)
    moreover have "h_mem s (Cold l cs) = e" using m cold(1) by (simp add: bytes_ok_def)
    ultimately show ?thesis using cold(2,3) away t by auto
  qed
qed

text \<open>C27: No step of the server's discipline panics. From every state a boot reaches, a trickle
  tick, a launch and a drain, called with one count per expert, return, whatever is parked or in flight;
  a re-cut and a decode-time tick return when nothing is parked and nothing is in flight. The code
  asserts the second half of that condition only, and the first is needed:
  \<open>recut_on_parked_breaks_drain\<close>. No spare slot is missing, no incoming expert is without a pinned slot, no evicted
  slot is empty, and the two ticks of a drain leave nothing in flight, as it asserts.\<close>

theorem residency_steps_never_panic:
  assumes "booted ls es n s0" and "hot_reach s0 s" and "op_fits op s"
  shows "\<exists>s'. hot_step op s = Some s'"
  using hot_step_ok [of s op] hot_reach_inv [OF assms(1,2)] assms(3) by blast

text \<open>C25: A drain ends the trickle: from every state a boot reaches it returns, and then no
  copy is in flight, nothing is parked or pending, and every layer has exactly its \<open>n\<close> hot
  experts again, so that neither VRAM slots nor pinned slots leak over any number of swaps.\<close>

theorem trickle_drain_settles:
  assumes "booted ls es n s0" and "hot_reach s0 s" and "counts_ok cnt s"
  shows "\<exists>k s'. trickle_drain cnt s = Some (k, s') \<and> h_flight s' = [] \<and> h_pend s' = None \<and> swaps_a s' = [] \<and> swaps_b s' = []
    \<and> list_all (\<lambda>l. card (residents (h_res s') l) = n \<and> card (dom (r_cold_index (h_res s') l)) = es - n) [0..<ls]"
proof -
  have i: "hot_inv s" "swappable s" "r_layers (h_res s) = ls" "r_experts (h_res s) = es" "r_n (h_res s) = n"
    using hot_reach_inv [OF assms(1,2)] by auto
  obtain k s' where d: "trickle_drain cnt s = Some (k, s')" "idle s'" "hot_shape s' = hot_shape s"
    using drain_ok [OF i(1) assms(3) i(2)] by blast
  have sh: "r_layers (h_res s') = ls" "r_experts (h_res s') = es" "r_n (h_res s') = n" using d(3) i by (auto simp: hot_shape_def)
  have "card (residents (h_res s') l) = n \<and> card (dom (r_cold_index (h_res s') l)) = es - n" if "l < ls" for l
  proof
    show c: "card (residents (h_res s') l) = n" using idle_hot_count [OF d(2)] that sh by simp
    have "layer_ok (h_res s') l" "\<not> r_low_bit (h_res s')" using d(2) that sh by (auto simp: idle_iff flow_idle)
    then have "dom (r_cold_index (h_res s') l) = {..<es} - residents (h_res s') l" "residents (h_res s') l \<subseteq> {..<es}"
      using residents_bound sh by (auto simp: layer_ok_def cold_ok_def)
    then show "card (dom (r_cold_index (h_res s') l)) = es - n" using c by (simp add: card_Diff_subset finite_subset)
  qed
  then show ?thesis using d(1,2) by (auto simp: idle_iff list_all_iff)
qed

text \<open>C26: The bundled tick (\<open>CROW_SWAP_BUNDLE\<close>) is the unbundled one: on an idle reachable
  state, one launch that exchanges all pairs of all layers at the same time leaves the same
  engine state, memory, tables and count of swaps as the exchanges done one after the other.\<close>

theorem bundled_tick_equals_sequential:
  assumes "booted ls es n s0" and "hot_reach s0 s" and "op_fits (AdaptTick window True k cnt) s"
  shows "adapt_tick window True cnt k s = adapt_tick window False cnt k s"
proof (rule adapt_tick_bundled)
  show "idle s" using hot_reach_inv [OF assms(1,2)] assms(3) by (simp add: idle_def)
  show "counts_ok cnt s" using assms(3) by simp
qed

section \<open>What a re-cut reaches\<close>

lemma plan_swaps_local:
  assumes "r_cache r = None" and "r_cache r' = None" and "r_sets r' l = r_sets r l" and "r_n r' = r_n r" and "r_experts r' = r_experts r"
  shows "plan_swaps r' l c k excl = map_option (\<lambda>(p, _). (p, r')) (plan_swaps r l c k excl)"
  using assms by (simp add: plan_swaps_def Let_def)

lemma adapt_layers_sets:
  assumes "idle s" and "counts_ok cnt s" and "\<forall>l \<in> set ls. l < r_layers (h_res s)" and "distinct ls" and "r_cache (h_res s) = None"
    and "adapt_layers cnt k ls (t, s) = Some (t', s')"
  shows "(\<forall>x. x \<notin> set ls \<longrightarrow> r_sets (h_res s') x = r_sets (h_res s) x)
    \<and> (\<forall>l \<in> set ls. \<exists>p. plan_swaps (h_res s) l (cnt l) k {} = Some (p, h_res s)
        \<and> residents (h_res s') l = residents (h_res s) l - fst ` snd ` set p \<union> snd ` snd ` set p)"
  using assms
proof (induction ls arbitrary: t s)
  case (Cons l ls)
  then obtain p r1 r2 m2 where one: "plan_swaps (h_res s) l (cnt l) k {} = Some (p, r1)"
      "fold_opt (swap_in l) p (r1, h_mem s) = Some (r2, m2)" "ran l p r1 (h_mem s) r2 m2"
      "idle (if p = [] then s\<lparr>h_res := r2, h_mem := m2\<rparr> else flush_layer_tables l (s\<lparr>h_res := r2, h_mem := m2\<rparr>))"
    using adapt_one [OF Cons.prems(1,2), of l k] by auto
  let ?s = "if p = [] then s\<lparr>h_res := r2, h_mem := m2\<rparr> else flush_layer_tables l (s\<lparr>h_res := r2, h_mem := m2\<rparr>)"
  have r1: "r1 = h_res s" using one(1) Cons.prems(5) by (auto simp: plan_swaps_def Let_def split: if_splits)
  have sb: "same_but l (h_res s) r2" using one(3) r1 by (simp add: ran_def)
  have hr: "h_res ?s = r2" by simp
  have pre: "counts_ok cnt ?s" "\<forall>l \<in> set ls. l < r_layers (h_res ?s)" "distinct ls" "r_cache (h_res ?s) = None"
    using Cons.prems sb unfolding counts_ok_def hr same_but_def by auto
  have run: "adapt_layers cnt k ls (t + length p, ?s) = Some (t', s')" using Cons.prems(6) one(1,2) by (simp add: Let_def)
  have ih: "\<And>x. x \<notin> set ls \<Longrightarrow> r_sets (h_res s') x = r_sets r2 x"
    "\<And>m. m \<in> set ls \<Longrightarrow> \<exists>p. plan_swaps r2 m (cnt m) k {} = Some (p, r2) \<and> residents (h_res s') m = residents r2 m - fst ` snd ` set p \<union> snd ` snd ` set p"
    using Cons.IH [OF one(4) pre run] unfolding hr by blast+
  have "l \<notin> set ls" using Cons.prems(4) by simp
  then have here: "residents (h_res s') l = residents (h_res s) l - fst ` snd ` set p \<union> snd ` snd ` set p"
    using ih(1) one(3) r1 by (simp add: ran_def residents_def)
  have tail: "\<exists>p. plan_swaps (h_res s) m (cnt m) k {} = Some (p, h_res s) \<and> residents (h_res s') m = residents (h_res s) m - fst ` snd ` set p \<union> snd ` snd ` set p"
    if m: "m \<in> set ls" for m
  proof -
    have "m \<noteq> l" using m \<open>l \<notin> set ls\<close> by auto
    then have same: "r_sets (h_res s) m = r_sets r2 m" "r_n (h_res s) = r_n r2" "r_experts (h_res s) = r_experts r2" "r_cache r2 = None"
      using sb Cons.prems(5) by (auto simp: same_but_def)
    obtain q where "plan_swaps r2 m (cnt m) k {} = Some (q, r2)" "residents (h_res s') m = residents r2 m - fst ` snd ` set q \<union> snd ` snd ` set q"
      using ih(2) [OF m] by blast
    then show ?thesis using plan_swaps_local [of r2 "h_res s" m "cnt m" k "{}"] same Cons.prems(5) by (simp add: residents_def)
  qed
  have "\<forall>x. x \<notin> set (l # ls) \<longrightarrow> r_sets (h_res s') x = r_sets (h_res s) x" using ih(1) sb by (simp add: same_but_def)
  then show ?case using here tail one(1) r1 by auto
qed simp

text \<open>C12: What the unbounded re-cut reaches without the expert cache: every layer holds exactly
  \<open>n\<close> experts, no expert left out was selected more often than one taken in, and a resident was
  given up only for an expert that was selected strictly more often, so a short prompt does not
  evict the static prior for experts it never used.\<close>

theorem recut_reaches_hottest:
  assumes b: "booted ls es n s0" "hot_reach s0 s" and f: "op_fits (Recut 0 cnt) s" and c: "r_cache (h_res s) = None" and n: "n \<le> es"
    and run: "adapt_hot_set cnt 0 s = Some (t, s')" and l: "l < ls" and x: "x \<in> residents (h_res s') l" and y: "y < es" "y \<notin> residents (h_res s') l"
  shows "card (residents (h_res s') l) = n \<and> cnt l ! y \<le> cnt l ! x
    \<and> (y \<in> residents (h_res s) l \<and> x \<notin> residents (h_res s) l \<longrightarrow> cnt l ! y < cnt l ! x)"
proof -
  let ?r = "h_res s"
  have i: "hot_inv s" "swappable s" "r_layers ?r = ls" "r_experts ?r = es" "r_n ?r = n" using hot_reach_inv [OF b] by auto
  have s: "idle s" "counts_ok cnt s" using i f by (auto simp: idle_def)
  have ll: "l < r_layers ?r" using l i(3) by simp
  have "adapt_layers cnt 0 [0..<ls] (0, s) = Some (t, s')"
    using run i s(1) by (auto simp: adapt_hot_set_def idle_iff flow_idle swappable_def split: if_splits)
  then have "\<forall>l \<in> set [0..<ls]. \<exists>p. plan_swaps ?r l (cnt l) 0 {} = Some (p, ?r)
      \<and> residents (h_res s') l = residents ?r l - fst ` snd ` set p \<union> snd ` snd ` set p"
    using adapt_layers_sets [OF s _ _ c, of "[0..<ls]" 0 0 t s'] i(3) by simp
  moreover have "l \<in> set [0..<ls]" using l by simp
  ultimately obtain p where p: "plan_swaps ?r l (cnt l) 0 {} = Some (p, ?r)"
      "residents (h_res s') l = residents ?r l - fst ` snd ` set p \<union> snd ` snd ` set p" by blast
  have lay: "layer_ok ?r l" using s(1) ll by (simp add: idle_iff flow_idle)
  have "residents (h_res s') l = set (take n (sort_by (want_order (cnt l) (\<lambda>e. e \<in> residents ?r l)) [0..<es]))"
    using plan_hottest [OF lay c idle_hot_count [OF s(1) ll] _ p(1)] p(2) i(4,5) n by simp
  note hottest_ranked [OF x [unfolded this] y(1) y(2) [unfolded this]]
  moreover have "card (residents (h_res s') l) = n"
  proof -
    have "idle s' \<and> hot_shape s' = hot_shape s" using adapt_hot_set_ok [OF s, of 0] run by auto
    then show ?thesis using idle_hot_count [of s' l] ll i(5) by (auto simp: hot_shape_def)
  qed
  ultimately show ?thesis by blast
qed

section \<open>A small engine\<close>

definition demo_build :: residency where
  "demo_build = the (build 1 3 2 1 (\<lambda>_. [0]) False False)"

definition demo_hot :: hot_engine where
  "demo_hot = the (boot_hot None True (\<lambda>_. 0) demo_build)"

lemma demo_booted: "booted 1 3 1 demo_hot"
proof -
  have "build 1 3 2 1 (\<lambda>_. [0]) False False = Some demo_build" by (simp add: demo_build_def build_def)
  moreover have "boot_hot None True (\<lambda>_. 0) demo_build = Some demo_hot" by (simp add: demo_hot_def boot_hot_def)
  moreover have "rows_ok 1 3 1 (\<lambda>_. [0])" "(3 :: nat) \<le> EMPTY" by (auto simp: rows_ok_def EMPTY_def)
  ultimately show ?thesis unfolding booted_def by (intro exI [of _ 2] exI [of _ 1] exI conjI) auto
qed

lemma demo_hot_shape: "r_layers (h_res demo_hot) = 1" "r_experts (h_res demo_hot) = 3" "r_cache (h_res demo_hot) = None"
  "h_pend demo_hot = None" "swaps_a demo_hot = []" "swaps_b demo_hot = []"
  by (simp_all add: demo_hot_def boot_hot_def demo_build_def build_def swaps_a_def swaps_b_def)

lemma demo_counts: "counts_ok (\<lambda>_. [1, 0, 5]) demo_hot"
  by (simp add: counts_ok_def demo_hot_shape)

text \<open>One tick that parks the swap of expert 2 for expert 0, and the launch that issues it.\<close>

definition demo_parked :: hot_engine where
  "demo_parked = the (hot_step (TrickleTick True 1 (\<lambda>_. [1, 0, 5])) demo_hot)"

definition demo_issued :: hot_engine where
  "demo_issued = the (hot_step AfterLaunch demo_parked)"

lemma demo_issued_reachable: "hot_reach demo_hot demo_issued"
proof -
  have i: "hot_inv demo_hot" "swappable demo_hot" using booted_inv [OF demo_booted] by (auto simp: idle_def)
  have f: "op_fits (TrickleTick True 1 (\<lambda>_. [1, 0, 5])) demo_hot" using demo_counts by simp
  from hot_step_ok [OF i this] have st: "hot_step (TrickleTick True 1 (\<lambda>_. [1, 0, 5])) demo_hot = Some demo_parked"
    by (auto simp: demo_parked_def)
  have r: "hot_reach demo_hot demo_parked" by (rule hot_more [OF hot_start f st])
  have "hot_inv demo_parked" "swappable demo_parked" using hot_reach_inv [OF demo_booted r] by auto
  from hot_step_ok [OF this, of AfterLaunch] have "hot_step AfterLaunch demo_parked = Some demo_issued" by (auto simp: demo_issued_def)
  then show ?thesis by (intro hot_more [OF r, of AfterLaunch]) simp_all
qed

theorem tables_always_name_the_expert_witness:
  "\<exists>x. fst (h_tables demo_issued 0) 2 = Some x \<and> x \<notin> fst ` set (h_flight demo_issued) \<and> h_mem demo_issued x = 2
    \<and> (hot_bit (snd (h_tables demo_issued 0)) 2 \<longleftrightarrow> (\<exists>hs. x = Hot 0 hs))"
  by (rule tables_always_name_the_expert [OF demo_booted demo_issued_reachable]) simp_all

theorem residency_steps_never_panic_witness: "\<exists>s'. hot_step AfterLaunch demo_issued = Some s'"
  by (rule residency_steps_never_panic [OF demo_booted demo_issued_reachable]) simp

lemma demo_issued_counts: "counts_ok (\<lambda>_. [1, 0, 5]) demo_issued"
  using hot_reach_inv [OF demo_booted demo_issued_reachable] by (simp add: counts_ok_def)

theorem trickle_drain_settles_witness:
  "\<exists>k s'. trickle_drain (\<lambda>_. [1, 0, 5]) demo_issued = Some (k, s') \<and> h_flight s' = [] \<and> h_pend s' = None \<and> swaps_a s' = [] \<and> swaps_b s' = []
    \<and> list_all (\<lambda>l. card (residents (h_res s') l) = 1 \<and> card (dom (r_cold_index (h_res s') l)) = 3 - 1) [0..<1]"
  by (rule trickle_drain_settles [OF demo_booted demo_issued_reachable demo_issued_counts])

theorem bundled_tick_equals_sequential_witness:
  "adapt_tick True True (\<lambda>_. [1, 0, 5]) 0 demo_hot = adapt_tick True False (\<lambda>_. [1, 0, 5]) 0 demo_hot"
  by (rule bundled_tick_equals_sequential [OF demo_booted hot_start]) (use demo_counts demo_hot_shape in \<open>simp only: op_fits.simps\<close>)

lemma demo_recut: "map_option (\<lambda>(t, s). (t, r_sets (h_res s) 0)) (adapt_hot_set (\<lambda>_. [1, 0, 5]) 0 demo_hot) = Some (1, [2, EMPTY])"
proof -
  have e: "EMPTY \<noteq> 0" "0 \<noteq> EMPTY" "2 \<noteq> EMPTY" "EMPTY \<noteq> 2" by (simp_all add: EMPTY_def)
  have u: "[0..<3] = [0, 1, 2 :: nat]" "[0..<1] = [0 :: nat]" "[Suc 0..<2] = [1]" "[0..<Suc 0] = [0 :: nat]" by (simp_all add: upt_rec numeral_eq_Suc)
  have "plan_swaps demo_build 0 [1, 0, 5] 0 {} = Some ([(0, 0, 2)], demo_build)"
    by (simp add: demo_build_def build_def plan_swaps_def Let_def u e sort_by_def want_order_def cmp_def ord_then_def leavers_def pair_up_def)
  moreover have "cold_slots 3 False [0] 2 = Some 1" by (simp add: cold_slots_def u)
  ultimately show ?thesis
    by (simp add: adapt_hot_set_def demo_hot_def boot_hot_def demo_build_def build_def u swap_in_def swap_sets_def move_cold_def
        flush_layer_tables_def Let_def)
qed

theorem recut_reaches_hottest_witness:
  "\<exists>s'. adapt_hot_set (\<lambda>_. [1, 0, 5]) 0 demo_hot = Some (1, s') \<and> card (residents (h_res s') 0) = 1
    \<and> residents (h_res s') 0 = {2} \<and> ([1, 0, 5] :: nat list) ! 0 < [1, 0, 5] ! 2"
proof -
  obtain s' where s': "adapt_hot_set (\<lambda>_. [1, 0, 5]) 0 demo_hot = Some (1, s')" "r_sets (h_res s') 0 = [2, EMPTY]"
    using demo_recut by (auto simp: map_option_case split: option.splits)
  have r: "residents (h_res s') 0 = {2}" "residents (h_res demo_hot) 0 = {0}"
    using s'(2) by (auto simp: residents_def EMPTY_def demo_hot_def boot_hot_def demo_build_def build_def)
  have "op_fits (Recut 0 (\<lambda>_. [1, 0, 5])) demo_hot" using demo_counts demo_hot_shape by (simp only: op_fits.simps)
  from recut_reaches_hottest [OF demo_booted hot_start this demo_hot_shape(3) _ s'(1), of 0 2 0] s'(1) r show ?thesis by simp
qed

lemma demo_plan: "plan_swaps demo_build 0 [1, 0, 5] k {} = Some ([(0, 0, 2)], demo_build)" if "k = 0 \<or> k = 1"
proof -
  have e: "EMPTY \<noteq> 0" "0 \<noteq> EMPTY" "2 \<noteq> EMPTY" "EMPTY \<noteq> 2" by (simp_all add: EMPTY_def)
  have u: "[0..<3] = [0, 1, 2 :: nat]" "[0..<1] = [0 :: nat]" "[Suc 0..<2] = [1]" "[0..<Suc 0] = [0 :: nat]" by (simp_all add: upt_rec numeral_eq_Suc)
  show ?thesis using that
    by (elim disjE; simp add: demo_build_def build_def plan_swaps_def Let_def u e sort_by_def want_order_def cmp_def ord_then_def leavers_def pair_up_def)
qed

lemma demo_parked_is: "trickle_tick True 1 (\<lambda>_. [1, 0, 5]) demo_hot = Some (1, demo_hot\<lparr>h_trickle := Some \<lparr>in_a = [], in_b = [], swaps = 1\<rparr>,
    h_pend := Some \<lparr>to_b = [], new_a = [(0, 0, 2)]\<rparr>\<rparr>)"
proof -
  have h: "h_res demo_hot = demo_build" "h_pend demo_hot = None" "h_trickle demo_hot = None" "h_defer demo_hot"
    by (simp_all add: demo_hot_def boot_hot_def demo_build_def build_def)
  have b: "r_layers demo_build = 1" "r_experts demo_build = 3" "\<not> r_low_bit demo_build" "r_stride demo_build = 2" "r_n demo_build = 1" "r_spare_free demo_build 0 = [1]"
    by (simp_all add: demo_build_def build_def upt_rec numeral_eq_Suc)
  have "demo_hot\<lparr>h_res := demo_build\<rparr> = demo_hot" using h by simp
  then show ?thesis
    by (simp add: trickle_tick_def trickle_drain_after_launch_def h b commit_all_def flush_touched_def demo_plan [of 1, simplified] Let_def)
qed

text \<open>
  A re-cut needs an idle engine: on a batch that is parked but not issued the assertion of
  \<open>adapt_hot_set\<close> holds, the re-cut returns, and the drain after it panics.
\<close>

lemma recut_on_parked_breaks_drain:
  "\<exists>s t s'. hot_reach demo_hot s \<and> swaps_a s = [] \<and> swaps_b s = [] \<and> adapt_hot_set (\<lambda>_. [1, 0, 5]) 0 s = Some (t, s')
    \<and> trickle_drain (\<lambda>_. [1, 0, 5]) s' = None"
proof -
  let ?s = "demo_hot\<lparr>h_trickle := Some \<lparr>in_a = [], in_b = [], swaps = 1\<rparr>, h_pend := Some \<lparr>to_b = [], new_a = [(0, 0, 2)]\<rparr>\<rparr>"
  have r: "hot_reach demo_hot ?s"
    by (rule hot_more [OF hot_start, of "TrickleTick True 1 (\<lambda>_. [1, 0, 5])"]) (use demo_parked_is demo_counts in simp_all)
  have h: "h_res demo_hot = demo_build" by (simp add: demo_hot_def boot_hot_def demo_build_def build_def)
  have u: "[0..<3] = [0, 1, 2 :: nat]" "[0..<1] = [0 :: nat]" "[Suc 0..<2] = [1]" "[0..<Suc 0] = [0 :: nat]" by (simp_all add: upt_rec numeral_eq_Suc)
  have e: "EMPTY \<noteq> 0" "0 \<noteq> EMPTY" "2 \<noteq> EMPTY" "EMPTY \<noteq> 2" by (simp_all add: EMPTY_def)
  have b: "r_layers demo_build = 1" "r_experts demo_build = 3" "\<not> r_low_bit demo_build" "r_sets demo_build 0 = [0, EMPTY]" "r_cold_index demo_build 0 2 = Some 1"
    by (simp_all add: demo_build_def build_def cold_slots_def u)
  let ?r = "swap_sets (move_cold demo_build 0 2 0 1) 0 0 2" and ?m = "exchange (Hot 0 0) (Cold 0 1) (h_mem demo_hot)"
  have c: "r_cold_index ?r 0 2 = None" "\<not> r_low_bit ?r" "r_spare_free ?r 0 \<noteq> []"
    using b by (simp_all add: swap_sets_def move_cold_def) (simp add: demo_build_def build_def)
  have a: "adapt_hot_set (\<lambda>_. [1, 0, 5]) 0 ?s = Some (1, flush_layer_tables 0 (?s\<lparr>h_res := ?r, h_mem := ?m\<rparr>))"
    using demo_plan [of 0] b by (simp add: adapt_hot_set_def h swap_in_def u)
  have "trickle_drain (\<lambda>_. [1, 0, 5]) (flush_layer_tables 0 (?s\<lparr>h_res := ?r, h_mem := ?m\<rparr>)) = None"
    using c by (simp add: trickle_drain_def trickle_drain_after_launch_def flush_layer_tables_def issue_def start_a_def swap_stream_a_def Let_def)
  with r a show ?thesis by (intro exI conjI) (assumption | simp add: swaps_a_def swaps_b_def)+
qed

end
