(* ===== verification/Sidecar.thy ===== *)
theory Sidecar
  imports Residency
begin

text \<open>
  What the hot-set sidecar is read as: exactly the files with one row of distinct expert ids per
  layer are accepted, and each row becomes \<open>n\<close> ids, its own first, then the lowest unused ones.
\<close>

definition is_row :: "nat \<Rightarrow> json \<Rightarrow> nat list \<Rightarrow> bool" where
  "is_row es j row \<longleftrightarrow> (\<exists>a. j = JArray a \<and> map as_u64 a = map Some row \<and> distinct row \<and> set row \<subseteq> {..<es})"

definition row_fits :: "nat \<Rightarrow> nat \<Rightarrow> nat list \<Rightarrow> nat list \<Rightarrow> bool" where
  "row_fits n es row s \<longleftrightarrow> length s = n \<and> distinct s \<and> set s \<subseteq> {..<es}
     \<and> (if n \<le> length row then s = take n row
        else \<exists>pad. s = row @ pad \<and> sorted pad \<and> (\<forall>x \<in> set pad. \<forall>e < es. e \<notin> set s \<longrightarrow> x < e))"

lemma parse_row_iff:
  "parse_row es l i acc xs = Inr row \<longleftrightarrow> (\<exists>r. row = acc @ r \<and> map as_u64 xs = map Some r \<and> set r \<subseteq> {..<es} \<and> distinct r \<and> set r \<inter> set acc = {})"
proof (induction xs arbitrary: i acc)
  case (Cons x xs)
  show ?case
  proof (cases "as_u64 x")
    case None
    then show ?thesis by auto
  next
    case (Some ix)
    have "(\<exists>r. row = acc @ r \<and> map as_u64 (x # xs) = map Some r \<and> set r \<subseteq> {..<es} \<and> distinct r \<and> set r \<inter> set acc = {})
      \<longleftrightarrow> (\<exists>r. row = acc @ ix # r \<and> map as_u64 xs = map Some r \<and> ix < es \<and> set r \<subseteq> {..<es} \<and> ix \<notin> set r \<and> distinct r \<and> ix \<notin> set acc \<and> set r \<inter> set acc = {})"
      (is "?L \<longleftrightarrow> ?R")
    proof
      assume ?L
      then obtain r where r: "row = acc @ r" "map as_u64 (x # xs) = map Some r" "set r \<subseteq> {..<es}" "distinct r" "set r \<inter> set acc = {}" by blast
      then obtain t where "r = ix # t" using Some by (cases r) auto
      with r show ?R by auto
    next
      assume ?R
      then obtain r where "row = acc @ ix # r" "map as_u64 xs = map Some r" "ix < es" "set r \<subseteq> {..<es}" "ix \<notin> set r" "distinct r" "ix \<notin> set acc" "set r \<inter> set acc = {}"
        by blast
      then show ?L using Some by (intro exI [of _ "ix # r"]) auto
    qed
    also have "\<dots> \<longleftrightarrow> parse_row es l i acc (x # xs) = Inr row" using Some Cons.IH [of "i + 1" "acc @ [ix]"] by auto
    finally show ?thesis ..
  qed
qed auto

lemma parse_rows_iff: "parse_rows es l rs = Inr rows \<longleftrightarrow> list_all2 (is_row es) rs rows"
proof (induction rs arbitrary: l rows)
  case (Cons r rs)
  show ?case
  proof (cases r)
    case (JArray a)
    have "parse_rows es l (r # rs) = Inr rows \<longleftrightarrow> (\<exists>row rest. rows = row # rest \<and> parse_row es l 0 [] a = Inr row \<and> parse_rows es (l + 1) rs = Inr rest)"
      using JArray by (auto split: sum.splits)
    then show ?thesis using Cons.IH [of "l + 1"] JArray by (auto simp: parse_row_iff list_all2_Cons1 is_row_def)
  qed (auto simp: is_row_def list_all2_Cons1)
qed (auto split: option.splits)

lemma adapt_row_fits:
  assumes "distinct row" and "set row \<subseteq> {..<es}" and "n \<le> es"
  shows "row_fits n es row (adapt_row es n row)"
proof (cases "n \<le> length row")
  case True
  then show ?thesis using assms set_take_subset [of n row] by (auto simp: row_fits_def adapt_row_def Let_def min_def)
next
  case False
  let ?free = "filter (\<lambda>ix. ix \<notin> set row) [0..<es]" and ?k = "n - length row"
  have "length ?free = card ({..<es} - set row)"
    by (subst distinct_card [symmetric]) (auto intro!: arg_cong [where f = card])
  also have "\<dots> = es - length row" using assms by (simp add: card_Diff_subset distinct_card)
  finally have k: "?k \<le> length ?free" using assms(3) by simp
  have a: "adapt_row es n row = row @ take ?k ?free" using False by (simp add: adapt_row_def Let_def)
  have sf: "sorted_wrt (<) ?free" by (simp add: sorted_wrt_filter)
  have low: "x < e" if "x \<in> set (take ?k ?free)" "e < es" "e \<notin> set (row @ take ?k ?free)" for x e
  proof -
    have "e \<in> set ?free" using that by auto
    then have "e \<in> set (drop ?k ?free)" using that(3) by (metis Un_iff append_take_drop_id set_append)
    moreover have "sorted_wrt (<) (take ?k ?free @ drop ?k ?free)" using sf by simp
    ultimately show "x < e" using that(1) by (auto simp only: sorted_wrt_append)
  qed
  have srt: "sorted (take ?k ?free)" using sf by (simp add: sorted_wrt_take strict_sorted_imp_sorted)
  have sub: "set (take ?k ?free) \<subseteq> {..<es} - set row" by (auto dest!: in_set_takeD)
  have d: "distinct (row @ take ?k ?free)" using assms(1) sub by (auto simp: distinct_take)
  have ln: "length (row @ take ?k ?free) = n" using False k by simp
  have all: "set (row @ take ?k ?free) \<subseteq> {..<es}" using assms(2) sub by auto
  show ?thesis unfolding row_fits_def a if_not_P [OF False]
    by (intro conjI exI [of _ "take ?k ?free"] refl ballI allI impI ln d all srt) (rule low)
qed

text \<open>C30: The sidecar parse, both ways: a text is taken as hot sets exactly when it is JSON whose
  member \<open>sets\<close> is an array of one array per layer of distinct expert ids in range; every row of
  the result holds exactly \<open>n\<close> distinct ids in range, the file's first \<open>n\<close> in the file's own
  order, and a short row is padded with the lowest unused ids, ascending.\<close>

theorem sidecar_sets_spec:
  assumes "0 < n" and "n \<le> es" and "0 < ls"
  shows "sidecar_sets S txt n ls es = Some (Inr sets) \<longleftrightarrow>
    (\<exists>v js rows. from_str S txt = Some v \<and> obj_get ''sets'' v = Some (JArray js) \<and> length js = ls \<and> list_all2 (is_row es) js rows
      \<and> sets = map (adapt_row es n) rows \<and> list_all2 (row_fits n es) rows sets)"
proof -
  have fits: "list_all2 (row_fits n es) rows (map (adapt_row es n) rows)" if "parse_rows es 0 js = Inr rows" for js rows
  proof -
    have "list_all2 (is_row es) js rows" using that by (simp add: parse_rows_iff)
    then show ?thesis using assms(2) by (induction rule: list_all2_induct) (auto simp: is_row_def intro: adapt_row_fits)
  qed
  have arr: "as_array j = Some js \<longleftrightarrow> j = JArray js" for j js by (cases j) auto
  have len: "parse_rows es 0 js = Inr rows \<Longrightarrow> length rows = length js" for js rows
    by (auto simp: parse_rows_iff dest: list_all2_lengthD)
  show ?thesis
    unfolding parse_rows_iff [of es 0, symmetric] using assms
    by (auto simp: sidecar_sets_def arr bind_eq_Some_conv split: option.splits sum.splits if_splits dest: len intro: fits)
qed

definition demo_serde_sets :: serde_json where
  "demo_serde_sets = small_serde\<lparr>from_str := \<lambda>_. Some (JObject [(''sets'', JArray [JArray [JNumber ''2''], JArray [JNumber ''1'', JNumber ''0'', JNumber ''2'']])])\<rparr>"

theorem sidecar_sets_spec_witness:
  "sidecar_sets demo_serde_sets [] 2 2 3 = Some (Inr [[2, 0], [1, 0]])"
proof -
  have "obj_get ''sets'' (JObject [(''sets'', JArray [JArray [JNumber ''2''], JArray [JNumber ''1'', JNumber ''0'', JNumber ''2'']])])
      = Some (JArray [JArray [JNumber ''2''], JArray [JNumber ''1'', JNumber ''0'', JNumber ''2'']])" by simp
  moreover have "list_all2 (is_row 3) [JArray [JNumber ''2''], JArray [JNumber ''1'', JNumber ''0'', JNumber ''2'']] [[2], [1, 0, 2]]"
    by (simp add: is_row_def digits_def digits_val_def is_digit_def)
  moreover have ad: "adapt_row 3 2 [2] = [2, 0]" "adapt_row 3 2 [1, 0, 2] = [1, 0]" by (simp_all add: adapt_row_def upt_rec numeral_eq_Suc)
  moreover have "list_all2 (row_fits 2 3) [[2], [1, 0, 2]] [[2, 0], [1, 0]]"
    using adapt_row_fits [of "[2]" 3 2] adapt_row_fits [of "[1, 0, 2]" 3 2] ad by simp
  ultimately show ?thesis
    by (subst sidecar_sets_spec) (auto simp: demo_serde_sets_def intro!: exI [of _ "[[2], [1, 0, 2]]"])
qed

end
