(* ===== verification/Grammar.thy ===== *)
theory Grammar
  imports ToolCall "HOL-Library.Char_ord" "HOL-Library.List_Lexorder"
begin

text \<open>
  The compiled tool grammar of \<open>engine/src/toolgrammar.rs\<close>: the JSON schema nodes, the tools of
  one request, and their compilation out of the request's \<open>tools\<close> array
  (\<open>ToolGrammar::build_markup\<close>). \<open>Value::to_string\<close> of \<open>serde_json\<close> is the parameter \<open>pr\<close>.
  Strings are compared byte by byte (\<open>Char_ord\<close>, \<open>List_Lexorder\<close>).
\<close>

section \<open>The compiled schema\<close>

definition MAX_JSON_DEPTH :: nat where "MAX_JSON_DEPTH = 6"

datatype node = NAny | NStr | NInt | NNum | NBool | NNull
  | NChoice "str list" | NArr nat | NObj "str list" "nat list" u32 | NOpenObj

definition N_ANY :: nat where "N_ANY = 0"
definition N_OPEN_OBJ :: nat where "N_OPEN_OBJ = 1"
definition N_ANY_ARR :: nat where "N_ANY_ARR = 2"

datatype pkind = PRawStr | PRawEnum "str list" | PJson nat

record tool =
  pnames :: "str list"
  kinds :: "pkind list"
  required :: u64

datatype mode = ModeAuto | ModeRequired

record grammar =
  g_names :: "str list"
  g_tools :: "tool list"
  g_nodes :: "node list"
  g_mode :: mode
  g_parallel :: bool
  g_markup :: markup

datatype grammar_error = NoToolsArray | ToolNameUnwritable str | ParamNameUnwritable str str
  | TooManyParams str | ChoiceNamesNoTool str | NoNamedTool | SchemaTooLarge

section \<open>Reading a schema\<close>

fun is_object :: "json \<Rightarrow> bool" where
  "is_object (JObject _) = True"
| "is_object _ = False"

definition ty_list :: "json \<Rightarrow> str list" where
  "ty_list s = (case obj_get ''type'' s of
      Some (JString t) \<Rightarrow> [t]
    | Some (JArray a) \<Rightarrow> List.map_filter as_str a
    | _ \<Rightarrow> [])"

lemma obj_get_size: "obj_get k s = Some v \<Longrightarrow> size v < size s"
proof (cases s)
  case (JObject kvs)
  assume "obj_get k s = Some v"
  with JObject have "(k, v) \<in> set kvs" by (simp add: map_of_SomeD)
  then have "size v < size_list (size_prod (\<lambda>x. 0) size) kvs"
    by (induction kvs) auto
  with JObject show ?thesis by simp
qed simp_all

lemma array_member_size: "obj_get k s = Some (JArray a) \<Longrightarrow> v \<in> set a \<Longrightarrow> size v < size s"
proof -
  assume a: "obj_get k s = Some (JArray a)" and v: "v \<in> set a"
  from v have "size v < size (JArray a)" by (induction a) auto
  with obj_get_size [OF a] show ?thesis by simp
qed

function resolves_to_string :: "json \<Rightarrow> bool" where
  "resolves_to_string s = (is_object s \<and>
     (''string'' \<in> set (ty_list s)
      \<or> (case obj_get ''oneOf'' s of Some (JArray a) \<Rightarrow> list_ex resolves_to_string a | _ \<Rightarrow> False)
      \<or> (case obj_get ''anyOf'' s of Some (JArray a) \<Rightarrow> list_ex resolves_to_string a | _ \<Rightarrow> False)
      \<or> (case obj_get ''allOf'' s of Some (JArray a) \<Rightarrow> a \<noteq> [] \<and> list_all resolves_to_string a | _ \<Rightarrow> False)
      \<or> (case obj_get ''const'' s of Some (JString _) \<Rightarrow> True | _ \<Rightarrow> False)))"
  by pat_completeness auto
termination
  by (relation "measure size") (auto dest: array_member_size)

declare resolves_to_string.simps [simp del]

definition one_line :: "json \<Rightarrow> str option" where
  "one_line o' = (case as_str o' of Some t \<Rightarrow> if CHR 0x0A \<in> set t then None else Some t | None \<Rightarrow> None)"

text \<open>A string enum whose options are all one-line strings.\<close>

definition raw_enum :: "json \<Rightarrow> str list option" where
  "raw_enum s = (if \<not> (ty_list s = [] \<or> ty_list s = [''string'']) then None
     else case Option.bind (obj_get ''enum'' s) as_array of
       None \<Rightarrow> None
     | Some e \<Rightarrow> (case those (map one_line e) of
         None \<Rightarrow> None
       | Some v \<Rightarrow> if v = [] then None else Some (remdups_adj (sort_by cmp v))))"

text \<open>The strings of a \<open>required\<close> array.\<close>

definition required_names :: "json option \<Rightarrow> str list" where
  "required_names params = (case Option.bind (Option.bind params (obj_get ''required'')) as_array of
     None \<Rightarrow> [] | Some a \<Rightarrow> List.map_filter as_str a)"

section \<open>Compiling\<close>

definition push_node :: "node list \<Rightarrow> node \<Rightarrow> grammar_error + (nat \<times> node list)" where
  "push_node nodes n = (if length nodes \<ge> 65535 then Inl SchemaTooLarge else Inr (length nodes, nodes @ [n]))"

definition choice_texts :: "(json \<Rightarrow> str) \<Rightarrow> json list \<Rightarrow> str list" where
  "choice_texts pr vals = remdups_adj (sort_by cmp (map pr vals))"

definition object_open :: "json \<Rightarrow> bool" where
  "object_open s = (case obj_get ''additionalProperties'' s of
     Some (JBool b) \<Rightarrow> b | Some v \<Rightarrow> is_object v | None \<Rightarrow> False)"

text \<open>
  \<open>ToolGrammar::node\<close>, schema \<open>s\<close> at container nesting \<open>d\<close>, and its loop over the sorted
  members of an object: encoded key, key, schema.
\<close>

definition sorted_members :: "(json \<Rightarrow> str) \<Rightarrow> (str \<times> json) list \<Rightarrow> (str \<times> str \<times> json) list" where
  "sorted_members pr p = sort_by (\<lambda>a b. cmp (fst a) (fst b)) (map (\<lambda>(k, v). (pr (JString k), k, v)) p)"

definition required_bits :: "str list \<Rightarrow> (str \<times> str \<times> json) list \<Rightarrow> u32" where
  "required_bits req kv = foldl (\<lambda>w i. if fst (snd (kv ! i)) \<in> set req then w OR push_bit i 1 else w) 0 [0..<length kv]"

function compile_node :: "(json \<Rightarrow> str) \<Rightarrow> node list \<Rightarrow> json \<Rightarrow> nat \<Rightarrow> grammar_error + (nat \<times> node list)"
  and compile_members :: "(json \<Rightarrow> str) \<Rightarrow> node list \<Rightarrow> (str \<times> str \<times> json) list \<Rightarrow> nat \<Rightarrow> grammar_error + (nat list \<times> node list)"
where
  "compile_node pr nodes s d = (if \<not> is_object s then Inr (N_ANY, nodes)
     else case obj_get ''const'' s of
       Some c \<Rightarrow> push_node nodes (NChoice (choice_texts pr [c]))
     | None \<Rightarrow>
       if (case Option.bind (obj_get ''enum'' s) as_array of Some e \<Rightarrow> e \<noteq> [] | None \<Rightarrow> False)
       then push_node nodes (NChoice (choice_texts pr (the (Option.bind (obj_get ''enum'' s) as_array))))
       else if length (ty_list s) \<noteq> 1 then Inr (N_ANY, nodes)
       else let t = hd (ty_list s) in
         if t = ''string'' then push_node nodes NStr
         else if t = ''integer'' then push_node nodes NInt
         else if t = ''number'' then push_node nodes NNum
         else if t = ''boolean'' then push_node nodes NBool
         else if t = ''null'' then push_node nodes NNull
         else if t = ''array'' then
           (if d + 1 \<ge> MAX_JSON_DEPTH then Inr (N_ANY, nodes)
            else case obj_get ''items'' s of
              Some it \<Rightarrow> if is_object it
                then (case compile_node pr nodes it (d + 1) of
                    Inl e \<Rightarrow> Inl e
                  | Inr (i, nodes') \<Rightarrow> push_node nodes' (NArr i))
                else Inr (N_ANY_ARR, nodes)
            | None \<Rightarrow> Inr (N_ANY_ARR, nodes))
         else if t = ''object'' then
           (if d + 1 \<ge> MAX_JSON_DEPTH then Inr (N_ANY, nodes)
            else case Option.bind (obj_get ''properties'' s) as_object of
              Some p \<Rightarrow> if \<not> object_open s \<and> p \<noteq> [] \<and> length p \<le> 32
                then (let kv = sorted_members pr p in
                  case compile_members pr nodes kv (d + 1) of
                    Inl e \<Rightarrow> Inl e
                  | Inr (vals, nodes') \<Rightarrow>
                      push_node nodes' (NObj (map fst kv) vals (required_bits (required_names (Some s)) kv)))
                else Inr (N_OPEN_OBJ, nodes)
            | None \<Rightarrow> Inr (N_OPEN_OBJ, nodes))
         else Inr (N_ANY, nodes))"
| "compile_members pr nodes [] d = Inr ([], nodes)"
| "compile_members pr nodes ((ek, k, v) # kv) d = (case compile_node pr nodes v d of
      Inl e \<Rightarrow> Inl e
    | Inr (i, nodes') \<Rightarrow> (case compile_members pr nodes' kv d of
        Inl e \<Rightarrow> Inl e
      | Inr (vals, nodes'') \<Rightarrow> Inr (i # vals, nodes'')))"
  by pat_completeness auto
termination
  by (relation "measures [\<lambda>x. case x of Inl (_, _, _, d) \<Rightarrow> 6 - d | Inr (_, _, _, d) \<Rightarrow> 6 - d,
      \<lambda>x. case x of Inl _ \<Rightarrow> 0 | Inr (_, _, kv, _) \<Rightarrow> Suc (length kv)]")
    (auto simp: MAX_JSON_DEPTH_def)

declare compile_node.simps [simp del]

definition param_kind :: "(json \<Rightarrow> str) \<Rightarrow> node list \<Rightarrow> json \<Rightarrow> grammar_error + (pkind \<times> node list)" where
  "param_kind pr nodes s = (case raw_enum s of
      Some opts \<Rightarrow> Inr (PRawEnum opts, nodes)
    | None \<Rightarrow> if resolves_to_string s then Inr (PRawStr, nodes)
        else (case compile_node pr nodes s 0 of Inl e \<Rightarrow> Inl e | Inr (i, nodes') \<Rightarrow> Inr (PJson i, nodes')))"

text \<open>The loop over the sorted parameters of one tool, from index \<open>i\<close>.\<close>

fun compile_params :: "(json \<Rightarrow> str) \<Rightarrow> str list \<Rightarrow> nat \<Rightarrow> (str \<times> json) list \<Rightarrow> node list \<Rightarrow> tool
    \<Rightarrow> grammar_error + (tool \<times> node list)" where
  "compile_params pr req i [] nodes t = Inr (t, nodes)"
| "compile_params pr req i ((k, v) # ps) nodes t = (case param_kind pr nodes v of
      Inl e \<Rightarrow> Inl e
    | Inr (kind, nodes') \<Rightarrow> compile_params pr req (Suc i) ps nodes'
        (t\<lparr>pnames := pnames t @ [k], kinds := kinds t @ [kind],
           required := (if k \<in> set req then required t OR push_bit i 1 else required t)\<rparr>))"

definition unwritable :: "bool \<Rightarrow> str \<Rightarrow> bool" where
  "unwritable glm k \<longleftrightarrow> k = [] \<or> 255 < length k \<or> CHR ''>'' \<in> set k \<or> CHR 0x0A \<in> set k \<or> glm \<and> CHR ''<'' \<in> set k"

definition compile_tool :: "(json \<Rightarrow> str) \<Rightarrow> bool \<Rightarrow> str \<Rightarrow> json \<Rightarrow> node list \<Rightarrow> grammar_error + (tool \<times> node list)" where
  "compile_tool pr glm name f nodes = (
     let params = obj_get ''parameters'' f;
         props = (case Option.bind (Option.bind params (obj_get ''properties'')) as_object of Some p \<Rightarrow> p | None \<Rightarrow> []) in
     case find (\<lambda>(k, v). unwritable glm k) props of
       Some (k, v) \<Rightarrow> Inl (ParamNameUnwritable k name)
     | None \<Rightarrow> if 64 < length props then Inl (TooManyParams name)
         else compile_params pr (required_names params) 0 (sort_by (\<lambda>a b. cmp (fst a) (fst b)) props) nodes
           \<lparr>pnames = [], kinds = [], required = 0\<rparr>)"

fun compile_tools :: "(json \<Rightarrow> str) \<Rightarrow> bool \<Rightarrow> str option \<Rightarrow> json list \<Rightarrow> node list \<Rightarrow> (str \<times> tool) list
    \<Rightarrow> grammar_error + ((str \<times> tool) list \<times> node list)" where
  "compile_tools pr glm only [] nodes acc = Inr (acc, nodes)"
| "compile_tools pr glm only (t # ts) nodes acc = (case obj_get ''function'' t of
      None \<Rightarrow> compile_tools pr glm only ts nodes acc
    | Some f \<Rightarrow> (case Option.bind (obj_get ''name'' f) as_str of
        None \<Rightarrow> compile_tools pr glm only ts nodes acc
      | Some name \<Rightarrow>
          if only \<noteq> None \<and> only \<noteq> Some name then compile_tools pr glm only ts nodes acc
          else if unwritable glm name then Inl (ToolNameUnwritable name)
          else if name \<in> fst ` set acc then compile_tools pr glm only ts nodes acc
          else (case compile_tool pr glm name f nodes of
              Inl e \<Rightarrow> Inl e
            | Inr (tool, nodes') \<Rightarrow> compile_tools pr glm only ts nodes' (acc @ [(name, tool)]))))"

definition build_markup :: "(json \<Rightarrow> str) \<Rightarrow> json \<Rightarrow> mode \<Rightarrow> bool \<Rightarrow> str option \<Rightarrow> markup \<Rightarrow> grammar_error + grammar" where
  "build_markup pr tools mode parallel only markup = (case as_array tools of
      None \<Rightarrow> Inl NoToolsArray
    | Some arr \<Rightarrow> (case compile_tools pr (markup = Glm) only arr [NAny, NOpenObj, NArr N_ANY] [] of
        Inl e \<Rightarrow> Inl e
      | Inr (by_name, nodes) \<Rightarrow>
          if by_name = [] then Inl (case only of Some o' \<Rightarrow> ChoiceNamesNoTool o' | None \<Rightarrow> NoNamedTool)
          else let s = sort_by (\<lambda>a b. cmp (fst a) (fst b)) by_name in
            Inr \<lparr>g_names = map fst s, g_tools = map snd s, g_nodes = nodes, g_mode = mode,
                 g_parallel = parallel, g_markup = markup\<rparr>))"

end
