(* ===== verification/GrammarStep.thy ===== *)
theory GrammarStep
  imports Grammar
begin

text \<open>
  The byte machine of \<open>engine/src/toolgrammar.rs\<close>: the frame of a call (\<open>ToolGrammar::step\<close>),
  the JSON machine inside it (\<open>j_step\<close> and its helpers), and what each state admits at the end
  of generation. A panic of the code (an index out of range, an \<open>unreachable!\<close>) is \<open>None\<close>;
  a refused byte is a result. The \<open>u8\<close> and \<open>u16\<close> fields are natural numbers, reduced where
  the code casts or increments them.
\<close>

section \<open>Machine integers and slices\<close>

definition as_u8 :: "nat \<Rightarrow> nat" where "as_u8 n = n mod 256"
definition as_u16 :: "nat \<Rightarrow> nat" where "as_u16 n = n mod 65536"

lemma as_u8_small [simp]: "n < 256 \<Longrightarrow> as_u8 n = n"
  by (simp add: as_u8_def)

lemma as_u16_small [simp]: "n < 65536 \<Longrightarrow> as_u16 n = n"
  by (simp add: as_u16_def)

definition idx :: "'a list \<Rightarrow> nat \<Rightarrow> 'a option" where
  "idx xs i = (if i < length xs then Some (xs ! i) else None)"

lemma idx_Some: "idx xs i = Some x \<longleftrightarrow> i < length xs \<and> x = xs ! i"
  by (auto simp: idx_def)

lemma idx_in [simp]: "i < length xs \<Longrightarrow> idx xs i = Some (xs ! i)"
  by (simp add: idx_def)

definition count_ones :: "'a::len word \<Rightarrow> nat" where
  "count_ones w = length (filter (bit w) [0..<LENGTH('a)])"

section \<open>The frame literals\<close>

definition L_OPEN :: nat where "L_OPEN = 0"
definition L_FGT :: nat where "L_FGT = 1"
definition L_PARAM :: nat where "L_PARAM = 2"
definition L_PGT :: nat where "L_PGT = 3"
definition L_FCLOSE :: nat where "L_FCLOSE = 4"
definition L_CALL_CLOSE :: nat where "L_CALL_CLOSE = 5"
definition L_PCLOSE :: nat where "L_PCLOSE = 6"
definition L_NL :: nat where "L_NL = 7"
definition L_G_KEY :: nat where "L_G_KEY = 8"
definition L_G_KV :: nat where "L_G_KV = 9"
definition L_G_VCLOSE :: nat where "L_G_VCLOSE = 10"
definition L_G_CALL_CLOSE :: nat where "L_G_CALL_CLOSE = 11"

lemmas lit_ids = L_OPEN_def L_FGT_def L_PARAM_def L_PGT_def L_FCLOSE_def L_CALL_CLOSE_def
  L_PCLOSE_def L_NL_def L_G_KEY_def L_G_KV_def L_G_VCLOSE_def L_G_CALL_CLOSE_def

definition newline :: char where "newline = CHR 0x0A"

definition LITS :: "str list" where
  "LITS = [newline # ''<function='', ''>'' @ [newline], ''<parameter='', ''>'' @ [newline], ''</function>'',
     newline # ''</tool_call>'', newline # ''</parameter>'' @ [newline], [newline], ''<arg_key>'',
     ''</arg_key><arg_value>'', ''</arg_value>'', ''</tool_call>'']"

definition GUARD :: "str list" where "GUARD = [''</parameter>'', ''</tool_call>'']"
definition GUARD_GLM :: "str list" where "GUARD_GLM = [''</arg_value>'', ''</tool_call>'']"
definition GUARD_LEN :: nat where "GUARD_LEN = 12"
definition WS_MAX :: nat where "WS_MAX = 20"
definition BETWEEN_WS_MAX :: nat where "BETWEEN_WS_MAX = 22"
definition BETWEEN_NL_MAX :: nat where "BETWEEN_NL_MAX = 2"

section \<open>The matcher state\<close>

record frame =
  f_node :: nat
  f_st :: nat
  f_key :: nat
  f_seen :: u32

definition frame_default :: frame where "frame_default = \<lparr>f_node = 0, f_st = 0, f_key = 0, f_seen = 0\<rparr>"

definition OBJ_FIRST :: nat where "OBJ_FIRST = 0"
definition OBJ_KEY :: nat where "OBJ_KEY = 1"
definition OBJ_COLON :: nat where "OBJ_COLON = 2"
definition OBJ_VAL :: nat where "OBJ_VAL = 3"
definition OBJ_NEXT :: nat where "OBJ_NEXT = 4"
definition ARR_FIRST :: nat where "ARR_FIRST = 5"
definition ARR_VAL :: nat where "ARR_VAL = 6"
definition ARR_NEXT :: nat where "ARR_NEXT = 7"

lemmas frame_ids = OBJ_FIRST_def OBJ_KEY_def OBJ_COLON_def OBJ_VAL_def OBJ_NEXT_def
  ARR_FIRST_def ARR_VAL_def ARR_NEXT_def

datatype sc = ScNone | ScStr nat nat nat | ScKey nat nat nat | ScCh nat nat nat nat
  | ScNum bool nat nat | ScLit nat nat

record js =
  j_top :: nat
  j_depth :: nat
  j_done :: bool
  j_ws :: nat
  j_sc :: sc
  j_fr :: "frame list"

definition js_empty :: js where
  "js_empty = \<lparr>j_top = 0, j_depth = 0, j_done = False, j_ws = 0, j_sc = ScNone,
     j_fr = replicate MAX_JSON_DEPTH frame_default\<rparr>"

definition js_new :: "nat \<Rightarrow> js" where
  "js_new n = js_empty\<lparr>j_top := n\<rparr>"

datatype ph = Idle | PhLit nat nat | FName nat nat nat | PhBody | BodyLt | PName nat nat nat
  | RawStr nat nat bool bool | REnum nat nat nat | PhJson | JTail nat | Between nat nat
  | GBody | GBodyLt

record st =
  s_ph :: ph
  s_tool :: nat
  s_param :: nat
  s_seen :: u64
  s_j :: js

definition st_idle :: st where
  "st_idle = \<lparr>s_ph = Idle, s_tool = 0, s_param = 0, s_seen = 0, s_j = js_empty\<rparr>"

definition in_call :: "st \<Rightarrow> bool" where
  "in_call s \<longleftrightarrow> s_ph s \<noteq> Idle"

section \<open>Choices over sorted strings\<close>

datatype choice_r = ChCont nat nat | ChDone nat | ChRej

text \<open>\<open>slice::partition_point\<close> on a slice partitioned by the predicate.\<close>

definition partition_point :: "('a \<Rightarrow> bool) \<Rightarrow> 'a list \<Rightarrow> nat" where
  "partition_point P xs = length (takeWhile P xs)"

definition choice_step :: "str list \<Rightarrow> nat \<Rightarrow> nat \<Rightarrow> nat \<Rightarrow> char \<Rightarrow> (nat \<Rightarrow> bool) \<Rightarrow> choice_r option" where
  "choice_step opts lo hi off b alive = (if lo \<le> hi \<and> hi \<le> length opts then
     (let r = take (hi - lo) (drop lo opts);
          a = lo + partition_point (\<lambda>o'. length o' \<le> off \<or> o' ! off < b) r;
          z = lo + partition_point (\<lambda>o'. length o' \<le> off \<or> o' ! off \<le> b) r in
      if a < z \<and> list_ex alive [a..<z] then Some (ChCont a z)
      else case idx opts lo of
          None \<Rightarrow> None
        | Some o' \<Rightarrow> if length o' = off \<and> alive lo then Some (ChDone lo) else Some ChRej)
     else None)"

section \<open>The guard\<close>

text \<open>
  Progress \<open>g\<close> in the closing marker \<open>pat\<close>. A completed marker is the error (left) side.
\<close>

definition guard_hit :: "str list \<Rightarrow> nat \<Rightarrow> nat \<Rightarrow> char \<Rightarrow> nat option option" where
  "guard_hit gd g pat b = (if g = 1 then Some (if b = CHR ''/'' then Some 0 else None)
     else if g = 2 then (case idx gd 0 of None \<Rightarrow> None | Some m0 \<Rightarrow> (case idx m0 2 of None \<Rightarrow> None | Some c0 \<Rightarrow>
         if b = c0 then Some (Some 0) else (case idx gd 1 of None \<Rightarrow> None | Some m1 \<Rightarrow> (case idx m1 2 of None \<Rightarrow> None | Some c1 \<Rightarrow>
         Some (if b = c1 then Some 1 else None)))))
     else (case idx gd pat of None \<Rightarrow> None | Some m \<Rightarrow> (case idx m g of None \<Rightarrow> None | Some c \<Rightarrow>
         Some (if c = b then Some pat else None))))"

definition guard_restart :: "char \<Rightarrow> nat + (nat \<times> nat)" where
  "guard_restart b = (if b = CHR ''<'' then Inr (1, 0) else Inr (0, 0))"

definition guard_step :: "str list \<Rightarrow> nat \<Rightarrow> nat \<Rightarrow> char \<Rightarrow> (nat + (nat \<times> nat)) option" where
  "guard_step gd g pat b = (if 0 < g then (case guard_hit gd g pat b of
       None \<Rightarrow> None
     | Some (Some p) \<Rightarrow> (let g' = as_u8 (g + 1) in if g' = GUARD_LEN then Some (Inl p) else Some (Inr (g', p)))
     | Some None \<Rightarrow> Some (guard_restart b))
   else Some (guard_restart b))"

definition guard :: "grammar \<Rightarrow> str list" where
  "guard g = (case g_markup g of Qwen \<Rightarrow> GUARD | Glm \<Rightarrow> GUARD_GLM)"

section \<open>The JSON machine\<close>

datatype jr = ROk | RRej | RPass

definition is_ws :: "char \<Rightarrow> bool" where
  "is_ws b \<longleftrightarrow> b \<in> {CHR '' '', CHR 0x09, CHR 0x0A, CHR 0x0D}"

definition j_value_done :: "grammar \<Rightarrow> js \<Rightarrow> js option" where
  "j_value_done g j0 = (let j = j0\<lparr>j_sc := ScNone, j_ws := 0\<rparr> in
     if j_depth j = 0 then Some (j\<lparr>j_done := True\<rparr>)
     else case idx (j_fr j) (j_depth j - 1) of
       None \<Rightarrow> None
     | Some f \<Rightarrow>
         if f_st f = OBJ_VAL then (case idx (g_nodes g) (f_node f) of
             None \<Rightarrow> None
           | Some n \<Rightarrow> (let f' = (case n of NObj _ _ _ \<Rightarrow> f\<lparr>f_seen := f_seen f OR push_bit (f_key f) 1\<rparr> | _ \<Rightarrow> f) in
               Some (j\<lparr>j_fr := (j_fr j)[j_depth j - 1 := f'\<lparr>f_st := OBJ_NEXT\<rparr>]\<rparr>)))
         else if f_st f = ARR_FIRST \<or> f_st f = ARR_VAL
         then Some (j\<lparr>j_fr := (j_fr j)[j_depth j - 1 := f\<lparr>f_st := ARR_NEXT\<rparr>]\<rparr>)
         else Some j)"

definition j_push :: "js \<Rightarrow> nat \<Rightarrow> nat \<Rightarrow> (jr \<times> js) option" where
  "j_push j node s = (if j_depth j \<ge> MAX_JSON_DEPTH then Some (RRej, j)
     else if j_depth j < length (j_fr j)
     then Some (ROk, j\<lparr>j_fr := (j_fr j)[j_depth j := \<lparr>f_node = node, f_st = s, f_key = 0, f_seen = 0\<rparr>],
       j_depth := j_depth j + 1, j_ws := 0\<rparr>)
     else None)"

definition j_pop :: "grammar \<Rightarrow> js \<Rightarrow> (jr \<times> js) option" where
  "j_pop g j = (if j_depth j = 0 \<or> length (j_fr j) < j_depth j then None
     else map_option (\<lambda>j'. (ROk, j'))
       (j_value_done g (j\<lparr>j_depth := j_depth j - 1, j_fr := (j_fr j)[j_depth j - 1 := frame_default]\<rparr>)))"

definition j_close_obj :: "grammar \<Rightarrow> js \<Rightarrow> (jr \<times> js) option" where
  "j_close_obj g j = (if j_depth j = 0 then None else case idx (j_fr j) (j_depth j - 1) of
      None \<Rightarrow> None
    | Some f \<Rightarrow> (case idx (g_nodes g) (f_node f) of
        None \<Rightarrow> None
      | Some (NObj keys vals req) \<Rightarrow> if f_seen f AND req \<noteq> req then Some (RRej, j) else j_pop g j
      | Some _ \<Rightarrow> j_pop g j))"

text \<open>
  The number automaton: 0 start, 1 after the minus, 2 a lone zero, 3 integer digits, 4 after
  the point, 5 fraction digits, 6 after the e, 7 after its sign, 8 exponent zero, 9 exponent digits.
\<close>

definition num_next :: "bool \<Rightarrow> nat \<Rightarrow> nat \<Rightarrow> char \<Rightarrow> (nat \<times> nat) option" where
  "num_next whole p n b = (let d = is_digit b; nz = is_digit b \<and> b \<noteq> CHR ''0'' in
     if p = 0 \<and> b = CHR ''-'' then Some (1, 0)
     else if (p = 0 \<or> p = 1) \<and> b = CHR ''0'' then Some (2, 1)
     else if (p = 0 \<or> p = 1) \<and> nz then Some (3, 1)
     else if p = 3 \<and> d \<and> n < 16 then Some (3, as_u8 (n + 1))
     else if (p = 2 \<or> p = 3) \<and> b = CHR ''.'' \<and> \<not> whole then Some (4, 0)
     else if (p = 2 \<or> p = 3 \<or> p = 5) \<and> (b = CHR ''e'' \<or> b = CHR ''E'') \<and> \<not> whole then Some (6, 0)
     else if p = 4 \<and> d then Some (5, 1)
     else if p = 5 \<and> d \<and> n < 16 then Some (5, as_u8 (n + 1))
     else if p = 6 \<and> (b = CHR ''+'' \<or> b = CHR ''-'') then Some (7, 0)
     else if (p = 6 \<or> p = 7) \<and> b = CHR ''0'' then Some (8, 1)
     else if (p = 6 \<or> p = 7) \<and> nz then Some (9, 1)
     else if p = 9 \<and> d \<and> n < 16 then Some (9, as_u8 (n + 1))
     else None)"

definition num_accepts :: "nat \<Rightarrow> bool" where
  "num_accepts p \<longleftrightarrow> p \<in> {2, 3, 5, 8, 9}"

text \<open>The state waits for the first byte of a value: what the recursion of \<open>j_struct\<close> rests on.\<close>

definition wants_value :: "js \<Rightarrow> bool" where
  "wants_value j \<longleftrightarrow> (if j_depth j = 0 then \<not> j_done j else case idx (j_fr j) (j_depth j - 1) of
     None \<Rightarrow> False | Some f \<Rightarrow> f_st f = OBJ_VAL \<or> f_st f = ARR_FIRST \<or> f_st f = ARR_VAL)"

lemma value_done_wants: "j_value_done g j = Some j' \<Longrightarrow> \<not> wants_value j'"
  by (auto simp: j_value_done_def wants_value_def Let_def idx_Some frame_ids split: if_splits option.splits node.splits)

fun key_start :: "str list \<Rightarrow> u32 \<Rightarrow> js \<Rightarrow> char \<Rightarrow> (jr \<times> js) option" where
  "key_start keys seen j b = (case choice_step keys 0 (length keys) 0 b (\<lambda>i. seen AND push_bit i 1 = 0) of
      None \<Rightarrow> None
    | Some (ChCont a z) \<Rightarrow> Some (ROk, j\<lparr>j_sc := ScKey (as_u8 a) (as_u8 z) 1\<rparr>)
    | Some _ \<Rightarrow> Some (RRej, j))"

definition set_top :: "(frame \<Rightarrow> frame) \<Rightarrow> js \<Rightarrow> js" where
  "set_top u j = j\<lparr>j_fr := (j_fr j)[j_depth j - 1 := u (j_fr j ! (j_depth j - 1))]\<rparr>"

text \<open>The first byte of a value; the scalars that hand a byte on; a byte between scalars.\<close>

function j_start :: "grammar \<Rightarrow> js \<Rightarrow> nat \<Rightarrow> char \<Rightarrow> (jr \<times> js) option"
  and j_choice :: "grammar \<Rightarrow> js \<Rightarrow> nat \<Rightarrow> nat \<Rightarrow> nat \<Rightarrow> nat \<Rightarrow> char \<Rightarrow> (jr \<times> js) option"
  and j_num :: "grammar \<Rightarrow> js \<Rightarrow> bool \<Rightarrow> nat \<Rightarrow> nat \<Rightarrow> char \<Rightarrow> (jr \<times> js) option"
  and j_struct :: "grammar \<Rightarrow> js \<Rightarrow> char \<Rightarrow> (jr \<times> js) option"
where
  "j_start g j node b = (case idx (g_nodes g) node of
      None \<Rightarrow> None
    | Some (NChoice o') \<Rightarrow> j_choice g (j\<lparr>j_sc := ScCh node 0 (as_u16 (length o')) 0\<rparr>) node 0 (as_u16 (length o')) 0 b
    | Some n \<Rightarrow>
        if (n = NAny \<or> n = NStr) \<and> b = dq then Some (ROk, j\<lparr>j_sc := ScStr 0 0 0\<rparr>)
        else if (n = NAny \<or> n = NNum) \<and> (b = CHR ''-'' \<or> is_digit b) then j_num g (j\<lparr>j_sc := ScNum False 0 0\<rparr>) False 0 0 b
        else if n = NInt \<and> (b = CHR ''-'' \<or> is_digit b) then j_num g (j\<lparr>j_sc := ScNum True 0 0\<rparr>) True 0 0 b
        else if (n = NAny \<or> n = NBool) \<and> b = CHR ''t'' then Some (ROk, j\<lparr>j_sc := ScLit 0 1\<rparr>)
        else if (n = NAny \<or> n = NBool) \<and> b = CHR ''f'' then Some (ROk, j\<lparr>j_sc := ScLit 1 1\<rparr>)
        else if (n = NAny \<or> n = NNull) \<and> b = CHR ''n'' then Some (ROk, j\<lparr>j_sc := ScLit 2 1\<rparr>)
        else if n = NAny \<and> b = CHR ''{'' then j_push j N_OPEN_OBJ OBJ_FIRST
        else if n = NAny \<and> b = CHR ''['' then j_push j N_ANY_ARR ARR_FIRST
        else (case n of
            NObj _ _ _ \<Rightarrow> if b = CHR ''{'' then j_push j node OBJ_FIRST else Some (RRej, j)
          | NOpenObj \<Rightarrow> if b = CHR ''{'' then j_push j node OBJ_FIRST else Some (RRej, j)
          | NArr _ \<Rightarrow> if b = CHR ''['' then j_push j node ARR_FIRST else Some (RRej, j)
          | _ \<Rightarrow> Some (RRej, j)))"
| "j_choice g j node lo hi off b = (case idx (g_nodes g) node of
      Some (NChoice o') \<Rightarrow> (case choice_step o' lo hi off b (\<lambda>_. True) of
          None \<Rightarrow> None
        | Some (ChCont a z) \<Rightarrow> (let off' = as_u16 (off + 1) in
            if z - a = 1 \<and> length (o' ! a) = off' \<and> o' ! a \<noteq> [] \<and> last (o' ! a) = dq
            then map_option (\<lambda>j'. (ROk, j')) (j_value_done g j)
            else Some (ROk, j\<lparr>j_sc := ScCh node (as_u16 a) (as_u16 z) off'\<rparr>))
        | Some (ChDone i) \<Rightarrow> if off = 0 then Some (RRej, j)
            else (case j_value_done g j of None \<Rightarrow> None | Some j' \<Rightarrow> j_struct g j' b)
        | Some ChRej \<Rightarrow> Some (RRej, j))
    | _ \<Rightarrow> None)"
| "j_num g j whole p n b = (case num_next whole p n b of
      Some (p', n') \<Rightarrow> Some (ROk, j\<lparr>j_sc := ScNum whole p' n'\<rparr>)
    | None \<Rightarrow> if num_accepts p then (case j_value_done g j of None \<Rightarrow> None | Some j' \<Rightarrow> j_struct g j' b)
        else Some (RRej, j))"
| "j_struct g j b = (if j_depth j = 0 then (if j_done j then Some (RPass, j) else j_start g j (j_top j) b)
     else if is_ws b then (if j_ws j \<ge> WS_MAX then Some (RRej, j) else Some (ROk, j\<lparr>j_ws := as_u8 (j_ws j + 1)\<rparr>))
     else (case idx (j_fr j) (j_depth j - 1) of
        None \<Rightarrow> None
      | Some f \<Rightarrow> (case idx (g_nodes g) (f_node f) of
          None \<Rightarrow> None
        | Some node \<Rightarrow> (let j' = j\<lparr>j_ws := 0\<rparr> in
            if f_st f = OBJ_FIRST \<or> f_st f = OBJ_KEY then
              (if b = CHR ''}'' \<and> f_st f = OBJ_FIRST then j_close_obj g j'
               else if b \<noteq> dq then Some (RRej, j')
               else (case node of
                   NObj keys _ _ \<Rightarrow> key_start keys (f_seen f) j' b
                 | _ \<Rightarrow> Some (ROk, j'\<lparr>j_sc := ScStr 0 0 0\<rparr>)))
            else if f_st f = OBJ_COLON then
              (if b \<noteq> CHR '':'' then Some (RRej, j') else Some (ROk, set_top (\<lambda>f. f\<lparr>f_st := OBJ_VAL\<rparr>) j'))
            else if f_st f = OBJ_VAL then (case node of
                NObj _ vals _ \<Rightarrow> (case idx vals (f_key f) of None \<Rightarrow> None | Some vn \<Rightarrow> j_start g j' vn b)
              | _ \<Rightarrow> j_start g j' N_ANY b)
            else if f_st f = OBJ_NEXT then
              (if b = CHR ''}'' then j_close_obj g j'
               else if b = CHR '','' then
                 (if (case node of NObj keys _ _ \<Rightarrow> count_ones (f_seen f) \<ge> length keys | _ \<Rightarrow> False)
                  then Some (RRej, j') else Some (ROk, set_top (\<lambda>f. f\<lparr>f_st := OBJ_KEY\<rparr>) j'))
               else Some (RRej, j'))
            else if f_st f = ARR_FIRST \<or> f_st f = ARR_VAL then
              (if b = CHR '']'' \<and> f_st f = ARR_FIRST then j_pop g j'
               else (case node of NArr item \<Rightarrow> j_start g j' item b | _ \<Rightarrow> None))
            else if f_st f = ARR_NEXT then
              (if b = CHR '']'' then j_pop g j'
               else if b = CHR '','' then Some (ROk, set_top (\<lambda>f. f\<lparr>f_st := ARR_VAL\<rparr>) j')
               else Some (RRej, j'))
            else Some (RRej, j')))))"
  by pat_completeness auto
termination
proof (relation "measure (\<lambda>x. case x of
      Inl (Inl _) \<Rightarrow> 2 | Inl (Inr _) \<Rightarrow> 1 | Inr (Inl _) \<Rightarrow> 1
    | Inr (Inr (_, j, _)) \<Rightarrow> if wants_value j then 3 else 0)", goal_cases)
qed (auto dest: value_done_wants simp: wants_value_def)

declare j_start.simps [simp del] j_choice.simps [simp del] j_num.simps [simp del] j_struct.simps [simp del]

definition str_esc :: "char \<Rightarrow> bool" where
  "str_esc b \<longleftrightarrow> b = dq \<or> b = bsl \<or> b \<in> set ''/bfnrt''"

text \<open>One byte inside a free string, after its opening quote.\<close>

definition j_string :: "grammar \<Rightarrow> js \<Rightarrow> nat \<Rightarrow> nat \<Rightarrow> nat \<Rightarrow> char \<Rightarrow> (jr \<times> js) option" where
  "j_string g j gp pat esc b = (if esc = 1 then
       (if str_esc b then Some (ROk, j\<lparr>j_sc := ScStr 0 0 0\<rparr>)
        else if b = CHR ''u'' then Some (ROk, j\<lparr>j_sc := ScStr 0 0 14\<rparr>)
        else Some (RRej, j))
     else if esc \<ge> 10 then
       (if \<not> hex_digit b then Some (RRej, j)
        else Some (ROk, j\<lparr>j_sc := ScStr 0 0 (if esc = 11 then 0 else esc - 1)\<rparr>))
     else if b = dq then
       (if j_depth j > 0 then (case idx (j_fr j) (j_depth j - 1) of
            None \<Rightarrow> None
          | Some f \<Rightarrow> if f_st f = OBJ_FIRST \<or> f_st f = OBJ_KEY
              then Some (ROk, (set_top (\<lambda>f. f\<lparr>f_st := OBJ_COLON\<rparr>) j)\<lparr>j_sc := ScNone, j_ws := 0\<rparr>)
              else map_option (\<lambda>j'. (ROk, j')) (j_value_done g j))
        else map_option (\<lambda>j'. (ROk, j')) (j_value_done g j))
     else if b = bsl then Some (ROk, j\<lparr>j_sc := ScStr 0 0 1\<rparr>)
     else if (of_char b :: nat) < 32 then Some (RRej, j)
     else (case guard_step (guard g) gp pat b of
         None \<Rightarrow> None
       | Some (Inr (g', p')) \<Rightarrow> Some (ROk, j\<lparr>j_sc := ScStr g' p' 0\<rparr>)
       | Some (Inl _) \<Rightarrow> Some (RRej, j)))"

text \<open>One byte inside a strict object's key.\<close>

definition j_key :: "grammar \<Rightarrow> js \<Rightarrow> nat \<Rightarrow> nat \<Rightarrow> nat \<Rightarrow> char \<Rightarrow> (jr \<times> js) option" where
  "j_key g j lo hi off b = (if j_depth j = 0 then None else case idx (j_fr j) (j_depth j - 1) of
      None \<Rightarrow> None
    | Some f \<Rightarrow> (case idx (g_nodes g) (f_node f) of
        Some (NObj keys _ _) \<Rightarrow> (case choice_step keys lo hi off b (\<lambda>i. f_seen f AND push_bit i 1 = 0) of
            None \<Rightarrow> None
          | Some (ChCont a z) \<Rightarrow> (let off' = as_u16 (off + 1) in
              if length (keys ! a) = off'
              then Some (ROk, (set_top (\<lambda>f. f\<lparr>f_key := as_u8 a, f_st := OBJ_COLON\<rparr>) j)\<lparr>j_sc := ScNone, j_ws := 0\<rparr>)
              else Some (ROk, j\<lparr>j_sc := ScKey (as_u8 a) (as_u8 z) off'\<rparr>))
          | Some _ \<Rightarrow> Some (RRej, j))
      | _ \<Rightarrow> None))"

definition json_literals :: "str list" where
  "json_literals = [''true'', ''false'', ''null'']"

definition j_lit :: "grammar \<Rightarrow> js \<Rightarrow> nat \<Rightarrow> nat \<Rightarrow> char \<Rightarrow> (jr \<times> js) option" where
  "j_lit g j which off b = (case idx json_literals which of
      None \<Rightarrow> None
    | Some lit \<Rightarrow> (case idx lit off of
        None \<Rightarrow> None
      | Some c \<Rightarrow> if c \<noteq> b then Some (RRej, j)
          else if off + 1 = length lit then map_option (\<lambda>j'. (ROk, j')) (j_value_done g j)
          else Some (ROk, j\<lparr>j_sc := ScLit which (as_u8 (off + 1))\<rparr>)))"

definition j_step :: "grammar \<Rightarrow> js \<Rightarrow> char \<Rightarrow> (jr \<times> js) option" where
  "j_step g j b = (case j_sc j of
      ScNone \<Rightarrow> j_struct g j b
    | ScStr gp pat esc \<Rightarrow> j_string g j gp pat esc b
    | ScKey lo hi off \<Rightarrow> j_key g j lo hi off b
    | ScCh node lo hi off \<Rightarrow> j_choice g j node lo hi off b
    | ScNum whole p n \<Rightarrow> j_num g j whole p n b
    | ScLit which off \<Rightarrow> j_lit g j which off b)"

section \<open>The frame machine\<close>

definition unseen_param :: "grammar \<Rightarrow> st \<Rightarrow> bool option" where
  "unseen_param g s = map_option (\<lambda>t. 0 < length (pnames t) \<and> count_ones (s_seen s) < length (pnames t))
     (idx (g_tools g) (s_tool s))"

text \<open>How the value of parameter \<open>s_param\<close> starts, and the state after a whole literal.\<close>

definition start_value :: "grammar \<Rightarrow> st \<Rightarrow> st option" where
  "start_value g s = (case idx (g_tools g) (s_tool s) of
      None \<Rightarrow> None
    | Some t \<Rightarrow> (case idx (kinds t) (s_param s) of
        None \<Rightarrow> None
      | Some PRawStr \<Rightarrow> Some (s\<lparr>s_ph := RawStr 0 0 False False\<rparr>)
      | Some (PRawEnum o') \<Rightarrow> Some (s\<lparr>s_ph := REnum 0 (as_u16 (length o')) 0\<rparr>)
      | Some (PJson n) \<Rightarrow> Some (s\<lparr>s_j := js_new n, s_ph := PhJson\<rparr>)))"

definition start_pname :: "grammar \<Rightarrow> st \<Rightarrow> st option" where
  "start_pname g s = map_option (\<lambda>t. s\<lparr>s_ph := PName 0 (as_u16 (length (pnames t))) 0\<rparr>) (idx (g_tools g) (s_tool s))"

definition after_lit :: "grammar \<Rightarrow> st \<Rightarrow> nat \<Rightarrow> st option" where
  "after_lit g s i = (
     if i = L_OPEN then Some (s\<lparr>s_ph := FName 0 (as_u16 (length (g_names g))) 0\<rparr>)
     else if i = L_FGT \<or> i = L_PCLOSE \<or> i = L_NL then Some (s\<lparr>s_ph := PhBody\<rparr>)
     else if i = L_PARAM then start_pname g s
     else if i = L_PGT \<or> i = L_G_KV then start_value g s
     else if i = L_FCLOSE then Some (s\<lparr>s_ph := PhLit L_CALL_CLOSE 0\<rparr>)
     else if i = L_CALL_CLOSE \<or> i = L_G_CALL_CLOSE then Some (s\<lparr>s_ph := Between 0 0\<rparr>)
     else if i = L_G_KEY then start_pname g s
     else if i = L_G_VCLOSE then Some (s\<lparr>s_ph := GBody\<rparr>)
     else None)"

definition refuse :: "st \<Rightarrow> (bool \<times> st) option" where "refuse s = Some (False, s)"
definition consume :: "st \<Rightarrow> ph \<Rightarrow> (bool \<times> st) option" where "consume s p = Some (True, s\<lparr>s_ph := p\<rparr>)"

definition step_raw :: "grammar \<Rightarrow> st \<Rightarrow> nat \<Rightarrow> nat \<Rightarrow> bool \<Rightarrow> bool \<Rightarrow> char \<Rightarrow> (bool \<times> st) option" where
  "step_raw g s gp pat nlb last_nl b = (case guard_step (guard g) gp pat b of
      None \<Rightarrow> None
    | Some (Inl p) \<Rightarrow> if p = 0
        then consume s (case g_markup g of Glm \<Rightarrow> GBody | Qwen \<Rightarrow> PhLit L_NL 0)
        else refuse s
    | Some (Inr (g2, p2)) \<Rightarrow> consume s
        (if g2 = 0 then RawStr 0 0 False (b = newline)
         else if g2 = 1 then RawStr 1 0 (gp = 0 \<and> last_nl) False
         else RawStr g2 p2 nlb False))"

text \<open>
  \<open>ToolGrammar::step\<close>. A phase that ends before the byte goes round the loop once more; those
  that do lead to phases that consume the byte or refuse it, so the loop ends.
\<close>

definition loops_again :: "st \<Rightarrow> bool" where
  "loops_again s \<longleftrightarrow> (case s_ph s of FName _ _ _ \<Rightarrow> True | PName _ _ _ \<Rightarrow> True | REnum _ _ _ \<Rightarrow> True | PhJson \<Rightarrow> True | _ \<Rightarrow> False)"

function step :: "grammar \<Rightarrow> st \<Rightarrow> char \<Rightarrow> (bool \<times> st) option" where
  "step g s b = (case s_ph s of
      Idle \<Rightarrow> Some (True, s)
    | PhLit i off \<Rightarrow> (case idx LITS i of
        None \<Rightarrow> None
      | Some lit \<Rightarrow> (case idx lit off of
          None \<Rightarrow> None
        | Some c \<Rightarrow> if c \<noteq> b then refuse s
            else (let off' = as_u8 (off + 1) in
              if off' = length lit then map_option (\<lambda>s'. (True, s')) (after_lit g s i)
              else consume s (PhLit i off'))))
    | FName lo hi off \<Rightarrow> (case choice_step (g_names g) lo hi off b (\<lambda>_. True) of
        None \<Rightarrow> None
      | Some (ChCont a z) \<Rightarrow> consume s (FName (as_u16 a) (as_u16 z) (as_u8 (off + 1)))
      | Some (ChDone i) \<Rightarrow> step g (s\<lparr>s_tool := as_u16 i, s_seen := 0,
          s_ph := (case g_markup g of Qwen \<Rightarrow> PhLit L_FGT 0 | Glm \<Rightarrow> GBody)\<rparr>) b
      | Some ChRej \<Rightarrow> refuse s)
    | PhBody \<Rightarrow> if b \<noteq> CHR ''<'' then refuse s else consume s BodyLt
    | BodyLt \<Rightarrow> (case (if b = CHR ''p'' then unseen_param g s else Some False) of
        None \<Rightarrow> None
      | Some u \<Rightarrow> if u then consume s (PhLit L_PARAM 2)
          else if b = CHR ''/'' then consume s (PhLit L_FCLOSE 2)
          else refuse s)
    | PName lo hi off \<Rightarrow> (case idx (g_tools g) (s_tool s) of
        None \<Rightarrow> None
      | Some t \<Rightarrow> (case choice_step (pnames t) lo hi off b (\<lambda>i. s_seen s AND push_bit i 1 = 0) of
          None \<Rightarrow> None
        | Some (ChCont a z) \<Rightarrow> consume s (PName (as_u16 a) (as_u16 z) (as_u8 (off + 1)))
        | Some (ChDone i) \<Rightarrow> step g (s\<lparr>s_param := as_u16 i, s_seen := s_seen s OR push_bit i 1,
            s_ph := (case g_markup g of Qwen \<Rightarrow> PhLit L_PGT 0 | Glm \<Rightarrow> PhLit L_G_KV 0)\<rparr>) b
        | Some ChRej \<Rightarrow> refuse s))
    | RawStr gp pat nlb last_nl \<Rightarrow> step_raw g s gp pat nlb last_nl b
    | REnum lo hi off \<Rightarrow> (case idx (g_tools g) (s_tool s) of
        None \<Rightarrow> None
      | Some t \<Rightarrow> (case idx (kinds t) (s_param s) of
          Some (PRawEnum opts) \<Rightarrow> (case choice_step opts lo hi off b (\<lambda>_. True) of
              None \<Rightarrow> None
            | Some (ChCont a z) \<Rightarrow> consume s (REnum (as_u16 a) (as_u16 z) (as_u16 (off + 1)))
            | Some (ChDone i) \<Rightarrow> step g (s\<lparr>s_ph := (case g_markup g of Qwen \<Rightarrow> PhLit L_PCLOSE 0 | Glm \<Rightarrow> PhLit L_G_VCLOSE 0)\<rparr>) b
            | Some ChRej \<Rightarrow> refuse s)
        | _ \<Rightarrow> None))
    | PhJson \<Rightarrow> (case j_step g (s_j s) b of
        None \<Rightarrow> None
      | Some (ROk, j') \<Rightarrow> Some (True, s\<lparr>s_j := j'\<rparr>)
      | Some (RRej, j') \<Rightarrow> refuse (s\<lparr>s_j := j'\<rparr>)
      | Some (RPass, j') \<Rightarrow> step g (s\<lparr>s_j := js_empty, s_ph := JTail 0\<rparr>) b)
    | JTail ws \<Rightarrow>
        if (b = CHR '' '' \<or> b = CHR 0x09) \<and> ws < WS_MAX then consume s (JTail (as_u8 (ws + 1)))
        else if b = newline \<and> g_markup g = Qwen then consume s (PhLit L_PCLOSE 1)
        else if b = CHR ''<'' \<and> g_markup g = Glm then consume s (PhLit L_G_VCLOSE 1)
        else refuse s
    | GBody \<Rightarrow> if b \<noteq> CHR ''<'' then refuse s else consume s GBodyLt
    | GBodyLt \<Rightarrow> (case (if b = CHR ''a'' then unseen_param g s else Some False) of
        None \<Rightarrow> None
      | Some u \<Rightarrow> if u then consume s (PhLit L_G_KEY 2)
          else if b = CHR ''/'' then consume s (PhLit L_G_CALL_CLOSE 2)
          else refuse s)
    | Between ws nls \<Rightarrow>
        if ws \<ge> BETWEEN_WS_MAX then refuse s
        else if b = CHR '' '' \<or> b = CHR 0x09 then consume s (Between (as_u8 (ws + 1)) nls)
        else if b = newline \<and> nls < BETWEEN_NL_MAX then consume s (Between (as_u8 (ws + 1)) (as_u8 (nls + 1)))
        else refuse s)"
  by pat_completeness auto
termination
  by (relation "measure (\<lambda>(g, s, b). if loops_again s then 1 else 0)")
    (auto simp: loops_again_def split: markup.splits)

declare step.simps [simp del]

section \<open>What a state admits\<close>

definition open_state :: "grammar \<Rightarrow> st" where
  "open_state g = (case g_markup g of
      Qwen \<Rightarrow> st_idle\<lparr>s_ph := PhLit L_OPEN 0\<rparr>
    | Glm \<Rightarrow> st_idle\<lparr>s_ph := FName 0 (as_u16 (length (g_names g))) 0\<rparr>)"

definition eos_ok :: "grammar \<Rightarrow> st \<Rightarrow> bool" where
  "eos_ok g s = (case s_ph s of Idle \<Rightarrow> g_mode g = ModeAuto | Between _ _ \<Rightarrow> True | _ \<Rightarrow> False)"

definition open_ok :: "grammar \<Rightarrow> st \<Rightarrow> bool" where
  "open_ok g s = (case s_ph s of Idle \<Rightarrow> True | Between _ _ \<Rightarrow> g_parallel g | _ \<Rightarrow> False)"

text \<open>A byte string through the machine: \<open>None\<close> a panic, otherwise the state if every byte stepped.\<close>

fun run_bytes :: "grammar \<Rightarrow> st \<Rightarrow> str \<Rightarrow> st option option" where
  "run_bytes g s [] = Some (Some s)"
| "run_bytes g s (b # bs) = (case step g s b of
      None \<Rightarrow> None
    | Some (False, _) \<Rightarrow> Some None
    | Some (True, s') \<Rightarrow> run_bytes g s' bs)"

end
