(* ===== verification/GrammarChoice.thy ===== *)
theory GrammarChoice
  imports GrammarStep
begin

text \<open>
  The choice over sorted strings: a range of indices stands for the strings that continue what
  has been read, and one byte narrows it exactly. \<open>partition_point\<close> is used on slices that are
  partitioned by its predicate, as its contract demands.
\<close>

section \<open>Lexicographic order\<close>

lemma append_le_append [simp]: "w @ x \<le> w @ y \<longleftrightarrow> (x :: str) \<le> y"
  by (induction w) auto

lemma is_prefix_refl [simp]: "is_prefix w w"
  by (simp add: is_prefix_def)

lemma is_prefix_Nil [simp]: "is_prefix [] w"
  by (simp add: is_prefix_def)

lemma is_prefix_snoc: "is_prefix (w @ [b]) x \<longleftrightarrow> is_prefix w x \<and> length w < length x \<and> x ! length w = b"
proof
  assume "is_prefix w x \<and> length w < length x \<and> x ! length w = b"
  then obtain r where r: "x = w @ r" "r \<noteq> []" "(w @ r) ! length w = b" by (auto simp: is_prefix_iff)
  then show "is_prefix (w @ [b]) x" by (cases r) (auto simp: is_prefix_iff)
qed (auto simp: is_prefix_iff nth_append)

lemma prefix_length_le: "is_prefix w x \<Longrightarrow> length w \<le> length x"
  by (auto simp: is_prefix_iff)

lemma is_prefix_same: "is_prefix w x \<Longrightarrow> length x \<le> length w \<Longrightarrow> x = w"
  by (auto simp: is_prefix_iff)

lemma is_prefix_le: "is_prefix w x \<Longrightarrow> w \<le> x"
  using append_le_append [of w "[]"] by (auto simp: is_prefix_iff)

lemma prefix_next_le:
  assumes "is_prefix w x" "is_prefix w y" "x \<le> y" "length w < length x"
  shows "length w < length y \<and> x ! length w \<le> y ! length w"
proof -
  from assms(1,2) obtain u v where x: "x = w @ u" and y: "y = w @ v" by (auto simp: is_prefix_iff)
  from assms x obtain c us where u: "u = c # us" by (cases u) auto
  from assms(3) x y u have "c # us \<le> v" by simp
  then obtain d vs where "v = d # vs" "c \<le> d" by (cases v) auto
  with x y u show ?thesis by simp
qed

section \<open>The partition point\<close>

lemma partition_point_nth:
  assumes "\<And>i j. i < j \<Longrightarrow> j < length r \<Longrightarrow> P (r ! j) \<Longrightarrow> P (r ! i)"
  shows "k < partition_point P r \<longleftrightarrow> k < length r \<and> P (r ! k)"
proof
  assume k: "k < partition_point P r"
  then have "takeWhile P r ! k \<in> set (takeWhile P r)" unfolding partition_point_def by (rule nth_mem)
  then have "P (takeWhile P r ! k)" by (rule set_takeWhileD [THEN conjunct2])
  with k show "k < length r \<and> P (r ! k)"
    using length_takeWhile_le [of P r] by (simp add: partition_point_def takeWhile_nth)
next
  assume k: "k < length r \<and> P (r ! k)"
  show "k < partition_point P r"
  proof (rule ccontr)
    assume "\<not> k < partition_point P r"
    then have l: "length (takeWhile P r) \<le> k" by (simp add: partition_point_def)
    with k have "\<not> P (r ! length (takeWhile P r))" by (intro nth_length_takeWhile) simp
    with l k assms [of "length (takeWhile P r)" k] show False by (cases "length (takeWhile P r) = k") auto
  qed
qed

section \<open>Ranges of candidates\<close>

text \<open>\<open>[lo, hi)\<close> are exactly the indices of the options that continue \<open>w\<close>.\<close>

definition choice_at :: "str list \<Rightarrow> str \<Rightarrow> nat \<Rightarrow> nat \<Rightarrow> bool" where
  "choice_at opts w lo hi \<longleftrightarrow> lo < hi \<and> hi \<le> length opts
     \<and> (\<forall>i. lo \<le> i \<and> i < hi \<longleftrightarrow> i < length opts \<and> is_prefix w (opts ! i))"

lemma choice_at_start: "opts \<noteq> [] \<Longrightarrow> choice_at opts [] 0 (length opts)"
  by (auto simp: choice_at_def)

lemma choice_at_prefix: "choice_at opts w lo hi \<Longrightarrow> lo \<le> i \<Longrightarrow> i < hi \<Longrightarrow> is_prefix w (opts ! i)"
  by (auto simp: choice_at_def)

lemma choice_at_mem: "choice_at opts w lo hi \<Longrightarrow> i < length opts \<Longrightarrow> is_prefix w (opts ! i) \<Longrightarrow> lo \<le> i \<and> i < hi"
  by (auto simp: choice_at_def)

lemma choice_at_bounds: "choice_at opts w lo hi \<Longrightarrow> lo < hi \<and> hi \<le> length opts"
  by (simp add: choice_at_def)

lemma choice_at_length:
  assumes "choice_at opts w lo hi" "\<And>x. x \<in> set opts \<Longrightarrow> length x < B"
  shows "length w < B"
proof -
  have "is_prefix w (opts ! lo)" using assms(1) by (auto simp: choice_at_def)
  moreover have "opts ! lo \<in> set opts" using choice_at_bounds [OF assms(1)] by simp
  ultimately show ?thesis using assms(2) [of "opts ! lo"] prefix_length_le [of w "opts ! lo"] by simp
qed

text \<open>
  One byte narrows the range: \<open>ChCont\<close> is the range of \<open>w @ [b]\<close>, \<open>ChDone\<close> says that the first
  candidate is \<open>w\<close> itself, and the byte continues no live candidate.
\<close>

lemma narrowed:
  fixes b :: char
  assumes s: "sorted opts" and c: "choice_at opts w lo hi"
  defines "r \<equiv> take (hi - lo) (drop lo opts)"
  defines "a \<equiv> lo + partition_point (\<lambda>x. length x \<le> length w \<or> x ! length w < b) r"
  defines "z \<equiv> lo + partition_point (\<lambda>x. length x \<le> length w \<or> x ! length w \<le> b) r"
  shows "a \<le> i \<and> i < z \<longleftrightarrow> i < length opts \<and> is_prefix (w @ [b]) (opts ! i)"
    and "z \<le> length opts"
proof -
  have b: "lo < hi" "hi \<le> length opts" using choice_at_bounds [OF c] by auto
  have rl: "length r = hi - lo" using b by (simp add: r_def)
  have rn: "r ! k = opts ! (lo + k)" if "k < hi - lo" for k using that b by (simp add: r_def)
  have pre: "is_prefix w (r ! k)" if "k < hi - lo" for k
    using choice_at_prefix [OF c, of "lo + k"] that by (simp add: rn)
  have le: "r ! j \<le> r ! k" if "j < k" "k < hi - lo" for j k
    using that b s by (simp add: rn sorted_nth_mono)
  have down: "length (r ! j) \<le> length w \<or> Q (r ! j ! length w)"
    if "j < k" "k < length r" "length (r ! k) \<le> length w \<or> Q (r ! k ! length w)"
      "\<And>c d. c \<le> d \<Longrightarrow> Q d \<Longrightarrow> Q c" for Q j k
    using prefix_next_le [OF pre [of j] pre [of k] le [of j k]] that rl by (cases "length w < length (r ! j)") auto
  have A: "k < partition_point (\<lambda>x. length x \<le> length w \<or> x ! length w < b) r
      \<longleftrightarrow> k < length r \<and> (length (r ! k) \<le> length w \<or> r ! k ! length w < b)" for k
    by (rule partition_point_nth) (rule down [where Q = "\<lambda>x. x < b"], auto)
  have Z: "k < partition_point (\<lambda>x. length x \<le> length w \<or> x ! length w \<le> b) r
      \<longleftrightarrow> k < length r \<and> (length (r ! k) \<le> length w \<or> r ! k ! length w \<le> b)" for k
    by (rule partition_point_nth) (rule down [where Q = "\<lambda>x. x \<le> b"], auto)
  show "z \<le> length opts"
    using length_takeWhile_le [of "\<lambda>x. length x \<le> length w \<or> x ! length w \<le> b" r] b
    by (simp add: z_def rl partition_point_def)
  show "a \<le> i \<and> i < z \<longleftrightarrow> i < length opts \<and> is_prefix (w @ [b]) (opts ! i)"
  proof (cases "lo \<le> i \<and> i < hi")
    case True
    define k where "k = i - lo"
    with True have k: "i = lo + k" "k < hi - lo" by auto
    have p: "is_prefix w (opts ! i)" using choice_at_prefix [OF c] True by blast
    have "a \<le> i \<and> i < z \<longleftrightarrow> \<not> k < a - lo \<and> k < z - lo" using k by (auto simp: a_def z_def)
    also have "\<dots> \<longleftrightarrow> \<not> (length (r ! k) \<le> length w \<or> r ! k ! length w < b) \<and> (length (r ! k) \<le> length w \<or> r ! k ! length w \<le> b)"
      using A [of k] Z [of k] k rl by (simp add: a_def z_def)
    also have "\<dots> \<longleftrightarrow> length w < length (opts ! i) \<and> opts ! i ! length w = b"
      using k rn by auto
    finally show ?thesis using p True b by (auto simp: is_prefix_snoc)
  next
    case False
    have "z \<le> hi"
      using length_takeWhile_le [of "\<lambda>x. length x \<le> length w \<or> x ! length w \<le> b" r] b
      by (simp add: z_def rl partition_point_def)
    then have "\<not> (a \<le> i \<and> i < z)" using False by (auto simp: a_def)
    moreover have "\<not> (i < length opts \<and> is_prefix (w @ [b]) (opts ! i))"
      using choice_at_mem [OF c] False by (auto simp: is_prefix_snoc)
    ultimately show ?thesis by blast
  qed
qed

lemma choice_step_cases:
  assumes "sorted opts" "choice_at opts w lo hi" "off = length w"
  obtains (Cont) a z where "choice_step opts lo hi off b alive = Some (ChCont a z)" "choice_at opts (w @ [b]) a z"
      "\<exists>i. a \<le> i \<and> i < z \<and> alive i"
  | (Done) "choice_step opts lo hi off b alive = Some (ChDone lo)" "opts ! lo = w" "alive lo" "lo < length opts"
      "\<And>i. i < length opts \<Longrightarrow> is_prefix (w @ [b]) (opts ! i) \<Longrightarrow> \<not> alive i"
  | (Rej) "choice_step opts lo hi off b alive = Some ChRej"
      "\<And>i. i < length opts \<Longrightarrow> is_prefix (w @ [b]) (opts ! i) \<Longrightarrow> \<not> alive i"
      "opts ! lo = w \<Longrightarrow> \<not> alive lo"
proof -
  define r where "r = take (hi - lo) (drop lo opts)"
  define a where "a = lo + partition_point (\<lambda>x. length x \<le> length w \<or> x ! length w < b) r"
  define z where "z = lo + partition_point (\<lambda>x. length x \<le> length w \<or> x ! length w \<le> b) r"
  note n = narrowed [OF assms(1,2), where b = b, folded r_def, folded a_def z_def]
  have b: "lo < hi" "hi \<le> length opts" using choice_at_bounds [OF assms(2)] by auto
  have lw: "length (opts ! lo) = off \<longleftrightarrow> opts ! lo = w"
    using choice_at_prefix [OF assms(2), of lo] b assms(3) is_prefix_same [of w "opts ! lo"] by auto
  have eq: "choice_step opts lo hi off b alive = (if a < z \<and> list_ex alive [a..<z] then Some (ChCont a z)
      else if opts ! lo = w \<and> alive lo then Some (ChDone lo) else Some ChRej)"
    using b lw assms(3) by (auto simp: choice_step_def Let_def r_def a_def z_def)
  show thesis
  proof (cases "a < z \<and> list_ex alive [a..<z]")
    case True
    then have "choice_at opts (w @ [b]) a z" using n(1,2) by (auto simp: choice_at_def)
    moreover have "\<exists>i. a \<le> i \<and> i < z \<and> alive i" using True by (auto simp: list_ex_iff)
    ultimately show thesis using Cont [of a z] True eq by simp
  next
    case False
    then have dead: "\<not> alive i" if "i < length opts" "is_prefix (w @ [b]) (opts ! i)" for i
      using n(1) [of i] that by (auto simp: list_ex_iff)
    show thesis
    proof (cases "opts ! lo = w \<and> alive lo")
      case True
      then show thesis using Done dead False eq b by auto
    next
      case no: False
      then show thesis using Rej dead False eq by auto
    qed
  qed
qed

end
