(* ===== verification/GrammarInv.thy ===== *)
theory GrammarInv
  imports GrammarChoice
begin

text \<open>
  What a compiled grammar and a matcher state look like, and that one byte keeps it: no index of
  the code is ever out of range, no \<open>unreachable!\<close> is reached, and no machine integer wraps.
\<close>

section \<open>Bit sets\<close>

lemma bit_or_exp [simp]: "bit (w OR 2 ^ i :: 'a::len word) k \<longleftrightarrow> bit w k \<or> k = i \<and> i < LENGTH('a)"
  by (auto simp: bit_or_iff bit_exp_iff)

lemma and_exp_zero [simp]: "(w AND 2 ^ i :: 'a::len word) = 0 \<longleftrightarrow> \<not> bit w i"
proof
  assume "w AND 2 ^ i = 0"
  then have "\<not> bit (w AND 2 ^ i) i" by simp
  then show "\<not> bit w i" by (auto simp: bit_and_iff bit_exp_iff dest: bit_imp_le_length)
next
  assume "\<not> bit w i"
  then show "w AND 2 ^ i = 0" by (intro bit_eqI) (auto simp: bit_and_iff bit_exp_iff)
qed

definition bits_below :: "nat \<Rightarrow> 'a::len word \<Rightarrow> bool" where
  "bits_below n w \<longleftrightarrow> (\<forall>i. bit w i \<longrightarrow> i < n)"

lemma bits_below_zero [simp]: "bits_below n 0"
  by (simp add: bits_below_def)

lemma bits_below_or [simp]: "bits_below n w \<Longrightarrow> i < n \<Longrightarrow> bits_below n (w OR 2 ^ i)"
  by (auto simp: bits_below_def)

lemma count_ones_card: "count_ones (w :: 'a::len word) = card {i. bit w i}"
proof -
  have "count_ones w = card (set (filter (bit w) [0..<LENGTH('a)]))"
    by (metis count_ones_def distinct_card distinct_filter distinct_upt)
  also have "set (filter (bit w) [0..<LENGTH('a)]) = {i. bit w i}" by (auto dest: bit_imp_le_length)
  finally show ?thesis .
qed

lemma count_ones_less:
  assumes "bits_below n (w :: 'a::len word)"
  shows "count_ones w < n \<longleftrightarrow> (\<exists>i<n. \<not> bit w i)"
proof -
  have sub: "{i. bit w i} \<subseteq> {..<n}" using assms by (auto simp: bits_below_def)
  have "card {i. bit w i} < card {..<n} \<longleftrightarrow> {i. bit w i} \<noteq> {..<n}"
    using sub psubset_card_mono [of "{..<n}" "{i. bit w i}"] by (metis finite_lessThan less_irrefl psubset_eq)
  then show ?thesis using sub by (auto simp: count_ones_card)
qed

section \<open>Well-formed grammars\<close>

definition opts_ok :: "nat \<Rightarrow> str list \<Rightarrow> bool" where
  "opts_ok B o' \<longleftrightarrow> sorted o' \<and> length o' < 65536 \<and> (\<forall>x \<in> set o'. length x < B)"

text \<open>\<open>ht\<close> bounds the containers a value of a node may need.\<close>

definition node_ok :: "node list \<Rightarrow> (nat \<Rightarrow> nat) \<Rightarrow> nat \<Rightarrow> bool" where
  "node_ok ns ht n \<longleftrightarrow> ht n \<le> 6 \<and> (case ns ! n of
      NChoice o' \<Rightarrow> opts_ok 65536 o' \<and> o' \<noteq> [] \<and> [] \<notin> set o' \<and> (\<forall>x \<in> set o'. \<not> is_ws (hd x))
    | NArr i \<Rightarrow> i < length ns \<and> ht i < ht n
    | NObj keys vals req \<Rightarrow> keys \<noteq> [] \<and> length keys \<le> 32 \<and> length vals = length keys
        \<and> opts_ok 65536 keys \<and> distinct keys \<and> (\<forall>k \<in> set keys. \<exists>s. k = dq # s @ [dq])
        \<and> (\<forall>k \<in> set keys. \<forall>k' \<in> set keys. is_prefix k k' \<longrightarrow> k = k')
        \<and> (\<forall>v \<in> set vals. v < length ns \<and> ht v < ht n) \<and> bits_below (length keys) req
    | NOpenObj \<Rightarrow> ht N_ANY < ht n
    | _ \<Rightarrow> True)"

definition tool_ok :: "node list \<Rightarrow> tool \<Rightarrow> bool" where
  "tool_ok ns t \<longleftrightarrow> opts_ok 256 (pnames t) \<and> length (pnames t) \<le> 64 \<and> distinct (pnames t) \<and> length (kinds t) = length (pnames t)
     \<and> [] \<notin> set (pnames t)
     \<and> (\<forall>k \<in> set (kinds t). case k of PRawStr \<Rightarrow> True | PRawEnum o' \<Rightarrow> opts_ok 65536 o' \<and> o' \<noteq> [] | PJson n \<Rightarrow> n < length ns)"

definition grammar_ok :: "(nat \<Rightarrow> nat) \<Rightarrow> grammar \<Rightarrow> bool" where
  "grammar_ok ht g \<longleftrightarrow> opts_ok 256 (g_names g) \<and> g_names g \<noteq> [] \<and> length (g_tools g) = length (g_names g)
     \<and> (\<forall>t \<in> set (g_tools g). tool_ok (g_nodes g) t)
     \<and> 3 \<le> length (g_nodes g) \<and> g_nodes g ! N_ANY = NAny \<and> g_nodes g ! N_OPEN_OBJ = NOpenObj \<and> g_nodes g ! N_ANY_ARR = NArr N_ANY
     \<and> ht N_ANY = 0 \<and> ht N_OPEN_OBJ = 1 \<and> ht N_ANY_ARR = 1
     \<and> (\<forall>n < length (g_nodes g). node_ok (g_nodes g) ht n)"

lemma grammar_node: "grammar_ok ht g \<Longrightarrow> n < length (g_nodes g) \<Longrightarrow> node_ok (g_nodes g) ht n"
  by (simp add: grammar_ok_def)

lemma grammar_tool: "grammar_ok ht g \<Longrightarrow> i < length (g_tools g) \<Longrightarrow> tool_ok (g_nodes g) (g_tools g ! i)"
  by (simp add: grammar_ok_def)

lemma grammar_any: "grammar_ok ht g \<Longrightarrow> N_ANY < length (g_nodes g) \<and> N_OPEN_OBJ < length (g_nodes g) \<and> N_ANY_ARR < length (g_nodes g)"
  by (auto simp: grammar_ok_def N_ANY_def N_OPEN_OBJ_def N_ANY_ARR_def)

lemma grammar_choice:
  "grammar_ok ht g \<Longrightarrow> n < length (g_nodes g) \<Longrightarrow> g_nodes g ! n = NChoice o' \<Longrightarrow> opts_ok 65536 o' \<and> o' \<noteq> [] \<and> [] \<notin> set o'"
  using grammar_node [of ht g n] by (simp add: node_ok_def)

lemma grammar_choice_start:
  "grammar_ok ht g \<Longrightarrow> n < length (g_nodes g) \<Longrightarrow> g_nodes g ! n = NChoice o' \<Longrightarrow> x \<in> set o' \<Longrightarrow> \<not> is_ws (hd x)"
  using grammar_node [of ht g n] by (simp add: node_ok_def)

lemma grammar_arr:
  "grammar_ok ht g \<Longrightarrow> n < length (g_nodes g) \<Longrightarrow> g_nodes g ! n = NArr i \<Longrightarrow> i < length (g_nodes g) \<and> ht i < ht n"
  using grammar_node [of ht g n] by (simp add: node_ok_def)

lemma grammar_ht: "grammar_ok ht g \<Longrightarrow> n < length (g_nodes g) \<Longrightarrow> ht n \<le> 6"
  using grammar_node [of ht g n] by (simp add: node_ok_def)

lemma grammar_obj:
  assumes "grammar_ok ht g" "n < length (g_nodes g)" "g_nodes g ! n = NObj keys vals req"
  shows "keys \<noteq> []" "length keys \<le> 32" "length vals = length keys" "opts_ok 65536 keys" "distinct keys"
    "\<And>k. k \<in> set keys \<Longrightarrow> \<exists>s. k = dq # s @ [dq]"
    "\<And>k k'. k \<in> set keys \<Longrightarrow> k' \<in> set keys \<Longrightarrow> is_prefix k k' \<Longrightarrow> k = k'"
    "\<And>v. v \<in> set vals \<Longrightarrow> v < length (g_nodes g) \<and> ht v < ht n" "bits_below (length keys) req"
  using grammar_node [OF assms(1,2)] by (simp_all add: node_ok_def assms(3))

section \<open>Well-formed JSON states\<close>

definition frame_ok :: "grammar \<Rightarrow> (nat \<Rightarrow> nat) \<Rightarrow> nat \<Rightarrow> frame \<Rightarrow> bool" where
  "frame_ok g ht i f \<longleftrightarrow> f_node f < length (g_nodes g) \<and> ht (f_node f) + i \<le> 6 \<and> (case g_nodes g ! f_node f of
      NObj keys vals req \<Rightarrow> f_st f \<le> 4 \<and> f_key f < length keys \<and> bits_below (length keys) (f_seen f)
        \<and> (f_st f = OBJ_FIRST \<or> f_st f = OBJ_KEY \<longrightarrow> (\<exists>i < length keys. \<not> bit (f_seen f) i))
        \<and> (f_st f = OBJ_COLON \<or> f_st f = OBJ_VAL \<longrightarrow> \<not> bit (f_seen f) (f_key f))
    | NOpenObj \<Rightarrow> f_st f \<le> 4
    | NArr _ \<Rightarrow> 5 \<le> f_st f \<and> f_st f \<le> 7
    | _ \<Rightarrow> False)"

definition value_st :: "nat \<Rightarrow> bool" where
  "value_st s \<longleftrightarrow> s = OBJ_VAL \<or> s = ARR_FIRST \<or> s = ARR_VAL"

definition top_frame :: "js \<Rightarrow> frame" where
  "top_frame j = j_fr j ! (j_depth j - 1)"

definition js_base :: "grammar \<Rightarrow> (nat \<Rightarrow> nat) \<Rightarrow> js \<Rightarrow> bool" where
  "js_base g ht j \<longleftrightarrow> length (j_fr j) = 6 \<and> j_depth j \<le> 6 \<and> j_top j < length (g_nodes g) \<and> j_ws j \<le> 20
     \<and> (\<forall>i < j_depth j. frame_ok g ht i (j_fr j ! i))
     \<and> (\<forall>i. Suc i < j_depth j \<longrightarrow> value_st (f_st (j_fr j ! i)))
     \<and> (0 < j_depth j \<longrightarrow> \<not> j_done j)"

definition in_key :: "js \<Rightarrow> bool" where
  "in_key j \<longleftrightarrow> 0 < j_depth j \<and> (f_st (top_frame j) = OBJ_FIRST \<or> f_st (top_frame j) = OBJ_KEY)"

definition key_at :: "grammar \<Rightarrow> js \<Rightarrow> str \<Rightarrow> nat \<Rightarrow> nat \<Rightarrow> bool" where
  "key_at g j w lo hi \<longleftrightarrow> (case g_nodes g ! f_node (top_frame j) of
      NObj keys _ _ \<Rightarrow> choice_at keys w lo hi \<and> w \<noteq> [] \<and> w \<notin> set keys \<and> (\<exists>i. lo \<le> i \<and> i < hi \<and> \<not> bit (f_seen (top_frame j)) i)
    | _ \<Rightarrow> False)"

definition sc_ok :: "grammar \<Rightarrow> js \<Rightarrow> bool" where
  "sc_ok g j \<longleftrightarrow> (case j_sc j of
      ScNone \<Rightarrow> True
    | ScStr gp pat esc \<Rightarrow> gp < 12 \<and> pat < 2 \<and> (esc = 0 \<or> esc = 1 \<or> 11 \<le> esc \<and> esc \<le> 14)
        \<and> (wants_value j \<or> in_key j \<and> g_nodes g ! f_node (top_frame j) = NOpenObj)
    | ScKey lo hi off \<Rightarrow> in_key j \<and> (\<exists>w. off = length w \<and> key_at g j w lo hi)
    | ScCh node lo hi off \<Rightarrow> wants_value j \<and> node < length (g_nodes g)
        \<and> (\<exists>o' w. g_nodes g ! node = NChoice o' \<and> off = length w \<and> choice_at o' w lo hi)
    | ScNum whole p n \<Rightarrow> wants_value j \<and> p \<le> 9 \<and> n \<le> 16
    | ScLit which off \<Rightarrow> wants_value j \<and> which < 3 \<and> off < length (json_literals ! which))"

definition js_ok :: "grammar \<Rightarrow> (nat \<Rightarrow> nat) \<Rightarrow> js \<Rightarrow> bool" where
  "js_ok g ht j \<longleftrightarrow> js_base g ht j \<and> sc_ok g j"

definition jr_ok :: "grammar \<Rightarrow> (nat \<Rightarrow> nat) \<Rightarrow> (jr \<times> js) option \<Rightarrow> bool" where
  "jr_ok g ht x \<longleftrightarrow> (case x of None \<Rightarrow> False | Some (r, j) \<Rightarrow> r = ROk \<longrightarrow> js_ok g ht j)"

lemma jr_ok_simps [simp]:
  "jr_ok g ht (Some (ROk, j)) = js_ok g ht j" "jr_ok g ht (Some (RRej, j))" "jr_ok g ht (Some (RPass, j))" "\<not> jr_ok g ht None"
  by (auto simp: jr_ok_def)

lemma wants_value_alt: "wants_value j \<longleftrightarrow> (if j_depth j = 0 then \<not> j_done j
    else j_depth j \<le> length (j_fr j) \<and> value_st (f_st (top_frame j)))"
  by (auto simp: wants_value_def value_st_def top_frame_def idx_def)

lemma frame_field_simps [simp]:
  "wants_value (j\<lparr>j_sc := x\<rparr>) = wants_value j" "wants_value (j\<lparr>j_ws := n\<rparr>) = wants_value j"
  "top_frame (j\<lparr>j_sc := x\<rparr>) = top_frame j" "top_frame (j\<lparr>j_ws := n\<rparr>) = top_frame j" "top_frame (j\<lparr>j_done := d\<rparr>) = top_frame j"
  "in_key (j\<lparr>j_sc := x\<rparr>) = in_key j" "in_key (j\<lparr>j_ws := n\<rparr>) = in_key j"
  "js_base g ht (j\<lparr>j_sc := x\<rparr>) = js_base g ht j"
  by (simp_all add: wants_value_def top_frame_def in_key_def js_base_def)

lemma key_at_sc [simp]: "key_at g (j\<lparr>j_sc := x\<rparr>) w lo hi = key_at g j w lo hi"
  unfolding key_at_def frame_field_simps ..

lemma base_ws [simp]: "js_base g ht j \<Longrightarrow> n \<le> 20 \<Longrightarrow> js_base g ht (j\<lparr>j_ws := n\<rparr>)"
  by (simp add: js_base_def)

lemma base_top:
  assumes "js_base g ht j" "0 < j_depth j"
  shows "frame_ok g ht (j_depth j - 1) (top_frame j)" "idx (j_fr j) (j_depth j - 1) = Some (top_frame j)"
    "f_node (top_frame j) < length (g_nodes g)" "\<not> j_done j"
proof -
  have l: "j_depth j - 1 < j_depth j" "j_depth j \<le> 6" "length (j_fr j) = 6" using assms by (auto simp: js_base_def)
  show f: "frame_ok g ht (j_depth j - 1) (top_frame j)" using assms l(1) by (simp add: js_base_def top_frame_def)
  then show "f_node (top_frame j) < length (g_nodes g)" by (simp add: frame_ok_def)
  show "idx (j_fr j) (j_depth j - 1) = Some (top_frame j)" using l by (simp add: top_frame_def)
  show "\<not> j_done j" using assms by (simp add: js_base_def)
qed

lemma base_set_top:
  assumes b: "js_base g ht j" and d: "0 < j_depth j" and f: "frame_ok g ht (j_depth j - 1) (u (top_frame j))"
  shows "js_base g ht (set_top u j)" "top_frame (set_top u j) = u (top_frame j)" "j_depth (set_top u j) = j_depth j"
    "j_sc (set_top u j) = j_sc j"
proof -
  have l: "j_depth j - 1 < length (j_fr j)" using b d by (auto simp: js_base_def)
  show "top_frame (set_top u j) = u (top_frame j)" using l by (simp add: top_frame_def set_top_def)
  show "js_base g ht (set_top u j)"
    using b d f l by (auto simp: js_base_def set_top_def top_frame_def nth_list_update)
qed (simp_all add: set_top_def)

section \<open>The JSON machine keeps its state\<close>

definition after_value :: "grammar \<Rightarrow> frame \<Rightarrow> frame" where
  "after_value g f = (if f_st f = OBJ_VAL
     then (case g_nodes g ! f_node f of NObj _ _ _ \<Rightarrow> f\<lparr>f_seen := f_seen f OR push_bit (f_key f) 1\<rparr> | _ \<Rightarrow> f)\<lparr>f_st := OBJ_NEXT\<rparr>
     else f\<lparr>f_st := ARR_NEXT\<rparr>)"

definition value_done :: "grammar \<Rightarrow> js \<Rightarrow> js" where
  "value_done g j = (if j_depth j = 0 then j\<lparr>j_sc := ScNone, j_ws := 0, j_done := True\<rparr>
     else set_top (after_value g) (j\<lparr>j_sc := ScNone, j_ws := 0\<rparr>))"

lemma value_done_eq:
  assumes "js_base g ht j" "wants_value j"
  shows "j_value_done g j = Some (value_done g j)"
proof (cases "j_depth j = 0")
  case False
  with assms base_top [OF assms(1)] have t: "idx (j_fr j) (j_depth j - Suc 0) = Some (top_frame j)"
      "f_node (top_frame j) < length (g_nodes g)" "value_st (f_st (top_frame j))"
    by (auto simp: wants_value_alt)
  then show ?thesis
    using False by (auto simp: j_value_done_def value_done_def after_value_def set_top_def top_frame_def value_st_def
        Let_def frame_ids split: node.splits)
qed (simp add: j_value_done_def value_done_def)

lemma after_value_frame:
  assumes "frame_ok g ht i f" "value_st (f_st f)"
  shows "frame_ok g ht i (after_value g f)" "f_node (after_value g f) = f_node f"
    "f_st (after_value g f) = (if f_st f = OBJ_VAL then OBJ_NEXT else ARR_NEXT)"
  using assms by (auto simp: frame_ok_def after_value_def value_st_def frame_ids split: node.splits)

lemma value_done_ok:
  assumes b: "js_base g ht j" and w: "wants_value j"
  shows "js_base g ht (value_done g j)" "j_sc (value_done g j) = ScNone" "j_depth (value_done g j) = j_depth j"
    "\<not> wants_value (value_done g j)" "js_ok g ht (value_done g j)"
proof -
  have all: "js_base g ht (value_done g j) \<and> j_sc (value_done g j) = ScNone \<and> j_depth (value_done g j) = j_depth j
      \<and> \<not> wants_value (value_done g j)"
  proof (cases "j_depth j = 0")
    case True
    then show ?thesis using b by (simp add: value_done_def js_base_def wants_value_def)
  next
    case False
    let ?j = "j\<lparr>j_sc := ScNone, j_ws := 0\<rparr>"
    have v: "value_st (f_st (top_frame j))" using False w by (simp add: wants_value_alt)
    have b': "js_base g ht ?j" using b by simp
    have f: "frame_ok g ht (j_depth ?j - 1) (after_value g (top_frame ?j))"
      using after_value_frame(1) [OF base_top(1) [OF b] v] False by simp
    note s = base_set_top [where u = "after_value g", OF b' _ f]
    show ?thesis using False s after_value_frame(3) [OF base_top(1) [OF b] v]
      by (auto simp: value_done_def wants_value_alt value_st_def frame_ids)
  qed
  then show "js_base g ht (value_done g j)" "j_sc (value_done g j) = ScNone" "j_depth (value_done g j) = j_depth j"
    "\<not> wants_value (value_done g j)" "js_ok g ht (value_done g j)"
    by (auto simp: js_ok_def sc_ok_def)
qed

lemma push_ok:
  assumes b: "js_base g ht j" and w: "wants_value j" and sc: "j_sc j = ScNone"
    and f: "j_depth j < 6 \<Longrightarrow> frame_ok g ht (j_depth j) \<lparr>f_node = n, f_st = s, f_key = 0, f_seen = 0\<rparr>"
  shows "jr_ok g ht (j_push j n s)"
proof (cases "j_depth j \<ge> MAX_JSON_DEPTH")
  case False
  then have d: "j_depth j < 6" by (simp add: MAX_JSON_DEPTH_def)
  have inner: "value_st (f_st (j_fr j ! i))" if "Suc i < Suc (j_depth j)" for i
  proof (cases "Suc i < j_depth j")
    case True
    then show ?thesis using b by (simp add: js_base_def)
  next
    case False
    with that have "i = j_depth j - 1" "0 < j_depth j" by auto
    then show ?thesis using w by (simp add: wants_value_alt top_frame_def)
  qed
  have nd: "\<not> j_done j" using w b by (cases "j_depth j") (simp_all add: wants_value_def js_base_def)
  let ?j = "j\<lparr>j_fr := (j_fr j)[j_depth j := \<lparr>f_node = n, f_st = s, f_key = 0, f_seen = 0\<rparr>], j_depth := j_depth j + 1, j_ws := 0\<rparr>"
  have "js_base g ht ?j"
    using b d f inner nd by (auto simp: js_base_def nth_list_update less_Suc_eq)
  then show ?thesis using d b sc by (simp add: j_push_def MAX_JSON_DEPTH_def js_base_def js_ok_def sc_ok_def)
qed (simp add: j_push_def)

lemma pop_ok:
  assumes b: "js_base g ht j" and d: "0 < j_depth j"
  shows "jr_ok g ht (j_pop g j)"
    and "j_pop g j = Some (ROk, value_done g (j\<lparr>j_depth := j_depth j - 1, j_fr := (j_fr j)[j_depth j - 1 := frame_default]\<rparr>))"
    and "js_base g ht (j\<lparr>j_depth := j_depth j - 1, j_fr := (j_fr j)[j_depth j - 1 := frame_default]\<rparr>)"
    and "wants_value (j\<lparr>j_depth := j_depth j - 1, j_fr := (j_fr j)[j_depth j - 1 := frame_default]\<rparr>)"
proof -
  let ?j = "j\<lparr>j_depth := j_depth j - 1, j_fr := (j_fr j)[j_depth j - 1 := frame_default]\<rparr>"
  have l: "j_depth j \<le> length (j_fr j)" using b by (simp add: js_base_def)
  have nd: "\<not> j_done j" using b d by (simp add: js_base_def)
  show b': "js_base g ht ?j" using b nd by (auto simp: js_base_def)
  show w: "wants_value ?j"
  proof (cases "j_depth j = 1")
    case False
    define k where "k = j_depth j - 2"
    with False d have k: "j_depth j = Suc (Suc k)" by simp
    then have "value_st (f_st (j_fr j ! k))" using b by (simp add: js_base_def)
    then show ?thesis using k l by (simp add: wants_value_alt top_frame_def)
  qed (use nd in \<open>simp add: wants_value_alt\<close>)
  show e: "j_pop g j = Some (ROk, value_done g ?j)"
    using d l value_done_eq [OF b' w] by (simp add: j_pop_def)
  show "jr_ok g ht (j_pop g j)" using value_done_ok(5) [OF b' w] by (simp add: e)
qed

lemma close_obj_ok:
  assumes b: "js_base g ht j" and d: "0 < j_depth j"
  shows "jr_ok g ht (j_close_obj g j)"
  using base_top [OF b d] pop_ok(1) [OF b d] d by (auto simp: j_close_obj_def split: node.splits)

lemma sorted_obj: "grammar_ok ht g \<Longrightarrow> n < length (g_nodes g) \<Longrightarrow> g_nodes g ! n = NObj keys vals req \<Longrightarrow> sorted keys"
  using grammar_obj(4) [of ht g n keys vals req] by (simp add: opts_ok_def)

lemma sc_set: "js_base g ht j \<Longrightarrow> sc_ok g (j\<lparr>j_sc := x\<rparr>) \<Longrightarrow> js_ok g ht (j\<lparr>j_sc := x\<rparr>)"
  by (simp add: js_ok_def)

lemma key_start_ok:
  assumes g: "grammar_ok ht g" and b: "js_base g ht j" and k: "in_key j"
    and n: "g_nodes g ! f_node (top_frame j) = NObj keys vals req"
  shows "jr_ok g ht (key_start keys (f_seen (top_frame j)) j c)"
proof -
  have d: "0 < j_depth j" using k by (simp add: in_key_def)
  note t = base_top [OF b d]
  note o = grammar_obj [OF g t(3) n]
  have c0: "choice_at keys [] 0 (length keys)" using o(1) by (rule choice_at_start)
  have z0: "0 = length []" by simp
  from sorted_obj [OF g t(3) n] c0 z0 show ?thesis
  proof (cases rule: choice_step_cases [where b = c and alive = "\<lambda>i. f_seen (top_frame j) AND push_bit i 1 = 0"])
    case (Cont a z)
    have "a < z" "z \<le> length keys" using choice_at_bounds [OF Cont(2)] by auto
    moreover have "[c] \<notin> set keys" using o(6) by fastforce
    ultimately show ?thesis using Cont o(2) k n b
      by (auto simp: js_ok_def sc_ok_def key_at_def intro!: exI [of _ "[c]"])
  qed simp_all
qed

lemma struct_idle_ok:
  assumes g: "grammar_ok ht g" and b: "js_base g ht j" and w: "\<not> wants_value j" and sc: "j_sc j = ScNone"
  shows "jr_ok g ht (j_struct g j c)"
proof (cases "j_depth j = 0")
  case True
  then show ?thesis using w by (simp add: j_struct.simps wants_value_def)
next
  case False
  then have d: "0 < j_depth j" by simp
  let ?j = "j\<lparr>j_ws := 0\<rparr>" and ?f = "top_frame j"
  note t = base_top [OF b d]
  have b': "js_base g ht ?j" using b by simp
  have v: "\<not> value_st (f_st ?f)" using w False b by (simp add: wants_value_alt js_base_def)
  show ?thesis
  proof (cases "is_ws c")
    case True
    have "js_ok g ht (j\<lparr>j_ws := as_u8 (j_ws j + 1)\<rparr>)" if "j_ws j < WS_MAX"
      using that b sc by (simp add: WS_MAX_def js_ok_def sc_ok_def)
    then show ?thesis using True False by (auto simp: j_struct.simps)
  next
    case ns: False
    have upd: "js_ok g ht (set_top u ?j)" if "frame_ok g ht (j_depth j - 1) (u ?f)" for u
      using base_set_top [where u = u, OF b'] that d sc by (simp add: js_ok_def sc_ok_def)
    have eq: "j_struct g j c = (
        if f_st ?f = OBJ_FIRST \<or> f_st ?f = OBJ_KEY then
          (if c = CHR ''}'' \<and> f_st ?f = OBJ_FIRST then j_close_obj g ?j
           else if c \<noteq> dq then Some (RRej, ?j)
           else (case g_nodes g ! f_node ?f of
               NObj keys _ _ \<Rightarrow> key_start keys (f_seen ?f) ?j c
             | _ \<Rightarrow> Some (ROk, ?j\<lparr>j_sc := ScStr 0 0 0\<rparr>)))
        else if f_st ?f = OBJ_COLON then
          (if c \<noteq> CHR '':'' then Some (RRej, ?j) else Some (ROk, set_top (\<lambda>f. f\<lparr>f_st := OBJ_VAL\<rparr>) ?j))
        else if f_st ?f = OBJ_NEXT then
          (if c = CHR ''}'' then j_close_obj g ?j
           else if c = CHR '','' then
             (if (case g_nodes g ! f_node ?f of NObj keys _ _ \<Rightarrow> count_ones (f_seen ?f) \<ge> length keys | _ \<Rightarrow> False)
              then Some (RRej, ?j) else Some (ROk, set_top (\<lambda>f. f\<lparr>f_st := OBJ_KEY\<rparr>) ?j))
           else Some (RRej, ?j))
        else if f_st ?f = ARR_NEXT then
          (if c = CHR '']'' then j_pop g ?j
           else if c = CHR '','' then Some (ROk, set_top (\<lambda>f. f\<lparr>f_st := ARR_VAL\<rparr>) ?j)
           else Some (RRej, ?j))
        else Some (RRej, ?j))"
      using False ns t(2,3) v by (simp add: j_struct.simps [of g j] value_st_def Let_def)
    have cl: "jr_ok g ht (j_close_obj g ?j)" "jr_ok g ht (j_pop g ?j)"
      using close_obj_ok [OF b'] pop_ok(1) [OF b'] d by simp_all
    have ks: "jr_ok g ht (key_start keys (f_seen ?f) ?j c)"
      if "f_st ?f = OBJ_FIRST \<or> f_st ?f = OBJ_KEY" "g_nodes g ! f_node ?f = NObj keys vals req" for keys vals req
      using key_start_ok [OF g b', of keys vals req] that d by (simp add: in_key_def)
    have fo: "frame_ok g ht (j_depth j - 1) ?f" by (rule t(1))
    have str: "js_ok g ht (?j\<lparr>j_sc := ScStr 0 0 0\<rparr>)"
      if "f_st ?f = OBJ_FIRST \<or> f_st ?f = OBJ_KEY" "\<nexists>keys vals req. g_nodes g ! f_node ?f = NObj keys vals req"
    proof -
      have "g_nodes g ! f_node ?f = NOpenObj"
        using that fo by (cases "g_nodes g ! f_node ?f") (auto simp: frame_ok_def frame_ids)
      then show ?thesis using that(1) b d by (simp add: js_ok_def sc_ok_def in_key_def)
    qed
    have f1: "frame_ok g ht (j_depth j - 1) (?f\<lparr>f_st := OBJ_VAL\<rparr>)" if "f_st ?f = OBJ_COLON"
      using fo that by (auto simp: frame_ok_def frame_ids split: node.splits)
    have f2: "frame_ok g ht (j_depth j - 1) (?f\<lparr>f_st := OBJ_KEY\<rparr>)"
      if "f_st ?f = OBJ_NEXT" "\<not> (case g_nodes g ! f_node ?f of NObj keys _ _ \<Rightarrow> count_ones (f_seen ?f) \<ge> length keys | _ \<Rightarrow> False)"
      using fo that by (auto simp: frame_ok_def frame_ids not_le count_ones_less split: node.splits)
    have f3: "frame_ok g ht (j_depth j - 1) (?f\<lparr>f_st := ARR_VAL\<rparr>)" if "f_st ?f = ARR_NEXT"
      using fo that by (auto simp: frame_ok_def frame_ids split: node.splits)
    have u: "js_ok g ht (set_top (\<lambda>f. f\<lparr>f_st := OBJ_VAL\<rparr>) ?j)" if "f_st ?f = OBJ_COLON"
      using upd [where u = "\<lambda>f. f\<lparr>f_st := OBJ_VAL\<rparr>"] f1 that by blast
    have u2: "js_ok g ht (set_top (\<lambda>f. f\<lparr>f_st := OBJ_KEY\<rparr>) ?j)"
      if "f_st ?f = OBJ_NEXT" "\<not> (case g_nodes g ! f_node ?f of NObj keys _ _ \<Rightarrow> count_ones (f_seen ?f) \<ge> length keys | _ \<Rightarrow> False)"
      using upd [where u = "\<lambda>f. f\<lparr>f_st := OBJ_KEY\<rparr>"] f2 [OF that] by blast
    have u3: "js_ok g ht (set_top (\<lambda>f. f\<lparr>f_st := ARR_VAL\<rparr>) ?j)" if "f_st ?f = ARR_NEXT"
      using upd [where u = "\<lambda>f. f\<lparr>f_st := ARR_VAL\<rparr>"] f3 that by blast
    show ?thesis
    proof (cases "f_st ?f = OBJ_FIRST \<or> f_st ?f = OBJ_KEY")
      case True
      then show ?thesis unfolding eq using cl ks [OF True] str [OF True] by (auto simp del: key_start.simps split: node.split)
    next
      case no: False
      show ?thesis
      proof (cases "f_st ?f = OBJ_NEXT")
        case True
        then show ?thesis unfolding eq using no cl u2 by (simp add: frame_ids)
      next
        case False
        then show ?thesis unfolding eq using no cl u u3 by (simp add: frame_ids)
      qed
    qed
  qed
qed

lemma num_next_bounds: "num_next whole p n b = Some (p', n') \<Longrightarrow> n \<le> 16 \<Longrightarrow> p' \<le> 9 \<and> n' \<le> 16"
  by (auto simp: num_next_def Let_def split: if_splits)

lemma num_ok:
  assumes g: "grammar_ok ht g" and b: "js_base g ht j" and w: "wants_value j" and n: "p \<le> 9" "n \<le> 16"
  shows "jr_ok g ht (j_num g j whole p n c)"
proof (cases "num_next whole p n c")
  case None
  then show ?thesis
    using value_done_eq [OF b w] struct_idle_ok [OF g value_done_ok(1,4,2) [OF b w]] by (simp add: j_num.simps)
next
  case (Some x)
  then obtain p' n' where x: "num_next whole p n c = Some (p', n')" by (cases x) simp
  then show ?thesis using num_next_bounds [OF x n(2)] b w by (simp add: j_num.simps js_ok_def sc_ok_def)
qed

lemma opts_sorted: "opts_ok B o' \<Longrightarrow> sorted o'"
  by (simp add: opts_ok_def)

lemma opts_cont:
  assumes "opts_ok B o'" "choice_at o' w a z"
  shows "a < 65536" "z < 65536" "length w < B"
  using assms choice_at_bounds [OF assms(2)] choice_at_length [OF assms(2)] by (auto simp: opts_ok_def)

lemma choice_ok:
  assumes g: "grammar_ok ht g" and b: "js_base g ht j" and w: "wants_value j"
    and n: "node < length (g_nodes g)" "g_nodes g ! node = NChoice o'" and c: "off = length v" "choice_at o' v lo hi"
  shows "jr_ok g ht (j_choice g j node lo hi off ch)"
proof -
  have o: "opts_ok 65536 o'" using grammar_choice [OF g n] by simp
  have idx: "idx (g_nodes g) node = Some (NChoice o')" using n by simp
  from opts_sorted [OF o] c(2,1) show ?thesis
  proof (cases rule: choice_step_cases [where b = ch and alive = "\<lambda>_. True"])
    case (Cont a z)
    have "as_u16 a = a" "as_u16 z = z" "as_u16 (off + 1) = length (v @ [ch])"
      using opts_cont [OF o Cont(2)] c(1) by simp_all
    moreover have "js_ok g ht (j\<lparr>j_sc := ScCh node a z (length (v @ [ch]))\<rparr>)"
      using b w n Cont(2) by (auto simp: js_ok_def sc_ok_def intro!: exI [of _ "v @ [ch]"])
    ultimately show ?thesis
      using Cont(1) idx value_done_eq [OF b w] value_done_ok(5) [OF b w]
      by (simp add: j_choice.simps Let_def)
  next
    case Done
    then show ?thesis using idx value_done_eq [OF b w] struct_idle_ok [OF g value_done_ok(1,4,2) [OF b w]]
      by (simp add: j_choice.simps)
  next
    case Rej
    then show ?thesis using idx by (simp add: j_choice.simps)
  qed
qed

lemma new_frame_ok:
  assumes g: "grammar_ok ht g" and n: "n < length (g_nodes g)" "ht n + d \<le> 6"
  shows "g_nodes g ! n = NOpenObj \<Longrightarrow> frame_ok g ht d \<lparr>f_node = n, f_st = OBJ_FIRST, f_key = 0, f_seen = 0\<rparr>"
    "g_nodes g ! n = NArr i \<Longrightarrow> frame_ok g ht d \<lparr>f_node = n, f_st = ARR_FIRST, f_key = 0, f_seen = 0\<rparr>"
    "g_nodes g ! n = NObj keys vals req \<Longrightarrow> frame_ok g ht d \<lparr>f_node = n, f_st = OBJ_FIRST, f_key = 0, f_seen = 0\<rparr>"
  using n grammar_obj(1) [OF g n(1), of keys vals req] by (auto simp: frame_ok_def frame_ids)

lemma any_frames_ok:
  assumes g: "grammar_ok ht g" and d: "d < 6"
  shows "frame_ok g ht d \<lparr>f_node = N_OPEN_OBJ, f_st = OBJ_FIRST, f_key = 0, f_seen = 0\<rparr>"
    "frame_ok g ht d \<lparr>f_node = N_ANY_ARR, f_st = ARR_FIRST, f_key = 0, f_seen = 0\<rparr>"
  using g d grammar_any [OF g] by (auto simp: frame_ok_def frame_ids grammar_ok_def)

lemma start_ok:
  assumes g: "grammar_ok ht g" and b: "js_base g ht j" and w: "wants_value j" and sc: "j_sc j = ScNone"
    and n: "n < length (g_nodes g)" "ht n + j_depth j \<le> 6"
  shows "jr_ok g ht (j_start g j n c)"
proof -
  have idx: "idx (g_nodes g) n = Some (g_nodes g ! n)" using n by simp
  have push: "jr_ok g ht (j_push j m s)"
    if "j_depth j < 6 \<Longrightarrow> frame_ok g ht (j_depth j) \<lparr>f_node = m, f_st = s, f_key = 0, f_seen = 0\<rparr>" for m s
    using push_ok [OF b w sc that] .
  have num: "jr_ok g ht (j_num g (j\<lparr>j_sc := ScNum whole 0 0\<rparr>) whole 0 0 c)" for whole
    using num_ok [OF g, of "j\<lparr>j_sc := ScNum whole 0 0\<rparr>" 0 0 whole c] b w by simp
  have set: "js_ok g ht (j\<lparr>j_sc := ScStr 0 0 0\<rparr>)" "js_ok g ht (j\<lparr>j_sc := ScLit 0 1\<rparr>)" "js_ok g ht (j\<lparr>j_sc := ScLit 1 1\<rparr>)"
    "js_ok g ht (j\<lparr>j_sc := ScLit 2 1\<rparr>)"
    using b w by (simp_all add: js_ok_def sc_ok_def json_literals_def)
  note f = new_frame_ok [OF g n] any_frames_ok [OF g]
  show ?thesis
  proof (cases "g_nodes g ! n")
    case (NChoice o')
    have o: "opts_ok 65536 o'" "o' \<noteq> []" using grammar_choice [OF g n(1) NChoice] by auto
    then have "as_u16 (length o') = length o'" by (simp add: opts_ok_def)
    then show ?thesis
      using choice_ok [OF g _ _ n(1) NChoice _ choice_at_start [OF o(2)], of "j\<lparr>j_sc := ScCh n 0 (length o') 0\<rparr>" 0 c] b w
      by (simp add: j_start.simps [of g j] idx NChoice)
  next
    case (NObj keys vals req)
    then show ?thesis using push [of n OBJ_FIRST] f(3) by (simp add: j_start.simps [of g j] idx)
  next
    case (NArr i)
    then show ?thesis using push [of n ARR_FIRST] f(2) by (simp add: j_start.simps [of g j] idx)
  next
    case NOpenObj
    then show ?thesis using push [of n OBJ_FIRST] f(1) by (simp add: j_start.simps [of g j] idx)
  next
    case NAny
    then show ?thesis using push [of N_OPEN_OBJ OBJ_FIRST] push [of N_ANY_ARR ARR_FIRST] f(4,5) num set
      by (simp add: j_start.simps [of g j] idx)
  qed (use num set in \<open>simp_all add: j_start.simps [of g j] idx\<close>)
qed

lemma frame_fits: "frame_ok g ht i f \<Longrightarrow> ht (f_node f) + i \<le> 6"
  by (simp add: frame_ok_def)

lemma struct_ok:
  assumes g: "grammar_ok ht g" and b: "js_base g ht j" and sc: "j_sc j = ScNone"
  shows "jr_ok g ht (j_struct g j c)"
proof (cases "wants_value j")
  case False
  then show ?thesis using struct_idle_ok [OF g b _ sc] by simp
next
  case w: True
  show ?thesis
  proof (cases "j_depth j = 0")
    case True
    then show ?thesis using w start_ok [OF g b w sc, of "j_top j" c] b grammar_ht [OF g, of "j_top j"]
      by (simp add: j_struct.simps [of g j] wants_value_def js_base_def)
  next
    case False
    then have d: "0 < j_depth j" by simp
    let ?j = "j\<lparr>j_ws := 0\<rparr>" and ?f = "top_frame j"
    note t = base_top [OF b d]
    have v: "value_st (f_st ?f)" using w False by (simp add: wants_value_alt)
    have start: "jr_ok g ht (j_start g ?j n c)" if "n < length (g_nodes g)" "ht n + j_depth j \<le> 6" for n
      using start_ok [OF g, of ?j n c] b w sc that by simp
    have fit: "ht m + j_depth j \<le> 6" if "ht m < ht (f_node ?f)" for m
      using frame_fits [OF t(1)] that d by linarith
    show ?thesis
    proof (cases "is_ws c")
      case True
      then show ?thesis using False b sc by (auto simp: j_struct.simps [of g j] WS_MAX_def js_ok_def sc_ok_def)
    next
      case ns: False
      show ?thesis
      proof (cases "g_nodes g ! f_node ?f")
        case (NArr i)
        have "f_st ?f = ARR_FIRST \<or> f_st ?f = ARR_VAL" using v t(1) NArr by (auto simp: frame_ok_def value_st_def frame_ids)
        moreover have "jr_ok g ht (j_pop g ?j)" using pop_ok(1) [of g ht ?j] b d by simp
        moreover have "jr_ok g ht (j_start g ?j i c)" using start [of i] fit [of i] grammar_arr [OF g t(3) NArr] by simp
        ultimately show ?thesis using ns False t(2,3) NArr
          by (elim disjE) (simp_all add: j_struct.simps [of g j] frame_ids Let_def)
      next
        case (NObj keys vals req)
        have st: "f_st ?f = OBJ_VAL" using v t(1) NObj by (auto simp: frame_ok_def value_st_def frame_ids)
        note o = grammar_obj [OF g t(3) NObj]
        have k: "f_key ?f < length vals" using t(1) NObj o(3) by (simp add: frame_ok_def)
        then have "vals ! f_key ?f \<in> set vals" by simp
        from o(8) [OF this] show ?thesis using ns False t(2,3) start [of "vals ! f_key ?f"] fit st k NObj
          by (simp add: j_struct.simps [of g j] frame_ids Let_def)
      next
        case NOpenObj
        have st: "f_st ?f = OBJ_VAL" using v t(1) NOpenObj by (auto simp: frame_ok_def value_st_def frame_ids)
        have "ht N_ANY < ht (f_node ?f)" using grammar_node [OF g t(3)] NOpenObj by (simp add: node_ok_def)
        then show ?thesis using ns False t(2,3) start [of N_ANY] fit [of N_ANY] st NOpenObj grammar_any [OF g]
          by (simp add: j_struct.simps [of g j] frame_ids Let_def)
      qed (use t(1) in \<open>simp_all add: frame_ok_def\<close>)
    qed
  qed
qed

lemma guard_ok: "length (guard g) = 2 \<and> (\<forall>i<2. length (guard g ! i) = 12)"
  by (auto simp: guard_def GUARD_def GUARD_GLM_def less_2_cases_iff split: markup.split)

lemma guard_step_ok:
  assumes "gp < 12" "pat < 2"
  obtains (Free) g' p' where "guard_step (guard g) gp pat b = Some (Inr (g', p'))" "g' < 12" "p' < 2"
  | (Marker) p' where "guard_step (guard g) gp pat b = Some (Inl p')" "p' < 2"
proof -
  have l: "length (guard g) = 2" "length (guard g ! pat) = 12" "length (guard g ! 0) = 12" "length (guard g ! 1) = 12"
    using guard_ok [of g] assms(2) by auto
  have h: "\<exists>h. guard_hit (guard g) gp pat b = Some h \<and> (\<forall>p. h = Some p \<longrightarrow> p < 2)"
    using l assms by (auto simp: guard_hit_def)
  have re: "\<exists>g' p'. guard_restart b = Inr (g', p') \<and> g' < 12 \<and> p' < 2"
    by (auto simp: guard_restart_def)
  from h obtain h where h: "guard_hit (guard g) gp pat b = Some h" "\<And>p. h = Some p \<Longrightarrow> p < 2" by blast
  show thesis
  proof (cases "0 < gp \<and> h \<noteq> None")
    case True
    then obtain p where p: "h = Some p" by blast
    show thesis
    proof (cases "gp + 1 = 12")
      case True
      with p h Marker [of p] \<open>0 < gp \<and> h \<noteq> None\<close> show thesis by (simp add: guard_step_def GUARD_LEN_def)
    next
      case False
      with p h Free [of "gp + 1" p] \<open>0 < gp \<and> h \<noteq> None\<close> assms show thesis by (simp add: guard_step_def GUARD_LEN_def Let_def)
    qed
  next
    case False
    then have "guard_step (guard g) gp pat b = Some (guard_restart b)" using h(1) by (auto simp: guard_step_def)
    with re Free show thesis by auto
  qed
qed

lemma string_ok:
  assumes g: "grammar_ok ht g" and j: "js_ok g ht j" and sc: "j_sc j = ScStr gp pat esc"
  shows "jr_ok g ht (j_string g j gp pat esc c)"
proof -
  have b: "js_base g ht j" and s: "gp < 12" "pat < 2" "esc = 0 \<or> esc = 1 \<or> 11 \<le> esc \<and> esc \<le> 14"
    and w: "wants_value j \<or> in_key j \<and> g_nodes g ! f_node (top_frame j) = NOpenObj"
    using j sc by (auto simp: js_ok_def sc_ok_def)
  have set: "js_ok g ht (j\<lparr>j_sc := ScStr x y e\<rparr>)" if "x < 12" "y < 2" "e = 0 \<or> e = 1 \<or> 11 \<le> e \<and> e \<le> 14" for x y e
    using that b w by (simp add: js_ok_def sc_ok_def)
  have key: "js_ok g ht ((set_top (\<lambda>f. f\<lparr>f_st := OBJ_COLON\<rparr>) j)\<lparr>j_sc := ScNone, j_ws := 0\<rparr>)" if k: "in_key j" "\<not> wants_value j"
  proof -
    have d: "0 < j_depth j" using k by (simp add: in_key_def)
    note t = base_top [OF b d]
    have "frame_ok g ht (j_depth j - 1) (top_frame j\<lparr>f_st := OBJ_COLON\<rparr>)"
      using t(1) w k by (simp add: frame_ok_def frame_ids)
    from base_set_top [where u = "\<lambda>f. f\<lparr>f_st := OBJ_COLON\<rparr>", OF b d this] show ?thesis by (simp add: js_ok_def sc_ok_def)
  qed
  have quote: "jr_ok g ht (j_string g j gp pat esc c)" if c: "c = dq" "esc = 0"
  proof (cases "wants_value j")
    case True
    then have "\<not> in_key j" by (auto simp: wants_value_alt in_key_def value_st_def frame_ids split: if_splits)
    then show ?thesis using that True value_done_eq [OF b True] value_done_ok(5) [OF b True] base_top(2) [OF b]
      by (auto simp: j_string_def in_key_def)
  next
    case False
    then have "in_key j" using w by blast
    with key False base_top(2) [OF b] that show ?thesis by (auto simp: j_string_def in_key_def)
  qed
  show ?thesis
  proof (cases "esc = 0")
    case True
    show ?thesis
    proof (cases "c = dq")
      case False
      from s(1,2) show ?thesis
        by (cases rule: guard_step_ok [where g = g and b = c]) (use True False set in \<open>simp_all add: j_string_def\<close>)
    qed (use quote True in simp)
  next
    case nz: False
    show ?thesis
    proof (cases "esc = 1")
      case True
      then show ?thesis using set [of 0 0 0] set [of 0 0 14] by (simp add: j_string_def)
    next
      case False
      with nz s(3) have e: "11 \<le> esc" "esc \<le> 14" by auto
      then have "js_ok g ht (j\<lparr>j_sc := ScStr 0 0 (if esc = 11 then 0 else esc - 1)\<rparr>)" by (intro set) auto
      then show ?thesis using e by (simp add: j_string_def)
    qed
  qed
qed

lemma key_ok:
  assumes g: "grammar_ok ht g" and j: "js_ok g ht j" and sc: "j_sc j = ScKey lo hi off"
  shows "jr_ok g ht (j_key g j lo hi off c)"
proof -
  let ?f = "top_frame j"
  have b: "js_base g ht j" and k: "in_key j" using j sc by (auto simp: js_ok_def sc_ok_def)
  from j sc obtain w where w: "off = length w" "key_at g j w lo hi" by (auto simp: js_ok_def sc_ok_def)
  from w(2) obtain keys vals req where n: "g_nodes g ! f_node ?f = NObj keys vals req"
    and c: "choice_at keys w lo hi" "w \<noteq> []" by (auto simp: key_at_def split: node.splits)
  have d: "0 < j_depth j" using k by (simp add: in_key_def)
  note t = base_top [OF b d]
  note o = grammar_obj [OF g t(3) n]
  have eq: "j_key g j lo hi off c = (case choice_step keys lo hi off c (\<lambda>i. f_seen ?f AND push_bit i 1 = 0) of
            None \<Rightarrow> None
          | Some (ChCont a z) \<Rightarrow> (let off' = as_u16 (off + 1) in
              if length (keys ! a) = off'
              then Some (ROk, (set_top (\<lambda>f. f\<lparr>f_key := as_u8 a, f_st := OBJ_COLON\<rparr>) j)\<lparr>j_sc := ScNone, j_ws := 0\<rparr>)
              else Some (ROk, j\<lparr>j_sc := ScKey (as_u8 a) (as_u8 z) off'\<rparr>))
          | Some _ \<Rightarrow> Some (RRej, j))"
    using d t n by (simp add: j_key_def)
  from sorted_obj [OF g t(3) n] c(1) w(1) show ?thesis
  proof (cases rule: choice_step_cases [where b = c and alive = "\<lambda>i. f_seen ?f AND push_bit i 1 = 0"])
    case (Cont a z)
    note az = choice_at_bounds [OF Cont(2)]
    have u: "as_u16 (off + 1) = length (w @ [c])" "as_u8 a = a" "as_u8 z = z"
      using opts_cont [OF o(4) Cont(2)] w(1) az o(2) by simp_all
    have ka: "keys ! a \<in> set keys" "is_prefix (w @ [c]) (keys ! a)"
      using az choice_at_prefix [OF Cont(2), of a] by auto
    have full: "w @ [c] \<in> set keys \<Longrightarrow> w @ [c] = keys ! a" using o(7) ka by blast
    show ?thesis
    proof (cases "length (keys ! a) = length (w @ [c])")
      case True
      then have e: "keys ! a = w @ [c]" using is_prefix_same [OF ka(2)] by simp
      have "z = Suc a"
      proof (rule ccontr)
        assume "z \<noteq> Suc a"
        then have s: "Suc a < z" using az by simp
        then have "is_prefix (keys ! a) (keys ! Suc a)" using choice_at_prefix [OF Cont(2), of "Suc a"] e by simp
        moreover have "keys ! Suc a \<in> set keys" using s az by simp
        ultimately have "keys ! a = keys ! Suc a" using o(7) [OF ka(1)] by simp
        then show False using o(5) s az by (simp add: nth_eq_iff_index_eq)
      qed
      with Cont(3) have un: "\<not> bit (f_seen ?f) a" by (auto simp: less_Suc_eq)
      have "frame_ok g ht (j_depth j - 1) (?f\<lparr>f_key := a, f_st := OBJ_COLON\<rparr>)"
        using t(1) n un az by (simp add: frame_ok_def frame_ids)
      from base_set_top [where u = "\<lambda>f. f\<lparr>f_key := a, f_st := OBJ_COLON\<rparr>", OF b d this]
      show ?thesis using Cont(1) eq u True by (simp add: Let_def js_ok_def sc_ok_def)
    next
      case False
      then have "w @ [c] \<notin> set keys" using full by auto
      then have "key_at g j (w @ [c]) a z" using Cont(2,3) n by (auto simp: key_at_def)
      then have "js_ok g ht (j\<lparr>j_sc := ScKey a z (length (w @ [c]))\<rparr>)"
        using b k by (auto simp: js_ok_def sc_ok_def intro!: exI [of _ "w @ [c]"])
      then show ?thesis using Cont(1) eq u False by (simp add: Let_def)
    qed
  qed (simp_all add: eq)
qed

lemma lit_ok:
  assumes j: "js_ok g ht j" and sc: "j_sc j = ScLit which off"
  shows "jr_ok g ht (j_lit g j which off c)"
proof -
  have b: "js_base g ht j" and w: "wants_value j" "which < 3" "off < length (json_literals ! which)"
    using j sc by (auto simp: js_ok_def sc_ok_def)
  have l: "length json_literals = 3" "length (json_literals ! which) \<le> 5"
    using w(2) by (auto simp: json_literals_def less_Suc_eq numeral_3_eq_3)
  have "js_ok g ht (j\<lparr>j_sc := ScLit which (off + 1)\<rparr>)" if "off + 1 \<noteq> length (json_literals ! which)"
    using b w that by (simp add: js_ok_def sc_ok_def)
  then show ?thesis using value_done_eq [OF b w(1)] value_done_ok(5) [OF b w(1)] w l
    by (simp add: j_lit_def)
qed

theorem j_step_ok:
  assumes g: "grammar_ok ht g" and j: "js_ok g ht j"
  shows "jr_ok g ht (j_step g j c)"
proof (cases "j_sc j")
  case ScNone
  then show ?thesis using struct_ok [OF g _ ScNone] j by (simp add: j_step_def js_ok_def)
next
  case (ScCh node lo hi off)
  then obtain o' w where "wants_value j" "node < length (g_nodes g)" "g_nodes g ! node = NChoice o'" "off = length w" "choice_at o' w lo hi"
    using j by (auto simp: js_ok_def sc_ok_def)
  then show ?thesis using choice_ok [OF g] j ScCh by (simp add: j_step_def js_ok_def)
next
  case (ScNum whole p n)
  then show ?thesis using num_ok [OF g] j by (simp add: j_step_def js_ok_def sc_ok_def)
qed (use string_ok [OF g j] key_ok [OF g j] lit_ok [OF j] in \<open>simp_all add: j_step_def\<close>)

section \<open>The frame machine keeps its state\<close>

definition tool_at :: "grammar \<Rightarrow> st \<Rightarrow> bool" where
  "tool_at g s \<longleftrightarrow> s_tool s < length (g_tools g) \<and> bits_below (length (pnames (g_tools g ! s_tool s))) (s_seen s)"

definition cur_tool :: "grammar \<Rightarrow> st \<Rightarrow> tool" where
  "cur_tool g s = g_tools g ! s_tool s"

definition can_param :: "grammar \<Rightarrow> st \<Rightarrow> bool" where
  "can_param g s \<longleftrightarrow> tool_at g s \<and> (\<exists>i < length (pnames (cur_tool g s)). \<not> bit (s_seen s) i)"

definition at_param :: "grammar \<Rightarrow> st \<Rightarrow> bool" where
  "at_param g s \<longleftrightarrow> tool_at g s \<and> s_param s < length (pnames (cur_tool g s))"

text \<open>What the literal in progress needs: the tool, an unwritten parameter, the parameter written.\<close>

definition lit_needs :: "grammar \<Rightarrow> st \<Rightarrow> nat \<Rightarrow> bool" where
  "lit_needs g s i \<longleftrightarrow> (if i = L_OPEN then True else if i = L_PARAM \<or> i = L_G_KEY then can_param g s
     else if i = L_PGT \<or> i = L_G_KV then at_param g s else tool_at g s)"

definition lit_markup :: "nat \<Rightarrow> markup" where
  "lit_markup i = (if i < L_G_KEY then Qwen else Glm)"

definition st_ok :: "grammar \<Rightarrow> (nat \<Rightarrow> nat) \<Rightarrow> st \<Rightarrow> bool" where
  "st_ok g ht s \<longleftrightarrow> (case s_ph s of
      Idle \<Rightarrow> True
    | PhLit i off \<Rightarrow> i < 12 \<and> off < length (LITS ! i) \<and> lit_needs g s i \<and> g_markup g = lit_markup i
    | FName lo hi off \<Rightarrow> \<exists>w. off = length w \<and> choice_at (g_names g) w lo hi
    | PhBody \<Rightarrow> tool_at g s \<and> g_markup g = Qwen
    | BodyLt \<Rightarrow> tool_at g s \<and> g_markup g = Qwen
    | PName lo hi off \<Rightarrow> tool_at g s \<and> (\<exists>w. off = length w \<and> choice_at (pnames (cur_tool g s)) w lo hi)
        \<and> (\<exists>i. lo \<le> i \<and> i < hi \<and> \<not> bit (s_seen s) i)
    | RawStr gp pat nlb n \<Rightarrow> at_param g s \<and> gp < 12 \<and> pat < 2
    | REnum lo hi off \<Rightarrow> at_param g s \<and> (\<exists>o' w. kinds (cur_tool g s) ! s_param s = PRawEnum o' \<and> off = length w \<and> choice_at o' w lo hi)
    | PhJson \<Rightarrow> at_param g s \<and> js_ok g ht (s_j s)
    | JTail ws \<Rightarrow> at_param g s \<and> ws \<le> 20
    | Between ws nls \<Rightarrow> ws \<le> 22 \<and> nls \<le> 2
    | GBody \<Rightarrow> tool_at g s \<and> g_markup g = Glm
    | GBodyLt \<Rightarrow> tool_at g s \<and> g_markup g = Glm)"

definition sr_ok :: "grammar \<Rightarrow> (nat \<Rightarrow> nat) \<Rightarrow> (bool \<times> st) option \<Rightarrow> bool" where
  "sr_ok g ht x \<longleftrightarrow> (case x of None \<Rightarrow> False | Some (ok, s) \<Rightarrow> ok \<longrightarrow> st_ok g ht s)"

lemma sr_ok_simps [simp]:
  "sr_ok g ht (refuse s)" "sr_ok g ht (consume s p) = st_ok g ht (s\<lparr>s_ph := p\<rparr>)" "sr_ok g ht (Some (ok, s)) = (ok \<longrightarrow> st_ok g ht s)"
  by (auto simp: sr_ok_def refuse_def consume_def)

lemma tool_field_simps [simp]:
  "tool_at g (s\<lparr>s_ph := p\<rparr>) = tool_at g s" "cur_tool g (s\<lparr>s_ph := p\<rparr>) = cur_tool g s"
  "at_param g (s\<lparr>s_ph := p\<rparr>) = at_param g s" "can_param g (s\<lparr>s_ph := p\<rparr>) = can_param g s"
  "lit_needs g (s\<lparr>s_ph := p\<rparr>) i = lit_needs g s i"
  "tool_at g (s\<lparr>s_j := j\<rparr>) = tool_at g s" "cur_tool g (s\<lparr>s_j := j\<rparr>) = cur_tool g s"
  "at_param g (s\<lparr>s_j := j\<rparr>) = at_param g s"
  by (simp_all add: tool_at_def cur_tool_def at_param_def can_param_def lit_needs_def)

lemma at_param_tool [simp]: "at_param g s \<Longrightarrow> tool_at g s"
  by (simp add: at_param_def)

lemma can_param_tool [simp]: "can_param g s \<Longrightarrow> tool_at g s"
  by (simp add: can_param_def)

lemma tool_idx: "tool_at g s \<Longrightarrow> idx (g_tools g) (s_tool s) = Some (cur_tool g s)"
  by (simp add: tool_at_def cur_tool_def)

lemma cur_tool_ok:
  assumes "grammar_ok ht g" "tool_at g s"
  shows "opts_ok 256 (pnames (cur_tool g s))" "length (pnames (cur_tool g s)) \<le> 64" "distinct (pnames (cur_tool g s))"
    "length (kinds (cur_tool g s)) = length (pnames (cur_tool g s))" "[] \<notin> set (pnames (cur_tool g s))"
  using grammar_tool [OF assms(1), of "s_tool s"] assms(2) by (auto simp: tool_at_def cur_tool_def tool_ok_def)

lemma cur_kind_ok:
  assumes "grammar_ok ht g" "at_param g s"
  shows "idx (kinds (cur_tool g s)) (s_param s) = Some (kinds (cur_tool g s) ! s_param s)"
    "kinds (cur_tool g s) ! s_param s = PRawEnum o' \<Longrightarrow> opts_ok 65536 o' \<and> o' \<noteq> []"
    "kinds (cur_tool g s) ! s_param s = PJson n \<Longrightarrow> n < length (g_nodes g)"
proof -
  have t: "tool_ok (g_nodes g) (cur_tool g s)" and p: "s_param s < length (kinds (cur_tool g s))"
    using assms grammar_tool [OF assms(1), of "s_tool s"] cur_tool_ok(4) [OF assms(1), of s]
    by (auto simp: at_param_def tool_at_def cur_tool_def)
  then have "kinds (cur_tool g s) ! s_param s \<in> set (kinds (cur_tool g s))" by simp
  with t have k: "case kinds (cur_tool g s) ! s_param s of PRawStr \<Rightarrow> True | PRawEnum o' \<Rightarrow> opts_ok 65536 o' \<and> o' \<noteq> [] | PJson n \<Rightarrow> n < length (g_nodes g)"
    by (simp add: tool_ok_def)
  show "idx (kinds (cur_tool g s)) (s_param s) = Some (kinds (cur_tool g s) ! s_param s)" using p by simp
  show "kinds (cur_tool g s) ! s_param s = PRawEnum o' \<Longrightarrow> opts_ok 65536 o' \<and> o' \<noteq> []"
    "kinds (cur_tool g s) ! s_param s = PJson n \<Longrightarrow> n < length (g_nodes g)"
    using k by simp_all
qed

lemma length_lits: "length LITS = 12"
  by (simp add: LITS_def)

lemma lits_lengths: "i < 12 \<Longrightarrow> 0 < length (LITS ! i) \<and> length (LITS ! i) < 256"
proof -
  assume "i < 12"
  then have "LITS ! i \<in> set LITS" by (simp add: length_lits)
  moreover have "\<forall>x \<in> set LITS. 0 < length x \<and> length x < 256" by (simp add: LITS_def)
  ultimately show ?thesis by blast
qed

lemma unseen_iff:
  assumes "grammar_ok ht g" "tool_at g s"
  shows "unseen_param g s = Some (can_param g s)"
proof -
  have "bits_below (length (pnames (cur_tool g s))) (s_seen s)" using assms(2) by (simp add: tool_at_def cur_tool_def)
  from count_ones_less [OF this] assms(2) show ?thesis
    by (auto simp: unseen_param_def tool_idx can_param_def)
qed

lemma js_new_ok:
  assumes g: "grammar_ok ht g" and n: "n < length (g_nodes g)"
  shows "js_ok g ht (js_new n)"
  using n by (simp add: js_ok_def js_base_def sc_ok_def js_new_def js_empty_def MAX_JSON_DEPTH_def)

lemma lit_cases: "i < 12 \<Longrightarrow> i = L_OPEN \<or> (i = L_FGT \<or> i = L_PCLOSE \<or> i = L_NL) \<or> (i = L_PARAM \<or> i = L_G_KEY)
    \<or> (i = L_PGT \<or> i = L_G_KV) \<or> i = L_FCLOSE \<or> (i = L_CALL_CLOSE \<or> i = L_G_CALL_CLOSE) \<or> i = L_G_VCLOSE"
  unfolding lit_ids by arith

lemma after_lit_ok:
  assumes g: "grammar_ok ht g" and i: "i < 12" and n: "lit_needs g s i" and m: "g_markup g = lit_markup i"
  shows "\<exists>s'. after_lit g s i = Some s' \<and> st_ok g ht s'"
proof -
  have named: "\<exists>s'. start_pname g s = Some s' \<and> st_ok g ht s'" if c: "can_param g s"
  proof -
    have t: "tool_at g s" using c by simp
    note o = cur_tool_ok [OF g t]
    from c obtain k where "k < length (pnames (cur_tool g s))" "\<not> bit (s_seen s) k" by (auto simp: can_param_def)
    moreover from this have "pnames (cur_tool g s) \<noteq> []" by auto
    ultimately show ?thesis using t o(2) tool_idx [OF t] choice_at_start [of "pnames (cur_tool g s)"]
      by (auto simp: start_pname_def st_ok_def intro!: exI [of _ "[]"])
  qed
  have val: "\<exists>s'. start_value g s = Some s' \<and> st_ok g ht s'" if p: "at_param g s"
  proof -
    note k = cur_kind_ok [OF g p]
    have t: "tool_at g s" using p by simp
    show ?thesis
    proof (cases "kinds (cur_tool g s) ! s_param s")
      case PRawStr
      then show ?thesis using k(1) tool_idx [OF t] p by (simp add: start_value_def st_ok_def)
    next
      case (PRawEnum o')
      with k(2) have o: "opts_ok 65536 o'" "o' \<noteq> []" by auto
      then show ?thesis using PRawEnum k(1) tool_idx [OF t] p choice_at_start [of o']
        by (auto simp: start_value_def st_ok_def opts_ok_def intro!: exI [of _ "[]"])
    next
      case (PJson n)
      then show ?thesis using k(1) k(3) [of n] tool_idx [OF t] p js_new_ok [OF g] by (simp add: start_value_def st_ok_def)
    qed
  qed
  have "g_names g \<noteq> []" "length (g_names g) < 65536" using g by (auto simp: grammar_ok_def opts_ok_def)
  then have fn: "st_ok g ht (s\<lparr>s_ph := FName 0 (as_u16 (length (g_names g))) 0\<rparr>)"
    using choice_at_start [of "g_names g"] by (auto simp: st_ok_def intro!: exI [of _ "[]"])
  consider (op) "i = L_OPEN" | (body) "i = L_FGT \<or> i = L_PCLOSE \<or> i = L_NL" | (name) "i = L_PARAM \<or> i = L_G_KEY"
    | (pval) "i = L_PGT \<or> i = L_G_KV" | (fclose) "i = L_FCLOSE" | (close) "i = L_CALL_CLOSE \<or> i = L_G_CALL_CLOSE"
    | (vclose) "i = L_G_VCLOSE"
    using lit_cases [OF i] by blast
  then show ?thesis
  proof cases
    case op
    then show ?thesis using fn by (simp add: after_lit_def)
  next
    case body
    then have "tool_at g s" "g_markup g = Qwen" using n m by (auto simp: lit_needs_def lit_markup_def lit_ids)
    then show ?thesis using body by (auto simp: after_lit_def st_ok_def lit_ids)
  next
    case name
    then have "can_param g s" using n by (auto simp: lit_needs_def lit_ids)
    from named [OF this] show ?thesis using name by (auto simp: after_lit_def lit_ids)
  next
    case pval
    then have "at_param g s" using n by (auto simp: lit_needs_def lit_ids)
    from val [OF this] show ?thesis using pval by (auto simp: after_lit_def lit_ids)
  next
    case fclose
    then have "tool_at g s" "g_markup g = Qwen" using n m by (auto simp: lit_needs_def lit_markup_def lit_ids)
    then show ?thesis using fclose by (simp add: after_lit_def lit_ids st_ok_def lit_needs_def lit_markup_def LITS_def)
  next
    case close
    then show ?thesis by (auto simp: after_lit_def lit_ids st_ok_def)
  next
    case vclose
    then have "tool_at g s" "g_markup g = Glm" using n m by (auto simp: lit_needs_def lit_markup_def lit_ids)
    then show ?thesis using vclose by (simp add: after_lit_def lit_ids st_ok_def)
  qed
qed

lemma raw_ok:
  assumes s: "st_ok g ht s" "s_ph s = RawStr gp pat nlb n"
  shows "sr_ok g ht (step_raw g s gp pat nlb n b)"
proof -
  have p: "at_param g s" "gp < 12" "pat < 2" using s by (auto simp: st_ok_def)
  have t: "tool_at g s" using p by simp
  from p(2,3) show ?thesis
  proof (cases rule: guard_step_ok [where g = g and b = b])
    case (Free g' p')
    then show ?thesis using p by (simp add: step_raw_def st_ok_def)
  next
    case (Marker p')
    then show ?thesis using t
      by (simp add: step_raw_def st_ok_def lit_ids lit_needs_def lit_markup_def LITS_def split: markup.split)
  qed
qed

text \<open>The phases that consume the byte or refuse it.\<close>

lemma step_once_ok:
  assumes g: "grammar_ok ht g" and s: "st_ok g ht s" and l: "\<not> loops_again s"
  shows "sr_ok g ht (step g s b)"
proof (cases "s_ph s")
  case (PhLit i off)
  then have p: "i < 12" "off < length (LITS ! i)" "lit_needs g s i" "g_markup g = lit_markup i" using s by (auto simp: st_ok_def)
  have b: "as_u8 (off + 1) = off + 1" using p(2) lits_lengths [OF p(1)] by simp
  obtain s' where "after_lit g s i = Some s'" "st_ok g ht s'" using after_lit_ok [OF g p(1,3,4)] by blast
  then show ?thesis using PhLit p b by (simp add: step.simps [of g s] length_lits Let_def st_ok_def)
next
  case (RawStr gp pat nlb n)
  then show ?thesis using raw_ok [OF s RawStr] by (simp add: step.simps [of g s])
next
  case BodyLt
  then have t: "tool_at g s" "g_markup g = Qwen" using s by (auto simp: st_ok_def)
  then show ?thesis using BodyLt unseen_iff [OF g t(1)]
    by (simp add: step.simps [of g s] st_ok_def lit_ids lit_needs_def lit_markup_def LITS_def)
next
  case GBodyLt
  then have t: "tool_at g s" "g_markup g = Glm" using s by (auto simp: st_ok_def)
  then show ?thesis using GBodyLt unseen_iff [OF g t(1)]
    by (simp add: step.simps [of g s] st_ok_def lit_ids lit_needs_def lit_markup_def LITS_def)
next
  case (JTail ws)
  then have t: "at_param g s" "ws \<le> 20" using s by (auto simp: st_ok_def)
  then show ?thesis using JTail at_param_tool [OF t(1)]
    by (simp add: step.simps [of g s] st_ok_def lit_ids lit_needs_def lit_markup_def LITS_def WS_MAX_def)
next
  case (Between ws nls)
  then show ?thesis using s by (simp add: step.simps [of g s] st_ok_def BETWEEN_WS_MAX_def BETWEEN_NL_MAX_def)
qed (use l s in \<open>simp_all add: step.simps [of g s] st_ok_def loops_again_def\<close>)

lemma fname_done_ok:
  assumes g: "grammar_ok ht g" and i: "i < length (g_names g)"
  shows "st_ok g ht (s\<lparr>s_tool := as_u16 i, s_seen := 0, s_ph := (case g_markup g of Qwen \<Rightarrow> PhLit L_FGT 0 | Glm \<Rightarrow> GBody)\<rparr>)"
  using g i by (auto simp: st_ok_def grammar_ok_def opts_ok_def lit_ids lit_needs_def lit_markup_def LITS_def tool_at_def split: markup.split)

lemma pname_done_ok:
  assumes t: "tool_at g s" "length (pnames (cur_tool g s)) \<le> 64" and i: "i < length (pnames (cur_tool g s))"
  shows "st_ok g ht (s\<lparr>s_param := as_u16 i, s_seen := s_seen s OR push_bit i 1,
      s_ph := (case g_markup g of Qwen \<Rightarrow> PhLit L_PGT 0 | Glm \<Rightarrow> PhLit L_G_KV 0)\<rparr>)"
  using assms by (auto simp: st_ok_def lit_ids lit_needs_def lit_markup_def LITS_def tool_at_def at_param_def cur_tool_def split: markup.split)

theorem step_ok:
  assumes g: "grammar_ok ht g" and s: "st_ok g ht s"
  shows "sr_ok g ht (step g s b)"
proof (cases "loops_again s")
  case False
  then show ?thesis by (rule step_once_ok [OF g s])
next
  case True
  have n: "opts_ok 256 (g_names g)" using g by (simp add: grammar_ok_def)
  show ?thesis
  proof (cases "s_ph s")
    case (FName lo hi off)
    then obtain w where w: "off = length w" "choice_at (g_names g) w lo hi" using s by (auto simp: st_ok_def)
    from opts_sorted [OF n] w(2,1) show ?thesis
    proof (cases rule: choice_step_cases [where b = b and alive = "\<lambda>_. True"])
      case (Cont a z)
      then show ?thesis using FName opts_cont [OF n Cont(2)] w(1)
        by (auto simp: step.simps [of g s] st_ok_def intro!: exI [of _ "w @ [b]"])
    next
      case Done
      from step_once_ok [OF g fname_done_ok [OF g Done(4)]] show ?thesis
        using FName Done(1) by (simp add: step.simps [of g s] loops_again_def split: markup.splits)
    next
      case Rej
      then show ?thesis using FName by (simp add: step.simps [of g s])
    qed
  next
    case (PName lo hi off)
    then have t: "tool_at g s" using s by (simp add: st_ok_def)
    note o = cur_tool_ok [OF g t]
    obtain w where w: "off = length w" "choice_at (pnames (cur_tool g s)) w lo hi" using s PName by (auto simp: st_ok_def)
    from opts_sorted [OF o(1)] w(2,1) show ?thesis
    proof (cases rule: choice_step_cases [where b = b and alive = "\<lambda>i. s_seen s AND push_bit i 1 = 0"])
      case (Cont a z)
      then show ?thesis using PName t tool_idx [OF t] opts_cont [OF o(1) Cont(2)] w(1)
        by (auto simp: step.simps [of g s] st_ok_def intro!: exI [of _ "w @ [b]"])
    next
      case Done
      from step_once_ok [OF g pname_done_ok [OF t o(2) Done(4)]] show ?thesis
        using PName t tool_idx [OF t] Done(1) by (simp add: step.simps [of g s] loops_again_def split: markup.splits)
    next
      case Rej
      then show ?thesis using PName tool_idx [OF t] by (simp add: step.simps [of g s])
    qed
  next
    case (REnum lo hi off)
    then have p: "at_param g s" using s by (simp add: st_ok_def)
    have t: "tool_at g s" using p by simp
    note k = cur_kind_ok [OF g p]
    obtain o' w where w: "kinds (cur_tool g s) ! s_param s = PRawEnum o'" "off = length w" "choice_at o' w lo hi"
      using s REnum by (auto simp: st_ok_def)
    have o: "opts_ok 65536 o'" using k(2) [OF w(1)] by simp
    have next_ok: "st_ok g ht (s\<lparr>s_ph := (case g_markup g of Qwen \<Rightarrow> PhLit L_PCLOSE 0 | Glm \<Rightarrow> PhLit L_G_VCLOSE 0)\<rparr>)"
      using t by (simp add: st_ok_def lit_ids lit_needs_def lit_markup_def LITS_def split: markup.split)
    from opts_sorted [OF o] w(3,2) show ?thesis
    proof (cases rule: choice_step_cases [where b = b and alive = "\<lambda>_. True"])
      case (Cont a z)
      then show ?thesis using REnum p k(1) tool_idx [OF t] opts_cont [OF o Cont(2)] w
        by (auto simp: step.simps [of g s] st_ok_def intro!: exI [of _ "w @ [b]"])
    next
      case Done
      from step_once_ok [OF g next_ok] show ?thesis
        using REnum Done(1) k(1) tool_idx [OF t] w(1) by (simp add: step.simps [of g s] loops_again_def split: markup.splits)
    next
      case Rej
      then show ?thesis using REnum k(1) tool_idx [OF t] w(1) by (simp add: step.simps [of g s])
    qed
  next
    case PhJson
    then have p: "at_param g s" "js_ok g ht (s_j s)" using s by (auto simp: st_ok_def)
    have next_ok: "st_ok g ht (s\<lparr>s_j := js_empty, s_ph := JTail 0\<rparr>)" using p(1) by (simp add: st_ok_def)
    from j_step_ok [OF g p(2), of b] obtain r j' where j: "j_step g (s_j s) b = Some (r, j')" "r = ROk \<Longrightarrow> js_ok g ht j'"
      by (auto simp: jr_ok_def split: option.splits)
    show ?thesis using PhJson p j step_once_ok [OF g next_ok, of b]
      by (cases r) (simp_all add: step.simps [of g s] st_ok_def loops_again_def)
  qed (use True in \<open>simp_all add: loops_again_def\<close>)
qed

end
