(* ===== verification/GrammarBuild.thy ===== *)
theory GrammarBuild
  imports GrammarInv
begin

text \<open>
  What \<open>build_markup\<close> accepts is a well-formed grammar: names and options sorted, every index in
  range, the schema no deeper than the JSON machine's stack, and the keys of an object such that
  none is a prefix of another. What it relies on in \<open>serde_json\<close>: a map has no key twice, and a
  string is printed between quotes with its quotes escaped.
\<close>

section \<open>Sorting\<close>

lemma insert_by_sorted: "sorted xs \<Longrightarrow> sorted (insert_by cmp (x :: 'a::linorder) xs)"
  by (induction xs) auto

lemma sort_by_sorted [simp]: "sorted (sort_by cmp (xs :: 'a::linorder list))"
proof -
  have "sorted (foldr (insert_by cmp) xs [])" by (induction xs) (auto intro: insert_by_sorted)
  then show ?thesis by (simp add: sort_by_def)
qed

lemma insert_by_key: "map fst (insert_by (\<lambda>a b. cmp (fst a) (fst b)) x xs) = insert_by cmp (fst x) (map fst xs)"
  by (induction xs) auto

lemma sort_by_key: "map fst (sort_by (\<lambda>a b. cmp (fst a) (fst b)) xs) = sort_by cmp (map fst xs)"
proof -
  have "map fst (foldr (insert_by (\<lambda>a b. cmp (fst a) (fst b))) xs []) = foldr (insert_by cmp) (map fst xs) []"
    by (induction xs) (simp_all add: insert_by_key)
  then show ?thesis by (simp add: sort_by_def)
qed

lemma insert_by_distinct: "distinct (insert_by c x xs) \<longleftrightarrow> x \<notin> set xs \<and> distinct xs"
  by (induction xs) auto

lemma sort_by_distinct [simp]: "distinct (sort_by c xs) = distinct xs"
proof -
  have s: "set (foldr (insert_by c) xs []) = set xs" for xs by (induction xs) auto
  have "distinct (foldr (insert_by c) xs []) = distinct xs" by (induction xs) (auto simp: insert_by_distinct s)
  then show ?thesis by (simp add: sort_by_def)
qed

lemma dedup_sorted [simp]: "sorted (remdups_adj (sort_by cmp (xs :: 'a::linorder list)))"
  by (simp add: sorted_remdups_adj)

lemma sort_by_Nil [simp]: "sort_by c xs = [] \<longleftrightarrow> xs = []"
  by (metis length_0_conv length_sort_by)

section \<open>The printer\<close>

definition printer_laws :: "(json \<Rightarrow> str) \<Rightarrow> bool" where
  "printer_laws pr \<longleftrightarrow> (\<exists>esc. (\<forall>c. json_char (esc c)) \<and> (\<forall>s. pr (JString s) = dq # concat (map esc s) @ [dq]))
     \<and> inj (\<lambda>s. pr (JString s)) \<and> (\<forall>v. pr v \<noteq> [] \<and> \<not> is_ws (hd (pr v)))"

lemma json_char_prefix_code:
  assumes "json_char e" "json_char e'" "e @ r = e' @ r'"
  shows "e = e'"
  using assms by (auto simp: json_char_def dq_def bsl_def)

lemma json_char_start: "json_char e \<Longrightarrow> \<exists>c r. e = c # r \<and> c \<noteq> dq"
  by (auto simp: json_char_def dq_def bsl_def)

lemma json_chars_prefix_code:
  "list_all json_char cs \<Longrightarrow> list_all json_char cs' \<Longrightarrow> concat cs @ dq # r = concat cs' @ dq # r' \<Longrightarrow> cs = cs'"
proof (induction cs arbitrary: cs')
  case Nil
  show ?case
  proof (cases cs')
    case (Cons e es)
    with Nil json_char_start [of e] show ?thesis by auto
  qed simp
next
  case (Cons e es)
  show ?case
  proof (cases cs')
    case Nil
    with Cons.prems json_char_start [of e] show ?thesis by auto
  next
    case c: (Cons e' es')
    have "e = e'"
      using Cons.prems c json_char_prefix_code [of e e' "concat es @ dq # r" "concat es' @ dq # r'"] by simp
    with Cons c show ?thesis by simp
  qed
qed

lemma printer_keys:
  assumes "printer_laws pr"
  shows "\<exists>t. pr (JString k) = dq # t @ [dq]" "is_prefix (pr (JString k)) (pr (JString k')) \<Longrightarrow> pr (JString k) = pr (JString k')"
    "pr (JString k) = pr (JString k') \<longleftrightarrow> k = k'"
proof -
  from assms obtain esc where e: "\<And>c. json_char (esc c)" "\<And>s. pr (JString s) = dq # concat (map esc s) @ [dq]"
    and i: "inj (\<lambda>s. pr (JString s))" unfolding printer_laws_def by blast
  show "\<exists>t. pr (JString k) = dq # t @ [dq]" using e(2) by blast
  show "pr (JString k) = pr (JString k') \<longleftrightarrow> k = k'" using i by (auto simp: inj_def)
  assume "is_prefix (pr (JString k)) (pr (JString k'))"
  then obtain r where "concat (map esc k') @ [dq] = concat (map esc k) @ dq # r" by (auto simp: is_prefix_iff e(2))
  then have "map esc k' = map esc k"
    using json_chars_prefix_code [of "map esc k'" "map esc k" "[]" r] e(1) by (simp add: list_all_iff)
  then show "pr (JString k) = pr (JString k')" by (simp add: e(2))
qed

section \<open>The maps of a request\<close>

lemma map_value_size: "kv \<in> set kvs \<Longrightarrow> size (snd kv) < Suc (size_list (size_prod (\<lambda>x. 0) size) kvs)"
  by (induction kvs) auto

lemma array_elem_size: "x \<in> set xs \<Longrightarrow> size x < Suc (size_list size xs)"
  by (induction xs) auto

function maps_ok :: "json \<Rightarrow> bool" where
  "maps_ok s = (case s of
      JObject kvs \<Rightarrow> distinct (map fst kvs) \<and> (\<forall>kv \<in> set kvs. maps_ok (snd kv))
    | JArray xs \<Rightarrow> (\<forall>x \<in> set xs. maps_ok x)
    | _ \<Rightarrow> True)"
  by pat_completeness auto
termination
  by (relation "measure size") (auto dest: map_value_size array_elem_size)

declare maps_ok.simps [simp del]

lemma maps_ok_object: "maps_ok (JObject kvs) \<Longrightarrow> distinct (map fst kvs) \<and> (\<forall>kv \<in> set kvs. maps_ok (snd kv))"
  by (simp add: maps_ok.simps [of "JObject kvs"])

lemma maps_ok_get: "maps_ok s \<Longrightarrow> obj_get k s = Some v \<Longrightarrow> maps_ok v"
proof (cases s)
  case (JObject kvs)
  assume "maps_ok s" "obj_get k s = Some v"
  with JObject have m: "maps_ok (JObject kvs)" and k: "map_of kvs k = Some v" by simp_all
  from maps_ok_object [OF m] map_of_SomeD [OF k] show ?thesis by force
qed simp_all

lemma maps_ok_array: "maps_ok (JArray xs) \<Longrightarrow> x \<in> set xs \<Longrightarrow> maps_ok x"
  by (simp add: maps_ok.simps [of "JArray xs"])

lemma as_object_Some: "as_object s = Some kvs \<longleftrightarrow> s = JObject kvs"
  by (cases s) auto

lemma as_array_Some: "as_array s = Some xs \<longleftrightarrow> s = JArray xs"
  by (cases s) auto

section \<open>The nodes\<close>

text \<open>What the \<open>as u16\<close> casts of the matcher need: no list and no text of 65536 or more.\<close>

definition small_opts :: "str list \<Rightarrow> bool" where
  "small_opts o' \<longleftrightarrow> length o' < 65536 \<and> (\<forall>x \<in> set o'. length x < 65536)"

definition small_node :: "node \<Rightarrow> bool" where
  "small_node n \<longleftrightarrow> (case n of NChoice o' \<Rightarrow> small_opts o' | NObj keys _ _ \<Rightarrow> small_opts keys | _ \<Rightarrow> True)"

definition small_grammar :: "grammar \<Rightarrow> bool" where
  "small_grammar g \<longleftrightarrow> length (g_names g) < 65536 \<and> list_all small_node (g_nodes g)
     \<and> (\<forall>t \<in> set (g_tools g). \<forall>k \<in> set (kinds t). case k of PRawEnum o' \<Rightarrow> small_opts o' | _ \<Rightarrow> True)"

definition nodes_inv :: "node list \<Rightarrow> (nat \<Rightarrow> nat) \<Rightarrow> bool" where
  "nodes_inv ns ht \<longleftrightarrow> 3 \<le> length ns \<and> ns ! N_ANY = NAny \<and> ns ! N_OPEN_OBJ = NOpenObj \<and> ns ! N_ANY_ARR = NArr N_ANY
     \<and> ht N_ANY = 0 \<and> ht N_OPEN_OBJ = 1 \<and> ht N_ANY_ARR = 1 \<and> (\<forall>n < length ns. node_ok ns ht n)"

lemma nodes_inv_start: "nodes_inv [NAny, NOpenObj, NArr N_ANY] (\<lambda>n. if n = 0 then 0 else 1)"
  by (auto simp: nodes_inv_def N_ANY_def N_OPEN_OBJ_def N_ANY_ARR_def node_ok_def less_Suc_eq)

text \<open>\<open>ns'\<close> extends \<open>ns\<close>: the old nodes keep their index and their height.\<close>

definition extends :: "node list \<Rightarrow> (nat \<Rightarrow> nat) \<Rightarrow> node list \<Rightarrow> (nat \<Rightarrow> nat) \<Rightarrow> bool" where
  "extends ns ht ns' ht' \<longleftrightarrow> nodes_inv ns' ht' \<and> (\<exists>zs. ns' = ns @ zs) \<and> (\<forall>n < length ns. ht' n = ht n)"

lemma extends_refl: "nodes_inv ns ht \<Longrightarrow> extends ns ht ns ht"
  by (simp add: extends_def)

lemma extends_trans: "extends a ha b hb \<Longrightarrow> extends b hb c hc \<Longrightarrow> extends a ha c hc"
  by (auto simp: extends_def)

lemma extends_length: "extends ns ht ns' ht' \<Longrightarrow> length ns \<le> length ns'"
  by (auto simp: extends_def)

lemma node_ok_extend:
  assumes "node_ok ns ht n" "n < length ns" "3 \<le> length ns" "\<And>k. k < length ns \<Longrightarrow> ht' k = ht k"
  shows "node_ok (ns @ zs) ht' n"
proof -
  have "ht' 0 = ht 0" by (rule assms(4)) (use assms(3) in linarith)
  with assms(1,2,4) show ?thesis by (auto simp: node_ok_def nth_append N_ANY_def split: node.splits)
qed

lemma push_extends:
  assumes i: "nodes_inv ns ht" and p: "push_node ns n = Inr (i, ns')" and d: "d \<le> 6"
    and n: "node_ok (ns @ [n]) (ht(length ns := 6 - d)) (length ns)"
  shows "\<exists>ht'. extends ns ht ns' ht' \<and> i < length ns' \<and> ht' i \<le> 6 - d"
proof -
  have e: "i = length ns" "ns' = ns @ [n]" using p by (auto simp: push_node_def split: if_splits)
  have l: "3 \<le> length ns" using i by (simp add: nodes_inv_def)
  let ?h = "ht(length ns := 6 - d)"
  have "node_ok (ns @ [n]) ?h k" if "k < length (ns @ [n])" for k
  proof (cases "k = length ns")
    case False
    with that have k: "k < length ns" by simp
    show ?thesis by (rule node_ok_extend) (use i k l in \<open>simp_all add: nodes_inv_def\<close>)
  qed (use n in simp)
  then have "nodes_inv ns' ?h"
    using i l unfolding nodes_inv_def e by (auto simp: nth_append N_ANY_def N_OPEN_OBJ_def N_ANY_ARR_def)
  then have "extends ns ht ns' ?h \<and> i < length ns' \<and> ?h i \<le> 6 - d" by (auto simp: extends_def e)
  then show ?thesis by blast
qed

definition compiles :: "node list \<Rightarrow> (nat \<Rightarrow> nat) \<Rightarrow> nat \<Rightarrow> nat \<Rightarrow> node list \<Rightarrow> bool" where
  "compiles ns ht d i ns' \<longleftrightarrow> (\<exists>ht'. extends ns ht ns' ht' \<and> i < length ns' \<and> ht' i \<le> 6 - d)"

lemma compiles_base:
  assumes "nodes_inv ns ht" "d \<le> 6"
  shows "compiles ns ht d N_ANY ns" "d \<le> 5 \<Longrightarrow> compiles ns ht d N_OPEN_OBJ ns" "d \<le> 5 \<Longrightarrow> compiles ns ht d N_ANY_ARR ns"
proof -
  note e = extends_refl [OF assms(1)]
  have h: "ht N_ANY = 0" "ht N_OPEN_OBJ = 1" "ht N_ANY_ARR = 1" "N_ANY < length ns" "N_OPEN_OBJ < length ns" "N_ANY_ARR < length ns"
    using assms(1) by (auto simp: nodes_inv_def N_ANY_def N_OPEN_OBJ_def N_ANY_ARR_def)
  show "compiles ns ht d N_ANY ns" unfolding compiles_def using e h assms(2) by (intro exI [of _ ht]) simp
  show "compiles ns ht d N_OPEN_OBJ ns" if "d \<le> 5" unfolding compiles_def using e h that by (intro exI [of _ ht]) simp
  show "compiles ns ht d N_ANY_ARR ns" if "d \<le> 5" unfolding compiles_def using e h that by (intro exI [of _ ht]) simp
qed

lemma push_compiles:
  assumes "nodes_inv ns ht" "push_node ns n = Inr (i, ns')" "d \<le> 6"
    and "node_ok (ns @ [n]) (ht(length ns := 6 - d)) (length ns)"
  shows "compiles ns ht d i ns'"
  unfolding compiles_def by (rule push_extends [OF assms])

lemma choice_texts_ok:
  assumes "printer_laws pr" "vs \<noteq> []" "small_opts (choice_texts pr vs)"
  shows "opts_ok 65536 (choice_texts pr vs) \<and> choice_texts pr vs \<noteq> [] \<and> [] \<notin> set (choice_texts pr vs)
    \<and> (\<forall>x \<in> set (choice_texts pr vs). \<not> is_ws (hd x))"
proof -
  have p: "\<forall>v. pr v \<noteq> [] \<and> \<not> is_ws (hd (pr v))" using assms(1) by (simp add: printer_laws_def)
  then have "[] \<notin> pr ` set vs" by (metis imageE)
  with p assms(2,3) show ?thesis by (simp add: choice_texts_def opts_ok_def small_opts_def)
qed

lemma push_small: "push_node ns n = Inr (i, ns') \<Longrightarrow> list_all small_node ns' \<Longrightarrow> small_node n"
  by (auto simp: push_node_def split: if_splits)

lemma choice_compiles:
  assumes "printer_laws pr" "nodes_inv ns ht" "push_node ns (NChoice (choice_texts pr vs)) = Inr (i, ns')" "vs \<noteq> []"
    "list_all small_node ns'" "d \<le> 5"
  shows "compiles ns ht d i ns'"
proof (rule push_compiles [OF assms(2,3)])
  have "small_opts (choice_texts pr vs)" using push_small [OF assms(3,5)] by (simp add: small_node_def)
  from choice_texts_ok [OF assms(1,4) this]
  show "node_ok (ns @ [NChoice (choice_texts pr vs)]) (ht(length ns := 6 - d)) (length ns)" by (simp add: node_ok_def)
qed (use assms in simp)

lemma plain_compiles:
  assumes "nodes_inv ns ht" "push_node ns n = Inr (i, ns')" "d \<le> 5" "n \<in> {NStr, NInt, NNum, NBool, NNull}"
  shows "compiles ns ht d i ns'"
  by (rule push_compiles [OF assms(1,2)]) (use assms in \<open>auto simp: node_ok_def\<close>)

lemma arr_compiles:
  assumes "compiles ns ht (Suc d) k ns1" "nodes_inv ns ht" "push_node ns1 (NArr k) = Inr (i, ns')" "d \<le> 4"
  shows "compiles ns ht d i ns'"
proof -
  from assms(1) obtain h1 where h: "extends ns ht ns1 h1" "k < length ns1" "h1 k \<le> 6 - Suc d" by (auto simp: compiles_def)
  then have i: "nodes_inv ns1 h1" by (simp add: extends_def)
  have "node_ok (ns1 @ [NArr k]) (h1(length ns1 := 6 - d)) (length ns1)" using h assms(4) by (auto simp: node_ok_def)
  from push_compiles [OF i assms(3) _ this] assms(4) obtain h2 where "extends ns1 h1 ns' h2" "i < length ns'" "h2 i \<le> 6 - d"
    by (auto simp: compiles_def)
  with extends_trans [OF h(1)] show ?thesis by (auto simp: compiles_def)
qed

lemma required_bits_below: "bits_below (length kv) (required_bits req kv)"
proof -
  have "bits_below n (foldl (\<lambda>w i. if fst (snd (kv ! i)) \<in> set req then w OR push_bit i 1 else w) (0::u32) [0..<n])" for n
  proof (induction n)
    case (Suc n)
    then have "bits_below (Suc n) (foldl (\<lambda>w i. if fst (snd (kv ! i)) \<in> set req then w OR push_bit i 1 else w) (0::u32) [0..<n])"
      by (auto simp: bits_below_def)
    then show ?case by simp
  qed simp
  then show ?thesis by (simp add: required_bits_def)
qed

lemma member_keys_ok:
  assumes pr: "printer_laws pr" and d: "distinct (map fst p)"
  shows "sorted (map fst (sorted_members pr p))" "distinct (map fst (sorted_members pr p))"
    "set (map fst (sorted_members pr p)) = (\<lambda>k. pr (JString k)) ` fst ` set p"
    "length (sorted_members pr p) = length p"
proof -
  have m: "map fst (sorted_members pr p) = sort_by cmp (map (\<lambda>k. pr (JString k)) (map fst p))"
    by (simp add: sorted_members_def sort_by_key comp_def case_prod_beta)
  have "inj_on (\<lambda>k. pr (JString k)) (set (map fst p))" using printer_keys(3) [OF pr] by (auto simp: inj_on_def)
  with d have "distinct (map (\<lambda>k. pr (JString k)) (map fst p))" by (metis distinct_map)
  then show "distinct (map fst (sorted_members pr p))" unfolding m by simp
  show "sorted (map fst (sorted_members pr p))" unfolding m by simp
  show "set (map fst (sorted_members pr p)) = (\<lambda>k. pr (JString k)) ` fst ` set p" unfolding m by (simp add: image_comp)
  show "length (sorted_members pr p) = length p" by (simp add: sorted_members_def)
qed

section \<open>Compiling a schema\<close>

lemma compile_node_cases:
  assumes "compile_node pr ns s d = Inr (i, ns')"
  obtains (any) "i = N_ANY" "ns' = ns"
  | (choice) vs where "vs \<noteq> []" "push_node ns (NChoice (choice_texts pr vs)) = Inr (i, ns')"
  | (plain) n where "n \<in> {NStr, NInt, NNum, NBool, NNull}" "push_node ns n = Inr (i, ns')"
  | (anyarr) "d \<le> 4" "i = N_ANY_ARR" "ns' = ns"
  | (arr) it k ns1 where "d \<le> 4" "obj_get ''items'' s = Some it" "compile_node pr ns it (Suc d) = Inr (k, ns1)"
      "push_node ns1 (NArr k) = Inr (i, ns')"
  | (openobj) "d \<le> 4" "i = N_OPEN_OBJ" "ns' = ns"
  | (obj) p req vals ns1 where "d \<le> 4" "obj_get ''properties'' s = Some (JObject p)" "p \<noteq> []" "length p \<le> 32"
      "compile_members pr ns (sorted_members pr p) (Suc d) = Inr (vals, ns1)"
      "push_node ns1 (NObj (map fst (sorted_members pr p)) vals (required_bits req (sorted_members pr p))) = Inr (i, ns')"
proof -
  define t where "t = hd (ty_list s)"
  define enum where "enum = Option.bind (obj_get ''enum'' s) as_array"
  note e = assms [unfolded compile_node.simps [of pr ns s d], folded enum_def t_def, unfolded Let_def]
  show thesis
  proof (cases "is_object s \<and> obj_get ''const'' s = None \<and> (case enum of Some e \<Rightarrow> e = [] | None \<Rightarrow> True) \<and> length (ty_list s) = 1")
    case False
    show thesis
    proof (cases "is_object s")
      case True
      show thesis
      proof (cases "obj_get ''const'' s")
        case None
        show thesis
        proof (cases "case enum of Some e \<Rightarrow> e \<noteq> [] | None \<Rightarrow> False")
          case en: True
          then show thesis using choice [of "the enum"] e None True by (auto split: option.splits)
        next
          case en: False
          then have "length (ty_list s) \<noteq> 1" using False True None by (auto split: option.splits)
          then show thesis using any e None True en by simp
        qed
      qed (use choice [of "[c]" for c] e True in auto)
    qed (use any e in simp)
  next
    case True
    then have "\<not> (case enum of Some e \<Rightarrow> e \<noteq> [] | None \<Rightarrow> False)" by (auto split: option.splits)
    note f = e [simplified True this if_True if_False option.case simp_thms]
    show thesis
    proof (cases "t = ''array''")
      case arr_t: True
      show thesis
      proof (cases "d + 1 \<ge> MAX_JSON_DEPTH")
        case False
        then have "d \<le> 4" by (simp add: MAX_JSON_DEPTH_def)
        then show thesis using f arr_t False anyarr arr by (auto split: option.splits if_splits sum.splits)
      qed (use f any arr_t in simp)
    next
      case na: False
      show thesis
      proof (cases "t = ''object''")
        case obj_t: True
        show thesis
        proof (cases "d + 1 \<ge> MAX_JSON_DEPTH")
          case False
          then have "d \<le> 4" by (simp add: MAX_JSON_DEPTH_def)
          then show thesis using f obj_t False openobj obj
            by (auto simp: as_object_Some bind_eq_Some_conv split: option.splits if_splits sum.splits)
        qed (use f any obj_t in simp)
      next
        case False
        then show thesis using f na any plain [of NStr] plain [of NInt] plain [of NNum] plain [of NBool] plain [of NNull]
          by (simp split: if_splits)
      qed
    qed
  qed
qed

lemma push_appends: "push_node ns n = Inr (i, ns') \<Longrightarrow> \<exists>zs. ns' = ns @ zs"
  by (auto simp: push_node_def split: if_splits)

lemma members_Cons:
  assumes "compile_members pr ns ((ek, k, v) # kv) d = Inr (vals, ns')"
  obtains i ns1 vals' where "compile_node pr ns v d = Inr (i, ns1)" "compile_members pr ns1 kv d = Inr (vals', ns')" "vals = i # vals'"
  using assms by (auto split: sum.splits)

lemma compile_appends: "compile_node pr ns s d = Inr (i, ns') \<Longrightarrow> \<exists>zs. ns' = ns @ zs"
proof (induction "6 - d" arbitrary: ns s d i ns' rule: less_induct)
  case less
  have members: "\<exists>zs. ms' = ms @ zs" if "compile_members pr ms kv (Suc d) = Inr (vals, ms')" "d \<le> 4" for ms kv vals ms'
    using that
  proof (induction kv arbitrary: ms vals)
    case (Cons x kv)
    obtain ek k v where x: "x = (ek, k, v)" by (cases x)
    from Cons.prems(1) [unfolded x] obtain j ms1 vals' where
      c: "compile_node pr ms v (Suc d) = Inr (j, ms1)" "compile_members pr ms1 kv (Suc d) = Inr (vals', ms')"
      by (rule members_Cons)
    have "6 - Suc d < 6 - d" using Cons.prems(2) by simp
    from less.hyps [OF this c(1)] Cons.IH [OF c(2) Cons.prems(2)] show ?case by auto
  qed simp
  from less.prems show ?case
  proof (cases rule: compile_node_cases)
    case (arr it k ns1)
    have "6 - Suc d < 6 - d" using arr(1) by simp
    from less.hyps [OF this arr(3)] push_appends [OF arr(4)] show ?thesis by auto
  next
    case (obj p req vals ns1)
    from members [OF obj(5,1)] push_appends [OF obj(6)] show ?thesis by auto
  qed (auto dest: push_appends)
qed

lemma small_prefix: "list_all small_node ns' \<Longrightarrow> \<exists>zs. ns' = ns @ zs \<Longrightarrow> list_all small_node ns"
  by auto

lemma obj_node_ok:
  assumes pr: "printer_laws pr" and p: "distinct (map fst p)" "p \<noteq> []" "length p \<le> 32"
    and v: "length vals = length p" "\<forall>v \<in> set vals. v < length ns \<and> ht v \<le> 6 - Suc d" and d: "d \<le> 4"
    and s: "small_opts (map fst (sorted_members pr p))"
  shows "node_ok (ns @ [NObj (map fst (sorted_members pr p)) vals (required_bits req (sorted_members pr p))])
    (ht(length ns := 6 - d)) (length ns)"
proof -
  let ?kv = "sorted_members pr p"
  note k = member_keys_ok [OF pr p(1)]
  have key: "\<exists>s. x = pr (JString s)" if "x \<in> set (map fst ?kv)" for x using that unfolding k(3) by blast
  have "\<exists>s. x = dq # s @ [dq]" if "x \<in> set (map fst ?kv)" for x
    using key [OF that] printer_keys(1) [OF pr] by metis
  moreover have "x = y" if "x \<in> set (map fst ?kv)" "y \<in> set (map fst ?kv)" "is_prefix x y" for x y
    using key [OF that(1)] key [OF that(2)] that(3) printer_keys(2) [OF pr] by metis
  moreover have "bits_below (length p) (required_bits req ?kv)"
    using required_bits_below [of ?kv req] by (simp add: k(4))
  moreover have "opts_ok 65536 (map fst ?kv)" using s k(1) by (simp add: small_opts_def opts_ok_def)
  moreover have "?kv \<noteq> []" using p(2) k(4) by auto
  moreover have "w < Suc (length ns) \<and> (ht(length ns := 6 - d)) w < 6 - d" if "w \<in> set vals" for w
    using v(2) that d by fastforce
  ultimately show ?thesis using k(2,4) p v(1) by (simp add: node_ok_def)
qed

lemma node_compiles:
  assumes pr: "printer_laws pr"
  shows "compile_node pr ns s d = Inr (i, ns') \<Longrightarrow> nodes_inv ns ht \<Longrightarrow> d \<le> 5 \<Longrightarrow> maps_ok s \<Longrightarrow> list_all small_node ns'
    \<Longrightarrow> compiles ns ht d i ns'"
proof (induction "6 - d" arbitrary: ns s d i ns' ht rule: less_induct)
  case less
  note inv = less.prems(2) and ok = less.prems(4) and small = less.prems(5)
  have members: "\<exists>ht'. extends ms h ms' ht' \<and> length vals = length kv \<and> (\<forall>v \<in> set vals. v < length ms' \<and> ht' v \<le> 6 - Suc d)"
    if "compile_members pr ms kv (Suc d) = Inr (vals, ms')" "d \<le> 4" "nodes_inv ms h" "\<forall>(ek, k, v) \<in> set kv. maps_ok v" "list_all small_node ms'"
    for ms h kv vals ms'
    using that
  proof (induction kv arbitrary: ms h vals)
    case Nil
    then show ?case using extends_refl by auto
  next
    case (Cons x kv)
    obtain ek k v where x: "x = (ek, k, v)" by (cases x)
    from Cons.prems(1) [unfolded x] obtain j ms1 vals' where
      c: "compile_node pr ms v (Suc d) = Inr (j, ms1)" "compile_members pr ms1 kv (Suc d) = Inr (vals', ms')" "vals = j # vals'"
      by (rule members_Cons)
    have app: "\<exists>zs. ms' = ms1 @ zs"
      using c(2)
    proof (induction kv arbitrary: ms1 vals')
      case (Cons y kv)
      obtain ek k v where y: "y = (ek, k, v)" by (cases y)
      from Cons.prems [unfolded y] obtain j ms2 vs where
        "compile_node pr ms1 v (Suc d) = Inr (j, ms2)" "compile_members pr ms2 kv (Suc d) = Inr (vs, ms')"
        by (rule members_Cons)
      with compile_appends [of pr ms1 v "Suc d" j ms2] Cons.IH [of ms2 vs] show ?case by auto
    qed simp
    have "maps_ok v" using Cons.prems(4) x by simp
    with less.hyps [OF _ c(1)] Cons.prems small_prefix [OF Cons.prems(5) app]
    have "compiles ms h (Suc d) j ms1" by simp
    then obtain h1 where h1: "extends ms h ms1 h1" "j < length ms1" "h1 j \<le> 6 - Suc d" by (auto simp: compiles_def)
    then have "nodes_inv ms1 h1" by (simp add: extends_def)
    moreover have "\<forall>(ek, k, v) \<in> set kv. maps_ok v" using Cons.prems(4) by simp
    ultimately obtain h2 where h2: "extends ms1 h1 ms' h2" "length vals' = length kv"
      "\<forall>v \<in> set vals'. v < length ms' \<and> h2 v \<le> 6 - Suc d"
      using Cons.IH [OF c(2) Cons.prems(2) _ _ Cons.prems(5)] by blast
    have "h2 j = h1 j" "j < length ms'" using h2(1) h1(2) by (auto simp: extends_def)
    with extends_trans [OF h1(1) h2(1)] h1(3) h2(2,3) c(3) show ?case by (intro exI [of _ h2]) simp
  qed
  from less.prems(1) show ?case
  proof (cases rule: compile_node_cases)
    case any
    then show ?thesis using compiles_base(1) [OF inv] less.prems(3) by simp
  next
    case (choice vs)
    then show ?thesis using choice_compiles [OF pr inv choice(2,1) small less.prems(3)] by simp
  next
    case (plain n)
    then show ?thesis using plain_compiles [OF inv plain(2) less.prems(3)] by simp
  next
    case anyarr
    then show ?thesis using compiles_base(3) [OF inv] less.prems(3) by simp
  next
    case openobj
    then show ?thesis using compiles_base(2) [OF inv] less.prems(3) by simp
  next
    case (arr it k ns1)
    have "list_all small_node ns1" using small_prefix [OF small push_appends [OF arr(4)]] .
    then have "compiles ns ht (Suc d) k ns1"
      using less.hyps [OF _ arr(3) inv] arr(1) maps_ok_get [OF ok arr(2)] by simp
    from arr_compiles [OF this inv arr(4,1)] show ?thesis .
  next
    case (obj p req vals ns1)
    let ?kv = "sorted_members pr p"
    have m: "maps_ok (JObject p)" using maps_ok_get [OF ok obj(2)] .
    have kv: "\<forall>(ek, k, v) \<in> set ?kv. maps_ok v"
      using maps_ok_object [OF m] by (auto simp: sorted_members_def)
    have s1: "list_all small_node ns1" using small_prefix [OF small push_appends [OF obj(6)]] .
    from members [OF obj(5,1) inv kv s1] obtain h where h: "extends ns ht ns1 h" "length vals = length ?kv"
      "\<forall>v \<in> set vals. v < length ns1 \<and> h v \<le> 6 - Suc d" by blast
    have i1: "nodes_inv ns1 h" using h(1) by (simp add: extends_def)
    have "length vals = length p" using h(2) by (simp add: sorted_members_def)
    moreover have "small_opts (map fst ?kv)" using push_small [OF obj(6) small] by (simp add: small_node_def)
    ultimately have "node_ok (ns1 @ [NObj (map fst ?kv) vals (required_bits req ?kv)]) (h(length ns1 := 6 - d)) (length ns1)"
      using obj_node_ok [OF pr] maps_ok_object [OF m] obj(1,3,4) h(3) by blast
    from push_compiles [OF i1 obj(6) _ this] obj(1) have "compiles ns1 h d i ns'" by simp
    with extends_trans [OF h(1)] show ?thesis by (auto simp: compiles_def)
  qed
qed

section \<open>Compiling the tools\<close>

definition kind_ok :: "node list \<Rightarrow> pkind \<Rightarrow> bool" where
  "kind_ok ns k \<longleftrightarrow> (case k of PRawStr \<Rightarrow> True | PRawEnum o' \<Rightarrow> opts_ok 65536 o' \<and> o' \<noteq> [] | PJson n \<Rightarrow> n < length ns)"

definition small_kind :: "pkind \<Rightarrow> bool" where
  "small_kind k \<longleftrightarrow> (case k of PRawEnum o' \<Rightarrow> small_opts o' | _ \<Rightarrow> True)"

lemma kind_ok_mono: "kind_ok ns k \<Longrightarrow> length ns \<le> length ns' \<Longrightarrow> kind_ok ns' k"
  by (auto simp: kind_ok_def split: pkind.splits)

lemma raw_enum_ok: "raw_enum s = Some o' \<Longrightarrow> small_opts o' \<Longrightarrow> opts_ok 65536 o' \<and> o' \<noteq> []"
  by (auto simp: raw_enum_def opts_ok_def small_opts_def split: if_splits option.splits)

lemma param_kind_ok:
  assumes pr: "printer_laws pr" and p: "param_kind pr ns s = Inr (k, ns')" and i: "nodes_inv ns ht" and m: "maps_ok s"
    and s: "list_all small_node ns'" "small_kind k"
  shows "\<exists>ht'. extends ns ht ns' ht' \<and> kind_ok ns' k"
proof (cases "raw_enum s")
  case (Some o')
  then have "ns' = ns" "k = PRawEnum o'" using p by (auto simp: param_kind_def)
  then show ?thesis using extends_refl [OF i] raw_enum_ok [OF Some] s(2) by (auto simp: kind_ok_def small_kind_def)
next
  case None
  show ?thesis
  proof (cases "resolves_to_string s")
    case True
    then show ?thesis using p None extends_refl [OF i] by (auto simp: param_kind_def kind_ok_def)
  next
    case False
    then obtain j where j: "compile_node pr ns s 0 = Inr (j, ns')" "k = PJson j"
      using p None by (auto simp: param_kind_def split: sum.splits)
    from node_compiles [OF pr j(1) i _ m s(1)] show ?thesis using j(2) by (auto simp: compiles_def kind_ok_def)
  qed
qed

lemma param_kind_appends: "param_kind pr ns s = Inr (k, ns') \<Longrightarrow> \<exists>zs. ns' = ns @ zs"
  by (auto simp: param_kind_def dest: compile_appends split: option.splits if_splits sum.splits)

lemma params_Cons:
  assumes "compile_params pr req i ((k, v) # ps) ns t = Inr (t', ns')"
  obtains kd ns1 where "param_kind pr ns v = Inr (kd, ns1)"
    "compile_params pr req (Suc i) ps ns1 (t\<lparr>pnames := pnames t @ [k], kinds := kinds t @ [kd],
       required := (if k \<in> set req then required t OR push_bit i 1 else required t)\<rparr>) = Inr (t', ns')"
  using assms by (auto split: sum.splits)

lemma params_shape:
  "compile_params pr req i ps ns t = Inr (t', ns') \<Longrightarrow>
    pnames t' = pnames t @ map fst ps \<and> (\<exists>ks. kinds t' = kinds t @ ks \<and> length ks = length ps) \<and> (\<exists>zs. ns' = ns @ zs)"
proof (induction ps arbitrary: i ns t)
  case (Cons x ps)
  obtain k v where x: "x = (k, v)" by (cases x)
  from Cons.prems [unfolded x] obtain kd ns1 where c: "param_kind pr ns v = Inr (kd, ns1)"
    "compile_params pr req (Suc i) ps ns1 (t\<lparr>pnames := pnames t @ [k], kinds := kinds t @ [kd],
       required := (if k \<in> set req then required t OR push_bit i 1 else required t)\<rparr>) = Inr (t', ns')"
    by (rule params_Cons)
  from Cons.IH [OF c(2)] param_kind_appends [OF c(1)] show ?case by (auto simp: x)
qed simp

lemma params_ok:
  assumes pr: "printer_laws pr"
  shows "compile_params pr req i ps ns t = Inr (t', ns') \<Longrightarrow> nodes_inv ns ht \<Longrightarrow> \<forall>kv \<in> set ps. maps_ok (snd kv)
    \<Longrightarrow> list_all small_node ns' \<Longrightarrow> list_all small_kind (kinds t') \<Longrightarrow> list_all (kind_ok ns) (kinds t)
    \<Longrightarrow> \<exists>ht'. extends ns ht ns' ht' \<and> list_all (kind_ok ns') (kinds t')"
proof (induction ps arbitrary: i ns t ht)
  case Nil
  then show ?case using extends_refl by auto
next
  case (Cons x ps)
  obtain k v where x: "x = (k, v)" by (cases x)
  let ?t = "\<lambda>kd. t\<lparr>pnames := pnames t @ [k], kinds := kinds t @ [kd],
       required := (if k \<in> set req then required t OR push_bit i 1 else required t)\<rparr>"
  from Cons.prems(1) [unfolded x] obtain kd ns1 where c: "param_kind pr ns v = Inr (kd, ns1)"
    "compile_params pr req (Suc i) ps ns1 (?t kd) = Inr (t', ns')"
    by (rule params_Cons)
  note sh = params_shape [OF c(2)]
  have s1: "list_all small_node ns1" using small_prefix [OF Cons.prems(4)] sh by blast
  have k1: "small_kind kd" using sh Cons.prems(5) by auto
  have "maps_ok v" using Cons.prems(3) x by simp
  from param_kind_ok [OF pr c(1) Cons.prems(2) this s1 k1] obtain h1 where h1: "extends ns ht ns1 h1" "kind_ok ns1 kd" by blast
  then have i1: "nodes_inv ns1 h1" by (simp add: extends_def)
  have "list_all (kind_ok ns1) (kinds (?t kd))"
    using Cons.prems(6) h1(2) kind_ok_mono [OF _ extends_length [OF h1(1)]] by (auto simp: list_all_iff)
  with Cons.IH [OF c(2) i1 _ Cons.prems(4,5)] Cons.prems(3) obtain h2 where
    "extends ns1 h1 ns' h2" "list_all (kind_ok ns') (kinds t')" by auto
  with extends_trans [OF h1(1)] show ?case by blast
qed

definition tool_small :: "tool \<Rightarrow> bool" where
  "tool_small t \<longleftrightarrow> list_all small_kind (kinds t)"

lemma tool_ok_kinds:
  "tool_ok ns t \<longleftrightarrow> opts_ok 256 (pnames t) \<and> length (pnames t) \<le> 64 \<and> distinct (pnames t) \<and> length (kinds t) = length (pnames t)
     \<and> [] \<notin> set (pnames t) \<and> list_all (kind_ok ns) (kinds t)"
  by (simp add: tool_ok_def kind_ok_def list_all_iff)

lemma tool_ok_mono: "tool_ok ns t \<Longrightarrow> length ns \<le> length ns' \<Longrightarrow> tool_ok ns' t"
  by (auto simp: tool_ok_kinds list_all_iff intro: kind_ok_mono)

lemma props_maps_ok:
  assumes "maps_ok f" "Option.bind (Option.bind (obj_get ''parameters'' f) (obj_get ''properties'')) as_object = Some p"
  shows "distinct (map fst p) \<and> (\<forall>kv \<in> set p. maps_ok (snd kv))"
proof -
  from assms(2) obtain a where a: "obj_get ''parameters'' f = Some a" "obj_get ''properties'' a = Some (JObject p)"
    by (auto simp: bind_eq_Some_conv as_object_Some)
  show ?thesis by (rule maps_ok_object [OF maps_ok_get [OF maps_ok_get [OF assms(1) a(1)] a(2)]])
qed

lemma compile_tool_ok:
  assumes pr: "printer_laws pr" and c: "compile_tool pr glm name f ns = Inr (t, ns')" and i: "nodes_inv ns ht" and m: "maps_ok f"
    and s: "list_all small_node ns'" "tool_small t"
  shows "\<exists>ht'. extends ns ht ns' ht' \<and> tool_ok ns' t"
proof -
  define props where "props = (case Option.bind (Option.bind (obj_get ''parameters'' f) (obj_get ''properties'')) as_object of Some p \<Rightarrow> p | None \<Rightarrow> [])"
  define ps where "ps = sort_by (\<lambda>a b. cmp (fst a) (fst b)) props"
  have p: "distinct (map fst props)" "\<forall>kv \<in> set props. maps_ok (snd kv)"
    using props_maps_ok [OF m]
    by (cases "Option.bind (Option.bind (obj_get ''parameters'' f) (obj_get ''properties'')) as_object"; simp add: props_def)+
  from c have r: "compile_params pr (required_names (obj_get ''parameters'' f)) 0 ps ns \<lparr>pnames = [], kinds = [], required = 0\<rparr> = Inr (t, ns')"
    and fi: "find (\<lambda>(k, v). unwritable glm k) props = None" and l: "length props \<le> 64"
    by (auto simp: compile_tool_def Let_def props_def ps_def split: option.splits if_splits)
  have w: "\<not> unwritable glm k" if "k \<in> fst ` set props" for k
    using fi that by (auto simp: find_None_iff)
  have wl: "length k < 256 \<and> k \<noteq> []" if "k \<in> fst ` set props" for k
    using w [OF that] by (simp add: unwritable_def)
  have sh: "pnames t = map fst ps" "length (kinds t) = length ps" using params_shape [OF r] by auto
  have ps: "map fst ps = sort_by cmp (map fst props)" "set ps = set props" "length ps = length props"
    by (simp_all add: ps_def sort_by_key)
  have "\<forall>kv \<in> set ps. maps_ok (snd kv)" using p(2) ps(2) by simp
  from params_ok [OF pr r i this s(1)] s(2) obtain h where h: "extends ns ht ns' h" "list_all (kind_ok ns') (kinds t)"
    by (auto simp: tool_small_def)
  have "opts_ok 256 (pnames t)" "[] \<notin> set (pnames t)"
    using wl l by (auto simp: opts_ok_def sh ps)
  moreover have "distinct (pnames t)" using p(1) by (simp add: sh ps)
  ultimately have "tool_ok ns' t" using h(2) l sh ps(3) by (simp add: tool_ok_kinds)
  with h(1) show ?thesis by blast
qed

lemma compile_tool_appends: "compile_tool pr glm name f ns = Inr (t, ns') \<Longrightarrow> \<exists>zs. ns' = ns @ zs"
  by (auto simp: compile_tool_def Let_def dest: params_shape split: option.splits if_splits)

lemma tools_appends:
  "compile_tools pr glm only ts ns acc = Inr (acc', ns') \<Longrightarrow> (\<exists>zs. ns' = ns @ zs) \<and> (\<exists>xs. acc' = acc @ xs)"
proof (induction ts arbitrary: ns acc)
  case (Cons t ts)
  then show ?case
    by (auto split: option.splits if_splits sum.splits dest!: Cons.IH dest: compile_tool_appends)
qed simp

definition tools_inv :: "bool \<Rightarrow> node list \<Rightarrow> (str \<times> tool) list \<Rightarrow> bool" where
  "tools_inv glm ns acc \<longleftrightarrow> distinct (map fst acc) \<and> (\<forall>(n, t) \<in> set acc. \<not> unwritable glm n \<and> tool_ok ns t)"

lemma tools_ok:
  assumes pr: "printer_laws pr"
  shows "compile_tools pr glm only ts ns acc = Inr (acc', ns') \<Longrightarrow> nodes_inv ns ht \<Longrightarrow> \<forall>t \<in> set ts. maps_ok t
    \<Longrightarrow> list_all small_node ns' \<Longrightarrow> \<forall>(n, t) \<in> set acc'. tool_small t \<Longrightarrow> tools_inv glm ns acc
    \<Longrightarrow> \<exists>ht'. nodes_inv ns' ht' \<and> tools_inv glm ns' acc'"
proof (induction ts arbitrary: ns acc ht)
  case (Cons t ts)
  have skip: ?case if "compile_tools pr glm only ts ns acc = Inr (acc', ns')"
    using Cons.IH [OF that Cons.prems(2) _ Cons.prems(4,5,6)] Cons.prems(3) by simp
  show ?case
  proof (cases "Option.bind (obj_get ''function'' t) (\<lambda>f. Option.bind (obj_get ''name'' f) as_str)")
    case None
    show ?thesis
    proof (cases "obj_get ''function'' t")
      case (Some f)
      then have "Option.bind (obj_get ''name'' f) as_str = None" using None by simp
      then show ?thesis using Cons.prems(1) skip Some by simp
    qed (use Cons.prems(1) skip in simp)
  next
    case (Some name)
    then obtain f where f: "obj_get ''function'' t = Some f" "Option.bind (obj_get ''name'' f) as_str = Some name"
      by (auto simp: bind_eq_Some_conv)
    show ?thesis
    proof (cases "(only \<noteq> None \<and> only \<noteq> Some name) \<or> name \<in> fst ` set acc")
      case True
      then show ?thesis using Cons.prems(1) skip f by (simp split: if_splits)
    next
      case False
      then obtain tool ns1 where c: "\<not> unwritable glm name" "compile_tool pr glm name f ns = Inr (tool, ns1)"
        "compile_tools pr glm only ts ns1 (acc @ [(name, tool)]) = Inr (acc', ns')"
        using Cons.prems(1) f by (auto split: if_splits sum.splits)
      note ap = tools_appends [OF c(3)]
      have s1: "list_all small_node ns1" using small_prefix [OF Cons.prems(4)] ap by blast
      have "(name, tool) \<in> set acc'" using ap by auto
      then have ts: "tool_small tool" using Cons.prems(5) by auto
      have "maps_ok f" using maps_ok_get [OF _ f(1)] Cons.prems(3) by simp
      from compile_tool_ok [OF pr c(2) Cons.prems(2) this s1 ts] obtain h where h: "extends ns ht ns1 h" "tool_ok ns1 tool" by blast
      have i1: "nodes_inv ns1 h" using h(1) by (simp add: extends_def)
      have "tools_inv glm ns1 (acc @ [(name, tool)])"
        using Cons.prems(6) c(1) h(2) False tool_ok_mono [OF _ extends_length [OF h(1)]] by (auto simp: tools_inv_def)
      from Cons.IH [OF c(3) i1 _ Cons.prems(4,5) this] Cons.prems(3) show ?thesis by simp
    qed
  qed
qed auto

theorem build_ok:
  assumes pr: "printer_laws pr" and m: "maps_ok tools" and b: "build_markup pr tools mode par only mk = Inr g" and s: "small_grammar g"
  shows "\<exists>ht. grammar_ok ht g"
proof -
  from b obtain arr where arr: "tools = JArray arr"
    by (auto simp: build_markup_def as_array_Some split: option.splits)
  with b obtain acc ns where c: "compile_tools pr (mk = Glm) only arr [NAny, NOpenObj, NArr N_ANY] [] = Inr (acc, ns)" "acc \<noteq> []"
    and g: "g = \<lparr>g_names = map fst (sort_by (\<lambda>a b. cmp (fst a) (fst b)) acc), g_tools = map snd (sort_by (\<lambda>a b. cmp (fst a) (fst b)) acc),
      g_nodes = ns, g_mode = mode, g_parallel = par, g_markup = mk\<rparr>"
    by (auto simp: build_markup_def Let_def split: sum.splits if_splits)
  have nodes: "list_all small_node ns" using s g by (simp add: small_grammar_def)
  have kinds: "\<forall>(n, t) \<in> set acc. tool_small t"
    using s g by (auto simp: small_grammar_def tool_small_def list_all_iff small_kind_def)
  have "\<forall>t \<in> set arr. maps_ok t" using m arr maps_ok_array by blast
  from tools_ok [OF pr c(1) nodes_inv_start this nodes kinds] obtain ht where h: "nodes_inv ns ht" "tools_inv (mk = Glm) ns acc"
    by (auto simp: tools_inv_def)
  have n: "g_names g = sort_by cmp (map fst acc)" "length (g_tools g) = length (g_names g)" "set (g_tools g) = snd ` set acc"
    by (simp_all add: g sort_by_key)
  have "opts_ok 256 (g_names g)" using s h(2) unfolding opts_ok_def n(1)
    by (fastforce simp: small_grammar_def n(1) tools_inv_def unwritable_def not_less)
  moreover have "\<forall>t \<in> set (g_tools g). tool_ok (g_nodes g) t" using h(2) n(3) g by (auto simp: tools_inv_def)
  ultimately have "grammar_ok ht g"
    using h(1) c(2) n g by (auto simp: grammar_ok_def nodes_inv_def)
  then show ?thesis by blast
qed

end
