(* ===== verification/GrammarVocab.thy ===== *)
theory GrammarVocab
  imports GrammarInv
begin

text \<open>
  The vocabulary as the grammar sees it (\<open>Vocab\<close> of \<open>engine/src/toolgrammar.rs\<close>): the bytes of
  every id, the preorder byte trie over the ids that may appear inside a call, the check of one
  id, and the mask of a whole state by a walk over the trie. A panic is \<open>None\<close>; for the walk,
  \<open>None\<close> also stands for a loop that does not end.
\<close>

section \<open>The trie\<close>

definition as_u32 :: "nat \<Rightarrow> nat" where "as_u32 n = n mod 2 ^ 32"

lemma as_u32_small: "n < 2 ^ 32 \<Longrightarrow> as_u32 n = n"
  by (simp add: as_u32_def)

record trie =
  t_depth :: "nat list"
  t_byte :: "char list"
  t_end :: "nat list"
  t_tok :: "nat list"
  t_toks :: "nat list"
  max_len :: nat

record vocab =
  v_n :: nat
  v_eos :: "nat list"
  v_open :: nat
  v_off :: "nat list"
  v_bytes :: str
  v_by_id_only :: "bool list"
  v_trie :: trie

definition lcp :: "str \<Rightarrow> str \<Rightarrow> nat" where
  "lcp prev cur = length (takeWhile (\<lambda>(a, b). a = b) (zip prev cur))"

text \<open>The open nodes, the deepest first; closing one writes the end of its subtree.\<close>

fun close_nodes :: "nat \<Rightarrow> nat list \<Rightarrow> trie \<Rightarrow> nat list \<times> trie" where
  "close_nodes l [] t = ([], t)"
| "close_nodes l (nd # stack) t = (if l < length stack
     then close_nodes l stack (t\<lparr>t_end := (t_end t)[nd := as_u32 (length (t_depth t))]\<rparr>)
     else (nd # stack, t))"

text \<open>One node per byte of \<open>cur\<close> from offset \<open>k\<close>.\<close>

fun open_nodes :: "nat \<Rightarrow> str \<Rightarrow> nat list \<Rightarrow> trie \<Rightarrow> nat list \<times> trie" where
  "open_nodes k [] stack t = (stack, t)"
| "open_nodes k (b # bs) stack t = open_nodes (Suc k) bs (length (t_depth t) # stack)
     (t\<lparr>t_depth := t_depth t @ [as_u16 (k + 1)], t_byte := t_byte t @ [b], t_end := t_end t @ [0],
        t_tok := t_tok t @ [as_u32 (length (t_toks t))]\<rparr>)"

fun add_tokens :: "(nat \<Rightarrow> str) \<Rightarrow> nat list \<Rightarrow> str \<Rightarrow> nat list \<Rightarrow> trie \<Rightarrow> nat list \<times> trie" where
  "add_tokens bo [] prev stack t = (stack, t)"
| "add_tokens bo (i # ids) prev stack t = (let cur = bo i; l = lcp prev cur;
      (stack1, t1) = close_nodes l stack t;
      (stack2, t2) = open_nodes l (drop l cur) stack1 t1 in
    add_tokens bo ids cur stack2 (t2\<lparr>t_toks := t_toks t2 @ [i], max_len := max (max_len t2) (length cur)\<rparr>))"

text \<open>The last loop empties the stack, the root included.\<close>

fun close_all :: "nat list \<Rightarrow> trie \<Rightarrow> trie" where
  "close_all [] t = t"
| "close_all (nd # stack) t = close_all stack (t\<lparr>t_end := (t_end t)[nd := as_u32 (length (t_depth t))]\<rparr>)"

definition trie_root :: trie where
  "trie_root = \<lparr>t_depth = [0], t_byte = [CHR 0x00], t_end = [0], t_tok = [0], t_toks = [], max_len = 0\<rparr>"

definition build_trie :: "(nat \<Rightarrow> str) \<Rightarrow> nat list \<Rightarrow> trie" where
  "build_trie bo ids = (let (stack, t) = add_tokens bo ids [] [0] trie_root; t' = close_all stack t in
     t'\<lparr>t_tok := t_tok t' @ [as_u32 (length (t_toks t'))]\<rparr>)"

section \<open>The vocabulary\<close>

fun collect_bytes :: "(nat \<Rightarrow> str) \<Rightarrow> nat list \<Rightarrow> nat list \<Rightarrow> str \<Rightarrow> nat list \<times> str" where
  "collect_bytes bytes_of [] off bytes = (off, bytes)"
| "collect_bytes bytes_of (i # ids) off bytes = (let bytes' = bytes @ bytes_of i in
     collect_bytes bytes_of ids (off @ [as_u32 (length bytes')]) bytes')"

definition slice :: "'a list \<Rightarrow> nat \<Rightarrow> nat \<Rightarrow> 'a list" where
  "slice xs a b = take (b - a) (drop a xs)"

definition build_vocab :: "nat \<Rightarrow> (nat \<Rightarrow> str) \<Rightarrow> (nat \<Rightarrow> bool) \<Rightarrow> nat list \<Rightarrow> nat \<Rightarrow> vocab" where
  "build_vocab n bytes_of special eos tool_open = (
     let (off, bytes) = collect_bytes bytes_of [0..<n] [0] [];
         by_id_only = map (\<lambda>i. bytes_of i = [] \<or> special i \<or> i \<in> set eos \<or> i = tool_open) [0..<n];
         bo = (\<lambda>i. slice bytes (off ! i) (off ! (i + 1)));
         ids = sort_by (\<lambda>a b. ord_then (cmp (bo a) (bo b)) (cmp a b)) (filter (\<lambda>i. \<not> by_id_only ! i) [0..<n]) in
     \<lparr>v_n = n, v_eos = eos, v_open = tool_open, v_off = off, v_bytes = bytes, v_by_id_only = by_id_only,
      v_trie = build_trie bo ids\<rparr>)"

definition id_bytes :: "vocab \<Rightarrow> nat \<Rightarrow> str" where
  "id_bytes v i = slice (v_bytes v) (v_off v ! i) (v_off v ! (i + 1))"

definition token_ok :: "vocab \<Rightarrow> grammar \<Rightarrow> st \<Rightarrow> nat \<Rightarrow> bool option" where
  "token_ok v g s i = (if i \<ge> v_n v then Some False
     else if i \<in> set (v_eos v) then Some (eos_ok g s)
     else if i = v_open v then Some (open_ok g s)
     else if s_ph s = Idle then Some True
     else if v_by_id_only v ! i then Some False
     else map_option (\<lambda>r. r \<noteq> None) (run_bytes g s (id_bytes v i)))"

definition accept_id :: "vocab \<Rightarrow> grammar \<Rightarrow> st \<Rightarrow> nat \<Rightarrow> (bool \<times> st) option" where
  "accept_id v g s i = (case token_ok v g s i of
      None \<Rightarrow> None
    | Some False \<Rightarrow> Some (False, s)
    | Some True \<Rightarrow>
        if i = v_open v then Some (True, open_state g)
        else if s_ph s = Idle \<or> i \<in> set (v_eos v) then Some (True, s)
        else (case run_bytes g s (id_bytes v i) of Some (Some s') \<Rightarrow> Some (True, s') | _ \<Rightarrow> None))"

section \<open>The mask\<close>

definition set_mask :: "u64 list \<Rightarrow> nat \<Rightarrow> u64 list option" where
  "set_mask bits i = map_option (\<lambda>w. bits[i div 64 := w OR push_bit (i mod 64) 1]) (idx bits (i div 64))"

fun set_masks :: "u64 list \<Rightarrow> nat list \<Rightarrow> u64 list option" where
  "set_masks bits [] = Some bits"
| "set_masks bits (i # ids) = Option.bind (set_mask bits i) (\<lambda>b. set_masks b ids)"

definition allowed :: "u64 list \<Rightarrow> nat \<Rightarrow> bool" where
  "allowed bits i = (case idx bits (i div 64) of None \<Rightarrow> False | Some w \<Rightarrow> drop_bit (i mod 64) w AND 1 = 1)"

partial_function (option) mask_walk :: "trie \<Rightarrow> grammar \<Rightarrow> st list \<Rightarrow> nat \<Rightarrow> u64 list \<Rightarrow> u64 list option" where
  "mask_walk t g stack i bits = (if i < length (t_depth t) then
     (let d = t_depth t ! i in
      if d = 0 \<or> length stack < d then None
      else Option.bind (step g (stack ! (d - 1)) (t_byte t ! i)) (\<lambda>r.
        if fst r
        then if length stack \<le> d then None else Option.bind (set_masks bits (slice (t_toks t) (t_tok t ! i) (t_tok t ! (i + 1))))
          (\<lambda>bits'. mask_walk t g (stack[d := snd r]) (i + 1) bits')
        else mask_walk t g stack (t_end t ! i) bits))
     else Some bits)"

definition mask :: "vocab \<Rightarrow> grammar \<Rightarrow> st \<Rightarrow> u64 list option" where
  "mask v g s = (
     let zero = replicate ((v_n v + 63) div 64) 0;
         eos = (if eos_ok g s then filter (\<lambda>e. e < v_n v) (v_eos v) else []);
         opener = (if v_open v < v_n v \<and> open_ok g s then [v_open v] else []) in
     Option.bind (set_masks zero (eos @ opener)) (\<lambda>bits.
       if s_ph s = Idle
       then set_masks bits (t_toks (v_trie v)
         @ filter (\<lambda>i. v_by_id_only v ! i \<and> i \<notin> set (v_eos v) \<and> i \<noteq> v_open v) [0..<v_n v])
       else mask_walk (v_trie v) g (replicate (max_len (v_trie v) + 1) s) 1 bits))"

end
