(* ===== verification/GrammarTrie.thy ===== *)
theory GrammarTrie
  imports GrammarVocab
begin

text \<open>
  What \<open>Vocab::build\<close> lays out: the nodes in preorder, each standing for a byte string (its
  path), every subtree a contiguous block that ends where \<open>t_end\<close> says, and the ids of a node
  exactly those whose bytes are its path.
\<close>

section \<open>Prefixes\<close>

lemma is_prefix_take [simp]: "is_prefix (take m p) p"
  by (metis append_take_drop_id is_prefix_iff)

lemma is_prefix_take_le: "m \<le> k \<Longrightarrow> is_prefix (take m p) (take k p)"
  using is_prefix_take [of m "take k p"] by (simp add: min_absorb1)

lemma is_prefix_trans: "is_prefix a b \<Longrightarrow> is_prefix b c \<Longrightarrow> is_prefix a c"
  by (auto simp: is_prefix_iff)

lemma is_prefix_take_eq: "is_prefix w p \<longleftrightarrow> w = take (length w) p"
  by (auto simp: is_prefix_def)

lemma lcp_le: "lcp a b \<le> length a" "lcp a b \<le> length b"
  using length_takeWhile_le [of "\<lambda>(a, b). a = b" "zip a b"] by (auto simp: lcp_def)

lemma lcp_take: "take (lcp a b) a = take (lcp a b) b"
proof (rule nth_equalityI)
  show "length (take (lcp a b) a) = length (take (lcp a b) b)" using lcp_le [of a b] by simp
  fix i assume "i < length (take (lcp a b) a)"
  then have i: "i < lcp a b" by simp
  then show "take (lcp a b) a ! i = take (lcp a b) b ! i"
    using takeWhile_zip_nth [of i a b] by (simp add: lcp_def)
qed

lemma lcp_take_le: "m \<le> lcp a b \<Longrightarrow> take m a = take m b"
  using lcp_take [of a b] by (metis min.absorb2 min.commute take_take)

text \<open>In sorted order, a string that adds no byte to its predecessor equals it.\<close>

lemma lcp_sorted: "a \<le> b \<Longrightarrow> lcp a b = length b \<Longrightarrow> a = b"
proof -
  assume le: "a \<le> b" and l: "lcp a b = length b"
  then have "is_prefix b a" using lcp_take [of a b] by (simp add: is_prefix_def)
  then have "b \<le> a" by (rule is_prefix_le)
  with le show "a = b" by simp
qed

section \<open>The layout\<close>

definition child_of :: "str \<Rightarrow> str \<Rightarrow> bool" where
  "child_of p q \<longleftrightarrow> q \<noteq> [] \<and> is_prefix (butlast q) p"

text \<open>\<open>e\<close> ends the subtree of node \<open>i\<close>: everything between extends its path, the node at \<open>e\<close> does not.\<close>

definition subtree_end :: "str list \<Rightarrow> nat \<Rightarrow> nat \<Rightarrow> bool" where
  "subtree_end ps e i \<longleftrightarrow> i < e \<and> e \<le> length ps \<and> (\<forall>k. i < k \<and> k < e \<longrightarrow> is_prefix (ps ! i) (ps ! k))
     \<and> (e < length ps \<longrightarrow> child_of (ps ! i) (ps ! e) \<and> length (ps ! e) \<le> length (ps ! i))"

definition open_at :: "str list \<Rightarrow> nat list \<Rightarrow> str \<Rightarrow> nat \<Rightarrow> bool" where
  "open_at ps stack prev m \<longleftrightarrow> (let i = stack ! (length prev - m) in
     i < length ps \<and> ps ! i = take m prev \<and> (\<forall>k. i < k \<and> k < length ps \<longrightarrow> is_prefix (take m prev) (ps ! k)))"

definition paths_inv :: "str list \<Rightarrow> nat list \<Rightarrow> nat list \<Rightarrow> str \<Rightarrow> bool" where
  "paths_inv ps stack te prev \<longleftrightarrow> ps \<noteq> [] \<and> ps ! 0 = [] \<and> last ps = prev \<and> length te = length ps
     \<and> (\<forall>i. Suc i < length ps \<longrightarrow> child_of (ps ! i) (ps ! Suc i))
     \<and> length stack = Suc (length prev) \<and> (\<forall>m \<le> length prev. open_at ps stack prev m)
     \<and> (\<forall>i < length ps. i \<notin> set stack \<longrightarrow> subtree_end ps (te ! i) i \<and> te ! i < length ps)"

lemma paths_inv_start: "paths_inv [[]] [0] [0] []"
  by (simp add: paths_inv_def open_at_def)

lemma subtree_end_append: "subtree_end ps e i \<Longrightarrow> e < length ps \<Longrightarrow> subtree_end (ps @ qs) e i"
  by (auto simp: subtree_end_def nth_append)

text \<open>Closing: the nodes deeper than \<open>l\<close> get the current length as their end.\<close>

lemma close_nodes_eq:
  "l < length stack \<Longrightarrow> fst (close_nodes l stack t) = drop (length stack - Suc l) stack"
  "l < length stack \<Longrightarrow> snd (close_nodes l stack t) = t\<lparr>t_end := t_end (snd (close_nodes l stack t))\<rparr>"
  "l < length stack \<Longrightarrow> length (t_end (snd (close_nodes l stack t))) = length (t_end t)"
  "l < length stack \<Longrightarrow> x < length (t_end t) \<Longrightarrow> t_end (snd (close_nodes l stack t)) ! x =
     (if x \<in> set (take (length stack - Suc l) stack) then as_u32 (length (t_depth t)) else t_end t ! x)"
proof (induction l stack t rule: close_nodes.induct)
  case (2 l nd stack t)
  {
    case 1
    show ?case
    proof (cases "l < length stack")
      case True
      then have "length stack - l = Suc (length stack - Suc l)" by simp
      then show ?thesis using "2.IH"(1) True by simp
    qed (use 1 in simp)
  next
    case 2
    then show ?case using "2.IH"(2) by (cases "l < length stack") simp_all
  next
    case 3
    then show ?case using "2.IH"(3) by (cases "l < length stack") simp_all
  next
    case 4
    show ?case
    proof (cases "l < length stack")
      case True
      then have "length stack - l = Suc (length stack - Suc l)" by simp
      then show ?thesis using "2.IH"(4) True 4 by (auto simp: nth_list_update)
    next
      case False
      with 4 show ?thesis by simp
    qed
  }
qed simp_all

lemma open_nodes_eq:
  "open_nodes l bs stack t = (rev [length (t_depth t)..<length (t_depth t) + length bs] @ stack,
     t\<lparr>t_depth := t_depth t @ map (\<lambda>k. as_u16 (k + 1)) [l..<l + length bs], t_byte := t_byte t @ bs,
       t_end := t_end t @ replicate (length bs) 0,
       t_tok := t_tok t @ replicate (length bs) (as_u32 (length (t_toks t)))\<rparr>)"
proof (induction bs arbitrary: l stack t)
  case (Cons b bs)
  have "[l..<l + length (b # bs)] = l # [Suc l..<Suc l + length bs]" by (simp add: upt_rec)
  moreover have "[n..<n + length (b # bs)] = n # [Suc n..<Suc n + length bs]" for n :: nat by (simp add: upt_rec)
  ultimately show ?case using Cons.IH [of "Suc l"] by simp
qed simp

definition new_paths :: "nat \<Rightarrow> str \<Rightarrow> str list" where
  "new_paths l cur = map (\<lambda>k. take (Suc k) cur) [l..<length cur]"

lemma new_paths_nth: "k < length cur - l \<Longrightarrow> new_paths l cur ! k = take (Suc (l + k)) cur"
  by (simp add: new_paths_def)

lemma length_new_paths [simp]: "length (new_paths l cur) = length cur - l"
  by (simp add: new_paths_def)

lemma butlast_take_Suc: "m < length xs \<Longrightarrow> butlast (take (Suc m) xs) = take m xs"
  by (simp add: butlast_take)

lemma paths_step:
  assumes inv: "paths_inv ps stack te prev" and le: "prev \<le> cur"
    and st1: "stack1 = drop (length stack - Suc (lcp prev cur)) stack"
    and te1: "length te1 = length te" "\<And>x. x < length te \<Longrightarrow> te1 ! x =
      (if x \<in> set (take (length stack - Suc (lcp prev cur)) stack) then length ps else te ! x)"
  defines "n \<equiv> length cur - lcp prev cur"
  shows "paths_inv (ps @ new_paths (lcp prev cur) cur) (rev [length ps..<length ps + n] @ stack1) (te1 @ replicate n 0) cur"
proof -
  define l where "l = lcp prev cur"
  define L where "L = length ps"
  note st1 = st1 [folded l_def] and te1 = te1 [folded l_def L_def]
  have i0: "ps \<noteq> []" "ps ! 0 = []" "last ps = prev" "length te = L" "length stack = Suc (length prev)"
    and ch: "\<And>i. Suc i < L \<Longrightarrow> child_of (ps ! i) (ps ! Suc i)"
    and op: "\<And>m. m \<le> length prev \<Longrightarrow> open_at ps stack prev m"
    and cl: "\<And>i. i < L \<Longrightarrow> i \<notin> set stack \<Longrightarrow> subtree_end ps (te ! i) i \<and> te ! i < L"
    using inv by (auto simp: paths_inv_def L_def)
  have ll: "l \<le> length prev" "l \<le> length cur" using lcp_le [of prev cur] by (simp_all add: l_def)
  have tk: "take m prev = take m cur" if "m \<le> l" for m using lcp_take_le [of m prev cur] that by (simp add: l_def)
  have nl: "n = length cur - l" by (simp add: n_def l_def)
  have np: "(ps @ new_paths l cur) ! k = (if k < L then ps ! k else take (Suc (l + (k - L))) cur)" if "k < L + n" for k
    using that by (auto simp: nth_append L_def new_paths_nth nl)
  have np2: "(ps @ new_paths l cur) ! (L + k) = take (Suc (l + k)) cur" if "k < n" for k
    using that by (simp add: L_def nth_append new_paths_nth nl)
  show ?thesis
  proof (cases "n = 0")
    case True
    then have "l = length cur" using ll nl by simp
    then have "prev = cur" using lcp_sorted [OF le] by (simp add: l_def)
    moreover have "stack1 = stack" "te1 = te"
      using st1 te1 i0 \<open>l = length cur\<close> \<open>prev = cur\<close> by (auto intro: nth_equalityI)
    moreover have "new_paths l cur = []" using True nl by (simp add: new_paths_def)
    ultimately show ?thesis using inv True by (simp add: l_def)
  next
    case False
    let ?ps = "ps @ new_paths l cur" and ?st = "rev [L..<L + n] @ stack1" and ?te = "te1 @ replicate n 0"
    have len: "length ?ps = L + n" by (simp add: L_def nl)
    have L0: "0 < L" using i0(1) by (simp add: L_def)
    have last: "last ?ps = cur"
    proof -
      have "last ?ps = ?ps ! (L + n - 1)" using len False i0(1) by (subst last_conv_nth) auto
      also have "L + n - 1 = L + (n - 1)" using False by simp
      also have "?ps ! (L + (n - 1)) = take (Suc (l + (n - 1))) cur" using np2 [of "n - 1"] False by simp
      also have "\<dots> = cur" using nl False by simp
      finally show ?thesis .
    qed
    have chain: "child_of (?ps ! i) (?ps ! Suc i)" if "Suc i < L + n" for i
    proof -
      consider "Suc i < L" | "Suc i = L" | "L \<le> i" by linarith
      then show ?thesis
      proof cases
        case 1
        then show ?thesis using ch [of i] np that by simp
      next
        case 2
        then have "i = length ps - 1" by (simp add: L_def)
        with 2 have "?ps ! i = prev" using np [of i] that i0(1,3) last_conv_nth [of ps] by (simp add: L_def)
        moreover have "?ps ! Suc i = take (Suc l) cur" using np [of "Suc i"] that 2 by simp
        ultimately show ?thesis using butlast_take_Suc [of l cur] tk [of l] False nl
          by (auto simp: child_of_def) (metis is_prefix_take)
      next
        case 3
        define k where "k = l + (i - L)"
        have k: "Suc k < length cur" "?ps ! i = take (Suc k) cur" "?ps ! Suc i = take (Suc (Suc k)) cur"
          using np [of i] np [of "Suc i"] that 3 nl by (auto simp: k_def Suc_diff_le)
        then show ?thesis by (auto simp: child_of_def butlast_take_Suc)
      qed
    qed
    have lst: "length ?st = Suc (length cur)" using i0(5) ll nl st1 by simp
    have old: "?st ! (length cur - m) = stack ! (length prev - m)" if "m \<le> l" for m
    proof -
      have "length cur - m - n = l - m" "\<not> length cur - m < n" using that ll nl by auto
      then have "?st ! (length cur - m) = stack1 ! (l - m)" by (simp add: nth_append)
      also have "\<dots> = stack ! (length prev - m)" using st1 i0(5) ll that by simp
      finally show ?thesis .
    qed
    have new: "?st ! (length cur - m) = L + (m - Suc l)" if "l < m" "m \<le> length cur" for m
    proof -
      have "length cur - m < n" using that nl by simp
      then show ?thesis using that nl by (simp add: nth_append rev_nth)
    qed
    have opn: "open_at ?ps ?st cur m" if m: "m \<le> length cur" for m
    proof (cases "m \<le> l")
      case True
      have o: "open_at ps stack prev m" using op True ll by simp
      have "is_prefix (take m cur) (?ps ! k)" if "stack ! (length prev - m) < k" "k < L + n" for k
      proof (cases "k < L")
        case k: True
        then show ?thesis using o np [OF that(2)] that(1) tk [OF True] by (simp add: open_at_def Let_def L_def)
      next
        case False
        then show ?thesis using np [OF that(2)] True
          by (simp add: is_prefix_take_le)
      qed
      then show ?thesis using o old [OF True] np tk [OF True] len
        by (auto simp: open_at_def Let_def L_def)
    next
      case False
      have "is_prefix (take m cur) (?ps ! k)" if "L + (m - Suc l) < k" "k < L + n" for k
        using np [OF that(2)] that False
        by (auto intro: is_prefix_take_le)
      moreover have "?ps ! (L + (m - Suc l)) = take m cur"
        using np2 [of "m - Suc l"] False m nl by simp
      ultimately show ?thesis using new [of m] False m len nl by (auto simp: open_at_def Let_def)
    qed
    have closed: "subtree_end ?ps (?te ! i) i \<and> ?te ! i < L + n" if i: "i < L + n" "i \<notin> set ?st" for i
    proof -
      have iL: "i < L" and i1: "i \<notin> set stack1" using i by auto
      show ?thesis
      proof (cases "i \<in> set stack")
        case True
        then have tk1: "i \<in> set (take (length stack - Suc l) stack)" using i1 st1
          by (metis UnE append_take_drop_id set_append)
        then obtain k where k: "k < length stack - Suc l" "stack ! k = i" by (auto simp: in_set_conv_nth)
        define m where "m = length prev - k"
        have m: "l < m" "m \<le> length prev" "length prev - m = k" using k i0(5) by (auto simp: m_def)
        have o: "ps ! i = take m prev" "\<And>k. i < k \<Longrightarrow> k < L \<Longrightarrow> is_prefix (take m prev) (ps ! k)"
          using op [OF m(2)] m(3) k(2) by (auto simp: open_at_def Let_def L_def)
        have e: "?te ! i = L" using te1 tk1 iL i0(4) by (simp add: nth_append)
        have pL: "?ps ! L = take (Suc l) cur" using np [of L] False by simp
        have "is_prefix (take l cur) (take m prev)"
          using is_prefix_take_le [of l m prev] m unfolding tk [OF order_refl] by simp
        then have "child_of (?ps ! i) (?ps ! L)"
          using pL o(1) np [of i] iL butlast_take_Suc [of l cur] nl False by (auto simp: child_of_def)
        moreover have "length (?ps ! L) \<le> length (?ps ! i)" using pL o(1) np [of i] iL m by simp
        moreover have "is_prefix (?ps ! i) (?ps ! k)" if "i < k" "k < L" for k
          using o that np [of i] np [of k] by simp
        ultimately show ?thesis unfolding e using iL len False by (simp add: subtree_end_def)
      next
        case no: False
        then have "?te ! i = te ! i" using te1 iL i0(4) by (simp add: nth_append) (meson in_set_takeD)
        then show ?thesis using cl [OF iL no] subtree_end_append [of ps "te ! i" i "new_paths l cur"] by (simp add: L_def)
      qed
    qed
    have "?ps ! 0 = []" using np [of 0] L0 i0(2) by simp
    then have "paths_inv ?ps ?st ?te cur"
      unfolding paths_inv_def using i0(1,4) last len lst chain opn closed te1(1) by auto
    then show ?thesis by (simp add: l_def L_def)
  qed
qed

section \<open>The ids at the nodes\<close>

text \<open>\<open>tss\<close> are the ids of each node; \<open>t_tok\<close> the offset of each node's ids in \<open>t_toks\<close>.\<close>

definition tok_start :: "'a list list \<Rightarrow> nat \<Rightarrow> nat" where
  "tok_start tss i = length (concat (take i tss))"

definition toks_inv :: "(nat \<Rightarrow> str) \<Rightarrow> str list \<Rightarrow> nat list list \<Rightarrow> trie \<Rightarrow> nat list \<Rightarrow> bool" where
  "toks_inv bo ps tss t ids \<longleftrightarrow> length tss = length ps \<and> concat tss = ids \<and> t_toks t = ids
     \<and> t_depth t = map length ps \<and> t_byte t = map (\<lambda>p. if p = [] then CHR 0x00 else last p) ps
     \<and> t_tok t = map (tok_start tss) [0..<length ps]
     \<and> (\<forall>i < length ps. \<forall>x \<in> set (tss ! i). bo x = ps ! i) \<and> (\<forall>p \<in> set ps. length p \<le> max_len t)
     \<and> length ps \<le> 1 + sum_list (map (length \<circ> bo) ids)"

lemma toks_inv_start: "toks_inv bo [[]] [[]] trie_root []"
  by (simp add: toks_inv_def trie_root_def tok_start_def)

lemma tok_start_append: "i \<le> length tss \<Longrightarrow> tok_start (tss @ xs) i = tok_start tss i"
  by (simp add: tok_start_def)

lemma tok_start_new: "tok_start (tss @ replicate n []) (length tss + k) = length (concat tss)"
proof -
  have "take (length tss + k) (tss @ replicate n []) = tss @ replicate (min k n) []" by (simp add: min_def)
  then show ?thesis by (simp add: tok_start_def)
qed

lemma tok_start_last: "tss \<noteq> [] \<Longrightarrow> i < length tss \<Longrightarrow> tok_start (butlast tss @ [x]) i = tok_start tss i"
proof -
  assume a: "tss \<noteq> []" "i < length tss"
  then show ?thesis by (simp add: tok_start_def take_butlast)
qed

lemma slice_concat: "i < length tss \<Longrightarrow> slice (concat tss) (tok_start tss i) (tok_start tss (Suc i)) = tss ! i"
proof -
  assume i: "i < length tss"
  have "concat tss = concat (take i tss) @ tss ! i @ concat (drop (Suc i) tss)"
    by (metis i concat.simps(2) concat_append id_take_nth_drop)
  moreover have "tok_start tss (Suc i) = tok_start tss i + length (tss ! i)"
    using i by (simp add: tok_start_def take_Suc_conv_app_nth)
  ultimately show ?thesis by (simp add: slice_def tok_start_def)
qed

lemma trie_step:
  assumes tk: "toks_inv bo ps tss t ids" and pi: "paths_inv ps stack (t_end t) prev" and le: "prev \<le> bo x"
    and small: "length (bo x) < 65536" "Suc (sum_list (map (length \<circ> bo) (ids @ [x]))) < 2 ^ 32" "length ids < 2 ^ 32"
    and c: "close_nodes (lcp prev (bo x)) stack t = (stack1, t1)"
    and o: "open_nodes (lcp prev (bo x)) (drop (lcp prev (bo x)) (bo x)) stack1 t1 = (stack2, t2)"
  shows "\<exists>ps' tss'. paths_inv ps' stack2 (t_end t2) (bo x)
    \<and> toks_inv bo ps' tss' (t2\<lparr>t_toks := t_toks t2 @ [x], max_len := max (max_len t2) (length (bo x))\<rparr>) (ids @ [x])"
proof -
  define cur where "cur = bo x"
  define l where "l = lcp prev cur"
  define n where "n = length cur - l"
  let ?ps = "ps @ new_paths l cur" and ?tss = "tss @ replicate n []"
  have T: "length tss = length ps" "concat tss = ids" "t_toks t = ids" "t_depth t = map length ps"
    "t_byte t = map (\<lambda>p. if p = [] then CHR 0x00 else last p) ps" "t_tok t = map (tok_start tss) [0..<length ps]"
    "\<And>i x. i < length ps \<Longrightarrow> x \<in> set (tss ! i) \<Longrightarrow> bo x = ps ! i" "\<And>p. p \<in> set ps \<Longrightarrow> length p \<le> max_len t"
    "length ps \<le> 1 + sum_list (map (length \<circ> bo) ids)"
    using tk by (auto simp: toks_inv_def)
  have st: "length stack = Suc (length prev)" and te: "length (t_end t) = length ps" and ne: "ps \<noteq> []"
    using pi by (auto simp: paths_inv_def)
  have ll: "l \<le> length prev" "l \<le> length cur" using lcp_le [of prev cur] by (simp_all add: l_def)
  have lt: "l < length stack" using ll st by simp
  have L32: "length ps < 2 ^ 32" using T(9) small(2) by simp
  have c': "close_nodes l stack t = (stack1, t1)" using c by (simp add: l_def cur_def)
  have ce: "stack1 = drop (length stack - Suc l) stack" "t1 = t\<lparr>t_end := t_end t1\<rparr>" "length (t_end t1) = length (t_end t)"
    "\<And>y. y < length (t_end t) \<Longrightarrow> t_end t1 ! y =
      (if y \<in> set (take (length stack - Suc l) stack) then as_u32 (length (t_depth t)) else t_end t ! y)"
    using close_nodes_eq [OF lt, where t = t] c' by simp_all
  have t1: "t_depth t1 = t_depth t" "t_byte t1 = t_byte t" "t_tok t1 = t_tok t" "t_toks t1 = t_toks t" "max_len t1 = max_len t"
    using arg_cong [OF ce(2), of t_depth] arg_cong [OF ce(2), of t_byte] arg_cong [OF ce(2), of t_tok]
      arg_cong [OF ce(2), of t_toks] arg_cong [OF ce(2), of max_len] by simp_all
  have o': "open_nodes l (drop l cur) stack1 t1 = (stack2, t2)" using o by (simp add: l_def cur_def)
  from o' [unfolded open_nodes_eq] have s2: "stack2 = rev [length ps..<length ps + n] @ stack1"
    and t2: "t2 = t1\<lparr>t_depth := t_depth t1 @ map (\<lambda>k. as_u16 (k + 1)) [l..<l + n], t_byte := t_byte t1 @ drop l cur,
       t_end := t_end t1 @ replicate n 0, t_tok := t_tok t1 @ replicate n (as_u32 (length (t_toks t1)))\<rparr>"
    by (simp_all add: t1 T(4) n_def)
  have te1: "t_end t1 ! y = (if y \<in> set (take (length stack - Suc l) stack) then length ps else t_end t ! y)" if "y < length (t_end t)" for y
    using ce(4) [of y] that L32 by (simp add: T(4) as_u32_small)
  have P: "paths_inv ?ps stack2 (t_end t2) cur"
    using paths_step [OF pi le [folded cur_def], of stack1 "t_end t1", folded l_def, OF ce(1) ce(3) te1]
    by (simp add: s2 t2 n_def)
  have ln: "length (new_paths l cur) = n" by (simp add: n_def)
  have lps: "length ?ps = length ?tss" using T(1) ln by simp
  have tne: "?tss \<noteq> []" using T(1) ne by auto
  let ?tss' = "butlast ?tss @ [last ?tss @ [x]]"
  have cc: "concat ?tss' = ids @ [x]"
  proof -
    have "concat ?tss' = concat (butlast ?tss @ [last ?tss]) @ [x]" by (simp del: append_butlast_last_id)
    also have "butlast ?tss @ [last ?tss] = ?tss" by (rule append_butlast_last_id [OF tne])
    finally show ?thesis using T(2) by simp
  qed
  have depth: "t_depth t2 = map length ?ps"
  proof -
    have "map (\<lambda>k. as_u16 (k + 1)) [l..<l + n] = map length (new_paths l cur)"
      using small(1) ll by (intro nth_equalityI) (auto simp: new_paths_nth n_def cur_def)
    then show ?thesis by (simp add: t2 t1 T(4))
  qed
  have byte: "t_byte t2 = map (\<lambda>p. if p = [] then CHR 0x00 else last p) ?ps"
  proof -
    have "drop l cur = map (\<lambda>p. if p = [] then CHR 0x00 else last p) (new_paths l cur)"
    proof (rule nth_equalityI)
      fix k assume "k < length (drop l cur)"
      then have k: "l + k < length cur" "k < n" by (auto simp: n_def)
      have "last (take (Suc (l + k)) cur) = cur ! (l + k)"
        using k by (simp add: take_Suc_conv_app_nth)
      moreover have "take (Suc (l + k)) cur \<noteq> []" using k by auto
      ultimately show "drop l cur ! k = map (\<lambda>p. if p = [] then CHR 0x00 else last p) (new_paths l cur) ! k"
        using k by (simp add: new_paths_nth n_def)
    qed (simp add: n_def)
    then show ?thesis by (simp add: t2 t1 T(5))
  qed
  have tok: "t_tok t2 = map (tok_start ?tss') [0..<length ?ps]"
  proof (rule nth_equalityI)
    show "length (t_tok t2) = length (map (tok_start ?tss') [0..<length ?ps])" by (simp add: t2 t1 T(6) n_def)
    fix k assume "k < length (t_tok t2)"
    then have k: "k < length ps + n" by (simp add: t2 t1 T(6))
    have e: "tok_start ?tss' k = tok_start ?tss k" by (rule tok_start_last [OF tne]) (use k T(1) in simp)
    show "t_tok t2 ! k = map (tok_start ?tss') [0..<length ?ps] ! k"
    proof (cases "k < length ps")
      case True
      then show ?thesis using e T(1) ln by (simp add: t2 t1 T(6) nth_append tok_start_append)
    next
      case False
      then obtain d where d: "k = length tss + d" "d < n" using k T(1) by (metis le_Suc_ex nat_add_left_cancel_less not_less)
      then show ?thesis using e T(1,2,3) ln tok_start_new [of tss n d] small(3)
        by (simp add: t2 t1 T(6) nth_append as_u32_small)
    qed
  qed
  have own: "bo y = ?ps ! i" if "i < length ?ps" "y \<in> set (?tss' ! i)" for i y
  proof (cases "i = length ?ps - 1")
    case True
    have lastp: "?ps ! i = cur" using P ne last_conv_nth [of ?ps] True by (simp add: paths_inv_def)
    have "?tss' ! i = last ?tss @ [x]" using True lps tne by (simp add: nth_append)
    then have "y = x \<or> y \<in> set (?tss ! i)" using that(2) True lps tne last_conv_nth [of ?tss] by auto
    then show ?thesis
    proof
      assume "y \<in> set (?tss ! i)"
      then have "i < length tss" "y \<in> set (tss ! i)" using that(1) lps by (auto simp: nth_append split: if_splits)
      then show ?thesis using T(7) T(1) by (simp add: nth_append)
    qed (use lastp cur_def in simp)
  next
    case False
    then have "i < length ?tss - 1" using that(1) lps by linarith
    then have "?tss' ! i = ?tss ! i" by (simp only: nth_append length_butlast if_True nth_butlast)
    then have "i < length tss" "y \<in> set (tss ! i)" using that lps by (auto simp: nth_append split: if_splits)
    then show ?thesis using T(7) T(1) by (simp add: nth_append)
  qed
  have mx: "length p \<le> max (max_len t) (length cur)" if "p \<in> set ?ps" for p
    using that T(8) by (fastforce simp: new_paths_def)
  have lb: "length ?ps \<le> 1 + sum_list (map (length \<circ> bo) (ids @ [x]))" using T(9) by (simp add: cur_def)
  have lt': "length ?tss' = length ?ps" using lps tne by simp
  have tt: "t_toks t2 = ids" "max_len t2 = max_len t" by (simp_all add: t2 t1 T(3))
  define ps' where "ps' = ?ps"
  define tss' where "tss' = ?tss'"
  define t3 where "t3 = t2\<lparr>t_toks := t_toks t2 @ [x], max_len := max (max_len t2) (length (bo x))\<rparr>"
  have t3: "t_toks t3 = ids @ [x]" "t_depth t3 = map length ps'" "t_byte t3 = map (\<lambda>p. if p = [] then CHR 0x00 else last p) ps'"
    "t_tok t3 = map (tok_start tss') [0..<length ps']" "max_len t3 = max (max_len t) (length cur)"
    using depth byte tok tt unfolding ps'_def [symmetric] tss'_def [symmetric] by (simp_all add: t3_def cur_def)
  have "toks_inv bo ps' tss' t3 (ids @ [x])"
    unfolding toks_inv_def using t3 lt' cc own mx lb unfolding ps'_def [symmetric] tss'_def [symmetric]
    by (intro conjI allI ballI impI) simp_all
  then have "toks_inv bo ?ps ?tss' (t2\<lparr>t_toks := t_toks t2 @ [x], max_len := max (max_len t2) (length (bo x))\<rparr>) (ids @ [x])"
    unfolding ps'_def tss'_def t3_def .
  with P show ?thesis unfolding cur_def by blast
qed

section \<open>The whole trie\<close>

lemma tokens_added:
  "add_tokens bo xs prev stack t = (stack', t') \<Longrightarrow> toks_inv bo ps tss t ids \<Longrightarrow> paths_inv ps stack (t_end t) prev
    \<Longrightarrow> sorted (prev # map bo xs) \<Longrightarrow> \<forall>x \<in> set xs. length (bo x) < 65536
    \<Longrightarrow> Suc (sum_list (map (length \<circ> bo) (ids @ xs))) < 2 ^ 32 \<Longrightarrow> length (ids @ xs) < 2 ^ 32
    \<Longrightarrow> \<exists>ps' tss' prev'. toks_inv bo ps' tss' t' (ids @ xs) \<and> paths_inv ps' stack' (t_end t') prev'"
proof (induction xs arbitrary: prev stack t ps tss ids)
  case Nil
  then show ?case by auto
next
  case (Cons x xs)
  obtain stack1 t1 where c: "close_nodes (lcp prev (bo x)) stack t = (stack1, t1)" by fastforce
  obtain stack2 t2 where o: "open_nodes (lcp prev (bo x)) (drop (lcp prev (bo x)) (bo x)) stack1 t1 = (stack2, t2)" by fastforce
  let ?t = "t2\<lparr>t_toks := t_toks t2 @ [x], max_len := max (max_len t2) (length (bo x))\<rparr>"
  have r: "add_tokens bo xs (bo x) stack2 ?t = (stack', t')" using Cons.prems(1) c o by (simp add: Let_def)
  have le: "prev \<le> bo x" using Cons.prems(4) by simp
  have z: "length (bo x) < 65536" "Suc (sum_list (map (length \<circ> bo) (ids @ [x]))) < 2 ^ 32" "length ids < 2 ^ 32"
    using Cons.prems(5,6,7) by (simp_all add: comp_def)
  from trie_step [OF Cons.prems(2,3) le z c o] obtain ps1 tss1 where
    i: "paths_inv ps1 stack2 (t_end t2) (bo x)" "toks_inv bo ps1 tss1 ?t (ids @ [x])" by blast
  have "paths_inv ps1 stack2 (t_end ?t) (bo x)" using i(1) by simp
  from Cons.IH [OF r i(2) this] Cons.prems(4,5,6,7) show ?case by simp
qed

lemma close_all_eq:
  "t_depth (close_all stack t) = t_depth t" "t_byte (close_all stack t) = t_byte t" "t_tok (close_all stack t) = t_tok t"
  "t_toks (close_all stack t) = t_toks t" "max_len (close_all stack t) = max_len t"
  "length (t_end (close_all stack t)) = length (t_end t)"
  by (induction stack arbitrary: t) simp_all

lemma close_all_end:
  "x < length (t_end t) \<Longrightarrow> t_end (close_all stack t) ! x = (if x \<in> set stack then as_u32 (length (t_depth t)) else t_end t ! x)"
  by (induction stack arbitrary: t) (auto simp: nth_list_update)

definition laid_out :: "(nat \<Rightarrow> str) \<Rightarrow> str list \<Rightarrow> nat list list \<Rightarrow> trie \<Rightarrow> nat list \<Rightarrow> bool" where
  "laid_out bo ps tss t ids \<longleftrightarrow> length tss = length ps \<and> concat tss = ids \<and> t_toks t = ids
     \<and> t_depth t = map length ps \<and> t_byte t = map (\<lambda>p. if p = [] then CHR 0x00 else last p) ps
     \<and> t_tok t = map (tok_start tss) [0..<Suc (length ps)]
     \<and> (\<forall>i < length ps. \<forall>x \<in> set (tss ! i). bo x = ps ! i) \<and> (\<forall>p \<in> set ps. length p \<le> max_len t)
     \<and> ps \<noteq> [] \<and> ps ! 0 = [] \<and> (\<forall>i. Suc i < length ps \<longrightarrow> child_of (ps ! i) (ps ! Suc i))
     \<and> (\<forall>i < length ps. subtree_end ps (t_end t ! i) i)"

theorem build_trie_laid_out:
  assumes s: "sorted (map bo ids)" and l: "\<forall>x \<in> set ids. length (bo x) < 65536"
    and small: "Suc (sum_list (map (length \<circ> bo) ids)) < 2 ^ 32" "length ids < 2 ^ 32"
  shows "\<exists>ps tss. laid_out bo ps tss (build_trie bo ids) ids"
proof -
  obtain stack t where a: "add_tokens bo ids [] [0] trie_root = (stack, t)" by fastforce
  have "sorted ([] # map bo ids)" using s by simp
  moreover have "paths_inv [[]] [0] (t_end trie_root) []" using paths_inv_start by (simp add: trie_root_def)
  ultimately obtain ps tss prev where tk: "toks_inv bo ps tss t ids" and pi: "paths_inv ps stack (t_end t) prev"
    using tokens_added [OF a toks_inv_start] l small by auto
  let ?t = "close_all stack t"
  have len: "length (t_end t) = length ps" "t_depth t = map length ps" using tk pi by (auto simp: toks_inv_def paths_inv_def)
  have "length ps < 2 ^ 32" using tk small by (simp add: toks_inv_def)
  then have L: "as_u32 (length (t_depth t)) = length ps" using len by (simp add: as_u32_small)
  have e: "subtree_end ps (t_end ?t ! i) i" if i: "i < length ps" for i
  proof (cases "i \<in> set stack")
    case True
    have st: "length stack = Suc (length prev)" using pi by (simp add: paths_inv_def)
    from True obtain k where k: "k < length stack" "stack ! k = i" by (auto simp: in_set_conv_nth)
    define m where "m = length prev - k"
    have m: "m \<le> length prev" "length prev - m = k" using k st by (auto simp: m_def)
    have "open_at ps stack prev m" using pi m(1) by (simp add: paths_inv_def)
    then have "\<And>k. i < k \<Longrightarrow> k < length ps \<Longrightarrow> is_prefix (ps ! i) (ps ! k)"
      using k(2) m(2) by (simp add: open_at_def Let_def)
    then show ?thesis using close_all_end [of i t stack] True i len L by (simp add: subtree_end_def)
  next
    case False
    then show ?thesis using close_all_end [of i t stack] pi i len by (simp add: paths_inv_def)
  qed
  have total: "tok_start tss (length ps) = length ids" using tk by (auto simp: toks_inv_def tok_start_def)
  have b: "build_trie bo ids = ?t\<lparr>t_tok := t_tok ?t @ [as_u32 (length (t_toks ?t))]\<rparr>"
    by (simp add: build_trie_def a Let_def)
  have "t_tok (build_trie bo ids) = map (tok_start tss) [0..<Suc (length ps)]"
    using tk total small(2) by (simp add: b close_all_eq toks_inv_def as_u32_small)
  then have "laid_out bo ps tss (build_trie bo ids) ids"
    unfolding laid_out_def using tk pi e by (auto simp: b close_all_eq toks_inv_def paths_inv_def)
  then show ?thesis by blast
qed

lemma laid_out_tokens: "laid_out bo ps tss t ids \<Longrightarrow> i < length ps \<Longrightarrow> slice (t_toks t) (t_tok t ! i) (t_tok t ! Suc i) = tss ! i"
proof -
  assume l: "laid_out bo ps tss t ids" and i: "i < length ps"
  have "t_tok t ! i = tok_start tss i" "t_tok t ! Suc i = tok_start tss (Suc i)"
    using l i by (auto simp: laid_out_def nth_append simp del: upt_Suc)
  moreover have "t_toks t = concat tss" "i < length tss" using l i by (auto simp: laid_out_def)
  ultimately show ?thesis using slice_concat [of i tss] by simp
qed

lemma laid_out_len: "laid_out bo ps tss t ids \<Longrightarrow> p \<in> set ps \<Longrightarrow> length p \<le> max_len t"
  unfolding laid_out_def by blast

lemma laid_out_in: "laid_out bo ps tss t ids \<Longrightarrow> i < length ps \<Longrightarrow> x \<in> set (tss ! i) \<Longrightarrow> x \<in> set ids"
proof -
  assume l: "laid_out bo ps tss t ids" and i: "i < length ps" "x \<in> set (tss ! i)"
  have "length tss = length ps" "concat tss = ids" using l by (simp_all add: laid_out_def)
  moreover from this i have "tss ! i \<in> set tss" by simp
  ultimately show ?thesis using i(2) by auto
qed

lemma laid_out_node: "laid_out bo ps tss t ids \<Longrightarrow> x \<in> set ids \<Longrightarrow> \<exists>i < length ps. x \<in> set (tss ! i) \<and> ps ! i = bo x"
proof -
  assume l: "laid_out bo ps tss t ids" and x: "x \<in> set ids"
  have e: "length tss = length ps" "concat tss = ids" using l by (simp_all add: laid_out_def)
  with x obtain ts where "ts \<in> set tss" "x \<in> set ts" by auto
  with e obtain i where i: "i < length ps" "x \<in> set (tss ! i)" by (metis in_set_conv_nth)
  moreover have "bo x = ps ! i" using l i unfolding laid_out_def by blast
  ultimately show ?thesis by auto
qed

end
