(* ===== verification/GrammarMask.thy ===== *)
theory GrammarMask
  imports GrammarTrie "HOL-Library.Multiset"
begin

text \<open>
  The mask of a state is what the check of each id says: the walk over the trie returns, skips
  exactly the subtrees whose path is refused, and sets the bit of an id iff \<open>token_ok\<close> holds.
\<close>

section \<open>Bits\<close>

lemma allowed_bit: "allowed bits i \<longleftrightarrow> i div 64 < length bits \<and> bit (bits ! (i div 64)) (i mod 64)"
  by (auto simp: allowed_def idx_def and_one_eq mod_2_eq_odd bit_iff_odd_drop_bit)

lemma set_mask_Some:
  assumes "i div 64 < length bits"
  shows "\<exists>b. set_mask bits i = Some b \<and> length b = length bits \<and> (\<forall>x. allowed b x \<longleftrightarrow> x = i \<or> allowed bits x)"
proof -
  let ?b = "bits[i div 64 := bits ! (i div 64) OR push_bit (i mod 64) 1]"
  have "set_mask bits i = Some ?b" using assms by (simp add: set_mask_def)
  moreover have "allowed ?b x \<longleftrightarrow> x = i \<or> allowed bits x" for x
  proof (cases "x div 64 = i div 64")
    case True
    have "x mod 64 = i mod 64 \<longleftrightarrow> x = i" using True by (metis mult_div_mod_eq)
    then show ?thesis using assms True by (auto simp: allowed_bit)
  next
    case False
    then show ?thesis by (auto simp: allowed_bit)
  qed
  ultimately show ?thesis by auto
qed

lemma set_masks_Some:
  "\<forall>i \<in> set ids. i div 64 < length bits \<Longrightarrow>
    \<exists>b. set_masks bits ids = Some b \<and> length b = length bits \<and> (\<forall>x. allowed b x \<longleftrightarrow> x \<in> set ids \<or> allowed bits x)"
proof (induction ids arbitrary: bits)
  case (Cons i ids)
  from set_mask_Some [of i bits] Cons.prems obtain b where
    b: "set_mask bits i = Some b" "length b = length bits" "\<And>x. allowed b x \<longleftrightarrow> x = i \<or> allowed bits x" by auto
  with Cons.IH [of b] Cons.prems obtain b' where
    "set_masks b ids = Some b'" "length b' = length b" "\<And>x. allowed b' x \<longleftrightarrow> x \<in> set ids \<or> allowed b x" by auto
  with b show ?case by auto
qed simp

section \<open>Running byte strings\<close>

lemma run_bytes_append: "run_bytes g s (a @ b) = (case run_bytes g s a of
    None \<Rightarrow> None | Some None \<Rightarrow> Some None | Some (Some s') \<Rightarrow> run_bytes g s' b)"
  by (induction a arbitrary: s) (auto split: option.splits bool.splits)

lemma run_bytes_ok:
  assumes g: "grammar_ok ht g"
  shows "st_ok g ht s \<Longrightarrow> \<exists>r. run_bytes g s bs = Some r \<and> (\<forall>s'. r = Some s' \<longrightarrow> st_ok g ht s')"
proof (induction bs arbitrary: s)
  case (Cons b bs)
  from step_ok [OF g Cons.prems, of b] obtain ok s' where s': "step g s b = Some (ok, s')" "ok \<Longrightarrow> st_ok g ht s'"
    by (auto simp: sr_ok_def split: option.splits)
  then show ?case using Cons.IH [of s'] by (cases ok) simp_all
qed simp

definition accepted :: "grammar \<Rightarrow> st \<Rightarrow> str \<Rightarrow> bool" where
  "accepted g s p \<longleftrightarrow> (\<exists>s'. run_bytes g s p = Some (Some s'))"

lemma accepted_prefix: "accepted g s p \<Longrightarrow> is_prefix q p \<Longrightarrow> accepted g s q"
  by (auto simp: accepted_def is_prefix_iff run_bytes_append split: option.splits)

lemma ex_from: "i < n \<Longrightarrow> (\<exists>k. i \<le> k \<and> k < n \<and> P k) \<longleftrightarrow> P i \<or> (\<exists>k. Suc i \<le> k \<and> k < n \<and> P k)"
  by (metis Suc_leD Suc_leI le_eq_less_or_eq le_refl)

section \<open>The walk\<close>

lemma mask_walk_spec:
  assumes g: "grammar_ok ht g" and s: "st_ok g ht s" and l: "laid_out bo ps tss t ids"
  shows "1 \<le> i \<Longrightarrow> i \<le> length ps \<Longrightarrow> length stack = Suc (max_len t)
    \<Longrightarrow> (i < length ps \<longrightarrow> (\<forall>k < length (ps ! i). run_bytes g s (take k (ps ! i)) = Some (Some (stack ! k))))
    \<Longrightarrow> \<forall>x \<in> set ids. x div 64 < length bits
    \<Longrightarrow> \<exists>b. mask_walk t g stack i bits = Some b \<and> length b = length bits
      \<and> (\<forall>x. allowed b x \<longleftrightarrow> allowed bits x \<or> (\<exists>k. i \<le> k \<and> k < length ps \<and> x \<in> set (tss ! k) \<and> accepted g s (ps ! k)))"
proof (induction "length ps - i" arbitrary: i stack bits rule: less_induct)
  case less
  have depth: "t_depth t = map length ps" using l by (simp add: laid_out_def)
  show ?case
  proof (cases "i < length ps")
    case False
    then have "mask_walk t g stack i bits = Some bits" using depth by (simp add: mask_walk.simps [of t])
    then show ?thesis using False by auto
  next
    case True
    let ?p = "ps ! i"
    have child: "child_of (ps ! (i - 1)) ?p"
      using l True less.prems(1) unfolding laid_out_def by (metis Suc_diff_1 less_eq_Suc_le One_nat_def)
    then have ne: "?p \<noteq> []" by (simp add: child_of_def)
    then obtain q b where qb: "?p = q @ [b]" by (metis append_butlast_last_id)
    have "?p \<in> set ps" using True by simp
    from laid_out_len [OF l this] have d: "length ?p = Suc (length q)" "length ?p \<le> max_len t" using qb by simp_all
    have byte: "t_byte t ! i = b" using l True qb by (simp add: laid_out_def)
    have rq: "run_bytes g s q = Some (Some (stack ! length q))" using less.prems(4) True qb by fastforce
    have sq: "st_ok g ht (stack ! length q)" using run_bytes_ok [OF g s, of q] rq by auto
    from step_ok [OF g sq, of b] obtain ok s' where s': "step g (stack ! length q) b = Some (ok, s')" "ok \<Longrightarrow> st_ok g ht s'"
      by (auto simp: sr_ok_def split: option.splits)
    have rp: "run_bytes g s ?p = Some (if ok then Some s' else None)"
      using rq s'(1) by (simp add: qb run_bytes_append split: bool.split)
    have toks: "slice (t_toks t) (t_tok t ! i) (t_tok t ! (i + 1)) = tss ! i" using laid_out_tokens [OF l True] by simp
    have sub: "x \<in> set ids" if "x \<in> set (tss ! i)" for x using laid_out_in [OF l True that] .
    have unf: "mask_walk t g stack i bits = (if ok
        then Option.bind (set_masks bits (tss ! i)) (\<lambda>bits'. mask_walk t g (stack[length ?p := s']) (i + 1) bits')
        else mask_walk t g stack (t_end t ! i) bits)"
      using True d less.prems(3) depth byte s'(1) toks by (subst mask_walk.simps) (simp add: Let_def)
    show ?thesis
    proof (cases ok)
      case ok: True
      from set_masks_Some [of "tss ! i" bits] less.prems(5) sub obtain b1 where
        b1: "set_masks bits (tss ! i) = Some b1" "length b1 = length bits" "\<And>x. allowed b1 x \<longleftrightarrow> x \<in> set (tss ! i) \<or> allowed bits x"
        by blast
      let ?st = "stack[length ?p := s']"
      have next_st: "run_bytes g s (take k (ps ! Suc i)) = Some (Some (?st ! k))" if k: "Suc i < length ps" "k < length (ps ! Suc i)" for k
      proof -
        have c: "child_of ?p (ps ! Suc i)" using l k(1) by (simp add: laid_out_def)
        then have bl: "is_prefix (butlast (ps ! Suc i)) ?p" by (simp add: child_of_def)
        have kb: "k \<le> length (butlast (ps ! Suc i))" using k(2) by simp
        have "take k (ps ! Suc i) = take k (butlast (ps ! Suc i))" using kb by (simp add: butlast_conv_take min_absorb1)
        also have "\<dots> = take k ?p" using bl kb by (auto simp: is_prefix_iff)
        finally have tk: "take k (ps ! Suc i) = take k ?p" .
        have "k \<le> length ?p" using kb prefix_length_le [OF bl] by simp
        then show ?thesis unfolding tk using less.prems(3,4) True rp ok d
          by (cases "k = length ?p") (simp_all add: nth_list_update)
      qed
      have "length ps - (i + 1) < length ps - i" using True by simp
      from less.hyps [OF this _ _ _ _, of ?st b1] less.prems(3,5) next_st True b1(2) obtain b' where
        b': "mask_walk t g ?st (i + 1) b1 = Some b'" "length b' = length bits"
        "\<And>x. allowed b' x \<longleftrightarrow> allowed b1 x \<or> (\<exists>k. Suc i \<le> k \<and> k < length ps \<and> x \<in> set (tss ! k) \<and> accepted g s (ps ! k))"
        by auto
      have acc: "accepted g s ?p" using rp ok by (simp add: accepted_def)
      have "allowed b' x \<longleftrightarrow> allowed bits x \<or> (\<exists>k. i \<le> k \<and> k < length ps \<and> x \<in> set (tss ! k) \<and> accepted g s (ps ! k))" for x
        unfolding b'(3) b1(3) ex_from [OF True] using acc by blast
      then show ?thesis using unf ok b1(1) b'(1,2) by auto
    next
      case no: False
      define e where "e = t_end t ! i"
      have se: "subtree_end ps e i" using l True by (simp add: laid_out_def e_def)
      have nacc: "\<not> accepted g s (ps ! k)" if "i \<le> k" "k < e" for k
      proof
        assume a: "accepted g s (ps ! k)"
        have "is_prefix ?p (ps ! k)" using se that by (cases "k = i") (simp_all add: subtree_end_def)
        from accepted_prefix [OF a this] show False using rp no by (simp add: accepted_def)
      qed
      have next_st: "run_bytes g s (take k (ps ! e)) = Some (Some (stack ! k))" if k: "e < length ps" "k < length (ps ! e)" for k
      proof -
        have c: "child_of ?p (ps ! e)" "length (ps ! e) \<le> length ?p" using se k(1) by (auto simp: subtree_end_def)
        then have bl: "is_prefix (butlast (ps ! e)) ?p" by (simp add: child_of_def)
        have kb: "k \<le> length (butlast (ps ! e))" using k(2) by simp
        have "take k (ps ! e) = take k (butlast (ps ! e))" using kb by (simp add: butlast_conv_take min_absorb1)
        also have "\<dots> = take k ?p" using bl kb by (auto simp: is_prefix_iff)
        finally show ?thesis using less.prems(4) True k(2) c(2) by simp
      qed
      have "length ps - e < length ps - i" "1 \<le> e" "e \<le> length ps" using se True by (auto simp: subtree_end_def)
      from less.hyps [OF this less.prems(3) _ less.prems(5)] next_st obtain b' where
        b': "mask_walk t g stack e bits = Some b'" "length b' = length bits"
        "\<And>x. allowed b' x \<longleftrightarrow> allowed bits x \<or> (\<exists>k. e \<le> k \<and> k < length ps \<and> x \<in> set (tss ! k) \<and> accepted g s (ps ! k))"
        by blast
      have "allowed b' x \<longleftrightarrow> allowed bits x \<or> (\<exists>k. i \<le> k \<and> k < length ps \<and> x \<in> set (tss ! k) \<and> accepted g s (ps ! k))" for x
        unfolding b'(3) using nacc se by (auto simp: subtree_end_def) (metis le_trans less_imp_le not_le)+
      then show ?thesis using unf no b'(1,2) by (auto simp: e_def)
    qed
  qed
qed

section \<open>The vocabulary\<close>

definition vocab_small :: "nat \<Rightarrow> (nat \<Rightarrow> str) \<Rightarrow> bool" where
  "vocab_small n bytes_of \<longleftrightarrow> n < 2 ^ 32 \<and> Suc (sum_list (map (length \<circ> bytes_of) [0..<n])) < 2 ^ 32
     \<and> (\<forall>i < n. length (bytes_of i) < 65536)"

lemma collect_bytes_eq:
  "collect_bytes f ids off bytes = (off @ map (\<lambda>k. as_u32 (length bytes + length (concat (map f (take (Suc k) ids))))) [0..<length ids],
     bytes @ concat (map f ids))"
proof (induction ids arbitrary: off bytes)
  case (Cons i ids)
  have "[0..<length (i # ids)] = 0 # map Suc [0..<length ids]" by (simp add: map_Suc_upt upt_conv_Cons del: upt_Suc)
  then show ?case using Cons.IH [of "off @ [as_u32 (length (bytes @ f i))]" "bytes @ f i"]
    by (simp add: Let_def comp_def add.assoc)
qed simp

lemma bytes_below: "vocab_small n f \<Longrightarrow> k \<le> n \<Longrightarrow> length (concat (map f [0..<k])) < 2 ^ 32"
proof -
  assume s: "vocab_small n f" and k: "k \<le> n"
  have "[0..<n] = [0..<k] @ [k..<n]" using k upt_add_eq_append [of 0 k "n - k"] by simp
  then have "sum_list (map (length \<circ> f) [0..<k]) \<le> sum_list (map (length \<circ> f) [0..<n])" by simp
  then show ?thesis using s by (simp add: vocab_small_def length_concat comp_def)
qed

lemma offsets:
  assumes "vocab_small n f" "collect_bytes f [0..<n] [0] [] = (off, bytes)" "k \<le> n"
  shows "off ! k = tok_start (map f [0..<n]) k" "bytes = concat (map f [0..<n])"
proof -
  have o: "off = [0] @ map (\<lambda>k. as_u32 (length (concat (map f (take (Suc k) [0..<n]))))) [0..<n]" and b: "bytes = concat (map f [0..<n])"
    using assms(2) unfolding collect_bytes_eq by auto
  show "bytes = concat (map f [0..<n])" by (rule b)
  have t: "tok_start (map f [0..<n]) k = length (concat (map f [0..<k]))" using assms(3) by (simp add: tok_start_def take_map)
  show "off ! k = tok_start (map f [0..<n]) k"
  proof (cases k)
    case (Suc m)
    have "off ! k = as_u32 (length (concat (map f [0..<k])))" using assms(3) Suc by (simp add: o del: upt_Suc)
    then show ?thesis using bytes_below [OF assms(1,3)] by (simp only: t as_u32_small)
  qed (simp add: o tok_start_def)
qed

lemma id_bytes_eq:
  assumes "vocab_small n f" "collect_bytes f [0..<n] [0] [] = (off, bytes)" "i < n"
  shows "slice bytes (off ! i) (off ! (i + 1)) = f i"
  using offsets [OF assms(1,2), of i] offsets [OF assms(1,2), of "Suc i"] assms(3) slice_concat [of i "map f [0..<n]"] by simp

lemma insert_by_map_sorted:
  assumes "\<And>x y. c x y = Greater \<Longrightarrow> f y \<le> f x" "\<And>x y. c x y \<noteq> Greater \<Longrightarrow> f x \<le> (f y :: 'b::linorder)"
  shows "sorted (map f xs) \<Longrightarrow> sorted (map f (insert_by c x xs))"
proof (induction xs)
  case (Cons y ys)
  then show ?case using assms(1) [of x y] assms(2) [of x y] by (auto intro: order_trans)
qed simp

lemma sort_by_map_sorted:
  assumes "\<And>x y. c x y = Greater \<Longrightarrow> f y \<le> f x" "\<And>x y. c x y \<noteq> Greater \<Longrightarrow> f x \<le> (f y :: 'b::linorder)"
  shows "sorted (map f (sort_by c xs))"
proof -
  have "sorted (map f (foldr (insert_by c) xs []))" by (induction xs) (simp_all add: insert_by_map_sorted [OF assms])
  then show ?thesis by (simp add: sort_by_def)
qed

lemma insert_by_perm: "mset (insert_by c x xs) = add_mset x (mset xs)"
  by (induction xs) auto

lemma sort_by_perm: "mset (sort_by c xs) = mset xs"
proof -
  have "mset (foldr (insert_by c) xs []) = mset xs" by (induction xs) (simp_all add: insert_by_perm)
  then show ?thesis by (simp add: sort_by_def)
qed

lemma sum_list_filter_le: "sum_list (map (f :: 'a \<Rightarrow> nat) (filter P xs)) \<le> sum_list (map f xs)"
  by (induction xs) auto

text \<open>The built vocabulary: its fields, and a trie over the ids that go by their bytes.\<close>

definition by_bytes :: "nat \<Rightarrow> (nat \<Rightarrow> str) \<Rightarrow> (nat \<Rightarrow> bool) \<Rightarrow> nat list \<Rightarrow> nat \<Rightarrow> nat \<Rightarrow> bool" where
  "by_bytes n f special eos op i \<longleftrightarrow> i < n \<and> f i \<noteq> [] \<and> \<not> special i \<and> i \<notin> set eos \<and> i \<noteq> op"

lemma build_vocab_spec:
  assumes s: "vocab_small n f" and v_def: "v = build_vocab n f special eos op"
  shows "v_n v = n" "v_eos v = eos" "v_open v = op"
    "\<And>i. i < n \<Longrightarrow> id_bytes v i = f i"
    "\<And>i. i < n \<Longrightarrow> v_by_id_only v ! i \<longleftrightarrow> \<not> by_bytes n f special eos op i"
    "\<exists>ps tss ids. laid_out f ps tss (v_trie v) ids \<and> set ids = {i. by_bytes n f special eos op i}"
proof -
  obtain off bytes where c: "collect_bytes f [0..<n] [0] [] = (off, bytes)" by fastforce
  define bi where "bi = map (\<lambda>i. f i = [] \<or> special i \<or> i \<in> set eos \<or> i = op) [0..<n]"
  define bo where "bo = (\<lambda>i. slice bytes (off ! i) (off ! (i + 1)))"
  define ids where "ids = sort_by (\<lambda>a b. ord_then (cmp (bo a) (bo b)) (cmp a b)) (filter (\<lambda>i. \<not> bi ! i) [0..<n])"
  have v: "v = \<lparr>v_n = n, v_eos = eos, v_open = op, v_off = off, v_bytes = bytes, v_by_id_only = bi, v_trie = build_trie bo ids\<rparr>"
    by (simp add: v_def build_vocab_def c bi_def bo_def ids_def Let_def)
  show "v_n v = n" "v_eos v = eos" "v_open v = op" by (simp_all add: v)
  have bof: "bo i = f i" if "i < n" for i using id_bytes_eq [OF s c that] by (simp add: bo_def)
  then show "id_bytes v i = f i" if "i < n" for i using that by (simp add: id_bytes_def v bo_def)
  have bib: "bi ! i \<longleftrightarrow> \<not> by_bytes n f special eos op i" if "i < n" for i using that by (auto simp: bi_def by_bytes_def)
  then show "v_by_id_only v ! i \<longleftrightarrow> \<not> by_bytes n f special eos op i" if "i < n" for i using that by (simp add: v)
  have si: "set ids = {i. by_bytes n f special eos op i}"
    using bib by (auto simp: ids_def) (auto simp: by_bytes_def)
  have below: "i < n" if "i \<in> set ids" for i using that by (auto simp: ids_def)
  have sb: "sorted (map bo ids)" unfolding ids_def
    by (rule sort_by_map_sorted) (auto simp: ord_then_def cmp_def split: if_splits)
  have "mset ids = mset (filter (\<lambda>i. \<not> bi ! i) [0..<n])" by (simp only: ids_def sort_by_perm)
  then have "mset (map (length \<circ> f) ids) = mset (map (length \<circ> f) (filter (\<lambda>i. \<not> bi ! i) [0..<n]))"
    by (simp only: mset_map)
  from arg_cong [where f = sum_mset, OF this]
  have m: "sum_list (map (length \<circ> f) ids) = sum_list (map (length \<circ> f) (filter (\<lambda>i. \<not> bi ! i) [0..<n]))"
    by (simp only: sum_mset_sum_list)
  have e: "map (length \<circ> bo) ids = map (length \<circ> f) ids" "map bo ids = map f ids" using bof below by auto
  have "Suc (sum_list (map (length \<circ> bo) ids)) < 2 ^ 32"
    using sum_list_filter_le [of "length \<circ> f" "\<lambda>i. \<not> bi ! i" "[0..<n]"] s by (simp add: e m vocab_small_def)
  moreover have "length ids < 2 ^ 32"
    using s length_filter_le [of "\<lambda>i. \<not> bi ! i" "[0..<n]"] by (simp add: ids_def vocab_small_def)
  moreover have "\<forall>x \<in> set ids. length (bo x) < 65536" using s below bof by (simp add: vocab_small_def)
  ultimately obtain ps tss where l: "laid_out bo ps tss (build_trie bo ids) ids" using build_trie_laid_out [OF sb] by blast
  have "x \<in> set ids" if "i < length ps" "x \<in> set (tss ! i)" for i x using laid_out_in [OF l that] .
  then have "laid_out f ps tss (build_trie bo ids) ids" using l bof below unfolding laid_out_def by metis
  then show "\<exists>ps tss ids. laid_out f ps tss (v_trie v) ids \<and> set ids = {i. by_bytes n f special eos op i}"
    using si by (auto simp: v)
qed

section \<open>The mask is the check of every id\<close>

lemma zero_mask: "\<not> allowed (replicate n 0) x"
  by (simp add: allowed_bit)

lemma div_64_lt: "x < n \<Longrightarrow> x div 64 < (n + 63) div 64" for x n :: nat
  by (simp add: div_less_iff_less_mult)

text \<open>The ids the mask sets by their id: those of the end of generation and the opener.\<close>

definition by_id :: "vocab \<Rightarrow> grammar \<Rightarrow> st \<Rightarrow> nat list" where
  "by_id v g s = (if eos_ok g s then filter (\<lambda>e. e < v_n v) (v_eos v) else [])
     @ (if v_open v < v_n v \<and> open_ok g s then [v_open v] else [])"

lemma mask_by_id: "\<exists>bits. set_masks (replicate ((v_n v + 63) div 64) 0) (by_id v g s) = Some bits
    \<and> length bits = (v_n v + 63) div 64 \<and> (\<forall>x. allowed bits x \<longleftrightarrow> x \<in> set (by_id v g s))"
  using set_masks_Some [of "by_id v g s" "replicate ((v_n v + 63) div 64) 0"]
  by (auto simp: zero_mask by_id_def div_64_lt split: if_splits)

lemma mask_unfold: "set_masks (replicate ((v_n v + 63) div 64) 0) (by_id v g s) = Some bits \<Longrightarrow>
    mask v g s = (if s_ph s = Idle
       then set_masks bits (t_toks (v_trie v) @ filter (\<lambda>i. v_by_id_only v ! i \<and> i \<notin> set (v_eos v) \<and> i \<noteq> v_open v) [0..<v_n v])
       else mask_walk (v_trie v) g (replicate (max_len (v_trie v) + 1) s) 1 bits)"
  by (simp add: mask_def by_id_def Let_def)

lemma accepted_run:
  assumes "grammar_ok ht g" "st_ok g ht s"
  shows "map_option (\<lambda>r. r \<noteq> None) (run_bytes g s bs) = Some (accepted g s bs)"
proof -
  obtain r where "run_bytes g s bs = Some r" using run_bytes_ok [OF assms] by blast
  then show ?thesis by (auto simp: accepted_def)
qed

text \<open>An id that goes by its bytes is at the node of its bytes, and at no other.\<close>

lemma node_of_id:
  assumes l: "laid_out f ps tss t ids" and i: "i \<in> set ids" "f i \<noteq> []"
  shows "(\<exists>k. 1 \<le> k \<and> k < length ps \<and> i \<in> set (tss ! k) \<and> accepted g s (ps ! k)) \<longleftrightarrow> accepted g s (f i)"
proof -
  have bo: "f i = ps ! k" if "k < length ps" "i \<in> set (tss ! k)" for k using l that unfolding laid_out_def by blast
  from laid_out_node [OF l i(1)] obtain k where k: "k < length ps" "i \<in> set (tss ! k)" "ps ! k = f i" by blast
  have "ps ! 0 = []" using l unfolding laid_out_def by blast
  then have "k \<noteq> 0" using k(3) i(2) by metis
  then have "1 \<le> k" by simp
  then show ?thesis using k bo by metis
qed

theorem mask_is_token_ok:
  assumes s: "vocab_small n f" and v: "v = build_vocab n f special eos op" and op: "op \<notin> set eos"
    and g: "grammar_ok ht g" and st: "st_ok g ht s"
  shows "\<exists>bits. mask v g s = Some bits \<and> (\<forall>i. token_ok v g s i = Some (allowed bits i))"
proof -
  note sp = build_vocab_spec [OF s v]
  from sp(6) obtain ps tss ids where l: "laid_out f ps tss (v_trie v) ids" and ids: "set ids = {i. by_bytes n f special eos op i}"
    by blast
  obtain bits where b: "set_masks (replicate ((v_n v + 63) div 64) 0) (by_id v g s) = Some bits" "length bits = (v_n v + 63) div 64"
    "\<And>x. allowed bits x \<longleftrightarrow> x \<in> set (by_id v g s)" using mask_by_id by blast
  have by_id: "x \<in> set (by_id v g s) \<longleftrightarrow> x < n \<and> (x \<in> set eos \<and> eos_ok g s \<or> x = op \<and> open_ok g s)" for x
    by (auto simp: by_id_def sp(1-3))
  have low: "x div 64 < length bits" if "x < n" for x using div_64_lt [OF that] b(2) sp(1) by simp
  show ?thesis
  proof (cases "s_ph s = Idle")
    case True
    let ?rest = "t_toks (v_trie v) @ filter (\<lambda>i. v_by_id_only v ! i \<and> i \<notin> set (v_eos v) \<and> i \<noteq> v_open v) [0..<v_n v]"
    have rest: "x \<in> set ?rest \<longleftrightarrow> x < n \<and> x \<notin> set eos \<and> x \<noteq> op" for x
    proof -
      have t: "t_toks (v_trie v) = ids" using l unfolding laid_out_def by blast
      have "x \<in> set ?rest \<longleftrightarrow> by_bytes n f special eos op x \<or> x < n \<and> v_by_id_only v ! x \<and> x \<notin> set eos \<and> x \<noteq> op"
        unfolding t using ids by (auto simp: sp(1-3))
      then show ?thesis using sp(5) [of x] by (cases "x < n") (auto simp: by_bytes_def)
    qed
    from set_masks_Some [of ?rest bits] rest low obtain b' where
      b': "set_masks bits ?rest = Some b'" "\<And>x. allowed b' x \<longleftrightarrow> x \<in> set ?rest \<or> allowed bits x" by blast
    have "token_ok v g s i = Some (allowed b' i)" for i
      unfolding b'(2) b(3) rest by_id using op True by (auto simp: token_ok_def sp(1-3))
    then show ?thesis using mask_unfold [OF b(1)] True b'(1) by auto
  next
    case False
    have "\<exists>b'. mask_walk (v_trie v) g (replicate (max_len (v_trie v) + 1) s) 1 bits = Some b' \<and> length b' = length bits
      \<and> (\<forall>x. allowed b' x \<longleftrightarrow> allowed bits x \<or> (\<exists>k. 1 \<le> k \<and> k < length ps \<and> x \<in> set (tss ! k) \<and> accepted g s (ps ! k)))"
    proof (rule mask_walk_spec [OF g st l])
      have "ps \<noteq> []" using l unfolding laid_out_def by blast
      then show "1 \<le> length ps" by (simp add: Suc_le_eq)
      have "run_bytes g s (take k (ps ! 1)) = Some (Some (replicate (max_len (v_trie v) + 1) s ! k))"
        if k: "1 < length ps" "k < length (ps ! 1)" for k
      proof -
        have "child_of (ps ! 0) (ps ! 1)" "ps ! 0 = []" using l k(1) unfolding laid_out_def by auto
        then have "length (ps ! 1) = 1" by (cases "ps ! 1") (auto simp: child_of_def is_prefix_iff split: if_splits)
        then show ?thesis using k(2) by simp
      qed
      then show "1 < length ps \<longrightarrow> (\<forall>k<length (ps ! 1). run_bytes g s (take k (ps ! 1))
        = Some (Some (replicate (max_len (v_trie v) + 1) s ! k)))" by blast
    qed (use low ids in \<open>auto simp: by_bytes_def\<close>)
    then obtain b' where b': "mask v g s = Some b'"
      "\<And>x. allowed b' x \<longleftrightarrow> allowed bits x \<or> (\<exists>k. 1 \<le> k \<and> k < length ps \<and> x \<in> set (tss ! k) \<and> accepted g s (ps ! k))"
      using mask_unfold [OF b(1)] False by auto
    have "token_ok v g s i = Some (allowed b' i)" for i
    proof (cases "by_bytes n f special eos op i")
      case True
      then have "allowed b' i \<longleftrightarrow> accepted g s (f i)"
        unfolding b'(2) b(3) by_id using node_of_id [OF l, of i g s] ids by (auto simp: by_bytes_def)
      then show ?thesis using True False accepted_run [OF g st, of "f i"] sp(4,5) [of i]
        by (auto simp: token_ok_def sp(1-3) by_bytes_def)
    next
      case no: False
      have "\<not> (\<exists>k. 1 \<le> k \<and> k < length ps \<and> i \<in> set (tss ! k) \<and> accepted g s (ps ! k))"
        using laid_out_in [OF l] ids no by blast
      then have "allowed b' i \<longleftrightarrow> i < n \<and> (i \<in> set eos \<and> eos_ok g s \<or> i = op \<and> open_ok g s)"
        unfolding b'(2) b(3) by_id by blast
      then show ?thesis using no False op sp(5) [of i] by (auto simp: token_ok_def sp(1-3))
    qed
    then show ?thesis using b'(1) by blast
  qed
qed

end
