(* ===== verification/GrammarExample.thy ===== *)
theory GrammarExample
  imports GrammarBuild GrammarMask
begin

text \<open>
  The grammars and vocabularies the code builds, as predicates, and one of each: a printer that
  satisfies the laws, a tools array with a string and an object parameter, a vocabulary of six
  ids. The witnesses of the grammar's properties evaluate on them.
\<close>

section \<open>What the code builds\<close>

text \<open>The inputs of a grammar that stay within the width of its indices.\<close>

definition built_grammar :: "grammar \<Rightarrow> bool" where
  "built_grammar g \<longleftrightarrow> (\<exists>pr tools mode par only mk. printer_laws pr \<and> maps_ok tools
     \<and> build_markup pr tools mode par only mk = Inr g \<and> small_grammar g)"

lemma built_grammar_ok: "built_grammar g \<Longrightarrow> \<exists>ht. grammar_ok ht g"
  unfolding built_grammar_def using build_ok by blast

definition built_vocab :: "vocab \<Rightarrow> bool" where
  "built_vocab v \<longleftrightarrow> (\<exists>n f special eos op. vocab_small n f \<and> op \<notin> set eos \<and> v = build_vocab n f special eos op)"

lemma built_vocab_n: "built_vocab v \<Longrightarrow> v_n v < 2 ^ 32"
  unfolding built_vocab_def using build_vocab_spec(1) by (metis vocab_small_def)

lemma mask_exact: "built_vocab v \<Longrightarrow> grammar_ok ht g \<Longrightarrow> st_ok g ht s \<Longrightarrow>
    \<exists>bits. mask v g s = Some bits \<and> (\<forall>i. token_ok v g s i = Some (allowed bits i))"
  by (auto simp: built_vocab_def intro: mask_is_token_ok)

section \<open>A printer\<close>

definition demo_printer :: "json \<Rightarrow> str" where
  "demo_printer v = (case v of JString s \<Rightarrow> dq # concat (map escape_byte s) @ [dq] | _ \<Rightarrow> ''null'')"

definition unhex :: "char \<Rightarrow> nat" where
  "unhex c = (if is_digit c then of_char c - 48 else of_char c - 87)"

lemma unhex_hex: "n < 16 \<Longrightarrow> unhex (hex n) = n"
  by (simp add: unhex_def hex_def is_digit_def)

text \<open>The escapes of a byte can be read back.\<close>

definition unescape :: "str \<Rightarrow> char" where
  "unescape s = (case s of
      [c] \<Rightarrow> c
    | [_, c] \<Rightarrow> if c = CHR ''b'' then CHR 0x08 else if c = CHR ''f'' then CHR 0x0C else if c = CHR ''n'' then CHR 0x0A
        else if c = CHR ''r'' then CHR 0x0D else if c = CHR ''t'' then CHR 0x09 else c
    | [_, _, _, _, h, l] \<Rightarrow> char_of (16 * unhex h + unhex l)
    | _ \<Rightarrow> CHR 0x00)"

lemma escape_byte_json: "json_char (escape_byte c)"
proof -
  obtain esc where "\<And>c. json_char (esc c)" "\<And>s. json_str small_serde s = dq # concat (map esc s) @ [dq]"
    using small_serde_laws by (auto simp: serde_laws_def)
  from this(1) [of c] this(2) [of "[c]"] show ?thesis by (simp add: small_serde_def)
qed

lemma unescape_escape: "unescape (escape_byte c) = c"
proof (cases "c \<in> {dq, bsl, CHR 0x08, CHR 0x0C, CHR 0x0A, CHR 0x0D, CHR 0x09}")
  case True
  then show ?thesis by (elim insertE) (simp_all add: escape_byte_def unescape_def dq_def bsl_def)
next
  case plain: False
  show ?thesis
  proof (cases "(of_char c :: nat) < 32")
    case True
    then have "escape_byte c = [bsl, CHR ''u'', CHR ''0'', CHR ''0'', hex (of_char c div 16), hex (of_char c mod 16)]"
      using plain by (simp add: escape_byte_def)
    then show ?thesis using True by (simp add: unescape_def unhex_hex)
  next
    case False
    then show ?thesis using plain by (simp add: escape_byte_def unescape_def)
  qed
qed

lemma escape_byte_inj: "escape_byte c = escape_byte d \<Longrightarrow> c = d"
  by (metis unescape_escape)

lemma demo_printer_laws: "printer_laws demo_printer"
proof -
  have "s = t" if "demo_printer (JString s) = demo_printer (JString t)" for s t
  proof -
    have "concat (map escape_byte s) @ dq # [] = concat (map escape_byte t) @ dq # []" using that by (simp add: demo_printer_def)
    then have "map escape_byte s = map escape_byte t"
      by (rule json_chars_prefix_code [rotated 2]) (simp_all add: list_all_iff escape_byte_json)
    then show ?thesis using inj_map_eq_map [of escape_byte s t] escape_byte_inj by (simp add: inj_def)
  qed
  then have "inj (\<lambda>s. demo_printer (JString s))" by (rule injI)
  moreover have "demo_printer v \<noteq> [] \<and> \<not> is_ws (hd (demo_printer v))" for v
    by (simp add: demo_printer_def is_ws_def dq_def split: json.splits)
  moreover have "demo_printer (JString s) = dq # concat (map escape_byte s) @ [dq]" for s by (simp add: demo_printer_def)
  ultimately show ?thesis unfolding printer_laws_def using escape_byte_json by blast
qed

section \<open>A grammar and a vocabulary\<close>

definition demo_tools :: json where
  "demo_tools = JArray [JObject [(''type'', JString ''function''), (''function'', JObject [(''name'', JString ''f''),
     (''parameters'', JObject [(''type'', JString ''object''), (''properties'', JObject [(''p'', JObject [(''type'', JString ''string'')]),
       (''q'', JObject [(''type'', JString ''object''), (''properties'', JObject [(''k'', JObject [(''type'', JString ''integer'')])]),
         (''required'', JArray [JString ''k''])])])])])]]"

definition demo_grammar :: grammar where
  "demo_grammar = \<lparr>g_names = [''f''], g_tools = [\<lparr>pnames = [''p'', ''q''], kinds = [PRawStr, PJson 4], required = 0\<rparr>],
     g_nodes = [NAny, NOpenObj, NArr 0, NInt, NObj [[dq, CHR ''k'', dq]] [3] 1],
     g_mode = ModeRequired, g_parallel = True, g_markup = Qwen\<rparr>"

lemma push_node_code [code]:
  "push_node nodes n = (if int (length nodes) < 65535 then Inr (length nodes, nodes @ [n]) else Inl SchemaTooLarge)"
  by (simp add: push_node_def)

lemma demo_build: "build_markup demo_printer demo_tools ModeRequired True None Qwen = Inr demo_grammar"
  by code_simp

lemma maps_ok_simps:
  "maps_ok (JString s)" "maps_ok (JObject kvs) \<longleftrightarrow> distinct (map fst kvs) \<and> list_all (\<lambda>kv. maps_ok (snd kv)) kvs"
  "maps_ok (JArray xs) \<longleftrightarrow> list_all maps_ok xs"
  by (simp_all add: maps_ok.simps [of "JString s"] maps_ok.simps [of "JObject kvs"] maps_ok.simps [of "JArray xs"] list_all_iff)

lemma demo_grammar_built: "built_grammar demo_grammar"
proof -
  have "maps_ok demo_tools" by (simp add: demo_tools_def maps_ok_simps)
  moreover have "small_grammar demo_grammar"
    by (simp add: small_grammar_def demo_grammar_def small_node_def small_opts_def)
  ultimately show ?thesis unfolding built_grammar_def using demo_printer_laws demo_build by blast
qed

definition demo_bytes :: "nat \<Rightarrow> str" where
  "demo_bytes i = [''a'', ''</'', ''f>'', '''', '''', ''<''] ! i"

definition demo_vocab :: vocab where
  "demo_vocab = build_vocab 6 demo_bytes (\<lambda>_. False) [3] 4"

lemma demo_vocab_small: "vocab_small 6 demo_bytes"
proof -
  have "sum_list (map (length \<circ> demo_bytes) [0..<6]) = 6" by code_simp
  moreover have "length (demo_bytes i) < 65536" if "i < 6" for i
    using that by (auto simp: demo_bytes_def nth_Cons split: nat.splits)
  ultimately show ?thesis by (simp add: vocab_small_def)
qed

lemma demo_vocab_built: "built_vocab demo_vocab"
  unfolding built_vocab_def demo_vocab_def using demo_vocab_small
  by (intro exI [of _ 6] exI [of _ demo_bytes] exI [of _ "\<lambda>_. False"] exI [of _ "[3]"] exI [of _ 4]) simp

end
