(* ===== verification/Float32.thy ===== *)
theory Float32
  imports Float64
begin

text \<open>
  The single precision arithmetic of the logit bias and of the host sampler, and the division
  both widths share. An \<open>f32\<close> is a \<open>Fin m e\<close> whose value fits 24 bits above exponent -149;
  an operation is exact and then rounded to nearest, ties to even. As in \<open>Float64\<close> a zero has
  no sign.
\<close>

section \<open>Rounding to 24 bits\<close>

definition excess32 :: "nat \<Rightarrow> int \<Rightarrow> nat" where
  "excess32 a e = max (bits a - 24) (nat (- 149 - e))"

definition f32_round :: "int \<Rightarrow> int \<Rightarrow> f64" where
  "f32_round m e =
    (let a = nat \<bar>m\<bar>; s = excess32 a e; q = round_half_even a s; e' = e + int s
     in if q \<noteq> 0 \<and> 128 < int (bits q) + e' then Infty (m < 0) else Fin (sgn m * int q) e')"

fun f32_add :: "f64 \<Rightarrow> f64 \<Rightarrow> f64" where
  "f32_add (Fin m e) (Fin n f) = (let e0 = min e f in f32_round (align m e e0 + align n f e0) e0)"
| "f32_add a b = f_add a b"

definition is_infinite :: "f64 \<Rightarrow> bool" where
  "is_infinite a \<longleftrightarrow> (case a of Infty _ \<Rightarrow> True | _ \<Rightarrow> False)"

section \<open>Division and conversions\<close>

text \<open>Division, exact and then rounded: 64 quotient bits and a sticky bit are enough for both widths.\<close>

definition ratio :: "(int \<Rightarrow> int \<Rightarrow> f64) \<Rightarrow> int \<Rightarrow> int \<Rightarrow> int \<Rightarrow> f64" where
  "ratio rnd m n e = (let a = nat \<bar>m\<bar>; d = nat \<bar>n\<bar>; s = (bits d + 64) - bits a; b = a * 2 ^ s
     in rnd (sgn m * sgn n * int (2 * (b div d) + (if b mod d = 0 then 0 else 1))) (e - int s - 1))"

fun div_with :: "(int \<Rightarrow> int \<Rightarrow> f64) \<Rightarrow> f64 \<Rightarrow> f64 \<Rightarrow> f64" where
  "div_with rnd NaN _ = NaN"
| "div_with rnd _ NaN = NaN"
| "div_with rnd (Infty a) (Infty b) = NaN"
| "div_with rnd (Infty a) (Fin n _) = Infty (a \<noteq> (n < 0))"
| "div_with rnd (Fin m _) (Infty b) = Fin 0 0"
| "div_with rnd (Fin m e) (Fin n f) = (if n = 0 then if m = 0 then NaN else Infty (m < 0) else ratio rnd m n (e - f))"

definition f_div :: "f64 \<Rightarrow> f64 \<Rightarrow> f64" where "f_div = div_with f_round"
definition f32_div :: "f64 \<Rightarrow> f64 \<Rightarrow> f64" where "f32_div = div_with f32_round"

definition f_sub :: "f64 \<Rightarrow> f64 \<Rightarrow> f64" where "f_sub a b = f_add a (neg_f True b)"
definition f32_sub :: "f64 \<Rightarrow> f64 \<Rightarrow> f64" where "f32_sub a b = f32_add a (neg_f True b)"

fun f32_mul :: "f64 \<Rightarrow> f64 \<Rightarrow> f64" where
  "f32_mul (Fin m e) (Fin n f) = f32_round (m * n) (e + f)"
| "f32_mul a b = f_mul a b"

text \<open>\<open>as f32\<close>, and the saturating \<open>as i32\<close> of a float.\<close>

definition to_f32 :: "f64 \<Rightarrow> f64" where
  "to_f32 a = (case a of Fin m e \<Rightarrow> f32_round m e | x \<Rightarrow> x)"

definition to_i32 :: "f64 \<Rightarrow> int" where
  "to_i32 a = (case a of NaN \<Rightarrow> 0 | Infty s \<Rightarrow> if s then - (2 ^ 31) else 2 ^ 31 - 1
     | Fin m e \<Rightarrow> let t = sgn m * (if 0 \<le> e then \<bar>m\<bar> * 2 ^ nat e else \<bar>m\<bar> div 2 ^ nat (- e)) in max (- (2 ^ 31)) (min t (2 ^ 31 - 1)))"

definition f_ge :: "f64 \<Rightarrow> f64 \<Rightarrow> bool" where
  "f_ge a b \<longleftrightarrow> f_cmp a b = Some Greater \<or> f_cmp a b = Some Equal"

definition f_lt :: "f64 \<Rightarrow> f64 \<Rightarrow> bool" where
  "f_lt a b \<longleftrightarrow> f_cmp a b = Some Less"

definition f_eq :: "f64 \<Rightarrow> f64 \<Rightarrow> bool" where
  "f_eq a b \<longleftrightarrow> f_cmp a b = Some Equal"

definition f_half :: f64 where "f_half = Fin 1 (-1)"

section \<open>A row of logits\<close>

text \<open>\<open>sample::argmax\<close>: the first index of the largest value; 0 when nothing is above \<open>-inf\<close>.\<close>

fun argmax_from :: "nat \<Rightarrow> nat \<Rightarrow> f64 \<Rightarrow> f64 list \<Rightarrow> nat" where
  "argmax_from i best bv [] = best"
| "argmax_from i best bv (v # vs) = (if f_gt v bv then argmax_from (Suc i) i v vs else argmax_from (Suc i) best bv vs)"

definition argmax :: "f64 list \<Rightarrow> nat" where
  "argmax row = argmax_from 0 0 (Infty True) row"

definition f_sum :: "f64 list \<Rightarrow> f64" where
  "f_sum xs = foldl f_add f_zero xs"

definition f_neg :: "f64 \<Rightarrow> f64" where "f_neg = neg_f True"

definition f_abs :: "f64 \<Rightarrow> f64" where
  "f_abs a = (case a of NaN \<Rightarrow> NaN | Infty _ \<Rightarrow> Infty False | Fin m e \<Rightarrow> Fin \<bar>m\<bar> e)"

end
