(* ===== verification/Think.thy ===== *)
theory Think
  imports Markers
begin

text \<open>
  The reasoning filter of \<open>engine/src/bin/serve.rs\<close> (\<open>ThinkFilter\<close>): a leading
  \<open><think>...</think>\<close> block of the generated text becomes \<open>reasoning_content\<close>, a stray
  \<open></think>\<close> is dropped, and a tag cut over two pieces is held back until it is decided.
  A character is its UTF-8 bytes; a piece begins at a character boundary, as a \<open>&str\<close> does.
\<close>

section \<open>Characters\<close>

definition first_char :: "str \<Rightarrow> str" where
  "first_char s = (case s of [] \<Rightarrow> [] | c # cs \<Rightarrow> c # takeWhile cont_byte cs)"

lemma first_char_Cons: "first_char (c # cs) = c # takeWhile cont_byte cs"
  by (simp add: first_char_def)

lemma first_char_nonempty [simp]: "first_char (c # cs) \<noteq> []"
  by (simp add: first_char_def)

lemma length_first_char_pos: "s \<noteq> [] \<Longrightarrow> 0 < length (first_char s)"
  by (cases s) (simp_all add: first_char_def)

definition boundary :: "str \<Rightarrow> bool" where
  "boundary s \<longleftrightarrow> (case s of [] \<Rightarrow> True | c # _ \<Rightarrow> \<not> cont_byte c)"

lemma first_char_append: "s \<noteq> [] \<Longrightarrow> boundary q \<Longrightarrow> first_char (s @ q) = first_char s"
proof -
  assume s: "s \<noteq> []" and q: "boundary q"
  obtain c cs where c: "s = c # cs" using s by (cases s) auto
  have "takeWhile cont_byte (cs @ q) = takeWhile cont_byte cs"
    using q by (cases q) (auto simp: boundary_def takeWhile_append takeWhile_eq_all_conv [THEN iffD2])
  then show ?thesis by (simp add: c first_char_Cons)
qed

lemma first_char_prefix: "drop (length (first_char s)) (s @ q) = drop (length (first_char s)) s @ q"
proof (cases s)
  case (Cons c cs)
  then show ?thesis using length_takeWhile_le [of cont_byte cs] by (simp add: first_char_Cons)
qed (simp add: first_char_def)

function chars :: "str \<Rightarrow> str list" where
  "chars [] = []"
| "chars (c # cs) = first_char (c # cs) # chars (drop (length (first_char (c # cs))) (c # cs))"
  by pat_completeness auto
termination by (relation "measure length") (simp_all add: first_char_Cons)

definition is_whitespace :: "str \<Rightarrow> bool" where
  "is_whitespace ch \<longleftrightarrow> ch \<in> set ws_seqs"

section \<open>The filter\<close>

definition THINK_OPEN :: str where "THINK_OPEN = ''<think>''"
definition THINK_CLOSE :: str where "THINK_CLOSE = ''</think>''"

record split_out =
  o_content :: str
  o_reasoning :: str

definition no_split :: split_out where "no_split = \<lparr>o_content = [], o_reasoning = []\<rparr>"

datatype think = Lead | Inside | InBody

record think_filter =
  th_state :: think
  th_held :: str
  th_lead :: str
  th_drop_lead :: bool
  th_stripped :: nat
  th_close_by_id :: bool
  th_close_pending :: bool
  th_closed_on_id :: bool

definition think_new :: think_filter where
  "think_new = \<lparr>th_state = Lead, th_held = [], th_lead = [], th_drop_lead = False, th_stripped = 0,
     th_close_by_id = False, th_close_pending = False, th_closed_on_id = False\<rparr>"

definition think_inside :: think_filter where
  "think_inside = think_new\<lparr>th_state := Inside\<rparr>"

definition for_request :: "bool \<Rightarrow> think_filter" where
  "for_request enable_thinking = (if enable_thinking then think_inside else think_new)"

definition closing_on_id :: "bool \<Rightarrow> think_filter \<Rightarrow> think_filter" where
  "closing_on_id on f = f\<lparr>th_close_by_id := on\<rparr>"

definition is_inside :: "think_filter \<Rightarrow> bool" where
  "is_inside f \<longleftrightarrow> th_state f = Inside"

definition candidates :: "think_filter \<Rightarrow> str list" where
  "candidates f = (case th_state f of
      Lead \<Rightarrow> [THINK_OPEN, THINK_CLOSE]
    | Inside \<Rightarrow> if th_close_by_id f \<and> \<not> th_close_pending f then [] else [THINK_CLOSE]
    | InBody \<Rightarrow> [THINK_CLOSE])"

definition holds_partial :: "think_filter \<Rightarrow> bool" where
  "holds_partial f \<longleftrightarrow> \<not> (th_close_by_id f \<and> th_state f = Inside)"

definition take_tag :: "str \<Rightarrow> think_filter \<Rightarrow> think_filter" where
  "take_tag tag f = (let f1 = f\<lparr>th_stripped := th_stripped f + 1, th_lead := []\<rparr> in
     if tag = THINK_OPEN then f1\<lparr>th_state := Inside\<rparr>
     else f1\<lparr>th_state := (if th_state f \<noteq> InBody then Lead else InBody), th_drop_lead := True\<rparr>)"

definition close_id_seen :: "think_filter \<Rightarrow> think_filter" where
  "close_id_seen f = (if th_close_by_id f \<and> th_state f = Inside then f\<lparr>th_close_pending := True\<rparr> else f)"

definition end_step :: "think_filter \<Rightarrow> think_filter" where
  "end_step f = (if th_close_pending f
     then (let f1 = f\<lparr>th_close_pending := False\<rparr> in
       if th_state f = Inside then take_tag THINK_CLOSE (f1\<lparr>th_closed_on_id := True\<rparr>) else f1)
     else f)"

definition take_char :: "str \<Rightarrow> think_filter \<times> split_out \<Rightarrow> think_filter \<times> split_out" where
  "take_char ch fo = (let f = fst fo; out = snd fo in case th_state f of
      Inside \<Rightarrow> (f, out\<lparr>o_reasoning := o_reasoning out @ ch\<rparr>)
    | Lead \<Rightarrow> if is_whitespace ch then (f\<lparr>th_lead := th_lead f @ ch\<rparr>, out)
        else (f\<lparr>th_lead := [], th_drop_lead := False, th_state := InBody\<rparr>,
              out\<lparr>o_content := o_content out @ (if th_drop_lead f then [] else th_lead f) @ ch\<rparr>)
    | InBody \<Rightarrow> (f, out\<lparr>o_content := o_content out @ ch\<rparr>))"

text \<open>What stands at a \<open><\<close>: the first candidate that is complete, or whether one is begun.\<close>

fun tag_at :: "str list \<Rightarrow> str \<Rightarrow> bool \<Rightarrow> str option \<times> bool" where
  "tag_at [] rest partial = (None, partial)"
| "tag_at (tag # tags) rest partial =
    (if length tag \<le> length rest
     then (if is_prefix tag rest then (Some tag, partial) else tag_at tags rest partial)
     else tag_at tags rest (partial \<or> is_prefix rest tag))"

lemma tag_at_in: "tag_at tags rest p = (Some tag, p') \<Longrightarrow> tag \<in> set tags \<and> is_prefix tag rest"
  by (induction tags rest p rule: tag_at.induct) (auto split: if_splits)

lemma candidates_ne: "tag \<in> set (candidates f) \<Longrightarrow> tag \<noteq> []"
  by (auto simp: candidates_def THINK_OPEN_def THINK_CLOSE_def split: think.splits if_splits)

definition text_of_id :: "think_filter \<Rightarrow> think_filter" where
  "text_of_id f = (if th_close_pending f \<and> th_state f = Inside
     then f\<lparr>th_close_pending := False, th_closed_on_id := True\<rparr> else f)"

function think_scan :: "think_filter \<Rightarrow> str \<Rightarrow> split_out \<Rightarrow> think_filter \<times> split_out" where
  "think_scan f [] out = (f, out)"
| "think_scan f (c # cs) out = (let rest = c # cs in
    case (if c = CHR ''<'' then tag_at (candidates f) rest False else (None, False)) of
      (Some tag, _) \<Rightarrow> think_scan (take_tag tag (text_of_id f)) (drop (length tag) rest) out
    | (None, partial) \<Rightarrow>
        if partial \<and> holds_partial f then (f\<lparr>th_held := th_held f @ rest\<rparr>, out)
        else (let fo = take_char (first_char rest) (f, out) in
          think_scan (fst fo) (drop (length (first_char rest)) rest) (snd fo)))"
  by pat_completeness auto
termination
  by (relation "measure (\<lambda>(f, s, out). length s)")
    (auto simp: first_char_Cons split: if_splits dest!: tag_at_in [OF sym] candidates_ne)

declare think_scan.simps [simp del]

definition think_push :: "str \<Rightarrow> think_filter \<Rightarrow> split_out \<times> think_filter" where
  "think_push piece f = (let r = think_scan (f\<lparr>th_held := []\<rparr>) (th_held f @ piece) no_split in (snd r, fst r))"

definition think_flush :: "think_filter \<Rightarrow> split_out \<times> think_filter" where
  "think_flush f = (let (f1, out) = fold take_char (chars (th_held f)) (f\<lparr>th_held := []\<rparr>, no_split) in
     (if th_lead f1 \<noteq> [] \<and> \<not> th_drop_lead f1 then out\<lparr>o_content := o_content out @ th_lead f1\<rparr> else out,
      f1\<lparr>th_lead := []\<rparr>))"

text \<open>One generation: the pieces in order, then the flush; the halves concatenated.\<close>

definition join :: "split_out \<Rightarrow> split_out \<Rightarrow> split_out" where
  "join a b = \<lparr>o_content = o_content a @ o_content b, o_reasoning = o_reasoning a @ o_reasoning b\<rparr>"

fun think_all :: "think_filter \<Rightarrow> str list \<Rightarrow> split_out" where
  "think_all f [] = fst (think_flush f)"
| "think_all f (p # ps) = (let (o1, f1) = think_push p f in join o1 (think_all f1 ps))"

section \<open>Feeding the pieces is scanning the whole text\<close>

text \<open>The filter on a whole text: nothing is held, an incomplete tag is text.\<close>

function whole :: "think_filter \<Rightarrow> str \<Rightarrow> split_out \<Rightarrow> think_filter \<times> split_out" where
  "whole f [] out = (f, out)"
| "whole f (c # cs) out = (let rest = c # cs in
    case (if c = CHR ''<'' then tag_at (candidates f) rest False else (None, False)) of
      (Some tag, _) \<Rightarrow> whole (take_tag tag (text_of_id f)) (drop (length tag) rest) out
    | (None, _) \<Rightarrow> (let fo = take_char (first_char rest) (f, out) in
          whole (fst fo) (drop (length (first_char rest)) rest) (snd fo)))"
  by pat_completeness auto
termination
  by (relation "measure (\<lambda>(f, s, out). length s)")
    (auto simp: first_char_Cons split: if_splits dest!: tag_at_in [OF sym] candidates_ne)

declare whole.simps [simp del]

lemma think_fields [simp]:
  "th_held (take_tag t f) = th_held f" "th_held (text_of_id f) = th_held f" "th_held (fst (take_char ch fo)) = th_held (fst fo)"
  "th_close_by_id (take_tag t f) = th_close_by_id f" "th_close_by_id (text_of_id f) = th_close_by_id f"
  "th_close_by_id (fst (take_char ch fo)) = th_close_by_id (fst fo)"
  by (auto simp: take_tag_def text_of_id_def take_char_def Let_def split: think.splits)

lemma candidates_held [simp]: "candidates (f\<lparr>th_held := h\<rparr>) = candidates f"
  by (auto simp: candidates_def split: think.splits)

lemma candidates_cases: "candidates f \<in> {[], [THINK_CLOSE], [THINK_OPEN, THINK_CLOSE]}"
  by (auto simp: candidates_def split: think.splits)

lemma tag_clash: "is_prefix THINK_OPEN s \<Longrightarrow> \<not> is_prefix THINK_CLOSE (s @ q)"
  "is_prefix THINK_CLOSE s \<Longrightarrow> \<not> is_prefix THINK_OPEN (s @ q)"
  by (auto simp: is_prefix_iff THINK_OPEN_def THINK_CLOSE_def)

lemma is_prefix_longer: "is_prefix t s \<Longrightarrow> is_prefix t (s @ q)"
  by (auto simp: is_prefix_iff)

lemma is_prefix_len: "is_prefix t s \<Longrightarrow> length t \<le> length s"
  by (auto simp: is_prefix_iff)

lemma is_prefix_shorter: "is_prefix t (s @ q) \<Longrightarrow> is_prefix t s \<or> length s < length t \<and> is_prefix s t"
  by (auto simp: is_prefix_iff append_eq_append_conv2)

text \<open>A hit stays the hit when more text follows; without a hit or a begun tag there is none later.\<close>

lemma tag_at_None: "fst (tag_at tags s p) = None \<longleftrightarrow> (\<forall>t \<in> set tags. \<not> is_prefix t s)"
  by (induction tags s p rule: tag_at.induct) (auto dest: is_prefix_len)

lemma tag_at_partial: "tag_at tags s p = (None, p') \<Longrightarrow> p' \<longleftrightarrow> p \<or> (\<exists>t \<in> set tags. length s < length t \<and> is_prefix s t)"
  by (induction tags s p rule: tag_at.induct) (auto split: if_splits)

lemma candidate_unique:
  assumes "t \<in> set (candidates f)" "t' \<in> set (candidates f)" "is_prefix t s" "is_prefix t' (s @ q)"
  shows "t' = t"
  using assms candidates_cases [of f] tag_clash [of s q] by auto

lemma tag_at_hit:
  assumes "tag_at (candidates f) s False = (Some tag, p)"
  shows "\<exists>p'. tag_at (candidates f) (s @ q) False = (Some tag, p')"
proof -
  note t = tag_at_in [OF assms]
  obtain h p' where h: "tag_at (candidates f) (s @ q) False = (h, p')" by fastforce
  have "h \<noteq> None" using tag_at_None [of "candidates f" "s @ q" False] t is_prefix_longer h by auto
  then obtain t' where "h = Some t'" by blast
  with h tag_at_in [of "candidates f" "s @ q" False t' p'] t candidate_unique show ?thesis by blast
qed

lemma tag_at_miss:
  assumes "tag_at (candidates f) s False = (None, False)"
  shows "\<exists>p'. tag_at (candidates f) (s @ q) False = (None, p')"
proof -
  have "\<not> is_prefix t (s @ q)" if "t \<in> set (candidates f)" for t
    using is_prefix_shorter [of t s q] that tag_at_partial [OF assms] tag_at_None [of "candidates f" s False] assms by auto
  then show ?thesis using tag_at_None [of "candidates f" "s @ q" False] by (metis prod.collapse)
qed

lemma held_none: "th_held f = [] \<Longrightarrow> f\<lparr>th_held := []\<rparr> = f"
  by (cases f) simp

lemma whole_scan:
  "boundary q \<Longrightarrow> th_held f = [] \<Longrightarrow> \<not> th_close_by_id f \<Longrightarrow> think_scan f s out = (f', out') \<Longrightarrow>
    whole f (s @ q) out = whole (f'\<lparr>th_held := []\<rparr>) (th_held f' @ q) out'"
proof (induction f s out rule: think_scan.induct)
  case (1 f out)
  then show ?case by (auto simp: think_scan.simps held_none)
next
  case (2 f c cs out)
  let ?rest = "c # cs"
  let ?x = "if c = CHR ''<'' then tag_at (candidates f) ?rest False else (None, False)"
  let ?y = "if c = CHR ''<'' then tag_at (candidates f) (?rest @ q) False else (None, False)"
  obtain h p where x: "?x = (h, p)" by fastforce
  show ?case
  proof (cases h)
    case (Some tag)
    with x have t: "c = CHR ''<''" "tag_at (candidates f) ?rest False = (Some tag, p)" by (auto split: if_splits)
    from tag_at_hit [OF t(2)] obtain p' where y: "tag_at (candidates f) (?rest @ q) False = (Some tag, p')" by blast
    have "length tag \<le> length ?rest" using tag_at_in [OF t(2)] is_prefix_len by blast
    then have d: "drop (length tag) (?rest @ q) = drop (length tag) ?rest @ q" by (simp only: drop_append diff_is_0_eq) simp
    have "think_scan (take_tag tag (text_of_id f)) (drop (length tag) ?rest) out = (f', out')"
      using "2.prems"(4) t by (simp add: think_scan.simps(2))
    from "2.IH"(2) [OF refl x [symmetric, unfolded Some] refl "2.prems"(1) _ _ this] "2.prems"(2,3)
    have "whole (take_tag tag (text_of_id f)) (drop (length tag) ?rest @ q) out = whole (f'\<lparr>th_held := []\<rparr>) (th_held f' @ q) out'"
      by simp
    then show ?thesis using y t(1) d by (simp add: whole.simps(2))
  next
    case None
    show ?thesis
    proof (cases p)
      case True
      then show ?thesis using "2.prems" x None by (auto simp: think_scan.simps(2) holds_partial_def held_none)
    next
      case False
      from x None False tag_at_miss [of f ?rest q] have y: "\<exists>p'. ?y = (None, p')" by auto
      have fc: "first_char (?rest @ q) = first_char ?rest" using "2.prems"(1) by (simp only: first_char_append list.distinct not_False_eq_True)
      let ?fo = "take_char (first_char ?rest) (f, out)"
      have "think_scan (fst ?fo) (drop (length (first_char ?rest)) ?rest) (snd ?fo) = (f', out')"
        using "2.prems"(4) x None False by (simp add: think_scan.simps(2) Let_def)
      from "2.IH"(1) [OF refl x [symmetric, unfolded None] refl _ refl "2.prems"(1) _ _ this] "2.prems"(2,3) False
      have "whole (fst ?fo) (drop (length (first_char ?rest)) ?rest @ q) (snd ?fo) = whole (f'\<lparr>th_held := []\<rparr>) (th_held f' @ q) out'"
        by simp
      then show ?thesis using y fc first_char_prefix [of ?rest q] by (auto simp: whole.simps(2) Let_def)
    qed
  qed
qed

text \<open>A tag begun at the end of the text never completes: its characters are text.\<close>

lemma whole_no_tag: "CHR ''<'' \<notin> set s \<Longrightarrow> whole f s out = fold take_char (chars s) (f, out)"
proof (induction s arbitrary: f out rule: chars.induct)
  case (2 c cs)
  have "CHR ''<'' \<notin> set (drop (length (first_char (c # cs))) (c # cs))" using "2.prems" in_set_dropD by fastforce
  then show ?case using "2.IH" "2.prems" by (auto simp: whole.simps(2) Let_def)
qed (simp add: whole.simps)

definition held_ok :: "think_filter \<Rightarrow> bool" where
  "held_ok f \<longleftrightarrow> th_held f = [] \<or> hd (th_held f) = CHR ''<'' \<and> CHR ''<'' \<notin> set (tl (th_held f))
     \<and> fst (tag_at (candidates f) (th_held f) False) = None"

lemma proper_tag_prefix:
  assumes "tag \<in> set (candidates f)" "length s < length tag" "is_prefix s tag"
  shows "CHR ''<'' \<notin> set (tl s)"
proof -
  obtain r where r: "tag = s @ r" using assms(3) by (auto simp: is_prefix_iff)
  have "CHR ''<'' \<notin> set (tl tag)" using assms(1) candidates_cases [of f] by (auto simp: THINK_OPEN_def THINK_CLOSE_def)
  then show ?thesis by (cases s) (auto simp: r)
qed

lemma scan_held_ok: "th_held f = [] \<Longrightarrow> think_scan f s out = (f', out') \<Longrightarrow> held_ok f'"
proof (induction f s out rule: think_scan.induct)
  case (2 f c cs out)
  let ?x = "if c = CHR ''<'' then tag_at (candidates f) (c # cs) False else (None, False)"
  obtain h p where x: "?x = (h, p)" by fastforce
  show ?case
  proof (cases h)
    case (Some tag)
    then show ?thesis using "2.IH"(2) [OF refl x [symmetric, unfolded Some] refl] "2.prems" x by (simp add: think_scan.simps(2))
  next
    case None
    show ?thesis
    proof (cases "p \<and> holds_partial f")
      case True
      then have c: "c = CHR ''<''" and t: "tag_at (candidates f) (c # cs) False = (None, True)" using x None by (auto split: if_splits)
      have f': "f' = f\<lparr>th_held := c # cs\<rparr>" using "2.prems" x None True by (simp add: think_scan.simps(2))
      from tag_at_partial [OF t] obtain tag where "tag \<in> set (candidates f)" "length (c # cs) < length tag" "is_prefix (c # cs) tag"
        by auto
      then have "CHR ''<'' \<notin> set cs" using proper_tag_prefix [of tag f "c # cs"] by simp
      then show ?thesis using c t by (simp add: f' held_ok_def)
    next
      case False
      then show ?thesis using "2.IH"(1) [OF refl x [symmetric, unfolded None] refl _ refl] "2.prems" x None
        by (auto simp: think_scan.simps(2) Let_def split: if_splits)
    qed
  qed
qed (simp add: think_scan.simps held_ok_def)

lemma whole_held: "held_ok f \<Longrightarrow> whole (f\<lparr>th_held := []\<rparr>) (th_held f) out = fold take_char (chars (th_held f)) (f\<lparr>th_held := []\<rparr>, out)"
proof (cases "th_held f")
  case (Cons c cs)
  let ?f = "f\<lparr>th_held := []\<rparr>"
  assume "held_ok f"
  then have h: "c = CHR ''<''" "CHR ''<'' \<notin> set cs" "fst (tag_at (candidates ?f) (c # cs) False) = None"
    using Cons by (auto simp: held_ok_def)
  obtain p where "tag_at (candidates ?f) (c # cs) False = (None, p)" using h(3) by (metis prod.collapse)
  then have "whole ?f (c # cs) out = (let fo = take_char (first_char (c # cs)) (?f, out) in
      whole (fst fo) (drop (length (first_char (c # cs))) (c # cs)) (snd fo))"
    using h(1) by (simp add: whole.simps(2) Let_def)
  moreover have "CHR ''<'' \<notin> set (drop (length (first_char (c # cs))) (c # cs))"
    using h(2) by (auto simp: first_char_Cons dest: in_set_dropD)
  ultimately show ?thesis using Cons by (simp add: whole_no_tag Let_def)
qed (simp add: whole.simps)

text \<open>The output only grows, by an amount that does not depend on what was written before.\<close>

lemma take_char_join: "take_char ch (f, join a b) = (fst (take_char ch (f, b)), join a (snd (take_char ch (f, b))))"
  by (auto simp: take_char_def join_def split: think.splits)

lemma join_assoc: "join (join a b) c = join a (join b c)"
  by (simp add: join_def)

lemma join_none [simp]: "join a no_split = a" "join no_split a = a"
  by (simp_all add: join_def no_split_def)

lemma whole_join: "whole f s (join a b) = (fst (whole f s b), join a (snd (whole f s b)))"
proof (induction f s b rule: whole.induct)
  case (2 f c cs out)
  let ?x = "if c = CHR ''<'' then tag_at (candidates f) (c # cs) False else (None, False)"
  obtain h p where x: "?x = (h, p)" by fastforce
  show ?case
  proof (cases h)
    case (Some tag)
    then show ?thesis using "2.IH"(2) [OF refl x [symmetric, unfolded Some] refl] x by (simp add: whole.simps(2) Let_def)
  next
    case None
    then show ?thesis using "2.IH"(1) [OF refl x [symmetric, unfolded None] refl refl] x
      by (simp add: whole.simps(2) take_char_join Let_def)
  qed
qed (simp add: whole.simps)

definition lead_out :: "think_filter \<times> split_out \<Rightarrow> split_out" where
  "lead_out fo = (if th_lead (fst fo) \<noteq> [] \<and> \<not> th_drop_lead (fst fo)
     then (snd fo)\<lparr>o_content := o_content (snd fo) @ th_lead (fst fo)\<rparr> else snd fo)"

lemma flush_whole: "held_ok f \<Longrightarrow> fst (think_flush f) = lead_out (whole (f\<lparr>th_held := []\<rparr>) (th_held f) no_split)"
  by (simp add: whole_held think_flush_def lead_out_def split_beta)

lemma lead_out_join: "lead_out (f, join a b) = join a (lead_out (f, b))"
  by (simp add: lead_out_def join_def)

lemma scan_fields: "think_scan f s out = (f', out') \<Longrightarrow> th_close_by_id f' = th_close_by_id f"
proof (induction f s out rule: think_scan.induct)
  case (2 f c cs out)
  let ?x = "if c = CHR ''<'' then tag_at (candidates f) (c # cs) False else (None, False)"
  obtain h p where x: "?x = (h, p)" by fastforce
  show ?case
  proof (cases h)
    case (Some tag)
    then show ?thesis using "2.IH"(2) [OF refl x [symmetric, unfolded Some] refl] "2.prems" x by (simp add: think_scan.simps(2))
  next
    case None
    then show ?thesis using "2.IH"(1) [OF refl x [symmetric, unfolded None] refl _ refl] "2.prems" x
      by (auto simp: think_scan.simps(2) Let_def split: if_splits)
  qed
qed (simp add: think_scan.simps)

lemma think_all_whole:
  "list_all boundary ps \<Longrightarrow> \<not> th_close_by_id f \<Longrightarrow> held_ok f \<Longrightarrow>
    think_all f ps = lead_out (whole (f\<lparr>th_held := []\<rparr>) (th_held f @ concat ps) no_split)"
proof (induction ps arbitrary: f)
  case (Cons p ps)
  let ?f = "f\<lparr>th_held := []\<rparr>"
  obtain f1 o1 where s: "think_scan ?f (th_held f @ p) no_split = (f1, o1)" by fastforce
  have ok: "held_ok f1" using scan_held_ok [OF _ s] by simp
  have id: "\<not> th_close_by_id f1" using scan_fields [OF s] Cons.prems(2) by simp
  have b: "boundary (concat ps)" using Cons.prems(1)
  proof (induction ps)
    case (Cons q qs)
    then show ?case by (cases q) (auto simp: boundary_def)
  qed (simp add: boundary_def)
  have "whole ?f ((th_held f @ p) @ concat ps) no_split = whole (f1\<lparr>th_held := []\<rparr>) (th_held f1 @ concat ps) o1"
    using whole_scan [OF b _ _ s] Cons.prems(2) by simp
  also have "\<dots> = (let w = whole (f1\<lparr>th_held := []\<rparr>) (th_held f1 @ concat ps) no_split in (fst w, join o1 (snd w)))"
    using whole_join [of "f1\<lparr>th_held := []\<rparr>" "th_held f1 @ concat ps" o1 no_split] by (simp add: Let_def)
  finally show ?case using Cons.IH [of f1] Cons.prems(1) ok id s
    by (simp add: think_push_def lead_out_join Let_def split_beta)
qed (simp add: flush_whole)

text \<open>C33: the reasoning and the content a request gets do not depend on how the text was cut
  into pieces: a tag split over any number of decode steps is recognised, and no byte is lost to
  the holding back.\<close>

theorem think_split_invariant:
  assumes "list_all boundary ps" "list_all boundary qs" "concat ps = concat qs"
  shows "think_all (for_request thinking) ps = think_all (for_request thinking) qs"
proof -
  have "\<not> th_close_by_id (for_request thinking)" "held_ok (for_request thinking)"
    by (simp_all add: for_request_def think_inside_def think_new_def held_ok_def)
  then show ?thesis using assms by (simp add: think_all_whole)
qed

theorem think_split_invariant_witness:
  "think_all (for_request True) [''plan</th'', ''ink>'' @ [CHR 0x0A], ''ok''] = think_all (for_request True) [''plan</think>'' @ [CHR 0x0A] @ ''ok'']"
  by (rule think_split_invariant) (simp_all add: boundary_def cont_byte_def)

text \<open>Dropping a stray tag can put one together: the content then holds a \<open></think>\<close>.\<close>

lemma think_can_write_tag: "o_content (think_all (for_request False) [''a</th</think>ink>'']) = ''a</think>''"
  by code_simp

section \<open>The block that closes on the id\<close>

text \<open>Inside a block that closes on the id, before the id: all text is reasoning.\<close>

definition by_id_block :: "think_filter \<Rightarrow> bool" where
  "by_id_block f \<longleftrightarrow> th_state f = Inside \<and> th_close_by_id f \<and> \<not> th_close_pending f \<and> th_held f = []"

lemma first_char_split: "first_char s @ drop (length (first_char s)) s = s"
  by (cases s) (simp_all add: first_char_def dropWhile_eq_drop [symmetric])

lemma by_id_scan: "by_id_block f \<Longrightarrow> think_scan f s out = (f, out\<lparr>o_reasoning := o_reasoning out @ s\<rparr>)"
proof (induction f s out rule: think_scan.induct)
  case (2 f c cs out)
  have f: "candidates f = []" "\<And>ch. take_char ch (f, out) = (f, out\<lparr>o_reasoning := o_reasoning out @ ch\<rparr>)"
    using "2.prems" by (simp_all add: by_id_block_def candidates_def take_char_def)
  have x: "(None, False) = (if c = CHR ''<'' then tag_at (candidates f) (c # cs) False else (None, False))" by (simp add: f(1))
  have "think_scan f (c # cs) out = think_scan f (drop (length (first_char (c # cs))) (c # cs))
      (out\<lparr>o_reasoning := o_reasoning out @ first_char (c # cs)\<rparr>)"
    unfolding think_scan.simps(2) Let_def x [symmetric] by (simp add: f)
  also have "\<dots> = (f, out\<lparr>o_reasoning := o_reasoning out @ c # cs\<rparr>)"
    using "2.IH"(1) [OF refl x refl _ refl] "2.prems" f(2) first_char_split [of "c # cs"] by simp
  finally show ?case .
qed (simp add: think_scan.simps)

lemma by_id_push: "by_id_block f \<Longrightarrow> think_push p f = (\<lparr>o_content = [], o_reasoning = p\<rparr>, f)"
  using by_id_scan [of f p no_split] by (simp add: think_push_def by_id_block_def held_none no_split_def)

fun pushes :: "str list \<Rightarrow> think_filter \<Rightarrow> split_out \<times> think_filter" where
  "pushes [] f = (no_split, f)"
| "pushes (p # ps) f = (let (o1, f1) = think_push p f; (o2, f2) = pushes ps f1 in (join o1 o2, f2))"

lemma by_id_pushes: "by_id_block f \<Longrightarrow> pushes ps f = (\<lparr>o_content = [], o_reasoning = concat ps\<rparr>, f)"
  by (induction ps) (simp_all add: by_id_push join_def no_split_def)

text \<open>
  After the id: text before the tag stays reasoning, byte for byte, and the tag closes the block,
  so that what follows meets a filter in \<open>Lead\<close>.
\<close>

definition by_id_pending :: "think_filter \<Rightarrow> bool" where
  "by_id_pending f \<longleftrightarrow> th_state f = Inside \<and> th_close_by_id f \<and> th_close_pending f \<and> th_held f = []"

definition reason :: "str \<Rightarrow> split_out" where
  "reason s = \<lparr>o_content = [], o_reasoning = s\<rparr>"

lemma THINK_CLOSE_head: "is_prefix THINK_CLOSE t \<Longrightarrow> boundary t" "is_prefix THINK_CLOSE t \<Longrightarrow> \<exists>t'. t = CHR ''<'' # t'"
  by (auto simp: is_prefix_iff THINK_CLOSE_def boundary_def cont_byte_def)

lemma join_reason_none: "join out (reason []) = out"
  by (cases out) (simp add: join_def reason_def)

lemma pending_scan:
  assumes "by_id_pending f" "t = [] \<or> is_prefix THINK_CLOSE t" "\<forall>k < length a. \<not> is_prefix THINK_CLOSE (drop k (a @ t))"
  shows "think_scan f (a @ t) out = (if t = [] then (f, join out (reason a))
    else think_scan (take_tag THINK_CLOSE (text_of_id f)) (drop (length THINK_CLOSE) t) (join out (reason a)))"
  using assms(3)
proof (induction "length a" arbitrary: a out rule: less_induct)
  case less
  have cand: "candidates f = [THINK_CLOSE]" "\<not> holds_partial f" using assms(1) by (simp_all add: by_id_pending_def candidates_def holds_partial_def)
  have bt: "boundary t" using assms(2) THINK_CLOSE_head by (auto simp: boundary_def)
  show ?case
  proof (cases a)
    case Nil
    show ?thesis
    proof (cases "t = []")
      case True
      then show ?thesis using Nil by (simp add: think_scan.simps join_def reason_def)
    next
      case False
      then obtain t' where t: "t = CHR ''<'' # t'" using assms(2) THINK_CLOSE_head by blast
      then have "tag_at (candidates f) (CHR ''<'' # t') False = (Some THINK_CLOSE, False)"
        using False assms(2) is_prefix_len [of THINK_CLOSE t] by (simp add: cand)
      then show ?thesis using Nil t by (simp add: think_scan.simps(2) join_reason_none Let_def)
    qed
  next
    case (Cons c cs)
    let ?n = "length (first_char a)"
    have np: "\<not> is_prefix THINK_CLOSE (c # cs @ t)" using less.prems Cons by force
    then have x: "\<exists>p. (if c = CHR ''<'' then tag_at (candidates f) (c # cs @ t) False else (None, False)) = (None, p)"
    proof (cases "tag_at [THINK_CLOSE] (c # cs @ t) False")
      case (Pair h p)
      then have "h = None" using tag_at_in [of "[THINK_CLOSE]" "c # cs @ t" False _ p] np by (cases h) auto
      then have "tag_at (candidates f) (c # cs @ t) False = (None, p)" using Pair by (simp only: cand(1))
      then show ?thesis by (cases "c = CHR ''<''") (simp_all only: if_True if_False simp_thms, blast+)
    qed
    have fc: "first_char (a @ t) = first_char a" "drop ?n (a @ t) = drop ?n a @ t"
      using first_char_append [of a t] first_char_prefix [of a t] bt Cons by simp_all
    have take: "take_char (first_char a) (f, out) = (f, join out (reason (first_char a)))"
      using assms(1) by (simp add: take_char_def by_id_pending_def join_def reason_def)
    have "think_scan f (a @ t) out = think_scan f (drop ?n a @ t) (join out (reason (first_char a)))"
      using x fc take cand(2) Cons by (auto simp: think_scan.simps(2) Let_def)
    also have "\<dots> = (if t = [] then (f, join (join out (reason (first_char a))) (reason (drop ?n a)))
      else think_scan (take_tag THINK_CLOSE (text_of_id f)) (drop (length THINK_CLOSE) t) (join (join out (reason (first_char a))) (reason (drop ?n a))))"
    proof (rule less.hyps)
      show "length (drop ?n a) < length a" using Cons by (simp add: length_first_char_pos)
      show "\<forall>k < length (drop ?n a). \<not> is_prefix THINK_CLOSE (drop k (drop ?n a @ t))"
      proof (intro allI impI)
        fix k assume "k < length (drop ?n a)"
        then have "\<not> is_prefix THINK_CLOSE (drop (k + ?n) (a @ t))" using less.prems by (simp add: less_diff_conv)
        then show "\<not> is_prefix THINK_CLOSE (drop k (drop ?n a @ t))" using fc(2) by (metis drop_drop)
      qed
    qed
    also have "join (join out (reason (first_char a))) (reason (drop ?n a)) = join out (reason a)"
      using first_char_split [of a] by (simp add: join_def reason_def)
    finally show ?thesis .
  qed
qed

lemma scan_join: "think_scan f s (join a b) = (fst (think_scan f s b), join a (snd (think_scan f s b)))"
proof (induction f s b rule: think_scan.induct)
  case (2 f c cs out)
  let ?x = "if c = CHR ''<'' then tag_at (candidates f) (c # cs) False else (None, False)"
  obtain h p where x: "?x = (h, p)" by fastforce
  show ?case
  proof (cases h)
    case (Some tag)
    then show ?thesis using "2.IH"(2) [OF refl x [symmetric, unfolded Some] refl] x by (simp add: think_scan.simps(2) Let_def)
  next
    case None
    then show ?thesis using "2.IH"(1) [OF refl x [symmetric, unfolded None] refl _ refl] x
      by (auto simp: think_scan.simps(2) take_char_join Let_def)
  qed
qed (simp add: think_scan.simps)

lemma scan_not_pending: "\<not> th_close_pending f \<Longrightarrow> think_scan f s out = (f', out') \<Longrightarrow> \<not> th_close_pending f'"
proof (induction f s out rule: think_scan.induct)
  case (2 f c cs out)
  let ?x = "if c = CHR ''<'' then tag_at (candidates f) (c # cs) False else (None, False)"
  obtain h p where x: "?x = (h, p)" by fastforce
  have tag: "\<not> th_close_pending (take_tag t (text_of_id f))" for t using "2.prems"(1) by (simp add: take_tag_def text_of_id_def Let_def)
  have ch: "\<not> th_close_pending (fst (take_char ch (f, out)))" for ch using "2.prems"(1) by (simp add: take_char_def split: think.split)
  show ?case
  proof (cases h)
    case (Some t)
    then show ?thesis using "2.IH"(2) [OF refl x [symmetric, unfolded Some] refl tag] "2.prems" x by (simp add: think_scan.simps(2))
  next
    case None
    then show ?thesis using "2.IH"(1) [OF refl x [symmetric, unfolded None] refl _ refl ch] "2.prems" x
      by (auto simp: think_scan.simps(2) Let_def split: if_splits)
  qed
qed (simp add: think_scan.simps)

text \<open>C34: A block that closes on the id. Before the id every byte is reasoning, a literal closing
  tag included, and the block stays open. The bytes \<open>p\<close> of the step that carries the id is
  \<open>a\<close> up to the first closing tag in it, if any, then \<open>t\<close>: \<open>a\<close> is reasoning, and the block closes at the tag,
  or at the end of the step when there is none. What follows the tag is filtered as after any closed
  block: from the state \<open>Lead\<close>, with its leading blanks dropped.\<close>

theorem by_id_block_ends_on_id:
  assumes "p = a @ t" "t = [] \<or> is_prefix THINK_CLOSE t" "\<forall>k < length a. \<not> is_prefix THINK_CLOSE (drop k p)"
  shows "let (o1, f1) = pushes ps (closing_on_id True (for_request True));
       (o2, f2) = think_push p (close_id_seen f1);
       closed = f1\<lparr>th_state := Lead, th_drop_lead := True, th_stripped := 1, th_closed_on_id := True\<rparr>;
       (o3, f3) = think_push (drop (length THINK_CLOSE) t) closed in
   o1 = \<lparr>o_content = [], o_reasoning = concat ps\<rparr> \<and> is_inside f1 \<and> \<not> th_closed_on_id f1
   \<and> o2 = join \<lparr>o_content = [], o_reasoning = a\<rparr> o3 \<and> end_step f2 = f3"
proof -
  let ?f = "closing_on_id True (for_request True)"
  let ?closed = "?f\<lparr>th_state := Lead, th_drop_lead := True, th_stripped := 1, th_closed_on_id := True\<rparr>"
  have f: "?f = \<lparr>th_state = Inside, th_held = [], th_lead = [], th_drop_lead = False, th_stripped = 0,
      th_close_by_id = True, th_close_pending = False, th_closed_on_id = False\<rparr>"
    by (simp add: closing_on_id_def for_request_def think_inside_def think_new_def)
  have b: "by_id_block ?f" by (simp add: f by_id_block_def)
  let ?g = "close_id_seen ?f"
  have g: "by_id_pending ?g" "?g\<lparr>th_held := []\<rparr> = ?g" "th_held ?g = []" by (simp_all add: f close_id_seen_def by_id_pending_def)
  have closed: "take_tag THINK_CLOSE (text_of_id ?g) = ?closed" "end_step ?g = ?closed"
    by (simp_all add: f close_id_seen_def text_of_id_def take_tag_def end_step_def THINK_CLOSE_def THINK_OPEN_def Let_def)
  have j: "join no_split x = x" for x by (simp add: join_def no_split_def)
  have scan: "think_scan ?g p no_split = (if t = [] then (?g, reason a) else think_scan ?closed (drop (length THINK_CLOSE) t) (reason a))"
    using pending_scan [OF g(1) assms(2), of a no_split] assms(1,3) by (simp add: closed j)
  obtain o3 f3 where three: "think_push (drop (length THINK_CLOSE) t) ?closed = (o3, f3)" by fastforce
  have "fst (think_push p ?g) = join (reason a) o3 \<and> end_step (snd (think_push p ?g)) = f3"
  proof (cases "t = []")
    case True
    have "join (reason a) no_split = reason a" by (simp add: join_def no_split_def reason_def)
    moreover have "?closed\<lparr>th_held := []\<rparr> = ?closed" "th_held ?closed = []" by (simp_all add: f)
    then have "o3 = no_split" "f3 = ?closed" using three True by (simp_all add: think_push_def think_scan.simps Let_def)
    moreover have "think_push p ?g = (reason a, ?g)" using True scan by (simp only: think_push_def g(2,3) Let_def append_Nil simp_thms if_True fst_conv snd_conv)
    ultimately show ?thesis using closed(2) by simp
  next
    case False
    have h: "?closed\<lparr>th_held := []\<rparr> = ?closed" "th_held ?closed = []" by (simp_all add: f)
    have rj: "reason a = join (reason a) no_split" by (simp add: join_def no_split_def reason_def)
    have s: "think_scan ?closed (drop (length THINK_CLOSE) t) no_split = (f3, o3)" using three h by (simp add: think_push_def Let_def prod_eq_iff)
    have "think_scan ?g p no_split = (f3, join (reason a) o3)"
      using scan False scan_join [of ?closed "drop (length THINK_CLOSE) t" "reason a" no_split] s rj by simp
    then have "think_push p ?g = (join (reason a) o3, f3)" by (simp only: think_push_def g(2,3) Let_def append_Nil fst_conv snd_conv)
    moreover have "\<not> th_close_pending f3" using scan_not_pending [OF _ s] by (simp add: f)
    ultimately show ?thesis by (simp add: end_step_def)
  qed
  moreover have "is_inside ?f" "\<not> th_closed_on_id ?f" by (simp_all add: f is_inside_def)
  ultimately show ?thesis
    using three by (simp add: by_id_pushes [OF b] split_beta reason_def Let_def)
qed

theorem by_id_block_ends_on_id_witness:
  "let (o1, f1) = pushes [''a </think> b''] (closing_on_id True (for_request True));
       (o2, f2) = think_push ''c</think>ok'' (close_id_seen f1) in
   o1 = \<lparr>o_content = [], o_reasoning = ''a </think> b''\<rparr> \<and> o2 = \<lparr>o_content = ''ok'', o_reasoning = ''c''\<rparr> \<and> \<not> is_inside (end_step f2)"
proof -
  have k: "\<forall>k < length ''c''. \<not> is_prefix THINK_CLOSE (drop k ''c</think>ok'')" by (simp add: THINK_CLOSE_def is_prefix_iff)
  let ?c = "(closing_on_id True (for_request True))\<lparr>th_state := Lead, th_drop_lead := True, th_stripped := 1, th_closed_on_id := True\<rparr>"
  have "think_push (drop (length THINK_CLOSE) ''</think>ok'') ?c = (\<lparr>o_content = ''ok'', o_reasoning = []\<rparr>, ?c\<lparr>th_state := InBody, th_drop_lead := False\<rparr>)"
    by code_simp
  moreover have "snd (pushes [''a </think> b''] (closing_on_id True (for_request True))) = closing_on_id True (for_request True)" by code_simp
  moreover have t: "''</think>ok'' = [] \<or> is_prefix THINK_CLOSE ''</think>ok''" by (simp add: THINK_CLOSE_def is_prefix_iff)
  ultimately show ?thesis using by_id_block_ends_on_id [OF _ t k, of "[''a </think> b'']"]
    by (simp add: split_beta join_def is_inside_def)
qed

end
