(* ===== verification/GrammarGate.thy ===== *)
theory GrammarGate
  imports GrammarExample Float32 Think
begin

text \<open>
  The per-request gate (\<open>Gate\<close> of \<open>engine/src/toolgrammar.rs\<close>) and its use in the generation
  loops of \<open>engine/src/bin/serve.rs\<close>: an id is checked, a refused one is drawn again from the
  same row of logits under the mask, the kept id advances the grammar. A row holds \<open>f32\<close>
  values; the sampler that draws from it is an argument (\<open>SamplerDraw\<close> models the one of
  \<open>sample.rs\<close>). \<open>None\<close> is a panic.
\<close>

section \<open>The gate\<close>

record gate =
  gt_g :: grammar
  gt_v :: vocab
  gt_st :: st
  gt_cache :: "(st \<times> u64 list) list"
  gt_checked :: nat
  gt_redrawn :: nat
  gt_masks_built :: nat
  gt_calls_closed :: nat
  gt_stepped_aside :: bool
  gt_off :: bool

definition CACHE_MAX :: nat where "CACHE_MAX = 256"

definition gate_new :: "grammar \<Rightarrow> vocab \<Rightarrow> gate" where
  "gate_new g v = \<lparr>gt_g = g, gt_v = v, gt_st = st_idle, gt_cache = [], gt_checked = 0, gt_redrawn = 0,
     gt_masks_built = 0, gt_calls_closed = 0, gt_stepped_aside = False, gt_off = False\<rparr>"

definition armed :: "gate \<Rightarrow> bool" where
  "armed gt \<longleftrightarrow> \<not> gt_off gt \<and> (in_call (gt_st gt) \<or> g_mode (gt_g gt) = ModeRequired)"

definition gate_ok_id :: "gate \<Rightarrow> nat \<Rightarrow> bool option" where
  "gate_ok_id gt i = token_ok (gt_v gt) (gt_g gt) (gt_st gt) i"

definition check :: "nat \<Rightarrow> gate \<Rightarrow> (bool \<times> gate) option" where
  "check i gt = map_option (\<lambda>ok. (ok, gt\<lparr>gt_checked := gt_checked gt + 1\<rparr>)) (gate_ok_id gt i)"

definition gate_mask :: "gate \<Rightarrow> (u64 list \<times> gate) option" where
  "gate_mask gt = (case map_of (gt_cache gt) (gt_st gt) of
      Some m \<Rightarrow> Some (m, gt)
    | None \<Rightarrow> map_option (\<lambda>bits. let kept = (if length (gt_cache gt) \<ge> CACHE_MAX then [] else gt_cache gt) in
        (bits, gt\<lparr>gt_masks_built := gt_masks_built gt + 1, gt_cache := (gt_st gt, bits) # kept\<rparr>))
        (mask (gt_v gt) (gt_g gt) (gt_st gt)))"

definition masked :: "u64 list \<Rightarrow> f64 list \<Rightarrow> f64 list" where
  "masked m row = map2 (\<lambda>i l. if allowed m i then l else Infty True) [0..<length row] row"

definition mask_row :: "f64 list \<Rightarrow> gate \<Rightarrow> (f64 list \<times> gate) option" where
  "mask_row row gt = map_option (\<lambda>(m, gt'). (masked m row, gt')) (gate_mask gt)"

definition is_between :: "ph \<Rightarrow> bool" where
  "is_between p \<longleftrightarrow> (case p of Between _ _ \<Rightarrow> True | _ \<Rightarrow> False)"

definition gate_accept :: "nat \<Rightarrow> gate \<Rightarrow> (bool \<times> gate) option" where
  "gate_accept i gt = (if gt_off gt then Some (True, gt)
     else (case accept_id (gt_v gt) (gt_g gt) (gt_st gt) i of
         None \<Rightarrow> None
       | Some (True, s) \<Rightarrow> Some (True, gt\<lparr>gt_st := s, gt_calls_closed :=
            (if is_between (s_ph s) \<and> \<not> is_between (s_ph (gt_st gt)) \<and> s_ph (gt_st gt) \<noteq> Idle
             then gt_calls_closed gt + 1 else gt_calls_closed gt)\<rparr>)
       | Some (False, s) \<Rightarrow> Some (False, gt\<lparr>gt_st := s, gt_off := True, gt_stepped_aside := True\<rparr>)))"

definition phase :: "gate \<Rightarrow> str" where
  "phase gt = (case s_ph (gt_st gt) of
      Idle \<Rightarrow> ''idle''
    | PhLit _ _ \<Rightarrow> ''markup''
    | FName _ _ _ \<Rightarrow> ''function name''
    | PhBody \<Rightarrow> ''function body'' | BodyLt \<Rightarrow> ''function body'' | GBody \<Rightarrow> ''function body'' | GBodyLt \<Rightarrow> ''function body''
    | PName _ _ _ \<Rightarrow> ''parameter name''
    | RawStr _ _ _ _ \<Rightarrow> ''string value''
    | REnum _ _ _ \<Rightarrow> ''enum value''
    | PhJson \<Rightarrow> ''JSON value'' | JTail _ \<Rightarrow> ''JSON value''
    | Between _ _ \<Rightarrow> ''after </tool_call>'')"

section \<open>Rows of logits\<close>

fun apply_logit_bias :: "(nat \<times> f64) list \<Rightarrow> f64 list \<Rightarrow> f64 list" where
  "apply_logit_bias [] row = row"
| "apply_logit_bias ((tok, b) # bias) row = apply_logit_bias bias
     (if tok < length row then row[tok := (if is_infinite b then b else f32_add (row ! tok) b)] else row)"

text \<open>
  The sampler: how it draws from a row (a draw advances it) and how it books an id. \<open>draw_row\<close>
  draws on the host; \<open>redraw_from_row\<close> redraws what the device drew, with a host twin of the
  request's sampler, or greedily.
\<close>

record 's sampler =
  draw_of :: "'s \<Rightarrow> f64 list \<Rightarrow> nat \<times> 's"
  observe :: "nat \<Rightarrow> 's \<Rightarrow> 's"

definition draw_row :: "'s sampler \<Rightarrow> 's \<Rightarrow> (nat \<times> f64) list \<Rightarrow> gate option \<Rightarrow> f64 list \<Rightarrow> (nat \<times> 's \<times> gate option) option" where
  "draw_row S s bias gate row0 = (
     let row = apply_logit_bias bias row0; (tok, s1) = draw_of S s row; kept = (\<lambda>t s gate. Some (t, observe S t s, gate)) in
     case gate of
       None \<Rightarrow> kept tok s1 None
     | Some gt \<Rightarrow> if \<not> armed gt then kept tok s1 (Some gt)
         else (case check (as_u32 tok) gt of
             None \<Rightarrow> None
           | Some (True, gt1) \<Rightarrow> kept tok s1 (Some gt1)
           | Some (False, gt1) \<Rightarrow> (case mask_row row (gt1\<lparr>gt_redrawn := gt_redrawn gt1 + 1\<rparr>) of
               None \<Rightarrow> None
             | Some (row', gt2) \<Rightarrow> (let (tok', s2) = draw_of S s1 row' in
                 case gate_ok_id gt2 (as_u32 tok') of
                   None \<Rightarrow> None
                 | Some ok \<Rightarrow> kept (if ok then tok' else argmax row') s2 (Some gt2)))))"

definition redraw_from_row :: "(f64 list \<Rightarrow> nat) option \<Rightarrow> gate \<Rightarrow> f64 list \<Rightarrow> (nat \<times> gate) option" where
  "redraw_from_row twin gt row = (case mask_row row gt of
      None \<Rightarrow> None
    | Some (row', gt') \<Rightarrow> (let tok = (case twin of None \<Rightarrow> argmax row' | Some draw \<Rightarrow> draw row') in
        case gate_ok_id gt' (as_u32 tok) of
          None \<Rightarrow> None
        | Some ok \<Rightarrow> Some (if ok then tok else argmax row', gt')))"

section \<open>The loop's use of the gate\<close>

text \<open>
  The id of one step: a pending forced id replaces it, otherwise an armed gate checks it and a
  refused one is redrawn (on the host route \<open>draw_row\<close> has checked it already).
\<close>

definition step_id :: "nat list \<Rightarrow> bool \<Rightarrow> (f64 list \<Rightarrow> nat) option \<Rightarrow> f64 list \<Rightarrow> nat \<Rightarrow> gate option
    \<Rightarrow> (nat \<times> nat list \<times> gate option) option" where
  "step_id inject host twin row drawn gate = (case inject of
      i # rest \<Rightarrow> Some (i, rest, gate)
    | [] \<Rightarrow> (case gate of
        None \<Rightarrow> Some (drawn, [], None)
      | Some gt \<Rightarrow> if host \<or> \<not> armed gt then Some (drawn, [], Some gt)
          else (case check (as_u32 drawn) gt of
              None \<Rightarrow> None
            | Some (True, gt1) \<Rightarrow> Some (drawn, [], Some gt1)
            | Some (False, gt1) \<Rightarrow> map_option (\<lambda>(i, gt2). (i, [], Some (gt2\<lparr>gt_redrawn := gt_redrawn gt2 + 1\<rparr>)))
                (redraw_from_row twin gt1 row))))"

definition admit_id :: "nat \<Rightarrow> nat option \<Rightarrow> think_filter \<Rightarrow> tool_stream \<Rightarrow> gate option
    \<Rightarrow> (bool \<times> tool_stream \<times> gate option) option" where
  "admit_id i tool_open think ts gate = (
     let opener = (Some i = tool_open); reasoning = is_inside think; ts' = (if opener \<and> \<not> reasoning then arm ts else ts) in
     case gate of
       None \<Rightarrow> Some (True, ts', None)
     | Some gt \<Rightarrow> if opener \<and> reasoning then Some (True, ts', Some gt)
         else map_option (\<lambda>(kept, gt'). (kept, ts', Some gt')) (gate_accept i gt))"

section \<open>What a gate keeps\<close>

definition cache_ok :: "vocab \<Rightarrow> grammar \<Rightarrow> (st \<times> u64 list) list \<Rightarrow> bool" where
  "cache_ok v g c \<longleftrightarrow> list_all (\<lambda>(s, m). mask v g s = Some m) c \<and> distinct (map fst c) \<and> length c \<le> CACHE_MAX"

definition gate_inv :: "gate \<Rightarrow> bool" where
  "gate_inv gt \<longleftrightarrow> built_vocab (gt_v gt) \<and> (\<exists>ht. grammar_ok ht (gt_g gt) \<and> st_ok (gt_g gt) ht (gt_st gt))
     \<and> cache_ok (gt_v gt) (gt_g gt) (gt_cache gt)"

lemma gate_inv_mask: "gate_inv gt \<Longrightarrow> \<exists>bits. mask (gt_v gt) (gt_g gt) (gt_st gt) = Some bits
    \<and> (\<forall>i. gate_ok_id gt i = Some (allowed bits i))"
  by (auto simp: gate_inv_def gate_ok_id_def intro: mask_exact)

lemma gate_inv_stats [simp]:
  "gate_inv (gt\<lparr>gt_checked := n\<rparr>) = gate_inv gt" "gate_inv (gt\<lparr>gt_redrawn := n\<rparr>) = gate_inv gt"
  "gate_ok_id (gt\<lparr>gt_checked := n\<rparr>) = gate_ok_id gt" "gate_ok_id (gt\<lparr>gt_redrawn := n\<rparr>) = gate_ok_id gt"
  by (simp_all add: gate_inv_def gate_ok_id_def fun_eq_iff)

lemma gate_inv_new: "built_vocab v \<Longrightarrow> grammar_ok ht g \<Longrightarrow> gate_inv (gate_new g v)"
  by (auto simp: gate_inv_def gate_new_def st_ok_def st_idle_def cache_ok_def)

text \<open>
  The contract of a mask over an abstract gate: it answers the check of every id, and asking
  for it leaves what the gate admits as it is.
\<close>

locale mask_gate =
  fixes inv :: "'g \<Rightarrow> bool" and admits :: "'g \<Rightarrow> nat \<Rightarrow> bool option" and take_mask :: "'g \<Rightarrow> (u64 list \<times> 'g) option"
  assumes exact: "inv gt \<Longrightarrow> \<exists>m gt'. take_mask gt = Some (m, gt') \<and> inv gt' \<and> admits gt' = admits gt
    \<and> (\<forall>i. admits gt i = Some (allowed m i))"
begin

lemma mask_obtain:
  assumes "inv gt"
  obtains m gt' where "take_mask gt = Some (m, gt')" "inv gt'" "admits gt' = admits gt" "\<And>i. admits gt i = Some (allowed m i)"
  using exact [OF assms] by blast

lemma argmax_in:
  "(argmax_from k best bv row = best \<and> (\<forall>i < length row. \<not> f_gt (row ! i) bv))
   \<or> (\<exists>i < length row. argmax_from k best bv row = k + i \<and> f_gt (row ! i) (Infty True))"
proof (induction row arbitrary: k best bv)
  case (Cons v row)
  have above: "f_gt v w \<Longrightarrow> f_gt v (Infty True)" for w
    by (cases v; cases w) (auto simp: f_gt_def f_cmp.simps split: if_splits)
  show ?case
  proof (cases "f_gt v bv")
    case True
    from Cons.IH [of "Suc k" k v] show ?thesis
    proof
      assume "argmax_from (Suc k) k v row = k \<and> (\<forall>i < length row. \<not> f_gt (row ! i) v)"
      then show ?thesis using True above by (intro disjI2 exI [of _ 0]) simp
    next
      assume "\<exists>i < length row. argmax_from (Suc k) k v row = Suc k + i \<and> f_gt (row ! i) (Infty True)"
      then obtain i where "i < length row" "argmax_from (Suc k) k v row = Suc k + i" "f_gt (row ! i) (Infty True)" by blast
      then show ?thesis using True by (intro disjI2 exI [of _ "Suc i"]) simp
    qed
  next
    case False
    from Cons.IH [of "Suc k" best bv] show ?thesis
    proof
      assume "argmax_from (Suc k) best bv row = best \<and> (\<forall>i < length row. \<not> f_gt (row ! i) bv)"
      then show ?thesis using False by (intro disjI1) (simp add: All_less_Suc2)
    next
      assume "\<exists>i < length row. argmax_from (Suc k) best bv row = Suc k + i \<and> f_gt (row ! i) (Infty True)"
      then obtain i where "i < length row" "argmax_from (Suc k) best bv row = Suc k + i" "f_gt (row ! i) (Infty True)" by blast
      then show ?thesis using False by (intro disjI2 exI [of _ "Suc i"]) simp
    qed
  qed
qed simp

text \<open>The argmax of a masked row is admitted, unless no admitted id has a logit above \<open>-inf\<close>.\<close>

lemma argmax_admitted:
  assumes "inv gt" "take_mask gt = Some (m, gt')" "i < length row" "admits gt i = Some True" "f_gt (row ! i) (Infty True)"
  shows "argmax (masked m row) < length row \<and> admits gt (argmax (masked m row)) = Some True"
proof -
  from mask_obtain [OF assms(1)] assms(2) have m: "\<And>i. admits gt i = Some (allowed m i)" by (metis option.inject prod.inject)
  have len: "length (masked m row) = length row" by (simp add: masked_def)
  have nth: "masked m row ! j = (if allowed m j then row ! j else Infty True)" if "j < length row" for j
    using that by (simp add: masked_def)
  have "f_gt (masked m row ! i) (Infty True)" using assms(3-5) m [of i] by (simp add: nth)
  then obtain j where j: "j < length row" "argmax (masked m row) = j" "f_gt (masked m row ! j) (Infty True)"
    using argmax_in [of 0 0 "Infty True" "masked m row"] assms(3) len by (auto simp: argmax_def)
  have "allowed m j"
  proof (rule ccontr)
    assume "\<not> allowed m j"
    then show False using j nth [of j] by (simp add: f_gt_def f_cmp.simps)
  qed
  then show ?thesis using j m by simp
qed

end

lemma cache_ok_hit: "cache_ok v g c \<Longrightarrow> map_of c s = Some m \<Longrightarrow> mask v g s = Some m"
  by (auto simp: cache_ok_def list_all_iff dest: map_of_SomeD)

lemma cache_ok_add: "cache_ok v g c \<Longrightarrow> map_of c s = None \<Longrightarrow> mask v g s = Some m \<Longrightarrow>
    cache_ok v g ((s, m) # (if CACHE_MAX \<le> length c then [] else c))"
  by (auto simp: cache_ok_def CACHE_MAX_def map_of_eq_None_iff)

interpretation gate: mask_gate gate_inv gate_ok_id gate_mask
proof unfold_locales
  fix gt assume inv: "gate_inv gt"
  from gate_inv_mask [OF inv] obtain bits where b: "mask (gt_v gt) (gt_g gt) (gt_st gt) = Some bits"
    "\<And>i. gate_ok_id gt i = Some (allowed bits i)" by blast
  have c: "cache_ok (gt_v gt) (gt_g gt) (gt_cache gt)" using inv by (simp add: gate_inv_def)
  show "\<exists>m gt'. gate_mask gt = Some (m, gt') \<and> gate_inv gt' \<and> gate_ok_id gt' = gate_ok_id gt \<and> (\<forall>i. gate_ok_id gt i = Some (allowed m i))"
  proof (cases "map_of (gt_cache gt) (gt_st gt)")
    case None
    let ?kept = "if CACHE_MAX \<le> length (gt_cache gt) then [] else gt_cache gt"
    let ?gt = "gt\<lparr>gt_masks_built := gt_masks_built gt + 1, gt_cache := (gt_st gt, bits) # ?kept\<rparr>"
    have "gate_mask gt = Some (bits, ?gt)" using None b(1) by (simp add: gate_mask_def Let_def)
    moreover have "gate_inv ?gt" using inv cache_ok_add [OF c None b(1)] by (simp add: gate_inv_def)
    moreover have "gate_ok_id ?gt = gate_ok_id gt" by (simp add: gate_ok_id_def fun_eq_iff)
    ultimately show ?thesis using b(2) by blast
  next
    case (Some m)
    then have "m = bits" using cache_ok_hit [OF c Some] b(1) by simp
    then show ?thesis using Some inv b(2) by (auto simp: gate_mask_def)
  qed
qed

section \<open>Gates of a request\<close>

text \<open>A gate of a request: new, or after any sequence of its operations, forced ids included.\<close>

inductive gate_reach :: "grammar \<Rightarrow> vocab \<Rightarrow> gate \<Rightarrow> bool" for g v where
  reach_new: "gate_reach g v (gate_new g v)"
| reach_check: "gate_reach g v gt \<Longrightarrow> check i gt = Some (ok, gt') \<Longrightarrow> gate_reach g v gt'"
| reach_mask: "gate_reach g v gt \<Longrightarrow> gate_mask gt = Some (m, gt') \<Longrightarrow> gate_reach g v gt'"
| reach_count: "gate_reach g v gt \<Longrightarrow> gate_reach g v (gt\<lparr>gt_redrawn := n\<rparr>)"
| reach_accept: "gate_reach g v gt \<Longrightarrow> gate_accept i gt = Some (kept, gt') \<Longrightarrow> gate_reach g v gt'"

lemma open_state_ok: "grammar_ok ht g \<Longrightarrow> st_ok g ht (open_state g)"
  using choice_at_start [of "g_names g"]
  by (auto simp: open_state_def st_ok_def st_idle_def lit_needs_def lit_markup_def lit_ids LITS_def grammar_ok_def opts_ok_def
      split: markup.splits)

lemma accept_id_ok:
  assumes v: "built_vocab v" and g: "grammar_ok ht g" and s: "st_ok g ht s"
  shows "\<exists>ok s'. accept_id v g s i = Some (ok, s') \<and> st_ok g ht s' \<and> token_ok v g s i = Some ok \<and> (\<not> ok \<longrightarrow> s' = s)"
proof -
  from mask_exact [OF v g s] obtain ok where t: "token_ok v g s i = Some ok" by blast
  show ?thesis
  proof (cases "ok \<and> i \<noteq> v_open v \<and> s_ph s \<noteq> Idle \<and> i \<notin> set (v_eos v)")
    case True
    from run_bytes_ok [OF g s, of "id_bytes v i"] obtain r where
      r: "run_bytes g s (id_bytes v i) = Some r" "\<And>s'. r = Some s' \<Longrightarrow> st_ok g ht s'" by blast
    have "r \<noteq> None" using t True r(1) by (auto simp: token_ok_def split: if_splits)
    then show ?thesis using True t r by (auto simp: accept_id_def)
  next
    case False
    then show ?thesis using t s open_state_ok [OF g] by (cases ok) (auto simp: accept_id_def)
  qed
qed

lemma gate_accept_inv:
  assumes "gate_inv gt"
  shows "\<exists>kept gt'. gate_accept i gt = Some (kept, gt') \<and> gate_inv gt'
    \<and> (\<not> gt_off gt \<longrightarrow> gate_ok_id gt i = Some kept \<and> gt_off gt' = (\<not> kept))"
proof (cases "gt_off gt")
  case True
  then show ?thesis using assms by (auto simp: gate_accept_def)
next
  case False
  from assms obtain ht where g: "built_vocab (gt_v gt)" "grammar_ok ht (gt_g gt)" "st_ok (gt_g gt) ht (gt_st gt)"
    and c: "cache_ok (gt_v gt) (gt_g gt) (gt_cache gt)" by (auto simp: gate_inv_def)
  from accept_id_ok [OF g, of i] obtain ok s' where a: "accept_id (gt_v gt) (gt_g gt) (gt_st gt) i = Some (ok, s')"
    "st_ok (gt_g gt) ht s'" "token_ok (gt_v gt) (gt_g gt) (gt_st gt) i = Some ok" by blast
  then show ?thesis using False g c by (cases ok) (auto simp: gate_accept_def gate_inv_def gate_ok_id_def)
qed

lemma check_inv: "gate_inv gt \<Longrightarrow> \<exists>ok. check i gt = Some (ok, gt\<lparr>gt_checked := gt_checked gt + 1\<rparr>) \<and> gate_ok_id gt i = Some ok"
  using gate_inv_mask [of gt] by (auto simp: check_def)

lemma gate_reach_inv:
  assumes "built_grammar g" "built_vocab v"
  shows "gate_reach g v gt \<Longrightarrow> gate_inv gt"
proof (induction rule: gate_reach.induct)
  case reach_new
  then show ?case using built_grammar_ok [OF assms(1)] gate_inv_new [OF assms(2)] by blast
next
  case (reach_check gt i ok gt')
  then show ?case using check_inv [of gt i] by auto
next
  case (reach_mask gt m gt')
  then show ?case using gate.mask_obtain [of gt] by (metis option.inject prod.inject)
next
  case (reach_accept gt i kept gt')
  then show ?case using gate_accept_inv [of gt i] by auto
qed simp

text \<open>C16: over every grammar the code builds, in every state a request can reach, checking,
  masking and accepting an id return: no index is out of range, no \<open>unreachable!\<close> is reached,
  and the walk over the trie ends.\<close>

theorem gate_never_panics:
  assumes "built_grammar g" "built_vocab v" "gate_reach g v gt"
  shows "check i gt \<noteq> None \<and> gate_mask gt \<noteq> None \<and> gate_accept i gt \<noteq> None"
proof -
  have inv: "gate_inv gt" using gate_reach_inv assms by blast
  from gate.exact [OF this] check_inv [OF inv, of i] gate_accept_inv [OF inv, of i] show ?thesis by auto
qed

text \<open>C15: the mask of a state, cached or not, has the bit of an id set exactly when the check of
  that id admits it.\<close>

theorem gate_mask_is_check:
  assumes "built_grammar g" "built_vocab v" "gate_reach g v gt"
  shows "\<exists>m gt'. gate_mask gt = Some (m, gt')
    \<and> check i gt = Some (allowed m i, gt\<lparr>gt_checked := gt_checked gt + 1\<rparr>)"
proof -
  have inv: "gate_inv gt" using gate_reach_inv assms by blast
  from gate.exact [OF this] check_inv [OF inv, of i] show ?thesis by auto
qed

lemma redraw_kept:
  assumes inv: "gate_inv gt" and len: "length row \<le> 2 ^ 32"
    and some: "j < length row" "gate_ok_id gt j = Some True" "f_gt (row ! j) (Infty True)"
  shows "\<exists>i gt'. redraw_from_row twin gt row = Some (i, gt') \<and> gate_inv gt' \<and> gt_off gt' = gt_off gt \<and> gate_ok_id gt' (as_u32 i) = Some True"
proof -
  from gate.mask_obtain [OF inv] obtain m gt' where m: "gate_mask gt = Some (m, gt')" "gate_inv gt'" "gate_ok_id gt' = gate_ok_id gt"
    "\<And>i. gate_ok_id gt i = Some (allowed m i)" by blast
  have off: "gt_off gt' = gt_off gt" using m(1) by (auto simp: gate_mask_def Let_def split: option.splits)
  from gate.argmax_admitted [OF inv m(1) some] have a: "argmax (masked m row) < length row" "gate_ok_id gt (argmax (masked m row)) = Some True" by auto
  then have "as_u32 (argmax (masked m row)) = argmax (masked m row)" using len by (intro as_u32_small) simp
  then show ?thesis using m off a by (simp add: redraw_from_row_def mask_row_def Let_def)
qed

lemma length_apply_logit_bias [simp]: "length (apply_logit_bias bias row) = length row"
  by (induction bias row rule: apply_logit_bias.induct) simp_all

lemma draw_kept:
  assumes inv: "gate_inv gt" and on: "armed gt" and len: "length row0 \<le> 2 ^ 32"
    and some: "j < length row0" "gate_ok_id gt j = Some True" "f_gt (apply_logit_bias bias row0 ! j) (Infty True)"
  shows "\<exists>i s' gt1. draw_row S s bias (Some gt) row0 = Some (i, s', Some gt1) \<and> gate_inv gt1 \<and> gt_off gt1 = gt_off gt
    \<and> gate_ok_id gt1 (as_u32 i) = Some True"
proof -
  let ?row = "apply_logit_bias bias row0" and ?gt = "gt\<lparr>gt_checked := gt_checked gt + 1\<rparr>"
  obtain tok s1 where d: "draw_of S s ?row = (tok, s1)" by fastforce
  from check_inv [OF inv, of "as_u32 tok"] obtain ok where
    c: "check (as_u32 tok) gt = Some (ok, ?gt)" "gate_ok_id gt (as_u32 tok) = Some ok" by blast
  show ?thesis
  proof (cases ok)
    case True
    then show ?thesis using c on inv d by (simp add: draw_row_def Let_def)
  next
    case False
    let ?gt1 = "?gt\<lparr>gt_redrawn := gt_redrawn ?gt + 1\<rparr>"
    have inv1: "gate_inv ?gt1" "gate_ok_id ?gt1 j = Some True" using inv some(2) by simp_all
    from gate.mask_obtain [OF inv1(1)] obtain m gt2 where m: "gate_mask ?gt1 = Some (m, gt2)" "gate_inv gt2"
      "gate_ok_id gt2 = gate_ok_id ?gt1" "\<And>i. gate_ok_id ?gt1 i = Some (allowed m i)" by blast
    have off: "gt_off gt2 = gt_off gt" using m(1) by (auto simp: gate_mask_def Let_def split: option.splits)
    have j: "j < length ?row" using some(1) by simp
    from gate.argmax_admitted [OF inv1(1) m(1) j inv1(2) some(3)] have a: "argmax (masked m ?row) < length ?row"
      "gate_ok_id ?gt1 (argmax (masked m ?row)) = Some True" by auto
    then have u: "as_u32 (argmax (masked m ?row)) = argmax (masked m ?row)" using len by (intro as_u32_small) simp
    obtain tok' s2 where d': "draw_of S s1 (masked m ?row) = (tok', s2)" by fastforce
    show ?thesis using c(1) False on d d' m off a u by (simp add: draw_row_def mask_row_def Let_def)
  qed
qed

text \<open>C13: an id the loop keeps without forcing it is one the grammar admits, so the grammar never
  steps aside on it. This holds on both routes, for any sampler: on the host route \<open>draw_row\<close>
  draws from the biased row, checks the id and redraws it under the mask; on the device route
  the loop checks the drawn id and redraws it from the row. It is stated for rows in which some
  admitted id has a logit above \<open>-inf\<close> (after the bias, on the host route): without one the masked
  argmax is id 0, admitted or not, as \<open>argmax_of_nothing\<close> shows.\<close>

theorem gate_keeps_admitted_ids:
  fixes host :: bool and S :: "'s sampler" and bias :: "(nat \<times> f64) list" and row0 :: "f64 list"
  defines "row \<equiv> if host then apply_logit_bias bias row0 else row0"
  assumes "built_grammar g" "built_vocab v" "gate_reach g v gt" "armed gt" and len: "length row0 \<le> 2 ^ 32"
    and some: "j < length row0" "gate_ok_id gt j = Some True" "f_gt (row ! j) (Infty True)"
  shows "\<exists>i s' gt1 gt2. (if host then draw_row S s bias (Some gt) row0 = Some (i, s', Some gt1)
        \<and> step_id [] True twin row0 i (Some gt1) = Some (i, [], Some gt1)
      else step_id [] False twin row0 drawn (Some gt) = Some (i, [], Some gt1))
    \<and> gate_accept (as_u32 i) gt1 = Some (True, gt2) \<and> \<not> gt_off gt2"
    (is "\<exists>i s' gt1 gt2. ?kept i s' gt1 \<and> ?takes i gt1 gt2 \<and> ?on gt2")
proof -
  have inv: "gate_inv gt" using gate_reach_inv assms(2-4) by blast
  have off: "\<not> gt_off gt" using assms(5) by (simp add: armed_def)
  let ?gt = "gt\<lparr>gt_checked := gt_checked gt + 1\<rparr>"
  have "\<exists>i s' gt1. ?kept i s' gt1 \<and> gate_inv gt1 \<and> \<not> gt_off gt1 \<and> gate_ok_id gt1 (as_u32 i) = Some True"
  proof (cases host)
    case True
    from draw_kept [OF inv assms(5) len some(1,2), of bias S s] some(3) True off show ?thesis
      by (auto simp: row_def step_id_def)
  next
    case False
    from check_inv [OF inv, of "as_u32 drawn"] obtain ok where
      c: "check (as_u32 drawn) gt = Some (ok, ?gt)" "gate_ok_id gt (as_u32 drawn) = Some ok" by blast
    have "\<exists>i gt1. step_id [] False twin row0 drawn (Some gt) = Some (i, [], Some gt1) \<and> gate_inv gt1 \<and> \<not> gt_off gt1
      \<and> gate_ok_id gt1 (as_u32 i) = Some True"
    proof (cases ok)
      case True
      then show ?thesis using c assms(5) inv off by (simp add: step_id_def)
    next
      case no: False
      have "gate_inv ?gt" "gate_ok_id ?gt j = Some True" "f_gt (row0 ! j) (Infty True)" using inv some(2,3) False by (simp_all add: row_def)
      from redraw_kept [OF this(1) len some(1) this(2,3), of twin] obtain i gt' where
        "redraw_from_row twin ?gt row0 = Some (i, gt')" "gate_inv gt'" "\<not> gt_off gt'" "gate_ok_id gt' (as_u32 i) = Some True"
        using off by auto
      then show ?thesis using c(1) no assms(5) by (simp add: step_id_def)
    qed
    then show ?thesis using False by simp
  qed
  then obtain i s' gt1 where i: "?kept i s' gt1" "gate_inv gt1" "\<not> gt_off gt1" "gate_ok_id gt1 (as_u32 i) = Some True" by blast
  from gate_accept_inv [OF i(2), of "as_u32 i"] i(3,4) obtain gt2 where "gate_accept (as_u32 i) gt1 = Some (True, gt2)" "\<not> gt_off gt2" by auto
  then show ?thesis using i(1) by blast
qed

section \<open>A request\<close>

text \<open>A gate whose model has just opened a call, and one that is still before it.\<close>

definition demo_gate :: gate where
  "demo_gate = (gate_new demo_grammar demo_vocab)\<lparr>gt_st := open_state demo_grammar\<rparr>"

lemma demo_vocab_fields: "v_n demo_vocab = 6" "v_eos demo_vocab = [3]" "v_open demo_vocab = 4"
proof -
  have "vocab_small 6 demo_bytes" by (rule demo_vocab_small)
  from build_vocab_spec(1-3) [OF this, of demo_vocab "\<lambda>_. False" "[3]" 4]
  show "v_n demo_vocab = 6" "v_eos demo_vocab = [3]" "v_open demo_vocab = 4" by (simp_all add: demo_vocab_def)
qed

lemma demo_gate_reach: "gate_reach demo_grammar demo_vocab demo_gate"
proof -
  have "gate_accept 4 (gate_new demo_grammar demo_vocab) = Some (True, demo_gate)"
    by (simp add: gate_accept_def gate_new_def demo_gate_def accept_id_def token_ok_def demo_vocab_fields open_ok_def
        st_idle_def is_between_def)
  from reach_accept [OF reach_new this] show ?thesis .
qed

theorem gate_never_panics_witness:
  "check 1 demo_gate \<noteq> None \<and> gate_mask demo_gate \<noteq> None \<and> gate_accept 1 demo_gate \<noteq> None"
  by (rule gate_never_panics [OF demo_grammar_built demo_vocab_built demo_gate_reach])

theorem gate_mask_is_check_witness:
  "\<exists>m gt'. gate_mask demo_gate = Some (m, gt') \<and> check 1 demo_gate = Some (allowed m 1, demo_gate\<lparr>gt_checked := gt_checked demo_gate + 1\<rparr>)"
  by (rule gate_mask_is_check [OF demo_grammar_built demo_vocab_built demo_gate_reach])

text \<open>In \<open>required\<close> mode the end of generation is refused before a call: id 3, drawn, is redrawn.\<close>

text \<open>The sampler of the witness draws greedily.\<close>

definition greedy_sampler :: "unit sampler" where
  "greedy_sampler = \<lparr>draw_of = (\<lambda>s row. (argmax row, s)), observe = (\<lambda>t s. s)\<rparr>"

theorem gate_keeps_admitted_ids_witness:
  "\<exists>i s' gt1 gt2. draw_row greedy_sampler () [(1, Infty True)] (Some (gate_new demo_grammar demo_vocab))
        [Fin 1 0, Fin 2 0, Fin 0 0, Fin 9 0, Fin 0 0, Fin 0 0] = Some (i, s', Some gt1)
      \<and> gate_accept (as_u32 i) gt1 = Some (True, gt2) \<and> \<not> gt_off gt2"
proof -
  let ?gt = "gate_new demo_grammar demo_vocab" and ?row = "[Fin 1 0, Fin 2 0, Fin 0 0, Fin 9 0, Fin 0 0, Fin 0 0]"
  have on: "armed ?gt" by (simp add: armed_def gate_new_def demo_grammar_def)
  have ok: "gate_ok_id ?gt 0 = Some True" by (simp add: gate_ok_id_def gate_new_def token_ok_def demo_vocab_fields st_idle_def)
  have "f_gt ((if True then apply_logit_bias [(1, Infty True)] ?row else ?row) ! 0) (Infty True)"
    by (simp add: is_infinite_def f_gt_def f_cmp.simps)
  from gate_keeps_admitted_ids [OF demo_grammar_built demo_vocab_built reach_new on _ _ ok this, of greedy_sampler "()" None 0]
  show ?thesis by auto
qed

text \<open>Without such a logit the argmax of the masked row is id 0, admitted or not.\<close>

lemma argmax_of_nothing: "list_all (\<lambda>l. l = Infty True) row \<Longrightarrow> argmax (masked m row) = 0"
proof -
  assume r: "list_all (\<lambda>l. l = Infty True) row"
  have "argmax_from k 0 (Infty True) xs = 0" if "list_all (\<lambda>l. l = Infty True) xs" for k xs
    using that by (induction xs arbitrary: k) (auto simp: f_gt_def f_cmp.simps)
  moreover have "list_all (\<lambda>l. l = Infty True) (masked m row)"
    using r by (auto simp: list_all_length masked_def)
  ultimately show ?thesis by (simp add: argmax_def)
qed

end
