(* ===== verification/GrammarLiveJson.thy ===== *)
theory GrammarLiveJson
  imports GrammarInv
begin

text \<open>
  A JSON value in progress can always be completed: in every well-formed state some byte is
  accepted that brings the value closer to its end, by a measure of what every open container
  and the scalar in progress still owe. What is owed shrinks along: the required keys not yet
  written, the separator that comes next, the bytes left of a key, an option or a literal.
\<close>

section \<open>Runs\<close>

fun j_run :: "grammar \<Rightarrow> js \<Rightarrow> str \<Rightarrow> js option" where
  "j_run g j [] = Some j"
| "j_run g j (b # bs) = (case j_step g j b of Some (ROk, j') \<Rightarrow> j_run g j' bs | _ \<Rightarrow> None)"

text \<open>The value is complete, and the bytes that may follow it in the frame say so.\<close>

definition ends :: "grammar \<Rightarrow> js \<Rightarrow> bool" where
  "ends g j \<longleftrightarrow> (\<forall>b \<in> {newline, CHR ''<''}. \<exists>j'. j_step g j b = Some (RPass, j'))"

section \<open>The measure\<close>

definition owed :: "grammar \<Rightarrow> frame \<Rightarrow> nat set" where
  "owed g f = (case g_nodes g ! f_node f of
      NObj _ _ req \<Rightarrow> {i. bit req i \<and> \<not> bit (f_seen f) i \<and> \<not> ((f_st f = OBJ_COLON \<or> f_st f = OBJ_VAL) \<and> i = f_key f)}
    | _ \<Rightarrow> {})"

text \<open>The key in progress, or the one about to be, can be an owed one.\<close>

definition aims :: "grammar \<Rightarrow> frame \<Rightarrow> sc \<Rightarrow> bool" where
  "aims g f s \<longleftrightarrow> (case s of ScKey lo hi _ \<Rightarrow> \<exists>i \<in> owed g f. lo \<le> i \<and> i < hi | _ \<Rightarrow> owed g f \<noteq> {})"

definition frame_weight :: "grammar \<Rightarrow> frame \<Rightarrow> sc \<Rightarrow> nat" where
  "frame_weight g f s = (let m = 8 * card (owed g f) in
     if f_st f = OBJ_NEXT then m + 1 else if f_st f = OBJ_VAL then m + 3 else if f_st f = OBJ_COLON then m + 4
     else if f_st f = OBJ_FIRST \<or> f_st f = OBJ_KEY then (if aims g f s then m else m + 5)
     else if f_st f = ARR_NEXT then 1 else 3)"

definition scalar_weight :: "js \<Rightarrow> nat" where
  "scalar_weight j = (case j_sc j of
      ScNone \<Rightarrow> if wants_value j \<or> in_key j then 100000 else 0
    | ScStr _ _ esc \<Rightarrow> if esc = 0 then 1 else if esc = 1 then 2 else esc - 9
    | ScKey _ _ off \<Rightarrow> 70000 - off
    | ScCh _ _ _ off \<Rightarrow> 70000 - off
    | ScNum _ p _ \<Rightarrow> if num_accepts p then 1 else 2
    | ScLit _ off \<Rightarrow> 10 - off)"

definition weight :: "grammar \<Rightarrow> js \<Rightarrow> nat \<Rightarrow> nat" where
  "weight g j i = (if i < j_depth j then frame_weight g (j_fr j ! i) (j_sc j) else if i = j_depth j then scalar_weight j else 0)"

definition closer :: "grammar \<Rightarrow> (js \<times> js) set" where
  "closer g = inv_image ((measures (map (\<lambda>i w. w i) [0..<7]))\<^sup>+) (weight g)"

lemma wf_closer: "wf (closer g)"
  by (simp add: closer_def wf_trancl)

lemma in_measures_nth: "k < length fs \<Longrightarrow> (\<And>i. i < k \<Longrightarrow> (fs ! i) x = (fs ! i) y) \<Longrightarrow> (fs ! k) x < (fs ! k) y
    \<Longrightarrow> (x, y) \<in> measures fs"
proof (induction fs arbitrary: k)
  case (Cons f fs)
  then show ?case
  proof (cases k)
    case (Suc k')
    have "(x, y) \<in> measures fs"
      by (rule Cons.IH [of k']) (use Cons.prems Suc in fastforce)+
    then show ?thesis using Cons.prems(2) [of 0] Suc by simp
  qed simp
qed simp

lemma closerI: "k < 7 \<Longrightarrow> (\<And>i. i < k \<Longrightarrow> weight g j' i = weight g j i) \<Longrightarrow> weight g j' k < weight g j k \<Longrightarrow> (j', j) \<in> closer g"
  unfolding closer_def in_inv_image by (rule r_into_trancl, rule in_measures_nth [of k]) simp_all

lemma closer_trans: "(a, b) \<in> closer g \<Longrightarrow> (b, c) \<in> closer g \<Longrightarrow> (a, c) \<in> closer g"
  unfolding closer_def in_inv_image by (rule trancl_trans)

lemma weight_ws [simp]: "weight g (j\<lparr>j_ws := n\<rparr>) = weight g j"
  by (simp add: weight_def scalar_weight_def fun_eq_iff)

lemma closer_ws [simp]:
  "(j', j\<lparr>j_ws := n\<rparr>) \<in> closer g \<longleftrightarrow> (j', j) \<in> closer g" "(j\<lparr>j_ws := n\<rparr>, j') \<in> closer g \<longleftrightarrow> (j, j') \<in> closer g"
  by (simp_all add: closer_def)

text \<open>Frames below the top are inside a value, so the scalar does not weigh on them.\<close>

lemma frame_weight_value: "value_st (f_st f) \<Longrightarrow> frame_weight g f s = frame_weight g f s'"
  by (auto simp: frame_weight_def value_st_def frame_ids)

lemma owed_finite: "finite (owed g f)"
proof (cases "g_nodes g ! f_node f")
  case (NObj keys vals req)
  have "{i. bit req i} \<subseteq> {..<32}" using bit_imp_le_length [of req] by auto
  then have "finite {i. bit req i}" by (rule finite_subset) simp
  then show ?thesis by (rule rev_finite_subset) (auto simp: owed_def NObj)
qed (simp_all add: owed_def)

lemma owed_card: "card (owed g f) \<le> 32"
proof (cases "g_nodes g ! f_node f")
  case (NObj keys vals req)
  have "owed g f \<subseteq> {..<32}" using bit_imp_le_length [of req] by (auto simp: owed_def NObj)
  from card_mono [OF _ this] show ?thesis by simp
qed (simp_all add: owed_def)

lemma frame_weight_bounds: "0 < frame_weight g f s" "frame_weight g f s < 1000"
proof -
  have "aims g f s \<Longrightarrow> 0 < card (owed g f)"
    using owed_finite [of g f] by (auto simp: aims_def card_gt_0_iff split: sc.splits)
  then show "0 < frame_weight g f s" by (auto simp: frame_weight_def Let_def)
  show "frame_weight g f s < 1000" using owed_card [of g f] by (auto simp: frame_weight_def Let_def)
qed

text \<open>A scalar step: the frames weigh the same, the scalar less.\<close>

lemma scalar_closer:
  assumes b: "js_base g ht j" and same: "j_depth j' = j_depth j" "j_fr j' = j_fr j"
    and k: "in_key j \<Longrightarrow> frame_weight g (top_frame j) (j_sc j') = frame_weight g (top_frame j) (j_sc j)"
    and s: "scalar_weight j' < scalar_weight j"
  shows "(j', j) \<in> closer g"
proof (rule closerI [of "j_depth j"])
  show "j_depth j < 7" using b by (simp add: js_base_def)
  show "weight g j' (j_depth j) < weight g j (j_depth j)" using s same by (simp add: weight_def)
  fix i assume i: "i < j_depth j"
  show "weight g j' i = weight g j i"
  proof (cases "Suc i < j_depth j")
    case True
    then have "value_st (f_st (j_fr j ! i))" using b by (simp add: js_base_def)
    then show ?thesis using i same by (simp add: weight_def frame_weight_value [of _ g "j_sc j'" "j_sc j"])
  next
    case False
    then have "i = j_depth j - 1" using i by simp
    then have t: "j_fr j ! i = top_frame j" by (simp add: top_frame_def)
    show ?thesis
    proof (cases "in_key j")
      case True
      then show ?thesis using k i t same by (simp add: weight_def)
    next
      case False
      then have "f_st (top_frame j) \<noteq> OBJ_FIRST" "f_st (top_frame j) \<noteq> OBJ_KEY" using i by (auto simp: in_key_def)
      then have "frame_weight g (top_frame j) (j_sc j') = frame_weight g (top_frame j) (j_sc j)" by (simp add: frame_weight_def Let_def)
      then show ?thesis using i t same by (simp add: weight_def)
    qed
  qed
qed

text \<open>A step that changes the top frame: it weighs less, whatever the scalar becomes.\<close>

lemma top_weights:
  assumes b: "js_base g ht j" and d: "0 < j_depth j" and same: "j_depth j' = j_depth j" "j_fr j' = (j_fr j)[j_depth j - 1 := f']"
    and f: "frame_weight g f' (j_sc j') < frame_weight g (top_frame j) (j_sc j)"
  shows "weight g j' (j_depth j - 1) < weight g j (j_depth j - 1)" "i < j_depth j - 1 \<Longrightarrow> weight g j' i = weight g j i"
proof -
  have l: "j_depth j - 1 < length (j_fr j)" using b d by (auto simp: js_base_def)
  show "weight g j' (j_depth j - 1) < weight g j (j_depth j - 1)"
    using f d l same by (simp add: weight_def top_frame_def)
  assume i: "i < j_depth j - 1"
  then have "value_st (f_st (j_fr j ! i))" using b by (simp add: js_base_def)
  moreover have "i < j_depth j" "i \<noteq> j_depth j - 1" using i by simp_all
  ultimately show "weight g j' i = weight g j i"
    using same by (simp add: weight_def frame_weight_value [of _ g "j_sc j'" "j_sc j"])
qed

lemma top_closer:
  assumes "js_base g ht j" "0 < j_depth j" "j_depth j' = j_depth j" "j_fr j' = (j_fr j)[j_depth j - 1 := f']"
    "frame_weight g f' (j_sc j') < frame_weight g (top_frame j) (j_sc j)"
  shows "(j', j) \<in> closer g"
proof (rule closerI [of "j_depth j - 1"])
  show "j_depth j - 1 < 7" using assms(1) by (auto simp: js_base_def)
qed (use top_weights [OF assms] in blast)+

section \<open>A value that is done\<close>

lemma after_value_weight:
  assumes "frame_ok g ht i f" "value_st (f_st f)"
  shows "frame_weight g (after_value g f) s < frame_weight g f s'"
proof (cases "f_st f = OBJ_VAL")
  case True
  have "owed g (after_value g f) = owed g f"
    using assms True by (auto simp: owed_def after_value_def frame_ok_def frame_ids dest: bit_imp_le_length split: node.splits)
  moreover have "f_st (after_value g f) = OBJ_NEXT" using after_value_frame(3) [OF assms] True by simp
  ultimately show ?thesis using True by (simp add: frame_weight_def frame_ids)
next
  case False
  then have "f_st f = ARR_FIRST \<or> f_st f = ARR_VAL" using assms(2) by (simp add: value_st_def)
  then show ?thesis using after_value_frame(3) [OF assms] False by (auto simp: frame_weight_def frame_ids)
qed

lemma wants_not_key: "wants_value j \<Longrightarrow> \<not> in_key j"
  by (auto simp: wants_value_alt in_key_def value_st_def frame_ids split: if_splits)

lemma scalar_weight_pos:
  assumes g: "grammar_ok ht g" and sc: "sc_ok g j" and w: "wants_value j"
  shows "0 < scalar_weight j"
proof (cases "j_sc j")
  case (ScCh node lo hi off)
  then obtain o' v where n: "node < length (g_nodes g)" "g_nodes g ! node = NChoice o'" and v: "off = length v" "choice_at o' v lo hi"
    using sc by (auto simp: sc_ok_def)
  from grammar_choice [OF g n] have "length v < 65536" using opts_cont(3) v(2) by blast
  then show ?thesis using ScCh v(1) by (simp add: scalar_weight_def)
next
  case (ScLit which off)
  then have "which < 3" "off < length (json_literals ! which)" using sc by (auto simp: sc_ok_def)
  then have "off < 10" by (auto simp: json_literals_def less_Suc_eq numeral_3_eq_3)
  then show ?thesis using ScLit by (simp add: scalar_weight_def)
qed (use sc w wants_not_key [OF w] in \<open>auto simp: scalar_weight_def sc_ok_def\<close>)

lemma value_done_fields:
  assumes "0 < j_depth j"
  shows "j_depth (value_done g j) = j_depth j" "j_fr (value_done g j) = (j_fr j)[j_depth j - 1 := after_value g (top_frame j)]"
  using assms by (simp_all add: value_done_def set_top_def top_frame_def)

lemma value_done_weights:
  assumes b: "js_base g ht j" and w: "wants_value j" and d: "0 < j_depth j"
  shows "weight g (value_done g j) (j_depth j - 1) < weight g j (j_depth j - 1)"
    "i < j_depth j - 1 \<Longrightarrow> weight g (value_done g j) i = weight g j i"
proof -
  have v: "value_st (f_st (top_frame j))" using w d by (simp add: wants_value_alt)
  show "weight g (value_done g j) (j_depth j - 1) < weight g j (j_depth j - 1)"
    "i < j_depth j - 1 \<Longrightarrow> weight g (value_done g j) i = weight g j i"
    using top_weights [OF b d value_done_fields [OF d] after_value_weight [OF base_top(1) [OF b d] v]] by blast+
qed

lemma value_done_closer:
  assumes b: "js_base g ht j" and w: "wants_value j" and p: "0 < scalar_weight j"
  shows "(value_done g j, j) \<in> closer g"
proof (cases "j_depth j = 0")
  case True
  then show ?thesis using p by (intro closerI [of 0]) (simp_all add: weight_def value_done_def scalar_weight_def wants_value_def in_key_def)
next
  case False
  then show ?thesis using value_done_weights [OF b w] b
    by (intro closerI [of "j_depth j - 1"]) (auto simp: js_base_def)
qed

text \<open>Closing a container is a step towards the end: its frame is gone, its value is done.\<close>

lemma pop_closer:
  assumes b: "js_base g ht j" and d: "0 < j_depth j"
  shows "\<exists>j'. j_pop g j = Some (ROk, j') \<and> (j', j) \<in> closer g"
proof -
  let ?j = "j\<lparr>j_depth := j_depth j - 1, j_fr := (j_fr j)[j_depth j - 1 := frame_default]\<rparr>"
  note p = pop_ok(2-4) [OF b d]
  have "(value_done g ?j, j) \<in> closer g"
  proof (cases "j_depth j = 1")
    case True
    show ?thesis
    proof (rule closerI [of 0])
      show "weight g (value_done g ?j) 0 < weight g j 0"
        using True frame_weight_bounds(1) by (simp add: weight_def value_done_def scalar_weight_def wants_value_def in_key_def)
    qed simp_all
  next
    case False
    then have d1: "0 < j_depth ?j" using d by simp
    have same: "weight g ?j i = weight g j i" if "i < j_depth ?j" for i
    proof -
      have "i < j_depth j" "i \<noteq> j_depth j - 1" using that by simp_all
      then show ?thesis using that by (simp add: weight_def)
    qed
    show ?thesis
    proof (rule closerI [of "j_depth ?j - 1"])
      show "j_depth ?j - 1 < 7" using b by (auto simp: js_base_def)
      show "weight g (value_done g ?j) (j_depth ?j - 1) < weight g j (j_depth ?j - 1)"
        using value_done_weights(1) [OF p(2,3) d1] same [of "j_depth ?j - 1"] d1 by simp
      fix i assume "i < j_depth ?j - 1"
      then show "weight g (value_done g ?j) i = weight g j i"
        using value_done_weights(2) [OF p(2,3) d1, of i] same [of i] by simp
    qed
  qed
  then show ?thesis using p(1) by blast
qed

text \<open>Opening a container that a value needs: the value wanted weighs more than any frame.\<close>

lemma push_closer:
  assumes b: "js_base g ht j" and w: "wants_value j" and sc: "j_sc j = ScNone" and d: "j_depth j < 6"
  shows "\<exists>j'. j_push j n s = Some (ROk, j') \<and> (j', j) \<in> closer g"
proof -
  let ?f = "\<lparr>f_node = n, f_st = s, f_key = 0, f_seen = 0\<rparr>"
  let ?j = "j\<lparr>j_fr := (j_fr j)[j_depth j := ?f], j_depth := j_depth j + 1, j_ws := 0\<rparr>"
  have l: "length (j_fr j) = 6" using b by (simp add: js_base_def)
  have "(?j, j) \<in> closer g"
  proof (rule closerI [of "j_depth j"])
    show "weight g ?j (j_depth j) < weight g j (j_depth j)"
      using d l w sc frame_weight_bounds(2) [of g ?f ScNone] by (simp add: weight_def scalar_weight_def)
  qed (use d in \<open>simp_all add: weight_def\<close>)
  then show ?thesis using d l by (simp add: j_push_def MAX_JSON_DEPTH_def)
qed

section \<open>Between scalars\<close>

definition advances :: "grammar \<Rightarrow> js \<Rightarrow> (jr \<times> js) option \<Rightarrow> bool" where
  "advances g j r \<longleftrightarrow> (\<exists>j'. r = Some (ROk, j') \<and> (j', j) \<in> closer g)"

lemma advancesI: "r = Some (ROk, j') \<Longrightarrow> (j', j) \<in> closer g \<Longrightarrow> advances g j r"
  by (auto simp: advances_def)

lemma advances_ws [simp]: "advances g (j\<lparr>j_ws := n\<rparr>) r = advances g j r"
  by (simp add: advances_def)

text \<open>What follows a settled value inside a container, and what may follow a number or an option.\<close>

definition followers :: "char set" where
  "followers = {CHR '','', CHR ''}'', CHR '']'', newline, CHR ''<''}"

lemma close_obj_advances:
  assumes b: "js_base g ht j" and d: "0 < j_depth j" and o: "owed g (top_frame j) = {}"
    and st: "f_st (top_frame j) \<noteq> OBJ_COLON" "f_st (top_frame j) \<noteq> OBJ_VAL"
  shows "advances g j (j_close_obj g j)"
proof -
  note t = base_top [OF b d]
  have "f_seen (top_frame j) AND req = req" if "g_nodes g ! f_node (top_frame j) = NObj keys vals req" for keys vals req
    using o st that by (intro bit_eqI) (auto simp: owed_def bit_and_iff)
  then have "j_close_obj g j = j_pop g j" using t(2,3) d by (simp add: j_close_obj_def split: node.split)
  then show ?thesis using pop_closer [OF b d] by (auto simp: advances_def)
qed

lemma j_struct_top:
  assumes b: "js_base g ht j" and d: "0 < j_depth j" and w: "\<not> wants_value j" and ws: "\<not> is_ws c"
  shows "j_struct g j c = (let f = top_frame j in
      if f_st f = OBJ_FIRST \<or> f_st f = OBJ_KEY then
          (if c = CHR ''}'' \<and> f_st f = OBJ_FIRST then j_close_obj g (j\<lparr>j_ws := 0\<rparr>)
           else if c \<noteq> dq then Some (RRej, j\<lparr>j_ws := 0\<rparr>)
           else (case g_nodes g ! f_node f of
               NObj keys _ _ \<Rightarrow> key_start keys (f_seen f) (j\<lparr>j_ws := 0\<rparr>) c
             | _ \<Rightarrow> Some (ROk, j\<lparr>j_ws := 0, j_sc := ScStr 0 0 0\<rparr>)))
      else if f_st f = OBJ_COLON then
          (if c \<noteq> CHR '':'' then Some (RRej, j\<lparr>j_ws := 0\<rparr>) else Some (ROk, set_top (\<lambda>x. x\<lparr>f_st := OBJ_VAL\<rparr>) (j\<lparr>j_ws := 0\<rparr>)))
      else if f_st f = OBJ_NEXT then
          (if c = CHR ''}'' then j_close_obj g (j\<lparr>j_ws := 0\<rparr>)
           else if c = CHR '','' then
             (if (case g_nodes g ! f_node f of NObj keys _ _ \<Rightarrow> count_ones (f_seen f) \<ge> length keys | _ \<Rightarrow> False)
              then Some (RRej, j\<lparr>j_ws := 0\<rparr>) else Some (ROk, set_top (\<lambda>x. x\<lparr>f_st := OBJ_KEY\<rparr>) (j\<lparr>j_ws := 0\<rparr>)))
           else Some (RRej, j\<lparr>j_ws := 0\<rparr>))
      else if f_st f = ARR_NEXT then
          (if c = CHR '']'' then j_pop g (j\<lparr>j_ws := 0\<rparr>)
           else if c = CHR '','' then Some (ROk, set_top (\<lambda>x. x\<lparr>f_st := ARR_VAL\<rparr>) (j\<lparr>j_ws := 0\<rparr>))
           else Some (RRej, j\<lparr>j_ws := 0\<rparr>))
      else Some (RRej, j\<lparr>j_ws := 0\<rparr>))"
proof -
  note t = base_top [OF b d]
  have "\<not> value_st (f_st (top_frame j))" using w d b by (simp add: wants_value_alt js_base_def)
  then show ?thesis using d ws t(2,3) by (simp add: j_struct.simps [of g j] value_st_def Let_def)
qed

lemma pop_advances: "js_base g ht j \<Longrightarrow> 0 < j_depth j \<Longrightarrow> advances g j (j_pop g j)"
  using pop_closer by (auto simp: advances_def)

lemma next_advances:
  assumes g: "grammar_ok ht g" and b: "js_base g ht j" and d: "0 < j_depth j" and w: "\<not> wants_value j" and sc: "j_sc j = ScNone"
    and st: "f_st (top_frame j) = OBJ_NEXT \<or> f_st (top_frame j) = ARR_NEXT"
  shows "\<exists>c \<in> followers. advances g j (j_struct g j c)"
proof -
  note t = base_top [OF b d]
  let ?f = "top_frame j" and ?j = "j\<lparr>j_ws := 0\<rparr>"
  have b': "js_base g ht ?j" using b by simp
  note eq = j_struct_top [OF b d w]
  from st show ?thesis
  proof
    assume st: "f_st ?f = ARR_NEXT"
    have "advances g j (j_struct g j (CHR '']''))"
      using pop_advances [OF b'] d st by (simp add: eq is_ws_def Let_def frame_ids)
    then show ?thesis by (auto simp: followers_def)
  next
    assume st: "f_st ?f = OBJ_NEXT"
    show ?thesis
    proof (cases "owed g ?f = {}")
      case True
      then have "advances g j (j_struct g j (CHR ''}''))"
        using close_obj_advances [OF b'] d st by (simp add: eq is_ws_def Let_def frame_ids)
      then show ?thesis by (auto simp: followers_def)
    next
      case False
      then obtain keys vals req where n: "g_nodes g ! f_node ?f = NObj keys vals req" by (auto simp: owed_def split: node.splits)
      have fo: "bits_below (length keys) (f_seen ?f)" using t(1) n by (simp add: frame_ok_def)
      obtain i where "bit req i" "\<not> bit (f_seen ?f) i" using False n by (auto simp: owed_def)
      then have "count_ones (f_seen ?f) < length keys"
        using count_ones_less [OF fo] grammar_obj(9) [OF g t(3) n] by (auto simp: bits_below_def)
      then have s: "j_struct g j (CHR '','') = Some (ROk, set_top (\<lambda>f. f\<lparr>f_st := OBJ_KEY\<rparr>) ?j)"
        using st n by (simp add: eq is_ws_def Let_def frame_ids)
      have o: "owed g (?f\<lparr>f_st := OBJ_KEY\<rparr>) = owed g ?f" using st n by (simp add: owed_def frame_ids)
      then have "frame_weight g (?f\<lparr>f_st := OBJ_KEY\<rparr>) ScNone < frame_weight g ?f ScNone"
        using False st by (simp add: frame_weight_def aims_def frame_ids)
      then have "(set_top (\<lambda>f. f\<lparr>f_st := OBJ_KEY\<rparr>) ?j, j) \<in> closer g"
        using sc d by (intro top_closer [OF b d, where f' = "?f\<lparr>f_st := OBJ_KEY\<rparr>"]) (simp_all add: set_top_def top_frame_def)
      then show ?thesis using s by (auto simp: followers_def intro!: advancesI)
    qed
  qed
qed

section \<open>Keys\<close>

text \<open>In a key, what is owed is what is required and not yet seen.\<close>

lemma owed_in_key:
  assumes "g_nodes g ! f_node f = NObj keys vals req" "f_st f = OBJ_FIRST \<or> f_st f = OBJ_KEY"
  shows "owed g f = {i. bit req i \<and> \<not> bit (f_seen f) i}"
  using assms by (auto simp: owed_def frame_ids)

lemma owed_colon:
  assumes "g_nodes g ! f_node f = NObj keys vals req" "f_st f = OBJ_FIRST \<or> f_st f = OBJ_KEY"
  shows "owed g (f\<lparr>f_key := a, f_st := OBJ_COLON\<rparr>) = owed g f - {a}"
  using assms by (auto simp: owed_def frame_ids)

lemma colon_weight:
  assumes n: "g_nodes g ! f_node f = NObj keys vals req" and st: "f_st f = OBJ_FIRST \<or> f_st f = OBJ_KEY"
    and a: "aims g f s \<Longrightarrow> a \<in> owed g f"
  shows "frame_weight g (f\<lparr>f_key := a, f_st := OBJ_COLON\<rparr>) s' < frame_weight g f s"
proof -
  have w': "frame_weight g (f\<lparr>f_key := a, f_st := OBJ_COLON\<rparr>) s' = 8 * card (owed g f - {a}) + 4"
    unfolding owed_colon [OF n st, symmetric] by (simp add: frame_weight_def frame_ids)
  have w: "frame_weight g f s = 8 * card (owed g f) + (if aims g f s then 0 else 5)"
    using st by (auto simp: frame_weight_def frame_ids)
  show ?thesis
  proof (cases "aims g f s")
    case True
    have "0 < card (owed g f)" using a True owed_finite [of g f] by (auto simp: card_gt_0_iff)
    moreover have "card (owed g f - {a}) = card (owed g f) - 1" using a True by simp
    ultimately show ?thesis using True unfolding w w' by simp
  next
    case False
    have "card (owed g f - {a}) \<le> card (owed g f)" by (rule card_mono [OF owed_finite]) blast
    then show ?thesis using False unfolding w w' by simp
  qed
qed

text \<open>A key to write: an owed one if the range has one.\<close>

lemma key_target:
  assumes "\<exists>i. lo \<le> i \<and> i < hi \<and> \<not> bit (f_seen f) i" and o: "owed g f \<subseteq> {i. \<not> bit (f_seen f) i}"
  obtains k where "lo \<le> k" "k < hi" "\<not> bit (f_seen f) k" "(\<exists>i \<in> owed g f. lo \<le> i \<and> i < hi) \<Longrightarrow> k \<in> owed g f"
proof (cases "\<exists>i \<in> owed g f. lo \<le> i \<and> i < hi")
  case True
  then show thesis using o that by blast
next
  case False
  then show thesis using assms(1) that by blast
qed

lemma same_weight_in_key: "aims g f s = aims g f s' \<Longrightarrow> frame_weight g f s = frame_weight g f s'"
  by (simp add: frame_weight_def Let_def)

lemma key_advances:
  assumes g: "grammar_ok ht g" and j: "js_ok g ht j" and sc: "j_sc j = ScKey lo hi off"
  shows "\<exists>c. advances g j (j_step g j c)"
proof -
  let ?f = "top_frame j"
  have b: "js_base g ht j" and ik: "in_key j" using j sc by (auto simp: js_ok_def sc_ok_def)
  from j sc obtain w where w: "off = length w" "key_at g j w lo hi" by (auto simp: js_ok_def sc_ok_def)
  from w(2) obtain keys vals req where n: "g_nodes g ! f_node ?f = NObj keys vals req"
    and at: "choice_at keys w lo hi" "w \<notin> set keys" and un: "\<exists>i. lo \<le> i \<and> i < hi \<and> \<not> bit (f_seen ?f) i"
    by (auto simp: key_at_def split: node.splits)
  have d: "0 < j_depth j" and st: "f_st ?f = OBJ_FIRST \<or> f_st ?f = OBJ_KEY" using ik by (auto simp: in_key_def)
  note t = base_top [OF b d]
  note o = grammar_obj [OF g t(3) n]
  have osub: "owed g ?f \<subseteq> {i. \<not> bit (f_seen ?f) i}" using owed_in_key [OF n st] by auto
  from key_target [OF un osub] obtain k where k: "lo \<le> k" "k < hi" "\<not> bit (f_seen ?f) k"
    "(\<exists>i \<in> owed g ?f. lo \<le> i \<and> i < hi) \<Longrightarrow> k \<in> owed g ?f" by blast
  have aim: "aims g ?f (j_sc j) \<longleftrightarrow> (\<exists>i \<in> owed g ?f. lo \<le> i \<and> i < hi)" by (simp add: aims_def sc)
  have kl: "k < length keys" using k(2) choice_at_bounds [OF at(1)] by simp
  have pk: "is_prefix w (keys ! k)" using choice_at_prefix [OF at(1) k(1,2)] .
  have "off < length (keys ! k)"
    using is_prefix_same [OF pk] at(2) kl w(1) by (metis not_le nth_mem)
  define c where "c = keys ! k ! off"
  have pc: "is_prefix (w @ [c]) (keys ! k)" using pk \<open>off < length (keys ! k)\<close> w(1) by (simp add: is_prefix_snoc c_def)
  have eq: "j_step g j c = (case choice_step keys lo hi off c (\<lambda>i. f_seen ?f AND push_bit i 1 = 0) of
            None \<Rightarrow> None
          | Some (ChCont a z) \<Rightarrow> (let off' = as_u16 (off + 1) in
              if length (keys ! a) = off'
              then Some (ROk, (set_top (\<lambda>f. f\<lparr>f_key := as_u8 a, f_st := OBJ_COLON\<rparr>) j)\<lparr>j_sc := ScNone, j_ws := 0\<rparr>)
              else Some (ROk, j\<lparr>j_sc := ScKey (as_u8 a) (as_u8 z) off'\<rparr>))
          | Some _ \<Rightarrow> Some (RRej, j))"
    using d t n by (simp add: j_step_def sc j_key_def)
  from sorted_obj [OF g t(3) n] at(1) w(1) have "advances g j (j_step g j c)"
  proof (cases rule: choice_step_cases [where b = c and alive = "\<lambda>i. f_seen ?f AND push_bit i 1 = 0"])
    case (Cont a z)
    have az: "a < z" "z \<le> length keys" using choice_at_bounds [OF Cont(2)] by auto
    have u: "as_u16 (off + 1) = off + 1" "as_u8 a = a" "as_u8 z = z" and off: "off < 65536"
      using opts_cont [OF o(4) Cont(2)] w(1) az o(2) by simp_all
    have ka: "a \<le> k" "k < z" using choice_at_mem [OF Cont(2) kl pc] by auto
    have pa: "is_prefix (w @ [c]) (keys ! a)" using az choice_at_prefix [OF Cont(2), of a] by simp
    show ?thesis
    proof (cases "length (keys ! a) = off + 1")
      case True
      then have "keys ! a = w @ [c]" using is_prefix_same [OF pa] w(1) by simp
      moreover have "keys ! a \<in> set keys" "keys ! k \<in> set keys" using az kl by simp_all
      ultimately have "keys ! a = keys ! k" using o(7) [of "keys ! a" "keys ! k"] pc by simp
      then have "a = k" using o(5) az ka kl by (simp add: nth_eq_iff_index_eq)
      then have "frame_weight g (?f\<lparr>f_key := a, f_st := OBJ_COLON\<rparr>) ScNone < frame_weight g ?f (j_sc j)"
        using k(4) aim by (intro colon_weight [OF n st]) simp
      then have "((set_top (\<lambda>f. f\<lparr>f_key := a, f_st := OBJ_COLON\<rparr>) j)\<lparr>j_sc := ScNone, j_ws := 0\<rparr>, j) \<in> closer g"
        using d by (intro top_closer [OF b d, where f' = "?f\<lparr>f_key := a, f_st := OBJ_COLON\<rparr>"]) (simp_all add: set_top_def top_frame_def)
      then show ?thesis using Cont(1) eq u True by (simp add: advances_def Let_def)
    next
      case False
      have "aims g ?f (ScKey a z (off + 1)) \<longleftrightarrow> aims g ?f (j_sc j)"
      proof
        assume "aims g ?f (ScKey a z (off + 1))"
        then obtain i where i: "i \<in> owed g ?f" "a \<le> i" "i < z" by (auto simp: aims_def)
        have "is_prefix w (keys ! i)" using choice_at_prefix [OF Cont(2) i(2,3)] by (simp add: is_prefix_snoc)
        then have "lo \<le> i \<and> i < hi" using choice_at_mem [OF at(1), of i] i(3) az(2) by simp
        then show "aims g ?f (j_sc j)" using i(1) aim by blast
      next
        assume "aims g ?f (j_sc j)"
        then show "aims g ?f (ScKey a z (off + 1))" using k(4) ka aim by (auto simp: aims_def)
      qed
      then have fw: "frame_weight g ?f (ScKey a z (off + 1)) = frame_weight g ?f (j_sc j)" by (rule same_weight_in_key)
      have "(j\<lparr>j_sc := ScKey a z (off + 1)\<rparr>, j) \<in> closer g"
      proof (rule scalar_closer [OF b])
        show "scalar_weight (j\<lparr>j_sc := ScKey a z (off + 1)\<rparr>) < scalar_weight j" using off by (simp add: scalar_weight_def sc)
      qed (use fw in simp_all)
      then show ?thesis using Cont(1) eq u False by (simp add: advances_def Let_def)
    qed
  next
    case Done
    then show ?thesis using kl pc k(3) by simp
  next
    case Rej
    then show ?thesis using kl pc k(3) by simp
  qed
  then show ?thesis by blast
qed

lemma key_start_advances:
  assumes g: "grammar_ok ht g" and b: "js_base g ht j" and ik: "in_key j" and sc: "j_sc j = ScNone"
    and n: "g_nodes g ! f_node (top_frame j) = NObj keys vals req"
  shows "advances g j (key_start keys (f_seen (top_frame j)) j dq)"
proof -
  let ?f = "top_frame j"
  have d: "0 < j_depth j" and st: "f_st ?f = OBJ_FIRST \<or> f_st ?f = OBJ_KEY" using ik by (auto simp: in_key_def)
  note t = base_top [OF b d]
  note o = grammar_obj [OF g t(3) n]
  have start: "is_prefix [dq] (keys ! i)" if "i < length keys" for i
    using o(6) [of "keys ! i"] that by (auto simp: is_prefix_iff)
  have "\<exists>i < length keys. \<not> bit (f_seen ?f) i" using t(1) n st by (simp add: frame_ok_def)
  then obtain k where k: "k < length keys" "\<not> bit (f_seen ?f) k" by blast
  have c0: "choice_at keys [] 0 (length keys)" using o(1) by (rule choice_at_start)
  have z0: "0 = length []" by simp
  from sorted_obj [OF g t(3) n] c0 z0 show ?thesis
  proof (cases rule: choice_step_cases [where b = dq and alive = "\<lambda>i. f_seen ?f AND push_bit i 1 = 0"])
    case (Cont a z)
    have az: "a < z" "z \<le> length keys" using choice_at_bounds [OF Cont(2)] by auto
    have all: "a \<le> i \<and> i < z" if "i < length keys" for i using choice_at_mem [OF Cont(2) that] start [OF that] by simp
    have "aims g ?f (ScKey a z 1) \<longleftrightarrow> owed g ?f \<noteq> {}"
      using all o(9) owed_in_key [OF n st] by (auto simp: aims_def bits_below_def)
    then have "(j\<lparr>j_sc := ScKey a z 1\<rparr>, j) \<in> closer g"
      using ik by (intro scalar_closer [OF b]) (simp_all add: scalar_weight_def sc same_weight_in_key aims_def)
    then show ?thesis using Cont(1) az o(2) by (auto intro!: advancesI)
  next
    case Done
    then show ?thesis using start [OF k(1)] k by simp
  next
    case Rej
    then show ?thesis using start [OF k(1)] k by simp
  qed
qed

section \<open>Between scalars, continued\<close>

text \<open>No value is wanted: the value is complete, or a key, a colon or a separator comes next.\<close>

lemma idle_advances:
  assumes g: "grammar_ok ht g" and b: "js_base g ht j" and w: "\<not> wants_value j" and sc: "j_sc j = ScNone"
  shows "ends g j \<or> (\<exists>c. advances g j (j_struct g j c))"
proof (cases "j_depth j = 0")
  case True
  then show ?thesis using w sc by (simp add: ends_def j_step_def j_struct.simps [of g j] wants_value_def)
next
  case False
  then have d: "0 < j_depth j" by simp
  note t = base_top [OF b d]
  let ?f = "top_frame j" and ?j = "j\<lparr>j_ws := 0\<rparr>"
  have b': "js_base g ht ?j" using b by simp
  note eq = j_struct_top [OF b d w]
  have v: "\<not> value_st (f_st ?f)" using w d b by (simp add: wants_value_alt js_base_def)
  have "f_st ?f \<le> 7" using t(1) by (auto simp: frame_ok_def split: node.splits)
  with v consider (key) "f_st ?f = OBJ_FIRST \<or> f_st ?f = OBJ_KEY" | (colon) "f_st ?f = OBJ_COLON"
    | (sep) "f_st ?f = OBJ_NEXT \<or> f_st ?f = ARR_NEXT"
    by (auto simp: value_st_def frame_ids) linarith
  then show ?thesis
  proof cases
    case key
    then have ik: "in_key j" using d by (simp add: in_key_def)
    show ?thesis
    proof (cases "g_nodes g ! f_node ?f")
      case (NObj keys vals req)
      have "advances g ?j (key_start keys (f_seen (top_frame ?j)) ?j dq)"
        using key_start_advances [OF g b', of keys vals req] NObj ik sc by simp
      moreover have "j_struct g j dq = key_start keys (f_seen ?f) ?j dq"
        using key NObj by (simp add: eq is_ws_def dq_def Let_def del: key_start.simps)
      ultimately show ?thesis by (metis advances_ws frame_field_simps(4))
    next
      case NOpenObj
      have o: "owed g ?f = {}" by (simp add: owed_def NOpenObj)
      have "j_struct g j dq = Some (ROk, ?j\<lparr>j_sc := ScStr 0 0 0\<rparr>)"
        using key NOpenObj by (simp add: eq is_ws_def dq_def Let_def)
      moreover have "(?j\<lparr>j_sc := ScStr 0 0 0\<rparr>, j) \<in> closer g"
        using ik sc o by (intro scalar_closer [OF b]) (simp_all add: scalar_weight_def same_weight_in_key aims_def)
      ultimately show ?thesis using advancesI by blast
    qed (use t(1) key in \<open>auto simp: frame_ok_def frame_ids\<close>)
  next
    case colon
    have "j_struct g j (CHR '':'') = Some (ROk, set_top (\<lambda>f. f\<lparr>f_st := OBJ_VAL\<rparr>) ?j)"
      using colon by (simp add: eq is_ws_def Let_def frame_ids)
    moreover have o: "owed g (?f\<lparr>f_st := OBJ_VAL\<rparr>) = owed g ?f" using colon by (simp add: owed_def frame_ids split: node.split)
    have "frame_weight g (?f\<lparr>f_st := OBJ_VAL\<rparr>) ScNone < frame_weight g ?f ScNone"
      using o colon by (simp add: frame_weight_def frame_ids)
    then have "(set_top (\<lambda>f. f\<lparr>f_st := OBJ_VAL\<rparr>) ?j, j) \<in> closer g"
      using sc d by (intro top_closer [OF b d, where f' = "?f\<lparr>f_st := OBJ_VAL\<rparr>"]) (simp_all add: set_top_def top_frame_def)
    ultimately show ?thesis using advancesI by blast
  next
    case sep
    then show ?thesis using next_advances [OF g b d w sc] by blast
  qed
qed

text \<open>A number or an option that is complete ends with the next byte: what follows decides.\<close>

lemma complete_advances:
  assumes g: "grammar_ok ht g" and j: "js_ok g ht j" and w: "wants_value j"
    and e: "\<And>c. c \<in> followers \<Longrightarrow> j_step g j c = j_struct g (value_done g j) c"
  shows "ends g j \<or> (\<exists>c. advances g j (j_step g j c))"
proof -
  have b: "js_base g ht j" using j by (simp add: js_ok_def)
  note v = value_done_ok [OF b w]
  have c: "(value_done g j, j) \<in> closer g"
    using value_done_closer [OF b w] scalar_weight_pos [OF g _ w] j by (simp add: js_ok_def)
  show ?thesis
  proof (cases "j_depth j = 0")
    case True
    have "j_done (value_done g j)" using True by (simp add: value_done_def)
    then show ?thesis using True v(3) e by (simp add: ends_def followers_def j_struct.simps [of g "value_done g j"])
  next
    case False
    then have d: "0 < j_depth (value_done g j)" using v(3) by simp
    have l: "j_depth j - 1 < length (j_fr j)" using False b by (auto simp: js_base_def)
    have "top_frame (value_done g j) = after_value g (top_frame j)"
      using False l by (simp add: value_done_def top_frame_def set_top_def)
    moreover have "value_st (f_st (top_frame j))" using w False by (simp add: wants_value_alt)
    ultimately have st: "f_st (top_frame (value_done g j)) = OBJ_NEXT \<or> f_st (top_frame (value_done g j)) = ARR_NEXT"
      using after_value_frame(3) [OF base_top(1) [OF b]] False by simp
    from next_advances [OF g v(1) d v(4,2) st] obtain x j' where
      "x \<in> followers" "j_struct g (value_done g j) x = Some (ROk, j')" "(j', value_done g j) \<in> closer g" by (auto simp: advances_def)
    then have "advances g j (j_step g j x)" using e [of x] closer_trans [OF _ c, of j'] by (simp add: advances_def)
    then show ?thesis by blast
  qed
qed

section \<open>Scalars\<close>

lemma num_stop:
  assumes "c \<in> followers"
  shows "num_next whole p n c = None"
proof -
  have "\<not> is_digit c" "c \<noteq> CHR ''-''" "c \<noteq> CHR ''0''" "c \<noteq> CHR ''.''" "c \<noteq> CHR ''e''" "c \<noteq> CHR ''E''" "c \<noteq> CHR ''+''"
    using assms by (auto simp: followers_def is_digit_def newline_def)
  then show ?thesis by (simp add: num_next_def Let_def)
qed

lemma num_advances:
  assumes g: "grammar_ok ht g" and j: "js_ok g ht j" and sc: "j_sc j = ScNum whole p n"
  shows "ends g j \<or> (\<exists>c. advances g j (j_step g j c))"
proof -
  have b: "js_base g ht j" and w: "wants_value j" and p: "p \<le> 9" using j sc by (auto simp: js_ok_def sc_ok_def)
  show ?thesis
  proof (cases "num_accepts p")
    case True
    have "j_step g j c = j_struct g (value_done g j) c" if "c \<in> followers" for c
      using num_stop [OF that] True value_done_eq [OF b w] by (simp add: j_step_def sc j_num.simps)
    then show ?thesis by (rule complete_advances [OF g j w])
  next
    case False
    then have "p = 0 \<or> p = 1 \<or> p = 4 \<or> p = 6 \<or> p = 7" using p by (auto simp: num_accepts_def)
    then obtain p' where p': "num_next whole p n (CHR ''0'') = Some (p', 1)" "num_accepts p'"
      by (elim disjE) (simp_all add: num_next_def is_digit_def num_accepts_def Let_def)
    have "(j\<lparr>j_sc := ScNum whole p' 1\<rparr>, j) \<in> closer g"
      using False p'(2) wants_not_key [OF w] by (intro scalar_closer [OF b]) (simp_all add: scalar_weight_def sc)
    then have "advances g j (j_step g j (CHR ''0''))" using p'(1) by (simp add: advances_def j_step_def sc j_num.simps)
    then show ?thesis by blast
  qed
qed

lemma value_end_advances:
  assumes g: "grammar_ok ht g" and j: "js_ok g ht j" and w: "wants_value j"
  shows "advances g j (map_option (\<lambda>j'. (ROk, j')) (j_value_done g j))"
proof -
  have b: "js_base g ht j" using j by (simp add: js_ok_def)
  have "(value_done g j, j) \<in> closer g"
    using value_done_closer [OF b w] scalar_weight_pos [OF g _ w] j by (simp add: js_ok_def)
  then show ?thesis using value_done_eq [OF b w] by (simp add: advances_def)
qed

lemma lit_advances:
  assumes g: "grammar_ok ht g" and j: "js_ok g ht j" and sc: "j_sc j = ScLit which off"
  shows "\<exists>c. advances g j (j_step g j c)"
proof -
  have b: "js_base g ht j" and w: "wants_value j" and l: "which < 3" "off < length (json_literals ! which)"
    using j sc by (auto simp: js_ok_def sc_ok_def)
  have k: "length json_literals = 3" "length (json_literals ! which) \<le> 5"
    using l(1) by (auto simp: json_literals_def less_Suc_eq numeral_3_eq_3)
  let ?c = "json_literals ! which ! off"
  have "advances g j (j_step g j ?c)"
  proof (cases "off + 1 = length (json_literals ! which)")
    case True
    then show ?thesis using value_end_advances [OF g j w] l k by (simp add: j_step_def sc j_lit_def)
  next
    case False
    have "(j\<lparr>j_sc := ScLit which (off + 1)\<rparr>, j) \<in> closer g"
      using wants_not_key [OF w] l k by (intro scalar_closer [OF b]) (simp_all add: scalar_weight_def sc)
    then show ?thesis using False l k by (simp add: advances_def j_step_def sc j_lit_def)
  qed
  then show ?thesis by blast
qed

lemma string_advances:
  assumes g: "grammar_ok ht g" and j: "js_ok g ht j" and sc: "j_sc j = ScStr gp pat esc"
  shows "\<exists>c. advances g j (j_step g j c)"
proof -
  have b: "js_base g ht j" and e: "esc = 0 \<or> esc = 1 \<or> 11 \<le> esc \<and> esc \<le> 14"
    and w: "wants_value j \<or> in_key j \<and> g_nodes g ! f_node (top_frame j) = NOpenObj"
    using j sc by (auto simp: js_ok_def sc_ok_def)
  have o: "owed g (top_frame j) = {}" if "in_key j" using w wants_not_key that by (auto simp: owed_def)
  have str: "(j\<lparr>j_sc := ScStr 0 0 x\<rparr>, j) \<in> closer g" if "scalar_weight (j\<lparr>j_sc := ScStr 0 0 x\<rparr>) < scalar_weight j" for x
    using that o sc by (intro scalar_closer [OF b]) (auto intro: same_weight_in_key simp: aims_def)
  show ?thesis
  proof (cases "esc = 0")
    case z: True
    have "advances g j (j_step g j dq)"
    proof (cases "wants_value j")
      case True
      then show ?thesis using z wants_not_key [OF True] value_end_advances [OF g j True] base_top(2) [OF b]
        by (auto simp: j_step_def sc j_string_def in_key_def)
    next
      case False
      with w have ik: "in_key j" and n: "g_nodes g ! f_node (top_frame j) = NOpenObj" by auto
      have d: "0 < j_depth j" and st: "f_st (top_frame j) = OBJ_FIRST \<or> f_st (top_frame j) = OBJ_KEY" using ik by (auto simp: in_key_def)
      let ?f' = "top_frame j\<lparr>f_st := OBJ_COLON\<rparr>"
      have "frame_weight g ?f' ScNone < frame_weight g (top_frame j) (j_sc j)"
        using st n sc by (auto simp: frame_weight_def owed_def aims_def frame_ids)
      then have "((set_top (\<lambda>f. f\<lparr>f_st := OBJ_COLON\<rparr>) j)\<lparr>j_sc := ScNone, j_ws := 0\<rparr>, j) \<in> closer g"
        using d by (intro top_closer [OF b d, where f' = ?f']) (simp_all add: set_top_def top_frame_def)
      then show ?thesis using st d z base_top(2) [OF b d] by (simp add: advances_def j_step_def sc j_string_def)
    qed
    then show ?thesis by blast
  next
    case nz: False
    show ?thesis
    proof (cases "esc = 1")
      case True
      then have "advances g j (j_step g j (CHR ''n''))"
        using str [of 0] by (simp add: advances_def j_step_def sc j_string_def str_esc_def scalar_weight_def)
      then show ?thesis by blast
    next
      case False
      then consider "esc = 11" | "esc = 12" | "esc = 13" | "esc = 14" using nz e by linarith
      then have "advances g j (j_step g j (CHR ''0''))"
        by cases (use str [of 0] str [of "esc - 1"] in
          \<open>simp_all add: advances_def j_step_def sc j_string_def scalar_weight_def hex_digit_def is_digit_def\<close>)
      then show ?thesis by blast
    qed
  qed
qed

section \<open>Choices\<close>

text \<open>
  A range of candidates: some live candidate goes on by a byte, or every byte ends the choice.
\<close>

lemma choice_live:
  assumes s: "sorted opts" and c: "choice_at opts w lo hi" and off: "off = length w" and k: "lo \<le> k" "k < hi" "alive k"
    and d: "distinct opts \<or> (\<forall>i. alive i)"
  shows "(\<exists>b a z. choice_step opts lo hi off b alive = Some (ChCont a z) \<and> choice_at opts (w @ [b]) a z \<and> (\<exists>i. a \<le> i \<and> i < z \<and> alive i))
    \<or> (\<forall>b. choice_step opts lo hi off b alive = Some (ChDone lo)) \<and> opts ! lo = w \<and> lo < length opts \<and> alive lo"
proof (cases "\<exists>i. lo \<le> i \<and> i < hi \<and> alive i \<and> opts ! i \<noteq> w")
  case True
  then obtain i where i: "lo \<le> i" "i < hi" "alive i" "opts ! i \<noteq> w" by blast
  have p: "is_prefix w (opts ! i)" and il: "i < length opts"
    using choice_at_prefix [OF c i(1,2)] choice_at_bounds [OF c] i(2) by auto
  then have "length w < length (opts ! i)" using is_prefix_same [OF p] i(4) by (metis not_le)
  then have pb: "is_prefix (w @ [opts ! i ! off]) (opts ! i)" using p off by (simp add: is_prefix_snoc)
  from s c off show ?thesis
  proof (cases rule: choice_step_cases [where b = "opts ! i ! off" and alive = alive])
    case (Cont a z)
    then show ?thesis by blast
  next
    case Done
    then show ?thesis using il pb i(3) by blast
  next
    case Rej
    then show ?thesis using il pb i(3) by blast
  qed
next
  case False
  have cb: "lo < hi" "hi \<le> length opts" using choice_at_bounds [OF c] by auto
  have kw: "opts ! k = w" using False k by blast
  have "opts ! lo \<le> opts ! k" using s k cb by (simp add: sorted_nth_mono)
  then have low: "opts ! lo = w" using is_prefix_le [OF choice_at_prefix [OF c, of lo]] cb kw by simp
  have al: "alive lo"
  proof (cases "distinct opts")
    case True
    then have "lo = k" using nth_eq_iff_index_eq [OF True, of lo k] low kw k cb by simp
    then show ?thesis using k by simp
  next
    case False
    then show ?thesis using d by blast
  qed
  have dead: "\<not> alive i" if "i < length opts" "is_prefix (w @ [b]) (opts ! i)" for i b
  proof -
    have "is_prefix w (opts ! i)" "opts ! i \<noteq> w" using that(2) by (auto simp: is_prefix_snoc)
    then show ?thesis using choice_at_mem [OF c that(1)] False by blast
  qed
  have "choice_step opts lo hi off b alive = Some (ChDone lo)" for b
    using s c off
  proof (cases rule: choice_step_cases [where b = b and alive = alive])
    case (Cont a z)
    then obtain i where i: "a \<le> i" "i < z" "alive i" by blast
    then show ?thesis using dead [of i b] choice_at_prefix [OF Cont(2) i(1,2)] choice_at_bounds [OF Cont(2)] by simp
  next
    case Rej
    then show ?thesis using low al by blast
  qed
  then show ?thesis using low al cb by auto
qed

lemma choice_advances:
  assumes g: "grammar_ok ht g" and j: "js_ok g ht j" and sc: "j_sc j = ScCh node lo hi off"
  shows "ends g j \<or> (\<exists>c. advances g j (j_step g j c))"
proof -
  have b: "js_base g ht j" and w: "wants_value j" and nl: "node < length (g_nodes g)" using j sc by (auto simp: js_ok_def sc_ok_def)
  obtain o' v where n: "g_nodes g ! node = NChoice o'" and v: "off = length v" "choice_at o' v lo hi"
    using j sc by (auto simp: js_ok_def sc_ok_def)
  have o: "opts_ok 65536 o'" "[] \<notin> set o'" using grammar_choice [OF g nl n] by auto
  have lh: "lo < hi" using choice_at_bounds [OF v(2)] by blast
  have eq: "j_step g j c = (case choice_step o' lo hi off c (\<lambda>_. True) of
          None \<Rightarrow> None
        | Some (ChCont a z) \<Rightarrow> (let off' = as_u16 (off + 1) in
            if z - a = 1 \<and> length (o' ! a) = off' \<and> o' ! a \<noteq> [] \<and> last (o' ! a) = dq
            then map_option (\<lambda>j'. (ROk, j')) (j_value_done g j)
            else Some (ROk, j\<lparr>j_sc := ScCh node (as_u16 a) (as_u16 z) off'\<rparr>))
        | Some (ChDone i) \<Rightarrow> if off = 0 then Some (RRej, j)
            else (case j_value_done g j of None \<Rightarrow> None | Some j' \<Rightarrow> j_struct g j' c)
        | Some ChRej \<Rightarrow> Some (RRej, j))" for c
    using nl n by (simp add: j_step_def sc j_choice.simps [of g j])
  from choice_live [OF opts_sorted [OF o(1)] v(2,1) order_refl lh, where alive = "\<lambda>_. True"]
  consider c a z where "choice_step o' lo hi off c (\<lambda>_. True) = Some (ChCont a z)" "choice_at o' (v @ [c]) a z"
    | "\<forall>c. choice_step o' lo hi off c (\<lambda>_. True) = Some (ChDone lo)" "o' ! lo = v" "lo < length o'" by blast
  then show ?thesis
  proof cases
    case c: (1 c a z)
    have u: "as_u16 (off + 1) = off + 1" and off: "off < 65536" using opts_cont [OF o(1) c(2)] v(1) by simp_all
    have d: "(j\<lparr>j_sc := ScCh node (as_u16 a) (as_u16 z) (off + 1)\<rparr>, j) \<in> closer g"
      using wants_not_key [OF w] off by (intro scalar_closer [OF b]) (simp_all add: scalar_weight_def sc)
    have e: "advances g j (map_option (\<lambda>j'. (ROk, j')) (j_value_done g j))" by (rule value_end_advances [OF g j w])
    have "advances g j (j_step g j c)" using c(1) d e u by (simp add: eq Let_def advances_def)
    then show ?thesis by blast
  next
    case c: 2
    have "off \<noteq> 0" using c(2,3) o(2) v(1) nth_mem [of lo o'] by auto
    then have "j_step g j c = j_struct g (value_done g j) c" for c
      using c(1) value_done_eq [OF b w] by (simp add: eq)
    then show ?thesis by (intro complete_advances [OF g j w])
  qed
qed

section \<open>The start of a value\<close>

lemma start_advances:
  assumes g: "grammar_ok ht g" and b: "js_base g ht j" and w: "wants_value j" and sc: "j_sc j = ScNone"
    and n: "n < length (g_nodes g)" "ht n + j_depth j \<le> 6"
  shows "\<exists>c. \<not> is_ws c \<and> advances g j (j_start g j n c)"
proof -
  have idx: "idx (g_nodes g) n = Some (g_nodes g ! n)" using n by simp
  have sc': "(j\<lparr>j_sc := x\<rparr>, j) \<in> closer g" if "scalar_weight (j\<lparr>j_sc := x\<rparr>) < 100000" for x
    using that wants_not_key [OF w] w sc by (intro scalar_closer [OF b]) (simp_all add: scalar_weight_def [of j])
  have set: "advances g j (Some (ROk, j\<lparr>j_sc := x\<rparr>))" if "scalar_weight (j\<lparr>j_sc := x\<rparr>) < 100000" for x
    using sc' [OF that] by (simp add: advances_def)
  have num: "advances g j (j_num g (j\<lparr>j_sc := ScNum whole 0 0\<rparr>) whole 0 0 (CHR ''0''))" for whole
    using set [of "ScNum whole 2 1"] by (simp add: j_num.simps num_next_def is_digit_def scalar_weight_def)
  have push: "advances g j (j_push j m s)" if "0 < ht n" for m s
    using push_closer [OF b w sc, of m s] n that by (auto simp: advances_def)
  show ?thesis
  proof (cases "g_nodes g ! n")
    case (NChoice o')
    have o: "opts_ok 65536 o'" "o' \<noteq> []" "[] \<notin> set o'" using grammar_choice [OF g n(1) NChoice] by auto
    let ?x = "o' ! 0"
    have xm: "?x \<in> set o'" using o(2) by simp
    then have "?x \<noteq> []" using o(3) by metis
    then obtain c r where x: "?x = c # r" using neq_Nil_conv [of ?x] by blast
    have ws: "\<not> is_ws c" using grammar_choice_start [OF g n(1) NChoice xm] x by simp
    have l: "as_u16 (length o') = length o'" using o(1) by (simp add: opts_ok_def)
    let ?j = "j\<lparr>j_sc := ScCh n 0 (length o') 0\<rparr>"
    have jc: "j_start g j n c = j_choice g ?j n 0 (length o') 0 c" using l by (simp add: j_start.simps [of g j] idx NChoice)
    have k0: "0 = length []" by simp
    have "advances g j (j_start g j n c)"
      using opts_sorted [OF o(1)] choice_at_start [OF o(2)] k0
    proof (cases rule: choice_step_cases [where b = c and alive = "\<lambda>_. True"])
      case (Cont a z)
      have wv: "wants_value ?j" and bj: "js_base g ht ?j" using w b by simp_all
      have vd: "j_value_done g ?j = Some (value_done g j)"
        using value_done_eq [OF bj wv] by (simp add: value_done_def set_top_def)
      have "(value_done g j, j) \<in> closer g"
        using w sc by (intro value_done_closer [OF b w]) (simp add: scalar_weight_def)
      then show ?thesis
        using Cont(1) vd set [of "ScCh n (as_u16 a) (as_u16 z) 1"] idx NChoice
        by (simp add: jc j_choice.simps Let_def advances_def scalar_weight_def)
    qed (use o(2) x in \<open>auto simp: is_prefix_iff\<close>)
    then show ?thesis using ws by blast
  next
    case NAny
    have "advances g j (j_start g j n (CHR ''n''))"
      using set [of "ScLit 2 1"] by (simp add: j_start.simps [of g j] idx NAny scalar_weight_def is_digit_def dq_def)
    then show ?thesis by (intro exI [of _ "CHR ''n''"]) (simp add: is_ws_def)
  next
    case NStr
    have "advances g j (j_start g j n dq)"
      using set [of "ScStr 0 0 0"] by (simp add: j_start.simps [of g j] idx NStr scalar_weight_def)
    then show ?thesis by (intro exI [of _ dq]) (simp add: is_ws_def dq_def)
  next
    case NInt
    have "advances g j (j_start g j n (CHR ''0''))" using num [of True] by (simp add: j_start.simps [of g j] idx NInt is_digit_def)
    then show ?thesis by (intro exI [of _ "CHR ''0''"]) (simp add: is_ws_def)
  next
    case NNum
    have "advances g j (j_start g j n (CHR ''0''))" using num [of False] by (simp add: j_start.simps [of g j] idx NNum is_digit_def)
    then show ?thesis by (intro exI [of _ "CHR ''0''"]) (simp add: is_ws_def)
  next
    case NBool
    have "advances g j (j_start g j n (CHR ''t''))"
      using set [of "ScLit 0 1"] by (simp add: j_start.simps [of g j] idx NBool scalar_weight_def is_digit_def dq_def)
    then show ?thesis by (intro exI [of _ "CHR ''t''"]) (simp add: is_ws_def)
  next
    case NNull
    have "advances g j (j_start g j n (CHR ''n''))"
      using set [of "ScLit 2 1"] by (simp add: j_start.simps [of g j] idx NNull scalar_weight_def is_digit_def dq_def)
    then show ?thesis by (intro exI [of _ "CHR ''n''"]) (simp add: is_ws_def)
  next
    case (NArr i)
    then have "0 < ht n" using grammar_arr [OF g n(1) NArr] by simp
    then have "advances g j (j_start g j n (CHR ''[''))" using push by (simp add: j_start.simps [of g j] idx NArr)
    then show ?thesis by (intro exI [of _ "CHR ''[''"]) (simp add: is_ws_def)
  next
    case (NObj keys vals req)
    note o = grammar_obj [OF g n(1) NObj]
    have "vals \<noteq> []" using o(1,3) by auto
    then have "0 < ht n" using o(8) [of "hd vals"] by simp
    then have "advances g j (j_start g j n (CHR ''{''))" using push by (simp add: j_start.simps [of g j] idx NObj)
    then show ?thesis by (intro exI [of _ "CHR ''{''"]) (simp add: is_ws_def)
  next
    case NOpenObj
    then have "0 < ht n" using grammar_node [OF g n(1)] by (simp add: node_ok_def)
    then have "advances g j (j_start g j n (CHR ''{''))" using push by (simp add: j_start.simps [of g j] idx NOpenObj)
    then show ?thesis by (intro exI [of _ "CHR ''{''"]) (simp add: is_ws_def)
  qed
qed

lemma value_advances:
  assumes g: "grammar_ok ht g" and b: "js_base g ht j" and w: "wants_value j" and sc: "j_sc j = ScNone"
  shows "\<exists>c. advances g j (j_struct g j c)"
proof (cases "j_depth j = 0")
  case True
  then show ?thesis using w start_advances [OF g b w sc, of "j_top j"] b grammar_ht [OF g, of "j_top j"]
    by (auto simp: j_struct.simps [of g j] wants_value_def js_base_def)
next
  case False
  then have d: "0 < j_depth j" by simp
  let ?j = "j\<lparr>j_ws := 0\<rparr>" and ?f = "top_frame j"
  note t = base_top [OF b d]
  have v: "value_st (f_st ?f)" using w False by (simp add: wants_value_alt)
  have start: "\<exists>c. \<not> is_ws c \<and> advances g j (j_start g ?j n c)" if "n < length (g_nodes g)" "ht n + j_depth j \<le> 6" for n
    using start_advances [OF g, of ?j n] b w sc that by simp
  have fit: "ht m + j_depth j \<le> 6" if "ht m < ht (f_node ?f)" for m
    using frame_fits [OF t(1)] that d by linarith
  show ?thesis
  proof (cases "g_nodes g ! f_node ?f")
    case (NArr i)
    then obtain c where c: "\<not> is_ws c" "advances g j (j_start g ?j i c)"
      using start [of i] fit [of i] grammar_arr [OF g t(3) NArr] by blast
    show ?thesis
    proof (cases "f_st ?f = ARR_FIRST")
      case True
      have "advances g j (j_pop g ?j)" using pop_advances [of g ht ?j] b d by simp
      then have "advances g j (j_struct g j (CHR '']''))" using False t(2,3) NArr True
        by (simp add: j_struct.simps [of g j] frame_ids is_ws_def Let_def)
      then show ?thesis by blast
    next
      case no: False
      then have "f_st ?f = ARR_VAL" using v t(1) NArr by (auto simp: frame_ok_def value_st_def frame_ids)
      then have "advances g j (j_struct g j c)" using False t(2,3) NArr c
        by (simp add: j_struct.simps [of g j] frame_ids Let_def)
      then show ?thesis by blast
    qed
  next
    case (NObj keys vals req)
    have st: "f_st ?f = OBJ_VAL" using v t(1) NObj by (auto simp: frame_ok_def value_st_def frame_ids)
    note o = grammar_obj [OF g t(3) NObj]
    have k: "f_key ?f < length vals" using t(1) NObj o(3) by (simp add: frame_ok_def)
    then have "vals ! f_key ?f \<in> set vals" by simp
    from o(8) [OF this] obtain c where c: "\<not> is_ws c" "advances g j (j_start g ?j (vals ! f_key ?f) c)"
      using start [of "vals ! f_key ?f"] fit by blast
    then have "advances g j (j_struct g j c)" using False t(2,3) st k NObj
      by (simp add: j_struct.simps [of g j] frame_ids Let_def)
    then show ?thesis by blast
  next
    case NOpenObj
    have st: "f_st ?f = OBJ_VAL" using v t(1) NOpenObj by (auto simp: frame_ok_def value_st_def frame_ids)
    have "ht N_ANY < ht (f_node ?f)" using grammar_node [OF g t(3)] NOpenObj by (simp add: node_ok_def)
    then obtain c where "\<not> is_ws c" "advances g j (j_start g ?j N_ANY c)"
      using start [of N_ANY] fit [of N_ANY] grammar_any [OF g] by blast
    then have "advances g j (j_struct g j c)" using False t(2,3) st NOpenObj
      by (simp add: j_struct.simps [of g j] frame_ids Let_def)
    then show ?thesis by blast
  qed (use t(1) in \<open>simp_all add: frame_ok_def\<close>)
qed

section \<open>Every value can be completed\<close>

text \<open>In a well-formed state, the value is complete or some byte brings it closer to its end.\<close>

theorem js_advances:
  assumes g: "grammar_ok ht g" and j: "js_ok g ht j"
  shows "ends g j \<or> (\<exists>c. advances g j (j_step g j c))"
proof (cases "j_sc j")
  case ScNone
  have b: "js_base g ht j" using j by (simp add: js_ok_def)
  have "j_step g j c = j_struct g j c" for c by (simp add: j_step_def ScNone)
  then show ?thesis using value_advances [OF g b _ ScNone] idle_advances [OF g b _ ScNone] by metis
qed (use string_advances [OF g j] key_advances [OF g j] choice_advances [OF g j] num_advances [OF g j] lit_advances [OF g j] in blast)+

theorem js_completes:
  assumes g: "grammar_ok ht g"
  shows "js_ok g ht j \<Longrightarrow> \<exists>bs j'. j_run g j bs = Some j' \<and> js_ok g ht j' \<and> ends g j'"
proof (induction j rule: wf_induct_rule [OF wf_closer [of g]])
  case (1 j)
  show ?case
  proof (cases "ends g j")
    case True
    then show ?thesis using 1(2) by (intro exI [of _ "[]"]) simp
  next
    case False
    then obtain c j' where c: "j_step g j c = Some (ROk, j')" "(j', j) \<in> closer g"
      using js_advances [OF g 1(2)] by (auto simp: advances_def)
    have "js_ok g ht j'" using j_step_ok [OF g 1(2), of c] c(1) by simp
    from 1(1) [OF c(2) this] obtain bs j'' where "j_run g j' bs = Some j''" "js_ok g ht j''" "ends g j''" by blast
    then show ?thesis using c(1) by (intro exI [of _ "c # bs"]) simp
  qed
qed

end
