(* ===== verification/GrammarLive.thy ===== *)
theory GrammarLive
  imports GrammarGate GrammarLiveJson
begin

text \<open>
  The tool grammar has no dead end: from every state inside a call some bytes close the call,
  and with an id for every byte some admitted ids do. The phases are taken backwards, from the
  closing marker to the opening one; the JSON values are those of the previous theory.
\<close>

section \<open>Completing a call by bytes\<close>

definition completes :: "grammar \<Rightarrow> st \<Rightarrow> bool" where
  "completes g s \<longleftrightarrow> (\<exists>bs s'. run_bytes g s bs = Some (Some s') \<and> is_between (s_ph s'))"

lemma completes_between: "is_between (s_ph s) \<Longrightarrow> completes g s"
  unfolding completes_def by (rule exI [of _ "[]"]) simp

lemma completes_step: "step g s b = Some (True, s') \<Longrightarrow> completes g s' \<Longrightarrow> completes g s"
  unfolding completes_def by (elim exE conjE, rule_tac x = "b # bs" in exI) simp

lemma completes_next:
  assumes "completes g s" "\<not> is_between (s_ph s)"
  obtains b s' where "step g s b = Some (True, s')" "completes g s'"
proof -
  from assms(1) obtain bs s' where r: "run_bytes g s bs = Some (Some s')" "is_between (s_ph s')" by (auto simp: completes_def)
  with assms(2) obtain b bs' where "bs = b # bs'" by (cases bs) auto
  with r that show thesis by (auto simp: completes_def split: option.splits prod.splits bool.splits)
qed

text \<open>A phase that ends before the byte completes as the phase it turns into.\<close>

lemma completes_again: "(\<And>b. step g s b = step g s2 b) \<Longrightarrow> completes g s2 \<Longrightarrow> \<not> is_between (s_ph s2) \<Longrightarrow> completes g s"
  by (metis completes_next completes_step)

lemma after_lit_ph [simp]: "after_lit g (s\<lparr>s_ph := p\<rparr>) i = after_lit g s i"
  by (simp add: after_lit_def start_value_def start_pname_def split: option.splits pkind.splits)

lemma lit_completes:
  assumes g: "grammar_ok ht g"
  shows "st_ok g ht s \<Longrightarrow> s_ph s = PhLit i off \<Longrightarrow> (\<And>s'. after_lit g s i = Some s' \<Longrightarrow> st_ok g ht s' \<Longrightarrow> completes g s')
    \<Longrightarrow> completes g s"
proof (induction "length (LITS ! i) - off" arbitrary: s off rule: less_induct)
  case less
  have p: "i < 12" "off < length (LITS ! i)" "lit_needs g s i" "g_markup g = lit_markup i" using less.prems(1,2) by (auto simp: st_ok_def)
  have u: "as_u8 (off + 1) = off + 1" using p(2) lits_lengths [OF p(1)] by simp
  let ?b = "LITS ! i ! off"
  obtain s' where a: "after_lit g s i = Some s'" "st_ok g ht s'" using after_lit_ok [OF g p(1,3,4)] by blast
  show ?case
  proof (cases "off + 1 = length (LITS ! i)")
    case True
    then have "step g s ?b = Some (True, s')" using p u a(1) less.prems(2) by (simp add: step.simps [of g s] length_lits Let_def)
    then show ?thesis using less.prems(3) [OF a] by (rule completes_step)
  next
    case False
    let ?s = "s\<lparr>s_ph := PhLit i (off + 1)\<rparr>"
    have "step g s ?b = Some (True, ?s)"
      using False p u less.prems(2) by (simp add: step.simps [of g s] length_lits Let_def consume_def)
    moreover have "completes g ?s"
    proof (rule less.hyps [of "off + 1"])
      show "st_ok g ht ?s" using False p by (simp add: st_ok_def)
      show "completes g s'" if "after_lit g ?s i = Some s'" "st_ok g ht s'" for s' using less.prems(3) that by simp
    qed (use p(2) in auto)
    ultimately show ?thesis by (rule completes_step)
  qed
qed

section \<open>From the end of a call backwards\<close>

lemma call_close_completes:
  assumes g: "grammar_ok ht g" and s: "st_ok g ht s" "s_ph s = PhLit i off" and i: "i = L_CALL_CLOSE \<or> i = L_G_CALL_CLOSE"
  shows "completes g s"
proof (rule lit_completes [OF g s])
  fix s' assume "after_lit g s i = Some s'"
  then have "s_ph s' = Between 0 0" using i by (auto simp: after_lit_def lit_ids)
  then show "completes g s'" by (simp add: completes_between is_between_def)
qed

lemma fclose_completes:
  assumes g: "grammar_ok ht g" and s: "st_ok g ht s" "s_ph s = PhLit L_FCLOSE off"
  shows "completes g s"
proof (rule lit_completes [OF g s])
  fix s' assume s': "after_lit g s L_FCLOSE = Some s'" "st_ok g ht s'"
  then have "s_ph s' = PhLit L_CALL_CLOSE 0" by (auto simp: after_lit_def lit_ids)
  then show "completes g s'" using call_close_completes [OF g s'(2)] by blast
qed

text \<open>The body of a call may close the function at once.\<close>

lemma body_completes:
  assumes g: "grammar_ok ht g" and s: "st_ok g ht s" "s_ph s = PhBody \<or> s_ph s = BodyLt"
  shows "completes g s"
proof -
  have lt: "completes g s" if "st_ok g ht s" "s_ph s = BodyLt" for s
  proof -
    let ?s = "s\<lparr>s_ph := PhLit L_FCLOSE 2\<rparr>"
    have st: "step g s (CHR ''/'') = Some (True, ?s)" using that by (simp add: step.simps [of g s] consume_def)
    then have "st_ok g ht ?s" using step_ok [OF g that(1), of "CHR ''/''"] by simp
    then show ?thesis using fclose_completes [OF g, of ?s 2] completes_step [OF st] by simp
  qed
  show ?thesis
  proof (cases "s_ph s = BodyLt")
    case False
    then have p: "s_ph s = PhBody" using s(2) by simp
    let ?s = "s\<lparr>s_ph := BodyLt\<rparr>"
    have st: "step g s (CHR ''<'') = Some (True, ?s)" using p by (simp add: step.simps [of g s] consume_def)
    then have "st_ok g ht ?s" using step_ok [OF g s(1), of "CHR ''<''"] by simp
    then show ?thesis using lt [of ?s] completes_step [OF st] by simp
  qed (use lt s in blast)
qed

lemma gbody_completes:
  assumes g: "grammar_ok ht g" and s: "st_ok g ht s" "s_ph s = GBody \<or> s_ph s = GBodyLt"
  shows "completes g s"
proof -
  have lt: "completes g s" if "st_ok g ht s" "s_ph s = GBodyLt" for s
  proof -
    let ?s = "s\<lparr>s_ph := PhLit L_G_CALL_CLOSE 2\<rparr>"
    have st: "step g s (CHR ''/'') = Some (True, ?s)" using that by (simp add: step.simps [of g s] consume_def)
    then have "st_ok g ht ?s" using step_ok [OF g that(1), of "CHR ''/''"] by simp
    then show ?thesis using call_close_completes [OF g, of ?s L_G_CALL_CLOSE 2] completes_step [OF st] by simp
  qed
  show ?thesis
  proof (cases "s_ph s = GBodyLt")
    case False
    then have p: "s_ph s = GBody" using s(2) by simp
    let ?s = "s\<lparr>s_ph := GBodyLt\<rparr>"
    have st: "step g s (CHR ''<'') = Some (True, ?s)" using p by (simp add: step.simps [of g s] consume_def)
    then have "st_ok g ht ?s" using step_ok [OF g s(1), of "CHR ''<''"] by simp
    then show ?thesis using lt [of ?s] completes_step [OF st] by simp
  qed (use lt s in blast)
qed

lemma to_body_completes:
  assumes g: "grammar_ok ht g" and s: "st_ok g ht s" "s_ph s = PhLit i off"
    and i: "i = L_FGT \<or> i = L_PCLOSE \<or> i = L_NL \<or> i = L_G_VCLOSE"
  shows "completes g s"
proof (rule lit_completes [OF g s])
  fix s' assume s': "after_lit g s i = Some s'" "st_ok g ht s'"
  then have "s_ph s' = PhBody \<or> s_ph s' = GBody" using i by (auto simp: after_lit_def lit_ids)
  then show "completes g s'" using body_completes [OF g s'(2)] gbody_completes [OF g s'(2)] by blast
qed

section \<open>Values\<close>

lemma jtail_next:
  assumes g: "grammar_ok ht g" and s: "st_ok g ht s" "s_ph s = JTail ws"
  shows "\<exists>b \<in> {newline, CHR ''<''}. \<exists>s'. step g s b = Some (True, s') \<and> completes g s'"
proof (cases "g_markup g")
  case Qwen
  let ?s = "s\<lparr>s_ph := PhLit L_PCLOSE 1\<rparr>"
  have st: "step g s newline = Some (True, ?s)" using s(2) Qwen by (simp add: step.simps [of g s] newline_def consume_def)
  then have "st_ok g ht ?s" using step_ok [OF g s(1), of newline] by simp
  from to_body_completes [OF g this, of L_PCLOSE 1] st show ?thesis by auto
next
  case Glm
  let ?s = "s\<lparr>s_ph := PhLit L_G_VCLOSE 1\<rparr>"
  have st: "step g s (CHR ''<'') = Some (True, ?s)" using s(2) Glm by (simp add: step.simps [of g s] newline_def consume_def)
  then have "st_ok g ht ?s" using step_ok [OF g s(1), of "CHR ''<''"] by simp
  from to_body_completes [OF g this, of L_G_VCLOSE 1] st show ?thesis by auto
qed

lemma json_run:
  assumes g: "grammar_ok ht g"
  shows "j_run g (s_j s) bs = Some j' \<Longrightarrow> s_ph s = PhJson \<Longrightarrow> completes g (s\<lparr>s_j := j'\<rparr>) \<Longrightarrow> completes g s"
proof (induction bs arbitrary: s)
  case (Cons b bs)
  then obtain j1 where j: "j_step g (s_j s) b = Some (ROk, j1)" "j_run g j1 bs = Some j'"
    by (auto split: option.splits prod.splits jr.splits)
  have st: "step g s b = Some (True, s\<lparr>s_j := j1\<rparr>)" using j(1) Cons.prems(2) by (simp add: step.simps [of g s])
  have "completes g (s\<lparr>s_j := j1\<rparr>)" using Cons.IH [of "s\<lparr>s_j := j1\<rparr>"] j(2) Cons.prems by simp
  with st show ?case by (rule completes_step)
next
  case Nil
  then have "s\<lparr>s_j := j'\<rparr> = s" by (cases s) simp
  with Nil(3) show ?case by simp
qed

lemma json_completes:
  assumes g: "grammar_ok ht g" and s: "st_ok g ht s" "s_ph s = PhJson"
  shows "completes g s"
proof -
  have p: "at_param g s" "js_ok g ht (s_j s)" using s by (auto simp: st_ok_def)
  from js_completes [OF g p(2)] obtain bs j' where j: "j_run g (s_j s) bs = Some j'" "js_ok g ht j'" "ends g j'" by blast
  let ?s = "s\<lparr>s_j := j'\<rparr>" and ?t = "s\<lparr>s_j := js_empty, s_ph := JTail 0\<rparr>"
  have ok: "st_ok g ht ?t" using p(1) by (simp add: st_ok_def)
  have tail: "s_ph ?t = JTail 0" by simp
  from jtail_next [OF g ok tail] obtain b s' where b: "b \<in> {newline, CHR ''<''}" "step g ?t b = Some (True, s')" "completes g s'" by blast
  from b(1) j(3) obtain j2 where "j_step g j' b = Some (RPass, j2)" unfolding ends_def by blast
  then have "step g ?s b = step g ?t b" using s(2) by (simp add: step.simps [of g ?s])
  then have "completes g ?s" using b(2,3) completes_step [of g ?s b s'] by simp
  with j(1) s(2) show ?thesis by (rule json_run [OF g])
qed

text \<open>A raw value: a newline forgets the progress in a closing marker, then the marker is written.\<close>

lemma guard_first:
  assumes "gp < 12"
  shows "guard_step (guard g) gp 0 (guard g ! 0 ! gp) = Some (if gp = 11 then Inl 0 else Inr (gp + 1, 0))"
proof -
  have gs: "length (guard g) = 2" "length (guard g ! 0) = 12" "length (guard g ! 1) = 12" using guard_ok [of g] by auto
  have first: "guard g ! 0 ! 0 = CHR ''<''" "guard g ! 0 ! 1 = CHR ''/''"
    by (simp_all add: guard_def GUARD_def GUARD_GLM_def split: markup.split)
  consider "gp = 0" | "gp = 1" | "gp = 2" | "3 \<le> gp" by linarith
  then show ?thesis
    by cases (use assms gs first in \<open>simp_all add: guard_step_def guard_hit_def guard_restart_def GUARD_LEN_def\<close>)
qed

lemma guard_no_newline: "i < 2 \<Longrightarrow> k < 12 \<Longrightarrow> guard g ! i ! k \<noteq> newline"
proof -
  assume ik: "i < 2" "k < 12"
  have "\<forall>m \<in> set (guard g). newline \<notin> set m" by (simp add: guard_def GUARD_def GUARD_GLM_def newline_def split: markup.split)
  moreover have "guard g ! i \<in> set (guard g)" "guard g ! i ! k \<in> set (guard g ! i)" using guard_ok [of g] ik by auto
  ultimately show ?thesis by metis
qed

lemma guard_newline:
  assumes "gp < 12" "pat < 2"
  shows "guard_step (guard g) gp pat newline = Some (Inr (0, 0))"
proof -
  have gs: "length (guard g) = 2" "length (guard g ! 0) = 12" "length (guard g ! 1) = 12" "length (guard g ! pat) = 12"
    using guard_ok [of g] assms(2) by auto
  note n = guard_no_newline [of _ _ g]
  have c: "newline \<noteq> CHR ''<''" "newline \<noteq> CHR ''/''" by (simp_all add: newline_def)
  have r: "guard_restart newline = Inr (0, 0)" using c by (simp add: guard_restart_def)
  consider "gp = 0" | "gp = 1" | "gp = 2" | "3 \<le> gp" by linarith
  then show ?thesis
  proof cases
    case 3
    then show ?thesis using gs r n [of 0 2] n [of 1 2] by (simp add: guard_step_def guard_hit_def)
  next
    case 4
    then show ?thesis using gs r n [OF assms(2,1)] assms by (simp add: guard_step_def guard_hit_def)
  qed (use c r in \<open>simp_all add: guard_step_def guard_hit_def\<close>)
qed

lemma raw_marker_completes:
  assumes g: "grammar_ok ht g"
  shows "st_ok g ht s \<Longrightarrow> s_ph s = RawStr gp 0 nlb n \<Longrightarrow> gp < 12 \<Longrightarrow> completes g s"
proof (induction "12 - gp" arbitrary: s gp nlb n rule: less_induct)
  case less
  let ?b = "guard g ! 0 ! gp"
  have eq: "step g s ?b = step_raw g s gp 0 nlb n ?b" using less.prems(2) by (simp add: step.simps [of g s])
  note st = step_ok [OF g less.prems(1), of ?b]
  show ?case
  proof (cases "gp = 11")
    case True
    let ?s = "s\<lparr>s_ph := (case g_markup g of Glm \<Rightarrow> GBody | Qwen \<Rightarrow> PhLit L_NL 0)\<rparr>"
    have e: "step g s ?b = Some (True, ?s)" using eq guard_first [OF less.prems(3), of g] True by (simp add: step_raw_def consume_def)
    then have ok: "st_ok g ht ?s" using st by simp
    have "completes g ?s"
    proof (cases "g_markup g")
      case Qwen
      then show ?thesis using to_body_completes [OF g ok, of L_NL 0] by simp
    next
      case Glm
      then show ?thesis using gbody_completes [OF g ok] by simp
    qed
    with e show ?thesis by (rule completes_step)
  next
    case False
    obtain nlb' n' where e: "step g s ?b = Some (True, s\<lparr>s_ph := RawStr (gp + 1) 0 nlb' n'\<rparr>)"
      using eq guard_first [OF less.prems(3), of g] False by (cases "gp = 0") (simp_all add: step_raw_def consume_def)
    then have ok: "st_ok g ht (s\<lparr>s_ph := RawStr (gp + 1) 0 nlb' n'\<rparr>)" using st by simp
    have "completes g (s\<lparr>s_ph := RawStr (gp + 1) 0 nlb' n'\<rparr>)"
      by (rule less.hyps [of "gp + 1", OF _ ok]) (use False less.prems(3) in simp_all)
    with e show ?thesis by (rule completes_step)
  qed
qed

lemma raw_completes:
  assumes g: "grammar_ok ht g" and s: "st_ok g ht s" "s_ph s = RawStr gp pat nlb n"
  shows "completes g s"
proof -
  have p: "gp < 12" "pat < 2" using s by (auto simp: st_ok_def)
  let ?s = "s\<lparr>s_ph := RawStr 0 0 False True\<rparr>"
  have e: "step g s newline = Some (True, ?s)" using guard_newline [OF p, of g] s(2) by (simp add: step.simps [of g s] step_raw_def consume_def)
  then have "st_ok g ht ?s" using step_ok [OF g s(1), of newline] by simp
  from raw_marker_completes [OF g this, of 0 False True] e show ?thesis by (simp add: completes_step)
qed

lemma enum_completes:
  assumes g: "grammar_ok ht g"
  shows "st_ok g ht s \<Longrightarrow> s_ph s = REnum lo hi off \<Longrightarrow> completes g s"
proof (induction "65536 - off" arbitrary: s lo hi off rule: less_induct)
  case less
  have p: "at_param g s" using less.prems by (simp add: st_ok_def)
  have t: "tool_at g s" using p by simp
  note k = cur_kind_ok [OF g p]
  obtain o' w where w: "kinds (cur_tool g s) ! s_param s = PRawEnum o'" "off = length w" "choice_at o' w lo hi"
    using less.prems by (auto simp: st_ok_def)
  have o: "opts_ok 65536 o'" using k(2) [OF w(1)] by simp
  have lh: "lo < hi" using choice_at_bounds [OF w(3)] by blast
  from choice_live [OF opts_sorted [OF o] w(3,2) order_refl lh, where alive = "\<lambda>_. True"]
  consider b a z where "choice_step o' lo hi off b (\<lambda>_. True) = Some (ChCont a z)" "choice_at o' (w @ [b]) a z"
    | "\<forall>b. choice_step o' lo hi off b (\<lambda>_. True) = Some (ChDone lo)" by blast
  then show ?case
  proof cases
    case c: (1 b a z)
    have u: "off + 1 < 65536" using opts_cont(3) [OF o c(2)] w(2) by simp
    let ?s = "s\<lparr>s_ph := REnum (as_u16 a) (as_u16 z) (off + 1)\<rparr>"
    have e: "step g s b = Some (True, ?s)"
      using c(1) less.prems(2) tool_idx [OF t] k(1) w(1) u by (simp add: step.simps [of g s] consume_def)
    then have "st_ok g ht ?s" using step_ok [OF g less.prems(1), of b] by simp
    then have "completes g ?s" using less.hyps [of "off + 1" ?s "as_u16 a" "as_u16 z"] u by simp
    with e show ?thesis by (rule completes_step)
  next
    case c: 2
    let ?s = "s\<lparr>s_ph := (case g_markup g of Qwen \<Rightarrow> PhLit L_PCLOSE 0 | Glm \<Rightarrow> PhLit L_G_VCLOSE 0)\<rparr>"
    have again: "step g s b = step g ?s b" for b
      using c less.prems(2) tool_idx [OF t] k(1) w(1) by (simp add: step.simps [of g s])
    have ok: "st_ok g ht ?s" using t by (auto simp: st_ok_def lit_ids lit_needs_def lit_markup_def LITS_def split: markup.split)
    have "completes g ?s"
    proof (cases "g_markup g")
      case Qwen
      then show ?thesis using to_body_completes [OF g ok, of L_PCLOSE 0] by simp
    next
      case Glm
      then show ?thesis using to_body_completes [OF g ok, of L_G_VCLOSE 0] by simp
    qed
    then show ?thesis by (rule completes_again [OF again]) (simp add: is_between_def split: markup.split)
  qed
qed

text \<open>The literal before a value, then the value of the parameter's kind.\<close>

lemma value_completes:
  assumes g: "grammar_ok ht g" and s: "st_ok g ht s" "s_ph s = PhLit i off" and i: "i = L_PGT \<or> i = L_G_KV"
  shows "completes g s"
proof (rule lit_completes [OF g s])
  fix s' assume s': "after_lit g s i = Some s'" "st_ok g ht s'"
  from s'(1) i have "start_value g s = Some s'" by (auto simp: after_lit_def lit_ids)
  then have "(\<exists>gp pat nlb n. s_ph s' = RawStr gp pat nlb n) \<or> (\<exists>lo hi off. s_ph s' = REnum lo hi off) \<or> s_ph s' = PhJson"
    by (auto simp: start_value_def split: option.splits pkind.splits)
  then show "completes g s'"
    using raw_completes [OF g s'(2)] enum_completes [OF g s'(2)] json_completes [OF g s'(2)] by blast
qed

section \<open>Names\<close>

lemma pname_completes:
  assumes g: "grammar_ok ht g"
  shows "st_ok g ht s \<Longrightarrow> s_ph s = PName lo hi off \<Longrightarrow> completes g s"
proof (induction "256 - off" arbitrary: s lo hi off rule: less_induct)
  case less
  let ?alive = "\<lambda>i. s_seen s AND push_bit i 1 = 0"
  have t: "tool_at g s" using less.prems by (simp add: st_ok_def)
  note o = cur_tool_ok [OF g t]
  obtain w k where w: "off = length w" "choice_at (pnames (cur_tool g s)) w lo hi" "lo \<le> k" "k < hi" "?alive k"
    using less.prems by (auto simp: st_ok_def)
  from choice_live [OF opts_sorted [OF o(1)] w(2,1,3,4), where alive = ?alive] w(5) o(3)
  consider b a z where "choice_step (pnames (cur_tool g s)) lo hi off b ?alive = Some (ChCont a z)" "choice_at (pnames (cur_tool g s)) (w @ [b]) a z"
    | "\<forall>b. choice_step (pnames (cur_tool g s)) lo hi off b ?alive = Some (ChDone lo)" "lo < length (pnames (cur_tool g s))" by blast
  then show ?case
  proof cases
    case c: (1 b a z)
    have u: "off + 1 < 256" using opts_cont(3) [OF o(1) c(2)] w(1) by simp
    let ?s = "s\<lparr>s_ph := PName (as_u16 a) (as_u16 z) (off + 1)\<rparr>"
    have e: "step g s b = Some (True, ?s)"
      using c(1) less.prems(2) tool_idx [OF t] u by (simp add: step.simps [of g s] consume_def)
    then have "st_ok g ht ?s" using step_ok [OF g less.prems(1), of b] by simp
    then have "completes g ?s" using less.hyps [of "off + 1" ?s "as_u16 a" "as_u16 z"] u by simp
    with e show ?thesis by (rule completes_step)
  next
    case c: 2
    let ?s = "s\<lparr>s_param := as_u16 lo, s_seen := s_seen s OR push_bit lo 1,
      s_ph := (case g_markup g of Qwen \<Rightarrow> PhLit L_PGT 0 | Glm \<Rightarrow> PhLit L_G_KV 0)\<rparr>"
    have again: "step g s b = step g ?s b" for b
      using c(1) less.prems(2) tool_idx [OF t] by (simp add: step.simps [of g s])
    have ok: "st_ok g ht ?s" by (rule pname_done_ok [OF t o(2) c(2)])
    have "completes g ?s"
    proof (cases "g_markup g")
      case Qwen
      then show ?thesis using value_completes [OF g ok, of L_PGT 0] by simp
    next
      case Glm
      then show ?thesis using value_completes [OF g ok, of L_G_KV 0] by simp
    qed
    then show ?thesis by (rule completes_again [OF again]) (simp add: is_between_def split: markup.split)
  qed
qed

lemma key_completes:
  assumes g: "grammar_ok ht g" and s: "st_ok g ht s" "s_ph s = PhLit i off" and i: "i = L_PARAM \<or> i = L_G_KEY"
  shows "completes g s"
proof (rule lit_completes [OF g s])
  fix s' assume s': "after_lit g s i = Some s'" "st_ok g ht s'"
  then have "start_pname g s = Some s'" using i by (auto simp: after_lit_def lit_ids)
  then obtain hi where "s_ph s' = PName 0 hi 0" by (auto simp: start_pname_def)
  then show "completes g s'" using pname_completes [OF g s'(2)] by blast
qed

lemma fname_completes:
  assumes g: "grammar_ok ht g"
  shows "st_ok g ht s \<Longrightarrow> s_ph s = FName lo hi off \<Longrightarrow> completes g s"
proof (induction "256 - off" arbitrary: s lo hi off rule: less_induct)
  case less
  have o: "opts_ok 256 (g_names g)" using g by (simp add: grammar_ok_def)
  obtain w where w: "off = length w" "choice_at (g_names g) w lo hi" using less.prems by (auto simp: st_ok_def)
  have lh: "lo < hi" using choice_at_bounds [OF w(2)] by blast
  from choice_live [OF opts_sorted [OF o] w(2,1) order_refl lh, where alive = "\<lambda>_. True"]
  consider b a z where "choice_step (g_names g) lo hi off b (\<lambda>_. True) = Some (ChCont a z)" "choice_at (g_names g) (w @ [b]) a z"
    | "\<forall>b. choice_step (g_names g) lo hi off b (\<lambda>_. True) = Some (ChDone lo)" "lo < length (g_names g)" by blast
  then show ?case
  proof cases
    case c: (1 b a z)
    have u: "off + 1 < 256" using opts_cont(3) [OF o c(2)] w(1) by simp
    let ?s = "s\<lparr>s_ph := FName (as_u16 a) (as_u16 z) (off + 1)\<rparr>"
    have e: "step g s b = Some (True, ?s)" using c(1) less.prems(2) u by (simp add: step.simps [of g s] consume_def)
    then have "st_ok g ht ?s" using step_ok [OF g less.prems(1), of b] by simp
    then have "completes g ?s" using less.hyps [of "off + 1" ?s "as_u16 a" "as_u16 z"] u by simp
    with e show ?thesis by (rule completes_step)
  next
    case c: 2
    let ?s = "s\<lparr>s_tool := as_u16 lo, s_seen := 0, s_ph := (case g_markup g of Qwen \<Rightarrow> PhLit L_FGT 0 | Glm \<Rightarrow> GBody)\<rparr>"
    have again: "step g s b = step g ?s b" for b using c(1) less.prems(2) by (simp add: step.simps [of g s])
    have ok: "st_ok g ht ?s" by (rule fname_done_ok [OF g c(2)])
    have "completes g ?s"
    proof (cases "g_markup g")
      case Qwen
      then show ?thesis using to_body_completes [OF g ok, of L_FGT 0] by simp
    next
      case Glm
      then show ?thesis using gbody_completes [OF g ok] by simp
    qed
    then show ?thesis by (rule completes_again [OF again]) (simp add: is_between_def split: markup.split)
  qed
qed

lemma open_completes:
  assumes g: "grammar_ok ht g" and s: "st_ok g ht s" "s_ph s = PhLit L_OPEN off"
  shows "completes g s"
proof (rule lit_completes [OF g s])
  fix s' assume s': "after_lit g s L_OPEN = Some s'" "st_ok g ht s'"
  then obtain hi where "s_ph s' = FName 0 hi 0" by (auto simp: after_lit_def)
  then show "completes g s'" using fname_completes [OF g s'(2)] by blast
qed

section \<open>No dead end\<close>

lemma call_completes:
  assumes g: "grammar_ok ht g" and s: "st_ok g ht s" "in_call s"
  shows "completes g s"
proof (cases "s_ph s")
  case (PhLit i off)
  then have "i < 12" using s(1) by (simp add: st_ok_def)
  from lit_cases [OF this] show ?thesis
    using PhLit open_completes [OF g s(1)] to_body_completes [OF g s(1)] key_completes [OF g s(1)] value_completes [OF g s(1)]
      fclose_completes [OF g s(1)] call_close_completes [OF g s(1)] by blast
next
  case (JTail ws)
  from jtail_next [OF g s(1) JTail] show ?thesis using completes_step by blast
next
  case (Between ws nls)
  then show ?thesis by (simp add: completes_between is_between_def)
next
  case Idle
  then show ?thesis using s(2) by (simp add: in_call_def)
qed (use fname_completes [OF g s(1)] body_completes [OF g s(1)] pname_completes [OF g s(1)] raw_completes [OF g s(1)]
    enum_completes [OF g s(1)] json_completes [OF g s(1)] gbody_completes [OF g s(1)] in blast)+

section \<open>Completing a call by ids\<close>

text \<open>Ids accepted one after the other; \<open>None\<close> as soon as one is refused.\<close>

fun keep_ids :: "nat list \<Rightarrow> gate \<Rightarrow> gate option" where
  "keep_ids [] gt = Some gt"
| "keep_ids (i # ids) gt = (case gate_accept i gt of Some (True, gt') \<Rightarrow> keep_ids ids gt' | _ \<Rightarrow> None)"

text \<open>Every byte is an id of its own, as in a byte-level vocabulary.\<close>

definition bytes_have_ids :: "vocab \<Rightarrow> bool" where
  "bytes_have_ids v \<longleftrightarrow> (\<forall>b. \<exists>i < v_n v. i \<notin> set (v_eos v) \<and> i \<noteq> v_open v \<and> \<not> v_by_id_only v ! i \<and> id_bytes v i = [b])"

lemma run_idle: "s_ph s = Idle \<Longrightarrow> run_bytes g s bs = Some (Some s)"
  by (induction bs) (simp_all add: step.simps [of g s])

lemma bytes_to_ids:
  assumes v: "bytes_have_ids (gt_v gt)"
  shows "run_bytes (gt_g gt) (gt_st gt) bs = Some (Some s') \<Longrightarrow> is_between (s_ph s') \<Longrightarrow> \<not> gt_off gt
    \<Longrightarrow> \<exists>ids gt'. keep_ids ids gt = Some gt' \<and> \<not> gt_off gt' \<and> is_between (s_ph (gt_st gt'))"
  using v
proof (induction bs arbitrary: gt)
  case Nil
  then show ?case by (intro exI [of _ "[]"] exI [of _ gt]) simp
next
  case (Cons b bs)
  have n: "s_ph (gt_st gt) \<noteq> Idle" using run_idle [of "gt_st gt" "gt_g gt" "b # bs"] Cons.prems(1,2) by (auto simp: is_between_def)
  obtain i where i: "i < v_n (gt_v gt)" "i \<notin> set (v_eos (gt_v gt))" "i \<noteq> v_open (gt_v gt)" "\<not> v_by_id_only (gt_v gt) ! i"
    "id_bytes (gt_v gt) i = [b]" using Cons.prems(4) unfolding bytes_have_ids_def by blast
  obtain s1 where s1: "step (gt_g gt) (gt_st gt) b = Some (True, s1)" "run_bytes (gt_g gt) s1 bs = Some (Some s')"
    using Cons.prems(1) by (auto split: option.splits prod.splits bool.splits)
  have a: "accept_id (gt_v gt) (gt_g gt) (gt_st gt) i = Some (True, s1)"
    using i n s1(1) by (simp add: accept_id_def token_ok_def)
  then obtain gt1 where g1: "gate_accept i gt = Some (True, gt1)" "gt_st gt1 = s1" "gt_g gt1 = gt_g gt" "gt_v gt1 = gt_v gt" "\<not> gt_off gt1"
    using Cons.prems(3) by (simp add: gate_accept_def)
  from Cons.IH [of gt1] g1 s1(2) Cons.prems obtain ids gt' where
    "keep_ids ids gt1 = Some gt'" "\<not> gt_off gt'" "is_between (s_ph (gt_st gt'))" by auto
  then show ?case using g1(1) by (intro exI [of _ "i # ids"] exI [of _ gt']) simp
qed

lemma gate_accept_fields: "gate_accept i gt = Some (k, gt') \<Longrightarrow> gt_g gt' = gt_g gt \<and> gt_v gt' = gt_v gt"
  by (auto simp: gate_accept_def split: if_splits option.splits prod.splits bool.splits)

lemma gate_reach_fields: "gate_reach g v gt \<Longrightarrow> gt_g gt = g \<and> gt_v gt = v"
  by (induction rule: gate_reach.induct)
    (auto simp: gate_new_def check_def gate_mask_def Let_def gate_accept_fields split: option.splits dest: gate_accept_fields)

text \<open>C14: a call the model has opened can always be closed by ids the gate admits: over every
  grammar the code builds and every vocabulary in which each byte is an id of its own, from every
  state a request can reach inside a call some sequence of ids, each admitted by the check and
  kept, ends after the closing marker, where the end of generation is admitted.\<close>

theorem gate_can_close_call:
  assumes "built_grammar g" "built_vocab v" "bytes_have_ids v" "gate_reach g v gt" "\<not> gt_off gt" "in_call (gt_st gt)"
  shows "\<exists>ids gt'. keep_ids ids gt = Some gt' \<and> \<not> gt_off gt' \<and> eos_ok g (gt_st gt')"
proof -
  have f: "gt_g gt = g" "gt_v gt = v" using gate_reach_fields [OF assms(4)] by auto
  have "gate_inv gt" using gate_reach_inv assms by blast
  then obtain ht where g: "grammar_ok ht g" "st_ok g ht (gt_st gt)" using f by (auto simp: gate_inv_def)
  from call_completes [OF g assms(6)] obtain bs s' where b: "run_bytes (gt_g gt) (gt_st gt) bs = Some (Some s')" "is_between (s_ph s')"
    unfolding completes_def f by blast
  have "bytes_have_ids (gt_v gt)" using assms(3) f by simp
  from bytes_to_ids [OF this b assms(5)] show ?thesis by (force simp: eos_ok_def is_between_def split: ph.splits)
qed

section \<open>A byte-level vocabulary\<close>

definition byte_bytes :: "nat \<Rightarrow> str" where
  "byte_bytes i = (if i < 256 then [char_of i] else [])"

definition byte_vocab :: vocab where
  "byte_vocab = build_vocab 258 byte_bytes (\<lambda>_. False) [257] 256"

lemma byte_vocab_small: "vocab_small 258 byte_bytes"
proof -
  have len: "length (byte_bytes i) \<le> 1" for i by (simp add: byte_bytes_def)
  have total: "sum_list (map (length \<circ> byte_bytes) xs) \<le> length xs" for xs
  proof (induction xs)
    case (Cons i xs)
    then show ?case using len [of i] by simp
  qed simp
  have "length (byte_bytes i) < 65536" for i using len [of i] by linarith
  then show ?thesis using total [of "[0..<258]"] by (simp add: vocab_small_def)
qed

lemma byte_vocab_built: "built_vocab byte_vocab"
  unfolding built_vocab_def byte_vocab_def using byte_vocab_small
  by (intro exI [of _ 258] exI [of _ byte_bytes] exI [of _ "\<lambda>_. False"] exI [of _ "[257]"] exI [of _ 256]) simp

lemma byte_vocab_fields: "v_n byte_vocab = 258" "v_eos byte_vocab = [257]" "v_open byte_vocab = 256"
  using build_vocab_spec(1-3) [OF byte_vocab_small, of byte_vocab "\<lambda>_. False" "[257]" 256] by (simp_all add: byte_vocab_def)

lemma byte_vocab_bytes: "bytes_have_ids byte_vocab"
  unfolding bytes_have_ids_def byte_vocab_fields
proof
  fix b :: char
  let ?i = "of_char b :: nat"
  have i: "?i < 256" by simp
  note sp = build_vocab_spec [OF byte_vocab_small, of byte_vocab "\<lambda>_. False" "[257]" 256]
  have l: "?i < 258" "?i \<noteq> 257" "?i \<noteq> 256" using i by linarith+
  have "id_bytes byte_vocab ?i = [b]" using sp(4) [OF _ l(1)] i by (simp add: byte_vocab_def byte_bytes_def)
  moreover have "\<not> v_by_id_only byte_vocab ! ?i" using sp(5) [OF _ l(1)] i l by (simp add: byte_vocab_def by_bytes_def byte_bytes_def)
  ultimately show "\<exists>i<258. i \<notin> set [257] \<and> i \<noteq> 256 \<and> \<not> v_by_id_only byte_vocab ! i \<and> id_bytes byte_vocab i = [b]"
    using l by (intro exI [of _ ?i]) simp
qed

definition opened_gate :: gate where
  "opened_gate = (gate_new demo_grammar byte_vocab)\<lparr>gt_st := open_state demo_grammar\<rparr>"

lemma opened_gate_reach: "gate_reach demo_grammar byte_vocab opened_gate"
proof -
  have "gate_accept 256 (gate_new demo_grammar byte_vocab) = Some (True, opened_gate)"
    by (simp add: gate_accept_def gate_new_def opened_gate_def accept_id_def token_ok_def byte_vocab_fields open_ok_def
        st_idle_def is_between_def)
  from reach_accept [OF reach_new this] show ?thesis .
qed

theorem gate_can_close_call_witness:
  "\<exists>ids gt'. keep_ids ids opened_gate = Some gt' \<and> \<not> gt_off gt' \<and> eos_ok demo_grammar (gt_st gt')"
proof (rule gate_can_close_call [OF demo_grammar_built byte_vocab_built byte_vocab_bytes opened_gate_reach])
  show "\<not> gt_off opened_gate" by (simp add: opened_gate_def gate_new_def)
  show "in_call (gt_st opened_gate)" by (simp add: opened_gate_def open_state_def in_call_def demo_grammar_def)
qed

end
