(* ===== verification/NvmePool.thy ===== *)
theory NvmePool
  imports Prelude "HOL-Library.Multiset"
begin

text \<open>
  The piece pool of the NVMe expert tier (\<open>engine/src/nvme_source.rs\<close>): a fetch is split into
  pieces, worker threads read them from two queues, the last piece of a record publishes the
  record, the last record of a fetch completes its ticket. A worker is its program counter; a
  step is what it does under one lock or with one atomic operation, so every interleaving of the
  threads is a sequence of steps. A destination is named by its record and part: the caller's
  contract makes destinations disjoint until the ticket is waited on.
\<close>

section \<open>Records and requests\<close>

definition ALIGN :: nat where "ALIGN = 4096"
definition MAX_IN_FLIGHT :: nat where "MAX_IN_FLIGHT = 8"
definition USIZE_MAX :: nat where "USIZE_MAX = 2 ^ 64 - 1"

datatype codec = Nvfp4 | Mul1

definition sanitizes_scales :: "codec \<Rightarrow> bool" where
  "sanitizes_scales c \<longleftrightarrow> c = Nvfp4"

record file_span =
  sp_off :: nat
  sp_len :: nat

datatype record_layout = TwoSlabs | OneUnit

record expert_record =
  er_layer :: nat
  er_id :: nat
  er_gu :: file_span
  er_dn :: file_span
  er_codec :: codec
  er_layout :: record_layout

text \<open>The destination addresses; their alignment is checked.\<close>

record record_dst =
  rd_gu :: nat
  rd_dn :: nat

definition parts :: "expert_record \<Rightarrow> file_span list" where
  "parts r = (case er_layout r of TwoSlabs \<Rightarrow> [er_gu r, er_dn r] | OneUnit \<Rightarrow> [er_gu r])"

definition parts_at :: "expert_record \<Rightarrow> record_dst \<Rightarrow> (file_span \<times> nat) list" where
  "parts_at r d = (case er_layout r of TwoSlabs \<Rightarrow> [(er_gu r, rd_gu d), (er_dn r, rd_dn d)] | OneUnit \<Rightarrow> [(er_gu r, rd_gu d)])"

datatype fetch_refusal = FlagCount | TooManyRecords | EmptySpan | OffsetUnaligned | LengthUnaligned | LengthTooLong | DestinationUnaligned

definition part_refusal :: "file_span \<times> nat \<Rightarrow> fetch_refusal option" where
  "part_refusal x = (case x of (s, p) \<Rightarrow>
     if sp_len s = 0 then Some EmptySpan
     else if \<not> ALIGN dvd sp_off s then Some OffsetUnaligned
     else if \<not> ALIGN dvd sp_len s then Some LengthUnaligned
     else if sp_len s > 2 ^ 32 - 1 then Some LengthTooLong
     else if p = 0 \<or> \<not> ALIGN dvd p then Some DestinationUnaligned
     else None)"

definition alignment_refusal :: "expert_record \<Rightarrow> record_dst \<Rightarrow> fetch_refusal option" where
  "alignment_refusal r d = (case List.map_filter part_refusal (parts_at r d) of [] \<Rightarrow> None | e # _ \<Rightarrow> Some e)"

text \<open>\<open>residency::sanitize_sf_slab\<close>: the four scale bytes of every whole block of 36, and how many changed.\<close>

definition clamp_block :: "u8 list \<Rightarrow> u8 list" where
  "clamp_block blk = map (\<lambda>b. if b = 0x7F then 0x7E else b) (take 4 blk) @ drop 4 blk"

function sanitize_sf_slab :: "u8 list \<Rightarrow> u8 list \<times> nat" where
  "sanitize_sf_slab raw = (if length raw < 36 then (raw, 0)
     else let (rest, n) = sanitize_sf_slab (drop 36 raw) in
       (clamp_block (take 36 raw) @ rest, length (filter (\<lambda>b. b = 0x7F) (take 4 raw)) + n))"
  by pat_completeness auto
termination by (relation "measure length") auto

declare sanitize_sf_slab.simps [simp del]

lemma sanitize_length [simp]: "length (fst (sanitize_sf_slab raw)) = length raw"
proof (induction raw rule: sanitize_sf_slab.induct)
  case (1 raw)
  then show ?case by (subst sanitize_sf_slab.simps) (auto simp: clamp_block_def split: prod.split)
qed

section \<open>The state of the pool\<close>

record job =
  jb_rec :: expert_record
  jb_landed :: "(nat \<times> u64) option"

record report =
  rp_records :: nat
  rp_bytes :: nat
  rp_clamped :: nat

definition no_report :: report where
  "no_report = \<lparr>rp_records = 0, rp_bytes = 0, rp_clamped = 0\<rparr>"

datatype read_error = IoError | ShortRead

text \<open>\<open>PoolFetch\<close>; a reply is sent at most once.\<close>

record pool_fetch =
  pf_left :: nat
  pf_sum :: report
  pf_err :: "read_error option"
  pf_reply :: "(read_error + report) option"

record pool_record =
  pr_job :: job
  pr_left :: nat
  pr_bytes :: nat
  pr_err :: "read_error option"
  pr_fetch :: nat

record piece =
  pc_rec :: nat
  pc_part :: nat
  pc_at :: nat
  pc_off :: nat
  pc_len :: nat

text \<open>
  Where a worker is: at the top of its loop, waiting on the condition variable, inside
  \<open>read_piece\<close> with so many bytes read, after a \<open>Prefetch\<close> piece, before the count of the record,
  in the two halves of \<open>finish_record\<close>, returned.
\<close>

datatype worker = AtTop | Waiting | Reading piece bool nat | LowDone piece | CountDown piece
  | Finishing nat | Replying nat | Gone

record nvme_pool =
  np_hi :: "piece list"
  np_lo :: "piece list"
  np_closed :: bool
  np_lo_running :: nat
  np_lo_max :: nat
  np_piece :: nat
  np_recs :: "pool_record list"
  np_fetches :: "pool_fetch list"
  np_submitted :: nat
  np_in_flight :: nat
  np_mem :: "nat \<Rightarrow> nat \<Rightarrow> nat \<Rightarrow> u8"
  np_flags :: "(nat \<times> u64) list"
  np_workers :: "worker list"

record pool_config =
  cf_threads :: nat
  cf_piece :: nat

definition POOL_THREADS_MAX :: nat where "POOL_THREADS_MAX = 256"
definition POOL_PIECE_KB_MAX :: nat where "POOL_PIECE_KB_MAX = 64 * 1024"

definition config_ok :: "pool_config \<Rightarrow> bool" where
  "config_ok c \<longleftrightarrow> \<not> (cf_threads c = 0 \<or> cf_threads c > POOL_THREADS_MAX)
     \<and> \<not> (cf_piece c = 0 \<or> \<not> ALIGN dvd cf_piece c \<or> cf_piece c > POOL_PIECE_KB_MAX * 1024)"

text \<open>\<open>Pool::open\<close>; the memory of the process before is the last argument.\<close>

definition pool_open :: "pool_config \<Rightarrow> (nat \<Rightarrow> nat \<Rightarrow> nat \<Rightarrow> u8) \<Rightarrow> nvme_pool option" where
  "pool_open c mem = (if config_ok c then Some \<lparr>np_hi = [], np_lo = [], np_closed = False, np_lo_running = 0,
     np_lo_max = USIZE_MAX, np_piece = cf_piece c, np_recs = [], np_fetches = [], np_submitted = 0, np_in_flight = 0,
     np_mem = mem, np_flags = [], np_workers = replicate (cf_threads c) AtTop\<rparr> else None)"

section \<open>The caller's operations\<close>

definition wake :: "worker \<Rightarrow> worker" where
  "wake w = (if w = Waiting then AtTop else w)"

definition notify_all :: "nvme_pool \<Rightarrow> nvme_pool" where
  "notify_all s = s\<lparr>np_workers := map wake (np_workers s)\<rparr>"

text \<open>The loop of \<open>submit\<close> over one part; a piece size of 0 is refused when the pool opens.\<close>

function split_part :: "nat \<Rightarrow> nat \<Rightarrow> nat \<Rightarrow> file_span \<Rightarrow> nat \<Rightarrow> piece list" where
  "split_part piece r k s pos = (if pos < sp_len s \<and> 0 < piece
     then let l = min piece (sp_len s - pos) in
       \<lparr>pc_rec = r, pc_part = k, pc_at = pos, pc_off = sp_off s + pos, pc_len = l\<rparr> # split_part piece r k s (pos + l)
     else [])"
  by pat_completeness auto
termination by (relation "measure (\<lambda>(piece, r, k, s, pos). sp_len s - pos)") auto

declare split_part.simps [simp del]

definition div_ceil :: "nat \<Rightarrow> nat \<Rightarrow> nat" where
  "div_ceil n d = n div d + (if n mod d > 0 then 1 else 0)"

definition record_pieces :: "nat \<Rightarrow> nat \<Rightarrow> expert_record \<Rightarrow> piece list" where
  "record_pieces piece r rec = concat (map (\<lambda>k. split_part piece r k (parts rec ! k) 0) [0..<length (parts rec)])"

definition pool_record_new :: "nat \<Rightarrow> nat \<Rightarrow> job \<Rightarrow> pool_record" where
  "pool_record_new piece f j = \<lparr>pr_job = j, pr_left = sum_list (map (\<lambda>s. div_ceil (sp_len s) piece) (parts (jb_rec j))),
     pr_bytes = 0, pr_err = None, pr_fetch = f\<rparr>"

datatype priority = Demand | Prefetch

definition pool_submit :: "job list \<Rightarrow> priority \<Rightarrow> nvme_pool \<Rightarrow> nat option \<times> nvme_pool" where
  "pool_submit jobs prio s = (if jobs = [] then (None, s) else
     (let f = length (np_fetches s); base = length (np_recs s);
          new = concat (map (\<lambda>k. record_pieces (np_piece s) (base + k) (jb_rec (jobs ! k))) [0..<length jobs]);
          s1 = s\<lparr>np_fetches := np_fetches s @ [\<lparr>pf_left = length jobs, pf_sum = no_report, pf_err = None, pf_reply = None\<rparr>],
                 np_recs := np_recs s @ map (pool_record_new (np_piece s) f) jobs\<rparr>;
          s2 = (case prio of Demand \<Rightarrow> s1\<lparr>np_hi := np_hi s1 @ new\<rparr> | Prefetch \<Rightarrow> s1\<lparr>np_lo := np_lo s1 @ new\<rparr>)
      in (Some f, notify_all s2)))"

definition fetch_prio :: "(expert_record \<times> record_dst) list \<Rightarrow> (nat \<times> u64) list option \<Rightarrow> priority \<Rightarrow> nvme_pool
    \<Rightarrow> fetch_refusal + (nat option \<times> nvme_pool)" where
  "fetch_prio jobs landed prio s = (if (case landed of Some l \<Rightarrow> length l \<noteq> length jobs | None \<Rightarrow> False) then Inl FlagCount
     else if length jobs > MAX_IN_FLIGHT then Inl TooManyRecords
     else case List.map_filter (\<lambda>(r, d). alignment_refusal r d) jobs of
       e # _ \<Rightarrow> Inl e
     | [] \<Rightarrow> Inr (pool_submit (map (\<lambda>k. \<lparr>jb_rec = fst (jobs ! k), jb_landed = map_option (\<lambda>l. l ! k) landed\<rparr>) [0..<length jobs]) prio
         (s\<lparr>np_submitted := np_submitted s + length jobs, np_in_flight := np_in_flight s + length jobs\<rparr>)))"

definition set_lanes :: "nat \<Rightarrow> nvme_pool \<Rightarrow> nvme_pool" where
  "set_lanes m s = notify_all (s\<lparr>np_lo_max := max m 1\<rparr>)"

definition of_flag :: "nat \<Rightarrow> nvme_pool \<Rightarrow> piece \<Rightarrow> bool" where
  "of_flag flag s p \<longleftrightarrow> (case jb_landed (pr_job (np_recs s ! pc_rec p)) of Some l \<Rightarrow> fst l = flag | None \<Rightarrow> False)"

definition pool_promote :: "nat \<Rightarrow> nvme_pool \<Rightarrow> nat \<times> nvme_pool" where
  "pool_promote flag s = (if \<not> list_ex (of_flag flag s) (np_lo s) then (0, s)
     else (let up = filter (of_flag flag s) (np_lo s) in
       (length up, notify_all (s\<lparr>np_lo := filter (\<lambda>p. \<not> of_flag flag s p) (np_lo s), np_hi := np_hi s @ up\<rparr>))))"

text \<open>The first half of \<open>Drop for Pool\<close>; the second half joins the workers.\<close>

definition pool_close :: "nvme_pool \<Rightarrow> nvme_pool" where
  "pool_close s = notify_all (s\<lparr>np_closed := True\<rparr>)"

section \<open>A worker\<close>

definition goto :: "nat \<Rightarrow> worker \<Rightarrow> nvme_pool \<Rightarrow> nvme_pool" where
  "goto i w s = s\<lparr>np_workers := (np_workers s)[i := w]\<rparr>"

text \<open>One turn of the inner loop of \<open>pool_worker\<close>, under the lock.\<close>

definition take_piece :: "nat \<Rightarrow> nvme_pool \<Rightarrow> nvme_pool" where
  "take_piece i s = (case np_hi s of
      p # hi \<Rightarrow> goto i (Reading p False 0) (s\<lparr>np_hi := hi\<rparr>)
    | [] \<Rightarrow> if np_lo_running s < np_lo_max s \<and> np_lo s \<noteq> []
        then goto i (Reading (hd (np_lo s)) True 0) (s\<lparr>np_lo := tl (np_lo s), np_lo_running := np_lo_running s + 1\<rparr>)
        else if np_closed s \<and> np_lo s = [] then goto i Gone s
        else goto i Waiting s)"

text \<open>
  What \<open>read_at\<close> returns: bytes, or an error. An interrupted call changes nothing and is tried
  again, as often as it happens. Bytes that do not fill the piece and are no whole sectors end the loop.
\<close>

datatype read_result = Got "u8 list" | Interrupted | Failed

definition reads :: "u8 list \<Rightarrow> piece \<Rightarrow> nat \<Rightarrow> read_result \<Rightarrow> bool" where
  "reads cnq p n res \<longleftrightarrow> (case res of Failed \<Rightarrow> True | Interrupted \<Rightarrow> True
     | Got bs \<Rightarrow> length bs \<le> pc_len p - n \<and> bs = take (length bs) (drop (pc_off p + n) cnq))"

definition write_mem :: "nat \<Rightarrow> nat \<Rightarrow> nat \<Rightarrow> u8 list \<Rightarrow> nvme_pool \<Rightarrow> nvme_pool" where
  "write_mem r k i bs s = s\<lparr>np_mem := (np_mem s)(r := (np_mem s r)(k := (\<lambda>x. if i \<le> x \<and> x < i + length bs then bs ! (x - i)
     else np_mem s r k x)))\<rparr>"

definition add_bytes :: "nat \<Rightarrow> nat \<Rightarrow> nvme_pool \<Rightarrow> nvme_pool" where
  "add_bytes r n s = s\<lparr>np_recs := (np_recs s)[r := (np_recs s ! r)\<lparr>pr_bytes := pr_bytes (np_recs s ! r) + n\<rparr>]\<rparr>"

definition set_err :: "nat \<Rightarrow> read_error \<Rightarrow> nvme_pool \<Rightarrow> nvme_pool" where
  "set_err r e s = s\<lparr>np_recs := (np_recs s)[r := (np_recs s ! r)\<lparr>pr_err := (case pr_err (np_recs s ! r) of None \<Rightarrow> Some e | x \<Rightarrow> x)\<rparr>]\<rparr>"

definition after_read :: "piece \<Rightarrow> bool \<Rightarrow> worker" where
  "after_read p low = (if low then LowDone p else CountDown p)"

definition read_some :: "nat \<Rightarrow> piece \<Rightarrow> bool \<Rightarrow> nat \<Rightarrow> read_result \<Rightarrow> nvme_pool \<Rightarrow> nvme_pool" where
  "read_some i p low n res s = (case res of
      Interrupted \<Rightarrow> s
    | Failed \<Rightarrow> goto i (after_read p low) (set_err (pc_rec p) IoError s)
    | Got bs \<Rightarrow> (let s1 = write_mem (pc_rec p) (pc_part p) (pc_at p + n) bs s; n' = n + length bs in
        if bs = [] \<or> \<not> ALIGN dvd length bs \<or> pc_len p \<le> n'
        then goto i (after_read p low) (if n' \<noteq> pc_len p then set_err (pc_rec p) ShortRead s1 else add_bytes (pc_rec p) n' s1)
        else goto i (Reading p low n') s1))"

definition low_done :: "nat \<Rightarrow> piece \<Rightarrow> nvme_pool \<Rightarrow> nvme_pool" where
  "low_done i p s = goto i (CountDown p) (s\<lparr>np_lo_running := np_lo_running s - 1\<rparr>)"

definition count_down :: "nat \<Rightarrow> piece \<Rightarrow> nvme_pool \<Rightarrow> nvme_pool" where
  "count_down i p s = (let r = pc_rec p; n = pr_left (np_recs s ! r) in
     goto i (if n = 1 then Finishing r else AtTop) (s\<lparr>np_recs := (np_recs s)[r := (np_recs s ! r)\<lparr>pr_left := n - 1\<rparr>]\<rparr>))"

text \<open>\<open>finish_record\<close>: sanitize, raise the flag, add to the fetch; then the count of the fetch and the reply.\<close>

definition part_bytes :: "(nat \<Rightarrow> u8) \<Rightarrow> file_span \<Rightarrow> u8 list" where
  "part_bytes m s = map m [0..<sp_len s]"

definition sanitize_record :: "nat \<Rightarrow> expert_record \<Rightarrow> nvme_pool \<Rightarrow> nvme_pool \<times> nat" where
  "sanitize_record r rec s = (if \<not> sanitizes_scales (er_codec rec) then (s, 0)
     else (s\<lparr>np_mem := (np_mem s)(r := (\<lambda>k x. if k < length (parts rec) \<and> x < sp_len (parts rec ! k)
              then fst (sanitize_sf_slab (part_bytes (np_mem s r k) (parts rec ! k))) ! x else np_mem s r k x))\<rparr>,
           sum_list (map (\<lambda>k. snd (sanitize_sf_slab (part_bytes (np_mem s r k) (parts rec ! k)))) [0..<length (parts rec)])))"

definition finish_record :: "nat \<Rightarrow> nat \<Rightarrow> nvme_pool \<Rightarrow> nvme_pool" where
  "finish_record i r s = (let x = np_recs s ! r; j = pr_job x; err = pr_err x;
       s0 = s\<lparr>np_recs := (np_recs s)[r := x\<lparr>pr_err := None\<rparr>]\<rparr>;
       (s1, clamped) = (if err = None then sanitize_record r (jb_rec j) s0 else (s0, 0));
       f = np_fetches s ! pr_fetch x;
       f' = f\<lparr>pf_sum := \<lparr>rp_records = rp_records (pf_sum f) + 1, rp_bytes = rp_bytes (pf_sum f) + pr_bytes x,
                rp_clamped = rp_clamped (pf_sum f) + clamped\<rparr>,
              pf_err := (case (err, pf_err f) of (Some e, None) \<Rightarrow> Some e | (_, y) \<Rightarrow> y)\<rparr>
     in goto i (Replying r) (s1\<lparr>np_flags := (case jb_landed j of Some l \<Rightarrow> np_flags s @ [l] | None \<Rightarrow> np_flags s),
          np_in_flight := np_in_flight s - 1, np_fetches := (np_fetches s)[pr_fetch x := f']\<rparr>))"

definition send_reply :: "nat \<Rightarrow> nat \<Rightarrow> nvme_pool \<Rightarrow> nvme_pool" where
  "send_reply i r s = (let k = pr_fetch (np_recs s ! r); f = np_fetches s ! k; n = pf_left f;
       f' = (if n = 1 then f\<lparr>pf_left := n - 1, pf_sum := no_report, pf_err := None,
               pf_reply := (case pf_reply f of None \<Rightarrow> Some (case pf_err f of Some e \<Rightarrow> Inl e | None \<Rightarrow> Inr (pf_sum f)) | y \<Rightarrow> y)\<rparr>
             else f\<lparr>pf_left := n - 1\<rparr>)
     in goto i AtTop (s\<lparr>np_fetches := (np_fetches s)[k := f']\<rparr>))"

section \<open>Runs\<close>

text \<open>
  One step of some worker over the container \<open>cnq\<close>. After a \<open>Prefetch\<close> piece one waiting worker,
  any of them, is notified when more are queued.
\<close>

inductive pool_step :: "u8 list \<Rightarrow> nvme_pool \<Rightarrow> nvme_pool \<Rightarrow> bool" for cnq where
  step_top: "i < length (np_workers s) \<Longrightarrow> np_workers s ! i = AtTop \<Longrightarrow> pool_step cnq s (take_piece i s)"
| step_read: "i < length (np_workers s) \<Longrightarrow> np_workers s ! i = Reading p low n \<Longrightarrow> reads cnq p n res
    \<Longrightarrow> pool_step cnq s (read_some i p low n res s)"
| step_low: "i < length (np_workers s) \<Longrightarrow> np_workers s ! i = LowDone p \<Longrightarrow> np_lo s = [] \<or> Waiting \<notin> set (np_workers s)
    \<Longrightarrow> pool_step cnq s (low_done i p s)"
| step_low_notify: "i < length (np_workers s) \<Longrightarrow> np_workers s ! i = LowDone p \<Longrightarrow> np_lo s \<noteq> []
    \<Longrightarrow> w < length (np_workers s) \<Longrightarrow> np_workers s ! w = Waiting \<Longrightarrow> pool_step cnq s (goto w AtTop (low_done i p s))"
| step_count: "i < length (np_workers s) \<Longrightarrow> np_workers s ! i = CountDown p \<Longrightarrow> pool_step cnq s (count_down i p s)"
| step_finish: "i < length (np_workers s) \<Longrightarrow> np_workers s ! i = Finishing r \<Longrightarrow> pool_step cnq s (finish_record i r s)"
| step_reply: "i < length (np_workers s) \<Longrightarrow> np_workers s ! i = Replying r \<Longrightarrow> pool_step cnq s (send_reply i r s)"

inductive_cases pool_stepE: "pool_step cnq s s'"

text \<open>
  The states of a pool: opened, then any interleaving of its workers' steps, spurious wake-ups
  of the condition variable, and the caller's operations, which end with the close.
\<close>

inductive pool_reach :: "u8 list \<Rightarrow> pool_config \<Rightarrow> nvme_pool \<Rightarrow> bool" for cnq c where
  reach_open: "pool_open c mem = Some s \<Longrightarrow> pool_reach cnq c s"
| reach_fetch: "pool_reach cnq c s \<Longrightarrow> \<not> np_closed s \<Longrightarrow> fetch_prio jobs landed prio s = Inr (t, s') \<Longrightarrow> pool_reach cnq c s'"
| reach_lanes: "pool_reach cnq c s \<Longrightarrow> \<not> np_closed s \<Longrightarrow> pool_reach cnq c (set_lanes m s)"
| reach_promote: "pool_reach cnq c s \<Longrightarrow> \<not> np_closed s \<Longrightarrow> pool_promote flag s = (n, s') \<Longrightarrow> pool_reach cnq c s'"
| reach_close: "pool_reach cnq c s \<Longrightarrow> \<not> np_closed s \<Longrightarrow> pool_reach cnq c (pool_close s)"
| reach_step: "pool_reach cnq c s \<Longrightarrow> pool_step cnq s s' \<Longrightarrow> pool_reach cnq c s'"
| reach_spurious: "pool_reach cnq c s \<Longrightarrow> i < length (np_workers s) \<Longrightarrow> np_workers s ! i = Waiting \<Longrightarrow> pool_reach cnq c (goto i AtTop s)"

end
