(* ===== verification/NvmePoolInv.thy ===== *)
theory NvmePoolInv
  imports NvmePool
begin

text \<open>
  What every state of the piece pool keeps: the counts of records, fetches and workers agree
  with the pieces that are out, the bytes read so far are the bytes of the container, a landed
  record is published, and a reply says what its fetch delivered.
\<close>

section \<open>Pieces of a record\<close>

lemma split_part_pieces:
  "p \<in> set (split_part piece r k s pos) \<Longrightarrow> pc_rec p = r \<and> pc_part p = k \<and> pos \<le> pc_at p \<and> 0 < pc_len p
     \<and> pc_at p + pc_len p \<le> sp_len s \<and> pc_off p = sp_off s + pc_at p"
proof (induction piece r k s pos rule: split_part.induct)
  case (1 piece r k s pos)
  let ?l = "min piece (sp_len s - pos)"
  show ?case
  proof (cases "pos < sp_len s \<and> 0 < piece")
    case True
    then have "p = \<lparr>pc_rec = r, pc_part = k, pc_at = pos, pc_off = sp_off s + pos, pc_len = ?l\<rparr> \<or> p \<in> set (split_part piece r k s (pos + ?l))"
      using 1(2) split_part.simps [of piece r k s pos] by (simp add: Let_def)
    then show ?thesis
    proof
      assume "p \<in> set (split_part piece r k s (pos + ?l))"
      from 1(1) [OF True refl this] show ?thesis by simp
    qed (use True in auto)
  next
    case False
    then show ?thesis using 1(2) split_part.simps [of piece r k s pos] by (simp split: if_splits)
  qed
qed

lemma split_part_cover:
  "0 < piece \<Longrightarrow> pos \<le> x \<Longrightarrow> x < sp_len s \<Longrightarrow> \<exists>p \<in> set (split_part piece r k s pos). pc_at p \<le> x \<and> x < pc_at p + pc_len p"
proof (induction piece r k s pos rule: split_part.induct)
  case (1 piece r k s pos)
  let ?l = "min piece (sp_len s - pos)"
  have t: "pos < sp_len s \<and> 0 < piece" using 1(2-4) by simp
  then have e: "split_part piece r k s pos = \<lparr>pc_rec = r, pc_part = k, pc_at = pos, pc_off = sp_off s + pos, pc_len = ?l\<rparr>
      # split_part piece r k s (pos + ?l)" using split_part.simps [of piece r k s pos] by (simp add: Let_def)
  show ?case
  proof (cases "x < pos + ?l")
    case False
    then have "\<exists>p \<in> set (split_part piece r k s (pos + ?l)). pc_at p \<le> x \<and> x < pc_at p + pc_len p"
      using 1(1) [OF t refl] 1(2,4) by simp
    then show ?thesis using e by auto
  qed (use e 1(3) in auto)
qed

lemma split_part_total: "0 < piece \<Longrightarrow> sum_list (map pc_len (split_part piece r k s pos)) = sp_len s - pos"
proof (induction piece r k s pos rule: split_part.induct)
  case (1 piece r k s pos)
  let ?l = "min piece (sp_len s - pos)"
  show ?case
  proof (cases "pos < sp_len s")
    case True
    then have t: "pos < sp_len s \<and> 0 < piece" using 1(2) by simp
    have e: "split_part piece r k s pos = \<lparr>pc_rec = r, pc_part = k, pc_at = pos, pc_off = sp_off s + pos, pc_len = ?l\<rparr>
        # split_part piece r k s (pos + ?l)" using t split_part.simps [of piece r k s pos] by (simp add: Let_def)
    have "sum_list (map pc_len (split_part piece r k s pos)) = ?l + (sp_len s - (pos + ?l))"
      unfolding e using 1(1) [OF t refl 1(2)] by simp
    also have "\<dots> = sp_len s - pos" using min.cobounded2 [of piece "sp_len s - pos"] by linarith
    finally show ?thesis .
  next
    case False
    then show ?thesis using split_part.simps [of piece r k s pos] by simp
  qed
qed

lemma div_ceil_step: "0 < d \<Longrightarrow> 0 < n \<Longrightarrow> div_ceil n d = Suc (div_ceil (n - d) d)"
proof -
  assume d: "0 < d" "0 < n"
  show ?thesis
  proof (cases "n < d")
    case False
    then obtain m where m: "n = m + d" using le_Suc_ex [of d n] by (metis add.commute not_less)
    then show ?thesis using d by (simp add: div_ceil_def div_add_self2)
  qed (use d in \<open>simp add: div_ceil_def\<close>)
qed

lemma split_part_length: "0 < piece \<Longrightarrow> length (split_part piece r k s pos) = div_ceil (sp_len s - pos) piece"
proof (induction piece r k s pos rule: split_part.induct)
  case (1 piece r k s pos)
  let ?l = "min piece (sp_len s - pos)"
  show ?case
  proof (cases "pos < sp_len s")
    case True
    then have t: "pos < sp_len s \<and> 0 < piece" using 1(2) by simp
    have "length (split_part piece r k s pos) = Suc (div_ceil (sp_len s - (pos + ?l)) piece)"
      using 1(1) [OF t refl 1(2)] t split_part.simps [of piece r k s pos] by (simp add: Let_def)
    moreover have "div_ceil (sp_len s - (pos + ?l)) piece = div_ceil (sp_len s - pos - piece) piece" by (simp add: min_def)
    ultimately show ?thesis using div_ceil_step [of piece "sp_len s - pos"] True 1(2) by simp
  next
    case False
    then show ?thesis using split_part.simps [of piece r k s pos] by (simp add: div_ceil_def)
  qed
qed

lemma record_piece:
  assumes "p \<in> set (record_pieces piece r rec)"
  shows "pc_rec p = r" "pc_part p < length (parts rec)" "0 < pc_len p" "pc_at p + pc_len p \<le> sp_len (parts rec ! pc_part p)"
    "pc_off p = sp_off (parts rec ! pc_part p) + pc_at p"
proof -
  from assms obtain k where k: "k < length (parts rec)" "p \<in> set (split_part piece r k (parts rec ! k) 0)"
    by (auto simp: record_pieces_def)
  from split_part_pieces [OF k(2)] k(1) show "pc_rec p = r" "pc_part p < length (parts rec)" "0 < pc_len p"
    "pc_at p + pc_len p \<le> sp_len (parts rec ! pc_part p)" "pc_off p = sp_off (parts rec ! pc_part p) + pc_at p" by auto
qed

lemma record_pieces_cover:
  assumes "0 < piece" "k < length (parts rec)" "x < sp_len (parts rec ! k)"
  shows "\<exists>p \<in> set (record_pieces piece r rec). pc_part p = k \<and> pc_at p \<le> x \<and> x < pc_at p + pc_len p"
proof -
  from split_part_cover [OF assms(1) _ assms(3), of 0] obtain p where
    p: "p \<in> set (split_part piece r k (parts rec ! k) 0)" "pc_at p \<le> x" "x < pc_at p + pc_len p" by auto
  have "pc_part p = k" using split_part_pieces [OF p(1)] by simp
  then show ?thesis using p assms(2) unfolding record_pieces_def by auto
qed

definition record_bytes :: "expert_record \<Rightarrow> nat" where
  "record_bytes rec = sum_list (map sp_len (parts rec))"

lemma sum_list_nth_upt: "sum_list (map (\<lambda>k. f (xs ! k)) [0..<length xs]) = sum_list (map f xs)"
proof -
  have "map (\<lambda>k. f (xs ! k)) [0..<length xs] = map f (map (nth xs) [0..<length xs])" by (simp add: comp_def)
  then show ?thesis by (simp only: map_nth)
qed

lemma record_pieces_total:
  assumes "0 < piece"
  shows "sum_list (map pc_len (record_pieces piece r rec)) = record_bytes rec"
    "length (record_pieces piece r rec) = sum_list (map (\<lambda>s. div_ceil (sp_len s) piece) (parts rec))"
proof -
  have "sum_list (map pc_len (concat (map f ks))) = sum_list (map (\<lambda>k. sum_list (map pc_len (f k))) ks)" for f :: "nat \<Rightarrow> piece list" and ks
    by (induction ks) auto
  then show "sum_list (map pc_len (record_pieces piece r rec)) = record_bytes rec"
    using split_part_total [OF assms, where pos = 0] sum_list_nth_upt [of sp_len "parts rec"]
    by (simp add: record_pieces_def record_bytes_def)
  show "length (record_pieces piece r rec) = sum_list (map (\<lambda>s. div_ceil (sp_len s) piece) (parts rec))"
    using split_part_length [OF assms, where pos = 0] sum_list_nth_upt [of "\<lambda>s. div_ceil (sp_len s) piece" "parts rec"]
    by (simp add: record_pieces_def length_concat comp_def)
qed

section \<open>Counting over the workers\<close>

text \<open>What the workers hold, as a multiset: a step of one of them replaces its share.\<close>

definition tally :: "(worker \<Rightarrow> 'a list) \<Rightarrow> worker list \<Rightarrow> 'a multiset" where
  "tally f ws = sum_list (map (\<lambda>w. mset (f w)) ws)"

lemma tally_has: "i < length ws \<Longrightarrow> mset (f (ws ! i)) \<subseteq># tally f ws"
proof (induction ws arbitrary: i)
  case (Cons w ws)
  then show ?case by (cases i) (auto simp: tally_def intro: subset_mset.add_increasing)
qed simp

lemma tally_update: "i < length ws \<Longrightarrow> tally f (ws[i := w]) = tally f ws - mset (f (ws ! i)) + mset (f w)"
proof (induction ws arbitrary: i)
  case (Cons v ws)
  show ?case
  proof (cases i)
    case (Suc i')
    then have i': "i' < length ws" using Cons.prems by simp
    have "tally f (ws[i' := w]) = tally f ws - mset (f (ws ! i')) + mset (f w)" by (rule Cons.IH [OF i'])
    then have "tally f ((v # ws)[i := w]) = mset (f v) + (tally f ws - mset (f (ws ! i')) + mset (f w))" using Suc by (simp add: tally_def)
    also have "\<dots> = mset (f v) + tally f ws - mset (f (ws ! i')) + mset (f w)"
      using multiset_diff_union_assoc [OF tally_has [OF i', of f], of "mset (f v)"] by (metis add.assoc)
    finally show ?thesis using Suc by (simp add: tally_def)
  qed (simp add: tally_def)
qed simp

lemma tally_same: "i < length ws \<Longrightarrow> f w = f (ws ! i) \<Longrightarrow> tally f (ws[i := w]) = tally f ws"
  using tally_update [of i ws f w] tally_has [of i ws f] by simp

lemma tally_map_wake: "(\<And>w. f (wake w) = f w) \<Longrightarrow> tally f (map wake ws) = tally f ws"
  by (simp add: tally_def comp_def)

lemma in_tally: "x \<in># tally f ws \<longleftrightarrow> (\<exists>w \<in> set ws. x \<in> set (f w))"
  by (induction ws) (auto simp: tally_def)

lemma tally_replicate [simp]: "f w = [] \<Longrightarrow> tally f (replicate n w) = {#}"
  by (induction n) (simp_all add: tally_def)

definition held :: "worker \<Rightarrow> piece list" where
  "held w = (case w of Reading p _ _ \<Rightarrow> [p] | LowDone p \<Rightarrow> [p] | CountDown p \<Rightarrow> [p] | _ \<Rightarrow> [])"

definition held_unread :: "worker \<Rightarrow> piece list" where
  "held_unread w = (case w of Reading p _ _ \<Rightarrow> [p] | _ \<Rightarrow> [])"

definition progress :: "worker \<Rightarrow> (piece \<times> nat) list" where
  "progress w = (case w of Reading p _ n \<Rightarrow> [(p, n)] | _ \<Rightarrow> [])"

definition lows :: "worker \<Rightarrow> piece list" where
  "lows w = (case w of Reading p low _ \<Rightarrow> if low then [p] else [] | LowDone p \<Rightarrow> [p] | _ \<Rightarrow> [])"

definition finishing :: "worker \<Rightarrow> nat list" where
  "finishing w = (case w of Finishing r \<Rightarrow> [r] | _ \<Rightarrow> [])"

definition replying :: "worker \<Rightarrow> nat list" where
  "replying w = (case w of Replying r \<Rightarrow> [r] | _ \<Rightarrow> [])"

lemmas worker_shares = held_def held_unread_def progress_def lows_def finishing_def replying_def

lemma wake_shares [simp]:
  "held (wake w) = held w" "held_unread (wake w) = held_unread w" "progress (wake w) = progress w" "lows (wake w) = lows w"
  "finishing (wake w) = finishing w" "replying (wake w) = replying w"
  by (auto simp: wake_def worker_shares)

text \<open>The pieces that are out, those not read to the end, and the records between their last piece and their reply.\<close>

definition outstanding :: "nvme_pool \<Rightarrow> piece multiset" where
  "outstanding s = mset (np_hi s) + mset (np_lo s) + tally held (np_workers s)"

definition unread :: "nvme_pool \<Rightarrow> piece multiset" where
  "unread s = mset (np_hi s) + mset (np_lo s) + tally held_unread (np_workers s)"

definition under_way :: "nvme_pool \<Rightarrow> (piece \<times> nat) multiset" where
  "under_way s = tally progress (np_workers s)"

definition low_pieces :: "nvme_pool \<Rightarrow> piece multiset" where
  "low_pieces s = tally lows (np_workers s)"

definition to_finish :: "nvme_pool \<Rightarrow> nat multiset" where
  "to_finish s = tally finishing (np_workers s)"

definition to_reply :: "nvme_pool \<Rightarrow> nat multiset" where
  "to_reply s = tally replying (np_workers s)"

lemmas tallies = outstanding_def unread_def under_way_def low_pieces_def to_finish_def to_reply_def

section \<open>The invariant\<close>

definition rec_of :: "nvme_pool \<Rightarrow> nat \<Rightarrow> expert_record" where
  "rec_of s r = jb_rec (pr_job (np_recs s ! r))"

definition pieces_inv :: "nvme_pool \<Rightarrow> bool" where
  "pieces_inv s \<longleftrightarrow> 0 < np_piece s
     \<and> (\<forall>p \<in># outstanding s. pc_rec p < length (np_recs s) \<and> p \<in> set (record_pieces (np_piece s) (pc_rec p) (rec_of s (pc_rec p))))
     \<and> (\<forall>r < length (np_recs s). pr_left (np_recs s ! r) = size (filter_mset (\<lambda>p. pc_rec p = r) (outstanding s)))
     \<and> (\<forall>(p, n) \<in># under_way s. n < pc_len p)
     \<and> np_lo_running s = size (low_pieces s)"

text \<open>A record has landed once \<open>finish_record\<close> ran, and is booked once its fetch counted it.\<close>

definition landed :: "nvme_pool \<Rightarrow> nat \<Rightarrow> bool" where
  "landed s r \<longleftrightarrow> r < length (np_recs s) \<and> pr_left (np_recs s ! r) = 0 \<and> r \<notin># to_finish s"

definition booked :: "nvme_pool \<Rightarrow> nat \<Rightarrow> bool" where
  "booked s r \<longleftrightarrow> landed s r \<and> r \<notin># to_reply s"

definition records_of :: "nvme_pool \<Rightarrow> nat \<Rightarrow> nat set" where
  "records_of s f = {r. r < length (np_recs s) \<and> pr_fetch (np_recs s ! r) = f}"

definition phase_inv :: "nvme_pool \<Rightarrow> bool" where
  "phase_inv s \<longleftrightarrow> (\<forall>r \<in># to_finish s + to_reply s. r < length (np_recs s) \<and> pr_left (np_recs s ! r) = 0)
     \<and> (\<forall>r. count (to_finish s + to_reply s) r \<le> 1)
     \<and> np_in_flight s = card {r. r < length (np_recs s) \<and> \<not> landed s r}
     \<and> (\<forall>r < length (np_recs s). pr_fetch (np_recs s ! r) < length (np_fetches s))
     \<and> (\<forall>f < length (np_fetches s). pf_left (np_fetches s ! f) = card {r \<in> records_of s f. \<not> booked s r}
          \<and> (pf_left (np_fetches s ! f) = 0 \<longleftrightarrow> pf_reply (np_fetches s ! f) \<noteq> None))
     \<and> set (np_flags s) = {l. \<exists>r. landed s r \<and> jb_landed (pr_job (np_recs s ! r)) = Some l}"

text \<open>What is published for a part: the bytes of the container, clamped for the codecs that need it.\<close>

definition stored :: "u8 list \<Rightarrow> file_span \<Rightarrow> u8 list" where
  "stored cnq sp = take (sp_len sp) (drop (sp_off sp) cnq)"

definition published :: "u8 list \<Rightarrow> expert_record \<Rightarrow> file_span \<Rightarrow> u8 list" where
  "published cnq rec sp = (if sanitizes_scales (er_codec rec) then fst (sanitize_sf_slab (stored cnq sp)) else stored cnq sp)"

definition clamps :: "u8 list \<Rightarrow> expert_record \<Rightarrow> nat" where
  "clamps cnq rec = (if sanitizes_scales (er_codec rec) then sum_list (map (\<lambda>sp. snd (sanitize_sf_slab (stored cnq sp))) (parts rec)) else 0)"

definition fetch_failed :: "pool_fetch \<Rightarrow> bool" where
  "fetch_failed f \<longleftrightarrow> pf_err f \<noteq> None \<or> (\<exists>e. pf_reply f = Some (Inl e))"

text \<open>Byte \<open>x\<close> of part \<open>k\<close> of record \<open>r\<close> is the byte of the container.\<close>

definition byte_read :: "u8 list \<Rightarrow> nvme_pool \<Rightarrow> nat \<Rightarrow> nat \<Rightarrow> nat \<Rightarrow> bool" where
  "byte_read cnq s r k x \<longleftrightarrow> (let off = sp_off (parts (rec_of s r) ! k) in off + x < length cnq \<and> np_mem s r k x = cnq ! (off + x))"

definition record_reading :: "u8 list \<Rightarrow> nvme_pool \<Rightarrow> nat \<Rightarrow> bool" where
  "record_reading cnq s r \<longleftrightarrow>
     (\<forall>p \<in> set (record_pieces (np_piece s) r (rec_of s r)). p \<notin># unread s \<longrightarrow> (\<forall>x < pc_len p. byte_read cnq s r (pc_part p) (pc_at p + x)))
     \<and> (\<forall>(p, n) \<in># under_way s. pc_rec p = r \<longrightarrow> (\<forall>x < n. byte_read cnq s r (pc_part p) (pc_at p + x)))
     \<and> pr_bytes (np_recs s ! r) + sum_mset (image_mset pc_len (filter_mset (\<lambda>p. pc_rec p = r) (unread s))) = record_bytes (rec_of s r)"

definition reading_inv :: "u8 list \<Rightarrow> nvme_pool \<Rightarrow> bool" where
  "reading_inv cnq s \<longleftrightarrow> (\<forall>r < length (np_recs s). \<not> landed s r \<longrightarrow> pr_err (np_recs s ! r) = None \<longrightarrow> record_reading cnq s r)"

definition holds_record :: "u8 list \<Rightarrow> nvme_pool \<Rightarrow> nat \<Rightarrow> bool" where
  "holds_record cnq s r \<longleftrightarrow> (\<forall>k < length (parts (rec_of s r)).
     map (np_mem s r k) [0..<sp_len (parts (rec_of s r) ! k)] = published cnq (rec_of s r) (parts (rec_of s r) ! k))"

definition sums_of :: "u8 list \<Rightarrow> nvme_pool \<Rightarrow> nat set \<Rightarrow> report" where
  "sums_of cnq s R = \<lparr>rp_records = card R, rp_bytes = sum (\<lambda>r. record_bytes (rec_of s r)) R, rp_clamped = sum (\<lambda>r. clamps cnq (rec_of s r)) R\<rparr>"

definition report_inv :: "u8 list \<Rightarrow> nvme_pool \<Rightarrow> bool" where
  "report_inv cnq s \<longleftrightarrow> (\<forall>r. landed s r \<longrightarrow> \<not> fetch_failed (np_fetches s ! pr_fetch (np_recs s ! r)) \<longrightarrow> holds_record cnq s r)
     \<and> (\<forall>f < length (np_fetches s).
          (\<not> fetch_failed (np_fetches s ! f) \<longrightarrow> pf_reply (np_fetches s ! f) = None
             \<longrightarrow> pf_sum (np_fetches s ! f) = sums_of cnq s {r \<in> records_of s f. landed s r})
          \<and> (\<forall>rep. pf_reply (np_fetches s ! f) = Some (Inr rep) \<longrightarrow> rep = sums_of cnq s (records_of s f))
          \<and> (pf_reply (np_fetches s ! f) \<noteq> None \<longrightarrow> pf_err (np_fetches s ! f) = None))"

section \<open>Steps of a worker\<close>

lemma goto_tally:
  assumes "i < length (np_workers s)"
  shows "tally f (np_workers (goto i w s)) = tally f (np_workers s) - mset (f (np_workers s ! i)) + mset (f w)"
  using tally_update [OF assms] by (simp add: goto_def)

lemma goto_fields [simp]:
  "np_hi (goto i w s) = np_hi s" "np_lo (goto i w s) = np_lo s" "np_closed (goto i w s) = np_closed s"
  "np_lo_running (goto i w s) = np_lo_running s" "np_lo_max (goto i w s) = np_lo_max s" "np_piece (goto i w s) = np_piece s"
  "np_recs (goto i w s) = np_recs s" "np_fetches (goto i w s) = np_fetches s" "np_in_flight (goto i w s) = np_in_flight s"
  "np_mem (goto i w s) = np_mem s" "np_flags (goto i w s) = np_flags s" "np_workers (goto i w s) = (np_workers s)[i := w]"
  by (simp_all add: goto_def)

definition pool_inv :: "u8 list \<Rightarrow> nvme_pool \<Rightarrow> bool" where
  "pool_inv cnq s \<longleftrightarrow> pieces_inv s \<and> phase_inv s \<and> reading_inv cnq s \<and> report_inv cnq s"

lemma phase_invD:
  assumes "phase_inv s"
  shows "r \<in># to_finish s \<Longrightarrow> r < length (np_recs s) \<and> pr_left (np_recs s ! r) = 0"
    "r \<in># to_reply s \<Longrightarrow> r < length (np_recs s) \<and> pr_left (np_recs s ! r) = 0"
    "count (to_finish s) r + count (to_reply s) r \<le> 1"
    "np_in_flight s = card {r. r < length (np_recs s) \<and> \<not> landed s r}"
    "r < length (np_recs s) \<Longrightarrow> pr_fetch (np_recs s ! r) < length (np_fetches s)"
    "f < length (np_fetches s) \<Longrightarrow> pf_left (np_fetches s ! f) = card {r \<in> records_of s f. \<not> booked s r}"
    "f < length (np_fetches s) \<Longrightarrow> pf_left (np_fetches s ! f) = 0 \<longleftrightarrow> pf_reply (np_fetches s ! f) \<noteq> None"
    "set (np_flags s) = {l. \<exists>r. landed s r \<and> jb_landed (pr_job (np_recs s ! r)) = Some l}"
  using assms unfolding phase_inv_def by auto

text \<open>Two states with the same books: every record is as far, and the fetches know of it.\<close>

definition same_records :: "nvme_pool \<Rightarrow> nvme_pool \<Rightarrow> bool" where
  "same_records s s' \<longleftrightarrow> length (np_recs s') = length (np_recs s) \<and> np_piece s' = np_piece s
     \<and> (\<forall>r. pr_job (np_recs s' ! r) = pr_job (np_recs s ! r)) \<and> (\<forall>r. pr_fetch (np_recs s' ! r) = pr_fetch (np_recs s ! r))"

definition same_books :: "nvme_pool \<Rightarrow> nvme_pool \<Rightarrow> bool" where
  "same_books s s' \<longleftrightarrow> same_records s s' \<and> (\<forall>r. pr_left (np_recs s' ! r) = pr_left (np_recs s ! r)) \<and> np_fetches s' = np_fetches s
     \<and> np_in_flight s' = np_in_flight s \<and> np_flags s' = np_flags s \<and> to_finish s' = to_finish s \<and> to_reply s' = to_reply s"

lemma same_records_views:
  assumes "same_records s s'"
  shows "rec_of s' = rec_of s" "records_of s' = records_of s" "sums_of cnq s' = sums_of cnq s"
  using assms by (simp_all add: same_records_def rec_of_def records_of_def sums_of_def fun_eq_iff)

lemma same_books_views:
  assumes "same_books s s'"
  shows "landed s' = landed s" "booked s' = booked s"
  using assms by (simp_all add: same_books_def same_records_def landed_def booked_def fun_eq_iff)

lemma same_phase:
  assumes "same_books s s'" "phase_inv s"
  shows "phase_inv s'"
proof -
  have r: "same_records s s'" using assms(1) by (simp add: same_books_def)
  have "length (np_recs s') = length (np_recs s)" "(\<lambda>r. pr_job (np_recs s' ! r)) = (\<lambda>r. pr_job (np_recs s ! r))"
    "(\<lambda>r. pr_fetch (np_recs s' ! r)) = (\<lambda>r. pr_fetch (np_recs s ! r))" "(\<lambda>r. pr_left (np_recs s' ! r)) = (\<lambda>r. pr_left (np_recs s ! r))"
    "np_fetches s' = np_fetches s" "np_in_flight s' = np_in_flight s" "np_flags s' = np_flags s" "to_finish s' = to_finish s" "to_reply s' = to_reply s"
    using assms(1) by (simp_all add: same_books_def same_records_def)
  then have "phase_inv s' = phase_inv s"
    by (simp only: phase_inv_def same_records_views [OF r] same_books_views [OF assms(1)] fun_eq_iff)
  then show ?thesis using assms(2) by simp
qed

lemma same_report:
  assumes "same_books s s'" "report_inv cnq s" "\<And>r. landed s r \<Longrightarrow> np_mem s' r = np_mem s r"
  shows "report_inv cnq s'"
proof -
  have r: "same_records s s'" using assms(1) by (simp add: same_books_def)
  note v = same_records_views [OF r] same_books_views [OF assms(1)]
  have "holds_record cnq s' k" if "holds_record cnq s k" "landed s k" for k
    using that assms(3) [OF that(2)] by (simp add: holds_record_def v)
  moreover have "(\<lambda>r. pr_fetch (np_recs s' ! r)) = (\<lambda>r. pr_fetch (np_recs s ! r))" "np_fetches s' = np_fetches s"
    using assms(1) by (simp_all add: same_books_def same_records_def)
  ultimately show ?thesis using assms(2) unfolding report_inv_def v by (simp add: fun_eq_iff)
qed

lemma same_pieces:
  assumes "same_records s s'" "\<forall>r. pr_left (np_recs s' ! r) = pr_left (np_recs s ! r)" "outstanding s' = outstanding s"
    "under_way s' = under_way s" "np_lo_running s' = np_lo_running s" "low_pieces s' = low_pieces s" "pieces_inv s"
  shows "pieces_inv s'"
proof -
  have "length (np_recs s') = length (np_recs s)" "np_piece s' = np_piece s" using assms(1) by (simp_all add: same_records_def)
  then have "pieces_inv s' = pieces_inv s" by (simp only: pieces_inv_def assms(2-6) same_records_views [OF assms(1)])
  then show ?thesis using assms(7) by simp
qed

lemma record_piece_rec: "p \<in> set (record_pieces n r rec) \<Longrightarrow> pc_rec p = r"
  by (rule record_piece)

lemma same_reading:
  assumes "same_records s s'" "np_mem s' r = np_mem s r" "pr_bytes (np_recs s' ! r) = pr_bytes (np_recs s ! r)"
    "filter_mset (\<lambda>p. pc_rec p = r) (unread s') = filter_mset (\<lambda>p. pc_rec p = r) (unread s)"
    "filter_mset (\<lambda>(p, n). pc_rec p = r) (under_way s') = filter_mset (\<lambda>(p, n). pc_rec p = r) (under_way s)" "record_reading cnq s r"
  shows "record_reading cnq s' r"
proof -
  have v: "rec_of s' = rec_of s" "np_piece s' = np_piece s" using assms(1) same_records_views [OF assms(1)] by (simp_all add: same_records_def)
  have b: "byte_read cnq s' r k x = byte_read cnq s r k x" for k x by (simp add: byte_read_def v assms(2))
  have "p \<in># unread s' \<longleftrightarrow> p \<in># unread s" if "pc_rec p = r" for p
    using arg_cong [OF assms(4), of "\<lambda>M. p \<in># M"] that by simp
  moreover have "(p, n) \<in># under_way s' \<longleftrightarrow> (p, n) \<in># under_way s" if "pc_rec p = r" for p n
    using arg_cong [OF assms(5), of "\<lambda>M. (p, n) \<in># M"] that by simp
  ultimately show ?thesis using assms(3,4,6) unfolding record_reading_def v b by (fastforce dest: record_piece_rec)
qed

lemma same_data_inv:
  assumes "np_recs s' = np_recs s" "np_piece s' = np_piece s" "np_fetches s' = np_fetches s" "np_in_flight s' = np_in_flight s"
    "np_mem s' = np_mem s" "np_flags s' = np_flags s" "outstanding s' = outstanding s" "unread s' = unread s"
    "under_way s' = under_way s" "to_finish s' = to_finish s" "to_reply s' = to_reply s" "np_lo_running s' = np_lo_running s"
    "low_pieces s' = low_pieces s" "pool_inv cnq s"
  shows "pool_inv cnq s'"
proof -
  have b: "same_books s s'" and r: "same_records s s'" using assms by (simp_all add: same_books_def same_records_def)
  have inv: "pieces_inv s" "phase_inv s" "reading_inv cnq s" "report_inv cnq s" using assms(14) by (simp_all add: pool_inv_def)
  have "pieces_inv s'" using same_pieces [OF r _ _ _ _ _ inv(1)] assms(1-13) by simp
  moreover have "phase_inv s'" by (rule same_phase [OF b inv(2)])
  moreover have "report_inv cnq s'" by (rule same_report [OF b inv(4)]) (simp add: assms(5))
  moreover have "reading_inv cnq s'"
    using inv(3) same_reading [OF r, of _ cnq] assms(1,5,8,9) unfolding reading_inv_def same_books_views [OF b] by simp
  ultimately show ?thesis by (simp add: pool_inv_def)
qed

lemma notify_all_inv: "pool_inv cnq s \<Longrightarrow> pool_inv cnq (notify_all s)"
  by (rule same_data_inv [of _ s]) (simp_all add: notify_all_def tallies tally_map_wake)

lemma idle_inv:
  assumes "pool_inv cnq s" "i < length (np_workers s)" "np_workers s ! i \<in> {AtTop, Waiting, Gone}" "w \<in> {AtTop, Waiting, Gone}"
  shows "pool_inv cnq (goto i w s)"
  by (rule same_data_inv [of _ s]) (use assms in \<open>auto simp: tallies tally_same worker_shares\<close>)

text \<open>Taking a piece from a queue.\<close>

lemma in_tally_nth: "i < length ws \<Longrightarrow> x \<in> set (f (ws ! i)) \<Longrightarrow> x \<in># tally f ws"
  by (auto simp: in_tally)

lemma started_inv:
  assumes inv: "pool_inv cnq s" and i: "i < length (np_workers s)" "np_workers s ! i = AtTop"
    and q: "mset (np_hi s) + mset (np_lo s) = add_mset p (mset hi + mset lo)"
    and n: "m = (if low then np_lo_running s + 1 else np_lo_running s)"
  shows "pool_inv cnq (goto i (Reading p low 0) (s\<lparr>np_hi := hi, np_lo := lo, np_lo_running := m\<rparr>))"
proof -
  let ?s = "s\<lparr>np_hi := hi, np_lo := lo, np_lo_running := m\<rparr>" and ?s' = "goto i (Reading p low 0) (s\<lparr>np_hi := hi, np_lo := lo, np_lo_running := m\<rparr>)"
  have i': "i < length (np_workers ?s)" using i by simp
  have M: "outstanding ?s' = outstanding s" and U: "unread ?s' = unread s" and P: "under_way ?s' = add_mset (p, 0) (under_way s)"
    and L: "low_pieces ?s' = (if low then add_mset p (low_pieces s) else low_pieces s)"
    and F: "to_finish ?s' = to_finish s" and Y: "to_reply ?s' = to_reply s"
    using q i by (simp_all add: tallies tally_update [OF i(1)] worker_shares)
  have po: "p \<in># outstanding s" using q by (simp add: outstanding_def)
  have inv': "pieces_inv s" "phase_inv s" "reading_inv cnq s" "report_inv cnq s" using inv by (simp_all add: pool_inv_def)
  have rp: "p \<in> set (record_pieces (np_piece s) (pc_rec p) (rec_of s (pc_rec p)))" using inv'(1) po by (simp add: pieces_inv_def)
  have b: "same_books s ?s'" by (simp add: same_books_def same_records_def F Y)
  then have r: "same_records s ?s'" by (simp add: same_books_def)
  note v = same_records_views [OF r] same_books_views [OF b]
  have "pieces_inv ?s'"
    using inv'(1) M L P record_piece(3) [OF rp] n unfolding pieces_inv_def v by simp
  moreover have "phase_inv ?s'" by (rule same_phase [OF b inv'(2)])
  moreover have "report_inv cnq ?s'" by (rule same_report [OF b inv'(4)]) simp
  moreover have "reading_inv cnq ?s'"
  proof -
    have "byte_read cnq ?s' = byte_read cnq s" unfolding byte_read_def v by simp
    then show ?thesis using inv'(3) U P unfolding reading_inv_def record_reading_def v by simp
  qed
  ultimately show ?thesis by (simp add: pool_inv_def)
qed

lemma take_piece_inv:
  assumes inv: "pool_inv cnq s" and i: "i < length (np_workers s)" "np_workers s ! i = AtTop"
  shows "pool_inv cnq (take_piece i s)"
proof (cases "np_hi s")
  case (Cons p hi)
  have "mset (np_hi s) + mset (np_lo s) = add_mset p (mset hi + mset (np_lo s))" by (simp add: Cons)
  from started_inv [OF inv i this, of "np_lo_running s" False] show ?thesis by (simp add: take_piece_def Cons)
next
  case Nil
  show ?thesis
  proof (cases "np_lo_running s < np_lo_max s \<and> np_lo s \<noteq> []")
    case True
    then obtain p lo where lo: "np_lo s = p # lo" by (cases "np_lo s") auto
    have "mset (np_hi s) + mset (np_lo s) = add_mset p (mset [] + mset lo)" by (simp add: Nil lo)
    from started_inv [OF inv i this, of "np_lo_running s + 1" True]
    have "pool_inv cnq (goto i (Reading p True 0) (s\<lparr>np_hi := [], np_lo := lo, np_lo_running := np_lo_running s + 1\<rparr>))" by simp
    moreover have "s\<lparr>np_hi := [], np_lo := lo, np_lo_running := np_lo_running s + 1\<rparr> = s\<lparr>np_lo := lo, np_lo_running := np_lo_running s + 1\<rparr>"
      using Nil by (cases s) simp
    ultimately have "pool_inv cnq (goto i (Reading p True 0) (s\<lparr>np_lo := lo, np_lo_running := np_lo_running s + 1\<rparr>))" by (simp only:)
    then show ?thesis using True Nil by (simp add: take_piece_def lo)
  next
    case False
    then show ?thesis using Nil idle_inv [OF inv i(1)] i(2) by (auto simp: take_piece_def)
  qed
qed


text \<open>Reading: a chunk of the container written where the piece says.\<close>

lemma held_piece:
  assumes "pool_inv cnq s" "i < length (np_workers s)" "p \<in> set (held (np_workers s ! i))"
  shows "p \<in># outstanding s" "pc_rec p < length (np_recs s)" "p \<in> set (record_pieces (np_piece s) (pc_rec p) (rec_of s (pc_rec p)))"
    "0 < pr_left (np_recs s ! pc_rec p)" "\<not> landed s (pc_rec p)" "pc_rec p \<notin># to_finish s" "pc_rec p \<notin># to_reply s"
proof -
  show o: "p \<in># outstanding s" using in_tally_nth [OF assms(2), of p held] assms(3) by (simp add: outstanding_def)
  have inv: "pieces_inv s" "phase_inv s" using assms(1) by (simp_all add: pool_inv_def)
  show r: "pc_rec p < length (np_recs s)" and "p \<in> set (record_pieces (np_piece s) (pc_rec p) (rec_of s (pc_rec p)))"
    using inv(1) o by (auto simp: pieces_inv_def)
  have "p \<in># filter_mset (\<lambda>q. pc_rec q = pc_rec p) (outstanding s)" using o by simp
  then have "0 < size (filter_mset (\<lambda>q. pc_rec q = pc_rec p) (outstanding s))"
    by (metis empty_iff nonempty_has_size set_mset_empty)
  then show l: "0 < pr_left (np_recs s ! pc_rec p)" using inv(1) r by (simp add: pieces_inv_def)
  then show "\<not> landed s (pc_rec p)" by (simp add: landed_def)
  show "pc_rec p \<notin># to_finish s" "pc_rec p \<notin># to_reply s" using inv(2) l by (auto simp: phase_inv_def)
qed

lemma write_mem_fields [simp]:
  "np_hi (write_mem r k a bs s) = np_hi s" "np_lo (write_mem r k a bs s) = np_lo s" "np_piece (write_mem r k a bs s) = np_piece s"
  "np_recs (write_mem r k a bs s) = np_recs s" "np_fetches (write_mem r k a bs s) = np_fetches s" "np_in_flight (write_mem r k a bs s) = np_in_flight s"
  "np_flags (write_mem r k a bs s) = np_flags s" "np_workers (write_mem r k a bs s) = np_workers s"
  "np_lo_running (write_mem r k a bs s) = np_lo_running s"
  by (simp_all add: write_mem_def)

lemma write_mem_other: "r' \<noteq> r \<Longrightarrow> np_mem (write_mem r k a bs s) r' = np_mem s r'"
  by (simp add: write_mem_def)

lemma write_mem_reads:
  assumes "reads cnq p n (Got bs)" "pc_off p = sp_off (parts (rec_of s (pc_rec p)) ! pc_part p) + pc_at p"
    "byte_read cnq s r k x \<or> r = pc_rec p \<and> k = pc_part p \<and> pc_at p + n \<le> x \<and> x < pc_at p + n + length bs"
    "np_mem s' = np_mem (write_mem (pc_rec p) (pc_part p) (pc_at p + n) bs s)" "rec_of s' = rec_of s"
  shows "byte_read cnq s' r k x"
proof (cases "r = pc_rec p \<and> k = pc_part p \<and> pc_at p + n \<le> x \<and> x < pc_at p + n + length bs")
  case True
  let ?y = "x - (pc_at p + n)"
  have y: "?y < length bs" "bs = take (length bs) (drop (pc_off p + n) cnq)" using True assms(1) by (auto simp: reads_def)
  have l: "length bs \<le> length cnq - (pc_off p + n)" using arg_cong [OF y(2), of length] by simp
  have m: "pc_off p + n \<le> length cnq" using l y(1) by linarith
  have "bs ! ?y = take (length bs) (drop (pc_off p + n) cnq) ! ?y" by (rule arg_cong [OF y(2)])
  also have "\<dots> = drop (pc_off p + n) cnq ! ?y" by (rule nth_take [OF y(1)])
  also have "\<dots> = cnq ! (pc_off p + n + ?y)" by (rule nth_drop [OF m])
  finally have "bs ! ?y = cnq ! (pc_off p + n + ?y)" .
  moreover have e: "pc_off p + n + ?y = sp_off (parts (rec_of s r) ! k) + x" using True assms(2) by simp
  moreover have "pc_off p + n + ?y < length cnq" using l y(1) by simp
  ultimately show ?thesis using True y(1) by (simp add: byte_read_def assms(4,5) write_mem_def)
next
  case False
  then have "byte_read cnq s r k x" using assms(3) by blast
  moreover have "np_mem s' r k x = np_mem s r k x" using False by (auto simp: assms(4) write_mem_def)
  ultimately show ?thesis by (simp add: byte_read_def assms(5))
qed

lemma reading_step_inv:
  assumes inv: "pool_inv cnq s" and i: "i < length (np_workers s)" "np_workers s ! i = Reading p low n"
    and res: "reads cnq p n (Got bs)" and go: "n + length bs < pc_len p"
  shows "pool_inv cnq (goto i (Reading p low (n + length bs)) (write_mem (pc_rec p) (pc_part p) (pc_at p + n) bs s))"
    (is "pool_inv cnq ?s'")
proof -
  let ?r = "pc_rec p"
  have M: "outstanding ?s' = outstanding s" and U: "unread ?s' = unread s"
    and P: "under_way ?s' = add_mset (p, n + length bs) (under_way s - {#(p, n)#})"
    using i by (simp_all add: tallies tally_same [OF i(1)] tally_update [OF i(1), of progress] worker_shares)
  have L: "low_pieces ?s' = low_pieces s" and F: "to_finish ?s' = to_finish s" and Y: "to_reply ?s' = to_reply s"
    using i by (simp_all add: tallies tally_same [OF i(1)] worker_shares)
  have h: "p \<in> set (held (np_workers s ! i))" by (simp add: i held_def)
  have b: "same_books s ?s'" by (simp add: same_books_def same_records_def F Y)
  then have r: "same_records s ?s'" by (simp add: same_books_def)
  note v = same_records_views [OF r] same_books_views [OF b]
  have inv': "pieces_inv s" "phase_inv s" "reading_inv cnq s" "report_inv cnq s" using inv by (simp_all add: pool_inv_def)
  have "pieces_inv ?s'"
    using inv'(1) go unfolding pieces_inv_def v M P L by (auto dest: in_diffD)
  moreover have "phase_inv ?s'" by (rule same_phase [OF b inv'(2)])
  moreover have "report_inv cnq ?s'"
    by (rule same_report [OF b inv'(4)]) (use held_piece(5) [OF inv i(1) h] in \<open>auto simp: write_mem_def\<close>)
  moreover have "record_reading cnq ?s' r" if "record_reading cnq s r" for r
  proof -
    have w: "byte_read cnq ?s' r' k x" if "byte_read cnq s r' k x \<or> r' = ?r \<and> k = pc_part p \<and> pc_at p + n \<le> x \<and> x < pc_at p + n + length bs" for r' k x
      by (rule write_mem_reads [OF res record_piece(5) [OF held_piece(3) [OF inv i(1) h]] that]) (simp_all add: v)
    have "byte_read cnq ?s' r (pc_part p) (pc_at p + x)" if "pc_rec p = r" "x < n + length bs" for x
    proof (cases "x < n")
      case True
      have "(p, n) \<in># under_way s" using in_tally_nth [OF i(1), of "(p, n)" progress] by (simp add: under_way_def i progress_def)
      then show ?thesis using w that(1) True \<open>record_reading cnq s r\<close> by (auto simp: record_reading_def)
    qed (use w that in auto)
    then show ?thesis using \<open>record_reading cnq s r\<close> w unfolding record_reading_def v U P by (auto dest!: in_diffD)
  qed
  then have "reading_inv cnq ?s'" using inv'(3) unfolding reading_inv_def v by simp
  ultimately show ?thesis by (simp add: pool_inv_def)
qed

text \<open>A worker leaves \<open>read_piece\<close>: the record has the bytes, or its first error.\<close>

lemma read_over_tallies:
  assumes i: "i < length (np_workers s)" "np_workers s ! i = Reading p low n"
    and s2: "np_workers s2 = np_workers s" "np_hi s2 = np_hi s" "np_lo s2 = np_lo s"
  shows "outstanding (goto i (after_read p low) s2) = outstanding s"
    "add_mset p (unread (goto i (after_read p low) s2)) = unread s"
    "add_mset (p, n) (under_way (goto i (after_read p low) s2)) = under_way s"
    "low_pieces (goto i (after_read p low) s2) = low_pieces s"
    "to_finish (goto i (after_read p low) s2) = to_finish s" "to_reply (goto i (after_read p low) s2) = to_reply s"
proof -
  have i': "i < length (np_workers s2)" "np_workers s2 ! i = Reading p low n" using i s2 by simp_all
  show "outstanding (goto i (after_read p low) s2) = outstanding s" "low_pieces (goto i (after_read p low) s2) = low_pieces s"
    "to_finish (goto i (after_read p low) s2) = to_finish s" "to_reply (goto i (after_read p low) s2) = to_reply s"
    using i by (cases low; simp add: tallies tally_same [OF i(1)] s2 after_read_def worker_shares)+
  have "p \<in># tally held_unread (np_workers s)" "(p, n) \<in># tally progress (np_workers s)"
    using in_tally_nth [OF i(1), of p held_unread] in_tally_nth [OF i(1), of "(p, n)" progress] by (simp_all add: i worker_shares)
  then show "add_mset p (unread (goto i (after_read p low) s2)) = unread s"
    "add_mset (p, n) (under_way (goto i (after_read p low) s2)) = under_way s"
    using i by (simp_all add: tallies tally_update [OF i(1)] s2 after_read_def worker_shares)
qed

lemma read_over_inv:
  assumes inv: "pool_inv cnq s" and i: "i < length (np_workers s)" "np_workers s ! i = Reading p low n"
    and s2: "same_books s s2" "np_workers s2 = np_workers s" "np_hi s2 = np_hi s" "np_lo s2 = np_lo s" "np_lo_running s2 = np_lo_running s"
    and other: "\<And>r. r \<noteq> pc_rec p \<Longrightarrow> np_mem s2 r = np_mem s r \<and> np_recs s2 ! r = np_recs s ! r"
    and own: "pr_err (np_recs s2 ! pc_rec p) = None \<Longrightarrow> record_reading cnq s (pc_rec p)
        \<Longrightarrow> record_reading cnq (goto i (after_read p low) s2) (pc_rec p)"
      "pr_err (np_recs s2 ! pc_rec p) = None \<Longrightarrow> pr_err (np_recs s ! pc_rec p) = None"
  shows "pool_inv cnq (goto i (after_read p low) s2)" (is "pool_inv cnq ?s'")
proof -
  note t = read_over_tallies [OF i s2(2-4)]
  have h: "p \<in> set (held (np_workers s ! i))" by (simp add: i held_def)
  have b: "same_books s ?s'" using s2(1) t(5,6) by (simp add: same_books_def same_records_def)
  then have r: "same_records s ?s'" by (simp add: same_books_def)
  note v = same_records_views [OF r] same_books_views [OF b]
  have inv': "pieces_inv s" "phase_inv s" "reading_inv cnq s" "report_inv cnq s" using inv by (simp_all add: pool_inv_def)
  have "pieces_inv ?s'"
  proof -
    have "length (np_recs ?s') = length (np_recs s)" "np_piece ?s' = np_piece s" "\<forall>r. pr_left (np_recs ?s' ! r) = pr_left (np_recs s ! r)"
      using b by (simp_all add: same_books_def same_records_def)
    moreover have "x \<in># under_way s" if "x \<in># under_way ?s'" for x using that arg_cong [OF t(3), of "\<lambda>M. x \<in># M"] by simp
    ultimately show ?thesis using inv'(1) s2(5) unfolding pieces_inv_def v t(1,4) by simp
  qed
  moreover have "phase_inv ?s'" by (rule same_phase [OF b inv'(2)])
  moreover have "report_inv cnq ?s'"
    by (rule same_report [OF b inv'(4)]) (use held_piece(5) [OF inv i(1) h] other in \<open>metis goto_fields(10)\<close>)
  moreover have "reading_inv cnq ?s'"
    unfolding reading_inv_def v
  proof (intro allI impI)
    fix r' assume r': "r' < length (np_recs ?s')" "\<not> landed s r'" "pr_err (np_recs ?s' ! r') = None"
    have l: "r' < length (np_recs s)" using r'(1) r by (simp add: same_records_def)
    show "record_reading cnq ?s' r'"
    proof (cases "r' = pc_rec p")
      case True
      then show ?thesis using own r' l inv'(3) unfolding reading_inv_def by simp
    next
      case False
      have "record_reading cnq s r'" using inv'(3) l r'(2,3) other [OF False] unfolding reading_inv_def by simp
      moreover have "filter_mset (\<lambda>q. pc_rec q = r') (unread ?s') = filter_mset (\<lambda>q. pc_rec q = r') (unread s)"
        unfolding t(2) [symmetric] using False by simp
      moreover have "filter_mset (\<lambda>(q, m). pc_rec q = r') (under_way ?s') = filter_mset (\<lambda>(q, m). pc_rec q = r') (under_way s)"
        unfolding t(3) [symmetric] using False by simp
      ultimately show ?thesis using same_reading [OF r] other [OF False] by simp
    qed
  qed
  ultimately show ?thesis by (simp add: pool_inv_def)
qed

lemma bump_fields [simp]:
  "np_hi (add_bytes r n s) = np_hi s" "np_lo (add_bytes r n s) = np_lo s" "np_workers (add_bytes r n s) = np_workers s"
  "np_lo_running (add_bytes r n s) = np_lo_running s" "np_mem (add_bytes r n s) = np_mem s"
  "np_hi (set_err r e s) = np_hi s" "np_lo (set_err r e s) = np_lo s" "np_workers (set_err r e s) = np_workers s"
  "np_lo_running (set_err r e s) = np_lo_running s" "np_mem (set_err r e s) = np_mem s"
  by (simp_all add: add_bytes_def set_err_def)

lemma bump_books:
  "r < length (np_recs s) \<Longrightarrow> same_books s (add_bytes r n s)" "r < length (np_recs s) \<Longrightarrow> same_books s (set_err r e s)"
  "same_books s (write_mem r k a bs s)"
  by (simp_all add: same_books_def same_records_def add_bytes_def set_err_def tallies nth_list_update)

lemma same_books_trans: "same_books s s1 \<Longrightarrow> same_books s1 s2 \<Longrightarrow> same_books s s2"
  by (simp add: same_books_def same_records_def)

lemma read_failed_inv:
  assumes inv: "pool_inv cnq s" and i: "i < length (np_workers s)" "np_workers s ! i = Reading p low n"
    and s1: "s1 = s \<or> s1 = write_mem (pc_rec p) k a bs s"
  shows "pool_inv cnq (goto i (after_read p low) (set_err (pc_rec p) e s1))"
proof -
  have h: "p \<in> set (held (np_workers s ! i))" by (simp add: i held_def)
  have l: "pc_rec p < length (np_recs s)" by (rule held_piece(2) [OF inv i(1) h])
  have b: "same_books s s1" using s1 bump_books(3) by (auto simp: same_books_def same_records_def)
  have f: "np_recs s1 = np_recs s" "np_workers s1 = np_workers s" "np_hi s1 = np_hi s" "np_lo s1 = np_lo s" "np_lo_running s1 = np_lo_running s"
    using s1 by auto
  show ?thesis
  proof (rule read_over_inv [OF inv i same_books_trans [OF b bump_books(2)]])
    fix r assume "r \<noteq> pc_rec p"
    then show "np_mem (set_err (pc_rec p) e s1) r = np_mem s r \<and> np_recs (set_err (pc_rec p) e s1) ! r = np_recs s ! r"
      using s1 f(1) by (auto simp: set_err_def write_mem_other)
  qed (use l f in \<open>auto simp: set_err_def split: option.splits\<close>)
qed

lemma read_ended_inv:
  assumes inv: "pool_inv cnq s" and i: "i < length (np_workers s)" "np_workers s ! i = Reading p low n"
    and res: "reads cnq p n (Got bs)" and all: "n + length bs = pc_len p"
  shows "pool_inv cnq (goto i (after_read p low) (add_bytes (pc_rec p) (pc_len p) (write_mem (pc_rec p) (pc_part p) (pc_at p + n) bs s)))"
    (is "pool_inv cnq (goto i (after_read p low) ?s2)")
proof -
  let ?r = "pc_rec p" and ?s' = "goto i (after_read p low) ?s2"
  have h: "p \<in> set (held (np_workers s ! i))" by (simp add: i held_def)
  have l: "?r < length (np_recs s)" by (rule held_piece(2) [OF inv i(1) h])
  have b: "same_books s ?s2" by (rule same_books_trans [OF bump_books(3) bump_books(1)]) (simp add: l)
  then have v: "rec_of ?s' = rec_of s" "np_piece ?s' = np_piece s"
    by (simp_all add: same_books_def same_records_def rec_of_def fun_eq_iff)
  note t = read_over_tallies [OF i, of ?s2, simplified]
  show ?thesis
  proof (rule read_over_inv [OF inv i b])
    fix r assume "r \<noteq> ?r"
    then show "np_mem ?s2 r = np_mem s r \<and> np_recs ?s2 ! r = np_recs s ! r" by (simp add: write_mem_other add_bytes_def)
  next
    assume rd: "record_reading cnq s ?r"
    have w: "byte_read cnq ?s' r' k x" if "byte_read cnq s r' k x \<or> r' = ?r \<and> k = pc_part p \<and> pc_at p + n \<le> x \<and> x < pc_at p + n + length bs" for r' k x
      by (rule write_mem_reads [OF res record_piece(5) [OF held_piece(3) [OF inv i(1) h]] that]) (simp_all add: v)
    have own: "byte_read cnq ?s' ?r (pc_part p) (pc_at p + x)" if "x < pc_len p" for x
    proof (cases "x < n")
      case True
      have "(p, n) \<in># under_way s" using in_tally_nth [OF i(1), of "(p, n)" progress] by (simp add: under_way_def i progress_def)
      then show ?thesis using w True rd by (auto simp: record_reading_def)
    qed (use w that all in auto)
    have u: "q \<in># unread s \<longleftrightarrow> q = p \<or> q \<in># unread ?s'" for q unfolding t(2) [symmetric] by auto
    have uw: "q \<in># under_way ?s' \<Longrightarrow> q \<in># under_way s" for q unfolding t(3) [symmetric] by auto
    have "\<forall>q \<in> set (record_pieces (np_piece s) ?r (rec_of s ?r)). q \<notin># unread ?s' \<longrightarrow> (\<forall>x < pc_len q. byte_read cnq ?s' ?r (pc_part q) (pc_at q + x))"
    proof (intro ballI impI allI)
      fix q x assume q: "q \<in> set (record_pieces (np_piece s) ?r (rec_of s ?r))" "q \<notin># unread ?s'" "x < pc_len q"
      show "byte_read cnq ?s' ?r (pc_part q) (pc_at q + x)"
      proof (cases "q = p")
        case False
        then have "byte_read cnq s ?r (pc_part q) (pc_at q + x)" using rd q u unfolding record_reading_def by blast
        then show ?thesis by (intro w disjI1)
      qed (use own q(3) in simp)
    qed
    moreover have "\<forall>(q, m) \<in># under_way ?s'. pc_rec q = ?r \<longrightarrow> (\<forall>x < m. byte_read cnq ?s' ?r (pc_part q) (pc_at q + x))"
      using rd w uw unfolding record_reading_def by fast
    moreover have "pr_bytes (np_recs ?s' ! ?r) + sum_mset (image_mset pc_len (filter_mset (\<lambda>q. pc_rec q = ?r) (unread ?s'))) = record_bytes (rec_of s ?r)"
      using rd l unfolding record_reading_def t(2) [symmetric] by (simp add: add_bytes_def)
    ultimately show "record_reading cnq ?s' ?r" unfolding record_reading_def v by blast
  qed (use l in \<open>simp_all add: add_bytes_def\<close>)
qed

lemma read_some_inv:
  assumes inv: "pool_inv cnq s" and i: "i < length (np_workers s)" "np_workers s ! i = Reading p low n" and res: "reads cnq p n res"
  shows "pool_inv cnq (read_some i p low n res s)"
proof (cases res)
  case Interrupted
  then show ?thesis using inv by (simp add: read_some_def)
next
  case Failed
  then show ?thesis using read_failed_inv [OF inv i, of s] by (simp add: read_some_def)
next
  case (Got bs)
  have r: "reads cnq p n (Got bs)" using res Got by simp
  show ?thesis
  proof (cases "n + length bs = pc_len p")
    case True
    then show ?thesis using read_ended_inv [OF inv i r True] Got by (simp add: read_some_def Let_def)
  next
    case False
    have "n < pc_len p" using inv in_tally_nth [OF i(1), of "(p, n)" progress]
      by (auto simp: pool_inv_def pieces_inv_def under_way_def i progress_def)
    then have "n + length bs < pc_len p" using False r by (auto simp: reads_def)
    then show ?thesis using reading_step_inv [OF inv i r] read_failed_inv [OF inv i disjI2 [OF refl]] Got False by (simp add: read_some_def Let_def)
  qed
qed

text \<open>The two counts after a read: the low lanes and the pieces of the record.\<close>

lemma low_done_inv:
  assumes inv: "pool_inv cnq s" and i: "i < length (np_workers s)" "np_workers s ! i = LowDone p"
  shows "pool_inv cnq (low_done i p s)" (is "pool_inv cnq ?s'")
proof -
  have "p \<in># tally lows (np_workers s)" using in_tally_nth [OF i(1), of p lows] by (simp add: i worker_shares)
  then have L: "add_mset p (low_pieces ?s') = low_pieces s"
    using i by (simp add: low_done_def tallies tally_update [OF i(1)] worker_shares)
  have M: "outstanding ?s' = outstanding s" and U: "unread ?s' = unread s" and P: "under_way ?s' = under_way s"
    and F: "to_finish ?s' = to_finish s" and Y: "to_reply ?s' = to_reply s"
    using i by (simp_all add: low_done_def tallies tally_same [OF i(1)] worker_shares)
  have b: "same_books s ?s'" using F Y by (simp add: same_books_def same_records_def low_done_def)
  then have r: "same_records s ?s'" by (simp add: same_books_def)
  note v = same_records_views [OF r] same_books_views [OF b]
  have f: "np_recs ?s' = np_recs s" "np_piece ?s' = np_piece s" "np_mem ?s' = np_mem s" by (simp_all add: low_done_def)
  have inv': "pieces_inv s" "phase_inv s" "reading_inv cnq s" "report_inv cnq s" using inv by (simp_all add: pool_inv_def)
  have "np_lo_running ?s' = size (low_pieces ?s')"
    using inv'(1) arg_cong [OF L, of size] by (simp add: low_done_def pieces_inv_def)
  then have "pieces_inv ?s'" using inv'(1) unfolding pieces_inv_def v M P f by simp
  moreover have "phase_inv ?s'" by (rule same_phase [OF b inv'(2)])
  moreover have "report_inv cnq ?s'" by (rule same_report [OF b inv'(4)]) (simp add: f)
  moreover have "reading_inv cnq ?s'"
    using inv'(3) same_reading [OF r, of _ cnq] unfolding reading_inv_def v f U P by simp
  ultimately show ?thesis by (simp add: pool_inv_def)
qed

lemma count_down_tallies:
  assumes i: "i < length (np_workers s)" "np_workers s ! i = CountDown p"
  shows "add_mset p (outstanding (count_down i p s)) = outstanding s" "unread (count_down i p s) = unread s"
    "under_way (count_down i p s) = under_way s" "low_pieces (count_down i p s) = low_pieces s" "to_reply (count_down i p s) = to_reply s"
    "to_finish (count_down i p s) = (if pr_left (np_recs s ! pc_rec p) = 1 then add_mset (pc_rec p) (to_finish s) else to_finish s)"
proof -
  have "p \<in># tally held (np_workers s)" using in_tally_nth [OF i(1), of p held] by (simp add: i worker_shares)
  then show "add_mset p (outstanding (count_down i p s)) = outstanding s"
    using i by (simp add: count_down_def Let_def tallies tally_update [OF i(1)] worker_shares)
  show "unread (count_down i p s) = unread s" "under_way (count_down i p s) = under_way s"
    "low_pieces (count_down i p s) = low_pieces s" "to_reply (count_down i p s) = to_reply s"
    using i by (simp_all add: count_down_def Let_def tallies tally_same [OF i(1)] worker_shares)
  show "to_finish (count_down i p s) = (if pr_left (np_recs s ! pc_rec p) = 1 then add_mset (pc_rec p) (to_finish s) else to_finish s)"
    using i by (simp add: count_down_def Let_def tallies tally_update [OF i(1)] worker_shares)
qed

lemma count_down_inv:
  assumes inv: "pool_inv cnq s" and i: "i < length (np_workers s)" "np_workers s ! i = CountDown p"
  shows "pool_inv cnq (count_down i p s)" (is "pool_inv cnq ?s'")
proof -
  let ?r = "pc_rec p"
  note t = count_down_tallies [OF i]
  have h: "p \<in> set (held (np_workers s ! i))" by (simp add: i held_def)
  note hp = held_piece [OF inv i(1) h]
  have f: "length (np_recs ?s') = length (np_recs s)" "np_piece ?s' = np_piece s" "np_mem ?s' = np_mem s" "np_fetches ?s' = np_fetches s"
    "np_in_flight ?s' = np_in_flight s" "np_flags ?s' = np_flags s" "np_lo_running ?s' = np_lo_running s"
    by (simp_all add: count_down_def Let_def)
  have g: "pr_job (np_recs ?s' ! r) = pr_job (np_recs s ! r)" "pr_fetch (np_recs ?s' ! r) = pr_fetch (np_recs s ! r)"
    "pr_bytes (np_recs ?s' ! r) = pr_bytes (np_recs s ! r)" "pr_err (np_recs ?s' ! r) = pr_err (np_recs s ! r)"
    "pr_left (np_recs ?s' ! r) = pr_left (np_recs s ! r) - (if r = ?r then 1 else 0)" for r
    using hp(2) by (simp_all add: count_down_def Let_def nth_list_update)
  have r: "same_records s ?s'" by (simp add: same_records_def f g)
  note v = same_records_views [OF r]
  have l: "landed ?s' = landed s"
  proof
    fix r show "landed ?s' r = landed s r" using hp(4,6) by (auto simp: landed_def f g t(6))
  qed
  then have b: "booked ?s' = booked s" by (simp add: booked_def t(5) fun_eq_iff)
  have inv': "pieces_inv s" "phase_inv s" "reading_inv cnq s" "report_inv cnq s" using inv by (simp_all add: pool_inv_def)
  have "pieces_inv ?s'"
  proof -
    have o: "q \<in># outstanding ?s' \<Longrightarrow> q \<in># outstanding s" for q unfolding t(1) [symmetric] by simp
    have "pr_left (np_recs ?s' ! r) = size (filter_mset (\<lambda>q. pc_rec q = r) (outstanding ?s'))" if "r < length (np_recs s)" for r
      using inv'(1) that unfolding pieces_inv_def t(1) [symmetric] by (auto simp: g)
    then show ?thesis using inv'(1) o unfolding pieces_inv_def v f t(3,4) by simp
  qed
  moreover have "phase_inv ?s'"
  proof -
    have q: "q \<in># to_finish ?s' + to_reply ?s' \<longleftrightarrow> q \<in># to_finish s + to_reply s \<or> q = ?r \<and> pr_left (np_recs s ! ?r) = 1" for q by (auto simp: t)
    have "\<forall>q \<in># to_finish ?s' + to_reply ?s'. q < length (np_recs s) \<and> pr_left (np_recs ?s' ! q) = 0"
    proof
      fix k assume "k \<in># to_finish ?s' + to_reply ?s'"
      then have "k \<in># to_finish s + to_reply s \<or> k = ?r \<and> pr_left (np_recs s ! ?r) = 1" using q by blast
      then show "k < length (np_recs s) \<and> pr_left (np_recs ?s' ! k) = 0"
        using hp(2) phase_invD(1,2) [OF inv'(2), of k] by (auto simp: g)
    qed
    moreover have "count (to_finish ?s' + to_reply ?s') q \<le> 1" for q
    proof (cases "q = ?r")
      case True
      then have "count (to_finish s) q = 0" "count (to_reply s) q = 0" using hp(6,7) by (simp_all add: not_in_iff)
      then show ?thesis by (simp add: t)
    next
      case False
      have "count (to_finish s + to_reply s) q \<le> 1" using inv'(2) by (simp add: phase_inv_def)
      then show ?thesis using False by (simp add: t)
    qed
    ultimately show ?thesis using phase_invD(4-8) [OF inv'(2)] unfolding phase_inv_def l b v f g(1,2) by blast
  qed
  moreover have "report_inv cnq ?s'"
  proof -
    have "holds_record cnq ?s' = holds_record cnq s" by (simp add: holds_record_def v f fun_eq_iff)
    then show ?thesis using inv'(4) unfolding report_inv_def l v f g by simp
  qed
  moreover have "reading_inv cnq ?s'"
    using inv'(3) same_reading [OF r, of _ cnq] unfolding reading_inv_def l v f g t(2,3) by simp
  ultimately show ?thesis by (simp add: pool_inv_def)
qed

text \<open>The end of a record: its parts hold the container's bytes before its flag is up.\<close>

lemma finite_records [simp]: "finite (records_of s f)"
  by (simp add: records_of_def)

lemma open_fetch:
  assumes "phase_inv s" "r < length (np_recs s)" "\<not> booked s r" "k = pr_fetch (np_recs s ! r)"
  shows "k < length (np_fetches s)" "pf_left (np_fetches s ! k) = card {q \<in> records_of s k. \<not> booked s q}"
    "0 < card {q \<in> records_of s k. \<not> booked s q}" "pf_reply (np_fetches s ! k) = None"
proof -
  note ph = phase_invD [OF assms(1)]
  show kl: "k < length (np_fetches s)" using ph(5) [OF assms(2)] assms(4) by simp
  show left: "pf_left (np_fetches s ! k) = card {q \<in> records_of s k. \<not> booked s q}" by (rule ph(6) [OF kl])
  have "r \<in> {q \<in> records_of s k. \<not> booked s q}" using assms by (simp add: records_of_def)
  then have "{q \<in> records_of s k. \<not> booked s q} \<noteq> {}" by blast
  then show pos: "0 < card {q \<in> records_of s k. \<not> booked s q}" unfolding card_gt_0_iff by simp
  show "pf_reply (np_fetches s ! k) = None"
  proof (rule ccontr)
    assume "pf_reply (np_fetches s ! k) \<noteq> None"
    then have "pf_left (np_fetches s ! k) = 0" by (rule iffD2 [OF ph(7) [OF kl]])
    then show False using left pos by linarith
  qed
qed

lemma unread_outstanding: "p \<in># unread s \<Longrightarrow> p \<in># outstanding s"
proof -
  have "set (held_unread w) \<subseteq> set (held w)" for w by (cases w) (auto simp: worker_shares)
  then show "p \<in># unread s \<Longrightarrow> p \<in># outstanding s" by (auto simp: unread_def outstanding_def in_tally)
qed

lemma under_way_outstanding: "x \<in># under_way s \<Longrightarrow> fst x \<in># outstanding s"
proof -
  have "x \<in> set (progress w) \<Longrightarrow> fst x \<in> set (held w)" for w by (cases w) (auto simp: worker_shares)
  then show "x \<in># under_way s \<Longrightarrow> fst x \<in># outstanding s" by (auto simp: under_way_def outstanding_def in_tally)
qed

lemma complete_record:
  assumes inv: "pieces_inv s" and r: "r < length (np_recs s)" "pr_left (np_recs s ! r) = 0" and rd: "record_reading cnq s r"
  shows "k < length (parts (rec_of s r)) \<Longrightarrow> x < sp_len (parts (rec_of s r) ! k) \<Longrightarrow> byte_read cnq s r k x"
    "pr_bytes (np_recs s ! r) = record_bytes (rec_of s r)"
proof -
  have e: "filter_mset (\<lambda>p. pc_rec p = r) (outstanding s) = {#}" using inv r by (simp add: pieces_inv_def)
  have none: "p \<notin># unread s" if "pc_rec p = r" for p
  proof
    assume "p \<in># unread s"
    then have "p \<in># filter_mset (\<lambda>p. pc_rec p = r) (outstanding s)" using that unread_outstanding by simp
    then show False unfolding e by simp
  qed
  then have e2: "filter_mset (\<lambda>p. pc_rec p = r) (unread s) = {#}" by (auto simp flip: set_mset_eq_empty_iff)
  show "pr_bytes (np_recs s ! r) = record_bytes (rec_of s r)" using rd unfolding record_reading_def e2 by simp
  assume k: "k < length (parts (rec_of s r))" "x < sp_len (parts (rec_of s r) ! k)"
  have "0 < np_piece s" using inv by (simp add: pieces_inv_def)
  from record_pieces_cover [OF this k, of r] obtain p where p: "p \<in> set (record_pieces (np_piece s) r (rec_of s r))"
    "pc_part p = k" "pc_at p \<le> x" "x < pc_at p + pc_len p" by blast
  have "\<forall>y < pc_len p. byte_read cnq s r (pc_part p) (pc_at p + y)"
    using rd p(1) none [OF record_piece_rec [OF p(1)]] by (simp add: record_reading_def)
  then show "byte_read cnq s r k x" using p(2-4) by (metis le_add_diff_inverse less_diff_conv2 add.commute)
qed

lemma stored_part:
  assumes "k < length (parts (rec_of s r))"
    "\<And>x. x < sp_len (parts (rec_of s r) ! k) \<Longrightarrow> byte_read cnq s r k x"
  shows "part_bytes (np_mem s r k) (parts (rec_of s r) ! k) = stored cnq (parts (rec_of s r) ! k)"
proof (rule nth_equalityI)
  let ?sp = "parts (rec_of s r) ! k"
  have "sp_len ?sp \<le> length cnq - sp_off ?sp"
  proof (cases "sp_len ?sp")
    case (Suc n)
    then show ?thesis using assms(2) [of n] by (auto simp: byte_read_def Let_def)
  qed simp
  then show "length (part_bytes (np_mem s r k) ?sp) = length (stored cnq ?sp)" by (simp add: part_bytes_def stored_def)
  fix x assume x: "x < length (part_bytes (np_mem s r k) ?sp)"
  then show "part_bytes (np_mem s r k) ?sp ! x = stored cnq ?sp ! x"
    using assms(2) [of x] by (simp add: part_bytes_def stored_def byte_read_def Let_def)
qed

lemma sanitized_record:
  assumes full: "\<And>k x. k < length (parts (rec_of s r)) \<Longrightarrow> x < sp_len (parts (rec_of s r) ! k) \<Longrightarrow> byte_read cnq s r k x"
    and s1: "sanitize_record r (rec_of s r) s0 = (s1, n)" "np_mem s0 = np_mem s"
  shows "n = clamps cnq (rec_of s r)" "np_recs s1 = np_recs s0" "\<And>q. q \<noteq> r \<Longrightarrow> np_mem s1 q = np_mem s q"
    "k < length (parts (rec_of s r)) \<Longrightarrow> map (np_mem s1 r k) [0..<sp_len (parts (rec_of s r) ! k)] = published cnq (rec_of s r) (parts (rec_of s r) ! k)"
proof -
  let ?ps = "parts (rec_of s r)"
  have st: "part_bytes (np_mem s r k) (?ps ! k) = stored cnq (?ps ! k)" if "k < length ?ps" for k
    by (rule stored_part [OF that full [OF that]])
  have "map (\<lambda>k. snd (sanitize_sf_slab (part_bytes (np_mem s r k) (?ps ! k)))) [0..<length ?ps]
      = map (\<lambda>k. snd (sanitize_sf_slab (stored cnq (?ps ! k)))) [0..<length ?ps]" using st by (intro map_cong) auto
  then have sums: "sum_list (map (\<lambda>k. snd (sanitize_sf_slab (part_bytes (np_mem s r k) (?ps ! k)))) [0..<length ?ps])
      = sum_list (map (\<lambda>sp. snd (sanitize_sf_slab (stored cnq sp))) ?ps)"
    using sum_list_nth_upt [of "\<lambda>sp. snd (sanitize_sf_slab (stored cnq sp))" ?ps] by (simp only:)
  then show "n = clamps cnq (rec_of s r)" using s1 by (auto simp: sanitize_record_def clamps_def split: if_splits)
  show "np_recs s1 = np_recs s0" "\<And>q. q \<noteq> r \<Longrightarrow> np_mem s1 q = np_mem s q"
    using s1 by (auto simp: sanitize_record_def split: if_splits)
  assume k: "k < length ?ps"
  show "map (np_mem s1 r k) [0..<sp_len (?ps ! k)] = published cnq (rec_of s r) (?ps ! k)"
  proof (cases "sanitizes_scales (er_codec (rec_of s r))")
    case True
    let ?b = "part_bytes (np_mem s r k) (?ps ! k)"
    have "map (np_mem s1 r k) [0..<sp_len (?ps ! k)] = map (\<lambda>x. fst (sanitize_sf_slab ?b) ! x) [0..<length ?b]"
      using s1 True k by (auto simp: sanitize_record_def part_bytes_def)
    also have "\<dots> = fst (sanitize_sf_slab ?b)" using map_nth [of "fst (sanitize_sf_slab ?b)"] by simp
    finally show ?thesis using True st [OF k] by (simp add: published_def)
  next
    case False
    then show ?thesis using s1 st [OF k] by (auto simp: sanitize_record_def published_def part_bytes_def)
  qed
qed

lemma finish_record_parts:
  assumes f: "finish_record i r s = s'" and i: "i < length (np_workers s)" "np_workers s ! i = Finishing r"
  obtains s1 n where
    "(if pr_err (np_recs s ! r) = None then sanitize_record r (rec_of s r) (s\<lparr>np_recs := (np_recs s)[r := (np_recs s ! r)\<lparr>pr_err := None\<rparr>]\<rparr>)
       else (s\<lparr>np_recs := (np_recs s)[r := (np_recs s ! r)\<lparr>pr_err := None\<rparr>]\<rparr>, 0)) = (s1, n)"
    "np_recs s' = (np_recs s)[r := (np_recs s ! r)\<lparr>pr_err := None\<rparr>]" "np_mem s' = np_mem s1" "np_piece s' = np_piece s"
    "np_in_flight s' = np_in_flight s - 1" "np_lo_running s' = np_lo_running s"
    "np_flags s' = (case jb_landed (pr_job (np_recs s ! r)) of Some l \<Rightarrow> np_flags s @ [l] | None \<Rightarrow> np_flags s)"
    "np_fetches s' = (let k = pr_fetch (np_recs s ! r); f = np_fetches s ! k in (np_fetches s)[k := f\<lparr>pf_sum := \<lparr>rp_records = rp_records (pf_sum f) + 1,
        rp_bytes = rp_bytes (pf_sum f) + pr_bytes (np_recs s ! r), rp_clamped = rp_clamped (pf_sum f) + n\<rparr>,
        pf_err := (case (pr_err (np_recs s ! r), pf_err f) of (Some e, None) \<Rightarrow> Some e | (_, y) \<Rightarrow> y)\<rparr>])"
    "outstanding s' = outstanding s" "unread s' = unread s" "under_way s' = under_way s" "low_pieces s' = low_pieces s"
    "add_mset r (to_finish s') = to_finish s" "to_reply s' = add_mset r (to_reply s)"
proof -
  let ?s0 = "s\<lparr>np_recs := (np_recs s)[r := (np_recs s ! r)\<lparr>pr_err := None\<rparr>]\<rparr>"
  obtain s1 n where d: "(if pr_err (np_recs s ! r) = None then sanitize_record r (rec_of s r) ?s0 else (?s0, 0)) = (s1, n)" by fastforce
  then have e: "np_recs s1 = np_recs ?s0" "np_piece s1 = np_piece s" "np_lo_running s1 = np_lo_running s" "np_workers s1 = np_workers s"
    "np_hi s1 = np_hi s" "np_lo s1 = np_lo s"
    by (auto simp: sanitize_record_def split: if_splits)
  note u = f [symmetric] finish_record_def Let_def d [unfolded rec_of_def] prod.case
  have m: "r \<in># tally finishing (np_workers s)" using in_tally_nth [OF i(1), of r finishing] by (simp add: i worker_shares)
  show thesis
  proof (rule that [OF d])
    show "np_recs s' = (np_recs s)[r := (np_recs s ! r)\<lparr>pr_err := None\<rparr>]" "np_mem s' = np_mem s1" "np_piece s' = np_piece s"
      "np_in_flight s' = np_in_flight s - 1" "np_lo_running s' = np_lo_running s"
      "np_flags s' = (case jb_landed (pr_job (np_recs s ! r)) of Some l \<Rightarrow> np_flags s @ [l] | None \<Rightarrow> np_flags s)"
      "np_fetches s' = (let k = pr_fetch (np_recs s ! r); f = np_fetches s ! k in (np_fetches s)[k := f\<lparr>pf_sum := \<lparr>rp_records = rp_records (pf_sum f) + 1,
        rp_bytes = rp_bytes (pf_sum f) + pr_bytes (np_recs s ! r), rp_clamped = rp_clamped (pf_sum f) + n\<rparr>,
        pf_err := (case (pr_err (np_recs s ! r), pf_err f) of (Some e, None) \<Rightarrow> Some e | (_, y) \<Rightarrow> y)\<rparr>])"
      unfolding u by (simp_all add: e Let_def)
    have w: "np_workers s' = (np_workers s)[i := Replying r]" "np_hi s' = np_hi s" "np_lo s' = np_lo s" unfolding u by (simp_all add: e)
    show "outstanding s' = outstanding s" "unread s' = unread s" "under_way s' = under_way s" "low_pieces s' = low_pieces s"
      using i by (simp_all add: tallies w tally_same [OF i(1)] worker_shares)
    show "add_mset r (to_finish s') = to_finish s" "to_reply s' = add_mset r (to_reply s)"
      using i m by (simp_all add: tallies w tally_update [OF i(1)] worker_shares)
  qed
qed

lemma finish_record_inv:
  assumes inv: "pool_inv cnq s" and i: "i < length (np_workers s)" "np_workers s ! i = Finishing r"
  shows "pool_inv cnq (finish_record i r s)"
proof -
  obtain s' where s': "finish_record i r s = s'" by simp
  obtain s1 n where d: "(if pr_err (np_recs s ! r) = None then sanitize_record r (rec_of s r) (s\<lparr>np_recs := (np_recs s)[r := (np_recs s ! r)\<lparr>pr_err := None\<rparr>]\<rparr>)
       else (s\<lparr>np_recs := (np_recs s)[r := (np_recs s ! r)\<lparr>pr_err := None\<rparr>]\<rparr>, 0)) = (s1, n)"
    and w: "np_recs s' = (np_recs s)[r := (np_recs s ! r)\<lparr>pr_err := None\<rparr>]" "np_mem s' = np_mem s1" "np_piece s' = np_piece s"
      "np_in_flight s' = np_in_flight s - 1" "np_lo_running s' = np_lo_running s"
      "np_flags s' = (case jb_landed (pr_job (np_recs s ! r)) of Some l \<Rightarrow> np_flags s @ [l] | None \<Rightarrow> np_flags s)"
    and fs: "np_fetches s' = (let k = pr_fetch (np_recs s ! r); f = np_fetches s ! k in (np_fetches s)[k := f\<lparr>pf_sum := \<lparr>rp_records = rp_records (pf_sum f) + 1,
        rp_bytes = rp_bytes (pf_sum f) + pr_bytes (np_recs s ! r), rp_clamped = rp_clamped (pf_sum f) + n\<rparr>,
        pf_err := (case (pr_err (np_recs s ! r), pf_err f) of (Some e, None) \<Rightarrow> Some e | (_, y) \<Rightarrow> y)\<rparr>])"
    and t: "outstanding s' = outstanding s" "unread s' = unread s" "under_way s' = under_way s" "low_pieces s' = low_pieces s"
    and F: "add_mset r (to_finish s') = to_finish s" and Y: "to_reply s' = add_mset r (to_reply s)"
    by (rule finish_record_parts [OF s' i]) blast
  have inv': "pieces_inv s" "phase_inv s" "reading_inv cnq s" "report_inv cnq s" using inv by (simp_all add: pool_inv_def)
  note ph = phase_invD [OF inv'(2)]
  let ?k = "pr_fetch (np_recs s ! r)"
  have rf: "r \<in># to_finish s" unfolding F [symmetric] by simp
  have rl: "r < length (np_recs s)" "pr_left (np_recs s ! r) = 0" using ph(1) [OF rf] by simp_all
  have kl: "?k < length (np_fetches s)" by (rule ph(5) [OF rl(1)])
  have nl: "\<not> landed s r" using rf by (simp add: landed_def)
  have rn: "r \<notin># to_finish s'" "r \<notin># to_reply s" using ph(3) [of r] unfolding F [symmetric] by (simp_all add: not_in_iff)
  have recs: "length (np_recs s') = length (np_recs s)" "pr_job (np_recs s' ! q) = pr_job (np_recs s ! q)" "pr_fetch (np_recs s' ! q) = pr_fetch (np_recs s ! q)"
    "pr_left (np_recs s' ! q) = pr_left (np_recs s ! q)" "pr_bytes (np_recs s' ! q) = pr_bytes (np_recs s ! q)"
    "q \<noteq> r \<Longrightarrow> pr_err (np_recs s' ! q) = pr_err (np_recs s ! q)" for q
    using rl by (simp_all add: w nth_list_update)
  have sr: "same_records s s'" by (simp add: same_records_def recs w(3))
  note v = same_records_views [OF sr]
  have l: "landed s' q \<longleftrightarrow> landed s q \<or> q = r" for q
    using rl rn(1) unfolding landed_def recs F [symmetric] by auto
  have b: "booked s' q \<longleftrightarrow> booked s q" for q using nl rn unfolding booked_def l Y by auto
  have fl: "length (np_fetches s') = length (np_fetches s)" "pf_left (np_fetches s' ! f) = pf_left (np_fetches s ! f)"
    "pf_reply (np_fetches s' ! f) = pf_reply (np_fetches s ! f)" "f \<noteq> ?k \<Longrightarrow> np_fetches s' ! f = np_fetches s ! f" for f
    using kl by (simp_all add: fs Let_def nth_list_update)
  have "pieces_inv s'" by (rule same_pieces [OF sr _ t(1,3) w(5) t(4) inv'(1)]) (simp add: recs)
  moreover have "phase_inv s'"
  proof -
    have "\<forall>q \<in># to_finish s' + to_reply s'. q < length (np_recs s') \<and> pr_left (np_recs s' ! q) = 0"
      using ph(1,2) rl unfolding recs Y F [symmetric] by auto
    moreover have "\<forall>q. count (to_finish s' + to_reply s') q \<le> 1"
    proof
      fix q show "count (to_finish s' + to_reply s') q \<le> 1" using ph(3) [of q] unfolding Y F [symmetric] by (auto split: if_splits)
    qed
    moreover have "np_in_flight s' = card {q. q < length (np_recs s') \<and> \<not> landed s' q}"
    proof -
      have "{q. q < length (np_recs s') \<and> \<not> landed s' q} = {q. q < length (np_recs s) \<and> \<not> landed s q} - {r}" unfolding recs l by auto
      then show ?thesis using nl rl(1) by (simp add: w(4) ph(4))
    qed
    moreover have "set (np_flags s') = {x. \<exists>q. landed s' q \<and> jb_landed (pr_job (np_recs s' ! q)) = Some x}"
      unfolding l recs w(6) using ph(8) by (auto split: option.split)
    ultimately show ?thesis using ph(5,6,7) unfolding phase_inv_def recs fl b v by blast
  qed
  moreover have "reading_inv cnq s'"
    unfolding reading_inv_def
  proof (intro allI impI)
    fix q assume q: "q < length (np_recs s')" "\<not> landed s' q" "pr_err (np_recs s' ! q) = None"
    then have qr: "q \<noteq> r" by (simp add: l)
    have "record_reading cnq s q" using inv'(3) q qr by (simp add: reading_inv_def recs l)
    moreover have "np_mem s' q = np_mem s q" using d qr by (auto simp: w(2) sanitize_record_def split: if_splits)
    ultimately show "record_reading cnq s' q" using same_reading [OF sr] recs t by simp
  qed
  moreover have "report_inv cnq s'"
  proof -
    let ?f = "np_fetches s ! ?k" and ?f' = "np_fetches s' ! ?k"
    have fk: "?f' = ?f\<lparr>pf_sum := \<lparr>rp_records = rp_records (pf_sum ?f) + 1, rp_bytes = rp_bytes (pf_sum ?f) + pr_bytes (np_recs s ! r),
        rp_clamped = rp_clamped (pf_sum ?f) + n\<rparr>, pf_err := (case (pr_err (np_recs s ! r), pf_err ?f) of (Some e, None) \<Rightarrow> Some e | (_, y) \<Rightarrow> y)\<rparr>"
      using kl by (simp add: fs Let_def)
    have ok: "fetch_failed (np_fetches s' ! f) \<longleftrightarrow> fetch_failed (np_fetches s ! f) \<or> f = ?k \<and> pr_err (np_recs s ! r) \<noteq> None" for f
      using fl(4) [of f] by (cases "f = ?k") (auto simp: fk fetch_failed_def split: option.splits)
    have own: "holds_record cnq s' r \<and> n = clamps cnq (rec_of s r) \<and> pr_bytes (np_recs s ! r) = record_bytes (rec_of s r)"
      if e: "pr_err (np_recs s ! r) = None"
    proof -
      have rd: "record_reading cnq s r" using inv'(3) rl nl e by (simp add: reading_inv_def)
      note c = complete_record [OF inv'(1) rl rd]
      have d': "sanitize_record r (rec_of s r) (s\<lparr>np_recs := (np_recs s)[r := (np_recs s ! r)\<lparr>pr_err := None\<rparr>]\<rparr>) = (s1, n)" using d e by simp
      note z = sanitized_record [OF c(1) d']
      show ?thesis using z(1,4) c(2) by (simp add: holds_record_def v w(2))
    qed
    have hold: "holds_record cnq s' q" if "holds_record cnq s q" "q \<noteq> r" for q
    proof -
      have "np_mem s' q = np_mem s q" using d that(2) by (auto simp: w(2) sanitize_record_def split: if_splits)
      then show ?thesis using that(1) by (simp add: holds_record_def v)
    qed
    have "\<not> booked s r" using nl by (simp add: booked_def)
    note kr = kl open_fetch(4) [OF inv'(2) rl(1) this refl]
    have sums: "pf_sum ?f' = sums_of cnq s {q \<in> records_of s ?k. landed s' q}" if "\<not> fetch_failed ?f'"
    proof -
      have e: "pr_err (np_recs s ! r) = None" "\<not> fetch_failed ?f" using that ok by auto
      have "{q \<in> records_of s ?k. landed s' q} = insert r {q \<in> records_of s ?k. landed s q}" using rl by (auto simp: l records_of_def)
      moreover have "pf_sum ?f = sums_of cnq s {q \<in> records_of s ?k. landed s q}" using inv'(4) kl e(2) kr(2) by (simp add: report_inv_def)
      ultimately show ?thesis using own [OF e(1)] nl by (simp add: fk sums_of_def)
    qed
    have "\<forall>q. landed s' q \<longrightarrow> \<not> fetch_failed (np_fetches s' ! pr_fetch (np_recs s' ! q)) \<longrightarrow> holds_record cnq s' q"
      using inv'(4) own hold unfolding report_inv_def l recs ok by blast
    moreover have "\<forall>f < length (np_fetches s'). \<not> fetch_failed (np_fetches s' ! f) \<longrightarrow> pf_reply (np_fetches s' ! f) = None
        \<longrightarrow> pf_sum (np_fetches s' ! f) = sums_of cnq s' {q \<in> records_of s' f. landed s' q}"
    proof (intro allI impI)
      fix f assume f: "f < length (np_fetches s')" "\<not> fetch_failed (np_fetches s' ! f)" "pf_reply (np_fetches s' ! f) = None"
      show "pf_sum (np_fetches s' ! f) = sums_of cnq s' {q \<in> records_of s' f. landed s' q}"
      proof (cases "f = ?k")
        case True
        then show ?thesis using sums f(2) by (simp add: v)
      next
        case False
        then have "{q \<in> records_of s f. landed s' q} = {q \<in> records_of s f. landed s q}" by (auto simp: l records_of_def)
        then show ?thesis using inv'(4) f False fl by (simp add: report_inv_def v)
      qed
    qed
    moreover have "\<forall>f < length (np_fetches s'). pf_reply (np_fetches s' ! f) \<noteq> None \<longrightarrow> pf_err (np_fetches s' ! f) = None"
      using inv'(4) kr fl unfolding report_inv_def by metis
    ultimately show ?thesis using inv'(4) unfolding report_inv_def v fl by blast
  qed
  ultimately show ?thesis by (simp add: s' pool_inv_def)
qed

text \<open>The count of the fetch, and its reply.\<close>

lemma send_reply_inv:
  assumes inv: "pool_inv cnq s" and i: "i < length (np_workers s)" "np_workers s ! i = Replying r"
  shows "pool_inv cnq (send_reply i r s)"
proof -
  let ?s' = "send_reply i r s" and ?k = "pr_fetch (np_recs s ! r)"
  let ?f = "np_fetches s ! ?k" and ?f' = "np_fetches ?s' ! ?k"
  have inv': "pieces_inv s" "phase_inv s" "reading_inv cnq s" "report_inv cnq s" using inv by (simp_all add: pool_inv_def)
  note ph = phase_invD [OF inv'(2)]
  have m: "r \<in># tally replying (np_workers s)" using in_tally_nth [OF i(1), of r replying] by (simp add: i worker_shares)
  have fields: "np_recs ?s' = np_recs s" "np_mem ?s' = np_mem s" "np_piece ?s' = np_piece s" "np_in_flight ?s' = np_in_flight s"
    "np_lo_running ?s' = np_lo_running s" "np_flags ?s' = np_flags s"
    by (simp_all add: send_reply_def Let_def)
  have t: "outstanding ?s' = outstanding s" "unread ?s' = unread s" "under_way ?s' = under_way s" "low_pieces ?s' = low_pieces s"
    "to_finish ?s' = to_finish s"
    using i by (simp_all add: send_reply_def Let_def tallies tally_same [OF i(1)] worker_shares)
  have Y: "add_mset r (to_reply ?s') = to_reply s"
    using i m by (simp add: send_reply_def Let_def tallies tally_update [OF i(1)] worker_shares)
  have ry: "r \<in># to_reply s" unfolding Y [symmetric] by simp
  have rl: "r < length (np_recs s)" "pr_left (np_recs s ! r) = 0" using ph(2) [OF ry] by simp_all
  have rn: "r \<notin># to_finish s" "r \<notin># to_reply ?s'" using ph(3) [of r] unfolding Y [symmetric] by (simp_all add: not_in_iff)
  have kl: "?k < length (np_fetches s)" by (rule ph(5) [OF rl(1)])
  have sr: "same_records s ?s'" by (simp add: same_records_def fields)
  note v = same_records_views [OF sr]
  have l: "landed ?s' = landed s" by (simp add: landed_def fields t fun_eq_iff)
  have lr: "landed s r" using rl rn by (simp add: landed_def)
  have b: "booked ?s' q \<longleftrightarrow> booked s q \<or> q = r" for q
    using lr rn unfolding booked_def l Y [symmetric] by auto
  have nb: "\<not> booked s r" using ry by (simp add: booked_def)
  have fl: "length (np_fetches ?s') = length (np_fetches s)" "f \<noteq> ?k \<Longrightarrow> np_fetches ?s' ! f = np_fetches s ! f" for f
    by (simp_all add: send_reply_def Let_def)
  have fk: "?f' = (if pf_left ?f = 1 then ?f\<lparr>pf_left := 0, pf_sum := no_report, pf_err := None,
      pf_reply := (case pf_reply ?f of None \<Rightarrow> Some (case pf_err ?f of Some e \<Rightarrow> Inl e | None \<Rightarrow> Inr (pf_sum ?f)) | y \<Rightarrow> y)\<rparr>
    else ?f\<lparr>pf_left := pf_left ?f - 1\<rparr>)"
    using kl by (simp add: send_reply_def Let_def)
  let ?B = "{q \<in> records_of s ?k. \<not> booked s q}"
  have rB: "r \<in> ?B" using rl nb by (simp add: records_of_def)
  note left = open_fetch(2-4) [OF inv'(2) rl(1) nb refl]
  have B': "{q \<in> records_of s ?k. \<not> booked ?s' q} = ?B - {r}" by (auto simp: b)
  have kn: "pf_left ?f' = card {q \<in> records_of s ?k. \<not> booked ?s' q}" "pf_left ?f' = 0 \<longleftrightarrow> pf_reply ?f' \<noteq> None"
    using left rB by (simp_all add: fk B')
  have "pieces_inv ?s'" by (rule same_pieces [OF sr _ t(1,3) fields(5) t(4) inv'(1)]) (simp add: fields)
  moreover have "phase_inv ?s'"
  proof -
    have "\<forall>q \<in># to_finish ?s' + to_reply ?s'. q < length (np_recs s) \<and> pr_left (np_recs s ! q) = 0"
      using ph(1,2) unfolding t Y [symmetric] by auto
    moreover have "\<forall>q. count (to_finish ?s' + to_reply ?s') q \<le> 1"
    proof
      fix q show "count (to_finish ?s' + to_reply ?s') q \<le> 1" using ph(3) [of q] unfolding t Y [symmetric] by (auto split: if_splits)
    qed
    moreover have "\<forall>f < length (np_fetches s). pf_left (np_fetches ?s' ! f) = card {q \<in> records_of s f. \<not> booked ?s' q}
        \<and> (pf_left (np_fetches ?s' ! f) = 0 \<longleftrightarrow> pf_reply (np_fetches ?s' ! f) \<noteq> None)"
    proof (intro allI impI)
      fix f assume f: "f < length (np_fetches s)"
      show "pf_left (np_fetches ?s' ! f) = card {q \<in> records_of s f. \<not> booked ?s' q}
        \<and> (pf_left (np_fetches ?s' ! f) = 0 \<longleftrightarrow> pf_reply (np_fetches ?s' ! f) \<noteq> None)"
      proof (cases "f = ?k")
        case False
        then have "{q \<in> records_of s f. \<not> booked ?s' q} = {q \<in> records_of s f. \<not> booked s q}" by (auto simp: b records_of_def)
        then show ?thesis using ph(6,7) [OF f] fl(2) [OF False] by simp
      qed (use kn in simp)
    qed
    ultimately show ?thesis using ph(4,5,8) unfolding phase_inv_def fields fl l v by blast
  qed
  moreover have "reading_inv cnq ?s'"
    using inv'(3) same_reading [OF sr, of _ cnq] unfolding reading_inv_def l fields t by simp
  moreover have "report_inv cnq ?s'"
  proof -
    have ok: "fetch_failed (np_fetches ?s' ! f) = fetch_failed (np_fetches s ! f)" for f
      using fl(2) [of f] left(3) by (cases "f = ?k") (auto simp: fk fetch_failed_def split: option.splits)
    have rep: "rep = sums_of cnq s (records_of s ?k)" if "pf_reply ?f' = Some (Inr rep)" for rep
    proof -
      have c: "card ?B = 1" using that left by (simp add: fk split: if_splits)
      then have "?B = {r}" using rB by (metis (no_types, lifting) card_1_singletonE singletonD)
      then have all: "{q \<in> records_of s ?k. landed s q} = records_of s ?k" using lr by (auto simp: booked_def)
      have e: "pf_err ?f = None" "rep = pf_sum ?f" using that left(1,3) c by (auto simp: fk split: option.splits)
      then have "\<not> fetch_failed ?f" using left(3) by (simp add: fetch_failed_def)
      then show ?thesis using inv'(4) kl left(3) e(2) all by (simp add: report_inv_def)
    qed
    have h: "holds_record cnq ?s' = holds_record cnq s" by (simp add: holds_record_def v fields fun_eq_iff)
    have "\<forall>f < length (np_fetches s).
          (\<not> fetch_failed (np_fetches s ! f) \<longrightarrow> pf_reply (np_fetches ?s' ! f) = None
             \<longrightarrow> pf_sum (np_fetches ?s' ! f) = sums_of cnq s {q \<in> records_of s f. landed s q})
          \<and> (\<forall>rep. pf_reply (np_fetches ?s' ! f) = Some (Inr rep) \<longrightarrow> rep = sums_of cnq s (records_of s f))
          \<and> (pf_reply (np_fetches ?s' ! f) \<noteq> None \<longrightarrow> pf_err (np_fetches ?s' ! f) = None)"
    proof (intro allI impI)
      fix f assume f: "f < length (np_fetches s)"
      show "(\<not> fetch_failed (np_fetches s ! f) \<longrightarrow> pf_reply (np_fetches ?s' ! f) = None
             \<longrightarrow> pf_sum (np_fetches ?s' ! f) = sums_of cnq s {q \<in> records_of s f. landed s q})
          \<and> (\<forall>rep. pf_reply (np_fetches ?s' ! f) = Some (Inr rep) \<longrightarrow> rep = sums_of cnq s (records_of s f))
          \<and> (pf_reply (np_fetches ?s' ! f) \<noteq> None \<longrightarrow> pf_err (np_fetches ?s' ! f) = None)"
      proof (cases "f = ?k")
        case True
        have "pf_sum ?f' = pf_sum ?f \<and> pf_left ?f \<noteq> 1" if "pf_reply ?f' = None"
          using that left(3) by (auto simp: fk split: if_splits)
        moreover have "pf_err ?f' = None" if "pf_reply ?f' \<noteq> None" using that left(3) by (auto simp: fk split: if_splits)
        ultimately show ?thesis using inv'(4) kl left(3) rep True by (simp add: report_inv_def)
      next
        case False
        then show ?thesis using inv'(4) f fl(2) by (simp add: report_inv_def)
      qed
    qed
    then show ?thesis using inv'(4) unfolding report_inv_def l v fields fl ok h by blast
  qed
  ultimately show ?thesis by (simp add: pool_inv_def)
qed

lemma pool_step_inv:
  assumes "pool_step cnq s s'" "pool_inv cnq s"
  shows "pool_inv cnq s'"
  using assms(1)
proof cases
  case (step_top i)
  then show ?thesis using take_piece_inv [OF assms(2)] by simp
next
  case (step_read i p low n res)
  then show ?thesis using read_some_inv [OF assms(2)] by simp
next
  case (step_low i p)
  then show ?thesis using low_done_inv [OF assms(2)] by simp
next
  case (step_low_notify i p w)
  have "w \<noteq> i" using step_low_notify by auto
  then have "np_workers (low_done i p s) ! w = Waiting" "w < length (np_workers (low_done i p s))"
    using step_low_notify by (simp_all add: low_done_def)
  then show ?thesis using step_low_notify low_done_inv [OF assms(2)] idle_inv by simp
next
  case (step_count i p)
  then show ?thesis using count_down_inv [OF assms(2)] by simp
next
  case (step_finish i r)
  then show ?thesis using finish_record_inv [OF assms(2)] by simp
next
  case (step_reply i r)
  then show ?thesis using send_reply_inv [OF assms(2)] by simp
qed

section \<open>The caller's operations\<close>

lemma filter_concat_pieces:
  assumes "\<And>k p. k < n \<Longrightarrow> p \<in> set (f k) \<Longrightarrow> pc_rec p = b + k"
  shows "filter_mset (\<lambda>p. pc_rec p = r) (mset (concat (map f [0..<n]))) = (if b \<le> r \<and> r < b + n then mset (f (r - b)) else {#})"
  using assms
proof (induction n)
  case (Suc n)
  have IH: "filter_mset (\<lambda>p. pc_rec p = r) (mset (concat (map f [0..<n]))) = (if b \<le> r \<and> r < b + n then mset (f (r - b)) else {#})"
    using Suc.prems by (intro Suc.IH) simp
  have "filter_mset (\<lambda>p. pc_rec p = r) (mset (f n)) = (if r = b + n then mset (f n) else {#})"
  proof (cases "r = b + n")
    case True
    then have "filter_mset (\<lambda>p. pc_rec p = r) (mset (f n)) = filter_mset (\<lambda>_. True) (mset (f n))"
      using Suc.prems [of n] by (intro filter_mset_cong) simp_all
    then show ?thesis using True by simp
  next
    case False
    then have "filter_mset (\<lambda>p. pc_rec p = r) (mset (f n)) = filter_mset (\<lambda>_. False) (mset (f n))"
      using Suc.prems [of n] by (intro filter_mset_cong) auto
    then show ?thesis using False by simp
  qed
  then show ?case using IH by auto
qed auto

lemma div_ceil_pos: "0 < d \<Longrightarrow> 0 < n \<Longrightarrow> 0 < div_ceil n d"
  by (simp add: div_ceil_step)

text \<open>The effect of \<open>Pool::submit\<close> with at least one job: new records, a new fetch, new pieces in a queue.\<close>

definition submitted :: "nvme_pool \<Rightarrow> nvme_pool \<Rightarrow> job list \<Rightarrow> bool" where
  "submitted s s' js \<longleftrightarrow> (let N = mset (concat (map (\<lambda>k. record_pieces (np_piece s) (length (np_recs s) + k) (jb_rec (js ! k))) [0..<length js])) in
     js \<noteq> [] \<and> (\<forall>j \<in> set js. \<exists>sp \<in> set (parts (jb_rec j)). 0 < sp_len sp)
     \<and> np_recs s' = np_recs s @ map (pool_record_new (np_piece s) (length (np_fetches s))) js
     \<and> np_fetches s' = np_fetches s @ [\<lparr>pf_left = length js, pf_sum = no_report, pf_err = None, pf_reply = None\<rparr>]
     \<and> np_mem s' = np_mem s \<and> np_piece s' = np_piece s \<and> np_flags s' = np_flags s \<and> np_lo_running s' = np_lo_running s
     \<and> np_in_flight s' = np_in_flight s + length js \<and> under_way s' = under_way s \<and> low_pieces s' = low_pieces s
     \<and> to_finish s' = to_finish s \<and> to_reply s' = to_reply s \<and> outstanding s' = outstanding s + N \<and> unread s' = unread s + N)"

lemma submittedD:
  assumes "submitted s s' js"
  shows "js \<noteq> []" "j \<in> set js \<Longrightarrow> \<exists>sp \<in> set (parts (jb_rec j)). 0 < sp_len sp"
    "np_recs s' = np_recs s @ map (pool_record_new (np_piece s) (length (np_fetches s))) js"
    "np_fetches s' = np_fetches s @ [\<lparr>pf_left = length js, pf_sum = no_report, pf_err = None, pf_reply = None\<rparr>]"
    "np_mem s' = np_mem s" "np_piece s' = np_piece s" "np_flags s' = np_flags s" "np_lo_running s' = np_lo_running s"
    "np_in_flight s' = np_in_flight s + length js" "under_way s' = under_way s" "low_pieces s' = low_pieces s"
    "to_finish s' = to_finish s" "to_reply s' = to_reply s"
    "outstanding s' = outstanding s + mset (concat (map (\<lambda>k. record_pieces (np_piece s) (length (np_recs s) + k) (jb_rec (js ! k))) [0..<length js]))"
    "unread s' = unread s + mset (concat (map (\<lambda>k. record_pieces (np_piece s) (length (np_recs s) + k) (jb_rec (js ! k))) [0..<length js]))"
    "length (np_recs s') = length (np_recs s) + length js"
  using assms by (simp_all add: submitted_def Let_def)

lemma submitted_recs:
  assumes "submitted s s' js"
  shows "r < length (np_recs s) \<Longrightarrow> np_recs s' ! r = np_recs s ! r" "r < length (np_recs s) \<Longrightarrow> rec_of s' r = rec_of s r"
    "k < length js \<Longrightarrow> np_recs s' ! (length (np_recs s) + k) = pool_record_new (np_piece s) (length (np_fetches s)) (js ! k)"
    "k < length js \<Longrightarrow> rec_of s' (length (np_recs s) + k) = jb_rec (js ! k)"
    "r < length (np_recs s') \<Longrightarrow> \<not> r < length (np_recs s) \<Longrightarrow> \<exists>k < length js. r = length (np_recs s) + k"
  unfolding rec_of_def submittedD(3) [OF assms] by (simp_all add: nth_append pool_record_new_def) presburger

lemma submitted_left:
  assumes "submitted s s' js" "0 < np_piece s" "k < length js"
  shows "0 < pr_left (np_recs s' ! (length (np_recs s) + k))"
proof -
  obtain sp where sp: "sp \<in> set (parts (jb_rec (js ! k)))" "0 < sp_len sp" using submittedD(2) [OF assms(1), of "js ! k"] assms(3) by auto
  have "0 < div_ceil (sp_len sp) (np_piece s)" by (rule div_ceil_pos [OF assms(2) sp(2)])
  moreover have "div_ceil (sp_len sp) (np_piece s) \<le> sum_list (map (\<lambda>t. div_ceil (sp_len t) (np_piece s)) (parts (jb_rec (js ! k))))"
    using sp(1) by (intro member_le_sum_list) auto
  ultimately show ?thesis by (simp add: submitted_recs(3) [OF assms(1,3)] pool_record_new_def)
qed

lemma submitted_landed:
  assumes "submitted s s' js" "0 < np_piece s"
  shows "landed s' r \<longleftrightarrow> landed s r" "booked s' r \<longleftrightarrow> booked s r"
proof -
  note d = submittedD [OF assms(1)]
  show l: "landed s' r \<longleftrightarrow> landed s r"
  proof (cases "r < length (np_recs s)")
    case True
    then show ?thesis by (simp add: landed_def d(12,16) submitted_recs(1) [OF assms(1)])
  next
    case False
    have "\<not> landed s' r"
    proof
      assume l: "landed s' r"
      then obtain k where "k < length js" "r = length (np_recs s) + k"
        using submitted_recs(5) [OF assms(1) _ False] by (auto simp: landed_def)
      then show False using submitted_left [OF assms] l by (fastforce simp: landed_def)
    qed
    then show ?thesis using False by (simp add: landed_def)
  qed
  show "booked s' r \<longleftrightarrow> booked s r" by (simp add: booked_def l d)
qed

lemma submitted_pieces:
  assumes "submitted s s' js" "pieces_inv s"
  shows "filter_mset (\<lambda>p. pc_rec p = r) (outstanding s') = (if r < length (np_recs s) then filter_mset (\<lambda>p. pc_rec p = r) (outstanding s)
      else if r < length (np_recs s') then mset (record_pieces (np_piece s) r (rec_of s' r)) else {#})" (is ?o)
    "filter_mset (\<lambda>p. pc_rec p = r) (unread s') = (if r < length (np_recs s) then filter_mset (\<lambda>p. pc_rec p = r) (unread s)
      else if r < length (np_recs s') then mset (record_pieces (np_piece s) r (rec_of s' r)) else {#})" (is ?u)
proof -
  note d = submittedD [OF assms(1)]
  let ?b = "length (np_recs s)"
  have new: "filter_mset (\<lambda>p. pc_rec p = r) (mset (concat (map (\<lambda>k. record_pieces (np_piece s) (?b + k) (jb_rec (js ! k))) [0..<length js])))
      = (if ?b \<le> r \<and> r < ?b + length js then mset (record_pieces (np_piece s) (?b + (r - ?b)) (jb_rec (js ! (r - ?b)))) else {#})"
    by (rule filter_concat_pieces) (rule record_piece_rec)
  have rn: "jb_rec (js ! (r - ?b)) = rec_of s' r" if "?b \<le> r" "r < ?b + length js"
    using submitted_recs(4) [OF assms(1), of "r - ?b"] that by simp
  have old: "\<not> r < ?b \<Longrightarrow> p \<in># outstanding s \<Longrightarrow> pc_rec p \<noteq> r" for p using assms(2) by (auto simp: pieces_inv_def)
  then have "filter_mset (\<lambda>p. pc_rec p = r) (outstanding s) = {#}" "filter_mset (\<lambda>p. pc_rec p = r) (unread s) = {#}" if "\<not> r < ?b"
    using that unread_outstanding by (fastforce simp flip: set_mset_eq_empty_iff)+
  then show ?o ?u using new rn by (simp_all add: d(14-16))
qed

lemma submitted_records:
  assumes "submitted s s' js" "phase_inv s"
  shows "g < length (np_fetches s) \<Longrightarrow> records_of s' g = records_of s g"
    "records_of s' (length (np_fetches s)) = {length (np_recs s)..<length (np_recs s) + length js}"
proof -
  note d = submittedD [OF assms(1)]
  have new: "pr_fetch (np_recs s' ! r) = length (np_fetches s)" if "r < length (np_recs s')" "\<not> r < length (np_recs s)" for r
    using submitted_recs(5) [OF assms(1) that] submitted_recs(3) [OF assms(1)] by (auto simp: pool_record_new_def)
  have old: "pr_fetch (np_recs s' ! r) = pr_fetch (np_recs s ! r)" "pr_fetch (np_recs s ! r) \<noteq> length (np_fetches s)" if "r < length (np_recs s)" for r
    using submitted_recs(1) [OF assms(1) that] phase_invD(5) [OF assms(2) that] by simp_all
  show "g < length (np_fetches s) \<Longrightarrow> records_of s' g = records_of s g"
    using new old(1) by (auto simp: records_of_def d(16)) (metis d(16) less_irrefl)+
  show "records_of s' (length (np_fetches s)) = {length (np_recs s)..<length (np_recs s) + length js}"
    using new old by (auto simp: records_of_def d(16)) (metis not_less)+
qed

lemma submitted_phase:
  assumes S: "submitted s s' js" and p: "pieces_inv s" and h: "phase_inv s"
  shows "phase_inv s'"
proof -
  note d = submittedD [OF S]
  have pos: "0 < np_piece s" using p by (simp add: pieces_inv_def)
  note l = submitted_landed [OF S pos] and ph = phase_invD [OF h] and r = submitted_recs [OF S] and ro = submitted_records [OF S h]
  let ?b = "length (np_recs s)" and ?f = "length (np_fetches s)"
  have "\<forall>q \<in># to_finish s' + to_reply s'. q < length (np_recs s') \<and> pr_left (np_recs s' ! q) = 0"
    using ph(1,2) r(1) by (auto simp: d(12,13,16) trans_less_add1)
  moreover have "\<forall>q. count (to_finish s' + to_reply s') q \<le> 1" using ph(3) by (simp add: d(12,13))
  moreover have "np_in_flight s' = card {q. q < length (np_recs s') \<and> \<not> landed s' q}"
  proof -
    have "{q. q < length (np_recs s') \<and> \<not> landed s' q} = {q. q < ?b \<and> \<not> landed s q} \<union> {?b..<?b + length js}"
    proof -
      have "landed s q \<Longrightarrow> q < ?b" for q by (simp add: landed_def)
      then show ?thesis unfolding l d(16) by fastforce
    qed
    moreover have "card ({q. q < ?b \<and> \<not> landed s q} \<union> {?b..<?b + length js}) = card {q. q < ?b \<and> \<not> landed s q} + length js"
      by (subst card_Un_disjoint) auto
    ultimately show ?thesis by (simp add: d(9) ph(4))
  qed
  moreover have "\<forall>q < length (np_recs s'). pr_fetch (np_recs s' ! q) < length (np_fetches s')"
  proof (intro allI impI)
    fix q assume q: "q < length (np_recs s')"
    show "pr_fetch (np_recs s' ! q) < length (np_fetches s')"
    proof (cases "q < ?b")
      case True
      then show ?thesis using ph(5) [OF True] by (simp add: r(1) d(4))
    next
      case False
      then obtain k where "k < length js" "q = ?b + k" using r(5) [OF q] by blast
      then show ?thesis by (simp add: r(3) d(4) pool_record_new_def)
    qed
  qed
  moreover have "\<forall>f < length (np_fetches s'). pf_left (np_fetches s' ! f) = card {q \<in> records_of s' f. \<not> booked s' q}
      \<and> (pf_left (np_fetches s' ! f) = 0 \<longleftrightarrow> pf_reply (np_fetches s' ! f) \<noteq> None)"
  proof (intro allI impI)
    fix f assume f: "f < length (np_fetches s')"
    show "pf_left (np_fetches s' ! f) = card {q \<in> records_of s' f. \<not> booked s' q}
      \<and> (pf_left (np_fetches s' ! f) = 0 \<longleftrightarrow> pf_reply (np_fetches s' ! f) \<noteq> None)"
    proof (cases "f < ?f")
      case True
      then show ?thesis using ph(6,7) [OF True] by (simp add: ro(1) l d(4) nth_append)
    next
      case False
      then have e: "f = ?f" using f by (simp add: d(4))
      have "{q \<in> records_of s' ?f. \<not> booked s' q} = {?b..<?b + length js}" unfolding ro(2) l by (auto simp: booked_def landed_def)
      then show ?thesis using d(1) by (simp add: e d(4))
    qed
  qed
  moreover have "set (np_flags s') = {x. \<exists>q. landed s' q \<and> jb_landed (pr_job (np_recs s' ! q)) = Some x}"
  proof -
    have "landed s q \<Longrightarrow> np_recs s' ! q = np_recs s ! q" for q by (rule r(1)) (simp add: landed_def)
    then show ?thesis unfolding d(7) l using ph(8) by auto
  qed
  ultimately show ?thesis unfolding phase_inv_def by blast
qed

lemma submitted_reading:
  assumes S: "submitted s s' js" and p: "pieces_inv s" and h: "reading_inv cnq s"
  shows "reading_inv cnq s'"
  unfolding reading_inv_def
proof (intro allI impI)
  note d = submittedD [OF S] and r = submitted_recs [OF S]
  have pos: "0 < np_piece s" using p by (simp add: pieces_inv_def)
  note l = submitted_landed [OF S pos] and f = submitted_pieces [OF S p]
  fix q assume q: "q < length (np_recs s')" "\<not> landed s' q" "pr_err (np_recs s' ! q) = None"
  have u: "x \<in># unread s' \<longleftrightarrow> x \<in># filter_mset (\<lambda>x. pc_rec x = q) (unread s')" if "pc_rec x = q" for x using that by simp
  have br: "byte_read cnq s' q k x = byte_read cnq s q k x" if "rec_of s' q = rec_of s q" for k x
    by (simp add: byte_read_def that d(5))
  show "record_reading cnq s' q"
  proof (cases "q < length (np_recs s)")
    case True
    have rd: "record_reading cnq s q" using h q True by (simp add: reading_inv_def l r(1))
    have "x \<in># unread s' \<longleftrightarrow> x \<in># unread s" if "pc_rec x = q" for x unfolding u [OF that] f(2) using that True by simp
    then show ?thesis using rd unfolding record_reading_def f(2) br [OF r(2) [OF True]] d(6,10) r(1,2) [OF True]
      by (simp add: True) (fastforce dest: record_piece_rec)
  next
    case False
    then obtain k where k: "k < length js" "q = length (np_recs s) + k" using r(5) [OF q(1)] by blast
    have e: "filter_mset (\<lambda>x. pc_rec x = q) (unread s') = mset (record_pieces (np_piece s) q (rec_of s' q))" using f(2) [of q] False q(1) by simp
    have "x \<in># unread s'" if "x \<in> set (record_pieces (np_piece s) q (rec_of s' q))" for x
      using u [OF record_piece_rec [OF that]] that e by simp
    moreover have "pc_rec (fst x) \<noteq> q" if "x \<in># under_way s" for x
    proof -
      have "fst x \<in># outstanding s" using that by (rule under_way_outstanding)
      then show ?thesis using p False by (auto simp: pieces_inv_def)
    qed
    moreover have "pr_bytes (np_recs s' ! q) = 0" by (simp add: k r(3) pool_record_new_def)
    moreover have "sum_mset (image_mset pc_len (mset (record_pieces (np_piece s) q (rec_of s' q)))) = record_bytes (rec_of s' q)"
      using record_pieces_total(1) [OF pos, of q "rec_of s' q"] by (metis mset_map sum_mset_sum_list)
    ultimately show ?thesis unfolding record_reading_def e d(6,10) by fastforce
  qed
qed

lemma submitted_report:
  assumes S: "submitted s s' js" and p: "pieces_inv s" and ph: "phase_inv s" and h: "report_inv cnq s"
  shows "report_inv cnq s'"
proof -
  note d = submittedD [OF S] and r = submitted_recs [OF S] and ro = submitted_records [OF S ph]
  have pos: "0 < np_piece s" using p by (simp add: pieces_inv_def)
  note l = submitted_landed [OF S pos]
  have old: "q < length (np_recs s)" if "landed s q" for q using that by (simp add: landed_def)
  have fo: "np_fetches s' ! f = np_fetches s ! f" if "f < length (np_fetches s)" for f using that by (simp add: d(4) nth_append)
  have so: "sums_of cnq s' R = sums_of cnq s R" if "R \<subseteq> {..<length (np_recs s)}" for R
    using that r(2) by (auto simp: sums_of_def intro!: sum.cong)
  have "holds_record cnq s' q" if q: "landed s q" "\<not> fetch_failed (np_fetches s' ! pr_fetch (np_recs s' ! q))" for q
  proof -
    have "\<not> fetch_failed (np_fetches s ! pr_fetch (np_recs s ! q))"
      using q(2) phase_invD(5) [OF ph old [OF q(1)]] by (simp add: r(1) [OF old [OF q(1)]] fo)
    then have "holds_record cnq s q" using h q(1) by (simp add: report_inv_def)
    then show ?thesis by (simp add: holds_record_def r(2) [OF old [OF q(1)]] d(5))
  qed
  moreover have "(\<not> fetch_failed (np_fetches s' ! f) \<longrightarrow> pf_reply (np_fetches s' ! f) = None
             \<longrightarrow> pf_sum (np_fetches s' ! f) = sums_of cnq s' {q \<in> records_of s' f. landed s' q})
          \<and> (\<forall>rep. pf_reply (np_fetches s' ! f) = Some (Inr rep) \<longrightarrow> rep = sums_of cnq s' (records_of s' f))
          \<and> (pf_reply (np_fetches s' ! f) \<noteq> None \<longrightarrow> pf_err (np_fetches s' ! f) = None)" if f: "f < length (np_fetches s')" for f
  proof (cases "f < length (np_fetches s)")
    case True
    have "records_of s f \<subseteq> {..<length (np_recs s)}" by (auto simp: records_of_def)
    then have "sums_of cnq s' (records_of s f) = sums_of cnq s (records_of s f)"
      "sums_of cnq s' {q \<in> records_of s f. landed s q} = sums_of cnq s {q \<in> records_of s f. landed s q}" by (auto intro!: so)
    then show ?thesis using h True by (simp add: report_inv_def fo ro(1) l)
  next
    case False
    then have e: "f = length (np_fetches s)" using f by (simp add: d(4))
    have n: "{q \<in> records_of s' (length (np_fetches s)). landed s' q} = {}" unfolding ro(2) l using old by fastforce
    show ?thesis unfolding e n by (simp add: d(4) sums_of_def no_report_def)
  qed
  ultimately show ?thesis unfolding report_inv_def l by blast
qed

lemma submitted_inv:
  assumes S: "submitted s s' js" and inv: "pool_inv cnq s"
  shows "pool_inv cnq s'"
proof -
  have inv': "pieces_inv s" "phase_inv s" "reading_inv cnq s" "report_inv cnq s" using inv by (simp_all add: pool_inv_def)
  note d = submittedD [OF S] and r = submitted_recs [OF S] and f = submitted_pieces [OF S inv'(1)]
  have pos: "0 < np_piece s" using inv'(1) by (simp add: pieces_inv_def)
  have "pc_rec p < length (np_recs s') \<and> p \<in> set (record_pieces (np_piece s') (pc_rec p) (rec_of s' (pc_rec p)))" if p: "p \<in># outstanding s'" for p
  proof -
    have m: "p \<in># filter_mset (\<lambda>q. pc_rec q = pc_rec p) (outstanding s')" using p by simp
    show ?thesis
    proof (cases "pc_rec p < length (np_recs s)")
      case True
      then have "p \<in># outstanding s" using m unfolding f(1) by simp
      then show ?thesis using inv'(1) True by (simp add: pieces_inv_def d(6,16) r(2) trans_less_add1)
    next
      case False
      then show ?thesis using m unfolding f(1) by (auto simp: d(6) split: if_splits)
    qed
  qed
  moreover have "pr_left (np_recs s' ! q) = size (filter_mset (\<lambda>p. pc_rec p = q) (outstanding s'))" if q: "q < length (np_recs s')" for q
  proof (cases "q < length (np_recs s)")
    case True
    then show ?thesis using inv'(1) unfolding f(1) by (simp add: pieces_inv_def r(1))
  next
    case False
    then obtain k where k: "k < length js" "q = length (np_recs s) + k" using r(5) [OF q] by blast
    show ?thesis unfolding f(1) using q False record_pieces_total(2) [OF pos, of q "rec_of s' q"]
      by (simp add: k r(3,4) pool_record_new_def)
  qed
  ultimately have "pieces_inv s'" using inv'(1) by (simp add: pieces_inv_def d(6,8,10,11))
  then show ?thesis
    using submitted_phase [OF S inv'(1,2)] submitted_reading [OF S inv'(1,3)] submitted_report [OF S inv'(1,2,4)] by (simp add: pool_inv_def)
qed

text \<open>The caller's operations keep the invariant, and so every state of a pool has it.\<close>

lemma refusal_parts:
  assumes "List.map_filter (\<lambda>(r, d). alignment_refusal r d) jobs = []" "(r, d) \<in> set jobs"
  shows "alignment_refusal r d = None" "\<forall>sp \<in> set (parts r). 0 < sp_len sp" "parts r \<noteq> []"
proof -
  show n: "alignment_refusal r d = None" using assms by (auto simp: List.map_filter_def filter_empty_conv)
  have "part_refusal x = None" if "x \<in> set (parts_at r d)" for x
    using n that by (auto simp: alignment_refusal_def List.map_filter_def filter_empty_conv split: list.splits)
  moreover have "part_refusal x \<noteq> None" if "sp_len (fst x) = 0" for x using that by (simp add: part_refusal_def split_beta)
  ultimately have "0 < sp_len (fst x)" if "x \<in> set (parts_at r d)" for x using that by blast
  moreover have "map fst (parts_at r d) = parts r" by (simp add: parts_at_def parts_def split: record_layout.split)
  ultimately show "\<forall>sp \<in> set (parts r). 0 < sp_len sp" by (metis imageE list.set_map)
  show "parts r \<noteq> []" by (simp add: parts_def split: record_layout.split)
qed

lemma fetch_prio_cases:
  assumes "fetch_prio jobs flags prio s = Inr (t, s')"
  obtains "jobs = []" "t = None" "s' = s\<lparr>np_submitted := np_submitted s + 0, np_in_flight := np_in_flight s + 0\<rparr>"
  | js where "jobs \<noteq> []" "map jb_rec js = map fst jobs" "submitted s s' js" "t = Some (length (np_fetches s))"
    "js = map (\<lambda>k. \<lparr>jb_rec = fst (jobs ! k), jb_landed = map_option (\<lambda>l. l ! k) flags\<rparr>) [0..<length jobs]"
    "map wake (np_workers s) = np_workers s'" "np_closed s' = np_closed s" "np_lo_max s' = np_lo_max s"
proof -
  let ?js = "map (\<lambda>k. \<lparr>jb_rec = fst (jobs ! k), jb_landed = map_option (\<lambda>l. l ! k) flags\<rparr>) [0..<length jobs]"
  let ?s = "s\<lparr>np_submitted := np_submitted s + length jobs, np_in_flight := np_in_flight s + length jobs\<rparr>"
  have ok: "List.map_filter (\<lambda>(r, d). alignment_refusal r d) jobs = []" and sub: "pool_submit ?js prio ?s = (t, s')"
    using assms by (auto simp: fetch_prio_def split: if_splits list.splits)
  show thesis
  proof (cases "jobs = []")
    case True
    then show thesis using sub that(1) by (simp add: pool_submit_def)
  next
    case False
    have "\<forall>j \<in> set ?js. \<exists>sp \<in> set (parts (jb_rec j)). 0 < sp_len sp"
    proof
      fix j assume "j \<in> set ?js"
      then obtain k where k: "k < length jobs" "jb_rec j = fst (jobs ! k)" by auto
      then have "(jb_rec j, snd (jobs ! k)) \<in> set jobs" by (metis nth_mem prod.collapse)
      from refusal_parts(2,3) [OF ok this] show "\<exists>sp \<in> set (parts (jb_rec j)). 0 < sp_len sp" by (cases "parts (jb_rec j)") auto
    qed
    then have "submitted s s' ?js" "t = Some (length (np_fetches s))" "map wake (np_workers s) = np_workers s'" "np_closed s' = np_closed s" "np_lo_max s' = np_lo_max s"
      using sub False unfolding submitted_def
      by (auto simp: pool_submit_def Let_def notify_all_def tallies tally_map_wake split: priority.splits)
    moreover have "map jb_rec ?js = map fst jobs" by (rule nth_equalityI) simp_all
    ultimately show thesis using that(2) False by blast
  qed
qed

lemma fetch_prio_inv:
  assumes "fetch_prio jobs flags prio s = Inr (t, s')" "pool_inv cnq s"
  shows "pool_inv cnq s'"
  using assms(1)
proof (cases rule: fetch_prio_cases)
  case 1
  then show ?thesis by (intro same_data_inv [OF _ _ _ _ _ _ _ _ _ _ _ _ _ assms(2)]) (simp_all add: tallies)
next
  case (2 js)
  then show ?thesis using submitted_inv assms(2) by blast
qed

lemma pool_open_inv:
  assumes "pool_open c mem = Some s"
  shows "pool_inv cnq s"
proof -
  have s: "np_recs s = []" "np_fetches s = []" "np_in_flight s = 0" "np_flags s = []" "np_lo_running s = 0" "0 < np_piece s"
    "np_hi s = []" "np_lo s = []" "np_workers s = replicate (cf_threads c) AtTop"
    using assms by (auto simp: pool_open_def config_ok_def split: if_splits)
  have t: "outstanding s = {#}" "unread s = {#}" "under_way s = {#}" "low_pieces s = {#}" "to_finish s = {#}" "to_reply s = {#}"
    by (simp_all add: tallies s worker_shares)
  show ?thesis by (simp add: pool_inv_def pieces_inv_def phase_inv_def reading_inv_def report_inv_def landed_def s t)
qed

lemma pool_promote_inv:
  assumes "pool_promote flag s = (n, s')" "pool_inv cnq s"
  shows "pool_inv cnq s'"
proof (cases "list_ex (of_flag flag s) (np_lo s)")
  case True
  let ?P = "of_flag flag s"
  let ?s = "s\<lparr>np_lo := filter (\<lambda>p. \<not> ?P p) (np_lo s), np_hi := np_hi s @ filter ?P (np_lo s)\<rparr>"
  have "mset (filter ?P (np_lo s)) + mset (filter (\<lambda>p. \<not> ?P p) (np_lo s)) = mset (np_lo s)"
    by (metis mset_filter multiset_partition)
  then have "outstanding ?s = outstanding s" "unread ?s = unread s" by (simp_all add: tallies ac_simps)
  then have "pool_inv cnq ?s" by (intro same_data_inv [OF _ _ _ _ _ _ _ _ _ _ _ _ _ assms(2)]) (simp_all add: tallies)
  then show ?thesis using assms(1) True notify_all_inv by (auto simp: pool_promote_def Let_def)
qed (use assms in \<open>simp add: pool_promote_def\<close>)

lemma pool_reach_inv: "pool_reach cnq c s \<Longrightarrow> pool_inv cnq s"
proof (induction rule: pool_reach.induct)
  case (reach_lanes s m)
  then show ?case unfolding set_lanes_def
    by (intro notify_all_inv same_data_inv [OF _ _ _ _ _ _ _ _ _ _ _ _ _ reach_lanes.IH]) (simp_all add: tallies)
next
  case (reach_close s)
  then show ?case unfolding pool_close_def
    by (intro notify_all_inv same_data_inv [OF _ _ _ _ _ _ _ _ _ _ _ _ _ reach_close.IH]) (simp_all add: tallies)
next
  case (reach_spurious s i)
  then show ?case using idle_inv by simp
qed (auto intro: pool_open_inv fetch_prio_inv pool_promote_inv pool_step_inv)

end
