(* ===== verification/NvmePoolLive.thy ===== *)
theory NvmePoolLive
  imports NvmePoolInv
begin

text \<open>
  What a waiter of the piece pool can rely on: a completed ticket means its bytes, the workers
  settle, a settled pool owes no reply, and a pool whose prefetch cap does not bind can be dropped.
  With a binding cap a worker may sleep through the close.
\<close>

section \<open>Safety\<close>

text \<open>
  C4: A ticket that completes without an error means its records are read: every part of every
  record of the fetch holds the bytes of the container at the part's place, clamped where the codec
  asks for it, and the report counts exactly those records, bytes and clamped scales. Whatever the
  interleaving of the workers and of other fetches was.
\<close>

theorem nvme_ticket_means_bytes:
  assumes "pool_reach cnq c s" "f < length (np_fetches s)" "pf_reply (np_fetches s ! f) = Some (Inr rep)"
  shows "(\<forall>r < length (np_recs s). pr_fetch (np_recs s ! r) = f \<longrightarrow>
        (\<forall>k < length (parts (rec_of s r)). part_bytes (np_mem s r k) (parts (rec_of s r) ! k) = published cnq (rec_of s r) (parts (rec_of s r) ! k)))
      \<and> rep = sums_of cnq s {r. r < length (np_recs s) \<and> pr_fetch (np_recs s ! r) = f}"
proof -
  have inv: "phase_inv s" "report_inv cnq s" using pool_reach_inv [OF assms(1)] by (simp_all add: pool_inv_def)
  note ph = phase_invD [OF inv(1)]
  have ok: "\<not> fetch_failed (np_fetches s ! f)" and rep: "rep = sums_of cnq s (records_of s f)"
    using inv(2) assms(2,3) by (auto simp: report_inv_def fetch_failed_def)
  have "pf_left (np_fetches s ! f) = 0" using ph(7) [OF assms(2)] assms(3) by auto
  then have "{r \<in> records_of s f. \<not> booked s r} = {}" using ph(6) [OF assms(2)] by simp
  then have "holds_record cnq s r" if "r < length (np_recs s)" "pr_fetch (np_recs s ! r) = f" for r
    using that inv(2) ok by (auto simp: report_inv_def records_of_def booked_def)
  then show ?thesis using rep by (simp add: holds_record_def part_bytes_def records_of_def)
qed

text \<open>
  The landed flag of a record rises only after the last byte of the record: a raised flag
  belongs to a record with no piece left, whose parts hold the published bytes unless a read of
  its fetch failed.
\<close>

theorem nvme_flag_after_record:
  assumes "pool_reach cnq c s" "l \<in> set (np_flags s)"
  shows "\<exists>r < length (np_recs s). jb_landed (pr_job (np_recs s ! r)) = Some l \<and> pr_left (np_recs s ! r) = 0
      \<and> (fetch_failed (np_fetches s ! pr_fetch (np_recs s ! r))
         \<or> (\<forall>k < length (parts (rec_of s r)). part_bytes (np_mem s r k) (parts (rec_of s r) ! k) = published cnq (rec_of s r) (parts (rec_of s r) ! k)))"
proof -
  have inv: "phase_inv s" "report_inv cnq s" using pool_reach_inv [OF assms(1)] by (simp_all add: pool_inv_def)
  obtain r where r: "landed s r" "jb_landed (pr_job (np_recs s ! r)) = Some l" using phase_invD(8) [OF inv(1)] assms(2) by auto
  then show ?thesis using inv(2) by (auto simp: landed_def report_inv_def holds_record_def part_bytes_def)
qed

section \<open>The workers settle\<close>

definition weight :: "worker \<Rightarrow> nat" where
  "weight w = (case w of Reading p _ n \<Rightarrow> (pc_len p - n) + 7 | LowDone _ \<Rightarrow> 5 | CountDown _ \<Rightarrow> 4 | Finishing _ \<Rightarrow> 3 | Replying _ \<Rightarrow> 2 | _ \<Rightarrow> 0)"

lemma weight_simps [simp]:
  "weight AtTop = 0" "weight Waiting = 0" "weight Gone = 0" "weight (Reading p low n) = (pc_len p - n) + 7" "weight (LowDone p) = 5"
  "weight (CountDown p) = 4" "weight (Finishing r) = 3" "weight (Replying r) = 2"
  unfolding weight_def worker.case by (rule refl)+

definition idle_turn :: "worker \<Rightarrow> nat" where
  "idle_turn w = (if w = AtTop then 1 else 0)"

definition queue_weight :: "piece list \<Rightarrow> nat" where
  "queue_weight ps = sum_list (map (\<lambda>p. pc_len p + 8) ps)"

definition work :: "nvme_pool \<Rightarrow> nat" where
  "work s = queue_weight (np_hi s) + queue_weight (np_lo s) + sum_list (map weight (np_workers s))"

definition turns :: "nvme_pool \<Rightarrow> nat" where
  "turns s = sum_list (map idle_turn (np_workers s))"

lemma worker_sum: "i < length ws \<Longrightarrow> sum_list (map f (ws[i := w])) + f (ws ! i) = sum_list (map f ws) + (f w :: nat)"
proof (induction ws arbitrary: i)
  case (Cons v ws)
  then show ?case by (cases i) simp_all
qed simp

lemma send_reply_queues [simp]: "np_hi (send_reply i r s) = np_hi s" "np_lo (send_reply i r s) = np_lo s"
    "np_workers (send_reply i r s) = (np_workers s)[i := AtTop]"
  by (simp_all add: send_reply_def Let_def)

lemma finish_record_queues [simp]: "np_hi (finish_record i r s) = np_hi s" "np_lo (finish_record i r s) = np_lo s"
    "np_workers (finish_record i r s) = (np_workers s)[i := Replying r]"
  by (simp_all add: finish_record_def sanitize_record_def Let_def)

lemma count_down_queues [simp]: "np_hi (count_down i p s) = np_hi s" "np_lo (count_down i p s) = np_lo s"
    "np_workers (count_down i p s) = (np_workers s)[i := if pr_left (np_recs s ! pc_rec p) = 1 then Finishing (pc_rec p) else AtTop]"
  by (simp_all add: count_down_def Let_def)

lemma low_done_queues [simp]: "np_hi (low_done i p s) = np_hi s" "np_lo (low_done i p s) = np_lo s"
    "np_workers (low_done i p s) = (np_workers s)[i := CountDown p]"
  by (simp_all add: low_done_def)

lemma read_some_queues:
  "np_hi (read_some i p low n res s) = np_hi s" "np_lo (read_some i p low n res s) = np_lo s"
  "res = Interrupted \<and> read_some i p low n res s = s
    \<or> (\<exists>w. np_workers (read_some i p low n res s) = (np_workers s)[i := w] \<and> (w = after_read p low \<or> (\<exists>n'. w = Reading p low n' \<and> n < n' \<and> n' < pc_len p)))"
  by (auto simp: read_some_def Let_def split: read_result.split)

lemma step_work:
  assumes i: "i < length (np_workers s)" and q: "np_hi s' = np_hi s" "np_lo s' = np_lo s" "np_workers s' = (np_workers s)[i := w]"
    and less: "weight w < weight (np_workers s ! i)"
  shows "work s' < work s"
  using worker_sum [OF i, of weight w] less by (simp add: work_def q)

lemma goto_top_work: "w < length (np_workers s) \<Longrightarrow> np_workers s ! w = Waiting \<Longrightarrow> work (goto w AtTop s) = work s"
  using worker_sum [of w "np_workers s" weight AtTop] by (simp add: work_def weight_simps)

lemma take_piece_work:
  assumes i: "i < length (np_workers s)" "np_workers s ! i = AtTop"
  shows "work (take_piece i s) < work s \<or> work (take_piece i s) = work s \<and> turns (take_piece i s) < turns s"
proof -
  note u = worker_sum [OF i(1), of weight] worker_sum [OF i(1), of idle_turn]
  show ?thesis
    using u [of "Reading (hd (np_hi s)) False 0"] u [of "Reading (hd (np_lo s)) True 0"] u [of Gone] u [of Waiting] i(2)
    by (cases "np_lo s") (auto simp: take_piece_def work_def turns_def weight_simps idle_turn_def queue_weight_def split: list.split)
qed

text \<open>A step retries an interrupted read, in the same state, or the pair of the two weights falls.\<close>

definition some_reading :: "nvme_pool \<Rightarrow> bool" where
  "some_reading s \<longleftrightarrow> (\<exists>i < length (np_workers s). \<exists>p low n. np_workers s ! i = Reading p low n)"

lemma pool_step_work:
  assumes "pool_step cnq s s'"
  shows "s' = s \<and> some_reading s \<or> work s' < work s \<or> work s' = work s \<and> turns s' < turns s"
  using assms
proof cases
  case (step_top i)
  then show ?thesis using take_piece_work by simp
next
  case (step_read i p low n res)
  from read_some_queues(3) [of res i p low n s] show ?thesis
  proof (elim disjE conjE exE)
    assume "read_some i p low n res s = s"
    then show ?thesis using step_read by (auto simp: some_reading_def)
  next
    fix w assume w: "np_workers (read_some i p low n res s) = (np_workers s)[i := w]" "w = after_read p low"
    then have "work s' < work s"
      by (intro step_work [OF step_read(2), of _ w]) (auto simp: step_read(1,3) read_some_queues weight_simps after_read_def)
    then show ?thesis by simp
  next
    fix w n' assume w: "np_workers (read_some i p low n res s) = (np_workers s)[i := w]" "w = Reading p low n'" "n < n'" "n' < pc_len p"
    then have "work s' < work s"
      by (intro step_work [OF step_read(2), of _ w]) (auto simp: step_read(1,3) read_some_queues weight_simps)
    then show ?thesis by simp
  qed
next
  case (step_low i p)
  have "np_workers s' = (np_workers s)[i := CountDown p]" by (simp add: step_low(1))
  then have "work s' < work s" by (rule step_work [OF step_low(2), rotated 2]) (simp_all add: step_low(1,3))
  then show ?thesis by simp
next
  case (step_low_notify i p w)
  have "w \<noteq> i" using step_low_notify by auto
  then have "work s' = work (low_done i p s)" using step_low_notify by (simp add: goto_top_work)
  also have "\<dots> < work s"
    by (rule step_work [OF step_low_notify(2) _ _ low_done_queues(3)]) (simp_all add: step_low_notify(3))
  finally show ?thesis by simp
next
  case (step_count i p)
  have "work s' < work s" unfolding step_count(1)
    by (rule step_work [OF step_count(2) _ _ count_down_queues(3)]) (simp_all add: step_count(3))
  then show ?thesis by simp
next
  case (step_finish i r)
  have "work s' < work s" unfolding step_finish(1)
    by (rule step_work [OF step_finish(2) _ _ finish_record_queues(3)]) (simp_all add: step_finish(3))
  then show ?thesis by simp
next
  case (step_reply i r)
  have "work s' < work s" unfolding step_reply(1)
    by (rule step_work [OF step_reply(2) _ _ send_reply_queues(3)]) (simp_all add: step_reply(3))
  then show ?thesis by simp
qed

lemma settles_at:
  assumes "\<forall>n. pool_step cnq (run n) (run (Suc n))"
  shows "\<exists>k. \<forall>n \<ge> k. run n = run k"
proof -
  have wf: "wf (inv_image (less_than <*lex*> less_than) (\<lambda>s. (work s, turns s)))" (is "wf ?less") by (intro wf_inv_image wf_lex_prod wf_less_than)
  have "\<exists>k. \<forall>n \<ge> k. run' n = run' k" if "\<forall>n. pool_step cnq (run' n) (run' (Suc n))" "run' 0 = s" for run' s
    using wf that
  proof (induction s arbitrary: run' rule: wf_induct_rule)
    case (less s)
    show ?case
    proof (cases "\<exists>k. run' (Suc k) \<noteq> run' k")
      case False
      then have "run' n = run' 0" for n by (induction n) metis+
      then show ?thesis by blast
    next
      case True
      define k where "k = (LEAST k. run' (Suc k) \<noteq> run' k)"
      have k: "run' (Suc k) \<noteq> run' k" unfolding k_def using True by (rule LeastI_ex)
      have "run' j = s" if "j \<le> k" for j
        using that
      proof (induction j)
        case (Suc j)
        then have "run' (Suc j) = run' j" using not_less_Least [of j "\<lambda>k. run' (Suc k) \<noteq> run' k"] by (simp add: k_def)
        then show ?case using Suc by simp
      qed (use less.prems in simp)
      then have "(run' (Suc k), s) \<in> ?less" using pool_step_work less.prems(1) k by (fastforce simp: inv_image_def)
      from less.IH [OF this, of "\<lambda>n. run' (n + Suc k)"] less.prems(1) obtain m where m: "\<forall>n \<ge> m. run' (n + Suc k) = run' (m + Suc k)" by auto
      have "run' n = run' (m + Suc k)" if "m + Suc k \<le> n" for n
        using m [rule_format, of "n - Suc k"] that by simp
      then show ?thesis by blast
    qed
  qed
  then show ?thesis using assms by blast
qed


section \<open>Who sleeps\<close>

text \<open>
  Queued pieces keep a worker awake; nobody leaves before the close; and once the pool is closed,
  no worker sleeps when the cap of the prefetch lanes does not bind.
\<close>

definition asleep :: "worker \<Rightarrow> bool" where
  "asleep w \<longleftrightarrow> w = Waiting \<or> w = Gone"

definition wake_inv :: "nat \<Rightarrow> nvme_pool \<Rightarrow> bool" where
  "wake_inv n s \<longleftrightarrow> 0 < n \<and> length (np_workers s) = n \<and> 1 \<le> np_lo_max s
     \<and> (np_hi s \<noteq> [] \<or> np_lo s \<noteq> [] \<longrightarrow> (\<exists>w \<in> set (np_workers s). \<not> asleep w))
     \<and> (\<not> np_closed s \<longrightarrow> Gone \<notin> set (np_workers s))
     \<and> (np_closed s \<and> n \<le> np_lo_max s \<longrightarrow> Waiting \<notin> set (np_workers s))"

lemma asleep_wake: "w \<noteq> Gone \<Longrightarrow> \<not> asleep (wake w)"
  by (simp add: asleep_def wake_def)

lemma wake_gone: "wake w = Gone \<longleftrightarrow> w = Gone" and wake_waiting: "wake w \<noteq> Waiting"
  by (auto simp: wake_def)

lemma in_set_update: "w \<in> set (ws[i := v]) \<Longrightarrow> w = v \<or> w \<in> set ws"
  by (metis in_set_conv_nth length_list_update nth_list_update_eq nth_list_update_neq)

lemma wake_inv_active:
  assumes "wake_inv n s" "i < length (np_workers s)" "np_workers s' = (np_workers s)[i := w]" "\<not> asleep w"
    "np_closed s' = np_closed s" "np_lo_max s' = np_lo_max s"
  shows "wake_inv n s'"
proof -
  have "w \<in> set (np_workers s')" using assms(2,3) by (simp add: set_update_memI)
  moreover have "w \<noteq> Gone" "w \<noteq> Waiting" using assms(4) by (auto simp: asleep_def)
  ultimately show ?thesis using assms(1,3-6) by (auto simp: wake_inv_def dest: in_set_update)
qed

lemma wake_inv_notify:
  assumes "wake_inv n s" "np_workers s' = map wake (np_workers s)" "1 \<le> np_lo_max s'" "np_closed s' = np_closed s \<or> np_closed s'"
    "\<not> np_closed s"
  shows "wake_inv n s'"
proof -
  have g: "Gone \<notin> set (np_workers s)" "np_workers s \<noteq> []" using assms(1,5) by (auto simp: wake_inv_def)
  then have "hd (np_workers s) \<in> set (np_workers s)" by simp
  then have "wake (hd (np_workers s)) \<in> set (np_workers s')" "\<not> asleep (wake (hd (np_workers s)))"
    using g asleep_wake assms(2) by (auto, metis)
  moreover have "Gone \<notin> set (np_workers s')" "Waiting \<notin> set (np_workers s')"
    using g(1) assms(2) by (auto simp: image_iff) (metis wake_gone, metis wake_waiting)
  ultimately show ?thesis using assms by (auto simp: wake_inv_def)
qed

lemma low_lanes_active: "low_pieces s \<noteq> {#} \<Longrightarrow> \<exists>j < length (np_workers s). lows (np_workers s ! j) \<noteq> []"
proof -
  assume "low_pieces s \<noteq> {#}"
  then obtain p where "p \<in># tally lows (np_workers s)" unfolding low_pieces_def by blast
  then obtain w where "w \<in> set (np_workers s)" "lows w \<noteq> []" unfolding in_tally by force
  then show ?thesis by (metis in_set_conv_nth)
qed

lemma lows_awake: "lows w \<noteq> [] \<Longrightarrow> \<not> asleep w \<and> w \<noteq> AtTop"
  by (cases w) (auto simp: asleep_def worker_shares)

lemma lanes_bound: "size (low_pieces s) \<le> length (filter (\<lambda>w. lows w \<noteq> []) (np_workers s))"
proof -
  have "size (tally lows ws) \<le> length (filter (\<lambda>w. lows w \<noteq> []) ws)" for ws
  proof (induction ws)
    case (Cons w ws)
    have "length (lows w) \<le> (if lows w \<noteq> [] then 1 else 0)" by (cases w) (auto simp: worker_shares)
    then show ?case using Cons by (auto simp: tally_def split: if_splits)
  qed (simp add: tally_def)
  then show ?thesis by (simp add: low_pieces_def)
qed

lemma take_piece_wake:
  assumes inv: "wake_inv n s" and p: "pieces_inv s" and i: "i < length (np_workers s)" "np_workers s ! i = AtTop"
  shows "wake_inv n (take_piece i s)"
proof (cases "np_hi s = [] \<and> \<not> (np_lo_running s < np_lo_max s \<and> np_lo s \<noteq> [])")
  case False
  then show ?thesis
    by (intro wake_inv_active [OF inv i(1), of _ "if np_hi s \<noteq> [] then Reading (hd (np_hi s)) False 0 else Reading (hd (np_lo s)) True 0"])
      (auto simp: take_piece_def asleep_def split: list.splits)
next
  case True
  have run: "np_lo_running s = size (low_pieces s)" using p by (simp add: pieces_inv_def)
  have full: "np_lo_max s \<le> size (low_pieces s)" if "np_lo s \<noteq> []" using True that run by simp
  have less: "size (low_pieces s) < length (np_workers s)"
  proof -
    have "AtTop \<in> set (np_workers s)" using i by (metis nth_mem)
    then have "length (filter (\<lambda>w. lows w \<noteq> []) (np_workers s)) < length (np_workers s)"
      by (rule length_filter_less) (simp add: worker_shares)
    then show ?thesis using lanes_bound [of s] by simp
  qed
  have awake: "\<exists>w \<in> set ((np_workers s)[i := v]). \<not> asleep w" if "np_lo s \<noteq> []" for v
  proof -
    have "size (low_pieces s) \<noteq> 0" using full [OF that] inv by (auto simp: wake_inv_def)
    then obtain j where j: "j < length (np_workers s)" "lows (np_workers s ! j) \<noteq> []" using low_lanes_active by force
    then have "j \<noteq> i" "\<not> asleep (np_workers s ! j)" using lows_awake i(2) by auto
    then show ?thesis using j(1) by (metis length_list_update nth_list_update_neq nth_mem)
  qed
  let ?w = "if np_closed s \<and> np_lo s = [] then Gone else Waiting"
  have "wake_inv n (goto i ?w s)"
    using inv awake True full less by (auto simp: wake_inv_def goto_def dest: in_set_update)
  moreover have "take_piece i s = goto i ?w s" using True by (auto simp: take_piece_def)
  ultimately show ?thesis by simp
qed

lemma lane_fields [simp]:
  "np_closed (send_reply i r s) = np_closed s" "np_lo_max (send_reply i r s) = np_lo_max s"
  "np_closed (finish_record i r s) = np_closed s" "np_lo_max (finish_record i r s) = np_lo_max s"
  "np_closed (count_down i p s) = np_closed s" "np_lo_max (count_down i p s) = np_lo_max s"
  "np_closed (low_done i p s) = np_closed s" "np_lo_max (low_done i p s) = np_lo_max s"
  "np_closed (read_some i p low n res s) = np_closed s" "np_lo_max (read_some i p low n res s) = np_lo_max s"
  by (simp_all add: send_reply_def finish_record_def sanitize_record_def count_down_def low_done_def read_some_def write_mem_def set_err_def add_bytes_def
      Let_def split: read_result.split)

lemma pool_step_wake:
  assumes "pool_step cnq s s'" "wake_inv n s" "pieces_inv s"
  shows "wake_inv n s'"
  using assms(1)
proof cases
  case (step_top i)
  then show ?thesis using take_piece_wake assms(2,3) by simp
next
  case (step_read i p low m res)
  consider "s' = s" | w where "np_workers s' = (np_workers s)[i := w]" "w = after_read p low \<or> (\<exists>n'. w = Reading p low n' \<and> m < n' \<and> n' < pc_len p)"
    using read_some_queues(3) [of res i p low m s] step_read(1) by blast
  then show ?thesis
  proof cases
    case 1
    then show ?thesis using assms(2) by simp
  next
    case w: 2
    then show ?thesis by (intro wake_inv_active [OF assms(2) step_read(2) w(1)]) (auto simp: step_read(1) asleep_def after_read_def split: if_splits)
  qed
next
  case (step_low i p)
  show ?thesis unfolding step_low(1) by (rule wake_inv_active [OF assms(2) step_low(2) low_done_queues(3)]) (simp_all add: asleep_def)
next
  case (step_low_notify i p w)
  have "wake_inv n (low_done i p s)" by (rule wake_inv_active [OF assms(2) step_low_notify(2) low_done_queues(3)]) (simp_all add: asleep_def)
  then show ?thesis unfolding step_low_notify(1)
    by (rule wake_inv_active [where i = w and w = AtTop]) (simp_all add: step_low_notify(5) asleep_def)
next
  case (step_count i p)
  show ?thesis unfolding step_count(1) by (rule wake_inv_active [OF assms(2) step_count(2) count_down_queues(3)]) (simp_all add: asleep_def)
next
  case (step_finish i r)
  show ?thesis unfolding step_finish(1) by (rule wake_inv_active [OF assms(2) step_finish(2) finish_record_queues(3)]) (simp_all add: asleep_def)
next
  case (step_reply i r)
  show ?thesis unfolding step_reply(1) by (rule wake_inv_active [OF assms(2) step_reply(2) send_reply_queues(3)]) (simp_all add: asleep_def)
qed

lemma pool_reach_wake: "pool_reach cnq c s \<Longrightarrow> wake_inv (cf_threads c) s"
proof (induction rule: pool_reach.induct)
  case (reach_open mem s)
  then show ?case by (auto simp: pool_open_def config_ok_def wake_inv_def USIZE_MAX_def split: if_splits)
next
  case (reach_fetch s jobs landed prio t s')
  from reach_fetch(3) show ?case
  proof (cases rule: fetch_prio_cases)
    case 1
    then show ?thesis using reach_fetch.IH by (simp add: wake_inv_def)
  next
    case (2 js)
    have "1 \<le> np_lo_max s'" using reach_fetch.IH 2 by (simp add: wake_inv_def)
    then show ?thesis using wake_inv_notify [OF reach_fetch.IH] 2 reach_fetch(2) by simp
  qed
next
  case (reach_lanes s m)
  then show ?case by (intro wake_inv_notify [OF reach_lanes.IH]) (simp_all add: set_lanes_def notify_all_def)
next
  case (reach_promote s flag n s')
  show ?case
  proof (cases "list_ex (of_flag flag s) (np_lo s)")
    case True
    have "1 \<le> np_lo_max s" using reach_promote.IH by (simp add: wake_inv_def)
    then show ?thesis using reach_promote True
      by (intro wake_inv_notify [OF reach_promote.IH]) (auto simp: pool_promote_def Let_def notify_all_def)
  qed (use reach_promote in \<open>simp add: pool_promote_def\<close>)
next
  case (reach_close s)
  have "1 \<le> np_lo_max s" using reach_close.IH by (simp add: wake_inv_def)
  then show ?case using reach_close by (intro wake_inv_notify [OF reach_close.IH]) (simp_all add: pool_close_def notify_all_def)
next
  case (reach_step s s')
  then show ?case using pool_step_wake pool_reach_inv pool_inv_def by blast
next
  case (reach_spurious s i)
  then show ?case by (intro wake_inv_active [OF reach_spurious.IH, of i _ AtTop]) (simp_all add: asleep_def)
qed

section \<open>Liveness\<close>

text \<open>Only a sleeping worker has no step.\<close>

lemma stuck_asleep:
  assumes "\<forall>s'. \<not> pool_step cnq s s'" "w \<in> set (np_workers s)"
  shows "asleep w"
proof -
  obtain i where i: "i < length (np_workers s)" "np_workers s ! i = w" using assms(2) by (metis in_set_conv_nth)
  show ?thesis
  proof (cases w)
    case (Reading p low n)
    then show ?thesis using assms(1) step_read [of i s p low n cnq Failed] i by (simp add: reads_def)
  next
    case (LowDone p)
    show ?thesis
    proof (cases "np_lo s = [] \<or> Waiting \<notin> set (np_workers s)")
      case False
      then obtain v where "v < length (np_workers s)" "np_workers s ! v = Waiting" by (metis in_set_conv_nth)
      then show ?thesis using assms(1) step_low_notify i LowDone False by blast
    qed (use assms(1) step_low i LowDone in blast)
  next
    case AtTop
    then show ?thesis using assms(1) step_top i by blast
  next
    case (CountDown p)
    then show ?thesis using assms(1) step_count i by blast
  next
    case (Finishing r)
    then show ?thesis using assms(1) step_finish i by blast
  next
    case (Replying r)
    then show ?thesis using assms(1) step_reply i by blast
  qed (simp_all add: asleep_def)
qed

lemma asleep_shares: "asleep w \<Longrightarrow> held w = [] \<and> finishing w = [] \<and> replying w = []"
  by (auto simp: asleep_def worker_shares)

lemma stuck_landed:
  assumes r: "pool_reach cnq c s" and stuck: "\<forall>s'. \<not> pool_step cnq s s'" and l: "r < length (np_recs s)"
  shows "booked s r"
proof -
  have inv: "pieces_inv s" using pool_reach_inv [OF r] by (simp add: pool_inv_def)
  have a: "\<And>w. w \<in> set (np_workers s) \<Longrightarrow> asleep w" by (rule stuck_asleep [OF stuck])
  have "np_hi s = []" "np_lo s = []" using pool_reach_wake [OF r] a by (auto simp: wake_inv_def)
  moreover have "tally held (np_workers s) = {#}" "tally finishing (np_workers s) = {#}" "tally replying (np_workers s) = {#}"
    using a asleep_shares by (fastforce simp: in_tally simp flip: set_mset_eq_empty_iff)+
  ultimately have e: "outstanding s = {#}" "to_finish s = {#}" "to_reply s = {#}" by (simp_all add: tallies)
  have "pr_left (np_recs s ! r) = 0" using inv l by (simp add: pieces_inv_def e)
  then show ?thesis using l by (simp add: booked_def landed_def e)
qed

text \<open>
  C5: Every ticket completes: when the workers of a reachable pool have settled, every fetch has
  its reply, no record is in flight, and every landed flag of a fetch is up, also after a failed
  read and also when the pool was closed with pieces still queued.
\<close>

theorem nvme_tickets_complete:
  assumes "pool_reach cnq c s" "\<forall>s'. \<not> pool_step cnq s s'"
  shows "(\<forall>f < length (np_fetches s). pf_reply (np_fetches s ! f) \<noteq> None) \<and> np_in_flight s = 0
     \<and> (\<forall>r < length (np_recs s). \<forall>l. jb_landed (pr_job (np_recs s ! r)) = Some l \<longrightarrow> l \<in> set (np_flags s))"
proof -
  have h: "phase_inv s" using pool_reach_inv [OF assms(1)] by (simp add: pool_inv_def)
  note ph = phase_invD [OF h]
  have b: "\<And>r. r < length (np_recs s) \<Longrightarrow> booked s r" by (rule stuck_landed [OF assms])
  then have l: "\<And>r. r < length (np_recs s) \<Longrightarrow> landed s r" by (simp add: booked_def)
  have "pf_reply (np_fetches s ! f) \<noteq> None" if "f < length (np_fetches s)" for f
  proof -
    have "{r \<in> records_of s f. \<not> booked s r} = {}" using b by (auto simp: records_of_def)
    then have "pf_left (np_fetches s ! f) = 0" unfolding ph(6) [OF that] by simp
    then show ?thesis by (rule iffD1 [OF ph(7) [OF that]])
  qed
  moreover have "{r. r < length (np_recs s) \<and> \<not> landed s r} = {}" using l by auto
  then have "np_in_flight s = 0" unfolding ph(4) by simp
  moreover have "l' \<in> set (np_flags s)" if "r < length (np_recs s)" "jb_landed (pr_job (np_recs s ! r)) = Some l'" for r l'
    unfolding ph(8) using l that by blast
  ultimately show ?thesis by blast
qed

text \<open>
  C29: A pool can be dropped while the cap of the prefetch lanes does not bind (the default, or
  any cap of at least the number of workers): once it is closed and its workers have settled, every worker has
  returned, so the joins of the drop return.
\<close>

theorem nvme_drop_joins:
  assumes "pool_reach cnq c s" "np_closed s" "cf_threads c \<le> np_lo_max s" "\<forall>s'. \<not> pool_step cnq s s'"
  shows "np_workers s = replicate (cf_threads c) Gone"
proof -
  have "wake_inv (cf_threads c) s" by (rule pool_reach_wake [OF assms(1)])
  then have "length (np_workers s) = cf_threads c" "Waiting \<notin> set (np_workers s)" using assms(2,3) by (simp_all add: wake_inv_def)
  moreover have "w = Gone" if "w \<in> set (np_workers s)" for w
    using stuck_asleep [OF assms(4) that] that calculation(2) by (auto simp: asleep_def)
  ultimately show ?thesis by (metis replicate_eqI)
qed

section \<open>A close that does not wake everyone\<close>

text \<open>
  Three workers, one prefetch lane, one record of two pieces. The cap is binding: the workers the
  close woke find the second piece queued and the lane taken, and sleep again.
\<close>

definition drop_config :: pool_config where
  "drop_config = \<lparr>cf_threads = 3, cf_piece = 4096\<rparr>"

definition drop_record :: expert_record where
  "drop_record = \<lparr>er_layer = 0, er_id = 0, er_gu = \<lparr>sp_off = 0, sp_len = 8192\<rparr>, er_dn = \<lparr>sp_off = 0, sp_len = 0\<rparr>, er_codec = Mul1, er_layout = OneUnit\<rparr>"

definition drop_piece :: "nat \<Rightarrow> piece" where
  "drop_piece a = \<lparr>pc_rec = 0, pc_part = 0, pc_at = a, pc_off = a, pc_len = 4096\<rparr>"

definition drop_cnq :: "u8 list" where
  "drop_cnq = replicate 8192 0"

definition drop_state :: "worker list \<Rightarrow> piece list \<Rightarrow> bool \<Rightarrow> nat \<Rightarrow> nat \<Rightarrow> nat \<Rightarrow> nat \<Rightarrow> (nat \<times> u64) list \<Rightarrow> pool_fetch
    \<Rightarrow> (nat \<Rightarrow> nat \<Rightarrow> nat \<Rightarrow> u8) \<Rightarrow> nvme_pool" where
  "drop_state ws lo cl run left bytes fl flags f m = \<lparr>np_hi = [], np_lo = lo, np_closed = cl, np_lo_running = run, np_lo_max = 1, np_piece = 4096,
     np_recs = [\<lparr>pr_job = \<lparr>jb_rec = drop_record, jb_landed = Some (8, 1)\<rparr>, pr_left = left, pr_bytes = bytes, pr_err = None, pr_fetch = 0\<rparr>],
     np_fetches = [f], np_submitted = 1, np_in_flight = fl, np_mem = m, np_flags = flags, np_workers = ws\<rparr>"

definition open_fetch_of :: "report \<Rightarrow> pool_fetch" where
  "open_fetch_of rep = \<lparr>pf_left = 1, pf_sum = rep, pf_err = None, pf_reply = None\<rparr>"

lemmas drop_run = drop_state_def drop_piece_def drop_config_def open_fetch_of_def goto_def take_piece_def low_done_def count_down_def Let_def

lemma drop_pieces: "record_pieces 4096 0 drop_record = [drop_piece 0, drop_piece 4096]"
proof -
  let ?sp = "\<lparr>sp_off = 0, sp_len = 8192\<rparr>"
  have "split_part 4096 0 0 ?sp 0 = [drop_piece 0, drop_piece 4096]"
    using split_part.simps [of 4096 0 0 ?sp 0] split_part.simps [of 4096 0 0 ?sp 4096] split_part.simps [of 4096 0 0 ?sp 8192]
    by (simp add: drop_piece_def)
  then show ?thesis by (simp add: record_pieces_def parts_def drop_record_def)
qed

lemma drop_start: "pool_reach drop_cnq drop_config (drop_state [AtTop, AtTop, AtTop] [drop_piece 0, drop_piece 4096] False 0 2 0 1 [] (open_fetch_of no_report) m)"
proof -
  let ?s = "\<lparr>np_hi = [], np_lo = [], np_closed = False, np_lo_running = 0, np_lo_max = USIZE_MAX, np_piece = 4096, np_recs = [], np_fetches = [],
     np_submitted = 0, np_in_flight = 0, np_mem = m, np_flags = [], np_workers = replicate 3 AtTop\<rparr>"
  have "pool_open drop_config m = Some ?s"
    by (simp add: pool_open_def config_ok_def drop_config_def POOL_THREADS_MAX_def POOL_PIECE_KB_MAX_def ALIGN_def)
  then have "pool_reach drop_cnq drop_config (set_lanes 1 ?s)" by (intro reach_lanes reach_open) simp_all
  then have r: "pool_reach drop_cnq drop_config (?s\<lparr>np_lo_max := 1\<rparr>)" by (simp add: set_lanes_def notify_all_def wake_def)
  have "fetch_prio [(drop_record, \<lparr>rd_gu = 4096, rd_dn = 0\<rparr>)] (Some [(8, 1)]) Prefetch (?s\<lparr>np_lo_max := 1\<rparr>)
      = Inr (Some 0, drop_state [AtTop, AtTop, AtTop] [drop_piece 0, drop_piece 4096] False 0 2 0 1 [] (open_fetch_of no_report) m)"
  proof -
    have "alignment_refusal drop_record \<lparr>rd_gu = 4096, rd_dn = 0\<rparr> = None"
      by (simp add: List.map_filter_def alignment_refusal_def parts_at_def drop_record_def part_refusal_def ALIGN_def)
    moreover have "sum_list (map (\<lambda>s. div_ceil (sp_len s) 4096) (parts drop_record)) = 2"
      by (simp add: parts_def drop_record_def div_ceil_def)
    ultimately show ?thesis
      by (simp add: fetch_prio_def MAX_IN_FLIGHT_def List.map_filter_def pool_submit_def pool_record_new_def drop_pieces notify_all_def wake_def
          drop_state_def open_fetch_of_def numeral_3_eq_3)
  qed
  from reach_fetch [OF r _ this] show ?thesis by simp
qed

lemma drop_read:
  assumes "pool_reach drop_cnq drop_config (drop_state (Reading (drop_piece a) True 0 # ws) lo cl run left bytes 1 fg f m)" "a + 4096 \<le> 8192"
  shows "\<exists>m'. pool_reach drop_cnq drop_config (drop_state (LowDone (drop_piece a) # ws) lo cl run left (bytes + 4096) 1 fg f m')"
proof -
  let ?bs = "replicate 4096 (0 :: u8)"
  have "reads drop_cnq (drop_piece a) 0 (Got ?bs)"
    using assms(2) by (simp add: reads_def drop_piece_def drop_cnq_def min_def)
  from reach_step [OF assms(1) step_read [of 0, OF _ _ this]]
  have "pool_reach drop_cnq drop_config (read_some 0 (drop_piece a) True 0 (Got ?bs) (drop_state (Reading (drop_piece a) True 0 # ws) lo cl run left bytes 1 fg f m))"
    by (simp add: drop_state_def)
  then show ?thesis
    by (auto simp: read_some_def write_mem_def add_bytes_def after_read_def drop_run)
qed

lemma drop_run_ends:
  "\<exists>m. let s = drop_state [Gone, Gone, Waiting] [] True 0 0 8192 0 [(8, 1)]
         \<lparr>pf_left = 0, pf_sum = no_report, pf_err = None, pf_reply = Some (Inr \<lparr>rp_records = 1, rp_bytes = 8192, rp_clamped = 0\<rparr>)\<rparr> m
     in pool_reach drop_cnq drop_config s \<and> np_closed s \<and> (\<forall>s'. \<not> pool_step drop_cnq s s')"
proof -
  let ?f = "open_fetch_of no_report" and ?g = "open_fetch_of \<lparr>rp_records = 1, rp_bytes = 8192, rp_clamped = 0\<rparr>"
  let ?reach = "\<lambda>s. pool_reach drop_cnq drop_config s"
  note top = reach_step [where cnq = drop_cnq and c = drop_config, OF _ step_top]
  fix m0
  have "?reach (drop_state [Reading (drop_piece 0) True 0, AtTop, AtTop] [drop_piece 4096] False 1 2 0 1 [] ?f m0)"
    using top [OF drop_start [of m0], of 0] by (simp add: drop_run)
  from reach_close [OF this] have "?reach (drop_state [Reading (drop_piece 0) True 0, AtTop, AtTop] [drop_piece 4096] True 1 2 0 1 [] ?f m0)"
    by (simp add: drop_run pool_close_def notify_all_def wake_def)
  from top [OF this, of 1] have "?reach (drop_state [Reading (drop_piece 0) True 0, Waiting, AtTop] [drop_piece 4096] True 1 2 0 1 [] ?f m0)"
    by (simp add: drop_run)
  from top [OF this, of 2] have "?reach (drop_state [Reading (drop_piece 0) True 0, Waiting, Waiting] [drop_piece 4096] True 1 2 0 1 [] ?f m0)"
    by (simp add: drop_run)
  from drop_read [OF this] obtain m1 where "?reach (drop_state [LowDone (drop_piece 0), Waiting, Waiting] [drop_piece 4096] True 1 2 4096 1 [] ?f m1)"
    by auto
  from reach_step [OF this step_low_notify [of 0 _ "drop_piece 0" 1]]
  have "?reach (drop_state [CountDown (drop_piece 0), AtTop, Waiting] [drop_piece 4096] True 0 2 4096 1 [] ?f m1)"
    by (simp add: drop_run)
  from reach_step [OF this step_count [of 0 _ "drop_piece 0"]] have "?reach (drop_state [AtTop, AtTop, Waiting] [drop_piece 4096] True 0 1 4096 1 [] ?f m1)"
    by (simp add: drop_run)
  from top [OF this, of 0] have "?reach (drop_state [Reading (drop_piece 4096) True 0, AtTop, Waiting] [] True 1 1 4096 1 [] ?f m1)"
    by (simp add: drop_run)
  from top [OF this, of 1] have "?reach (drop_state [Reading (drop_piece 4096) True 0, Gone, Waiting] [] True 1 1 4096 1 [] ?f m1)"
    by (simp add: drop_run)
  from drop_read [OF this] obtain m2 where "?reach (drop_state [LowDone (drop_piece 4096), Gone, Waiting] [] True 1 1 8192 1 [] ?f m2)"
    by auto
  from reach_step [OF this step_low [of 0 _ "drop_piece 4096"]] have "?reach (drop_state [CountDown (drop_piece 4096), Gone, Waiting] [] True 0 1 8192 1 [] ?f m2)"
    by (simp add: drop_run)
  from reach_step [OF this step_count [of 0 _ "drop_piece 4096"]] have "?reach (drop_state [Finishing 0, Gone, Waiting] [] True 0 0 8192 1 [] ?f m2)"
    by (simp add: drop_run)
  from reach_step [OF this step_finish [of 0 _ 0]] have "?reach (drop_state [Replying 0, Gone, Waiting] [] True 0 0 8192 0 [(8, 1)] ?g m2)"
    by (simp add: drop_run finish_record_def sanitize_record_def drop_record_def sanitizes_scales_def no_report_def)
  from reach_step [OF this step_reply [of 0 _ 0]] have "?reach (drop_state [AtTop, Gone, Waiting] [] True 0 0 8192 0 [(8, 1)]
      \<lparr>pf_left = 0, pf_sum = no_report, pf_err = None, pf_reply = Some (Inr \<lparr>rp_records = 1, rp_bytes = 8192, rp_clamped = 0\<rparr>)\<rparr> m2)"
    by (simp add: drop_run send_reply_def)
  from top [OF this, of 0] have "?reach (drop_state [Gone, Gone, Waiting] [] True 0 0 8192 0 [(8, 1)]
      \<lparr>pf_left = 0, pf_sum = no_report, pf_err = None, pf_reply = Some (Inr \<lparr>rp_records = 1, rp_bytes = 8192, rp_clamped = 0\<rparr>)\<rparr> m2)"
    by (simp add: drop_run)
  moreover have "\<not> pool_step drop_cnq (drop_state [Gone, Gone, Waiting] lo cl run left bytes fl fg f m) s'" for lo cl run left bytes fl fg f m s'
    by (rule notI, erule pool_stepE) (auto simp: drop_state_def nth_Cons' split: if_splits)
  ultimately show ?thesis unfolding Let_def by (intro exI [of _ m2]) (simp add: drop_state_def)
qed

text \<open>
  C36: With a binding cap a drop can hang: there is a run of a pool of three workers in which the
  fetch completes, the pool is closed, no worker has a step left, and one worker sleeps on. The
  close wakes it before the queue is empty, a finished prefetch piece notifies one worker and only while
  more are queued, and nothing is notified when the queue becomes empty.
\<close>

theorem nvme_close_can_sleep:
  "\<exists>m. let s = drop_state [Gone, Gone, Waiting] [] True 0 0 8192 0 [(8, 1)]
         \<lparr>pf_left = 0, pf_sum = no_report, pf_err = None, pf_reply = Some (Inr \<lparr>rp_records = 1, rp_bytes = 8192, rp_clamped = 0\<rparr>)\<rparr> m
     in pool_reach drop_cnq drop_config s \<and> np_closed s \<and> (\<forall>s'. \<not> pool_step drop_cnq s s')"
  by (rule drop_run_ends)

section \<open>Witnesses\<close>

text \<open>The end of the run above has a completed ticket, a raised flag and settled workers.\<close>

lemma drop_end:
  obtains s where "pool_reach drop_cnq drop_config s" "\<forall>s'. \<not> pool_step drop_cnq s s'" "np_flags s = [(8, 1)]" "length (np_fetches s) = 1"
    "pf_reply (np_fetches s ! 0) = Some (Inr \<lparr>rp_records = 1, rp_bytes = 8192, rp_clamped = 0\<rparr>)" "pf_err (np_fetches s ! 0) = None"
    "length (np_recs s) = 1" "pr_fetch (np_recs s ! 0) = 0" "rec_of s 0 = drop_record"
  using drop_run_ends unfolding Let_def by (auto simp: drop_state_def rec_of_def)

lemma drop_published: "published drop_cnq drop_record (er_gu drop_record) = drop_cnq"
  by (simp add: published_def sanitizes_scales_def drop_record_def stored_def drop_cnq_def)

lemma nvme_ticket_means_bytes_witness:
  "\<exists>s. pool_reach drop_cnq drop_config s \<and> part_bytes (np_mem s 0 0) (er_gu drop_record) = drop_cnq"
proof -
  obtain s where s: "pool_reach drop_cnq drop_config s" "length (np_fetches s) = 1" "length (np_recs s) = 1" "pr_fetch (np_recs s ! 0) = 0"
    "pf_reply (np_fetches s ! 0) = Some (Inr \<lparr>rp_records = 1, rp_bytes = 8192, rp_clamped = 0\<rparr>)" "rec_of s 0 = drop_record"
    by (rule drop_end)
  from nvme_ticket_means_bytes [OF s(1) _ s(5)] s(2-4)
  have "\<forall>k < length (parts (rec_of s 0)). part_bytes (np_mem s 0 k) (parts (rec_of s 0) ! k) = published drop_cnq (rec_of s 0) (parts (rec_of s 0) ! k)"
    by simp
  then have "part_bytes (np_mem s 0 0) (er_gu drop_record) = drop_cnq"
    using drop_published unfolding s(6) by (simp add: parts_def drop_record_def)
  then show ?thesis using s(1) by blast
qed

lemma nvme_flag_after_record_witness:
  "\<exists>s. pool_reach drop_cnq drop_config s \<and> np_flags s = [(8, 1)] \<and> pr_left (np_recs s ! 0) = 0"
proof -
  obtain s where s: "pool_reach drop_cnq drop_config s" "np_flags s = [(8, 1)]" "length (np_recs s) = 1" by (rule drop_end)
  from nvme_flag_after_record [OF s(1), of "(8, 1)"] s(2,3) have "pr_left (np_recs s ! 0) = 0" by auto
  then show ?thesis using s by blast
qed

lemma nvme_tickets_complete_witness:
  "\<exists>s. pool_reach drop_cnq drop_config s \<and> length (np_fetches s) = 1 \<and> pf_reply (np_fetches s ! 0) \<noteq> None \<and> np_in_flight s = 0"
proof -
  obtain s where s: "pool_reach drop_cnq drop_config s" "\<forall>s'. \<not> pool_step drop_cnq s s'" "length (np_fetches s) = 1" by (rule drop_end)
  from nvme_tickets_complete [OF s(1,2)] s(3) have "pf_reply (np_fetches s ! 0) \<noteq> None \<and> np_in_flight s = 0" by simp
  then show ?thesis using s by blast
qed


lemma nvme_drop_joins_witness:
  "\<exists>s. pool_reach drop_cnq drop_config s \<and> np_closed s \<and> np_workers s = [Gone, Gone, Gone]"
proof -
  let ?s = "\<lambda>cl ws. \<lparr>np_hi = [], np_lo = [], np_closed = cl, np_lo_running = 0, np_lo_max = USIZE_MAX, np_piece = 4096, np_recs = [], np_fetches = [],
     np_submitted = 0, np_in_flight = 0, np_mem = \<lambda>_ _ _. 0, np_flags = [], np_workers = ws\<rparr>"
  note top = reach_step [where cnq = drop_cnq and c = drop_config, OF _ step_top]
  have "pool_open drop_config (\<lambda>_ _ _. 0) = Some (?s False [AtTop, AtTop, AtTop])"
    by (simp add: pool_open_def config_ok_def drop_config_def POOL_THREADS_MAX_def POOL_PIECE_KB_MAX_def ALIGN_def numeral_3_eq_3)
  from reach_close [OF reach_open [OF this]] have "pool_reach drop_cnq drop_config (?s True [AtTop, AtTop, AtTop])"
    by (simp add: pool_close_def notify_all_def wake_def)
  from top [OF this, of 0] have "pool_reach drop_cnq drop_config (?s True [Gone, AtTop, AtTop])" by (simp add: take_piece_def goto_def)
  from top [OF this, of 1] have "pool_reach drop_cnq drop_config (?s True [Gone, Gone, AtTop])" by (simp add: take_piece_def goto_def)
  from top [OF this, of 2] have r: "pool_reach drop_cnq drop_config (?s True [Gone, Gone, Gone])" by (simp add: take_piece_def goto_def)
  have "\<forall>s'. \<not> pool_step drop_cnq (?s True [Gone, Gone, Gone]) s'"
    by (intro allI notI, erule pool_stepE) (auto simp: nth_Cons' split: if_splits)
  from nvme_drop_joins [OF r _ _ this] have "np_workers (?s True [Gone, Gone, Gone]) = [Gone, Gone, Gone]"
    by (simp add: drop_config_def USIZE_MAX_def numeral_3_eq_3)
  then show ?thesis using r by (intro exI [of _ "?s True [Gone, Gone, Gone]"]) simp
qed

end
