(* ===== verification/SamplerState.thy ===== *)
theory SamplerState
  imports Float32 "HOL-Library.Word"
begin

text \<open>
  The host sampler of \<open>engine/src/sample.rs\<close>: its random stream, the penalty windows it books the
  drawn ids in, the repeat scan of DRY and the breaker map. An \<open>f32\<close> is an exact number that fits
  24 bits, an \<open>f64\<close> one that fits 53; the transcendental functions of the math library are
  arguments. Ids are natural numbers below \<open>2 ^ 32\<close>.
\<close>

section \<open>The random stream\<close>

unbundle bit_operations_syntax

text \<open>\<open>Rng\<close>: xorshift64*. A draw returns the value and the next state.\<close>

definition rng_new :: "u64 \<Rightarrow> u64" where
  "rng_new seed = (seed * 0x9E3779B97F4A7C15 + 0xD1B54A32D192ED03) OR 1"

definition rng_new_xtc :: "u64 \<Rightarrow> u64" where
  "rng_new_xtc seed = rng_new (seed XOR 0x585443535F4F574E)"

definition next_u64 :: "u64 \<Rightarrow> u64 \<times> u64" where
  "next_u64 x0 = (let x1 = x0 XOR drop_bit 12 x0; x2 = x1 XOR push_bit 25 x1; x3 = x2 XOR drop_bit 27 x2 in (x3 * 0x2545F4914F6CDD1D, x3))"

definition next_f64 :: "u64 \<Rightarrow> f64 \<times> u64" where
  "next_f64 x = (case next_u64 x of (v, x') \<Rightarrow> (Fin (int (unat (drop_bit 11 v))) (-53), x'))"

section \<open>The sampler\<close>

text \<open>The functions of the math library, single precision ones marked.\<close>

record math =
  m_exp :: "f64 \<Rightarrow> f64"
  m_ln :: "f64 \<Rightarrow> f64"
  m_log2 :: "f64 \<Rightarrow> f64"
  m_ln32 :: "f64 \<Rightarrow> f64"
  m_sqrt32 :: "f64 \<Rightarrow> f64"
  m_pow32 :: "f64 \<Rightarrow> f64 \<Rightarrow> f64"

record sampling =
  sm_temperature :: f64
  sm_top_p :: f64
  sm_top_k :: nat
  sm_presence :: f64
  sm_min_p :: f64
  sm_repeat :: f64
  sm_frequency :: f64
  sm_last_n :: nat
  sm_dry_multiplier :: f64
  sm_dry_base :: f64
  sm_dry_allowed :: int
  sm_dry_last_n :: nat
  sm_top_n_sigma :: f64
  sm_typical_p :: f64
  sm_xtc_probability :: f64
  sm_xtc_threshold :: f64
  sm_xtc_min_keep :: nat
  sm_mirostat :: nat
  sm_mirostat_tau :: f64
  sm_mirostat_eta :: f64
  sm_miro_mu :: f64
  sm_seed :: u64
  sm_rng :: u64
  sm_seen :: "nat set"
  sm_win :: "nat list"
  sm_win_counts :: "nat \<rightharpoonup> 16 word"
  sm_dry_win :: "nat list"
  sm_dry_breakers :: "nat \<rightharpoonup> nat list list"
  sm_xtc_rng :: u64

text \<open>\<open>Sampler::new\<close>: the profile of the data sheet and a seed. The literals are their \<open>f32\<close> values.\<close>

definition sampler_new :: "u64 \<Rightarrow> sampling" where
  "sampler_new seed = \<lparr>sm_temperature = to_f32 (f_decimal 7 (-1)), sm_top_p = to_f32 (f_decimal 8 (-1)), sm_top_k = 20,
     sm_presence = to_f32 (f_decimal 15 (-1)), sm_min_p = f_zero, sm_repeat = f_one, sm_frequency = f_zero, sm_last_n = 64,
     sm_dry_multiplier = f_zero, sm_dry_base = to_f32 (f_decimal 175 (-2)), sm_dry_allowed = 2, sm_dry_last_n = 64,
     sm_top_n_sigma = f_zero, sm_typical_p = f_one, sm_xtc_probability = f_zero, sm_xtc_threshold = to_f32 (f_decimal 1 (-1)), sm_xtc_min_keep = 1,
     sm_mirostat = 0, sm_mirostat_tau = Fin 5 0, sm_mirostat_eta = to_f32 (f_decimal 1 (-1)), sm_miro_mu = Fin 10 0, sm_seed = seed,
     sm_rng = rng_new seed, sm_seen = {}, sm_win = [], sm_win_counts = Map.empty, sm_dry_win = [], sm_dry_breakers = Map.empty,
     sm_xtc_rng = rng_new_xtc seed\<rparr>"

definition win_armed :: "sampling \<Rightarrow> bool" where
  "win_armed s \<longleftrightarrow> 0 < sm_last_n s \<and> (\<not> f_eq (sm_repeat s) f_one \<or> f_gt (sm_frequency s) f_zero)"

definition dry_armed :: "sampling \<Rightarrow> bool" where
  "dry_armed s \<longleftrightarrow> \<not> f_eq (sm_dry_multiplier s) f_zero \<and> f_ge (sm_dry_base s) f_one \<and> 0 < sm_dry_last_n s"

definition host_route :: "sampling \<Rightarrow> bool" where
  "host_route s \<longleftrightarrow> dry_armed s \<or> f_gt (sm_top_n_sigma s) f_zero \<or> f_lt (sm_typical_p s) f_one
     \<or> f_gt (sm_xtc_probability s) f_zero \<and> f_le (sm_xtc_threshold s) f_half \<or> sm_mirostat s = 2"

definition SAMPLE_MAXK :: nat where "SAMPLE_MAXK = 64"
definition SAMPLE_RING_MAX :: nat where "SAMPLE_RING_MAX = 1024"

definition top_k_needs_host :: "sampling \<Rightarrow> bool" where
  "top_k_needs_host s \<longleftrightarrow> f_gt (sm_temperature s) f_zero \<and> \<not> (1 \<le> sm_top_k s \<and> sm_top_k s \<le> SAMPLE_MAXK)"

definition reset_mirostat :: "sampling \<Rightarrow> sampling" where
  "reset_mirostat s = s\<lparr>sm_miro_mu := f32_mul (Fin 2 0) (sm_mirostat_tau s)\<rparr>"

definition ln_min_p :: "math \<Rightarrow> sampling \<Rightarrow> f64" where
  "ln_min_p M s = (if f_gt (sm_min_p s) f_zero then m_ln32 M (sm_min_p s) else f_zero)"

section \<open>The windows\<close>

definition win_count :: "nat \<Rightarrow> sampling \<Rightarrow> 16 word" where
  "win_count tok s = (case sm_win_counts s tok of Some c \<Rightarrow> c | None \<Rightarrow> 0)"

definition win_push :: "nat \<Rightarrow> sampling \<Rightarrow> sampling" where
  "win_push tok s = (let n = sm_last_n s in
     if n = 0 then s
     else let s1 = s\<lparr>sm_win := sm_win s @ [tok], sm_win_counts := (sm_win_counts s)(tok \<mapsto> win_count tok s + 1)\<rparr> in
       if n < length (sm_win s1) then
         (case sm_win s1 of
            [] \<Rightarrow> s1
          | old # rest \<Rightarrow> (case sm_win_counts s1 old of
              Some c \<Rightarrow> s1\<lparr>sm_win := rest, sm_win_counts := (sm_win_counts s1)(old \<mapsto> c - 1)\<rparr>
            | None \<Rightarrow> s1\<lparr>sm_win := rest\<rparr>))
       else s1)"

definition dry_push :: "nat \<Rightarrow> sampling \<Rightarrow> sampling" where
  "dry_push tok s = (if \<not> dry_armed s then s
     else let w = sm_dry_win s @ [tok] in s\<lparr>sm_dry_win := drop (length w - sm_dry_last_n s) w\<rparr>)"

definition sampler_observe :: "nat \<Rightarrow> sampling \<Rightarrow> sampling" where
  "sampler_observe tok s = dry_push (tok mod 2 ^ 32) (win_push (tok mod 2 ^ 32) (s\<lparr>sm_seen := insert tok (sm_seen s)\<rparr>))"

definition tail_of :: "nat \<Rightarrow> 'a list \<Rightarrow> 'a list" where
  "tail_of n ids = (if n < length ids then drop (length ids - n) ids else ids)"

definition observe_prompt :: "nat list \<Rightarrow> sampling \<Rightarrow> sampling" where
  "observe_prompt ids s = (let s1 = fold win_push (tail_of (sm_last_n s) ids) (s\<lparr>sm_win := [], sm_win_counts := Map.empty\<rparr>);
       s2 = s1\<lparr>sm_dry_win := []\<rparr>
     in if dry_armed s2 then fold dry_push (tail_of (sm_dry_last_n s2) ids) s2 else s2)"

section \<open>The repeat scan\<close>

text \<open>
  The window counted from its end. Step 1 bounds the scan by the most recent sequence breaker:
  its head and the longest tail that follows it in the text.
\<close>

definition rat :: "nat list \<Rightarrow> nat \<Rightarrow> nat" where
  "rat w i = w ! (length w - 1 - i)"

definition tail_fits :: "nat list \<Rightarrow> nat \<Rightarrow> nat list \<Rightarrow> bool" where
  "tail_fits w i tail \<longleftrightarrow> list_all (\<lambda>off. rat w (i - off - 1) = tail ! off) [0..<length tail]"

definition longest_tail :: "nat list \<Rightarrow> nat \<Rightarrow> nat list list \<Rightarrow> int" where
  "longest_tail w i tails = foldl (\<lambda>longest tail.
     if int (length tail) > longest \<and> length tail \<le> i \<and> tail_fits w i tail then int (length tail) else longest) (-1) tails"

fun rep_scan :: "(nat \<rightharpoonup> nat list list) \<Rightarrow> nat list \<Rightarrow> nat \<Rightarrow> nat list \<Rightarrow> int" where
  "rep_scan B w n [] = int n"
| "rep_scan B w n (i # is) = (case B (rat w i) of
      None \<Rightarrow> rep_scan B w n is
    | Some tails \<Rightarrow> if 0 \<le> longest_tail w i tails then int i - longest_tail w i tails else rep_scan B w n is)"

text \<open>Step 2: the reverse Z-algorithm; \<open>rc\<close> holds the clamped match lengths from the end.\<close>

function match_from :: "nat list \<Rightarrow> nat \<Rightarrow> nat \<Rightarrow> nat \<Rightarrow> nat" where
  "match_from w n k m = (if m + k < n \<and> rat w m = rat w (m + k) then match_from w n k (m + 1) else m)"
  by pat_completeness auto
termination by (relation "measure (\<lambda>(w, n, k, m). n - m)") auto

declare match_from.simps [simp del]

record zbox =
  z_rc :: "int list"
  z_lt :: nat
  z_rt :: nat

definition z_step :: "nat list \<Rightarrow> nat \<Rightarrow> int \<Rightarrow> nat \<Rightarrow> zbox \<Rightarrow> zbox" where
  "z_step w n limit k z = (let last = n - 1 in
     if z_rt z < k then
       (let m = match_from w n k 0; rc = (z_rc z)[last - k := min (int m) limit]
        in if 0 < m then \<lparr>z_rc = rc, z_lt = k, z_rt = k + m - 1\<rparr> else z\<lparr>z_rc := rc\<rparr>)
     else
       (let p = k - z_lt z; right = z_rt z - k + 1
        in if z_rc z ! (last - p) < int right then z\<lparr>z_rc := (z_rc z)[last - k := min (z_rc z ! (last - p)) limit]\<rparr>
           else let j = match_from w n k (z_rt z + 1 - k) + k
             in \<lparr>z_rc = (z_rc z)[last - k := min (int (j - k)) limit], z_lt = k, z_rt = j - 1\<rparr>))"

text \<open>Step 3: the longest repeat each id would extend.\<close>

definition keep_longest :: "nat list \<Rightarrow> nat \<Rightarrow> int \<Rightarrow> int list \<Rightarrow> nat \<Rightarrow> (nat \<rightharpoonup> int) \<Rightarrow> (nat \<rightharpoonup> int)" where
  "keep_longest w n allowed rc i out = (let rl = rc ! i; tok = rat w (n - 2 - i) in
     if allowed \<le> rl then out(tok \<mapsto> (case out tok of None \<Rightarrow> rl | Some e \<Rightarrow> if e < rl then rl else e)) else out)"

text \<open>A negative allowed length is a huge \<open>usize\<close> and ends the scan at once.\<close>

definition dry_max_repeats :: "sampling \<Rightarrow> (nat \<rightharpoonup> int)" where
  "dry_max_repeats s = (let w = sm_dry_win s; n = min (length w) (sm_dry_last_n s); allowed = sm_dry_allowed s in
     if n = 0 \<or> int n \<le> allowed mod 2 ^ 64 then Map.empty
     else let limit = rep_scan (sm_dry_breakers s) w n [0..<n] in
       if limit < allowed then Map.empty
       else let z = fold (z_step w n limit) [1..<n] \<lparr>z_rc = replicate n 0, z_lt = 0, z_rt = 0\<rparr>
         in fold (keep_longest w n allowed (z_rc z)) [0..<n - 1] Map.empty)"

definition dry_logit_delta :: "math \<Rightarrow> sampling \<Rightarrow> int \<Rightarrow> f64" where
  "dry_logit_delta M s repeat_len = (let
       max_exponent = (if f_gt (sm_dry_base s) (Fin 8388616 (-23)) then to_i32 (f32_div (Fin 11629080 (-17)) (m_ln32 M (sm_dry_base s))) else 0);
       e = repeat_len - sm_dry_allowed s;
       e' = (if 0 < max_exponent \<and> max_exponent < e then max_exponent else e)
     in f32_mul (sm_dry_multiplier s) (m_pow32 M (sm_dry_base s) (to_f32 (Fin e' 0))))"

definition dry_is_single_breaker :: "nat \<Rightarrow> sampling \<Rightarrow> bool" where
  "dry_is_single_breaker tok s = (case sm_dry_breakers s tok of None \<Rightarrow> False | Some t \<Rightarrow> list_ex (\<lambda>x. x = []) t)"


section \<open>The sequence breakers\<close>

definition DRY_DEFAULT_BREAKERS :: "str list" where
  "DRY_DEFAULT_BREAKERS = [[CHR 0x0A], '':'', [CHR 0x22], ''*'']"

definition contains_str :: "str \<Rightarrow> str \<Rightarrow> bool" where
  "contains_str w s \<longleftrightarrow> list_ex (\<lambda>p. take (length s) (drop p w) = s) [0..<length w + 1]"

text \<open>How far the end of a word runs into a breaker from position \<open>pos\<close>, and whether it matches.\<close>

function overlap :: "str \<Rightarrow> str \<Rightarrow> nat \<Rightarrow> nat \<Rightarrow> nat \<times> bool" where
  "overlap sb wb pos i = (if i < length sb \<and> i + pos < length wb
     then if wb ! (pos + i) \<noteq> sb ! i then (i, False) else overlap sb wb pos (i + 1)
     else (i, True))"
  by pat_completeness auto
termination by (relation "measure (\<lambda>(sb, wb, pos, i). length sb - i)") auto

declare overlap.simps [simp del]

definition MAX_SEQ_LEN :: nat where "MAX_SEQ_LEN = 20"
definition MAX_CHAR_LEN :: nat where "MAX_CHAR_LEN = 40"

definition add_tail :: "(str \<Rightarrow> nat list option) \<Rightarrow> str \<Rightarrow> str \<Rightarrow> nat \<Rightarrow> nat list list option \<Rightarrow> nat list list option" where
  "add_tail encode sb wb pos tails = (if wb ! pos \<noteq> sb ! 0 then tails
     else case overlap sb wb pos 1 of (i, matched) \<Rightarrow>
       if \<not> matched then tails
       else let toks = take MAX_SEQ_LEN (case encode (drop i sb) of Some t \<Rightarrow> t | None \<Rightarrow> []);
                ts = (case tails of Some t \<Rightarrow> t | None \<Rightarrow> [])
         in Some (if toks \<in> set ts then ts else ts @ [toks]))"

definition breaker_tails :: "(str \<Rightarrow> nat list option) \<Rightarrow> str \<Rightarrow> str \<Rightarrow> nat list list option \<Rightarrow> nat list list option" where
  "breaker_tails encode sb wb tails = (if contains_str wb sb then Some ((case tails of Some t \<Rightarrow> t | None \<Rightarrow> []) @ [[]])
     else fold (add_tail encode sb wb) [0..<length wb] tails)"

definition dry_breaker_map :: "nat \<Rightarrow> (nat \<Rightarrow> str option) \<Rightarrow> (str \<Rightarrow> nat list option) \<Rightarrow> (nat \<rightharpoonup> nat list list)" where
  "dry_breaker_map n_vocab text_of encode = fold (\<lambda>br m. let s = take MAX_CHAR_LEN br in
     fold (\<lambda>k m. case text_of k of None \<Rightarrow> m | Some word \<Rightarrow> m(k := breaker_tails encode s word (m k))) [0..<n_vocab mod 2 ^ 32] m)
     DRY_DEFAULT_BREAKERS Map.empty"

end
