(* ===== verification/SamplerDraw.thy ===== *)
theory SamplerDraw
  imports SamplerState
begin

text \<open>
  The draw of \<open>engine/src/sample.rs\<close>: penalties, DRY, top-n-sigma, top-k, typical, min-p, softmax,
  top-p, XTC and the draw, or mirostat. \<open>None\<close> is a panic: an empty row, or a sort that compares
  a NaN. The exponential, the logarithms, the power and the square root are arguments.
\<close>

section \<open>Penalties\<close>

definition win_pen :: "sampling \<Rightarrow> f64 \<Rightarrow> 16 word \<Rightarrow> f64" where
  "win_pen s l c = (if c = 0 then l
     else let v = (if \<not> f_eq (sm_repeat s) f_one then if f_gt l f_zero then f32_div l (sm_repeat s) else f32_mul l (sm_repeat s) else l)
       in f32_sub v (f32_add (f32_mul (Fin (uint c) 0) (sm_frequency s)) (sm_presence s)))"

definition penalized :: "math \<Rightarrow> sampling \<Rightarrow> (nat \<rightharpoonup> int) \<Rightarrow> nat \<Rightarrow> f64 \<Rightarrow> f64" where
  "penalized M s dry i l = (let
       v = (if win_armed s then win_pen s l (win_count i s) else if i \<in> sm_seen s then f32_sub l (sm_presence s) else l);
       tok = i mod 2 ^ 32
     in case dry tok of
       Some rl \<Rightarrow> if \<not> dry_is_single_breaker tok s then f32_sub v (dry_logit_delta M s rl) else v
     | None \<Rightarrow> v)"

definition penalized_row :: "math \<Rightarrow> sampling \<Rightarrow> f64 list \<Rightarrow> f64 list" where
  "penalized_row M s logits = (let dry = (if dry_armed s then dry_max_repeats s else Map.empty)
     in map (\<lambda>i. penalized M s dry i (logits ! i)) [0..<length logits])"

section \<open>Candidates\<close>

text \<open>\<open>top_n_sigma\<close>: the threshold of the mask.\<close>

definition sigma_cut :: "math \<Rightarrow> sampling \<Rightarrow> f64 list \<Rightarrow> f64 option" where
  "sigma_cut M s row = (if f_gt (sm_top_n_sigma s) f_zero \<and> 1 < length row then
     (let vs = filter (\<lambda>v. v \<noteq> Infty True) row; n = to_f32 (Fin (int (length vs)) 0);
          maxv = foldl (\<lambda>a v. if f_gt v a then v else a) (Infty True) vs;
          mean = (if vs \<noteq> [] then f32_div (foldl f32_add f_zero vs) n else f_zero);
          acc = foldl (\<lambda>a v. let d = f32_sub v mean in f32_add a (f32_mul d d)) f_zero vs;
          std = (if vs \<noteq> [] then m_sqrt32 M (f32_div acc n) else f_zero)
      in Some (f32_sub maxv (f32_mul (sm_top_n_sigma s) std)))
     else None)"

definition masked_row :: "f64 option \<Rightarrow> f64 list \<Rightarrow> f64 list" where
  "masked_row thr row = (case thr of None \<Rightarrow> row | Some t \<Rightarrow> map (\<lambda>v. if f_lt v t then Infty True else v) row)"

text \<open>A sort by \<open>partial_cmp(..).unwrap()\<close> panics on NaN: every element of two or more is compared.\<close>

definition cmp_desc :: "nat \<times> f64 \<Rightarrow> nat \<times> f64 \<Rightarrow> ordering" where
  "cmp_desc a b = (case f_cmp (snd b) (snd a) of Some c \<Rightarrow> c | None \<Rightarrow> Equal)"

definition sort_desc :: "(nat \<times> f64) list \<Rightarrow> (nat \<times> f64) list option" where
  "sort_desc cand = (if 2 \<le> length cand \<and> list_ex (\<lambda>c. snd c = NaN) cand then None else Some (sort_by cmp_desc cand))"

definition insert_after :: "nat \<times> f64 \<Rightarrow> (nat \<times> f64) list \<Rightarrow> (nat \<times> f64) list" where
  "insert_after c cand = takeWhile (\<lambda>d. \<not> f_gt (snd c) (snd d)) cand @ c # dropWhile (\<lambda>d. \<not> f_gt (snd c) (snd d)) cand"

definition top_k_step :: "nat \<Rightarrow> nat \<times> f64 \<Rightarrow> (nat \<times> f64) list \<Rightarrow> (nat \<times> f64) list option" where
  "top_k_step k c cand = (if length cand < k
     then (if length (cand @ [c]) = k then sort_desc (cand @ [c]) else Some (cand @ [c]))
     else if f_gt (snd c) (snd (cand ! (k - 1))) then Some (butlast (insert_after c cand))
     else Some cand)"

fun top_k_loop :: "nat \<Rightarrow> (nat \<times> f64) list \<Rightarrow> (nat \<times> f64) list \<Rightarrow> (nat \<times> f64) list option" where
  "top_k_loop k [] cand = (if length cand < k then sort_desc cand else Some cand)"
| "top_k_loop k (c # cs) cand = (case top_k_step k c cand of None \<Rightarrow> None | Some cand' \<Rightarrow> top_k_loop k cs cand')"

definition top_k_select :: "nat \<Rightarrow> f64 list \<Rightarrow> (nat \<times> f64) list option" where
  "top_k_select top_k row = (let k = (if top_k = 0 then length row else min top_k (length row)) in top_k_loop k (enumerate 0 row) [])"

text \<open>\<open>typical_p\<close>: the shortest run by distance from the entropy whose mass exceeds the threshold.\<close>

fun mass_prefix :: "f64 \<Rightarrow> (nat \<Rightarrow> f64) \<Rightarrow> f64 \<Rightarrow> nat list \<Rightarrow> nat" where
  "mass_prefix t pn cum [] = 0"
| "mass_prefix t pn cum (i # is) = (if f_gt (f_add cum (pn i)) t then 1 else Suc (mass_prefix t pn (f_add cum (pn i)) is))"

definition typical_keep :: "math \<Rightarrow> sampling \<Rightarrow> (nat \<times> f64) list \<Rightarrow> (nat \<times> f64) list option" where
  "typical_keep M s cand = (if f_lt (sm_typical_p s) f_one \<and> 1 < length cand then
     (let m = snd (cand ! 0);
          pr = map (\<lambda>c. m_exp M (f32_sub (snd c) m)) cand;
          z = f_sum pr;
          pn = map (\<lambda>p. f_div p z) pr;
          h = f_sum (map (\<lambda>p. f_mul (f_neg p) (m_ln M p)) pn);
          shifted = map (\<lambda>p. f_abs (f_sub (f_neg (m_ln M p)) h)) pn
      in if NaN \<in> set shifted then None
         else let idx = sort_by (\<lambda>a b. case f_cmp (shifted ! a) (shifted ! b) of Some c \<Rightarrow> c | None \<Rightarrow> Equal) [0..<length cand];
                  kept = set (take (mass_prefix (sm_typical_p s) (nth pn) f_zero idx) idx)
           in Some (nths cand kept))
     else Some cand)"

definition min_p_keep :: "math \<Rightarrow> sampling \<Rightarrow> (nat \<times> f64) list \<Rightarrow> (nat \<times> f64) list option" where
  "min_p_keep M s cand = (if f_gt (sm_min_p s) f_zero then
     (case cand of [] \<Rightarrow> None
      | c # _ \<Rightarrow> let thr = f32_add (snd c) (ln_min_p M s) in
          Some (take (max (length (takeWhile (\<lambda>d. f_ge (snd d) thr) cand)) 1) cand))
     else Some cand)"

section \<open>The draw\<close>

definition softmax :: "math \<Rightarrow> f64 \<Rightarrow> f64 \<Rightarrow> f64 list \<Rightarrow> f64 list" where
  "softmax M t m vs = (let pr = map (\<lambda>v. m_exp M (f32_div (f32_sub v m) t)) vs; z = f_sum pr in map (\<lambda>p. f_div p z) pr)"

fun nucleus :: "f64 \<Rightarrow> f64 \<Rightarrow> f64 list \<Rightarrow> nat" where
  "nucleus t acc [] = 0"
| "nucleus t acc (p # ps) = (if f_ge (f_add acc p) t then 1 else Suc (nucleus t (f_add acc p) ps))"

text \<open>XTC: the last position of the leading run at or above the threshold.\<close>

definition xtc_last :: "f64 \<Rightarrow> f64 \<Rightarrow> f64 list \<Rightarrow> nat" where
  "xtc_last zk thr ps = length (takeWhile (\<lambda>p. f_ge (f_div p zk) thr) ps) - 1"

definition xtc_start :: "sampling \<Rightarrow> f64 list \<Rightarrow> nat \<times> u64" where
  "xtc_start s ps = (if f_gt (sm_xtc_probability s) f_zero \<and> f_le (sm_xtc_threshold s) f_half \<and> 2 \<le> length ps then
     (case next_f64 (sm_xtc_rng s) of (chance, rng) \<Rightarrow>
        if f_le chance (sm_xtc_probability s) then
          (let pos = xtc_last (f_sum ps) (sm_xtc_threshold s) ps in
             if sm_xtc_min_keep s \<le> length ps - pos \<and> 0 < pos then (pos, rng) else (0, rng))
        else (0, rng))
     else (0, sm_xtc_rng s))"

fun pick :: "f64 \<Rightarrow> f64 \<Rightarrow> nat \<Rightarrow> f64 list \<Rightarrow> nat option" where
  "pick r acc i [] = None"
| "pick r acc i (p # ps) = (if f_lt r (f_add acc p) then Some i else pick r (f_add acc p) (Suc i) ps)"

definition draw_from :: "math \<Rightarrow> sampling \<Rightarrow> (nat \<times> f64) list \<Rightarrow> (nat \<times> sampling) option" where
  "draw_from M s cand = (if cand = [] then None else
     let probs = softmax M (sm_temperature s) (snd (cand ! 0)) (map snd cand);
         keep = nucleus (sm_top_p s) f_zero probs;
         (start, xtc) = xtc_start s (take keep probs);
         ps = drop start (take keep probs);
         (u, rng) = next_f64 (sm_rng s);
         i = (case pick (f_mul u (f_sum ps)) f_zero start ps of Some i \<Rightarrow> i | None \<Rightarrow> keep - 1)
     in Some (fst (cand ! i), s\<lparr>sm_rng := rng, sm_xtc_rng := xtc\<rparr>))"

definition cmp_total :: "nat \<times> f64 \<Rightarrow> nat \<times> f64 \<Rightarrow> ordering" where
  "cmp_total a b = (case cmp_desc a b of Equal \<Rightarrow> cmp (fst a) (fst b) | c \<Rightarrow> c)"

definition mirostat_v2_draw :: "math \<Rightarrow> sampling \<Rightarrow> f64 list \<Rightarrow> (nat \<times> sampling) option" where
  "mirostat_v2_draw M s scored = (if scored = [] \<or> 2 \<le> length scored \<and> NaN \<in> set scored then None else
     let idx = sort_by cmp_total (enumerate 0 scored);
         t = (if f_gt (sm_temperature s) f_zero then sm_temperature s else f_one);
         pr = softmax M t (snd (idx ! 0)) (map snd idx);
         keep = max (length (takeWhile (\<lambda>p. \<not> f_gt (f_neg (m_log2 M p)) (sm_miro_mu s)) pr)) 1;
         zk = f_sum (take keep pr);
         (u, rng) = next_f64 (sm_rng s);
         i = (case pick (f_mul u zk) f_zero 0 (take keep pr) of Some i \<Rightarrow> i | None \<Rightarrow> keep - 1);
         observed = f_neg (m_log2 M (f_div (pr ! i) zk));
         mu = to_f32 (f_sub (sm_miro_mu s) (f_mul (sm_mirostat_eta s) (f_sub observed (sm_mirostat_tau s))))
     in Some (fst (idx ! i), s\<lparr>sm_rng := rng, sm_miro_mu := mu\<rparr>))"

text \<open>\<open>Sampler::sample\<close>.\<close>

definition sample :: "math \<Rightarrow> sampling \<Rightarrow> f64 list \<Rightarrow> (nat \<times> sampling) option" where
  "sample M s logits = (let row = penalized_row M s logits in
     if sm_mirostat s = 2 then mirostat_v2_draw M s row
     else if f_le (sm_temperature s) f_zero then Some (argmax row, s)
     else Option.bind (top_k_select (sm_top_k s) (masked_row (sigma_cut M s row) row)) (\<lambda>cand.
          Option.bind (typical_keep M s cand) (\<lambda>cand.
          Option.bind (min_p_keep M s cand) (\<lambda>cand. draw_from M s cand))))"

end
