(* ===== verification/SamplerChoice.thy ===== *)
theory SamplerChoice
  imports SamplerDraw
begin

text \<open>
  What the draw of the sampler guarantees: the candidates are the k largest penalized logits, the
  id is one of them, a row without NaN never panics while typical_p is off, and typical_p panics
  on a masked candidate.
\<close>

section \<open>The order of candidates\<close>

definition rk :: "nat \<times> f64 \<Rightarrow> int \<times> rat" where "rk c = f_rank (snd c)"

definition below :: "nat \<times> f64 \<Rightarrow> nat \<times> f64 \<Rightarrow> bool" where "below a b \<longleftrightarrow> rank_less (rk a) (rk b)"

lemma below_trans: "below a b \<Longrightarrow> below b c \<Longrightarrow> below a c"
  using rank_less_trans by (auto simp: below_def)

lemma not_below_trans: "\<not> below a b \<Longrightarrow> \<not> below b c \<Longrightarrow> \<not> below a c"
  unfolding below_def using rank_less_total rank_less_trans by metis

lemma below_asym: "below a b \<Longrightarrow> \<not> below b a"
  unfolding below_def using rank_less_trans rank_less_irrefl by metis

lemma gt_below: "snd a \<noteq> NaN \<Longrightarrow> snd b \<noteq> NaN \<Longrightarrow> f_gt (snd a) (snd b) \<longleftrightarrow> below b a"
proof -
  assume n: "snd a \<noteq> NaN" "snd b \<noteq> NaN"
  have "\<not> (rank_less (rk a) (rk b) \<and> rank_less (rk b) (rk a))" using below_asym by (auto simp: below_def)
  moreover have "rank_less (rk a) (rk b) \<or> rank_less (rk b) (rk a) \<or> rk a = rk b" using rank_less_total by blast
  ultimately show ?thesis by (auto simp: f_gt_def f_cmp_rank [OF n] below_def rk_def)
qed

lemma cmp_below: "snd a \<noteq> NaN \<Longrightarrow> snd b \<noteq> NaN \<Longrightarrow> cmp_desc a b = Greater \<longleftrightarrow> below a b"
  using gt_below [of b a] by (auto simp: cmp_desc_def f_gt_def split: option.split)

text \<open>Inserting the last element after its equals is inserting it in any order.\<close>

fun insert_below :: "nat \<times> f64 \<Rightarrow> (nat \<times> f64) list \<Rightarrow> (nat \<times> f64) list" where
  "insert_below x [] = [x]"
| "insert_below x (y # ys) = (if below y x then x # y # ys else y # insert_below x ys)"

definition numbers :: "(nat \<times> f64) list \<Rightarrow> bool" where
  "numbers cs \<longleftrightarrow> (\<forall>c \<in> set cs. snd c \<noteq> NaN)"

lemma insert_after_below: "snd x \<noteq> NaN \<Longrightarrow> numbers cs \<Longrightarrow> insert_after x cs = insert_below x cs"
  by (induction cs) (auto simp: insert_after_def numbers_def gt_below)

lemma insert_commute:
  assumes "snd x \<noteq> NaN" "snd y \<noteq> NaN" "numbers zs"
  shows "insert_by cmp_desc y (insert_below x zs) = insert_below x (insert_by cmp_desc y zs)"
  using assms(3)
proof (induction zs)
  case Nil
  then show ?case using assms(1,2) by (auto simp: cmp_below)
next
  case (Cons z zs)
  then have n: "snd z \<noteq> NaN" "numbers zs" by (auto simp: numbers_def)
  show ?case
    using Cons.IH [OF n(2)] assms(1,2) n(1) below_trans [of y z x] not_below_trans [of y z x]
    by (cases "below z x"; cases "below y z"; cases "below y x") (simp_all add: cmp_below)
qed

lemma sort_snoc:
  assumes "snd x \<noteq> NaN" "numbers xs"
  shows "sort_by cmp_desc (xs @ [x]) = insert_below x (sort_by cmp_desc xs)"
  using assms(2)
proof (induction xs)
  case (Cons y xs)
  then have n: "snd y \<noteq> NaN" "numbers xs" by (auto simp: numbers_def)
  have "numbers (sort_by cmp_desc xs)" using n(2) by (simp add: numbers_def)
  from insert_commute [OF assms(1) n(1) this] Cons.IH [OF n(2)] show ?case by (simp add: sort_by_def)
qed (simp add: sort_by_def)

definition descending :: "(nat \<times> f64) list \<Rightarrow> bool" where
  "descending cs \<longleftrightarrow> sorted_wrt (\<lambda>a b. \<not> below a b) cs"

lemma insert_below_set [simp]: "set (insert_below x cs) = insert x (set cs)"
  by (induction cs) auto

lemma insert_below_length [simp]: "length (insert_below x cs) = Suc (length cs)"
  by (induction cs) auto

lemma insert_below_descending: "descending cs \<Longrightarrow> descending (insert_below x cs)"
proof (induction cs)
  case (Cons y ys)
  then have IH: "descending (insert_below x ys)" by (simp add: descending_def)
  show ?case
  proof (cases "below y x")
    case True
    have "\<not> below x z" if "z \<in> set ys" for z
    proof
      assume "below x z"
      then have "below y z" using True below_trans by blast
      then show False using Cons.prems that by (simp add: descending_def)
    qed
    then show ?thesis using Cons.prems True below_asym by (auto simp: descending_def)
  next
    case False
    then show ?thesis using Cons.prems IH by (auto simp: descending_def)
  qed
qed (simp add: descending_def)

lemma sort_descending: "numbers cs \<Longrightarrow> descending (sort_by cmp_desc cs)"
proof (induction cs rule: rev_induct)
  case (snoc x xs)
  then show ?case using sort_snoc [of x xs] insert_below_descending by (simp add: numbers_def)
qed (simp add: sort_by_def descending_def)

section \<open>Top-k\<close>

lemma insert_below_take: "(\<exists>i < k. below (cs ! i) x) \<Longrightarrow> k \<le> length cs \<Longrightarrow> insert_below x (take k cs) = take (Suc k) (insert_below x cs)"
proof (induction cs arbitrary: k)
  case (Cons y ys)
  then obtain k' where k: "k = Suc k'" by (cases k) auto
  show ?case
  proof (cases "below y x")
    case False
    have "\<exists>i < k'. below (ys ! i) x"
    proof -
      obtain i where "i < k" "below ((y # ys) ! i) x" using Cons.prems(1) by blast
      then show ?thesis using False k by (cases i) auto
    qed
    then show ?thesis using Cons.IH [of k'] Cons.prems(2) False k by simp
  qed (use k in simp)
qed simp

lemma insert_below_late: "(\<forall>i < k. \<not> below (cs ! i) x) \<Longrightarrow> k \<le> length cs \<Longrightarrow> take k (insert_below x cs) = take k cs"
proof (induction cs arbitrary: k)
  case (Cons y ys)
  show ?case
  proof (cases k)
    case (Suc k')
    have "\<not> below y x" "\<forall>i < k'. \<not> below (ys ! i) x" using Cons.prems(1) Suc by force+
    then show ?thesis using Cons.IH [of k'] Cons.prems(2) Suc by simp
  qed simp
qed simp

lemma top_k_step_take:
  assumes "numbers pre" "snd c \<noteq> NaN" "1 \<le> k" "k \<le> length pre"
  shows "top_k_step k c (take k (sort_by cmp_desc pre)) = Some (take k (sort_by cmp_desc (pre @ [c])))"
proof -
  let ?zs = "sort_by cmp_desc pre"
  have z: "numbers ?zs" "k \<le> length ?zs" "descending ?zs" using assms sort_descending by (simp_all add: numbers_def)
  have "?zs ! (k - 1) \<in> set ?zs" using assms(3) z(2) by (intro nth_mem) simp
  then have last: "take k ?zs ! (k - 1) = ?zs ! (k - 1)" "snd (?zs ! (k - 1)) \<noteq> NaN"
    using assms z(1) unfolding numbers_def by (simp_all del: set_sort_by)
  have gt: "f_gt (snd c) (snd (take k ?zs ! (k - 1))) \<longleftrightarrow> below (?zs ! (k - 1)) c"
    using gt_below [OF assms(2) last(2)] last(1) by simp
  have s: "sort_by cmp_desc (pre @ [c]) = insert_below c ?zs" by (rule sort_snoc [OF assms(2,1)])
  show ?thesis
  proof (cases "below (?zs ! (k - 1)) c")
    case True
    have "set (take k ?zs) \<subseteq> set ?zs" by (rule set_take_subset)
    then have "numbers (take k ?zs)" using z(1) unfolding numbers_def by blast
    then have "insert_after c (take k ?zs) = insert_below c (take k ?zs)" using insert_after_below assms(2) by blast
    also have "\<dots> = take (Suc k) (insert_below c ?zs)"
      using True assms(3) z(2) by (intro insert_below_take exI [of _ "k - 1"]) simp_all
    finally have "butlast (insert_after c (take k ?zs)) = take k (insert_below c ?zs)"
      using z(2) by (simp add: butlast_take)
    then show ?thesis using True gt z(2) by (simp add: top_k_step_def s)
  next
    case False
    have "\<not> below (?zs ! i) c" if "i < k" for i
    proof (cases "i = k - 1")
      case False
      then have "\<not> below (?zs ! i) (?zs ! (k - 1))" using z that by (simp add: descending_def sorted_wrt_iff_nth_less)
      then show ?thesis using not_below_trans \<open>\<not> below (?zs ! (k - 1)) c\<close> by blast
    qed (use False in simp)
    then have "take k (insert_below c ?zs) = take k ?zs" using z(2) by (intro insert_below_late) auto
    then show ?thesis using False gt z(2) by (simp add: top_k_step_def s)
  qed
qed

lemma top_k_loop_full: "numbers (pre @ cs) \<Longrightarrow> 1 \<le> k \<Longrightarrow> k \<le> length pre
    \<Longrightarrow> top_k_loop k cs (take k (sort_by cmp_desc pre)) = Some (take k (sort_by cmp_desc (pre @ cs)))"
proof (induction cs arbitrary: pre)
  case (Cons c cs)
  have "top_k_step k c (take k (sort_by cmp_desc pre)) = Some (take k (sort_by cmp_desc (pre @ [c])))"
    using Cons.prems by (intro top_k_step_take) (auto simp: numbers_def)
  then show ?case using Cons.IH [of "pre @ [c]"] Cons.prems by simp
qed simp

lemma top_k_loop_grow: "numbers (pre @ cs) \<Longrightarrow> length pre < k \<Longrightarrow> k \<le> length (pre @ cs)
    \<Longrightarrow> top_k_loop k cs pre = Some (take k (sort_by cmp_desc (pre @ cs)))"
proof (induction cs arbitrary: pre)
  case (Cons c cs)
  show ?case
  proof (cases "Suc (length pre) = k")
    case True
    have "numbers (pre @ [c])" using Cons.prems(1) by (simp add: numbers_def)
    then have "sort_desc (pre @ [c]) = Some (take k (sort_by cmp_desc (pre @ [c])))"
      using True by (simp add: sort_desc_def numbers_def list_ex_iff)
    then show ?thesis using top_k_loop_full [of "pre @ [c]" cs k] Cons.prems True by (simp add: top_k_step_def)
  next
    case False
    then show ?thesis using Cons.IH [of "pre @ [c]"] Cons.prems by (simp add: top_k_step_def)
  qed
qed simp

definition top_k_of :: "nat \<Rightarrow> f64 list \<Rightarrow> nat" where
  "top_k_of top_k row = (if top_k = 0 then length row else min top_k (length row))"

lemma numbers_enumerate: "numbers (enumerate 0 row) \<longleftrightarrow> NaN \<notin> set row"
proof -
  have "snd ` set (enumerate 0 row) = set row" by (metis list.set_map map_snd_enumerate)
  then show ?thesis by (force simp: numbers_def)
qed

lemma top_k_sorted:
  assumes "NaN \<notin> set row"
  shows "top_k_select k row = Some (take (if k = 0 then length row else k) (sort_by cmp_desc (enumerate 0 row)))"
proof -
  let ?k = "top_k_of k row"
  have n: "numbers (enumerate 0 row)" using assms by (simp add: numbers_enumerate)
  have t: "take (if k = 0 then length row else k) (sort_by cmp_desc (enumerate 0 row)) = take ?k (sort_by cmp_desc (enumerate 0 row))"
    by (simp add: top_k_of_def min_def)
  show ?thesis
  proof (cases "row = []")
    case False
    then have "0 < ?k" "?k \<le> length row" by (auto simp: top_k_of_def)
    then show ?thesis using top_k_loop_grow [of "[]" "enumerate 0 row" ?k] n unfolding t by (simp add: top_k_select_def Let_def top_k_of_def)
  qed (simp add: top_k_select_def sort_by_def)
qed

text \<open>
  The bounded insertion of the sampler selects the k largest logits in the order value
  descending, index ascending: it is the first k entries of the row sorted stably, for every row
  without NaN; \<open>top_k = 0\<close> and any k above the row's length keep the whole row.
\<close>

theorem top_k_is_sorted_prefix:
  assumes "NaN \<notin> set row"
  shows "top_k_select k row = Some (take (if k = 0 then length row else k) (sort_by cmp_desc (enumerate 0 row)))"
  using assms by (rule top_k_sorted)

lemma top_k_is_sorted_prefix_witness:
  "top_k_select 2 [Fin 1 0, Fin 3 0, Fin 3 0] = Some (take 2 (sort_by cmp_desc (enumerate 0 [Fin 1 0, Fin 3 0, Fin 3 0])))"
  using top_k_is_sorted_prefix [of "[Fin 1 0, Fin 3 0, Fin 3 0]" 2] by simp

section \<open>The drawn id\<close>

lemma sort_desc_cases: "sort_desc cand = Some out \<Longrightarrow> out = sort_by cmp_desc cand"
  by (simp add: sort_desc_def split: if_split_asm)

lemma insert_after_set: "set (insert_after c cand) = insert c (set cand)"
proof -
  have "set (takeWhile Q cand) \<union> set (dropWhile Q cand) = set cand" for Q :: "nat \<times> f64 \<Rightarrow> bool"
    by (subst set_append [symmetric]) simp
  then show ?thesis by (simp add: insert_after_def)
qed

lemma insert_after_length: "length (insert_after c cand) = Suc (length cand)"
proof -
  have "length (takeWhile Q cand) + length (dropWhile Q cand) = length cand" for Q :: "nat \<times> f64 \<Rightarrow> bool"
    by (subst length_append [symmetric]) simp
  then show ?thesis by (simp add: insert_after_def)
qed

lemma top_k_step_cases:
  assumes "top_k_step k c cand = Some cand'"
  obtains "cand' = sort_by cmp_desc (cand @ [c])" | "cand' = cand @ [c]" | "cand' = butlast (insert_after c cand)" "k \<le> length cand"
    | "cand' = cand" "k \<le> length cand"
proof -
  from assms consider "sort_desc (cand @ [c]) = Some cand'" | "cand' = cand @ [c]" | "cand' = butlast (insert_after c cand)" "k \<le> length cand"
    | "cand' = cand" "k \<le> length cand"
    unfolding top_k_step_def by (cases "length cand < k"; cases "length (cand @ [c]) = k"; cases "f_gt (snd c) (snd (cand ! (k - 1)))") simp_all
  then show thesis using that sort_desc_cases by cases blast+
qed

lemma top_k_step_set: "top_k_step k c cand = Some cand' \<Longrightarrow> set cand' \<subseteq> insert c (set cand)"
proof (erule top_k_step_cases)
  assume "cand' = butlast (insert_after c cand)"
  then have "set cand' \<subseteq> set (insert_after c cand)" using in_set_butlastD by fast
  then show ?thesis by (simp add: insert_after_set)
qed auto

lemma top_k_loop_set:
  "top_k_loop k cs cand = Some out \<Longrightarrow> set out \<subseteq> set cs \<union> set cand"
proof (induction cs arbitrary: cand)
  case Nil
  then have "out = cand \<or> out = sort_by cmp_desc cand" using sort_desc_cases by (simp split: if_split_asm)
  then show ?case by (elim disjE) simp_all
next
  case (Cons c cs)
  then obtain cand' where s: "top_k_step k c cand = Some cand'" "top_k_loop k cs cand' = Some out"
    by (simp split: option.split_asm)
  from Cons.IH [OF s(2)] top_k_step_set [OF s(1)] show ?case by auto
qed

lemma top_k_loop_nonempty: "top_k_loop k cs cand = Some out \<Longrightarrow> 1 \<le> k \<Longrightarrow> cs \<noteq> [] \<or> cand \<noteq> [] \<Longrightarrow> 1 \<le> length out"
proof (induction cs arbitrary: cand)
  case Nil
  then have "out = cand \<or> out = sort_by cmp_desc cand" using sort_desc_cases by (simp split: if_split_asm)
  then have "length out = length cand" by (elim disjE) simp_all
  then show ?case using Nil.prems(3) by (cases cand) simp_all
next
  case (Cons c cs)
  then obtain cand' where s: "top_k_step k c cand = Some cand'" "top_k_loop k cs cand' = Some out"
    by (simp split: option.split_asm)
  from s(1) Cons.prems(2) have "1 \<le> length cand'"
    by (elim top_k_step_cases) (simp_all add: insert_after_length)
  then have "cand' \<noteq> []" by auto
  then show ?case using Cons.IH [OF s(2) Cons.prems(2)] by simp
qed

lemma top_k_select_returns: "NaN \<notin> set row \<Longrightarrow> \<exists>cand. top_k_select k row = Some cand"
  using top_k_sorted by blast

lemma top_k_select_nonempty: "top_k_select k row = Some cand \<Longrightarrow> row \<noteq> [] \<Longrightarrow> 1 \<le> length cand"
proof -
  assume a: "top_k_select k row = Some cand" "row \<noteq> []"
  then have "enumerate 0 row \<noteq> []" by (metis length_0_conv length_enumerate)
  moreover have "1 \<le> (if k = 0 then length row else min k (length row))" using a(2) by (cases row) simp_all
  ultimately show "1 \<le> length cand" using top_k_loop_nonempty a(1) unfolding top_k_select_def Let_def by blast
qed

lemma pick_bounds: "pick r acc i ps = Some j \<Longrightarrow> i \<le> j \<and> j < i + length ps"
  by (induction ps arbitrary: acc i) (auto split: if_splits dest: Suc_leD, fastforce+)

lemma nucleus_bounds: "ps \<noteq> [] \<Longrightarrow> 1 \<le> nucleus t acc ps \<and> nucleus t acc ps \<le> length ps"
proof (induction ps arbitrary: acc)
  case (Cons p ps)
  then show ?case by (cases "ps = []") auto
qed simp

lemma length_softmax [simp]: "length (softmax M t m vs) = length vs"
  by (simp add: softmax_def Let_def)

lemma xtc_start_bound: "xtc_start s ps = (i, rng) \<Longrightarrow> i \<le> length ps"
proof -
  have "xtc_last zk thr ps \<le> length ps" for zk thr using length_takeWhile_le [of "\<lambda>p. f_ge (f_div p zk) thr" ps] by (simp add: xtc_last_def)
  then show "xtc_start s ps = (i, rng) \<Longrightarrow> i \<le> length ps" by (auto simp: xtc_start_def Let_def split: if_splits prod.splits)
qed

lemma draw_from_in:
  assumes "draw_from M s cand = Some (t, s')"
  shows "t \<in> fst ` set cand"
proof -
  let ?probs = "softmax M (sm_temperature s) (snd (cand ! 0)) (map snd cand)"
  let ?keep = "nucleus (sm_top_p s) f_zero ?probs"
  obtain start xtc where x: "xtc_start s (take ?keep ?probs) = (start, xtc)" by fastforce
  obtain u rng where n: "next_f64 (sm_rng s) = (u, rng)" by fastforce
  let ?ps = "drop start (take ?keep ?probs)"
  have c: "cand \<noteq> []" using assms by (auto simp: draw_from_def)
  then have "?probs \<noteq> []" by (metis length_0_conv length_map length_softmax)
  then have k: "1 \<le> ?keep" "?keep \<le> length cand" using nucleus_bounds [of ?probs "sm_top_p s" f_zero] by simp_all
  have st: "start \<le> ?keep" using xtc_start_bound [OF x] by simp
  have t: "t = fst (cand ! (case pick (f_mul u (f_sum ?ps)) f_zero start ?ps of Some i \<Rightarrow> i | None \<Rightarrow> ?keep - 1))"
    using assms c x n by (simp add: draw_from_def Let_def)
  have "(case pick (f_mul u (f_sum ?ps)) f_zero start ?ps of Some i \<Rightarrow> i | None \<Rightarrow> ?keep - 1) < length cand"
    using pick_bounds [of "f_mul u (f_sum ?ps)" f_zero start ?ps] st k by (auto split: option.split)
  then show ?thesis unfolding t by (intro imageI nth_mem)
qed

lemma typical_keep_set: "typical_keep M s cand = Some cand' \<Longrightarrow> set cand' \<subseteq> set cand"
  by (auto simp: typical_keep_def Let_def split: if_splits dest: in_set_nthsD)

lemma min_p_keep_set: "min_p_keep M s cand = Some cand' \<Longrightarrow> set cand' \<subseteq> set cand"
  by (auto simp: min_p_keep_def Let_def split: if_splits list.splits dest: in_set_takeD)

lemma set_enumerate: "fst ` set (enumerate 0 row) = {..<length row}"
proof -
  have "fst ` set (enumerate 0 row) = set (map fst (enumerate 0 row))" by (rule list.set_map [symmetric])
  then show ?thesis by (simp add: map_fst_enumerate atLeast0LessThan)
qed

lemma length_penalized [simp]: "length (penalized_row M s logits) = length logits"
  by (simp add: penalized_row_def Let_def)

lemma length_masked [simp]: "length (masked_row thr row) = length row"
  by (simp add: masked_row_def split: option.split)

lemma argmax_from_bound: "best < i + length vs \<Longrightarrow> argmax_from i best bv vs < i + length vs"
proof (induction vs arbitrary: i best bv)
  case (Cons v vs)
  then show ?case using Cons.IH [of i "Suc i" v] Cons.IH [of best "Suc i" bv] by simp
qed simp

text \<open>The candidates of a sampled draw: at each stage a part of the top-k.\<close>

lemma sample_cases:
  assumes "sample M s logits = Some (t, s')" "sm_mirostat s \<noteq> 2" "\<not> f_le (sm_temperature s) f_zero"
  obtains cand where "top_k_select (sm_top_k s) (masked_row (sigma_cut M s (penalized_row M s logits)) (penalized_row M s logits)) = Some cand"
    "t \<in> fst ` set cand"
proof -
  let ?row = "penalized_row M s logits"
  from assms obtain c1 c2 c3 where c: "top_k_select (sm_top_k s) (masked_row (sigma_cut M s ?row) ?row) = Some c1"
    "typical_keep M s c1 = Some c2" "min_p_keep M s c2 = Some c3" "draw_from M s c3 = Some (t, s')"
    by (auto simp: sample_def Let_def bind_eq_Some_conv)
  have "t \<in> fst ` set c1"
    using draw_from_in [OF c(4)] min_p_keep_set [OF c(3)] typical_keep_set [OF c(2)] by blast
  then show thesis using that c(1) by blast
qed

lemma mirostat_draw_in:
  assumes "mirostat_v2_draw M s row = Some (t, s')"
  shows "t < length row"
proof -
  let ?idx = "sort_by cmp_total (enumerate 0 row)"
  define pr where "pr = softmax M (if f_gt (sm_temperature s) f_zero then sm_temperature s else f_one) (snd (?idx ! 0)) (map snd ?idx)"
  define keep where "keep = max (length (takeWhile (\<lambda>p. \<not> f_gt (f_neg (m_log2 M p)) (sm_miro_mu s)) pr)) 1"
  obtain u rng where n: "next_f64 (sm_rng s) = (u, rng)" by fastforce
  define i where "i = (case pick (f_mul u (f_sum (take keep pr))) f_zero 0 (take keep pr) of Some i \<Rightarrow> i | None \<Rightarrow> keep - 1)"
  have safe: "\<not> (row = [] \<or> 2 \<le> length row \<and> NaN \<in> set row)" using assms by (auto simp: mirostat_v2_draw_def)
  then have row: "row \<noteq> []" by blast
  have pr: "length pr = length row" by (simp add: pr_def)
  have keep: "1 \<le> keep" "keep \<le> length row"
    using row pr length_takeWhile_le [of "\<lambda>p. \<not> f_gt (f_neg (m_log2 M p)) (sm_miro_mu s)" pr]
    by (cases row; simp add: keep_def)+
  have "i < length row"
    using pick_bounds [of "f_mul u (f_sum (take keep pr))" f_zero 0 "take keep pr"] keep pr
    unfolding i_def by (auto split: option.split)
  then have "fst (?idx ! i) \<in> fst ` set ?idx" by (intro imageI nth_mem) simp
  moreover have "\<exists>r. mirostat_v2_draw M s row = Some (fst (?idx ! i), r)"
    unfolding mirostat_v2_draw_def if_not_P [OF safe] Let_def n pr_def [symmetric] keep_def [symmetric] i_def [symmetric] prod.case
    by simp
  then have "t = fst (?idx ! i)" using assms by auto
  ultimately show ?thesis using set_enumerate [of row] by auto
qed

text \<open>
  The drawn id is an index of the row: whatever penalties, masks and truncations are armed and
  whatever the logits hold, infinities and NaN included, a call that returns on a row with at
  least one logit returns an id below its length, in the greedy, the sampled and the mirostat branch.
\<close>

theorem sample_in_row:
  assumes "sample M s logits = Some (t, s')" "logits \<noteq> []"
  shows "t < length logits"
proof -
  let ?row = "penalized_row M s logits"
  consider "sm_mirostat s = 2" | "sm_mirostat s \<noteq> 2" "f_le (sm_temperature s) f_zero"
    | "sm_mirostat s \<noteq> 2" "\<not> f_le (sm_temperature s) f_zero" by blast
  then show ?thesis
  proof cases
    case 1
    then have "mirostat_v2_draw M s ?row = Some (t, s')" using assms(1) by (simp add: sample_def Let_def)
    then show ?thesis using mirostat_draw_in by fastforce
  next
    case 2
    then have "sample M s logits = Some (argmax ?row, s)" by (simp add: sample_def Let_def)
    with assms(1) have "t = argmax ?row" by auto
    then show ?thesis using argmax_from_bound [of 0 0 ?row "Infty True"] assms(2) by (simp add: argmax_def)
  next
    case 3
    from sample_cases [OF assms(1) 3] obtain cand where c: "top_k_select (sm_top_k s) (masked_row (sigma_cut M s ?row) ?row) = Some cand"
      "t \<in> fst ` set cand" .
    have "set cand \<subseteq> set (enumerate 0 (masked_row (sigma_cut M s ?row) ?row))"
      using top_k_loop_set [OF c(1) [unfolded top_k_select_def Let_def]] by simp
    then have "t \<in> fst ` set (enumerate 0 (masked_row (sigma_cut M s ?row) ?row))" using c(2) by blast
    then show ?thesis by (simp only: set_enumerate) simp
  qed
qed

text \<open>A flat distribution and a plain sampler, for the concrete inputs below.\<close>

definition flat_math :: math where
  "flat_math = \<lparr>m_exp = (\<lambda>x. if x = Infty True then f_zero else f_one), m_ln = (\<lambda>x. if x = NaN then NaN else if f_eq x f_zero then Infty True else f_zero),
     m_log2 = (\<lambda>x. f_zero), m_ln32 = (\<lambda>x. f_zero), m_sqrt32 = (\<lambda>x. x), m_pow32 = (\<lambda>x y. f_one)\<rparr>"

definition plain_sampler :: sampling where
  "plain_sampler = (sampler_new 7)\<lparr>sm_temperature := f_one, sm_top_p := f_one, sm_top_k := 2\<rparr>"

lemma penalized_plain:
  "\<not> win_armed s \<Longrightarrow> \<not> dry_armed s \<Longrightarrow> sm_seen s = {} \<Longrightarrow> penalized_row M s row = row"
  by (rule nth_equalityI) (simp_all add: penalized_row_def penalized_def)

lemma unit_compares: "f_le f_zero f_zero" "\<not> f_le f_one f_zero" "f_eq f_one f_one" "f_eq f_zero f_zero"
  "\<not> f_gt f_zero f_zero" "\<not> f_lt f_one f_one" "f_lt f_half f_one" "\<not> f_ge f_zero f_one"
  by code_simp+

lemma plain_fields: "sm_temperature plain_sampler = f_one" "sm_mirostat plain_sampler = 0" "sm_typical_p plain_sampler = f_one"
  "sm_top_k plain_sampler = 2" "sm_top_n_sigma plain_sampler = f_zero" "sm_seen plain_sampler = {}" "sm_repeat plain_sampler = f_one"
  "sm_frequency plain_sampler = f_zero" "sm_dry_multiplier plain_sampler = f_zero"
  by (simp_all add: plain_sampler_def sampler_new_def)

lemma plain_row: "penalized_row M plain_sampler row = row" "penalized_row M (plain_sampler\<lparr>sm_temperature := v\<rparr>) row = row"
  "penalized_row M (plain_sampler\<lparr>sm_typical_p := v\<rparr>) row = row"
  by (rule penalized_plain; simp add: plain_fields win_armed_def dry_armed_def unit_compares)+

lemma sample_in_row_witness:
  "\<exists>t s'. sample flat_math (plain_sampler\<lparr>sm_temperature := f_zero\<rparr>) [Fin 1 0, NaN, Fin 3 0] = Some (t, s') \<and> t < 3"
proof -
  let ?s = "plain_sampler\<lparr>sm_temperature := f_zero\<rparr>"
  have "sample flat_math ?s [Fin 1 0, NaN, Fin 3 0] = Some (argmax [Fin 1 0, NaN, Fin 3 0], ?s)"
    by (simp add: sample_def plain_row plain_fields unit_compares)
  from this sample_in_row [OF this] show ?thesis by simp
qed

lemma min_p_keep_returns: "cand \<noteq> [] \<Longrightarrow> \<exists>cand'. min_p_keep M s cand = Some cand' \<and> cand' \<noteq> []"
  by (cases cand; cases "f_gt (sm_min_p s) f_zero") (simp_all add: min_p_keep_def Let_def)

lemma sigma_masked: "NaN \<notin> set row \<Longrightarrow> NaN \<notin> set (masked_row thr row)"
  by (auto simp: masked_row_def split: option.split)



section \<open>A masked candidate and typical-p\<close>

text \<open>The laws of \<open>exp\<close> and \<open>ln\<close> at the points the argument needs: \<open>exp(-inf) = 0\<close>, \<open>ln 0 = -inf\<close>, \<open>ln NaN = NaN\<close>.\<close>

definition ieee_exp_ln :: "math \<Rightarrow> bool" where
  "ieee_exp_ln M \<longleftrightarrow> m_exp M (Infty True) = f_zero \<and> (\<forall>e. m_ln M (Fin 0 e) = Infty True) \<and> m_ln M NaN = NaN"

lemma f_add_nan [simp]: "f_add NaN a = NaN" "f_add a NaN = NaN"
  by (cases a; simp)+

lemma f_sum_nan: "NaN \<in> set xs \<Longrightarrow> f_sum xs = NaN"
proof -
  have "foldl f_add NaN xs = NaN" for xs by (induction xs) simp_all
  then have "NaN \<in> set xs \<Longrightarrow> foldl f_add a xs = NaN" for a by (induction xs arbitrary: a) auto
  then show "NaN \<in> set xs \<Longrightarrow> f_sum xs = NaN" by (simp add: f_sum_def)
qed

lemma round_half_even_0: "round_half_even 0 s = 0"
  by (simp add: round_half_even_def)

lemma zero_over: "(\<exists>e. f_div f_zero z = Fin 0 e) \<or> f_div f_zero z = NaN"
  by (cases z) (auto simp: f_div_def f_zero_def ratio_def f_round_def round_half_even_0 Let_def)

lemma typical_keep_panics:
  assumes "ieee_exp_ln M" "f_lt (sm_typical_p s) f_one" "2 \<le> length cand"
    "snd (cand ! 0) = Fin m e" "c \<in> set cand" "snd c = Infty True"
  shows "typical_keep M s cand = None"
proof -
  define pr where "pr = map (\<lambda>c. m_exp M (f32_sub (snd c) (snd (cand ! 0)))) cand"
  define pn where "pn = map (\<lambda>p. f_div p (f_sum pr)) pr"
  define h where "h = f_sum (map (\<lambda>p. f_mul (f_neg p) (m_ln M p)) pn)"
  have "m_exp M (f32_sub (snd c) (snd (cand ! 0))) = f_zero"
    using assms(1,4,6) by (simp add: ieee_exp_ln_def f32_sub_def neg_f_def)
  then have "f_zero \<in> set pr" using assms(5) unfolding pr_def by force
  then have "f_div f_zero (f_sum pr) \<in> set pn" unfolding pn_def by force
  then obtain p where p: "p \<in> set pn" "(\<exists>e. p = Fin 0 e) \<or> p = NaN" using zero_over by blast
  have "f_mul (f_neg p) (m_ln M p) = NaN" using p(2) assms(1) by (auto simp: ieee_exp_ln_def f_neg_def neg_f_def)
  then have "NaN \<in> set (map (\<lambda>p. f_mul (f_neg p) (m_ln M p)) pn)" using p(1) by force
  then have h: "h = NaN" using f_sum_nan unfolding h_def by blast
  have "f_abs (f_sub (f_neg (m_ln M p)) h) = NaN" by (simp add: h f_sub_def f_abs_def neg_f_def)
  then have "NaN \<in> set (map (\<lambda>p. f_abs (f_sub (f_neg (m_ln M p)) h)) pn)" using p(1) by force
  then show ?thesis using assms(2,3) unfolding typical_keep_def Let_def pr_def [symmetric] pn_def [symmetric] h_def [symmetric] by simp
qed

lemma below_irrefl: "\<not> below a a"
  by (simp add: below_def)

lemma few_taken: "length (filter P xs) < length (take n xs) \<Longrightarrow> \<exists>c \<in> set (take n xs). \<not> P c"
proof (rule ccontr)
  assume a: "length (filter P xs) < length (take n xs)" "\<not> (\<exists>c \<in> set (take n xs). \<not> P c)"
  then have "filter P (take n xs) = take n xs" by (intro filter_True) blast
  moreover have "length (filter P (take n xs)) \<le> length (filter P (take n xs @ drop n xs))" unfolding filter_append by simp
  ultimately show False using a(1) by (metis append_take_drop_id leD)
qed

lemma length_filter_insert: "length (filter P (insert_by f x xs)) = length (filter P (x # xs))"
  by (induction xs) simp_all

lemma length_filter_sort: "length (filter P (sort_by f xs)) = length (filter P xs)"
proof (induction xs)
  case (Cons x xs)
  then show ?case using length_filter_insert [of P f x "sort_by f xs"] by (simp add: sort_by_def)
qed (simp add: sort_by_def)

lemma length_filter_enumerate: "length (filter (\<lambda>c. Q (snd c)) (enumerate n row)) = length (filter Q row)"
  by (induction row arbitrary: n) simp_all

text \<open>
  C32: A masked candidate makes typical-p panic in the sampled branch (a temperature above 0, mirostat
  off): with \<open>typical_p\<close> below 1, when fewer values of the
  penalized and masked row are above minus infinity than the top-k keeps, a candidate has
  probability 0, the entropy is NaN and the sort of the shifted entropies by
  \<open>partial_cmp(..).unwrap()\<close> has nothing to compare: the draw does not return. The hypotheses on the
  row are that it holds no NaN and no plus infinity, and something finite.
\<close>

theorem typical_panics_on_mask:
  fixes M s logits
  defines "row \<equiv> masked_row (sigma_cut M s (penalized_row M s logits)) (penalized_row M s logits)"
  assumes "ieee_exp_ln M" "f_lt (sm_typical_p s) f_one" "sm_mirostat s \<noteq> 2" "\<not> f_le (sm_temperature s) f_zero"
    "NaN \<notin> set row" "Infty False \<notin> set row" "Fin m e \<in> set row"
    "length (filter (\<lambda>v. v \<noteq> Infty True) row) < top_k_of (sm_top_k s) row"
  shows "sample M s logits = None"
proof -
  let ?srt = "sort_by cmp_desc (enumerate 0 row)" and ?k = "if sm_top_k s = 0 then length row else sm_top_k s"
  let ?cand = "take ?k ?srt"
  have top: "top_k_select (sm_top_k s) row = Some ?cand" using assms(6) by (rule top_k_sorted)
  have len: "length ?cand = top_k_of (sm_top_k s) row" by (simp add: top_k_of_def min.commute)
  have "length (filter (\<lambda>c. snd c \<noteq> Infty True) ?srt) = length (filter (\<lambda>v. v \<noteq> Infty True) row)"
    using length_filter_enumerate [of "\<lambda>v. v \<noteq> Infty True" 0 row] by (simp add: length_filter_sort)
  then have "\<exists>c \<in> set ?cand. \<not> snd c \<noteq> Infty True" using assms(9) len by (intro few_taken) simp
  then obtain c where c: "c \<in> set ?cand" "snd c = Infty True" by blast
  obtain i where "i < length row" "row ! i = Fin m e" using assms(8) by (meson in_set_conv_nth)
  then have i: "(i, Fin m e) \<in> set ?srt" by (simp add: in_set_enumerate_eq)
  then obtain hd rest where srt: "?srt = hd # rest" by (cases ?srt) simp_all
  have "descending ?srt" using sort_descending numbers_enumerate assms(6) by blast
  then have top_hd: "\<not> below hd (i, Fin m e)" using i below_irrefl unfolding srt descending_def by auto
  have "hd \<in> set ?srt" unfolding srt by simp
  then have "fst hd < length row" "row ! fst hd = snd hd" by (simp_all add: in_set_enumerate_eq)
  then have "snd hd \<in> set row" using nth_mem by metis
  then have "snd hd \<noteq> NaN" "snd hd \<noteq> Infty False" using assms(6,7) by metis+
  moreover have "snd hd \<noteq> Infty True" using top_hd by (auto simp: below_def rk_def rank_less_def)
  ultimately obtain m' e' where head: "snd hd = Fin m' e'" by (cases "snd hd") auto
  have "Fin m e \<in> set (filter (\<lambda>v. v \<noteq> Infty True) row)" using assms(8) by simp
  then have "1 \<le> length (filter (\<lambda>v. v \<noteq> Infty True) row)" by (cases "filter (\<lambda>v. v \<noteq> Infty True) row") simp_all
  then have two: "2 \<le> length ?cand" using assms(9) len by simp
  then have "?cand ! 0 = hd" unfolding srt by (simp add: nth_take)
  then have "typical_keep M s ?cand = None" using typical_keep_panics [OF assms(2,3) two _ c] head by simp
  then show ?thesis using assms(4,5) top by (simp add: sample_def Let_def row_def)
qed

lemma typical_panics_on_mask_witness:
  "sample flat_math (plain_sampler\<lparr>sm_typical_p := f_half\<rparr>) [Fin 1 0, Infty True] = None"
proof -
  let ?s = "plain_sampler\<lparr>sm_typical_p := f_half\<rparr>" and ?row = "[Fin 1 0, Infty True]"
  have m: "masked_row (sigma_cut flat_math ?s (penalized_row flat_math ?s ?row)) (penalized_row flat_math ?s ?row) = ?row"
    by (simp add: plain_row sigma_cut_def plain_fields unit_compares masked_row_def)
  have "ieee_exp_ln flat_math" by (simp add: ieee_exp_ln_def flat_math_def f_eq_def f_zero_def f_cmp_Fin fval_def cmp_def)
  from typical_panics_on_mask [of flat_math ?s ?row 1 0, unfolded m, OF this]
  show ?thesis by rule (simp_all add: plain_fields unit_compares top_k_of_def)
qed

end
