(* ===== verification/SamplerInv.thy ===== *)
theory SamplerInv
  imports SamplerState
begin

text \<open>
  The books of the sampler: the penalty windows hold the last ids of prompt and answer with exact
  counts, the repeat scan agrees with the naive one, the random stream never dies.
\<close>

section \<open>The random stream\<close>

lemma xor_shift_right_zero: "0 < n \<Longrightarrow> (x :: u64) XOR drop_bit n x = 0 \<Longrightarrow> x = 0"
proof (rule ccontr)
  assume n: "0 < n" and e: "x XOR drop_bit n x = 0" and "x \<noteq> 0"
  then have u: "unat x = unat x div 2 ^ n" by (metis drop_bit_eq_div unat_drop_bit_eq xor_self_eq bit.xor_left_self xor.right_neutral)
  have "0 < unat x" using \<open>x \<noteq> 0\<close> by (simp add: unat_gt_0)
  moreover have "(1 :: nat) < 2 ^ n" using n by (intro one_less_power) simp_all
  ultimately have "unat x div 2 ^ n < unat x" by (intro div_less_dividend)
  then show False using u by simp
qed

lemma xor_shift_left_zero: "0 < n \<Longrightarrow> (x :: u64) XOR push_bit n x = 0 \<Longrightarrow> x = 0"
proof (rule bit_word_eqI)
  fix i assume n: "0 < n" and e: "x XOR push_bit n x = 0" and i: "i < LENGTH(64)"
  have eq: "x = push_bit n x" using e by (metis bit.xor_left_self xor.right_neutral)
  have "\<not> bit x j" for j
  proof (induction j rule: less_induct)
    case (less j)
    have "bit x j \<longleftrightarrow> bit (push_bit n x) j" using eq by simp
    then show ?case using less [of "j - n"] n by (auto simp: bit_push_bit_iff)
  qed
  then show "bit x i \<longleftrightarrow> bit (0 :: u64) i" by simp
qed

text \<open>
  The random stream never dies: a stream seeded in any way never reaches the absorbing state 0,
  and every draw in the unit interval is a multiple of \<open>2 ^ -53\<close> below 1.
\<close>

theorem rng_stays_alive:
  "rng_new seed \<noteq> 0 \<and> (x \<noteq> 0 \<longrightarrow> snd (next_u64 x) \<noteq> 0) \<and> (\<exists>m. fst (next_f64 x) = Fin m (-53) \<and> 0 \<le> m \<and> m < 2 ^ 53)"
proof (intro conjI impI)
  show "rng_new seed \<noteq> 0"
  proof
    assume "rng_new seed = 0"
    then have "bit (rng_new seed) 0 = False" by simp
    then show False by (simp add: rng_new_def bit_or_iff)
  qed
  show "snd (next_u64 x) \<noteq> 0" if "x \<noteq> 0"
    using that xor_shift_right_zero [of 12 x] xor_shift_left_zero [of 25 "x XOR drop_bit 12 x"]
      xor_shift_right_zero [of 27 "(x XOR drop_bit 12 x) XOR push_bit 25 (x XOR drop_bit 12 x)"]
    by (auto simp: next_u64_def Let_def)
  have u: "unat (drop_bit 11 v) < 2 ^ 53" for v :: u64
  proof -
    have "unat v < 2 ^ LENGTH(64)" by (rule unsigned_less)
    then show ?thesis by (simp add: drop_bit_eq_div unat_div less_mult_imp_div_less)
  qed
  have i: "int (unat (drop_bit 11 v)) < 2 ^ 53" for v :: u64 using u [of v] by (metis of_nat_less_iff of_nat_numeral of_nat_power)
  show "\<exists>m. fst (next_f64 x) = Fin m (-53) \<and> 0 \<le> m \<and> m < 2 ^ 53"
    by (rule exI [of _ "int (unat (drop_bit 11 (fst (next_u64 x))))"]) (use i [of "fst (next_u64 x)"] in \<open>simp add: next_f64_def split_beta\<close>)
qed

section \<open>The windows\<close>

lemma tail_of_append1: "0 < n \<Longrightarrow> tail_of n (xs @ [x]) = (if n \<le> length (tail_of n xs) then tl (tail_of n xs) @ [x] else tail_of n xs @ [x])"
  by (auto simp: tail_of_def drop_Suc tl_drop Suc_diff_le)

lemma length_tail_of: "length (tail_of n xs) = min n (length xs)"
  by (auto simp: tail_of_def)

definition win_ok :: "nat list \<Rightarrow> sampling \<Rightarrow> bool" where
  "win_ok hist s \<longleftrightarrow> sm_last_n s \<le> SAMPLE_RING_MAX \<and> sm_win s = tail_of (sm_last_n s) hist
     \<and> (\<forall>t. unat (win_count t s) = count_list (sm_win s) t) \<and> (\<forall>t \<in> set (sm_win s). sm_win_counts s t \<noteq> None)"

lemma count_list_le: "count_list xs x \<le> length xs"
  by (induction xs) auto

lemma unat_pred: "unat (c :: 16 word) = Suc k \<Longrightarrow> unat (c - 1) = k"
proof -
  assume c: "unat c = Suc k"
  then have "c = of_nat (Suc k)" by (metis ucast_id of_nat_unat)
  then have "c - 1 = of_nat k" by simp
  moreover have "unat c < 2 ^ LENGTH(16)" by (rule unsigned_less)
  ultimately show ?thesis using c by (simp add: unat_of_nat)
qed

lemma win_push_ok:
  assumes "win_ok hist s"
  shows "win_ok (hist @ [t]) (win_push t s)"
proof (cases "sm_last_n s = 0")
  case True
  then show ?thesis using assms by (simp add: win_ok_def win_push_def tail_of_def)
next
  case False
  let ?n = "sm_last_n s" and ?w = "sm_win s"
  let ?c = "(sm_win_counts s)(t \<mapsto> win_count t s + 1)"
  have n: "0 < ?n" "?n \<le> 1024" using assms False by (simp_all add: win_ok_def SAMPLE_RING_MAX_def)
  have w: "?w = tail_of ?n hist" "length ?w \<le> ?n" using assms by (simp_all add: win_ok_def length_tail_of)
  have cnt: "unat (win_count x s) = count_list ?w x" for x using assms by (simp add: win_ok_def)
  have dom: "\<forall>x \<in> set ?w. sm_win_counts s x \<noteq> None" using assms by (simp add: win_ok_def)
  have up: "unat (case ?c x of Some c \<Rightarrow> c | None \<Rightarrow> 0) = count_list (?w @ [t]) x" for x
  proof (cases "x = t")
    case True
    have "unat (win_count t s + 1) = count_list ?w t + 1"
      using cnt [of t] count_list_le [of ?w t] w(2) n(2) by (simp add: unat_word_ariths(1))
    then show ?thesis using True by simp
  qed (use cnt in \<open>auto simp: win_count_def\<close>)
  show ?thesis
  proof (cases "?n < length (?w @ [t])")
    case True
    then obtain old rest where old: "?w @ [t] = old # rest" by (cases "?w @ [t]") auto
    have "old = t \<or> old \<in> set ?w" using old by (cases ?w) auto
    then obtain c where c: "?c old = Some c" using dom by (cases "old = t") auto
    have "unat c = count_list (old # rest) old" using up [of old] c old by simp
    then have cu: "unat (c - 1) = count_list rest old" by (simp add: unat_pred)
    have push: "win_push t s = s\<lparr>sm_win := rest, sm_win_counts := ?c(old \<mapsto> c - 1)\<rparr>"
      using n True old c by (simp add: win_push_def Let_def)
    have "rest = tail_of ?n (hist @ [t])"
    proof -
      have "?w \<noteq> []" using True n by auto
      then have "rest = tl ?w @ [t]" using old by (cases ?w) simp_all
      then show ?thesis using True w(1) tail_of_append1 [OF n(1), of hist t] by simp
    qed
    moreover have "unat (case (?c(old \<mapsto> c - 1)) x of Some c \<Rightarrow> c | None \<Rightarrow> 0) = count_list rest x" for x
      using up [of x] cu unfolding old by (cases "x = old") auto
    moreover have "\<forall>x \<in> set rest. (?c(old \<mapsto> c - 1)) x \<noteq> None"
    proof
      fix x assume "x \<in> set rest"
      then have "x \<in> set (?w @ [t])" using old by simp
      then show "(?c(old \<mapsto> c - 1)) x \<noteq> None" using dom by auto
    qed
    ultimately show ?thesis using n by (simp add: win_ok_def push win_count_def SAMPLE_RING_MAX_def)
  next
    case False
    then have push: "win_push t s = s\<lparr>sm_win := ?w @ [t], sm_win_counts := ?c\<rparr>" using n by (simp add: win_push_def Let_def)
    have "?w @ [t] = tail_of ?n (hist @ [t])" using False w by (simp add: tail_of_append1 n)
    moreover have "\<forall>x \<in> set (?w @ [t]). ?c x \<noteq> None" using dom by simp
    ultimately show ?thesis using n up by (simp add: win_ok_def push win_count_def SAMPLE_RING_MAX_def)
  qed
qed


lemma win_push_fields [simp]:
  "sm_last_n (win_push t s) = sm_last_n s" "sm_dry_win (win_push t s) = sm_dry_win s" "sm_seen (win_push t s) = sm_seen s"
  "dry_armed (win_push t s) = dry_armed s" "sm_dry_last_n (win_push t s) = sm_dry_last_n s"
  by (auto simp: win_push_def dry_armed_def Let_def split: list.split option.split)

lemma dry_push_fields [simp]:
  "sm_last_n (dry_push t s) = sm_last_n s" "sm_win (dry_push t s) = sm_win s" "sm_win_counts (dry_push t s) = sm_win_counts s"
  "sm_seen (dry_push t s) = sm_seen s" "dry_armed (dry_push t s) = dry_armed s" "sm_dry_last_n (dry_push t s) = sm_dry_last_n s"
  "win_count x (dry_push t s) = win_count x s"
  by (simp_all add: dry_push_def dry_armed_def win_count_def Let_def)

definition dry_ok :: "nat list \<Rightarrow> sampling \<Rightarrow> bool" where
  "dry_ok hist s \<longleftrightarrow> (dry_armed s \<longrightarrow> sm_dry_win s = tail_of (sm_dry_last_n s) hist)"

lemma tail_of_drop: "drop (length (tail_of n xs @ [x]) - n) (tail_of n xs @ [x]) = tail_of n (xs @ [x])"
proof (cases "length xs < n")
  case True
  then show ?thesis by (simp add: tail_of_def)
next
  case False
  then have l: "length (tail_of n xs) = n" by (simp add: length_tail_of)
  show ?thesis
  proof (cases "n = 0")
    case True
    then show ?thesis using l by (simp add: tail_of_def)
  next
    case nz: False
    have "drop (length (tail_of n xs @ [x]) - n) (tail_of n xs @ [x]) = tl (tail_of n xs) @ [x]"
      using l nz by (cases "tail_of n xs") simp_all
    then show ?thesis using l nz by (simp add: tail_of_append1)
  qed
qed

lemma dry_push_ok: "dry_ok hist s \<Longrightarrow> dry_ok (hist @ [t]) (dry_push t s)"
  using tail_of_drop [of "sm_dry_last_n s" hist t] by (auto simp: dry_ok_def dry_push_def Let_def dry_armed_def)

lemma fold_win_push: "win_ok hist s \<Longrightarrow> win_ok (hist @ ts) (fold win_push ts s)"
proof (induction ts arbitrary: hist s)
  case (Cons t ts)
  from Cons.IH [OF win_push_ok [OF Cons.prems]] show ?case by simp
qed simp

lemma fold_win_push_fields [simp]:
  "sm_last_n (fold win_push ts s) = sm_last_n s" "sm_dry_win (fold win_push ts s) = sm_dry_win s" "sm_seen (fold win_push ts s) = sm_seen s"
  "dry_armed (fold win_push ts s) = dry_armed s" "sm_dry_last_n (fold win_push ts s) = sm_dry_last_n s"
  by (induction ts arbitrary: s) simp_all

lemma fold_dry_push: "dry_ok hist s \<Longrightarrow> dry_ok (hist @ ts) (fold dry_push ts s)"
proof (induction ts arbitrary: hist s)
  case (Cons t ts)
  from Cons.IH [OF dry_push_ok [OF Cons.prems]] show ?case by simp
qed simp

lemma fold_dry_push_fields [simp]:
  "sm_last_n (fold dry_push ts s) = sm_last_n s" "sm_win (fold dry_push ts s) = sm_win s" "sm_win_counts (fold dry_push ts s) = sm_win_counts s"
  "sm_seen (fold dry_push ts s) = sm_seen s" "dry_armed (fold dry_push ts s) = dry_armed s" "sm_dry_last_n (fold dry_push ts s) = sm_dry_last_n s"
  by (induction ts arbitrary: s) simp_all

lemma tail_of_tail: "tail_of n (tail_of n xs @ ys) = tail_of n (xs @ ys)"
proof (induction ys rule: rev_induct)
  case (snoc y ys)
  have "tail_of n (xs @ ys @ [y]) = drop (length (tail_of n (xs @ ys) @ [y]) - n) (tail_of n (xs @ ys) @ [y])"
    using tail_of_drop [of n "xs @ ys" y] by simp
  also have "\<dots> = tail_of n (tail_of n xs @ ys @ [y])"
    using tail_of_drop [of n "tail_of n xs @ ys" y] by (simp add: snoc)
  finally show ?case by simp
qed (auto simp: tail_of_def)

lemma observe_prompt_ok:
  assumes "sm_last_n s \<le> SAMPLE_RING_MAX"
  shows "win_ok ids (observe_prompt ids s)" "dry_ok ids (observe_prompt ids s)" "sm_seen (observe_prompt ids s) = sm_seen s"
    "sm_last_n (observe_prompt ids s) = sm_last_n s" "dry_armed (observe_prompt ids s) = dry_armed s"
    "sm_dry_last_n (observe_prompt ids s) = sm_dry_last_n s"
proof -
  let ?s0 = "s\<lparr>sm_win := [], sm_win_counts := Map.empty\<rparr>"
  let ?s1 = "fold win_push (tail_of (sm_last_n s) ids) ?s0"
  let ?s2 = "?s1\<lparr>sm_dry_win := []\<rparr>"
  have a: "dry_armed ?s0 = dry_armed s" "dry_armed (t\<lparr>sm_dry_win := []\<rparr>) = dry_armed t" for t by (simp_all add: dry_armed_def)
  have "win_ok [] ?s0" using assms by (simp add: win_ok_def tail_of_def win_count_def)
  from fold_win_push [OF this, of "tail_of (sm_last_n s) ids"] have "win_ok (tail_of (sm_last_n s) ids) ?s1" by simp
  then have w: "win_ok ids ?s1" using tail_of_tail [of "sm_last_n s" ids "[]"] by (simp add: win_ok_def)
  have "dry_ok [] ?s2" by (simp add: dry_ok_def tail_of_def)
  from fold_dry_push [OF this, of "tail_of (sm_dry_last_n s) ids"]
  have "dry_ok (tail_of (sm_dry_last_n s) ids) (fold dry_push (tail_of (sm_dry_last_n s) ids) ?s2)" by simp
  then have d: "dry_ok ids (fold dry_push (tail_of (sm_dry_last_n s) ids) ?s2)"
    using tail_of_tail [of "sm_dry_last_n s" ids "[]"] by (simp add: dry_ok_def)
  have o: "observe_prompt ids s = (if dry_armed s then fold dry_push (tail_of (sm_dry_last_n s) ids) ?s2 else ?s2)"
    by (simp add: observe_prompt_def Let_def a)
  show "win_ok ids (observe_prompt ids s)" using w by (simp add: o win_ok_def win_count_def)
  show "dry_ok ids (observe_prompt ids s)" using d a by (simp add: o) (simp add: dry_ok_def)
  show "sm_seen (observe_prompt ids s) = sm_seen s" "sm_last_n (observe_prompt ids s) = sm_last_n s" "dry_armed (observe_prompt ids s) = dry_armed s"
    "sm_dry_last_n (observe_prompt ids s) = sm_dry_last_n s"
    by (simp_all add: o a)
qed

text \<open>
  The penalty windows are what llama.cpp keeps: after a prompt and any ids of the answer the
  window holds the last \<open>penalty_last_n\<close> ids of both, the count of an id is its number of
  occurrences there (no counter wraps), the presence set holds this answer's ids only, and an
  armed DRY window holds the last \<open>dry_last_n\<close> ids.
\<close>

theorem sampler_windows_exact:
  assumes "sm_last_n s \<le> SAMPLE_RING_MAX" "\<forall>t \<in> set ts. t < 2 ^ 32" "s' = fold sampler_observe ts (observe_prompt ids s)"
  shows "sm_win s' = tail_of (sm_last_n s) (ids @ ts) \<and> (\<forall>t. unat (win_count t s') = count_list (sm_win s') t)
    \<and> sm_seen s' = sm_seen s \<union> set ts \<and> (dry_armed s \<longrightarrow> sm_dry_win s' = tail_of (sm_dry_last_n s) (ids @ ts))"
proof -
  have "win_ok (ids @ ts) s' \<and> dry_ok (ids @ ts) s' \<and> sm_seen s' = sm_seen s \<union> set ts \<and> sm_last_n s' = sm_last_n s
      \<and> dry_armed s' = dry_armed s \<and> sm_dry_last_n s' = sm_dry_last_n s"
    using assms(2,3)
  proof (induction ts arbitrary: s' rule: rev_induct)
    case Nil
    then show ?case using observe_prompt_ok [OF assms(1), of ids] by simp
  next
    case (snoc t ts)
    let ?r = "fold sampler_observe ts (observe_prompt ids s)"
    have IH: "win_ok (ids @ ts) ?r" "dry_ok (ids @ ts) ?r" "sm_seen ?r = sm_seen s \<union> set ts" "sm_last_n ?r = sm_last_n s"
      "dry_armed ?r = dry_armed s" "sm_dry_last_n ?r = sm_dry_last_n s"
      using snoc.IH [OF _ refl] snoc.prems(1) by simp_all
    let ?q = "?r\<lparr>sm_seen := insert t (sm_seen ?r)\<rparr>"
    have "sampler_observe t r = dry_push t (win_push t (r\<lparr>sm_seen := insert t (sm_seen r)\<rparr>))" for r
      using snoc.prems(1) by (simp add: sampler_observe_def)
    then have s': "s' = dry_push t (win_push t ?q)" using snoc.prems(2) by simp
    have q: "win_ok (ids @ ts) ?q" "dry_ok (ids @ ts) ?q" "dry_armed ?q = dry_armed ?r"
      using IH(1,2) by (simp_all add: win_ok_def dry_ok_def win_count_def dry_armed_def)
    have "win_ok (ids @ ts @ [t]) (win_push t ?q)" using win_push_ok [OF q(1), of t] by simp
    then have "win_ok (ids @ ts @ [t]) s'" by (simp add: s' win_ok_def)
    moreover have "dry_ok (ids @ ts) (win_push t ?q)" using q(2) by (simp add: dry_ok_def)
    then have "dry_ok (ids @ ts @ [t]) s'" using dry_push_ok [of "ids @ ts" _ t] by (simp add: s')
    ultimately show ?case using IH q(3) by (simp add: s')
  qed
  then show ?thesis by (simp add: win_ok_def dry_ok_def)
qed

lemma sampler_windows_exact_witness:
  "let s' = fold sampler_observe [7, 8, 7] (observe_prompt [9, 7] ((sampler_new 1)\<lparr>sm_last_n := 3\<rparr>)) in
     sm_win s' = [7, 8, 7] \<and> unat (win_count 7 s') = 2 \<and> sm_seen s' = {7, 8}"
  using sampler_windows_exact [of "(sampler_new 1)\<lparr>sm_last_n := 3\<rparr>" "[7, 8, 7]" _ "[9, 7]", OF _ _ refl]
  by (auto simp: Let_def tail_of_def SAMPLE_RING_MAX_def sampler_new_def)

section \<open>The repeat scan\<close>

text \<open>The naive scan: how far the window, read from its end, repeats \<open>k\<close> ids earlier.\<close>

definition repeat_len :: "nat list \<Rightarrow> nat \<Rightarrow> nat \<Rightarrow> nat" where
  "repeat_len w n k = length (takeWhile (\<lambda>x. rat w x = rat w (x + k)) [0..<n - k])"

lemma takeWhile_upt: "m \<le> n \<Longrightarrow> (\<And>x. x < m \<Longrightarrow> P x) \<Longrightarrow> m < n \<longrightarrow> \<not> P m \<Longrightarrow> length (takeWhile P [0..<n]) = m"
proof -
  assume m: "m \<le> n" and P: "\<And>x. x < m \<Longrightarrow> P x" and e: "m < n \<longrightarrow> \<not> P m"
  have "[0..<n] = [0..<m] @ [m..<n]" using m by (metis le_add_diff_inverse upt_add_eq_append zero_le)
  then have "takeWhile P [0..<n] = [0..<m] @ takeWhile P [m..<n]" using P by (simp add: takeWhile_append)
  moreover have "takeWhile P [m..<n] = []" using e by (cases "m < n") (simp_all add: upt_conv_Cons)
  ultimately show ?thesis by simp
qed

lemma repeat_len_eqI: "m + k \<le> n \<Longrightarrow> (\<And>x. x < m \<Longrightarrow> rat w x = rat w (x + k)) \<Longrightarrow> m + k < n \<longrightarrow> rat w m \<noteq> rat w (m + k)
    \<Longrightarrow> repeat_len w n k = m"
  unfolding repeat_len_def by (rule takeWhile_upt) (auto simp: less_diff_conv)

lemma repeat_len_bound: "k \<le> n \<Longrightarrow> repeat_len w n k + k \<le> n"
  using length_takeWhile_le [of "\<lambda>x. rat w x = rat w (x + k)" "[0..<n - k]"] by (simp add: repeat_len_def)

lemma repeat_len_match: "x < repeat_len w n k \<Longrightarrow> rat w x = rat w (x + k)"
proof -
  assume x: "x < repeat_len w n k"
  have "x < n - k" using x length_takeWhile_le [of "\<lambda>x. rat w x = rat w (x + k)" "[0..<n - k]"] by (simp add: repeat_len_def)
  then have "takeWhile (\<lambda>x. rat w x = rat w (x + k)) [0..<n - k] ! x = x" using x takeWhile_nth [of x _ "[0..<n - k]"] by (simp add: repeat_len_def)
  moreover have "takeWhile (\<lambda>x. rat w x = rat w (x + k)) [0..<n - k] ! x \<in> set (takeWhile (\<lambda>x. rat w x = rat w (x + k)) [0..<n - k])"
    using x by (intro nth_mem) (simp add: repeat_len_def)
  ultimately show ?thesis using set_takeWhileD by fastforce
qed

lemma repeat_len_stop: "repeat_len w n k + k < n \<Longrightarrow> rat w (repeat_len w n k) \<noteq> rat w (repeat_len w n k + k)"
proof -
  assume l: "repeat_len w n k + k < n"
  then have "length (takeWhile (\<lambda>x. rat w x = rat w (x + k)) [0..<n - k]) < length [0..<n - k]" by (simp add: repeat_len_def less_diff_conv)
  from nth_length_takeWhile [OF this] show ?thesis using l by (simp add: repeat_len_def less_diff_conv)
qed

lemma match_from_repeat: "(\<And>x. x < m \<Longrightarrow> rat w x = rat w (x + k)) \<Longrightarrow> m + k \<le> n \<Longrightarrow> match_from w n k m = repeat_len w n k"
proof (induction w n k m rule: match_from.induct)
  case (1 w n k m)
  show ?case
  proof (cases "m + k < n \<and> rat w m = rat w (m + k)")
    case True
    then have "\<And>x. x < m + 1 \<Longrightarrow> rat w x = rat w (x + k)" using 1(2) by (metis less_add_one less_antisym add.commute Suc_eq_plus1)
    then have "match_from w n k (m + 1) = repeat_len w n k" using 1(1) [OF True] True by simp
    then show ?thesis using True match_from.simps [of w n k m] by simp
  next
    case False
    then have "repeat_len w n k = m" using 1(2,3) by (intro repeat_len_eqI) auto
    moreover have "match_from w n k m = m" using False match_from.simps [of w n k m] by auto
    ultimately show ?thesis by simp
  qed
qed

text \<open>A position inside a match mirrors the position at its start.\<close>

lemma mirror:
  assumes "lt < k" "k < lt + repeat_len w n lt" "lt + repeat_len w n lt \<le> n"
  defines "p \<equiv> k - lt" and "right \<equiv> lt + repeat_len w n lt - k"
  shows "repeat_len w n p < right \<Longrightarrow> repeat_len w n k = repeat_len w n p"
    "right \<le> repeat_len w n p \<Longrightarrow> right \<le> repeat_len w n k"
    "x < right \<Longrightarrow> right \<le> repeat_len w n p \<Longrightarrow> rat w x = rat w (x + k)"
proof -
  have pk: "p + lt = k" "right + p = repeat_len w n lt" using assms by simp_all
  have m: "rat w (p + x) = rat w (x + k)" if "x < right" for x
  proof -
    have e: "p + x + lt = x + k" using pk(1) by linarith
    have "rat w (p + x) = rat w (p + x + lt)" by (rule repeat_len_match [where n = n]) (use that pk(2) in linarith)
    then show ?thesis unfolding e .
  qed
  show "repeat_len w n k = repeat_len w n p" if l: "repeat_len w n p < right"
  proof (rule repeat_len_eqI)
    show "repeat_len w n p + k \<le> n" using l pk assms(3) by linarith
    show "rat w x = rat w (x + k)" if "x < repeat_len w n p" for x
      using repeat_len_match [OF that] m [of x] that l by (simp add: ac_simps)
    have "repeat_len w n p + p < n" using l pk assms(3) by linarith
    then have "rat w (repeat_len w n p) \<noteq> rat w (repeat_len w n p + p)" by (rule repeat_len_stop)
    then show "repeat_len w n p + k < n \<longrightarrow> rat w (repeat_len w n p) \<noteq> rat w (repeat_len w n p + k)"
      using m [OF l] by (simp add: ac_simps)
  qed
  show g: "rat w x = rat w (x + k)" if "x < right" "right \<le> repeat_len w n p" for x
    using repeat_len_match [of x w n p] m [of x] that by (simp add: ac_simps)
  show "right \<le> repeat_len w n k" if "right \<le> repeat_len w n p"
  proof (rule ccontr)
    assume s: "\<not> right \<le> repeat_len w n k"
    then have "repeat_len w n k + k < n" using pk assms(3) by linarith
    then show False using repeat_len_stop [of w n k] g [of "repeat_len w n k"] s that by simp
  qed
qed

definition z_inv :: "nat list \<Rightarrow> nat \<Rightarrow> int \<Rightarrow> nat \<Rightarrow> zbox \<Rightarrow> bool" where
  "z_inv w n limit k z \<longleftrightarrow> length (z_rc z) = n \<and> (\<forall>j. 1 \<le> j \<and> j < k \<longrightarrow> z_rc z ! (n - 1 - j) = min (int (repeat_len w n j)) limit)
     \<and> (z_rt z = 0 \<or> 1 \<le> z_lt z \<and> z_lt z < k \<and> z_rt z + 1 = z_lt z + repeat_len w n (z_lt z))"

lemma z_step_rc:
  assumes "z_inv w n limit k z" "1 \<le> k" "k < n" "z_rc z' = (z_rc z)[n - 1 - k := min (int (repeat_len w n k)) limit]"
    "z_rt z' = 0 \<or> 1 \<le> z_lt z' \<and> z_lt z' < Suc k \<and> z_rt z' + 1 = z_lt z' + repeat_len w n (z_lt z')"
  shows "z_inv w n limit (Suc k) z'"
proof -
  have "z_rc z' ! (n - 1 - j) = min (int (repeat_len w n j)) limit" if j: "1 \<le> j" "j < Suc k" for j
  proof (cases "j = k")
    case True
    then show ?thesis using assms(1,3,4) by (simp add: z_inv_def)
  next
    case False
    then have "n - 1 - k \<noteq> n - 1 - j" using j assms(3) by linarith
    then show ?thesis using False j assms(1,4) by (simp add: z_inv_def)
  qed
  then show ?thesis using assms(1,4,5) by (simp add: z_inv_def)
qed

lemma z_step_inv:
  assumes inv: "z_inv w n limit k z" and k: "1 \<le> k" "k < n"
  shows "z_inv w n limit (Suc k) (z_step w n limit k z)"
proof (cases "z_rt z < k")
  case True
  have m: "match_from w n k 0 = repeat_len w n k" by (rule match_from_repeat) (use k in auto)
  have box: "z_rt z = 0 \<or> 1 \<le> z_lt z \<and> z_lt z < Suc k \<and> z_rt z + 1 = z_lt z + repeat_len w n (z_lt z)"
    using inv by (auto simp: z_inv_def)
  show ?thesis
    by (rule z_step_rc [OF inv k]) (use True m box k in \<open>simp_all add: z_step_def Let_def\<close>)
next
  case False
  let ?lt = "z_lt z" let ?p = "k - ?lt" and ?right = "z_rt z - k + 1"
  have box: "1 \<le> ?lt" "?lt < k" "z_rt z + 1 = ?lt + repeat_len w n ?lt" using inv False k by (auto simp: z_inv_def)
  have le: "?lt + repeat_len w n ?lt \<le> n" using repeat_len_bound [of ?lt n w] box(2) k by simp
  have r: "?right = ?lt + repeat_len w n ?lt - k" "k < ?lt + repeat_len w n ?lt" using box False by linarith+
  note mi = mirror [OF box(2) r(2) le, folded r(1)]
  have rp: "z_rc z ! (n - 1 - ?p) = min (int (repeat_len w n ?p)) limit" 
  proof -
    have "1 \<le> ?p" "?p < k" using box by linarith+
    then show ?thesis using inv unfolding z_inv_def by blast
  qed
  show ?thesis
  proof (cases "min (int (repeat_len w n ?p)) limit < int ?right")
    case True
    have "min (min (int (repeat_len w n ?p)) limit) limit = min (int (repeat_len w n k)) limit"
    proof (cases "repeat_len w n ?p < ?right")
      case True
      then show ?thesis using mi(1) by simp
    next
      case ge: False
      then have "limit < int ?right" using True by linarith
      moreover have "?right \<le> repeat_len w n k" using mi(2) ge by simp
      ultimately show ?thesis using ge by linarith
    qed
    moreover have "z_step w n limit k z = z\<lparr>z_rc := (z_rc z)[n - 1 - k := min (min (int (repeat_len w n ?p)) limit) limit]\<rparr>"
      by (simp only: z_step_def Let_def rp False True if_False if_True)
    ultimately show ?thesis using box by (intro z_step_rc [OF inv k]) simp_all
  next
    case ge: False
    then have g: "?right \<le> repeat_len w n ?p" by linarith
    have "match_from w n k ?right = repeat_len w n k"
      by (rule match_from_repeat) (use mi(3) g r le in auto)
    moreover have "z_rt z + 1 - k = ?right" using False by simp
    moreover have "0 < repeat_len w n k" using mi(2) [OF g] by simp
    ultimately have "z_step w n limit k z = \<lparr>z_rc = (z_rc z)[n - 1 - k := min (int (repeat_len w n k)) limit], z_lt = k, z_rt = repeat_len w n k + k - 1\<rparr>"
      by (simp only: z_step_def Let_def rp False ge if_False add_diff_cancel_right')
    then show ?thesis using \<open>0 < repeat_len w n k\<close> k by (intro z_step_rc [OF inv k]) simp_all
  qed
qed

lemma z_fold:
  assumes "k \<le> n" "1 \<le> k"
  shows "z_inv w n limit k (fold (z_step w n limit) [1..<k] \<lparr>z_rc = replicate n 0, z_lt = 0, z_rt = 0\<rparr>)"
  using assms
proof (induction k)
  case (Suc k)
  show ?case
  proof (cases "k = 0")
    case False
    then have "z_inv w n limit k (fold (z_step w n limit) [1..<k] \<lparr>z_rc = replicate n 0, z_lt = 0, z_rt = 0\<rparr>)" using Suc by simp
    from z_step_inv [OF this] show ?thesis using False Suc.prems by simp
  qed (simp add: z_inv_def)
qed simp

text \<open>Step 3 keeps the largest length per id.\<close>

definition ended_by :: "nat list \<Rightarrow> nat \<Rightarrow> int \<Rightarrow> nat \<Rightarrow> nat \<Rightarrow> int set" where
  "ended_by w n limit m tok = {min (int (repeat_len w n k)) limit | k. n - m \<le> k \<and> 1 \<le> k \<and> k < n \<and> rat w (k - 1) = tok}"

definition best_of :: "int \<Rightarrow> int set \<Rightarrow> int option" where
  "best_of allowed R = (if {l \<in> R. allowed \<le> l} = {} then None else Some (Max {l \<in> R. allowed \<le> l}))"

lemma best_of_insert: "finite R \<Longrightarrow> best_of allowed (insert l R) =
    (if allowed \<le> l then Some (case best_of allowed R of None \<Rightarrow> l | Some e \<Rightarrow> if e < l then l else e) else best_of allowed R)"
proof -
  assume fin: "finite R"
  define A where "A = {x \<in> R. allowed \<le> x}"
  have i: "{x \<in> insert l R. allowed \<le> x} = (if allowed \<le> l then insert l A else A)" by (auto simp: A_def)
  have f: "finite A" using fin by (simp add: A_def)
  have "best_of allowed R = (if A = {} then None else Some (Max A))" by (simp add: best_of_def A_def)
  moreover have "A \<noteq> {} \<Longrightarrow> Max (insert l A) = (if Max A < l then l else Max A)" using Max_insert [OF f] by (simp add: max_def not_less)
  ultimately show ?thesis unfolding best_of_def i by simp
qed

lemma finite_ended: "finite (ended_by w n limit m tok)"
  by (rule finite_subset [of _ "(\<lambda>k. min (int (repeat_len w n k)) limit) ` {..<n}"]) (auto simp: ended_by_def)

lemma ended_by_Suc:
  assumes "m < n - 1"
  shows "ended_by w n limit (Suc m) tok = (if rat w (n - 2 - m) = tok
    then insert (min (int (repeat_len w n (n - 1 - m))) limit) (ended_by w n limit m tok) else ended_by w n limit m tok)"
proof -
  have k: "n - Suc m \<le> k \<longleftrightarrow> k = n - 1 - m \<or> n - m \<le> k" for k using assms by linarith
  have "n - 1 - m - 1 = n - 2 - m" "1 \<le> n - 1 - m" "n - 1 - m < n" using assms by linarith+
  then show ?thesis unfolding ended_by_def k by auto
qed

lemma keep_longest_fold:
  assumes z: "z_inv w n limit n z"
  shows "m \<le> n - 1 \<Longrightarrow> fold (keep_longest w n allowed (z_rc z)) [0..<m] Map.empty tok = best_of allowed (ended_by w n limit m tok)"
proof (induction m)
  case 0
  have "ended_by w n limit 0 tok = {}" by (auto simp: ended_by_def)
  then show ?case by (simp add: best_of_def)
next
  case (Suc m)
  have m: "m < n - 1" using Suc.prems by simp
  have "n - 1 - (n - 1 - m) = m" "1 \<le> n - 1 - m" "n - 1 - m < n" using m by linarith+
  then have "z_rc z ! m = min (int (repeat_len w n (n - 1 - m))) limit" using z unfolding z_inv_def by metis
  moreover have "fold (keep_longest w n allowed (z_rc z)) [0..<m] Map.empty tok = best_of allowed (ended_by w n limit m tok)"
    using Suc by simp
  moreover have "keep_longest w n allowed rc m F tok = (if rat w (n - 2 - m) = tok \<and> allowed \<le> rc ! m
      then Some (case F tok of None \<Rightarrow> rc ! m | Some e \<Rightarrow> if e < rc ! m then rc ! m else e) else F tok)" for rc F
    by (auto simp: keep_longest_def Let_def)
  ultimately show ?case
    by (simp only: upt_Suc_append [OF zero_le] fold_append fold.simps o_apply id_apply ended_by_Suc [OF m] best_of_insert [OF finite_ended] split: if_splits)
      auto
qed




section \<open>The sequence breakers\<close>

lemma contains_char: "contains_str w [c] \<longleftrightarrow> c \<in> set w"
proof
  assume "c \<in> set w"
  then obtain p where p: "p < length w" "w ! p = c" by (auto simp: in_set_conv_nth)
  then have "take 1 (drop p w) = [c]" by (simp add: take_Suc_conv_app_nth hd_drop_conv_nth)
  then show "contains_str w [c]" using p(1) unfolding contains_str_def list_ex_iff by (intro bexI [of _ p]) simp_all
next
  assume "contains_str w [c]"
  then obtain p where "take 1 (drop p w) = [c]" by (auto simp: contains_str_def list_ex_iff)
  then have "c \<in> set (take 1 (drop p w))" by simp
  then show "c \<in> set w" using in_set_takeD in_set_dropD by metis
qed

lemma no_tails: "c \<notin> set w \<Longrightarrow> fold (add_tail encode [c] w) [0..<m] tails = tails" if "m \<le> length w" for m
  using that
proof (induction m)
  case (Suc m)
  then have "w ! m \<noteq> c" by (metis Suc_le_lessD nth_mem)
  then show ?case using Suc by (simp add: add_tail_def)
qed simp

lemma single_tails: "breaker_tails encode [c] w tails = (if c \<in> set w then Some ((case tails of Some t \<Rightarrow> t | None \<Rightarrow> []) @ [[]]) else tails)"
  by (simp add: breaker_tails_def contains_char no_tails)

lemma fold_update_each:
  "fold (\<lambda>k m. case t k of None \<Rightarrow> m | Some w \<Rightarrow> m(k := f w (m k))) [0..<n] m i
     = (if i < n then case t i of None \<Rightarrow> m i | Some w \<Rightarrow> f w (m i) else m i)"
proof (induction n)
  case (Suc n)
  then show ?case by (cases "i = n") (auto split: option.split)
qed simp

text \<open>
  The default breakers need no look-ahead: the ids of the breaker map are exactly the ids
  whose text carries one of the four characters, every tail is empty, so each of them is exempt
  from the repeat penalty itself.
\<close>

theorem default_breakers_are_single:
  assumes "n < 2 ^ 32" "B = dry_breaker_map n text_of encode"
  shows "(B i \<noteq> None \<longleftrightarrow> i < n \<and> (\<exists>w. text_of i = Some w \<and> set w \<inter> {CHR 0x0A, CHR '':'', CHR 0x22, CHR ''*''} \<noteq> {}))
    \<and> (B i \<noteq> None \<longrightarrow> dry_is_single_breaker i (s\<lparr>sm_dry_breakers := B\<rparr>))"
proof -
  have b: "B i = (if i < n then case text_of i of None \<Rightarrow> None
      | Some w \<Rightarrow> fold (\<lambda>c tails. breaker_tails encode [c] w tails) [CHR 0x0A, CHR '':'', CHR 0x22, CHR ''*''] None else None)"
    using assms by (simp add: dry_breaker_map_def DRY_DEFAULT_BREAKERS_def MAX_CHAR_LEN_def Let_def fold_update_each split: option.split)
  show ?thesis
    unfolding b dry_is_single_breaker_def
    by (simp add: b single_tails split: option.split)
qed

lemma default_breakers_are_single_witness:
  "dry_breaker_map 2 (\<lambda>i. Some (if i = 0 then ''a:'' else ''b'')) (\<lambda>_. None) 0 \<noteq> None
    \<and> dry_breaker_map 2 (\<lambda>i. Some (if i = 0 then ''a:'' else ''b'')) (\<lambda>_. None) 1 = None"
  using default_breakers_are_single [of 2 _ "\<lambda>i. Some (if i = 0 then ''a:'' else ''b'')" "\<lambda>_. None" 0, OF _ refl]
    default_breakers_are_single [of 2 _ "\<lambda>i. Some (if i = 0 then ''a:'' else ''b'')" "\<lambda>_. None" 1, OF _ refl] by auto

end
