(* ===== verification/SamplerDevice.thy ===== *)
theory SamplerDevice
  imports SamplerInv SlotHeader
begin

text \<open>
  The device twin of the sampler's windows: the buffers \<open>arm_dev_sampler\<close> fills from the host
  sampler, the booking \<open>sample_k\<close> makes after a draw, and the writes that move a booking when the
  tool grammar replaces the drawn id (\<open>engine/src/gen.rs\<close>, \<open>kernels.rs\<close>, \<open>sample.rs\<close>). A buffer is
  the list of its elements; a byte write goes to one element.
\<close>

section \<open>Arming\<close>

record dev_sampler =
  dv_mask :: "u8 list"
  dv_rng :: u64
  dv_counts :: "16 word list"
  dv_ring :: "u32 list"

definition upload_counts :: "sampling \<Rightarrow> nat \<Rightarrow> 16 word list" where
  "upload_counts s vocab = (if win_armed s then map (\<lambda>t. win_count t s) [0..<vocab] else replicate vocab 0)"

definition upload_ring :: "sampling \<Rightarrow> u32 list" where
  "upload_ring s = (let lastn = min (sm_last_n s) SAMPLE_RING_MAX in
     if win_armed s \<and> 0 < lastn then
       (let fill = min (length (sm_win s)) lastn in
          of_nat (fill mod lastn) # of_nat fill # map of_nat (drop (length (sm_win s) - fill) (sm_win s)) @ replicate (SAMPLE_RING_MAX - fill) 0)
     else replicate (2 + SAMPLE_RING_MAX) 0)"

text \<open>The two assertions of the profile, and the slice of a counted id outside the vocabulary, are panics.\<close>

definition arm_dev_sampler :: "dev_sampler \<Rightarrow> sampling \<Rightarrow> nat \<Rightarrow> dev_sampler option" where
  "arm_dev_sampler ds s vocab = (if top_k_needs_host s \<or> host_route s then None
     else if win_armed s \<and> \<not> dom (sm_win_counts s) \<subseteq> {..<vocab} then None
     else Some (ds\<lparr>dv_mask := replicate vocab 0, dv_rng := sm_rng s, dv_counts := upload_counts s vocab, dv_ring := upload_ring s\<rparr>))"

section \<open>Booking a drawn id\<close>

text \<open>The depth is 0 when the window is not armed.\<close>

definition device_depth :: "sampling \<Rightarrow> nat" where
  "device_depth s = (if win_armed s then min (sm_last_n s) SAMPLE_RING_MAX else 0)"

definition at_ring :: "nat \<Rightarrow> dev_sampler \<Rightarrow> nat" where
  "at_ring i d = unat (dv_ring d ! i)"

definition dev_accept :: "nat \<Rightarrow> nat \<Rightarrow> dev_sampler \<Rightarrow> dev_sampler" where
  "dev_accept lastn tok d = (let d = d\<lparr>dv_mask := (dv_mask d)[tok := 1]\<rparr> in
     if lastn = 0 then d
     else let head = at_ring 0 d; fill = at_ring 1 d; old = at_ring (2 + head) d;
              d = (if lastn \<le> fill then d\<lparr>dv_counts := (dv_counts d)[old := dv_counts d ! old - 1]\<rparr>
                   else d\<lparr>dv_ring := (dv_ring d)[1 := of_nat (fill + 1)]\<rparr>);
              d = d\<lparr>dv_ring := (dv_ring d)[2 + head := of_nat tok]\<rparr>;
              d = d\<lparr>dv_counts := (dv_counts d)[tok := dv_counts d ! tok + 1]\<rparr>
          in d\<lparr>dv_ring := (dv_ring d)[0 := of_nat (if lastn \<le> head + 1 then 0 else head + 1)]\<rparr>)"

section \<open>Moving a booking\<close>

datatype rebook_buf = MaskBuf | CountsBuf | RingBuf

definition rebook_plan :: "nat \<Rightarrow> nat \<Rightarrow> bool \<Rightarrow> nat \<Rightarrow> u32 \<Rightarrow> 16 word \<Rightarrow> 16 word \<Rightarrow> (rebook_buf \<times> nat \<times> u8 list) list" where
  "rebook_plan drawn kept drawn_seen lastn head_after count_drawn count_kept = (if drawn = kept then []
     else (if \<not> drawn_seen then [(MaskBuf, drawn, [0])] else []) @ [(MaskBuf, kept, [1])]
       @ (if 0 < lastn then
            (let slot = (nat (sint head_after) + lastn - 1) mod lastn in
              [(RingBuf, (2 + slot) * 4, le_bytes 4 (of_nat kept :: u32)),
               (CountsBuf, drawn * 2, le_bytes 2 (if count_drawn = 0 then 0 else count_drawn - 1)),
               (CountsBuf, kept * 2, le_bytes 2 (if count_kept = - 1 then count_kept else count_kept + 1))])
          else []))"

fun upload_into :: "rebook_buf \<times> nat \<times> u8 list \<Rightarrow> dev_sampler \<Rightarrow> dev_sampler" where
  "upload_into (MaskBuf, off, b) d = d\<lparr>dv_mask := (dv_mask d)[off := le_word b]\<rparr>"
| "upload_into (CountsBuf, off, b) d = d\<lparr>dv_counts := (dv_counts d)[off div 2 := le_word b]\<rparr>"
| "upload_into (RingBuf, off, b) d = d\<lparr>dv_ring := (dv_ring d)[off div 4 := le_word b]\<rparr>"

definition rebook_dev_sampler :: "nat \<Rightarrow> nat \<Rightarrow> nat \<Rightarrow> bool \<Rightarrow> nat \<Rightarrow> dev_sampler \<Rightarrow> dev_sampler" where
  "rebook_dev_sampler vocab drawn kept drawn_seen lastn d = (if drawn = kept \<or> vocab \<le> drawn \<or> vocab \<le> kept then d
     else fold upload_into (rebook_plan drawn kept drawn_seen lastn
       (if 0 < lastn then dv_ring d ! 0 else 0) (if 0 < lastn then dv_counts d ! drawn else 0) (if 0 < lastn then dv_counts d ! kept else 0)) d)"

section \<open>The device window is the host window\<close>

text \<open>The ids of the ring, oldest first.\<close>

definition ring_slot :: "nat \<Rightarrow> nat \<Rightarrow> nat \<Rightarrow> nat \<Rightarrow> nat" where
  "ring_slot lastn head fill i = (head + (lastn - fill) + i) mod lastn"

definition dev_window :: "nat \<Rightarrow> dev_sampler \<Rightarrow> nat list" where
  "dev_window lastn d = map (\<lambda>i. at_ring (2 + ring_slot lastn (at_ring 0 d) (at_ring 1 d) i) d) [0..<at_ring 1 d]"

lemma ring_slot_less: "0 < lastn \<Longrightarrow> ring_slot lastn head fill i < lastn"
  by (simp add: ring_slot_def)

definition twin :: "nat \<Rightarrow> nat \<Rightarrow> sampling \<Rightarrow> dev_sampler \<Rightarrow> bool" where
  "twin lastn vocab s d \<longleftrightarrow> length (dv_ring d) = 2 + SAMPLE_RING_MAX \<and> length (dv_counts d) = vocab
     \<and> at_ring 0 d < lastn \<and> at_ring 1 d \<le> lastn \<and> dev_window lastn d = sm_win s
     \<and> (\<forall>t < vocab. dv_counts d ! t = win_count t s)"

lemma ring_slot_Suc:
  assumes "head < lastn" "fill < lastn"
  shows "ring_slot lastn (if lastn \<le> head + 1 then 0 else head + 1) (fill + 1) i = ring_slot lastn head fill i"
proof (cases "lastn \<le> head + 1")
  case True
  then have "head + (lastn - fill) + i = lastn + (0 + (lastn - (fill + 1)) + i)" using assms by simp
  then have "(head + (lastn - fill) + i) mod lastn = (0 + (lastn - (fill + 1)) + i) mod lastn" by (simp only: mod_add_self1)
  then show ?thesis using True by (simp add: ring_slot_def)
next
  case False
  then have "head + 1 + (lastn - (fill + 1)) + i = head + (lastn - fill) + i" using assms by simp
  moreover have "(if lastn \<le> head + 1 then 0 else head + 1) = head + 1" using False by simp
  ultimately show ?thesis by (simp only: ring_slot_def)
qed

lemma ring_slot_full:
  assumes "head < lastn"
  shows "ring_slot lastn (if lastn \<le> head + 1 then 0 else head + 1) lastn i = ring_slot lastn head lastn (i + 1)"
proof (cases "lastn \<le> head + 1")
  case True
  then have "head + (lastn - lastn) + (i + 1) = lastn + (0 + (lastn - lastn) + i)" using assms by simp
  then have "(head + (lastn - lastn) + (i + 1)) mod lastn = (0 + (lastn - lastn) + i) mod lastn" by (simp only: mod_add_self1)
  then show ?thesis using True by (simp add: ring_slot_def)
qed (simp add: ring_slot_def)

lemma ring_slot_head: "head < lastn \<Longrightarrow> fill \<le> lastn \<Longrightarrow> ring_slot lastn head fill fill = head"
  by (simp add: ring_slot_def)

lemma ring_slot_inj:
  assumes "i < lastn" "j < lastn" "ring_slot lastn head fill i = ring_slot lastn head fill j"
  shows "i = j"
proof -
  have "(head + (lastn - fill) + i) mod lastn = (head + (lastn - fill) + j) mod lastn" using assms(3) by (simp add: ring_slot_def)
  then have "i mod lastn = j mod lastn" by (simp add: nat_mod_eq_iff)
  then show ?thesis using assms(1,2) by simp
qed

lemma ring_slot_full_head: "head < lastn \<Longrightarrow> ring_slot lastn head lastn 0 = head"
  by (simp add: ring_slot_def)

text \<open>What a push does to the host window, and an accept to the ring.\<close>

lemma win_push_view:
  assumes "win_ok hist s" "0 < sm_last_n s"
  shows "sm_win (win_push t s) = (if sm_last_n s \<le> length (sm_win s) then tl (sm_win s) @ [t] else sm_win s @ [t])"
    and "win_count x (win_push t s) = win_count x s + of_bool (x = t) - (if sm_last_n s \<le> length (sm_win s) then of_bool (x = hd (sm_win s)) else 0)"
proof -
  let ?w = "sm_win s" and ?c = "(sm_win_counts s)(t \<mapsto> win_count t s + 1)"
  have dom: "\<forall>x \<in> set ?w. sm_win_counts s x \<noteq> None" using assms(1) by (simp add: win_ok_def)
  have up: "(case ?c y of Some c \<Rightarrow> c | None \<Rightarrow> 0) = win_count y s + of_bool (y = t)" for y by (simp add: win_count_def)
  have "sm_win (win_push t s) = (if sm_last_n s \<le> length ?w then tl ?w @ [t] else ?w @ [t])
    \<and> win_count x (win_push t s) = win_count x s + of_bool (x = t) - (if sm_last_n s \<le> length ?w then of_bool (x = hd ?w) else 0)"
  proof (cases "sm_last_n s \<le> length ?w")
    case True
    then obtain old rest where w: "?w = old # rest" using assms(2) by (cases ?w) auto
    then obtain c where c: "?c old = Some c" using dom by (cases "old = t") auto
    have "win_push t s = s\<lparr>sm_win := rest @ [t], sm_win_counts := ?c(old \<mapsto> c - 1)\<rparr>"
      using assms(2) True w c by (simp add: win_push_def Let_def)
    moreover have "c = win_count old s + of_bool (old = t)" using up [of old] c by simp
    ultimately show ?thesis using True w up [of x] by (auto simp: win_count_def)
  next
    case False
    then have "win_push t s = s\<lparr>sm_win := ?w @ [t], sm_win_counts := ?c\<rparr>" using assms(2) by (simp add: win_push_def Let_def)
    then show ?thesis using False up [of x] by (simp add: win_count_def)
  qed
  then show "sm_win (win_push t s) = (if sm_last_n s \<le> length ?w then tl ?w @ [t] else ?w @ [t])"
    "win_count x (win_push t s) = win_count x s + of_bool (x = t) - (if sm_last_n s \<le> length ?w then of_bool (x = hd ?w) else 0)" by blast+
qed

lemma unat_small: "n < 2 ^ 31 \<Longrightarrow> unat (of_nat n :: u32) = n"
  by (simp add: unat_of_nat)

lemma unat_next: "unat x < 1024 \<Longrightarrow> unat (1 + x :: u32) = Suc (unat x)"
  by (simp add: unat_word_ariths(1))

definition dev_ring_ok :: "nat \<Rightarrow> dev_sampler \<Rightarrow> bool" where
  "dev_ring_ok lastn d \<longleftrightarrow> length (dv_ring d) = 2 + SAMPLE_RING_MAX \<and> lastn \<le> SAMPLE_RING_MAX \<and> at_ring 0 d < lastn \<and> at_ring 1 d \<le> lastn"

lemma accept_ring:
  assumes "dev_ring_ok lastn d" "t < 2 ^ 31"
  shows "at_ring 0 (dev_accept lastn t d) = (if lastn \<le> at_ring 0 d + 1 then 0 else at_ring 0 d + 1)"
    and "at_ring 1 (dev_accept lastn t d) = (if lastn \<le> at_ring 1 d then at_ring 1 d else at_ring 1 d + 1)"
    and "at_ring (2 + j) (dev_accept lastn t d) = (if j = at_ring 0 d then t else at_ring (2 + j) d)"
    and "dev_ring_ok lastn (dev_accept lastn t d)"
proof -
  have l: "length (dv_ring d) = 1026" "lastn \<le> 1024" "unat (dv_ring d ! 0) < lastn" "unat (dv_ring d ! Suc 0) \<le> lastn"
    using assms(1) by (simp_all add: dev_ring_ok_def SAMPLE_RING_MAX_def at_ring_def)
  show 0: "at_ring 0 (dev_accept lastn t d) = (if lastn \<le> at_ring 0 d + 1 then 0 else at_ring 0 d + 1)"
    using l by (simp add: dev_accept_def Let_def at_ring_def unat_small unat_next)
  show 1: "at_ring 1 (dev_accept lastn t d) = (if lastn \<le> at_ring 1 d then at_ring 1 d else at_ring 1 d + 1)"
    using l by (simp add: dev_accept_def Let_def at_ring_def unat_small unat_next)
  show "at_ring (2 + j) (dev_accept lastn t d) = (if j = at_ring 0 d then t else at_ring (2 + j) d)"
    using l assms(2) by (simp add: dev_accept_def Let_def at_ring_def unat_small)
  have "length (dv_ring (dev_accept lastn t d)) = length (dv_ring d)" by (simp add: dev_accept_def Let_def)
  then show "dev_ring_ok lastn (dev_accept lastn t d)" using assms(1) 0 1 by (auto simp: dev_ring_ok_def)
qed


lemma accept_counts:
  assumes "dev_ring_ok lastn d" "length (dv_counts d) = vocab" "t < vocab" "x < vocab"
  shows "dv_counts (dev_accept lastn t d) ! x = dv_counts d ! x + of_bool (x = t)
      - (if lastn \<le> at_ring 1 d then of_bool (x = at_ring (2 + at_ring 0 d) d) else 0)"
    and "length (dv_counts (dev_accept lastn t d)) = length (dv_counts d)"
proof -
  have "0 < lastn" using assms(1) by (simp add: dev_ring_ok_def)
  then show "dv_counts (dev_accept lastn t d) ! x = dv_counts d ! x + of_bool (x = t)
      - (if lastn \<le> at_ring 1 d then of_bool (x = at_ring (2 + at_ring 0 d) d) else 0)"
    using assms by (simp add: dev_accept_def Let_def at_ring_def nth_list_update)
  show "length (dv_counts (dev_accept lastn t d)) = length (dv_counts d)" by (simp add: dev_accept_def Let_def)
qed

lemma accept_window:
  assumes "dev_ring_ok lastn d" "t < 2 ^ 31"
  shows "dev_window lastn (dev_accept lastn t d)
    = (if lastn \<le> length (dev_window lastn d) then tl (dev_window lastn d) @ [t] else dev_window lastn d @ [t])"
proof -
  let ?h = "at_ring 0 d" and ?f = "at_ring 1 d" and ?d = "dev_accept lastn t d"
  have h: "?h < lastn" "?f \<le> lastn" using assms(1) by (simp_all add: dev_ring_ok_def)
  have len: "length (dev_window lastn d) = ?f" by (simp add: dev_window_def)
  note acc = accept_ring [OF assms]
  show ?thesis
  proof (cases "lastn \<le> ?f")
    case False
    have new: "at_ring 0 ?d = (if lastn \<le> ?h + 1 then 0 else ?h + 1)" "at_ring 1 ?d = ?f + 1" using acc(1,2) False by simp_all
    have s: "ring_slot lastn (at_ring 0 ?d) (at_ring 1 ?d) i = ring_slot lastn ?h ?f i" for i
      unfolding new by (rule ring_slot_Suc) (use h False in simp_all)
    have "at_ring (2 + ring_slot lastn ?h ?f i) ?d = at_ring (2 + ring_slot lastn ?h ?f i) d" if "i < ?f" for i
    proof -
      have "ring_slot lastn ?h ?f i \<noteq> ?h"
        using ring_slot_inj [of i lastn ?f ?h ?f] ring_slot_head [of ?h lastn ?f] h that False by fastforce
      then show ?thesis by (simp only: acc(3)) simp
    qed
    moreover have "at_ring (2 + ring_slot lastn ?h ?f ?f) ?d = t" using ring_slot_head [OF h] by (simp only: acc(3)) simp
    ultimately have "dev_window lastn ?d = dev_window lastn d @ [t]"
      unfolding dev_window_def s unfolding new(2) by simp
    then show ?thesis using False len by simp
  next
    case True
    then have f: "?f = lastn" using h by simp
    then obtain n where n: "lastn = Suc n" using h by (cases lastn) auto
    have new: "at_ring 0 ?d = (if lastn \<le> ?h + 1 then 0 else ?h + 1)" "at_ring 1 ?d = lastn" using acc(1,2) f by simp_all
    have s: "ring_slot lastn (at_ring 0 ?d) (at_ring 1 ?d) i = ring_slot lastn ?h lastn (i + 1)" for i
      unfolding new by (rule ring_slot_full [OF h(1)])
    have "at_ring (2 + ring_slot lastn ?h lastn (i + 1)) ?d = at_ring (2 + ring_slot lastn ?h lastn (i + 1)) d" if "i < n" for i
    proof -
      have "ring_slot lastn ?h lastn (i + 1) \<noteq> ?h"
        using ring_slot_inj [of "i + 1" lastn 0 ?h lastn] ring_slot_full_head [OF h(1)] that n by fastforce
      then show ?thesis by (simp only: acc(3)) simp
    qed
    moreover have "ring_slot lastn ?h lastn (n + 1) = ?h" using ring_slot_head [OF h(1), of lastn] n by simp
    then have "at_ring (2 + ring_slot lastn ?h lastn (n + 1)) ?d = t" by (simp only: acc(3) refl if_True)
    ultimately have "dev_window lastn ?d = map (\<lambda>i. at_ring (2 + ring_slot lastn ?h lastn (i + 1)) d) [0..<n] @ [t]"
      unfolding dev_window_def s unfolding new(2) using n by simp
    moreover have "tl (dev_window lastn d) = map (\<lambda>i. at_ring (2 + ring_slot lastn ?h lastn (i + 1)) d) [0..<n]"
      unfolding dev_window_def f n by (simp add: upt_rec [of 0] map_Suc_upt [symmetric] comp_def del: upt_Suc)
    ultimately show ?thesis using f len by simp
  qed
qed

section \<open>The twin\<close>

lemma upload_twin:
  assumes "win_ok hist s" "win_armed s" "arm_dev_sampler d0 s vocab = Some d" "\<forall>t \<in> set (sm_win s). t < 2 ^ 31"
  shows "twin (sm_last_n s) vocab s d \<and> dev_ring_ok (sm_last_n s) d"
proof -
  let ?n = "sm_last_n s" and ?w = "sm_win s"
  have n: "0 < ?n" "?n \<le> 1024" using assms(1,2) by (simp_all add: win_armed_def win_ok_def SAMPLE_RING_MAX_def)
  have w: "length ?w \<le> ?n" using assms(1) by (simp add: win_ok_def length_tail_of)
  have d: "d = d0\<lparr>dv_mask := replicate vocab 0, dv_rng := sm_rng s, dv_counts := upload_counts s vocab, dv_ring := upload_ring s\<rparr>"
    using assms(3) by (simp add: arm_dev_sampler_def split: if_split_asm)
  have m: "min ?n SAMPLE_RING_MAX = ?n" using n by (simp add: SAMPLE_RING_MAX_def)
  have ml: "length ?w mod ?n < ?n" using n(1) by simp
  from less_le_trans [OF this n(2)] have "length ?w mod ?n < 2 ^ 31" by simp
  with ml have l: "length ?w < 2 ^ 31" "length ?w mod ?n < 2 ^ 31" "length ?w mod ?n < ?n" using w n(2) by simp_all
  have ring: "dv_ring d = of_nat (length ?w mod ?n) # of_nat (length ?w) # map of_nat ?w @ replicate (SAMPLE_RING_MAX - length ?w) 0"
    using assms(2) n w by (simp add: d upload_ring_def m Let_def)
  have at: "at_ring 0 d = length ?w mod ?n" "at_ring 1 d = length ?w" using l by (simp_all add: at_ring_def ring unat_small)
  have ids: "at_ring (2 + i) d = ?w ! i" if "i < length ?w" for i
    using that assms(4) by (simp add: at_ring_def ring nth_append unat_small)
  have "dev_window ?n d = map (\<lambda>i. ?w ! i) [0..<length ?w]"
    unfolding dev_window_def at
  proof (rule map_cong [OF refl])
    fix i assume "i \<in> set [0..<length ?w]"
    then have i: "i < length ?w" by simp
    have "ring_slot ?n (length ?w mod ?n) (length ?w) i = i"
    proof (cases "length ?w = ?n")
      case True
      then show ?thesis using i by (simp add: ring_slot_def)
    next
      case False
      then have "length ?w + (?n - length ?w) + i = ?n + i" using w by simp
      moreover have "length ?w mod ?n = length ?w" using False w by simp
      ultimately show ?thesis using i w by (simp add: ring_slot_def)
    qed
    then show "at_ring (2 + ring_slot ?n (length ?w mod ?n) (length ?w) i) d = ?w ! i" using ids [OF i] by simp
  qed
  then have "dev_window ?n d = ?w" by (simp add: map_nth)
  moreover have "length (dv_ring d) = 2 + SAMPLE_RING_MAX" using n w by (simp add: ring SAMPLE_RING_MAX_def)
  moreover have "length (dv_counts d) = vocab" "\<forall>t < vocab. dv_counts d ! t = win_count t s"
    using assms(2) by (simp_all add: d upload_counts_def)
  ultimately show ?thesis using at l n w by (simp add: twin_def dev_ring_ok_def SAMPLE_RING_MAX_def)
qed

lemma accept_twin:
  assumes "win_ok hist s" "0 < sm_last_n s" "twin (sm_last_n s) vocab s d" "dev_ring_ok (sm_last_n s) d" "t < vocab" "vocab \<le> 2 ^ 31"
  shows "twin (sm_last_n s) vocab (win_push t s) (dev_accept (sm_last_n s) t d)"
proof -
  let ?n = "sm_last_n s" and ?d = "dev_accept (sm_last_n s) t d"
  have t: "t < 2 ^ 31" using assms(5,6) by simp
  have w: "dev_window ?n d = sm_win s" "length (dv_counts d) = vocab" "\<forall>x < vocab. dv_counts d ! x = win_count x s"
    using assms(3) by (simp_all add: twin_def)
  have fill: "length (sm_win s) = at_ring 1 d" using w(1) by (metis dev_window_def length_map length_upt minus_nat.diff_0)
  have win: "dev_window ?n ?d = sm_win (win_push t s)"
    using accept_window [OF assms(4) t] win_push_view(1) [OF assms(1,2)] w(1) by simp
  have old: "at_ring (2 + at_ring 0 d) d = hd (sm_win s)" if "?n \<le> at_ring 1 d"
  proof -
    have f: "at_ring 1 d = ?n" "at_ring 0 d < ?n" using that assms(4) by (auto simp: dev_ring_ok_def)
    then have "dev_window ?n d \<noteq> []" by (auto simp: dev_window_def)
    then have "hd (sm_win s) = dev_window ?n d ! 0" using w(1) by (simp add: hd_conv_nth)
    also have "\<dots> = at_ring (2 + ring_slot ?n (at_ring 0 d) ?n 0) d" using f by (simp add: dev_window_def)
    finally show ?thesis using ring_slot_full_head [OF f(2)] by simp
  qed
  have "dv_counts ?d ! x = win_count x (win_push t s)" if "x < vocab" for x
    using accept_counts(1) [OF assms(4) w(2) assms(5) that] win_push_view(2) [OF assms(1,2), of x t] w(3) that fill old by simp
  then show ?thesis
    using win accept_ring(4) [OF assms(4) t] accept_counts(2) [OF assms(4) w(2) assms(5,5)] w(2) by (simp add: twin_def dev_ring_ok_def)
qed

lemma observe_win:
  assumes "t < 2 ^ 32"
  shows "sm_win (sampler_observe t s) = sm_win (win_push t s)" "sm_win_counts (sampler_observe t s) = sm_win_counts (win_push t s)"
    "sm_last_n (sampler_observe t s) = sm_last_n s" "win_count x (sampler_observe t s) = win_count x (win_push t s)"
proof -
  have f: "sm_win (win_push t (s\<lparr>sm_seen := S\<rparr>)) = sm_win (win_push t s)"
    "sm_win_counts (win_push t (s\<lparr>sm_seen := S\<rparr>)) = sm_win_counts (win_push t s)" for S
    by (simp_all add: win_push_def win_count_def Let_def split: list.split option.split)
  show a: "sm_win (sampler_observe t s) = sm_win (win_push t s)" "sm_win_counts (sampler_observe t s) = sm_win_counts (win_push t s)"
    using assms f by (simp_all add: sampler_observe_def)
  show "win_count x (sampler_observe t s) = win_count x (win_push t s)" by (simp add: win_count_def a)
  show "sm_last_n (sampler_observe t s) = sm_last_n s" by (simp add: sampler_observe_def)
qed

lemma mask_seen:
  "list_all (\<lambda>t. t < vocab) ts \<Longrightarrow> length (dv_mask d) = vocab \<Longrightarrow> \<forall>x < vocab. dv_mask d ! x = of_bool (x \<in> A)
    \<Longrightarrow> length (dv_mask (fold (dev_accept n) ts d)) = vocab \<and> (\<forall>x < vocab. dv_mask (fold (dev_accept n) ts d) ! x = of_bool (x \<in> A \<union> set ts))"
proof (induction ts arbitrary: d A)
  case (Cons t ts)
  have m: "dv_mask (dev_accept n t d) = (dv_mask d)[t := 1]" by (simp add: dev_accept_def Let_def)
  have "\<forall>x < vocab. dv_mask (dev_accept n t d) ! x = of_bool (x \<in> insert t A)"
    using Cons.prems by (simp add: m nth_list_update)
  then show ?case using Cons.IH [of "dev_accept n t d" "insert t A"] Cons.prems by (simp add: m)
qed simp

lemma fold_twin:
  assumes "win_ok hist s" "0 < sm_last_n s" "twin (sm_last_n s) vocab s d" "dev_ring_ok (sm_last_n s) d" "list_all (\<lambda>t. t < vocab) ts" "vocab \<le> 2 ^ 31"
  shows "twin (sm_last_n s) vocab (fold sampler_observe ts s) (fold (dev_accept (sm_last_n s)) ts d)
    \<and> dev_ring_ok (sm_last_n s) (fold (dev_accept (sm_last_n s)) ts d) \<and> win_ok (hist @ ts) (fold sampler_observe ts s)
    \<and> sm_last_n (fold sampler_observe ts s) = sm_last_n s"
  using assms
proof (induction ts arbitrary: hist s d)
  case (Cons t ts)
  have t: "t < vocab" "t < 2 ^ 31" "t < 2 ^ 32" using Cons.prems(5,6) by simp_all
  have w: "win_ok (hist @ [t]) (sampler_observe t s)"
    using win_push_ok [OF Cons.prems(1), of t] by (simp add: win_ok_def observe_win [OF t(3)])
  have tw: "twin (sm_last_n s) vocab (sampler_observe t s) (dev_accept (sm_last_n s) t d)"
    using accept_twin [OF Cons.prems(1-4) t(1) Cons.prems(6)] by (simp add: twin_def observe_win [OF t(3)])
  have r: "dev_ring_ok (sm_last_n s) (dev_accept (sm_last_n s) t d)" by (rule accept_ring(4) [OF Cons.prems(4) t(2)])
  from Cons.IH [OF w] tw r Cons.prems(2,5,6) show ?case by (simp add: observe_win(3) [OF t(3)])
qed simp

text \<open>The server arms the device after it has shown the sampler the prompt.\<close>

lemma armed_device:
  assumes "sm_last_n s0 \<le> SAMPLE_RING_MAX" "win_armed s" "s = observe_prompt ids s0" "arm_dev_sampler d0 s vocab = Some d"
    "list_all (\<lambda>t. t < vocab) ids" "list_all (\<lambda>t. t < vocab) ts" "vocab \<le> 2 ^ 31"
  shows "device_depth s = sm_last_n s"
    and "twin (sm_last_n s) vocab (fold sampler_observe ts s) (fold (dev_accept (sm_last_n s)) ts d)"
    and "dev_ring_ok (sm_last_n s) (fold (dev_accept (sm_last_n s)) ts d)" and "win_ok (ids @ ts) (fold sampler_observe ts s)"
    and "sm_last_n (fold sampler_observe ts s) = sm_last_n s" and "0 < sm_last_n s"
proof -
  have w: "win_ok ids s" using observe_prompt_ok(1) [OF assms(1)] assms(3) by simp
  show n: "0 < sm_last_n s" using assms(2) by (simp add: win_armed_def)
  show "device_depth s = sm_last_n s" using assms(2) w by (simp add: device_depth_def win_ok_def)
  have win: "sm_win s = tail_of (sm_last_n s) ids" using w by (simp add: win_ok_def)
  have "\<forall>t \<in> set (sm_win s). t < 2 ^ 31"
  proof
    fix t assume "t \<in> set (sm_win s)"
    then have "t \<in> set ids" unfolding win by (auto simp: tail_of_def dest: in_set_dropD split: if_splits)
    then have "t < vocab" using assms(5) by (simp add: list_all_iff)
    then show "t < 2 ^ 31" using assms(7) by simp
  qed
  from upload_twin [OF w assms(2,4) this] have "twin (sm_last_n s) vocab s d" "dev_ring_ok (sm_last_n s) d" by simp_all
  from fold_twin [OF w n this assms(6,7)]
  show "twin (sm_last_n s) vocab (fold sampler_observe ts s) (fold (dev_accept (sm_last_n s)) ts d)"
    "dev_ring_ok (sm_last_n s) (fold (dev_accept (sm_last_n s)) ts d)" "win_ok (ids @ ts) (fold sampler_observe ts s)"
    "sm_last_n (fold sampler_observe ts s) = sm_last_n s" by simp_all
qed

lemma armed_mask:
  assumes "arm_dev_sampler d0 s vocab = Some d" "list_all (\<lambda>t. t < vocab) ts" "x < vocab"
  shows "dv_mask (fold (dev_accept n) ts d) ! x = of_bool (x \<in> set ts)"
proof -
  have "dv_mask d = replicate vocab 0" using assms(1) by (auto simp: arm_dev_sampler_def split: if_split_asm)
  then show ?thesis using mask_seen [OF assms(2), of d "{}" n] assms(3) by simp
qed


section \<open>Rebooking\<close>

lemma sint_small: "n < 2 ^ 31 \<Longrightarrow> sint (of_nat n :: u32) = int n"
proof -
  assume n: "n < 2 ^ 31"
  then have i: "int n < 2 ^ 31" by simp
  have "uint (of_nat n :: u32) = int n" using unat_small [OF n] by (metis uint_nat)
  moreover have "signed_take_bit 31 (int n) = int n" using i by (intro signed_take_bit_int_eq_self) simp_all
  ultimately show ?thesis by (simp add: sint_uint)
qed

lemma rebook_accept:
  assumes "lastn = 0 \<or> dev_ring_ok lastn d" "drawn \<noteq> kept" "drawn < vocab" "kept < vocab" "vocab \<le> 2 ^ 31"
    and len: "length (dv_mask d) = vocab" "0 < lastn \<longrightarrow> length (dv_counts d) = vocab"
    and seen: "dv_mask d ! drawn = of_bool seen"
    and count: "0 < lastn \<longrightarrow> dv_counts (dev_accept lastn drawn d) ! drawn \<noteq> 0 \<and> dv_counts (dev_accept lastn kept d) ! kept \<noteq> 0"
  shows "rebook_dev_sampler vocab drawn kept seen lastn (dev_accept lastn drawn d) = dev_accept lastn kept d"
proof -
  have d0: "(dv_mask d)[drawn := 1, drawn := 0] = dv_mask d" if "\<not> seen"
    using seen that by (metis list_update_id list_update_overwrite of_bool_eq(1))
  have d1: "(dv_mask d)[drawn := 1] = dv_mask d" if "seen"
    using seen that by (metis list_update_id of_bool_eq(2))
  show ?thesis
  proof (cases "lastn = 0")
    case True
    then show ?thesis using assms(2-4) d0 d1
      by (cases seen) (simp_all add: rebook_dev_sampler_def rebook_plan_def dev_accept_def Let_def le_word_def)
  next
    case False
    let ?h = "at_ring 0 d" and ?f = "at_ring 1 d" and ?next = "\<lambda>h :: nat. if lastn \<le> h + 1 then 0 else h + 1"
    define ring where "ring = (if lastn \<le> ?f then dv_ring d else (dv_ring d)[1 := of_nat (?f + 1)])"
    define counts where "counts = (if lastn \<le> ?f then (dv_counts d)[at_ring (2 + ?h) d := dv_counts d ! at_ring (2 + ?h) d - 1] else dv_counts d)"
    have acc: "dev_accept lastn t d = d\<lparr>dv_mask := (dv_mask d)[t := 1], dv_counts := counts[t := counts ! t + 1],
        dv_ring := ring[2 + ?h := of_nat t, 0 := of_nat (?next ?h)]\<rparr>" for t
      using False by (simp add: dev_accept_def Let_def ring_def counts_def at_ring_def)
    have r: "dev_ring_ok lastn d" "?h < lastn" "lastn \<le> 1024" "length ring = 1026" using assms(1) False
      by (auto simp: dev_ring_ok_def SAMPLE_RING_MAX_def ring_def)
    have lc: "length counts = vocab" using len(2) False by (simp add: counts_def)
    have head: "dv_ring (dev_accept lastn drawn d) ! 0 = of_nat (?next ?h)" using r(4) by (simp add: acc)
    have slot: "(nat (sint (of_nat (?next ?h) :: u32)) + lastn - 1) mod lastn = ?h"
    proof (cases "lastn \<le> ?h + 1")
      case True
      then show ?thesis using r(2) by simp
    next
      case no: False
      then have "sint (of_nat (?h + 1) :: u32) = int (?h + 1)" using r(2,3) by (intro sint_small) simp
      then have "nat (sint (of_nat (?next ?h) :: u32)) + lastn - 1 = ?h + lastn" using no by (simp only: if_False nat_int)
      then show ?thesis using r(2) by simp
    qed
    have cd: "counts ! drawn + 1 \<noteq> 0" "counts ! kept + 1 \<noteq> 0" using count False assms(3,4) lc by (simp_all add: acc)
    then have ck: "counts ! kept \<noteq> - 1" by auto
    have words: "le_word (le_bytes 4 (of_nat kept :: u32)) = (of_nat kept :: u32)" "le_word (le_bytes 2 v) = v" for v :: "16 word"
      by (rule le_word_bytes; simp)+
    have bytes: "le_word [0] = (0 :: u8)" "le_word [1] = (1 :: u8)" by (simp_all add: le_word_def)
    have mask: "(if seen then (dv_mask d)[drawn := 1] else (dv_mask d)[drawn := 1, drawn := 0]) = dv_mask d" using d0 d1 by simp
    have ring': "ring[2 + ?h := of_nat drawn, 0 := w, 2 + ?h := of_nat kept] = ring[2 + ?h := of_nat kept, 0 := w]" for w
      by (simp add: list_update_swap [of 0])
    have counts': "counts[drawn := counts ! drawn + 1, drawn := counts ! drawn, kept := x] = counts[kept := x]" for x by simp
    have "rebook_dev_sampler vocab drawn kept seen lastn (dev_accept lastn drawn d) = fold upload_into
        (rebook_plan drawn kept seen lastn (of_nat (?next ?h)) (counts ! drawn + 1) (counts ! kept)) (dev_accept lastn drawn d)"
      using False assms(2-4) head lc by (simp add: rebook_dev_sampler_def) (simp add: acc)
    also have "fold upload_into (rebook_plan drawn kept seen lastn (of_nat (?next ?h)) (counts ! drawn + 1) (counts ! kept)) (dev_accept lastn drawn d)
      = d\<lparr>dv_mask := (if seen then (dv_mask d)[drawn := 1] else (dv_mask d)[drawn := 1, drawn := 0])[kept := 1],
          dv_counts := counts[drawn := counts ! drawn + 1, drawn := counts ! drawn, kept := counts ! kept + 1],
          dv_ring := ring[2 + ?h := of_nat drawn, 0 := of_nat (?next ?h), 2 + ?h := of_nat kept]\<rparr>"
      using False assms(2) cd(1) ck unfolding rebook_plan_def slot acc
      by (simp add: words bytes Let_def)
    also have "\<dots> = dev_accept lastn kept d" by (simp only: mask ring' counts' acc)
    finally show ?thesis .
  qed
qed

text \<open>
  C9: A booking can be moved. When the tool grammar replaces the id the device drew and booked, the
  few writes of \<open>rebook_plan\<close> leave the device in the state it would have if it had booked the
  kept id: mask, ring, head, fill and counts, an eviction by the drawn id included, with the window
  armed or not. \<open>drawn_seen\<close> is whether the drawn id was in this answer before; the window is no
  deeper than the ring, and the vocabulary fits 31 bits.
\<close>

theorem rebook_moves_the_booking:
  assumes "sm_last_n s0 \<le> SAMPLE_RING_MAX" "s = observe_prompt ids s0" "arm_dev_sampler d0 s vocab = Some d"
    "list_all (\<lambda>t. t < vocab) ids" "list_all (\<lambda>t. t < vocab) ts" "vocab \<le> 2 ^ 31" "drawn < vocab" "kept < vocab" "drawn \<noteq> kept"
  shows "let d' = fold (dev_accept (device_depth s)) ts d in
    rebook_dev_sampler vocab drawn kept (drawn \<in> set ts) (device_depth s) (dev_accept (device_depth s) drawn d')
      = dev_accept (device_depth s) kept d'"
proof -
  let ?d = "fold (dev_accept (device_depth s)) ts d"
  have mask: "length (dv_mask ?d) = vocab" "dv_mask ?d ! drawn = of_bool (drawn \<in> set ts)"
  proof -
    have "dv_mask d = replicate vocab 0" using assms(3) by (auto simp: arm_dev_sampler_def split: if_split_asm)
    then show "length (dv_mask ?d) = vocab" using mask_seen [OF assms(5), of d "{}"] by simp
    show "dv_mask ?d ! drawn = of_bool (drawn \<in> set ts)" by (rule armed_mask [OF assms(3,5,7)])
  qed
  show ?thesis
  proof (cases "win_armed s")
    case False
    then have "device_depth s = 0" by (simp add: device_depth_def)
    then show ?thesis using rebook_accept [of 0 ?d drawn kept vocab] mask assms(6-9) by simp
  next
    case True
    note a = armed_device [OF assms(1) True assms(2,3,4,5,6)]
    let ?s = "fold sampler_observe ts s"
    have booked: "dv_counts (dev_accept (sm_last_n s) t (fold (dev_accept (sm_last_n s)) ts d)) ! t \<noteq> 0" if "t < vocab" for t
    proof -
      have "dv_counts (dev_accept (sm_last_n s) t (fold (dev_accept (sm_last_n s)) ts d)) ! t = win_count t (win_push t ?s)"
        using accept_twin [OF a(4) _ _ _ that assms(6)] a(2,3,5,6) that by (simp add: twin_def)
      moreover have "unat (win_count t (win_push t ?s)) = count_list (sm_win (win_push t ?s)) t"
        using win_push_ok [OF a(4), of t] by (simp add: win_ok_def)
      moreover have "t \<in> set (sm_win (win_push t ?s))" using win_push_view(1) [OF a(4), of t] a(5,6) by simp
      ultimately show ?thesis by (metis count_list_0_iff unat_0)
    qed
    have len: "length (dv_counts (fold (dev_accept (sm_last_n s)) ts d)) = vocab" using a(2) by (simp add: twin_def)
    show ?thesis
      using rebook_accept [of "sm_last_n s" ?d drawn kept vocab] mask assms(6-9) a(1,3) booked len by (simp add: Let_def)
  qed
qed

section \<open>A small device\<close>

text \<open>A window of two ids, armed by a repeat penalty, on a vocabulary of eight.\<close>

definition demo_sampler :: sampling where
  "demo_sampler = (sampler_new 7)\<lparr>sm_repeat := Fin 3 (- 1), sm_last_n := 2\<rparr>"

definition demo_device :: dev_sampler where
  "demo_device = \<lparr>dv_mask = [], dv_rng = 0, dv_counts = [], dv_ring = []\<rparr>"

lemma demo_compares: "\<not> f_eq (Fin 3 (- 1)) f_one" "f_eq f_zero f_zero" "\<not> f_gt f_zero f_zero" "\<not> f_lt f_one f_one"
  by code_simp+

lemma demo_prompt: "observe_prompt [] demo_sampler = demo_sampler" "win_armed demo_sampler" "sm_last_n demo_sampler \<le> SAMPLE_RING_MAX"
  "\<not> host_route demo_sampler" "\<not> top_k_needs_host demo_sampler" "sm_win_counts demo_sampler = Map.empty"
  by (simp_all add: demo_sampler_def sampler_new_def observe_prompt_def tail_of_def win_armed_def dry_armed_def demo_compares SAMPLE_RING_MAX_def
      host_route_def top_k_needs_host_def SAMPLE_MAXK_def)

lemma demo_armed: "\<exists>d. arm_dev_sampler demo_device demo_sampler 8 = Some d"
  by (simp add: arm_dev_sampler_def demo_prompt)


lemma rebook_moves_the_booking_witness:
  "\<exists>d. arm_dev_sampler demo_device demo_sampler 8 = Some d
    \<and> (let d' = fold (dev_accept (device_depth demo_sampler)) [1, 2, 3] d in
        rebook_dev_sampler 8 2 5 True (device_depth demo_sampler) (dev_accept (device_depth demo_sampler) 2 d') = dev_accept (device_depth demo_sampler) 5 d')"
proof -
  obtain d where d: "arm_dev_sampler demo_device demo_sampler 8 = Some d" using demo_armed by blast
  from rebook_moves_the_booking [OF demo_prompt(3) demo_prompt(1) [symmetric] d, of "[1, 2, 3]" 2 5] d show ?thesis
    by (auto simp: Let_def)
qed

end
