(* ===== verification/SamplerLogprobs.thy ===== *)
theory SamplerLogprobs
  imports SamplerChoice
begin

text \<open>
  \<open>pos_logprobs\<close> of \<open>engine/src/sample.rs\<close>: the log-probabilities of one position off the raw row, as
  the \<open>logprobs\<close> of a response carry them.
\<close>

definition MAX_TOP_LOGPROBS :: nat where "MAX_TOP_LOGPROBS = 20"
definition LOGPROB_FLOOR :: f64 where "LOGPROB_FLOOR = Fin (- 9999) 0"

record pos_lp =
  pl_chosen :: nat
  pl_chosen_lp :: f64
  pl_top :: "(nat \<times> f64) list"

definition is_finite :: "f64 \<Rightarrow> bool" where
  "is_finite a \<longleftrightarrow> (case a of Fin _ _ \<Rightarrow> True | _ \<Rightarrow> False)"

text \<open>One entry of the row: a NaN is skipped, a later index never displaces an equal earlier one.\<close>

definition note_top :: "nat \<Rightarrow> nat \<times> f64 \<Rightarrow> (nat \<times> f64) list \<Rightarrow> (nat \<times> f64) list" where
  "note_top n c best = (if snd c = NaN then best
     else if 0 < n \<and> (length best < n \<or> f_gt (snd c) (snd (best ! (length best - 1))))
       then let t = insert_after c best in if n < length t then butlast t else t
       else best)"

definition row_max :: "f64 list \<Rightarrow> f64" where
  "row_max row = foldl (\<lambda>m l. if l \<noteq> NaN \<and> f_gt l m then l else m) (Infty True) row"

definition log_prob :: "f64 \<Rightarrow> f64 \<Rightarrow> f64" where
  "log_prob lnz l = (let v = f_sub l lnz in if is_finite v then v else LOGPROB_FLOOR)"

definition pos_logprobs :: "math \<Rightarrow> f64 list \<Rightarrow> nat \<Rightarrow> nat \<Rightarrow> pos_lp" where
  "pos_logprobs M row chosen n = (let
       n = min (min n MAX_TOP_LOGPROBS) (length row);
       best = fold (note_top n) (enumerate 0 row) [];
       maxv = row_max row;
       z = (if is_finite maxv then foldl (\<lambda>z l. if l \<noteq> NaN then f_add z (m_exp M (f32_sub l maxv)) else z) f_zero row else f_zero);
       lnz = f_add maxv (m_ln M z)
     in \<lparr>pl_chosen = chosen, pl_chosen_lp = (if chosen < length row then log_prob lnz (row ! chosen) else LOGPROB_FLOOR),
         pl_top = map (\<lambda>c. (fst c, log_prob lnz (snd c))) best\<rparr>)"

section \<open>The most likely ids\<close>

lemma note_top_step:
  assumes "numbers pre" "snd c \<noteq> NaN"
  shows "note_top n c (take n (sort_by cmp_desc pre)) = take n (sort_by cmp_desc (pre @ [c]))"
proof -
  let ?zs = "sort_by cmp_desc pre"
  have s: "sort_by cmp_desc (pre @ [c]) = insert_below c ?zs" by (rule sort_snoc [OF assms(2,1)])
  consider "n = 0" | "0 < n" "n \<le> length pre" | "length pre < n" by linarith
  then show ?thesis
  proof cases
    case 2
    then have l: "length (take n ?zs) = n" by simp
    have "top_k_step n c (take n ?zs) = Some (note_top n c (take n ?zs))"
      using 2 assms(2) l by (simp add: top_k_step_def note_top_def Let_def insert_after_length)
    then show ?thesis using top_k_step_take [OF assms, of n] 2 by simp
  next
    case 3
    have "numbers ?zs" using assms(1) by (simp add: numbers_def)
    then have "insert_after c ?zs = insert_below c ?zs" by (rule insert_after_below [OF assms(2)])
    then show ?thesis using 3 assms(2) s by (simp add: note_top_def Let_def)
  qed (simp add: note_top_def)
qed

lemma note_top_fold:
  "fold (note_top n) cs (take n (sort_by cmp_desc (filter (\<lambda>c. snd c \<noteq> NaN) pre)))
    = take n (sort_by cmp_desc (filter (\<lambda>c. snd c \<noteq> NaN) (pre @ cs)))"
proof (induction cs arbitrary: pre)
  case (Cons c cs)
  let ?num = "\<lambda>c :: nat \<times> f64. snd c \<noteq> NaN"
  have n: "numbers (filter ?num pre)" by (simp add: numbers_def)
  have step: "note_top n c (take n (sort_by cmp_desc (filter ?num pre))) = take n (sort_by cmp_desc (filter ?num (pre @ [c])))"
  proof (cases "snd c = NaN")
    case False
    then have "filter ?num (pre @ [c]) = filter ?num pre @ [c]" by simp
    then show ?thesis using note_top_step [OF n False] by (simp only:)
  qed (simp add: note_top_def)
  have "fold (note_top n) (c # cs) (take n (sort_by cmp_desc (filter ?num pre)))
      = fold (note_top n) cs (take n (sort_by cmp_desc (filter ?num (pre @ [c]))))"
    by (simp only: fold_simps step)
  also have "\<dots> = take n (sort_by cmp_desc (filter ?num (pre @ c # cs)))" by (subst Cons.IH) simp
  finally show ?case .
qed simp

lemma finite_log_prob: "is_finite (log_prob lnz l)"
  by (simp add: log_prob_def LOGPROB_FLOOR_def is_finite_def Let_def)

text \<open>
  The reported ids are the most likely ones: the at most 20 largest entries of the row that are no
  NaN, by value descending and index ascending, and every log-probability reported, of them and of
  the chosen id, is a finite number, whatever the row holds and wherever the chosen id lies.
\<close>

theorem pos_logprobs_top:
  "let r = pos_logprobs M row chosen n in
     map fst (pl_top r) = map fst (take (min n 20) (sort_by cmp_desc (filter (\<lambda>c. snd c \<noteq> NaN) (enumerate 0 row))))
     \<and> list_all (\<lambda>p. is_finite (snd p)) (pl_top r) \<and> is_finite (pl_chosen_lp r)"
proof -
  let ?num = "\<lambda>c :: nat \<times> f64. snd c \<noteq> NaN"
  let ?ranked = "sort_by cmp_desc (filter ?num (enumerate 0 row))"
  have "length ?ranked \<le> length row" using length_filter_le [of ?num "enumerate 0 row"] by simp
  then have t: "take (min (min n MAX_TOP_LOGPROBS) (length row)) ?ranked = take (min n 20) ?ranked"
    by (simp add: MAX_TOP_LOGPROBS_def min_def)
  have "fold (note_top k) (enumerate 0 row) [] = take k ?ranked" for k
    using note_top_fold [of k "enumerate 0 row" "[]"] by (simp add: sort_by_def)
  then show ?thesis
    by (simp add: pos_logprobs_def Let_def t finite_log_prob list_all_iff comp_def) (simp add: LOGPROB_FLOOR_def is_finite_def)
qed

end
