(* ===== verification/Spec2Isabelle.thy ===== *)
theory Spec2Isabelle
  imports Lend ExpertCacheLru StopStrings PrefixCacheRules ToolCallTemplate TrickleRun Sidecar GrammarLive NvmePoolLive SamplerChoice SamplerDevice SamplerLogprobs
begin

text \<open>
  Verification of the serving core of crow-nest, an inference server written in Rust
  (\<open>engine/\<close>): the components that decide what the server does with a request, with the memory
  of the GPU and with the text of an answer, as opposed to the kernels that compute the logits.

  \<^bold>\<open>The program.\<close> \<open>engine/src/bin/serve.rs\<close> runs one accept loop on one thread. A request is
  routed, parked while VRAM is lent to another process (\<open>lend.rs\<close>), or dispatched. A chat
  request renders its prompt to ids, asks the prefix cache (\<open>cache.rs\<close>) which held state it can
  roll back to, prefills the rest (\<open>gen.rs\<close>) and takes snapshots. It then draws one id after the
  other from the row of logits (\<open>sample.rs\<close>, or the kernel \<open>sample_k\<close> with the buffers \<open>gen.rs\<close>
  arms): the tool grammar (\<open>toolgrammar.rs\<close>) checks each drawn id and masks a redraw; the text of
  the kept id goes through the reasoning filter (\<open>ThinkFilter\<close> in \<open>serve.rs\<close>), the tool-call
  parser (\<open>toolcall.rs\<close>) and the stop-string filter (\<open>stopstr.rs\<close>). Between tokens the engine
  moves mixture experts between VRAM and pinned host memory (\<open>residency.rs\<close>, \<open>gen.rs\<close>), led by
  the counts of an expert cache (\<open>expert_cache.rs\<close>), or reads them from the container with a pool of
  worker threads (\<open>nvme_source.rs\<close>). A conversation can be saved to and restored
  from a slot file (\<open>slot.rs\<close>).

  \<^bold>\<open>Conventions.\<close> Rust structs are records, enums datatypes, \<open>u32\<close>/\<open>u64\<close> values whose wrap-around
  matters are words; small counters are natural numbers, reduced where the code casts. A function
  that can panic returns an option and \<open>None\<close> is the panic (an index out of range, \<open>unwrap\<close>,
  \<open>expect\<close>, \<open>assert!\<close>, \<open>unreachable!\<close>, or a slice out of order); a refused request is a value of a
  sum type. Strings are byte lists. Definitions keep the names of the code; where a Rust function
  is one long loop, its body and its loop are two definitions mapped to the same lines.

  \<^bold>\<open>Theories, in dependency order.\<close>

  \<^item> \<open>Prelude\<close>: machine integers, byte strings, checked arithmetic, the iterator operations of the
    code, the collections of simplification rules shared below.
  \<^item> \<open>Lend\<close>: \<open>lend.rs\<close> (gate, queue, body of a lend request) and the accept loop, \<open>accept_one\<close>,
    \<open>drain_parked\<close>, \<open>vram_lend\<close>, \<open>vram_return\<close>, \<open>route\<close> of \<open>serve.rs\<close>. The queue discipline is
    the locale \<open>gated_queue\<close>. Shown: engine requests run in arrival order, each once, never
    while VRAM is lent; a due turn returns the memory and drains the queue; the contract of the
    body of a lend request, wrap-around of \<open>mib << 20\<close> included.
  \<^item> \<open>Float64\<close>, \<open>ExpertCache\<close>, \<open>ExpertCacheInv\<close>, \<open>ExpertCacheState\<close>, \<open>ExpertCacheLru\<close>:
    \<open>expert_cache.rs\<close>, all three policies, the LFU arithmetic in exact binary64. The contract of a
    placement policy is the locale \<open>placement\<close>. Shown: the exclusivity invariant of every
    reachable cache, no panic, exact counters, the dry run \<open>tiers_after\<close>, and the refinement of an
    abstract recency stack by the LRU pools.
  \<^item> \<open>Markers\<close>, \<open>StopStrings\<close>: \<open>find_marker\<close> of \<open>toolcall.rs\<close>, with the contract its clients need
    as the locale \<open>marker_scan\<close>, and \<open>stopstr.rs\<close>. Shown: the answer is cut at the first stop the
    text completes, no part of a stop leaves before it, and independence of how the text is cut
    into pieces when no stop is nested in another.
  \<^item> \<open>PrefixCache\<close>, \<open>PrefixCacheSafe\<close>, \<open>SlotHeader\<close>, \<open>SlotFile\<close>, \<open>PrefixCacheServe\<close>,
    \<open>PrefixCacheRules\<close>: \<open>cache.rs\<close>, \<open>reset.rs\<close>, the engine state it copies (\<open>gen.rs\<close>,
    \<open>geo.rs\<close>), the prompt part of \<open>chat_generate\<close>, and \<open>slot.rs\<close>. Shown: in every serving state a
    prompt served from the cache leaves the engine, the logits row and the greedy id of a cold
    prefill; the decision rules; the memory bound of a park; round trips of the slot header and of
    save and restore; atomic saves under any fault; a refused restore changes nothing.
  \<^item> \<open>Json\<close>, \<open>ToolCall\<close>, \<open>ToolCallInv\<close>, \<open>ToolCallArgs\<close>, \<open>ToolCallTemplate\<close>: the parser
    \<open>ToolStream\<close> of \<open>toolcall.rs\<close> for both markups, its argument repair, and serde_json's values.
    The invariant over the events sent is the locale \<open>wire_invariant\<close>. Shown: every byte leaves
    exactly once, the arguments on the wire are one JSON object per call, abandoned calls are
    recorded, markup without an armed id stays content, a call rendered by the GLM template is read
    back.
  \<^item> \<open>Think\<close>: \<open>ThinkFilter\<close> of \<open>serve.rs\<close>, both closing modes. Shown: independence of the cut, and
    that a block closed by id keeps every byte before the closing tag as reasoning and is closed
    from there on.
  \<^item> \<open>Float32\<close>, \<open>SamplerState\<close>, \<open>SamplerInv\<close>, \<open>SamplerDraw\<close>, \<open>SamplerChoice\<close>,
    \<open>SamplerLogprobs\<close>: \<open>sample.rs\<close>, in exact binary32 and binary64: the random stream, the penalty
    windows, the breakers and the repeat scan of DRY, the truncations, the two draws, and the
    log-probabilities of a position. Shown: the windows hold exactly the last ids, the random stream
    never dies, the repeat scan equals the naive one, the default breakers are single ids, top-k is
    a prefix of the sorted row, the drawn id is an index of the row, a draw with typical-p off
    returns unless a logit is no number, and typical-p panics on a masked candidate.
  \<^item> \<open>SamplerDevice\<close>: what \<open>arm_dev_sampler\<close> of \<open>gen.rs\<close> uploads, the booking at the end of
    \<open>sample_k\<close> in \<open>kernels.rs\<close>, and the writes of \<open>rebook_dev_sampler\<close>. Shown: ring, counts and
    mask of the device stay those of the host sampler, and a booking moved to another id is the
    booking of that id.
  \<^item> \<open>Grammar\<close>, \<open>GrammarStep\<close>, \<open>GrammarChoice\<close>, \<open>GrammarInv\<close>, \<open>GrammarBuild\<close>, \<open>GrammarVocab\<close>,
    \<open>GrammarTrie\<close>, \<open>GrammarMask\<close>, \<open>GrammarExample\<close>, \<open>GrammarGate\<close>, \<open>GrammarLiveJson\<close>,
    \<open>GrammarLive\<close>: \<open>toolgrammar.rs\<close> as a whole (schema compiler, byte machine, preorder trie over
    the vocabulary, mask of a state, gate of a request) and the draw, redraw and admission of an id
    in \<open>serve.rs\<close>. What the draw relies on is the locale \<open>mask_gate\<close>. Shown: what the compiler
    accepts is well formed, no byte panics the machine, the walk over the trie ends and its mask is
    exactly the check of each id, a kept id is admitted, and every opened call can be closed.
  \<^item> \<open>Residency\<close>, \<open>ResidencyPlan\<close>, \<open>ResidencySwap\<close>, \<open>Sidecar\<close>, \<open>Trickle\<close>, \<open>TrickleInv\<close>,
    \<open>TrickleSafe\<close>, \<open>TrickleRun\<close>: the slots, indices, tables and bitmaps of \<open>residency.rs\<close>, both
    planners, the swaps of every tier, and the re-cut, the tick, the deferred batch and the drain of
    \<open>gen.rs\<close>. Copies in flight are explicit: a phase writes its target when it is committed, and
    the memory in between is arbitrary. Shown: the pointer table always names a spot that holds the
    expert and is no target of a copy in flight, no call panics, the bundled exchange equals the
    sequential one, the unbounded re-cut leaves the most selected experts resident, a drain ends
    with nothing in flight, and what a sidecar file is read as.
  \<^item> \<open>NvmePool\<close>, \<open>NvmePoolInv\<close>, \<open>NvmePoolLive\<close>: the piece pool of \<open>nvme_source.rs\<close>. A worker is a
    program counter, and a step is what it does under one hold of the lock or one atomic access; a
    read returns bytes of the container, end of file, an error or an interruption. Shown over every
    interleaving: a ticket that completes without an error means published bytes, every fetch is
    answered once the workers have settled, an endless run is one that retries an interrupted read
    for ever, and \<open>Drop\<close> joins every worker when the cap of the demand queue does not bind; a
    binding cap can sleep through the close.

  \<^bold>\<open>Parameters and hypotheses.\<close> The forward pass is an argument with no law but determinism: the
  state after an input depends on the state before it and the input. serde_json is an argument:
  \<open>serde_laws\<close> and \<open>printer_laws\<close> say that a string is printed in quotes, byte by byte with JSON
  escapes and injectively, that no printed value is empty or starts with a blank, and that an
  accepted text is JSON; \<open>maps_ok\<close> says that a parsed object has distinct keys. Witnesses
  instantiate them with concrete functions. Device copies are the identity on bytes. The sampler is
  an argument of the loop in \<open>GrammarGate\<close> (\<open>draw_of\<close>, \<open>observe\<close>), so that its results hold for any
  draw; the one of \<open>sample.rs\<close> is modelled beside it, with the exponential, the logarithms, the
  power and the square root of the math library as arguments (\<open>ieee_exp_ln\<close>: the exponential of
  minus infinity is 0, the logarithm of 0 minus infinity, and NaN is passed on). The
  selection counts of a re-cut are an argument. Reachability of the residency (\<open>booted\<close>) is stated for
  the exact tier with at least one spare slot per layer, the default under \<open>adapt_stream\<close>, the mode
  in which the server ticks; a single swap (\<open>swap_result_ok\<close>) is proved for both tiers. A re-cut and a tick
  that ends a token are steps only with nothing parked or in flight (\<open>op_fits\<close>): the callers drain
  first, the code does not check it, and \<open>recut_on_parked_breaks_drain\<close> shows what happens
  otherwise. A spurious wake-up of a waiting worker is a step of \<open>pool_reach\<close>, not one of the
  worker. The compression ratio of the pooled rows is four, as in the shipped geometry, and
  the environment variable for balanced chunks is off. \<open>small_grammar\<close> and \<open>vocab_small\<close> bound the
  tables by the width of the indices of the code (\<open>u16\<close> and \<open>u32\<close>); beyond them the code truncates.

  \<^bold>\<open>Loops and fuel.\<close> Recursion is structural or has a measure; the walk of the mask is a partial
  function, so that not returning is \<open>None\<close>, and is proved to return. The CLOCK sweep
  ends because every step of the hand clears a reference bit; the drain of the trickle is two ticks
  and their launches, straight-line as in the code, and is proved to settle within them.

  \<^bold>\<open>Not modelled.\<close> CUDA kernels and driver calls (\<open>kernels.rs\<close>, \<open>cuda.rs\<close>, the forward pass in
  \<open>gen.rs\<close>, \<open>vit.rs\<close>, \<open>glm5_*.rs\<close>), the draw inside \<open>sample_k\<close> included: floating-point device code
  outside the kernel's reach. The readers behind a piece of the pool (overlapped reads, rings), the
  place of a record in the container and the environment variables that choose between them. Sockets,
  HTTP and the response bodies, log lines and wall-clock statistics: input and output. Speculative
  decoding, the file reads and memory guards of the model load, and the converter: left out. Probes,
  benchmarks and scripts are not part of the server.
\<close>

end
